(* ===== verification/Clks_Prelude.thy ===== *)
theory Clks_Prelude
  imports Main "HOL-Library.Word" "HOL-Library.Monad_Syntax" "HOL-Library.While_Combinator"
begin

text \<open>
  Shared vocabulary of the development: the integer types of \<open>include/clks/types.h\<close>, the
  arithmetic of \<open>usize\<close> and \<open>u32\<close> values that are kept as natural numbers (with the
  wrap-around written out), words that are masked with a power of two, lists updated by index,
  counting over lists, the array-backed stacks and rings the kernel uses, and the collections of
  rewrite rules the component theories share.
\<close>

unbundle bit_operations_syntax

section \<open>The integer types of the kernel\<close>

type_synonym u8 = "8 word"
type_synonym u16 = "16 word"
type_synonym u32 = "32 word"
type_synonym u64 = "64 word"

text \<open>The rules that unfold the constants of the source (page sizes, table sizes, flags).\<close>

named_theorems clks_consts
named_theorems clks_wrap

section \<open>Sizes and indices kept as natural numbers\<close>

text \<open>
  \<open>usize\<close> is \<open>u64\<close> (\<open>types.h\<close>). Where the model keeps such a value as a \<open>nat\<close>, it stands
  for a value below \<open>2 ^ 64\<close> and each operation that may wrap is one of these.
\<close>

definition USIZE_RANGE :: nat where
  "USIZE_RANGE = 18446744073709551616"

definition add64 :: "nat \<Rightarrow> nat \<Rightarrow> nat" where
  "add64 a b = (a + b) mod USIZE_RANGE"

definition sub64 :: "nat \<Rightarrow> nat \<Rightarrow> nat" where
  "sub64 a b = (a + (USIZE_RANGE - b mod USIZE_RANGE)) mod USIZE_RANGE"

definition add32 :: "nat \<Rightarrow> nat \<Rightarrow> nat" where
  "add32 a b = (a + b) mod 4294967296"

text \<open>\<open>v & ~(a - 1)\<close> for a power of two \<open>a\<close>, on a value kept as a natural number.\<close>

definition mask_down :: "nat \<Rightarrow> nat \<Rightarrow> nat" where
  "mask_down a v = v - v mod a"

lemma add64_small [clks_wrap]: "a + b < USIZE_RANGE \<Longrightarrow> add64 a b = a + b"
  by (simp add: add64_def)

lemma add64_less: "add64 a b < USIZE_RANGE"
  by (simp add: add64_def USIZE_RANGE_def)

lemma sub64_small [clks_wrap]: "b \<le> a \<Longrightarrow> a < USIZE_RANGE \<Longrightarrow> sub64 a b = a - b"
proof -
  assume "b \<le> a" and "a < USIZE_RANGE"
  then have "a + (USIZE_RANGE - b) = (a - b) + USIZE_RANGE" and "b mod USIZE_RANGE = b"
    and "(a - b) mod USIZE_RANGE = a - b" by simp_all
  then show ?thesis by (simp only: sub64_def mod_add_self2)
qed

lemma sub64_less: "sub64 a b < USIZE_RANGE"
  by (simp add: sub64_def USIZE_RANGE_def)

lemma add32_small [clks_wrap]: "a + b < 4294967296 \<Longrightarrow> add32 a b = a + b"
  by (simp add: add32_def)

lemma mask_down_le: "mask_down a v \<le> v"
  by (simp add: mask_down_def)

lemma mask_down_mod [simp]: "mask_down a v mod a = 0"
  by (simp add: mask_down_def minus_mod_eq_mult_div)

lemma mask_down_eq: "mask_down a v = a * (v div a)"
  by (simp add: mask_down_def minus_mod_eq_mult_div)

section \<open>Words masked with a power of two\<close>

lemma and_not_mask_nat:
  fixes w :: "'a::len word"
  shows "unat (w AND NOT (mask n)) = unat w - unat w mod 2 ^ n"
proof -
  have "w AND NOT (mask n) = push_bit n (drop_bit n w)"
    by (rule bit_word_eqI) (auto simp: bit_simps)
  then have "w AND NOT (mask n) = w - (w AND mask n)"
    using bits_ident [of n w] by (simp add: take_bit_eq_mask algebra_simps)
  moreover have "unat (w AND mask n) = unat w mod 2 ^ n"
    by (simp flip: take_bit_eq_mask take_bit_eq_mod add: unsigned_take_bit_eq)
  moreover have "w AND mask n \<le> w"
    by (rule word_and_le2)
  ultimately show ?thesis by (simp add: unat_sub)
qed

lemma and_mask_nat:
  fixes w :: "'a::len word"
  shows "unat (w AND mask n) = unat w mod 2 ^ n"
  by (simp flip: take_bit_eq_mask take_bit_eq_mod add: unsigned_take_bit_eq)

lemma u64_bound: "unat (w :: u64) < 18446744073709551616"
  by (rule order_less_le_trans, rule unsigned_less) simp

lemma u32_bound: "unat (w :: u32) < 4294967296"
  by (rule order_less_le_trans, rule unsigned_less) simp

lemma u16_bound: "unat (w :: u16) < 65536"
  by (rule order_less_le_trans, rule unsigned_less) simp

lemma u8_bound: "unat (w :: u8) < 256"
  by (rule order_less_le_trans, rule unsigned_less) simp

lemma unat_plus_small:
  fixes a b :: "'a::len word"
  shows "unat a + unat b < 2 ^ LENGTH('a) \<Longrightarrow> unat (a + b) = unat a + unat b"
  by (simp add: unat_word_ariths)

lemma unat_inc: "n \<noteq> - 1 \<Longrightarrow> unat (n + 1) = Suc (unat n)" for n :: u64
proof -
  assume "n \<noteq> - 1"
  then have "unat n \<noteq> unat (- 1 :: u64)" using word_unat_eq_iff by blast
  moreover have "unat (- 1 :: u64) = 18446744073709551615"
    by (simp add: unsigned_minus_1_eq_mask mask_eq_exp_minus_1)
  ultimately have "unat n \<noteq> 18446744073709551615" by argo
  with u64_bound [of n] have "unat n + unat (1 :: u64) < 2 ^ 64" by simp
  then show ?thesis by (subst unat_plus_small) simp_all
qed

lemma u64_max_literal: "(18446744073709551615 :: u64) = - 1"
  by (simp add: word_eq_iff_unsigned)

lemma word_inc: "n \<noteq> - 1 \<Longrightarrow> n < n + 1 \<and> n + 1 \<noteq> 0" for n :: u64
  using unat_inc [of n] by (auto simp: word_less_nat_alt)

section \<open>Lists updated by index, and counting\<close>

lemma filter_list_update_length:
  assumes "i < length xs"
  shows "length (filter P (xs[i := x])) + (if P (xs ! i) then 1 else 0)
       = length (filter P xs) + (if P x then 1 else 0)"
  using assms
proof (induction xs arbitrary: i)
  case Nil
  then show ?case by simp
next
  case (Cons y ys)
  then show ?case by (cases i) (auto split: if_splits)
qed

lemma distinct_snoc: "distinct (xs @ [x]) \<longleftrightarrow> distinct xs \<and> x \<notin> set xs"
  by auto

lemma option_eqI: "(\<And>x. a = Some x \<longleftrightarrow> b = Some x) \<Longrightarrow> a = b"
  by (metis not_Some_eq)

text \<open>The index searches of the source, \<open>for (i = 0; i < n; i++) if (P(i)) return i;\<close>.\<close>

lemma find_Some_in: "find P xs = Some x \<Longrightarrow> x \<in> set xs \<and> P x"
  by (auto simp: find_Some_iff)

lemma find_upt_Some: "find P [0..<n] = Some i \<Longrightarrow> i < n \<and> P i \<and> (\<forall>j < i. \<not> P j)"
  by (auto simp: find_Some_iff)

lemma find_upt_None: "find P [0..<n] = None \<longleftrightarrow> (\<forall>i < n. \<not> P i)"
  by (auto simp: find_None_iff)

lemma find_upt_unique:
  assumes "i < n" "P i" "\<And>j. j < n \<Longrightarrow> P j \<Longrightarrow> j = i"
  shows "find P [0..<n] = Some i"
proof (cases "find P [0..<n]")
  case None
  with assms(1,2) show ?thesis by (auto simp: find_None_iff)
next
  case (Some j)
  with find_upt_Some [OF Some] assms(3) show ?thesis by simp
qed

section \<open>Array-backed stacks\<close>

text \<open>
  An array with a fill count, as \<open>pmm.c\<close> keeps its free pages: the live part is the list of the
  first \<open>n\<close> cells, a push writes cell \<open>n\<close>, a pop forgets the last cell.
\<close>

definition live_part :: "(nat \<Rightarrow> 'a) \<Rightarrow> nat \<Rightarrow> 'a list" where
  "live_part f n = map f [0..<n]"

lemma live_part_0 [simp]: "live_part f 0 = []"
  by (simp add: live_part_def)

lemma live_part_length [simp]: "length (live_part f n) = n"
  by (simp add: live_part_def)

lemma live_part_push [simp]: "live_part (f(n := x)) (Suc n) = live_part f n @ [x]"
  by (simp add: live_part_def)

lemma live_part_Suc: "live_part f (Suc n) = live_part f n @ [f n]"
  by (simp add: live_part_def)

end
