(* ===== verification/Clks_Pmm.thy ===== *)
theory Clks_Pmm
  imports Clks_Prelude
begin

text \<open>
  The physical page allocator, \<open>kernel/memory/pmm.c\<close>: a stack of free page frames in an array of
  262144 cells, filled from the boot loader's memory map and then pushed and popped.
  \<open>clks_pmm_free_stack\<close>, \<open>clks_pmm_free_top\<close>, \<open>clks_pmm_managed_pages\<close> and
  \<open>clks_pmm_dropped_pages\<close> are the fields of \<open>pmm_state\<close>. The inner loop of \<open>clks_pmm_init\<close> is
  a \<open>while_option\<close>: \<open>None\<close> would be a loop that does not end.
\<close>

section \<open>State and operations\<close>

definition CLKS_PAGE_SIZE :: u64 where [clks_consts]:
  "CLKS_PAGE_SIZE = 4096"

definition CLKS_PMM_MAX_TRACKED_PAGES :: nat where [clks_consts]:
  "CLKS_PMM_MAX_TRACKED_PAGES = 262144"

definition CLKS_PMM_MIN_USABLE_ADDR :: u64 where [clks_consts]:
  "CLKS_PMM_MIN_USABLE_ADDR = 0x100000"

definition LIMINE_MEMMAP_USABLE :: u64 where [clks_consts]:
  "LIMINE_MEMMAP_USABLE = 0"

record limine_memmap_entry =
  me_base :: u64
  me_length :: u64
  me_type :: u64

record pmm_state =
  pmm_free_stack :: "nat \<Rightarrow> u64"
  pmm_free_top :: nat
  pmm_managed_pages :: u64
  pmm_dropped_pages :: u64

record clks_pmm_stats =
  managed_pages :: u64
  free_pages :: u64
  used_pages :: u64
  dropped_pages :: u64

definition clks_align_up_u64 :: "u64 \<Rightarrow> u64 \<Rightarrow> u64" where
  "clks_align_up_u64 value alignment = (value + alignment - 1) AND NOT (alignment - 1)"

definition clks_align_down_u64 :: "u64 \<Rightarrow> u64 \<Rightarrow> u64" where
  "clks_align_down_u64 value alignment = value AND NOT (alignment - 1)"

text \<open>The body of the page loop of \<open>clks_pmm_init\<close>, for one address.\<close>

definition pmm_visit_page :: "u64 \<Rightarrow> pmm_state \<Rightarrow> pmm_state" where
  "pmm_visit_page addr s =
     (if addr < CLKS_PMM_MIN_USABLE_ADDR then s
      else if pmm_free_top s < CLKS_PMM_MAX_TRACKED_PAGES then
        s\<lparr>pmm_free_stack := (pmm_free_stack s)(pmm_free_top s := addr),
          pmm_free_top := pmm_free_top s + 1,
          pmm_managed_pages := pmm_managed_pages s + 1\<rparr>
      else s\<lparr>pmm_dropped_pages := pmm_dropped_pages s + 1\<rparr>)"

text \<open>\<open>for (addr = start; addr < end; addr += CLKS_PAGE_SIZE)\<close>\<close>

definition pmm_page_loop :: "u64 \<Rightarrow> u64 \<Rightarrow> pmm_state \<Rightarrow> pmm_state option" where
  "pmm_page_loop start end s =
     map_option snd
       (while_option (\<lambda>(addr, _). addr < end)
         (\<lambda>(addr, s). (addr + CLKS_PAGE_SIZE, pmm_visit_page addr s)) (start, s))"

definition pmm_entry_start :: "limine_memmap_entry \<Rightarrow> u64" where
  "pmm_entry_start e = clks_align_up_u64 (me_base e) CLKS_PAGE_SIZE"

definition pmm_entry_end :: "limine_memmap_entry \<Rightarrow> u64" where
  "pmm_entry_end e = clks_align_down_u64 (me_base e + me_length e) CLKS_PAGE_SIZE"

text \<open>The loop over the entries; an entry pointer may be null.\<close>

fun pmm_entry_loop :: "limine_memmap_entry option list \<Rightarrow> pmm_state \<Rightarrow> pmm_state option" where
  "pmm_entry_loop [] s = Some s"
| "pmm_entry_loop (None # es) s = pmm_entry_loop es s"
| "pmm_entry_loop (Some e # es) s =
     (if me_type e \<noteq> LIMINE_MEMMAP_USABLE then pmm_entry_loop es s
      else if pmm_entry_end e \<le> pmm_entry_start e then pmm_entry_loop es s
      else Option.bind (pmm_page_loop (pmm_entry_start e) (pmm_entry_end e) s) (pmm_entry_loop es))"

definition pmm_cleared :: pmm_state where
  "pmm_cleared = \<lparr>pmm_free_stack = (\<lambda>_. 0), pmm_free_top = 0, pmm_managed_pages = 0,
                  pmm_dropped_pages = 0\<rparr>"

definition clks_pmm_init :: "limine_memmap_entry option list option \<Rightarrow> pmm_state option" where
  "clks_pmm_init memmap =
     (case memmap of None \<Rightarrow> Some pmm_cleared | Some es \<Rightarrow> pmm_entry_loop es pmm_cleared)"

definition clks_pmm_alloc_page :: "pmm_state \<Rightarrow> u64 \<times> pmm_state" where
  "clks_pmm_alloc_page s =
     (if pmm_free_top s = 0 then (0, s)
      else let top = pmm_free_top s - 1
           in (pmm_free_stack s top, s\<lparr>pmm_free_top := top\<rparr>))"

definition clks_pmm_free_page :: "u64 \<Rightarrow> pmm_state \<Rightarrow> pmm_state" where
  "clks_pmm_free_page phys_addr s =
     (if phys_addr = 0 then s
      else if phys_addr AND (CLKS_PAGE_SIZE - 1) \<noteq> 0 then s
      else if pmm_free_top s \<ge> CLKS_PMM_MAX_TRACKED_PAGES then s
      else s\<lparr>pmm_free_stack := (pmm_free_stack s)(pmm_free_top s := phys_addr),
             pmm_free_top := pmm_free_top s + 1\<rparr>)"

definition clks_pmm_get_stats :: "pmm_state \<Rightarrow> clks_pmm_stats" where
  "clks_pmm_get_stats s =
     \<lparr>managed_pages = pmm_managed_pages s,
      free_pages = of_nat (pmm_free_top s),
      used_pages = pmm_managed_pages s - of_nat (pmm_free_top s),
      dropped_pages = pmm_dropped_pages s\<rparr>"

section \<open>Aligned addresses\<close>

definition page_aligned :: "u64 \<Rightarrow> bool" where
  "page_aligned a \<longleftrightarrow> unat a mod 4096 = 0"

lemma page_mask: "CLKS_PAGE_SIZE - 1 = mask 12"
  by (simp add: CLKS_PAGE_SIZE_def mask_eq_exp_minus_1)

lemma page_aligned_iff: "a AND (CLKS_PAGE_SIZE - 1) = 0 \<longleftrightarrow> page_aligned a"
  unfolding page_mask page_aligned_def
  by (simp add: unat_eq_zero [symmetric] and_mask_nat del: unat_eq_zero)

lemma align_down_nat: "unat (clks_align_down_u64 v CLKS_PAGE_SIZE) = unat v - unat v mod 4096"
  unfolding clks_align_down_u64_def page_mask by (simp add: and_not_mask_nat)

lemma align_up_eq: "clks_align_up_u64 v CLKS_PAGE_SIZE = clks_align_down_u64 (v + 4095) CLKS_PAGE_SIZE"
  by (simp add: clks_align_up_u64_def clks_align_down_u64_def CLKS_PAGE_SIZE_def add.commute)

lemma align_down_aligned: "page_aligned (clks_align_down_u64 v CLKS_PAGE_SIZE)"
  by (simp add: page_aligned_def align_down_nat minus_mod_eq_mult_div)

lemma align_up_aligned: "page_aligned (clks_align_up_u64 v CLKS_PAGE_SIZE)"
  by (simp add: align_up_eq align_down_aligned)

lemma align_up_ge:
  assumes "unat v + 4095 < 2 ^ 64"
  shows "unat v \<le> unat (clks_align_up_u64 v CLKS_PAGE_SIZE)"
proof -
  have "unat (v + 4095) = unat v + 4095"
    using assms by (subst unat_plus_small) simp_all
  then show ?thesis
    by (simp add: align_up_eq align_down_nat)
qed

lemma entry_ends_aligned: "page_aligned (pmm_entry_start e)" "page_aligned (pmm_entry_end e)"
  by (simp_all add: pmm_entry_start_def pmm_entry_end_def align_up_aligned align_down_aligned)

section \<open>The page loop\<close>

definition pmm_page_list :: "u64 \<Rightarrow> nat \<Rightarrow> u64 list" where
  "pmm_page_list start k = map (\<lambda>i. start + of_nat i * CLKS_PAGE_SIZE) [0..<k]"

lemma pmm_page_list_Suc:
  "pmm_page_list start (Suc k) = start # pmm_page_list (start + CLKS_PAGE_SIZE) k"
  unfolding pmm_page_list_def
  by (simp add: upt_conv_Cons map_Suc_upt [symmetric] algebra_simps del: upt_Suc)

lemma page_step_nat:
  fixes start "end" :: u64
  assumes "unat end = unat start + 4096 * Suc k"
  shows "unat (start + CLKS_PAGE_SIZE) = unat start + 4096"
proof -
  have "unat start + 4096 < 2 ^ 64"
    using assms u64_bound [of "end"] by simp
  then show ?thesis
    by (subst unat_plus_small) (simp_all add: CLKS_PAGE_SIZE_def)
qed

lemma page_loop_runs:
  assumes "unat end = unat start + 4096 * k"
  shows "pmm_page_loop start end s = Some (fold pmm_visit_page (pmm_page_list start k) s)"
  using assms
proof (induction k arbitrary: start s)
  case 0
  then have "end = start" by (simp add: word_unat_eq_iff)
  then show ?case
    by (simp add: pmm_page_loop_def while_option_unfold pmm_page_list_def)
next
  case (Suc k)
  then have lt: "start < end" by (simp add: word_less_nat_alt)
  have "unat end = unat (start + CLKS_PAGE_SIZE) + 4096 * k"
    using Suc.prems page_step_nat [OF Suc.prems] by simp
  from Suc.IH [OF this, of "pmm_visit_page start s"] lt show ?case
    by (simp add: pmm_page_loop_def pmm_page_list_Suc
        while_option_unfold [of _ _ "(start, s)"])
qed

lemma aligned_gap:
  assumes "page_aligned a" "page_aligned b" "a \<le> b"
  shows "unat b = unat a + 4096 * ((unat b - unat a) div 4096)"
proof -
  have "4096 dvd unat a" "4096 dvd unat b" "unat a \<le> unat b"
    using assms by (auto simp: page_aligned_def word_le_nat_alt)
  then have "4096 dvd unat b - unat a" by simp
  with \<open>unat a \<le> unat b\<close> show ?thesis by (simp add: dvd_mult_div_cancel)
qed

text \<open>The pages an entry of the memory map contributes, in the order the loop visits them.\<close>

definition pmm_entry_pages :: "limine_memmap_entry option \<Rightarrow> u64 list" where
  "pmm_entry_pages oe =
     (case oe of None \<Rightarrow> []
      | Some e \<Rightarrow>
          if me_type e \<noteq> LIMINE_MEMMAP_USABLE \<or> pmm_entry_end e \<le> pmm_entry_start e then []
          else pmm_page_list (pmm_entry_start e)
                 ((unat (pmm_entry_end e) - unat (pmm_entry_start e)) div 4096))"

lemma entry_loop_runs:
  "pmm_entry_loop es s = Some (fold pmm_visit_page (concat (map pmm_entry_pages es)) s)"
proof (induction es s rule: pmm_entry_loop.induct)
  case (3 e es s)
  show ?case
  proof (cases "me_type e \<noteq> LIMINE_MEMMAP_USABLE \<or> pmm_entry_end e \<le> pmm_entry_start e")
    case True
    with 3 show ?thesis by (auto simp: pmm_entry_pages_def)
  next
    case False
    then have "pmm_entry_start e \<le> pmm_entry_end e" by auto
    with False have "pmm_page_loop (pmm_entry_start e) (pmm_entry_end e) s =
        Some (fold pmm_visit_page (pmm_entry_pages (Some e)) s)"
      using page_loop_runs [OF aligned_gap [OF entry_ends_aligned(1) entry_ends_aligned(2)], of e e s]
      by (simp add: pmm_entry_pages_def)
    with False 3 show ?thesis by simp
  qed
qed (simp_all add: pmm_entry_pages_def)

section \<open>The free list and what initialisation puts on it\<close>

definition pmm_free_list :: "pmm_state \<Rightarrow> u64 list" where
  "pmm_free_list s = live_part (pmm_free_stack s) (pmm_free_top s)"

text \<open>\<open>s\<close> holds the pages \<open>xs\<close> as far as they fit, and counts the rest as dropped.\<close>

definition pmm_loaded :: "u64 list \<Rightarrow> pmm_state \<Rightarrow> bool" where
  "pmm_loaded xs s \<longleftrightarrow>
     pmm_free_list s = take CLKS_PMM_MAX_TRACKED_PAGES xs \<and>
     pmm_managed_pages s = of_nat (pmm_free_top s) \<and>
     pmm_dropped_pages s = of_nat (length xs - CLKS_PMM_MAX_TRACKED_PAGES)"

lemma pmm_free_list_length [simp]: "length (pmm_free_list s) = pmm_free_top s"
  by (simp add: pmm_free_list_def)

lemma pmm_loaded_cleared: "pmm_loaded [] pmm_cleared"
  by (simp add: pmm_loaded_def pmm_free_list_def pmm_cleared_def)

lemma pmm_loaded_top: "pmm_loaded xs s \<Longrightarrow> pmm_free_top s = min (length xs) CLKS_PMM_MAX_TRACKED_PAGES"
  unfolding pmm_loaded_def by (metis pmm_free_list_length length_take)

lemma pmm_loaded_visit:
  assumes "pmm_loaded xs s"
  shows "pmm_loaded (if addr < CLKS_PMM_MIN_USABLE_ADDR then xs else xs @ [addr])
           (pmm_visit_page addr s)"
  using assms pmm_loaded_top [OF assms]
  by (auto simp: pmm_loaded_def pmm_visit_page_def pmm_free_list_def Suc_diff_le)

lemma pmm_loaded_fold:
  assumes "pmm_loaded xs s"
  shows "pmm_loaded (xs @ filter (\<lambda>a. \<not> a < CLKS_PMM_MIN_USABLE_ADDR) ys) (fold pmm_visit_page ys s)"
  using assms
proof (induction ys arbitrary: xs s)
  case Nil
  then show ?case by simp
next
  case (Cons y ys)
  from Cons.IH [OF pmm_loaded_visit [OF Cons.prems, of y]] show ?case
    by (simp split: if_splits)
qed

definition pmm_memmap_pages :: "limine_memmap_entry option list \<Rightarrow> u64 list" where
  "pmm_memmap_pages es =
     filter (\<lambda>a. \<not> a < CLKS_PMM_MIN_USABLE_ADDR) (concat (map pmm_entry_pages es))"

lemma init_loads: "\<exists>s. clks_pmm_init (Some es) = Some s \<and> pmm_loaded (pmm_memmap_pages es) s"
  using pmm_loaded_fold [OF pmm_loaded_cleared, of "concat (map pmm_entry_pages es)"]
  by (simp add: clks_pmm_init_def entry_loop_runs pmm_memmap_pages_def)

text \<open>An entry whose end is an address: the firmware's map describes real memory.\<close>

definition entry_in_range :: "limine_memmap_entry \<Rightarrow> bool" where
  "entry_in_range e \<longleftrightarrow> unat (me_base e) + unat (me_length e) + 4095 < 2 ^ 64"

definition page_in_entry :: "u64 \<Rightarrow> limine_memmap_entry \<Rightarrow> bool" where
  "page_in_entry p e \<longleftrightarrow> me_type e = LIMINE_MEMMAP_USABLE \<and> unat (me_base e) \<le> unat p \<and>
     unat p + 4096 \<le> unat (me_base e) + unat (me_length e)"

lemma page_list_nth_nat:
  fixes start "end" :: u64
  assumes "unat end = unat start + 4096 * k" "i < k"
  shows "unat (start + of_nat i * CLKS_PAGE_SIZE) = unat start + 4096 * i"
proof -
  have b: "unat start + 4096 * i < 2 ^ 64"
    using assms u64_bound [of "end"] by simp
  then have "unat (of_nat i * CLKS_PAGE_SIZE) = 4096 * i"
    by (simp add: unat_word_ariths CLKS_PAGE_SIZE_def unat_of_nat mod_mult_left_eq mult.commute)
  with b show ?thesis by (subst unat_plus_small) simp_all
qed

lemma page_list_range:
  fixes start "end" :: u64
  assumes "unat end = unat start + 4096 * k" "p \<in> set (pmm_page_list start k)" "page_aligned start"
  shows "page_aligned p \<and> unat start \<le> unat p \<and> unat p + 4096 \<le> unat end"
proof -
  from assms(2) obtain i where i: "i < k" "p = start + of_nat i * CLKS_PAGE_SIZE"
    by (auto simp: pmm_page_list_def)
  then have p: "unat p = unat start + 4096 * i"
    using page_list_nth_nat [OF assms(1)] by simp
  with assms(1,3) i(1) show ?thesis
    by (simp add: page_aligned_def mod_add_eq [symmetric])
qed

lemma page_list_distinct:
  fixes start "end" :: u64
  assumes "unat end = unat start + 4096 * k"
  shows "distinct (pmm_page_list start k)"
  unfolding pmm_page_list_def distinct_map
  by (auto intro!: inj_onI dest: arg_cong [of _ _ unat] simp: page_list_nth_nat [OF assms])

lemma entry_pages_sound:
  assumes "p \<in> set (pmm_entry_pages (Some e))" "entry_in_range e"
  shows "page_aligned p \<and> page_in_entry p e"
proof -
  let ?s = "pmm_entry_start e" and ?t = "pmm_entry_end e"
  have u: "me_type e = LIMINE_MEMMAP_USABLE" and lt: "?s < ?t"
    and p: "p \<in> set (pmm_page_list ?s ((unat ?t - unat ?s) div 4096))"
    using assms(1) by (auto simp: pmm_entry_pages_def split: if_splits)
  have r: "page_aligned p \<and> unat ?s \<le> unat p \<and> unat p + 4096 \<le> unat ?t"
    using page_list_range [OF aligned_gap p] lt entry_ends_aligned by simp
  have e: "unat (me_base e + me_length e) = unat (me_base e) + unat (me_length e)"
    using assms(2) by (subst unat_plus_small) (simp_all add: entry_in_range_def)
  have "unat (me_base e) \<le> unat ?s"
    using assms(2) by (auto simp: pmm_entry_start_def entry_in_range_def intro!: align_up_ge)
  moreover have "unat ?t \<le> unat (me_base e) + unat (me_length e)"
    by (simp add: pmm_entry_end_def align_down_nat e)
  ultimately show ?thesis using r u by (simp add: page_in_entry_def)
qed

lemma entry_pages_distinct: "distinct (pmm_entry_pages oe)"
  using page_list_distinct [OF aligned_gap [OF entry_ends_aligned(1) entry_ends_aligned(2)]]
  by (auto simp: pmm_entry_pages_def split: option.splits)

section \<open>A page allocator as its clients see it\<close>

text \<open>
  What the users of the page allocator (the paging code in \<open>vm.c\<close>) rely on: a page that is handed
  out is aligned, not null, was free and is free no longer; a page given back is free again.
  \<open>avail\<close> is the set of free pages.
\<close>

locale page_allocator =
  fixes inv :: "'s \<Rightarrow> bool"
    and avail :: "'s \<Rightarrow> u64 set"
    and cap :: nat
    and alloc :: "'s \<Rightarrow> u64 \<times> 's"
    and release :: "u64 \<Rightarrow> 's \<Rightarrow> 's"
  assumes alloc_none: "inv s \<Longrightarrow> alloc s = (0, s') \<Longrightarrow> s' = s \<and> avail s = {}"
    and alloc_page: "inv s \<Longrightarrow> alloc s = (p, s') \<Longrightarrow> p \<noteq> 0 \<Longrightarrow>
      p \<in> avail s \<and> avail s' = avail s - {p} \<and> inv s'"
    and avail_page: "inv s \<Longrightarrow> p \<in> avail s \<Longrightarrow> p \<noteq> 0 \<and> page_aligned p"
    and avail_finite: "inv s \<Longrightarrow> finite (avail s)"
    and release_page: "inv s \<Longrightarrow> p \<noteq> 0 \<Longrightarrow> page_aligned p \<Longrightarrow> p \<notin> avail s \<Longrightarrow> card (avail s) < cap \<Longrightarrow>
      avail (release p s) = insert p (avail s) \<and> inv (release p s)"
begin

text \<open>
  The ownership discipline: \<open>own\<close> are the pages handed out and not yet given back. Free and owned
  pages stay disjoint, and together they are the pages the allocator began with.
\<close>

definition owns :: "u64 set \<Rightarrow> 's \<Rightarrow> u64 set \<Rightarrow> bool" where
  "owns all s own \<longleftrightarrow> inv s \<and> finite all \<and> card all \<le> cap \<and> (\<forall>p\<in>all. p \<noteq> 0 \<and> page_aligned p) \<and>
     avail s \<union> own = all \<and> avail s \<inter> own = {}"

lemma owns_start: "inv s \<Longrightarrow> card (avail s) \<le> cap \<Longrightarrow> owns (avail s) s {}"
  using avail_page avail_finite by (auto simp: owns_def)

lemma owns_alloc: "owns all s own \<Longrightarrow> alloc s = (p, s') \<Longrightarrow> p \<noteq> 0 \<Longrightarrow> owns all s' (insert p own) \<and> p \<notin> own"
  using alloc_page [of s p s'] by (auto simp: owns_def)

lemma owns_release:
  assumes "owns all s own" "p \<in> own"
  shows "owns all (release p s) (own - {p})"
proof -
  have "finite all" "card all \<le> cap" "avail s \<subseteq> all - {p}" "p \<in> all"
    using assms by (auto simp: owns_def)
  moreover have "card (avail s) \<le> card (all - {p})"
    by (rule card_mono) (simp_all add: calculation)
  moreover have "card (all - {p}) < card all"
    by (rule card_Diff1_less) (simp_all add: calculation)
  ultimately have "card (avail s) < card all" and "card all \<le> cap" by simp_all
  then have "card (avail s) < cap" by simp
  moreover have "inv s" "p \<noteq> 0" "page_aligned p" "p \<notin> avail s"
    using assms by (auto simp: owns_def)
  ultimately have "avail (release p s) = insert p (avail s)" "inv (release p s)"
    using release_page by simp_all
  with assms show ?thesis by (auto simp: owns_def)
qed

lemma owns_card: "owns all s own \<Longrightarrow> card all = card (avail s) + card own"
  unfolding owns_def by (metis card_Un_disjoint finite_Un)

end

text \<open>The allocator of \<open>pmm.c\<close> keeps that contract while its stack holds distinct aligned pages.\<close>

definition pmm_inv :: "pmm_state \<Rightarrow> bool" where
  "pmm_inv s \<longleftrightarrow> pmm_free_top s \<le> CLKS_PMM_MAX_TRACKED_PAGES \<and> distinct (pmm_free_list s) \<and>
     (\<forall>p \<in> set (pmm_free_list s). p \<noteq> 0 \<and> page_aligned p)"

definition pmm_avail :: "pmm_state \<Rightarrow> u64 set" where
  "pmm_avail s = set (pmm_free_list s)"

lemma alloc_page_empty: "pmm_free_list s = [] \<Longrightarrow> clks_pmm_alloc_page s = (0, s)"
  by (simp add: clks_pmm_alloc_page_def flip: pmm_free_list_length)

lemma alloc_page_snoc:
  assumes "pmm_free_list s = xs @ [p]"
  shows "fst (clks_pmm_alloc_page s) = p \<and> pmm_free_list (snd (clks_pmm_alloc_page s)) = xs \<and>
         pmm_free_top s = Suc (pmm_free_top (snd (clks_pmm_alloc_page s))) \<and>
         pmm_managed_pages (snd (clks_pmm_alloc_page s)) = pmm_managed_pages s"
proof -
  have "pmm_free_top s = Suc (length xs)"
    by (metis assms length_append_singleton pmm_free_list_length)
  with assms show ?thesis
    by (simp add: clks_pmm_alloc_page_def Let_def pmm_free_list_def live_part_Suc)
qed

lemma free_page_push:
  assumes "p \<noteq> 0" "page_aligned p" "pmm_free_top s < CLKS_PMM_MAX_TRACKED_PAGES"
  shows "pmm_free_list (clks_pmm_free_page p s) = pmm_free_list s @ [p] \<and>
         pmm_free_top (clks_pmm_free_page p s) = Suc (pmm_free_top s) \<and>
         pmm_managed_pages (clks_pmm_free_page p s) = pmm_managed_pages s"
  using assms by (simp add: clks_pmm_free_page_def page_aligned_iff pmm_free_list_def)

lemma free_page_ignored:
  "p = 0 \<or> \<not> page_aligned p \<or> pmm_free_top s \<ge> CLKS_PMM_MAX_TRACKED_PAGES \<Longrightarrow> clks_pmm_free_page p s = s"
  by (auto simp: clks_pmm_free_page_def page_aligned_iff)

lemma pmm_avail_card: "pmm_inv s \<Longrightarrow> card (pmm_avail s) = pmm_free_top s"
  by (simp add: pmm_inv_def pmm_avail_def distinct_card)

lemma alloc_page_cases:
  obtains "pmm_free_list s = []" "clks_pmm_alloc_page s = (0, s)"
  | xs p s' where "pmm_free_list s = xs @ [p]" "clks_pmm_alloc_page s = (p, s')"
      "pmm_free_list s' = xs" "pmm_free_top s = Suc (pmm_free_top s')"
      "pmm_managed_pages s' = pmm_managed_pages s"
proof (cases "pmm_free_list s" rule: rev_cases)
  case Nil
  with that(1) alloc_page_empty show ?thesis by blast
next
  case (snoc xs p)
  from alloc_page_snoc [OF snoc] that(2) [OF snoc] show ?thesis
    by (metis prod.collapse)
qed

interpretation pmm: page_allocator pmm_inv pmm_avail CLKS_PMM_MAX_TRACKED_PAGES
  clks_pmm_alloc_page clks_pmm_free_page
proof (unfold_locales, goal_cases)
  case (1 s s')
  then show ?case
    by (cases s rule: alloc_page_cases) (auto simp: pmm_avail_def pmm_inv_def)
next
  case (2 s p s')
  then show ?case
    by (cases s rule: alloc_page_cases) (auto simp: pmm_avail_def pmm_inv_def)
next
  case (3 s p)
  then show ?case by (simp add: pmm_inv_def pmm_avail_def)
next
  case (4 s)
  then show ?case by (simp add: pmm_avail_def)
next
  case (5 s p)
  then have "pmm_free_top s < CLKS_PMM_MAX_TRACKED_PAGES" by (simp add: pmm_avail_card)
  from free_page_push [OF 5(2,3) this] 5 this show ?case
    by (simp add: pmm_inv_def pmm_avail_def)
qed

section \<open>Runs of the allocator\<close>

text \<open>
  The states a client reaches that gives back only pages it holds, with the pages it holds.
\<close>

inductive pmm_run :: "pmm_state \<Rightarrow> pmm_state \<Rightarrow> u64 set \<Rightarrow> bool" for s0 where
  pmm_start: "pmm_run s0 s0 {}"
| pmm_alloc: "pmm_run s0 s own \<Longrightarrow> clks_pmm_alloc_page s = (p, s') \<Longrightarrow> p \<noteq> 0 \<Longrightarrow>
    pmm_run s0 s' (insert p own)"
| pmm_alloc_null: "pmm_run s0 s own \<Longrightarrow> clks_pmm_alloc_page s = (0, s') \<Longrightarrow> pmm_run s0 s' own"
| pmm_free: "pmm_run s0 s own \<Longrightarrow> p \<in> own \<Longrightarrow> pmm_run s0 (clks_pmm_free_page p s) (own - {p})"

lemma pmm_run_owns:
  assumes "pmm_run s0 s own" "pmm_inv s0"
  shows "pmm.owns (pmm_avail s0) s own"
  using assms
proof (induction rule: pmm_run.induct)
  case pmm_start
  then have "card (pmm_avail s0) \<le> CLKS_PMM_MAX_TRACKED_PAGES"
    using pmm_avail_card [of s0] by (simp add: pmm_inv_def)
  with pmm_start show ?case by (rule pmm.owns_start)
next
  case (pmm_alloc s own p s')
  then show ?case using pmm.owns_alloc by blast
next
  case (pmm_alloc_null s own s')
  then show ?case using pmm.alloc_none by (metis pmm.owns_def)
next
  case (pmm_free s own p)
  then show ?case using pmm.owns_release by blast
qed

lemma pmm_managed_const:
  "pmm_run s0 s own \<Longrightarrow> pmm_managed_pages s = pmm_managed_pages s0"
proof (induction rule: pmm_run.induct)
  case (pmm_alloc s own p s')
  then show ?case by (auto simp: clks_pmm_alloc_page_def Let_def split: if_splits)
next
  case (pmm_alloc_null s own s')
  then show ?case by (auto simp: clks_pmm_alloc_page_def Let_def split: if_splits)
qed (simp_all add: clks_pmm_free_page_def)

section \<open>Memory maps whose usable entries do not overlap\<close>

definition usable_entries :: "limine_memmap_entry option list \<Rightarrow> limine_memmap_entry list" where
  "usable_entries es =
     filter (\<lambda>e. me_type e = LIMINE_MEMMAP_USABLE) (List.map_filter id es)"

definition entries_disjoint :: "limine_memmap_entry \<Rightarrow> limine_memmap_entry \<Rightarrow> bool" where
  "entries_disjoint e f \<longleftrightarrow>
     unat (me_base e) + unat (me_length e) \<le> unat (me_base f) \<or>
     unat (me_base f) + unat (me_length f) \<le> unat (me_base e)"

definition memmap_ok :: "limine_memmap_entry option list \<Rightarrow> bool" where
  "memmap_ok es \<longleftrightarrow> list_all entry_in_range (usable_entries es) \<and>
     sorted_wrt entries_disjoint (usable_entries es)"

lemma usable_entries_simps [simp]:
  "usable_entries [] = []"
  "usable_entries (None # es) = usable_entries es"
  "usable_entries (Some e # es) =
     (if me_type e = LIMINE_MEMMAP_USABLE then e # usable_entries es else usable_entries es)"
  by (simp_all add: usable_entries_def map_filter_simps)

lemma entry_list_induct [case_names Nil Null Entry]:
  assumes "P []" "\<And>es. P es \<Longrightarrow> P (None # es)" "\<And>e es. P es \<Longrightarrow> P (Some e # es)"
  shows "P es"
proof (induction es)
  case (Cons oe es)
  then show ?case using assms(2,3) by (cases oe) auto
qed (rule assms(1))

lemma map_page_in_entry:
  assumes "p \<in> set (concat (map pmm_entry_pages es))" "list_all entry_in_range (usable_entries es)"
  shows "page_aligned p \<and> (\<exists>e \<in> set (usable_entries es). page_in_entry p e)"
  using assms
proof (induction es rule: entry_list_induct)
  case (Entry e es)
  show ?case
  proof (cases "p \<in> set (pmm_entry_pages (Some e))")
    case True
    moreover from True have "me_type e = LIMINE_MEMMAP_USABLE"
      by (auto simp: pmm_entry_pages_def split: if_splits)
    ultimately show ?thesis using entry_pages_sound [of p e] Entry.prems by auto
  next
    case False
    with Entry show ?thesis by (auto split: if_splits)
  qed
qed (simp_all add: pmm_entry_pages_def)

lemma page_in_disjoint: "page_in_entry p e \<Longrightarrow> page_in_entry p f \<Longrightarrow> \<not> entries_disjoint e f"
  by (auto simp: page_in_entry_def entries_disjoint_def)

lemma map_pages_distinct:
  assumes "memmap_ok es"
  shows "distinct (concat (map pmm_entry_pages es))"
  using assms
proof (induction es rule: entry_list_induct)
  case (Entry e es)
  show ?case
  proof (cases "me_type e = LIMINE_MEMMAP_USABLE")
    case True
    with Entry have ok: "memmap_ok es" "entry_in_range e" "list_all entry_in_range (usable_entries es)"
      and dj: "\<forall>f \<in> set (usable_entries es). entries_disjoint e f"
      by (simp_all add: memmap_ok_def)
    have "set (pmm_entry_pages (Some e)) \<inter> set (concat (map pmm_entry_pages es)) = {}"
      using entry_pages_sound [OF _ ok(2)] map_page_in_entry [OF _ ok(3)] dj page_in_disjoint
      by blast
    with Entry True ok(1) entry_pages_distinct [of "Some e"] show ?thesis by (auto simp: memmap_ok_def)
  next
    case False
    then have "pmm_entry_pages (Some e) = []" by (simp add: pmm_entry_pages_def)
    with False Entry show ?thesis by (simp add: memmap_ok_def)
  qed
qed (simp_all add: pmm_entry_pages_def memmap_ok_def)

lemma memmap_pages_sound:
  assumes "p \<in> set (pmm_memmap_pages es)" "memmap_ok es"
  shows "page_aligned p \<and> 0x100000 \<le> unat p \<and> (\<exists>e \<in> set (usable_entries es). page_in_entry p e)"
  using assms map_page_in_entry [of p es]
  by (auto simp: pmm_memmap_pages_def memmap_ok_def CLKS_PMM_MIN_USABLE_ADDR_def word_less_nat_alt)

lemma pmm_init_inv:
  assumes "memmap_ok es" "clks_pmm_init (Some es) = Some s"
  shows "pmm_inv s"
proof -
  have l: "pmm_loaded (pmm_memmap_pages es) s" using init_loads [of es] assms(2) by simp
  then have "distinct (pmm_free_list s)"
    using map_pages_distinct [OF assms(1)] by (simp add: pmm_loaded_def pmm_memmap_pages_def)
  moreover have "p \<noteq> 0 \<and> page_aligned p" if "p \<in> set (pmm_free_list s)" for p
    using that l memmap_pages_sound [OF _ assms(1), of p]
    by (auto simp: pmm_loaded_def dest: in_set_takeD)
  ultimately show ?thesis using pmm_loaded_top [OF l] by (simp add: pmm_inv_def)
qed

text \<open>A map of two usable pages at 1 MiB, used by the witnesses.\<close>

definition small_memmap :: "limine_memmap_entry option list" where
  "small_memmap =
     [Some \<lparr>me_base = 0, me_length = 0x9000, me_type = 1\<rparr>, None,
      Some \<lparr>me_base = 0xFF800, me_length = 0x2900, me_type = 0\<rparr>]"

lemma small_memmap_ok: "memmap_ok small_memmap"
  by (simp add: small_memmap_def memmap_ok_def LIMINE_MEMMAP_USABLE_def entry_in_range_def)

lemma small_memmap_pages: "pmm_memmap_pages small_memmap = [0x100000, 0x101000]"
  by (simp add: small_memmap_def pmm_memmap_pages_def pmm_entry_pages_def clks_consts
      pmm_entry_start_def pmm_entry_end_def clks_align_up_u64_def clks_align_down_u64_def
      pmm_page_list_def upt_rec)

section \<open>Properties\<close>

text \<open>
  Initialisation from any memory map ends, and leaves on the free stack exactly the pages of the
  usable entries at or above 1 MiB, in the map's order, as many as the 262144 cells hold; each
  page beyond that is counted as dropped, and the managed count is the number of pages on the stack.
\<close>

theorem pmm_init_free_list:
  "\<exists>s. clks_pmm_init (Some es) = Some s \<and>
     pmm_free_list s = take CLKS_PMM_MAX_TRACKED_PAGES (pmm_memmap_pages es) \<and>
     pmm_managed_pages s = of_nat (pmm_free_top s) \<and>
     pmm_dropped_pages s = of_nat (length (pmm_memmap_pages es) - CLKS_PMM_MAX_TRACKED_PAGES)"
  using init_loads [of es] by (auto simp: pmm_loaded_def)

text \<open>
  C1. After initialisation from a map whose usable entries do not overlap, every page handed out by a
  run of allocations and releases is a whole page of usable memory at or above 1 MiB, is not among
  the pages the clients already hold, and the reported used count is the number of pages held.
\<close>

theorem pmm_pages_exclusive:
  assumes "memmap_ok es" "clks_pmm_init (Some es) = Some s0" "pmm_run s0 s own"
  shows "used_pages (clks_pmm_get_stats s) = of_nat (card own) \<and>
    (\<forall>p s'. clks_pmm_alloc_page s = (p, s') \<longrightarrow> p \<noteq> 0 \<longrightarrow>
       p \<notin> own \<and> page_aligned p \<and> 0x100000 \<le> unat p \<and>
       (\<exists>e \<in> set (usable_entries es). page_in_entry p e))"
proof (intro conjI allI impI)
  have inv0: "pmm_inv s0" using assms(1,2) by (rule pmm_init_inv)
  have l: "pmm_loaded (pmm_memmap_pages es) s0" using init_loads [of es] assms(2) by simp
  have own: "pmm.owns (pmm_avail s0) s own" using assms(3) inv0 by (rule pmm_run_owns)
  then have "pmm_inv s" by (simp add: pmm.owns_def)
  with pmm.owns_card [OF own] inv0 have "pmm_free_top s0 = pmm_free_top s + card own"
    by (simp add: pmm_avail_card)
  moreover have "pmm_managed_pages s = of_nat (pmm_free_top s0)"
    using pmm_managed_const [OF assms(3)] l by (simp add: pmm_loaded_def)
  ultimately show "used_pages (clks_pmm_get_stats s) = of_nat (card own)"
    by (simp add: clks_pmm_get_stats_def)
  fix p s' assume p: "clks_pmm_alloc_page s = (p, s')" "p \<noteq> 0"
  then have "p \<notin> own" and "p \<in> pmm_avail s0"
    using pmm.owns_alloc [OF own p] by (auto simp: pmm.owns_def)
  then have "p \<in> set (pmm_memmap_pages es)"
    using l by (auto simp: pmm_avail_def pmm_loaded_def dest: in_set_takeD)
  with memmap_pages_sound [OF this assms(1)] \<open>p \<notin> own\<close>
  show "p \<notin> own" "page_aligned p" "0x100000 \<le> unat p"
    "\<exists>e \<in> set (usable_entries es). page_in_entry p e" by simp_all
qed

theorem pmm_pages_exclusive_witness:
  "\<exists>s0. clks_pmm_init (Some small_memmap) = Some s0 \<and>
     clks_pmm_alloc_page s0 = (0x101000, snd (clks_pmm_alloc_page s0)) \<and>
     used_pages (clks_pmm_get_stats (snd (clks_pmm_alloc_page s0))) = 1"
proof -
  obtain s0 where s0: "clks_pmm_init (Some small_memmap) = Some s0"
    and l: "pmm_loaded (pmm_memmap_pages small_memmap) s0"
    using init_loads by blast
  have "pmm_free_list s0 = [0x100000] @ [0x101000]"
    using l by (simp add: pmm_loaded_def small_memmap_pages CLKS_PMM_MAX_TRACKED_PAGES_def)
  then have a: "clks_pmm_alloc_page s0 = (0x101000, snd (clks_pmm_alloc_page s0))"
    using alloc_page_snoc by (metis prod.collapse)
  have "pmm_run s0 (snd (clks_pmm_alloc_page s0)) (insert 0x101000 {})"
    by (rule pmm_alloc [OF pmm_start a]) simp
  from pmm_pages_exclusive [OF small_memmap_ok s0 this] s0 a show ?thesis by auto
qed

text \<open>
  A page given back is the next one handed out: on a stack that is not full, releasing an aligned
  non-null page and allocating returns that page and the same free list.
\<close>

theorem pmm_free_alloc_roundtrip:
  assumes "p \<noteq> 0" "page_aligned p" "pmm_free_top s < CLKS_PMM_MAX_TRACKED_PAGES"
  shows "fst (clks_pmm_alloc_page (clks_pmm_free_page p s)) = p \<and>
    pmm_free_list (snd (clks_pmm_alloc_page (clks_pmm_free_page p s))) = pmm_free_list s"
  using free_page_push [OF assms] alloc_page_snoc by blast

theorem pmm_free_alloc_roundtrip_witness:
  "fst (clks_pmm_alloc_page (clks_pmm_free_page 0x200000 pmm_cleared)) = 0x200000"
  using pmm_free_alloc_roundtrip [of "0x200000" pmm_cleared]
  by (simp add: page_aligned_def pmm_cleared_def CLKS_PMM_MAX_TRACKED_PAGES_def)

end
