(* ===== verification/Clks_Heap.thy ===== *)
theory Clks_Heap
  imports Clks_Prelude
begin

text \<open>
  The kernel heap, \<open>kernel/memory/heap.c\<close>: a first-fit allocator over one static arena, a doubly
  linked list of blocks whose headers lie in the arena. Addresses are byte offsets from
  \<open>clks_heap_arena\<close> (\<open>None\<close> is \<open>CLKS_NULL\<close>); the memory maps an offset to the block header read
  there. The headers of \<open>struct clks_heap_block\<close> take 40 bytes (8 + 4 and padding + 8 + 8 + 8).
  The search loop follows \<open>next\<close> pointers, so it is a \<open>partial_function\<close> whose \<open>None\<close> is a
  search that does not end. The second half shows that on a well-formed heap these pointer
  operations implement first-fit allocation with coalescing on a list of blocks, and that the
  result is the allocator the rest of the kernel relies on (locale \<open>kernel_allocator\<close>).
\<close>

section \<open>State and operations\<close>

definition CLKS_HEAP_ARENA_SIZE :: nat where
  "CLKS_HEAP_ARENA_SIZE = 268435456"

definition CLKS_HEAP_ALIGN :: nat where
  "CLKS_HEAP_ALIGN = 16"

definition CLKS_HEAP_MAGIC :: u64 where
  "CLKS_HEAP_MAGIC = 0x434C454F4E4F534F"

definition HEAP_HEADER_SIZE :: nat where
  "HEAP_HEADER_SIZE = 40"

record clks_heap_block =
  hb_size :: nat
  hb_is_free :: bool
  hb_next :: "nat option"
  hb_prev :: "nat option"
  hb_magic :: u64

record heap_state =
  heap_mem :: "nat \<Rightarrow> clks_heap_block"
  heap_head :: "nat option"
  heap_ready :: bool
  heap_used_bytes :: nat
  heap_alloc_count :: u64
  heap_free_count :: u64

record clks_heap_stats =
  total_bytes :: nat
  used_bytes :: nat
  free_bytes :: nat
  alloc_count :: u64
  free_count :: u64

definition clks_heap_align_up :: "nat \<Rightarrow> nat" where
  "clks_heap_align_up value = mask_down CLKS_HEAP_ALIGN (add64 value (CLKS_HEAP_ALIGN - 1))"

type_synonym block_memory = "nat \<Rightarrow> clks_heap_block"

definition clks_heap_split_block :: "nat \<Rightarrow> nat \<Rightarrow> block_memory \<Rightarrow> block_memory" where
  "clks_heap_split_block block need_size m =
     (if hb_size (m block) < add64 need_size (HEAP_HEADER_SIZE + CLKS_HEAP_ALIGN) then m
      else
        let new_block = add64 block (add64 HEAP_HEADER_SIZE need_size);
            m1 = m(new_block :=
              \<lparr>hb_size = sub64 (sub64 (hb_size (m block)) need_size) HEAP_HEADER_SIZE,
               hb_is_free = True, hb_next = hb_next (m block), hb_prev = Some block,
               hb_magic = CLKS_HEAP_MAGIC\<rparr>);
            m2 = (case hb_next (m1 block) of None \<Rightarrow> m1
                  | Some n \<Rightarrow> m1(n := (m1 n)\<lparr>hb_prev := Some new_block\<rparr>))
        in m2(block := (m2 block)\<lparr>hb_next := Some new_block, hb_size := need_size\<rparr>))"

definition clks_heap_merge_next :: "nat \<Rightarrow> block_memory \<Rightarrow> block_memory" where
  "clks_heap_merge_next block m =
     (case hb_next (m block) of None \<Rightarrow> m
      | Some n \<Rightarrow>
          if \<not> hb_is_free (m n) then m
          else if hb_magic (m n) \<noteq> CLKS_HEAP_MAGIC then m
          else
            let m1 = m(block := (m block)\<lparr>
                  hb_size := add64 (hb_size (m block)) (add64 HEAP_HEADER_SIZE (hb_size (m n))),
                  hb_next := hb_next (m n)\<rparr>)
            in (case hb_next (m1 n) of None \<Rightarrow> m1
                | Some nn \<Rightarrow> m1(nn := (m1 nn)\<lparr>hb_prev := Some block\<rparr>)))"

definition zero_block :: clks_heap_block where
  "zero_block = \<lparr>hb_size = 0, hb_is_free = False, hb_next = None, hb_prev = None, hb_magic = 0\<rparr>"

definition clks_heap_init :: heap_state where
  "clks_heap_init =
     \<lparr>heap_mem = (\<lambda>_. zero_block)(0 :=
        \<lparr>hb_size = CLKS_HEAP_ARENA_SIZE - HEAP_HEADER_SIZE, hb_is_free = True, hb_next = None,
         hb_prev = None, hb_magic = CLKS_HEAP_MAGIC\<rparr>),
      heap_head = Some 0, heap_ready = True, heap_used_bytes = 0, heap_alloc_count = 0,
      heap_free_count = 0\<rparr>"

text \<open>The \<open>while\<close> loop of \<open>clks_kmalloc\<close> up to the block it takes.\<close>

partial_function (option) heap_scan ::
  "block_memory \<Rightarrow> nat \<Rightarrow> nat option \<Rightarrow> nat option option" where
  "heap_scan m aligned_size current =
     (case current of None \<Rightarrow> Some None
      | Some a \<Rightarrow>
          if hb_magic (m a) \<noteq> CLKS_HEAP_MAGIC then Some None
          else if hb_is_free (m a) \<and> hb_size (m a) \<ge> aligned_size then Some (Some a)
          else heap_scan m aligned_size (hb_next (m a)))"

text \<open>What the loop does with the block it takes.\<close>

definition heap_take_block :: "nat \<Rightarrow> nat \<Rightarrow> heap_state \<Rightarrow> heap_state" where
  "heap_take_block a aligned_size s =
     (let m1 = clks_heap_split_block a aligned_size (heap_mem s);
          m2 = m1(a := (m1 a)\<lparr>hb_is_free := False\<rparr>)
      in s\<lparr>heap_mem := m2,
           heap_used_bytes := add64 (heap_used_bytes s) (hb_size (m2 a)),
           heap_alloc_count := heap_alloc_count s + 1\<rparr>)"

definition clks_kmalloc :: "nat \<Rightarrow> heap_state \<Rightarrow> (nat option \<times> heap_state) option" where
  "clks_kmalloc sz s =
     (if \<not> heap_ready s then Some (None, s)
      else if sz = 0 then Some (None, s)
      else Option.bind (heap_scan (heap_mem s) (clks_heap_align_up sz) (heap_head s))
        (\<lambda>r. case r of None \<Rightarrow> Some (None, s)
             | Some a \<Rightarrow>
                 Some (Some (add64 a HEAP_HEADER_SIZE),
                       heap_take_block a (clks_heap_align_up sz) s)))"

definition clks_kfree :: "nat option \<Rightarrow> heap_state \<Rightarrow> heap_state" where
  "clks_kfree ptr s =
     (if \<not> heap_ready s then s
      else case ptr of None \<Rightarrow> s
      | Some p \<Rightarrow>
          let block = sub64 p HEAP_HEADER_SIZE; m = heap_mem s in
          if hb_magic (m block) \<noteq> CLKS_HEAP_MAGIC then s
          else if hb_is_free (m block) then s
          else
            let m1 = m(block := (m block)\<lparr>hb_is_free := True\<rparr>);
                used = (if heap_used_bytes s \<ge> hb_size (m1 block)
                        then heap_used_bytes s - hb_size (m1 block) else 0);
                m2 = clks_heap_merge_next block m1;
                m3 = (case hb_prev (m2 block) of None \<Rightarrow> m2
                      | Some q \<Rightarrow>
                          if hb_is_free (m2 q) then clks_heap_merge_next q m2 else m2)
            in s\<lparr>heap_mem := m3, heap_used_bytes := used,
                 heap_free_count := heap_free_count s + 1\<rparr>)"

definition clks_heap_get_stats :: "heap_state \<Rightarrow> clks_heap_stats" where
  "clks_heap_get_stats s =
     \<lparr>total_bytes = CLKS_HEAP_ARENA_SIZE - HEAP_HEADER_SIZE,
      used_bytes = heap_used_bytes s,
      free_bytes = sub64 (CLKS_HEAP_ARENA_SIZE - HEAP_HEADER_SIZE) (heap_used_bytes s),
      alloc_count = heap_alloc_count s,
      free_count = heap_free_count s\<rparr>"

section \<open>The block list a heap represents\<close>

text \<open>A block is its payload size and whether it is free; the list is in address order.\<close>

type_synonym blocks = "(nat \<times> bool) list"

definition span :: "blocks \<Rightarrow> nat" where
  "span bs = sum_list (map (\<lambda>b. 40 + fst b) bs)"

fun last_block :: "nat option \<Rightarrow> nat \<Rightarrow> blocks \<Rightarrow> nat option" where
  "last_block prev off [] = prev"
| "last_block prev off (b # bs) = last_block (Some off) (off + 40 + fst b) bs"

text \<open>
  \<open>layout m prev off nxt bs\<close>: from offset \<open>off\<close> on, the memory holds the headers of \<open>bs\<close>, each right
  behind the payload of the one before, linked both ways; the first one's \<open>prev\<close> is \<open>prev\<close> and
  the last one's \<open>next\<close> is \<open>nxt\<close>.
\<close>

fun layout :: "block_memory \<Rightarrow> nat option \<Rightarrow> nat \<Rightarrow> nat option \<Rightarrow> blocks \<Rightarrow> bool" where
  "layout m prev off nxt [] = True"
| "layout m prev off nxt (b # bs) \<longleftrightarrow>
     m off = \<lparr>hb_size = fst b, hb_is_free = snd b,
              hb_next = (if bs = [] then nxt else Some (off + 40 + fst b)),
              hb_prev = prev, hb_magic = CLKS_HEAP_MAGIC\<rparr> \<and>
     layout m (Some off) (off + 40 + fst b) nxt bs"

lemma span_simps [simp]:
  "span [] = 0" "span (b # bs) = 40 + fst b + span bs" "span (xs @ ys) = span xs + span ys"
  by (simp_all add: span_def)

lemma layout_append:
  "layout m prev off nxt (xs @ ys) \<longleftrightarrow>
     layout m prev off (if ys = [] then nxt else Some (off + span xs)) xs \<and>
     layout m (last_block prev off xs) (off + span xs) nxt ys"
  by (induction xs arbitrary: prev off) (auto simp: add.assoc)

lemma last_block_snoc [simp]: "last_block prev off (xs @ [b]) = Some (off + span xs)"
  by (induction xs arbitrary: prev off) (auto simp: add.assoc)

lemma layout_frame:
  "a < off \<or> off + span bs \<le> a \<Longrightarrow> layout (m(a := b)) prev off nxt bs = layout m prev off nxt bs"
  by (induction bs arbitrary: prev off) auto

lemma layout_reprev:
  "layout m p off nxt bs \<Longrightarrow> layout (m(off := (m off)\<lparr>hb_prev := q\<rparr>)) q off nxt bs"
  by (cases bs) (auto simp: layout_frame)

text \<open>A well-formed heap and the block list it represents.\<close>

definition used_size :: "blocks \<Rightarrow> nat" where
  "used_size bs = sum_list (map fst (filter (Not \<circ> snd) bs))"

fun coalesced :: "blocks \<Rightarrow> bool" where
  "coalesced (b # c # bs) \<longleftrightarrow> \<not> (snd b \<and> snd c) \<and> coalesced (c # bs)"
| "coalesced _ = True"

definition heap_rep :: "heap_state \<Rightarrow> blocks \<Rightarrow> bool" where
  "heap_rep s bs \<longleftrightarrow>
     heap_ready s \<and> heap_head s = Some 0 \<and> bs \<noteq> [] \<and>
     layout (heap_mem s) None 0 None bs \<and> span bs = CLKS_HEAP_ARENA_SIZE \<and>
     coalesced bs \<and> (\<forall>b \<in> set bs. fst b mod 8 = 0) \<and>
     heap_used_bytes s = used_size bs \<and>
     heap_alloc_count s = heap_free_count s + of_nat (length (filter (Not \<circ> snd) bs))"

lemma used_size_simps [simp]:
  "used_size [] = 0" "used_size (b # bs) = (if snd b then 0 else fst b) + used_size bs"
  "used_size (xs @ ys) = used_size xs + used_size ys"
  by (simp_all add: used_size_def)

lemma used_size_le: "used_size bs \<le> span bs"
  by (induction bs) auto

lemma coalesced_append:
  "coalesced (xs @ ys) \<longleftrightarrow>
     coalesced xs \<and> coalesced ys \<and> (xs \<noteq> [] \<longrightarrow> ys \<noteq> [] \<longrightarrow> \<not> (snd (last xs) \<and> snd (hd ys)))"
  by (induction xs rule: coalesced.induct) (cases ys; auto)+

lemma coalesced_Cons:
  "coalesced (b # bs) \<longleftrightarrow> coalesced bs \<and> (bs \<noteq> [] \<longrightarrow> \<not> (snd b \<and> snd (hd bs)))"
  by (cases bs) auto

lemma heap_rep_init: "heap_rep clks_heap_init [(CLKS_HEAP_ARENA_SIZE - 40, True)]"
  by (simp add: heap_rep_def clks_heap_init_def HEAP_HEADER_SIZE_def CLKS_HEAP_ARENA_SIZE_def)

section \<open>The pointer operations on a laid-out list\<close>

lemma arena_small: "CLKS_HEAP_ARENA_SIZE + 96 < USIZE_RANGE"
  by (simp add: CLKS_HEAP_ARENA_SIZE_def USIZE_RANGE_def)

lemma layout_block:
  assumes "layout m prev off nxt (xs @ b # ys)"
  shows "m (off + span xs) =
    \<lparr>hb_size = fst b, hb_is_free = snd b,
     hb_next = (if ys = [] then nxt else Some (off + span xs + 40 + fst b)),
     hb_prev = last_block prev off xs, hb_magic = CLKS_HEAP_MAGIC\<rparr>"
  using assms by (simp add: layout_append)

text \<open>Replacing the free flag of the block at the end of \<open>xs\<close>.\<close>

lemma layout_set_free:
  assumes "layout m None 0 None (xs @ (sz, f) # ys)"
  shows "layout (m(span xs := (m (span xs))\<lparr>hb_is_free := g\<rparr>)) None 0 None (xs @ (sz, g) # ys)"
  using assms by (auto simp: layout_append layout_frame)

lemma split_block_layout:
  assumes "layout m None 0 None (xs @ (sz, f) # ys)" "need + 56 \<le> sz"
    and "span (xs @ (sz, f) # ys) = CLKS_HEAP_ARENA_SIZE"
  shows "layout (clks_heap_split_block (span xs) need m) None 0 None
           (xs @ (need, f) # (sz - need - 40, True) # ys)"
proof -
  have b: "span xs + sz + 40 \<le> CLKS_HEAP_ARENA_SIZE" using assms(3) by simp
  note w = add64_small sub64_small
  have 1: "\<not> hb_size (m (span xs)) < add64 need (HEAP_HEADER_SIZE + CLKS_HEAP_ALIGN)"
    using assms b arena_small by (simp add: layout_append w HEAP_HEADER_SIZE_def CLKS_HEAP_ALIGN_def)
  have 2: "add64 (span xs) (add64 HEAP_HEADER_SIZE need) = span xs + 40 + need"
    using assms b arena_small by (simp add: w HEAP_HEADER_SIZE_def)
  have 3: "sub64 (sub64 (hb_size (m (span xs))) need) HEAP_HEADER_SIZE = sz - need - 40"
    using assms b arena_small by (simp add: layout_append w HEAP_HEADER_SIZE_def)
  show ?thesis
  proof (cases ys)
    case Nil
    with assms(1,2) show ?thesis
      unfolding clks_heap_split_block_def if_not_P [OF 1] Let_def 2 3
      by (simp add: layout_append layout_frame)
  next
    case (Cons y ys')
    with assms(1,2) show ?thesis
      unfolding clks_heap_split_block_def if_not_P [OF 1] Let_def 2 3
      by (auto simp: layout_append layout_frame ac_simps)
  qed
qed

lemma split_block_keep:
  assumes "layout m None 0 None (xs @ (sz, f) # ys)" "sz < need + 56" "need \<le> sz"
    and "span (xs @ (sz, f) # ys) = CLKS_HEAP_ARENA_SIZE"
  shows "clks_heap_split_block (span xs) need m = m"
proof -
  have "need + 56 < USIZE_RANGE" using assms arena_small by simp
  with assms show ?thesis
    by (simp add: clks_heap_split_block_def layout_append add64_small HEAP_HEADER_SIZE_def
        CLKS_HEAP_ALIGN_def)
qed

lemma merge_next_layout:
  assumes "layout m None 0 None (xs @ (sz, f) # (sz2, True) # ys)"
    and "span (xs @ (sz, f) # (sz2, True) # ys) = CLKS_HEAP_ARENA_SIZE"
  shows "layout (clks_heap_merge_next (span xs) m) None 0 None (xs @ (sz + 40 + sz2, f) # ys)"
proof -
  have b: "sz + 40 + sz2 \<le> CLKS_HEAP_ARENA_SIZE" using assms(2) by simp
  have 2: "add64 sz (add64 HEAP_HEADER_SIZE sz2) = sz + 40 + sz2"
    using assms b arena_small by (simp add: add64_small HEAP_HEADER_SIZE_def)
  show ?thesis
  proof (cases ys)
    case Nil
    with assms(1) show ?thesis
      by (simp add: clks_heap_merge_next_def Let_def 2 layout_append layout_frame)
  next
    case (Cons y ys')
    with assms(1) show ?thesis
      by (simp add: clks_heap_merge_next_def Let_def 2 layout_append layout_frame add.assoc)
  qed
qed

lemma merge_next_keep:
  assumes "layout m None 0 None (xs @ (sz, f) # ys)" "ys = [] \<or> \<not> snd (hd ys)"
  shows "clks_heap_merge_next (span xs) m = m"
  using assms by (cases ys) (auto simp: clks_heap_merge_next_def layout_append)

text \<open>The search finds the first free block that is large enough.\<close>

lemma heap_scan_layout:
  assumes "layout m prev off None bs"
  shows "heap_scan m need (if bs = [] then None else Some off) =
    Some (case dropWhile (\<lambda>b. \<not> (snd b \<and> need \<le> fst b)) bs of [] \<Rightarrow> None
          | _ \<Rightarrow> Some (off + span (takeWhile (\<lambda>b. \<not> (snd b \<and> need \<le> fst b)) bs)))"
  using assms
proof (induction bs arbitrary: prev off)
  case Nil
  then show ?case by (simp add: heap_scan.simps)
next
  case (Cons b bs)
  from Cons.prems have "layout m (Some off) (off + 40 + fst b) None bs" by simp
  then have IH: "heap_scan m need (if bs = [] then None else Some (off + 40 + fst b)) =
    Some (case dropWhile (\<lambda>b. \<not> (snd b \<and> need \<le> fst b)) bs of [] \<Rightarrow> None
          | _ \<Rightarrow> Some (off + 40 + fst b + span (takeWhile (\<lambda>b. \<not> (snd b \<and> need \<le> fst b)) bs)))"
    by (rule Cons.IH)
  from Cons.prems have b: "m off = \<lparr>hb_size = fst b, hb_is_free = snd b,
      hb_next = (if bs = [] then None else Some (off + 40 + fst b)), hb_prev = prev,
      hb_magic = CLKS_HEAP_MAGIC\<rparr>" by simp
  show ?case
  proof (cases "snd b \<and> need \<le> fst b")
    case True
    then show ?thesis by (simp add: heap_scan.simps [of m need "Some off"] b)
  next
    case False
    then have "heap_scan m need (Some off) =
        heap_scan m need (if bs = [] then None else Some (off + 40 + fst b))"
      by (subst heap_scan.simps) (auto simp: b)
    moreover from False have
      "dropWhile (\<lambda>b. \<not> (snd b \<and> need \<le> fst b)) (b # bs) = dropWhile (\<lambda>b. \<not> (snd b \<and> need \<le> fst b)) bs"
      "takeWhile (\<lambda>b. \<not> (snd b \<and> need \<le> fst b)) (b # bs) =
        b # takeWhile (\<lambda>b. \<not> (snd b \<and> need \<le> fst b)) bs" by simp_all
    moreover note IH
    ultimately show ?thesis
      by (simp only: span_simps add.assoc list.distinct if_False not_False_eq_True)
  qed
qed

section \<open>First-fit allocation on block lists\<close>

text \<open>
  The specification: allocation takes the first free block of at least the requested size and
  splits off the rest when it holds a header and 16 bytes; release frees a block and joins it
  with a free neighbour on either side.
\<close>

fun spec_alloc :: "nat \<Rightarrow> nat \<Rightarrow> blocks \<Rightarrow> (nat \<times> blocks) option" where
  "spec_alloc need off [] = None"
| "spec_alloc need off ((sz, f) # bs) =
     (if f \<and> need \<le> sz then
        Some (off, if sz < need + 56 then (sz, False) # bs
                   else (need, False) # (sz - need - 40, True) # bs)
      else map_option (\<lambda>(a, bs'). (a, (sz, f) # bs')) (spec_alloc need (off + 40 + sz) bs))"

definition join_next :: "nat \<Rightarrow> blocks \<Rightarrow> blocks" where
  "join_next sz ys =
     (case ys of (sz2, True) # ys' \<Rightarrow> (sz + 40 + sz2, True) # ys' | _ \<Rightarrow> (sz, True) # ys)"

definition join_prev :: "blocks \<Rightarrow> blocks \<Rightarrow> blocks" where
  "join_prev xs ys =
     (case (rev xs, ys) of
        ((sz0, True) # rxs, (sz, f) # ys') \<Rightarrow> rev rxs @ (sz0 + 40 + sz, True) # ys'
      | _ \<Rightarrow> xs @ ys)"

definition spec_free_at :: "blocks \<Rightarrow> nat \<Rightarrow> blocks \<Rightarrow> blocks" where
  "spec_free_at xs sz ys = join_prev xs (join_next sz ys)"

lemma spec_alloc_decomp:
  assumes "spec_alloc need off bs = Some (a, bs')"
  obtains xs sz ys where "bs = xs @ (sz, True) # ys" "need \<le> sz" "a = off + span xs"
    "\<forall>x \<in> set xs. \<not> (snd x \<and> need \<le> fst x)"
    "bs' = xs @ (if sz < need + 56 then (sz, False) # ys
                 else (need, False) # (sz - need - 40, True) # ys)"
  using assms
proof (induction bs arbitrary: off a bs' thesis)
  case Nil
  then show ?case by simp
next
  case (Cons b bs)
  obtain sz f where b: "b = (sz, f)" by (cases b)
  show ?case
  proof (cases "f \<and> need \<le> sz")
    case True
    with Cons.prems(1) [of "[]" sz bs] Cons.prems(2) b show ?thesis by auto
  next
    case False
    with Cons.prems(2) b obtain bs'' where r: "spec_alloc need (off + 40 + sz) bs = Some (a, bs'')"
      and bs': "bs' = (sz, f) # bs''" by auto
    obtain xs sz' ys where *: "bs = xs @ (sz', True) # ys" "need \<le> sz'" "a = off + 40 + sz + span xs"
      "\<forall>x \<in> set xs. \<not> (snd x \<and> need \<le> fst x)"
      "bs'' = xs @ (if sz' < need + 56 then (sz', False) # ys
                    else (need, False) # (sz' - need - 40, True) # ys)"
      using Cons.IH [OF _ r] by metis
    show ?thesis
      by (rule Cons.prems(1) [of "(sz, f) # xs" sz' ys]) (use * b bs' False in auto)
  qed
qed

lemma spec_alloc_None:
  "spec_alloc need off bs = None \<longleftrightarrow> (\<forall>b \<in> set bs. \<not> (snd b \<and> need \<le> fst b))"
  by (induction need off bs rule: spec_alloc.induct) auto

section \<open>The heap operations implement the specification\<close>

lemma align_up_small: "n + 15 < USIZE_RANGE \<Longrightarrow> clks_heap_align_up n = 16 * ((n + 15) div 16)"
  by (simp add: clks_heap_align_up_def CLKS_HEAP_ALIGN_def add64_small mask_down_eq)

lemma heap_align_up_ge: "n + 15 < USIZE_RANGE \<Longrightarrow> n \<le> clks_heap_align_up n"
  by (simp add: align_up_small)

lemma align_up_mod8 [simp]: "clks_heap_align_up n mod 8 = 0"
  by (simp add: clks_heap_align_up_def CLKS_HEAP_ALIGN_def mask_down_eq mod_mult_left_eq
      mult.commute [of 16] flip: mod_mult_right_eq)

lemma heap_scan_spec:
  assumes "layout m None 0 None bs" "bs \<noteq> []"
  shows "heap_scan m need (Some 0) = Some (map_option fst (spec_alloc need 0 bs))"
proof -
  let ?P = "\<lambda>b. \<not> (snd b \<and> need \<le> fst b)"
  have s: "heap_scan m need (Some 0) = Some (case dropWhile ?P bs of [] \<Rightarrow> None
      | _ \<Rightarrow> Some (0 + span (takeWhile ?P bs)))"
    using heap_scan_layout [OF assms(1), of need] assms(2) by simp
  show ?thesis
  proof (cases "spec_alloc need 0 bs")
    case None
    then have "\<forall>b \<in> set bs. ?P b" by (simp add: spec_alloc_None)
    then have "dropWhile ?P bs = []" by (simp add: dropWhile_eq_Nil_conv)
    with s None show ?thesis by (simp del: dropWhile_eq_Nil_conv)
  next
    case (Some r)
    obtain xs sz ys where *: "bs = xs @ (sz, True) # ys" "need \<le> sz" "fst r = span xs"
      "\<forall>x \<in> set xs. ?P x"
      using spec_alloc_decomp [of need 0 bs "fst r" "snd r"] Some by (metis add_0 prod.collapse)
    then have "dropWhile ?P bs = (sz, True) # ys" "takeWhile ?P bs = xs"
      by (simp_all add: dropWhile_append2 takeWhile_append2)
    with s Some *(3) show ?thesis by simp
  qed
qed

lemma take_block_rep:
  assumes "heap_rep s bs" "spec_alloc need 0 bs = Some (a, bs')" "need mod 8 = 0"
  shows "heap_rep (heap_take_block a need s) bs'"
proof -
  obtain xs sz ys where bs: "bs = xs @ (sz, True) # ys" "need \<le> sz" "a = span xs"
    and bs': "bs' = xs @ (if sz < need + 56 then (sz, False) # ys
                 else (need, False) # (sz - need - 40, True) # ys)"
    using spec_alloc_decomp [OF assms(2)] by (metis add_0)
  have l: "layout (heap_mem s) None 0 None (xs @ (sz, True) # ys)"
    and sp: "span (xs @ (sz, True) # ys) = CLKS_HEAP_ARENA_SIZE"
    using assms(1) bs by (simp_all add: heap_rep_def)
  define m1 where "m1 = clks_heap_split_block (span xs) need (heap_mem s)"
  define zs where "zs = (if sz < need + 56 then ys else (sz - need - 40, True) # ys)"
  define n where "n = (if sz < need + 56 then sz else need)"
  have bs'': "bs' = xs @ (n, False) # zs" by (simp add: bs' n_def zs_def)
  have "layout m1 None 0 None (xs @ (n, True) # zs)"
  proof (cases "sz < need + 56")
    case True
    with split_block_keep [OF l True bs(2) sp] l show ?thesis by (simp add: m1_def n_def zs_def)
  next
    case False
    with split_block_layout [OF l _ sp, of need] show ?thesis by (simp add: m1_def n_def zs_def)
  qed
  then have l2: "layout (m1(span xs := (m1 (span xs))\<lparr>hb_is_free := False\<rparr>)) None 0 None bs'"
    unfolding bs'' by (rule layout_set_free)
  have sp': "span bs' = CLKS_HEAP_ARENA_SIZE"
    using sp bs(2) by (auto simp: bs'' n_def zs_def)
  have c: "coalesced bs'"
    using assms(1) by (auto simp: heap_rep_def bs bs'' zs_def coalesced_append coalesced_Cons)
  have ev: "\<forall>b \<in> set bs'. fst b mod 8 = 0"
    using assms(1,3) bs(2) by (auto simp: heap_rep_def bs(1) bs'' n_def zs_def dvd_diff_nat simp flip: dvd_eq_mod_eq_0)
  have sz: "hb_size ((m1(span xs := (m1 (span xs))\<lparr>hb_is_free := False\<rparr>)) (span xs)) = n"
    using layout_block [OF l2 [unfolded bs'']] by simp
  have "used_size bs' = used_size bs + n"
    by (simp add: bs bs'' zs_def)
  moreover have "used_size bs' < USIZE_RANGE"
    using used_size_le [of bs'] sp' arena_small by simp
  ultimately have "add64 (heap_used_bytes s) n = used_size bs'"
    using assms(1) by (simp add: heap_rep_def add64_small)
  with l2 sz sp' c ev assms(1) show ?thesis
    by (auto simp: heap_rep_def heap_take_block_def Let_def bs(3) m1_def bs bs'' zs_def)
qed

text \<open>\<open>clks_kmalloc\<close> always ends, and on a well-formed heap it is the specification.\<close>

lemma kmalloc_spec:
  assumes "heap_rep s bs" "n \<noteq> 0"
  shows "case spec_alloc (clks_heap_align_up n) 0 bs of
      None \<Rightarrow> clks_kmalloc n s = Some (None, s)
    | Some (a, bs') \<Rightarrow> \<exists>s'. clks_kmalloc n s = Some (Some (a + 40), s') \<and> heap_rep s' bs'"
proof -
  have sc: "heap_scan (heap_mem s) (clks_heap_align_up n) (heap_head s) =
      Some (map_option fst (spec_alloc (clks_heap_align_up n) 0 bs))"
    using assms(1) heap_scan_spec by (simp add: heap_rep_def)
  show ?thesis
  proof (cases "spec_alloc (clks_heap_align_up n) 0 bs")
    case None
    with sc assms show ?thesis by (simp add: clks_kmalloc_def heap_rep_def)
  next
    case (Some r)
    obtain a bs' where r: "r = (a, bs')" by (cases r)
    obtain xs sz ys where "bs = xs @ (sz, True) # ys" "a = span xs"
      using spec_alloc_decomp [OF Some [unfolded r]] by (metis add_0)
    with assms(1) have "a + 40 \<le> CLKS_HEAP_ARENA_SIZE" by (auto simp: heap_rep_def)
    then have "add64 a HEAP_HEADER_SIZE = a + 40"
      using arena_small by (simp add: add64_small HEAP_HEADER_SIZE_def)
    with sc Some r assms take_block_rep [OF assms(1) Some [unfolded r]] show ?thesis
      by (simp add: clks_kmalloc_def heap_rep_def)
  qed
qed

lemma join_next_rep:
  assumes "layout m None 0 None (xs @ (sz, True) # ys)"
    and "span (xs @ (sz, True) # ys) = CLKS_HEAP_ARENA_SIZE"
  shows "layout (clks_heap_merge_next (span xs) m) None 0 None (xs @ join_next sz ys)"
proof (cases "\<exists>sz2 ys'. ys = (sz2, True) # ys'")
  case True
  with assms merge_next_layout [of m xs sz True] show ?thesis by (auto simp: join_next_def)
next
  case False
  then have "ys = [] \<or> \<not> snd (hd ys)" by (cases ys) auto
  with False merge_next_keep [OF assms(1)] assms(1) show ?thesis
    by (auto simp: join_next_def split: list.splits prod.splits bool.splits)
qed

lemma join_next_shape: "\<exists>n zs. join_next sz ys = (n, True) # zs"
  by (auto simp: join_next_def split: list.splits prod.splits bool.splits)

lemma join_next_span [simp]: "span (join_next sz ys) = 40 + sz + span ys"
  by (auto simp: join_next_def split: list.splits prod.splits bool.splits)

lemma join_next_used [simp]: "used_size (join_next sz ys) = used_size ys"
  by (auto simp: join_next_def split: list.splits prod.splits bool.splits)

lemma join_next_filter [simp]: "filter (Not \<circ> snd) (join_next sz ys) = filter (Not \<circ> snd) ys"
  by (auto simp: join_next_def split: list.splits prod.splits bool.splits)

lemma join_prev_cases:
  obtains ws sz0 where "xs = ws @ [(sz0, True)]" "join_prev xs ((n, f) # zs) = ws @ (sz0 + 40 + n, True) # zs"
  | "xs = [] \<or> \<not> snd (last xs)" "join_prev xs ((n, f) # zs) = xs @ (n, f) # zs"
proof (cases xs rule: rev_cases)
  case Nil
  with that(2) show ?thesis by (simp add: join_prev_def)
next
  case (snoc ws b)
  obtain sz0 g where "b = (sz0, g)" by (cases b)
  with snoc that show ?thesis by (cases g) (auto simp: join_prev_def)
qed

text \<open>What releasing the block behind \<open>xs\<close> does, on the list.\<close>

lemma spec_free_at_props:
  assumes "coalesced (xs @ (sz, False) # ys)" "\<forall>b \<in> set (xs @ (sz, False) # ys). fst b mod 8 = 0"
  shows "span (spec_free_at xs sz ys) = span (xs @ (sz, False) # ys)"
    and "used_size (spec_free_at xs sz ys) + sz = used_size (xs @ (sz, False) # ys)"
    and "length (filter (Not \<circ> snd) (spec_free_at xs sz ys)) + 1 =
         length (filter (Not \<circ> snd) (xs @ (sz, False) # ys))"
    and "coalesced (spec_free_at xs sz ys)"
    and "\<forall>b \<in> set (spec_free_at xs sz ys). fst b mod 8 = 0"
    and "spec_free_at xs sz ys \<noteq> []"
proof -
  obtain n zs where j: "join_next sz ys = (n, True) # zs" using join_next_shape by blast
  have sp: "40 + n + span zs = 40 + sz + span ys" and us: "used_size zs = used_size ys"
    and fl: "filter (Not \<circ> snd) zs = filter (Not \<circ> snd) ys"
    using join_next_span [of sz ys] join_next_used [of sz ys] join_next_filter [of sz ys]
    by (simp_all add: j)
  have co: "coalesced zs" "zs = [] \<or> \<not> snd (hd zs)" "\<forall>b \<in> set zs. fst b mod 8 = 0" "n mod 8 = 0"
    using assms j
    by (auto simp: join_next_def coalesced_append coalesced_Cons dvd_add simp flip: dvd_eq_mod_eq_0
        split: list.splits prod.splits bool.splits)
  have "xs = [] \<or> coalesced xs" using assms(1) by (simp add: coalesced_append)
  show "span (spec_free_at xs sz ys) = span (xs @ (sz, False) # ys)"
    "used_size (spec_free_at xs sz ys) + sz = used_size (xs @ (sz, False) # ys)"
    "length (filter (Not \<circ> snd) (spec_free_at xs sz ys)) + 1 =
       length (filter (Not \<circ> snd) (xs @ (sz, False) # ys))"
    "coalesced (spec_free_at xs sz ys)" "\<forall>b \<in> set (spec_free_at xs sz ys). fst b mod 8 = 0"
    "spec_free_at xs sz ys \<noteq> []"
    unfolding spec_free_at_def j using sp us fl co assms
    by (cases rule: join_prev_cases [of xs n True zs];
        auto simp: coalesced_append coalesced_Cons dvd_add simp flip: dvd_eq_mod_eq_0)+
qed

lemma kfree_spec:
  assumes "heap_rep s (xs @ (sz, False) # ys)"
  shows "heap_rep (clks_kfree (Some (span xs + 40)) s) (spec_free_at xs sz ys)"
proof -
  define m where "m = heap_mem s"
  define m1 where "m1 = m(span xs := (m (span xs))\<lparr>hb_is_free := True\<rparr>)"
  define m2 where "m2 = clks_heap_merge_next (span xs) m1"
  have l: "layout m None 0 None (xs @ (sz, False) # ys)"
    and sp: "span (xs @ (sz, False) # ys) = CLKS_HEAP_ARENA_SIZE"
    and us: "heap_used_bytes s = used_size (xs @ (sz, False) # ys)"
    using assms by (simp_all add: heap_rep_def m_def)
  have l1: "layout m1 None 0 None (xs @ (sz, True) # ys)"
    unfolding m1_def using l by (rule layout_set_free)
  obtain n zs where j: "join_next sz ys = (n, True) # zs" using join_next_shape by blast
  have l2: "layout m2 None 0 None (xs @ (n, True) # zs)"
    using join_next_rep [OF l1] sp by (simp add: m2_def j)
  have sp2: "span (xs @ (n, True) # zs) = CLKS_HEAP_ARENA_SIZE"
    using sp join_next_span [of sz ys] by (simp add: j)
  define m3 where "m3 = (case hb_prev (m2 (span xs)) of None \<Rightarrow> m2
    | Some q \<Rightarrow> if hb_is_free (m2 q) then clks_heap_merge_next q m2 else m2)"
  have pv: "hb_prev (m2 (span xs)) = last_block None 0 xs"
    using layout_block [OF l2] by simp
  have l3: "layout m3 None 0 None (spec_free_at xs sz ys)"
  proof (cases rule: join_prev_cases [of xs n True zs])
    case (1 ws sz0)
    have l2': "layout m2 None 0 None (ws @ (sz0, True) # (n, True) # zs)"
      using l2 1(1) by simp
    then have "hb_is_free (m2 (span ws))" using layout_block [OF l2'] by simp
    with pv 1(1) have "m3 = clks_heap_merge_next (span ws) m2" by (simp add: m3_def)
    with merge_next_layout [OF l2'] sp2 1 show ?thesis by (simp add: spec_free_at_def j)
  next
    case 2
    have "m3 = m2"
    proof (cases xs rule: rev_cases)
      case Nil
      with pv show ?thesis by (simp add: m3_def)
    next
      case (snoc ws b)
      then have l2': "layout m2 None 0 None (ws @ b # (n, True) # zs)" using l2 by simp
      have "\<not> hb_is_free (m2 (span ws))" using layout_block [OF l2'] 2 snoc by simp
      with pv snoc show ?thesis by (simp add: m3_def)
    qed
    with l2 2 show ?thesis by (simp add: spec_free_at_def j)
  qed
  have b: "sub64 (span xs + 40) HEAP_HEADER_SIZE = span xs"
    using sp arena_small by (simp add: sub64_small HEAP_HEADER_SIZE_def)
  have m: "hb_magic (m (span xs)) = CLKS_HEAP_MAGIC" "\<not> hb_is_free (m (span xs))"
    "hb_size (m1 (span xs)) = sz"
    using layout_block [OF l] layout_block [OF l1] by simp_all
  have "clks_kfree (Some (span xs + 40)) s =
     s\<lparr>heap_mem := m3, heap_used_bytes := used_size (xs @ (sz, False) # ys) - sz,
       heap_free_count := heap_free_count s + 1\<rparr>"
  proof -
    have "heap_ready s" using assms by (simp add: heap_rep_def)
    moreover have "used_size (xs @ (sz, False) # ys) \<ge> sz" by simp
    ultimately show ?thesis
      using m unfolding m3_def m2_def m1_def m_def clks_kfree_def Let_def option.case b us
      by (simp del: used_size_simps)
  qed
  moreover have "coalesced (xs @ (sz, False) # ys)" "\<forall>b \<in> set (xs @ (sz, False) # ys). fst b mod 8 = 0"
    "heap_alloc_count s = heap_free_count s +
       of_nat (length (filter (Not \<circ> snd) (xs @ (sz, False) # ys)))"
    using assms unfolding heap_rep_def by blast+
  moreover note props = spec_free_at_props [OF calculation(2,3)]
  moreover have "used_size (xs @ (sz, False) # ys) - sz = used_size (spec_free_at xs sz ys)"
    using props(2) by simp
  moreover have "(of_nat (length (filter (Not \<circ> snd) (xs @ (sz, False) # ys))) :: u64) =
      of_nat (length (filter (Not \<circ> snd) (spec_free_at xs sz ys))) + 1"
    by (simp only: of_nat_add of_nat_1 flip: props(3))
  ultimately show ?thesis
    using assms l3 sp by (simp add: heap_rep_def)
qed

section \<open>Live allocations\<close>

text \<open>The payload address and size of each used block.\<close>

fun live_blocks :: "nat \<Rightarrow> blocks \<Rightarrow> (nat \<rightharpoonup> nat)" where
  "live_blocks off [] = Map.empty"
| "live_blocks off (b # bs) =
     (if snd b then live_blocks (off + 40 + fst b) bs
      else (live_blocks (off + 40 + fst b) bs)(off + 40 \<mapsto> fst b))"

lemma live_range:
  "live_blocks off bs p = Some sz \<Longrightarrow> off + 40 \<le> p \<and> p + sz \<le> off + span bs"
proof (induction off bs rule: live_blocks.induct)
  case (2 off b bs)
  then show ?case by (cases "\<not> snd b \<and> p = off + 40") (auto split: if_splits)
qed simp

lemma live_below: "p < off + 40 \<Longrightarrow> live_blocks off bs p = None"
  using live_range [of off bs p] by (cases "live_blocks off bs p") auto

lemma live_above: "off + span bs < p \<Longrightarrow> live_blocks off bs p = None"
  using live_range [of off bs p] by (cases "live_blocks off bs p") auto

lemma live_append:
  "live_blocks off (xs @ ys) = live_blocks off xs ++ live_blocks (off + span xs) ys"
proof (induction xs arbitrary: off)
  case (Cons b xs)
  have "off + 40 \<notin> dom (live_blocks (off + span (b # xs)) ys)"
    by (simp add: domIff live_below)
  with Cons show ?case
    by (auto simp: fun_eq_iff map_add_def domIff add.assoc split: option.splits)
qed simp

lemma live_used: "live_blocks off (xs @ (sz, False) # ys) =
    (live_blocks off xs ++ live_blocks (off + span xs + 40 + sz) ys)(off + span xs + 40 \<mapsto> sz)"
  by (simp add: live_append)

lemma live_free: "live_blocks off (xs @ (sz, True) # ys) =
    live_blocks off xs ++ live_blocks (off + span xs + 40 + sz) ys"
  by (simp add: live_append)

lemma live_gap: "(live_blocks off xs ++ live_blocks (off + span xs + 40 + sz) ys) (off + span xs + 40) = None"
  by (simp add: map_add_def live_below live_above split: option.splits)

lemma live_decomp:
  assumes "live_blocks off bs p = Some sz"
  obtains xs ys where "bs = xs @ (sz, False) # ys" "p = off + span xs + 40"
  using assms
proof (induction bs arbitrary: off thesis)
  case Nil
  then show ?case by simp
next
  case (Cons b bs)
  obtain n f where b: "b = (n, f)" by (cases b)
  show ?case
  proof (cases "\<not> f \<and> p = off + 40")
    case True
    with Cons.prems b show ?thesis by (auto intro: Cons.prems(1) [of "[]" bs])
  next
    case False
    with Cons.prems(2) b have "live_blocks (off + 40 + n) bs p = Some sz" by (auto split: if_splits)
    then obtain xs ys where "bs = xs @ (sz, False) # ys" "p = off + 40 + n + span xs + 40"
      using Cons.IH by blast
    with b show ?thesis by (intro Cons.prems(1) [of "(n, f) # xs" ys]) simp_all
  qed
qed

lemma live_apart_blocks:
  assumes "live_blocks off bs p = Some m" "live_blocks off bs q = Some n" "p \<noteq> q"
  shows "p + m \<le> q \<or> q + n \<le> p"
  using assms
proof (induction off bs rule: live_blocks.induct)
  case (2 off b bs)
  then show ?case
    using live_range [of "off + 40 + fst b" bs p m] live_range [of "off + 40 + fst b" bs q n]
    by (auto split: if_splits)
qed simp

lemma live_alloc:
  assumes "spec_alloc need off bs = Some (a, bs')"
  shows "\<exists>sz. need \<le> sz \<and> live_blocks off bs' = (live_blocks off bs)(a + 40 \<mapsto> sz) \<and>
    live_blocks off bs (a + 40) = None"
proof -
  obtain xs sz ys where *: "bs = xs @ (sz, True) # ys" "need \<le> sz" "a = off + span xs"
    "bs' = xs @ (if sz < need + 56 then (sz, False) # ys
                 else (need, False) # (sz - need - 40, True) # ys)"
    using spec_alloc_decomp [OF assms] by metis
  show ?thesis
  proof (cases "sz < need + 56")
    case True
    with * live_gap [of off xs sz ys] show ?thesis
      by (intro exI [of _ sz]) (simp add: live_used live_free)
  next
    case False
    then have "off + span xs + 40 + need + 40 + (sz - need - 40) = off + span xs + 40 + sz" by simp
    with * False live_gap [of off xs sz ys] show ?thesis
      by (intro exI [of _ need]) (simp add: live_used live_free ac_simps)
  qed
qed

lemma live_join_next: "live_blocks off (join_next sz ys) = live_blocks (off + 40 + sz) ys"
  by (auto simp: join_next_def ac_simps split: list.splits prod.splits bool.splits)

lemma live_join_prev: "live_blocks off (join_prev xs ((n, True) # zs)) = live_blocks off (xs @ (n, True) # zs)"
  by (cases rule: join_prev_cases [of xs n True zs]) (simp_all add: live_append ac_simps)

lemma live_free_at:
  "live_blocks off (spec_free_at xs sz ys) =
     (live_blocks off (xs @ (sz, False) # ys))(off + span xs + 40 := None)"
proof -
  obtain n zs where j: "join_next sz ys = (n, True) # zs" using join_next_shape by blast
  have "live_blocks off (spec_free_at xs sz ys) = live_blocks off (xs @ join_next sz ys)"
    by (simp add: spec_free_at_def j live_join_prev)
  also have "\<dots> = live_blocks off xs ++ live_blocks (off + span xs + 40 + sz) ys"
    by (simp only: live_append live_join_next add.assoc)
  finally show ?thesis using live_gap [of off xs sz ys] by (simp add: live_used fun_upd_idem)
qed

lemma live_finite: "finite (dom (live_blocks off bs))"
  by (induction off bs rule: live_blocks.induct) auto

lemma live_measure:
  "used_size bs = (\<Sum>p \<in> dom (live_blocks off bs). the (live_blocks off bs p)) \<and>
   length (filter (Not \<circ> snd) bs) = card (dom (live_blocks off bs))"
proof (induction off bs rule: live_blocks.induct)
  case (2 off b bs)
  let ?L = "live_blocks (off + 40 + fst b) bs"
  have n: "off + 40 \<notin> dom ?L" by (simp add: domIff live_below)
  have "(\<Sum>p \<in> dom ?L. the ((?L(off + 40 \<mapsto> fst b)) p)) = (\<Sum>p \<in> dom ?L. the (?L p))"
    using n by (intro sum.cong) auto
  show ?case
  proof (cases "snd b")
    case True
    with 2 show ?thesis by simp
  next
    case False
    then have eq: "live_blocks off (b # bs) = ?L(off + 40 \<mapsto> fst b)" by simp
    from 2 n False \<open>(\<Sum>p \<in> dom ?L. the ((?L(off + 40 \<mapsto> fst b)) p)) = _\<close> show ?thesis
      unfolding eq dom_fun_upd by (simp add: live_finite)
  qed
qed simp

section \<open>The allocator the kernel relies on\<close>

text \<open>
  \<open>rep s L\<close>: the allocator's state \<open>s\<close> has exactly the live allocations \<open>L\<close>, a map from the
  pointer handed out to the number of bytes behind it. These are the laws the file system, the
  scheduler and the program loader use.
\<close>

locale kernel_allocator =
  fixes rep :: "'s \<Rightarrow> (nat \<rightharpoonup> nat) \<Rightarrow> bool"
    and malloc :: "nat \<Rightarrow> 's \<Rightarrow> (nat option \<times> 's) option"
    and release :: "nat option \<Rightarrow> 's \<Rightarrow> 's"
    and limit :: nat
  assumes malloc_runs: "rep s L \<Longrightarrow> \<exists>r s'. malloc n s = Some (r, s')"
    and malloc_null: "rep s L \<Longrightarrow> malloc n s = Some (None, s') \<Longrightarrow> s' = s"
    and malloc_some: "rep s L \<Longrightarrow> malloc n s = Some (Some p, s') \<Longrightarrow>
      \<exists>sz. L p = None \<and> rep s' (L(p \<mapsto> sz)) \<and> (n + 15 < USIZE_RANGE \<longrightarrow> n \<le> sz)"
    and release_null: "release None s = s"
    and release_live: "rep s L \<Longrightarrow> L p = Some sz \<Longrightarrow> rep (release (Some p) s) (L(p := None))"
    and live_apart: "rep s L \<Longrightarrow> L p = Some m \<Longrightarrow> L q = Some n \<Longrightarrow> p \<noteq> q \<Longrightarrow> p + m \<le> q \<or> q + n \<le> p"
    and live_bound: "rep s L \<Longrightarrow> L p = Some m \<Longrightarrow> 0 < p \<and> p + m \<le> limit"
begin

text \<open>A fresh allocation overlaps no live one.\<close>

lemma malloc_apart:
  assumes "rep s L" "malloc n s = Some (Some p, s')" "n + 15 < USIZE_RANGE" "L q = Some m"
  shows "p + n \<le> q \<or> q + m \<le> p"
proof -
  obtain sz where sz: "L p = None" "rep s' (L(p \<mapsto> sz))" "n \<le> sz"
    using malloc_some [OF assms(1,2)] assms(3) by blast
  then have "p \<noteq> q" using assms(4) by auto
  with live_apart [OF sz(2), of p sz q m] assms(4) sz(3) show ?thesis by auto
qed

text \<open>Allocating and releasing again leaves the live allocations as they were.\<close>

lemma malloc_release:
  assumes "rep s L" "malloc n s = Some (p, s')"
  shows "rep (release p s') L"
proof (cases p)
  case None
  with assms malloc_null release_null show ?thesis by metis
next
  case (Some q)
  then obtain sz where sz: "L q = None" "rep s' (L(q \<mapsto> sz))"
    using malloc_some assms by blast
  from release_live [OF sz(2), of q sz] sz(1) Some show ?thesis by (simp add: fun_upd_idem)
qed

end

definition heap_live :: "heap_state \<Rightarrow> (nat \<rightharpoonup> nat) \<Rightarrow> bool" where
  "heap_live s L \<longleftrightarrow> (\<exists>bs. heap_rep s bs \<and> L = live_blocks 0 bs)"

lemma kmalloc_zero: "clks_kmalloc 0 s = Some (None, s)"
  by (simp add: clks_kmalloc_def)

lemma heap_live_cases:
  assumes "heap_rep s bs"
  obtains "clks_kmalloc n s = Some (None, s)" "n = 0 \<or> spec_alloc (clks_heap_align_up n) 0 bs = None"
  | a bs' s' where "n \<noteq> 0" "spec_alloc (clks_heap_align_up n) 0 bs = Some (a, bs')"
      "clks_kmalloc n s = Some (Some (a + 40), s')" "heap_rep s' bs'"
proof (cases "n = 0")
  case True
  with that(1) kmalloc_zero show ?thesis by simp
next
  case False
  with kmalloc_spec [OF assms False] that show ?thesis by (auto split: option.splits)
qed

interpretation heap: kernel_allocator heap_live clks_kmalloc clks_kfree CLKS_HEAP_ARENA_SIZE
proof (unfold_locales, goal_cases)
  case (1 s L n)
  then obtain bs where "heap_rep s bs" by (auto simp: heap_live_def)
  then show ?case by (cases rule: heap_live_cases [where n = n]) auto
next
  case (2 s L n s')
  then obtain bs where "heap_rep s bs" by (auto simp: heap_live_def)
  then show ?case using 2(2) by (cases rule: heap_live_cases [where n = n]) auto
next
  case (3 s L n p s')
  then obtain bs where bs: "heap_rep s bs" "L = live_blocks 0 bs" by (auto simp: heap_live_def)
  from bs(1) show ?case
  proof (cases rule: heap_live_cases [where n = n])
    case 1
    with 3 show ?thesis by simp
  next
    case (2 a bs' s'')
    then have [simp]: "p = a + 40" "s'' = s'" using 3(2) by simp_all
    obtain sz where "clks_heap_align_up n \<le> sz"
      "live_blocks 0 bs' = (live_blocks 0 bs)(a + 40 \<mapsto> sz)" "live_blocks 0 bs (a + 40) = None"
      using live_alloc [OF 2(2)] by blast
    with 2(4) bs(2) heap_align_up_ge [of n] show ?thesis
      by (intro exI [of _ sz]) (auto simp: heap_live_def intro!: exI [of _ bs'])
  qed
next
  case (4 s)
  then show ?case by (simp add: clks_kfree_def)
next
  case (5 s L p sz)
  then obtain bs where bs: "heap_rep s bs" "L = live_blocks 0 bs" by (auto simp: heap_live_def)
  with 5(2) obtain xs ys where d: "bs = xs @ (sz, False) # ys" "p = 0 + span xs + 40"
    using live_decomp by metis
  with kfree_spec [of s xs sz ys] bs live_free_at [of 0 xs sz ys] show ?case
    by (auto simp: heap_live_def intro!: exI [of _ "spec_free_at xs sz ys"])
next
  case (6 s L p m q n)
  then obtain bs where "L = live_blocks 0 bs" by (auto simp: heap_live_def)
  with 6 live_apart_blocks [of 0 bs p m q n] show ?case by simp
next
  case (7 s L p m)
  then obtain bs where "heap_rep s bs" "live_blocks 0 bs p = Some m" by (auto simp: heap_live_def)
  with live_range [of 0 bs p m] show ?case by (simp add: heap_rep_def)
qed

section \<open>Runs of the heap\<close>

text \<open>
  The states reached from \<open>clks_heap_init\<close> by requests of any size and by releases of pointers
  that are live (or null), with the live allocations.
\<close>

inductive heap_run :: "heap_state \<Rightarrow> (nat \<rightharpoonup> nat) \<Rightarrow> bool" where
  run_init: "heap_run clks_heap_init Map.empty"
| run_malloc: "heap_run s L \<Longrightarrow> clks_kmalloc n s = Some (Some p, s') \<Longrightarrow>
    heap_run s' (L(p \<mapsto> hb_size (heap_mem s' (p - 40))))"
| run_malloc_null: "heap_run s L \<Longrightarrow> clks_kmalloc n s = Some (None, s') \<Longrightarrow> heap_run s' L"
| run_free: "heap_run s L \<Longrightarrow> L p \<noteq> None \<Longrightarrow> heap_run (clks_kfree (Some p) s) (L(p := None))"
| run_free_null: "heap_run s L \<Longrightarrow> heap_run (clks_kfree None s) L"

lemma heap_live_size:
  assumes "heap_rep s bs" "live_blocks 0 bs p = Some sz"
  shows "hb_size (heap_mem s (p - 40)) = sz" "p mod 8 = 0" "40 \<le> p"
proof -
  obtain xs ys where *: "bs = xs @ (sz, False) # ys" "p = 0 + span xs + 40"
    using live_decomp [OF assms(2)] by metis
  have "layout (heap_mem s) None 0 None (xs @ (sz, False) # ys)"
    using assms(1) *(1) by (simp add: heap_rep_def)
  from layout_block [OF this] show "hb_size (heap_mem s (p - 40)) = sz" "40 \<le> p"
    using *(2) by simp_all
  have "\<forall>b \<in> set xs. fst b mod 8 = 0" using assms(1) *(1) by (simp add: heap_rep_def)
  then have "span xs mod 8 = 0" by (induction xs) (auto simp: dvd_add simp flip: dvd_eq_mod_eq_0)
  then show "p mod 8 = 0" using *(2) by (simp add: mod_add_eq [symmetric])
qed

lemma heap_live_header:
  assumes "heap_live s L" "L p = Some sz"
  shows "hb_size (heap_mem s (p - 40)) = sz \<and> p mod 8 = 0 \<and> 40 \<le> p"
proof -
  obtain bs where "heap_rep s bs" "live_blocks 0 bs p = Some sz"
    using assms by (auto simp: heap_live_def)
  then show ?thesis using heap_live_size by blast
qed

lemma heap_run_live: "heap_run s L \<Longrightarrow> heap_live s L"
proof (induction rule: heap_run.induct)
  case run_init
  show ?case using heap_rep_init by (force simp: heap_live_def)
next
  case (run_malloc s L n p s')
  then obtain sz where "heap_live s' (L(p \<mapsto> sz))" using heap.malloc_some by blast
  moreover from this have "hb_size (heap_mem s' (p - 40)) = sz"
    using heap_live_header [of s' "L(p \<mapsto> sz)" p sz] by simp
  ultimately show ?case by (simp del: fun_upd_apply)
next
  case (run_malloc_null s L n s')
  then show ?case using heap.malloc_null by metis
next
  case (run_free s L p)
  then show ?case using heap.release_live by (auto simp del: fun_upd_apply)
next
  case (run_free_null s L)
  then show ?case by (simp add: heap.release_null)
qed

section \<open>Properties\<close>

text \<open>
  C2. \<open>clks_kmalloc\<close> is first-fit allocation: on a heap that represents the block list \<open>bs\<close>, a
  non-zero request rounded up to \<open>need\<close> bytes ends, and returns the payload of the first free
  block of at least \<open>need\<close> bytes, split when the rest holds a header and 16 bytes, in a heap that
  represents the updated list; with no such block it returns null and changes nothing.
\<close>

theorem kmalloc_refines_first_fit:
  assumes "heap_rep s bs" "n \<noteq> 0"
  shows "case spec_alloc (clks_heap_align_up n) 0 bs of
      None \<Rightarrow> clks_kmalloc n s = Some (None, s)
    | Some (a, bs') \<Rightarrow> \<exists>s'. clks_kmalloc n s = Some (Some (a + 40), s') \<and> heap_rep s' bs'"
  using assms by (rule kmalloc_spec)

theorem kmalloc_refines_first_fit_witness:
  "\<exists>s'. clks_kmalloc 100 clks_heap_init = Some (Some 40, s') \<and>
     heap_rep s' [(112, False), (268435264, True)]"
  using kmalloc_refines_first_fit [OF heap_rep_init, of 100]
  by (simp add: align_up_small USIZE_RANGE_def CLKS_HEAP_ARENA_SIZE_def)

text \<open>
  C3. \<open>clks_kfree\<close> of a used block makes it free and joins it with a free block behind it and a
  free block before it, and nothing else: the list stays a tiling of the arena without two
  adjacent free blocks, linked both ways.
\<close>

theorem kfree_refines_coalescing:
  assumes "heap_rep s (xs @ (sz, False) # ys)"
  shows "heap_rep (clks_kfree (Some (span xs + 40)) s) (spec_free_at xs sz ys)"
  using assms by (rule kfree_spec)

theorem kfree_refines_coalescing_witness:
  "\<exists>s'. clks_kmalloc 100 clks_heap_init = Some (Some 40, s') \<and>
     heap_rep (clks_kfree (Some 40) s') [(CLKS_HEAP_ARENA_SIZE - 40, True)]"
proof -
  obtain s' where s': "clks_kmalloc 100 clks_heap_init = Some (Some 40, s')"
    "heap_rep s' ([] @ (112, False) # [(268435264, True)])"
    using kmalloc_spec [OF heap_rep_init, of 100]
    by (auto simp: align_up_small USIZE_RANGE_def CLKS_HEAP_ARENA_SIZE_def)
  from kfree_refines_coalescing [OF s'(2)] s'(1) show ?thesis
    by (auto simp: spec_free_at_def join_next_def join_prev_def CLKS_HEAP_ARENA_SIZE_def)
qed



lemma kmalloc_huge:
  assumes "USIZE_RANGE - 15 \<le> n" "n < USIZE_RANGE"
  shows "\<exists>s'. clks_kmalloc n clks_heap_init = Some (Some 40, s') \<and> heap_live s' [40 \<mapsto> 0]"
proof -
  have "(n + 15) mod USIZE_RANGE = n + 15 - USIZE_RANGE"
    using assms by (simp add: mod_if USIZE_RANGE_def)
  then have "clks_heap_align_up n = 0"
    using assms by (simp add: clks_heap_align_up_def CLKS_HEAP_ALIGN_def add64_def mask_down_eq)
  moreover have "n \<noteq> 0" using assms by (simp add: USIZE_RANGE_def)
  ultimately obtain s' where s': "clks_kmalloc n clks_heap_init = Some (Some 40, s')"
    "heap_rep s' [(0, False), (CLKS_HEAP_ARENA_SIZE - 40 - 40, True)]"
    using kmalloc_spec [OF heap_rep_init, of n] by (auto simp: CLKS_HEAP_ARENA_SIZE_def)
  then have "heap_live s' [40 \<mapsto> 0]" unfolding heap_live_def
    by (intro exI [of _ "[(0, False), (CLKS_HEAP_ARENA_SIZE - 40 - 40, True)]"])
      (simp add: fun_eq_iff)
  with s'(1) show ?thesis by blast
qed

text \<open>
  The rounding of the request wraps: the fifteen largest requests are rounded up to zero bytes,
  and on the fresh heap each of them succeeds with a pointer to a block of no bytes.
\<close>

theorem kmalloc_huge_request_succeeds:
  assumes "USIZE_RANGE - 15 \<le> n" "n < USIZE_RANGE"
  shows "\<exists>s'. clks_kmalloc n clks_heap_init = Some (Some 40, s') \<and> heap_live s' [40 \<mapsto> 0]"
  using assms by (rule kmalloc_huge)

theorem kmalloc_huge_request_succeeds_witness:
  "\<exists>s'. clks_kmalloc 18446744073709551615 clks_heap_init = Some (Some 40, s') \<and>
     heap_live s' [40 \<mapsto> 0]"
  by (rule kmalloc_huge_request_succeeds) (simp_all add: USIZE_RANGE_def)

text \<open>
  The blocks are not aligned to \<open>CLKS_HEAP_ALIGN\<close>: on the fresh heap every request that fits is
  served at offset 40 of the 16-byte aligned arena, which is not a multiple of 16.
\<close>

theorem kmalloc_not_16_aligned:
  assumes "0 < n" "n \<le> 268435400"
  shows "\<exists>s'. clks_kmalloc n clks_heap_init = Some (Some 40, s') \<and> 40 mod CLKS_HEAP_ALIGN = 8"
proof -
  have "clks_heap_align_up n \<le> CLKS_HEAP_ARENA_SIZE - 40"
    using assms by (simp add: align_up_small USIZE_RANGE_def CLKS_HEAP_ARENA_SIZE_def)
  then show ?thesis
    using kmalloc_spec [OF heap_rep_init, of n] assms
    by (auto simp: CLKS_HEAP_ALIGN_def split: if_splits)
qed

theorem kmalloc_not_16_aligned_witness:
  "\<exists>s'. clks_kmalloc 24 clks_heap_init = Some (Some 40, s') \<and> 40 mod CLKS_HEAP_ALIGN = 8"
  by (rule kmalloc_not_16_aligned) simp_all

end
