(* ===== verification/Clks_String.thy ===== *)
theory Clks_String
  imports Clks_Prelude
begin

text \<open>
  The byte and C string routines of \<open>kernel/support/string.c\<close> on a byte-addressed memory
  (address to byte), loop by loop, and their contracts. \<open>clks_strlen\<close> and \<open>clks_strcmp\<close> run until
  they meet a terminator and are \<open>partial_function\<close>s: \<open>None\<close> is a loop that does not end. The
  other theories use C strings as HOL strings without the terminator; the properties at the end
  are what justifies reading \<open>clks_strlen\<close> as the length and \<open>clks_strcmp (..) == 0\<close> as equality.
\<close>

section \<open>The routines\<close>

type_synonym memory = "nat \<Rightarrow> u8"

partial_function (option) strlen_loop :: "memory \<Rightarrow> nat \<Rightarrow> nat \<Rightarrow> nat option" where
  "strlen_loop m str len = (if m (str + len) \<noteq> 0 then strlen_loop m str (len + 1) else Some len)"

definition clks_strlen :: "memory \<Rightarrow> nat \<Rightarrow> nat option" where
  "clks_strlen m str = strlen_loop m str 0"

definition clks_memset :: "nat \<Rightarrow> 32 word \<Rightarrow> nat \<Rightarrow> memory \<Rightarrow> memory" where
  "clks_memset dst value count = fold (\<lambda>i m. m(dst + i := ucast value)) [0..<count]"

text \<open>The loop body \<open>d[i] = s[i]\<close> of the two copies.\<close>

definition copy_byte :: "nat \<Rightarrow> nat \<Rightarrow> nat \<Rightarrow> memory \<Rightarrow> memory" where
  "copy_byte dst src i m = m(dst + i := m (src + i))"

definition clks_memcpy :: "nat \<Rightarrow> nat \<Rightarrow> nat \<Rightarrow> memory \<Rightarrow> memory" where
  "clks_memcpy dst src count = fold (copy_byte dst src) [0..<count]"

definition clks_memmove :: "nat \<Rightarrow> nat \<Rightarrow> nat \<Rightarrow> memory \<Rightarrow> memory" where
  "clks_memmove dst src count m =
     (if dst = src \<or> count = 0 then m
      else if dst < src then fold (copy_byte dst src) [0..<count] m
      else fold (\<lambda>i. copy_byte dst src (i - 1)) (rev [1..<count + 1]) m)"

partial_function (option) strcmp_loop :: "memory \<Rightarrow> nat \<Rightarrow> nat \<Rightarrow> nat \<Rightarrow> int option" where
  "strcmp_loop m left right i =
     (if m (left + i) \<noteq> 0 \<and> m (right + i) \<noteq> 0 then
        if m (left + i) \<noteq> m (right + i) then
          Some (int (unat (m (left + i))) - int (unat (m (right + i))))
        else strcmp_loop m left right (i + 1)
      else Some (int (unat (m (left + i))) - int (unat (m (right + i)))))"

definition clks_strcmp :: "memory \<Rightarrow> nat \<Rightarrow> nat \<Rightarrow> int option" where
  "clks_strcmp m left right = strcmp_loop m left right 0"

section \<open>Strings in memory\<close>

text \<open>The memory holds the bytes \<open>s\<close>, none of them zero, and a terminator, from \<open>p\<close> on.\<close>

definition c_string :: "memory \<Rightarrow> nat \<Rightarrow> u8 list \<Rightarrow> bool" where
  "c_string m p s \<longleftrightarrow> 0 \<notin> set s \<and> (\<forall>i < length s. m (p + i) = s ! i) \<and> m (p + length s) = 0"

lemma c_string_nth: "c_string m p s \<Longrightarrow> i < length s \<Longrightarrow> m (p + i) = s ! i \<and> s ! i \<noteq> 0"
  by (auto simp: c_string_def dest: nth_mem)

lemma c_string_end: "c_string m p s \<Longrightarrow> m (p + length s) = 0"
  by (simp add: c_string_def)

lemma strlen_loop_runs:
  "c_string m p s \<Longrightarrow> k \<le> length s \<Longrightarrow> strlen_loop m p (length s - k) = Some (length s)"
proof (induction k)
  case 0
  then show ?case by (subst strlen_loop.simps) (simp add: c_string_end)
next
  case (Suc k)
  then have "m (p + (length s - Suc k)) \<noteq> 0" "length s - Suc k + 1 = length s - k"
    using c_string_nth [of m p s "length s - Suc k"] by auto
  with Suc show ?case by (subst strlen_loop.simps) simp
qed

text \<open>The byte loops, by what they leave at each address.\<close>

lemma copy_forward:
  assumes "dst \<le> src \<or> src + n \<le> dst"
  shows "fold (copy_byte dst src) [0..<n] m =
    (\<lambda>a. if dst \<le> a \<and> a < dst + n then m (src + (a - dst)) else m a)"
  using assms
proof (induction n)
  case (Suc n)
  then have "fold (copy_byte dst src) [0..<n] m =
    (\<lambda>a. if dst \<le> a \<and> a < dst + n then m (src + (a - dst)) else m a)" by auto
  then have "fold (copy_byte dst src) [0..<Suc n] m = copy_byte dst src n
    (\<lambda>a. if dst \<le> a \<and> a < dst + n then m (src + (a - dst)) else m a)" by simp
  with Suc.prems show ?case
    by (simp only:) (auto simp: copy_byte_def fun_eq_iff not_less less_Suc_eq)
qed (auto simp: fun_eq_iff)

lemma copy_backward:
  assumes "src \<le> dst" "k \<le> n"
  shows "fold (\<lambda>i. copy_byte dst src (i - 1)) (rev [Suc (n - k)..<n + 1]) m =
    (\<lambda>a. if dst + (n - k) \<le> a \<and> a < dst + n then m (src + (a - dst)) else m a)"
  using assms(2)
proof (induction k)
  case (Suc k)
  then have u: "[Suc (n - Suc k)..<n + 1] = (n - k) # [Suc (n - k)..<n + 1]"
    by (simp add: upt_conv_Cons Suc_diff_Suc del: upt_Suc)
  have "fold (\<lambda>i. copy_byte dst src (i - 1)) (rev [Suc (n - k)..<n + 1]) m =
    (\<lambda>a. if dst + (n - k) \<le> a \<and> a < dst + n then m (src + (a - dst)) else m a)"
    using Suc by simp
  then have "fold (\<lambda>i. copy_byte dst src (i - 1)) (rev [Suc (n - Suc k)..<n + 1]) m =
    copy_byte dst src (n - k - 1)
    (\<lambda>a. if dst + (n - k) \<le> a \<and> a < dst + n then m (src + (a - dst)) else m a)"
    unfolding u rev.simps fold_append by (simp only: fold_simps comp_apply)
  with Suc.prems assms(1) show ?case
    by (simp only:) (auto simp: copy_byte_def fun_eq_iff)
qed (auto simp: fun_eq_iff)

lemma strcmp_loop_diff:
  assumes "m (left + i) \<noteq> m (right + i) \<or> m (left + i) = 0"
  shows "strcmp_loop m left right i =
    Some (int (unat (m (left + i))) - int (unat (m (right + i))))"
  using assms by (subst strcmp_loop.simps) auto

lemma strcmp_loop_runs:
  assumes "c_string m p s" "c_string m q t"
    and "i \<le> length s" "i \<le> length t" "take i s = take i t"
  shows "\<exists>r. strcmp_loop m p q i = Some r \<and> (r = 0 \<longleftrightarrow> s = t) \<and>
    (r < 0 \<longleftrightarrow> (drop i s, drop i t) \<in> lexord {(a, b). a < b})"
  using assms(3-5)
proof (induction "length s - i" arbitrary: i rule: less_induct)
  case less
  have z: "i = length s \<Longrightarrow> m (p + i) = 0" "i = length t \<Longrightarrow> m (q + i) = 0"
    using assms(1,2) by (simp_all add: c_string_end)
  have nz: "i < length s \<Longrightarrow> m (p + i) = s ! i \<and> s ! i \<noteq> 0" "i < length t \<Longrightarrow> m (q + i) = t ! i \<and> t ! i \<noteq> 0"
    using c_string_nth assms(1,2) by blast+
  show ?case
  proof (cases "i = length s \<or> i = length t \<or> s ! i \<noteq> t ! i")
    case True
    have "m (p + i) \<noteq> m (q + i) \<or> m (p + i) = 0"
      using True z nz less.prems by (metis le_neq_implies_less)
    note r = strcmp_loop_diff [OF this]
    have "s = t \<longleftrightarrow> i = length s \<and> i = length t"
      using True less.prems by (metis append_take_drop_id drop_all le_refl nth_equalityI take_all)
    moreover have "(drop i s, drop i t) \<in> lexord {(a, b). a < b} \<longleftrightarrow> m (p + i) < m (q + i)"
      using True z nz less.prems
      by (cases "i < length s"; cases "i < length t")
        (auto simp: Cons_nth_drop_Suc [symmetric] word_gt_0)
    moreover have "m (p + i) = m (q + i) \<longleftrightarrow> i = length s \<and> i = length t"
      using True z nz less.prems by (metis le_neq_implies_less)
    moreover have "int (unat a) - int (unat b) = 0 \<longleftrightarrow> a = b" "int (unat a) - int (unat b) < 0 \<longleftrightarrow> a < b"
      for a b :: u8
      by (auto simp: word_less_def word_uint_eq_iff)
    ultimately show ?thesis using r by blast
  next
    case False
    with less.prems have lt: "i < length s" "i < length t" by auto
    then have "take (i + 1) s = take (i + 1) t"
      using False less.prems by (simp add: take_Suc_conv_app_nth)
    with lt have "\<exists>r. strcmp_loop m p q (i + 1) = Some r \<and> (r = 0 \<longleftrightarrow> s = t) \<and>
      (r < 0 \<longleftrightarrow> (drop (i + 1) s, drop (i + 1) t) \<in> lexord {(a, b). a < b})"
      by (intro less.hyps) auto
    then obtain r where r: "strcmp_loop m p q (i + 1) = Some r" "r = 0 \<longleftrightarrow> s = t"
      "r < 0 \<longleftrightarrow> (drop (i + 1) s, drop (i + 1) t) \<in> lexord {(a, b). a < b}" by blast
    have "strcmp_loop m p q i = strcmp_loop m p q (i + 1)"
      using nz lt False by (subst strcmp_loop.simps) auto
    with r lt False show ?thesis by (auto simp: Cons_nth_drop_Suc [symmetric])
  qed
qed

section \<open>Properties\<close>

text \<open>
  C5. \<open>clks_memmove\<close> copies as if through a buffer: whatever the overlap, afterwards each of the
  \<open>count\<close> destination bytes is the source byte of before, and no other byte has changed;
  \<open>clks_memcpy\<close> does the same unless the destination starts inside the source range.
\<close>

theorem memmove_copies:
  "clks_memmove dst src count m =
     (\<lambda>a. if dst \<le> a \<and> a < dst + count then m (src + (a - dst)) else m a) \<and>
   (dst \<le> src \<or> src + count \<le> dst \<longrightarrow>
     clks_memcpy dst src count m = clks_memmove dst src count m)"
proof -
  have mv: "clks_memmove dst src count m =
     (\<lambda>a. if dst \<le> a \<and> a < dst + count then m (src + (a - dst)) else m a)"
  proof (cases "dst < src")
    case True
    then show ?thesis using copy_forward [of dst src count m] by (auto simp: clks_memmove_def)
  next
    case False
    then show ?thesis using copy_backward [of src dst count count m]
      by (auto simp: clks_memmove_def fun_eq_iff)
  qed
  moreover have "clks_memcpy dst src count m = clks_memmove dst src count m"
    if "dst \<le> src \<or> src + count \<le> dst"
    using copy_forward [OF that] by (simp add: clks_memcpy_def mv)
  ultimately show ?thesis by blast
qed

theorem memmove_copies_witness:
  "clks_memmove 1 0 3 ((\<lambda>_. 0)(0 := 7, 1 := 8, 2 := 9)) 3 = 9"
  using memmove_copies [of 1 0 3 "(\<lambda>_. 0)(0 := 7, 1 := 8, 2 := 9)"] by simp

text \<open>
  On terminated strings \<open>clks_strlen\<close> ends with the length, and \<open>clks_strcmp\<close> ends with zero
  exactly for equal strings and with a negative number exactly when the left one is smaller in
  the lexicographic order of unsigned bytes.
\<close>

theorem strlen_strcmp_contract:
  assumes "c_string m p s" "c_string m q t"
  shows "clks_strlen m p = Some (length s) \<and>
    (\<exists>r. clks_strcmp m p q = Some r \<and> (r = 0 \<longleftrightarrow> s = t) \<and>
       (r < 0 \<longleftrightarrow> (s, t) \<in> lexord {(a, b). a < b}))"
  using strlen_loop_runs [OF assms(1), of "length s"] strcmp_loop_runs [OF assms, of 0]
  by (simp add: clks_strlen_def clks_strcmp_def)

theorem strlen_strcmp_contract_witness:
  "clks_strlen ((\<lambda>_. 0)(0 := 97, 1 := 98, 4 := 97)) 0 = Some 2 \<and>
   (\<exists>r. clks_strcmp ((\<lambda>_. 0)(0 := 97, 1 := 98, 4 := 97)) 0 4 = Some r \<and> \<not> r < 0 \<and> r \<noteq> 0)"
proof -
  have "c_string ((\<lambda>_. 0)(0 := 97, 1 := 98, 4 := 97)) 0 [97, 98]"
    "c_string ((\<lambda>_. 0)(0 := 97, 1 := 98, 4 := 97)) 4 [97]"
    by (auto simp: c_string_def less_Suc_eq)
  from strlen_strcmp_contract [OF this] show ?thesis by auto
qed

end
