(* ===== verification/Clks_Ring.thy ===== *)
theory Clks_Ring
  imports Clks_Prelude
begin

text \<open>
  Ring buffers as the kernel writes them: an array of \<open>cap\<close> cells with a read position and a count
  (or a write position), advanced modulo \<open>cap\<close>. The locale \<open>ring\<close> gives the list such a buffer
  holds and what storing a cell and advancing a position do to that list; the components that
  keep a ring interpret it at their capacity.
\<close>

text \<open>The newest \<open>n\<close> elements of a list.\<close>

definition newest :: "nat \<Rightarrow> 'a list \<Rightarrow> 'a list" where
  "newest n xs = drop (length xs - n) xs"

lemma newest_snoc_newest: "newest n (newest n xs @ ys) = newest n (xs @ ys)"
  by (cases "n \<le> length xs") (auto simp: newest_def add.commute)

locale ring =
  fixes cap :: nat
  assumes cap_pos: "0 < cap"
begin

definition items :: "(nat \<Rightarrow> 'a) \<Rightarrow> nat \<Rightarrow> nat \<Rightarrow> 'a list" where
  "items f r n = map (\<lambda>k. f ((r + k) mod cap)) [0..<n]"

lemma items_0 [simp]: "items f r 0 = []"
  by (simp add: items_def)

lemma items_length [simp]: "length (items f r n) = n"
  by (simp add: items_def)

lemma items_nth: "k < n \<Longrightarrow> items f r n ! k = f ((r + k) mod cap)"
  by (simp add: items_def)

lemma items_Suc: "items f r (Suc n) = f (r mod cap) # items f ((r + 1) mod cap) n"
  by (rule nth_equalityI) (auto simp: items_def nth_Cons mod_add_left_eq simp del: upt_Suc split: nat.splits)

lemma items_push:
  assumes "n < cap"
  shows "items (f((r + n) mod cap := x)) r (Suc n) = items f r n @ [x]"
proof -
  have "(r + k) mod cap \<noteq> (r + n) mod cap" if "k < n" for k
  proof
    assume "(r + k) mod cap = (r + n) mod cap"
    then have "cap dvd (r + n) - (r + k)"
      using that by (metis add_le_cancel_left less_imp_le mod_eq_dvd_iff_nat)
    with that assms show False by (auto dest: dvd_imp_le)
  qed
  then show ?thesis
    by (intro nth_equalityI) (auto simp: items_def nth_append less_Suc_eq simp del: upt_Suc)
qed

lemma items_pop: "n \<noteq> 0 \<Longrightarrow> items f ((r + 1) mod cap) (n - 1) = tl (items f r n)"
  by (cases n) (simp_all add: items_Suc)

text \<open>Storing at the end of a ring that drops its oldest cell when it is full.\<close>

lemma items_store:
  assumes "r < cap" "n \<le> cap"
  shows "items (f((r + n) mod cap := x)) (if n < cap then r else (r + 1) mod cap) (if n < cap then Suc n else n)
       = newest cap (items f r n @ [x])"
proof (cases "n < cap")
  case True
  then show ?thesis by (simp add: items_push newest_def)
next
  case False
  with assms cap_pos have n: "n = Suc (cap - 1)" by simp
  have w: "((r + 1) mod cap + (cap - 1)) mod cap = (r + n) mod cap"
  proof -
    have "((r + 1) mod cap + (cap - 1)) mod cap = ((r + 1) + (cap - 1)) mod cap" by (rule mod_add_left_eq)
    also have "(r + 1) + (cap - 1) = r + n" using False assms cap_pos by simp
    finally show ?thesis .
  qed
  have "items (f((r + n) mod cap := x)) ((r + 1) mod cap) (Suc (cap - 1)) = items f ((r + 1) mod cap) (cap - 1) @ [x]"
    unfolding w [symmetric] using cap_pos by (intro items_push) simp
  also have "items f ((r + 1) mod cap) (cap - 1) = tl (items f r n)"
    using items_pop [of n f r] n by simp
  also have "tl (items f r n) @ [x] = newest cap (items f r n @ [x])"
  proof -
    have "length (items f r n) = cap" using False assms by simp
    then show ?thesis using cap_pos by (cases "items f r n") (auto simp: newest_def)
  qed
  finally have "items (f((r + n) mod cap := x)) ((r + 1) mod cap) n = newest cap (items f r n @ [x])"
    unfolding n [symmetric] .
  with False show ?thesis by simp
qed

lemma store_pos:
  assumes "r < cap" "n \<le> cap"
  shows "((r + n) mod cap + 1) mod cap =
      ((if n < cap then r else (r + 1) mod cap) + (if n < cap then Suc n else n)) mod cap"
  using assms mod_add_self2 [of "Suc r" cap] by (auto simp: mod_simps)

lemma take_pos: "n \<noteq> 0 \<Longrightarrow> ((r + 1) mod cap + (n - 1)) mod cap = (r + n) mod cap"
  using mod_add_left_eq [of "r + 1" cap "n - 1"] by simp

end

end
