(* ===== verification/Clks_Pty.thy ===== *)
theory Clks_Pty
  imports Clks_Ring
begin

text \<open>
  Pseudo terminals, \<open>kernel/runtime/pty.c\<close>: sixteen reference-counted slots, each a ring of 8192
  bytes that overwrites its oldest bytes when it is full. A slot's contents are the list of bytes
  from \<open>read_pos\<close> on; reading takes from its front, writing keeps the newest 8192 bytes.
\<close>

section \<open>State and operations\<close>

definition CLKS_PTY_MAX :: nat where
  "CLKS_PTY_MAX = 16"

definition CLKS_PTY_BUFFER_SIZE :: nat where
  "CLKS_PTY_BUFFER_SIZE = 8192"

record clks_pty_slot =
  pty_used :: bool
  pty_slot_id :: u64
  pty_ref_count :: u64
  pty_buffer :: "nat \<Rightarrow> u8"
  pty_read_pos :: nat
  pty_write_pos :: nat
  pty_byte_count :: nat

record pty_state =
  pty_slots :: "clks_pty_slot list"
  pty_next_id :: u64

definition pty_zero_slot :: clks_pty_slot where
  "pty_zero_slot = \<lparr>pty_used = False, pty_slot_id = 0, pty_ref_count = 0, pty_buffer = (\<lambda>_. 0),
     pty_read_pos = 0, pty_write_pos = 0, pty_byte_count = 0\<rparr>"

definition clks_pty_find_slot :: "u64 \<Rightarrow> pty_state \<Rightarrow> nat option" where
  "clks_pty_find_slot pid s =
     (if pid = 0 then None
      else find (\<lambda>i. pty_used (pty_slots s ! i) \<and> pty_slot_id (pty_slots s ! i) = pid) [0..<CLKS_PTY_MAX])"

definition clks_pty_init :: pty_state where
  "clks_pty_init = \<lparr>pty_slots = replicate CLKS_PTY_MAX pty_zero_slot, pty_next_id = 1\<rparr>"

text \<open>The identifier a new slot gets and the next one, with the wrap of the counter.\<close>

definition pty_take_id :: "u64 \<Rightarrow> u64 \<times> u64" where
  "pty_take_id next_id =
     (let i = next_id;
          n = (if next_id + 1 = 0 then 1 else next_id + 1)
      in if i = 0 then (n, n + 1) else (i, n))"

definition clks_pty_alloc :: "pty_state \<Rightarrow> u64 \<times> pty_state" where
  "clks_pty_alloc s =
     (case find (\<lambda>i. \<not> pty_used (pty_slots s ! i)) [0..<CLKS_PTY_MAX] of
        None \<Rightarrow> (0, s)
      | Some i \<Rightarrow>
          let (pid, next_id) = pty_take_id (pty_next_id s)
          in (pid, s\<lparr>pty_slots := (pty_slots s)[i :=
                 pty_zero_slot\<lparr>pty_used := True, pty_slot_id := pid, pty_ref_count := 1\<rparr>],
               pty_next_id := next_id\<rparr>))"

definition clks_pty_retain :: "u64 \<Rightarrow> pty_state \<Rightarrow> bool \<times> pty_state" where
  "clks_pty_retain pid s =
     (case clks_pty_find_slot pid s of
        None \<Rightarrow> (False, s)
      | Some i \<Rightarrow>
          let slot = pty_slots s ! i
          in if pty_ref_count slot = 0xFFFFFFFFFFFFFFFF then (False, s)
             else (True, s\<lparr>pty_slots := (pty_slots s)[i :=
                     slot\<lparr>pty_ref_count := pty_ref_count slot + 1\<rparr>]\<rparr>))"

definition clks_pty_release :: "u64 \<Rightarrow> pty_state \<Rightarrow> pty_state" where
  "clks_pty_release pid s =
     (case clks_pty_find_slot pid s of
        None \<Rightarrow> s
      | Some i \<Rightarrow>
          let slot = pty_slots s ! i
          in if pty_ref_count slot > 1
             then s\<lparr>pty_slots := (pty_slots s)[i := slot\<lparr>pty_ref_count := pty_ref_count slot - 1\<rparr>]\<rparr>
             else s\<lparr>pty_slots := (pty_slots s)[i := pty_zero_slot]\<rparr>)"

text \<open>The loop of \<open>clks_pty_read\<close>: the bytes it stores, in order, and the slot after it.\<close>

fun pty_read_loop :: "nat \<Rightarrow> clks_pty_slot \<Rightarrow> u8 list \<times> clks_pty_slot" where
  "pty_read_loop 0 slot = ([], slot)"
| "pty_read_loop (Suc n) slot =
     (if pty_byte_count slot > 0 then
        let b = pty_buffer slot (pty_read_pos slot);
            (bs, slot') = pty_read_loop n
              (slot\<lparr>pty_read_pos := (pty_read_pos slot + 1) mod CLKS_PTY_BUFFER_SIZE,
                    pty_byte_count := pty_byte_count slot - 1\<rparr>)
        in (b # bs, slot')
      else ([], slot))"

text \<open>
  The return value is \<open>None\<close> for \<open>(u64)-1\<close>; the bytes are what \<open>out_buffer\<close> receives. \<open>has_buffer\<close>
  says that \<open>out_buffer\<close> is not null.
\<close>

definition clks_pty_read :: "u64 \<Rightarrow> bool \<Rightarrow> nat \<Rightarrow> pty_state \<Rightarrow> nat option \<times> u8 list \<times> pty_state" where
  "clks_pty_read pid has_buffer n s =
     (if \<not> has_buffer \<and> n \<noteq> 0 then (None, [], s)
      else if n = 0 then (Some 0, [], s)
      else case clks_pty_find_slot pid s of
        None \<Rightarrow> (None, [], s)
      | Some i \<Rightarrow>
          let (bs, slot) = pty_read_loop n (pty_slots s ! i)
          in (Some (length bs), bs, s\<lparr>pty_slots := (pty_slots s)[i := slot]\<rparr>))"

definition pty_store_byte :: "u8 \<Rightarrow> clks_pty_slot \<Rightarrow> clks_pty_slot" where
  "pty_store_byte b slot =
     (let slot1 = (if pty_byte_count slot = CLKS_PTY_BUFFER_SIZE
                   then slot\<lparr>pty_read_pos := (pty_read_pos slot + 1) mod CLKS_PTY_BUFFER_SIZE,
                             pty_byte_count := pty_byte_count slot - 1\<rparr>
                   else slot)
      in slot1\<lparr>pty_buffer := (pty_buffer slot1)(pty_write_pos slot1 := b),
               pty_write_pos := (pty_write_pos slot1 + 1) mod CLKS_PTY_BUFFER_SIZE,
               pty_byte_count := pty_byte_count slot1 + 1\<rparr>)"

text \<open>\<open>buffer\<close> is \<open>None\<close> for the null pointer; otherwise \<open>size\<close> bytes are read from it.\<close>

definition clks_pty_write :: "u64 \<Rightarrow> u8 list option \<Rightarrow> nat \<Rightarrow> pty_state \<Rightarrow> nat option \<times> pty_state" where
  "clks_pty_write pid buffer n s =
     (case buffer of
        None \<Rightarrow> if n \<noteq> 0 then (None, s) else (Some 0, s)
      | Some src \<Rightarrow>
          if n = 0 then (Some 0, s)
          else case clks_pty_find_slot pid s of
            None \<Rightarrow> (None, s)
          | Some i \<Rightarrow>
              (Some n, s\<lparr>pty_slots := (pty_slots s)[i :=
                 fold pty_store_byte (take n src) (pty_slots s ! i)]\<rparr>))"

section \<open>Contents of a slot\<close>

interpretation pty_ring: ring CLKS_PTY_BUFFER_SIZE
  by unfold_locales (simp add: CLKS_PTY_BUFFER_SIZE_def)

definition pty_contents :: "clks_pty_slot \<Rightarrow> u8 list" where
  "pty_contents slot = pty_ring.items (pty_buffer slot) (pty_read_pos slot) (pty_byte_count slot)"

definition pty_slot_ok :: "clks_pty_slot \<Rightarrow> bool" where
  "pty_slot_ok slot \<longleftrightarrow> pty_byte_count slot \<le> CLKS_PTY_BUFFER_SIZE \<and>
     pty_read_pos slot < CLKS_PTY_BUFFER_SIZE \<and>
     pty_write_pos slot = (pty_read_pos slot + pty_byte_count slot) mod CLKS_PTY_BUFFER_SIZE"

lemma pty_buffer_pos: "0 < CLKS_PTY_BUFFER_SIZE"
  by (simp add: CLKS_PTY_BUFFER_SIZE_def)

lemma pty_contents_length: "length (pty_contents slot) = pty_byte_count slot"
  by (simp add: pty_contents_def)

lemma pty_slot_simps:
  "pty_used (pty_store_byte b slot) = pty_used slot"
  "pty_slot_id (pty_store_byte b slot) = pty_slot_id slot"
  "pty_ref_count (pty_store_byte b slot) = pty_ref_count slot"
  by (simp_all add: pty_store_byte_def Let_def)

text \<open>Storing a byte into a ring that is not full, and dropping its oldest byte.\<close>

lemma pty_append_byte:
  assumes "pty_slot_ok slot" "pty_byte_count slot < CLKS_PTY_BUFFER_SIZE"
  shows "pty_slot_ok (slot\<lparr>pty_buffer := (pty_buffer slot)(pty_write_pos slot := b),
      pty_write_pos := (pty_write_pos slot + 1) mod CLKS_PTY_BUFFER_SIZE,
      pty_byte_count := pty_byte_count slot + 1\<rparr>) \<and>
    pty_contents (slot\<lparr>pty_buffer := (pty_buffer slot)(pty_write_pos slot := b),
      pty_write_pos := (pty_write_pos slot + 1) mod CLKS_PTY_BUFFER_SIZE,
      pty_byte_count := pty_byte_count slot + 1\<rparr>) = pty_contents slot @ [b]"
  using assms pty_ring.items_push [OF assms(2), of "pty_buffer slot" "pty_read_pos slot" b]
  by (simp add: pty_slot_ok_def pty_contents_def mod_Suc_eq)

lemma pty_drop_byte:
  assumes "pty_slot_ok slot" "pty_byte_count slot \<noteq> 0"
  shows "pty_slot_ok (slot\<lparr>pty_read_pos := (pty_read_pos slot + 1) mod CLKS_PTY_BUFFER_SIZE,
      pty_byte_count := pty_byte_count slot - 1\<rparr>) \<and>
    pty_contents (slot\<lparr>pty_read_pos := (pty_read_pos slot + 1) mod CLKS_PTY_BUFFER_SIZE,
      pty_byte_count := pty_byte_count slot - 1\<rparr>) = tl (pty_contents slot) \<and>
    hd (pty_contents slot) = pty_buffer slot (pty_read_pos slot)"
proof -
  have "((pty_read_pos slot + 1) mod CLKS_PTY_BUFFER_SIZE + (pty_byte_count slot - 1)) mod
      CLKS_PTY_BUFFER_SIZE = (pty_read_pos slot + pty_byte_count slot) mod CLKS_PTY_BUFFER_SIZE"
    using assms(2) mod_add_left_eq [of "pty_read_pos slot + 1" CLKS_PTY_BUFFER_SIZE "pty_byte_count slot - 1"]
    by simp
  moreover have "hd (pty_contents slot) = pty_buffer slot (pty_read_pos slot)"
    using assms by (cases "pty_byte_count slot")
      (simp_all add: pty_contents_def pty_ring.items_Suc pty_slot_ok_def)
  ultimately show ?thesis
    using assms pty_ring.items_pop [OF assms(2), of "pty_buffer slot" "pty_read_pos slot"] pty_buffer_pos
    by (simp add: pty_slot_ok_def pty_contents_def le_diff_conv)
qed

lemma pty_store_byte_spec:
  assumes "pty_slot_ok slot"
  shows "pty_slot_ok (pty_store_byte b slot) \<and>
    pty_contents (pty_store_byte b slot) = newest CLKS_PTY_BUFFER_SIZE (pty_contents slot @ [b])"
proof (cases "pty_byte_count slot = CLKS_PTY_BUFFER_SIZE")
  case True
  then have nz: "pty_byte_count slot \<noteq> 0" using pty_buffer_pos by simp
  let ?slot = "slot\<lparr>pty_read_pos := (pty_read_pos slot + 1) mod CLKS_PTY_BUFFER_SIZE,
      pty_byte_count := pty_byte_count slot - 1\<rparr>"
  have "tl (pty_contents slot) @ [b] = newest CLKS_PTY_BUFFER_SIZE (pty_contents slot @ [b])"
    using True nz by (simp add: newest_def pty_contents_length tl_append2 drop_Suc
        flip: length_greater_0_conv)
  with pty_append_byte [of ?slot b] pty_drop_byte [OF assms nz] True nz show ?thesis
    by (simp add: pty_store_byte_def Let_def)
next
  case False
  with assms have "pty_byte_count slot < CLKS_PTY_BUFFER_SIZE" by (simp add: pty_slot_ok_def)
  with pty_append_byte [OF assms this, of b] False show ?thesis
    by (simp add: pty_store_byte_def Let_def newest_def pty_contents_length)
qed

lemma pty_store_spec:
  assumes "pty_slot_ok slot"
  shows "pty_slot_ok (fold pty_store_byte bs slot) \<and>
    pty_contents (fold pty_store_byte bs slot) = newest CLKS_PTY_BUFFER_SIZE (pty_contents slot @ bs) \<and>
    pty_used (fold pty_store_byte bs slot) = pty_used slot \<and>
    pty_slot_id (fold pty_store_byte bs slot) = pty_slot_id slot"
  using assms
proof (induction bs arbitrary: slot)
  case Nil
  then show ?case by (simp add: newest_def pty_contents_length pty_slot_ok_def)
next
  case (Cons b bs)
  from Cons.IH [of "pty_store_byte b slot"] pty_store_byte_spec [OF Cons.prems, of b]
    newest_snoc_newest [of CLKS_PTY_BUFFER_SIZE "pty_contents slot @ [b]" bs]
  show ?case by (simp add: pty_slot_simps)
qed

lemma pty_read_loop_spec:
  assumes "pty_slot_ok slot"
  shows "fst (pty_read_loop n slot) = take n (pty_contents slot) \<and>
    pty_slot_ok (snd (pty_read_loop n slot)) \<and>
    pty_contents (snd (pty_read_loop n slot)) = drop n (pty_contents slot) \<and>
    pty_used (snd (pty_read_loop n slot)) = pty_used slot \<and>
    pty_slot_id (snd (pty_read_loop n slot)) = pty_slot_id slot"
  using assms
proof (induction n arbitrary: slot)
  case 0
  then show ?case by simp
next
  case (Suc n)
  show ?case
  proof (cases "pty_byte_count slot = 0")
    case True
    then have "pty_contents slot = []" by (simp add: pty_contents_def)
    with True Suc.prems show ?thesis by simp
  next
    case False
    then obtain b bs where c: "pty_contents slot = b # bs"
      using pty_contents_length [of slot] by (cases "pty_contents slot") auto
    from pty_drop_byte [OF Suc.prems False] Suc.IH False c show ?thesis
      by (simp add: case_prod_unfold Let_def)
  qed
qed

section \<open>The slot table\<close>

text \<open>
  Sixteen slots; each used one is a well-formed ring with at least one reference, and the
  identifiers of used slots are non-zero, distinct and below the next one to be given out. The last
  part lasts until the 64-bit counter wraps, so the lemma on allocation asks that it has not.
\<close>

definition pty_inv :: "pty_state \<Rightarrow> bool" where
  "pty_inv s \<longleftrightarrow> length (pty_slots s) = CLKS_PTY_MAX \<and> pty_next_id s \<noteq> 0 \<and>
     (\<forall>i < CLKS_PTY_MAX. pty_used (pty_slots s ! i) \<longrightarrow>
        pty_slot_ok (pty_slots s ! i) \<and> 0 < pty_ref_count (pty_slots s ! i) \<and>
        pty_slot_id (pty_slots s ! i) \<noteq> 0 \<and> pty_slot_id (pty_slots s ! i) < pty_next_id s) \<and>
     (\<forall>i < CLKS_PTY_MAX. \<forall>j < CLKS_PTY_MAX. pty_used (pty_slots s ! i) \<longrightarrow> pty_used (pty_slots s ! j) \<longrightarrow>
        pty_slot_id (pty_slots s ! i) = pty_slot_id (pty_slots s ! j) \<longrightarrow> i = j)"

text \<open>What a client sees: the contents behind an identifier.\<close>

definition pty_at :: "pty_state \<Rightarrow> u64 \<Rightarrow> clks_pty_slot option" where
  "pty_at s pid = map_option (\<lambda>i. pty_slots s ! i) (clks_pty_find_slot pid s)"

definition pty_view :: "pty_state \<Rightarrow> u64 \<Rightarrow> u8 list option" where
  "pty_view s pid = map_option pty_contents (pty_at s pid)"

definition pty_refs :: "pty_state \<Rightarrow> u64 \<Rightarrow> u64 option" where
  "pty_refs s pid = map_option pty_ref_count (pty_at s pid)"

lemma find_slot_Some:
  "clks_pty_find_slot pid s = Some i \<Longrightarrow>
     i < CLKS_PTY_MAX \<and> pty_used (pty_slots s ! i) \<and> pty_slot_id (pty_slots s ! i) = pid \<and> pid \<noteq> 0"
  by (auto simp: clks_pty_find_slot_def dest: find_upt_Some split: if_splits)

lemma find_slot_iff:
  assumes "pty_inv s"
  shows "clks_pty_find_slot pid s = Some i \<longleftrightarrow>
    i < CLKS_PTY_MAX \<and> pty_used (pty_slots s ! i) \<and> pty_slot_id (pty_slots s ! i) = pid"
proof
  assume i: "i < CLKS_PTY_MAX \<and> pty_used (pty_slots s ! i) \<and> pty_slot_id (pty_slots s ! i) = pid"
  then have "pid \<noteq> 0" using assms by (auto simp: pty_inv_def)
  moreover have "find (\<lambda>i. pty_used (pty_slots s ! i) \<and> pty_slot_id (pty_slots s ! i) = pid)
      [0..<CLKS_PTY_MAX] = Some i"
    by (rule find_upt_unique) (use i assms in \<open>auto simp: pty_inv_def\<close>)
  ultimately show "clks_pty_find_slot pid s = Some i" by (simp add: clks_pty_find_slot_def)
qed (auto dest: find_slot_Some)

text \<open>Replacing a used slot by one with the same identifier.\<close>

lemma pty_update_slot:
  assumes "pty_inv s" "clks_pty_find_slot pid s = Some i"
    and "pty_used slot" "pty_slot_id slot = pid" "pty_slot_ok slot" "0 < pty_ref_count slot"
  shows "pty_inv (s\<lparr>pty_slots := (pty_slots s)[i := slot]\<rparr>)"
    and "pty_at (s\<lparr>pty_slots := (pty_slots s)[i := slot]\<rparr>) = (pty_at s)(pid \<mapsto> slot)"
    and "pty_view (s\<lparr>pty_slots := (pty_slots s)[i := slot]\<rparr>) = (pty_view s)(pid \<mapsto> pty_contents slot)"
    and "pty_refs (s\<lparr>pty_slots := (pty_slots s)[i := slot]\<rparr>) = (pty_refs s)(pid \<mapsto> pty_ref_count slot)"
proof -
  let ?s = "s\<lparr>pty_slots := (pty_slots s)[i := slot]\<rparr>"
  note i = find_slot_Some [OF assms(2)]
  show inv: "pty_inv ?s"
    using assms i by (auto simp: pty_inv_def nth_list_update)
  have f: "clks_pty_find_slot q ?s = clks_pty_find_slot q s" for q
    using assms i by (intro option_eqI) (auto simp: find_slot_iff [OF inv] find_slot_iff [OF assms(1)]
        nth_list_update pty_inv_def)
  have len: "i < length (pty_slots s)" using assms(1) i by (simp add: pty_inv_def)
  show at: "pty_at ?s = (pty_at s)(pid \<mapsto> slot)"
  proof (rule ext)
    fix q
    show "pty_at ?s q = ((pty_at s)(pid \<mapsto> slot)) q"
    proof (cases "clks_pty_find_slot q s")
      case None
      then have "q \<noteq> pid" using assms(2) by auto
      with None f show ?thesis by (simp add: pty_at_def)
    next
      case (Some j)
      then have "j = i \<longleftrightarrow> q = pid"
        using assms(2) i find_slot_Some [OF Some] by (metis option.inject)
      with Some f len show ?thesis by (cases "q = pid") (auto simp: pty_at_def)
    qed
  qed
  then show "pty_view ?s = (pty_view s)(pid \<mapsto> pty_contents slot)"
    "pty_refs ?s = (pty_refs s)(pid \<mapsto> pty_ref_count slot)"
    by (simp_all add: fun_eq_iff pty_view_def pty_refs_def)
qed

text \<open>Clearing a used slot.\<close>

lemma pty_clear_slot:
  assumes "pty_inv s" "clks_pty_find_slot pid s = Some i"
  shows "pty_inv (s\<lparr>pty_slots := (pty_slots s)[i := pty_zero_slot]\<rparr>)"
    and "pty_at (s\<lparr>pty_slots := (pty_slots s)[i := pty_zero_slot]\<rparr>) = (pty_at s)(pid := None)"
proof -
  let ?s = "s\<lparr>pty_slots := (pty_slots s)[i := pty_zero_slot]\<rparr>"
  note i = find_slot_Some [OF assms(2)]
  have z: "\<not> pty_used pty_zero_slot" by (simp add: pty_zero_slot_def)
  show inv: "pty_inv ?s"
    using assms i z by (auto simp: pty_inv_def nth_list_update)
  have f: "clks_pty_find_slot q ?s = (if q = pid then None else clks_pty_find_slot q s)" for q
  proof (rule option_eqI)
    fix j
    show "clks_pty_find_slot q ?s = Some j \<longleftrightarrow> (if q = pid then None else clks_pty_find_slot q s) = Some j"
      using assms i z
      by (auto simp: find_slot_iff [OF inv] find_slot_iff [OF assms(1)] nth_list_update pty_inv_def)
  qed
  show "pty_at ?s = (pty_at s)(pid := None)"
  proof (rule ext)
    fix q
    show "pty_at ?s q = ((pty_at s)(pid := None)) q"
    proof (cases "clks_pty_find_slot q s")
      case None
      with f show ?thesis by (simp add: pty_at_def)
    next
      case (Some j)
      then have "j = i \<longleftrightarrow> q = pid"
        using assms(2) i find_slot_Some [OF Some] by (metis option.inject)
      with Some f show ?thesis by (cases "q = pid") (auto simp: pty_at_def)
    qed
  qed
qed

lemma pty_write_spec:
  assumes "pty_inv s" "pty_view s pid = Some xs" "n \<le> length bs"
  shows "fst (clks_pty_write pid (Some bs) n s) = Some n \<and> pty_inv (snd (clks_pty_write pid (Some bs) n s)) \<and>
    pty_view (snd (clks_pty_write pid (Some bs) n s)) =
      (pty_view s)(pid \<mapsto> newest CLKS_PTY_BUFFER_SIZE (xs @ take n bs))"
proof -
  obtain i where i: "clks_pty_find_slot pid s = Some i" and xs: "xs = pty_contents (pty_slots s ! i)"
    using assms(2) by (auto simp: pty_view_def pty_at_def)
  note u = find_slot_Some [OF i]
  have ok: "pty_slot_ok (pty_slots s ! i)" "0 < pty_ref_count (pty_slots s ! i)"
    using assms(1) u by (auto simp: pty_inv_def)
  have fr: "pty_ref_count (fold pty_store_byte cs slot) = pty_ref_count slot" for cs slot
    by (induction cs arbitrary: slot) (simp_all add: pty_slot_simps)
  show ?thesis
  proof (cases "n = 0")
    case True
    have "newest CLKS_PTY_BUFFER_SIZE xs = xs"
      using ok(1) by (simp add: newest_def xs pty_contents_length pty_slot_ok_def)
    with True assms show ?thesis by (simp add: clks_pty_write_def fun_upd_idem)
  next
    case False
    with pty_update_slot [OF assms(1) i, of "fold pty_store_byte (take n bs) (pty_slots s ! i)"]
      pty_store_spec [OF ok(1), of "take n bs"] u ok xs i fr show ?thesis
      by (simp add: clks_pty_write_def)
  qed
qed

lemma pty_read_spec:
  assumes "pty_inv s" "pty_view s pid = Some xs"
  shows "fst (clks_pty_read pid True n s) = Some (min n (length xs)) \<and>
    fst (snd (clks_pty_read pid True n s)) = take n xs \<and>
    pty_inv (snd (snd (clks_pty_read pid True n s))) \<and>
    pty_view (snd (snd (clks_pty_read pid True n s))) = (pty_view s)(pid \<mapsto> drop n xs)"
proof -
  obtain i where i: "clks_pty_find_slot pid s = Some i" and xs: "xs = pty_contents (pty_slots s ! i)"
    using assms(2) by (auto simp: pty_view_def pty_at_def)
  note u = find_slot_Some [OF i]
  have ok: "pty_slot_ok (pty_slots s ! i)" "0 < pty_ref_count (pty_slots s ! i)"
    using assms(1) u by (auto simp: pty_inv_def)
  have fr: "pty_ref_count (snd (pty_read_loop k slot)) = pty_ref_count slot" for k slot
    by (induction k slot rule: pty_read_loop.induct) (simp_all add: case_prod_unfold Let_def)
  show ?thesis
  proof (cases "n = 0")
    case True
    with assms show ?thesis by (simp add: clks_pty_read_def fun_upd_idem)
  next
    case False
    with pty_update_slot [OF assms(1) i, of "snd (pty_read_loop n (pty_slots s ! i))"]
      pty_read_loop_spec [OF ok(1), of n] u ok xs i fr show ?thesis
      by (simp add: clks_pty_read_def case_prod_unfold min_def)
  qed
qed

section \<open>Terminals as byte channels\<close>

text \<open>
  The contract of a table of byte channels: \<open>put\<close> appends and keeps the newest \<open>cap\<close> bytes of a
  channel, \<open>get\<close> takes from its front, and neither touches another channel.
\<close>

locale byte_channels =
  fixes inv :: "'s \<Rightarrow> bool"
    and view :: "'s \<Rightarrow> 'k \<Rightarrow> 'b list option"
    and put :: "'k \<Rightarrow> 'b list \<Rightarrow> 's \<Rightarrow> 's"
    and get :: "'k \<Rightarrow> nat \<Rightarrow> 's \<Rightarrow> 'b list \<times> 's"
    and cap :: nat
  assumes put_inv: "inv s \<Longrightarrow> view s k = Some xs \<Longrightarrow> inv (put k bs s)"
    and put_view: "inv s \<Longrightarrow> view s k = Some xs \<Longrightarrow> view (put k bs s) = (view s)(k \<mapsto> newest cap (xs @ bs))"
    and get_inv: "inv s \<Longrightarrow> view s k = Some xs \<Longrightarrow> inv (snd (get k n s))"
    and get_bytes: "inv s \<Longrightarrow> view s k = Some xs \<Longrightarrow> fst (get k n s) = take n xs"
    and get_view: "inv s \<Longrightarrow> view s k = Some xs \<Longrightarrow> view (snd (get k n s)) = (view s)(k \<mapsto> drop n xs)"
begin

lemma put_all_view:
  assumes "inv s" "view s k = Some xs"
  shows "inv (fold (put k) bss s) \<and>
    view (fold (put k) bss s) k = Some (if bss = [] then xs else newest cap (xs @ concat bss))"
  using assms
proof (induction bss arbitrary: s xs)
  case (Cons bs bss)
  have "inv (put k bs s)" "view (put k bs s) k = Some (newest cap (xs @ bs))"
    using Cons.prems put_inv put_view by simp_all
  from Cons.IH [OF this] newest_snoc_newest [of cap "xs @ bs" "concat bss"] show ?case by simp
qed simp

lemma put_all_get:
  assumes "inv s" "view s k = Some []" "length (concat bss) \<le> cap" "bss \<noteq> []"
  shows "fst (get k (length (concat bss)) (fold (put k) bss s)) = concat bss \<and>
    view (snd (get k (length (concat bss)) (fold (put k) bss s))) k = Some []"
proof -
  let ?t = "fold (put k) bss s"
  have "inv ?t" "view ?t k = Some (concat bss)"
    using put_all_view [OF assms(1,2), of bss] assms(3,4) by (simp_all add: newest_def)
  then show ?thesis using get_bytes get_view by simp
qed

end

interpretation pty: byte_channels pty_inv pty_view
  "\<lambda>pid bs s. snd (clks_pty_write pid (Some bs) (length bs) s)"
  "\<lambda>pid n s. snd (clks_pty_read pid True n s)" CLKS_PTY_BUFFER_SIZE
  by unfold_locales (simp_all add: pty_write_spec pty_read_spec del: fun_upd_apply)

lemma pty_init_inv: "pty_inv clks_pty_init"
  by (simp add: pty_inv_def clks_pty_init_def pty_zero_slot_def)

lemma pty_init_view: "pty_view clks_pty_init = (\<lambda>_. None)"
proof
  fix pid
  have "clks_pty_find_slot pid clks_pty_init = None"
    by (auto simp: clks_pty_find_slot_def find_upt_None clks_pty_init_def pty_zero_slot_def)
  then show "pty_view clks_pty_init pid = None" by (simp add: pty_view_def pty_at_def)
qed

text \<open>Allocation gives an identifier that is not in use.\<close>

lemma pty_take_id_small:
  assumes "n \<noteq> 0" "n \<noteq> - 1"
  shows "pty_take_id n = (n, n + 1)" "n < n + 1"
  using assms word_inc [of n] by (simp_all add: pty_take_id_def)

lemma pty_alloc_spec:
  assumes "pty_inv s" "pty_next_id s \<noteq> - 1" "clks_pty_alloc s = (pid, s')" "pid \<noteq> 0"
  shows "pid = pty_next_id s \<and> pty_inv s' \<and> pty_view s pid = None \<and> pty_view s' = (pty_view s)(pid \<mapsto> [])"
proof -
  let ?n = "pty_next_id s"
  let ?slot = "pty_zero_slot\<lparr>pty_used := True, pty_slot_id := ?n, pty_ref_count := 1\<rparr>"
  have n0: "?n \<noteq> 0" using assms(1) by (simp add: pty_inv_def)
  note n = pty_take_id_small [OF n0 assms(2)]
  obtain i where f: "find (\<lambda>i. \<not> pty_used (pty_slots s ! i)) [0..<CLKS_PTY_MAX] = Some i"
    using assms(3,4) by (cases "find (\<lambda>i. \<not> pty_used (pty_slots s ! i)) [0..<CLKS_PTY_MAX]")
      (simp_all add: clks_pty_alloc_def)
  have i: "i < CLKS_PTY_MAX" "\<not> pty_used (pty_slots s ! i)" using find_upt_Some [OF f] by simp_all
  have s': "s' = s\<lparr>pty_slots := (pty_slots s)[i := ?slot], pty_next_id := ?n + 1\<rparr>" and pid: "pid = ?n"
    using assms(3) f n(1) by (auto simp: clks_pty_alloc_def)
  have len: "length (pty_slots s) = CLKS_PTY_MAX" using assms(1) by (simp add: pty_inv_def)
  have lt: "pty_slot_id (pty_slots s ! j) < ?n" if "j < CLKS_PTY_MAX" "pty_used (pty_slots s ! j)" for j
    using assms(1) that by (simp add: pty_inv_def)
  have ok: "pty_slot_ok ?slot" by (simp add: pty_slot_ok_def pty_zero_slot_def pty_buffer_pos)
  have n1: "?n < ?n + 1" "?n + 1 \<noteq> 0" using word_inc [OF assms(2)] by simp_all
  have nth': "pty_slots s' ! j = (if j = i then ?slot else pty_slots s ! j)" if "j < CLKS_PTY_MAX" for j
    using that len by (simp add: s' nth_list_update)
  have old: "pty_slot_id (pty_slots s ! j) < ?n + 1 \<and> pty_slot_id (pty_slots s ! j) \<noteq> ?n"
    if "j < CLKS_PTY_MAX" "pty_used (pty_slots s ! j)" for j
    using lt [OF that] n1(1) by auto
  have next': "pty_next_id s' = ?n + 1" and len': "length (pty_slots s') = CLKS_PTY_MAX"
    using len by (simp_all add: s')
  have inv': "pty_inv s'"
    unfolding pty_inv_def next' len'
  proof (intro conjI allI impI)
    fix j assume j: "j < CLKS_PTY_MAX" "pty_used (pty_slots s' ! j)"
    show "pty_slot_ok (pty_slots s' ! j)" "0 < pty_ref_count (pty_slots s' ! j)"
      "pty_slot_id (pty_slots s' ! j) \<noteq> 0" "pty_slot_id (pty_slots s' ! j) < ?n + 1"
      using j assms(1) ok n0 n1 old [of j] nth' [OF j(1)]
      by (auto simp: pty_inv_def split: if_splits)
  next
    fix j k assume "j < CLKS_PTY_MAX" "k < CLKS_PTY_MAX" "pty_used (pty_slots s' ! j)"
      "pty_used (pty_slots s' ! k)" "pty_slot_id (pty_slots s' ! j) = pty_slot_id (pty_slots s' ! k)"
    then show "j = k"
      using assms(1) old [of j] old [of k] nth' [of j] nth' [of k]
      by (auto simp: pty_inv_def split: if_splits)
  qed (use n1 in simp_all)
  have fnd: "clks_pty_find_slot q s' = (if q = ?n then Some i else clks_pty_find_slot q s)" for q
  proof (rule option_eqI)
    fix j
    show "clks_pty_find_slot q s' = Some j \<longleftrightarrow>
        (if q = ?n then Some i else clks_pty_find_slot q s) = Some j"
      using i old [of j] nth' [of j]
      by (auto simp: find_slot_iff [OF inv'] find_slot_iff [OF assms(1)] split: if_splits)
  qed
  have "clks_pty_find_slot ?n s = None"
    using lt find_slot_Some by (cases "clks_pty_find_slot ?n s") fastforce+
  moreover have "pty_contents (pty_slots s' ! j) = (if j = i then [] else pty_contents (pty_slots s ! j))" for j
    using i len by (simp add: s' nth_list_update pty_contents_def pty_zero_slot_def)
  moreover have "j \<noteq> i" if "clks_pty_find_slot q s = Some j" for q j
    using find_slot_Some [OF that] i by auto
  ultimately show ?thesis
    using pid inv' fnd by (auto simp: pty_view_def pty_at_def fun_eq_iff map_option_case split: option.splits)
qed

section \<open>Properties\<close>

text \<open>
  C6. A terminal is a bounded byte queue: on a well-formed table, a write to a terminal whose
  contents are \<open>xs\<close> accepts all \<open>n\<close> bytes and leaves the newest 8192 of \<open>xs\<close> and the bytes written,
  a read of \<open>n\<close> bytes returns the oldest \<open>n\<close> of them (or all there are), in order, and removes
  exactly those; the other terminals keep their contents.
\<close>

theorem pty_is_a_bounded_queue:
  assumes "pty_inv s" "pty_view s pid = Some xs" "n \<le> length bs"
  shows "(\<exists>s'. clks_pty_write pid (Some bs) n s = (Some n, s') \<and> pty_inv s' \<and>
      pty_view s' = (pty_view s)(pid \<mapsto> newest CLKS_PTY_BUFFER_SIZE (xs @ take n bs))) \<and>
    (\<exists>s'. clks_pty_read pid True n s = (Some (min n (length xs)), take n xs, s') \<and> pty_inv s' \<and>
      pty_view s' = (pty_view s)(pid \<mapsto> drop n xs))"
  using pty_write_spec [OF assms] pty_read_spec [OF assms(1,2), of n]
  by (cases "clks_pty_write pid (Some bs) n s"; cases "clks_pty_read pid True n s") auto

theorem pty_is_a_bounded_queue_witness:
  "\<exists>s'. clks_pty_write 1 (Some [65, 66, 67]) 2 (snd (clks_pty_alloc clks_pty_init)) = (Some 2, s') \<and>
     pty_view s' 1 = Some [65, 66]"
proof -
  have "clks_pty_alloc clks_pty_init = (1, snd (clks_pty_alloc clks_pty_init))"
    by (simp add: clks_pty_alloc_def clks_pty_init_def CLKS_PTY_MAX_def pty_take_id_def
        pty_zero_slot_def upt_rec)
  from pty_alloc_spec [OF pty_init_inv _ this]
  have "pty_inv (snd (clks_pty_alloc clks_pty_init))"
    "pty_view (snd (clks_pty_alloc clks_pty_init)) 1 = Some []"
    by (simp_all add: clks_pty_init_def)
  from pty_is_a_bounded_queue [OF this, of 2 "[65, 66, 67]"] show ?thesis
    by (auto simp: newest_def CLKS_PTY_BUFFER_SIZE_def)
qed

text \<open>
  References: a terminal lives until each of its references is released. Retaining it adds one
  reference and changes no contents; releasing it removes one while more than one is left, and
  removes the terminal with the last one; other terminals are not affected.
\<close>

theorem pty_reference_counting:
  assumes "pty_inv s" "pty_refs s pid = Some r"
  shows "(r \<noteq> - 1 \<longrightarrow> (\<exists>s'. clks_pty_retain pid s = (True, s') \<and> pty_inv s' \<and> pty_view s' = pty_view s \<and>
      pty_refs s' = (pty_refs s)(pid \<mapsto> r + 1))) \<and>
    pty_inv (clks_pty_release pid s) \<and>
    (if 1 < r then pty_view (clks_pty_release pid s) = pty_view s \<and>
       pty_refs (clks_pty_release pid s) = (pty_refs s)(pid \<mapsto> r - 1)
     else pty_view (clks_pty_release pid s) = (pty_view s)(pid := None) \<and>
       pty_refs (clks_pty_release pid s) = (pty_refs s)(pid := None))"
proof -
  obtain i where i: "clks_pty_find_slot pid s = Some i" and r: "r = pty_ref_count (pty_slots s ! i)"
    using assms(2) by (auto simp: pty_refs_def pty_at_def)
  let ?sl = "pty_slots s ! i"
  note u = find_slot_Some [OF i]
  have ok: "pty_slot_ok ?sl" "0 < pty_ref_count ?sl" using assms(1) u by (auto simp: pty_inv_def)
  have ok': "pty_slot_ok (?sl\<lparr>pty_ref_count := k\<rparr>)" for k using ok by (simp add: pty_slot_ok_def)
  have c: "pty_contents (?sl\<lparr>pty_ref_count := k\<rparr>) = pty_contents ?sl" for k
    by (simp add: pty_contents_def)
  have v: "(pty_view s)(pid \<mapsto> pty_contents ?sl) = pty_view s"
    using i by (simp add: fun_upd_idem pty_view_def pty_at_def)
  note upd = pty_update_slot [OF assms(1) i, of "?sl\<lparr>pty_ref_count := k\<rparr>" for k]
  have "r \<noteq> - 1 \<Longrightarrow> 0 < r + 1" using word_inc [of r] by (auto simp: word_gt_0)
  then have ret: "\<exists>s'. clks_pty_retain pid s = (True, s') \<and> pty_inv s' \<and> pty_view s' = pty_view s \<and>
      pty_refs s' = (pty_refs s)(pid \<mapsto> r + 1)" if "r \<noteq> - 1"
    using upd [of "r + 1"] u ok' that c v i r
    by (simp add: clks_pty_retain_def Let_def u64_max_literal)
  have rel: "clks_pty_release pid s = s\<lparr>pty_slots := (pty_slots s)[i := ?sl\<lparr>pty_ref_count := r - 1\<rparr>]\<rparr>"
    if "1 < r" using that i r by (simp add: clks_pty_release_def Let_def)
  have pos: "0 < r - 1" if "1 < r" using that by (auto simp: word_gt_0)
  have clr: "clks_pty_release pid s = s\<lparr>pty_slots := (pty_slots s)[i := pty_zero_slot]\<rparr>" if "\<not> 1 < r"
    using that i r by (simp add: clks_pty_release_def Let_def)
  show ?thesis
    using ret rel clr upd [of "r - 1"] u ok' c v pos pty_clear_slot [OF assms(1) i]
    by (cases "1 < r") (simp_all add: pty_view_def pty_refs_def fun_eq_iff)
qed

theorem pty_reference_counting_witness:
  "pty_view (clks_pty_release 1 (snd (clks_pty_alloc clks_pty_init))) 1 = None"
proof -
  have a: "clks_pty_alloc clks_pty_init = (1, snd (clks_pty_alloc clks_pty_init))"
    and f: "pty_refs (snd (clks_pty_alloc clks_pty_init)) 1 = Some 1"
    by (simp_all add: clks_pty_alloc_def clks_pty_init_def CLKS_PTY_MAX_def pty_take_id_def
        pty_zero_slot_def upt_rec pty_refs_def pty_at_def clks_pty_find_slot_def)
  from pty_alloc_spec [OF pty_init_inv _ a] have "pty_inv (snd (clks_pty_alloc clks_pty_init))"
    by (simp add: clks_pty_init_def)
  from pty_reference_counting [OF this f] show ?thesis by simp
qed

end
