(* ===== verification/Clks_Scheduler.thy ===== *)
theory Clks_Scheduler
  imports Clks_Heap
begin

text \<open>
  The kernel scheduler, \<open>kernel/core/scheduler.c\<close>: a growing table of task descriptors in kernel
  heap memory, a current task, time slices, sleeping tasks and the dispatch of task entries.

  The table is memory: \<open>sched_tables\<close> gives the descriptors stored at a heap address, and keeps
  them for an address that was released, since \<open>clks_kfree\<close> does not clear it. A pointer
  \<open>&clks_tasks[i]\<close> is a pair of a table address and an index, so that a pointer taken before the
  table moved still names the old table. Task ids, counts and capacities are natural numbers below
  \<open>2 ^ 32\<close>; ticks and counters are words. Entry points are function addresses; what the function
  at an address does to the scheduler is the parameter \<open>ent\<close> of the operations that dispatch.
\<close>

section \<open>State\<close>

definition CLKS_SCHED_INITIAL_TASK_CAPACITY :: nat where
  "CLKS_SCHED_INITIAL_TASK_CAPACITY = 32"

definition CLKS_SCHED_MIN_SLICE :: u32 where
  "CLKS_SCHED_MIN_SLICE = 1"

definition CLKS_SCHED_DEFAULT_DISPATCH_BUDGET :: nat where
  "CLKS_SCHED_DEFAULT_DISPATCH_BUDGET = 32"

definition CLKS_TASK_NAME_MAX :: nat where
  "CLKS_TASK_NAME_MAX = 32"

datatype clks_task_state =
  TASK_UNUSED | TASK_READY | TASK_RUNNING | TASK_BLOCKED | TASK_SLEEPING | TASK_WAITING_CHILD
| TASK_BLOCKED_IO | TASK_STOPPED | TASK_ZOMBIE

record clks_task_descriptor =
  t_id :: nat
  t_name :: string
  t_state :: clks_task_state
  t_time_slice_ticks :: u32
  t_remaining_ticks :: u32
  t_total_ticks :: u64
  t_switch_count :: u64
  t_run_count :: u64
  t_last_run_tick :: u64
  t_wake_tick :: u64
  t_sleep_count :: u64
  t_block_count :: u64
  t_yield_count :: u64
  t_entry :: "nat option"

definition SIZEOF_TASK_DESCRIPTOR :: nat where
  "SIZEOF_TASK_DESCRIPTOR = 120"

text \<open>A descriptor after \<open>clks_memset(task, 0, sizeof(*task))\<close>.\<close>

definition zero_task :: clks_task_descriptor where
  "zero_task = \<lparr>t_id = 0, t_name = [], t_state = TASK_UNUSED, t_time_slice_ticks = 0,
     t_remaining_ticks = 0, t_total_ticks = 0, t_switch_count = 0, t_run_count = 0,
     t_last_run_tick = 0, t_wake_tick = 0, t_sleep_count = 0, t_block_count = 0,
     t_yield_count = 0, t_entry = None\<rparr>"

record sched_state =
  sched_heap :: heap_state
  sched_tables :: "nat \<Rightarrow> clks_task_descriptor list"
  clks_tasks :: "nat option"
  clks_task_count :: nat
  clks_task_live_count :: nat
  clks_task_capacity :: nat
  clks_current_task :: nat
  clks_total_timer_ticks :: u64
  clks_context_switch_count :: u64
  clks_yield_count :: u64
  clks_wakeup_count :: u64
  clks_dispatch_active :: bool
  clks_reschedule_requested :: bool
  clks_scheduler_online :: bool

text \<open>Pointers to descriptors: \<open>&clks_tasks[i]\<close>, reading and writing through them.\<close>

type_synonym task_ptr = "nat \<times> nat"

definition task_ref :: "sched_state \<Rightarrow> nat \<Rightarrow> task_ptr" where
  "task_ref s i = (case clks_tasks s of None \<Rightarrow> (0, i) | Some p \<Rightarrow> (p, i))"

definition get_task :: "sched_state \<Rightarrow> task_ptr \<Rightarrow> clks_task_descriptor" where
  "get_task s r = sched_tables s (fst r) ! snd r"

definition put_task ::
  "task_ptr \<Rightarrow> (clks_task_descriptor \<Rightarrow> clks_task_descriptor) \<Rightarrow> sched_state \<Rightarrow> sched_state" where
  "put_task r f s = s\<lparr>sched_tables := (sched_tables s)(fst r :=
     (sched_tables s (fst r))[snd r := f (get_task s r)])\<rparr>"

definition task_of :: "sched_state \<Rightarrow> nat \<Rightarrow> clks_task_descriptor" where
  "task_of s i = get_task s (task_ref s i)"

definition set_task :: "nat \<Rightarrow> (clks_task_descriptor \<Rightarrow> clks_task_descriptor) \<Rightarrow> sched_state \<Rightarrow> sched_state" where
  "set_task i f s = put_task (task_ref s i) f s"

section \<open>The task table\<close>

text \<open>The loop that doubles the capacity.\<close>

partial_function (option) sched_double :: "nat \<Rightarrow> nat \<Rightarrow> nat option" where
  "sched_double new_capacity min_capacity =
     (if new_capacity < min_capacity then
        if new_capacity > 2147483647 then Some min_capacity
        else sched_double (new_capacity * 2) min_capacity
      else Some new_capacity)"

definition clks_sched_reserve_tasks :: "nat \<Rightarrow> sched_state \<Rightarrow> (bool \<times> sched_state) option" where
  "clks_sched_reserve_tasks min_capacity s =
     (if min_capacity \<le> clks_task_capacity s then Some (True, s)
      else Option.bind
        (sched_double (if clks_task_capacity s = 0 then CLKS_SCHED_INITIAL_TASK_CAPACITY
                       else clks_task_capacity s) min_capacity)
        (\<lambda>new_capacity.
           let bytes = (new_capacity * SIZEOF_TASK_DESCRIPTOR) mod USIZE_RANGE in
           if new_capacity = 0 \<or> bytes div SIZEOF_TASK_DESCRIPTOR \<noteq> new_capacity then Some (False, s)
           else Option.bind (clks_kmalloc bytes (sched_heap s)) (\<lambda>(r, h).
             case r of None \<Rightarrow> Some (False, s\<lparr>sched_heap := h\<rparr>)
             | Some new_tasks \<Rightarrow>
                 let blank = replicate new_capacity zero_task;
                     table = (case clks_tasks s of None \<Rightarrow> blank
                              | Some old \<Rightarrow>
                                  if clks_task_count s \<noteq> 0
                                  then take (clks_task_count s) (sched_tables s old)
                                       @ drop (clks_task_count s) blank
                                  else blank)
                 in Some (True, s\<lparr>sched_heap := (case clks_tasks s of None \<Rightarrow> h
                                    | Some old \<Rightarrow> clks_kfree (Some old) h),
                                 sched_tables := (sched_tables s)(new_tasks := table),
                                 clks_tasks := Some new_tasks,
                                 clks_task_capacity := new_capacity\<rparr>))))"

definition clks_sched_copy_name :: "string option \<Rightarrow> string" where
  "clks_sched_copy_name src =
     (case src of None \<Rightarrow> [] | Some name \<Rightarrow> take (CLKS_TASK_NAME_MAX - 1) name)"

definition clks_sched_state_runnable :: "clks_task_state \<Rightarrow> bool" where
  "clks_sched_state_runnable st \<longleftrightarrow> st = TASK_READY \<or> st = TASK_RUNNING"

definition clks_sched_task_runnable :: "clks_task_descriptor \<Rightarrow> bool" where
  "clks_sched_task_runnable t \<longleftrightarrow> t_entry t \<noteq> None \<and> clks_sched_state_runnable (t_state t)"

definition clks_sched_task_slot_used :: "nat \<Rightarrow> sched_state \<Rightarrow> bool" where
  "clks_sched_task_slot_used task_id s \<longleftrightarrow>
     \<not> (task_id \<ge> clks_task_count s \<or> clks_tasks s = None) \<and> t_state (task_of s task_id) \<noteq> TASK_UNUSED"

definition clks_sched_find_free_task_slot :: "sched_state \<Rightarrow> (nat option \<times> sched_state) option" where
  "clks_sched_find_free_task_slot s =
     (case find (\<lambda>i. t_state (task_of s i) = TASK_UNUSED) [1..<clks_task_count s] of
        Some i \<Rightarrow> Some (Some i, s)
      | None \<Rightarrow>
          if clks_task_count s = 4294967295 then Some (None, s)
          else Option.bind (clks_sched_reserve_tasks (add32 (clks_task_count s) 1) s) (\<lambda>(ok, s').
            if \<not> ok then Some (None, s')
            else Some (Some (clks_task_count s'),
                       s'\<lparr>clks_task_count := add32 (clks_task_count s') 1\<rparr>)))"

section \<open>Waking, selecting and switching\<close>

definition sched_wake_one :: "u64 \<Rightarrow> nat \<Rightarrow> sched_state \<Rightarrow> sched_state" where
  "sched_wake_one tick i s =
     (if t_state (task_of s i) \<noteq> TASK_SLEEPING then s
      else if tick < t_wake_tick (task_of s i) then s
      else (set_task i (\<lambda>t. t\<lparr>t_wake_tick := 0, t_state := TASK_READY,
                            t_remaining_ticks := t_time_slice_ticks t\<rparr>) s)
             \<lparr>clks_wakeup_count := clks_wakeup_count s + 1\<rparr>)"

definition clks_sched_wake_sleepers :: "u64 \<Rightarrow> sched_state \<Rightarrow> sched_state" where
  "clks_sched_wake_sleepers tick s = fold (sched_wake_one tick) [0..<clks_task_count s] s"

definition clks_sched_next_runnable_task :: "nat \<Rightarrow> sched_state \<Rightarrow> nat" where
  "clks_sched_next_runnable_task from s =
     (if clks_task_count s = 0 then 0
      else case find (\<lambda>idx. clks_sched_task_runnable (task_of s idx))
             (map (\<lambda>i. add32 from i mod clks_task_count s) [1..<Suc (clks_task_count s)]) of
        Some idx \<Rightarrow> idx
      | None \<Rightarrow> if clks_sched_task_runnable (task_of s from) then from else 0)"

definition clks_sched_switch_to :: "nat \<Rightarrow> sched_state \<Rightarrow> sched_state" where
  "clks_sched_switch_to n s =
     (if clks_task_count s = 0 \<or> n \<ge> clks_task_count s then s
      else if n = clks_current_task s then s
      else
        let s1 = (if t_state (task_of s (clks_current_task s)) = TASK_RUNNING
                  then set_task (clks_current_task s) (\<lambda>t. t\<lparr>t_state := TASK_READY\<rparr>) s else s);
            s2 = s1\<lparr>clks_current_task := n\<rparr>;
            s3 = set_task n (\<lambda>t. t\<lparr>t_state := TASK_RUNNING, t_switch_count := t_switch_count t + 1,
                    t_remaining_ticks := (if t_remaining_ticks t = 0 then t_time_slice_ticks t
                                          else t_remaining_ticks t)\<rparr>) s2
        in s3\<lparr>clks_context_switch_count := clks_context_switch_count s3 + 1\<rparr>)"

definition clks_sched_account_current_tick :: "sched_state \<Rightarrow> sched_state" where
  "clks_sched_account_current_tick s =
     (if clks_task_count s = 0 then s
      else
        let current = clks_current_task s in
        if \<not> clks_sched_state_runnable (t_state (task_of s current)) then s
        else
          let s1 = set_task current (\<lambda>t. t\<lparr>t_total_ticks := t_total_ticks t + 1,
                t_remaining_ticks := (if t_remaining_ticks t > 0 then t_remaining_ticks t - 1
                                      else t_remaining_ticks t)\<rparr>) s
          in if t_remaining_ticks (task_of s1 current) = 0
             then s1\<lparr>clks_reschedule_requested := True\<rparr> else s1)"

definition clks_sched_maybe_reschedule :: "sched_state \<Rightarrow> sched_state" where
  "clks_sched_maybe_reschedule s =
     (if clks_task_count s = 0 \<or> \<not> clks_reschedule_requested s then s
      else
        let s1 = s\<lparr>clks_reschedule_requested := False\<rparr>;
            n = clks_sched_next_runnable_task (clks_current_task s1) s1;
            s2 = set_task (clks_current_task s1) (\<lambda>t. t\<lparr>t_remaining_ticks := t_time_slice_ticks t\<rparr>) s1
        in clks_sched_switch_to n s2)"

text \<open>What a task entry does when it is called at a tick; \<open>None\<close> when it does not return.\<close>

type_synonym task_entries_sem = "nat \<Rightarrow> u64 \<Rightarrow> sched_state \<Rightarrow> sched_state option"

definition clks_sched_run_task :: "task_entries_sem \<Rightarrow> nat \<Rightarrow> u64 \<Rightarrow> sched_state \<Rightarrow> sched_state option" where
  "clks_sched_run_task ent task_id tick s =
     (if task_id \<ge> clks_task_count s then Some s
      else
        let task = task_ref s task_id in
        if \<not> clks_sched_task_runnable (get_task s task) then Some s
        else
          let s1 = (if t_state (get_task s task) = TASK_READY then clks_sched_switch_to task_id s else s);
              s2 = put_task task (\<lambda>t. t\<lparr>t_state := TASK_RUNNING, t_run_count := t_run_count t + 1,
                     t_last_run_tick := tick\<rparr>) s1;
              s3 = s2\<lparr>clks_dispatch_active := True\<rparr>
          in case t_entry (get_task s3 task) of None \<Rightarrow> None
             | Some e \<Rightarrow> Option.bind (ent e tick s3) (\<lambda>s4.
                 let s5 = s4\<lparr>clks_dispatch_active := False\<rparr>;
                     s6 = (if t_state (get_task s5 task) = TASK_RUNNING
                           then put_task task (\<lambda>t. t\<lparr>t_state := TASK_READY\<rparr>) s5 else s5)
                 in Some (clks_sched_maybe_reschedule s6)))"

section \<open>The interface\<close>

text \<open>
  Adding a task gives the result, the value stored through a non-null \<open>out_task_id\<close> (\<open>None\<close> when
  nothing is stored), and the state.
\<close>

definition clks_scheduler_add_task_internal ::
  "string option \<Rightarrow> u32 \<Rightarrow> nat option \<Rightarrow> bool \<Rightarrow> sched_state \<Rightarrow> (bool \<times> nat option \<times> sched_state) option" where
  "clks_scheduler_add_task_internal name time_slice entry allow_before_online s =
     (if name = None then Some (False, None, s)
      else if \<not> allow_before_online \<and> \<not> clks_scheduler_online s then Some (False, Some 4294967295, s)
      else Option.bind (clks_sched_find_free_task_slot s) (\<lambda>(slot, s1).
        case slot of None \<Rightarrow> Some (False, Some 4294967295, s1)
        | Some task_id \<Rightarrow>
            let slice = (if time_slice < CLKS_SCHED_MIN_SLICE then CLKS_SCHED_MIN_SLICE else time_slice);
                s2 = set_task task_id (\<lambda>_. zero_task\<lparr>t_id := task_id,
                       t_name := clks_sched_copy_name name, t_state := TASK_READY,
                       t_time_slice_ticks := slice, t_remaining_ticks := slice, t_wake_tick := 0,
                       t_entry := entry\<rparr>) s1
            in Some (True, Some task_id,
                     s2\<lparr>clks_task_live_count := add32 (clks_task_live_count s2) 1\<rparr>)))"

definition sched_reset :: "sched_state \<Rightarrow> sched_state" where
  "sched_reset s = s\<lparr>sched_heap := (case clks_tasks s of None \<Rightarrow> sched_heap s
       | Some p \<Rightarrow> clks_kfree (Some p) (sched_heap s)),
     clks_tasks := None, clks_task_count := 0, clks_task_live_count := 0, clks_task_capacity := 0,
     clks_current_task := 0, clks_total_timer_ticks := 0, clks_context_switch_count := 0,
     clks_yield_count := 0, clks_wakeup_count := 0, clks_dispatch_active := False,
     clks_reschedule_requested := False, clks_scheduler_online := False\<rparr>"

definition clks_scheduler_init :: "sched_state \<Rightarrow> sched_state option" where
  "clks_scheduler_init s =
     Option.bind (clks_sched_reserve_tasks CLKS_SCHED_INITIAL_TASK_CAPACITY (sched_reset s)) (\<lambda>(ok, s1).
       if \<not> ok then Some s1
       else Option.bind (clks_scheduler_add_task_internal (Some ''idle'') 1 None True s1) (\<lambda>(ok2, _, s2).
         if \<not> ok2 then Some s2
         else
           let s3 = set_task 0 (\<lambda>t. t\<lparr>t_state := TASK_RUNNING,
                      t_remaining_ticks := t_time_slice_ticks t\<rparr>) s2
           in Some (s3\<lparr>clks_scheduler_online := True\<rparr>)))"

definition clks_scheduler_is_online :: "sched_state \<Rightarrow> bool" where
  "clks_scheduler_is_online s = clks_scheduler_online s"

definition clks_scheduler_add_kernel_task_ex_id ::
  "string option \<Rightarrow> u32 \<Rightarrow> nat option \<Rightarrow> sched_state \<Rightarrow> (bool \<times> nat option \<times> sched_state) option" where
  "clks_scheduler_add_kernel_task_ex_id name time_slice entry s =
     clks_scheduler_add_task_internal name time_slice entry False s"

definition clks_scheduler_add_kernel_task_ex ::
  "string option \<Rightarrow> u32 \<Rightarrow> nat option \<Rightarrow> sched_state \<Rightarrow> (bool \<times> sched_state) option" where
  "clks_scheduler_add_kernel_task_ex name time_slice entry s =
     map_option (\<lambda>(ok, _, s'). (ok, s')) (clks_scheduler_add_kernel_task_ex_id name time_slice entry s)"

definition clks_scheduler_add_kernel_task ::
  "string option \<Rightarrow> u32 \<Rightarrow> sched_state \<Rightarrow> (bool \<times> sched_state) option" where
  "clks_scheduler_add_kernel_task name time_slice s =
     clks_scheduler_add_kernel_task_ex name time_slice None s"

definition clks_scheduler_remove_task :: "nat \<Rightarrow> sched_state \<Rightarrow> bool \<times> sched_state" where
  "clks_scheduler_remove_task task_id s =
     (if task_id = 0 \<or> \<not> clks_sched_task_slot_used task_id s then (False, s)
      else
        let s1 = set_task task_id (\<lambda>_. zero_task\<lparr>t_id := task_id\<rparr>) s;
            s2 = (if clks_task_live_count s1 > 0
                  then s1\<lparr>clks_task_live_count := clks_task_live_count s1 - 1\<rparr> else s1);
            s3 = (if clks_current_task s2 = task_id
                  then s2\<lparr>clks_current_task := 0, clks_reschedule_requested := True\<rparr> else s2)
        in (True, s3))"

definition clks_scheduler_dispatch_current ::
  "task_entries_sem \<Rightarrow> u64 \<Rightarrow> sched_state \<Rightarrow> sched_state option" where
  "clks_scheduler_dispatch_current ent tick s =
     (if clks_task_count s = 0 \<or> clks_dispatch_active s then Some s
      else
        let s1 = clks_sched_maybe_reschedule (clks_sched_wake_sleepers tick s)
        in clks_sched_run_task ent (clks_current_task s1) tick s1)"

text \<open>The loop of \<open>clks_scheduler_dispatch_ready\<close>, with the budget left.\<close>

function sched_dispatch_loop ::
  "task_entries_sem \<Rightarrow> u64 \<Rightarrow> nat \<Rightarrow> nat \<Rightarrow> sched_state \<Rightarrow> (nat \<times> sched_state) option" where
  "sched_dispatch_loop ent tick i budget s =
     (if i < clks_task_count s \<and> budget > 0 then
        let idx = add32 (clks_current_task s) i mod clks_task_count s in
        if idx = 0 then sched_dispatch_loop ent tick (i + 1) budget s
        else if \<not> clks_sched_task_runnable (task_of s idx) then sched_dispatch_loop ent tick (i + 1) budget s
        else (case clks_sched_run_task ent idx tick s of None \<Rightarrow> None
              | Some s' \<Rightarrow> sched_dispatch_loop ent tick (i + 1) (budget - 1) s')
      else Some (budget, s))"
  by pat_completeness auto
termination
  by (relation "measures [\<lambda>(_, _, _, b, _). b, \<lambda>(_, _, i, _, s). clks_task_count s - i]") auto

declare sched_dispatch_loop.simps [simp del]

definition clks_scheduler_dispatch_ready ::
  "task_entries_sem \<Rightarrow> u64 \<Rightarrow> sched_state \<Rightarrow> sched_state option" where
  "clks_scheduler_dispatch_ready ent tick s =
     (if clks_task_count s = 0 \<or> clks_dispatch_active s then Some s
      else Option.bind
        (sched_dispatch_loop ent tick 0 CLKS_SCHED_DEFAULT_DISPATCH_BUDGET (clks_sched_wake_sleepers tick s))
        (\<lambda>(budget, s').
          if budget = CLKS_SCHED_DEFAULT_DISPATCH_BUDGET
          then clks_scheduler_dispatch_current ent tick s' else Some s'))"

definition clks_scheduler_on_timer_tick :: "u64 \<Rightarrow> sched_state \<Rightarrow> sched_state" where
  "clks_scheduler_on_timer_tick tick s =
     (if clks_task_count s = 0 then s
      else
        let s1 = clks_sched_wake_sleepers tick (s\<lparr>clks_total_timer_ticks := tick\<rparr>) in
        if clks_dispatch_active s1 then s1
        else clks_sched_maybe_reschedule (clks_sched_account_current_tick s1))"

definition clks_scheduler_yield_current :: "sched_state \<Rightarrow> sched_state" where
  "clks_scheduler_yield_current s =
     (if clks_task_count s = 0 then s
      else if clks_sched_state_runnable (t_state (task_of s (clks_current_task s))) then
        (set_task (clks_current_task s) (\<lambda>t. t\<lparr>t_yield_count := t_yield_count t + 1,
            t_remaining_ticks := 0\<rparr>) s)
          \<lparr>clks_yield_count := clks_yield_count s + 1, clks_reschedule_requested := True\<rparr>
      else s)"

definition clks_scheduler_yield_task :: "nat \<Rightarrow> sched_state \<Rightarrow> bool \<times> sched_state" where
  "clks_scheduler_yield_task task_id s =
     (if \<not> clks_sched_task_slot_used task_id s then (False, s)
      else if clks_sched_state_runnable (t_state (task_of s task_id)) then
        let s1 = (set_task task_id (\<lambda>t. t\<lparr>t_yield_count := t_yield_count t + 1,
                    t_remaining_ticks := 0\<rparr>) s)\<lparr>clks_yield_count := clks_yield_count s + 1\<rparr>
        in (True, if clks_current_task s1 = task_id then s1\<lparr>clks_reschedule_requested := True\<rparr> else s1)
      else (True, s))"

definition clks_scheduler_sleep_current_until :: "u64 \<Rightarrow> sched_state \<Rightarrow> bool \<times> sched_state" where
  "clks_scheduler_sleep_current_until wake_tick s =
     (if clks_task_count s = 0 then (False, s)
      else if clks_current_task s = 0 \<or> t_entry (task_of s (clks_current_task s)) = None then (False, s)
      else (True, (set_task (clks_current_task s) (\<lambda>t. t\<lparr>t_state := TASK_SLEEPING,
              t_wake_tick := wake_tick, t_sleep_count := t_sleep_count t + 1,
              t_remaining_ticks := t_time_slice_ticks t\<rparr>) s)\<lparr>clks_reschedule_requested := True\<rparr>))"

definition clks_scheduler_sleep_task_until :: "nat \<Rightarrow> u64 \<Rightarrow> sched_state \<Rightarrow> bool \<times> sched_state" where
  "clks_scheduler_sleep_task_until task_id wake_tick s =
     (if task_id = 0 \<or> \<not> clks_sched_task_slot_used task_id s then (False, s)
      else
        let s1 = set_task task_id (\<lambda>t. t\<lparr>t_state := TASK_SLEEPING, t_wake_tick := wake_tick,
              t_sleep_count := t_sleep_count t + 1, t_remaining_ticks := t_time_slice_ticks t\<rparr>) s
        in (True, if clks_current_task s1 = task_id then s1\<lparr>clks_reschedule_requested := True\<rparr> else s1))"

definition clks_scheduler_sleep_current_ticks :: "u64 \<Rightarrow> u64 \<Rightarrow> sched_state \<Rightarrow> bool \<times> sched_state" where
  "clks_scheduler_sleep_current_ticks ticks now_tick s =
     (if ticks = 0 then (True, clks_scheduler_yield_current s)
      else clks_scheduler_sleep_current_until (now_tick + ticks) s)"

definition clks_scheduler_sleep_task_ticks :: "nat \<Rightarrow> u64 \<Rightarrow> u64 \<Rightarrow> sched_state \<Rightarrow> bool \<times> sched_state" where
  "clks_scheduler_sleep_task_ticks task_id ticks now_tick s =
     (if ticks = 0 then clks_scheduler_yield_task task_id s
      else clks_scheduler_sleep_task_until task_id (now_tick + ticks) s)"

definition clks_scheduler_set_task_state ::
  "nat \<Rightarrow> clks_task_state \<Rightarrow> sched_state \<Rightarrow> bool \<times> sched_state" where
  "clks_scheduler_set_task_state task_id st0 s =
     (if \<not> clks_sched_task_slot_used task_id s then (False, s)
      else if task_id = 0 \<and> st0 \<noteq> TASK_READY \<and> st0 \<noteq> TASK_RUNNING then (False, s)
      else
        let st = (if st0 = TASK_RUNNING \<and> task_id \<noteq> clks_current_task s then TASK_READY else st0);
            s1 = set_task task_id (\<lambda>t. t\<lparr>t_state := st,
                   t_block_count := (if st = TASK_BLOCKED \<or> st = TASK_BLOCKED_IO \<or> st = TASK_WAITING_CHILD
                                     then t_block_count t + 1 else t_block_count t)\<rparr>) s
        in (True, if clks_current_task s1 = task_id \<and> \<not> clks_sched_state_runnable st
                  then s1\<lparr>clks_reschedule_requested := True\<rparr> else s1))"

definition clks_scheduler_wake_task :: "nat \<Rightarrow> sched_state \<Rightarrow> bool \<times> sched_state" where
  "clks_scheduler_wake_task task_id s =
     (if \<not> clks_sched_task_slot_used task_id s then (False, s)
      else if t_state (task_of s task_id) = TASK_UNUSED \<or> t_state (task_of s task_id) = TASK_ZOMBIE then (False, s)
      else (True, (set_task task_id (\<lambda>t. t\<lparr>t_state := TASK_READY, t_wake_tick := 0,
              t_remaining_ticks := (if t_remaining_ticks t = 0 then t_time_slice_ticks t
                                    else t_remaining_ticks t)\<rparr>) s)
             \<lparr>clks_wakeup_count := clks_wakeup_count s + 1\<rparr>))"

record clks_scheduler_stats =
  st_task_count :: nat
  st_current_task_id :: nat
  st_runnable_count :: nat
  st_sleeping_count :: nat
  st_blocked_count :: nat
  st_total_timer_ticks :: u64
  st_context_switch_count :: u64
  st_yield_count :: u64
  st_wakeup_count :: u64

definition sched_count_task :: "clks_task_state \<Rightarrow> clks_scheduler_stats \<Rightarrow> clks_scheduler_stats" where
  "sched_count_task st stats =
     (if clks_sched_state_runnable st then stats\<lparr>st_runnable_count := add32 (st_runnable_count stats) 1\<rparr>
      else if st = TASK_SLEEPING then stats\<lparr>st_sleeping_count := add32 (st_sleeping_count stats) 1\<rparr>
      else if st = TASK_BLOCKED \<or> st = TASK_BLOCKED_IO \<or> st = TASK_WAITING_CHILD
        then stats\<lparr>st_blocked_count := add32 (st_blocked_count stats) 1\<rparr>
      else stats)"

definition clks_scheduler_get_stats :: "sched_state \<Rightarrow> clks_scheduler_stats" where
  "clks_scheduler_get_stats s =
     fold (\<lambda>i. sched_count_task (t_state (task_of s i))) [0..<clks_task_count s]
       \<lparr>st_task_count = clks_task_live_count s, st_current_task_id = clks_current_task s,
        st_runnable_count = 0, st_sleeping_count = 0, st_blocked_count = 0,
        st_total_timer_ticks = clks_total_timer_ticks s,
        st_context_switch_count = clks_context_switch_count s,
        st_yield_count = clks_yield_count s, st_wakeup_count = clks_wakeup_count s\<rparr>"

definition clks_scheduler_get_task :: "nat \<Rightarrow> sched_state \<Rightarrow> task_ptr option" where
  "clks_scheduler_get_task task_id s =
     (if \<not> clks_sched_task_slot_used task_id s then None else Some (task_ref s task_id))"

section \<open>The table as a list of tasks\<close>

definition sched_tasks :: "sched_state \<Rightarrow> clks_task_descriptor list" where
  "sched_tasks s = (case clks_tasks s of None \<Rightarrow> []
     | Some p \<Rightarrow> take (clks_task_count s) (sched_tables s p))"

text \<open>The table is a live heap allocation that holds \<open>capacity\<close> descriptors.\<close>

definition sched_mem_ok :: "sched_state \<Rightarrow> bool" where
  "sched_mem_ok s \<longleftrightarrow> (case clks_tasks s of
     None \<Rightarrow> (\<exists>L. heap_live (sched_heap s) L) \<and> clks_task_count s = 0 \<and> clks_task_capacity s = 0
   | Some p \<Rightarrow> (\<exists>L n. heap_live (sched_heap s) L \<and> L p = Some n \<and>
         clks_task_capacity s * SIZEOF_TASK_DESCRIPTOR \<le> n) \<and>
       length (sched_tables s p) = clks_task_capacity s \<and> clks_task_count s \<le> clks_task_capacity s)"

definition task_used :: "clks_task_descriptor \<Rightarrow> bool" where
  "task_used t \<longleftrightarrow> t_state t \<noteq> TASK_UNUSED"

definition task_ok :: "nat \<Rightarrow> nat \<Rightarrow> clks_task_descriptor \<Rightarrow> bool" where
  "task_ok cur i t \<longleftrightarrow> t_id t = i \<and> (t_state t = TASK_RUNNING \<longrightarrow> i = cur) \<and>
     t_remaining_ticks t \<le> t_time_slice_ticks t \<and> (task_used t \<longrightarrow> 0 < t_time_slice_ticks t) \<and>
     (\<not> task_used t \<longrightarrow> t_entry t = None) \<and>
     (i = 0 \<longrightarrow> t_entry t = None \<and> clks_sched_state_runnable (t_state t))"

definition tasks_ok :: "clks_task_descriptor list \<Rightarrow> nat \<Rightarrow> nat \<Rightarrow> bool" where
  "tasks_ok ts cur live \<longleftrightarrow> cur < length ts \<and> (\<forall>i < length ts. task_ok cur i (ts ! i)) \<and>
     live = length (filter task_used ts)"

definition sched_inv :: "sched_state \<Rightarrow> bool" where
  "sched_inv s \<longleftrightarrow> sched_mem_ok s \<and>
     (if clks_task_count s = 0 then clks_current_task s = 0 \<and> clks_task_live_count s = 0 \<and> \<not> clks_scheduler_online s
      else tasks_ok (sched_tasks s) (clks_current_task s) (clks_task_live_count s))"

lemma sched_tasks_length: "sched_mem_ok s \<Longrightarrow> length (sched_tasks s) = clks_task_count s"
  by (auto simp: sched_mem_ok_def sched_tasks_def split: option.splits)

lemma task_of_nth: "sched_mem_ok s \<Longrightarrow> i < clks_task_count s \<Longrightarrow> task_of s i = sched_tasks s ! i"
  by (auto simp: sched_mem_ok_def sched_tasks_def task_of_def get_task_def task_ref_def split: option.splits)

lemma sched_count_bound:
  assumes "sched_mem_ok s"
  shows "clks_task_count s \<le> clks_task_capacity s" "clks_task_capacity s \<le> 2236962"
proof -
  show "clks_task_count s \<le> clks_task_capacity s"
    using assms by (auto simp: sched_mem_ok_def split: option.splits)
  show "clks_task_capacity s \<le> 2236962"
  proof (cases "clks_tasks s")
    case None
    with assms show ?thesis by (simp add: sched_mem_ok_def)
  next
    case (Some p)
    with assms obtain L n where "heap_live (sched_heap s) L" "L p = Some n"
      "clks_task_capacity s * SIZEOF_TASK_DESCRIPTOR \<le> n" by (auto simp: sched_mem_ok_def)
    with heap.live_bound [of "sched_heap s" L p n] show ?thesis
      by (simp add: CLKS_HEAP_ARENA_SIZE_def SIZEOF_TASK_DESCRIPTOR_def)
  qed
qed

text \<open>The fields that an update of a descriptor leaves alone.\<close>

lemma set_task_frame [simp]:
  "clks_tasks (set_task i f s) = clks_tasks s"
  "sched_heap (set_task i f s) = sched_heap s"
  "clks_task_count (set_task i f s) = clks_task_count s"
  "clks_task_live_count (set_task i f s) = clks_task_live_count s"
  "clks_task_capacity (set_task i f s) = clks_task_capacity s"
  "clks_current_task (set_task i f s) = clks_current_task s"
  "clks_total_timer_ticks (set_task i f s) = clks_total_timer_ticks s"
  "clks_dispatch_active (set_task i f s) = clks_dispatch_active s"
  "clks_reschedule_requested (set_task i f s) = clks_reschedule_requested s"
  "clks_scheduler_online (set_task i f s) = clks_scheduler_online s"
  "task_ref (set_task i f s) j = task_ref s j"
  by (simp_all add: set_task_def put_task_def task_ref_def)

lemma set_task_mem_ok [simp]: "sched_mem_ok (set_task i f s) = sched_mem_ok s"
  by (cases "clks_tasks s") (simp_all add: sched_mem_ok_def, simp add: set_task_def put_task_def task_ref_def)

lemma set_task_tasks:
  assumes "sched_mem_ok s" "i < clks_task_count s"
  shows "sched_tasks (set_task i f s) = (sched_tasks s)[i := f (sched_tasks s ! i)]"
  using assms task_of_nth [OF assms]
  by (auto simp: sched_tasks_def sched_mem_ok_def set_task_def put_task_def task_ref_def
      take_update_swap get_task_def split: option.splits)

text \<open>The list and the memory do not depend on the counters and flags.\<close>

lemma sched_view_simps [simp]:
  "sched_tasks (s\<lparr>clks_current_task := n\<rparr>) = sched_tasks s"
  "sched_tasks (s\<lparr>clks_total_timer_ticks := w\<rparr>) = sched_tasks s"
  "sched_tasks (s\<lparr>clks_context_switch_count := w\<rparr>) = sched_tasks s"
  "sched_tasks (s\<lparr>clks_yield_count := w\<rparr>) = sched_tasks s"
  "sched_tasks (s\<lparr>clks_wakeup_count := w\<rparr>) = sched_tasks s"
  "sched_tasks (s\<lparr>clks_dispatch_active := b\<rparr>) = sched_tasks s"
  "sched_tasks (s\<lparr>clks_reschedule_requested := b\<rparr>) = sched_tasks s"
  "sched_tasks (s\<lparr>clks_scheduler_online := b\<rparr>) = sched_tasks s"
  "sched_tasks (s\<lparr>clks_task_live_count := n\<rparr>) = sched_tasks s"
  "sched_mem_ok (s\<lparr>clks_current_task := n\<rparr>) = sched_mem_ok s"
  "sched_mem_ok (s\<lparr>clks_total_timer_ticks := w\<rparr>) = sched_mem_ok s"
  "sched_mem_ok (s\<lparr>clks_context_switch_count := w\<rparr>) = sched_mem_ok s"
  "sched_mem_ok (s\<lparr>clks_yield_count := w\<rparr>) = sched_mem_ok s"
  "sched_mem_ok (s\<lparr>clks_wakeup_count := w\<rparr>) = sched_mem_ok s"
  "sched_mem_ok (s\<lparr>clks_dispatch_active := b\<rparr>) = sched_mem_ok s"
  "sched_mem_ok (s\<lparr>clks_reschedule_requested := b\<rparr>) = sched_mem_ok s"
  "sched_mem_ok (s\<lparr>clks_scheduler_online := b\<rparr>) = sched_mem_ok s"
  "sched_mem_ok (s\<lparr>clks_task_live_count := n\<rparr>) = sched_mem_ok s"
  by (simp_all add: sched_tasks_def sched_mem_ok_def cong: option.case_cong)

lemma sched_task_of_simps [simp]:
  "task_of (s\<lparr>clks_current_task := n\<rparr>) i = task_of s i"
  "task_of (s\<lparr>clks_total_timer_ticks := w\<rparr>) i = task_of s i"
  "task_of (s\<lparr>clks_context_switch_count := w\<rparr>) i = task_of s i"
  "task_of (s\<lparr>clks_yield_count := w\<rparr>) i = task_of s i"
  "task_of (s\<lparr>clks_wakeup_count := w\<rparr>) i = task_of s i"
  "task_of (s\<lparr>clks_dispatch_active := b\<rparr>) i = task_of s i"
  "task_of (s\<lparr>clks_reschedule_requested := b\<rparr>) i = task_of s i"
  "task_of (s\<lparr>clks_task_live_count := n\<rparr>) i = task_of s i"
  by (simp_all add: task_of_def task_ref_def get_task_def cong: option.case_cong)

lemma sched_inv_simps [simp]:
  "sched_inv (s\<lparr>clks_total_timer_ticks := w\<rparr>) = sched_inv s"
  "sched_inv (s\<lparr>clks_context_switch_count := w\<rparr>) = sched_inv s"
  "sched_inv (s\<lparr>clks_yield_count := w\<rparr>) = sched_inv s"
  "sched_inv (s\<lparr>clks_wakeup_count := w\<rparr>) = sched_inv s"
  "sched_inv (s\<lparr>clks_dispatch_active := b\<rparr>) = sched_inv s"
  "sched_inv (s\<lparr>clks_reschedule_requested := b\<rparr>) = sched_inv s"
  by (simp_all add: sched_inv_def)

lemma sched_inv_mem: "sched_inv s \<Longrightarrow> sched_mem_ok s"
  by (simp add: sched_inv_def)

lemma sched_inv_task:
  assumes "sched_inv s" "i < clks_task_count s"
  shows "task_ok (clks_current_task s) i (task_of s i)"
  using assms task_of_nth [OF sched_inv_mem [OF assms(1)] assms(2)]
    sched_tasks_length [OF sched_inv_mem [OF assms(1)]]
  by (auto simp: sched_inv_def tasks_ok_def split: if_splits)

lemma sched_inv_current: "sched_inv s \<Longrightarrow> clks_task_count s \<noteq> 0 \<Longrightarrow> clks_current_task s < clks_task_count s"
  using sched_tasks_length [of s] by (auto simp: sched_inv_def tasks_ok_def)

lemma task_of_set_task:
  assumes "sched_mem_ok s" "i < clks_task_count s" "j < clks_task_count s"
  shows "task_of (set_task i f s) j = (if j = i then f (task_of s i) else task_of s j)"
  using assms by (simp add: task_of_nth set_task_tasks sched_tasks_length nth_list_update)

text \<open>An update of one descriptor that keeps it used or unused, and well-formed.\<close>

lemma sched_inv_set_task:
  assumes "sched_inv s" "i < clks_task_count s" "task_ok (clks_current_task s) i (f (task_of s i))"
    "task_used (f (task_of s i)) = task_used (task_of s i)"
  shows "sched_inv (set_task i f s)"
proof -
  note m = sched_inv_mem [OF assms(1)]
  note t = set_task_tasks [OF m assms(2)] task_of_nth [OF m assms(2)] sched_tasks_length [OF m]
  have "length (filter task_used ((sched_tasks s)[i := f (sched_tasks s ! i)])) =
      length (filter task_used (sched_tasks s))"
    using assms(4) t filter_list_update_length [of i "sched_tasks s" task_used "f (sched_tasks s ! i)"] assms(2)
    by (auto split: if_splits)
  with assms m t show ?thesis
    by (auto simp: sched_inv_def tasks_ok_def nth_list_update)
qed

lemma sched_inv_switch_current:
  assumes "sched_inv s" "n < clks_task_count s" "t_state (task_of s (clks_current_task s)) \<noteq> TASK_RUNNING"
  shows "sched_inv (s\<lparr>clks_current_task := n\<rparr>)"
proof -
  have "\<not> t_state (task_of s i) = TASK_RUNNING" if "i < clks_task_count s" for i
    using sched_inv_task [OF assms(1) that] assms(3) by (auto simp: task_ok_def)
  with assms show ?thesis
    using sched_tasks_length [of s]
    by (auto simp: sched_inv_def tasks_ok_def task_of_nth task_ok_def)
qed

section \<open>The operations keep the invariant\<close>

text \<open>What the operations do not change.\<close>

lemma wake_one_frame [simp]:
  "clks_task_count (sched_wake_one tick i s) = clks_task_count s"
  "clks_current_task (sched_wake_one tick i s) = clks_current_task s"
  "clks_dispatch_active (sched_wake_one tick i s) = clks_dispatch_active s"
  "clks_reschedule_requested (sched_wake_one tick i s) = clks_reschedule_requested s"
  by (simp_all add: sched_wake_one_def)

lemma wake_fold_frame [simp]:
  "clks_task_count (fold (sched_wake_one tick) is s) = clks_task_count s"
  "clks_current_task (fold (sched_wake_one tick) is s) = clks_current_task s"
  "clks_dispatch_active (fold (sched_wake_one tick) is s) = clks_dispatch_active s"
  "clks_reschedule_requested (fold (sched_wake_one tick) is s) = clks_reschedule_requested s"
  by (induction "is" arbitrary: s) simp_all

lemma wake_one_inv: "sched_inv s \<Longrightarrow> i < clks_task_count s \<Longrightarrow> sched_inv (sched_wake_one tick i s)"
  using sched_inv_task [of s i]
  by (auto simp: sched_wake_one_def task_ok_def task_used_def clks_sched_state_runnable_def
      intro!: sched_inv_set_task)

lemma wake_fold_inv:
  "sched_inv s \<Longrightarrow> \<forall>i \<in> set is. i < clks_task_count s \<Longrightarrow> sched_inv (fold (sched_wake_one tick) is s)"
  by (induction "is" arbitrary: s) (simp_all add: wake_one_inv)

lemma wake_sleepers_inv: "sched_inv s \<Longrightarrow> sched_inv (clks_sched_wake_sleepers tick s)"
  by (simp add: clks_sched_wake_sleepers_def wake_fold_inv)

lemma wake_sleepers_frame [simp]:
  "clks_task_count (clks_sched_wake_sleepers tick s) = clks_task_count s"
  "clks_current_task (clks_sched_wake_sleepers tick s) = clks_current_task s"
  "clks_dispatch_active (clks_sched_wake_sleepers tick s) = clks_dispatch_active s"
  "clks_reschedule_requested (clks_sched_wake_sleepers tick s) = clks_reschedule_requested s"
  by (simp_all add: clks_sched_wake_sleepers_def)

lemma sched_inv_used:
  "sched_inv s \<Longrightarrow> clks_task_count s \<noteq> 0 \<Longrightarrow> task_used (task_of s 0)"
  using sched_inv_task [of s 0] by (auto simp: task_ok_def task_used_def clks_sched_state_runnable_def)

lemma switch_to_inv:
  assumes "sched_inv s" "clks_task_count s \<noteq> 0 \<Longrightarrow> n < clks_task_count s \<Longrightarrow> task_used (task_of s n)"
  shows "sched_inv (clks_sched_switch_to n s)"
proof (cases "clks_task_count s = 0 \<or> n \<ge> clks_task_count s \<or> n = clks_current_task s")
  case True
  with assms(1) show ?thesis by (auto simp: clks_sched_switch_to_def)
next
  case False
  define cur where "cur = clks_current_task s"
  define s1 where "s1 = (if t_state (task_of s cur) = TASK_RUNNING
    then set_task cur (\<lambda>t. t\<lparr>t_state := TASK_READY\<rparr>) s else s)"
  have n: "n < clks_task_count s" "n \<noteq> cur" "cur < clks_task_count s"
    using False sched_inv_current [OF assms(1)] by (auto simp: cur_def)
  note m = sched_inv_mem [OF assms(1)]
  have s1: "sched_inv s1" "clks_task_count s1 = clks_task_count s" "clks_current_task s1 = cur"
    "task_of s1 n = task_of s n" "t_state (task_of s1 cur) \<noteq> TASK_RUNNING"
    using sched_inv_set_task [OF assms(1) n(3), of "\<lambda>t. t\<lparr>t_state := TASK_READY\<rparr>"]
      sched_inv_task [OF assms(1) n(3)] assms(1) n task_of_set_task [OF m n(3)]
    by (auto simp: s1_def cur_def task_ok_def task_used_def clks_sched_state_runnable_def)
  have s2: "sched_inv (s1\<lparr>clks_current_task := n\<rparr>)"
    using sched_inv_switch_current [of s1 n] s1 n by simp
  define f :: "clks_task_descriptor \<Rightarrow> clks_task_descriptor"
    where "f = (\<lambda>t. t\<lparr>t_state := TASK_RUNNING, t_switch_count := t_switch_count t + 1,
      t_remaining_ticks := (if t_remaining_ticks t = 0 then t_time_slice_ticks t
                            else t_remaining_ticks t)\<rparr>)"
  have "sched_inv (set_task n f (s1\<lparr>clks_current_task := n\<rparr>))"
    using sched_inv_task [OF s2, of n] s1 n assms(2)
    by (intro sched_inv_set_task [OF s2])
      (auto simp: f_def task_ok_def task_used_def clks_sched_state_runnable_def)
  from this [unfolded s1_def cur_def f_def] show ?thesis
    using False by (simp add: clks_sched_switch_to_def Let_def)
qed

lemma next_runnable_cases:
  "clks_sched_next_runnable_task from s = 0 \<or>
   clks_sched_task_runnable (task_of s (clks_sched_next_runnable_task from s))"
  by (auto simp: clks_sched_next_runnable_task_def find_Some_iff split: option.splits)

lemma runnable_used: "clks_sched_task_runnable t \<Longrightarrow> task_used t"
  by (auto simp: clks_sched_task_runnable_def clks_sched_state_runnable_def task_used_def)

lemma account_tick_inv: "sched_inv s \<Longrightarrow> sched_inv (clks_sched_account_current_tick s)"
proof -
  assume *: "sched_inv s"
  let ?c = "clks_current_task s"
  let ?f = "\<lambda>t. t\<lparr>t_total_ticks := t_total_ticks t + 1, t_remaining_ticks :=
    (if t_remaining_ticks t > 0 then t_remaining_ticks t - 1 else t_remaining_ticks t)\<rparr>"
  have d: "r - 1 \<le> m" if "0 < r" "r \<le> m" for r m :: u32
  proof -
    have "unat (r - 1) = unat r - 1" using that(1) by (intro unat_minus_one) auto
    with that show ?thesis by (simp add: word_le_nat_alt)
  qed
  have "sched_inv (set_task ?c ?f s)" if "clks_task_count s \<noteq> 0"
    using sched_inv_current [OF * that] sched_inv_task [OF *, of ?c]
    by (intro sched_inv_set_task [OF *]) (auto simp: task_ok_def task_used_def intro: d)
  with * show ?thesis by (simp add: clks_sched_account_current_tick_def Let_def)
qed

lemma maybe_reschedule_inv: "sched_inv s \<Longrightarrow> sched_inv (clks_sched_maybe_reschedule s)"
proof -
  assume *: "sched_inv s"
  let ?s = "s\<lparr>clks_reschedule_requested := False\<rparr>"
  let ?c = "clks_current_task s"
  let ?n = "clks_sched_next_runnable_task ?c ?s"
  let ?f = "\<lambda>t. t\<lparr>t_remaining_ticks := t_time_slice_ticks t\<rparr>"
  show ?thesis
  proof (cases "clks_task_count s = 0 \<or> \<not> clks_reschedule_requested s")
    case True
    with * show ?thesis by (auto simp: clks_sched_maybe_reschedule_def)
  next
    case False
    then have c: "?c < clks_task_count s" using sched_inv_current * by simp
    have 1: "sched_inv (set_task ?c ?f ?s)"
      using sched_inv_task [OF * c] c *
      by (intro sched_inv_set_task) (auto simp: task_ok_def task_used_def)
    have "task_used (task_of (set_task ?c ?f ?s) ?n)" if "?n < clks_task_count s"
      using next_runnable_cases [of ?c ?s] sched_inv_used [OF *] runnable_used False that c
        sched_inv_mem [OF *] task_of_set_task [of ?s ?c ?n ?f]
      by (auto simp: task_used_def)
    with 1 have "sched_inv (clks_sched_switch_to ?n (set_task ?c ?f ?s))"
      by (intro switch_to_inv) simp_all
    with False show ?thesis by (simp add: clks_sched_maybe_reschedule_def Let_def)
  qed
qed

lemma timer_tick_inv: "sched_inv s \<Longrightarrow> sched_inv (clks_scheduler_on_timer_tick tick s)"
  by (simp add: clks_scheduler_on_timer_tick_def Let_def wake_sleepers_inv maybe_reschedule_inv account_tick_inv)

lemma slot_used_iff:
  "sched_mem_ok s \<Longrightarrow> clks_sched_task_slot_used i s \<longleftrightarrow> i < clks_task_count s \<and> task_used (task_of s i)"
  by (auto simp: clks_sched_task_slot_used_def task_used_def sched_mem_ok_def split: option.splits)

lemma yield_current_inv: "sched_inv s \<Longrightarrow> sched_inv (clks_scheduler_yield_current s)"
  using sched_inv_current [of s] sched_inv_task [of s "clks_current_task s"]
  by (auto simp: clks_scheduler_yield_current_def task_ok_def task_used_def intro!: sched_inv_set_task)

lemma yield_task_inv: "sched_inv s \<Longrightarrow> sched_inv (snd (clks_scheduler_yield_task i s))"
  using sched_inv_task [of s i]
  by (auto simp: clks_scheduler_yield_task_def Let_def slot_used_iff sched_inv_mem task_ok_def task_used_def
      intro!: sched_inv_set_task)


lemma sleep_current_inv: "sched_inv s \<Longrightarrow> sched_inv (snd (clks_scheduler_sleep_current_until w s))"
  using sched_inv_current [of s] sched_inv_task [of s "clks_current_task s"]
  by (auto simp: clks_scheduler_sleep_current_until_def task_ok_def task_used_def
      intro!: sched_inv_set_task)

lemma sleep_task_inv: "sched_inv s \<Longrightarrow> sched_inv (snd (clks_scheduler_sleep_task_until i w s))"
  using sched_inv_task [of s i]
  by (auto simp: clks_scheduler_sleep_task_until_def Let_def slot_used_iff sched_inv_mem
      task_ok_def task_used_def intro!: sched_inv_set_task)

lemma sleep_ticks_inv:
  "sched_inv s \<Longrightarrow> sched_inv (snd (clks_scheduler_sleep_current_ticks n now s))"
  "sched_inv s \<Longrightarrow> sched_inv (snd (clks_scheduler_sleep_task_ticks i n now s))"
  by (simp_all add: clks_scheduler_sleep_current_ticks_def clks_scheduler_sleep_task_ticks_def
      yield_current_inv yield_task_inv sleep_current_inv sleep_task_inv)

lemma set_state_inv:
  assumes "sched_inv s" "st \<noteq> TASK_UNUSED"
  shows "sched_inv (snd (clks_scheduler_set_task_state i st s))"
proof (cases "clks_sched_task_slot_used i s")
  case True
  note m = sched_inv_mem [OF assms(1)]
  with True have i: "i < clks_task_count s" "task_used (task_of s i)" by (simp_all add: slot_used_iff)
  define st' where "st' = (if st = TASK_RUNNING \<and> i \<noteq> clks_current_task s then TASK_READY else st)"
  define f :: "clks_task_descriptor \<Rightarrow> clks_task_descriptor" where "f = (\<lambda>t. t\<lparr>t_state := st',
    t_block_count := (if st' = TASK_BLOCKED \<or> st' = TASK_BLOCKED_IO \<or> st' = TASK_WAITING_CHILD
      then t_block_count t + 1 else t_block_count t)\<rparr>)"
  have f: "t_state (f t) = st'" "t_id (f t) = t_id t" "t_remaining_ticks (f t) = t_remaining_ticks t"
    "t_time_slice_ticks (f t) = t_time_slice_ticks t" "t_entry (f t) = t_entry t" for t
    by (simp_all add: f_def)
  have st': "st' \<noteq> TASK_UNUSED" "st' = TASK_RUNNING \<Longrightarrow> i = clks_current_task s"
    using assms(2) by (auto simp: st'_def split: if_splits)
  have inv: "sched_inv (set_task i f s)" if "i = 0 \<Longrightarrow> st = TASK_READY \<or> st = TASK_RUNNING"
  proof (rule sched_inv_set_task [OF assms(1) i(1)])
    have "i = 0 \<Longrightarrow> clks_sched_state_runnable st'"
      using that by (auto simp: st'_def clks_sched_state_runnable_def)
    with sched_inv_task [OF assms(1) i(1)] i(2) st'
    show "task_ok (clks_current_task s) i (f (task_of s i))"
      unfolding task_ok_def task_used_def f by auto
    show "task_used (f (task_of s i)) = task_used (task_of s i)"
      using i(2) st' by (simp add: task_used_def f)
  qed
  have run: "snd (clks_scheduler_set_task_state i st s) =
    (if i = 0 \<and> st \<noteq> TASK_READY \<and> st \<noteq> TASK_RUNNING then s
     else if clks_current_task s = i \<and> \<not> clks_sched_state_runnable st'
     then (set_task i f s)\<lparr>clks_reschedule_requested := True\<rparr> else set_task i f s)"
    using True unfolding clks_scheduler_set_task_state_def st'_def f_def Let_def by simp
  show ?thesis using assms(1) inv unfolding run by simp
next
  case False
  with assms show ?thesis by (simp add: clks_scheduler_set_task_state_def)
qed

lemma wake_task_inv: "sched_inv s \<Longrightarrow> sched_inv (snd (clks_scheduler_wake_task i s))"
  using sched_inv_task [of s i]
  by (auto simp: clks_scheduler_wake_task_def slot_used_iff sched_inv_mem
      task_ok_def task_used_def clks_sched_state_runnable_def intro!: sched_inv_set_task)

text \<open>Removing a task.\<close>

lemma filter_used_update:
  assumes "i < length ts" "task_used (ts ! i)" "\<not> task_used t"
  shows "length (filter task_used (ts[i := t])) = length (filter task_used ts) - 1"
    "0 < length (filter task_used ts)"
proof -
  have "ts ! i \<in> set (filter task_used ts)" using assms by simp
  then show "0 < length (filter task_used ts)" by (rule length_pos_if_in_set)
  then show "length (filter task_used (ts[i := t])) = length (filter task_used ts) - 1"
    using filter_list_update_length [OF assms(1), of task_used t] assms by simp
qed

lemma remove_task_inv: "sched_inv s \<Longrightarrow> sched_inv (snd (clks_scheduler_remove_task i s))"
proof -
  assume *: "sched_inv s"
  note m = sched_inv_mem [OF *]
  show ?thesis
  proof (cases "i = 0 \<or> \<not> clks_sched_task_slot_used i s")
    case True
    with * show ?thesis by (auto simp: clks_scheduler_remove_task_def)
  next
    case False
    with m have i: "i < clks_task_count s" "task_used (task_of s i)" "i \<noteq> 0"
      by (simp_all add: slot_used_iff)
    let ?z = "zero_task\<lparr>t_id := i\<rparr>"
    let ?ts = "sched_tasks s"
    have z: "\<not> task_used ?z" "task_ok c i ?z" for c
      using i by (simp_all add: zero_task_def task_used_def task_ok_def)
    have ts: "tasks_ok ?ts (clks_current_task s) (clks_task_live_count s)"
      "length ?ts = clks_task_count s" "?ts ! i = task_of s i"
      using * i sched_tasks_length [OF m] task_of_nth [OF m i(1)] by (simp_all add: sched_inv_def)
    have l: "length (filter task_used (?ts[i := ?z])) = clks_task_live_count s - 1"
      "0 < clks_task_live_count s"
      using filter_used_update [of i ?ts ?z] ts i z by (simp_all add: tasks_ok_def)
    have "tasks_ok (?ts[i := ?z]) (if clks_current_task s = i then 0 else clks_current_task s)
        (clks_task_live_count s - 1)"
      unfolding tasks_ok_def l length_list_update
    proof (intro conjI allI impI)
      show "(if clks_current_task s = i then 0 else clks_current_task s) < length ?ts"
        using ts i by (auto simp: tasks_ok_def)
      show "task_ok (if clks_current_task s = i then 0 else clks_current_task s) j (?ts[i := ?z] ! j)"
        if "j < length ?ts" for j
      proof (cases "j = i")
        case True
        with that z show ?thesis by simp
      next
        case False
        with that ts show ?thesis by (auto simp: tasks_ok_def task_ok_def)
      qed
    qed simp
    with False i l m show ?thesis
      by (auto simp: clks_scheduler_remove_task_def sched_inv_def set_task_tasks Let_def)
  qed
qed

text \<open>Growing the table.\<close>

lemma sched_double_runs:
  "0 < c \<Longrightarrow> \<exists>c'. sched_double c m = Some c' \<and> m \<le> c' \<and> c \<le> c' \<and> (m \<le> 4294967295 \<and> c \<le> 4294967295 \<longrightarrow> c' \<le> 4294967295)"
proof (induction "m - c" arbitrary: c rule: less_induct)
  case less
  show ?case
  proof (cases "c < m \<and> c \<le> 2147483647")
    case True
    with less.prems have "m - c * 2 < m - c" by linarith
    from less.hyps [OF this] less.prems True show ?thesis by (subst sched_double.simps) auto
  next
    case False
    then show ?thesis by (subst sched_double.simps) auto
  qed
qed

lemma reserve_tasks_spec:
  assumes "sched_mem_ok s" "n \<le> 4294967295"
  shows "\<exists>ok s'. clks_sched_reserve_tasks n s = Some (ok, s') \<and> sched_mem_ok s' \<and>
    sched_tasks s' = sched_tasks s \<and> clks_task_count s' = clks_task_count s \<and>
    clks_task_live_count s' = clks_task_live_count s \<and> clks_current_task s' = clks_current_task s \<and>
    clks_scheduler_online s' = clks_scheduler_online s \<and>
    (if ok then n \<le> clks_task_capacity s' \<and> (n \<noteq> 0 \<longrightarrow> clks_tasks s' \<noteq> None) else clks_tasks s' = clks_tasks s)"
proof (cases "n \<le> clks_task_capacity s")
  case True
  with assms show ?thesis
    by (auto simp: clks_sched_reserve_tasks_def sched_mem_ok_def split: option.splits)
next
  case False
  let ?c0 = "if clks_task_capacity s = 0 then CLKS_SCHED_INITIAL_TASK_CAPACITY else clks_task_capacity s"
  have c0: "0 < ?c0" "?c0 \<le> 4294967295"
    using sched_count_bound [OF assms(1)] by (auto simp: CLKS_SCHED_INITIAL_TASK_CAPACITY_def)
  from sched_double_runs [OF c0(1), of n] c0(2) assms(2)
  obtain c where c: "sched_double ?c0 n = Some c" "n \<le> c" "?c0 \<le> c" "c \<le> 4294967295" by auto
  then have b: "c * SIZEOF_TASK_DESCRIPTOR + 15 < USIZE_RANGE"
    by (simp add: SIZEOF_TASK_DESCRIPTOR_def USIZE_RANGE_def)
  then have bm: "c * SIZEOF_TASK_DESCRIPTOR mod USIZE_RANGE = c * SIZEOF_TASK_DESCRIPTOR" by simp
  have bd: "c * SIZEOF_TASK_DESCRIPTOR div SIZEOF_TASK_DESCRIPTOR = c"
    by (simp add: SIZEOF_TASK_DESCRIPTOR_def)
  have cn: "c \<noteq> 0" using c0 c by simp
  obtain L where L: "heap_live (sched_heap s) L"
    and own: "\<And>p. clks_tasks s = Some p \<Longrightarrow> L p \<noteq> None"
    using assms(1) by (auto simp: sched_mem_ok_def split: option.splits)
  obtain r h where r: "clks_kmalloc (c * SIZEOF_TASK_DESCRIPTOR) (sched_heap s) = Some (r, h)"
    using heap.malloc_runs [OF L] by blast
  show ?thesis
  proof (cases r)
    case None
    with r have "h = sched_heap s" using heap.malloc_null [OF L] by blast
    with False c None r bm bd cn assms show ?thesis
      by (intro exI [of _ False] exI [of _ s]) (simp add: clks_sched_reserve_tasks_def Let_def)
  next
    case (Some p)
    from heap.malloc_some [OF L r [unfolded Some]] b
    obtain m where m: "L p = None" "heap_live h (L(p \<mapsto> m))" "c * SIZEOF_TASK_DESCRIPTOR \<le> m" by blast
    define blank where "blank = replicate c zero_task"
    define table where "table = (case clks_tasks s of None \<Rightarrow> blank
      | Some old \<Rightarrow> if clks_task_count s \<noteq> 0
          then take (clks_task_count s) (sched_tables s old) @ drop (clks_task_count s) blank else blank)"
    define s' where "s' = s\<lparr>sched_heap := (case clks_tasks s of None \<Rightarrow> h
        | Some old \<Rightarrow> clks_kfree (Some old) h),
      sched_tables := (sched_tables s)(p := table), clks_tasks := Some p, clks_task_capacity := c\<rparr>"
    have run: "clks_sched_reserve_tasks n s = Some (True, s')"
      using False c Some r bm bd cn
      unfolding s'_def table_def blank_def by (simp add: clks_sched_reserve_tasks_def Let_def)
    have live: "\<exists>L' k. heap_live (sched_heap s') L' \<and> L' p = Some k \<and> c * SIZEOF_TASK_DESCRIPTOR \<le> k"
    proof (cases "clks_tasks s")
      case None
      with m show ?thesis by (auto simp: s'_def intro!: exI [of _ "L(p \<mapsto> m)"])
    next
      case (Some old)
      with own m have o: "old \<noteq> p" "L old \<noteq> None" by auto
      then obtain k where "(L(p \<mapsto> m)) old = Some k" by auto
      from heap.release_live [OF m(2) this] Some
      have "heap_live (sched_heap s') ((L(p \<mapsto> m))(old := None))" by (simp add: s'_def fun_upd_def)
      moreover have "((L(p \<mapsto> m))(old := None)) p = Some m" using o(1) by simp
      ultimately show ?thesis using m(3) by blast
    qed
    have cnt: "clks_task_count s \<le> c"
      using sched_count_bound(1) [OF assms(1)] c(3) by (auto split: if_splits)
    have len: "length table = c"
      using cnt assms(1)
      by (auto simp: table_def blank_def sched_mem_ok_def split: option.splits)
    have tk: "take (clks_task_count s) table = sched_tasks s"
      using assms(1) by (auto simp: table_def blank_def sched_tasks_def sched_mem_ok_def split: option.splits)
    have "sched_mem_ok s'"
      using live len cnt by (simp add: sched_mem_ok_def s'_def)
    moreover have "sched_tasks s' = sched_tasks s" using tk by (simp add: sched_tasks_def s'_def)
    ultimately show ?thesis using run c(2) by (auto simp: s'_def)
  qed
qed

lemma find_free_slot_spec:
  assumes "sched_inv s"
  shows "\<exists>r s'. clks_sched_find_free_task_slot s = Some (r, s') \<and> sched_mem_ok s' \<and>
    clks_task_live_count s' = clks_task_live_count s \<and> clks_current_task s' = clks_current_task s \<and>
    clks_scheduler_online s' = clks_scheduler_online s \<and>
    (case r of
       None \<Rightarrow> sched_tasks s' = sched_tasks s \<and> clks_task_count s' = clks_task_count s
     | Some i \<Rightarrow> i < clks_task_count s' \<and>
         (if i < clks_task_count s
          then s' = s \<and> i \<noteq> 0 \<and> \<not> task_used (sched_tasks s ! i)
          else i = clks_task_count s \<and> (\<forall>t. (sched_tasks s')[i := t] = sched_tasks s @ [t])))"
proof (cases "find (\<lambda>i. t_state (task_of s i) = TASK_UNUSED) [1..<clks_task_count s]")
  case (Some i)
  then have "i < clks_task_count s" "i \<noteq> 0" "t_state (task_of s i) = TASK_UNUSED"
    by (auto simp: find_Some_iff)
  with Some sched_inv_mem [OF assms] show ?thesis
    by (auto simp: clks_sched_find_free_task_slot_def task_used_def task_of_nth)
next
  case None
  note m = sched_inv_mem [OF assms]
  let ?n = "clks_task_count s"
  have n: "?n \<le> 2236962" using sched_count_bound [OF m] by simp
  then have a: "add32 ?n 1 = Suc ?n" by (simp add: add32_def)
  obtain ok s1 where s1: "clks_sched_reserve_tasks (Suc ?n) s = Some (ok, s1)" "sched_mem_ok s1"
    "sched_tasks s1 = sched_tasks s" "clks_task_count s1 = ?n"
    "clks_task_live_count s1 = clks_task_live_count s" "clks_current_task s1 = clks_current_task s"
    "clks_scheduler_online s1 = clks_scheduler_online s"
    "if ok then Suc ?n \<le> clks_task_capacity s1 \<and> (Suc ?n \<noteq> 0 \<longrightarrow> clks_tasks s1 \<noteq> None)
     else clks_tasks s1 = clks_tasks s"
    using reserve_tasks_spec [OF m, of "Suc ?n"] n by auto
  show ?thesis
  proof (cases ok)
    case False
    with None s1 n a show ?thesis by (auto simp: clks_sched_find_free_task_slot_def)
  next
    case True
    define s' where "s' = s1\<lparr>clks_task_count := Suc ?n\<rparr>"
    obtain p where p: "clks_tasks s1 = Some p" "Suc ?n \<le> clks_task_capacity s1"
      using s1(8) True by auto
    then have cap: "length (sched_tables s1 p) = clks_task_capacity s1"
      using s1(2) by (simp add: sched_mem_ok_def)
    have "sched_mem_ok s'" using s1(2) p by (simp add: sched_mem_ok_def s'_def)
    moreover have "(sched_tasks s')[?n := t] = sched_tasks s @ [t]" for t
    proof -
      have "(sched_tasks s')[?n := t] = take ?n (sched_tables s1 p) @ [t]"
        using p cap by (simp add: sched_tasks_def s'_def take_Suc_conv_app_nth list_update_append)
      also have "take ?n (sched_tables s1 p) = sched_tasks s"
        using s1(3,4) p by (simp add: sched_tasks_def)
      finally show ?thesis .
    qed
    moreover have "clks_sched_find_free_task_slot s = Some (Some ?n, s')"
      using None s1 n a True by (simp add: clks_sched_find_free_task_slot_def s'_def)
    ultimately show ?thesis using s1 by (auto simp: s'_def)
  qed
qed

text \<open>
  Adding a task: it is refused, with the tasks as they were, or takes a free slot (any but slot 0)
  or a new one at the end; the other tasks stay.
\<close>

lemma add_task_spec:
  assumes "sched_inv s" "clks_task_count s = 0 \<longrightarrow> early \<longrightarrow> entry = None"
  shows "\<exists>ok out s'. clks_scheduler_add_task_internal name ticks entry early s = Some (ok, out, s') \<and>
    sched_inv s' \<and> clks_current_task s' = clks_current_task s \<and>
    clks_scheduler_online s' = clks_scheduler_online s \<and>
    (if ok then \<exists>i. out = Some i \<and> i < clks_task_count s' \<and>
       (i < clks_task_count s \<longrightarrow> i \<noteq> 0 \<and> \<not> task_used (sched_tasks s ! i)) \<and>
       t_state (task_of s' i) = TASK_READY \<and> t_entry (task_of s' i) = entry \<and>
       (\<forall>j < clks_task_count s. j \<noteq> i \<longrightarrow> task_of s' j = task_of s j)
     else sched_tasks s' = sched_tasks s)"
proof (cases "name = None \<or> \<not> early \<and> \<not> clks_scheduler_online s")
  case True
  with assms show ?thesis
    by (cases "name = None") (auto simp: clks_scheduler_add_task_internal_def)
next
  case False
  note m = sched_inv_mem [OF assms(1)]
  obtain r s1 where s1: "clks_sched_find_free_task_slot s = Some (r, s1)" "sched_mem_ok s1"
    "clks_task_live_count s1 = clks_task_live_count s" "clks_current_task s1 = clks_current_task s"
    "clks_scheduler_online s1 = clks_scheduler_online s"
    "case r of None \<Rightarrow> sched_tasks s1 = sched_tasks s \<and> clks_task_count s1 = clks_task_count s
     | Some i \<Rightarrow> i < clks_task_count s1 \<and>
         (if i < clks_task_count s then s1 = s \<and> i \<noteq> 0 \<and> \<not> task_used (sched_tasks s ! i)
          else i = clks_task_count s \<and> (\<forall>t. (sched_tasks s1)[i := t] = sched_tasks s @ [t]))"
    using find_free_slot_spec [OF assms(1)] by blast
  show ?thesis
  proof (cases r)
    case None
    with s1 False assms show ?thesis
      by (auto simp: clks_scheduler_add_task_internal_def sched_inv_def)
  next
    case (Some i)
    define sl where "sl = (if ticks < CLKS_SCHED_MIN_SLICE then CLKS_SCHED_MIN_SLICE else ticks)"
    define t where "t = zero_task\<lparr>t_id := i, t_name := clks_sched_copy_name name,
      t_state := TASK_READY, t_time_slice_ticks := sl, t_remaining_ticks := sl, t_wake_tick := 0,
      t_entry := entry\<rparr>"
    define s' where "s' = (set_task i (\<lambda>_. t) s1)\<lparr>clks_task_live_count := add32 (clks_task_live_count s) 1\<rparr>"
    have run: "clks_scheduler_add_task_internal name ticks entry early s = Some (True, Some i, s')"
      using False s1(1,3) Some
      by (simp add: clks_scheduler_add_task_internal_def Let_def s'_def t_def sl_def)
    have i: "i < clks_task_count s1" using s1(6) Some by simp
    let ?ts = "sched_tasks s"
    have ts: "sched_tasks s' = (if i < clks_task_count s then ?ts[i := t] else ?ts @ [t])"
      using s1 Some i by (auto simp: s'_def set_task_tasks split: if_splits)
    have m': "sched_mem_ok s'" using s1(2) by (simp add: s'_def)
    have len: "length ?ts = clks_task_count s" by (rule sched_tasks_length [OF m])
    have ilast: "i < clks_task_count s \<or> i = clks_task_count s" using s1(6) Some by (auto split: if_splits)
    have cnt: "clks_task_count s' = (if i < clks_task_count s then clks_task_count s else Suc (clks_task_count s))"
      using sched_tasks_length [OF m'] ts len by auto
    have u: "task_used t" by (simp add: t_def task_used_def)
    have sl: "0 < sl" by (auto simp: sl_def CLKS_SCHED_MIN_SLICE_def word_gt_0)
    have tok: "task_ok c i t" if "i \<noteq> 0 \<or> entry = None" for c
      using that sl by (auto simp: t_def task_ok_def task_used_def clks_sched_state_runnable_def)
    have fi: "i \<noteq> 0 \<and> \<not> task_used (?ts ! i)" if "i < clks_task_count s"
      using s1(6) Some that by simp
    have live: "clks_task_live_count s \<le> clks_task_count s"
      using assms(1) length_filter_le [of task_used ?ts] len
      by (auto simp: sched_inv_def tasks_ok_def split: if_splits)
    have "clks_task_count s \<le> 2236962" using sched_count_bound [OF m] by simp
    with live have l: "add32 (clks_task_live_count s) 1 = Suc (clks_task_live_count s)"
      by (simp add: add32_def)
    have fl: "length (filter task_used (sched_tasks s')) = Suc (length (filter task_used ?ts))"
      using filter_list_update_length [of i ?ts task_used t] fi u len by (auto simp: ts)
    have nz: "i \<noteq> 0 \<or> entry = None"
    proof (cases "clks_task_count s = 0")
      case True
      then have "\<not> clks_scheduler_online s" using assms(1) by (simp add: sched_inv_def)
      with False assms(2) True show ?thesis by auto
    next
      case nonempty: False
      with fi ilast show ?thesis by auto
    qed
    have "tasks_ok (sched_tasks s') (clks_current_task s) (Suc (clks_task_live_count s))"
      unfolding tasks_ok_def fl
    proof (intro conjI allI impI)
      show "clks_current_task s < length (sched_tasks s')"
        using assms(1) len ts ilast by (auto simp: sched_inv_def tasks_ok_def split: if_splits)
      show "Suc (clks_task_live_count s) = Suc (length (filter task_used ?ts))"
        using assms(1) len by (auto simp: sched_inv_def tasks_ok_def split: if_splits)
      show "task_ok (clks_current_task s) j (sched_tasks s' ! j)" if "j < length (sched_tasks s')" for j
        using that tok [OF nz] assms(1) ts len ilast
        by (auto simp: sched_inv_def tasks_ok_def nth_list_update nth_append less_Suc_eq split: if_splits)
    qed
    with m' cnt l s1(4) i have inv: "sched_inv s'" by (auto simp: sched_inv_def s'_def)
    have it: "task_of s' i = t"
      using i s1(2) ts len ilast by (auto simp: task_of_nth [OF m'] cnt nth_append)
    have ot: "task_of s' j = task_of s j" if "j < clks_task_count s" "j \<noteq> i" for j
      using that ts len by (auto simp: task_of_nth [OF m'] task_of_nth [OF m] cnt nth_append)
    have "clks_current_task s' = clks_current_task s" "clks_scheduler_online s' = clks_scheduler_online s"
      "i < clks_task_count s'"
      using s1 i by (simp_all add: s'_def)
    with run inv it ot fi show ?thesis by (auto simp: t_def)
  qed
qed

section \<open>Dispatching task entries\<close>

lemma switch_to_frame [simp]:
  "clks_tasks (clks_sched_switch_to n s) = clks_tasks s"
  "clks_task_count (clks_sched_switch_to n s) = clks_task_count s"
  "clks_dispatch_active (clks_sched_switch_to n s) = clks_dispatch_active s"
  "clks_scheduler_online (clks_sched_switch_to n s) = clks_scheduler_online s"
  "task_ref (clks_sched_switch_to n s) j = task_ref s j"
  by (simp_all add: clks_sched_switch_to_def Let_def task_ref_def)

lemma switch_to_current:
  "n < clks_task_count s \<Longrightarrow> clks_current_task (clks_sched_switch_to n s) = n"
  by (simp add: clks_sched_switch_to_def Let_def)

lemma maybe_reschedule_frame [simp]:
  "clks_tasks (clks_sched_maybe_reschedule s) = clks_tasks s"
  "clks_task_count (clks_sched_maybe_reschedule s) = clks_task_count s"
  "clks_dispatch_active (clks_sched_maybe_reschedule s) = clks_dispatch_active s"
  "clks_scheduler_online (clks_sched_maybe_reschedule s) = clks_scheduler_online s"
  by (simp_all add: clks_sched_maybe_reschedule_def Let_def)

text \<open>
  The write of \<open>TASK_READY\<close> after the entry returned goes through the pointer taken before; the
  list of tasks stays well-formed wherever the table is by then.
\<close>

lemma put_ready_inv:
  assumes "sched_inv s" "t_state (get_task s r) = TASK_RUNNING"
  shows "sched_inv (put_task r (\<lambda>t. t\<lparr>t_state := TASK_READY\<rparr>) s)"
proof (cases "clks_tasks s = Some (fst r) \<and> snd r < clks_task_count s")
  case True
  then have r: "r = task_ref s (snd r)" by (auto simp: task_ref_def prod_eq_iff)
  then have "t_state (task_of s (snd r)) = TASK_RUNNING" using assms(2) by (simp add: task_of_def)
  with sched_inv_task [OF assms(1), of "snd r"] True
  have "sched_inv (set_task (snd r) (\<lambda>t. t\<lparr>t_state := TASK_READY\<rparr>) s)"
    by (intro sched_inv_set_task assms) (auto simp: task_ok_def task_used_def clks_sched_state_runnable_def)
  with r show ?thesis by (simp add: set_task_def)
next
  case False
  have m: "sched_mem_ok s" by (rule sched_inv_mem [OF assms(1)])
  then have "sched_tasks (put_task r (\<lambda>t. t\<lparr>t_state := TASK_READY\<rparr>) s) = sched_tasks s"
    using False by (auto simp: sched_tasks_def put_task_def split: option.splits)
  moreover have "sched_mem_ok (put_task r (\<lambda>t. t\<lparr>t_state := TASK_READY\<rparr>) s)"
    using m by (auto simp: sched_mem_ok_def put_task_def split: option.splits)
  ultimately show ?thesis using assms(1) by (simp add: sched_inv_def put_task_def)
qed

text \<open>
  What the scheduler relies on when it calls an entry: the entry returns, and the scheduler
  operations it calls leave a well-formed scheduler.
\<close>

locale task_entries =
  fixes ent :: "nat \<Rightarrow> u64 \<Rightarrow> sched_state \<Rightarrow> sched_state option"
  assumes entry_keeps: "sched_inv s \<Longrightarrow> \<exists>s'. ent e tick s = Some s' \<and> sched_inv s'"
begin

lemma run_task_keeps:
  assumes "sched_inv s"
  shows "\<exists>s'. clks_sched_run_task ent i tick s = Some s' \<and> sched_inv s'"
proof (cases "i < clks_task_count s \<and> clks_sched_task_runnable (task_of s i)")
  case False
  with assms show ?thesis by (auto simp: clks_sched_run_task_def task_of_def Let_def)
next
  case True
  let ?f = "\<lambda>t. t\<lparr>t_state := TASK_RUNNING, t_run_count := t_run_count t + 1, t_last_run_tick := tick\<rparr>"
  define s1 where "s1 = (if t_state (task_of s i) = TASK_READY then clks_sched_switch_to i s else s)"
  have u: "task_used (task_of s i)" using True runnable_used by blast
  have s1: "sched_inv s1" "clks_task_count s1 = clks_task_count s" "task_ref s1 i = task_ref s i"
    using switch_to_inv [OF assms, of i] u assms by (simp_all add: s1_def)
  have cur: "clks_current_task s1 = i"
    using True switch_to_current [of i s] sched_inv_task [OF assms, of i]
    by (auto simp: s1_def clks_sched_task_runnable_def clks_sched_state_runnable_def task_ok_def)
  have ne: "i \<noteq> 0 \<and> t_entry (task_of s i) \<noteq> None"
    using True sched_inv_task [OF assms, of i] by (auto simp: task_ok_def clks_sched_task_runnable_def)
  have t1: "t_entry (task_of s1 i) = t_entry (task_of s i) \<and> task_used (task_of s1 i)"
    using True u sched_inv_mem [OF assms] sched_inv_current [OF assms]
    by (auto simp: s1_def clks_sched_switch_to_def Let_def task_of_set_task task_used_def)
  define s3 where "s3 = (put_task (task_ref s i) ?f s1)\<lparr>clks_dispatch_active := True\<rparr>"
  have s3': "s3 = (set_task i ?f s1)\<lparr>clks_dispatch_active := True\<rparr>"
    by (simp add: s3_def set_task_def s1)
  have inv3: "sched_inv s3"
    unfolding s3' using sched_inv_task [OF s1(1), of i] True s1 t1 cur ne
    by (simp, intro sched_inv_set_task) (auto simp: task_ok_def task_used_def)
  have e3: "get_task s3 (task_ref s i) = ?f (task_of s1 i)"
  proof -
    have "task_ref s3 i = task_ref s1 i" by (simp add: s3_def put_task_def task_ref_def)
    then have "get_task s3 (task_ref s i) = task_of s3 i" by (simp add: task_of_def s1(3))
    also have "\<dots> = ?f (task_of s1 i)"
      using True s1 by (simp add: s3' task_of_set_task sched_inv_mem [OF s1(1)])
    finally show ?thesis .
  qed
  obtain e where e: "t_entry (task_of s i) = Some e" using ne by auto
  obtain s4 where s4: "ent e tick s3 = Some s4" "sched_inv s4"
    using entry_keeps [OF inv3] by blast
  define s5 where "s5 = s4\<lparr>clks_dispatch_active := False\<rparr>"
  define s6 where "s6 = (if t_state (get_task s5 (task_ref s i)) = TASK_RUNNING
    then put_task (task_ref s i) (\<lambda>t. t\<lparr>t_state := TASK_READY\<rparr>) s5 else s5)"
  have "sched_inv s6" using s4(2) put_ready_inv [of s5] by (simp add: s6_def s5_def)
  moreover have "clks_sched_run_task ent i tick s = Some (clks_sched_maybe_reschedule s6)"
    using True e t1 s4(1) e3
    by (simp add: clks_sched_run_task_def Let_def task_of_def [symmetric] s1_def [symmetric]
        s3_def [symmetric] s5_def [symmetric] s6_def)
  ultimately show ?thesis using maybe_reschedule_inv by blast
qed

lemma dispatch_current_keeps:
  "sched_inv s \<Longrightarrow> \<exists>s'. clks_scheduler_dispatch_current ent tick s = Some s' \<and> sched_inv s'"
  using run_task_keeps maybe_reschedule_inv wake_sleepers_inv
  by (auto simp: clks_scheduler_dispatch_current_def Let_def)

lemma dispatch_loop_keeps:
  "sched_inv s \<Longrightarrow> \<exists>b s'. sched_dispatch_loop ent tick i budget s = Some (b, s') \<and> sched_inv s'"
proof (induction budget arbitrary: i s rule: less_induct)
  case (less budget)
  note outer = less.IH
  show ?case using less.prems
  proof (induction "clks_task_count s - i" arbitrary: i)
    case 0
    then show ?case by (subst sched_dispatch_loop.simps) auto
  next
    case (Suc k)
    let ?idx = "add32 (clks_current_task s) i mod clks_task_count s"
    have IH: "\<exists>b s'. sched_dispatch_loop ent tick (Suc i) budget s = Some (b, s') \<and> sched_inv s'"
      using Suc by (intro Suc.hyps) simp_all
    obtain s' where s': "clks_sched_run_task ent ?idx tick s = Some s'" "sched_inv s'"
      using run_task_keeps [OF Suc.prems] by blast
    show ?case
    proof (cases "i < clks_task_count s \<and> 0 < budget")
      case True
      have "\<exists>b t. sched_dispatch_loop ent tick (Suc i) (budget - 1) s' = Some (b, t) \<and> sched_inv t"
        using True by (intro outer s'(2)) simp
      with True IH s'(1) show ?thesis
        by (subst sched_dispatch_loop.simps) (simp add: Let_def)
    next
      case False
      with Suc.prems show ?thesis by (subst sched_dispatch_loop.simps) auto
    qed
  qed
qed

lemma dispatch_ready_keeps:
  assumes "sched_inv s"
  shows "\<exists>s'. clks_scheduler_dispatch_ready ent tick s = Some s' \<and> sched_inv s'"
proof -
  obtain b s' where "sched_dispatch_loop ent tick 0 CLKS_SCHED_DEFAULT_DISPATCH_BUDGET
      (clks_sched_wake_sleepers tick s) = Some (b, s')" "sched_inv s'"
    using dispatch_loop_keeps [OF wake_sleepers_inv [OF assms]] by blast
  with dispatch_current_keeps [of s' tick] assms show ?thesis
    by (auto simp: clks_scheduler_dispatch_ready_def)
qed

end

section \<open>Runs of the scheduler\<close>

lemma sched_reset_inv:
  assumes "sched_inv s"
  shows "sched_inv (sched_reset s) \<and> clks_task_count (sched_reset s) = 0"
proof -
  have "\<exists>L. heap_live (sched_heap (sched_reset s)) L"
  proof (cases "clks_tasks s")
    case None
    with assms show ?thesis by (auto simp: sched_reset_def sched_inv_def sched_mem_ok_def)
  next
    case (Some p)
    with assms obtain L n where "heap_live (sched_heap s) L" "L p = Some n"
      by (auto simp: sched_inv_def sched_mem_ok_def)
    from heap.release_live [OF this] Some show ?thesis by (auto simp: sched_reset_def)
  qed
  then show ?thesis by (simp add: sched_inv_def sched_mem_ok_def sched_reset_def)
qed

lemma reserve_tasks_inv:
  assumes "sched_inv s" "n \<le> 4294967295"
  shows "\<exists>ok s'. clks_sched_reserve_tasks n s = Some (ok, s') \<and> sched_inv s' \<and>
    clks_task_count s' = clks_task_count s \<and> (ok \<longrightarrow> n \<le> clks_task_capacity s')"
  using reserve_tasks_spec [OF sched_inv_mem [OF assms(1)] assms(2)] assms(1)
  by (fastforce simp: sched_inv_def split: if_splits)

lemma add_task_adds:
  assumes "sched_inv s" "clks_task_count s = 0 \<longrightarrow> early \<longrightarrow> entry = None"
  shows "\<exists>ok out s'. clks_scheduler_add_task_internal name ticks entry early s = Some (ok, out, s') \<and>
    sched_inv s' \<and> clks_current_task s' = clks_current_task s \<and> (ok \<longrightarrow> 0 < clks_task_count s')"
  using add_task_spec [where early = early and entry = entry and name = name and ticks = ticks, OF assms]
  by (elim exE conjE) (intro exI conjI, assumption+, auto split: if_splits)

lemma scheduler_init_keeps:
  assumes "sched_inv s"
  shows "\<exists>s'. clks_scheduler_init s = Some s' \<and> sched_inv s'"
proof -
  note r = sched_reset_inv [OF assms]
  obtain ok s1 where s1: "clks_sched_reserve_tasks CLKS_SCHED_INITIAL_TASK_CAPACITY (sched_reset s) = Some (ok, s1)"
    "sched_inv s1" "clks_task_count s1 = 0"
    using reserve_tasks_inv [of "sched_reset s" CLKS_SCHED_INITIAL_TASK_CAPACITY] r
    by (auto simp: CLKS_SCHED_INITIAL_TASK_CAPACITY_def)
  show ?thesis
  proof (cases ok)
    case False
    with s1 show ?thesis by (simp add: clks_scheduler_init_def)
  next
    case True
    obtain ok2 out s2 where s2: "clks_scheduler_add_task_internal (Some ''idle'') 1 None True s1 = Some (ok2, out, s2)"
      "sched_inv s2" "clks_current_task s2 = clks_current_task s1"
      "ok2 \<longrightarrow> 0 < clks_task_count s2"
      using add_task_adds [OF s1(2), where early = True and entry = None and name = "Some ''idle''" and ticks = 1]
      by auto
    show ?thesis
    proof (cases ok2)
      case False
      with True s1 s2 show ?thesis by (simp add: clks_scheduler_init_def)
    next
      case ok2: True
      define s3 where "s3 = set_task 0 (\<lambda>t. t\<lparr>t_state := TASK_RUNNING,
        t_remaining_ticks := t_time_slice_ticks t\<rparr>) s2"
      have "clks_current_task s2 = 0" using s1(2,3) s2(3) by (simp add: sched_inv_def)
      then have "sched_inv s3"
        using sched_inv_task [OF s2(2), of 0] sched_inv_used [OF s2(2)] s2(4) ok2
        unfolding s3_def by (intro sched_inv_set_task s2)
          (auto simp: task_ok_def task_used_def clks_sched_state_runnable_def)
      then have "sched_inv (s3\<lparr>clks_scheduler_online := True\<rparr>)"
        using s2(4) ok2 by (simp add: sched_inv_def s3_def)
      with True ok2 s1(1) s2(1) show ?thesis by (simp add: clks_scheduler_init_def s3_def Let_def)
    qed
  qed
qed

text \<open>The operations that other parts of the kernel call, as data.\<close>

datatype sched_op =
  Op_Init | Op_Add "string option" u32 "nat option" | Op_Remove nat | Op_Timer_Tick u64
| Op_Dispatch_Ready u64 | Op_Dispatch_Current u64 | Op_Yield_Current | Op_Yield_Task nat
| Op_Sleep_Current_Until u64 | Op_Sleep_Task_Until nat u64 | Op_Sleep_Current_Ticks u64 u64
| Op_Sleep_Task_Ticks nat u64 u64 | Op_Set_State nat clks_task_state | Op_Wake nat

fun sched_exec :: "task_entries_sem \<Rightarrow> sched_op \<Rightarrow> sched_state \<Rightarrow> sched_state option" where
  "sched_exec ent Op_Init s = clks_scheduler_init s"
| "sched_exec ent (Op_Add name ticks entry) s =
     map_option (\<lambda>(_, _, s'). s') (clks_scheduler_add_kernel_task_ex_id name ticks entry s)"
| "sched_exec ent (Op_Remove i) s = Some (snd (clks_scheduler_remove_task i s))"
| "sched_exec ent (Op_Timer_Tick tick) s = Some (clks_scheduler_on_timer_tick tick s)"
| "sched_exec ent (Op_Dispatch_Ready tick) s = clks_scheduler_dispatch_ready ent tick s"
| "sched_exec ent (Op_Dispatch_Current tick) s = clks_scheduler_dispatch_current ent tick s"
| "sched_exec ent Op_Yield_Current s = Some (clks_scheduler_yield_current s)"
| "sched_exec ent (Op_Yield_Task i) s = Some (snd (clks_scheduler_yield_task i s))"
| "sched_exec ent (Op_Sleep_Current_Until w) s = Some (snd (clks_scheduler_sleep_current_until w s))"
| "sched_exec ent (Op_Sleep_Task_Until i w) s = Some (snd (clks_scheduler_sleep_task_until i w s))"
| "sched_exec ent (Op_Sleep_Current_Ticks n now) s = Some (snd (clks_scheduler_sleep_current_ticks n now s))"
| "sched_exec ent (Op_Sleep_Task_Ticks i n now) s = Some (snd (clks_scheduler_sleep_task_ticks i n now s))"
| "sched_exec ent (Op_Set_State i st) s = Some (snd (clks_scheduler_set_task_state i st s))"
| "sched_exec ent (Op_Wake i) s = Some (snd (clks_scheduler_wake_task i s))"

text \<open>
  \<open>clks_scheduler_set_task_state\<close> accepts \<open>CLKS_TASK_UNUSED\<close> and then miscounts (\<open>set_state_unused_miscounts\<close>).
  Its one caller, in \<open>exec/process.inc\<close>, passes no such state; removing a task is what empties a slot.
\<close>

definition op_legal :: "sched_op \<Rightarrow> bool" where
  "op_legal op \<longleftrightarrow> (\<forall>i. op \<noteq> Op_Set_State i TASK_UNUSED)"

lemma op_legal_simps [simp]:
  "op_legal (Op_Set_State i st) = (st \<noteq> TASK_UNUSED)"
  "(\<And>i st. op \<noteq> Op_Set_State i st) \<Longrightarrow> op_legal op"
  by (auto simp: op_legal_def)

lemma add_op_keeps:
  assumes "sched_inv s"
  shows "\<exists>s'. sched_exec ent (Op_Add name ticks entry) s = Some s' \<and> sched_inv s'"
proof -
  from add_task_adds [OF assms, where early = False and entry = entry and name = name and ticks = ticks] obtain ok out s' where
    "clks_scheduler_add_task_internal name ticks entry False s = Some (ok, out, s')" "sched_inv s'"
    by auto
  then show ?thesis by (simp add: clks_scheduler_add_kernel_task_ex_id_def)
qed

context task_entries
begin

lemma exec_keeps:
  assumes "sched_inv s" "op_legal op"
  shows "\<exists>s'. sched_exec ent op s = Some s' \<and> sched_inv s'"
  using assms add_op_keeps [OF assms(1)] scheduler_init_keeps [OF assms(1)]
    dispatch_ready_keeps [OF assms(1)] dispatch_current_keeps [OF assms(1)]
  by (cases op) (simp_all add: remove_task_inv timer_tick_inv yield_current_inv yield_task_inv
      sleep_current_inv sleep_task_inv sleep_ticks_inv set_state_inv wake_task_inv)

end

text \<open>
  Entries given as scripts of scheduler operations: the entry at address \<open>e\<close> performs the legal
  operations among \<open>prog e\<close>. A dispatch inside an entry returns at once in the code, because a
  dispatch is active; scripts have none. Such entries meet the contract.
\<close>

definition op_plain :: "sched_op \<Rightarrow> bool" where
  "op_plain op = (case op of Op_Dispatch_Ready _ \<Rightarrow> False | Op_Dispatch_Current _ \<Rightarrow> False
     | Op_Set_State _ st \<Rightarrow> st \<noteq> TASK_UNUSED | _ \<Rightarrow> True)"

fun run_script :: "sched_op list \<Rightarrow> sched_state \<Rightarrow> sched_state option" where
  "run_script [] s = Some s"
| "run_script (op # ops) s =
     (if op_plain op then Option.bind (sched_exec (\<lambda>_ _ _. None) op s) (run_script ops)
      else run_script ops s)"

definition script_entries :: "(nat \<Rightarrow> sched_op list) \<Rightarrow> task_entries_sem" where
  "script_entries prog e tick s = run_script (prog e) s"

lemma plain_op_keeps:
  assumes "sched_inv s" "op_plain op"
  shows "\<exists>s'. sched_exec ent op s = Some s' \<and> sched_inv s'"
  using assms add_op_keeps [OF assms(1)] scheduler_init_keeps [OF assms(1)]
  by (cases op) (simp_all add: op_plain_def remove_task_inv timer_tick_inv yield_current_inv yield_task_inv
      sleep_current_inv sleep_task_inv sleep_ticks_inv set_state_inv wake_task_inv)

lemma run_script_keeps: "sched_inv s \<Longrightarrow> \<exists>s'. run_script ops s = Some s' \<and> sched_inv s'"
proof (induction ops arbitrary: s)
  case (Cons op ops)
  then show ?case using plain_op_keeps [OF Cons.prems, of op "\<lambda>_ _ _. None"] by (cases "op_plain op") auto
qed simp

interpretation scripts: task_entries "script_entries prog" for prog
  by unfold_locales (simp add: script_entries_def run_script_keeps)

section \<open>Round robin\<close>

text \<open>A time slice that has ended: the next pass of the scheduler must pick another task.\<close>

definition sched_expire :: "sched_state \<Rightarrow> sched_state" where
  "sched_expire s = clks_sched_maybe_reschedule (s\<lparr>clks_reschedule_requested := True\<rparr>)"

definition ring_distance :: "nat \<Rightarrow> nat \<Rightarrow> nat \<Rightarrow> nat" where
  "ring_distance n i j = (if i \<le> j then j - i else j + n - i)"

lemma ring_distance_less: "i < n \<Longrightarrow> j < n \<Longrightarrow> ring_distance n i j < n"
  by (auto simp: ring_distance_def)

lemma ring_distance_reach: "i < n \<Longrightarrow> j < n \<Longrightarrow> (i + ring_distance n i j) mod n = j"
  by (simp add: ring_distance_def)

lemma ring_distance_step:
  assumes "i < n" "j < n" "0 < k" "k \<le> ring_distance n i j"
  shows "ring_distance n ((i + k) mod n) j = ring_distance n i j - k"
proof (cases "i + k < n")
  case True
  then have "(i + k) mod n = i + k" by simp
  with True assms show ?thesis by (simp add: ring_distance_def split: if_splits)
next
  case False
  with assms have "i + k < 2 * n" using ring_distance_less [OF assms(1,2)] by linarith
  with False have "(i + k) mod n = i + k - n" by (simp add: mod_if)
  with False assms show ?thesis by (auto simp: ring_distance_def split: if_splits)
qed

lemma next_runnable_candidates:
  assumes "sched_mem_ok s" "from < clks_task_count s"
  shows "map (\<lambda>i. add32 from i mod clks_task_count s) [1..<Suc (clks_task_count s)] =
    map (\<lambda>i. (from + i) mod clks_task_count s) [1..<Suc (clks_task_count s)]"
  using sched_count_bound [OF assms(1)] assms(2) by (auto simp: add32_def)

text \<open>The first runnable task after \<open>from\<close>, no further away than any runnable task.\<close>

lemma next_runnable_first:
  assumes "sched_mem_ok s" "from < clks_task_count s" "t < clks_task_count s"
    "clks_sched_task_runnable (task_of s t)" "t \<noteq> from"
  shows "\<exists>k. 0 < k \<and> k \<le> ring_distance (clks_task_count s) from t \<and>
    clks_sched_next_runnable_task from s = (from + k) mod clks_task_count s \<and>
    clks_sched_task_runnable (task_of s ((from + k) mod clks_task_count s)) \<and>
    (\<forall>j. 0 < j \<and> j < k \<longrightarrow> \<not> clks_sched_task_runnable (task_of s ((from + j) mod clks_task_count s)))"
proof -
  let ?n = "clks_task_count s"
  let ?xs = "map (\<lambda>i. (from + i) mod ?n) [1..<Suc ?n]"
  let ?P = "\<lambda>idx. clks_sched_task_runnable (task_of s idx)"
  define d where "d = ring_distance ?n from t"
  have d: "0 < d" "d < ?n" "(from + d) mod ?n = t"
    using ring_distance_reach [OF assms(2,3)] ring_distance_less [OF assms(2,3)] assms
    by (auto simp: d_def ring_distance_def)
  have nth: "?xs ! i = (from + Suc i) mod ?n" if "i < ?n" for i
    using that by (simp add: nth_append del: upt_Suc)
  have len: "length ?xs = ?n" by simp
  have dt: "?P (?xs ! (d - 1))" using d nth [of "d - 1"] assms(4) by simp
  then have "find ?P ?xs \<noteq> None"
    using d len by (auto simp: find_None_iff in_set_conv_nth simp del: upt_Suc)
  then obtain x where x: "find ?P ?xs = Some x" by blast
  have nx: "clks_sched_next_runnable_task from s = x"
    unfolding clks_sched_next_runnable_task_def next_runnable_candidates [OF assms(1,2)] x
    using assms(2) by simp
  from x obtain i where i: "i < ?n" "?P (?xs ! i)" "x = ?xs ! i" "\<forall>j<i. \<not> ?P (?xs ! j)"
    using len by (auto simp: find_Some_iff simp del: upt_Suc)
  moreover have "i \<le> d - 1" using i(4) dt by (meson not_less)
  moreover have "\<forall>j. 0 < j \<and> j < Suc i \<longrightarrow> \<not> ?P ((from + j) mod ?n)"
  proof (intro allI impI)
    fix j assume "0 < j \<and> j < Suc i"
    then have j: "j - 1 < i" "Suc (j - 1) = j" by auto
    then have "?xs ! (j - 1) = (from + j) mod ?n"
      using nth [of "j - 1"] i(1) by (metis less_trans)
    with i(4) j(1) show "\<not> ?P ((from + j) mod ?n)" by metis
  qed
  ultimately show ?thesis
    using d(1) nth [of i] nx i(1-3) unfolding d_def [symmetric]
    by (intro exI [of _ "Suc i"] conjI) (simp_all del: upt_Suc)
qed

lemma task_of_switch_to:
  assumes "sched_mem_ok s" "clks_current_task s < clks_task_count s" "j < clks_task_count s"
  shows "t_entry (task_of (clks_sched_switch_to n s) j) = t_entry (task_of s j)"
    "t_run_count (task_of (clks_sched_switch_to n s) j) = t_run_count (task_of s j)"
    "t_wake_tick (task_of (clks_sched_switch_to n s) j) = t_wake_tick (task_of s j)"
    "t_state (task_of (clks_sched_switch_to n s) j) =
      (if n \<ge> clks_task_count s \<or> n = clks_current_task s then t_state (task_of s j)
       else if j = n then TASK_RUNNING
       else if j = clks_current_task s \<and> t_state (task_of s j) = TASK_RUNNING then TASK_READY
       else t_state (task_of s j))"
  using assms by (auto simp: clks_sched_switch_to_def Let_def task_of_set_task)

lemma expire_effect:
  assumes "sched_inv s" "clks_task_count s \<noteq> 0"
  shows "sched_inv (sched_expire s)" "clks_task_count (sched_expire s) = clks_task_count s"
    "clks_current_task (sched_expire s) = clks_sched_next_runnable_task (clks_current_task s) s"
    "j < clks_task_count s \<Longrightarrow> clks_sched_task_runnable (task_of s j) \<Longrightarrow>
      clks_sched_task_runnable (task_of (sched_expire s) j)"
proof -
  note m = sched_inv_mem [OF assms(1)]
  note c = sched_inv_current [OF assms]
  let ?r = "s\<lparr>clks_reschedule_requested := False\<rparr>"
  have nr: "clks_sched_next_runnable_task c (s\<lparr>clks_reschedule_requested := b\<rparr>) =
      clks_sched_next_runnable_task c s" for c b
    by (simp add: clks_sched_next_runnable_task_def)
  let ?n = "clks_sched_next_runnable_task (clks_current_task s) s"
  have n: "?n < clks_task_count s"
    using assms c by (auto simp: clks_sched_next_runnable_task_def dest!: find_Some_in split: option.splits)
  have e: "sched_expire s = clks_sched_switch_to ?n
      (set_task (clks_current_task s) (\<lambda>t. t\<lparr>t_remaining_ticks := t_time_slice_ticks t\<rparr>) ?r)"
    using assms by (simp add: sched_expire_def clks_sched_maybe_reschedule_def Let_def nr)
  show "sched_inv (sched_expire s)" using maybe_reschedule_inv [of "s\<lparr>clks_reschedule_requested := True\<rparr>"] assms
    by (simp add: sched_expire_def)
  show "clks_task_count (sched_expire s) = clks_task_count s" by (simp add: sched_expire_def)
  show "clks_current_task (sched_expire s) = ?n" using n by (simp add: e switch_to_current)
  show "clks_sched_task_runnable (task_of (sched_expire s) j)"
    if "j < clks_task_count s" "clks_sched_task_runnable (task_of s j)"
    using that m c by (auto simp: e clks_sched_task_runnable_def clks_sched_state_runnable_def
        task_of_switch_to task_of_set_task)
qed

section \<open>Properties\<close>

text \<open>The scheduler before \<open>clks_scheduler_init\<close>: the static variables are zero.\<close>

definition sched_boot :: "heap_state \<Rightarrow> sched_state" where
  "sched_boot h = \<lparr>sched_heap = h, sched_tables = (\<lambda>_. []), clks_tasks = None, clks_task_count = 0,
     clks_task_live_count = 0, clks_task_capacity = 0, clks_current_task = 0,
     clks_total_timer_ticks = 0, clks_context_switch_count = 0, clks_yield_count = 0,
     clks_wakeup_count = 0, clks_dispatch_active = False, clks_reschedule_requested = False,
     clks_scheduler_online = False\<rparr>"

fun sched_exec_list :: "task_entries_sem \<Rightarrow> sched_op list \<Rightarrow> sched_state \<Rightarrow> sched_state option" where
  "sched_exec_list ent [] s = Some s"
| "sched_exec_list ent (op # ops) s = Option.bind (sched_exec ent op s) (sched_exec_list ent ops)"

lemma sched_boot_inv: "heap_live h L \<Longrightarrow> sched_inv (sched_boot h)"
  by (auto simp: sched_boot_def sched_inv_def sched_mem_ok_def)

lemma exec_list_keeps:
  assumes "task_entries ent"
  shows "sched_inv s \<Longrightarrow> \<forall>op \<in> set ops. op_legal op \<Longrightarrow>
    \<exists>s'. sched_exec_list ent ops s = Some s' \<and> sched_inv s'"
proof (induction ops arbitrary: s)
  case (Cons op ops)
  from task_entries.exec_keeps [OF assms Cons.prems(1), of op] Cons.prems(2)
  obtain s1 where "sched_exec ent op s = Some s1" "sched_inv s1" by auto
  with Cons show ?case by auto
qed simp

lemma sched_live_card:
  assumes "sched_inv s" "clks_task_count s \<noteq> 0"
  shows "clks_task_live_count s = card {i. i < clks_task_count s \<and> t_state (task_of s i) \<noteq> TASK_UNUSED}"
proof -
  note m = sched_inv_mem [OF assms(1)]
  have "clks_task_live_count s = length (filter task_used (sched_tasks s))"
    using assms by (simp add: sched_inv_def tasks_ok_def)
  also have "\<dots> = card {i. i < length (sched_tasks s) \<and> task_used (sched_tasks s ! i)}"
    by (rule length_filter_conv_card)
  also have "{i. i < length (sched_tasks s) \<and> task_used (sched_tasks s ! i)} =
      {i. i < clks_task_count s \<and> t_state (task_of s i) \<noteq> TASK_UNUSED}"
    using m by (auto simp: sched_tasks_length task_of_nth task_used_def)
  finally show ?thesis .
qed




text \<open>What waking, accounting and rescheduling do to the state of one task.\<close>

lemma wake_one_task:
  assumes "sched_mem_ok s" "i < clks_task_count s" "j < clks_task_count s"
  shows "task_of (sched_wake_one tick i s) j =
    (if j = i \<and> t_state (task_of s i) = TASK_SLEEPING \<and> t_wake_tick (task_of s i) \<le> tick
     then (task_of s j)\<lparr>t_wake_tick := 0, t_state := TASK_READY,
            t_remaining_ticks := t_time_slice_ticks (task_of s j)\<rparr>
     else task_of s j)"
  using assms by (auto simp: sched_wake_one_def task_of_set_task)

lemma wake_one_mem [simp]: "sched_mem_ok (sched_wake_one tick i s) = sched_mem_ok s"
  by (simp add: sched_wake_one_def)

lemma wake_fold_task:
  assumes "sched_mem_ok s" "j < clks_task_count s" "\<forall>i \<in> set is. i < clks_task_count s"
  shows "task_of (fold (sched_wake_one tick) is s) j =
    (if j \<in> set is \<and> t_state (task_of s j) = TASK_SLEEPING \<and> t_wake_tick (task_of s j) \<le> tick
     then (task_of s j)\<lparr>t_wake_tick := 0, t_state := TASK_READY,
            t_remaining_ticks := t_time_slice_ticks (task_of s j)\<rparr>
     else task_of s j)"
  using assms
proof (induction "is" arbitrary: s)
  case (Cons i "is")
  then show ?case by (auto simp: wake_one_task)
qed simp

lemma wake_sleepers_task:
  "sched_mem_ok s \<Longrightarrow> j < clks_task_count s \<Longrightarrow> task_of (clks_sched_wake_sleepers tick s) j =
    (if t_state (task_of s j) = TASK_SLEEPING \<and> t_wake_tick (task_of s j) \<le> tick
     then (task_of s j)\<lparr>t_wake_tick := 0, t_state := TASK_READY,
            t_remaining_ticks := t_time_slice_ticks (task_of s j)\<rparr>
     else task_of s j)"
  by (simp add: clks_sched_wake_sleepers_def wake_fold_task)

lemma account_tick_frame [simp]:
  "clks_task_count (clks_sched_account_current_tick s) = clks_task_count s"
  "clks_dispatch_active (clks_sched_account_current_tick s) = clks_dispatch_active s"
  by (simp_all add: clks_sched_account_current_tick_def Let_def)

lemma account_tick_task:
  assumes "sched_inv s" "j < clks_task_count s"
  shows "t_state (task_of (clks_sched_account_current_tick s) j) = t_state (task_of s j)"
    "t_wake_tick (task_of (clks_sched_account_current_tick s) j) = t_wake_tick (task_of s j)"
  using assms sched_inv_current [OF assms(1)] sched_inv_mem [OF assms(1)]
  by (auto simp: clks_sched_account_current_tick_def Let_def task_of_set_task)

lemma next_runnable_less:
  assumes "sched_inv s" "clks_task_count s \<noteq> 0"
  shows "clks_sched_next_runnable_task (clks_current_task s) s < clks_task_count s"
  using assms sched_inv_current [OF assms]
  by (auto simp: clks_sched_next_runnable_task_def dest!: find_Some_in split: option.splits)

lemma maybe_reschedule_task:
  assumes "sched_inv s" "j < clks_task_count s"
  shows "t_state (task_of s j) = TASK_SLEEPING \<Longrightarrow>
      t_state (task_of (clks_sched_maybe_reschedule s) j) = TASK_SLEEPING"
    "clks_sched_state_runnable (t_state (task_of s j)) \<Longrightarrow>
      clks_sched_state_runnable (t_state (task_of (clks_sched_maybe_reschedule s) j))"
    "t_wake_tick (task_of (clks_sched_maybe_reschedule s) j) = t_wake_tick (task_of s j)"
proof -
  note m = sched_inv_mem [OF assms(1)]
  have nz: "clks_task_count s \<noteq> 0" using assms(2) by simp
  note c = sched_inv_current [OF assms(1) nz]
  let ?r = "s\<lparr>clks_reschedule_requested := False\<rparr>"
  let ?n = "clks_sched_next_runnable_task (clks_current_task s) ?r"
  have sl: "?n \<noteq> j" if "t_state (task_of s j) = TASK_SLEEPING"
    using next_runnable_cases [of "clks_current_task s" ?r] that sched_inv_task [OF assms]
    by (auto simp: clks_sched_task_runnable_def clks_sched_state_runnable_def task_ok_def)
  show "t_state (task_of (clks_sched_maybe_reschedule s) j) = TASK_SLEEPING"
    if "t_state (task_of s j) = TASK_SLEEPING"
    using that sl m c assms(2)
    by (auto simp: clks_sched_maybe_reschedule_def Let_def task_of_switch_to task_of_set_task)
  show "clks_sched_state_runnable (t_state (task_of (clks_sched_maybe_reschedule s) j))"
    if "clks_sched_state_runnable (t_state (task_of s j))"
    using that m c assms(2)
    by (auto simp: clks_sched_maybe_reschedule_def Let_def task_of_switch_to task_of_set_task
        clks_sched_state_runnable_def)
  show "t_wake_tick (task_of (clks_sched_maybe_reschedule s) j) = t_wake_tick (task_of s j)"
    using m c assms(2)
    by (auto simp: clks_sched_maybe_reschedule_def Let_def task_of_switch_to task_of_set_task)
qed

text \<open>
  Sleeping: a task that is put to sleep until a tick stays asleep on every timer tick before it,
  keeping its wake time, and is runnable again after the first timer tick that reaches it, also when
  the tick arrives while an entry is being dispatched.
\<close>

theorem sleep_until_wake_tick:
  assumes "sched_inv s" "i \<noteq> 0" "clks_sched_task_slot_used i s"
  shows "\<exists>s1. clks_scheduler_sleep_task_until i w s = (True, s1) \<and> sched_inv s1 \<and>
    (\<forall>tick < w. t_state (task_of (clks_scheduler_on_timer_tick tick s1) i) = TASK_SLEEPING \<and>
       t_wake_tick (task_of (clks_scheduler_on_timer_tick tick s1) i) = w) \<and>
    (\<forall>tick \<ge> w. clks_sched_state_runnable (t_state (task_of (clks_scheduler_on_timer_tick tick s1) i)) \<and>
       t_wake_tick (task_of (clks_scheduler_on_timer_tick tick s1) i) = 0)"
proof -
  obtain s1 where s1: "clks_scheduler_sleep_task_until i w s = (True, s1)"
    using assms(2,3) by (simp add: clks_scheduler_sleep_task_until_def Let_def)
  note m = sched_inv_mem [OF assms(1)]
  have i: "i < clks_task_count s" using assms(3) m by (simp add: slot_used_iff)
  have inv: "sched_inv s1" using sleep_task_inv [OF assms(1), of i w] s1 by simp
  have c: "clks_task_count s1 = clks_task_count s"
    and t: "t_state (task_of s1 i) = TASK_SLEEPING" "t_wake_tick (task_of s1 i) = w"
    using s1 assms i m
    by (auto simp: clks_scheduler_sleep_task_until_def Let_def task_of_set_task split: if_splits)
  have tick: "t_state (task_of (clks_scheduler_on_timer_tick tick s1) i) = TASK_SLEEPING \<and>
      t_wake_tick (task_of (clks_scheduler_on_timer_tick tick s1) i) = w" if "tick < w" for tick
  proof -
    define s2 where "s2 = clks_sched_wake_sleepers tick (s1\<lparr>clks_total_timer_ticks := tick\<rparr>)"
    have s2: "sched_inv s2" "clks_task_count s2 = clks_task_count s" "task_of s2 i = task_of s1 i"
      using wake_sleepers_inv [of "s1\<lparr>clks_total_timer_ticks := tick\<rparr>"] inv c i t that
        wake_sleepers_task [of "s1\<lparr>clks_total_timer_ticks := tick\<rparr>" i tick] sched_inv_mem [OF inv]
      by (simp_all add: s2_def)
    have *: "clks_scheduler_on_timer_tick tick s1 = (if clks_dispatch_active s2 then s2
        else clks_sched_maybe_reschedule (clks_sched_account_current_tick s2))"
      using i c by (simp add: clks_scheduler_on_timer_tick_def Let_def s2_def)
    show ?thesis
      using maybe_reschedule_task [OF account_tick_inv [OF s2(1)], of i] account_tick_task [OF s2(1), of i]
        s2 i t by (simp add: *)
  qed
  have wake: "clks_sched_state_runnable (t_state (task_of (clks_scheduler_on_timer_tick tick s1) i)) \<and>
      t_wake_tick (task_of (clks_scheduler_on_timer_tick tick s1) i) = 0" if "w \<le> tick" for tick
  proof -
    define s2 where "s2 = clks_sched_wake_sleepers tick (s1\<lparr>clks_total_timer_ticks := tick\<rparr>)"
    have s2: "sched_inv s2" "clks_task_count s2 = clks_task_count s" "t_wake_tick (task_of s2 i) = 0"
      "clks_sched_state_runnable (t_state (task_of s2 i))"
      using wake_sleepers_inv [of "s1\<lparr>clks_total_timer_ticks := tick\<rparr>"] inv c i t that
        wake_sleepers_task [of "s1\<lparr>clks_total_timer_ticks := tick\<rparr>" i tick] sched_inv_mem [OF inv]
      by (simp_all add: s2_def clks_sched_state_runnable_def)
    have *: "clks_scheduler_on_timer_tick tick s1 = (if clks_dispatch_active s2 then s2
        else clks_sched_maybe_reschedule (clks_sched_account_current_tick s2))"
      using i c by (simp add: clks_scheduler_on_timer_tick_def Let_def s2_def)
    show ?thesis
      using maybe_reschedule_task [OF account_tick_inv [OF s2(1)], of i] account_tick_task [OF s2(1), of i]
        s2 i t by (simp add: *)
  qed
  show ?thesis using s1 inv tick wake by blast
qed

text \<open>A small scheduler for the witnesses: \<open>n\<close> descriptors in a table of their size.\<close>

definition tiny_task :: "nat \<Rightarrow> clks_task_state \<Rightarrow> nat option \<Rightarrow> clks_task_descriptor" where
  "tiny_task i st e = zero_task\<lparr>t_id := i, t_state := st, t_time_slice_ticks := 4,
     t_remaining_ticks := 4, t_entry := e\<rparr>"

definition tiny_heap :: "nat \<Rightarrow> heap_state" where
  "tiny_heap n = (case clks_kmalloc (n * SIZEOF_TASK_DESCRIPTOR) clks_heap_init of
     Some (_, h) \<Rightarrow> h | None \<Rightarrow> clks_heap_init)"

definition tiny_sched :: "clks_task_descriptor list \<Rightarrow> nat \<Rightarrow> sched_state" where
  "tiny_sched ts cur = (sched_boot (tiny_heap (length ts)))\<lparr>clks_tasks := Some 40,
     sched_tables := (\<lambda>_. [])(40 := ts), clks_task_count := length ts,
     clks_task_capacity := length ts, clks_task_live_count := length (filter task_used ts),
     clks_current_task := cur, clks_scheduler_online := True\<rparr>"

lemma kmalloc_init:
  assumes "0 < k" "k < 100000"
  shows "\<exists>h. clks_kmalloc k clks_heap_init = Some (Some 40, h)"
proof -
  have "clks_heap_align_up k \<le> k + 15"
    using assms align_up_small [of k] by (simp add: USIZE_RANGE_def)
  with assms show ?thesis
    by (simp add: clks_kmalloc_def clks_heap_init_def heap_scan.simps CLKS_HEAP_ARENA_SIZE_def
        HEAP_HEADER_SIZE_def add64_def USIZE_RANGE_def)
qed

lemma tiny_sched_inv:
  assumes "cur < length ts" "length ts < 800" "\<forall>i < length ts. task_ok cur i (ts ! i)"
  shows "sched_inv (tiny_sched ts cur)"
proof -
  let ?k = "length ts * SIZEOF_TASK_DESCRIPTOR"
  have k: "0 < ?k" "?k < 100000" using assms by (auto simp: SIZEOF_TASK_DESCRIPTOR_def)
  obtain h where h: "clks_kmalloc ?k clks_heap_init = Some (Some 40, h)" using kmalloc_init [OF k] by blast
  from heap.malloc_some [OF heap_run_live [OF run_init] h] k
  obtain sz where "heap_live h (Map.empty(40 \<mapsto> sz))" "?k \<le> sz" by (auto simp: USIZE_RANGE_def)
  with h have "\<exists>L n. heap_live (tiny_heap (length ts)) L \<and> L 40 = Some n \<and> ?k \<le> n"
    by (auto simp: tiny_heap_def intro!: exI [of _ "Map.empty(40 \<mapsto> sz)"])
  then have "sched_mem_ok (tiny_sched ts cur)"
    by (simp add: sched_mem_ok_def tiny_sched_def sched_boot_def)
  moreover have "sched_tasks (tiny_sched ts cur) = ts" by (simp add: sched_tasks_def tiny_sched_def)
  ultimately show ?thesis using assms by (auto simp: sched_inv_def tasks_ok_def tiny_sched_def)
qed

lemma tiny_sched_simps [simp]:
  "clks_task_count (tiny_sched ts cur) = length ts"
  "clks_current_task (tiny_sched ts cur) = cur"
  "clks_dispatch_active (tiny_sched ts cur) = False"
  "clks_reschedule_requested (tiny_sched ts cur) = False"
  "clks_tasks (tiny_sched ts cur) = Some 40"
  "clks_scheduler_online (tiny_sched ts cur) = True"
  "task_of (tiny_sched ts cur) i = ts ! i"
  by (simp_all add: tiny_sched_def sched_boot_def task_of_def get_task_def task_ref_def)

lemma tiny_task_simps [simp]:
  "t_id (tiny_task i st e) = i" "t_state (tiny_task i st e) = st" "t_entry (tiny_task i st e) = e"
  "t_time_slice_ticks (tiny_task i st e) = 4" "t_remaining_ticks (tiny_task i st e) = 4"
  "t_run_count (tiny_task i st e) = 0"
  by (simp_all add: tiny_task_def zero_task_def)

definition tiny_tasks :: "clks_task_descriptor list" where
  "tiny_tasks = [tiny_task 0 TASK_READY None, tiny_task 1 TASK_READY (Some 1),
     tiny_task 2 TASK_READY (Some 2), tiny_task 3 TASK_READY (Some 3), tiny_task 4 TASK_READY None]"

lemma tiny_tasks_inv: "sched_inv (tiny_sched tiny_tasks 1)"
  by (rule tiny_sched_inv)
    (auto simp: tiny_tasks_def task_ok_def task_used_def clks_sched_state_runnable_def less_Suc_eq)

theorem sleep_until_wake_tick_witness:
  "t_state (task_of (clks_scheduler_on_timer_tick 9
     (snd (clks_scheduler_sleep_task_until 2 10 (tiny_sched tiny_tasks 1)))) 2) = TASK_SLEEPING"
proof -
  have "clks_sched_task_slot_used 2 (tiny_sched tiny_tasks 1)"
    by (simp add: clks_sched_task_slot_used_def) (simp add: tiny_tasks_def)
  from sleep_until_wake_tick [OF tiny_tasks_inv _ this, of 10] show ?thesis by auto
qed


text \<open>
  A pass over the ready tasks when the entries return without calling the scheduler, nobody sleeps
  and no time slice has ended.
\<close>

definition sched_calm :: "sched_state \<Rightarrow> bool" where
  "sched_calm s \<longleftrightarrow> sched_inv s \<and> \<not> clks_dispatch_active s \<and> \<not> clks_reschedule_requested s \<and>
     (\<forall>j < clks_task_count s. t_state (task_of s j) \<noteq> TASK_SLEEPING)"

abbreviation idle_entries :: task_entries_sem where
  "idle_entries \<equiv> \<lambda>_ _ s. Some s"

lemma switch_to_resched [simp]:
  "clks_reschedule_requested (clks_sched_switch_to n s) = clks_reschedule_requested s"
  by (simp add: clks_sched_switch_to_def Let_def)

lemma switch_to_mem [simp]: "sched_mem_ok (clks_sched_switch_to n s) = sched_mem_ok s"
  by (simp add: clks_sched_switch_to_def Let_def)

lemma idle_task_entries: "task_entries idle_entries"
  by unfold_locales simp

lemma task_ref_simps [simp]:
  "task_ref (s\<lparr>clks_dispatch_active := b\<rparr>) i = task_ref s i"
  "task_ref (s\<lparr>clks_reschedule_requested := b\<rparr>) i = task_ref s i"
  by (simp_all add: task_ref_def)

lemma get_task_ref: "task_ref s i = task_ref s' i \<Longrightarrow> get_task s (task_ref s' i) = task_of s i"
  by (simp add: task_of_def)

lemma put_task_ref: "task_ref s i = task_ref s' i \<Longrightarrow> put_task (task_ref s' i) f s = set_task i f s"
  by (simp add: set_task_def)

lemma run_task_calm:
  assumes "sched_calm s" "i < clks_task_count s" "clks_sched_task_runnable (task_of s i)"
  shows "\<exists>s'. clks_sched_run_task idle_entries i tick s = Some s' \<and> sched_calm s' \<and>
    clks_task_count s' = clks_task_count s \<and> clks_current_task s' = i \<and>
    (\<forall>j < clks_task_count s.
       clks_sched_task_runnable (task_of s' j) = clks_sched_task_runnable (task_of s j) \<and>
       t_run_count (task_of s' j) = t_run_count (task_of s j) + (if j = i then 1 else 0))"
proof -
  have inv: "sched_inv s" and fl: "\<not> clks_dispatch_active s" "\<not> clks_reschedule_requested s"
    using assms(1) by (simp_all add: sched_calm_def)
  note m = sched_inv_mem [OF inv]
  have c: "clks_current_task s < clks_task_count s" using sched_inv_current [OF inv] assms(2) by simp
  define s1 where "s1 = (if t_state (task_of s i) = TASK_READY then clks_sched_switch_to i s else s)"
  let ?f = "\<lambda>t. t\<lparr>t_state := TASK_RUNNING, t_run_count := t_run_count t + 1, t_last_run_tick := tick\<rparr>"
  define s' where "s' = set_task i (\<lambda>t. t\<lparr>t_state := TASK_READY\<rparr>)
    ((set_task i ?f s1)\<lparr>clks_dispatch_active := False\<rparr>)"
  have s1: "clks_task_count s1 = clks_task_count s" "sched_mem_ok s1" "task_ref s1 i = task_ref s i"
    "\<not> clks_reschedule_requested s1" "clks_current_task s1 = i"
    using m assms(2,3) fl switch_to_current [of i s] sched_inv_task [OF inv assms(2)]
    by (auto simp: s1_def clks_sched_task_runnable_def clks_sched_state_runnable_def task_ok_def)
  have r: "task_ref s i = task_ref s1 i" by (simp add: s1(3))
  have r1: "get_task s (task_ref s1 i) = task_of s i" by (simp add: r [symmetric] task_of_def)
  obtain e where e: "t_entry (task_of s i) = Some e" using assms(3) by (auto simp: clks_sched_task_runnable_def)
  have e1: "t_entry (task_of s1 i) = Some e"
    using m c assms(2) e by (simp add: s1_def task_of_switch_to)
  have ns: "clks_sched_maybe_reschedule s' = s'"
    using s1 by (simp add: clks_sched_maybe_reschedule_def s'_def)
  have run: "clks_sched_run_task idle_entries i tick s = Some s'"
    using assms(2,3) s1(1,2) e1 ns unfolding clks_sched_run_task_def Let_def r r1 s1_def [symmetric]
    by (simp add: put_task_ref get_task_ref task_of_set_task s'_def)
  have t: "task_of s' j = (if j = i then (?f (task_of s1 i))\<lparr>t_state := TASK_READY\<rparr> else task_of s1 j)"
    if "j < clks_task_count s" for j
    using that assms(2) s1 by (simp add: s'_def task_of_set_task)
  have st: "t_entry (task_of s1 j) = t_entry (task_of s j)"
    "t_run_count (task_of s1 j) = t_run_count (task_of s j)"
    "clks_sched_state_runnable (t_state (task_of s1 j)) = clks_sched_state_runnable (t_state (task_of s j))"
    if "j < clks_task_count s" for j
    using that m c assms(3)
    by (auto simp: s1_def task_of_switch_to clks_sched_state_runnable_def clks_sched_task_runnable_def)
  have "sched_inv s'"
    using task_entries.run_task_keeps [OF idle_task_entries inv, of i tick] run by simp
  moreover have "t_state (task_of s' j) \<noteq> TASK_SLEEPING" if "j < clks_task_count s" for j
    using that m c assms(1) by (auto simp: t s1_def task_of_switch_to sched_calm_def)
  moreover have "clks_task_count s' = clks_task_count s" "clks_current_task s' = i"
    "\<not> clks_dispatch_active s'" "\<not> clks_reschedule_requested s'"
    using s1 by (simp_all add: s'_def)
  ultimately show ?thesis
    using run t st assms(2,3)
    by (intro exI [of _ s']) (auto simp: sched_calm_def clks_sched_task_runnable_def clks_sched_state_runnable_def)
qed

lemma wake_sleepers_none:
  assumes "\<forall>j < clks_task_count s. t_state (task_of s j) \<noteq> TASK_SLEEPING"
  shows "clks_sched_wake_sleepers tick s = s"
proof -
  have "\<forall>i \<in> set is. t_state (task_of s i) \<noteq> TASK_SLEEPING \<Longrightarrow> fold (sched_wake_one tick) is s = s" for "is"
    by (induction "is") (simp_all add: sched_wake_one_def)
  with assms show ?thesis by (simp add: clks_sched_wake_sleepers_def)
qed

text \<open>One step of the dispatch loop.\<close>

lemma dispatch_loop_step:
  assumes "i < clks_task_count s" "0 < b" "clks_current_task s + i < 4294967296"
  shows "sched_dispatch_loop ent tick i b s =
    (let idx = (clks_current_task s + i) mod clks_task_count s in
     if idx = 0 \<or> \<not> clks_sched_task_runnable (task_of s idx) then sched_dispatch_loop ent tick (Suc i) b s
     else (case clks_sched_run_task ent idx tick s of None \<Rightarrow> None
           | Some s' \<Rightarrow> sched_dispatch_loop ent tick (Suc i) (b - 1) s'))"
  using assms by (subst sched_dispatch_loop.simps) (simp add: Let_def add32_def cong: option.case_cong)

lemma dispatch_loop_done:
  "clks_task_count s \<le> i \<Longrightarrow> sched_dispatch_loop ent tick i b s = Some (b, s)"
  by (subst sched_dispatch_loop.simps) simp

text \<open>
  The tasks of the kernel after boot with one process: the idle task in slot 0, three kernel tasks
  with entries, and a task without an entry; the first kernel task is the current one.
\<close>

definition three_ready :: "sched_state \<Rightarrow> bool" where
  "three_ready s \<longleftrightarrow> sched_calm s \<and> clks_task_count s = 5 \<and> clks_current_task s = 1 \<and>
     clks_sched_task_runnable (task_of s 1) \<and> clks_sched_task_runnable (task_of s 2) \<and>
     clks_sched_task_runnable (task_of s 3) \<and> \<not> clks_sched_task_runnable (task_of s 4)"

lemma dispatch_pass_three_ready:
  assumes "three_ready s"
  shows "\<exists>s'. clks_scheduler_dispatch_ready idle_entries tick s = Some s' \<and> three_ready s' \<and>
    t_run_count (task_of s' 1) = t_run_count (task_of s 1) + 2 \<and>
    t_run_count (task_of s' 2) = t_run_count (task_of s 2) + 1 \<and>
    t_run_count (task_of s' 3) = t_run_count (task_of s 3)"
proof -
  note three = assms [unfolded three_ready_def]
  obtain s1 where s1: "clks_sched_run_task idle_entries 1 tick s = Some s1" "sched_calm s1"
    "clks_task_count s1 = 5" "clks_current_task s1 = 1"
    "\<forall>j < 5. clks_sched_task_runnable (task_of s1 j) = clks_sched_task_runnable (task_of s j) \<and>
       t_run_count (task_of s1 j) = t_run_count (task_of s j) + (if j = 1 then 1 else 0)"
    using run_task_calm [of s 1 tick] three by auto
  obtain s2 where s2: "clks_sched_run_task idle_entries 2 tick s1 = Some s2" "sched_calm s2"
    "clks_task_count s2 = 5" "clks_current_task s2 = 2"
    "\<forall>j < 5. clks_sched_task_runnable (task_of s2 j) = clks_sched_task_runnable (task_of s j) \<and>
       t_run_count (task_of s2 j) = t_run_count (task_of s1 j) + (if j = 2 then 1 else 0)"
    using run_task_calm [of s1 2 tick] s1 three by auto
  obtain s3 where s3: "clks_sched_run_task idle_entries 1 tick s2 = Some s3" "sched_calm s3"
    "clks_task_count s3 = 5" "clks_current_task s3 = 1"
    "\<forall>j < 5. clks_sched_task_runnable (task_of s3 j) = clks_sched_task_runnable (task_of s j) \<and>
       t_run_count (task_of s3 j) = t_run_count (task_of s2 j) + (if j = 1 then 1 else 0)"
    using run_task_calm [of s2 1 tick] s2 three by auto
  have "sched_dispatch_loop idle_entries tick 0 32 s = sched_dispatch_loop idle_entries tick 1 31 s1"
    using three s1 by (subst dispatch_loop_step) (simp_all add: Let_def)
  also have "\<dots> = sched_dispatch_loop idle_entries tick 2 30 s2"
    using three s1 s2 by (subst dispatch_loop_step) (simp_all add: Let_def numeral_2_eq_2)
  also have "\<dots> = sched_dispatch_loop idle_entries tick 3 30 s2"
    using three s2 by (subst dispatch_loop_step) (simp_all add: Let_def)
  also have "\<dots> = sched_dispatch_loop idle_entries tick 4 30 s2"
    using three s2 by (subst dispatch_loop_step) (simp_all add: Let_def)
  also have "\<dots> = sched_dispatch_loop idle_entries tick 5 29 s3"
    using three s2 s3 by (subst dispatch_loop_step) (simp_all add: Let_def)
  also have "\<dots> = Some (29, s3)" using s3 by (simp add: dispatch_loop_done)
  finally have "clks_scheduler_dispatch_ready idle_entries tick s = Some s3"
    using three wake_sleepers_none [of s tick]
    by (simp add: clks_scheduler_dispatch_ready_def CLKS_SCHED_DEFAULT_DISPATCH_BUDGET_def sched_calm_def)
  moreover have "three_ready s3" using three s3 by (simp add: three_ready_def)
  ultimately show ?thesis using s1 s2 s3 by auto
qed

fun dispatch_passes :: "task_entries_sem \<Rightarrow> u64 list \<Rightarrow> sched_state \<Rightarrow> sched_state option" where
  "dispatch_passes ent [] s = Some s"
| "dispatch_passes ent (tick # ticks) s =
     Option.bind (clks_scheduler_dispatch_ready ent tick s) (dispatch_passes ent ticks)"

text \<open>
  A ready task can starve: \<open>clks_scheduler_dispatch_ready\<close> visits \<open>(current + i) mod count\<close>, but
  each task it runs becomes the current one, so the visits move on by two slots. With the kernel
  tasks in slots 1 to 3 ready and a task without an entry in slot 4, every pass that starts with task
  1 runs task 1 twice and task 2 once, never task 3, and ends with task 1 current: in any
  number of passes (between which no time slice ends) task 3 does not run.
\<close>

theorem dispatch_ready_starves:
  assumes "three_ready s"
  shows "\<exists>s'. dispatch_passes idle_entries ticks s = Some s' \<and> three_ready s' \<and>
    clks_sched_task_runnable (task_of s' 3) \<and> t_run_count (task_of s' 3) = t_run_count (task_of s 3) \<and>
    t_run_count (task_of s' 1) = t_run_count (task_of s 1) + 2 * of_nat (length ticks)"
  using assms
proof (induction ticks arbitrary: s)
  case Nil
  then show ?case by (simp add: three_ready_def)
next
  case (Cons tick ticks)
  from dispatch_pass_three_ready [OF Cons.prems, of tick] obtain s1 where
    s1: "clks_scheduler_dispatch_ready idle_entries tick s = Some s1" "three_ready s1"
    "t_run_count (task_of s1 1) = t_run_count (task_of s 1) + 2"
    "t_run_count (task_of s1 3) = t_run_count (task_of s 3)" by blast
  from Cons.IH [OF s1(2)] s1 show ?case by (auto simp: algebra_simps)
qed

theorem dispatch_ready_starves_witness:
  "\<exists>s'. dispatch_passes idle_entries [1, 2, 3] (tiny_sched tiny_tasks 1) = Some s' \<and>
     t_run_count (task_of s' 3) = 0 \<and> t_run_count (task_of s' 1) = 6"
proof -
  have "length tiny_tasks = 5" "tiny_tasks ! 1 = tiny_task 1 TASK_READY (Some 1)"
    "tiny_tasks ! 2 = tiny_task 2 TASK_READY (Some 2)" "tiny_tasks ! 3 = tiny_task 3 TASK_READY (Some 3)"
    "tiny_tasks ! 4 = tiny_task 4 TASK_READY None" "tiny_tasks ! 0 = tiny_task 0 TASK_READY None"
    by (simp_all add: tiny_tasks_def)
  then have "three_ready (tiny_sched tiny_tasks 1)" "t_run_count (task_of (tiny_sched tiny_tasks 1) 3) = 0"
    "t_run_count (task_of (tiny_sched tiny_tasks 1) 1) = 0"
    by (auto simp: three_ready_def sched_calm_def tiny_tasks_inv [unfolded One_nat_def] clks_sched_task_runnable_def
        clks_sched_state_runnable_def less_Suc_eq numeral_eq_Suc)
  with dispatch_ready_starves [of "tiny_sched tiny_tasks 1" "[1, 2, 3]"] show ?thesis by auto
qed

text \<open>
  Setting the state \<open>UNUSED\<close> through \<open>clks_scheduler_set_task_state\<close> is accepted for every used slot but
  the first, empties the slot, and leaves \<open>clks_task_live_count\<close> as it was, one too high.
\<close>

theorem set_state_unused_miscounts:
  assumes "sched_inv s" "i < clks_task_count s" "i \<noteq> 0" "t_state (task_of s i) \<noteq> TASK_UNUSED"
    "clks_scheduler_set_task_state i TASK_UNUSED s = (ok, s')"
  shows "ok \<and> t_state (task_of s' i) = TASK_UNUSED \<and>
    clks_task_live_count s' = Suc (card {j. j < clks_task_count s' \<and> t_state (task_of s' j) \<noteq> TASK_UNUSED})"
proof -
  have u: "clks_sched_task_slot_used i s"
    using assms(2,4) sched_inv_mem [OF assms(1)] by (simp add: slot_used_iff task_used_def)
  note m = sched_inv_mem [OF assms(1)]
  let ?f = "\<lambda>t. t\<lparr>t_state := TASK_UNUSED, t_block_count := t_block_count t\<rparr>"
  have s': "ok" "s' = set_task i ?f s \<or> s' = (set_task i ?f s)\<lparr>clks_reschedule_requested := True\<rparr>"
    using assms(3,5) u by (auto simp: clks_scheduler_set_task_state_def Let_def split: if_splits)
  have t: "task_of s' j = (if j = i then ?f (task_of s i) else task_of s j)" if "j < clks_task_count s" for j
    using s'(2) that m assms(2) by (auto simp: task_of_set_task)
  have c: "clks_task_count s' = clks_task_count s" "clks_task_live_count s' = clks_task_live_count s"
    using s'(2) by auto
  let ?U = "{j. j < clks_task_count s \<and> t_state (task_of s j) \<noteq> TASK_UNUSED}"
  have "{j. j < clks_task_count s' \<and> t_state (task_of s' j) \<noteq> TASK_UNUSED} = ?U - {i}"
    unfolding c by (auto simp: t split: if_splits)
  moreover have "card ?U = Suc (card (?U - {i}))"
    using assms(2,4) by (intro card.remove) auto
  ultimately show ?thesis
    using s'(1) c sched_live_card [OF assms(1)] assms(2) t [OF assms(2)] by simp
qed

theorem set_state_unused_miscounts_witness:
  "\<exists>s'. clks_scheduler_set_task_state 2 TASK_UNUSED (tiny_sched tiny_tasks 1) = (True, s') \<and>
     clks_task_live_count s' = Suc (card {j. j < clks_task_count s' \<and> t_state (task_of s' j) \<noteq> TASK_UNUSED})"
proof -
  obtain ok s' where r: "clks_scheduler_set_task_state 2 TASK_UNUSED (tiny_sched tiny_tasks 1) = (ok, s')" by fastforce
  have "2 < clks_task_count (tiny_sched tiny_tasks 1)" "t_state (task_of (tiny_sched tiny_tasks 1) 2) \<noteq> TASK_UNUSED"
    by (simp_all add: tiny_tasks_def)
  from set_state_unused_miscounts [OF tiny_tasks_inv this(1) _ this(2) r] r show ?thesis by auto
qed

lemma set_task_other_table:
  "clks_tasks s \<noteq> None \<Longrightarrow> clks_tasks s \<noteq> Some p \<Longrightarrow> sched_tables (set_task i f s) p = sched_tables s p"
  by (auto simp: set_task_def put_task_def task_ref_def)

lemma reserve_tasks_cases:
  assumes "clks_sched_reserve_tasks n s = Some (ok, s')"
  obtains "sched_tables s' = sched_tables s" "clks_tasks s' = clks_tasks s"
    "clks_reschedule_requested s' = clks_reschedule_requested s"
  | bytes q h where "clks_kmalloc bytes (sched_heap s) = Some (Some q, h)"
    "sched_heap s' = (case clks_tasks s of None \<Rightarrow> h | Some old \<Rightarrow> clks_kfree (Some old) h)"
    "clks_tasks s' = Some q" "clks_reschedule_requested s' = clks_reschedule_requested s"
    "\<And>p. p \<noteq> q \<Longrightarrow> sched_tables s' p = sched_tables s p"
proof (cases "n \<le> clks_task_capacity s")
  case True
  with assms show ?thesis by (intro that(1)) (simp_all add: clks_sched_reserve_tasks_def)
next
  case False
  let ?c0 = "if clks_task_capacity s = 0 then CLKS_SCHED_INITIAL_TASK_CAPACITY else clks_task_capacity s"
  let ?b = "\<lambda>c. c * SIZEOF_TASK_DESCRIPTOR mod USIZE_RANGE"
  obtain c where c: "sched_double ?c0 n = Some c"
    using assms False by (cases "sched_double ?c0 n") (simp_all add: clks_sched_reserve_tasks_def)
  show ?thesis
  proof (cases "c = 0 \<or> ?b c div SIZEOF_TASK_DESCRIPTOR \<noteq> c")
    case True
    with assms False c show ?thesis by (intro that(1)) (simp_all add: clks_sched_reserve_tasks_def Let_def)
  next
    case ok: False
    have "clks_kmalloc (?b c) (sched_heap s) \<noteq> None"
    proof
      assume "clks_kmalloc (?b c) (sched_heap s) = None"
      with assms False c ok show False by (auto simp: clks_sched_reserve_tasks_def Let_def)
    qed
    then obtain r h where r: "clks_kmalloc (?b c) (sched_heap s) = Some (r, h)" by auto
    show ?thesis
    proof (cases r)
      case None
      with assms False c ok r show ?thesis
        by (intro that(1)) (auto simp: clks_sched_reserve_tasks_def Let_def)
    next
      case (Some q)
      with assms False c ok r show ?thesis
        by (intro that(2) [of "?b c" q h]) (auto simp: clks_sched_reserve_tasks_def Let_def)
    qed
  qed
qed

lemma reserve_tasks_moves:
  assumes "sched_mem_ok s" "clks_tasks s = Some old"
    "clks_sched_reserve_tasks n s = Some (ok, s')" "clks_tasks s' \<noteq> Some old"
  shows "(\<exists>L. heap_live (sched_heap s') L \<and> L old = None) \<and> sched_tables s' old = sched_tables s old \<and>
    clks_tasks s' \<noteq> None"
  using assms(3)
proof (cases rule: reserve_tasks_cases)
  case 1
  with assms show ?thesis by simp
next
  case (2 bytes q h)
  obtain L k where L: "heap_live (sched_heap s) L" "L old = Some k"
    using assms(1,2) by (auto simp: sched_mem_ok_def)
  obtain sz where sz: "L q = None" "heap_live h (L(q \<mapsto> sz))" using heap.malloc_some [OF L(1) 2(1)] by blast
  have "q \<noteq> old" using sz(1) L(2) by auto
  then have "(L(q \<mapsto> sz)) old = Some k" using L(2) by simp
  from heap.release_live [OF sz(2) this] 2(2) assms(2)
  have "heap_live (sched_heap s') ((L(q \<mapsto> sz))(old := None))" by (simp add: fun_upd_def)
  moreover have "((L(q \<mapsto> sz))(old := None)) old = None" by simp
  moreover have "sched_tables s' old = sched_tables s old" using 2(5) \<open>q \<noteq> old\<close> by metis
  ultimately show ?thesis using 2(3) by blast
qed

lemma reserve_tasks_flag:
  "clks_sched_reserve_tasks n s = Some (ok, s') \<Longrightarrow> clks_reschedule_requested s' = clks_reschedule_requested s"
  by (erule reserve_tasks_cases)

lemma find_free_slot_moves:
  assumes "sched_mem_ok s" "clks_tasks s = Some old" "clks_sched_find_free_task_slot s = Some (slot, s')"
  shows "clks_reschedule_requested s' = clks_reschedule_requested s"
    "clks_tasks s' \<noteq> Some old \<Longrightarrow> (\<exists>L. heap_live (sched_heap s') L \<and> L old = None) \<and>
      sched_tables s' old = sched_tables s old \<and> clks_tasks s' \<noteq> None"
proof -
  have *: "s' = s \<or> (\<exists>ok s1. clks_sched_reserve_tasks (add32 (clks_task_count s) 1) s = Some (ok, s1) \<and>
      (s' = s1 \<or> s' = s1\<lparr>clks_task_count := add32 (clks_task_count s1) 1\<rparr>))"
    using assms(3)
    by (auto simp: clks_sched_find_free_task_slot_def bind_eq_Some_conv split: option.splits if_splits)
  then show "clks_reschedule_requested s' = clks_reschedule_requested s" using reserve_tasks_flag by auto
  show "(\<exists>L. heap_live (sched_heap s') L \<and> L old = None) \<and>
      sched_tables s' old = sched_tables s old \<and> clks_tasks s' \<noteq> None" if "clks_tasks s' \<noteq> Some old"
    using * that assms(2) reserve_tasks_moves [OF assms(1,2)] by auto
qed

lemma add_task_shape:
  assumes "clks_scheduler_add_task_internal name ticks entry early s = Some (ok, out, s')"
  shows "s' = s \<or> (\<exists>slot s1. clks_sched_find_free_task_slot s = Some (slot, s1) \<and>
    (s' = s1 \<or> (\<exists>i f n. s' = (set_task i f s1)\<lparr>clks_task_live_count := n\<rparr>)))"
proof (cases "name = None \<or> \<not> early \<and> \<not> clks_scheduler_online s")
  case True
  with assms show ?thesis by (auto simp: clks_scheduler_add_task_internal_def split: if_splits)
next
  case False
  then have "clks_sched_find_free_task_slot s \<noteq> None"
    using assms by (cases "clks_sched_find_free_task_slot s") (auto simp: clks_scheduler_add_task_internal_def)
  then obtain slot s1 where f: "clks_sched_find_free_task_slot s = Some (slot, s1)" by auto
  show ?thesis
  proof (cases slot)
    case None
    with assms False f show ?thesis by (auto simp: clks_scheduler_add_task_internal_def)
  next
    case (Some i)
    define sl where "sl = (if ticks < CLKS_SCHED_MIN_SLICE then CLKS_SCHED_MIN_SLICE else ticks)"
    have "s' = (set_task i (\<lambda>_. zero_task\<lparr>t_id := i, t_name := clks_sched_copy_name name,
        t_state := TASK_READY, t_time_slice_ticks := sl, t_remaining_ticks := sl, t_wake_tick := 0,
        t_entry := entry\<rparr>) s1)\<lparr>clks_task_live_count := add32 (clks_task_live_count s1) 1\<rparr>"
      using assms False f Some unfolding clks_scheduler_add_task_internal_def Let_def sl_def [symmetric]
      by auto
    with f show ?thesis by blast
  qed
qed

lemma add_task_moves:
  assumes "sched_mem_ok s" "clks_tasks s = Some old"
    "clks_scheduler_add_task_internal name ticks entry early s = Some (ok, out, s')"
  shows "clks_reschedule_requested s' = clks_reschedule_requested s"
    "clks_tasks s' \<noteq> Some old \<Longrightarrow>
      (\<exists>L. heap_live (sched_heap s') L \<and> L old = None) \<and> sched_tables s' old = sched_tables s old"
proof -
  have *: "s' = s \<or> (\<exists>slot s1. clks_sched_find_free_task_slot s = Some (slot, s1) \<and>
      (s' = s1 \<or> (\<exists>i f n. s' = (set_task i f s1)\<lparr>clks_task_live_count := n\<rparr>)))"
    by (rule add_task_shape [OF assms(3)])
  then show "clks_reschedule_requested s' = clks_reschedule_requested s"
    using find_free_slot_moves(1) [OF assms(1,2)] by auto
  show "(\<exists>L. heap_live (sched_heap s') L \<and> L old = None) \<and> sched_tables s' old = sched_tables s old"
    if "clks_tasks s' \<noteq> Some old"
    using * that assms(2) find_free_slot_moves(2) [OF assms(1,2)] set_task_other_table by auto
qed

lemma add_task_count:
  assumes "sched_inv s" "clks_scheduler_add_task_internal name ticks entry early s = Some (ok, out, s')"
  shows "clks_task_count s \<le> clks_task_count s'"
proof -
  obtain r s1 where s1: "clks_sched_find_free_task_slot s = Some (r, s1)" and
    r: "case r of None \<Rightarrow> sched_tasks s1 = sched_tasks s \<and> clks_task_count s1 = clks_task_count s
     | Some i \<Rightarrow> i < clks_task_count s1 \<and>
         (if i < clks_task_count s then s1 = s \<and> i \<noteq> 0 \<and> \<not> task_used (sched_tasks s ! i)
          else i = clks_task_count s \<and> (\<forall>t. (sched_tasks s1)[i := t] = sched_tasks s @ [t]))"
    using find_free_slot_spec [OF assms(1)] by blast
  have "s' = s \<or> clks_task_count s' = clks_task_count s1"
    using assms(2) s1
    by (simp add: clks_scheduler_add_task_internal_def Let_def split: if_split_asm)
      (auto split: option.splits)
  moreover have "clks_task_count s \<le> clks_task_count s1" using r by (auto split: option.splits if_splits)
  ultimately show ?thesis by auto
qed

text \<open>
  The task pointer outlives the table: while an entry runs it may add a task, and when the table
  is full \<open>clks_sched_reserve_tasks\<close> moves it and releases the old one. \<open>clks_sched_run_task\<close> then
  reads and writes the state of the task through the pointer it took before: the \<open>READY\<close> goes to
  released memory, and the task stays \<open>RUNNING\<close> in the table in use.
\<close>

theorem run_task_writes_released_table:
  assumes "sched_inv s" "clks_tasks s = Some old" "i < clks_task_count s"
    "clks_sched_task_runnable (task_of s i)" "\<not> clks_reschedule_requested s"
    "\<And>e tick. prog e = [Op_Add (Some name) ticks entry]"
    "clks_sched_run_task (script_entries prog) i tick s = Some s'" "clks_tasks s' \<noteq> Some old"
  shows "(\<exists>L. heap_live (sched_heap s') L \<and> L old = None) \<and>
    t_state (sched_tables s' old ! i) = TASK_READY \<and>
    i < clks_task_count s' \<and> t_state (task_of s' i) = TASK_RUNNING"
proof -
  note m = sched_inv_mem [OF assms(1)]
  have c: "clks_current_task s < clks_task_count s" using sched_inv_current [OF assms(1)] assms(3) by simp
  let ?f = "\<lambda>t. t\<lparr>t_state := TASK_RUNNING, t_run_count := t_run_count t + 1, t_last_run_tick := tick\<rparr>"
  define s1 where "s1 = (if t_state (task_of s i) = TASK_READY then clks_sched_switch_to i s else s)"
  define s3 where "s3 = (set_task i ?f s1)\<lparr>clks_dispatch_active := True\<rparr>"
  have s1: "clks_task_count s1 = clks_task_count s" "sched_mem_ok s1" "task_ref s1 i = task_ref s i"
    "\<not> clks_reschedule_requested s1" "clks_current_task s1 = i" "clks_tasks s1 = Some old" "sched_inv s1"
    using m assms(1-5) switch_to_current [of i s] sched_inv_task [OF assms(1,3)]
      switch_to_inv [OF assms(1), of i] runnable_used [OF assms(4)]
    by (auto simp: s1_def clks_sched_task_runnable_def clks_sched_state_runnable_def task_ok_def)
  have r: "task_ref s i = task_ref s1 i" by (simp add: s1(3))
  have r1: "get_task s (task_ref s1 i) = task_of s i" by (simp add: r [symmetric] task_of_def)
  have s3: "sched_mem_ok s3" "clks_tasks s3 = Some old" "\<not> clks_reschedule_requested s3"
    "clks_task_count s3 = clks_task_count s" "task_of s3 i = ?f (task_of s1 i)" "task_ref s3 i = task_ref s1 i"
    using s1 assms(3) by (simp_all add: s3_def task_of_set_task)
  note e = runnable_used [OF assms(4)]
  obtain ent where ent: "t_entry (task_of s i) = Some ent" using assms(4) by (auto simp: clks_sched_task_runnable_def)
  have t1: "t_entry (task_of s1 i) = Some ent" "task_used (task_of s1 i)"
    using m c assms(3) ent e by (auto simp: s1_def task_of_switch_to task_used_def)
  have inv3: "sched_inv s3"
    using sched_inv_task [OF s1(7), of i] s1 t1 assms(3) unfolding s3_def
    by (simp, intro sched_inv_set_task) (auto simp: task_ok_def task_used_def)
  obtain ok out s4 where s4: "clks_scheduler_add_task_internal (Some name) ticks entry False s3 = Some (ok, out, s4)"
    "sched_inv s4" and ts: "if ok then \<exists>k. out = Some k \<and> k < clks_task_count s4 \<and>
       (k < clks_task_count s3 \<longrightarrow> k \<noteq> 0 \<and> \<not> task_used (sched_tasks s3 ! k)) \<and>
       t_state (task_of s4 k) = TASK_READY \<and> t_entry (task_of s4 k) = entry \<and>
       (\<forall>j < clks_task_count s3. j \<noteq> k \<longrightarrow> task_of s4 j = task_of s3 j)
     else sched_tasks s4 = sched_tasks s3"
    using add_task_spec [OF inv3, of False entry "Some name" ticks] by blast
  have i3: "i < clks_task_count s3" "task_used (sched_tasks s3 ! i)"
    using s3 assms(3) task_of_nth [OF s3(1), of i] by (simp_all add: task_used_def)
  have ti: "i < clks_task_count s4 \<and> task_of s4 i = task_of s3 i"
  proof (cases ok)
    case True
    with ts i3 have "task_of s4 i = task_of s3 i" by auto
    moreover have "clks_task_count s3 \<le> clks_task_count s4" by (rule add_task_count [OF inv3 s4(1)])
    ultimately show ?thesis using i3 by simp
  next
    case False
    with ts have "sched_tasks s4 = sched_tasks s3" by simp
    with i3 sched_tasks_length [OF s3(1)] sched_tasks_length [OF sched_inv_mem [OF s4(2)]]
    show ?thesis by (simp add: task_of_nth [OF s3(1)] task_of_nth [OF sched_inv_mem [OF s4(2)]])
  qed
  define s5 where "s5 = s4\<lparr>clks_dispatch_active := False\<rparr>"
  define s6 where "s6 = (if t_state (get_task s5 (task_ref s1 i)) = TASK_RUNNING
    then put_task (task_ref s1 i) (\<lambda>t. t\<lparr>t_state := TASK_READY\<rparr>) s5 else s5)"
  have "clks_sched_run_task (script_entries prog) i tick s = Some (clks_sched_maybe_reschedule s6)"
    using assms(3,4,6) s1(1,2) s3 t1 s4(1) unfolding clks_sched_run_task_def Let_def r r1 s1_def [symmetric]
    by (simp add: put_task_ref get_task_ref script_entries_def op_plain_def s3_def [symmetric]
        clks_scheduler_add_kernel_task_ex_id_def s5_def [symmetric] s6_def)
  moreover have "\<not> clks_reschedule_requested s6"
    using add_task_moves(1) [OF s3(1,2) s4(1)] s3(3) by (simp add: s6_def s5_def put_task_def)
  ultimately have s': "s' = s6" using assms(7) by (simp add: clks_sched_maybe_reschedule_def)
  have p: "task_ref s1 i = (old, i)" using s1(6) by (simp add: task_ref_def)
  have "clks_tasks s4 \<noteq> Some old" using assms(8) by (simp add: s' s6_def s5_def put_task_def split: if_splits)
  from add_task_moves(2) [OF s3(1,2) s4(1) this] obtain L where
    L: "heap_live (sched_heap s4) L" "L old = None" "sched_tables s4 old = sched_tables s3 old" by blast
  have len: "i < length (sched_tables s3 old)"
    using s3(1,2,4) assms(3) by (simp add: sched_mem_ok_def)
  have "t_state (sched_tables s3 old ! i) = TASK_RUNNING"
    using s3(2,5) by (simp add: task_of_def get_task_def task_ref_def)
  then have s6': "s6 = put_task (old, i) (\<lambda>t. t\<lparr>t_state := TASK_READY\<rparr>) s5"
    using L(3) by (simp add: s6_def p get_task_def s5_def)
  have "sched_heap s6 = sched_heap s4" "clks_task_count s6 = clks_task_count s4"
    "t_state (sched_tables s6 old ! i) = TASK_READY" "task_of s6 i = task_of s4 i"
    using L(3) len \<open>clks_tasks s4 \<noteq> Some old\<close> ti sched_inv_mem [OF s4(2)]
    by (auto simp: s6' s5_def put_task_def task_of_def get_task_def task_ref_def sched_mem_ok_def
        split: option.splits)
  with L ti s3(5) show ?thesis unfolding s' by auto
qed

lemma tiny_heap_second:
  "\<exists>h. clks_kmalloc 480 (tiny_heap 2) = Some (Some 320, h)"
  by (simp add: tiny_heap_def clks_kmalloc_def clks_heap_init_def heap_scan.simps CLKS_HEAP_ARENA_SIZE_def
      HEAP_HEADER_SIZE_def add64_def sub64_def USIZE_RANGE_def SIZEOF_TASK_DESCRIPTOR_def align_up_small
      heap_take_block_def clks_heap_split_block_def CLKS_HEAP_ALIGN_def Let_def)

lemma tiny_run_moves:
  "\<exists>s'. clks_sched_run_task (script_entries (\<lambda>_. [Op_Add (Some ''child'') 1 None])) 1 5
      (tiny_sched (take 2 tiny_tasks) 1) = Some s' \<and> clks_tasks s' = Some 320"
proof -
  obtain h where h: "clks_kmalloc 480 (tiny_heap 2) = Some (Some 320, h)" using tiny_heap_second by blast
  have d: "sched_double 2 3 = Some 4" by (simp add: sched_double.simps)
  show ?thesis
    by (simp add: clks_sched_run_task_def tiny_sched_def sched_boot_def tiny_tasks_def task_ref_def
        get_task_def put_task_def clks_sched_task_runnable_def clks_sched_state_runnable_def Let_def
        clks_sched_switch_to_def script_entries_def op_plain_def clks_scheduler_add_kernel_task_ex_id_def
        clks_scheduler_add_task_internal_def clks_sched_find_free_task_slot_def task_of_def
        clks_sched_reserve_tasks_def add32_def d h SIZEOF_TASK_DESCRIPTOR_def USIZE_RANGE_def
        set_task_def clks_sched_maybe_reschedule_def upt_rec numeral_2_eq_2 [symmetric])
qed

theorem run_task_writes_released_table_witness:
  "\<exists>s'. clks_sched_run_task (script_entries (\<lambda>_. [Op_Add (Some ''child'') 1 None])) 1 5
      (tiny_sched (take 2 tiny_tasks) 1) = Some s' \<and>
    t_state (sched_tables s' 40 ! 1) = TASK_READY \<and> t_state (task_of s' 1) = TASK_RUNNING"
proof -
  let ?s = "tiny_sched (take 2 tiny_tasks) 1"
  obtain s' where s': "clks_sched_run_task (script_entries (\<lambda>_. [Op_Add (Some ''child'') 1 None])) 1 5 ?s = Some s'"
    "clks_tasks s' \<noteq> Some 40" using tiny_run_moves by auto
  have "sched_inv ?s"
    by (rule tiny_sched_inv)
      (auto simp: tiny_tasks_def task_ok_def task_used_def clks_sched_state_runnable_def less_Suc_eq)
  moreover have "clks_tasks ?s = Some 40" "1 < clks_task_count ?s" "\<not> clks_reschedule_requested ?s"
    "clks_sched_task_runnable (task_of ?s 1)"
    by (simp_all, simp_all add: tiny_tasks_def clks_sched_task_runnable_def clks_sched_state_runnable_def)
  ultimately show ?thesis
    using run_task_writes_released_table [of ?s 40 1 "\<lambda>_. [Op_Add (Some ''child'') 1 None]" "''child''" 1 None 5 s']
      s' by blast
qed
end
