(* ===== verification/Clks_Ramdisk.thy ===== *)
theory Clks_Ramdisk
  imports Clks_Prelude
begin

text \<open>
  The ramdisk reader, \<open>kernel/storage/ramdisk.c\<close>: a walk over a tar image that hands each directory
  and regular file to a callback. The image is its list of bytes (\<open>image_size\<close> is its length), a
  header is read off the image at an offset, a C string in a fixed field is the bytes before its
  first NUL. The callback is a parameter that returns whether to go on and its new context. The loop
  is a \<open>partial_function\<close>: \<open>None\<close> would be a walk that does not end.
\<close>

section \<open>Headers and entries\<close>

definition CLKS_TAR_BLOCK_SIZE :: nat where
  "CLKS_TAR_BLOCK_SIZE = 512"

definition CLKS_RAMDISK_PATH_MAX :: nat where
  "CLKS_RAMDISK_PATH_MAX = 192"

record clks_tar_header =
  hdr_name :: "u8 list"
  hdr_size :: "u8 list"
  hdr_typeflag :: u8
  hdr_prefix :: "u8 list"

text \<open>\<open>(const struct clks_tar_header *)(bytes + offset)\<close>, the fields that are read.\<close>

definition tar_header_at :: "u8 list \<Rightarrow> nat \<Rightarrow> clks_tar_header" where
  "tar_header_at bytes offset =
     \<lparr>hdr_name = take 100 (drop offset bytes),
      hdr_size = take 12 (drop (offset + 124) bytes),
      hdr_typeflag = bytes ! (offset + 156),
      hdr_prefix = take 155 (drop (offset + 345) bytes)\<rparr>"

datatype clks_ramdisk_entry_type = RAMDISK_ENTRY_FILE | RAMDISK_ENTRY_DIR

text \<open>The data pointer is an offset into the image.\<close>

record clks_ramdisk_entry =
  re_type :: clks_ramdisk_entry_type
  re_path :: "u8 list"
  re_data :: "nat option"
  re_size :: nat

section \<open>Operations\<close>

definition clks_ramdisk_is_zero_block :: "u8 list \<Rightarrow> nat \<Rightarrow> bool" where
  "clks_ramdisk_is_zero_block bytes offset \<longleftrightarrow>
     list_all (\<lambda>i. bytes ! (offset + i) = 0) [0..<CLKS_TAR_BLOCK_SIZE]"

definition clks_ramdisk_field_len :: "u8 list \<Rightarrow> nat" where
  "clks_ramdisk_field_len field = length (takeWhile (\<lambda>b. b \<noteq> 0) field)"

text \<open>The two loops of the octal parser: the blanks, then the digits.\<close>

definition octal_skip :: "u8 list \<Rightarrow> u8 list" where
  "octal_skip field = dropWhile (\<lambda>b. b = 32 \<or> b = 0) field"

fun octal_loop :: "u64 \<Rightarrow> u8 list \<Rightarrow> u64 option" where
  "octal_loop v [] = Some v"
| "octal_loop v (ch # cs) =
     (if ch = 32 \<or> ch = 0 then Some v
      else if ch < 48 \<or> ch > 55 then None
      else if v > drop_bit 3 (- 1) then None
      else octal_loop (push_bit 3 v + (ucast ch - 48)) cs)"

definition clks_ramdisk_parse_octal_u64 :: "u8 list \<Rightarrow> u64 option" where
  "clks_ramdisk_parse_octal_u64 field = octal_loop 0 (octal_skip field)"

text \<open>Skipping \<open>./\<close> and \<open>/\<close> at the front, and \<open>/\<close> at the back, of a path.\<close>

fun path_skip :: "u8 list \<Rightarrow> u8 list" where
  "path_skip [] = []"
| "path_skip (c # cs) =
     (if c = 46 \<and> cs \<noteq> [] \<and> hd cs = 47 then path_skip (tl cs)
      else if c = 47 then path_skip cs
      else c # cs)"

definition path_trim :: "u8 list \<Rightarrow> u8 list" where
  "path_trim out = rev (dropWhile (\<lambda>b. b = 47) (rev out))"

definition clks_ramdisk_build_path :: "clks_tar_header \<Rightarrow> nat \<Rightarrow> u8 list option" where
  "clks_ramdisk_build_path hdr out_path_size =
     (if out_path_size = 0 then None
      else
        let prefix_len = clks_ramdisk_field_len (hdr_prefix hdr);
            name_len = clks_ramdisk_field_len (hdr_name hdr) in
        if name_len = 0 then None
        else if prefix_len \<noteq> 0 \<and> prefix_len + 1 \<ge> CLKS_RAMDISK_PATH_MAX then None
        else
          let front = (if prefix_len \<noteq> 0 then take prefix_len (hdr_prefix hdr) @ [47] else []) in
          if length front + name_len \<ge> CLKS_RAMDISK_PATH_MAX then None
          else
            let raw = front @ take name_len (hdr_name hdr);
                rest = path_skip raw in
            if length rest \<ge> out_path_size then None
            else
              let out = path_trim rest in if out = [] then None else Some out)"

type_synonym 'c ramdisk_iter_fn = "clks_ramdisk_entry \<Rightarrow> 'c \<Rightarrow> bool \<times> 'c"

text \<open>The entry of a header that is passed to the callback, when one is.\<close>

definition ramdisk_entry :: "clks_tar_header \<Rightarrow> nat \<Rightarrow> nat \<Rightarrow> clks_ramdisk_entry option" where
  "ramdisk_entry hdr payload_offset file_size =
     (case clks_ramdisk_build_path hdr CLKS_RAMDISK_PATH_MAX of
        None \<Rightarrow> None
      | Some path \<Rightarrow>
          if hdr_typeflag hdr = 53 then
            Some \<lparr>re_type = RAMDISK_ENTRY_DIR, re_path = path, re_data = None, re_size = 0\<rparr>
          else if hdr_typeflag hdr = 0 \<or> hdr_typeflag hdr = 48 then
            Some \<lparr>re_type = RAMDISK_ENTRY_FILE, re_path = path, re_data = Some payload_offset,
                  re_size = file_size\<rparr>
          else None)"

partial_function (option) ramdisk_loop ::
  "u8 list \<Rightarrow> 'c ramdisk_iter_fn \<Rightarrow> nat \<Rightarrow> 'c \<Rightarrow> (bool \<times> 'c) option" where
  "ramdisk_loop bytes iter_fn offset ctx =
     (if \<not> add64 offset CLKS_TAR_BLOCK_SIZE \<le> length bytes then Some (True, ctx)
      else if clks_ramdisk_is_zero_block bytes offset then Some (True, ctx)
      else
        let hdr = tar_header_at bytes offset in
        case clks_ramdisk_parse_octal_u64 (hdr_size hdr) of
          None \<Rightarrow> Some (False, ctx)
        | Some sz \<Rightarrow>
            let file_size = unat sz;
                payload_offset = add64 offset CLKS_TAR_BLOCK_SIZE in
            if payload_offset > length bytes then Some (False, ctx)
            else if file_size > length bytes - payload_offset then Some (False, ctx)
            else
              let r = (case ramdisk_entry hdr payload_offset file_size of
                         None \<Rightarrow> (True, ctx) | Some entry \<Rightarrow> iter_fn entry ctx) in
              if \<not> fst r then Some (False, snd r)
              else
                let aligned_size = mask_down CLKS_TAR_BLOCK_SIZE
                      (add64 file_size (CLKS_TAR_BLOCK_SIZE - 1)) in
                if add64 payload_offset aligned_size < payload_offset then Some (False, snd r)
                else ramdisk_loop bytes iter_fn (add64 payload_offset aligned_size) (snd r))"

definition clks_ramdisk_iterate ::
  "u8 list option \<Rightarrow> 'c ramdisk_iter_fn option \<Rightarrow> 'c \<Rightarrow> (bool \<times> 'c) option" where
  "clks_ramdisk_iterate img iter_fn ctx =
     (case img of None \<Rightarrow> Some (False, ctx)
      | Some bytes \<Rightarrow>
          (case iter_fn of None \<Rightarrow> Some (False, ctx)
           | Some f \<Rightarrow> ramdisk_loop bytes f 0 ctx))"

section \<open>Paths and entries\<close>

text \<open>A relative path as the file system takes it from the ramdisk.\<close>

definition ramdisk_path_ok :: "u8 list \<Rightarrow> bool" where
  "ramdisk_path_ok p \<longleftrightarrow> p \<noteq> [] \<and> length p < CLKS_RAMDISK_PATH_MAX \<and> 0 \<notin> set p \<and>
     hd p \<noteq> 47 \<and> last p \<noteq> 47 \<and> take 2 p \<noteq> [46, 47]"

text \<open>An entry whose data lies in an image of \<open>n\<close> bytes.\<close>

definition ramdisk_entry_ok :: "nat \<Rightarrow> clks_ramdisk_entry \<Rightarrow> bool" where
  "ramdisk_entry_ok n e \<longleftrightarrow> ramdisk_path_ok (re_path e) \<and>
     (case re_type e of
        RAMDISK_ENTRY_DIR \<Rightarrow> re_data e = None \<and> re_size e = 0
      | RAMDISK_ENTRY_FILE \<Rightarrow> (\<exists>off. re_data e = Some off \<and> 512 \<le> off \<and> off + re_size e \<le> n))"

lemma path_skip_suffix: "\<exists>ys. raw = ys @ path_skip raw"
proof (induction raw rule: path_skip.induct)
  case (2 c cs)
  show ?case
  proof (cases "c = 46 \<and> cs \<noteq> [] \<and> hd cs = 47")
    case True
    with 2 obtain ys where "tl cs = ys @ path_skip (tl cs)" by blast
    then have "c # cs = c # hd cs # ys @ path_skip (c # cs)" using True by (cases cs) simp_all
    then show ?thesis by (metis append_Cons)
  next
    case False
    show ?thesis
    proof (cases "c = 47")
      case True
      with 2(2) False obtain ys where "cs = ys @ path_skip cs" by blast
      then have "c # cs = (c # ys) @ path_skip (c # cs)" using True by simp
      then show ?thesis by blast
    qed (use False in auto)
  qed
qed simp

lemma path_skip_front: "path_skip raw \<noteq> [] \<Longrightarrow> hd (path_skip raw) \<noteq> 47 \<and> take 2 (path_skip raw) \<noteq> [46, 47]"
proof (induction raw rule: path_skip.induct)
  case (2 c cs)
  then show ?case by (cases cs) (auto split: if_splits)
qed simp

lemma path_skip_id: "hd p \<noteq> 47 \<Longrightarrow> take 2 p \<noteq> [46, 47] \<Longrightarrow> path_skip p = p"
  by (cases p rule: path_skip.cases) (auto simp: neq_Nil_conv)

lemma path_trim_prefix: "\<exists>ys. out = path_trim out @ ys"
proof -
  have "rev out = takeWhile (\<lambda>b. b = 47) (rev out) @ dropWhile (\<lambda>b. b = 47) (rev out)" by simp
  then have "out = rev (dropWhile (\<lambda>b. b = 47) (rev out)) @ rev (takeWhile (\<lambda>b. b = 47) (rev out))"
    by (metis rev_append rev_rev_ident)
  then show ?thesis unfolding path_trim_def by blast
qed

lemma path_trim_last: "path_trim out \<noteq> [] \<Longrightarrow> last (path_trim out) \<noteq> 47"
proof -
  assume "path_trim out \<noteq> []"
  then have "dropWhile (\<lambda>b. b = 47) (rev out) \<noteq> []" by (simp add: path_trim_def)
  then show ?thesis using hd_dropWhile [of "\<lambda>b. b = 47" "rev out"] by (simp add: path_trim_def last_rev)
qed

lemma path_trim_id: "p \<noteq> [] \<Longrightarrow> last p \<noteq> 47 \<Longrightarrow> path_trim p = p"
  by (cases p rule: rev_cases) (simp_all add: path_trim_def)

lemma take_field: "take (clks_ramdisk_field_len field) field = takeWhile (\<lambda>b. b \<noteq> 0) field"
  by (simp add: clks_ramdisk_field_len_def takeWhile_eq_take [symmetric])

lemma build_path_ok:
  assumes "clks_ramdisk_build_path hdr CLKS_RAMDISK_PATH_MAX = Some p"
  shows "ramdisk_path_ok p"
proof -
  define front where "front = (if clks_ramdisk_field_len (hdr_prefix hdr) \<noteq> 0
    then take (clks_ramdisk_field_len (hdr_prefix hdr)) (hdr_prefix hdr) @ [47] else [])"
  define raw where "raw = front @ take (clks_ramdisk_field_len (hdr_name hdr)) (hdr_name hdr)"
  define rest where "rest = path_skip raw"
  have p: "p = path_trim rest" "p \<noteq> []" "length rest < CLKS_RAMDISK_PATH_MAX"
    using assms unfolding clks_ramdisk_build_path_def Let_def front_def [symmetric] raw_def [symmetric]
      rest_def [symmetric] by (auto split: if_splits)
  have nz: "0 \<notin> set raw"
    by (auto simp: raw_def front_def take_field dest: set_takeWhileD)
  obtain ys zs where e: "raw = ys @ rest" "rest = p @ zs"
    using path_skip_suffix [of raw] path_trim_prefix [of rest] p(1) by (auto simp: rest_def)
  have "rest \<noteq> []" using e p(2) by simp
  then have f: "hd rest \<noteq> 47" "take 2 rest \<noteq> [46, 47]" using path_skip_front [of raw] by (simp_all add: rest_def)
  have "take 2 p \<noteq> [46, 47]"
  proof
    assume *: "take 2 p = [46, 47]"
    then have "2 \<le> length p" by (metis length_take list.size(3,4) min.bounded_iff numeral_2_eq_2 le_refl One_nat_def plus_1_eq_Suc add.commute)
    then have "take 2 rest = take 2 p" using e by simp
    with * f show False by simp
  qed
  with p e f nz path_trim_last [of rest] show ?thesis by (auto simp: ramdisk_path_ok_def)
qed

section \<open>Octal sizes\<close>

fun oct_digits :: "nat \<Rightarrow> nat \<Rightarrow> u8 list" where
  "oct_digits 0 n = []"
| "oct_digits (Suc k) n = oct_digits k (n div 8) @ [48 + of_nat (n mod 8)]"

lemma oct_digits_length [simp]: "length (oct_digits k n) = k"
  by (induction k arbitrary: n) simp_all

lemma octal_digit:
  assumes "d < 8" "v < 2 ^ 60"
  shows "octal_loop (of_nat v) ((48 + of_nat d) # cs) = octal_loop (of_nat (8 * v + d)) cs"
proof -
  have u: "unat (48 + of_nat d :: u8) = 48 + d"
    using assms(1) by (simp add: unat_word_ariths unat_of_nat)
  have d: "\<not> (48 + of_nat d :: u8) = 32" "\<not> (48 + of_nat d :: u8) = 0"
    "\<not> (48 + of_nat d :: u8) < 48" "\<not> 55 < (48 + of_nat d :: u8)"
    using u assms(1) by (auto simp: word_less_nat_alt word_unat_eq_iff)
  have v: "\<not> drop_bit 3 (- 1) < (of_nat v :: u64)"
    using assms(2) by (simp add: word_less_nat_alt unat_of_nat unat_drop_bit_eq drop_bit_eq_div not_less)
  have "push_bit 3 (of_nat v :: u64) + (ucast (48 + of_nat d :: u8) - 48) = of_nat (8 * v + d)"
  proof -
    have "(ucast (48 + of_nat d :: u8) :: u64) = of_nat (48 + d)"
      using u by (metis of_nat_unat)
    then show ?thesis by (simp add: push_bit_eq_mult mult.commute)
  qed
  with d v show ?thesis by simp
qed

lemma octal_digits_loop:
  "n < 8 ^ k \<Longrightarrow> k \<le> 20 \<Longrightarrow> octal_loop 0 (oct_digits k n @ cs) = octal_loop (of_nat n) cs"
proof (induction k arbitrary: n cs)
  case (Suc k)
  have 1: "n div 8 < 8 ^ k" using Suc.prems(1) by (simp add: less_mult_imp_div_less mult.commute)
  have "(8 :: nat) ^ k \<le> 8 ^ 19" using Suc.prems(2) by (intro power_increasing) auto
  with 1 have 2: "n div 8 < 2 ^ 60" by simp
  have "octal_loop 0 (oct_digits (Suc k) n @ cs) =
      octal_loop (of_nat (n div 8)) ((48 + of_nat (n mod 8)) # cs)"
    using Suc.IH [OF 1, of "(48 + of_nat (n mod 8)) # cs"] Suc.prems(2) by simp
  also have "\<dots> = octal_loop (of_nat (8 * (n div 8) + n mod 8)) cs"
    by (rule octal_digit [OF _ 2]) simp
  also have "8 * (n div 8) + n mod 8 = n" by simp
  finally show ?case .
qed simp

lemma oct_digit_range: "b \<in> set (oct_digits k n) \<Longrightarrow> b \<noteq> 32 \<and> b \<noteq> 0"
proof (induction k arbitrary: n)
  case (Suc k)
  have "unat (48 + of_nat (n mod 8) :: u8) = 48 + n mod 8"
    by (simp add: unat_word_ariths unat_of_nat)
  then have "(48 + of_nat (n mod 8) :: u8) \<noteq> 32 \<and> (48 + of_nat (n mod 8) :: u8) \<noteq> 0"
    by (auto simp: word_unat_eq_iff)
  with Suc show ?case by auto
qed simp

lemma parse_octal_digits:
  assumes "n < 8 ^ 11"
  shows "clks_ramdisk_parse_octal_u64 (oct_digits 11 n @ [0]) = Some (of_nat n)"
proof -
  have "octal_skip (oct_digits 11 n @ [0]) = oct_digits 11 n @ [0]"
  proof (cases "oct_digits 11 n")
    case Nil
    then have "length (oct_digits 11 n) = 0" by simp
    then show ?thesis by (simp only: oct_digits_length)
  next
    case (Cons b bs)
    then show ?thesis using oct_digit_range [of b 11 n] by (simp add: octal_skip_def)
  qed
  with octal_digits_loop [OF assms, of "[0]"] show ?thesis
    by (simp add: clks_ramdisk_parse_octal_u64_def)
qed

section \<open>The walk ends and stays inside the image\<close>

lemma align_512: "n + 511 < USIZE_RANGE \<Longrightarrow> mask_down CLKS_TAR_BLOCK_SIZE (add64 n (CLKS_TAR_BLOCK_SIZE - 1)) = 512 * ((n + 511) div 512)"
  by (simp add: CLKS_TAR_BLOCK_SIZE_def add64_small mask_down_eq)

lemma ramdisk_entry_inside:
  assumes "ramdisk_entry hdr off sz = Some e" "512 \<le> off" "off + sz \<le> n"
  shows "ramdisk_entry_ok n e"
  using assms build_path_ok [of hdr]
  by (auto simp: ramdisk_entry_def ramdisk_entry_ok_def split: option.splits if_splits)

lemma ramdisk_loop_keeps:
  assumes "length bytes < 2 ^ 63" "offset \<le> length bytes + 511" "P ctx"
    and step: "\<And>e c. P c \<Longrightarrow> ramdisk_entry_ok (length bytes) e \<Longrightarrow> P (snd (f e c))"
  shows "\<exists>ok ctx'. ramdisk_loop bytes f offset ctx = Some (ok, ctx') \<and> P ctx'"
  using assms(2,3)
proof (induction "length bytes + 512 - offset" arbitrary: offset ctx rule: less_induct)
  case less
  let ?hdr = "tar_header_at bytes offset"
  have a: "add64 offset CLKS_TAR_BLOCK_SIZE = offset + 512"
    using less.prems(1) assms(1) by (simp add: add64_small CLKS_TAR_BLOCK_SIZE_def USIZE_RANGE_def)
  show ?case
  proof (cases "offset + 512 \<le> length bytes \<and> \<not> clks_ramdisk_is_zero_block bytes offset")
    case False
    with a less.prems show ?thesis by (subst ramdisk_loop.simps) auto
  next
    case go: True
    show ?thesis
    proof (cases "clks_ramdisk_parse_octal_u64 (hdr_size ?hdr)")
      case None
      with a less.prems go show ?thesis by (subst ramdisk_loop.simps) (auto simp: Let_def)
    next
      case (Some w)
      let ?sz = "unat w"
      show ?thesis
      proof (cases "?sz > length bytes - (offset + 512)")
        case True
        with a less.prems go Some show ?thesis by (subst ramdisk_loop.simps) (auto simp: Let_def)
      next
        case fits: False
        define r where "r = (case ramdisk_entry ?hdr (offset + 512) ?sz of
          None \<Rightarrow> (True, ctx) | Some entry \<Rightarrow> f entry ctx)"
        have P: "P (snd r)"
          using less.prems(2) step ramdisk_entry_inside [of ?hdr "offset + 512" ?sz _ "length bytes"] go fits
          by (auto simp: r_def split: option.splits)
        have sz: "?sz + 511 < USIZE_RANGE" using fits assms(1) by (simp add: USIZE_RANGE_def)
        define off' where "off' = offset + 512 + 512 * ((?sz + 511) div 512)"
        have o: "off' \<le> length bytes + 511" "offset + 512 \<le> off'" using fits go by (auto simp: off'_def)
        have b: "add64 (offset + 512) (512 * ((?sz + 511) div 512)) = off'"
          using o assms(1) by (simp add: add64_small USIZE_RANGE_def off'_def)
        have m: "mask_down CLKS_TAR_BLOCK_SIZE (add64 ?sz (CLKS_TAR_BLOCK_SIZE - 1)) = 512 * ((?sz + 511) div 512)"
          by (rule align_512 [OF sz])
        have "length bytes + 512 - off' < length bytes + 512 - offset" using o go by linarith
        from less.hyps [OF this o(1) P]
        have IH: "\<exists>ok ctx'. ramdisk_loop bytes f off' (snd r) = Some (ok, ctx') \<and> P ctx'" .
        have "ramdisk_loop bytes f offset ctx =
          (if \<not> fst r then Some (False, snd r) else ramdisk_loop bytes f off' (snd r))"
          using go fits Some o(2) unfolding ramdisk_loop.simps [of bytes f offset] a Let_def
          by (simp add: m [simplified] b r_def [symmetric])
        with IH P show ?thesis by auto
      qed
    qed
  qed
qed

section \<open>Writing archives\<close>

text \<open>What a tar writer puts in the image: a directory, or a file with its contents.\<close>

datatype tar_member = TarDir "u8 list" | TarFile "u8 list" "u8 list"

fun member_path :: "tar_member \<Rightarrow> u8 list" where
  "member_path (TarDir p) = p"
| "member_path (TarFile p d) = p"

fun member_data :: "tar_member \<Rightarrow> u8 list" where
  "member_data (TarDir p) = []"
| "member_data (TarFile p d) = d"

definition member_ok :: "tar_member \<Rightarrow> bool" where
  "member_ok m \<longleftrightarrow> ramdisk_path_ok (member_path m) \<and> length (member_path m) \<le> 100 \<and>
     length (member_data m) < 8 ^ 11"

definition tar_header :: "u8 list \<Rightarrow> nat \<Rightarrow> u8 \<Rightarrow> u8 list" where
  "tar_header path n flag = path @ replicate (124 - length path) 0 @ oct_digits 11 n @
     replicate 21 0 @ flag # replicate 355 0"

definition pad_512 :: "nat \<Rightarrow> nat" where
  "pad_512 n = 512 * ((n + 511) div 512) - n"

definition tar_bytes :: "tar_member \<Rightarrow> u8 list" where
  "tar_bytes m = tar_header (member_path m) (length (member_data m))
       (case m of TarDir _ \<Rightarrow> 53 | TarFile _ _ \<Rightarrow> 48) @
     member_data m @ replicate (pad_512 (length (member_data m))) 0"

definition tar_archive :: "tar_member list \<Rightarrow> u8 list" where
  "tar_archive ms = concat (map tar_bytes ms) @ replicate 1024 0"

text \<open>The entries a walk over the archive meets, at their offsets.\<close>

fun archive_entries :: "nat \<Rightarrow> tar_member list \<Rightarrow> clks_ramdisk_entry list" where
  "archive_entries off [] = []"
| "archive_entries off (m # ms) =
     (case m of
        TarDir p \<Rightarrow> \<lparr>re_type = RAMDISK_ENTRY_DIR, re_path = p, re_data = None, re_size = 0\<rparr>
      | TarFile p d \<Rightarrow> \<lparr>re_type = RAMDISK_ENTRY_FILE, re_path = p, re_data = Some (off + 512),
                       re_size = length d\<rparr>)
     # archive_entries (off + length (tar_bytes m)) ms"

text \<open>Calling the callback on each entry until it declines.\<close>

fun visit_entries :: "'c ramdisk_iter_fn \<Rightarrow> clks_ramdisk_entry list \<Rightarrow> 'c \<Rightarrow> bool \<times> 'c" where
  "visit_entries f [] c = (True, c)"
| "visit_entries f (e # es) c = (if fst (f e c) then visit_entries f es (snd (f e c)) else (False, snd (f e c)))"

lemma tar_header_length: "length p \<le> 100 \<Longrightarrow> length (tar_header p n flag) = 512"
  by (simp add: tar_header_def)

lemma pad_512: "n + pad_512 n = 512 * ((n + 511) div 512)"
proof -
  have "n + 511 = 512 * ((n + 511) div 512) + (n + 511) mod 512" by simp
  moreover have "(n + 511) mod 512 < 512" by simp
  ultimately have "n \<le> 512 * ((n + 511) div 512)" by linarith
  then show ?thesis by (simp add: pad_512_def)
qed

lemma tar_bytes_length: "member_ok m \<Longrightarrow> length (tar_bytes m) = 512 + 512 * ((length (member_data m) + 511) div 512)"
  using pad_512 [of "length (member_data m)"] by (simp add: tar_bytes_def member_ok_def tar_header_length)

text \<open>Reading a header that was written.\<close>

lemma read_header:
  assumes "member_ok m" "bytes = pre @ tar_bytes m @ post"
  defines "hdr \<equiv> tar_header_at bytes (length pre)"
  shows "\<not> clks_ramdisk_is_zero_block bytes (length pre)"
    and "clks_ramdisk_parse_octal_u64 (hdr_size hdr) = Some (of_nat (length (member_data m)))"
    and "clks_ramdisk_build_path hdr CLKS_RAMDISK_PATH_MAX = Some (member_path m)"
    and "hdr_typeflag hdr = (case m of TarDir _ \<Rightarrow> 53 | TarFile _ _ \<Rightarrow> 48)"
proof -
  let ?p = "member_path m" and ?n = "length (member_data m)"
  let ?flag = "case m of TarDir _ \<Rightarrow> 53 | TarFile _ _ \<Rightarrow> (48 :: u8)"
  let ?h = "tar_header ?p ?n ?flag"
  have p: "ramdisk_path_ok ?p" "length ?p \<le> 100" "?n < 8 ^ 11" using assms(1) by (simp_all add: member_ok_def)
  have len: "length ?h = 512" by (rule tar_header_length [OF p(2)])
  obtain rest where b: "bytes = pre @ ?h @ rest" using assms(2) by (simp add: tar_bytes_def)
  have at: "bytes ! (length pre + i) = ?h ! i" if "i < 512" for i
    using that len by (simp add: b nth_append)
  have field: "take k (drop (length pre + i) bytes) = take k (drop i ?h)" if "i + k \<le> 512" for i k
    using that len by (simp add: b)
  have name: "take 100 ?h = ?p @ replicate (100 - length ?p) 0"
    using p(2) by (simp add: tar_header_def min_def)
  have size: "take 12 (drop 124 ?h) = oct_digits 11 ?n @ [0]"
    using p(2) by (simp add: tar_header_def min_def)
  have prefix: "take 155 (drop 345 ?h) = replicate 155 0"
    using p(2) by (simp add: tar_header_def)
  have "\<not> 156 - length ?p < 124 - length ?p" using p(2) by linarith
  then have flag: "?h ! 156 = ?flag" using p(2) by (simp add: tar_header_def nth_append)
  have nz: "0 \<notin> set ?p" "?p \<noteq> []" using p(1) by (simp_all add: ramdisk_path_ok_def)
  have fn: "takeWhile (\<lambda>b. b \<noteq> 0) (?p @ replicate (100 - length ?p) 0) = ?p"
    using nz(1) by (subst takeWhile_append2) (auto simp: takeWhile_replicate)
  have fl: "clks_ramdisk_field_len (hdr_name hdr) = length ?p" "clks_ramdisk_field_len (hdr_prefix hdr) = 0"
    "take (length ?p) (hdr_name hdr) = ?p"
    using field [of 0 100] field [of 345 155] name prefix fn
    by (simp_all add: hdr_def tar_header_at_def clks_ramdisk_field_len_def takeWhile_replicate)
  show "\<not> clks_ramdisk_is_zero_block bytes (length pre)"
  proof
    assume "clks_ramdisk_is_zero_block bytes (length pre)"
    then have "\<forall>i \<in> {0..<512}. bytes ! (length pre + i) = 0"
      by (simp add: clks_ramdisk_is_zero_block_def CLKS_TAR_BLOCK_SIZE_def list_all_iff)
    from bspec [OF this, of 0] have "bytes ! (length pre + 0) = 0" by simp
    then have "?h ! 0 = 0" using at [of 0] by simp
    moreover have "?h ! 0 = hd ?p" using nz(2) by (cases ?p) (simp_all add: tar_header_def)
    ultimately show False using nz by (cases ?p) auto
  qed
  show "clks_ramdisk_parse_octal_u64 (hdr_size hdr) = Some (of_nat ?n)"
    using field [of 124 12] size parse_octal_digits [OF p(3)] by (simp add: hdr_def tar_header_at_def)
  show "clks_ramdisk_build_path hdr CLKS_RAMDISK_PATH_MAX = Some ?p"
    using fl p(1) nz unfolding clks_ramdisk_build_path_def Let_def
    by (simp add: CLKS_RAMDISK_PATH_MAX_def ramdisk_path_ok_def path_skip_id path_trim_id)
  show "hdr_typeflag hdr = ?flag"
    using at [of 156] flag by (simp add: hdr_def tar_header_at_def)
qed

lemma zero_tail_block:
  assumes "bytes = pre @ replicate 1024 0"
  shows "clks_ramdisk_is_zero_block bytes (length pre)"
  using assms by (auto simp: clks_ramdisk_is_zero_block_def CLKS_TAR_BLOCK_SIZE_def list_all_iff nth_append)

lemma ramdisk_loop_archive:
  assumes "length bytes < 2 ^ 63" "bytes = pre @ concat (map tar_bytes ms) @ replicate 1024 0"
    "\<forall>m \<in> set ms. member_ok m"
  shows "ramdisk_loop bytes f (length pre) ctx = Some (visit_entries f (archive_entries (length pre) ms) ctx)"
  using assms(2,3)
proof (induction ms arbitrary: pre ctx)
  case Nil
  then have z: "clks_ramdisk_is_zero_block bytes (length pre)" by (intro zero_tail_block) simp
  show ?case by (subst ramdisk_loop.simps) (use z in simp)
next
  case (Cons m ms)
  let ?n = "length (member_data m)"
  let ?off = "length pre"
  have ok: "member_ok m" using Cons.prems(2) by simp
  have split: "bytes = pre @ tar_bytes m @ concat (map tar_bytes ms) @ replicate 1024 0"
    using Cons.prems(1) by simp
  note h = read_header [OF ok split]
  have len: "length bytes = ?off + (512 + 512 * ((?n + 511) div 512)) + length (concat (map tar_bytes ms)) + 1024"
    using split tar_bytes_length [OF ok] by simp
  have n: "?n \<le> 512 * ((?n + 511) div 512)" using pad_512 [of ?n] by simp
  have u: "unat (of_nat ?n :: u64) = ?n" using n len assms(1) by (simp add: unat_of_nat)
  have a: "add64 ?off CLKS_TAR_BLOCK_SIZE = ?off + 512"
    using len assms(1) by (simp add: add64_small CLKS_TAR_BLOCK_SIZE_def USIZE_RANGE_def)
  have m: "mask_down CLKS_TAR_BLOCK_SIZE (add64 ?n (CLKS_TAR_BLOCK_SIZE - 1)) = 512 * ((?n + 511) div 512)"
    using n len assms(1) by (intro align_512) (simp add: USIZE_RANGE_def)
  have b: "add64 (?off + 512) (512 * ((?n + 511) div 512)) = ?off + length (tar_bytes m)"
    using len assms(1) tar_bytes_length [OF ok] by (simp add: add64_small USIZE_RANGE_def)
  define en where "en = hd (archive_entries ?off (m # ms))"
  have e: "ramdisk_entry (tar_header_at bytes ?off) (?off + 512) ?n = Some en"
    using h(3,4) by (cases m) (simp_all add: ramdisk_entry_def en_def)
  have IH: "ramdisk_loop bytes f (length (pre @ tar_bytes m)) c =
      Some (visit_entries f (archive_entries (length (pre @ tar_bytes m)) ms) c)" for c
    by (rule Cons.IH) (use split Cons.prems(2) in simp_all)
  have ae: "archive_entries ?off (m # ms) = en # archive_entries (?off + length (tar_bytes m)) ms"
    by (simp add: en_def)
  have "ramdisk_loop bytes f ?off ctx = (if \<not> fst (f en ctx) then Some (False, snd (f en ctx))
      else ramdisk_loop bytes f (?off + length (tar_bytes m)) (snd (f en ctx)))"
    using h(1,2) len n u m b tar_bytes_length [OF ok]
    unfolding ramdisk_loop.simps [of bytes f ?off] a Let_def
    by (simp add: e m [simplified])
  also have "\<dots> = Some (visit_entries f (en # archive_entries (?off + length (tar_bytes m)) ms) ctx)"
    using IH by simp
  finally show ?case by (simp only: ae)
qed

lemma archive_entries_data:
  assumes "bytes = pre @ concat (map tar_bytes ms) @ post" "\<forall>m \<in> set ms. member_ok m"
  shows "map (\<lambda>e. (re_type e, re_path e, map_option (\<lambda>off. take (re_size e) (drop off bytes)) (re_data e)))
      (archive_entries (length pre) ms) =
    map (\<lambda>m. case m of TarDir p \<Rightarrow> (RAMDISK_ENTRY_DIR, p, None)
                     | TarFile p d \<Rightarrow> (RAMDISK_ENTRY_FILE, p, Some d)) ms"
  using assms
proof (induction ms arbitrary: pre)
  case (Cons m ms)
  have ok: "member_ok m" using Cons.prems(2) by simp
  have l: "length (member_path m) \<le> 100" using ok by (simp add: member_ok_def)
  have "map (\<lambda>e. (re_type e, re_path e, map_option (\<lambda>off. take (re_size e) (drop off bytes)) (re_data e)))
      (archive_entries (length (pre @ tar_bytes m)) ms) =
    map (\<lambda>m. case m of TarDir p \<Rightarrow> (RAMDISK_ENTRY_DIR, p, None)
                     | TarFile p d \<Rightarrow> (RAMDISK_ENTRY_FILE, p, Some d)) ms"
    by (rule Cons.IH) (use Cons.prems in simp_all)
  moreover have "take (length d) (drop (length pre + 512) bytes) = d" if "m = TarFile p d" for p d
    using Cons.prems(1) that l by (simp add: tar_bytes_def tar_header_length)
  ultimately show ?case by (cases m) simp_all
qed simp

section \<open>Properties\<close>

text \<open>
  C9. The ramdisk walk is safe on any image: it ends, and every entry it passes to the callback has
  a relative path of 1 to 191 bytes without a leading \<open>/\<close> or \<open>./\<close> or a trailing \<open>/\<close>, and data that
  lies inside the image behind a header. So what the callback keeps on such entries holds at the end,
  however malformed the archive is.
\<close>

theorem ramdisk_iterate_safe:
  assumes "length bytes < 2 ^ 63" "P ctx"
    "\<And>e c. P c \<Longrightarrow> ramdisk_entry_ok (length bytes) e \<Longrightarrow> P (snd (f e c))"
  shows "\<exists>ok ctx'. clks_ramdisk_iterate (Some bytes) (Some f) ctx = Some (ok, ctx') \<and> P ctx'"
  using ramdisk_loop_keeps [where offset = 0 and P = P, OF assms(1) _ assms(2,3)]
  by (simp add: clks_ramdisk_iterate_def)

theorem ramdisk_iterate_safe_witness:
  "\<exists>ok es. clks_ramdisk_iterate (Some (replicate 600 1)) (Some (\<lambda>e es. (True, e # es))) [] = Some (ok, es) \<and>
     list_all (ramdisk_entry_ok 600) es"
  using ramdisk_iterate_safe [of "replicate 600 1" "list_all (ramdisk_entry_ok 600)" "[]" "\<lambda>e es. (True, e # es)"]
  by simp

text \<open>
  C10. Reading back a written archive: for members with well-formed paths of at most 100 bytes and
  contents below 8 GiB, the walk calls the callback on exactly the members, in order, until it
  declines, with the right type and path, and the data of each entry is the contents that were
  written.
\<close>

theorem ramdisk_archive_roundtrip:
  assumes "\<forall>m \<in> set ms. member_ok m" "length (tar_archive ms) < 2 ^ 63"
  shows "clks_ramdisk_iterate (Some (tar_archive ms)) (Some f) ctx =
      Some (visit_entries f (archive_entries 0 ms) ctx) \<and>
    map (\<lambda>e. (re_type e, re_path e, map_option (\<lambda>off. take (re_size e) (drop off (tar_archive ms))) (re_data e)))
      (archive_entries 0 ms) =
    map (\<lambda>m. case m of TarDir p \<Rightarrow> (RAMDISK_ENTRY_DIR, p, None)
                     | TarFile p d \<Rightarrow> (RAMDISK_ENTRY_FILE, p, Some d)) ms"
  using ramdisk_loop_archive [OF assms(2), of "[]" ms f ctx] assms(1)
    archive_entries_data [of "tar_archive ms" "[]" ms "replicate 1024 0"]
  by (simp add: clks_ramdisk_iterate_def tar_archive_def)

theorem ramdisk_archive_roundtrip_witness:
  "clks_ramdisk_iterate (Some (tar_archive [TarDir [97], TarFile [97, 47, 98] [1, 2, 3]]))
     (Some (\<lambda>e es. (True, es @ [re_path e]))) [] = Some (True, [[97], [97, 47, 98]])"
proof -
  let ?ms = "[TarDir [97], TarFile [97, 47, 98] [1, 2, 3]]"
  have ok: "\<forall>m \<in> set ?ms. member_ok m"
    by (simp add: member_ok_def ramdisk_path_ok_def CLKS_RAMDISK_PATH_MAX_def)
  then have "length (tar_archive ?ms) < 2 ^ 63" by (simp add: tar_archive_def tar_bytes_length)
  from ramdisk_archive_roundtrip [OF ok this, of "\<lambda>e es. (True, es @ [re_path e])" "[]"]
  show ?thesis by simp
qed
end
