(* ===== verification/Clks_Service.thy ===== *)
theory Clks_Service
  imports Clks_Prelude
begin

text \<open>
  The kernel service registry, \<open>kernel/core/service.c\<close>: a table of eight records, filled by
  \<open>clks_service_init\<close> from what the other components report (their readiness is the record
  \<open>service_inputs\<close>), a heartbeat per service and lookups by id. Log output is not modelled.
\<close>

definition CLKS_SERVICE_MAX :: nat where
  "CLKS_SERVICE_MAX = 8"

definition CLKS_SERVICE_NAME_MAX :: nat where
  "CLKS_SERVICE_NAME_MAX = 24"

datatype clks_service_state = SERVICE_OFFLINE | SERVICE_READY | SERVICE_DEGRADED

record clks_service_info =
  srv_id :: u32
  srv_name :: string
  srv_state :: clks_service_state
  srv_heartbeat_count :: u64
  srv_last_heartbeat_tick :: u64

record service_table =
  clks_services :: "clks_service_info list"
  clks_service_used :: nat

text \<open>A record after \<open>clks_memset\<close>; the state 0 is \<open>OFFLINE\<close>.\<close>

definition zero_service :: clks_service_info where
  "zero_service = \<lparr>srv_id = 0, srv_name = [], srv_state = SERVICE_OFFLINE,
     srv_heartbeat_count = 0, srv_last_heartbeat_tick = 0\<rparr>"

text \<open>What \<open>clks_service_init\<close> reads from the heap, the file system, the drivers and the shell.\<close>

record service_inputs =
  in_heap_total_bytes :: nat
  in_fs_ready :: bool
  in_driver_count :: u64
  in_shell_ready :: bool

definition clks_service_copy_name :: "nat \<Rightarrow> string \<Rightarrow> string" where
  "clks_service_copy_name dst_size src = take (dst_size - 1) src"

definition clks_service_find_index :: "u32 \<Rightarrow> service_table \<Rightarrow> nat option" where
  "clks_service_find_index sid s = find (\<lambda>i. srv_id (clks_services s ! i) = sid) [0..<clks_service_used s]"

definition clks_service_register ::
  "u32 \<Rightarrow> string \<Rightarrow> clks_service_state \<Rightarrow> service_table \<Rightarrow> bool \<times> service_table" where
  "clks_service_register sid name st s =
     (if clks_service_used s \<ge> CLKS_SERVICE_MAX then (False, s)
      else (True, s\<lparr>clks_services := (clks_services s)[clks_service_used s :=
               zero_service\<lparr>srv_id := sid,
                 srv_name := clks_service_copy_name CLKS_SERVICE_NAME_MAX name,
                 srv_state := st, srv_heartbeat_count := 0, srv_last_heartbeat_tick := 0\<rparr>],
             clks_service_used := clks_service_used s + 1\<rparr>))"

definition ready_if :: "bool \<Rightarrow> clks_service_state" where
  "ready_if b = (if b then SERVICE_READY else SERVICE_DEGRADED)"

definition clks_service_init :: "service_inputs \<Rightarrow> service_table" where
  "clks_service_init inp =
     (let s0 = \<lparr>clks_services = replicate CLKS_SERVICE_MAX zero_service, clks_service_used = 0\<rparr>;
          s1 = snd (clks_service_register 1 ''log'' SERVICE_READY s0);
          s2 = snd (clks_service_register 2 ''memory'' (ready_if (in_heap_total_bytes inp > 0)) s1);
          s3 = snd (clks_service_register 3 ''filesystem'' (ready_if (in_fs_ready inp)) s2);
          s4 = snd (clks_service_register 4 ''driver'' (ready_if (in_driver_count inp > 0)) s3);
          s5 = snd (clks_service_register 5 ''scheduler'' SERVICE_READY s4)
      in snd (clks_service_register 7 ''userland'' (ready_if (in_shell_ready inp)) s5))"

definition clks_service_heartbeat :: "u32 \<Rightarrow> u64 \<Rightarrow> service_table \<Rightarrow> bool \<times> service_table" where
  "clks_service_heartbeat sid tick s =
     (case clks_service_find_index sid s of None \<Rightarrow> (False, s)
      | Some i \<Rightarrow>
          let r = (clks_services s ! i)\<lparr>srv_heartbeat_count := srv_heartbeat_count (clks_services s ! i) + 1,
                    srv_last_heartbeat_tick := tick\<rparr>;
              r' = (if srv_state r = SERVICE_OFFLINE then r\<lparr>srv_state := SERVICE_READY\<rparr> else r)
          in (True, s\<lparr>clks_services := (clks_services s)[i := r']\<rparr>))"

definition clks_service_count :: "service_table \<Rightarrow> nat" where
  "clks_service_count s = clks_service_used s"

definition clks_service_ready_count :: "service_table \<Rightarrow> u64" where
  "clks_service_ready_count s =
     fold (\<lambda>i n. if srv_state (clks_services s ! i) = SERVICE_READY then n + 1 else n)
       [0..<clks_service_used s] 0"

definition clks_service_get :: "u32 \<Rightarrow> bool \<Rightarrow> service_table \<Rightarrow> clks_service_info option" where
  "clks_service_get sid has_out s =
     (if \<not> has_out then None
      else map_option (\<lambda>i. clks_services s ! i) (clks_service_find_index sid s))"

text \<open>Registered ids are distinct, so a lookup finds the record that was registered.\<close>

definition service_inv :: "service_table \<Rightarrow> bool" where
  "service_inv s \<longleftrightarrow> length (clks_services s) = CLKS_SERVICE_MAX \<and> clks_service_used s \<le> CLKS_SERVICE_MAX \<and>
     distinct (map srv_id (take (clks_service_used s) (clks_services s)))"

lemma service_inv_inj:
  assumes "service_inv s" "i < clks_service_used s" "j < clks_service_used s"
    "srv_id (clks_services s ! i) = srv_id (clks_services s ! j)"
  shows "i = j"
  using assms nth_eq_iff_index_eq [of "map srv_id (take (clks_service_used s) (clks_services s))" i j]
  by (simp add: service_inv_def)

lemma service_find_iff:
  assumes "service_inv s"
  shows "clks_service_find_index sid s = Some i \<longleftrightarrow> i < clks_service_used s \<and> srv_id (clks_services s ! i) = sid"
proof
  assume "clks_service_find_index sid s = Some i"
  then show "i < clks_service_used s \<and> srv_id (clks_services s ! i) = sid"
    unfolding clks_service_find_index_def by (auto dest: find_Some_in)
next
  assume *: "i < clks_service_used s \<and> srv_id (clks_services s ! i) = sid"
  show "clks_service_find_index sid s = Some i"
    unfolding clks_service_find_index_def
    by (rule find_upt_unique) (use * service_inv_inj [OF assms] in auto)
qed

lemma service_init_table:
  "clks_services (clks_service_init inp) =
     map (\<lambda>(sid, name, st). zero_service\<lparr>srv_id := sid, srv_name := name, srv_state := st\<rparr>)
       [(1, ''log'', SERVICE_READY), (2, ''memory'', ready_if (in_heap_total_bytes inp > 0)),
        (3, ''filesystem'', ready_if (in_fs_ready inp)), (4, ''driver'', ready_if (in_driver_count inp > 0)),
        (5, ''scheduler'', SERVICE_READY), (7, ''userland'', ready_if (in_shell_ready inp))]
     @ [zero_service, zero_service]"
  "clks_service_used (clks_service_init inp) = 6"
  by (simp_all add: clks_service_init_def clks_service_register_def CLKS_SERVICE_MAX_def Let_def
      numeral_eq_Suc clks_service_copy_name_def CLKS_SERVICE_NAME_MAX_def zero_service_def)

lemma service_init_inv: "service_inv (clks_service_init inp)"
  by (simp add: service_inv_def service_init_table CLKS_SERVICE_MAX_def)

section \<open>Properties\<close>

text \<open>The record a lookup returns.\<close>

definition service_view :: "service_table \<Rightarrow> u32 \<Rightarrow> clks_service_info option" where
  "service_view s sid = clks_service_get sid True s"

lemma service_view_iff:
  "service_inv s \<Longrightarrow> service_view s sid = Some r \<longleftrightarrow>
     (\<exists>i < clks_service_used s. clks_services s ! i = r \<and> srv_id r = sid)"
  by (auto simp: service_view_def clks_service_get_def service_find_iff)

lemma service_registered:
  assumes "service_inv s"
  shows "service_view s sid \<noteq> None \<longleftrightarrow> sid \<in> set (map srv_id (take (clks_service_used s) (clks_services s)))"
proof -
  have "service_view s sid \<noteq> None \<longleftrightarrow> (\<exists>i < clks_service_used s. srv_id (clks_services s ! i) = sid)"
    using service_view_iff [OF assms, of sid] by auto
  also have "\<dots> \<longleftrightarrow> sid \<in> set (map srv_id (take (clks_service_used s) (clks_services s)))"
    using assms by (fastforce simp: in_set_conv_nth service_inv_def simp del: set_map)
  finally show ?thesis .
qed

text \<open>
  Heartbeats: after initialisation exactly the services 1 to 5 and 7 are registered. A heartbeat
  of a registered service counts one beat, stores its tick and brings an offline service back, and
  changes no other service; a heartbeat of any other id is refused and changes nothing.
\<close>

theorem service_heartbeat_contract:
  assumes "service_inv s"
  shows "(\<forall>sid. service_view (clks_service_init inp) sid \<noteq> None \<longleftrightarrow> sid \<in> {1, 2, 3, 4, 5, 7}) \<and>
    (case service_view s sid of
       None \<Rightarrow> clks_service_heartbeat sid tick s = (False, s)
     | Some r \<Rightarrow> \<exists>s'. clks_service_heartbeat sid tick s = (True, s') \<and> service_inv s' \<and>
         service_view s' = (service_view s)(sid \<mapsto> r\<lparr>
           srv_heartbeat_count := srv_heartbeat_count r + 1, srv_last_heartbeat_tick := tick,
           srv_state := (if srv_state r = SERVICE_OFFLINE then SERVICE_READY else srv_state r)\<rparr>))"
proof
  show "\<forall>sid. service_view (clks_service_init inp) sid \<noteq> None \<longleftrightarrow> sid \<in> {1, 2, 3, 4, 5, 7}"
  proof
    fix sid
    have "service_view (clks_service_init inp) sid \<noteq> None \<longleftrightarrow>
        sid \<in> set (map srv_id (take 6 (clks_services (clks_service_init inp))))"
      using service_registered [OF service_init_inv [of inp], of sid] by (simp add: service_init_table(2))
    also have "set (map srv_id (take 6 (clks_services (clks_service_init inp)))) = {1, 2, 3, 4, 5, 7}"
      by (auto simp: service_init_table(1))
    finally show "service_view (clks_service_init inp) sid \<noteq> None \<longleftrightarrow> sid \<in> {1, 2, 3, 4, 5, 7}" .
  qed
  show "case service_view s sid of
       None \<Rightarrow> clks_service_heartbeat sid tick s = (False, s)
     | Some r \<Rightarrow> \<exists>s'. clks_service_heartbeat sid tick s = (True, s') \<and> service_inv s' \<and>
         service_view s' = (service_view s)(sid \<mapsto> r\<lparr>
           srv_heartbeat_count := srv_heartbeat_count r + 1, srv_last_heartbeat_tick := tick,
           srv_state := (if srv_state r = SERVICE_OFFLINE then SERVICE_READY else srv_state r)\<rparr>)"
  proof (cases "clks_service_find_index sid s")
    case None
    then show ?thesis by (simp add: service_view_def clks_service_get_def clks_service_heartbeat_def)
  next
    case (Some i)
    let ?r = "clks_services s ! i"
    let ?r' = "?r\<lparr>srv_heartbeat_count := srv_heartbeat_count ?r + 1, srv_last_heartbeat_tick := tick,
      srv_state := (if srv_state ?r = SERVICE_OFFLINE then SERVICE_READY else srv_state ?r)\<rparr>"
    let ?s' = "s\<lparr>clks_services := (clks_services s)[i := ?r']\<rparr>"
    have i: "i < clks_service_used s" "srv_id ?r = sid" using Some service_find_iff [OF assms] by simp_all
    have len: "i < length (clks_services s)" using assms i by (simp add: service_inv_def)
    have run: "clks_service_heartbeat sid tick s = (True, ?s')"
      using Some by (auto simp: clks_service_heartbeat_def Let_def)
    have ids: "map srv_id (take n ((clks_services s)[i := ?r'])) = map srv_id (take n (clks_services s))" for n
      using len by (intro nth_equalityI) (auto simp: nth_list_update)
    have inv: "service_inv ?s'" using assms ids by (simp add: service_inv_def)
    have same: "clks_service_find_index q ?s' = clks_service_find_index q s" for q
    proof (rule option_eqI)
      fix j
      show "clks_service_find_index q ?s' = Some j \<longleftrightarrow> clks_service_find_index q s = Some j"
        using len by (auto simp: service_find_iff [OF inv] service_find_iff [OF assms] nth_list_update)
    qed
    have "service_view ?s' = (service_view s)(sid \<mapsto> ?r')"
    proof
      fix q
      show "service_view ?s' q = ((service_view s)(sid \<mapsto> ?r')) q"
      proof (cases "clks_service_find_index q s")
        case None
        with Some same show ?thesis by (auto simp: service_view_def clks_service_get_def)
      next
        case (Some j)
        then have "j = i \<longleftrightarrow> q = sid"
          using i service_inv_inj [OF assms] by (auto simp: service_find_iff [OF assms])
        with Some same len show ?thesis
          by (cases "q = sid") (auto simp: service_view_def clks_service_get_def)
      qed
    qed
    with run inv Some show ?thesis
      by (simp add: service_view_def clks_service_get_def del: fun_upd_apply)
  qed
qed

theorem service_heartbeat_contract_witness:
  "\<exists>s'. clks_service_heartbeat 3 10 (clks_service_init
      \<lparr>in_heap_total_bytes = 1, in_fs_ready = True, in_driver_count = 0, in_shell_ready = False\<rparr>) = (True, s')"
proof -
  let ?inp = "\<lparr>in_heap_total_bytes = 1, in_fs_ready = True, in_driver_count = 0, in_shell_ready = False\<rparr>"
  note c = service_heartbeat_contract [OF service_init_inv [of ?inp], of ?inp 3 10]
  then have "service_view (clks_service_init ?inp) 3 \<noteq> None" by blast
  then obtain r where "service_view (clks_service_init ?inp) 3 = Some r" by blast
  with c show ?thesis by auto
qed
end
