(* ===== verification/Clks_Path.thy ===== *)
theory Clks_Path
  imports Clks_Prelude
begin

text \<open>
  Path normalisation, \<open>rust/src/path.rs\<close>, which the file systems, the user database and the system
  calls use on every path they are given. C strings are HOL strings without NUL; a null pointer is
  \<open>None\<close>; the output buffer is its size and the string left in it when the call succeeds.
\<close>

section \<open>The routines\<close>

abbreviation slash :: char where "slash \<equiv> CHR ''/''"

lemma normalize_step_shorter:
  assumes "rest \<noteq> []"
  shows "length (dropWhile (\<lambda>c. c = slash) (dropWhile (\<lambda>c. c \<noteq> slash) rest)) < length rest"
proof -
  let ?a = "dropWhile (\<lambda>c. c \<noteq> slash) rest"
  have le: "length (dropWhile P xs) \<le> length xs" for P and xs :: string
    by (metis length_dropWhile_le)
  obtain x xs where rest: "rest = x # xs" using assms by (cases rest) auto
  show ?thesis
  proof (cases "x = slash")
    case True
    with rest le [of "\<lambda>c. c = slash" xs] show ?thesis by simp
  next
    case False
    then have "length ?a \<le> length xs" using rest le by simp
    with le [of "\<lambda>c. c = slash" ?a] rest show ?thesis by simp
  qed
qed

text \<open>The main loop of \<open>normalize_impl\<close>: the output so far and the rest of the path.\<close>

function normalize_loop :: "nat \<Rightarrow> bool \<Rightarrow> string \<Rightarrow> string \<Rightarrow> string option" where
  "normalize_loop out_size keep_root_slash out rest =
     (if rest = [] then (if length out \<ge> out_size then None else Some out)
      else
        let component = takeWhile (\<lambda>c. c \<noteq> slash) rest;
            after = dropWhile (\<lambda>c. c = slash) (dropWhile (\<lambda>c. c \<noteq> slash) rest) in
        if component = [] \<or> component = ''.'' then normalize_loop out_size keep_root_slash out after
        else if component = ''..'' then None
        else
          let sep = (if keep_root_slash then length out > 1 else out \<noteq> []) in
          if sep \<and> length out + 1 \<ge> out_size then None
          else
            let out1 = (if sep then out @ [slash] else out) in
            if length out1 + length component \<ge> out_size then None
            else normalize_loop out_size keep_root_slash (out1 @ component) after)"
  by pat_completeness auto

termination
  by (relation "measure (\<lambda>(_, _, _, rest). length rest)") (auto simp: normalize_step_shorter)

declare normalize_loop.simps [simp del]

definition normalize_impl :: "string \<Rightarrow> bool \<Rightarrow> nat \<Rightarrow> bool \<Rightarrow> string option" where
  "normalize_impl path absolute out_size keep_root_slash =
     (if out_size = 0 then None
      else if absolute \<and> \<not> (path \<noteq> [] \<and> hd path = slash \<and> out_size \<ge> 2) then None
      else if \<not> absolute \<and> path \<noteq> [] \<and> hd path = slash then None
      else normalize_loop out_size keep_root_slash (if keep_root_slash then [slash] else [])
             (dropWhile (\<lambda>c. c = slash) path))"

definition clks_rust_path_normalize_absolute :: "string option \<Rightarrow> nat \<Rightarrow> string option" where
  "clks_rust_path_normalize_absolute path out_size =
     (case path of None \<Rightarrow> None | Some p \<Rightarrow> normalize_impl p True out_size True)"

definition clks_rust_path_normalize_relative :: "string option \<Rightarrow> nat \<Rightarrow> string option" where
  "clks_rust_path_normalize_relative path out_size =
     (case path of None \<Rightarrow> None | Some p \<Rightarrow> normalize_impl p False out_size False)"

definition clks_rust_path_normalize_external_internal :: "string option \<Rightarrow> nat \<Rightarrow> string option" where
  "clks_rust_path_normalize_external_internal path out_size =
     (case path of None \<Rightarrow> None | Some p \<Rightarrow> normalize_impl p True out_size False)"

definition path_starts_with :: "string \<Rightarrow> string \<Rightarrow> bool" where
  "path_starts_with path prefix \<longleftrightarrow> length path \<ge> length prefix \<and> take (length prefix) path = prefix"

definition path_at_or_under :: "string \<Rightarrow> string \<Rightarrow> bool" where
  "path_at_or_under path prefix \<longleftrightarrow> path_starts_with path prefix \<and>
     (length path = length prefix \<or> (length prefix < length path \<and> path ! length prefix = slash))"

section \<open>Components\<close>

text \<open>A path between slashes, and the path of a list of components.\<close>

fun path_split :: "string \<Rightarrow> string list" where
  "path_split [] = [[]]"
| "path_split (c # cs) =
     (if c = slash then [] # path_split cs
      else (c # hd (path_split cs)) # tl (path_split cs))"

fun path_join :: "string list \<Rightarrow> string" where
  "path_join [] = []"
| "path_join [c] = c"
| "path_join (c # cs) = c @ slash # path_join cs"

definition component_ok :: "string \<Rightarrow> bool" where
  "component_ok c \<longleftrightarrow> c \<noteq> [] \<and> slash \<notin> set c"

definition path_components :: "string \<Rightarrow> string list" where
  "path_components p = filter (\<lambda>c. c \<noteq> [] \<and> c \<noteq> ''.'') (path_split p)"

lemma path_split_nonempty [simp]: "path_split p \<noteq> []"
  by (cases p) simp_all

lemma path_split_no_slash: "slash \<notin> set c \<Longrightarrow> path_split c = [c]"
  by (induction c) auto

lemma path_split_append: "slash \<notin> set c \<Longrightarrow> path_split (c @ slash # p) = c # path_split p"
  by (induction c) auto

lemma path_split_components: "c \<in> set (path_split p) \<Longrightarrow> slash \<notin> set c"
proof (induction p arbitrary: c)
  case (Cons d p)
  have "slash \<notin> set (hd (path_split p))" using Cons.IH [of "hd (path_split p)"] by simp
  moreover have "slash \<notin> set c" if "c \<in> set (tl (path_split p))"
    using Cons.IH [of c] that by (meson list.set_sel(2) path_split_nonempty)
  ultimately show ?case using Cons by (auto split: if_splits)
qed simp

lemma path_join_Cons: "cs \<noteq> [] \<Longrightarrow> path_join (c # cs) = c @ slash # path_join cs"
  by (cases cs) simp_all

lemma path_join_snoc: "cs \<noteq> [] \<Longrightarrow> path_join (cs @ [c]) = path_join cs @ slash # c"
proof (induction cs)
  case (Cons d cs)
  then show ?case by (cases cs) (simp_all add: path_join_Cons)
qed simp

lemma path_split_join: "cs \<noteq> [] \<Longrightarrow> \<forall>c \<in> set cs. component_ok c \<Longrightarrow> path_split (path_join cs) = cs"
proof (induction cs)
  case (Cons c cs)
  then show ?case
    by (cases cs) (simp_all add: path_join_Cons path_split_no_slash path_split_append component_ok_def)
qed simp

lemma path_join_inject:
  assumes "\<forall>c \<in> set cs. component_ok c" "\<forall>c \<in> set ds. component_ok c" "path_join cs = path_join ds"
  shows "cs = ds"
proof -
  have e: "path_join es = [] \<longleftrightarrow> es = []" if "\<forall>c \<in> set es. component_ok c" for es
    using that by (cases es rule: path_join.cases) (auto simp: component_ok_def)
  show ?thesis
  proof (cases "cs = []")
    case True
    with assms e [of ds] show ?thesis by simp
  next
    case False
    with assms e [of cs] e [of ds] have "ds \<noteq> []" by auto
    with False assms path_split_join [of cs] path_split_join [of ds] show ?thesis by metis
  qed
qed

lemma path_split_step:
  assumes "rest \<noteq> []" "hd rest \<noteq> slash"
  defines "after \<equiv> dropWhile (\<lambda>c. c = slash) (dropWhile (\<lambda>c. c \<noteq> slash) rest)"
  shows "takeWhile (\<lambda>c. c \<noteq> slash) rest \<noteq> []"
    and "path_components rest = (let c = takeWhile (\<lambda>c. c \<noteq> slash) rest in
      (if c = ''.'' then [] else [c]) @ path_components after)"
    and "after \<noteq> [] \<Longrightarrow> hd after \<noteq> slash"
    and "''..'' \<in> set (path_split rest) \<longleftrightarrow>
      takeWhile (\<lambda>c. c \<noteq> slash) rest = ''..'' \<or> ''..'' \<in> set (path_split after)"
proof -
  let ?c = "takeWhile (\<lambda>c. c \<noteq> slash) rest"
  let ?d = "dropWhile (\<lambda>c. c \<noteq> slash) rest"
  have c: "slash \<notin> set ?c" by (auto dest: set_takeWhileD)
  show ne: "?c \<noteq> []" using assms(1,2) by (cases rest) auto
  show "after \<noteq> [] \<Longrightarrow> hd after \<noteq> slash" unfolding after_def by (rule hd_dropWhile)
  have skip: "path_components (dropWhile (\<lambda>c. c = slash) p) = path_components p \<and>
      (''..'' \<in> set (path_split (dropWhile (\<lambda>c. c = slash) p)) \<longleftrightarrow> ''..'' \<in> set (path_split p))" for p
    by (induction p) (auto simp: path_components_def)
  have e: "rest = ?c @ ?d" by simp
  have "path_split rest = ?c # (if ?d = [] then [] else path_split (tl ?d))"
  proof (cases "?d")
    case Nil
    with e c show ?thesis by (metis append_Nil2 path_split_no_slash)
  next
    case (Cons x xs)
    then have "x = slash" using hd_dropWhile [of "\<lambda>c. c \<noteq> slash" rest] by simp
    with Cons e path_split_append [OF c, of xs] show ?thesis by simp
  qed
  moreover have "after = (if ?d = [] then [] else dropWhile (\<lambda>c. c = slash) (tl ?d))"
  proof (cases "?d")
    case (Cons x xs)
    then have "x = slash" using hd_dropWhile [of "\<lambda>c. c \<noteq> slash" rest] by simp
    with Cons show ?thesis by (simp add: after_def)
  next
    case Nil
    then show ?thesis unfolding after_def by (simp only: dropWhile.simps simp_thms if_True)
  qed
  moreover define c d where "c = ?c" and "d = ?d"
  ultimately have s: "path_split rest = c # (if d = [] then [] else path_split (tl d))"
    and a: "after = (if d = [] then [] else dropWhile (\<lambda>c. c = slash) (tl d))" and nc: "c \<noteq> []"
    using ne by (simp_all only: simp_thms)
  have "path_components after = (if d = [] then [] else path_components (tl d))"
    unfolding a using skip [of "tl d"] by (simp add: path_components_def)
  then have "path_components rest = (if c = ''.'' then [] else [c]) @ path_components after"
    using nc by (simp add: path_components_def s)
  then show "path_components rest = (let c = ?c in (if c = ''.'' then [] else [c]) @ path_components after)"
    by (simp add: c_def)
  have "''..'' \<in> set (path_split after) \<longleftrightarrow> d \<noteq> [] \<and> ''..'' \<in> set (path_split (tl d))"
    unfolding a using skip [of "tl d"] by simp
  then have "''..'' \<in> set (path_split rest) \<longleftrightarrow> c = ''..'' \<or> ''..'' \<in> set (path_split after)"
    by (auto simp: s)
  then show "''..'' \<in> set (path_split rest) \<longleftrightarrow> ?c = ''..'' \<or> ''..'' \<in> set (path_split after)"
    by (simp add: c_def)
qed

section \<open>Normalising is splitting and joining\<close>

text \<open>What a path means: its components, when none is \<open>..\<close>.\<close>

definition path_resolve :: "string \<Rightarrow> string list option" where
  "path_resolve p = (if ''..'' \<in> set (path_split p) then None else Some (path_components p))"

lemma path_components_ok: "\<forall>c \<in> set (path_components p). component_ok c"
  using path_split_components by (auto simp: path_components_def component_ok_def)

lemma path_join_prefix_le:
  "length (path_join cs) \<le> length (path_join (cs @ ds))"
proof (induction ds rule: rev_induct)
  case (snoc d ds)
  show ?case
  proof (cases "cs @ ds = []")
    case False
    then have "path_join ((cs @ ds) @ [d]) = path_join (cs @ ds) @ slash # d" by (rule path_join_snoc)
    with snoc show ?thesis by simp
  qed simp
qed simp

text \<open>The loop, with the components that are already in the output.\<close>

lemma normalize_loop_spec:
  assumes "\<forall>c \<in> set acc. component_ok c" "rest = [] \<or> hd rest \<noteq> slash"
    "length (path_join acc) < out_size"
  shows "normalize_loop out_size False (path_join acc) rest =
    (case path_resolve rest of None \<Rightarrow> None
     | Some cs \<Rightarrow> if length (path_join (acc @ cs)) < out_size then Some (path_join (acc @ cs)) else None)"
  using assms
proof (induction "length rest" arbitrary: rest acc rule: less_induct)
  case less
  show ?case
  proof (cases "rest = []")
    case True
    with less.prems(3) show ?thesis
      by (simp add: normalize_loop.simps path_resolve_def path_components_def)
  next
    case False
    define c where "c = takeWhile (\<lambda>c. c \<noteq> slash) rest"
    define after where "after = dropWhile (\<lambda>c. c = slash) (dropWhile (\<lambda>c. c \<noteq> slash) rest)"
    have h: "hd rest \<noteq> slash" using less.prems(2) False by simp
    note st = path_split_step [OF False h, folded c_def after_def]
    have sh: "length after < length rest" unfolding after_def by (rule normalize_step_shorter [OF False])
    have cok: "component_ok c" using st(1) by (auto simp: component_ok_def c_def dest: set_takeWhileD)
    have res: "path_resolve rest = (if c = ''..'' then None
        else map_option (\<lambda>cs. (if c = ''.'' then [] else [c]) @ cs) (path_resolve after))"
      using st(2,4) by (simp add: path_resolve_def Let_def)
    have af: "after = [] \<or> hd after \<noteq> slash" using st(3) by blast
    define out1 where "out1 = (if path_join acc \<noteq> [] then path_join acc @ [slash] else path_join acc)"
    have unfold: "normalize_loop out_size False (path_join acc) rest =
      (if c = ''.'' then normalize_loop out_size False (path_join acc) after
       else if c = ''..'' then None
       else if path_join acc \<noteq> [] \<and> length (path_join acc) + 1 \<ge> out_size then None
       else if length out1 + length c \<ge> out_size then None
       else normalize_loop out_size False (out1 @ c) after)"
      using False st(1) unfolding normalize_loop.simps [of out_size False "path_join acc" rest] Let_def
        c_def [symmetric] after_def [symmetric] if_False out1_def by simp
    show ?thesis
    proof (cases "c = ''.'' \<or> c = ''..''")
      case True
      have "normalize_loop out_size False (path_join acc) after =
        (case path_resolve after of None \<Rightarrow> None
         | Some cs \<Rightarrow> if length (path_join (acc @ cs)) < out_size then Some (path_join (acc @ cs)) else None)"
        by (rule less.hyps [OF sh less.prems(1) af less.prems(3)])
      with True unfold res show ?thesis by (auto simp: option.case_eq_if)
    next
      case False
      have je: "path_join acc = [] \<longleftrightarrow> acc = []"
        using less.prems(1) by (cases acc rule: path_join.cases) (auto simp: component_ok_def)
      have out: "out1 @ c = path_join (acc @ [c])"
        using je by (auto simp: path_join_snoc out1_def)
      have ok: "\<forall>d \<in> set (acc @ [c]). component_ok d" using less.prems(1) cok by simp
      have lo: "length out1 + length c = length (path_join (acc @ [c]))"
        using out by (metis length_append)
      have res': "path_resolve rest = map_option ((#) c) (path_resolve after)"
        using False by (cases "path_resolve after") (simp_all add: res)
      show ?thesis
      proof (cases "length (path_join (acc @ [c])) < out_size")
        case True
        have IH: "normalize_loop out_size False (path_join (acc @ [c])) after =
          (case path_resolve after of None \<Rightarrow> None
           | Some cs \<Rightarrow> if length (path_join ((acc @ [c]) @ cs)) < out_size
               then Some (path_join ((acc @ [c]) @ cs)) else None)"
          by (rule less.hyps [OF sh ok af True])
        have "\<not> (path_join acc \<noteq> [] \<and> length (path_join acc) + 1 \<ge> out_size)"
          using True unfolding lo [symmetric] out1_def by (auto split: if_splits)
        then have "normalize_loop out_size False (path_join acc) rest =
            normalize_loop out_size False (path_join (acc @ [c])) after"
          using False True unfold by (auto simp: lo out simp del: length_append)
        then show ?thesis unfolding IH res' by (cases "path_resolve after") simp_all
      next
        case long: False
        have "\<not> length (path_join (acc @ c # cs)) < out_size" for cs
          using long path_join_prefix_le [of "acc @ [c]" cs] by simp
        moreover have "normalize_loop out_size False (path_join acc) rest = None"
          using False long unfold by (simp add: lo)
        ultimately show ?thesis unfolding res' by (cases "path_resolve after") simp_all
      qed
    qed
  qed
qed

lemma dropWhile_slash_resolve:
  "path_resolve (dropWhile (\<lambda>c. c = slash) p) = path_resolve p"
proof -
  have "path_components (dropWhile (\<lambda>c. c = slash) p) = path_components p \<and>
      (''..'' \<in> set (path_split (dropWhile (\<lambda>c. c = slash) p)) \<longleftrightarrow> ''..'' \<in> set (path_split p))"
    by (induction p) (auto simp: path_components_def)
  then show ?thesis by (simp add: path_resolve_def)
qed

lemma path_components_slash: "path_components (slash # p) = path_components p"
  by (simp add: path_components_def)

lemma normalize_external_spec:
  assumes "2 \<le> out_size"
  shows "clks_rust_path_normalize_external_internal (Some p) out_size =
    (if p \<noteq> [] \<and> hd p = slash then
       (case path_resolve p of None \<Rightarrow> None
        | Some cs \<Rightarrow> if length (path_join cs) < out_size then Some (path_join cs) else None)
     else None)"
proof -
  let ?r = "dropWhile (\<lambda>c. c = slash) p"
  have "?r = [] \<or> hd ?r \<noteq> slash" using hd_dropWhile [of "\<lambda>c. c = slash" p] by blast
  from normalize_loop_spec [OF _ this, of "[]" out_size] assms show ?thesis
    by (simp add: clks_rust_path_normalize_external_internal_def normalize_impl_def
        dropWhile_slash_resolve split: option.split)
qed

section \<open>Properties\<close>

text \<open>
  C11. Normalising an external path splits it at the slashes, drops empty and \<open>.\<close> components and
  joins the rest: it succeeds exactly for a path that starts with a slash, has no \<open>..\<close> component and
  whose result fits the buffer, the result has only proper components, and normalising the result
  again gives the same path.
\<close>

theorem normalize_external_canonical:
  assumes "2 \<le> out_size"
  shows "(clks_rust_path_normalize_external_internal (Some p) out_size = Some q \<longleftrightarrow>
      p \<noteq> [] \<and> hd p = slash \<and> ''..'' \<notin> set (path_split p) \<and> q = path_join (path_components p) \<and>
      length q < out_size) \<and>
    (clks_rust_path_normalize_external_internal (Some p) out_size = Some q \<longrightarrow>
      clks_rust_path_normalize_external_internal (Some (slash # q)) out_size = Some q)"
proof -
  let ?n = "\<lambda>p. clks_rust_path_normalize_external_internal (Some p) out_size"
  have 1: "?n p = Some q \<longleftrightarrow> p \<noteq> [] \<and> hd p = slash \<and> ''..'' \<notin> set (path_split p) \<and>
      q = path_join (path_components p) \<and> length q < out_size"
    by (auto simp: normalize_external_spec [OF assms] path_resolve_def)
  have "?n (slash # q) = Some q" if *: "?n p = Some q"
  proof -
    let ?cs = "path_components p"
    have q: "q = path_join ?cs" "length q < out_size" "''..'' \<notin> set ?cs"
      using * 1 by (auto simp: path_components_def)
    have keep: "filter (\<lambda>c. c \<noteq> [] \<and> c \<noteq> ''.'') ?cs = ?cs" by (simp add: path_components_def)
    have "path_resolve (slash # q) = Some ?cs"
    proof (cases "?cs = []")
      case True
      with q show ?thesis by (simp add: path_resolve_def path_components_def)
    next
      case False
      then have "path_split q = ?cs" using path_split_join [OF _ path_components_ok] q(1) by blast
      with keep have "path_components q = ?cs" by (simp add: path_components_def)
      with q \<open>path_split q = ?cs\<close> show ?thesis by (simp add: path_resolve_def path_components_slash)
    qed
    with q show ?thesis by (simp add: normalize_external_spec [OF assms])
  qed
  with 1 show ?thesis by blast
qed

theorem normalize_external_canonical_witness:
  "clks_rust_path_normalize_external_internal (Some ''//a/./bc//'') 192 = Some ''a/bc'' \<and>
   clks_rust_path_normalize_external_internal (Some ''/a/bc'') 192 = Some ''a/bc''"
  using normalize_external_canonical [of 192 "''//a/./bc//''" "''a/bc''"]
  by (simp add: path_components_def)
end
