(* ===== verification/Clks_Fs.thy ===== *)
theory Clks_Fs
  imports Clks_Path Clks_Heap Clks_Ramdisk
begin

text \<open>
  The in-memory file system, \<open>kernel/storage/fs.c\<close>: a table of 512 nodes with internal paths
  (\<open>a/b/c\<close>, the root is the empty path), filled from the ramdisk, whose files point into the ramdisk
  image or at kernel heap blocks. Paths under the disk mount are passed to the disk; the disk is a
  record of operations and its state a type parameter.

  The payload of a heap file is memory: \<open>fs_bytes\<close> gives the byte at a heap address, and
  \<open>clks_memcpy\<close> writes it. Data that a caller passes is the list of bytes its pointer points to (at
  least \<open>size\<close> of them), or \<open>None\<close> for a null pointer. A result \<open>None\<close> of an operation would be a
  heap search that does not end.
\<close>

section \<open>State\<close>

definition CLKS_FS_MAX_NODES :: nat where
  "CLKS_FS_MAX_NODES = 512"

definition CLKS_FS_PATH_MAX :: nat where
  "CLKS_FS_PATH_MAX = CLKS_RAMDISK_PATH_MAX"

definition CLKS_FS_NODE_FLAG_HEAP_DATA :: u16 where
  "CLKS_FS_NODE_FLAG_HEAP_DATA = 1"

definition clks_fs_dev_children :: "string list" where
  "clks_fs_dev_children = [''tty0'', ''fb0'', ''net0'', ''disk0'', ''input'']"

definition clks_fs_dev_input_children :: "string list" where
  "clks_fs_dev_input_children = [''kbd'', ''mouse'']"

text \<open>The node types; a cleared node has type 0, which is neither.\<close>

datatype clks_fs_node_type = FS_NODE_NONE | FS_NODE_FILE | FS_NODE_DIR

text \<open>
  What a data pointer points to: nothing, the static \<open>clks_fs_empty_file_data\<close>, an offset of the
  ramdisk image, or an address of the kernel heap.
\<close>

datatype fs_data = Data_Null | Data_Empty | Data_Image nat | Data_Heap nat

record clks_fs_node =
  fn_used :: bool
  fn_type :: clks_fs_node_type
  fn_parent :: nat
  fn_reserved :: u16
  fn_data :: fs_data
  fn_size :: nat
  fn_path :: string

definition zero_node :: clks_fs_node where
  "zero_node = \<lparr>fn_used = False, fn_type = FS_NODE_NONE, fn_parent = 0, fn_reserved = 0,
     fn_data = Data_Null, fn_size = 0, fn_path = []\<rparr>"

record 'd fs_state =
  fs_heap :: heap_state
  fs_bytes :: "nat \<Rightarrow> u8"
  fs_image :: "u8 list"
  fs_disk :: 'd
  clks_fs_nodes :: "clks_fs_node list"
  clks_fs_nodes_used :: nat
  clks_fs_ready :: bool

record clks_fs_build_stats =
  bs_file_count :: u64
  bs_dir_count :: u64

record clks_fs_node_info =
  ni_type :: clks_fs_node_type
  ni_size :: nat

text \<open>
  The operations of the disk that the file system calls. Those that change state also work on the
  kernel heap and its bytes (the disk allocates its caches there).
\<close>

type_synonym 'd disk_world = "heap_state \<times> (nat \<Rightarrow> u8) \<times> 'd"

record 'd disk_ops =
  dk_path_in_mount :: "string \<Rightarrow> 'd \<Rightarrow> bool"
  dk_stat :: "string \<Rightarrow> 'd \<Rightarrow> (bool \<times> nat) option"
  dk_read_all :: "string \<Rightarrow> 'd disk_world \<Rightarrow> u8 list option \<times> 'd disk_world"
  dk_count_children :: "string \<Rightarrow> 'd \<Rightarrow> nat"
  dk_get_child_name :: "string \<Rightarrow> nat \<Rightarrow> nat \<Rightarrow> 'd \<Rightarrow> string option"
  dk_mkdir :: "string \<Rightarrow> 'd disk_world \<Rightarrow> bool \<times> 'd disk_world"
  dk_write_all :: "string \<Rightarrow> u8 list option \<Rightarrow> nat \<Rightarrow> 'd disk_world \<Rightarrow> bool \<times> 'd disk_world"
  dk_append :: "string \<Rightarrow> u8 list option \<Rightarrow> nat \<Rightarrow> 'd disk_world \<Rightarrow> bool \<times> 'd disk_world"
  dk_remove :: "string \<Rightarrow> 'd disk_world \<Rightarrow> bool \<times> 'd disk_world"
  dk_init :: "'d disk_world \<Rightarrow> unit \<times> 'd disk_world"
  dk_present :: "'d \<Rightarrow> bool"
  dk_formatted :: "'d \<Rightarrow> bool"
  dk_mount :: "string \<Rightarrow> 'd disk_world \<Rightarrow> bool \<times> 'd disk_world"
  dk_is_mounted :: "'d \<Rightarrow> bool"
  dk_node_count :: "'d \<Rightarrow> nat"

text \<open>A call of a disk operation.\<close>

definition disk_call :: "('d disk_world \<Rightarrow> 'r \<times> 'd disk_world) \<Rightarrow> 'd fs_state \<Rightarrow> 'r \<times> 'd fs_state" where
  "disk_call f s = (case f (fs_heap s, fs_bytes s, fs_disk s) of
     (r, h, b, d) \<Rightarrow> (r, s\<lparr>fs_heap := h, fs_bytes := b, fs_disk := d\<rparr>))"

text \<open>\<open>clks_disk_path_in_mount\<close> of a path that may be null: a null path is in no mount.\<close>

definition in_mount :: "'d disk_ops \<Rightarrow> string option \<Rightarrow> 'd fs_state \<Rightarrow> bool" where
  "in_mount dk path s = (case path of None \<Rightarrow> False | Some p \<Rightarrow> dk_path_in_mount dk p (fs_disk s))"

abbreviation fs_node :: "'d fs_state \<Rightarrow> nat \<Rightarrow> clks_fs_node" where
  "fs_node s i \<equiv> clks_fs_nodes s ! i"

definition fs_set_node :: "nat \<Rightarrow> (clks_fs_node \<Rightarrow> clks_fs_node) \<Rightarrow> 'd fs_state \<Rightarrow> 'd fs_state" where
  "fs_set_node i f s = s\<lparr>clks_fs_nodes := (clks_fs_nodes s)[i := f (fs_node s i)]\<rparr>"

section \<open>Paths\<close>

definition clks_fs_normalize_external_path :: "string option \<Rightarrow> nat \<Rightarrow> string option" where
  "clks_fs_normalize_external_path path out_size = clks_rust_path_normalize_external_internal path out_size"

definition clks_fs_find_node_by_internal :: "string \<Rightarrow> 'd fs_state \<Rightarrow> nat option" where
  "clks_fs_find_node_by_internal internal_path s =
     find (\<lambda>i. fn_used (fs_node s i) \<and> fn_path (fs_node s i) = internal_path) [0..<clks_fs_nodes_used s]"

definition clks_fs_find_node_by_external :: "string option \<Rightarrow> 'd fs_state \<Rightarrow> nat option" where
  "clks_fs_find_node_by_external external_path s =
     (case clks_fs_normalize_external_path external_path CLKS_FS_PATH_MAX of
        None \<Rightarrow> None | Some internal \<Rightarrow> clks_fs_find_node_by_internal internal s)"

definition clks_fs_external_path_equals :: "string option \<Rightarrow> string \<Rightarrow> bool" where
  "clks_fs_external_path_equals path expected \<longleftrightarrow> path = Some expected"

definition clks_fs_is_dynamic_dev_dir :: "string option \<Rightarrow> bool" where
  "clks_fs_is_dynamic_dev_dir path \<longleftrightarrow>
     clks_fs_external_path_equals path ''/dev'' \<or> clks_fs_external_path_equals path ''/dev/input''"

definition clks_fs_is_dynamic_dev_file :: "string option \<Rightarrow> bool" where
  "clks_fs_is_dynamic_dev_file path \<longleftrightarrow>
     list_ex (clks_fs_external_path_equals path)
       [''/dev/fb0'', ''/dev/net0'', ''/dev/disk0'', ''/dev/tty0'', ''/dev/input/kbd'', ''/dev/input/mouse'']"

definition clks_fs_internal_path_is_dynamic_dev_file :: "string \<Rightarrow> bool" where
  "clks_fs_internal_path_is_dynamic_dev_file internal_path \<longleftrightarrow>
     internal_path \<in> {''dev/fb0'', ''dev/net0'', ''dev/disk0'', ''dev/tty0'', ''dev/input/kbd'', ''dev/input/mouse''}"

definition clks_fs_internal_path_is_proc_tree :: "string \<Rightarrow> bool" where
  "clks_fs_internal_path_is_proc_tree internal_path \<longleftrightarrow>
     take 4 internal_path = ''proc'' \<and> (length internal_path = 4 \<or> internal_path ! 4 = slash)"

definition clks_fs_internal_writable_node_path :: "string \<Rightarrow> bool" where
  "clks_fs_internal_writable_node_path internal_path \<longleftrightarrow> internal_path \<noteq> [] \<and>
     \<not> clks_fs_internal_path_is_proc_tree internal_path \<and>
     \<not> clks_fs_internal_path_is_dynamic_dev_file internal_path"

definition clks_fs_dynamic_dev_child_count :: "string option \<Rightarrow> nat" where
  "clks_fs_dynamic_dev_child_count dir_path =
     (if clks_fs_external_path_equals dir_path ''/dev'' then length clks_fs_dev_children
      else if clks_fs_external_path_equals dir_path ''/dev/input'' then length clks_fs_dev_input_children
      else 0)"

definition clks_fs_dynamic_dev_child_name :: "string option \<Rightarrow> nat \<Rightarrow> nat \<Rightarrow> string option" where
  "clks_fs_dynamic_dev_child_name dir_path index out_name_size =
     (if out_name_size = 0 then None
      else
        let name = (if clks_fs_external_path_equals dir_path ''/dev'' then
                      if index \<ge> length clks_fs_dev_children then None
                      else Some (clks_fs_dev_children ! index)
                    else if clks_fs_external_path_equals dir_path ''/dev/input'' then
                      if index \<ge> length clks_fs_dev_input_children then None
                      else Some (clks_fs_dev_input_children ! index)
                    else None)
        in case name of None \<Rightarrow> None
           | Some n \<Rightarrow> if length n + 1 > out_name_size then None else Some n)"

definition clks_fs_basename :: "string \<Rightarrow> string" where
  "clks_fs_basename internal_path = rev (takeWhile (\<lambda>c. c \<noteq> slash) (rev internal_path))"

text \<open>The part before the last slash; empty when there is no slash.\<close>

definition clks_fs_split_parent :: "string \<Rightarrow> nat \<Rightarrow> string option" where
  "clks_fs_split_parent internal_path parent_out_size =
     (let front = rev (dropWhile (\<lambda>c. c \<noteq> slash) (rev internal_path)) in
      if parent_out_size = 0 then None
      else if front = [] then Some []
      else if length front - 1 \<ge> parent_out_size then None
      else Some (butlast front))"

section \<open>Nodes\<close>

definition clks_fs_node_has_heap_data :: "nat \<Rightarrow> 'd fs_state \<Rightarrow> bool" where
  "clks_fs_node_has_heap_data i s \<longleftrightarrow> fn_reserved (fs_node s i) AND CLKS_FS_NODE_FLAG_HEAP_DATA \<noteq> 0"

definition clks_fs_node_set_heap_data :: "nat \<Rightarrow> bool \<Rightarrow> 'd fs_state \<Rightarrow> 'd fs_state" where
  "clks_fs_node_set_heap_data i value s =
     fs_set_node i (\<lambda>n. n\<lparr>fn_reserved :=
       (if value then fn_reserved n OR CLKS_FS_NODE_FLAG_HEAP_DATA
        else fn_reserved n AND NOT CLKS_FS_NODE_FLAG_HEAP_DATA)\<rparr>) s"

definition clks_fs_node_release_heap_data :: "nat \<Rightarrow> 'd fs_state \<Rightarrow> 'd fs_state" where
  "clks_fs_node_release_heap_data i s =
     (if fn_type (fs_node s i) \<noteq> FS_NODE_FILE then s
      else
        let s1 = (if clks_fs_node_has_heap_data i s then
                    (case fn_data (fs_node s i) of
                       Data_Heap p \<Rightarrow> s\<lparr>fs_heap := clks_kfree (Some p) (fs_heap s)\<rparr>
                     | _ \<Rightarrow> s)
                  else s)
        in clks_fs_node_set_heap_data i False s1)"

definition clks_fs_alloc_slot :: "'d fs_state \<Rightarrow> nat option \<times> 'd fs_state" where
  "clks_fs_alloc_slot s =
     (case find (\<lambda>i. \<not> fn_used (fs_node s i)) [0..<clks_fs_nodes_used s] of
        Some i \<Rightarrow> (Some i, s)
      | None \<Rightarrow>
          if clks_fs_nodes_used s \<ge> CLKS_FS_MAX_NODES then (None, s)
          else (Some (clks_fs_nodes_used s), s\<lparr>clks_fs_nodes_used := clks_fs_nodes_used s + 1\<rparr>))"

definition clks_fs_create_or_update_node ::
  "string \<Rightarrow> clks_fs_node_type \<Rightarrow> nat \<Rightarrow> fs_data \<Rightarrow> nat \<Rightarrow> 'd fs_state \<Rightarrow> nat option \<times> 'd fs_state" where
  "clks_fs_create_or_update_node internal_path type parent data n s =
     (if length internal_path \<ge> CLKS_FS_PATH_MAX then (None, s)
      else case clks_fs_find_node_by_internal internal_path s of
        Some i \<Rightarrow>
          if fn_type (fs_node s i) \<noteq> type then (None, s)
          else
            (Some i, fs_set_node i (\<lambda>m.
               (if type = FS_NODE_FILE
                then m\<lparr>fn_parent := parent, fn_data := data, fn_size := n, fn_reserved := 0, fn_used := True\<rparr>
                else m\<lparr>fn_parent := parent, fn_used := True\<rparr>)) s)
      | None \<Rightarrow>
          (case clks_fs_alloc_slot s of (None, s1) \<Rightarrow> (None, s1)
           | (Some i, s1) \<Rightarrow>
               (Some i, fs_set_node i (\<lambda>_. \<lparr>fn_used = True, fn_type = type, fn_parent = parent,
                  fn_reserved = 0, fn_data = (if type = FS_NODE_FILE then data else Data_Null),
                  fn_size = (if type = FS_NODE_FILE then n else 0), fn_path = internal_path\<rparr>) s1)))"

definition clks_fs_ensure_root :: "'d fs_state \<Rightarrow> bool \<times> 'd fs_state" where
  "clks_fs_ensure_root s =
     (case clks_fs_create_or_update_node [] FS_NODE_DIR 0 Data_Null 0 s of (r, s') \<Rightarrow> (r = Some 0, s'))"

text \<open>The component loop of \<open>clks_fs_ensure_dir_hierarchy\<close>: the prefix built so far, what is left.\<close>

function fs_ensure_loop :: "string \<Rightarrow> string \<Rightarrow> nat \<Rightarrow> 'd fs_state \<Rightarrow> bool \<times> 'd fs_state" where
  "fs_ensure_loop prefix rest current_parent s =
     (if rest = [] then (True, s)
      else
        let comp = takeWhile (\<lambda>c. c \<noteq> slash) rest;
            after = drop (length comp) rest;
            rest' = (if after = [] then [] else tl after) in
        if comp = [] then (False, s)
        else if prefix \<noteq> [] \<and> length prefix + 1 \<ge> CLKS_FS_PATH_MAX then (False, s)
        else
          let prefix1 = (if prefix \<noteq> [] then prefix @ [slash] else prefix) in
          if length prefix1 + length comp \<ge> CLKS_FS_PATH_MAX then (False, s)
          else
            let prefix2 = prefix1 @ comp in
            case clks_fs_find_node_by_internal prefix2 s of
              None \<Rightarrow>
                (case clks_fs_create_or_update_node prefix2 FS_NODE_DIR current_parent Data_Null 0 s of
                   (None, s1) \<Rightarrow> (False, s1)
                 | (Some i, s1) \<Rightarrow> fs_ensure_loop prefix2 rest' i s1)
            | Some i \<Rightarrow>
                if fn_type (fs_node s i) \<noteq> FS_NODE_DIR then (False, s)
                else fs_ensure_loop prefix2 rest' i s)"
  by pat_completeness auto
termination
  by (relation "measure (\<lambda>(_, rest, _, _). length rest)") (auto simp: neq_Nil_conv)

declare fs_ensure_loop.simps [simp del]

definition clks_fs_ensure_dir_hierarchy :: "string \<Rightarrow> 'd fs_state \<Rightarrow> bool \<times> 'd fs_state" where
  "clks_fs_ensure_dir_hierarchy internal_dir_path s = fs_ensure_loop [] internal_dir_path 0 s"

section \<open>Building the tree\<close>

definition clks_fs_require_directory :: "'d disk_ops \<Rightarrow> string \<Rightarrow> 'd fs_state \<Rightarrow> bool" where
  "clks_fs_require_directory dk external_path s =
     (if clks_fs_is_dynamic_dev_dir (Some external_path) then True
      else if in_mount dk (Some external_path) s then
        (case dk_stat dk external_path (fs_disk s) of None \<Rightarrow> False | Some (is_dir, _) \<Rightarrow> is_dir)
      else case clks_fs_find_node_by_external (Some external_path) s of
        None \<Rightarrow> False
      | Some i \<Rightarrow> fn_type (fs_node s i) = FS_NODE_DIR)"

text \<open>A C string of the ramdisk reader as a HOL string.\<close>

definition path_string :: "u8 list \<Rightarrow> string" where
  "path_string bs = map (\<lambda>b. char_of (unat b)) bs"

definition clks_fs_ramdisk_visit ::
  "clks_ramdisk_entry \<Rightarrow> clks_fs_build_stats \<times> 'd fs_state \<Rightarrow> bool \<times> clks_fs_build_stats \<times> 'd fs_state" where
  "clks_fs_ramdisk_visit entry ctx =
     (let (stats, s) = ctx; path = path_string (re_path entry) in
      case re_type entry of
        RAMDISK_ENTRY_DIR \<Rightarrow>
          (case clks_fs_ensure_dir_hierarchy path s of (ok, s1) \<Rightarrow>
             if \<not> ok then (False, stats, s1)
             else (True, stats\<lparr>bs_dir_count := bs_dir_count stats + 1\<rparr>, s1))
      | RAMDISK_ENTRY_FILE \<Rightarrow>
          (case clks_fs_split_parent path CLKS_FS_PATH_MAX of
             None \<Rightarrow> (False, stats, s)
           | Some parent \<Rightarrow>
               (case clks_fs_ensure_dir_hierarchy parent s of (ok, s1) \<Rightarrow>
                  if \<not> ok then (False, stats, s1)
                  else case clks_fs_find_node_by_internal parent s1 of
                    None \<Rightarrow> (False, stats, s1)
                  | Some parent_index \<Rightarrow>
                      (case clks_fs_create_or_update_node path FS_NODE_FILE parent_index
                              (case re_data entry of None \<Rightarrow> Data_Null | Some off \<Rightarrow> Data_Image off)
                              (re_size entry) s1 of
                         (None, s2) \<Rightarrow> (False, stats, s2)
                       | (Some _, s2) \<Rightarrow>
                           (True, stats\<lparr>bs_file_count := bs_file_count stats + 1\<rparr>, s2)))))"

text \<open>\<open>clks_memcpy\<close> of a list of bytes to a heap address.\<close>

definition fs_put :: "nat \<Rightarrow> u8 list \<Rightarrow> (nat \<Rightarrow> u8) \<Rightarrow> nat \<Rightarrow> u8" where
  "fs_put p bs m a = (if p \<le> a \<and> a < p + length bs then bs ! (a - p) else m a)"

definition clks_fs_build_file_payload ::
  "u8 list option \<Rightarrow> nat \<Rightarrow> 'd fs_state \<Rightarrow> ((fs_data \<times> bool) option \<times> 'd fs_state) option" where
  "clks_fs_build_file_payload data n s =
     (if n = 0 then Some (Some (Data_Empty, False), s)
      else case data of None \<Rightarrow> Some (None, s)
      | Some bytes \<Rightarrow>
          Option.bind (clks_kmalloc n (fs_heap s)) (\<lambda>(r, h).
            case r of None \<Rightarrow> Some (None, s\<lparr>fs_heap := h\<rparr>)
            | Some p \<Rightarrow> Some (Some (Data_Heap p, True),
                s\<lparr>fs_heap := h, fs_bytes := fs_put p (take n bytes) (fs_bytes s)\<rparr>)))"

definition fs_required_directories :: "string list" where
  "fs_required_directories =
     [''/system'', ''/system/configs'', ''/system/cache'', ''/system/databases'', ''/system/others'',
      ''/system/drivers'', ''/shell'', ''/shell/apps'', ''/shell/data'', ''/inputm'', ''/temp'',
      ''/tests'', ''/dev'']"

text \<open>The state after the first lines of \<open>clks_fs_init\<close>: no node, not ready.\<close>

definition fs_cleared :: "'d fs_state \<Rightarrow> 'd fs_state" where
  "fs_cleared s = s\<lparr>clks_fs_ready := False, clks_fs_nodes_used := 0,
     clks_fs_nodes := replicate CLKS_FS_MAX_NODES zero_node\<rparr>"

text \<open>
  The boot modules: the number of modules the boot loader reports and the first of them, its bytes
  (\<open>None\<close> for a null module or address). The image is kept for the files that point into it.
\<close>

definition clks_fs_init ::
  "'d disk_ops \<Rightarrow> nat \<Rightarrow> u8 list option \<Rightarrow> 'd fs_state \<Rightarrow> 'd fs_state option" where
  "clks_fs_init dk module_count module s =
     (case clks_fs_ensure_root (fs_cleared s) of (root, s1) \<Rightarrow>
        if \<not> root then Some s1
        else
          let finish = (\<lambda>ramdisk_online s3.
                let s4 = snd (disk_call (dk_init dk) s3);
                    s5 = (if dk_present dk (fs_disk s4) \<and> \<not> ramdisk_online \<and> dk_formatted dk (fs_disk s4)
                          then snd (disk_call (dk_mount dk ''/'') s4) else s4)
                in if list_all (\<lambda>p. clks_fs_require_directory dk p s5) fs_required_directories
                   then s5\<lparr>clks_fs_ready := True\<rparr> else s5) in
          if module_count \<noteq> 0 then
            (case module of None \<Rightarrow> Some s1
             | Some img \<Rightarrow>
                 if img = [] then Some s1
                 else
                   Option.bind (clks_ramdisk_iterate (Some img) (Some clks_fs_ramdisk_visit)
                       (\<lparr>bs_file_count = 0, bs_dir_count = 0\<rparr>, s1\<lparr>fs_image := img\<rparr>))
                     (\<lambda>(ok, _, s2). if \<not> ok then Some s2 else Some (finish True s2)))
          else Some (finish False s1))"

section \<open>The interface\<close>

definition clks_fs_is_ready :: "'d fs_state \<Rightarrow> bool" where
  "clks_fs_is_ready s = clks_fs_ready s"

definition clks_fs_stat :: "'d disk_ops \<Rightarrow> string option \<Rightarrow> 'd fs_state \<Rightarrow> clks_fs_node_info option" where
  "clks_fs_stat dk path s =
     (if \<not> clks_fs_ready s then None
      else if clks_fs_is_dynamic_dev_dir path then Some \<lparr>ni_type = FS_NODE_DIR, ni_size = 0\<rparr>
      else if in_mount dk path s then
        map_option (\<lambda>(is_dir, n). \<lparr>ni_type = (if is_dir then FS_NODE_DIR else FS_NODE_FILE), ni_size = n\<rparr>)
          (dk_stat dk (the path) (fs_disk s))
      else if clks_fs_is_dynamic_dev_file path then Some \<lparr>ni_type = FS_NODE_FILE, ni_size = 0\<rparr>
      else map_option (\<lambda>i. \<lparr>ni_type = fn_type (fs_node s i), ni_size = fn_size (fs_node s i)\<rparr>)
             (clks_fs_find_node_by_external path s))"

text \<open>The bytes behind the data pointer of a node.\<close>

definition fs_node_bytes :: "'d fs_state \<Rightarrow> clks_fs_node \<Rightarrow> u8 list" where
  "fs_node_bytes s n =
     (case fn_data n of
        Data_Null \<Rightarrow> []
      | Data_Empty \<Rightarrow> []
      | Data_Image off \<Rightarrow> take (fn_size n) (drop off (fs_image s))
      | Data_Heap p \<Rightarrow> map (fs_bytes s) [p..<p + fn_size n])"

definition clks_fs_read_all :: "'d disk_ops \<Rightarrow> string option \<Rightarrow> 'd fs_state \<Rightarrow> u8 list option \<times> 'd fs_state" where
  "clks_fs_read_all dk path s =
     (if \<not> clks_fs_ready s then (None, s)
      else if in_mount dk path s then
        disk_call (dk_read_all dk (the path)) s
      else case clks_fs_find_node_by_external path s of
        None \<Rightarrow> (None, s)
      | Some i \<Rightarrow>
          if fn_type (fs_node s i) \<noteq> FS_NODE_FILE then (None, s)
          else if fn_size (fs_node s i) = 0 then (Some [], s)
          else if fn_data (fs_node s i) = Data_Null then (None, s)
          else (Some (fs_node_bytes s (fs_node s i)), s))"

text \<open>The nodes below a directory, in the order of the table.\<close>

definition fs_children :: "nat \<Rightarrow> 'd fs_state \<Rightarrow> nat list" where
  "fs_children dir_index s =
     filter (\<lambda>i. fn_used (fs_node s i) \<and> dir_index \<noteq> i \<and> fn_parent (fs_node s i) = dir_index)
       [0..<clks_fs_nodes_used s]"

definition clks_fs_count_children :: "'d disk_ops \<Rightarrow> string option \<Rightarrow> 'd fs_state \<Rightarrow> nat" where
  "clks_fs_count_children dk dir_path s =
     (if \<not> clks_fs_ready s then 0
      else if clks_fs_is_dynamic_dev_dir dir_path then clks_fs_dynamic_dev_child_count dir_path
      else if in_mount dk dir_path s then dk_count_children dk (the dir_path) (fs_disk s)
      else case clks_fs_find_node_by_external dir_path s of
        None \<Rightarrow> 0
      | Some i \<Rightarrow>
          if fn_type (fs_node s i) \<noteq> FS_NODE_DIR then 0
          else length (fs_children i s) + clks_fs_dynamic_dev_child_count dir_path)"

definition clks_fs_get_child_name ::
  "'d disk_ops \<Rightarrow> string option \<Rightarrow> nat \<Rightarrow> nat \<Rightarrow> 'd fs_state \<Rightarrow> string option" where
  "clks_fs_get_child_name dk dir_path index out_name_size s =
     (if \<not> clks_fs_ready s \<or> out_name_size = 0 then None
      else if clks_fs_is_dynamic_dev_dir dir_path then
        clks_fs_dynamic_dev_child_name dir_path index out_name_size
      else if in_mount dk dir_path s then
        dk_get_child_name dk (the dir_path) index out_name_size (fs_disk s)
      else case clks_fs_find_node_by_external dir_path s of
        None \<Rightarrow> None
      | Some i \<Rightarrow>
          if fn_type (fs_node s i) \<noteq> FS_NODE_DIR then None
          else if index < length (fs_children i s) then
            (let base = clks_fs_basename (fn_path (fs_node s (fs_children i s ! index))) in
             if length base + 1 > out_name_size then None else Some base)
          else clks_fs_dynamic_dev_child_name dir_path (index - length (fs_children i s)) out_name_size)"

definition clks_fs_mkdir :: "'d disk_ops \<Rightarrow> string option \<Rightarrow> 'd fs_state \<Rightarrow> bool \<times> 'd fs_state" where
  "clks_fs_mkdir dk path s =
     (if \<not> clks_fs_ready s \<or> path = None then (False, s)
      else if in_mount dk path s then
        disk_call (dk_mkdir dk (the path)) s
      else case clks_fs_normalize_external_path path CLKS_FS_PATH_MAX of
        None \<Rightarrow> (False, s)
      | Some internal \<Rightarrow>
          if \<not> clks_fs_internal_writable_node_path internal then (False, s)
          else case clks_fs_ensure_dir_hierarchy internal s of (ok, s1) \<Rightarrow>
            if \<not> ok then (False, s1)
            else case clks_fs_find_node_by_internal internal s1 of
              None \<Rightarrow> (False, s1)
            | Some i \<Rightarrow> (fn_type (fs_node s1 i) = FS_NODE_DIR, s1))"

text \<open>A file written: the rest of \<open>clks_fs_write_all\<close>, from the payload on.\<close>

definition fs_write_payload ::
  "string \<Rightarrow> nat \<Rightarrow> u8 list option \<Rightarrow> nat \<Rightarrow> 'd fs_state \<Rightarrow> (bool \<times> 'd fs_state) option" where
  "fs_write_payload internal parent_index data n s1 =
     Option.bind (clks_fs_build_file_payload data n s1) (\<lambda>(payload, s2).
       case payload of None \<Rightarrow> Some (False, s2)
       | Some (payload_data, payload_heap_owned) \<Rightarrow>
           let s3 = (case clks_fs_find_node_by_internal internal s1 of
                Some i \<Rightarrow> clks_fs_node_release_heap_data i s2 | None \<Rightarrow> s2) in
           case clks_fs_create_or_update_node internal FS_NODE_FILE parent_index payload_data n s3 of
             (None, s4) \<Rightarrow>
               Some (False,
                 (case payload_data of
                    Data_Heap p \<Rightarrow>
                      if payload_heap_owned then s4\<lparr>fs_heap := clks_kfree (Some p) (fs_heap s4)\<rparr> else s4
                  | _ \<Rightarrow> s4))
           | (Some i, s4) \<Rightarrow> Some (True, clks_fs_node_set_heap_data i payload_heap_owned s4))"

definition clks_fs_write_all ::
  "'d disk_ops \<Rightarrow> string option \<Rightarrow> u8 list option \<Rightarrow> nat \<Rightarrow> 'd fs_state \<Rightarrow> (bool \<times> 'd fs_state) option" where
  "clks_fs_write_all dk path data n s =
     (if \<not> clks_fs_ready s \<or> path = None then Some (False, s)
      else if in_mount dk path s then
        Some (disk_call (dk_write_all dk (the path) data n) s)
      else case clks_fs_normalize_external_path path CLKS_FS_PATH_MAX of
        None \<Rightarrow> Some (False, s)
      | Some internal \<Rightarrow>
          if \<not> clks_fs_internal_writable_node_path internal then Some (False, s)
          else case clks_fs_split_parent internal CLKS_FS_PATH_MAX of
            None \<Rightarrow> Some (False, s)
          | Some parent \<Rightarrow>
              (case clks_fs_ensure_dir_hierarchy parent s of (ok, s1) \<Rightarrow>
                 if \<not> ok then Some (False, s1)
                 else case clks_fs_find_node_by_internal parent s1 of
                   None \<Rightarrow> Some (False, s1)
                 | Some parent_index \<Rightarrow>
                     if fn_type (fs_node s1 parent_index) \<noteq> FS_NODE_DIR then Some (False, s1)
                     else if (case clks_fs_find_node_by_internal internal s1 of
                                Some i \<Rightarrow> fn_type (fs_node s1 i) \<noteq> FS_NODE_FILE | None \<Rightarrow> False)
                     then Some (False, s1)
                     else fs_write_payload internal parent_index data n s1))"

text \<open>The bytes after the two copies of \<open>clks_fs_append\<close>: the old data of the node, then the new.\<close>

definition fs_merge_bytes :: "nat \<Rightarrow> clks_fs_node \<Rightarrow> u8 list option \<Rightarrow> nat \<Rightarrow> 'd fs_state \<Rightarrow> nat \<Rightarrow> u8" where
  "fs_merge_bytes merged node data n s =
     (let old_size = fn_size node;
          b1 = (if old_size > 0 \<and> fn_data node \<noteq> Data_Null
                then fs_put merged (fs_node_bytes s node) (fs_bytes s) else fs_bytes s)
      in if n > 0 then fs_put (merged + old_size) (take n (the data)) b1 else b1)"

definition clks_fs_append ::
  "'d disk_ops \<Rightarrow> string option \<Rightarrow> u8 list option \<Rightarrow> nat \<Rightarrow> 'd fs_state \<Rightarrow> (bool \<times> 'd fs_state) option" where
  "clks_fs_append dk path data n s =
     (if \<not> clks_fs_ready s \<or> path = None then Some (False, s)
      else if in_mount dk path s then
        Some (disk_call (dk_append dk (the path) data n) s)
      else if n > 0 \<and> data = None then Some (False, s)
      else case clks_fs_normalize_external_path path CLKS_FS_PATH_MAX of
        None \<Rightarrow> Some (False, s)
      | Some internal \<Rightarrow>
          if \<not> clks_fs_internal_writable_node_path internal then Some (False, s)
          else case clks_fs_find_node_by_internal internal s of
            None \<Rightarrow> clks_fs_write_all dk path data n s
          | Some i \<Rightarrow>
              if fn_type (fs_node s i) \<noteq> FS_NODE_FILE then Some (False, s)
              else
                let old_size = fn_size (fs_node s i) in
                if old_size > USIZE_RANGE - 1 - n then Some (False, s)
                else
                  let new_size = old_size + n in
                  if new_size = 0 then clks_fs_write_all dk path (Some [0]) 0 s
                  else Option.bind (clks_kmalloc new_size (fs_heap s)) (\<lambda>(r, h).
                    case r of None \<Rightarrow> Some (False, s\<lparr>fs_heap := h\<rparr>)
                    | Some merged \<Rightarrow>
                        let s1 = s\<lparr>fs_heap := h, fs_bytes := fs_merge_bytes merged (fs_node s i) data n s\<rparr>
                        in Option.bind
                             (clks_fs_write_all dk path (Some (map (fs_bytes s1) [merged..<merged + new_size])) new_size s1)
                             (\<lambda>(ok, s4). Some (ok, s4\<lparr>fs_heap := clks_kfree (Some merged) (fs_heap s4)\<rparr>))))"

definition clks_fs_remove :: "'d disk_ops \<Rightarrow> string option \<Rightarrow> 'd fs_state \<Rightarrow> bool \<times> 'd fs_state" where
  "clks_fs_remove dk path s =
     (if \<not> clks_fs_ready s \<or> path = None then (False, s)
      else if in_mount dk path s then
        disk_call (dk_remove dk (the path)) s
      else case clks_fs_normalize_external_path path CLKS_FS_PATH_MAX of
        None \<Rightarrow> (False, s)
      | Some internal \<Rightarrow>
          if \<not> clks_fs_internal_writable_node_path internal then (False, s)
          else case clks_fs_find_node_by_internal internal s of
            None \<Rightarrow> (False, s)
          | Some i \<Rightarrow>
              if fn_type (fs_node s i) = FS_NODE_DIR \<and>
                 list_ex (\<lambda>j. fn_used (fs_node s j) \<and> fn_parent (fs_node s j) = i) [0..<clks_fs_nodes_used s]
              then (False, s)
              else
                let s1 = clks_fs_node_release_heap_data i s
                in (True, fs_set_node i (\<lambda>n. n\<lparr>fn_used := False, fn_type := FS_NODE_FILE, fn_parent := 0,
                      fn_reserved := 0, fn_data := Data_Null, fn_size := 0, fn_path := []\<rparr>) s1))"

definition clks_fs_node_count :: "'d disk_ops \<Rightarrow> 'd fs_state \<Rightarrow> nat" where
  "clks_fs_node_count dk s =
     (if \<not> clks_fs_ready s then 0
      else length (filter (\<lambda>i. fn_used (fs_node s i)) [0..<clks_fs_nodes_used s]) +
           (if dk_is_mounted dk (fs_disk s) then dk_node_count dk (fs_disk s) else 0))"

section \<open>The tree\<close>

definition path_parent :: "string \<Rightarrow> string" where
  "path_parent p = butlast (rev (dropWhile (\<lambda>c. c \<noteq> slash) (rev p)))"

lemma split_parent_eq:
  "length p < CLKS_FS_PATH_MAX \<Longrightarrow> clks_fs_split_parent p CLKS_FS_PATH_MAX = Some (path_parent p)"
proof -
  assume *: "length p < CLKS_FS_PATH_MAX"
  define front where "front = rev (dropWhile (\<lambda>c. c \<noteq> slash) (rev p))"
  have "length front \<le> length p"
    using length_dropWhile_le [of "\<lambda>c. c \<noteq> slash" "rev p"] by (simp add: front_def)
  with * have "\<not> CLKS_FS_PATH_MAX \<le> length front - 1" "CLKS_FS_PATH_MAX \<noteq> 0" by simp_all
  then show ?thesis
    unfolding clks_fs_split_parent_def path_parent_def front_def [symmetric] Let_def
    by (cases "front = []") simp_all
qed

lemma path_parent_append:
  assumes "slash \<notin> set c"
  shows "path_parent (p @ slash # c) = p" and "path_parent c = []"
proof -
  have "dropWhile (\<lambda>c. c \<noteq> slash) (rev c @ slash # rev p) = slash # rev p"
    using assms by (subst dropWhile_append2) auto
  then show "path_parent (p @ slash # c) = p" by (simp add: path_parent_def)
  have "dropWhile (\<lambda>c. c \<noteq> slash) (rev c) = []" using assms by auto
  then show "path_parent c = []" by (simp only: path_parent_def rev.simps butlast.simps)
qed

definition fs_live :: "'d fs_state \<Rightarrow> nat \<Rightarrow> bool" where
  "fs_live s i \<longleftrightarrow> i < clks_fs_nodes_used s \<and> fn_used (fs_node s i)"

text \<open>
  The invariant of the node table: the root is node 0; paths are unique and short; every other node
  hangs below a live directory whose path is the part of its own before the last slash.
\<close>

definition fs_table_ok :: "'d fs_state \<Rightarrow> bool" where
  "fs_table_ok s \<longleftrightarrow> length (clks_fs_nodes s) = CLKS_FS_MAX_NODES \<and> clks_fs_nodes_used s \<le> CLKS_FS_MAX_NODES \<and>
     (\<forall>i < CLKS_FS_MAX_NODES. clks_fs_nodes_used s \<le> i \<longrightarrow> \<not> fn_used (fs_node s i)) \<and>
     fs_live s 0 \<and> fn_type (fs_node s 0) = FS_NODE_DIR \<and> fn_path (fs_node s 0) = [] \<and> fn_parent (fs_node s 0) = 0 \<and>
     (\<forall>i. fs_live s i \<longrightarrow> length (fn_path (fs_node s i)) < CLKS_FS_PATH_MAX \<and> fn_type (fs_node s i) \<noteq> FS_NODE_NONE) \<and>
     (\<forall>i j. fs_live s i \<longrightarrow> fs_live s j \<longrightarrow> fn_path (fs_node s i) = fn_path (fs_node s j) \<longrightarrow> i = j) \<and>
     (\<forall>i. fs_live s i \<longrightarrow> i \<noteq> 0 \<longrightarrow> fn_path (fs_node s i) \<noteq> [] \<and> fs_live s (fn_parent (fs_node s i)) \<and>
        fn_type (fs_node s (fn_parent (fs_node s i))) = FS_NODE_DIR \<and>
        fn_path (fs_node s (fn_parent (fs_node s i))) = path_parent (fn_path (fs_node s i))) \<and>
     (\<forall>i. fs_live s i \<longrightarrow> i \<noteq> 0 \<longrightarrow> last (fn_path (fs_node s i)) \<noteq> slash)"

lemma fs_table_last: "fs_table_ok s \<Longrightarrow> fs_live s i \<Longrightarrow> i \<noteq> 0 \<Longrightarrow> last (fn_path (fs_node s i)) \<noteq> slash"
  unfolding fs_table_ok_def by blast

lemma fs_table_live:
  assumes "fs_table_ok s" "fs_live s i"
  shows "i < CLKS_FS_MAX_NODES" "i < length (clks_fs_nodes s)" "i < clks_fs_nodes_used s"
    "length (fn_path (fs_node s i)) < CLKS_FS_PATH_MAX" "fn_type (fs_node s i) \<noteq> FS_NODE_NONE"
  using assms unfolding fs_table_ok_def by (auto simp: fs_live_def)

lemma fs_table_unique:
  "fs_table_ok s \<Longrightarrow> fs_live s i \<Longrightarrow> fs_live s j \<Longrightarrow> fn_path (fs_node s i) = fn_path (fs_node s j) \<Longrightarrow> i = j"
  unfolding fs_table_ok_def by blast

lemma fs_table_root:
  "fs_table_ok s \<Longrightarrow> fs_live s 0 \<and> fn_type (fs_node s 0) = FS_NODE_DIR \<and> fn_path (fs_node s 0) = [] \<and>
     fn_parent (fs_node s 0) = 0"
  unfolding fs_table_ok_def by blast

lemma fs_table_parent:
  "fs_table_ok s \<Longrightarrow> fs_live s i \<Longrightarrow> i \<noteq> 0 \<Longrightarrow> fn_path (fs_node s i) \<noteq> [] \<and>
     fs_live s (fn_parent (fs_node s i)) \<and> fn_type (fs_node s (fn_parent (fs_node s i))) = FS_NODE_DIR \<and>
     fn_path (fs_node s (fn_parent (fs_node s i))) = path_parent (fn_path (fs_node s i))"
  unfolding fs_table_ok_def by blast

lemma find_internal_Some:
  "clks_fs_find_node_by_internal p s = Some i \<Longrightarrow> fs_live s i \<and> fn_path (fs_node s i) = p"
  by (auto simp: clks_fs_find_node_by_internal_def fs_live_def dest: find_Some_in)

lemma find_internal_iff:
  assumes "fs_table_ok s"
  shows "clks_fs_find_node_by_internal p s = Some i \<longleftrightarrow> fs_live s i \<and> fn_path (fs_node s i) = p"
proof
  assume *: "fs_live s i \<and> fn_path (fs_node s i) = p"
  show "clks_fs_find_node_by_internal p s = Some i"
    unfolding clks_fs_find_node_by_internal_def
    by (rule find_upt_unique)
      (use * fs_table_unique [OF assms] in \<open>auto simp: fs_live_def\<close>)
qed (rule find_internal_Some)

lemma find_internal_None:
  "clks_fs_find_node_by_internal p s = None \<longleftrightarrow> (\<forall>i. fs_live s i \<longrightarrow> fn_path (fs_node s i) \<noteq> p)"
  by (auto simp: clks_fs_find_node_by_internal_def find_None_iff fs_live_def)

text \<open>Storing a node in a slot that is free, or that holds a live node with the same path and type.\<close>

lemma fs_set_node_simps [simp]:
  "clks_fs_nodes_used (fs_set_node i f s) = clks_fs_nodes_used s"
  "fs_heap (fs_set_node i f s) = fs_heap s" "fs_bytes (fs_set_node i f s) = fs_bytes s"
  "fs_image (fs_set_node i f s) = fs_image s" "fs_disk (fs_set_node i f s) = fs_disk s"
  "clks_fs_ready (fs_set_node i f s) = clks_fs_ready s"
  "length (clks_fs_nodes (fs_set_node i f s)) = length (clks_fs_nodes s)"
  by (simp_all add: fs_set_node_def)

lemma fs_set_node_nth:
  "i < length (clks_fs_nodes s) \<Longrightarrow> fs_node (fs_set_node i f s) j = (if j = i then f (fs_node s i) else fs_node s j)"
  by (simp add: fs_set_node_def)

lemma fs_table_store:
  assumes t: "fs_table_ok s" and i: "i < clks_fs_nodes_used s" "i \<noteq> 0"
    and m: "fn_used m" "fn_type m \<noteq> FS_NODE_NONE" "length (fn_path m) < CLKS_FS_PATH_MAX" "fn_path m \<noteq> []" "last (fn_path m) \<noteq> slash"
    and old: "fn_used (fs_node s i) \<Longrightarrow> fn_path (fs_node s i) = fn_path m \<and> fn_type (fs_node s i) = fn_type m"
    and free: "\<not> fn_used (fs_node s i) \<Longrightarrow> clks_fs_find_node_by_internal (fn_path m) s = None"
    and par: "fs_live s (fn_parent m)" "fn_type (fs_node s (fn_parent m)) = FS_NODE_DIR"
      "fn_path (fs_node s (fn_parent m)) = path_parent (fn_path m)" "fn_parent m \<noteq> i"
  shows "fs_table_ok (fs_set_node i (\<lambda>_. m) s)"
    and "clks_fs_find_node_by_internal q (fs_set_node i (\<lambda>_. m) s) =
      (if q = fn_path m then Some i else clks_fs_find_node_by_internal q s)"
proof -
  let ?s = "fs_set_node i (\<lambda>_. m) s"
  have len: "i < length (clks_fs_nodes s)" using t i by (simp add: fs_table_ok_def)
  have nth: "fs_node ?s j = (if j = i then m else fs_node s j)" for j by (rule fs_set_node_nth [OF len])
  have live: "fs_live ?s j \<longleftrightarrow> j = i \<or> fs_live s j" for j using nth i m by (auto simp: fs_live_def)
  have other: "fn_path (fs_node s j) \<noteq> fn_path m" if "fs_live s j" "j \<noteq> i" for j
    using that old free fs_table_unique [OF t, of j i] i by (auto simp: find_internal_None fs_live_def)
  have keep: "fn_path (fs_node s i) = fn_path m" if "fs_live s i" using that old by (simp add: fs_live_def)
  show tab: "fs_table_ok ?s"
    unfolding fs_table_ok_def
  proof (intro conjI allI impI)
    show "length (clks_fs_nodes ?s) = CLKS_FS_MAX_NODES" "clks_fs_nodes_used ?s \<le> CLKS_FS_MAX_NODES"
      using t by (simp_all add: fs_table_ok_def)
    show "\<not> fn_used (fs_node ?s j)" if "j < CLKS_FS_MAX_NODES" "clks_fs_nodes_used ?s \<le> j" for j
      using t that i nth by (auto simp: fs_table_ok_def)
    show "fs_live ?s 0" "fn_type (fs_node ?s 0) = FS_NODE_DIR" "fn_path (fs_node ?s 0) = []" "fn_parent (fs_node ?s 0) = 0"
      using fs_table_root [OF t] i(2) live nth by auto
    show "length (fn_path (fs_node ?s j)) < CLKS_FS_PATH_MAX" "fn_type (fs_node ?s j) \<noteq> FS_NODE_NONE"
      if "fs_live ?s j" for j
      using that live nth m fs_table_live [OF t, of j] by auto
    show "j = k" if "fs_live ?s j" "fs_live ?s k" "fn_path (fs_node ?s j) = fn_path (fs_node ?s k)" for j k
      using that live nth other [of j] other [of k] fs_table_unique [OF t, of j k] by (auto split: if_splits)
    fix j
    assume j: "fs_live ?s j" "j \<noteq> 0"
    show "last (fn_path (fs_node ?s j)) \<noteq> slash"
      using j live nth m fs_table_last [OF t, of j] by auto
    show "fn_path (fs_node ?s j) \<noteq> []"
      using j live nth m fs_table_parent [OF t, of j] by auto
    have p: "fs_live s (fn_parent (fs_node ?s j)) \<and>
        (fn_parent (fs_node ?s j) \<noteq> i \<longrightarrow> fn_type (fs_node s (fn_parent (fs_node ?s j))) = FS_NODE_DIR \<and>
          fn_path (fs_node s (fn_parent (fs_node ?s j))) = path_parent (fn_path (fs_node ?s j))) \<and>
        (fn_parent (fs_node ?s j) = i \<longrightarrow> fn_type m = FS_NODE_DIR \<and> fn_path m = path_parent (fn_path (fs_node ?s j)))"
      using j live nth par old fs_table_parent [OF t, of j] by (auto simp: fs_live_def)
    then show "fs_live ?s (fn_parent (fs_node ?s j))" using live by blast
    show "fn_type (fs_node ?s (fn_parent (fs_node ?s j))) = FS_NODE_DIR"
      using p nth [of "fn_parent (fs_node ?s j)"] by (simp split: if_splits)
    show "fn_path (fs_node ?s (fn_parent (fs_node ?s j))) = path_parent (fn_path (fs_node ?s j))"
      using p nth [of "fn_parent (fs_node ?s j)"] by (simp split: if_splits)
  qed
  show "clks_fs_find_node_by_internal q ?s = (if q = fn_path m then Some i else clks_fs_find_node_by_internal q s)"
  proof (rule option_eqI)
    fix j
    show "clks_fs_find_node_by_internal q ?s = Some j \<longleftrightarrow>
        (if q = fn_path m then Some i else clks_fs_find_node_by_internal q s) = Some j"
      using live [of j] nth [of j] other [of j] keep
      by (auto simp: find_internal_iff [OF tab] find_internal_iff [OF t])
  qed
qed

text \<open>Everything but the node table.\<close>

definition fs_same :: "'d fs_state \<Rightarrow> 'd fs_state \<Rightarrow> bool" where
  "fs_same s s' \<longleftrightarrow> fs_heap s' = fs_heap s \<and> fs_bytes s' = fs_bytes s \<and> fs_image s' = fs_image s \<and>
     fs_disk s' = fs_disk s \<and> clks_fs_ready s' = clks_fs_ready s"

lemma fs_same_refl [simp]: "fs_same s s" by (simp add: fs_same_def)

lemma alloc_slot_spec:
  assumes "fs_table_ok s" "clks_fs_alloc_slot s = (r, s')"
  shows "case r of None \<Rightarrow> s' = s
    | Some i \<Rightarrow> i \<noteq> 0 \<and> i < clks_fs_nodes_used s' \<and> \<not> fs_live s i \<and> \<not> fn_used (fs_node s' i) \<and>
        fs_table_ok s' \<and> fs_same s s' \<and> clks_fs_nodes s' = clks_fs_nodes s \<and>
        (\<forall>j. fs_live s' j \<longleftrightarrow> fs_live s j) \<and>
        (\<forall>q. clks_fs_find_node_by_internal q s' = clks_fs_find_node_by_internal q s)"
proof (cases "find (\<lambda>i. \<not> fn_used (fs_node s i)) [0..<clks_fs_nodes_used s]")
  case (Some i)
  then have "i < clks_fs_nodes_used s" "\<not> fn_used (fs_node s i)" by (auto dest: find_Some_in)
  moreover from this have "i \<noteq> 0" using fs_table_root [OF assms(1)] by (auto simp: fs_live_def intro!: gr0I)
  moreover have "r = Some i" "s' = s" using Some assms(2) by (simp_all add: clks_fs_alloc_slot_def)
  ultimately show ?thesis using assms(1) by (simp add: fs_live_def)
next
  case None
  show ?thesis
  proof (cases "clks_fs_nodes_used s \<ge> CLKS_FS_MAX_NODES")
    case True
    with None assms show ?thesis by (auto simp: clks_fs_alloc_slot_def)
  next
    case False
    let ?n = "clks_fs_nodes_used s"
    let ?s = "s\<lparr>clks_fs_nodes_used := ?n + 1\<rparr>"
    have u: "\<not> fn_used (fs_node s ?n)" using assms(1) False unfolding fs_table_ok_def by auto
    have live: "fs_live ?s j \<longleftrightarrow> fs_live s j" for j using u by (auto simp: fs_live_def less_Suc_eq)
    have tab: "fs_table_ok ?s"
      using assms(1) False unfolding fs_table_ok_def live by (simp add: fs_live_def)
    have "clks_fs_find_node_by_internal q ?s = clks_fs_find_node_by_internal q s" for q
      by (rule option_eqI, unfold find_internal_iff [OF tab] find_internal_iff [OF assms(1)] live) simp
    moreover have "?n \<noteq> 0" using fs_table_root [OF assms(1)] by (auto simp: fs_live_def)
    ultimately show ?thesis
      using None False assms u live tab by (auto simp: clks_fs_alloc_slot_def fs_same_def fs_live_def)
  qed
qed

lemma create_new_spec:
  assumes t: "fs_table_ok s" and new: "clks_fs_find_node_by_internal p s = None"
    and p: "p \<noteq> []" "length p < CLKS_FS_PATH_MAX" "last p \<noteq> slash" and type: "type \<noteq> FS_NODE_NONE"
    and par: "clks_fs_find_node_by_internal (path_parent p) s = Some d" "fn_type (fs_node s d) = FS_NODE_DIR"
    and run: "clks_fs_create_or_update_node p type d data n s = (r, s')"
  shows "case r of None \<Rightarrow> s' = s
    | Some i \<Rightarrow> i \<noteq> 0 \<and> \<not> fs_live s i \<and> fs_table_ok s' \<and> fs_same s s' \<and>
        clks_fs_nodes_used s \<le> clks_fs_nodes_used s' \<and> (\<forall>j. fs_live s' j \<longleftrightarrow> j = i \<or> fs_live s j) \<and>
        (\<forall>j. j \<noteq> i \<longrightarrow> fs_node s' j = fs_node s j) \<and>
        fs_node s' i = \<lparr>fn_used = True, fn_type = type, fn_parent = d, fn_reserved = 0,
          fn_data = (if type = FS_NODE_FILE then data else Data_Null),
          fn_size = (if type = FS_NODE_FILE then n else 0), fn_path = p\<rparr> \<and>
        (\<forall>q. clks_fs_find_node_by_internal q s' =
           (if q = p then Some i else clks_fs_find_node_by_internal q s))"
proof -
  obtain a s1 where a: "clks_fs_alloc_slot s = (a, s1)" by (cases "clks_fs_alloc_slot s")
  note sp = alloc_slot_spec [OF t a]
  show ?thesis
  proof (cases a)
    case None
    with run new p a sp show ?thesis by (auto simp: clks_fs_create_or_update_node_def)
  next
    case (Some i)
    define m where "m = \<lparr>fn_used = True, fn_type = type, fn_parent = d, fn_reserved = 0,
      fn_data = (if type = FS_NODE_FILE then data else Data_Null),
      fn_size = (if type = FS_NODE_FILE then n else 0), fn_path = p\<rparr>"
    have s1: "i \<noteq> 0" "i < clks_fs_nodes_used s1" "\<not> fs_live s i" "\<not> fn_used (fs_node s1 i)" "fs_table_ok s1"
      "fs_same s s1" "clks_fs_nodes s1 = clks_fs_nodes s" "\<And>j. fs_live s1 j \<longleftrightarrow> fs_live s j"
      "\<And>q. clks_fs_find_node_by_internal q s1 = clks_fs_find_node_by_internal q s"
      using sp Some by auto
    have le: "clks_fs_nodes_used s \<le> clks_fs_nodes_used s1"
      using a Some by (auto simp: clks_fs_alloc_slot_def split: option.splits if_splits)
    have s': "r = Some i" "s' = fs_set_node i (\<lambda>_. m) s1"
      using run new p a Some by (auto simp: clks_fs_create_or_update_node_def m_def)
    have d: "fs_live s d" "fn_path (fs_node s d) = path_parent p" using find_internal_Some [OF par(1)] by auto
    then have di: "d \<noteq> i" using s1(3) by blast
    have st: "fs_table_ok (fs_set_node i (\<lambda>_. m) s1)"
      "\<And>q. clks_fs_find_node_by_internal q (fs_set_node i (\<lambda>_. m) s1) =
        (if q = fn_path m then Some i else clks_fs_find_node_by_internal q s1)"
      by (rule fs_table_store; use s1 m_def p type new d di par in simp)+
    have len: "i < length (clks_fs_nodes s1)" using s1(2,5) by (simp add: fs_table_ok_def)
    have nth: "fs_node s' j = (if j = i then m else fs_node s1 j)" for j
      unfolding s'(2) by (rule fs_set_node_nth [OF len])
    have live: "fs_live s' j \<longleftrightarrow> j = i \<or> fs_live s j" for j
      using nth [of j] s1(2) s1(8) [of j] by (auto simp: fs_live_def s'(2) m_def)
    show ?thesis
      using s1(1,3,6,7) le live nth st s1(9)
      unfolding s'(1) by (simp add: s'(2) m_def fs_same_def)
  qed
qed

text \<open>A state that has grown by directories with paths in a set.\<close>

definition grows_dirs :: "string set \<Rightarrow> 'd fs_state \<Rightarrow> 'd fs_state \<Rightarrow> bool" where
  "grows_dirs ps s s' \<longleftrightarrow> fs_table_ok s' \<and> fs_same s s' \<and>
     (\<forall>i. fs_live s i \<longrightarrow> fs_live s' i \<and> fs_node s' i = fs_node s i) \<and>
     (\<forall>i. fs_live s' i \<longrightarrow> \<not> fs_live s i \<longrightarrow> fn_type (fs_node s' i) = FS_NODE_DIR \<and>
        fn_reserved (fs_node s' i) = 0 \<and> fn_path (fs_node s' i) \<in> ps)"

lemma grows_dirs_refl: "fs_table_ok s \<Longrightarrow> grows_dirs ps s s"
  by (simp add: grows_dirs_def)

lemma grows_dirs_trans: "grows_dirs ps s s1 \<Longrightarrow> grows_dirs ps s1 s2 \<Longrightarrow> grows_dirs ps s s2"
  unfolding grows_dirs_def fs_same_def by (metis)

text \<open>\<open>q\<close> is the path \<open>p\<close> or one of the directories above it.\<close>

definition dir_prefix :: "string \<Rightarrow> string \<Rightarrow> bool" where
  "dir_prefix q p \<longleftrightarrow> q = p \<or> (\<exists>r. p = q @ slash # r)"

lemma ensure_loop_spec:
  assumes "fs_table_ok s" "clks_fs_find_node_by_internal prefix s = Some cp" "fn_type (fs_node s cp) = FS_NODE_DIR"
    "full = (if prefix = [] then rest else if rest = [] then prefix else prefix @ slash # rest)"
    "fs_ensure_loop prefix rest cp s = (ok, s')"
  shows "grows_dirs {q. q \<noteq> [] \<and> dir_prefix q full} s s' \<and>
    (ok \<and> (rest = [] \<or> last rest \<noteq> slash) \<longrightarrow>
      (\<exists>i. clks_fs_find_node_by_internal full s' = Some i \<and> fn_type (fs_node s' i) = FS_NODE_DIR))"
  using assms
proof (induction "length rest" arbitrary: prefix rest cp s full rule: less_induct)
  case less
  note t = less.prems(1) and run = less.prems(5)
  show ?case
  proof (cases "rest = []")
    case True
    with less.prems show ?thesis by (auto simp: fs_ensure_loop.simps [of prefix "[]"] grows_dirs_refl)
  next
    case False
    define c where "c = takeWhile (\<lambda>c. c \<noteq> slash) rest"
    define after where "after = drop (length c) rest"
    define rest' where "rest' = (if after = [] then [] else tl after)"
    define prefix1 where "prefix1 = (if prefix \<noteq> [] then prefix @ [slash] else prefix)"
    define prefix2 where "prefix2 = prefix1 @ c"
    have ns: "slash \<notin> set c" by (auto simp: c_def dest: set_takeWhileD)
    have rest: "rest = c @ after" "after = [] \<and> rest' = [] \<or> after = slash # rest'"
    proof -
      have ad: "after = dropWhile (\<lambda>c. c \<noteq> slash) rest" by (simp add: after_def c_def dropWhile_eq_drop)
      then show "rest = c @ after" by (simp add: c_def)
      show "after = [] \<and> rest' = [] \<or> after = slash # rest'"
      proof (cases after)
        case (Cons x xs)
        then have "x = slash" using ad hd_dropWhile [of "\<lambda>c. c \<noteq> slash" rest] by simp
        with Cons show ?thesis by (simp add: rest'_def)
      qed (simp add: rest'_def)
    qed
    show ?thesis
    proof (cases "c = [] \<or> prefix \<noteq> [] \<and> length prefix + 1 \<ge> CLKS_FS_PATH_MAX \<or>
        length prefix1 + length c \<ge> CLKS_FS_PATH_MAX")
      case True
      have "fs_ensure_loop prefix rest cp s = (False, s)"
        using True False unfolding fs_ensure_loop.simps [of prefix rest] Let_def c_def prefix1_def by auto
      with run t show ?thesis by (simp add: grows_dirs_refl)
    next
      case ok2: False
      have l2: "length prefix2 < CLKS_FS_PATH_MAX" "prefix2 \<noteq> []" using ok2 by (auto simp: prefix2_def)
      have l3: "last prefix2 \<noteq> slash" using ok2 ns last_in_set [of c] by (cases "c = []") (auto simp: prefix2_def simp del: last_in_set)
      have pp: "path_parent prefix2 = prefix"
        using path_parent_append [OF ns] by (auto simp: prefix2_def prefix1_def)
      have full: "full = (if rest' = [] then prefix2 else prefix2 @ slash # rest') \<or>
          full = prefix2 @ [slash] \<and> rest' = [] \<and> last rest = slash"
        using less.prems(4) False rest by (auto simp: prefix2_def prefix1_def)
      have dp: "dir_prefix prefix2 full" using full by (cases "rest' = []") (auto simp: dir_prefix_def)
      define full2 where "full2 = (if rest' = [] then prefix2 else prefix2 @ slash # rest')"
      have dq: "dir_prefix q full" if "dir_prefix q full2" for q
        using that full by (auto simp: dir_prefix_def full2_def split: if_splits)
      have lr: "rest' = [] \<or> last rest' \<noteq> slash" "full = full2" if "rest = [] \<or> last rest \<noteq> slash"
        using that False rest full by (auto simp: full2_def split: if_splits)
      have sh: "length rest' < length rest" using rest False ok2 by auto
      have fin: ?thesis if g: "grows_dirs {q. q \<noteq> [] \<and> dir_prefix q full} s s1"
        and f: "clks_fs_find_node_by_internal prefix2 s1 = Some i" "fn_type (fs_node s1 i) = FS_NODE_DIR"
        and r: "fs_ensure_loop prefix2 rest' i s1 = (ok, s')"
        for s1 i
      proof -
        have t1: "fs_table_ok s1" using g by (simp add: grows_dirs_def)
        have "grows_dirs {q. q \<noteq> [] \<and> dir_prefix q full2} s1 s' \<and>
          (ok \<and> (rest' = [] \<or> last rest' \<noteq> slash) \<longrightarrow>
            (\<exists>i. clks_fs_find_node_by_internal full2 s' = Some i \<and> fn_type (fs_node s' i) = FS_NODE_DIR))"
          by (rule less.hyps [OF sh t1 f _ r]) (simp add: full2_def l2)
        moreover from this have "grows_dirs {q. q \<noteq> [] \<and> dir_prefix q full} s1 s'"
          using dq unfolding grows_dirs_def by blast
        ultimately show ?thesis using grows_dirs_trans [OF g] lr by blast
      qed
      have loop: "fs_ensure_loop prefix rest cp s =
        (case clks_fs_find_node_by_internal prefix2 s of
           None \<Rightarrow> (case clks_fs_create_or_update_node prefix2 FS_NODE_DIR cp Data_Null 0 s of
             (None, s1) \<Rightarrow> (False, s1) | (Some i, s1) \<Rightarrow> fs_ensure_loop prefix2 rest' i s1)
         | Some i \<Rightarrow> if fn_type (fs_node s i) \<noteq> FS_NODE_DIR then (False, s)
             else fs_ensure_loop prefix2 rest' i s)"
        using False ok2 unfolding fs_ensure_loop.simps [of prefix rest] Let_def c_def [symmetric]
          after_def [symmetric] rest'_def [symmetric] prefix1_def [symmetric] prefix2_def [symmetric] by auto
      show ?thesis
      proof (cases "clks_fs_find_node_by_internal prefix2 s")
        case (Some i)
        show ?thesis
        proof (cases "fn_type (fs_node s i) = FS_NODE_DIR")
          case True
          with Some loop run t show ?thesis by (intro fin [of s i]) (simp_all add: grows_dirs_refl)
        next
          case False
          with Some loop run t show ?thesis by (simp add: grows_dirs_refl)
        qed
      next
        case None
        obtain r s1 where cr: "clks_fs_create_or_update_node prefix2 FS_NODE_DIR cp Data_Null 0 s = (r, s1)"
          by fastforce
        have "clks_fs_find_node_by_internal (path_parent prefix2) s = Some cp" using less.prems(2) pp by simp
        note sp = create_new_spec [OF t None l2(2,1) l3 _ this less.prems(3) cr]
        show ?thesis
        proof (cases r)
          case None
          with sp loop run t cr \<open>clks_fs_find_node_by_internal prefix2 s = None\<close> show ?thesis
            by (simp add: grows_dirs_refl)
        next
          case (Some i)
          with sp have g: "grows_dirs {q. q \<noteq> [] \<and> dir_prefix q full} s s1"
            "clks_fs_find_node_by_internal prefix2 s1 = Some i" "fn_type (fs_node s1 i) = FS_NODE_DIR"
            using dp l2 unfolding grows_dirs_def by auto
          moreover have "fs_ensure_loop prefix2 rest' i s1 = (ok, s')"
            using loop run cr Some None by simp
          ultimately show ?thesis by (rule fin)
        qed
      qed
    qed
  qed
qed

section \<open>Ownership of heap blocks\<close>

text \<open>The heap block a node owns: a file's, when its heap flag is set.\<close>

definition node_heap :: "clks_fs_node \<Rightarrow> nat option" where
  "node_heap n =
     (if fn_type n = FS_NODE_FILE \<and> fn_reserved n AND CLKS_FS_NODE_FLAG_HEAP_DATA \<noteq> 0
      then case fn_data n of Data_Heap p \<Rightarrow> Some p | _ \<Rightarrow> None else None)"

text \<open>The data of a file lies in a live allocation, in the ramdisk image, or is empty.\<close>

definition node_data_ok :: "(nat \<rightharpoonup> nat) \<Rightarrow> u8 list \<Rightarrow> clks_fs_node \<Rightarrow> bool" where
  "node_data_ok L img n \<longleftrightarrow> fn_type n = FS_NODE_FILE \<longrightarrow>
     (case node_heap n of
        Some p \<Rightarrow> \<exists>sz. L p = Some sz \<and> fn_size n \<le> sz
      | None \<Rightarrow> fn_data n = Data_Empty \<and> fn_size n = 0 \<or>
          (\<exists>off. fn_data n = Data_Image off \<and> off + fn_size n \<le> length img))"

definition fs_owned :: "'d fs_state \<Rightarrow> nat \<Rightarrow> bool" where
  "fs_owned s p \<longleftrightarrow> (\<exists>i. fs_live s i \<and> node_heap (fs_node s i) = Some p)"

text \<open>
  The live allocations \<open>L\<close> are those of the nodes, one node each, and the foreign ones \<open>F\<close> of the
  rest of the kernel: no block of a file is lost, freed while in use or shared.
\<close>

definition fs_owns :: "(nat \<rightharpoonup> nat) \<Rightarrow> (nat \<rightharpoonup> nat) \<Rightarrow> 'd fs_state \<Rightarrow> bool" where
  "fs_owns F L s \<longleftrightarrow> heap_live (fs_heap s) L \<and>
     (\<forall>i. fs_live s i \<longrightarrow> node_data_ok L (fs_image s) (fs_node s i)) \<and>
     (\<forall>i j p. fs_live s i \<longrightarrow> fs_live s j \<longrightarrow> node_heap (fs_node s i) = Some p \<longrightarrow>
        node_heap (fs_node s j) = Some p \<longrightarrow> i = j) \<and>
     (\<forall>p. fs_owned s p \<longrightarrow> F p = None) \<and> (\<forall>p. \<not> fs_owned s p \<longrightarrow> L p = F p)"

definition fs_inv :: "(nat \<rightharpoonup> nat) \<Rightarrow> 'd fs_state \<Rightarrow> bool" where
  "fs_inv F s \<longleftrightarrow> fs_table_ok s \<and> (\<exists>L. fs_owns F L s)"

lemma fs_owns_D:
  assumes "fs_owns F L s"
  shows "heap_live (fs_heap s) L" "fs_live s i \<Longrightarrow> node_data_ok L (fs_image s) (fs_node s i)"
    "fs_owned s p \<Longrightarrow> F p = None" "\<not> fs_owned s p \<Longrightarrow> L p = F p" "F p = Some z \<Longrightarrow> L p = Some z"
  using assms unfolding fs_owns_def by (blast, blast, blast, blast, metis option.distinct(1))

lemma fs_owns_inj:
  "fs_owns F L s \<Longrightarrow> fs_live s i \<Longrightarrow> fs_live s j \<Longrightarrow> node_heap (fs_node s i) = Some p \<Longrightarrow>
     node_heap (fs_node s j) = Some p \<Longrightarrow> i = j"
  unfolding fs_owns_def by blast

lemma node_heap_dir [simp]: "fn_type n = FS_NODE_DIR \<Longrightarrow> node_heap n = None"
  by (simp add: node_heap_def)

lemma node_data_ok_dir [simp]: "fn_type n = FS_NODE_DIR \<Longrightarrow> node_data_ok L img n"
  by (simp add: node_data_ok_def)

lemma node_heap_data: "node_heap n = Some p \<Longrightarrow> fn_type n = FS_NODE_FILE \<and> fn_data n = Data_Heap p"
  by (auto simp: node_heap_def split: if_splits fs_data.splits)

lemma owns_grows:
  assumes o: "fs_owns F L s" and g: "grows_dirs ps s s'"
  shows "fs_owns F L s'"
proof -
  have same: "fs_heap s' = fs_heap s" "fs_image s' = fs_image s" using g by (simp_all add: grows_dirs_def fs_same_def)
  have old: "fs_live s' i \<and> fs_node s' i = fs_node s i" if "fs_live s i" for i
    using g that by (simp add: grows_dirs_def)
  have new: "fs_live s i \<or> fn_type (fs_node s' i) = FS_NODE_DIR" if "fs_live s' i" for i
    using g that by (auto simp: grows_dirs_def)
  have ow: "fs_owned s' p \<longleftrightarrow> fs_owned s p" for p
    using old new unfolding fs_owned_def by (metis node_heap_dir option.distinct(1))
  have inj: "i = j" if "fs_live s' i" "fs_live s' j" "node_heap (fs_node s' i) = Some p"
    "node_heap (fs_node s' j) = Some p" for i j p
  proof -
    have "fs_live s i" "fs_live s j" using that new by fastforce+
    with that old fs_owns_inj [OF o] show ?thesis by metis
  qed
  have "node_data_ok L (fs_image s) (fs_node s' i)" if "fs_live s' i" for i
    using new [OF that] old fs_owns_D(2) [OF o] by (metis node_data_ok_dir)
  with inj show ?thesis
    using fs_owns_D(1,3,4) [OF o] unfolding fs_owns_def ow same by blast
qed

text \<open>Changing one slot: what it owned is released, what it owns now was foreign.\<close>

lemma owns_change:
  assumes o: "fs_owns F L s"
    and other: "\<And>j. j \<noteq> i \<Longrightarrow> fs_live s' j = fs_live s j \<and> (fs_live s j \<longrightarrow> fs_node s' j = fs_node s j)"
    and img: "fs_image s' = fs_image s"
    and old: "old = (if fs_live s i then node_heap (fs_node s i) else None)"
    and new: "new = (if fs_live s' i then node_heap (fs_node s' i) else None)"
    and L': "L' = (case old of None \<Rightarrow> L | Some p \<Rightarrow> L(p := None))"
    and F': "F' = (case new of None \<Rightarrow> F | Some p \<Rightarrow> F(p := None))"
    and fresh: "\<And>p. new = Some p \<Longrightarrow> F p \<noteq> None"
    and heap: "heap_live (fs_heap s') L'"
    and data: "fs_live s' i \<Longrightarrow> node_data_ok L' (fs_image s) (fs_node s' i)"
  shows "fs_owns F' L' s'"
proof -
  have ow: "fs_owned s p \<longleftrightarrow> (\<exists>j. j \<noteq> i \<and> fs_live s j \<and> node_heap (fs_node s j) = Some p) \<or> old = Some p" for p
    using old unfolding fs_owned_def by (metis option.distinct(1))
  have ow': "fs_owned s' p \<longleftrightarrow> (\<exists>j. j \<noteq> i \<and> fs_live s j \<and> node_heap (fs_node s j) = Some p) \<or> new = Some p" for p
    using new other unfolding fs_owned_def by (metis option.distinct(1))
  have old1: "old \<noteq> Some p" if "j \<noteq> i" "fs_live s j" "node_heap (fs_node s j) = Some p" for j p
    using that old fs_owns_inj [OF o, of j i p] by (auto split: if_splits)
  have new1: "\<not> fs_owned s p" if "new = Some p" for p
    using fresh [OF that] fs_owns_D(3) [OF o, of p] by auto
  have dat: "node_data_ok L' (fs_image s') (fs_node s' j)" if j: "fs_live s' j" for j
  proof (cases "j = i")
    case False
    then have l: "fs_live s j" "fs_node s' j = fs_node s j" using other j by blast+
    have "L' p = L p" if "node_heap (fs_node s j) = Some p" for p
      using old1 [OF False l(1) that] L' by (auto split: option.splits)
    with fs_owns_D(2) [OF o l(1)] show ?thesis
      unfolding img l(2) node_data_ok_def by (auto split: option.splits)
  qed (use data j img in simp)
  have inj: "j = k" if "fs_live s' j" "fs_live s' k" "node_heap (fs_node s' j) = Some p"
    "node_heap (fs_node s' k) = Some p" for j k p
  proof (cases "j = i \<or> k = i")
    case True
    then show ?thesis
      using that new new1 [of p] other unfolding fs_owned_def by metis
  next
    case False
    with that other fs_owns_inj [OF o, of j k p] show ?thesis by metis
  qed
  have f: "F' p = None" if "fs_owned s' p" for p
    using that fs_owns_D(3) [OF o, of p] F' unfolding ow ow' by (auto split: option.splits)
  have "L' p = F' p" if "\<not> fs_owned s' p" for p
  proof (cases "old = Some p")
    case True
    then have "F p = None" using fs_owns_D(3) [OF o, of p] ow by blast
    with True L' F' show ?thesis by (auto split: option.splits)
  next
    case False
    with that have "\<not> fs_owned s p" unfolding ow ow' by blast
    with fs_owns_D(4) [OF o] have "L p = F p" by blast
    with False that L' F' show ?thesis unfolding ow' by (auto split: option.splits)
  qed
  with heap dat inj f show ?thesis unfolding fs_owns_def by blast
qed

section \<open>The contents\<close>

datatype fs_entry = Dir_Entry | File_Entry "u8 list"

text \<open>The tree as a map from internal paths to directories and files with their bytes.\<close>

definition fs_view :: "'d fs_state \<Rightarrow> string \<Rightarrow> fs_entry option" where
  "fs_view s p = map_option (\<lambda>i.
     if fn_type (fs_node s i) = FS_NODE_DIR then Dir_Entry else File_Entry (fs_node_bytes s (fs_node s i)))
     (clks_fs_find_node_by_internal p s)"

text \<open>Memory of live allocations is unchanged.\<close>

definition same_bytes :: "(nat \<rightharpoonup> nat) \<Rightarrow> (nat \<Rightarrow> u8) \<Rightarrow> (nat \<Rightarrow> u8) \<Rightarrow> bool" where
  "same_bytes L m m' \<longleftrightarrow> (\<forall>p sz a. L p = Some sz \<longrightarrow> p \<le> a \<longrightarrow> a < p + sz \<longrightarrow> m' a = m a)"

lemma same_bytes_refl [simp]: "same_bytes L m m" by (simp add: same_bytes_def)

lemma same_bytes_trans: "same_bytes L m m1 \<Longrightarrow> same_bytes L m1 m2 \<Longrightarrow> same_bytes L m m2"
  by (simp add: same_bytes_def)

lemma same_bytes_foreign: "same_bytes L m m' \<Longrightarrow> fs_owns F L s \<Longrightarrow> same_bytes F m m'"
  unfolding same_bytes_def by (blast dest: fs_owns_D(5))

lemma node_bytes_same:
  assumes "node_data_ok L (fs_image s) n" "fn_type n = FS_NODE_FILE" "same_bytes L (fs_bytes s) (fs_bytes s')"
    "fs_image s' = fs_image s"
  shows "fs_node_bytes s' n = fs_node_bytes s n"
proof (cases "node_heap n")
  case None
  with assms show ?thesis by (auto simp: node_data_ok_def fs_node_bytes_def)
next
  case (Some p)
  with assms obtain sz where "L p = Some sz" "fn_size n \<le> sz" by (auto simp: node_data_ok_def)
  with assms(3) have "fs_bytes s' a = fs_bytes s a" if "p \<le> a" "a < p + fn_size n" for a
    using that by (simp add: same_bytes_def)
  with node_heap_data [OF Some] show ?thesis by (simp add: fs_node_bytes_def)
qed

lemma view_node:
  assumes "fs_owns F L s" "fs_live s i" "fs_node s' j = fs_node s i" "same_bytes L (fs_bytes s) (fs_bytes s')"
    "fs_image s' = fs_image s" "fs_table_ok s"
  shows "(if fn_type (fs_node s' j) = FS_NODE_DIR then Dir_Entry else File_Entry (fs_node_bytes s' (fs_node s' j))) =
    (if fn_type (fs_node s i) = FS_NODE_DIR then Dir_Entry else File_Entry (fs_node_bytes s (fs_node s i)))"
proof (cases "fn_type (fs_node s i) = FS_NODE_FILE")
  case True
  then show ?thesis using node_bytes_same [OF fs_owns_D(2) [OF assms(1,2)] True assms(4,5)] assms(3) by simp
next
  case False
  then have "fn_type (fs_node s i) = FS_NODE_DIR"
    using fs_table_live(5) [OF assms(6,2)] by (cases "fn_type (fs_node s i)") auto
  with assms(3) show ?thesis by simp
qed

lemma view_same:
  assumes "fs_owns F L s" "fs_table_ok s" "clks_fs_find_node_by_internal q s' = clks_fs_find_node_by_internal q s"
    "\<And>i. clks_fs_find_node_by_internal q s = Some i \<Longrightarrow> fs_node s' i = fs_node s i"
    "same_bytes L (fs_bytes s) (fs_bytes s')" "fs_image s' = fs_image s"
  shows "fs_view s' q = fs_view s q"
proof (cases "clks_fs_find_node_by_internal q s")
  case None
  with assms(3) show ?thesis by (simp add: fs_view_def)
next
  case (Some i)
  from view_node [OF assms(1) _ assms(4) [OF Some] assms(5,6,2)] find_internal_Some [OF Some]
  show ?thesis by (simp add: fs_view_def assms(3) Some)
qed

text \<open>Growing by directories: entries stay, the new ones are directories with paths in the set.\<close>

lemma grows_find:
  assumes "grows_dirs ps s s'" "fs_table_ok s" "clks_fs_find_node_by_internal q s = Some i"
  shows "clks_fs_find_node_by_internal q s' = Some i"
proof -
  have "fs_table_ok s'" "fs_live s' i" "fs_node s' i = fs_node s i"
    using assms find_internal_Some [OF assms(3)] unfolding grows_dirs_def by blast+
  with find_internal_Some [OF assms(3)] show ?thesis by (simp add: find_internal_iff)
qed

lemma view_grows:
  assumes g: "grows_dirs ps s s'" and o: "fs_owns F L s" and t: "fs_table_ok s"
  shows "fs_view s' q = fs_view s q \<or> fs_view s q = None \<and> fs_view s' q = Some Dir_Entry \<and> q \<in> ps"
proof (cases "clks_fs_find_node_by_internal q s")
  case (Some i)
  have e: "fs_bytes s' = fs_bytes s" "fs_image s' = fs_image s"
    using g by (simp_all add: grows_dirs_def fs_same_def)
  have "fs_view s' q = fs_view s q"
  proof (rule view_same [OF o t])
    show "clks_fs_find_node_by_internal q s' = clks_fs_find_node_by_internal q s"
      using grows_find [OF g t Some] Some by simp
    show "fs_node s' j = fs_node s j" if "clks_fs_find_node_by_internal q s = Some j" for j
      using g find_internal_Some [OF that] by (simp add: grows_dirs_def)
  qed (simp_all add: e)
  then show ?thesis by simp
next
  case None
  show ?thesis
  proof (cases "clks_fs_find_node_by_internal q s'")
    case (Some i)
    then have i: "fs_live s' i" "fn_path (fs_node s' i) = q" using find_internal_Some by blast+
    have "\<not> fs_live s i"
    proof
      assume "fs_live s i"
      with g i have "fn_path (fs_node s i) = q" by (simp add: grows_dirs_def)
      with \<open>fs_live s i\<close> None show False by (simp add: find_internal_None)
    qed
    with g i have "fn_type (fs_node s' i) = FS_NODE_DIR" "q \<in> ps" by (auto simp: grows_dirs_def)
    with None Some show ?thesis by (simp add: fs_view_def)
  qed (simp add: fs_view_def None)
qed

section \<open>Writing\<close>

lemma fs_put_same:
  assumes "heap_live h L" "clks_kmalloc n h = Some (Some p, h')" "n + 15 < USIZE_RANGE" "length bs \<le> n"
  shows "same_bytes L m (fs_put p bs m)"
  unfolding same_bytes_def
proof (intro allI impI)
  fix q sz a
  assume "L q = Some sz" "q \<le> a" "a < q + sz"
  with heap.malloc_apart [OF assms(1-3)] have "p + n \<le> q \<or> q + sz \<le> p" by blast
  with assms(4) \<open>q \<le> a\<close> \<open>a < q + sz\<close> show "fs_put p bs m a = m a" by (auto simp: fs_put_def)
qed

lemma fs_put_read: "length bs = n \<Longrightarrow> map (fs_put p bs m) [p..<p + n] = bs"
  by (rule nth_equalityI) (auto simp: fs_put_def)

lemma owns_heap_block:
  assumes o: "fs_owns F L s" and h: "heap_live h (L(p \<mapsto> sz))" and p: "L p = None"
  shows "fs_owns (F(p \<mapsto> sz)) (L(p \<mapsto> sz)) (s\<lparr>fs_heap := h, fs_bytes := b\<rparr>)"
proof -
  let ?s = "s\<lparr>fs_heap := h, fs_bytes := b\<rparr>"
  have live: "fs_live ?s i = fs_live s i" "fs_owned ?s q = fs_owned s q" for i q
    by (simp_all add: fs_live_def fs_owned_def)
  have np: "\<not> fs_owned s p"
  proof
    assume "fs_owned s p"
    then obtain i where "fs_live s i" "node_heap (fs_node s i) = Some p" by (auto simp: fs_owned_def)
    with fs_owns_D(2) [OF o, of i] node_heap_data [of "fs_node s i" p] p show False
      by (auto simp: node_data_ok_def)
  qed
  have dat: "node_data_ok (L(p \<mapsto> sz)) (fs_image ?s) (fs_node ?s i)" if "fs_live ?s i" for i
  proof -
    have "fs_live s i" using that by (simp add: live)
    moreover from this np have "node_heap (fs_node s i) \<noteq> Some p" by (auto simp: fs_owned_def)
    ultimately show ?thesis
      using fs_owns_D(2) [OF o, of i] by (auto simp: node_data_ok_def split: option.splits)
  qed
  have f: "(F(p \<mapsto> sz)) q = None" if "fs_owned ?s q" for q
    using that np fs_owns_D(3) [OF o, of q] by (auto simp: live)
  have g: "(L(p \<mapsto> sz)) q = (F(p \<mapsto> sz)) q" if "\<not> fs_owned ?s q" for q
    using that fs_owns_D(4) [OF o, of q] by (auto simp: live)
  have inj: "i = j" if "fs_live ?s i" "fs_live ?s j" "node_heap (fs_node ?s i) = Some q"
    "node_heap (fs_node ?s j) = Some q" for i j q
    using that fs_owns_inj [OF o, of i j q] by (simp add: live)
  show ?thesis unfolding fs_owns_def using h dat f g inj by simp
qed

lemma payload_spec:
  assumes o: "fs_owns F L s" and n: "n + 15 < USIZE_RANGE"
    and run: "clks_fs_build_file_payload data n s = Some (r, s')"
    and len: "\<And>d. data = Some d \<Longrightarrow> n \<le> length d"
  shows "case r of None \<Rightarrow> s' = s
    | Some (pd, flag) \<Rightarrow>
        if flag then \<exists>p sz d. pd = Data_Heap p \<and> L p = None \<and> n \<le> sz \<and> n \<noteq> 0 \<and> data = Some d \<and>
          fs_owns (F(p \<mapsto> sz)) (L(p \<mapsto> sz)) s' \<and> same_bytes L (fs_bytes s) (fs_bytes s') \<and>
          map (fs_bytes s') [p..<p + n] = take n d \<and> s' = s\<lparr>fs_heap := fs_heap s', fs_bytes := fs_bytes s'\<rparr>
        else pd = Data_Empty \<and> n = 0 \<and> s' = s"
proof (cases "n = 0 \<or> data = None")
  case True
  with run show ?thesis by (auto simp: clks_fs_build_file_payload_def split: if_splits)
next
  case False
  then obtain d where d: "data = Some d" "n \<noteq> 0" by blast
  obtain q h where m: "clks_kmalloc n (fs_heap s) = Some (q, h)"
    using heap.malloc_runs [OF fs_owns_D(1) [OF o]] by blast
  show ?thesis
  proof (cases q)
    case None
    with m heap.malloc_null [OF fs_owns_D(1) [OF o]] have "h = fs_heap s" by blast
    with None m d run show ?thesis by (auto simp: clks_fs_build_file_payload_def)
  next
    case (Some p)
    with m have m: "clks_kmalloc n (fs_heap s) = Some (Some p, h)" by simp
    obtain sz where sz: "L p = None" "heap_live h (L(p \<mapsto> sz))" "n \<le> sz"
      using heap.malloc_some [OF fs_owns_D(1) [OF o] m] n by blast
    let ?b = "fs_put p (take n d) (fs_bytes s)"
    have r: "r = Some (Data_Heap p, True)" "s' = s\<lparr>fs_heap := h, fs_bytes := ?b\<rparr>"
      using run d m by (auto simp: clks_fs_build_file_payload_def)
    have "fs_owns (F(p \<mapsto> sz)) (L(p \<mapsto> sz)) s'"
      unfolding r(2) by (rule owns_heap_block [OF o sz(2,1)])
    moreover have "same_bytes L (fs_bytes s) ?b"
      by (rule fs_put_same [OF fs_owns_D(1) [OF o] m n]) simp
    moreover have "map ?b [p..<p + n] = take n d" using len d by (intro fs_put_read) simp
    ultimately show ?thesis using sz d r by auto
  qed
qed

lemma payload_runs:
  "fs_owns F L s \<Longrightarrow> \<exists>r s'. clks_fs_build_file_payload data n s = Some (r, s')"
  using heap.malloc_runs [OF fs_owns_D(1), of F L s n]
  by (auto simp: clks_fs_build_file_payload_def split: option.splits)

lemma fs_set_node_twice: "i < length (clks_fs_nodes s) \<Longrightarrow>
    fs_set_node i f (fs_set_node i g s) = fs_set_node i (\<lambda>n. f (g n)) s"
  by (simp add: fs_set_node_def)

lemma fs_set_node_const: "fs_set_node i f s = fs_set_node i (\<lambda>_. f (fs_node s i)) s"
  by (simp add: fs_set_node_def)

text \<open>What releasing does: free the node's block, clear its flag.\<close>

definition heap_drop :: "nat option \<Rightarrow> heap_state \<Rightarrow> heap_state" where
  "heap_drop r h = (case r of None \<Rightarrow> h | Some p \<Rightarrow> clks_kfree (Some p) h)"

lemma heap_drop_live: "heap_live h L \<Longrightarrow> (\<And>p. r = Some p \<Longrightarrow> L p \<noteq> None) \<Longrightarrow>
    heap_live (heap_drop r h) (case r of None \<Rightarrow> L | Some p \<Rightarrow> L(p := None))"
  by (auto simp: heap_drop_def split: option.split intro: heap.release_live)

lemma release_eq:
  assumes "fn_type (fs_node s i) = FS_NODE_FILE"
  shows "clks_fs_node_release_heap_data i s =
    fs_set_node i (\<lambda>n. n\<lparr>fn_reserved := fn_reserved n AND NOT CLKS_FS_NODE_FLAG_HEAP_DATA\<rparr>)
      (s\<lparr>fs_heap := heap_drop (node_heap (fs_node s i)) (fs_heap s)\<rparr>)"
proof (cases "clks_fs_node_has_heap_data i s")
  case True
  then have "node_heap (fs_node s i) = (case fn_data (fs_node s i) of Data_Heap p \<Rightarrow> Some p | _ \<Rightarrow> None)"
    using assms by (simp add: node_heap_def clks_fs_node_has_heap_data_def)
  with True assms show ?thesis
    by (cases "fn_data (fs_node s i)")
      (simp_all add: clks_fs_node_release_heap_data_def clks_fs_node_set_heap_data_def heap_drop_def)
next
  case False
  then have "node_heap (fs_node s i) = None"
    by (simp add: node_heap_def clks_fs_node_has_heap_data_def)
  with False assms show ?thesis
    by (simp add: clks_fs_node_release_heap_data_def clks_fs_node_set_heap_data_def heap_drop_def)
qed

lemma heap_flag_word:
  "(0 :: u16) OR CLKS_FS_NODE_FLAG_HEAP_DATA = 1" "(0 :: u16) AND NOT CLKS_FS_NODE_FLAG_HEAP_DATA = 0"
  by (simp_all add: CLKS_FS_NODE_FLAG_HEAP_DATA_def)

lemma node_heap_new:
  "node_heap (n\<lparr>fn_type := FS_NODE_FILE, fn_data := Data_Heap p, fn_reserved := 1\<rparr>) = Some p"
  by (simp add: node_heap_def CLKS_FS_NODE_FLAG_HEAP_DATA_def)

text \<open>A payload that is to become the data of a file: a foreign heap block that holds it, or nothing.\<close>

definition payload_ok :: "(nat \<rightharpoonup> nat) \<Rightarrow> fs_data \<Rightarrow> nat \<Rightarrow> bool \<Rightarrow> (nat \<rightharpoonup> nat) \<Rightarrow> bool" where
  "payload_ok F1 pd n flag F \<longleftrightarrow>
     (if flag then \<exists>p sz. pd = Data_Heap p \<and> F1 p = Some sz \<and> n \<le> sz \<and> F = F1(p := None)
      else pd = Data_Empty \<and> n = 0 \<and> F = F1)"

lemma commit_owns:
  assumes o: "fs_owns F1 L s" and pay: "payload_ok F1 pd n flag F"
    and other: "\<And>j. j \<noteq> i \<Longrightarrow> fs_live s' j = fs_live s j \<and> (fs_live s j \<longrightarrow> fs_node s' j = fs_node s j)"
    and img: "fs_image s' = fs_image s"
    and m: "fs_live s' i" "fn_type (fs_node s' i) = FS_NODE_FILE" "fn_data (fs_node s' i) = pd"
      "fn_size (fs_node s' i) = n" "fn_reserved (fs_node s' i) = (if flag then 1 else 0)"
    and heap: "fs_heap s' = heap_drop (if fs_live s i then node_heap (fs_node s i) else None) (fs_heap s)"
  shows "\<exists>L'. fs_owns F L' s'"
proof -
  define old where "old = (if fs_live s i then node_heap (fs_node s i) else None)"
  define new where "new = (if flag then case pd of Data_Heap p \<Rightarrow> Some p | _ \<Rightarrow> None else None)"
  define L' where "L' = (case old of None \<Rightarrow> L | Some p \<Rightarrow> L(p := None))"
  have new1: "new = (if fs_live s' i then node_heap (fs_node s' i) else None)"
    using m pay by (auto simp: node_heap_def new_def CLKS_FS_NODE_FLAG_HEAP_DATA_def)
  have oldl: "fs_owned s p" "L p \<noteq> None" if "old = Some p" for p
  proof -
    have i: "fs_live s i" "node_heap (fs_node s i) = Some p" using that by (auto simp: old_def split: if_splits)
    then show "fs_owned s p" by (auto simp: fs_owned_def)
    show "L p \<noteq> None"
      using fs_owns_D(2) [OF o i(1)] i(2) node_heap_data [OF i(2)] by (auto simp: node_data_ok_def)
  qed
  have newf: "F1 p \<noteq> None" "new = Some p \<Longrightarrow> old \<noteq> Some p" if "new = Some p" for p
  proof -
    show f: "F1 p \<noteq> None" using that pay by (auto simp: new_def payload_ok_def split: if_splits)
    show "old \<noteq> Some p" using f oldl(1) fs_owns_D(3) [OF o, of p] by auto
  qed
  have data: "node_data_ok L' (fs_image s) (fs_node s' i)"
  proof (cases flag)
    case True
    then obtain p sz where p: "pd = Data_Heap p" "F1 p = Some sz" "n \<le> sz" using pay by (auto simp: payload_ok_def)
    then have "new = Some p" by (simp add: new_def True)
    then have "L' p = Some sz"
      using newf(2) [of p] fs_owns_D(5) [OF o p(2)] by (auto simp: L'_def split: option.split)
    moreover have "node_heap (fs_node s' i) = Some p" using new1 m(1) \<open>new = Some p\<close> by simp
    ultimately show ?thesis using p(3) m(4) by (simp add: node_data_ok_def)
  next
    case False
    then have "pd = Data_Empty" "n = 0" "new = None" using pay by (simp_all add: payload_ok_def new_def)
    with m new1 show ?thesis by (simp add: node_data_ok_def)
  qed
  have "fs_owns F L' s'"
  proof (rule owns_change [OF o other img old_def new1 L'_def _ newf(1) _ data])
    show "F = (case new of None \<Rightarrow> F1 | Some p \<Rightarrow> F1(p := None))"
      using pay by (auto simp: payload_ok_def new_def)
    show "heap_live (fs_heap s') L'"
      unfolding heap old_def [symmetric] L'_def
      by (rule heap_drop_live [OF fs_owns_D(1) [OF o]]) (rule oldl(2))
  qed
  then show ?thesis by blast
qed

lemma fs_table_heap [simp]:
  "fs_table_ok (s\<lparr>fs_heap := h\<rparr>) = fs_table_ok s" "fs_live (s\<lparr>fs_heap := h\<rparr>) i = fs_live s i"
  "clks_fs_find_node_by_internal p (s\<lparr>fs_heap := h\<rparr>) = clks_fs_find_node_by_internal p s"
  by (simp_all add: fs_table_ok_def fs_live_def clks_fs_find_node_by_internal_def)

lemma fs_table_bytes [simp]:
  "fs_table_ok (s\<lparr>fs_bytes := h\<rparr>) = fs_table_ok s" "fs_live (s\<lparr>fs_bytes := h\<rparr>) i = fs_live s i"
  "clks_fs_find_node_by_internal p (s\<lparr>fs_bytes := h\<rparr>) = clks_fs_find_node_by_internal p s"
  by (simp_all add: fs_table_ok_def fs_live_def clks_fs_find_node_by_internal_def)

lemma find_set_node:
  assumes "\<And>m. fn_used (f m) = fn_used m" "\<And>m. fn_path (f m) = fn_path m"
  shows "clks_fs_find_node_by_internal q (fs_set_node i f s) = clks_fs_find_node_by_internal q s"
proof -
  have "fn_used (fs_node (fs_set_node i f s) j) = fn_used (fs_node s j) \<and>
      fn_path (fs_node (fs_set_node i f s) j) = fn_path (fs_node s j)" for j
    using assms by (cases "i < length (clks_fs_nodes s)"; cases "j = i") (simp_all add: fs_set_node_def list_update_beyond)
  then show ?thesis by (simp add: clks_fs_find_node_by_internal_def)
qed

text \<open>The last part of a write: the file gets the payload, new or in the place of its old data.\<close>

lemma commit_spec:
  assumes t: "fs_table_ok s" and o: "fs_owns F1 L s" and pay: "payload_ok F1 pd n flag F"
    and q: "q \<noteq> []" "length q < CLKS_FS_PATH_MAX" "last q \<noteq> slash"
    and par: "clks_fs_find_node_by_internal (path_parent q) s = Some d" "fn_type (fs_node s d) = FS_NODE_DIR"
    and node: "\<And>i. clks_fs_find_node_by_internal q s = Some i \<Longrightarrow> fn_type (fs_node s i) = FS_NODE_FILE"
    and run: "clks_fs_create_or_update_node q FS_NODE_FILE d pd n
      (case clks_fs_find_node_by_internal q s of Some i \<Rightarrow> clks_fs_node_release_heap_data i s | None \<Rightarrow> s) = (r, s4)"
  shows "case r of None \<Rightarrow> clks_fs_find_node_by_internal q s = None \<and> s4 = s
    | Some i \<Rightarrow> fs_inv F (clks_fs_node_set_heap_data i flag s4) \<and>
        (let s' = clks_fs_node_set_heap_data i flag s4 in
         (\<forall>q'. clks_fs_find_node_by_internal q' s' = (if q' = q then Some i else clks_fs_find_node_by_internal q' s)) \<and>
         fn_type (fs_node s' i) = FS_NODE_FILE \<and> fn_data (fs_node s' i) = pd \<and> fn_size (fs_node s' i) = n \<and>
         (\<forall>j. j \<noteq> i \<longrightarrow> fs_node s' j = fs_node s j) \<and> fs_bytes s' = fs_bytes s \<and>
         fs_image s' = fs_image s \<and> fs_disk s' = fs_disk s \<and> clks_fs_ready s' = clks_fs_ready s)"
proof (cases "clks_fs_find_node_by_internal q s")
  case None
  then have run': "clks_fs_create_or_update_node q FS_NODE_FILE d pd n s = (r, s4)" using run by simp
  note sp = create_new_spec [OF t None q _ par run']
  show ?thesis
  proof (cases r)
    case None
    with sp \<open>clks_fs_find_node_by_internal q s = None\<close> show ?thesis by simp
  next
    case (Some i)
    let ?f = "\<lambda>m. m\<lparr>fn_reserved := (if flag then fn_reserved m OR CLKS_FS_NODE_FLAG_HEAP_DATA
        else fn_reserved m AND NOT CLKS_FS_NODE_FLAG_HEAP_DATA)\<rparr>"
    let ?m = "\<lparr>fn_used = True, fn_type = FS_NODE_FILE, fn_parent = d, fn_reserved = (if flag then 1 else 0),
      fn_data = pd, fn_size = n, fn_path = q\<rparr>"
    define s' where "s' = clks_fs_node_set_heap_data i flag s4"
    have i: "i \<noteq> 0" "\<not> fs_live s i" "fs_table_ok s4" "fs_same s s4" "\<And>j. fs_live s4 j \<longleftrightarrow> j = i \<or> fs_live s j"
      "\<And>j. j \<noteq> i \<Longrightarrow> fs_node s4 j = fs_node s j"
      "fs_node s4 i = \<lparr>fn_used = True, fn_type = FS_NODE_FILE, fn_parent = d, fn_reserved = 0,
          fn_data = pd, fn_size = n, fn_path = q\<rparr>"
      "\<And>q'. clks_fs_find_node_by_internal q' s4 = (if q' = q then Some i else clks_fs_find_node_by_internal q' s)"
      using sp Some by simp_all
    have s': "s' = fs_set_node i (\<lambda>_. ?m) s4"
      unfolding s'_def clks_fs_node_set_heap_data_def
      by (subst fs_set_node_const) (simp add: i(7) heap_flag_word CLKS_FS_NODE_FLAG_HEAP_DATA_def)
    have li: "i < length (clks_fs_nodes s4)" using fs_table_live(2) [OF i(3)] i(5) by blast
    have nth: "fs_node s' j = (if j = i then ?m else fs_node s j)" for j
      unfolding s' using fs_set_node_nth [OF li] i(6) by auto
    have fd: "clks_fs_find_node_by_internal q' s' = clks_fs_find_node_by_internal q' s4" for q'
      unfolding s'_def clks_fs_node_set_heap_data_def by (rule find_set_node) simp_all
    have live: "fs_live s' j \<longleftrightarrow> j = i \<or> fs_live s j" for j
      using i(5) [of j] nth [of j] i(6) [of j] i(7) by (cases "j = i") (auto simp: fs_live_def s')
    have d: "fs_live s d" "fn_path (fs_node s d) = path_parent q" using find_internal_Some [OF par(1)] by auto
    have di: "d \<noteq> i" using d(1) i(2) by blast
    have li4: "i < clks_fs_nodes_used s4" using i(5) [of i] by (simp add: fs_live_def)
    have "fs_table_ok s'"
      unfolding s' by (rule fs_table_store(1)) (use i di d par q li4 in \<open>simp_all\<close>)
    moreover have "\<exists>L'. fs_owns F L' s'"
      by (rule commit_owns [OF o pay, of i]) (use i(2,4) nth live in \<open>simp_all add: s' fs_same_def heap_drop_def\<close>)
    ultimately show ?thesis
      using nth fd i(4,8) unfolding Some option.case s'_def [symmetric] Let_def by (simp add: fs_inv_def s' fs_same_def)
  qed
next
  case (Some i)
  note li = find_internal_Some [OF Some]
  define sh where "sh = s\<lparr>fs_heap := heap_drop (node_heap (fs_node s i)) (fs_heap s)\<rparr>"
  let ?m = "(fs_node s i)\<lparr>fn_parent := d, fn_data := pd, fn_size := n, fn_used := True, fn_reserved := (if flag then 1 else 0)\<rparr>"
  have ty: "fn_type (fs_node s i) = FS_NODE_FILE" by (rule node [OF Some])
  have len: "i < length (clks_fs_nodes s)" using fs_table_live(2) [OF t] li by blast
  define s3 where "s3 = clks_fs_node_release_heap_data i s"
  have s3: "s3 = fs_set_node i (\<lambda>n. n\<lparr>fn_reserved := fn_reserved n AND NOT CLKS_FS_NODE_FLAG_HEAP_DATA\<rparr>) sh"
    unfolding s3_def sh_def by (rule release_eq [OF ty])
  have f3: "clks_fs_find_node_by_internal q s3 = Some i"
    using Some unfolding s3 by (subst find_set_node) (simp_all add: sh_def)
  have lsh: "i < length (clks_fs_nodes sh)" using len by (simp add: sh_def)
  have t3: "fn_type (fs_node s3 i) = FS_NODE_FILE"
    unfolding s3 fs_set_node_nth [OF lsh] using ty by (simp add: sh_def)
  have r: "r = Some i" "s4 = fs_set_node i (\<lambda>m. m\<lparr>fn_parent := d, fn_data := pd, fn_size := n, fn_reserved := 0, fn_used := True\<rparr>) s3"
    using run q f3 t3 unfolding Some option.case s3_def [symmetric]
    by (auto simp: clks_fs_create_or_update_node_def)
  define s' where "s' = clks_fs_node_set_heap_data i flag s4"
  have "s' = fs_set_node i (\<lambda>m. m\<lparr>fn_parent := d, fn_data := pd, fn_size := n, fn_used := True, fn_reserved := (if flag then 1 else 0)\<rparr>) sh"
    unfolding s'_def r(2) s3 clks_fs_node_set_heap_data_def
    using lsh by (simp add: fs_set_node_twice heap_flag_word CLKS_FS_NODE_FLAG_HEAP_DATA_def)
  then have s': "s' = fs_set_node i (\<lambda>_. ?m) sh" by (subst (asm) fs_set_node_const) (simp add: sh_def)
  have nth: "fs_node s' j = (if j = i then ?m else fs_node s j)" for j
    unfolding s' using fs_set_node_nth [OF lsh] by (simp add: sh_def)
  have live: "fs_live s' j \<longleftrightarrow> fs_live s j" for j
    using nth [of j] li by (cases "j = i") (auto simp: fs_live_def s' sh_def)
  have d: "fs_live s d" "fn_path (fs_node s d) = path_parent q" using find_internal_Some [OF par(1)] by auto
  have di: "d \<noteq> i" using ty par(2) by auto
  have i0: "i \<noteq> 0" using li q(1) fs_table_root [OF t] by metis
  have st: "fs_table_ok s'" "clks_fs_find_node_by_internal q' s' =
      (if q' = q then Some i else clks_fs_find_node_by_internal q' s)" for q'
    unfolding s'
    using fs_table_store [of sh i ?m] t i0 li ty fs_table_live(3,4) [OF t] d di par q
    by (simp_all add: sh_def fs_live_def)
  have "\<exists>L'. fs_owns F L' s'"
    by (rule commit_owns [OF o pay, of i]) (use li nth live ty in \<open>simp_all add: s' sh_def\<close>)
  with st nth ty show ?thesis
    unfolding r(1) option.case s'_def [symmetric] by (simp add: fs_inv_def s' sh_def)
qed

section \<open>The operations on the tree\<close>

lemma path_join_last:
  assumes "\<forall>c \<in> set cs. component_ok c" "cs \<noteq> []"
  shows "path_join cs \<noteq> [] \<and> last (path_join cs) \<noteq> slash"
  using assms
proof (induction cs rule: rev_induct)
  case (snoc c cs)
  then have "c \<noteq> []" "last c \<noteq> slash" by (auto simp: component_ok_def dest: last_in_set)
  then show ?case by (cases "cs = []") (simp_all add: path_join_snoc)
qed simp

lemma fs_normalize_ok:
  assumes "clks_fs_normalize_external_path path CLKS_FS_PATH_MAX = Some q"
  shows "length q < CLKS_FS_PATH_MAX" "q = [] \<or> last q \<noteq> slash"
proof -
  obtain p where p: "path = Some p"
    using assms by (cases path)
      (simp_all add: clks_fs_normalize_external_path_def clks_rust_path_normalize_external_internal_def)
  have m: "2 \<le> CLKS_FS_PATH_MAX" by (simp add: CLKS_FS_PATH_MAX_def CLKS_RAMDISK_PATH_MAX_def)
  obtain cs where cs: "path_resolve p = Some cs" "q = path_join cs" "length q < CLKS_FS_PATH_MAX"
    using assms unfolding p clks_fs_normalize_external_path_def normalize_external_spec [OF m]
    by (auto split: if_splits option.splits)
  show "length q < CLKS_FS_PATH_MAX" by (rule cs(3))
  have "\<forall>c \<in> set cs. component_ok c"
    using cs(1) path_components_ok [of p] by (auto simp: path_resolve_def split: if_splits)
  then show "q = [] \<or> last q \<noteq> slash" using path_join_last [of cs] by (cases "cs = []") (auto simp: cs(2))
qed

lemma path_parent_shorter:
  assumes "q \<noteq> []"
  shows "length (path_parent q) < length q" "\<not> dir_prefix q (path_parent q)"
proof -
  have "length (path_parent q) \<le> length (dropWhile (\<lambda>c. c \<noteq> slash) (rev q)) - 1" by (simp add: path_parent_def)
  also have "\<dots> < length q"
    using length_dropWhile_le [of "\<lambda>c. c \<noteq> slash" "rev q"] assms
    by (cases q) (auto simp del: rev.simps simp: less_Suc_eq_le)
  finally show "length (path_parent q) < length q" .
  then show "\<not> dir_prefix q (path_parent q)" by (auto simp: dir_prefix_def)
qed

lemma ensure_hierarchy_spec:
  assumes "fs_table_ok s" "clks_fs_ensure_dir_hierarchy dir s = (ok, s')"
  shows "grows_dirs {q. q \<noteq> [] \<and> dir_prefix q dir} s s' \<and>
    (ok \<and> (dir = [] \<or> last dir \<noteq> slash) \<longrightarrow>
      (\<exists>i. clks_fs_find_node_by_internal dir s' = Some i \<and> fn_type (fs_node s' i) = FS_NODE_DIR))"
proof (rule ensure_loop_spec [OF assms(1)])
  show "clks_fs_find_node_by_internal [] s = Some 0"
    using fs_table_root [OF assms(1)] by (simp add: find_internal_iff [OF assms(1)])
  show "fn_type (fs_node s 0) = FS_NODE_DIR" using fs_table_root [OF assms(1)] by blast
  show "fs_ensure_loop [] dir 0 s = (ok, s')" using assms(2) by (simp add: clks_fs_ensure_dir_hierarchy_def)
qed simp

text \<open>
  What every operation on the path \<open>q\<close> keeps: the invariant for the same foreign blocks, their
  bytes, and every entry but \<open>q\<close>; at most directories above \<open>q\<close> appear.
\<close>

definition fs_step :: "(nat \<rightharpoonup> nat) \<Rightarrow> string \<Rightarrow> 'd fs_state \<Rightarrow> 'd fs_state \<Rightarrow> bool" where
  "fs_step F q s s' \<longleftrightarrow> fs_inv F s' \<and> same_bytes F (fs_bytes s) (fs_bytes s') \<and> fs_image s' = fs_image s \<and>
     fs_disk s' = fs_disk s \<and> clks_fs_ready s' = clks_fs_ready s \<and>
     (\<forall>r. r \<noteq> q \<longrightarrow> fs_view s' r = fs_view s r \<or>
        fs_view s r = None \<and> fs_view s' r = Some Dir_Entry \<and> dir_prefix r q)"

lemma dir_prefix_parent: "dir_prefix r (path_parent q) \<Longrightarrow> q \<noteq> [] \<Longrightarrow> r \<noteq> [] \<Longrightarrow> dir_prefix r q"
proof -
  assume "dir_prefix r (path_parent q)" "q \<noteq> []" "r \<noteq> []"
  moreover define fr where "fr = dropWhile (\<lambda>c. c \<noteq> slash) (rev q)"
  have q: "q = rev fr @ rev (takeWhile (\<lambda>c. c \<noteq> slash) (rev q))"
    unfolding fr_def rev_append [symmetric] takeWhile_dropWhile_id by simp
  have pp: "path_parent q = butlast (rev fr)" by (simp add: path_parent_def fr_def)
  moreover have "fr \<noteq> []" using \<open>dir_prefix r (path_parent q)\<close> \<open>r \<noteq> []\<close> pp by (auto simp: dir_prefix_def)
  moreover from this have "hd fr = slash" unfolding fr_def using hd_dropWhile [of "\<lambda>c. c \<noteq> slash" "rev q"] by blast
  then have "rev fr = path_parent q @ [slash]"
    using \<open>fr \<noteq> []\<close> pp append_butlast_last_id [of "rev fr"] by (simp add: last_rev)
  with q obtain t where "q = path_parent q @ slash # t" by auto
  with \<open>dir_prefix r (path_parent q)\<close> show "dir_prefix r q"
    unfolding dir_prefix_def by (metis append.assoc append_Cons)
qed

lemma grows_step:
  assumes g: "grows_dirs {r. r \<noteq> [] \<and> dir_prefix r p} s s'" and p: "\<And>r. r \<noteq> [] \<Longrightarrow> dir_prefix r p \<Longrightarrow> dir_prefix r q"
    and i: "fs_inv F s"
  shows "fs_step F q s s'" "\<not> dir_prefix q p \<Longrightarrow> fs_view s' q = fs_view s q"
proof -
  obtain L where t: "fs_table_ok s" and o: "fs_owns F L s" using i by (auto simp: fs_inv_def)
  have "fs_inv F s'" using owns_grows [OF o g] g by (auto simp: fs_inv_def grows_dirs_def)
  with g p view_grows [OF g o t] show "fs_step F q s s'"
    unfolding fs_step_def grows_dirs_def fs_same_def by auto
  show "fs_view s' q = fs_view s q" if "\<not> dir_prefix q p"
    using view_grows [OF g o t, of q] that by auto
qed

lemma fs_step_refl: "fs_inv F s \<Longrightarrow> fs_step F q s s"
  by (simp add: fs_step_def)

lemma fs_step_trans:
  "fs_step F q s s1 \<Longrightarrow> fs_step F q s1 s2 \<Longrightarrow> fs_step F q s s2"
  unfolding fs_step_def using same_bytes_trans by metis


lemma payload_ready:
  assumes o: "fs_owns F L s" and n: "n + 15 < USIZE_RANGE" and len: "\<And>d. data = Some d \<Longrightarrow> n \<le> length d"
    and run: "clks_fs_build_file_payload data n s = Some (Some (pd, flag), s')"
    and content: "content = take n (case data of None \<Rightarrow> [] | Some b \<Rightarrow> b)"
  shows "s' = s\<lparr>fs_heap := fs_heap s', fs_bytes := fs_bytes s'\<rparr> \<and> same_bytes L (fs_bytes s) (fs_bytes s') \<and>
    (\<exists>F1 L1. fs_owns F1 L1 s' \<and> payload_ok F1 pd n flag F) \<and>
    (if flag then \<exists>p. pd = Data_Heap p \<and> map (fs_bytes s') [p..<p + n] = content
     else pd = Data_Empty \<and> content = [] \<and> n = 0)"
proof (cases flag)
  case True
  with payload_spec [OF o n run len] obtain p sz b where p: "pd = Data_Heap p" "L p = None" "n \<le> sz"
    "data = Some b" "fs_owns (F(p \<mapsto> sz)) (L(p \<mapsto> sz)) s'" "same_bytes L (fs_bytes s) (fs_bytes s')"
    "map (fs_bytes s') [p..<p + n] = take n b" "s' = s\<lparr>fs_heap := fs_heap s', fs_bytes := fs_bytes s'\<rparr>"
    by auto
  have Fp: "F p = None" using fs_owns_D(5) [OF o, of p] p(2) by (cases "F p") auto
  have "payload_ok (F(p \<mapsto> sz)) pd n flag F"
    using True p(1,3) Fp by (auto simp: payload_ok_def fun_upd_idem)
  with p True content show ?thesis by auto
next
  case False
  with payload_spec [OF o n run len] have "pd = Data_Empty" "n = 0" "s' = s" by auto
  moreover from this False o have "fs_owns F L s \<and> payload_ok F pd n flag F" by (simp add: payload_ok_def)
  ultimately show ?thesis using False content by auto
qed

lemma fs_owns_table_heap:
  "s' = s\<lparr>fs_heap := h, fs_bytes := b\<rparr> \<Longrightarrow> fs_table_ok s' = fs_table_ok s \<and>
     (\<forall>p. clks_fs_find_node_by_internal p s' = clks_fs_find_node_by_internal p s) \<and> clks_fs_nodes s' = clks_fs_nodes s \<and>
     fs_image s' = fs_image s \<and> fs_disk s' = fs_disk s \<and> clks_fs_ready s' = clks_fs_ready s"
  by (auto simp: fs_table_ok_def fs_live_def clks_fs_find_node_by_internal_def)

text \<open>A payload that got no node is released again.\<close>

lemma payload_release:
  assumes o: "fs_owns F1 L s" and pay: "payload_ok F1 pd n flag F"
  shows "\<exists>L'. fs_owns F L' (case pd of Data_Heap p \<Rightarrow>
     if flag then s\<lparr>fs_heap := clks_kfree (Some p) (fs_heap s)\<rparr> else s | _ \<Rightarrow> s)"
proof (cases flag)
  case True
  then obtain p sz where p: "pd = Data_Heap p" "F1 p = Some sz" "F = F1(p := None)"
    using pay by (auto simp: payload_ok_def)
  let ?s = "s\<lparr>fs_heap := clks_kfree (Some p) (fs_heap s)\<rparr>"
  have np: "\<not> fs_owned s p" using fs_owns_D(3) [OF o, of p] p(2) by auto
  have Lp: "L p = Some sz" by (rule fs_owns_D(5) [OF o p(2)])
  have ow: "fs_owned ?s q = fs_owned s q" for q by (simp add: fs_owned_def)
  have "heap_live (fs_heap ?s) (L(p := None))" using heap.release_live [OF fs_owns_D(1) [OF o] Lp] by simp
  moreover have "node_data_ok (L(p := None)) (fs_image s) (fs_node s i)" if l: "fs_live s i" for i
  proof -
    have "node_heap (fs_node s i) \<noteq> Some p" using np l by (auto simp: fs_owned_def)
    then show ?thesis using fs_owns_D(2) [OF o l] by (auto simp: node_data_ok_def split: option.splits)
  qed
  moreover have "(F1(p := None)) q = None" if "fs_owned s q" for q
    using fs_owns_D(3) [OF o that] by simp
  moreover have "(L(p := None)) q = (F1(p := None)) q" if "\<not> fs_owned s q" for q
    using fs_owns_D(4) [OF o that] by simp
  moreover have "i = j" if "fs_live s i" "fs_live s j" "node_heap (fs_node s i) = Some q"
    "node_heap (fs_node s j) = Some q" for i j q by (rule fs_owns_inj [OF o that])
  ultimately have "fs_owns F (L(p := None)) ?s"
    unfolding fs_owns_def ow p(3) by simp
  then show ?thesis using True p(1) by auto
next
  case False
  with o pay show ?thesis by (auto simp: payload_ok_def)
qed

lemma write_payload_spec:
  assumes i: "fs_inv F s" and n: "n + 15 < USIZE_RANGE" and len: "\<And>d. data = Some d \<Longrightarrow> n \<le> length d"
    and q: "q \<noteq> []" "length q < CLKS_FS_PATH_MAX" "last q \<noteq> slash"
    and par: "clks_fs_find_node_by_internal (path_parent q) s = Some d" "fn_type (fs_node s d) = FS_NODE_DIR"
    and node: "\<And>i. clks_fs_find_node_by_internal q s = Some i \<Longrightarrow> fn_type (fs_node s i) = FS_NODE_FILE"
  shows "\<exists>ok s'. fs_write_payload q d data n s = Some (ok, s') \<and> fs_step F q s s' \<and>
    fs_view s' q = (if ok then Some (File_Entry (take n (case data of None \<Rightarrow> [] | Some b \<Rightarrow> b))) else fs_view s q)"
proof -
  obtain L where t: "fs_table_ok s" and o: "fs_owns F L s" using i by (auto simp: fs_inv_def)
  obtain r s2 where pl: "clks_fs_build_file_payload data n s = Some (r, s2)" using payload_runs [OF o] by blast
  show ?thesis
  proof (cases r)
    case None
    with payload_spec [OF o n pl len] pl i show ?thesis by (auto simp: fs_write_payload_def fs_step_refl)
  next
    case (Some pf)
    obtain pd flag where pf: "r = Some (pd, flag)" using Some by fastforce
    define content where "content = take n (case data of None \<Rightarrow> [] | Some b \<Rightarrow> b)"
    note ready = payload_ready [OF o n len pl [unfolded pf] content_def]
    obtain F1 L1 where o2: "fs_owns F1 L1 s2" and pay: "payload_ok F1 pd n flag F" using ready by blast
    have eq: "fs_table_ok s2" "clks_fs_find_node_by_internal p s2 = clks_fs_find_node_by_internal p s"
      "clks_fs_nodes s2 = clks_fs_nodes s" "fs_image s2 = fs_image s" "fs_disk s2 = fs_disk s"
      "clks_fs_ready s2 = clks_fs_ready s" for p
      using fs_owns_table_heap [OF conjunct1 [OF ready]] t by simp_all
    have sb: "same_bytes L (fs_bytes s) (fs_bytes s2)" using ready by blast
    have v2: "fs_view s2 r = fs_view s r" for r
      by (rule view_same [OF o t eq(2)]) (simp_all add: eq sb)
    define s3 where "s3 = (case clks_fs_find_node_by_internal q s2 of
      Some i \<Rightarrow> clks_fs_node_release_heap_data i s2 | None \<Rightarrow> s2)"
    obtain a s4 where cr: "clks_fs_create_or_update_node q FS_NODE_FILE d pd n s3 = (a, s4)" by fastforce
    have par2: "clks_fs_find_node_by_internal (path_parent q) s2 = Some d" "fn_type (fs_node s2 d) = FS_NODE_DIR"
      and node2: "\<And>i. clks_fs_find_node_by_internal q s2 = Some i \<Longrightarrow> fn_type (fs_node s2 i) = FS_NODE_FILE"
      using par node by (simp_all add: eq)
    note cs = commit_spec [OF eq(1) o2 pay q par2 node2 cr [unfolded s3_def]]
    have run: "fs_write_payload q d data n s = (case a of
        None \<Rightarrow> Some (False, (case pd of Data_Heap p \<Rightarrow>
           if flag then s4\<lparr>fs_heap := clks_kfree (Some p) (fs_heap s4)\<rparr> else s4 | _ \<Rightarrow> s4))
      | Some i \<Rightarrow> Some (True, clks_fs_node_set_heap_data i flag s4))"
      unfolding fs_write_payload_def pl pf
      using cr by (simp add: s3_def eq split: option.split)
    have fsb: "same_bytes F (fs_bytes s) (fs_bytes s2)" by (rule same_bytes_foreign [OF sb o])
    show ?thesis
    proof (cases a)
      case None
      define s' where "s' = (case pd of Data_Heap p \<Rightarrow>
           if flag then s2\<lparr>fs_heap := clks_kfree (Some p) (fs_heap s2)\<rparr> else s2 | _ \<Rightarrow> s2)"
      have s4: "s4 = s2" using cs None by simp
      have s': "clks_fs_nodes s' = clks_fs_nodes s2" "fs_table_ok s'" "fs_bytes s' = fs_bytes s2"
        "fs_image s' = fs_image s2" "fs_disk s' = fs_disk s2" "clks_fs_ready s' = clks_fs_ready s2"
        "clks_fs_find_node_by_internal p s' = clks_fs_find_node_by_internal p s2" for p
        using eq(1) by (auto simp: s'_def split: fs_data.split)
      have "fs_view s' p = fs_view s p" for p
        by (rule view_same [OF o t]) (simp_all add: s' eq sb)
      moreover have "fs_inv F s'"
        using payload_release [OF o2 pay] s'(2) unfolding s'_def fs_inv_def by blast
      ultimately have "fs_step F q s s' \<and> fs_view s' q = fs_view s q"
        using fsb by (simp add: fs_step_def s' eq)
      moreover have "fs_write_payload q d data n s = Some (False, s')" using run unfolding None s4 s'_def by simp
      ultimately show ?thesis by auto
    next
      case (Some j)
      define s' where "s' = clks_fs_node_set_heap_data j flag s4"
      have c: "fs_inv F s'"
        "\<And>p. clks_fs_find_node_by_internal p s' = (if p = q then Some j else clks_fs_find_node_by_internal p s2)"
        "fn_type (fs_node s' j) = FS_NODE_FILE" "fn_data (fs_node s' j) = pd" "fn_size (fs_node s' j) = n"
        "\<And>i. i \<noteq> j \<Longrightarrow> fs_node s' i = fs_node s2 i" "fs_bytes s' = fs_bytes s2" "fs_image s' = fs_image s2"
        "fs_disk s' = fs_disk s2" "clks_fs_ready s' = clks_fs_ready s2"
        using cs Some by (simp_all add: s'_def Let_def)
      have "fs_view s' p = fs_view s p" if p: "p \<noteq> q" for p
      proof (rule view_same [OF o t])
        show "clks_fs_find_node_by_internal p s' = clks_fs_find_node_by_internal p s" using c(2) p by (simp add: eq)
        show "fs_node s' i = fs_node s i" if "clks_fs_find_node_by_internal p s = Some i" for i
        proof -
          have "clks_fs_find_node_by_internal p s' = Some i" using that c(2) [of p] p by (simp add: eq)
          then have "i \<noteq> j"
            using find_internal_Some [of p s' i] find_internal_Some [of q s' j] c(2) [of q] p by auto
          then show ?thesis using c(6) by (simp add: eq)
        qed
      qed (simp_all add: c eq sb)
      then have "fs_step F q s s'" using fsb c by (simp add: fs_step_def eq)
      moreover have "fs_node_bytes s' (fs_node s' j) = content"
        using ready c(4,5,7) by (auto simp: fs_node_bytes_def split: if_splits)
      then have "fs_view s' q = Some (File_Entry content)" using c(2,3) by (simp add: fs_view_def)
      moreover have "fs_write_payload q d data n s = Some (True, s')" using run Some by (simp add: s'_def)
      ultimately show ?thesis by (auto simp: content_def)
    qed
  qed
qed

lemma writable_path: "clks_fs_internal_writable_node_path q \<Longrightarrow> q \<noteq> []"
  by (simp add: clks_fs_internal_writable_node_path_def)

lemma write_all_spec:
  assumes i: "fs_inv F s" and ready: "clks_fs_ready s" and mount: "\<not> in_mount dk (Some p) s"
    and q: "clks_fs_normalize_external_path (Some p) CLKS_FS_PATH_MAX = Some q"
    and w: "clks_fs_internal_writable_node_path q"
    and n: "n + 15 < USIZE_RANGE" and len: "\<And>d. data = Some d \<Longrightarrow> n \<le> length d"
  shows "\<exists>ok s'. clks_fs_write_all dk (Some p) data n s = Some (ok, s') \<and> fs_step F q s s' \<and>
    fs_view s' q = (if ok then Some (File_Entry (take n (case data of None \<Rightarrow> [] | Some b \<Rightarrow> b))) else fs_view s q)"
proof -
  have t: "fs_table_ok s" using i by (simp add: fs_inv_def)
  note qn = writable_path [OF w]
  have ql: "length q < CLKS_FS_PATH_MAX" "last q \<noteq> slash" using fs_normalize_ok [OF q] qn by auto
  obtain ok s1 where e: "clks_fs_ensure_dir_hierarchy (path_parent q) s = (ok, s1)" by fastforce
  have g: "grows_dirs {r. r \<noteq> [] \<and> dir_prefix r (path_parent q)} s s1"
    using ensure_hierarchy_spec [OF t e] by blast
  have st: "fs_step F q s s1" "fs_view s1 q = fs_view s q"
    using grows_step [OF g dir_prefix_parent i] path_parent_shorter(2) [OF qn] qn by blast+
  have i1: "fs_inv F s1" using st by (simp add: fs_step_def)
  have sp: "clks_fs_split_parent q CLKS_FS_PATH_MAX = Some (path_parent q)" by (rule split_parent_eq [OF ql(1)])
  let ?bad = "\<not> ok \<or> (case clks_fs_find_node_by_internal (path_parent q) s1 of None \<Rightarrow> True
      | Some d \<Rightarrow> fn_type (fs_node s1 d) \<noteq> FS_NODE_DIR \<or>
          (case clks_fs_find_node_by_internal q s1 of Some i \<Rightarrow> fn_type (fs_node s1 i) \<noteq> FS_NODE_FILE | None \<Rightarrow> False))"
  show ?thesis
  proof (cases ?bad)
    case True
    then have "clks_fs_write_all dk (Some p) data n s = Some (False, s1)"
      using ready mount q w sp e unfolding clks_fs_write_all_def by (auto split: option.splits)
    with st show ?thesis by auto
  next
    case False
    then obtain d where d: "clks_fs_find_node_by_internal (path_parent q) s1 = Some d"
      "fn_type (fs_node s1 d) = FS_NODE_DIR" "ok"
      and node: "\<And>i. clks_fs_find_node_by_internal q s1 = Some i \<Longrightarrow> fn_type (fs_node s1 i) = FS_NODE_FILE"
      by (auto split: option.splits)
    have run: "clks_fs_write_all dk (Some p) data n s = fs_write_payload q d data n s1"
      using ready mount q w sp e d node unfolding clks_fs_write_all_def by (auto split: option.splits)
    from write_payload_spec [OF i1 n len qn ql d(1,2) node] obtain ok' s' where
      "fs_write_payload q d data n s1 = Some (ok', s')" "fs_step F q s1 s'"
      "fs_view s' q = (if ok' then Some (File_Entry (take n (case data of None \<Rightarrow> [] | Some b \<Rightarrow> b))) else fs_view s1 q)"
      by blast
    with run st fs_step_trans [OF st(1)] show ?thesis by auto
  qed
qed

lemma foreign_release:
  assumes "fs_inv F1 s" "F1 p = Some sz"
  shows "fs_inv (F1(p := None)) (s\<lparr>fs_heap := clks_kfree (Some p) (fs_heap s)\<rparr>)"
proof -
  obtain L where "fs_owns F1 L s" using assms(1) by (auto simp: fs_inv_def)
  moreover have "payload_ok F1 (Data_Heap p) 0 True (F1(p := None))" using assms(2) by (simp add: payload_ok_def)
  ultimately show ?thesis using payload_release [of F1 L s "Data_Heap p" 0 True] assms(1) by (auto simp: fs_inv_def)
qed

lemma fs_view_heap [simp]: "fs_view (s\<lparr>fs_heap := h\<rparr>) q = fs_view s q"
  by (cases "clks_fs_find_node_by_internal q s")
    (simp_all add: fs_view_def fs_node_bytes_def split: fs_data.split)

lemma view_file:
  assumes t: "fs_table_ok s" and f: "clks_fs_find_node_by_internal q s = Some i"
    and ty: "fn_type (fs_node s i) = FS_NODE_FILE" and o: "fs_owns F L s"
  shows "fs_view s q = Some (File_Entry (fs_node_bytes s (fs_node s i)))"
    and "length (fs_node_bytes s (fs_node s i)) = fn_size (fs_node s i)"
    and "fn_data (fs_node s i) \<noteq> Data_Null"
proof -
  have "fs_live s i" using find_internal_Some [OF f] by blast
  from fs_owns_D(2) [OF o this] ty
  show "length (fs_node_bytes s (fs_node s i)) = fn_size (fs_node s i)" "fn_data (fs_node s i) \<noteq> Data_Null"
    by (auto simp: node_data_ok_def fs_node_bytes_def dest!: node_heap_data split: option.splits)
  show "fs_view s q = Some (File_Entry (fs_node_bytes s (fs_node s i)))" using f ty by (simp add: fs_view_def)
qed

lemma read_all_view:
  assumes i: "fs_inv F s" and ready: "clks_fs_ready s" and mount: "\<not> in_mount dk (Some p) s"
    and q: "clks_fs_normalize_external_path (Some p) CLKS_FS_PATH_MAX = Some q"
  shows "clks_fs_read_all dk (Some p) s =
    (case fs_view s q of Some (File_Entry bs) \<Rightarrow> Some bs | _ \<Rightarrow> None, s)"
proof -
  obtain L where t: "fs_table_ok s" and o: "fs_owns F L s" using i by (auto simp: fs_inv_def)
  show ?thesis
  proof (cases "clks_fs_find_node_by_internal q s")
    case None
    then show ?thesis
      using ready mount q by (simp add: clks_fs_read_all_def clks_fs_find_node_by_external_def fs_view_def)
  next
    case (Some j)
    have ty: "fn_type (fs_node s j) = FS_NODE_FILE \<or> fn_type (fs_node s j) = FS_NODE_DIR"
      using find_internal_Some [OF Some] fs_table_live(5) [OF t, of j] by (cases "fn_type (fs_node s j)") auto
    show ?thesis
    proof (cases "fn_type (fs_node s j) = FS_NODE_FILE")
      case True
      note vf = view_file [OF t Some True o]
      have "fs_node_bytes s (fs_node s j) = []" if "fn_size (fs_node s j) = 0" using vf(2) that by simp
      with vf ready mount q True Some show ?thesis
        by (simp add: clks_fs_read_all_def clks_fs_find_node_by_external_def)
    next
      case False
      with ty ready mount q Some show ?thesis
        by (simp add: clks_fs_read_all_def clks_fs_find_node_by_external_def fs_view_def)
    qed
  qed
qed

lemma in_mount_cong: "fs_disk s' = fs_disk s \<Longrightarrow> in_mount dk p s' = in_mount dk p s"
  by (simp add: in_mount_def split: option.split)

lemma put_two:
  assumes "length xs = m" "length ys = n"
  shows "map (fs_put (p + m) ys (fs_put p xs b)) [p..<p + (m + n)] = xs @ ys"
  by (rule nth_equalityI) (use assms in \<open>auto simp: fs_put_def nth_append\<close>)

lemma append_spec:
  assumes i: "fs_inv F s" and ready: "clks_fs_ready s" and mount: "\<not> in_mount dk (Some p) s"
    and q: "clks_fs_normalize_external_path (Some p) CLKS_FS_PATH_MAX = Some q"
    and w: "clks_fs_internal_writable_node_path q"
    and old: "old = (case fs_view s q of Some (File_Entry bs) \<Rightarrow> bs | _ \<Rightarrow> [])"
    and n: "length old + n + 15 < USIZE_RANGE" and len: "length d \<ge> n"
  shows "\<exists>ok s'. clks_fs_append dk (Some p) (Some d) n s = Some (ok, s') \<and> fs_step F q s s' \<and>
    fs_view s' q = (if ok then Some (File_Entry (old @ take n d)) else fs_view s q)"
proof -
  obtain L where t: "fs_table_ok s" and o: "fs_owns F L s" using i by (auto simp: fs_inv_def)
  show ?thesis
  proof (cases "clks_fs_find_node_by_internal q s")
    case None
    have old0: "old = []" using None by (simp add: old fs_view_def)
    have "clks_fs_append dk (Some p) (Some d) n s = clks_fs_write_all dk (Some p) (Some d) n s"
      using ready mount q w None by (simp add: clks_fs_append_def)
    moreover have "n + 15 < USIZE_RANGE" "\<And>b. Some d = Some b \<Longrightarrow> n \<le> length b" using n len by simp_all
    ultimately show ?thesis
      using write_all_spec [OF i ready mount q w] unfolding old0 append_Nil by (metis option.case(2))
  next
    case (Some j)
    show ?thesis
    proof (cases "fn_type (fs_node s j) = FS_NODE_FILE")
      case False
      then have "clks_fs_append dk (Some p) (Some d) n s = Some (False, s)"
        using ready mount q w Some by (simp add: clks_fs_append_def)
      then show ?thesis using fs_step_refl [OF i] by auto
    next
      case True
      note vf = view_file [OF t Some True o]
      let ?N = "fs_node s j"
      have oldb: "old = fs_node_bytes s ?N" using vf(1) by (simp add: old)
      define new_size where "new_size = length old + n"
      have ns: "fn_size ?N = length old" "\<not> length old > USIZE_RANGE - 1 - n" "new_size + 15 < USIZE_RANGE"
        using vf(2) n by (simp_all add: oldb new_size_def)
      show ?thesis
      proof (cases "new_size = 0")
        case True
        then have "clks_fs_append dk (Some p) (Some d) n s = clks_fs_write_all dk (Some p) (Some [0]) 0 s"
          using ready mount q w Some \<open>fn_type ?N = FS_NODE_FILE\<close> ns(1,2)
          by (simp add: clks_fs_append_def new_size_def Let_def)
        moreover have z: "take 0 [0 :: u8] = old @ take n d" "0 + 15 < USIZE_RANGE"
          using True n by (simp_all add: new_size_def)
        obtain ok s' where "clks_fs_write_all dk (Some p) (Some [0]) 0 s = Some (ok, s')" "fs_step F q s s'"
          "fs_view s' q = (if ok then Some (File_Entry (old @ take n d)) else fs_view s q)"
          using write_all_spec [OF i ready mount q w z(2), of "Some [0]"] unfolding option.case z(1) by auto
        ultimately show ?thesis by auto
      next
        case False
        obtain r h where m: "clks_kmalloc new_size (fs_heap s) = Some (r, h)"
          using heap.malloc_runs [OF fs_owns_D(1) [OF o]] by blast
        show ?thesis
        proof (cases r)
          case None
          have "h = fs_heap s" using heap.malloc_null [OF fs_owns_D(1) [OF o]] m None by blast
          then have "clks_fs_append dk (Some p) (Some d) n s = Some (False, s)"
            using ready mount q w Some \<open>fn_type ?N = FS_NODE_FILE\<close> ns(1,2) False m None
            by (auto simp: clks_fs_append_def new_size_def Let_def)
          then show ?thesis using fs_step_refl [OF i] by auto
        next
          case (Some mg)
          have m: "clks_kmalloc new_size (fs_heap s) = Some (Some mg, h)" using m Some by simp
          obtain sz where sz: "L mg = None" "heap_live h (L(mg \<mapsto> sz))" "new_size \<le> sz"
            using heap.malloc_some [OF fs_owns_D(1) [OF o] m] ns(3) by blast
          define b where "b = fs_put (mg + length old) (take n d) (fs_put mg old (fs_bytes s))"
          define s3 where "s3 = s\<lparr>fs_heap := h, fs_bytes := b\<rparr>"
          have z: "fs_put a [] f = f" for a f by (rule ext) (auto simp: fs_put_def)
          have bt: "map b [mg..<mg + new_size] = old @ take n d"
            unfolding b_def new_size_def using len by (intro put_two) simp_all
          have run: "clks_fs_append dk (Some p) (Some d) n s =
              Option.bind (clks_fs_write_all dk (Some p) (Some (old @ take n d)) new_size s3)
                (\<lambda>(ok, s4). Some (ok, s4\<lparr>fs_heap := clks_kfree (Some mg) (fs_heap s4)\<rparr>))"
          proof -
            have "fs_merge_bytes mg ?N (Some d) n s = b"
              using vf(3) ns(1) by (auto simp: fs_merge_bytes_def b_def Let_def oldb [symmetric] z)
            with bt show ?thesis
              using ready mount q w \<open>clks_fs_find_node_by_internal q s = Some j\<close> \<open>fn_type ?N = FS_NODE_FILE\<close>
                ns(1,2) False m
              by (simp add: clks_fs_append_def new_size_def [symmetric] Let_def s3_def)
          qed
          let ?F = "F(mg \<mapsto> sz)"
          have o3: "fs_owns ?F (L(mg \<mapsto> sz)) s3" unfolding s3_def by (rule owns_heap_block [OF o sz(2,1)])
          have eq: "fs_table_ok s3" "clks_fs_find_node_by_internal p s3 = clks_fs_find_node_by_internal p s"
            "clks_fs_nodes s3 = clks_fs_nodes s" "fs_image s3 = fs_image s" "fs_disk s3 = fs_disk s"
            "clks_fs_ready s3 = clks_fs_ready s" for p
            using fs_owns_table_heap [OF s3_def] t by simp_all
          have i3: "fs_inv ?F s3" using o3 eq(1) by (auto simp: fs_inv_def)
          have sb: "same_bytes L (fs_bytes s) (fs_bytes s3)"
            using heap.malloc_apart [OF fs_owns_D(1) [OF o] m ns(3)] len
            by (fastforce simp: same_bytes_def s3_def b_def fs_put_def new_size_def)
          have v3: "fs_view s3 r = fs_view s r" for r
            by (rule view_same [OF o t eq(2)]) (simp_all add: eq sb)
          have "clks_fs_ready s3" "\<not> in_mount dk (Some p) s3"
            using ready mount eq(6) in_mount_cong [OF eq(5)] by auto
          from write_all_spec [OF i3 this q w ns(3), of "Some (old @ take n d)"] len obtain ok s4 where
            s4: "clks_fs_write_all dk (Some p) (Some (old @ take n d)) new_size s3 = Some (ok, s4)"
            "fs_step ?F q s3 s4" "fs_view s4 q = (if ok then Some (File_Entry (old @ take n d)) else fs_view s3 q)"
            by (auto simp: new_size_def)
          let ?s' = "s4\<lparr>fs_heap := clks_kfree (Some mg) (fs_heap s4)\<rparr>"
          have Fm: "F mg = None" using fs_owns_D(5) [OF o, of mg] sz(1) by (cases "F mg") auto
          have "fs_inv F ?s'"
            using foreign_release [of ?F s4 mg sz] s4(2) Fm by (simp add: fs_step_def fun_upd_idem)
          moreover have "same_bytes F (fs_bytes s3) (fs_bytes s4)"
            using s4(2) Fm unfolding fs_step_def same_bytes_def by (metis fun_upd_other option.distinct(1))
          ultimately have "fs_step F q s ?s'"
            using s4(2) same_bytes_trans [OF same_bytes_foreign [OF sb o]] by (simp add: fs_step_def v3 eq)
          then show ?thesis using run s4 by (auto simp: v3)
        qed
      qed
    qed
  qed
qed

lemma mkdir_spec:
  assumes i: "fs_inv F s" and ready: "clks_fs_ready s" and mount: "\<not> in_mount dk (Some p) s"
    and q: "clks_fs_normalize_external_path (Some p) CLKS_FS_PATH_MAX = Some q"
    and w: "clks_fs_internal_writable_node_path q"
    and run: "clks_fs_mkdir dk (Some p) s = (ok, s')"
  shows "fs_step F q s s' \<and> fs_bytes s' = fs_bytes s \<and> fs_heap s' = fs_heap s \<and>
    (fs_view s' q = fs_view s q \<or> fs_view s q = None \<and> fs_view s' q = Some Dir_Entry) \<and>
    (ok \<longrightarrow> fs_view s' q = Some Dir_Entry)"
proof -
  obtain L where t: "fs_table_ok s" and o: "fs_owns F L s" using i by (auto simp: fs_inv_def)
  obtain ok1 s1 where e: "clks_fs_ensure_dir_hierarchy q s = (ok1, s1)" by fastforce
  note sp = ensure_hierarchy_spec [OF t e]
  have g: "grows_dirs {r. r \<noteq> [] \<and> dir_prefix r q} s s1" using sp by blast
  have s': "s' = s1" "ok \<longrightarrow> ok1 \<and> (\<exists>i. clks_fs_find_node_by_internal q s1 = Some i \<and> fn_type (fs_node s1 i) = FS_NODE_DIR)"
    using run ready mount q w e by (auto simp: clks_fs_mkdir_def split: if_splits option.splits)
  have "fs_step F q s s1" by (rule grows_step(1) [OF g _ i])
  moreover have "fs_view s1 q = fs_view s q \<or> fs_view s q = None \<and> fs_view s1 q = Some Dir_Entry"
    using view_grows [OF g o t, of q] by blast
  moreover have "ok \<longrightarrow> fs_view s1 q = Some Dir_Entry" using s'(2) by (auto simp: fs_view_def)
  ultimately show ?thesis using g s'(1) by (auto simp: grows_dirs_def fs_same_def)
qed

lemma fs_table_remove:
  assumes t: "fs_table_ok s" and i: "fs_live s i" "i \<noteq> 0" and m: "\<not> fn_used m"
    and par: "\<And>j. fs_live s j \<Longrightarrow> j \<noteq> 0 \<Longrightarrow> fn_parent (fs_node s j) \<noteq> i"
  shows "fs_table_ok (fs_set_node i (\<lambda>_. m) s)"
    and "clks_fs_find_node_by_internal r (fs_set_node i (\<lambda>_. m) s) =
      (if r = fn_path (fs_node s i) then None else clks_fs_find_node_by_internal r s)"
proof -
  let ?s = "fs_set_node i (\<lambda>_. m) s"
  have len: "i < length (clks_fs_nodes s)" using fs_table_live(2) [OF t i(1)] .
  have nth: "fs_node ?s j = (if j = i then m else fs_node s j)" for j by (rule fs_set_node_nth [OF len])
  have live: "fs_live ?s j \<longleftrightarrow> j \<noteq> i \<and> fs_live s j" for j using nth m by (auto simp: fs_live_def)
  show tab: "fs_table_ok ?s"
    unfolding fs_table_ok_def
  proof (intro conjI allI impI)
    show "length (clks_fs_nodes ?s) = CLKS_FS_MAX_NODES" "clks_fs_nodes_used ?s \<le> CLKS_FS_MAX_NODES"
      using t by (simp_all add: fs_table_ok_def)
    show "\<not> fn_used (fs_node ?s j)" if "j < CLKS_FS_MAX_NODES" "clks_fs_nodes_used ?s \<le> j" for j
      using t that m nth by (auto simp: fs_table_ok_def)
    show "fs_live ?s 0" "fn_type (fs_node ?s 0) = FS_NODE_DIR" "fn_path (fs_node ?s 0) = []" "fn_parent (fs_node ?s 0) = 0"
      using fs_table_root [OF t] i(2) live nth by auto
    show "length (fn_path (fs_node ?s j)) < CLKS_FS_PATH_MAX" "fn_type (fs_node ?s j) \<noteq> FS_NODE_NONE"
      if "fs_live ?s j" for j
      using that live nth fs_table_live [OF t, of j] by auto
    show "j = k" if "fs_live ?s j" "fs_live ?s k" "fn_path (fs_node ?s j) = fn_path (fs_node ?s k)" for j k
      using that live nth fs_table_unique [OF t, of j k] by (auto split: if_splits)
    fix j
    assume j: "fs_live ?s j" "j \<noteq> 0"
    then have j2: "fs_live s j" "j \<noteq> i" "fn_parent (fs_node s j) \<noteq> i" using live par by auto
    show "fn_path (fs_node ?s j) \<noteq> []" "fs_live ?s (fn_parent (fs_node ?s j))"
      "fn_type (fs_node ?s (fn_parent (fs_node ?s j))) = FS_NODE_DIR"
      "fn_path (fs_node ?s (fn_parent (fs_node ?s j))) = path_parent (fn_path (fs_node ?s j))"
      "last (fn_path (fs_node ?s j)) \<noteq> slash"
      using fs_table_parent [OF t j2(1) j(2)] fs_table_last [OF t j2(1) j(2)] j2 nth live by simp_all
  qed
  show "clks_fs_find_node_by_internal r ?s =
      (if r = fn_path (fs_node s i) then None else clks_fs_find_node_by_internal r s)"
  proof (rule option_eqI)
    fix j
    show "clks_fs_find_node_by_internal r ?s = Some j \<longleftrightarrow>
        (if r = fn_path (fs_node s i) then None else clks_fs_find_node_by_internal r s) = Some j"
      using live [of j] nth [of j] fs_table_unique [OF t, of i j] i
      by (auto simp: find_internal_iff [OF tab] find_internal_iff [OF t])
  qed
qed

lemma remove_owns:
  assumes o: "fs_owns F L s" and i: "fs_live s i"
    and other: "\<And>j. j \<noteq> i \<Longrightarrow> fs_live s' j = fs_live s j \<and> (fs_live s j \<longrightarrow> fs_node s' j = fs_node s j)"
    and img: "fs_image s' = fs_image s" and dead: "\<not> fs_live s' i"
    and heap: "fs_heap s' = heap_drop (node_heap (fs_node s i)) (fs_heap s)"
  shows "\<exists>L'. fs_owns F L' s'"
proof -
  define old where "old = (if fs_live s i then node_heap (fs_node s i) else None)"
  have L: "L p \<noteq> None" if "old = Some p" for p
    using fs_owns_D(2) [OF o i] that i node_heap_data [of "fs_node s i" p]
    by (auto simp: old_def node_data_ok_def)
  have "heap_live (fs_heap s') (case old of None \<Rightarrow> L | Some p \<Rightarrow> L(p := None))"
    using heap_drop_live [OF fs_owns_D(1) [OF o] L] heap i by (simp add: old_def)
  then have "fs_owns F (case old of None \<Rightarrow> L | Some p \<Rightarrow> L(p := None)) s'"
    by (intro owns_change [OF o other img old_def refl refl]) (simp_all add: dead)
  then show ?thesis by blast
qed

lemma children_iff:
  assumes t: "fs_table_ok s" and f: "clks_fs_find_node_by_internal q s = Some i" "q \<noteq> []"
  shows "(\<exists>j. fs_live s j \<and> fn_parent (fs_node s j) = i) \<longleftrightarrow>
    (\<exists>r. r \<noteq> [] \<and> path_parent r = q \<and> fs_view s r \<noteq> None)" (is "?A \<longleftrightarrow> ?B")
proof
  have fi: "fs_live s i" "fn_path (fs_node s i) = q" using find_internal_Some [OF f(1)] by blast+
  then have i0: "i \<noteq> 0" using f(2) fs_table_root [OF t] by metis
  show ?B if kid: ?A
  proof -
    obtain j where j: "fs_live s j" "fn_parent (fs_node s j) = i" using kid by blast
    then have "j \<noteq> 0" using i0 fs_table_root [OF t] by metis
    with fs_table_parent [OF t j(1)] fi j show ?thesis
      by (intro exI [of _ "fn_path (fs_node s j)"]) (auto simp: fs_view_def find_internal_None)
  qed
  show ?A if entry: ?B
  proof -
    obtain r where r: "r \<noteq> []" "path_parent r = q" "fs_view s r \<noteq> None" using entry by blast
    then obtain j where j: "fs_live s j" "fn_path (fs_node s j) = r"
      by (auto simp: fs_view_def dest: find_internal_Some)
    have "j \<noteq> 0" using j r(1) fs_table_root [OF t] by metis
    with fs_table_parent [OF t j(1)] have "fs_live s (fn_parent (fs_node s j))"
      "fn_path (fs_node s (fn_parent (fs_node s j))) = q" using j(2) r(2) by simp_all
    then have "fn_parent (fs_node s j) = i" using fs_table_unique [OF t] fi by metis
    with j show ?thesis by blast
  qed
qed

lemma remove_spec:
  assumes i: "fs_inv F s" and ready: "clks_fs_ready s" and mount: "\<not> in_mount dk (Some p) s"
    and q: "clks_fs_normalize_external_path (Some p) CLKS_FS_PATH_MAX = Some q"
    and w: "clks_fs_internal_writable_node_path q"
    and run: "clks_fs_remove dk (Some p) s = (ok, s')"
  shows "(ok \<longleftrightarrow> fs_view s q \<noteq> None \<and> (\<forall>r. r \<noteq> [] \<longrightarrow> path_parent r = q \<longrightarrow> fs_view s r = None)) \<and>
    fs_inv F s' \<and> (if ok then fs_view s' = (fs_view s)(q := None) \<and> fs_bytes s' = fs_bytes s else s' = s)"
proof (cases "clks_fs_find_node_by_internal q s")
  case None
  then have "\<not> ok \<and> s' = s" using run ready mount q w by (auto simp: clks_fs_remove_def)
  with None i show ?thesis by (simp add: fs_view_def)
next
  case (Some j)
  obtain L where t: "fs_table_ok s" and o: "fs_owns F L s" using i by (auto simp: fs_inv_def)
  have fj: "fs_live s j" "fn_path (fs_node s j) = q" using find_internal_Some [OF Some] by blast+
  note qn = writable_path [OF w]
  have j0: "j \<noteq> 0" using fj qn fs_table_root [OF t] by metis
  have kids: "list_ex (\<lambda>k. fn_used (fs_node s k) \<and> fn_parent (fs_node s k) = j) [0..<clks_fs_nodes_used s] \<longleftrightarrow>
      (\<exists>k. fs_live s k \<and> fn_parent (fs_node s k) = j)"
    by (auto simp: list_ex_iff fs_live_def)
  have ty: "fn_type (fs_node s j) = FS_NODE_FILE \<or> fn_type (fs_node s j) = FS_NODE_DIR"
    using fs_table_live(5) [OF t fj(1)] by (cases "fn_type (fs_node s j)") auto
  have nokids: "fn_parent (fs_node s k) \<noteq> j" if "fn_type (fs_node s j) \<noteq> FS_NODE_DIR" "fs_live s k" for k
    using that j0 fs_table_parent [OF t that(2)] fs_table_root [OF t] by metis
  have vn: "fs_view s q \<noteq> None" using Some by (simp add: fs_view_def)
  let ?k = "\<exists>k. fs_live s k \<and> fn_parent (fs_node s k) = j"
  let ?m = "(fs_node s j)\<lparr>fn_used := False, fn_type := FS_NODE_FILE, fn_parent := 0,
                      fn_reserved := 0, fn_data := Data_Null, fn_size := 0, fn_path := []\<rparr>"
  define sh where "sh = s\<lparr>fs_heap := heap_drop (node_heap (fs_node s j)) (fs_heap s)\<rparr>"
  have len: "j < length (clks_fs_nodes sh)" using fs_table_live(2) [OF t fj(1)] by (simp add: sh_def)
  have rel: "fs_set_node j (\<lambda>n. n\<lparr>fn_used := False, fn_type := FS_NODE_FILE, fn_parent := 0,
        fn_reserved := 0, fn_data := Data_Null, fn_size := 0, fn_path := []\<rparr>) (clks_fs_node_release_heap_data j s) =
      fs_set_node j (\<lambda>_. ?m) sh"
  proof (cases "fn_type (fs_node s j) = FS_NODE_FILE")
    case True
    show ?thesis
      unfolding release_eq [OF True] sh_def [symmetric]
      by (subst fs_set_node_twice [OF len], subst fs_set_node_const) (simp add: sh_def)
  next
    case False
    then have "clks_fs_node_release_heap_data j s = s" "sh = s"
      using ty by (auto simp: clks_fs_node_release_heap_data_def sh_def heap_drop_def)
    then show ?thesis by (metis fs_set_node_const)
  qed
  have res: "(ok, s') = (if ?k then (False, s) else (True, fs_set_node j (\<lambda>_. ?m) sh))"
  proof -
    have "(ok, s') = (if fn_type (fs_node s j) = FS_NODE_DIR \<and> ?k then (False, s)
        else (True, fs_set_node j (\<lambda>_. ?m) sh))"
      using run ready mount q w Some unfolding rel [symmetric] kids [symmetric] clks_fs_remove_def Let_def by simp
    with nokids show ?thesis by (cases ?k) auto
  qed
  have crit: "?k \<longleftrightarrow> (\<exists>r. r \<noteq> [] \<and> path_parent r = q \<and> fs_view s r \<noteq> None)"
    by (rule children_iff [OF t Some qn])
  show ?thesis
  proof (cases ?k)
    case True
    with res crit i show ?thesis by auto
  next
    case False
    have s': "s' = fs_set_node j (\<lambda>_. ?m) sh" and ok: "ok" using res False by auto
    have nth: "fs_node s' k = (if k = j then ?m else fs_node s k)" for k
      unfolding s' using fs_set_node_nth [OF len] by (simp add: sh_def)
    have tab: "fs_table_ok s'" "\<And>r. clks_fs_find_node_by_internal r s' =
        (if r = q then None else clks_fs_find_node_by_internal r s)"
      unfolding s' using fs_table_remove [of sh j ?m] t fj j0 False by (auto simp: sh_def)
    have live: "fs_live s' k \<longleftrightarrow> k \<noteq> j \<and> fs_live s k" for k
      using nth [of k] by (auto simp: fs_live_def s' sh_def)
    have "\<exists>L'. fs_owns F L' s'"
      by (rule remove_owns [OF o fj(1)]) (use nth live in \<open>simp_all add: s' sh_def\<close>)
    then have "fs_inv F s'" using tab(1) by (simp add: fs_inv_def)
    moreover have "fs_view s' r = ((fs_view s)(q := None)) r" for r
    proof (cases "r = q")
      case True
      then show ?thesis using tab(2) by (simp add: fs_view_def)
    next
      case ne: False
      have "fs_view s' r = fs_view s r"
      proof (rule view_same [OF o t])
        show "clks_fs_find_node_by_internal r s' = clks_fs_find_node_by_internal r s" using tab(2) ne by simp
        show "fs_node s' k = fs_node s k" if "clks_fs_find_node_by_internal r s = Some k" for k
          using find_internal_Some [OF that] fj ne nth by auto
      qed (simp_all add: s' sh_def)
      with ne show ?thesis by simp
    qed
    moreover have "fs_bytes s' = fs_bytes s" by (simp add: s' sh_def)
    ultimately show ?thesis using ok False crit vn by auto
  qed
qed

section \<open>Starting up\<close>

text \<open>A tree whose files all point into the ramdisk image.\<close>

definition fs_static :: "'d fs_state \<Rightarrow> bool" where
  "fs_static s \<longleftrightarrow> fs_table_ok s \<and>
     (\<forall>i. fs_live s i \<longrightarrow> node_heap (fs_node s i) = None \<and> node_data_ok Map.empty (fs_image s) (fs_node s i))"

lemma node_data_ok_static: "node_heap n = None \<Longrightarrow> node_data_ok L img n = node_data_ok L' img n"
  by (simp add: node_data_ok_def)

lemma static_inv: "fs_static s \<Longrightarrow> heap_live (fs_heap s) F \<Longrightarrow> fs_inv F s"
  unfolding fs_static_def fs_inv_def fs_owns_def fs_owned_def
  by (metis node_data_ok_static option.distinct(1))

lemma static_grows:
  assumes "fs_static s" "grows_dirs ps s s'"
  shows "fs_static s'"
proof -
  have "node_heap (fs_node s' i) = None \<and> node_data_ok Map.empty (fs_image s') (fs_node s' i)" if "fs_live s' i" for i
  proof (cases "fs_live s i")
    case True
    with assms show ?thesis by (simp add: fs_static_def grows_dirs_def fs_same_def)
  next
    case False
    with assms that have "fn_type (fs_node s' i) = FS_NODE_DIR" by (simp add: grows_dirs_def)
    then show ?thesis by simp
  qed
  with assms show ?thesis by (simp add: fs_static_def grows_dirs_def)
qed

lemma static_view:
  assumes "fs_static s" "fs_view s q = Some (File_Entry bs)"
  shows "\<exists>off. off + length bs \<le> length (fs_image s) \<and> bs = take (length bs) (drop off (fs_image s))"
proof -
  obtain i where i: "fs_live s i" "fn_type (fs_node s i) \<noteq> FS_NODE_DIR" "bs = fs_node_bytes s (fs_node s i)"
    using assms(2) by (auto simp: fs_view_def dest: find_internal_Some split: if_splits)
  have "fn_type (fs_node s i) = FS_NODE_FILE"
    using fs_table_live(5) [of s i] assms(1) i by (cases "fn_type (fs_node s i)") (auto simp: fs_static_def)
  then have "fn_data (fs_node s i) = Data_Empty \<and> fn_size (fs_node s i) = 0 \<or>
      (\<exists>off. fn_data (fs_node s i) = Data_Image off \<and> off + fn_size (fs_node s i) \<le> length (fs_image s))"
  proof -
    have "node_heap (fs_node s i) = None" "node_data_ok Map.empty (fs_image s) (fs_node s i)"
      using assms(1) i(1) by (simp_all add: fs_static_def)
    with \<open>fn_type (fs_node s i) = FS_NODE_FILE\<close> show ?thesis unfolding node_data_ok_def by simp
  qed
  then show ?thesis
  proof
    assume "\<exists>off. fn_data (fs_node s i) = Data_Image off \<and> off + fn_size (fs_node s i) \<le> length (fs_image s)"
    then obtain off where off: "fn_data (fs_node s i) = Data_Image off"
      "off + fn_size (fs_node s i) \<le> length (fs_image s)" by blast
    then show ?thesis by (intro exI [of _ off]) (simp add: i(3) fs_node_bytes_def)
  qed (intro exI [of _ 0], simp add: i(3) fs_node_bytes_def)
qed

lemma create_static:
  assumes s: "fs_static s" and p: "p \<noteq> []" "length p < CLKS_FS_PATH_MAX" "last p \<noteq> slash"
    and par: "clks_fs_find_node_by_internal (path_parent p) s = Some d" "fn_type (fs_node s d) = FS_NODE_DIR"
    and off: "off + n \<le> length (fs_image s)"
    and run: "clks_fs_create_or_update_node p FS_NODE_FILE d (Data_Image off) n s = (r, s')"
  shows "fs_static s' \<and> fs_same s s'"
proof (cases "clks_fs_find_node_by_internal p s")
  case None
  have t: "fs_table_ok s" using s by (simp add: fs_static_def)
  note sp = create_new_spec [OF t None p _ par run]
  show ?thesis
  proof (cases r)
    case None
    with sp s show ?thesis by simp
  next
    case (Some i)
    with sp have i: "fs_table_ok s'" "fs_same s s'" "\<And>j. fs_live s' j \<longleftrightarrow> j = i \<or> fs_live s j"
      "\<And>j. j \<noteq> i \<Longrightarrow> fs_node s' j = fs_node s j" "fn_reserved (fs_node s' i) = 0"
      "fn_data (fs_node s' i) = Data_Image off" "fn_size (fs_node s' i) = n" by simp_all
    have "node_heap (fs_node s' j) = None \<and> node_data_ok Map.empty (fs_image s') (fs_node s' j)" if "fs_live s' j" for j
      using that i s off by (cases "j = i") (simp_all add: fs_static_def fs_same_def node_heap_def node_data_ok_def)
    with i show ?thesis by (simp add: fs_static_def)
  qed
next
  case (Some i)
  have t: "fs_table_ok s" using s by (simp add: fs_static_def)
  have fi: "fs_live s i" "fn_path (fs_node s i) = p" using find_internal_Some [OF Some] by blast+
  show ?thesis
  proof (cases "fn_type (fs_node s i) = FS_NODE_FILE")
    case False
    with run Some p s show ?thesis by (simp add: clks_fs_create_or_update_node_def)
  next
    case True
    let ?m = "(fs_node s i)\<lparr>fn_parent := d, fn_data := Data_Image off, fn_size := n, fn_reserved := 0, fn_used := True\<rparr>"
    have s': "s' = fs_set_node i (\<lambda>_. ?m) s"
      using run Some p True fs_set_node_const [of i "\<lambda>m. m\<lparr>fn_parent := d, fn_data := Data_Image off,
        fn_size := n, fn_reserved := 0, fn_used := True\<rparr>" s] by (simp add: clks_fs_create_or_update_node_def)
    have i0: "i \<noteq> 0" using fi p fs_table_root [OF t] by metis
    have d: "fs_live s d" "fn_path (fs_node s d) = path_parent p" using find_internal_Some [OF par(1)] by blast+
    have "d \<noteq> i" using par(2) True by auto
    then have tab: "fs_table_ok s'"
      unfolding s' using fs_table_store(1) [OF t _ i0, of ?m] fi True fs_table_live(3,4) [OF t fi(1)] d par p
      by (simp add: fs_live_def)
    have len: "i < length (clks_fs_nodes s)" using fs_table_live(2) [OF t fi(1)] .
    have nth: "fs_node s' j = (if j = i then ?m else fs_node s j)" for j
      unfolding s' by (rule fs_set_node_nth [OF len])
    have live: "fs_live s' j \<longleftrightarrow> fs_live s j" for j using nth [of j] fi by (auto simp: fs_live_def s')
    have "node_heap (fs_node s' j) = None \<and> node_data_ok Map.empty (fs_image s') (fs_node s' j)" if "fs_live s' j" for j
      using that s off nth live
      by (cases "j = i") (simp_all add: fs_static_def node_heap_def node_data_ok_def s')
    with tab show ?thesis by (simp add: fs_static_def s' fs_same_def)
  qed
qed

lemma path_char: "char_of (unat (b :: u8)) = slash \<Longrightarrow> b = 47"
proof -
  assume "char_of (unat b) = slash"
  then have "of_char (char_of (unat b) :: char) = (of_char slash :: nat)" by simp
  then have "unat b mod 256 = 47" by simp
  moreover have "unat b < 256" using unsigned_less [of b, where ?'a = nat] by simp
  ultimately have "unat b = unat (47 :: u8)" by simp
  then show "b = 47" by (rule unsigned_word_eqI)
qed

lemma visit_static:
  assumes s: "fs_static (snd ctx)" and e: "ramdisk_entry_ok (length (fs_image (snd ctx))) entry"
  shows "fs_static (snd (snd (clks_fs_ramdisk_visit entry ctx))) \<and>
    fs_same (snd ctx) (snd (snd (clks_fs_ramdisk_visit entry ctx)))"
proof -
  obtain st s0 where ctx: "ctx = (st, s0)" by fastforce
  define path where "path = path_string (re_path entry)"
  have p: "path \<noteq> []" "length path < CLKS_FS_PATH_MAX" "last path \<noteq> slash"
    using e path_char [of "last (re_path entry)"]
    by (auto simp: path_def path_string_def ramdisk_entry_ok_def ramdisk_path_ok_def CLKS_FS_PATH_MAX_def last_map)
  have t: "fs_table_ok s0" using s ctx by (simp add: fs_static_def)
  have gr: "fs_static s1 \<and> fs_same s0 s1" if "clks_fs_ensure_dir_hierarchy q s0 = (ok, s1)" for q ok s1
    using ensure_hierarchy_spec [OF t that] static_grows [of s0 _ s1] s ctx by (auto simp: grows_dirs_def)
  show ?thesis
  proof (cases "re_type entry")
    case RAMDISK_ENTRY_DIR
    obtain ok s1 where "clks_fs_ensure_dir_hierarchy path s0 = (ok, s1)" by fastforce
    with RAMDISK_ENTRY_DIR gr [OF this] ctx show ?thesis
      by (simp add: clks_fs_ramdisk_visit_def path_def Let_def)
  next
    case RAMDISK_ENTRY_FILE
    obtain off where off: "re_data entry = Some off" "off + re_size entry \<le> length (fs_image s0)"
      using e RAMDISK_ENTRY_FILE ctx by (auto simp: ramdisk_entry_ok_def)
    obtain ok s1 where en: "clks_fs_ensure_dir_hierarchy (path_parent path) s0 = (ok, s1)" by fastforce
    have g: "fs_static s1" "fs_same s0 s1" using gr [OF en] by blast+
    note sp = split_parent_eq [OF p(2)]
    show ?thesis
    proof (cases "clks_fs_find_node_by_internal (path_parent path) s1")
      case None
      with g RAMDISK_ENTRY_FILE en sp ctx show ?thesis
        by (simp add: clks_fs_ramdisk_visit_def path_def [symmetric] Let_def)
    next
      case (Some d)
      obtain r s2 where cr: "clks_fs_create_or_update_node path FS_NODE_FILE d (Data_Image off) (re_size entry) s1 = (r, s2)"
        by fastforce
      have c: "fs_static s2 \<and> fs_same s1 s2" if "ok"
      proof -
        have fd: "fs_live s1 d" "fn_path (fs_node s1 d) = path_parent path"
          using find_internal_Some [OF Some] by blast+
        have "path_parent path = [] \<or> last (path_parent path) \<noteq> slash"
          using fs_table_last [of s1 d] fs_table_root [of s1] g(1) fd
          by (cases "d = 0") (auto simp: fs_static_def)
        then have "fn_type (fs_node s1 d) = FS_NODE_DIR"
          using ensure_hierarchy_spec [OF t en] that Some by auto
        then show ?thesis using create_static [OF g(1) p Some _ _ cr] off(2) g(2) by (simp add: fs_same_def)
      qed
      with g RAMDISK_ENTRY_FILE en sp ctx Some cr off(1) show ?thesis
        by (auto simp: clks_fs_ramdisk_visit_def path_def [symmetric] Let_def fs_same_def split: option.split)
    qed
  qed
qed

lemma root_cleared:
  "\<exists>n. clks_fs_ensure_root (fs_cleared s) =
     (True, s\<lparr>clks_fs_ready := False, clks_fs_nodes_used := 1,
        clks_fs_nodes := (replicate CLKS_FS_MAX_NODES zero_node)[0 := n]\<rparr>) \<and>
     n = \<lparr>fn_used = True, fn_type = FS_NODE_DIR, fn_parent = 0, fn_reserved = 0, fn_data = Data_Null,
          fn_size = 0, fn_path = []\<rparr>"
  by (simp add: clks_fs_ensure_root_def fs_cleared_def clks_fs_create_or_update_node_def CLKS_FS_PATH_MAX_def
    CLKS_RAMDISK_PATH_MAX_def clks_fs_find_node_by_internal_def clks_fs_alloc_slot_def CLKS_FS_MAX_NODES_def
    fs_set_node_def)

lemma root_static:
  assumes "clks_fs_ensure_root (fs_cleared s) = (ok, s1)"
  shows "ok \<and> fs_static s1 \<and> fs_static (s1\<lparr>fs_image := im\<rparr>) \<and> fs_heap s1 = fs_heap s \<and> \<not> clks_fs_ready s1 \<and> fs_disk s1 = fs_disk s"
proof -
  obtain n where n: "clks_fs_ensure_root (fs_cleared s) =
     (True, s\<lparr>clks_fs_ready := False, clks_fs_nodes_used := 1,
        clks_fs_nodes := (replicate CLKS_FS_MAX_NODES zero_node)[0 := n]\<rparr>)"
    "fn_used n" "fn_type n = FS_NODE_DIR" "fn_parent n = 0" "fn_path n = []"
    using root_cleared [of s] by auto
  have s1: "ok" "s1 = s\<lparr>clks_fs_ready := False, clks_fs_nodes_used := 1,
        clks_fs_nodes := (replicate CLKS_FS_MAX_NODES zero_node)[0 := n]\<rparr>" using assms n(1) by auto
  have m: "CLKS_FS_MAX_NODES > 0" "CLKS_FS_PATH_MAX > 0"
    by (simp_all add: CLKS_FS_MAX_NODES_def CLKS_FS_PATH_MAX_def CLKS_RAMDISK_PATH_MAX_def)
  have nth: "fs_node s1 0 = n" "\<And>i. 0 < i \<Longrightarrow> i < CLKS_FS_MAX_NODES \<Longrightarrow> fs_node s1 i = zero_node"
    using m by (simp_all add: s1)
  have live: "fs_live s1 i \<longleftrightarrow> i = 0" for i using nth(1) n(2) by (auto simp: fs_live_def s1)
  have len: "length (clks_fs_nodes s1) = CLKS_FS_MAX_NODES" "clks_fs_nodes_used s1 = 1" by (simp_all add: s1)
  have unused: "\<not> fn_used (fs_node s1 i)" if "i < CLKS_FS_MAX_NODES" "1 \<le> i" for i
    using nth(2) [of i] that by (simp add: zero_node_def)
  have "fs_table_ok s1"
    unfolding fs_table_ok_def len using m live nth(1) n unused by simp
  moreover have "fs_table_ok (s1\<lparr>fs_image := im\<rparr>) = fs_table_ok s1" "fs_live (s1\<lparr>fs_image := im\<rparr>) i = fs_live s1 i" for i
    by (simp_all add: fs_table_ok_def fs_live_def)
  ultimately have "fs_static s1" "fs_static (s1\<lparr>fs_image := im\<rparr>)" using live nth(1) n by (simp_all add: fs_static_def)
  then show ?thesis by (simp add: s1)
qed

text \<open>A disk driver that keeps the kernel heap in order.\<close>

definition disk_keeps_heap :: "'d disk_ops \<Rightarrow> bool" where
  "disk_keeps_heap dk \<longleftrightarrow> (\<forall>h b d F. heap_live h F \<longrightarrow>
     (\<exists>F'. heap_live (fst (snd (dk_init dk (h, b, d)))) F') \<and>
     (\<forall>p. \<exists>F'. heap_live (fst (snd (dk_mount dk p (h, b, d)))) F'))"

lemma disk_call_static:
  "fs_static s \<Longrightarrow> fs_static (snd (disk_call f s))"
  by (simp add: disk_call_def fs_static_def fs_table_ok_def fs_live_def split: prod.split)

lemma disk_call_heap:
  "fs_heap (snd (disk_call f s)) = fst (snd (f (fs_heap s, fs_bytes s, fs_disk s)))"
  "clks_fs_ready (snd (disk_call f s)) = clks_fs_ready s"
  by (simp_all add: disk_call_def split: prod.split)

lemma require_directory_ready [simp]:
  "clks_fs_require_directory dk p (s\<lparr>clks_fs_ready := b\<rparr>) = clks_fs_require_directory dk p s"
  by (simp add: clks_fs_require_directory_def in_mount_def clks_fs_find_node_by_external_def
    clks_fs_find_node_by_internal_def cong: option.case_cong)

lemma init_spec:
  assumes heap: "heap_live (fs_heap s) F" and dk: "disk_keeps_heap dk"
    and img: "\<And>img. module = Some img \<Longrightarrow> length img < 2 ^ 63"
  shows "\<exists>s'. clks_fs_init dk cnt module s = Some s' \<and> fs_static s' \<and> (\<exists>F'. heap_live (fs_heap s') F') \<and>
    (clks_fs_ready s' \<longrightarrow> list_all (\<lambda>p. clks_fs_require_directory dk p s') fs_required_directories)"
proof -
  obtain ok s1 where r: "clks_fs_ensure_root (fs_cleared s) = (ok, s1)" by fastforce
  note r1 = root_static [OF r]
  define finish where "finish ramdisk_online s3 =
     (let s4 = snd (disk_call (dk_init dk) s3);
          s5 = (if dk_present dk (fs_disk s4) \<and> \<not> ramdisk_online \<and> dk_formatted dk (fs_disk s4)
                then snd (disk_call (dk_mount dk ''/'') s4) else s4)
      in if list_all (\<lambda>p. clks_fs_require_directory dk p s5) fs_required_directories
         then s5\<lparr>clks_fs_ready := True\<rparr> else s5)" for ramdisk_online and s3 :: "'a fs_state"
  have fin: "fs_static (finish b s3) \<and> (\<exists>F'. heap_live (fs_heap (finish b s3)) F') \<and>
      (clks_fs_ready (finish b s3) \<longrightarrow>
        list_all (\<lambda>p. clks_fs_require_directory dk p (finish b s3)) fs_required_directories)"
    if s3: "fs_static s3" "heap_live (fs_heap s3) G" "\<not> clks_fs_ready s3" for b s3 G
  proof -
    define s4 where "s4 = snd (disk_call (dk_init dk) s3)"
    define s5 where "s5 = (if dk_present dk (fs_disk s4) \<and> \<not> b \<and> dk_formatted dk (fs_disk s4)
                then snd (disk_call (dk_mount dk ''/'') s4) else s4)"
    have h4: "\<exists>G. heap_live (fs_heap s4) G" using dk s3(2) unfolding s4_def disk_call_heap disk_keeps_heap_def by blast
    then have h5: "\<exists>G. heap_live (fs_heap s5) G"
      using dk unfolding s5_def disk_keeps_heap_def by (auto simp: disk_call_heap)
    have st: "fs_static s5" using s3(1) by (simp add: s5_def s4_def disk_call_static)
    have nr: "\<not> clks_fs_ready s5" using s3(3) by (simp add: s5_def s4_def disk_call_heap)
    have f: "finish b s3 = (if list_all (\<lambda>p. clks_fs_require_directory dk p s5) fs_required_directories
         then s5\<lparr>clks_fs_ready := True\<rparr> else s5)"
      unfolding finish_def Let_def s4_def [symmetric] s5_def [symmetric] by (rule refl)
    have "fs_static (s5\<lparr>clks_fs_ready := True\<rparr>)" using st by (simp add: fs_static_def fs_table_ok_def fs_live_def)
    then show ?thesis using f st h5 nr by (simp split: if_splits)
  qed
  have run: "clks_fs_init dk cnt module s =
      (if cnt \<noteq> 0 then
         (case module of None \<Rightarrow> Some s1
          | Some img \<Rightarrow> if img = [] then Some s1
              else Option.bind (clks_ramdisk_iterate (Some img) (Some clks_fs_ramdisk_visit)
                       (\<lparr>bs_file_count = 0, bs_dir_count = 0\<rparr>, s1\<lparr>fs_image := img\<rparr>))
                     (\<lambda>(ok, _, s2). if \<not> ok then Some s2 else Some (finish True s2)))
       else Some (finish False s1))"
    using r r1 unfolding clks_fs_init_def finish_def by simp
  have h1: "heap_live (fs_heap s1) F" using r1 heap by simp
  show ?thesis
  proof (cases "cnt \<noteq> 0 \<and> module \<noteq> None \<and> module \<noteq> Some []")
    case False
    then have "clks_fs_init dk cnt module s = Some s1 \<or> clks_fs_init dk cnt module s = Some (finish False s1)"
      using run by (cases module) auto
    then show ?thesis using fin [of s1 F False] r1 h1 by auto
  next
    case True
    then obtain im where im: "cnt \<noteq> 0" "module = Some im" "im \<noteq> []" by auto
    define P where "P ctx \<longleftrightarrow> fs_static (snd ctx) \<and> fs_heap (snd ctx) = fs_heap s1 \<and>
      fs_image (snd ctx) = im \<and> \<not> clks_fs_ready (snd ctx)" for ctx :: "clks_fs_build_stats \<times> 'a fs_state"
    have P0: "P (\<lparr>bs_file_count = 0, bs_dir_count = 0\<rparr>, s1\<lparr>fs_image := im\<rparr>)"
      using root_static [OF r, of im] by (simp add: P_def)
    have Pstep: "P (snd (clks_fs_ramdisk_visit e c))" if "P c" "ramdisk_entry_ok (length im) e" for e c
      using visit_static [of c e] that by (auto simp: P_def fs_same_def)
    obtain ok2 ctx where it: "clks_ramdisk_iterate (Some im) (Some clks_fs_ramdisk_visit)
        (\<lparr>bs_file_count = 0, bs_dir_count = 0\<rparr>, s1\<lparr>fs_image := im\<rparr>) = Some (ok2, ctx)" "P ctx"
      using ramdisk_loop_keeps [where offset = 0 and P = P and f = clks_fs_ramdisk_visit, OF img [OF im(2)] _ P0 Pstep]
      by (auto simp: clks_ramdisk_iterate_def)
    obtain st2 s2 where ctx: "ctx = (st2, s2)" by fastforce
    have run2: "clks_fs_init dk cnt module s = (if \<not> ok2 then Some s2 else Some (finish True s2))"
      using run im it(1) ctx by simp
    have s2: "fs_static s2" "heap_live (fs_heap s2) F" "\<not> clks_fs_ready s2"
      using it(2) ctx h1 by (auto simp: P_def)
    with run2 fin [OF s2, of True] show ?thesis by (cases ok2) auto
  qed
qed

section \<open>Properties\<close>

text \<open>For the witnesses: a machine without a disk, and a tree that holds only the root.\<close>

definition no_disk :: "unit disk_ops" where
  "no_disk = \<lparr>dk_path_in_mount = (\<lambda>_ _. False), dk_stat = (\<lambda>_ _. None), dk_read_all = (\<lambda>_ w. (None, w)),
     dk_count_children = (\<lambda>_ _. 0), dk_get_child_name = (\<lambda>_ _ _ _. None), dk_mkdir = (\<lambda>_ w. (False, w)),
     dk_write_all = (\<lambda>_ _ _ w. (False, w)), dk_append = (\<lambda>_ _ _ w. (False, w)),
     dk_remove = (\<lambda>_ w. (False, w)), dk_init = (\<lambda>w. ((), w)), dk_present = (\<lambda>_. False),
     dk_formatted = (\<lambda>_. False), dk_mount = (\<lambda>_ w. (False, w)), dk_is_mounted = (\<lambda>_. False),
     dk_node_count = (\<lambda>_. 0)\<rparr>"

definition blank_fs :: "unit fs_state" where
  "blank_fs = \<lparr>fs_heap = clks_heap_init, fs_bytes = (\<lambda>_. 0), fs_image = [], fs_disk = (),
     clks_fs_nodes = replicate CLKS_FS_MAX_NODES zero_node, clks_fs_nodes_used = 0, clks_fs_ready = False\<rparr>"

definition root_fs :: "unit fs_state" where
  "root_fs = (snd (clks_fs_ensure_root (fs_cleared blank_fs)))\<lparr>clks_fs_ready := True\<rparr>"

lemma heap_live_init: "heap_live clks_heap_init Map.empty"
  unfolding heap_live_def using heap_rep_init by (intro exI conjI) (assumption, simp)

lemma no_disk_ok [simp]: "disk_keeps_heap no_disk" "in_mount no_disk p s = False"
  by (auto simp: disk_keeps_heap_def no_disk_def in_mount_def split: option.split)

lemma root_fs_inv: "fs_inv Map.empty root_fs" "clks_fs_ready root_fs"
proof -
  obtain ok s1 where r: "clks_fs_ensure_root (fs_cleared blank_fs) = (ok, s1)" by fastforce
  have r1: "fs_static s1" "fs_heap s1 = clks_heap_init"
    using root_static [OF r] by (simp_all add: blank_fs_def)
  have "fs_static root_fs" using r1(1) by (simp add: root_fs_def r fs_static_def fs_table_ok_def fs_live_def)
  then show "fs_inv Map.empty root_fs"
    by (rule static_inv) (simp add: root_fs_def r r1(2) heap_live_init)
  show "clks_fs_ready root_fs" by (simp add: root_fs_def)
qed

lemma root_fs_view: "fs_view root_fs q = (if q = [] then Some Dir_Entry else None)"
proof -
  obtain n where n: "clks_fs_ensure_root (fs_cleared blank_fs) =
     (True, blank_fs\<lparr>clks_fs_ready := False, clks_fs_nodes_used := 1,
        clks_fs_nodes := (replicate CLKS_FS_MAX_NODES zero_node)[0 := n]\<rparr>)"
    "fn_used n" "fn_type n = FS_NODE_DIR" "fn_path n = []"
    using root_cleared [of blank_fs] by auto
  have "fs_node root_fs 0 = n" "clks_fs_nodes_used root_fs = 1"
    using n(1) by (simp_all add: root_fs_def CLKS_FS_MAX_NODES_def)
  with n show ?thesis by (simp add: fs_view_def clks_fs_find_node_by_internal_def)
qed

text \<open>
  C12. Writing a file outside the disk mount. The call returns; the node table stays a tree with
  unique paths, every heap block of a file stays owned by exactly one file and the blocks of the rest
  of the kernel (\<open>F\<close>) stay allocated with their bytes: nothing is leaked or freed twice, on success
  and on every failure. On success the file holds the first \<open>n\<close> bytes of the buffer and
  \<open>clks_fs_read_all\<close> returns them; on failure its entry is as before. No other entry changes, except
  that directories above it may appear.
\<close>

theorem write_all_stores_file:
  assumes "fs_inv F s" "clks_fs_ready s" "\<not> in_mount dk (Some p) s"
    and "clks_fs_normalize_external_path (Some p) CLKS_FS_PATH_MAX = Some q"
    and "clks_fs_internal_writable_node_path q" "n + 15 < USIZE_RANGE" "n \<le> length d"
  shows "\<exists>ok s'. clks_fs_write_all dk (Some p) (Some d) n s = Some (ok, s') \<and> fs_step F q s s' \<and>
    (if ok then fs_view s' q = Some (File_Entry (take n d)) \<and>
       fst (clks_fs_read_all dk (Some p) s') = Some (take n d)
     else fs_view s' q = fs_view s q)"
proof -
  obtain ok s' where w: "clks_fs_write_all dk (Some p) (Some d) n s = Some (ok, s')" "fs_step F q s s'"
    "fs_view s' q = (if ok then Some (File_Entry (take n d)) else fs_view s q)"
    using write_all_spec [OF assms(1-6), of "Some d"] assms(7) by auto
  have "fs_inv F s'" "clks_fs_ready s'" "\<not> in_mount dk (Some p) s'"
    using w(2) assms(2,3) in_mount_cong [of s' s] by (auto simp: fs_step_def)
  from read_all_view [OF this assms(4)] w show ?thesis by auto
qed

theorem write_all_stores_file_witness:
  "\<exists>ok s'. clks_fs_write_all no_disk (Some ''/temp/a'') (Some [1, 2, 3]) 2 root_fs = Some (ok, s') \<and>
    fs_step Map.empty ''temp/a'' root_fs s' \<and>
    (if ok then fs_view s' ''temp/a'' = Some (File_Entry (take 2 [1, 2, 3])) \<and>
       fst (clks_fs_read_all no_disk (Some ''/temp/a'') s') = Some (take 2 [1, 2, 3])
     else fs_view s' ''temp/a'' = fs_view root_fs ''temp/a'')"
  by (rule write_all_stores_file [OF root_fs_inv])
    (simp_all add: clks_fs_normalize_external_path_def CLKS_FS_PATH_MAX_def CLKS_RAMDISK_PATH_MAX_def
      normalize_external_spec path_resolve_def path_components_def clks_fs_internal_writable_node_path_def
      clks_fs_internal_path_is_proc_tree_def clks_fs_internal_path_is_dynamic_dev_file_def USIZE_RANGE_def)



text \<open>
  Making a directory: on success the path is a directory; whatever the result, every entry that
  existed is unchanged (an existing file is never replaced), entries that appear are directories on
  the path, and neither the heap nor any byte of memory changes.
\<close>

theorem mkdir_makes_directories:
  assumes "fs_inv F s" "clks_fs_ready s" "\<not> in_mount dk (Some p) s"
    and "clks_fs_normalize_external_path (Some p) CLKS_FS_PATH_MAX = Some q"
    and "clks_fs_internal_writable_node_path q"
    and "clks_fs_mkdir dk (Some p) s = (ok, s')"
  shows "fs_step F q s s' \<and> fs_bytes s' = fs_bytes s \<and> fs_heap s' = fs_heap s \<and>
    (fs_view s' q = fs_view s q \<or> fs_view s q = None \<and> fs_view s' q = Some Dir_Entry) \<and>
    (ok \<longrightarrow> fs_view s' q = Some Dir_Entry)"
  by (rule mkdir_spec [OF assms])

theorem mkdir_makes_directories_witness:
  "\<exists>ok s'. clks_fs_mkdir no_disk (Some ''/temp'') root_fs = (ok, s') \<and> fs_step Map.empty ''temp'' root_fs s' \<and>
    (ok \<longrightarrow> fs_view s' ''temp'' = Some Dir_Entry)"
proof -
  obtain ok s' where r: "clks_fs_mkdir no_disk (Some ''/temp'') root_fs = (ok, s')" by fastforce
  have "fs_step Map.empty ''temp'' root_fs s' \<and> fs_bytes s' = fs_bytes root_fs \<and> fs_heap s' = fs_heap root_fs \<and>
    (fs_view s' ''temp'' = fs_view root_fs ''temp'' \<or>
      fs_view root_fs ''temp'' = None \<and> fs_view s' ''temp'' = Some Dir_Entry) \<and>
    (ok \<longrightarrow> fs_view s' ''temp'' = Some Dir_Entry)"
    by (rule mkdir_makes_directories [OF root_fs_inv _ _ _ r])
      (simp_all add: clks_fs_normalize_external_path_def CLKS_FS_PATH_MAX_def CLKS_RAMDISK_PATH_MAX_def
        normalize_external_spec path_resolve_def path_components_def clks_fs_internal_writable_node_path_def
        clks_fs_internal_path_is_proc_tree_def clks_fs_internal_path_is_dynamic_dev_file_def)
  with r show ?thesis by blast
qed



text \<open>
  C15. Start up from any boot module: whatever bytes the ramdisk holds (short of \<open>2\<^sup>6\<^sup>3\<close>) the call
  returns with a well-formed tree that satisfies the invariant of the operations above, every file of
  it a slice inside the ramdisk image; and the file system is marked ready only when every required
  directory exists.
\<close>

theorem init_builds_tree:
  assumes "heap_live (fs_heap s) F" "disk_keeps_heap dk" "module = None \<or> length (the module) < 2 ^ 63"
  shows "\<exists>s' F'. clks_fs_init dk cnt module s = Some s' \<and> fs_inv F' s' \<and>
    (\<forall>q bs. fs_view s' q = Some (File_Entry bs) \<longrightarrow>
       (\<exists>off. off + length bs \<le> length (fs_image s') \<and> bs = take (length bs) (drop off (fs_image s')))) \<and>
    (clks_fs_ready s' \<longrightarrow> list_all (\<lambda>p. clks_fs_require_directory dk p s') fs_required_directories)"
proof -
  have "\<And>img. module = Some img \<Longrightarrow> length img < 2 ^ 63" using assms(3) by auto
  from init_spec [OF assms(1,2) this, where cnt = cnt] obtain s' F' where "clks_fs_init dk cnt module s = Some s'"
    "fs_static s'" "heap_live (fs_heap s') F'"
    "clks_fs_ready s' \<longrightarrow> list_all (\<lambda>p. clks_fs_require_directory dk p s') fs_required_directories" by blast
  with static_inv static_view show ?thesis by blast
qed

theorem init_builds_tree_witness:
  "\<exists>s' F'. clks_fs_init no_disk 1 (Some (replicate 600 7)) blank_fs = Some s' \<and> fs_inv F' s' \<and>
    (clks_fs_ready s' \<longrightarrow> list_all (\<lambda>p. clks_fs_require_directory no_disk p s') fs_required_directories)"
proof -
  have "heap_live (fs_heap blank_fs) Map.empty" by (simp add: blank_fs_def heap_live_init)
  from init_builds_tree [OF this no_disk_ok(1), where module = "Some (replicate 600 7)" and cnt = 1] show ?thesis by auto
qed
end
