(* ===== verification/Clks_Bytes.thy ===== *)
theory Clks_Bytes
  imports Clks_Prelude
begin

text \<open>
  Bytes and the integers they encode, for the components that read or write structures in memory:
  little- and big-endian values, a list of bytes written at an address, and 64-bit loads and stores
  on a byte memory.
\<close>

section \<open>Values of bytes\<close>

text \<open>The value of at most eight bytes, the first the least significant.\<close>

definition le_value :: "u8 list \<Rightarrow> u64" where
  "le_value bs = foldr (\<lambda>b w. ucast b OR push_bit 8 w) bs 0"

definition le_bytes :: "nat \<Rightarrow> u64 \<Rightarrow> u8 list" where
  "le_bytes n w = map (\<lambda>i. ucast (drop_bit (8 * i) w)) [0..<n]"

text \<open>Fields of a structure at an offset of a byte list.\<close>

definition le16_at :: "u8 list \<Rightarrow> nat \<Rightarrow> u16" where
  "le16_at bs off = ucast (le_value (take 2 (drop off bs)))"

definition le32_at :: "u8 list \<Rightarrow> nat \<Rightarrow> u32" where
  "le32_at bs off = ucast (le_value (take 4 (drop off bs)))"

definition le64_at :: "u8 list \<Rightarrow> nat \<Rightarrow> u64" where
  "le64_at bs off = le_value (take 8 (drop off bs))"

lemma le_bytes_length [simp]: "length (le_bytes n w) = n"
  by (simp add: le_bytes_def)

lemma le_bytes_Suc: "le_bytes (Suc n) w = ucast w # le_bytes n (drop_bit 8 w)"
proof -
  have u: "[0..<Suc n] = 0 # map Suc [0..<n]" by (simp add: upt_conv_Cons map_Suc_upt del: upt_Suc)
  show ?thesis unfolding le_bytes_def u by (simp add: o_def drop_bit_drop_bit add.commute)
qed

lemma le_value_Cons: "le_value (b # bs) = ucast b OR push_bit 8 (le_value bs)"
  by (simp add: le_value_def)

lemma le_value_bytes: "le_value (le_bytes n w) = take_bit (8 * n) w"
proof (induction n arbitrary: w)
  case 0
  show ?case by (simp add: le_value_def le_bytes_def)
next
  case (Suc n)
  have "take_bit (8 * Suc n) w = ucast (ucast w :: u8) OR push_bit 8 (take_bit (8 * n) (drop_bit 8 w))"
    by (rule bit_word_eqI) (auto simp: bit_simps)
  then show ?case by (simp add: le_bytes_Suc le_value_Cons Suc.IH)
qed

lemma le_value_bytes_8 [simp]: "le_value (le_bytes 8 w) = w"
  by (simp add: le_value_bytes take_bit_word_eq_self)

section \<open>Byte memory\<close>

text \<open>\<open>clks_memcpy\<close> from a list of bytes to an address.\<close>

definition put_bytes :: "nat \<Rightarrow> u8 list \<Rightarrow> (nat \<Rightarrow> u8) \<Rightarrow> nat \<Rightarrow> u8" where
  "put_bytes p bs m a = (if p \<le> a \<and> a < p + length bs then bs ! (a - p) else m a)"

definition get_bytes :: "(nat \<Rightarrow> u8) \<Rightarrow> nat \<Rightarrow> nat \<Rightarrow> u8 list" where
  "get_bytes m p n = map m [p..<p + n]"

definition load64 :: "(nat \<Rightarrow> u8) \<Rightarrow> nat \<Rightarrow> u64" where
  "load64 m a = le_value (get_bytes m a 8)"

definition store64 :: "nat \<Rightarrow> u64 \<Rightarrow> (nat \<Rightarrow> u8) \<Rightarrow> nat \<Rightarrow> u8" where
  "store64 a v = put_bytes a (le_bytes 8 v)"

lemma get_bytes_length [simp]: "length (get_bytes m p n) = n"
  by (simp add: get_bytes_def)

lemma get_put_bytes [simp]: "length bs = n \<Longrightarrow> get_bytes (put_bytes p bs m) p n = bs"
  by (rule nth_equalityI) (simp_all add: get_bytes_def put_bytes_def)

lemma get_put_other: "p + length bs \<le> q \<or> q + n \<le> p \<Longrightarrow> get_bytes (put_bytes p bs m) q n = get_bytes m q n"
  by (auto simp: get_bytes_def put_bytes_def)

lemma load_store64 [simp]: "load64 (store64 a v m) a = v"
  by (simp add: load64_def store64_def)

lemma load_store64_other: "a + 8 \<le> b \<or> b + 8 \<le> a \<Longrightarrow> load64 (store64 a v m) b = load64 m b"
  by (simp add: load64_def store64_def get_put_other)

lemma store64_other: "x < a \<or> a + 8 \<le> x \<Longrightarrow> store64 a v m x = m x"
  by (auto simp: store64_def put_bytes_def)

lemma load64_cong: "(\<And>i. i < 8 \<Longrightarrow> m' (a + i) = m (a + i)) \<Longrightarrow> load64 m' a = load64 m a"
proof -
  assume e: "\<And>i. i < 8 \<Longrightarrow> m' (a + i) = m (a + i)"
  have "get_bytes m' a 8 = get_bytes m a 8"
    by (rule nth_equalityI) (simp_all add: get_bytes_def e)
  then show ?thesis by (simp add: load64_def)
qed
end
