(* ===== verification/Clks_Fat.thy ===== *)
theory Clks_Fat
  imports Clks_Bytes
begin

text \<open>
  The storage under the disk file system: the sector cache of \<open>kernel/storage/disk/cache_io.inc\<close>, the FAT32
  layout and the table of \<open>fat_layout.inc\<close>, the cluster allocator of \<open>fat_alloc.inc\<close> and the cluster chains
  of \<open>file_chain.inc\<close>. The drive (\<open>ata.inc\<close>, port input and output) is a record of functions on a state of
  its own. Sector and cluster numbers are natural numbers: a volume has fewer than \<open>2 ^ 32\<close> sectors and
  fewer than \<open>2 ^ 28\<close> clusters, so that no offset of a byte reaches \<open>2 ^ 64\<close>. All functions run with
  arguments that the callers in the kernel give them, that is without null pointers.
\<close>

section \<open>State\<close>

definition CLKS_DISK_SECTOR_SIZE :: nat where "CLKS_DISK_SECTOR_SIZE = 512"
definition CLKS_DISK_ATA_BATCH_SECTORS :: nat where "CLKS_DISK_ATA_BATCH_SECTORS = 128"
definition CLKS_DISK_FAT32_PARTITION_LBA :: nat where "CLKS_DISK_FAT32_PARTITION_LBA = 2048"
definition CLKS_DISK_FAT32_MIN_CLUSTER_COUNT :: nat where "CLKS_DISK_FAT32_MIN_CLUSTER_COUNT = 65525"
definition CLKS_DISK_FAT32_EOC_MIN :: nat where "CLKS_DISK_FAT32_EOC_MIN = 0x0FFFFFF8"
definition CLKS_DISK_FAT32_EOC :: nat where "CLKS_DISK_FAT32_EOC = 0x0FFFFFFF"
definition CLKS_DISK_FAT32_FREE_CLUSTER :: nat where "CLKS_DISK_FAT32_FREE_CLUSTER = 0"
definition CLKS_DISK_INVALID_CLUSTER :: nat where "CLKS_DISK_INVALID_CLUSTER = 0"
definition CLKS_DISK_DIRENT_SIZE :: nat where "CLKS_DISK_DIRENT_SIZE = 32"
definition CLKS_DISK_FAT32_BOOT_SIG_OFFSET :: nat where "CLKS_DISK_FAT32_BOOT_SIG_OFFSET = 510"
definition CLKS_DISK_FAT32_TYPE_OFFSET :: nat where "CLKS_DISK_FAT32_TYPE_OFFSET = 82"
definition CLKS_DISK_FAT32_TYPE_LEN :: nat where "CLKS_DISK_FAT32_TYPE_LEN = 5"

lemmas disk_consts = CLKS_DISK_SECTOR_SIZE_def CLKS_DISK_ATA_BATCH_SECTORS_def CLKS_DISK_FAT32_EOC_MIN_def
  CLKS_DISK_FAT32_EOC_def CLKS_DISK_FAT32_FREE_CLUSTER_def CLKS_DISK_INVALID_CLUSTER_def CLKS_DISK_DIRENT_SIZE_def

text \<open>
  The drive: a read gives its status and the bytes it has put into the buffer, from the start; the sector
  number and the count come first.
\<close>

record 'h ata_ops =
  ata_read :: "nat \<Rightarrow> nat \<Rightarrow> 'h \<Rightarrow> bool \<times> u8 list \<times> 'h"
  ata_write :: "nat \<Rightarrow> nat \<Rightarrow> u8 list \<Rightarrow> 'h \<Rightarrow> bool \<times> 'h"
  ata_flush :: "'h \<Rightarrow> bool \<times> 'h"

record clks_disk_fat32_layout =
  fl_valid :: bool
  fl_bytes_per_sector :: nat
  fl_sectors_per_cluster :: nat
  fl_reserved_sectors :: nat
  fl_fat_count :: nat
  fl_sectors_per_fat :: nat
  fl_total_sectors :: nat
  fl_root_cluster :: nat
  fl_cluster_count :: nat
  fl_cluster_size_bytes :: nat
  fl_entries_per_cluster :: nat
  fl_volume_lba :: nat
  fl_fat_lba :: nat
  fl_data_lba :: nat

text \<open>
  The statics of \<open>disk.c\<close> that these files use, with the state of the drive. The cache is no null pointer
  exactly when its length is not zero, and so for the bitmap of the sectors that have been loaded.
\<close>

record 'h disk_state =
  clks_disk_bytes :: "nat \<Rightarrow> u8"
  clks_disk_bytes_len :: nat
  clks_disk_sector_total :: nat
  clks_disk_loaded_bitmap :: "nat \<Rightarrow> u8"
  clks_disk_loaded_bitmap_bytes :: nat
  clks_disk_ready :: bool
  clks_disk_hw_backed :: bool
  clks_disk_fat32 :: clks_disk_fat32_layout
  clks_disk_alloc_hint :: nat
  disk_hw :: 'h

section \<open>Integers in bytes\<close>

definition clks_disk_read_u16 :: "(nat \<Rightarrow> u8) \<Rightarrow> nat \<Rightarrow> u16" where
  "clks_disk_read_u16 m p = ucast (m p) OR push_bit 8 (ucast (m (p + 1)))"

definition clks_disk_read_u32 :: "(nat \<Rightarrow> u8) \<Rightarrow> nat \<Rightarrow> u32" where
  "clks_disk_read_u32 m p = ucast (m p) OR push_bit 8 (ucast (m (p + 1))) OR push_bit 16 (ucast (m (p + 2))) OR
     push_bit 24 (ucast (m (p + 3)))"

definition clks_disk_write_u32 :: "nat \<Rightarrow> u32 \<Rightarrow> (nat \<Rightarrow> u8) \<Rightarrow> nat \<Rightarrow> u8" where
  "clks_disk_write_u32 p v m = m(p := ucast (v AND 0xFF), p + 1 := ucast (drop_bit 8 v AND 0xFF),
     p + 2 := ucast (drop_bit 16 v AND 0xFF), p + 3 := ucast (drop_bit 24 v AND 0xFF))"

section \<open>The sector cache\<close>

definition clks_disk_bytes_range_valid :: "nat \<Rightarrow> nat \<Rightarrow> 'h disk_state \<Rightarrow> bool" where
  "clks_disk_bytes_range_valid off n s \<longleftrightarrow>
     clks_disk_bytes_len s \<noteq> 0 \<and> off \<le> clks_disk_bytes_len s \<and> n \<le> clks_disk_bytes_len s - off"

definition clks_disk_loaded_test :: "nat \<Rightarrow> 'h disk_state \<Rightarrow> bool" where
  "clks_disk_loaded_test lba s \<longleftrightarrow> clks_disk_loaded_bitmap_bytes s \<noteq> 0 \<and> lba div 8 < clks_disk_loaded_bitmap_bytes s \<and>
     clks_disk_loaded_bitmap s (lba div 8) AND push_bit (lba mod 8) 1 \<noteq> 0"

fun mark_loop :: "nat \<Rightarrow> nat \<Rightarrow> 'h disk_state \<Rightarrow> 'h disk_state" where
  "mark_loop 0 lba s = s"
| "mark_loop (Suc n) lba s =
     (if lba div 8 \<ge> clks_disk_loaded_bitmap_bytes s then s
      else mark_loop n (lba + 1) (s\<lparr>clks_disk_loaded_bitmap := (clks_disk_loaded_bitmap s)
             (lba div 8 := clks_disk_loaded_bitmap s (lba div 8) OR push_bit (lba mod 8) 1)\<rparr>))"

definition clks_disk_loaded_mark_range :: "nat \<Rightarrow> nat \<Rightarrow> 'h disk_state \<Rightarrow> 'h disk_state" where
  "clks_disk_loaded_mark_range start_lba sector_count s =
     (if clks_disk_loaded_bitmap_bytes s = 0 \<or> sector_count = 0 then s else mark_loop sector_count start_lba s)"

text \<open>The end of the next batch: at most 128 sectors that are not loaded.\<close>

primrec batch_end :: "nat \<Rightarrow> nat \<Rightarrow> nat \<Rightarrow> 'h disk_state \<Rightarrow> nat" where
  "batch_end 0 end_lba lba s = lba"
| "batch_end (Suc n) end_lba lba s =
     (if lba < end_lba \<and> \<not> clks_disk_loaded_test lba s then batch_end n end_lba (lba + 1) s else lba)"

lemma batch_end_ge: "lba \<le> batch_end n end_lba lba s"
proof (induction n arbitrary: lba)
  case (Suc n)
  show ?case using Suc [of "lba + 1"] by simp
qed simp

lemma batch_end_greater:
  assumes "lba < end_lba" "\<not> clks_disk_loaded_test lba s"
  shows "lba < batch_end CLKS_DISK_ATA_BATCH_SECTORS end_lba lba s"
proof -
  have b: "CLKS_DISK_ATA_BATCH_SECTORS = Suc 127" by (simp add: CLKS_DISK_ATA_BATCH_SECTORS_def)
  show ?thesis unfolding b batch_end.simps(2) using assms batch_end_ge [of "lba + 1" 127 end_lba s] by simp
qed

function load_loop :: "'h ata_ops \<Rightarrow> nat \<Rightarrow> nat \<Rightarrow> 'h disk_state \<Rightarrow> bool \<times> 'h disk_state" where
  "load_loop ops end_lba lba s =
     (if lba \<ge> end_lba then (True, s)
      else if clks_disk_loaded_test lba s then load_loop ops end_lba (lba + 1) s
      else
        let nxt = batch_end CLKS_DISK_ATA_BATCH_SECTORS end_lba lba s in
        case ata_read ops lba (nxt - lba) (disk_hw s) of (ok, data, h) \<Rightarrow>
          let s1 = s\<lparr>clks_disk_bytes := put_bytes (lba * CLKS_DISK_SECTOR_SIZE) data (clks_disk_bytes s), disk_hw := h\<rparr> in
          if \<not> ok then (False, s1) else load_loop ops end_lba nxt (clks_disk_loaded_mark_range lba (nxt - lba) s1))"
  by pat_completeness auto

termination
  by (relation "measure (\<lambda>(ops, end_lba, lba, s). end_lba - lba)") (auto simp: not_le intro!: diff_less_mono2 batch_end_greater)

declare load_loop.simps [simp del]

definition clks_disk_ensure_loaded_range :: "'h ata_ops \<Rightarrow> nat \<Rightarrow> nat \<Rightarrow> 'h disk_state \<Rightarrow> bool \<times> 'h disk_state" where
  "clks_disk_ensure_loaded_range ops off n s =
     (if n = 0 then (True, s)
      else if \<not> clks_disk_bytes_range_valid off n s then (False, s)
      else if \<not> clks_disk_hw_backed s then (True, s)
      else if clks_disk_loaded_bitmap_bytes s = 0 then (False, s)
      else load_loop ops ((off + n + (CLKS_DISK_SECTOR_SIZE - 1)) div CLKS_DISK_SECTOR_SIZE) (off div CLKS_DISK_SECTOR_SIZE) s)"

function sync_loop :: "'h ata_ops \<Rightarrow> nat \<Rightarrow> nat \<Rightarrow> 'h disk_state \<Rightarrow> bool \<times> 'h disk_state" where
  "sync_loop ops remaining lba s =
     (if remaining = 0 then (True, s)
      else
        let batch = (if remaining > CLKS_DISK_ATA_BATCH_SECTORS then CLKS_DISK_ATA_BATCH_SECTORS else remaining) in
        case ata_write ops lba batch (get_bytes (clks_disk_bytes s) (lba * CLKS_DISK_SECTOR_SIZE) (batch * CLKS_DISK_SECTOR_SIZE))
               (disk_hw s) of (ok, h) \<Rightarrow>
          let s1 = s\<lparr>disk_hw := h\<rparr> in
          if \<not> ok then (False, s1)
          else sync_loop ops (remaining - batch) (lba + batch) (clks_disk_loaded_mark_range lba batch s1))"
  by pat_completeness auto

termination
  by (relation "measure (\<lambda>(ops, remaining, lba, s). remaining)") (auto simp: CLKS_DISK_ATA_BATCH_SECTORS_def)

declare sync_loop.simps [simp del]

definition clks_disk_sync_sector_range_no_flush :: "'h ata_ops \<Rightarrow> nat \<Rightarrow> nat \<Rightarrow> 'h disk_state \<Rightarrow> bool \<times> 'h disk_state" where
  "clks_disk_sync_sector_range_no_flush ops start_lba sector_count s =
     (if sector_count = 0 then (True, s)
      else if \<not> clks_disk_hw_backed s then (True, s)
      else if start_lba \<ge> clks_disk_sector_total s then (False, s)
      else if sector_count > clks_disk_sector_total s - start_lba then (False, s)
      else sync_loop ops sector_count start_lba s)"

definition flush_drive :: "'h ata_ops \<Rightarrow> 'h disk_state \<Rightarrow> bool \<times> 'h disk_state" where
  "flush_drive ops s = (case ata_flush ops (disk_hw s) of (ok, h) \<Rightarrow> (ok, s\<lparr>disk_hw := h\<rparr>))"

definition clks_disk_sync_sector_range :: "'h ata_ops \<Rightarrow> nat \<Rightarrow> nat \<Rightarrow> 'h disk_state \<Rightarrow> bool \<times> 'h disk_state" where
  "clks_disk_sync_sector_range ops start_lba sector_count s =
     (if sector_count = 0 then (True, s)
      else if \<not> clks_disk_hw_backed s then (True, s)
      else if start_lba \<ge> clks_disk_sector_total s then (False, s)
      else if sector_count > clks_disk_sector_total s - start_lba then (False, s)
      else case sync_loop ops sector_count start_lba s of (ok, s1) \<Rightarrow> if \<not> ok then (False, s1) else flush_drive ops s1)"

definition clks_disk_flush_hw :: "'h ata_ops \<Rightarrow> 'h disk_state \<Rightarrow> bool \<times> 'h disk_state" where
  "clks_disk_flush_hw ops s = (if \<not> clks_disk_hw_backed s then (True, s) else flush_drive ops s)"

section \<open>Layout and table\<close>

definition clks_disk_bytes_equal :: "(nat \<Rightarrow> u8) \<Rightarrow> nat \<Rightarrow> u8 list \<Rightarrow> bool" where
  "clks_disk_bytes_equal m p bs \<longleftrightarrow> get_bytes m p (length bs) = bs"

definition fat32_sig :: "u8 list" where
  "fat32_sig = map of_char ''FAT32''"

text \<open>The fields of a boot sector at \<open>boot\<close>, checked; the result is the layout or a refusal.\<close>

definition parse_boot :: "(nat \<Rightarrow> u8) \<Rightarrow> nat \<Rightarrow> nat \<Rightarrow> nat \<Rightarrow> clks_disk_fat32_layout option" where
  "parse_boot m boot volume_lba sector_total =
     (let bytes_per_sector = unat (clks_disk_read_u16 m (boot + 11)); sectors_per_cluster = m (boot + 13);
          reserved_sectors = unat (clks_disk_read_u16 m (boot + 14)); fat_count = unat (m (boot + 16));
          sectors_per_fat = unat (clks_disk_read_u32 m (boot + 36)); root_cluster = unat (clks_disk_read_u32 m (boot + 44));
          total_16 = unat (clks_disk_read_u16 m (boot + 19)); total_32 = unat (clks_disk_read_u32 m (boot + 32));
          total_sectors = (if total_16 \<noteq> 0 then total_16 else total_32);
          meta = reserved_sectors + fat_count * sectors_per_fat;
          cluster_count = (total_sectors - meta) div unat sectors_per_cluster
      in if m (boot + CLKS_DISK_FAT32_BOOT_SIG_OFFSET) \<noteq> 0x55 \<or> m (boot + CLKS_DISK_FAT32_BOOT_SIG_OFFSET + 1) \<noteq> 0xAA then None
         else if bytes_per_sector \<noteq> CLKS_DISK_SECTOR_SIZE then None
         else if sectors_per_cluster = 0 \<or> sectors_per_cluster AND (sectors_per_cluster - 1) \<noteq> 0 then None
         else if reserved_sectors = 0 \<or> fat_count < 1 \<or> sectors_per_fat = 0 \<or> total_sectors = 0 then None
         else if root_cluster < 2 then None
         else if \<not> clks_disk_bytes_equal m (boot + CLKS_DISK_FAT32_TYPE_OFFSET) fat32_sig then None
         else if total_sectors > sector_total - volume_lba then None
         else if total_sectors \<le> meta then None
         else if cluster_count < CLKS_DISK_FAT32_MIN_CLUSTER_COUNT \<or> cluster_count > 0x0FFFFFF5 then None
         else if root_cluster \<ge> cluster_count + 2 then None
         else Some \<lparr>fl_valid = True, fl_bytes_per_sector = bytes_per_sector, fl_sectors_per_cluster = unat sectors_per_cluster,
                fl_reserved_sectors = reserved_sectors, fl_fat_count = fat_count, fl_sectors_per_fat = sectors_per_fat,
                fl_total_sectors = total_sectors, fl_root_cluster = root_cluster, fl_cluster_count = cluster_count,
                fl_cluster_size_bytes = unat sectors_per_cluster * CLKS_DISK_SECTOR_SIZE,
                fl_entries_per_cluster = unat sectors_per_cluster * CLKS_DISK_SECTOR_SIZE div CLKS_DISK_DIRENT_SIZE,
                fl_volume_lba = volume_lba, fl_fat_lba = volume_lba + reserved_sectors,
                fl_data_lba = volume_lba + meta\<rparr>)"

definition no_layout :: clks_disk_fat32_layout where
  "no_layout = \<lparr>fl_valid = False, fl_bytes_per_sector = 0, fl_sectors_per_cluster = 0, fl_reserved_sectors = 0, fl_fat_count = 0,
     fl_sectors_per_fat = 0, fl_total_sectors = 0, fl_root_cluster = 0, fl_cluster_count = 0, fl_cluster_size_bytes = 0,
     fl_entries_per_cluster = 0, fl_volume_lba = 0, fl_fat_lba = 0, fl_data_lba = 0\<rparr>"

definition take_layout :: "nat \<Rightarrow> nat \<Rightarrow> 'h disk_state \<Rightarrow> bool \<times> 'h disk_state" where
  "take_layout boot volume_lba s =
     (case parse_boot (clks_disk_bytes s) boot volume_lba (clks_disk_sector_total s) of
        None \<Rightarrow> (False, s) | Some l \<Rightarrow> (True, s\<lparr>clks_disk_fat32 := l\<rparr>))"

definition clks_disk_parse_fat32_layout :: "'h ata_ops \<Rightarrow> 'h disk_state \<Rightarrow> bool \<times> 'h disk_state" where
  "clks_disk_parse_fat32_layout ops s0 =
     (let s = s0\<lparr>clks_disk_fat32 := no_layout, clks_disk_alloc_hint := 2\<rparr>;
          shifted = CLKS_DISK_FAT32_PARTITION_LBA * CLKS_DISK_SECTOR_SIZE in
      if \<not> clks_disk_ready s \<or> clks_disk_bytes_len s < CLKS_DISK_SECTOR_SIZE then (False, s)
      else case clks_disk_ensure_loaded_range ops 0 CLKS_DISK_SECTOR_SIZE s of (ok, s1) \<Rightarrow>
        if \<not> ok then (False, s1)
        else if clks_disk_bytes s1 CLKS_DISK_FAT32_BOOT_SIG_OFFSET \<noteq> 0x55 \<or>
                clks_disk_bytes s1 (CLKS_DISK_FAT32_BOOT_SIG_OFFSET + 1) \<noteq> 0xAA \<or>
                \<not> clks_disk_bytes_equal (clks_disk_bytes s1) CLKS_DISK_FAT32_TYPE_OFFSET fat32_sig
        then if shifted > clks_disk_bytes_len s1 \<or> CLKS_DISK_SECTOR_SIZE > clks_disk_bytes_len s1 - shifted then (False, s1)
             else case clks_disk_ensure_loaded_range ops shifted CLKS_DISK_SECTOR_SIZE s1 of (ok, s2) \<Rightarrow>
               if \<not> ok then (False, s2) else take_layout shifted CLKS_DISK_FAT32_PARTITION_LBA s2
        else take_layout 0 0 s1)"

definition clks_disk_cluster_valid :: "nat \<Rightarrow> 'h disk_state \<Rightarrow> bool" where
  "clks_disk_cluster_valid cluster s \<longleftrightarrow>
     fl_valid (clks_disk_fat32 s) \<and> 2 \<le> cluster \<and> cluster < fl_cluster_count (clks_disk_fat32 s) + 2"

definition clks_disk_cluster_lba :: "nat \<Rightarrow> 'h disk_state \<Rightarrow> nat option" where
  "clks_disk_cluster_lba cluster s =
     (let lba = fl_data_lba (clks_disk_fat32 s) + (cluster - 2) * fl_sectors_per_cluster (clks_disk_fat32 s) in
      if \<not> clks_disk_cluster_valid cluster s then None
      else if lba \<ge> clks_disk_sector_total s then None
      else if fl_sectors_per_cluster (clks_disk_fat32 s) > clks_disk_sector_total s - lba then None
      else Some lba)"

definition clks_disk_fat_is_eoc :: "nat \<Rightarrow> bool" where
  "clks_disk_fat_is_eoc v \<longleftrightarrow> v mod 2 ^ 28 \<ge> CLKS_DISK_FAT32_EOC_MIN"

text \<open>The sector of an entry in the first table and its offset there; \<open>None\<close> for a refusal.\<close>

definition fat_place :: "nat \<Rightarrow> 'h disk_state \<Rightarrow> (nat \<times> nat) option" where
  "fat_place cluster s =
     (let fat_byte_offset = cluster * 4; i = fat_byte_offset div CLKS_DISK_SECTOR_SIZE in
      if \<not> fl_valid (clks_disk_fat32 s) then None
      else if cluster \<ge> fl_cluster_count (clks_disk_fat32 s) + 2 then None
      else if i \<ge> fl_sectors_per_fat (clks_disk_fat32 s) then None
      else Some (i, fat_byte_offset mod CLKS_DISK_SECTOR_SIZE))"

definition clks_disk_fat_read_entry :: "'h ata_ops \<Rightarrow> nat \<Rightarrow> 'h disk_state \<Rightarrow> nat option \<times> 'h disk_state" where
  "clks_disk_fat_read_entry ops cluster s =
     (case fat_place cluster s of
        None \<Rightarrow> (None, s)
      | Some (i, off) \<Rightarrow>
          let disk_offset = (fl_fat_lba (clks_disk_fat32 s) + i) * CLKS_DISK_SECTOR_SIZE + off in
          if \<not> clks_disk_bytes_range_valid disk_offset 4 s then (None, s)
          else case clks_disk_ensure_loaded_range ops disk_offset 4 s of (ok, s1) \<Rightarrow>
            if \<not> ok then (None, s1)
            else (Some (unat (clks_disk_read_u32 (clks_disk_bytes s1) disk_offset AND 0x0FFFFFFF)), s1))"

text \<open>The loop over the copies of the table; \<open>n\<close> copies are left.\<close>

fun fat_write_loop :: "'h ata_ops \<Rightarrow> nat \<Rightarrow> nat \<Rightarrow> nat \<Rightarrow> nat \<Rightarrow> nat \<Rightarrow> 'h disk_state \<Rightarrow> bool \<times> 'h disk_state" where
  "fat_write_loop ops value i off 0 fat_index s = (True, s)"
| "fat_write_loop ops value i off (Suc n) fat_index s =
     (let fat_lba = fl_fat_lba (clks_disk_fat32 s) + fat_index * fl_sectors_per_fat (clks_disk_fat32 s) + i;
          disk_offset = fat_lba * CLKS_DISK_SECTOR_SIZE + off in
      if \<not> clks_disk_bytes_range_valid disk_offset 4 s then (False, s)
      else case clks_disk_ensure_loaded_range ops disk_offset 4 s of (ok, s1) \<Rightarrow>
        if \<not> ok then (False, s1)
        else
          let old_value = clks_disk_read_u32 (clks_disk_bytes s1) disk_offset;
              new_value = (old_value AND 0xF0000000) OR (of_nat value AND 0x0FFFFFFF) in
          case clks_disk_sync_sector_range ops fat_lba 1
                 (s1\<lparr>clks_disk_bytes := clks_disk_write_u32 disk_offset new_value (clks_disk_bytes s1)\<rparr>) of (ok, s2) \<Rightarrow>
            if \<not> ok then (False, s2) else fat_write_loop ops value i off n (fat_index + 1) s2)"

definition clks_disk_fat_write_entry :: "'h ata_ops \<Rightarrow> nat \<Rightarrow> nat \<Rightarrow> 'h disk_state \<Rightarrow> bool \<times> 'h disk_state" where
  "clks_disk_fat_write_entry ops cluster value s =
     (case fat_place cluster s of
        None \<Rightarrow> (False, s)
      | Some (i, off) \<Rightarrow> fat_write_loop ops value i off (fl_fat_count (clks_disk_fat32 s)) 0 s)"

text \<open>The successor and whether the entry ends its chain.\<close>

definition clks_disk_fat_next_cluster :: "'h ata_ops \<Rightarrow> nat \<Rightarrow> 'h disk_state \<Rightarrow> (nat \<times> bool) option \<times> 'h disk_state" where
  "clks_disk_fat_next_cluster ops cluster s =
     (case clks_disk_fat_read_entry ops cluster s of
        (None, s1) \<Rightarrow> (None, s1)
      | (Some value, s1) \<Rightarrow> (Some (value mod 2 ^ 28, clks_disk_fat_is_eoc value), s1))"

section \<open>Allocation\<close>

definition clks_disk_zero_cluster :: "'h ata_ops \<Rightarrow> nat \<Rightarrow> 'h disk_state \<Rightarrow> bool \<times> 'h disk_state" where
  "clks_disk_zero_cluster ops cluster s =
     (case clks_disk_cluster_lba cluster s of
        None \<Rightarrow> (False, s)
      | Some lba \<Rightarrow>
          let off = lba * CLKS_DISK_SECTOR_SIZE; n = fl_sectors_per_cluster (clks_disk_fat32 s) * CLKS_DISK_SECTOR_SIZE in
          if \<not> clks_disk_bytes_range_valid off n s then (False, s)
          else clks_disk_sync_sector_range ops lba (fl_sectors_per_cluster (clks_disk_fat32 s))
            (s\<lparr>clks_disk_bytes := put_bytes off (replicate n 0) (clks_disk_bytes s)\<rparr>))"

text \<open>
  The search over \<open>n\<close> clusters from \<open>cluster\<close>: an error of a read is \<open>None\<close>, nothing found is \<open>Some None\<close>.
\<close>

fun free_search :: "'h ata_ops \<Rightarrow> nat \<Rightarrow> nat \<Rightarrow> 'h disk_state \<Rightarrow> nat option option \<times> 'h disk_state" where
  "free_search ops 0 cluster s = (Some None, s)"
| "free_search ops (Suc n) cluster s =
     (case clks_disk_fat_read_entry ops cluster s of
        (None, s1) \<Rightarrow> (None, s1)
      | (Some fat_value, s1) \<Rightarrow>
          if fat_value = CLKS_DISK_FAT32_FREE_CLUSTER
          then (Some (Some cluster), s1\<lparr>clks_disk_alloc_hint :=
                  (if cluster + 1 \<ge> fl_cluster_count (clks_disk_fat32 s1) + 2 then 2 else cluster + 1)\<rparr>)
          else free_search ops n (cluster + 1) s1)"

definition clks_disk_find_free_cluster :: "'h ata_ops \<Rightarrow> 'h disk_state \<Rightarrow> nat option \<times> 'h disk_state" where
  "clks_disk_find_free_cluster ops s =
     (let limit = fl_cluster_count (clks_disk_fat32 s) + 2;
          start = (if clks_disk_alloc_hint s < 2 \<or> clks_disk_alloc_hint s \<ge> limit then 2 else clks_disk_alloc_hint s) in
      if \<not> fl_valid (clks_disk_fat32 s) then (None, s)
      else case free_search ops (limit - start) start s of
        (None, s1) \<Rightarrow> (None, s1)
      | (Some (Some c), s1) \<Rightarrow> (Some c, s1)
      | (Some None, s1) \<Rightarrow>
          (case free_search ops (start - 2) 2 s1 of
             (None, s2) \<Rightarrow> (None, s2)
           | (Some r, s2) \<Rightarrow> (r, s2)))"

text \<open>The loop of \<open>clks_disk_free_chain\<close>, with the rounds that the guard leaves.\<close>

fun free_loop :: "'h ata_ops \<Rightarrow> nat \<Rightarrow> nat \<Rightarrow> 'h disk_state \<Rightarrow> 'h disk_state" where
  "free_loop ops 0 current s = s"
| "free_loop ops (Suc n) current s =
     (if \<not> clks_disk_cluster_valid current s then s
      else case clks_disk_fat_next_cluster ops current s of
        (None, s1) \<Rightarrow> s1
      | (Some (next_cluster, is_eoc), s1) \<Rightarrow>
          let s2 = snd (clks_disk_fat_write_entry ops current CLKS_DISK_FAT32_FREE_CLUSTER s1) in
          if is_eoc \<or> \<not> clks_disk_cluster_valid next_cluster s2 then s2 else free_loop ops n next_cluster s2)"

definition clks_disk_free_chain :: "'h ata_ops \<Rightarrow> nat \<Rightarrow> 'h disk_state \<Rightarrow> 'h disk_state" where
  "clks_disk_free_chain ops first_cluster s =
     (if \<not> clks_disk_cluster_valid first_cluster s then s
      else free_loop ops (fl_cluster_count (clks_disk_fat32 s)) first_cluster s)"

definition clks_disk_alloc_cluster_no_zero :: "'h ata_ops \<Rightarrow> 'h disk_state \<Rightarrow> nat option \<times> 'h disk_state" where
  "clks_disk_alloc_cluster_no_zero ops s =
     (case clks_disk_find_free_cluster ops s of
        (None, s1) \<Rightarrow> (None, s1)
      | (Some cluster, s1) \<Rightarrow>
          (case clks_disk_fat_write_entry ops cluster CLKS_DISK_FAT32_EOC s1 of (ok, s2) \<Rightarrow>
             if \<not> ok then (None, s2) else (Some cluster, s2)))"

definition clks_disk_alloc_cluster :: "'h ata_ops \<Rightarrow> 'h disk_state \<Rightarrow> nat option \<times> 'h disk_state" where
  "clks_disk_alloc_cluster ops s =
     (case clks_disk_find_free_cluster ops s of
        (None, s1) \<Rightarrow> (None, s1)
      | (Some cluster, s1) \<Rightarrow>
          (case clks_disk_fat_write_entry ops cluster CLKS_DISK_FAT32_EOC s1 of (ok, s2) \<Rightarrow>
             if \<not> ok then (None, s2)
             else case clks_disk_zero_cluster ops cluster s2 of (ok, s3) \<Rightarrow>
               if \<not> ok then (None, snd (clks_disk_fat_write_entry ops cluster CLKS_DISK_FAT32_FREE_CLUSTER s3))
               else (Some cluster, s3)))"

text \<open>\<open>n\<close> clusters are still to be allocated; 0 is no cluster.\<close>

fun alloc_loop :: "'h ata_ops \<Rightarrow> nat \<Rightarrow> nat \<Rightarrow> nat \<Rightarrow> 'h disk_state \<Rightarrow> nat option \<times> 'h disk_state" where
  "alloc_loop ops 0 first prev s = (Some first, s)"
| "alloc_loop ops (Suc n) first prev s =
     (case clks_disk_alloc_cluster_no_zero ops s of
        (None, s1) \<Rightarrow> (None, if first \<noteq> CLKS_DISK_INVALID_CLUSTER then clks_disk_free_chain ops first s1 else s1)
      | (Some current, s1) \<Rightarrow>
          (case if prev \<noteq> CLKS_DISK_INVALID_CLUSTER then clks_disk_fat_write_entry ops prev current s1 else (True, s1) of (ok, s2) \<Rightarrow>
             if \<not> ok then (None, clks_disk_free_chain ops first s2)
             else alloc_loop ops n (if first = CLKS_DISK_INVALID_CLUSTER then current else first) current s2))"

definition clks_disk_alloc_chain :: "'h ata_ops \<Rightarrow> nat \<Rightarrow> 'h disk_state \<Rightarrow> nat option \<times> 'h disk_state" where
  "clks_disk_alloc_chain ops needed_clusters s =
     (if needed_clusters = 0 then (Some CLKS_DISK_INVALID_CLUSTER, s)
      else alloc_loop ops needed_clusters CLKS_DISK_INVALID_CLUSTER CLKS_DISK_INVALID_CLUSTER s)"

definition clks_disk_cluster_first_byte_offset :: "nat \<Rightarrow> 'h disk_state \<Rightarrow> nat option" where
  "clks_disk_cluster_first_byte_offset cluster s = map_option (\<lambda>lba. lba * CLKS_DISK_SECTOR_SIZE) (clks_disk_cluster_lba cluster s)"

section \<open>Chains of clusters\<close>

text \<open>The loops with the rounds that their guard leaves; what has been copied so far is a list.\<close>

fun read_chain_loop :: "'h ata_ops \<Rightarrow> nat \<Rightarrow> nat \<Rightarrow> nat \<Rightarrow> u8 list \<Rightarrow> 'h disk_state \<Rightarrow> u8 list option \<times> 'h disk_state" where
  "read_chain_loop ops len 0 cluster out s = (if length out = len then Some out else None, s)"
| "read_chain_loop ops len (Suc n) cluster out s =
     (if \<not> (length out < len \<and> clks_disk_cluster_valid cluster s) then (if length out = len then Some out else None, s)
      else case clks_disk_cluster_first_byte_offset cluster s of
        None \<Rightarrow> (None, s)
      | Some cluster_offset \<Rightarrow>
          let to_copy = min (len - length out) (fl_cluster_size_bytes (clks_disk_fat32 s)) in
          if \<not> clks_disk_bytes_range_valid cluster_offset to_copy s then (None, s)
          else case clks_disk_ensure_loaded_range ops cluster_offset to_copy s of (ok, s1) \<Rightarrow>
            if \<not> ok then (None, s1)
            else
              let out1 = out @ get_bytes (clks_disk_bytes s1) cluster_offset to_copy in
              if length out1 \<ge> len then (Some out1, s1)
              else case clks_disk_fat_next_cluster ops cluster s1 of
                (None, s2) \<Rightarrow> (None, s2)
              | (Some (next_cluster, is_eoc), s2) \<Rightarrow>
                  if is_eoc \<or> \<not> clks_disk_cluster_valid next_cluster s2 then (None, s2)
                  else read_chain_loop ops len n next_cluster out1 s2)"

text \<open>The bytes read, or \<open>None\<close> for a failure.\<close>

definition clks_disk_read_file_chain :: "'h ata_ops \<Rightarrow> nat \<Rightarrow> nat \<Rightarrow> 'h disk_state \<Rightarrow> u8 list option \<times> 'h disk_state" where
  "clks_disk_read_file_chain ops first_cluster len s =
     (if len = 0 then (Some [], s)
      else if \<not> clks_disk_cluster_valid first_cluster s then (None, s)
      else read_chain_loop ops len (fl_cluster_count (clks_disk_fat32 s)) first_cluster [] s)"

text \<open>The bytes that are still to be written come as the argument \<open>data\<close>.\<close>

fun write_chain_loop :: "'h ata_ops \<Rightarrow> nat \<Rightarrow> nat \<Rightarrow> u8 list \<Rightarrow> 'h disk_state \<Rightarrow> bool \<times> 'h disk_state" where
  "write_chain_loop ops 0 cluster data s = (if data \<noteq> [] then (False, s) else clks_disk_flush_hw ops s)"
| "write_chain_loop ops (Suc n) cluster data s =
     (if \<not> (data \<noteq> [] \<and> clks_disk_cluster_valid cluster s) then (if data \<noteq> [] then (False, s) else clks_disk_flush_hw ops s)
      else case clks_disk_cluster_lba cluster s of
        None \<Rightarrow> (False, s)
      | Some cluster_lba \<Rightarrow>
          let cluster_offset = cluster_lba * CLKS_DISK_SECTOR_SIZE; size_bytes = fl_cluster_size_bytes (clks_disk_fat32 s);
              to_copy = min (length data) size_bytes in
          if \<not> clks_disk_bytes_range_valid cluster_offset size_bytes s then (False, s)
          else case clks_disk_sync_sector_range_no_flush ops cluster_lba (fl_sectors_per_cluster (clks_disk_fat32 s))
                      (s\<lparr>clks_disk_bytes := put_bytes cluster_offset (take to_copy data)
                          (put_bytes cluster_offset (replicate size_bytes 0) (clks_disk_bytes s))\<rparr>) of (ok, s1) \<Rightarrow>
            if \<not> ok then (False, s1)
            else if drop to_copy data = [] then (True, s1)
            else case clks_disk_fat_next_cluster ops cluster s1 of
              (None, s2) \<Rightarrow> (False, s2)
            | (Some (next_cluster, is_eoc), s2) \<Rightarrow>
                if is_eoc \<or> \<not> clks_disk_cluster_valid next_cluster s2 then (False, s2)
                else write_chain_loop ops n next_cluster (drop to_copy data) s2)"

definition clks_disk_write_file_chain :: "'h ata_ops \<Rightarrow> nat \<Rightarrow> u8 list \<Rightarrow> 'h disk_state \<Rightarrow> bool \<times> 'h disk_state" where
  "clks_disk_write_file_chain ops first_cluster data s =
     (if data = [] then (True, s)
      else if \<not> clks_disk_cluster_valid first_cluster s then (False, s)
      else write_chain_loop ops (fl_cluster_count (clks_disk_fat32 s)) first_cluster data s)"

fun last_cluster_loop :: "'h ata_ops \<Rightarrow> nat \<Rightarrow> nat \<Rightarrow> 'h disk_state \<Rightarrow> nat option \<times> 'h disk_state" where
  "last_cluster_loop ops 0 cluster s = (None, s)"
| "last_cluster_loop ops (Suc n) cluster s =
     (if \<not> clks_disk_cluster_valid cluster s then (None, s)
      else case clks_disk_fat_next_cluster ops cluster s of
        (None, s1) \<Rightarrow> (None, s1)
      | (Some (next_cluster, is_eoc), s1) \<Rightarrow>
          if is_eoc then (Some cluster, s1)
          else if \<not> clks_disk_cluster_valid next_cluster s1 then (None, s1)
          else last_cluster_loop ops n next_cluster s1)"

definition clks_disk_chain_last_cluster :: "'h ata_ops \<Rightarrow> nat \<Rightarrow> 'h disk_state \<Rightarrow> nat option \<times> 'h disk_state" where
  "clks_disk_chain_last_cluster ops first_cluster s =
     (if \<not> clks_disk_cluster_valid first_cluster s then (None, s)
      else last_cluster_loop ops (fl_cluster_count (clks_disk_fat32 s)) first_cluster s)"

text \<open>
  The loop of an append that adds clusters; \<open>data\<close> is what is left. A cluster len of zero has been
  refused before it.
\<close>

function append_loop :: "'h ata_ops \<Rightarrow> nat \<Rightarrow> u8 list \<Rightarrow> nat \<Rightarrow> 'h disk_state \<Rightarrow> bool \<times> 'h disk_state" where
  "append_loop ops cluster_size data last_cluster s =
     (if data = [] \<or> cluster_size = 0 then clks_disk_flush_hw ops s
      else
        let to_copy = min (length data) cluster_size in
        case clks_disk_alloc_cluster_no_zero ops s of
          (None, s1) \<Rightarrow> (False, s1)
        | (Some new_cluster, s1) \<Rightarrow>
            (case clks_disk_fat_write_entry ops last_cluster new_cluster s1 of (ok, s2) \<Rightarrow>
               if \<not> ok then (False, clks_disk_free_chain ops new_cluster s2)
               else case clks_disk_cluster_lba new_cluster s2 of
                 None \<Rightarrow> (False, s2)
               | Some cluster_lba \<Rightarrow>
                   let off = cluster_lba * CLKS_DISK_SECTOR_SIZE in
                   if \<not> clks_disk_bytes_range_valid off cluster_size s2 then (False, s2)
                   else
                     let b = (if to_copy < cluster_size then put_bytes off (replicate cluster_size 0) (clks_disk_bytes s2)
                              else clks_disk_bytes s2) in
                     case clks_disk_sync_sector_range_no_flush ops cluster_lba (fl_sectors_per_cluster (clks_disk_fat32 s2))
                            (s2\<lparr>clks_disk_bytes := put_bytes off (take to_copy data) b\<rparr>) of (ok, s3) \<Rightarrow>
                       if \<not> ok then (False, s3) else append_loop ops cluster_size (drop to_copy data) new_cluster s3))"
  by pat_completeness auto

termination
  by (relation "measure (\<lambda>(ops, cluster_size, data, last_cluster, s). length data)") auto

declare append_loop.simps [simp del]

text \<open>The rest of the last cluster, when the old size does not fill it: the copy and what is left.\<close>

definition append_tail :: "'h ata_ops \<Rightarrow> nat \<Rightarrow> nat \<Rightarrow> nat \<Rightarrow> u8 list \<Rightarrow> 'h disk_state \<Rightarrow> bool \<times> 'h disk_state" where
  "append_tail ops last_cluster within to_copy data s =
     (case clks_disk_cluster_lba last_cluster s of
        None \<Rightarrow> (False, s)
      | Some cluster_lba \<Rightarrow>
          let cluster_offset = cluster_lba * CLKS_DISK_SECTOR_SIZE + within in
          if \<not> clks_disk_bytes_range_valid cluster_offset to_copy s then (False, s)
          else clks_disk_sync_sector_range_no_flush ops (cluster_lba + within div CLKS_DISK_SECTOR_SIZE)
            ((within + to_copy + (CLKS_DISK_SECTOR_SIZE - 1)) div CLKS_DISK_SECTOR_SIZE - within div CLKS_DISK_SECTOR_SIZE)
            (s\<lparr>clks_disk_bytes := put_bytes cluster_offset (take to_copy data) (clks_disk_bytes s)\<rparr>))"

text \<open>The result is the first cluster of the file afterwards.\<close>

definition clks_disk_append_file_chain ::
  "'h ata_ops \<Rightarrow> nat \<Rightarrow> nat \<Rightarrow> u8 list \<Rightarrow> 'h disk_state \<Rightarrow> nat option \<times> 'h disk_state" where
  "clks_disk_append_file_chain ops first_cluster old_size data s =
     (let cluster_size = fl_cluster_size_bytes (clks_disk_fat32 s); len = length data in
      if len = 0 then (Some first_cluster, s)
      else if cluster_size = 0 then (None, s)
      else if \<not> clks_disk_cluster_valid first_cluster s then
        (let need = (len + cluster_size - 1) div cluster_size in
         if need = 0 \<or> need > fl_cluster_count (clks_disk_fat32 s) then (None, s)
         else case clks_disk_alloc_chain ops need s of
           (None, s1) \<Rightarrow> (None, s1)
         | (Some first, s1) \<Rightarrow>
             (case clks_disk_write_file_chain ops first data s1 of (ok, s2) \<Rightarrow> (if ok then Some first else None, s2)))
      else case clks_disk_chain_last_cluster ops first_cluster s of
        (None, s1) \<Rightarrow> (None, s1)
      | (Some last_cluster, s1) \<Rightarrow>
          let within = old_size mod cluster_size;
              to_copy = (if within = 0 then 0 else min len (cluster_size - within)) in
          case if within = 0 then (True, s1) else append_tail ops last_cluster within to_copy data s1 of (ok, s2) \<Rightarrow>
            if \<not> ok then (None, s2)
            else case append_loop ops cluster_size (drop to_copy data) last_cluster s2 of (ok, s3) \<Rightarrow>
              (if ok then Some first_cluster else None, s3))"

end
