(* ===== verification/Clks_Fat_Table.thy ===== *)
theory Clks_Fat_Table
  imports Clks_Fat
begin

text \<open>
  What the sector cache and the table of clusters do, in terms of the bytes that are on the disk as the
  kernel sees it: the cache where a sector has been loaded, the drive elsewhere. The drive may fail at any
  call; it does not lie.
\<close>

section \<open>The drive and the disk\<close>

text \<open>
  \<open>dc h\<close> is the contents of the drive in the state \<open>h\<close>. A call that fails may have stored less than it was
  asked to, or have damaged the sectors it was to write.
\<close>

definition drive_ok :: "'h ata_ops \<Rightarrow> ('h \<Rightarrow> nat \<Rightarrow> u8) \<Rightarrow> bool" where
  "drive_ok ops dc \<longleftrightarrow>
     (\<forall>lba n h ok data h'. ata_read ops lba n h = (ok, data, h') \<longrightarrow>
        dc h' = dc h \<and> length data \<le> n * 512 \<and> (ok \<longrightarrow> data = get_bytes (dc h) (lba * 512) (n * 512))) \<and>
     (\<forall>lba n bs h ok h'. length bs = n * 512 \<and> ata_write ops lba n bs h = (ok, h') \<longrightarrow>
        (\<forall>a. a < lba * 512 \<or> (lba + n) * 512 \<le> a \<longrightarrow> dc h' a = dc h a) \<and>
        (ok \<longrightarrow> get_bytes (dc h') (lba * 512) (n * 512) = bs)) \<and>
     (\<forall>h ok h'. ata_flush ops h = (ok, h') \<longrightarrow> dc h' = dc h)"

text \<open>A drive whose sectors below \<open>sectors\<close> can all be read and written.\<close>

definition drive_works :: "'h ata_ops \<Rightarrow> nat \<Rightarrow> bool" where
  "drive_works ops sectors \<longleftrightarrow>
     (\<forall>lba n h. 0 < n \<and> n \<le> 128 \<and> lba + n \<le> sectors \<longrightarrow> fst (ata_read ops lba n h) \<and> (\<forall>bs. fst (ata_write ops lba n bs h))) \<and>
     (\<forall>h. fst (ata_flush ops h))"

definition on_disk :: "('h \<Rightarrow> nat \<Rightarrow> u8) \<Rightarrow> 'h disk_state \<Rightarrow> nat \<Rightarrow> u8" where
  "on_disk dc s a = (if clks_disk_hw_backed s \<longrightarrow> clks_disk_loaded_test (a div 512) s then clks_disk_bytes s a else dc (disk_hw s) a)"

text \<open>The cache has nothing that the drive does not have.\<close>

definition coherent :: "('h \<Rightarrow> nat \<Rightarrow> u8) \<Rightarrow> 'h disk_state \<Rightarrow> bool" where
  "coherent dc s \<longleftrightarrow> clks_disk_hw_backed s \<and> (\<forall>a. on_disk dc s a = dc (disk_hw s) a)"

definition disk_static :: "'h disk_state \<Rightarrow> nat \<times> nat \<times> nat \<times> bool \<times> bool \<times> clks_disk_fat32_layout" where
  "disk_static s = (clks_disk_bytes_len s, clks_disk_sector_total s, clks_disk_loaded_bitmap_bytes s, clks_disk_ready s,
     clks_disk_hw_backed s, clks_disk_fat32 s)"

definition cache_ok :: "'h disk_state \<Rightarrow> bool" where
  "cache_ok s \<longleftrightarrow> clks_disk_bytes_len s = clks_disk_sector_total s * 512 \<and> 0 < clks_disk_sector_total s \<and>
     clks_disk_sector_total s \<le> clks_disk_loaded_bitmap_bytes s * 8"

lemma disk_static_eqs:
  assumes "disk_static s' = disk_static s"
  shows "clks_disk_bytes_len s' = clks_disk_bytes_len s" "clks_disk_sector_total s' = clks_disk_sector_total s"
    "clks_disk_loaded_bitmap_bytes s' = clks_disk_loaded_bitmap_bytes s" "clks_disk_ready s' = clks_disk_ready s"
    "clks_disk_hw_backed s' = clks_disk_hw_backed s" "clks_disk_fat32 s' = clks_disk_fat32 s"
  using assms by (simp_all add: disk_static_def)

lemma cache_ok_static: "disk_static s' = disk_static s \<Longrightarrow> cache_ok s' = cache_ok s"
  by (simp add: cache_ok_def disk_static_def)

lemma drive_read:
  assumes "drive_ok ops dc" "ata_read ops lba n h = (ok, data, h')"
  shows "dc h' = dc h" "length data \<le> n * 512" "ok \<Longrightarrow> data = get_bytes (dc h) (lba * 512) (n * 512)"
  using assms unfolding drive_ok_def by blast+

lemma drive_write:
  assumes "drive_ok ops dc" "length bs = n * 512" "ata_write ops lba n bs h = (ok, h')"
  shows "a < lba * 512 \<or> (lba + n) * 512 \<le> a \<Longrightarrow> dc h' a = dc h a"
    "ok \<Longrightarrow> get_bytes (dc h') (lba * 512) (n * 512) = bs"
  using assms unfolding drive_ok_def by blast+

lemma drive_flush: "drive_ok ops dc \<Longrightarrow> ata_flush ops h = (ok, h') \<Longrightarrow> dc h' = dc h"
  unfolding drive_ok_def by blast

section \<open>The bitmap\<close>

lemma sector_range:
  fixes a :: nat
  shows "lba * 512 \<le> a \<and> a < (lba + n) * 512 \<longleftrightarrow> lba \<le> a div 512 \<and> a div 512 < lba + n"
proof -
  have "lba * 512 \<le> a \<longleftrightarrow> lba \<le> a div 512" by (simp add: less_eq_div_iff_mult_less_eq)
  moreover have "a < (lba + n) * 512 \<longleftrightarrow> a div 512 < lba + n" by (simp add: div_less_iff_less_mult)
  ultimately show ?thesis by simp
qed

lemma bit_of_byte:
  fixes b :: u8
  shows "(b AND push_bit k 1 \<noteq> 0) \<longleftrightarrow> bit b k"
  by (auto simp: bit_eq_iff [where 'a = "8 word"] bit_simps dest: bit_imp_le_length)

lemma mark_loop_spec:
  assumes "lba + n \<le> clks_disk_loaded_bitmap_bytes s * 8"
  shows "clks_disk_loaded_test l (mark_loop n lba s) \<longleftrightarrow> clks_disk_loaded_test l s \<or> lba \<le> l \<and> l < lba + n"
    "\<exists>m. mark_loop n lba s = s\<lparr>clks_disk_loaded_bitmap := m\<rparr>"
proof -
  have "(clks_disk_loaded_test l (mark_loop n lba s) \<longleftrightarrow> clks_disk_loaded_test l s \<or> lba \<le> l \<and> l < lba + n) \<and>
    (\<exists>m. mark_loop n lba s = s\<lparr>clks_disk_loaded_bitmap := m\<rparr>)"
    using assms
  proof (induction n arbitrary: lba s)
    case 0
    show ?case by (auto intro: exI [of _ "clks_disk_loaded_bitmap s"])
  next
    case (Suc n)
    let ?s = "s\<lparr>clks_disk_loaded_bitmap := (clks_disk_loaded_bitmap s)
      (lba div 8 := clks_disk_loaded_bitmap s (lba div 8) OR push_bit (lba mod 8) 1)\<rparr>"
    have lt: "lba div 8 < clks_disk_loaded_bitmap_bytes s" using Suc.prems by (simp add: div_less_iff_less_mult)
    have same: "l = lba \<longleftrightarrow> l div 8 = lba div 8 \<and> l mod 8 = lba mod 8" by (metis div_mult_mod_eq)
    have one: "clks_disk_loaded_test l ?s \<longleftrightarrow> clks_disk_loaded_test l s \<or> l = lba"
      unfolding same clks_disk_loaded_test_def bit_of_byte using lt by (auto simp: bit_simps)
    have e: "mark_loop (Suc n) lba s = mark_loop n (lba + 1) ?s" using lt by simp
    have "lba + 1 + n \<le> clks_disk_loaded_bitmap_bytes ?s * 8" using Suc.prems by simp
    from Suc.IH [OF this] show ?case unfolding e one by auto
  qed
  then show "clks_disk_loaded_test l (mark_loop n lba s) \<longleftrightarrow> clks_disk_loaded_test l s \<or> lba \<le> l \<and> l < lba + n"
    "\<exists>m. mark_loop n lba s = s\<lparr>clks_disk_loaded_bitmap := m\<rparr>" by auto
qed

lemma mark_range_spec:
  assumes "cache_ok s" "lba + n \<le> clks_disk_sector_total s"
  shows "clks_disk_loaded_test l (clks_disk_loaded_mark_range lba n s) \<longleftrightarrow> clks_disk_loaded_test l s \<or> lba \<le> l \<and> l < lba + n"
    "\<exists>m. clks_disk_loaded_mark_range lba n s = s\<lparr>clks_disk_loaded_bitmap := m\<rparr>"
proof -
  have b: "lba + n \<le> clks_disk_loaded_bitmap_bytes s * 8" "clks_disk_loaded_bitmap_bytes s \<noteq> 0" using assms by (auto simp: cache_ok_def)
  have e: "clks_disk_loaded_mark_range lba n s = mark_loop n lba s" using b(2) by (cases n) (auto simp: clks_disk_loaded_mark_range_def)
  show "clks_disk_loaded_test l (clks_disk_loaded_mark_range lba n s) \<longleftrightarrow> clks_disk_loaded_test l s \<or> lba \<le> l \<and> l < lba + n"
    "\<exists>m. clks_disk_loaded_mark_range lba n s = s\<lparr>clks_disk_loaded_bitmap := m\<rparr>"
    unfolding e by (rule mark_loop_spec [OF b(1)])+
qed

lemma batch_end_range:
  shows "batch_end n end_lba lba s \<le> max lba end_lba" "batch_end n end_lba lba s \<le> lba + n"
    "lba \<le> l \<Longrightarrow> l < batch_end n end_lba lba s \<Longrightarrow> \<not> clks_disk_loaded_test l s"
proof -
  have "batch_end n end_lba lba s \<le> max lba end_lba \<and> batch_end n end_lba lba s \<le> lba + n \<and>
    (lba \<le> l \<and> l < batch_end n end_lba lba s \<longrightarrow> \<not> clks_disk_loaded_test l s)"
  proof (induction n arbitrary: lba)
    case (Suc n)
    show ?case
    proof (cases "lba < end_lba \<and> \<not> clks_disk_loaded_test lba s")
      case True
      then show ?thesis using Suc [of "lba + 1"] by (cases "l = lba") auto
    qed auto
  qed auto
  then show "batch_end n end_lba lba s \<le> max lba end_lba" "batch_end n end_lba lba s \<le> lba + n"
    "lba \<le> l \<Longrightarrow> l < batch_end n end_lba lba s \<Longrightarrow> \<not> clks_disk_loaded_test l s" by auto
qed

section \<open>Reading and writing through the cache\<close>

text \<open>What every function of the cache keeps.\<close>

definition cache_step :: "'h disk_state \<Rightarrow> 'h disk_state \<Rightarrow> bool" where
  "cache_step s s' \<longleftrightarrow> disk_static s' = disk_static s \<and> (\<forall>l. clks_disk_loaded_test l s \<longrightarrow> clks_disk_loaded_test l s')"

lemma cache_step_refl [simp]: "cache_step s s"
  by (simp add: cache_step_def)

lemma cache_step_trans: "cache_step s s1 \<Longrightarrow> cache_step s1 s2 \<Longrightarrow> cache_step s s2"
  by (simp add: cache_step_def)

lemma get_bytes_eq_iff: "get_bytes m p n = get_bytes m' p n \<longleftrightarrow> (\<forall>a. p \<le> a \<and> a < p + n \<longrightarrow> m a = m' a)"
  by (auto simp: get_bytes_def)

lemma get_bytes_nth: "p \<le> a \<Longrightarrow> a < p + n \<Longrightarrow> get_bytes m p n ! (a - p) = m a"
  by (simp add: get_bytes_def)

lemma load_step:
  assumes "drive_ok ops dc" "cache_ok s" "clks_disk_hw_backed s" "ata_read ops lba n (disk_hw s) = (ok, data, h)"
    and "lba + n \<le> clks_disk_sector_total s" "\<forall>l. lba \<le> l \<and> l < lba + n \<longrightarrow> \<not> clks_disk_loaded_test l s"
    and "s1 = s\<lparr>clks_disk_bytes := put_bytes (lba * 512) data (clks_disk_bytes s), disk_hw := h\<rparr>"
    and "s2 = (if ok then clks_disk_loaded_mark_range lba n s1 else s1)"
  shows "cache_step s s2" "on_disk dc s2 = on_disk dc s" "dc (disk_hw s2) = dc (disk_hw s)"
    "ok \<Longrightarrow> clks_disk_loaded_test l s2 \<longleftrightarrow> clks_disk_loaded_test l s \<or> lba \<le> l \<and> l < lba + n"
proof -
  note R = drive_read [OF assms(1,4)]
  have st: "disk_static s1 = disk_static s" and hint: "clks_disk_alloc_hint s1 = clks_disk_alloc_hint s"
    and l1: "clks_disk_loaded_test l s1 = clks_disk_loaded_test l s" for l
    unfolding assms(7) by (simp_all add: disk_static_def clks_disk_loaded_test_def)
  have c1: "cache_ok s1" using assms(2) cache_ok_static [OF st] by simp
  have t1: "lba + n \<le> clks_disk_sector_total s1" using assms(5,7) by simp
  obtain m where m: "clks_disk_loaded_mark_range lba n s1 = s1\<lparr>clks_disk_loaded_bitmap := m\<rparr>" using mark_range_spec(2) [OF c1 t1] ..
  have l2: "clks_disk_loaded_test l s2 \<longleftrightarrow> clks_disk_loaded_test l s \<or> ok \<and> lba \<le> l \<and> l < lba + n" for l
    unfolding assms(8) using mark_range_spec(1) [OF c1 t1, of l] l1 by auto
  have st2: "disk_static s2 = disk_static s1" and hint2: "clks_disk_alloc_hint s2 = clks_disk_alloc_hint s1"
    and b2: "clks_disk_bytes s2 = clks_disk_bytes s1" and h2: "disk_hw s2 = h"
    unfolding assms(8) m by (simp_all add: disk_static_def assms(7))
  show "cache_step s s2" unfolding cache_step_def st2 hint2 st hint l2 by simp
  show "dc (disk_hw s2) = dc (disk_hw s)" by (simp add: h2 R(1))
  show "ok \<Longrightarrow> clks_disk_loaded_test l s2 \<longleftrightarrow> clks_disk_loaded_test l s \<or> lba \<le> l \<and> l < lba + n" by (simp add: l2)
  have hw: "clks_disk_hw_backed s2" using st st2 assms(3) by (simp add: disk_static_def)
  show "on_disk dc s2 = on_disk dc s"
  proof
    fix a
    show "on_disk dc s2 a = on_disk dc s a"
    proof (cases "lba * 512 \<le> a \<and> a < (lba + n) * 512")
      case True
      then have i: "lba \<le> a div 512" "a div 512 < lba + n" unfolding sector_range by simp_all
      have nl: "\<not> clks_disk_loaded_test (a div 512) s" using assms(6) i by blast
      have "clks_disk_bytes s1 a = dc (disk_hw s) a" if ok
        using R(3) [OF that] True by (simp add: assms(7) put_bytes_def get_bytes_nth algebra_simps)
      with nl i show ?thesis using hw assms(3) by (auto simp: on_disk_def l2 b2 h2 R(1))
    next
      case False
      then have "clks_disk_bytes s1 a = clks_disk_bytes s a" using R(2) by (auto simp: assms(7) put_bytes_def algebra_simps)
      moreover have "clks_disk_loaded_test (a div 512) s2 = clks_disk_loaded_test (a div 512) s"
        using False unfolding sector_range l2 by auto
      ultimately show ?thesis using hw assms(3) by (simp add: on_disk_def b2 h2 R(1))
    qed
  qed
qed

lemma load_loop_spec:
  assumes "drive_ok ops dc" "cache_ok s" "clks_disk_hw_backed s" "end_lba \<le> clks_disk_sector_total s"
    and "load_loop ops end_lba lba s = (ok, s')"
  shows "cache_step s s' \<and> on_disk dc s' = on_disk dc s \<and> dc (disk_hw s') = dc (disk_hw s) \<and>
    (ok \<longrightarrow> (\<forall>l. lba \<le> l \<and> l < end_lba \<longrightarrow> clks_disk_loaded_test l s')) \<and>
    (drive_works ops (clks_disk_sector_total s) \<longrightarrow> ok)"
  using assms
proof (induction ops end_lba lba s arbitrary: ok s' rule: load_loop.induct)
  case (1 ops end_lba lba s)
  consider "lba \<ge> end_lba" | "lba < end_lba" "clks_disk_loaded_test lba s" | "lba < end_lba" "\<not> clks_disk_loaded_test lba s" by linarith
  then show ?case
  proof cases
    case 1
    with "1.prems"(5) show ?thesis by (auto simp: load_loop.simps [of ops end_lba lba s])
  next
    case 2
    with "1.prems"(5) have e: "load_loop ops end_lba (lba + 1) s = (ok, s')" by (simp add: load_loop.simps [of ops end_lba lba s])
    have le: "\<not> end_lba \<le> lba" using 2 by simp
    note IH = "1.IH"(1) [OF le 2(2) "1.prems"(1-4) e]
    have "clks_disk_loaded_test lba s'" using IH 2(2) by (auto simp: cache_step_def)
    then have "clks_disk_loaded_test l s'" if "ok" "lba \<le> l" "l < end_lba" for l
      using IH that by (cases "l = lba") auto
    with IH show ?thesis by blast
  next
    case 3
    define nxt where "nxt = batch_end CLKS_DISK_ATA_BATCH_SECTORS end_lba lba s"
    obtain rok data h where r: "ata_read ops lba (nxt - lba) (disk_hw s) = (rok, data, h)" by (metis prod_cases3)
    define s1 where "s1 = s\<lparr>clks_disk_bytes := put_bytes (lba * 512) data (clks_disk_bytes s), disk_hw := h\<rparr>"
    define s2 where "s2 = (if rok then clks_disk_loaded_mark_range lba (nxt - lba) s1 else s1)"
    have g: "lba < nxt" unfolding nxt_def by (rule batch_end_greater [OF 3])
    have nr: "nxt \<le> end_lba" "nxt \<le> lba + 128"
      using batch_end_range(1,2) [of CLKS_DISK_ATA_BATCH_SECTORS end_lba lba s] 3(1)
      by (auto simp: nxt_def CLKS_DISK_ATA_BATCH_SECTORS_def)
    have un: "\<forall>l. lba \<le> l \<and> l < lba + (nxt - lba) \<longrightarrow> \<not> clks_disk_loaded_test l s"
      using batch_end_range(3) [of lba _ CLKS_DISK_ATA_BATCH_SECTORS end_lba s] g by (simp add: nxt_def)
    have t: "lba + (nxt - lba) \<le> clks_disk_sector_total s" using nr(1) g "1.prems"(4) by simp
    note S = load_step [OF "1.prems"(1-3) r t un s1_def s2_def]
    have e: "load_loop ops end_lba lba s = (if \<not> rok then (False, s2) else load_loop ops end_lba nxt s2)"
      using 3 r by (simp add: load_loop.simps [of ops end_lba lba s] Let_def CLKS_DISK_SECTOR_SIZE_def
        flip: nxt_def s1_def) (simp add: s2_def s1_def)
    have w: "rok" if "drive_works ops (clks_disk_sector_total s)"
      using that g nr(2) t r unfolding drive_works_def by (metis add_le_imp_le_diff fst_conv le_add_diff_inverse nat_add_left_cancel_le order.strict_implies_order zero_less_diff add.commute)
    show ?thesis
    proof (cases rok)
      case False
      then have "ok = False" "s' = s2" using "1.prems"(5) e by auto
      with S False w show ?thesis by blast
    next
      case True
      then have e2: "load_loop ops end_lba nxt s2 = (ok, s')" using "1.prems"(5) e by simp
      have st: "disk_static s2 = disk_static s" using S(1) by (simp add: cache_step_def)
      note q = disk_static_eqs [OF st]
      have c2: "cache_ok s2" and h2: "clks_disk_hw_backed s2" and t2: "end_lba \<le> clks_disk_sector_total s2"
        using "1.prems"(1-4) cache_ok_static [OF st] q by simp_all
      have s2': "s2 = clks_disk_loaded_mark_range lba (nxt - lba) s1" using True by (simp add: s2_def)
      have IH: "cache_step s2 s' \<and> on_disk dc s' = on_disk dc s2 \<and> dc (disk_hw s') = dc (disk_hw s2) \<and>
        (ok \<longrightarrow> (\<forall>l. nxt \<le> l \<and> l < end_lba \<longrightarrow> clks_disk_loaded_test l s')) \<and>
        (drive_works ops (clks_disk_sector_total s2) \<longrightarrow> ok)"
        using "1.IH"(2) [OF _ _ nxt_def r [symmetric] refl refl _ _, unfolded CLKS_DISK_SECTOR_SIZE_def, folded s1_def, folded s2', OF _ _ _ "1.prems"(1) c2 h2 t2 e2] 3 True by simp
      have "clks_disk_loaded_test l s'" if "ok" "lba \<le> l" "l < end_lba" for l
      proof (cases "nxt \<le> l")
        case True
        with IH that show ?thesis by blast
      next
        case False
        then have "clks_disk_loaded_test l s2" using S(4) [OF True, of l] that g by simp
        with IH show ?thesis by (simp add: cache_step_def)
      qed
      with IH S(1-3) q(2) show ?thesis by (auto intro: cache_step_trans)
    qed
  qed
qed

lemma ensure_loaded_spec:
  assumes "drive_ok ops dc" "cache_ok s" "clks_disk_ensure_loaded_range ops off n s = (ok, s')"
  shows "cache_step s s'" "on_disk dc s' = on_disk dc s" "dc (disk_hw s') = dc (disk_hw s)"
    "ok \<Longrightarrow> off \<le> a \<Longrightarrow> a < off + n \<Longrightarrow> clks_disk_hw_backed s \<longrightarrow> clks_disk_loaded_test (a div 512) s'"
    "ok \<Longrightarrow> get_bytes (clks_disk_bytes s') off n = get_bytes (on_disk dc s) off n"
    "drive_works ops (clks_disk_sector_total s) \<Longrightarrow> off + n \<le> clks_disk_bytes_len s \<Longrightarrow> ok"
proof -
  let ?e = "(off + n + 511) div 512"
  have bm: "clks_disk_loaded_bitmap_bytes s \<noteq> 0" and len0: "clks_disk_bytes_len s \<noteq> 0" using assms(2) by (auto simp: cache_ok_def)
  consider "s' = s" "n = 0" "ok" | "s' = s" "\<not> clks_disk_bytes_range_valid off n s" "\<not> ok" | "s' = s" "\<not> clks_disk_hw_backed s" "ok"
    | "clks_disk_hw_backed s" "clks_disk_bytes_range_valid off n s" "0 < n" "load_loop ops ?e (off div 512) s = (ok, s')"
    using assms(3) bm by (auto simp: clks_disk_ensure_loaded_range_def CLKS_DISK_SECTOR_SIZE_def split: if_splits)
  then have "cache_step s s' \<and> on_disk dc s' = on_disk dc s \<and> dc (disk_hw s') = dc (disk_hw s) \<and>
    (\<forall>a. ok \<and> off \<le> a \<and> a < off + n \<and> clks_disk_hw_backed s \<longrightarrow> clks_disk_loaded_test (a div 512) s') \<and>
    (drive_works ops (clks_disk_sector_total s) \<and> off + n \<le> clks_disk_bytes_len s \<longrightarrow> ok)"
  proof cases
    case 2
    then show ?thesis using len0 by (auto simp: clks_disk_bytes_range_valid_def)
  next
    case 4
    have "off + n \<le> clks_disk_sector_total s * 512" using 4(2) assms(2) by (auto simp: clks_disk_bytes_range_valid_def cache_ok_def)
    then have "?e \<le> clks_disk_sector_total s" by (simp add: div_le_mono [of _ "clks_disk_sector_total s * 512 + 511" 512, simplified])
    note L = load_loop_spec [OF assms(1,2) 4(1) this 4(4)]
    have "a div 512 < ?e" if "off \<le> a" "a < off + n" for a
      using that by (simp add: less_eq_Suc_le less_eq_div_iff_mult_less_eq)
    with L show ?thesis by (auto simp: div_le_mono)
  qed auto
  note R = this
  show "cache_step s s'" "on_disk dc s' = on_disk dc s" "dc (disk_hw s') = dc (disk_hw s)"
    "ok \<Longrightarrow> off \<le> a \<Longrightarrow> a < off + n \<Longrightarrow> clks_disk_hw_backed s \<longrightarrow> clks_disk_loaded_test (a div 512) s'"
    "drive_works ops (clks_disk_sector_total s) \<Longrightarrow> off + n \<le> clks_disk_bytes_len s \<Longrightarrow> ok" using R by blast+
  have hw: "clks_disk_hw_backed s' = clks_disk_hw_backed s" using R by (simp add: cache_step_def disk_static_def)
  show "get_bytes (clks_disk_bytes s') off n = get_bytes (on_disk dc s) off n" if "ok"
  proof -
    have "clks_disk_bytes s' a = on_disk dc s' a" if "off \<le> a" "a < off + n" for a
      unfolding on_disk_def using R that \<open>ok\<close> hw by simp
    then show ?thesis using R by (simp add: get_bytes_eq_iff)
  qed
qed

lemma sync_loop_spec:
  assumes "drive_ok ops dc" "cache_ok s" "lba + n \<le> clks_disk_sector_total s" "sync_loop ops n lba s = (ok, s')"
  shows "cache_step s s' \<and> clks_disk_bytes s' = clks_disk_bytes s \<and>
    (\<forall>l. \<not> (lba \<le> l \<and> l < lba + n) \<longrightarrow> clks_disk_loaded_test l s' = clks_disk_loaded_test l s) \<and>
    (\<forall>a. \<not> (lba \<le> a div 512 \<and> a div 512 < lba + n) \<longrightarrow> dc (disk_hw s') a = dc (disk_hw s) a) \<and>
    (ok \<longrightarrow> (\<forall>a. lba \<le> a div 512 \<and> a div 512 < lba + n \<longrightarrow>
       clks_disk_loaded_test (a div 512) s' \<and> dc (disk_hw s') a = clks_disk_bytes s a)) \<and>
    (\<forall>a. clks_disk_loaded_test (a div 512) s' \<and> \<not> clks_disk_loaded_test (a div 512) s \<longrightarrow>
       dc (disk_hw s') a = clks_disk_bytes s a) \<and>
    (drive_works ops (clks_disk_sector_total s) \<longrightarrow> ok)"
  using assms
proof (induction ops n lba s arbitrary: ok s' rule: sync_loop.induct)
  case (1 ops n lba s)
  show ?case
  proof (cases "n = 0")
    case True
    with "1.prems"(4) show ?thesis by (auto simp: sync_loop.simps [of ops 0 lba s])
  next
    case False
    define b where "b = (if n > CLKS_DISK_ATA_BATCH_SECTORS then CLKS_DISK_ATA_BATCH_SECTORS else n)"
    define bs where "bs = get_bytes (clks_disk_bytes s) (lba * 512) (b * 512)"
    obtain wok h where w: "ata_write ops lba b bs (disk_hw s) = (wok, h)" by fastforce
    define s1 where "s1 = s\<lparr>disk_hw := h\<rparr>"
    define s2 where "s2 = clks_disk_loaded_mark_range lba b s1"
    have b: "0 < b" "b \<le> n" "b \<le> 128" using False by (auto simp: b_def CLKS_DISK_ATA_BATCH_SECTORS_def)
    have e: "sync_loop ops n lba s = (if \<not> wok then (False, s1) else sync_loop ops (n - b) (lba + b) s2)"
      using False w by (simp add: sync_loop.simps [of ops n lba s] Let_def CLKS_DISK_SECTOR_SIZE_def
        flip: b_def bs_def s1_def s2_def)
    have lb: "length bs = b * 512" by (simp add: bs_def)
    note W = drive_write [OF "1.prems"(1) lb w]
    have st: "disk_static s1 = disk_static s" "clks_disk_alloc_hint s1 = clks_disk_alloc_hint s" "clks_disk_bytes s1 = clks_disk_bytes s"
      "clks_disk_loaded_test l s1 = clks_disk_loaded_test l s" "disk_hw s1 = h" for l
      by (simp_all add: s1_def disk_static_def clks_disk_loaded_test_def)
    have out: "dc h a = dc (disk_hw s) a" if "\<not> (lba \<le> a div 512 \<and> a div 512 < lba + b)" for a
      using W(1) [of a] that unfolding sector_range [symmetric] by auto
    have inn: "dc h a = clks_disk_bytes s a" if "wok" "lba \<le> a div 512" "a div 512 < lba + b" for a
    proof -
      have "lba * 512 \<le> a \<and> a < (lba + b) * 512" using that(2,3) sector_range by blast
      with W(2) [OF that(1)] show ?thesis by (auto simp: bs_def get_bytes_eq_iff algebra_simps)
    qed
    have wk: "wok" if "drive_works ops (clks_disk_sector_total s)"
      using that b w "1.prems"(3) unfolding drive_works_def by (metis add_le_mono fst_conv le_refl order.trans)
    show ?thesis
    proof (cases wok)
      case False
      then have "ok = False" "s' = s1" using "1.prems"(4) e by auto
      moreover have "cache_step s s1" using st by (simp add: cache_step_def)
      ultimately show ?thesis using st out b wk False by auto
    next
      case True
      then have e2: "sync_loop ops (n - b) (lba + b) s2 = (ok, s')" using "1.prems"(4) e by simp
      have c1: "cache_ok s1" using "1.prems"(2) cache_ok_static [OF st(1)] by simp
      have t1: "lba + b \<le> clks_disk_sector_total s1" using "1.prems"(3) b disk_static_eqs(2) [OF st(1)] by simp
      obtain m where m: "s2 = s1\<lparr>clks_disk_loaded_bitmap := m\<rparr>" using mark_range_spec(2) [OF c1 t1] by (auto simp: s2_def)
      have l2: "clks_disk_loaded_test l s2 \<longleftrightarrow> clks_disk_loaded_test l s \<or> lba \<le> l \<and> l < lba + b" for l
        unfolding s2_def using mark_range_spec(1) [OF c1 t1] st(4) by simp
      have st2: "disk_static s2 = disk_static s" "clks_disk_alloc_hint s2 = clks_disk_alloc_hint s"
        "clks_disk_bytes s2 = clks_disk_bytes s" "disk_hw s2 = h"
        using st by (simp_all add: m disk_static_def)
      have c2: "cache_ok s2" using "1.prems"(2) cache_ok_static [OF st2(1)] by simp
      have t2: "lba + b + (n - b) \<le> clks_disk_sector_total s2" using "1.prems"(3) b disk_static_eqs(2) [OF st2(1)] by simp
      have IH: "cache_step s2 s' \<and> clks_disk_bytes s' = clks_disk_bytes s2 \<and>
        (\<forall>l. \<not> (lba + b \<le> l \<and> l < lba + b + (n - b)) \<longrightarrow> clks_disk_loaded_test l s' = clks_disk_loaded_test l s2) \<and>
        (\<forall>a. \<not> (lba + b \<le> a div 512 \<and> a div 512 < lba + b + (n - b)) \<longrightarrow> dc (disk_hw s') a = dc (disk_hw s2) a) \<and>
        (ok \<longrightarrow> (\<forall>a. lba + b \<le> a div 512 \<and> a div 512 < lba + b + (n - b) \<longrightarrow>
           clks_disk_loaded_test (a div 512) s' \<and> dc (disk_hw s') a = clks_disk_bytes s2 a)) \<and>
        (\<forall>a. clks_disk_loaded_test (a div 512) s' \<and> \<not> clks_disk_loaded_test (a div 512) s2 \<longrightarrow>
           dc (disk_hw s') a = clks_disk_bytes s2 a) \<and>
        (drive_works ops (clks_disk_sector_total s2) \<longrightarrow> ok)"
        using "1.IH" [OF False b_def w [symmetric, unfolded bs_def, folded CLKS_DISK_SECTOR_SIZE_def] s1_def _ "1.prems"(1)
          c2 [unfolded s2_def] t2 [unfolded s2_def] e2 [unfolded s2_def]] True by (simp add: s2_def)
      have cs: "cache_step s s'" using IH l2 st2 by (simp add: cache_step_def)
      have eq: "lba + b + (n - b) = lba + n" using b by simp
      note IH' = IH [unfolded eq st2(3,4)]
      have o: "clks_disk_loaded_test l s' = clks_disk_loaded_test l s" if "\<not> (lba \<le> l \<and> l < lba + n)" for l
        using IH' l2 [of l] that b by auto
      have d: "dc (disk_hw s') a = dc (disk_hw s) a" if "\<not> (lba \<le> a div 512 \<and> a div 512 < lba + n)" for a
        using IH' out [of a] that b by auto
      have f: "dc (disk_hw s') a = clks_disk_bytes s a" if "lba \<le> a div 512" "a div 512 < lba + b" for a
        using IH' inn [OF True that] that by auto
      have r: "clks_disk_loaded_test (a div 512) s' \<and> dc (disk_hw s') a = clks_disk_bytes s a"
        if "ok" "lba \<le> a div 512" "a div 512 < lba + n" for a
      proof (cases "a div 512 < lba + b")
        case True
        then show ?thesis using f [OF that(2) True] IH' l2 that(2) by (auto simp: cache_step_def)
      next
        case False
        then show ?thesis using IH' that by auto
      qed
      have nw: "dc (disk_hw s') a = clks_disk_bytes s a"
        if "clks_disk_loaded_test (a div 512) s'" "\<not> clks_disk_loaded_test (a div 512) s" for a
        using IH' f [of a] l2 [of "a div 512"] that by blast
      show ?thesis using cs IH' o d r nw disk_static_eqs(2) [OF st2(1)] by auto
    qed
  qed
qed

text \<open>A part of the cache that is changed and written back, with a flush of the drive behind it or not.\<close>

lemma write_back_spec:
  assumes D: "drive_ok ops dc" and C: "cache_ok s"
    and b: "\<forall>a. \<not> (lba \<le> a div 512 \<and> a div 512 < lba + n) \<longrightarrow> b a = clks_disk_bytes s a"
    and sy: "clks_disk_sync_sector_range ops lba n (s\<lparr>clks_disk_bytes := b\<rparr>) = (ok, s') \<or>
        clks_disk_sync_sector_range_no_flush ops lba n (s\<lparr>clks_disk_bytes := b\<rparr>) = (ok, s')"
  shows "cache_step s s'"
    "\<not> (lba \<le> a div 512 \<and> a div 512 < lba + n) \<Longrightarrow> on_disk dc s' a = on_disk dc s a"
    "ok \<or> \<not> clks_disk_hw_backed s \<or> clks_disk_loaded_test (a div 512) s \<Longrightarrow> lba \<le> a div 512 \<Longrightarrow> a div 512 < lba + n \<Longrightarrow>
      on_disk dc s' a = b a"
    "ok \<Longrightarrow> coherent dc s \<Longrightarrow> coherent dc s'"
    "drive_works ops (clks_disk_sector_total s) \<Longrightarrow> lba + n \<le> clks_disk_sector_total s \<Longrightarrow> ok"
proof -
  let ?s1 = "s\<lparr>clks_disk_bytes := b\<rparr>"
  have st: "disk_static ?s1 = disk_static s" "clks_disk_loaded_test l ?s1 = clks_disk_loaded_test l s" for l
    by (simp_all add: disk_static_def clks_disk_loaded_test_def)
  have c1: "cache_ok ?s1" using C cache_ok_static [OF st(1)] by simp
  have step1: "cache_step s ?s1" by (simp add: cache_step_def st)
  consider (skip) "s' = ?s1" "n = 0 \<or> \<not> clks_disk_hw_backed s" "ok"
    | (refuse) "s' = ?s1" "\<not> lba + n \<le> clks_disk_sector_total s" "\<not> ok"
    | (loop) ok1 s1 where "clks_disk_hw_backed s" "lba + n \<le> clks_disk_sector_total s" "sync_loop ops n lba ?s1 = (ok1, s1)"
        "cache_step s1 s'" "clks_disk_bytes s' = clks_disk_bytes s1" "\<And>l. clks_disk_loaded_test l s' = clks_disk_loaded_test l s1"
        "dc (disk_hw s') = dc (disk_hw s1)" "ok \<Longrightarrow> ok1" "drive_works ops (clks_disk_sector_total s) \<Longrightarrow> ok1 \<Longrightarrow> ok"
  proof -
    obtain ok1 s1 where l: "sync_loop ops n lba ?s1 = (ok1, s1)" by fastforce
    obtain fok h where f: "ata_flush ops (disk_hw s1) = (fok, h)" by fastforce
    have fs: "cache_step s1 (s1\<lparr>disk_hw := h\<rparr>)" "clks_disk_loaded_test k (s1\<lparr>disk_hw := h\<rparr>) = clks_disk_loaded_test k s1"
      "dc h = dc (disk_hw s1)" "drive_works ops (clks_disk_sector_total s) \<Longrightarrow> fok" for k
      using drive_flush [OF D f] f by (auto simp: cache_step_def disk_static_def clks_disk_loaded_test_def drive_works_def) (metis fst_conv)
    from sy show thesis
    proof
      assume "clks_disk_sync_sector_range ops lba n ?s1 = (ok, s')"
      then consider "n = 0 \<or> \<not> clks_disk_hw_backed s" "s' = ?s1" "ok" | "\<not> lba + n \<le> clks_disk_sector_total s" "s' = ?s1" "\<not> ok"
        | "clks_disk_hw_backed s" "lba + n \<le> clks_disk_sector_total s" "s' = (if ok1 then s1\<lparr>disk_hw := h\<rparr> else s1)" "ok = (ok1 \<and> fok)"
        by (auto simp: clks_disk_sync_sector_range_def flush_drive_def l f split: if_splits)
      then show thesis
      proof cases
        case 3
        then show thesis using loop [of ok1 s1] l fs by (cases ok1) auto
      qed (use skip refuse in auto)
    next
      assume "clks_disk_sync_sector_range_no_flush ops lba n ?s1 = (ok, s')"
      then consider "n = 0 \<or> \<not> clks_disk_hw_backed s" "s' = ?s1" "ok" | "\<not> lba + n \<le> clks_disk_sector_total s" "s' = ?s1" "\<not> ok"
        | "clks_disk_hw_backed s" "lba + n \<le> clks_disk_sector_total s" "s' = s1" "ok = ok1"
        by (auto simp: clks_disk_sync_sector_range_no_flush_def l split: if_splits)
      then show thesis
      proof cases
        case 3
        then show thesis using loop [of ok1 s1] l by auto
      qed (use skip refuse in auto)
    qed
  qed
  then have "cache_step s s' \<and>
    (\<forall>a. \<not> (lba \<le> a div 512 \<and> a div 512 < lba + n) \<longrightarrow> on_disk dc s' a = on_disk dc s a) \<and>
    (\<forall>a. (ok \<or> \<not> clks_disk_hw_backed s \<or> clks_disk_loaded_test (a div 512) s) \<and> lba \<le> a div 512 \<and> a div 512 < lba + n \<longrightarrow>
      on_disk dc s' a = b a) \<and>
    (ok \<and> coherent dc s \<longrightarrow> coherent dc s') \<and>
    (drive_works ops (clks_disk_sector_total s) \<and> lba + n \<le> clks_disk_sector_total s \<longrightarrow> ok)"
  proof cases
    case skip
    have "on_disk dc s' a = on_disk dc s a" if "\<not> (lba \<le> a div 512 \<and> a div 512 < lba + n)" for a
      using b [rule_format, OF that] by (simp add: skip(1) on_disk_def st)
    moreover have "coherent dc s'" if "coherent dc s"
    proof -
      have "n = 0" using skip(2) that by (simp add: coherent_def)
      then have "b = clks_disk_bytes s" using b by auto
      then show ?thesis using that skip(1) by simp
    qed
    ultimately show ?thesis using skip step1 by (auto simp: on_disk_def st)
  next
    case refuse
    have "on_disk dc s' a = on_disk dc s a" if "\<not> (lba \<le> a div 512 \<and> a div 512 < lba + n)" for a
      using b [rule_format, OF that] by (simp add: refuse(1) on_disk_def st)
    with refuse step1 show ?thesis by (auto simp: on_disk_def st)
  next
    case (loop ok1 s1)
    have "lba + n \<le> clks_disk_sector_total ?s1" using loop(2) by simp
    note L = sync_loop_spec [OF D c1 this loop(3), unfolded st]
    have cs: "cache_step s s'" using L loop(4) step1 by (auto intro: cache_step_trans)
    have hw: "clks_disk_hw_backed s'" using cs loop(1) by (simp add: cache_step_def disk_static_def)
    have o: "on_disk dc s' a = on_disk dc s a" if "\<not> (lba \<le> a div 512 \<and> a div 512 < lba + n)" for a
      using L that b [rule_format, OF that] loop(1,5-7) hw by (auto simp: on_disk_def)
    have i: "on_disk dc s' a = b a" if "ok \<or> \<not> clks_disk_hw_backed s \<or> clks_disk_loaded_test (a div 512) s" "lba \<le> a div 512" "a div 512 < lba + n" for a
    proof -
      have "clks_disk_loaded_test (a div 512) s1" using L that loop(1,8) by (auto simp: cache_step_def st)
      then show ?thesis using L loop(5-7) hw by (auto simp: on_disk_def)
    qed
    have "coherent dc s'" if "ok" "coherent dc s"
    proof -
      have "on_disk dc s' a = dc (disk_hw s') a" for a
      proof (cases "lba \<le> a div 512 \<and> a div 512 < lba + n")
        case True
        then show ?thesis using i [of a] that(1) L loop(7,8) by auto
      next
        case False
        then show ?thesis using o [OF False] L loop(7) that(2) by (auto simp: coherent_def)
      qed
      with hw show ?thesis by (simp add: coherent_def)
    qed
    then show ?thesis using cs o i L loop(9) disk_static_eqs(2) [OF st(1)] by auto
  qed
  then show "cache_step s s'"
    "\<not> (lba \<le> a div 512 \<and> a div 512 < lba + n) \<Longrightarrow> on_disk dc s' a = on_disk dc s a"
    "ok \<or> \<not> clks_disk_hw_backed s \<or> clks_disk_loaded_test (a div 512) s \<Longrightarrow> lba \<le> a div 512 \<Longrightarrow> a div 512 < lba + n \<Longrightarrow>
      on_disk dc s' a = b a"
    "ok \<Longrightarrow> coherent dc s \<Longrightarrow> coherent dc s'"
    "drive_works ops (clks_disk_sector_total s) \<Longrightarrow> lba + n \<le> clks_disk_sector_total s \<Longrightarrow> ok" by blast+
qed

lemma flush_spec:
  assumes "drive_ok ops dc" "clks_disk_flush_hw ops s = (ok, s')"
  shows "cache_step s s'" "on_disk dc s' = on_disk dc s" "dc (disk_hw s') = dc (disk_hw s)"
    "drive_works ops n \<Longrightarrow> ok"
proof -
  obtain fok h where f: "ata_flush ops (disk_hw s) = (fok, h)" by fastforce
  have "s' = (if clks_disk_hw_backed s then s\<lparr>disk_hw := h\<rparr> else s)" "ok = (clks_disk_hw_backed s \<longrightarrow> fok)"
    using assms(2) by (auto simp: clks_disk_flush_hw_def flush_drive_def f split: if_splits)
  then show "cache_step s s'" "on_disk dc s' = on_disk dc s" "dc (disk_hw s') = dc (disk_hw s)" "drive_works ops n \<Longrightarrow> ok"
    using drive_flush [OF assms(1) f] f
    by (auto simp: cache_step_def disk_static_def clks_disk_loaded_test_def on_disk_def fun_eq_iff drive_works_def) (metis fst_conv)
qed

lemma coherent_same: "coherent dc s \<Longrightarrow> cache_step s s' \<Longrightarrow> on_disk dc s' = on_disk dc s \<Longrightarrow> dc (disk_hw s') = dc (disk_hw s) \<Longrightarrow> coherent dc s'"
  by (simp add: coherent_def cache_step_def disk_static_def)

section \<open>The table of clusters\<close>

text \<open>
  A volume as \<open>clks_disk_parse_fat32_layout\<close> accepts it, with a table that has an entry for each cluster
  (which that function does not check).
\<close>

definition volume_ok :: "'h disk_state \<Rightarrow> bool" where
  "volume_ok s \<longleftrightarrow> cache_ok s \<and> (let l = clks_disk_fat32 s in
     fl_valid l \<and> 0 < fl_sectors_per_cluster l \<and> fl_cluster_size_bytes l = fl_sectors_per_cluster l * 512 \<and>
     0 < fl_fat_count l \<and> fl_fat_lba l + fl_fat_count l * fl_sectors_per_fat l \<le> fl_data_lba l \<and>
     fl_data_lba l + fl_cluster_count l * fl_sectors_per_cluster l \<le> clks_disk_sector_total s \<and>
     (fl_cluster_count l + 2) * 4 \<le> fl_sectors_per_fat l * 512 \<and> fl_cluster_count l \<le> 0x0FFFFFF5)"

definition fat_entry :: "('h \<Rightarrow> nat \<Rightarrow> u8) \<Rightarrow> 'h disk_state \<Rightarrow> nat \<Rightarrow> nat" where
  "fat_entry dc s c = unat (clks_disk_read_u32 (on_disk dc s) (fl_fat_lba (clks_disk_fat32 s) * 512 + c * 4) AND 0x0FFFFFFF)"

text \<open>The bytes of a cluster.\<close>

definition cluster_bytes :: "('h \<Rightarrow> nat \<Rightarrow> u8) \<Rightarrow> 'h disk_state \<Rightarrow> nat \<Rightarrow> u8 list" where
  "cluster_bytes dc s c = (let l = clks_disk_fat32 s in
     get_bytes (on_disk dc s) ((fl_data_lba l + (c - 2) * fl_sectors_per_cluster l) * 512) (fl_cluster_size_bytes l))"

abbreviation clusters :: "'h disk_state \<Rightarrow> nat set" where
  "clusters s \<equiv> {c. clks_disk_cluster_valid c s}"

lemma volume_okD:
  assumes "volume_ok s"
  shows "cache_ok s" "fl_valid (clks_disk_fat32 s)" "0 < fl_sectors_per_cluster (clks_disk_fat32 s)"
    "fl_cluster_size_bytes (clks_disk_fat32 s) = fl_sectors_per_cluster (clks_disk_fat32 s) * 512"
    "0 < fl_fat_count (clks_disk_fat32 s)"
    "fl_fat_lba (clks_disk_fat32 s) + fl_fat_count (clks_disk_fat32 s) * fl_sectors_per_fat (clks_disk_fat32 s)
       \<le> fl_data_lba (clks_disk_fat32 s)"
    "fl_data_lba (clks_disk_fat32 s) + fl_cluster_count (clks_disk_fat32 s) * fl_sectors_per_cluster (clks_disk_fat32 s)
       \<le> clks_disk_sector_total s"
    "(fl_cluster_count (clks_disk_fat32 s) + 2) * 4 \<le> fl_sectors_per_fat (clks_disk_fat32 s) * 512"
    "fl_cluster_count (clks_disk_fat32 s) \<le> 0x0FFFFFF5"
  using assms by (simp_all add: volume_ok_def Let_def)

lemma volume_ok_static:
  assumes "disk_static s' = disk_static s"
  shows "volume_ok s' = volume_ok s"
  unfolding volume_ok_def cache_ok_static [OF assms] disk_static_eqs [OF assms] ..

lemma volume_ok_step: "cache_step s s' \<Longrightarrow> volume_ok s' = volume_ok s"
  by (rule volume_ok_static) (simp add: cache_step_def)

lemma cluster_valid_static: "disk_static s' = disk_static s \<Longrightarrow> clks_disk_cluster_valid c s' = clks_disk_cluster_valid c s"
  by (simp add: clks_disk_cluster_valid_def disk_static_def)

lemma mask_words: "(0xFF :: u32) = mask 8" "(0x0FFFFFFF :: u32) = mask 28" "(0xF0000000 :: u32) = NOT (mask 28)"
  by (simp_all add: mask_eq_exp_minus_1)

lemma fat_entry_less: "fat_entry dc s c < 2 ^ 28"
  unfolding fat_entry_def mask_words and_mask_nat by simp

lemma read_write_u32 [simp]: "clks_disk_read_u32 (clks_disk_write_u32 p v m) p = v"
  unfolding clks_disk_read_u32_def
proof (rule bit_word_eqI)
  fix n :: nat
  assume "n < LENGTH(32)"
  then consider "n < 8" | "8 \<le> n" "n < 16" | "16 \<le> n" "n < 24" | "24 \<le> n" "n < 32" by fastforce
  then show "bit (ucast ((clks_disk_write_u32 p v m) p) OR push_bit 8 (ucast ((clks_disk_write_u32 p v m) (p + 1))) OR
      push_bit 16 (ucast ((clks_disk_write_u32 p v m) (p + 2))) OR push_bit 24 (ucast ((clks_disk_write_u32 p v m) (p + 3))) :: u32) n = bit v n"
    unfolding clks_disk_write_u32_def mask_words by cases (auto simp: bit_simps)
qed

lemma read_u32_cong: "(\<And>a. p \<le> a \<Longrightarrow> a < p + 4 \<Longrightarrow> m a = m' a) \<Longrightarrow> clks_disk_read_u32 m p = clks_disk_read_u32 m' p"
  by (simp add: clks_disk_read_u32_def)

lemma write_u32_other: "\<not> (p \<le> a \<and> a < p + 4) \<Longrightarrow> clks_disk_write_u32 p v m a = m a"
  by (auto simp: clks_disk_write_u32_def)

lemma new_entry_value:
  assumes "v < 2 ^ 28"
  shows "unat (((old AND 0xF0000000) OR (of_nat v AND 0x0FFFFFFF)) AND (0x0FFFFFFF :: u32)) = v"
proof -
  have "((old AND 0xF0000000) OR (of_nat v AND 0x0FFFFFFF)) AND (0x0FFFFFFF :: u32) = of_nat v AND mask 28"
    unfolding mask_words by (rule bit_word_eqI) (auto simp: bit_simps)
  moreover have "unat (of_nat v AND mask 28 :: u32) = v" using assms by (simp add: and_mask_nat unat_of_nat)
  ultimately show ?thesis by simp
qed

lemma fat_place_Some:
  assumes "volume_ok s" "c < fl_cluster_count (clks_disk_fat32 s) + 2"
  obtains i off where "fat_place c s = Some (i, off)" "i * 512 + off = c * 4" "off + 4 \<le> 512" "i < fl_sectors_per_fat (clks_disk_fat32 s)"
proof
  let ?i = "c * 4 div 512" and ?off = "c * 4 mod 512"
  have "c * 4 < fl_sectors_per_fat (clks_disk_fat32 s) * 512" using volume_okD(8) [OF assms(1)] assms(2) by simp
  then show i: "?i < fl_sectors_per_fat (clks_disk_fat32 s)" by (simp add: div_less_iff_less_mult)
  show "fat_place c s = Some (?i, ?off)" using i assms volume_okD(2) [OF assms(1)] by (simp add: fat_place_def CLKS_DISK_SECTOR_SIZE_def Let_def)
  show "?i * 512 + ?off = c * 4" by (rule div_mult_mod_eq)
  have "?off = 4 * (c mod 128)" using mult_mod_right [of 4 c 128] by (simp add: mult.commute)
  then show "?off + 4 \<le> 512" using mod_less_divisor [of 128 c] by simp
qed

lemma fat_read_spec:
  assumes D: "drive_ok ops dc" and V: "volume_ok s" and c: "c < fl_cluster_count (clks_disk_fat32 s) + 2"
    and r: "clks_disk_fat_read_entry ops c s = (r, s')"
  shows "cache_step s s'" "on_disk dc s' = on_disk dc s" "dc (disk_hw s') = dc (disk_hw s)"
    "r = None \<or> r = Some (fat_entry dc s c)" "drive_works ops (clks_disk_sector_total s) \<Longrightarrow> r = Some (fat_entry dc s c)"
proof -
  obtain i off where p: "fat_place c s = Some (i, off)" "i * 512 + off = c * 4" "off + 4 \<le> 512" "i < fl_sectors_per_fat (clks_disk_fat32 s)"
    by (rule fat_place_Some [OF V c])
  let ?p = "fl_fat_lba (clks_disk_fat32 s) * 512 + c * 4"
  have pe: "(fl_fat_lba (clks_disk_fat32 s) + i) * 512 + off = ?p" using p(2) by (simp add: algebra_simps)
  note v = volume_okD [OF V]
  obtain n where n: "fl_fat_count (clks_disk_fat32 s) = Suc n" using v(5) by (cases "fl_fat_count (clks_disk_fat32 s)") auto
  have "?p + 4 \<le> fl_fat_lba (clks_disk_fat32 s) * 512 + fl_sectors_per_fat (clks_disk_fat32 s) * 512" using v(8) c by simp
  also have "\<dots> \<le> fl_data_lba (clks_disk_fat32 s) * 512" using v(6) unfolding n by simp
  finally have le: "?p + 4 \<le> clks_disk_bytes_len s" using v(1,7) by (auto simp: cache_ok_def)
  have rv: "clks_disk_bytes_range_valid ?p 4 s" using le by (auto simp: clks_disk_bytes_range_valid_def)
  obtain ok s1 where e: "clks_disk_ensure_loaded_range ops ?p 4 s = (ok, s1)" by fastforce
  note E = ensure_loaded_spec [OF D v(1) e]
  have r': "r = (if ok then Some (unat (clks_disk_read_u32 (clks_disk_bytes s1) ?p AND 0x0FFFFFFF)) else None)" "s' = s1"
    using r unfolding clks_disk_fat_read_entry_def p(1) option.case prod.case Let_def CLKS_DISK_SECTOR_SIZE_def pe e
    using rv by (auto split: if_splits)
  have val: "clks_disk_read_u32 (clks_disk_bytes s1) ?p = clks_disk_read_u32 (on_disk dc s) ?p" if ok
    using E(5) [OF that] by (intro read_u32_cong) (auto simp: get_bytes_eq_iff)
  show "cache_step s s'" "on_disk dc s' = on_disk dc s" "dc (disk_hw s') = dc (disk_hw s)" using E(1-3) r' by simp_all
  show "r = None \<or> r = Some (fat_entry dc s c)" using r' val by (auto simp: fat_entry_def)
  show "r = Some (fat_entry dc s c)" if "drive_works ops (clks_disk_sector_total s)"
    using E(6) [OF that le] r' val by (auto simp: fat_entry_def)
qed

text \<open>What an operation on the table leaves: everything before the tables and behind them.\<close>

definition outside_fat :: "('h \<Rightarrow> nat \<Rightarrow> u8) \<Rightarrow> 'h disk_state \<Rightarrow> 'h disk_state \<Rightarrow> bool" where
  "outside_fat dc s s' \<longleftrightarrow> disk_static s' = disk_static s \<and>
     (\<forall>a. a < fl_fat_lba (clks_disk_fat32 s) * 512 \<or> fl_data_lba (clks_disk_fat32 s) * 512 \<le> a \<longrightarrow> on_disk dc s' a = on_disk dc s a)"

lemma outside_fat_refl [simp]: "outside_fat dc s s"
  by (simp add: outside_fat_def)

lemma outside_fat_trans: "outside_fat dc s s1 \<Longrightarrow> outside_fat dc s1 s2 \<Longrightarrow> outside_fat dc s s2"
  by (auto simp: outside_fat_def disk_static_def)

lemma outside_fat_same: "cache_step s s' \<Longrightarrow> on_disk dc s' = on_disk dc s \<Longrightarrow> outside_fat dc s s'"
  by (simp add: outside_fat_def cache_step_def)

lemma outside_fat_volume: "outside_fat dc s s' \<Longrightarrow> volume_ok s' = volume_ok s"
  by (rule volume_ok_static) (simp add: outside_fat_def)

lemma outside_fat_fat32: "outside_fat dc s s' \<Longrightarrow> clks_disk_fat32 s' = clks_disk_fat32 s"
  by (simp add: outside_fat_def disk_static_def)

lemma outside_fat_valid: "outside_fat dc s s' \<Longrightarrow> clks_disk_cluster_valid c s' = clks_disk_cluster_valid c s"
  by (rule cluster_valid_static) (simp add: outside_fat_def)

lemma outside_fat_cluster: "outside_fat dc s s' \<Longrightarrow> cluster_bytes dc s' c = cluster_bytes dc s c"
  by (auto simp: outside_fat_def cluster_bytes_def disk_static_def Let_def get_bytes_eq_iff)

lemma fat_entry_same: "clks_disk_fat32 s' = clks_disk_fat32 s \<Longrightarrow> on_disk dc s' = on_disk dc s \<Longrightarrow> fat_entry dc s' c = fat_entry dc s c"
  by (simp add: fat_entry_def)

text \<open>The entry of a cluster in one copy of the table.\<close>

lemma fat_copy_range:
  assumes "volume_ok s" "c < fl_cluster_count (clks_disk_fat32 s) + 2" "k < fl_fat_count (clks_disk_fat32 s)"
  shows "fl_fat_lba (clks_disk_fat32 s) * 512 + k * fl_sectors_per_fat (clks_disk_fat32 s) * 512 + c * 4 + 4
    \<le> fl_fat_lba (clks_disk_fat32 s) * 512 + (k + 1) * fl_sectors_per_fat (clks_disk_fat32 s) * 512"
    "fl_fat_lba (clks_disk_fat32 s) * 512 + (k + 1) * fl_sectors_per_fat (clks_disk_fat32 s) * 512 \<le> fl_data_lba (clks_disk_fat32 s) * 512"
    "fl_data_lba (clks_disk_fat32 s) * 512 \<le> clks_disk_bytes_len s"
proof -
  note v = volume_okD [OF assms(1)]
  show "fl_fat_lba (clks_disk_fat32 s) * 512 + k * fl_sectors_per_fat (clks_disk_fat32 s) * 512 + c * 4 + 4
    \<le> fl_fat_lba (clks_disk_fat32 s) * 512 + (k + 1) * fl_sectors_per_fat (clks_disk_fat32 s) * 512"
    using v(8) assms(2) by (simp add: algebra_simps)
  have "(k + 1) * fl_sectors_per_fat (clks_disk_fat32 s) \<le> fl_fat_count (clks_disk_fat32 s) * fl_sectors_per_fat (clks_disk_fat32 s)"
    using assms(3) by (intro mult_le_mono1) simp
  then have "fl_fat_lba (clks_disk_fat32 s) + (k + 1) * fl_sectors_per_fat (clks_disk_fat32 s) \<le> fl_data_lba (clks_disk_fat32 s)"
    using v(6) by simp
  then show "fl_fat_lba (clks_disk_fat32 s) * 512 + (k + 1) * fl_sectors_per_fat (clks_disk_fat32 s) * 512 \<le> fl_data_lba (clks_disk_fat32 s) * 512"
    by (simp add: algebra_simps)
  show "fl_data_lba (clks_disk_fat32 s) * 512 \<le> clks_disk_bytes_len s" using v(1,7) by (auto simp: cache_ok_def)
qed

lemma fat_write_copies:
  assumes D: "drive_ok ops dc" and "volume_ok s" and "c < fl_cluster_count (clks_disk_fat32 s) + 2"
    and "k + n \<le> fl_fat_count (clks_disk_fat32 s)" and "i * 512 + off = c * 4" "off + 4 \<le> 512" and v: "v < 2 ^ 28"
    and "fat_write_loop ops v i off n k s = (ok, s')"
  shows "outside_fat dc s s' \<and> cache_step s s' \<and>
    (\<forall>a. (a < fl_fat_lba (clks_disk_fat32 s) * 512 + k * fl_sectors_per_fat (clks_disk_fat32 s) * 512) \<longrightarrow> on_disk dc s' a = on_disk dc s a) \<and>
    (k = 0 \<longrightarrow> (\<forall>c' < fl_cluster_count (clks_disk_fat32 s) + 2. c' \<noteq> c \<longrightarrow> fat_entry dc s' c' = fat_entry dc s c') \<and>
       (fat_entry dc s' c = fat_entry dc s c \<or> fat_entry dc s' c = v) \<and> (ok \<and> n \<noteq> 0 \<longrightarrow> fat_entry dc s' c = v)) \<and>
    (ok \<and> coherent dc s \<longrightarrow> coherent dc s') \<and> (drive_works ops (clks_disk_sector_total s) \<longrightarrow> ok)"
  using assms(2-)
proof (induction n arbitrary: k s)
  case 0
  then show ?case by auto
next
  case (Suc n)
  let ?l = "clks_disk_fat32 s"
  let ?lba = "fl_fat_lba ?l + k * fl_sectors_per_fat ?l + i"
  let ?p = "fl_fat_lba ?l * 512 + k * fl_sectors_per_fat ?l * 512 + c * 4"
  have k: "k < fl_fat_count ?l" using Suc.prems(3) by simp
  have pe: "?lba * 512 + off = ?p" using Suc.prems(4) by (simp add: algebra_simps)
  note cr = fat_copy_range [OF Suc.prems(1,2) k]
  have le: "?p + 4 \<le> clks_disk_bytes_len s" using cr by linarith
  then have rv: "clks_disk_bytes_range_valid ?p 4 s" by (auto simp: clks_disk_bytes_range_valid_def)
  have C: "cache_ok s" using volume_okD(1) [OF Suc.prems(1)] .
  obtain eok s1 where e: "clks_disk_ensure_loaded_range ops ?p 4 s = (eok, s1)" by fastforce
  note E = ensure_loaded_spec [OF D C e]
  let ?new = "(clks_disk_read_u32 (clks_disk_bytes s1) ?p AND 0xF0000000) OR (of_nat v AND 0x0FFFFFFF)"
  let ?b = "clks_disk_write_u32 ?p ?new (clks_disk_bytes s1)"
  obtain sok s2 where w: "clks_disk_sync_sector_range ops ?lba 1 (s1\<lparr>clks_disk_bytes := ?b\<rparr>) = (sok, s2)" by fastforce
  have run: "fat_write_loop ops v i off (Suc n) k s =
      (if \<not> eok then (False, s1) else if \<not> sok then (False, s2) else fat_write_loop ops v i off n (k + 1) s2)"
    unfolding fat_write_loop.simps Let_def CLKS_DISK_SECTOR_SIZE_def pe e using rv w by simp
  show ?case
  proof (cases eok)
    case False
    then have "s' = s1" "\<not> ok" using Suc.prems(7) run by auto
    then show ?thesis using E(1,2,6) le False outside_fat_same [OF E(1,2)] outside_fat_fat32 [OF outside_fat_same [OF E(1,2)]]
      by (auto simp: fat_entry_def)
  next
    case True
    have st1: "disk_static s1 = disk_static s" using E(1) by (simp add: cache_step_def)
    note q1 = disk_static_eqs [OF st1]
    have C1: "cache_ok s1" using C cache_ok_static [OF st1] by simp
    have sec: "?lba \<le> a div 512 \<and> a div 512 < ?lba + 1" if "?p \<le> a" "a < ?p + 4" for a
      using that Suc.prems(5) unfolding sector_range [symmetric] pe [symmetric] by auto
    have bo: "\<forall>a. \<not> (?lba \<le> a div 512 \<and> a div 512 < ?lba + 1) \<longrightarrow> ?b a = clks_disk_bytes s1 a"
      using sec by (intro allI impI write_u32_other) blast
    note W = write_back_spec [OF D C1 bo disjI1 [OF w]]
    have ld: "\<not> clks_disk_hw_backed s1 \<or> clks_disk_loaded_test (a div 512) s1" if "?lba \<le> a div 512" "a div 512 < ?lba + 1" for a
    proof -
      have "?p div 512 = ?lba" using sec [of ?p] by auto
      moreover have "clks_disk_hw_backed s \<longrightarrow> clks_disk_loaded_test (?p div 512) s1" by (rule E(4) [OF True]) simp_all
      moreover have "a div 512 = ?lba" using that by simp
      ultimately show ?thesis using q1(5) by simp
    qed
    have od: "on_disk dc s2 a = (if ?p \<le> a \<and> a < ?p + 4 then ?b a else on_disk dc s a)" for a
    proof (cases "?lba \<le> a div 512 \<and> a div 512 < ?lba + 1")
      case True
      have "on_disk dc s2 a = ?b a" using W(3) [of a] ld [of a] True by blast
      moreover have "clks_disk_bytes s1 a = on_disk dc s1 a" using ld [of a] True by (auto simp: on_disk_def)
      ultimately show ?thesis using E(2) write_u32_other [of ?p a] by auto
    next
      case False
      then show ?thesis using W(2) [OF False] E(2) sec [of a] by auto
    qed
    have cs2: "cache_step s s2" using E(1) W(1) by (rule cache_step_trans)
    have st2: "disk_static s2 = disk_static s" using cs2 by (simp add: cache_step_def)
    note q2 = disk_static_eqs [OF st2]
    have of2: "outside_fat dc s s2" using st2 od cr by (auto simp: outside_fat_def)
    have lo2: "on_disk dc s2 a = on_disk dc s a" if "a < fl_fat_lba ?l * 512 + k * fl_sectors_per_fat ?l * 512" for a
      using that od by simp
    have ent: "fat_entry dc s2 c' = (if c' = c then v else fat_entry dc s c')" if "k = 0" for c'
    proof (cases "c' = c")
      case True
      have "clks_disk_read_u32 (on_disk dc s2) ?p = clks_disk_read_u32 ?b ?p" by (rule read_u32_cong) (simp add: od)
      with True that show ?thesis using new_entry_value [OF v] by (simp add: fat_entry_def q2)
    next
      case False
      have "clks_disk_read_u32 (on_disk dc s2) (fl_fat_lba ?l * 512 + c' * 4) = clks_disk_read_u32 (on_disk dc s) (fl_fat_lba ?l * 512 + c' * 4)"
        using False that by (intro read_u32_cong) (auto simp: od)
      with False show ?thesis by (simp add: fat_entry_def q2)
    qed
    have cf: "coherent dc s2" if "sok" "coherent dc s"
      using W(4) [OF that(1)] coherent_same [OF that(2) E(1-3)] by blast
    have wk: "sok" if "drive_works ops (clks_disk_sector_total s)"
    proof -
      have "?lba * 512 < clks_disk_sector_total s * 512" using le pe C unfolding cache_ok_def by linarith
      then show ?thesis using W(5) that q1(2) by simp
    qed
    show ?thesis
    proof (cases sok)
      case False
      then have "s' = s2" "\<not> ok" using Suc.prems(7) run True by auto
      then show ?thesis using of2 cs2 lo2 ent wk False by auto
    next
      case sok: True
      have r2: "fat_write_loop ops v i off n (k + 1) s2 = (ok, s')" using Suc.prems(7) run True sok by simp
      have V2: "volume_ok s2" using Suc.prems(1) volume_ok_static [OF st2] by simp
      have IH: "outside_fat dc s2 s' \<and> cache_step s2 s' \<and>
        (\<forall>a. (a < fl_fat_lba ?l * 512 + (k + 1) * fl_sectors_per_fat ?l * 512) \<longrightarrow> on_disk dc s' a = on_disk dc s2 a) \<and>
        (ok \<and> coherent dc s2 \<longrightarrow> coherent dc s') \<and> (drive_works ops (clks_disk_sector_total s) \<longrightarrow> ok)"
        using Suc.IH [OF V2 _ _ Suc.prems(4,5) v r2] Suc.prems(2,3) unfolding q2 by simp
      have lo: "on_disk dc s' a = on_disk dc s2 a" if "a < fl_fat_lba ?l * 512 + (k + 1) * fl_sectors_per_fat ?l * 512" for a
        using IH that by blast
      have ent': "fat_entry dc s' c' = fat_entry dc s2 c'" if "k = 0" "c' < fl_cluster_count ?l + 2" for c'
      proof -
        have "clks_disk_fat32 s' = ?l" using IH q2(6) outside_fat_fat32 by metis
        moreover have "clks_disk_read_u32 (on_disk dc s') (fl_fat_lba ?l * 512 + c' * 4) = clks_disk_read_u32 (on_disk dc s2) (fl_fat_lba ?l * 512 + c' * 4)"
          using fat_copy_range(1) [OF Suc.prems(1) that(2) k] that(1) by (intro read_u32_cong lo) simp
        ultimately show ?thesis by (simp add: fat_entry_def q2)
      qed
      have "on_disk dc s' a = on_disk dc s a" if "a < fl_fat_lba ?l * 512 + k * fl_sectors_per_fat ?l * 512" for a
        using lo [of a] lo2 [OF that] that by simp
      moreover have "outside_fat dc s s'" "cache_step s s'" using IH of2 cs2 by (blast intro: outside_fat_trans cache_step_trans)+
      moreover have "ok \<and> coherent dc s \<longrightarrow> coherent dc s'" "drive_works ops (clks_disk_sector_total s) \<longrightarrow> ok" using IH cf [OF sok] by auto
      ultimately show ?thesis using ent ent' Suc.prems(2) by auto
    qed
  qed
qed

lemma fat_write_spec:
  assumes D: "drive_ok ops dc" and V: "volume_ok s" and c: "c < fl_cluster_count (clks_disk_fat32 s) + 2" and v: "v < 2 ^ 28"
    and w: "clks_disk_fat_write_entry ops c v s = (ok, s')"
  shows "outside_fat dc s s'" "cache_step s s'"
    "c' < fl_cluster_count (clks_disk_fat32 s) + 2 \<Longrightarrow> c' \<noteq> c \<Longrightarrow> fat_entry dc s' c' = fat_entry dc s c'"
    "fat_entry dc s' c = fat_entry dc s c \<or> fat_entry dc s' c = v" "ok \<Longrightarrow> fat_entry dc s' c = v"
    "ok \<Longrightarrow> coherent dc s \<Longrightarrow> coherent dc s'" "drive_works ops (clks_disk_sector_total s) \<Longrightarrow> ok"
proof -
  obtain i off where p: "fat_place c s = Some (i, off)" "i * 512 + off = c * 4" "off + 4 \<le> 512" "i < fl_sectors_per_fat (clks_disk_fat32 s)"
    by (rule fat_place_Some [OF V c])
  have l: "fat_write_loop ops v i off (fl_fat_count (clks_disk_fat32 s)) 0 s = (ok, s')"
    using w by (simp add: clks_disk_fat_write_entry_def p(1))
  have "0 + fl_fat_count (clks_disk_fat32 s) \<le> fl_fat_count (clks_disk_fat32 s)" "fl_fat_count (clks_disk_fat32 s) \<noteq> 0"
    using volume_okD(5) [OF V] by auto
  note W = fat_write_copies [OF D V c this(1) p(2,3) v l]
  show "outside_fat dc s s'" "cache_step s s'"
    "c' < fl_cluster_count (clks_disk_fat32 s) + 2 \<Longrightarrow> c' \<noteq> c \<Longrightarrow> fat_entry dc s' c' = fat_entry dc s c'"
    "fat_entry dc s' c = fat_entry dc s c \<or> fat_entry dc s' c = v" "ok \<Longrightarrow> fat_entry dc s' c = v"
    "ok \<Longrightarrow> coherent dc s \<Longrightarrow> coherent dc s'" "drive_works ops (clks_disk_sector_total s) \<Longrightarrow> ok"
    using W volume_okD(5) [OF V] by blast+
qed

end
