(* ===== verification/Clks_Fat_Chain.thy ===== *)
theory Clks_Fat_Chain
  imports Clks_Fat_Table
begin

text \<open>
  Chains of clusters over the table: a chain as a list, the release and the allocation of a chain, and the
  loops that write and read the clusters of one. A lemma on an operation says which entries or bytes it may
  change, what it leaves when it succeeds, and that it succeeds on a drive that works.
\<close>

section \<open>Chains\<close>

text \<open>
  A chain, as a list: the entry of each cluster is the next one, the entry of the last an end mark. Compare
  the paths of pointers in a heap.
\<close>

fun chain :: "(nat \<Rightarrow> nat) \<Rightarrow> nat list \<Rightarrow> bool" where
  "chain f [] \<longleftrightarrow> False"
| "chain f [c] \<longleftrightarrow> CLKS_DISK_FAT32_EOC_MIN \<le> f c"
| "chain f (c # d # cs) \<longleftrightarrow> f c = d \<and> chain f (d # cs)"

text \<open>The clusters of a file.\<close>

definition file_chain :: "('h \<Rightarrow> nat \<Rightarrow> u8) \<Rightarrow> 'h disk_state \<Rightarrow> nat list \<Rightarrow> bool" where
  "file_chain dc s cs \<longleftrightarrow> chain (fat_entry dc s) cs \<and> set cs \<subseteq> clusters s"

text \<open>The contents of a file with these clusters.\<close>

definition chain_bytes :: "('h \<Rightarrow> nat \<Rightarrow> u8) \<Rightarrow> 'h disk_state \<Rightarrow> nat list \<Rightarrow> u8 list" where
  "chain_bytes dc s cs = concat (map (cluster_bytes dc s) cs)"

definition free_clusters :: "('h \<Rightarrow> nat \<Rightarrow> u8) \<Rightarrow> 'h disk_state \<Rightarrow> nat set" where
  "free_clusters dc s = {c \<in> clusters s. fat_entry dc s c = 0}"

lemma chain_nonempty: "chain f cs \<Longrightarrow> cs \<noteq> []"
  by (cases cs) auto

lemma chain_cong: "(\<And>c. c \<in> set cs \<Longrightarrow> f c = g c) \<Longrightarrow> chain f cs = chain g cs"
  by (induction f cs rule: chain.induct) auto

lemma chain_suffix: "chain f (xs @ c # ys) \<Longrightarrow> chain f (c # ys)"
  by (induction f xs rule: chain.induct) (auto elim: chain.elims)

lemma chain_snoc:
  "chain f (cs @ [c]) \<Longrightarrow> \<forall>x \<in> set (cs @ [c]). x < CLKS_DISK_FAT32_EOC_MIN \<Longrightarrow> d \<notin> set (cs @ [c]) \<Longrightarrow>
    CLKS_DISK_FAT32_EOC_MIN \<le> g d \<Longrightarrow> g c = d \<Longrightarrow> (\<And>x. x \<in> set cs \<Longrightarrow> x \<noteq> c \<Longrightarrow> g x = f x) \<Longrightarrow> distinct (cs @ [c]) \<Longrightarrow> chain g (cs @ [c, d])"
  by (induction f cs rule: chain.induct) auto

lemma chain_last: "chain f cs \<Longrightarrow> CLKS_DISK_FAT32_EOC_MIN \<le> f (last cs)"
  by (induction f cs rule: chain.induct) auto

lemma chain_unique:
  "chain f (c # xs) \<Longrightarrow> chain f (c # ys) \<Longrightarrow> \<forall>x \<in> set xs \<union> set ys. x < CLKS_DISK_FAT32_EOC_MIN \<Longrightarrow> xs = ys"
proof (induction xs arbitrary: c ys)
  case Nil
  then show ?case by (cases ys) auto
next
  case (Cons x xs)
  then show ?case by (cases ys) auto
qed

lemma chain_distinct: "chain f cs \<Longrightarrow> \<forall>x \<in> set cs. x < CLKS_DISK_FAT32_EOC_MIN \<Longrightarrow> distinct cs"
proof (induction cs)
  case (Cons c cs)
  have "c \<notin> set cs"
  proof
    assume "c \<in> set cs"
    then obtain as bs where e: "cs = as @ c # bs" by (meson split_list)
    have "chain f (c # bs)" using Cons.prems(1) chain_suffix [of f "c # as" c bs] by (simp add: e)
    from chain_unique [OF Cons.prems(1) this] Cons.prems(2) e show False by auto
  qed
  moreover have "distinct cs" using Cons by (cases cs) auto
  ultimately show ?case by simp
qed simp

lemma cluster_bound: "volume_ok s \<Longrightarrow> c \<in> clusters s \<Longrightarrow> c < CLKS_DISK_FAT32_EOC_MIN"
  using volume_okD(9) [of s] by (simp add: clks_disk_cluster_valid_def CLKS_DISK_FAT32_EOC_MIN_def)

lemma cluster_small: "volume_ok s \<Longrightarrow> c \<in> clusters s \<Longrightarrow> c < 2 ^ 28"
  using cluster_bound [of s c] by (simp add: CLKS_DISK_FAT32_EOC_MIN_def)

lemma cluster_entry: "c \<in> clusters s \<Longrightarrow> c < fl_cluster_count (clks_disk_fat32 s) + 2"
  by (simp add: clks_disk_cluster_valid_def)

lemma clusters_eq: "volume_ok s \<Longrightarrow> clusters s = {2..<fl_cluster_count (clks_disk_fat32 s) + 2}"
  using volume_okD(2) [of s] by (auto simp: clks_disk_cluster_valid_def)

lemma clusters_finite [simp]: "finite (clusters s)"
proof (rule finite_subset)
  show "clusters s \<subseteq> {2..<fl_cluster_count (clks_disk_fat32 s) + 2}" by (auto simp: clks_disk_cluster_valid_def)
qed simp

lemma file_chain_distinct: "volume_ok s \<Longrightarrow> file_chain dc s cs \<Longrightarrow> distinct cs"
  using cluster_bound [of s] by (auto simp: file_chain_def intro!: chain_distinct)

lemma file_chain_length:
  assumes "volume_ok s" "file_chain dc s cs"
  shows "length cs \<le> fl_cluster_count (clks_disk_fat32 s)"
proof -
  have "card (set cs) \<le> card (clusters s)" using assms(2) by (intro card_mono) (auto simp: file_chain_def)
  then show ?thesis using file_chain_distinct [OF assms] clusters_eq [OF assms(1)] by (simp add: distinct_card)
qed

lemma next_cluster_spec:
  assumes D: "drive_ok ops dc" and V: "volume_ok s" and c: "c \<in> clusters s" and r: "clks_disk_fat_next_cluster ops c s = (r, s')"
  shows "cache_step s s'" "on_disk dc s' = on_disk dc s" "dc (disk_hw s') = dc (disk_hw s)"
    "r = None \<or> r = Some (fat_entry dc s c, CLKS_DISK_FAT32_EOC_MIN \<le> fat_entry dc s c)"
    "drive_works ops (clks_disk_sector_total s) \<Longrightarrow> r \<noteq> None"
proof -
  obtain q s1 where e: "clks_disk_fat_read_entry ops c s = (q, s1)" by fastforce
  note R = fat_read_spec [OF D V cluster_entry [OF c] e]
  have "s' = s1" "r = map_option (\<lambda>v. (v mod 2 ^ 28, clks_disk_fat_is_eoc v)) q"
    using r by (auto simp: clks_disk_fat_next_cluster_def e split: option.splits)
  then show "cache_step s s'" "on_disk dc s' = on_disk dc s" "dc (disk_hw s') = dc (disk_hw s)"
    "r = None \<or> r = Some (fat_entry dc s c, CLKS_DISK_FAT32_EOC_MIN \<le> fat_entry dc s c)"
    "drive_works ops (clks_disk_sector_total s) \<Longrightarrow> r \<noteq> None"
    using R fat_entry_less [of dc s c] by (auto simp: clks_disk_fat_is_eoc_def)
qed

section \<open>Releasing a chain\<close>

text \<open>The entries that may differ between two states lie in a set.\<close>

definition fat_same_but :: "nat set \<Rightarrow> ('h \<Rightarrow> nat \<Rightarrow> u8) \<Rightarrow> 'h disk_state \<Rightarrow> 'h disk_state \<Rightarrow> bool" where
  "fat_same_but A dc s s' \<longleftrightarrow> outside_fat dc s s' \<and> cache_step s s' \<and>
     (\<forall>c < fl_cluster_count (clks_disk_fat32 s) + 2. c \<notin> A \<longrightarrow> fat_entry dc s' c = fat_entry dc s c)"

lemma fat_same_but_refl [simp]: "fat_same_but A dc s s"
  by (simp add: fat_same_but_def)

lemma fat_same_but_trans: "fat_same_but A dc s s1 \<Longrightarrow> fat_same_but B dc s1 s2 \<Longrightarrow> A \<union> B \<subseteq> C \<Longrightarrow> fat_same_but C dc s s2"
  unfolding fat_same_but_def by (auto intro: outside_fat_trans cache_step_trans simp: outside_fat_fat32) (metis UnCI outside_fat_fat32 subsetD)

lemma fat_same_but_same: "cache_step s s' \<Longrightarrow> on_disk dc s' = on_disk dc s \<Longrightarrow> fat_same_but A dc s s'"
  by (auto simp: fat_same_but_def outside_fat_same intro!: fat_entry_same) (simp add: cache_step_def disk_static_def)

lemma fat_same_but_D:
  assumes "fat_same_but A dc s s'"
  shows "clks_disk_fat32 s' = clks_disk_fat32 s" "clks_disk_sector_total s' = clks_disk_sector_total s" "clusters s' = clusters s"
    "volume_ok s' = volume_ok s" "c \<in> clusters s \<Longrightarrow> c \<notin> A \<Longrightarrow> fat_entry dc s' c = fat_entry dc s c"
    "cluster_bytes dc s' c = cluster_bytes dc s c"
proof -
  have o: "outside_fat dc s s'" using assms by (simp add: fat_same_but_def)
  show "clks_disk_fat32 s' = clks_disk_fat32 s" by (rule outside_fat_fat32 [OF o])
  show "clks_disk_sector_total s' = clks_disk_sector_total s" using o by (simp add: outside_fat_def disk_static_def)
  show "clusters s' = clusters s" unfolding outside_fat_valid [OF o] ..
  show "volume_ok s' = volume_ok s" by (rule outside_fat_volume [OF o])
  show "c \<in> clusters s \<Longrightarrow> c \<notin> A \<Longrightarrow> fat_entry dc s' c = fat_entry dc s c"
    using assms cluster_entry [of c s] unfolding fat_same_but_def by blast
  show "cluster_bytes dc s' c = cluster_bytes dc s c" by (rule outside_fat_cluster [OF o])
qed

lemma file_chain_same:
  assumes "fat_same_but A dc s s'" "set cs \<inter> A = {}"
  shows "file_chain dc s' cs = file_chain dc s cs"
proof -
  have "chain (fat_entry dc s') cs = chain (fat_entry dc s) cs" if "set cs \<subseteq> clusters s"
    using assms(2) that by (intro chain_cong fat_same_but_D(5) [OF assms(1)]) auto
  then show ?thesis using fat_same_but_D(3) [OF assms(1)] by (auto simp: file_chain_def)
qed

lemma chain_bytes_same: "fat_same_but A dc s s' \<Longrightarrow> chain_bytes dc s' cs = chain_bytes dc s cs"
  by (simp add: chain_bytes_def fat_same_but_D(6) cong: map_cong)

lemma write_same_but:
  assumes D: "drive_ok ops dc" and V: "volume_ok s" and c: "c \<in> clusters s" and v: "v < 2 ^ 28"
    and w: "clks_disk_fat_write_entry ops c v s = (ok, s')"
  shows "fat_same_but {c} dc s s'"
  using fat_write_spec [OF D V cluster_entry [OF c] v w] by (simp add: fat_same_but_def)

lemma free_loop_spec:
  assumes "drive_ok ops dc" "volume_ok s" "file_chain dc s (c # cs)" "length cs < n" "s' = free_loop ops n c s"
  shows "fat_same_but (set (c # cs)) dc s s' \<and>
    (\<forall>x \<in> set (c # cs). fat_entry dc s' x = fat_entry dc s x \<or> fat_entry dc s' x = 0) \<and>
    (drive_works ops (clks_disk_sector_total s) \<longrightarrow>
       (\<forall>x \<in> set (c # cs). fat_entry dc s' x = 0) \<and> (coherent dc s \<longrightarrow> coherent dc s'))"
  using assms(2-)
proof (induction cs arbitrary: c n s)
  case Nil
  then obtain m where n: "n = Suc m" by (cases n) auto
  have c: "c \<in> clusters s" using Nil.prems(2) by (simp add: file_chain_def)
  obtain r s1 where r: "clks_disk_fat_next_cluster ops c s = (r, s1)" by fastforce
  note N = next_cluster_spec [OF assms(1) Nil.prems(1) c r]
  obtain ok s2 where w: "clks_disk_fat_write_entry ops c 0 s1 = (ok, s2)" by fastforce
  have same: "fat_same_but {} dc s s1" by (rule fat_same_but_same [OF N(1,2)])
  note q = fat_same_but_D [OF same]
  have c1: "c \<in> clusters s1" and V1: "volume_ok s1" using c q(3,4) Nil.prems(1) by simp_all
  note W = fat_write_spec [OF assms(1) V1 cluster_entry [OF c1] _ w]
  have s': "s' = (if r = None then s1 else s2)"
    using Nil.prems(2,4) c r N(4) w by (auto simp: n file_chain_def CLKS_DISK_FAT32_FREE_CLUSTER_def)
  have e1: "fat_entry dc s1 c = fat_entry dc s c" using q(5) [OF c] by simp
  show ?case
  proof (cases r)
    case None
    then show ?thesis using s' N(5) e1 fat_same_but_same [OF N(1,2)] by auto
  next
    case (Some a)
    then have [simp]: "s' = s2" using s' by simp
    have "fat_same_but {c} dc s s2" using fat_same_but_trans [OF same write_same_but [OF assms(1) V1 c1 _ w]] by simp
    then show ?thesis using W(4-7) e1 q(2) N(1-3) coherent_same [of dc s s1] by auto
  qed
next
  case (Cons d cs)
  then obtain m where n: "n = Suc m" "length cs < m" by (cases n) auto
  have c: "c \<in> clusters s" and d: "d \<in> clusters s" and fc: "fat_entry dc s c = d" using Cons.prems(2) by (auto simp: file_chain_def)
  have dist: "distinct (c # d # cs)" using file_chain_distinct [OF Cons.prems(1,2)] .
  obtain r s1 where r: "clks_disk_fat_next_cluster ops c s = (r, s1)" by fastforce
  note N = next_cluster_spec [OF assms(1) Cons.prems(1) c r]
  obtain ok s2 where w: "clks_disk_fat_write_entry ops c 0 s1 = (ok, s2)" by fastforce
  have same: "fat_same_but {} dc s s1" by (rule fat_same_but_same [OF N(1,2)])
  note q = fat_same_but_D [OF same]
  have c1: "c \<in> clusters s1" and V1: "volume_ok s1" using c q(3,4) Cons.prems(1) by simp_all
  note W = fat_write_spec [OF assms(1) V1 cluster_entry [OF c1] _ w]
  have e1: "fat_entry dc s1 x = fat_entry dc s x" if "x \<in> clusters s" for x using q(5) [OF that] by simp
  have same2: "fat_same_but {c} dc s s2" using fat_same_but_trans [OF same write_same_but [OF assms(1) V1 c1 _ w]] by simp
  note q2 = fat_same_but_D [OF same2]
  have neoc: "\<not> CLKS_DISK_FAT32_EOC_MIN \<le> fat_entry dc s c" using cluster_bound [OF Cons.prems(1) d] fc by simp
  have d2: "clks_disk_cluster_valid d s2" using d q2(3) by blast
  have s': "s' = (if r = None then s1 else free_loop ops m d s2)"
    using Cons.prems(4) c r N(4) w neoc fc d2 by (auto simp: n CLKS_DISK_FAT32_FREE_CLUSTER_def)
  show ?case
  proof (cases r)
    case None
    then show ?thesis using s' N(5) e1 fat_same_but_same [OF N(1,2)] Cons.prems(2) by (auto simp: file_chain_def)
  next
    case (Some a)
    then have s2': "s' = free_loop ops m d s2" using s' by simp
    have ch: "file_chain dc s2 (d # cs)"
      using Cons.prems(2) dist by (subst file_chain_same [OF same2]) (auto simp: file_chain_def)
    have V2: "volume_ok s2" using q2(4) Cons.prems(1) by simp
    note IH = Cons.IH [OF V2 ch n(2) s2']
    have F: "fat_same_but (set (c # d # cs)) dc s s'" by (rule fat_same_but_trans [OF same2 conjunct1 [OF IH]]) auto
    have ec: "fat_entry dc s' c = fat_entry dc s2 c"
      using fat_same_but_D(5) [OF conjunct1 [OF IH], of c] c q2(3) dist by auto
    have et: "fat_entry dc s2 x = fat_entry dc s x" if "x \<in> set (d # cs)" for x
      using q2(5) [of x] that dist Cons.prems(2) by (auto simp: file_chain_def)
    show ?thesis using F IH ec et W(4-7) e1 [OF c] q(2) q2(2) N(1-3) coherent_same [of dc s s1] by auto
  qed
qed

lemma free_chain_spec:
  assumes "drive_ok ops dc" "volume_ok s" "file_chain dc s cs"
  shows "fat_same_but (set cs) dc s (clks_disk_free_chain ops (hd cs) s)"
    "x \<in> set cs \<Longrightarrow> fat_entry dc (clks_disk_free_chain ops (hd cs) s) x = fat_entry dc s x \<or> fat_entry dc (clks_disk_free_chain ops (hd cs) s) x = 0"
    "drive_works ops (clks_disk_sector_total s) \<Longrightarrow> x \<in> set cs \<Longrightarrow> fat_entry dc (clks_disk_free_chain ops (hd cs) s) x = 0"
    "drive_works ops (clks_disk_sector_total s) \<Longrightarrow> coherent dc s \<Longrightarrow> coherent dc (clks_disk_free_chain ops (hd cs) s)"
proof -
  obtain c ds where cs: "cs = c # ds" using assms(3) by (cases cs) (auto simp: file_chain_def)
  have e: "clks_disk_free_chain ops c s = free_loop ops (fl_cluster_count (clks_disk_fat32 s)) c s"
    using assms(3) by (simp add: cs clks_disk_free_chain_def file_chain_def)
  have "length ds < fl_cluster_count (clks_disk_fat32 s)" using file_chain_length [OF assms(2,3)] by (simp add: cs)
  note F = free_loop_spec [OF assms(1,2) assms(3) [unfolded cs] this refl]
  show "fat_same_but (set cs) dc s (clks_disk_free_chain ops (hd cs) s)"
    "x \<in> set cs \<Longrightarrow> fat_entry dc (clks_disk_free_chain ops (hd cs) s) x = fat_entry dc s x \<or> fat_entry dc (clks_disk_free_chain ops (hd cs) s) x = 0"
    "drive_works ops (clks_disk_sector_total s) \<Longrightarrow> x \<in> set cs \<Longrightarrow> fat_entry dc (clks_disk_free_chain ops (hd cs) s) x = 0"
    "drive_works ops (clks_disk_sector_total s) \<Longrightarrow> coherent dc s \<Longrightarrow> coherent dc (clks_disk_free_chain ops (hd cs) s)"
    using F [THEN conjunct1] F [THEN conjunct2, THEN conjunct1] F [THEN conjunct2, THEN conjunct2]
    by (auto simp: cs e simp del: free_loop.simps)
qed

section \<open>Allocating a chain\<close>

lemma free_search_spec:
  assumes "drive_ok ops dc" "volume_ok s" "cluster + n \<le> fl_cluster_count (clks_disk_fat32 s) + 2" "free_search ops n cluster s = (r, s')"
  shows "cache_step s s' \<and> on_disk dc s' = on_disk dc s \<and> dc (disk_hw s') = dc (disk_hw s) \<and>
    (\<forall>c. r = Some (Some c) \<longrightarrow> cluster \<le> c \<and> c < cluster + n \<and> fat_entry dc s c = 0) \<and>
    (drive_works ops (clks_disk_sector_total s) \<longrightarrow> r \<noteq> None) \<and>
    (r = Some None \<longrightarrow> (\<forall>c. cluster \<le> c \<and> c < cluster + n \<longrightarrow> fat_entry dc s c \<noteq> 0))"
  using assms(2-)
proof (induction n arbitrary: cluster s)
  case 0
  then show ?case by auto
next
  case (Suc n)
  obtain q s1 where e: "clks_disk_fat_read_entry ops cluster s = (q, s1)" by fastforce
  have lt: "cluster < fl_cluster_count (clks_disk_fat32 s) + 2" using Suc.prems(2) by simp
  note R = fat_read_spec [OF assms(1) Suc.prems(1) lt e]
  have same: "fat_same_but {} dc s s1" by (rule fat_same_but_same [OF R(1,2)])
  note t = fat_same_but_D [OF same]
  show ?case
  proof (cases q)
    case None
    then have "r = None" "s' = s1" using Suc.prems(3) e by auto
    then show ?thesis using R None by auto
  next
    case (Some v)
    then have v: "v = fat_entry dc s cluster" using R(4) by simp
    show ?thesis
    proof (cases "v = 0")
      case True
      then obtain h where "r = Some (Some cluster)" "s' = s1\<lparr>clks_disk_alloc_hint := h\<rparr>"
        using Suc.prems(3) e Some by (auto simp: CLKS_DISK_FAT32_FREE_CLUSTER_def)
      moreover have "cache_step s1 (s1\<lparr>clks_disk_alloc_hint := h\<rparr>)" "on_disk dc (s1\<lparr>clks_disk_alloc_hint := h\<rparr>) = on_disk dc s1"
        by (auto simp: cache_step_def disk_static_def clks_disk_loaded_test_def on_disk_def fun_eq_iff)
      ultimately show ?thesis using R True v by (auto intro: cache_step_trans)
    next
      case False
      then have r: "free_search ops n (cluster + 1) s1 = (r, s')" using Suc.prems(3) e Some by (simp add: CLKS_DISK_FAT32_FREE_CLUSTER_def)
      have pr: "volume_ok s1" "cluster + 1 + n \<le> fl_cluster_count (clks_disk_fat32 s1) + 2" using Suc.prems(1,2) t(1,4) by simp_all
      have fe: "fat_entry dc s1 x = fat_entry dc s x" for x by (rule fat_entry_same [OF t(1) R(2)])
      note IH = Suc.IH [OF pr r, unfolded fe R(2,3) t(2)]
      have "cache_step s s'" using R(1) IH by (blast intro: cache_step_trans)
      moreover have "fat_entry dc s c \<noteq> 0" if "r = Some None" "cluster \<le> c" "c < cluster + Suc n" for c
        using IH that False v by (cases "c = cluster") auto
      ultimately show ?thesis using IH by auto
    qed
  qed
qed

lemma find_free_spec:
  assumes D: "drive_ok ops dc" and V: "volume_ok s" and r: "clks_disk_find_free_cluster ops s = (r, s')"
  shows "cache_step s s'" "on_disk dc s' = on_disk dc s" "dc (disk_hw s') = dc (disk_hw s)"
    "r = Some c \<Longrightarrow> c \<in> free_clusters dc s"
    "drive_works ops (clks_disk_sector_total s) \<Longrightarrow> r = None \<Longrightarrow> free_clusters dc s = {}"
proof -
  let ?limit = "fl_cluster_count (clks_disk_fat32 s) + 2"
  define start where "start = (if clks_disk_alloc_hint s < 2 \<or> clks_disk_alloc_hint s \<ge> ?limit then 2 else clks_disk_alloc_hint s)"
  have st: "2 \<le> start" "start \<le> ?limit" by (auto simp: start_def)
  obtain q s1 where a: "free_search ops (?limit - start) start s = (q, s1)" by fastforce
  have "start + (?limit - start) \<le> ?limit" using st by simp
  note A = free_search_spec [OF D V this a]
  have same: "fat_same_but {} dc s s1" using A by (intro fat_same_but_same) auto
  note t = fat_same_but_D [OF same]
  obtain q2 s2 where b: "free_search ops (start - 2) 2 s1 = (q2, s2)" by fastforce
  have V1: "volume_ok s1" "2 + (start - 2) \<le> fl_cluster_count (clks_disk_fat32 s1) + 2" using V t(1,4) st by simp_all
  note B = free_search_spec [OF D V1 b]
  have fe: "fat_entry dc s1 x = fat_entry dc s x" for x using A t(1) by (intro fat_entry_same) auto
  have rs: "(r, s') = (case q of None \<Rightarrow> (None, s1) | Some (Some c) \<Rightarrow> (Some c, s1) | Some None \<Rightarrow> (case q2 of None \<Rightarrow> (None, s2) | Some p \<Rightarrow> (p, s2)))"
    using r volume_okD(2) [OF V] a b unfolding clks_disk_find_free_cluster_def Let_def start_def [symmetric] by (auto split: option.splits)
  have cl: "c \<in> clusters s \<longleftrightarrow> 2 \<le> c \<and> c < ?limit" for c using volume_okD(2) [OF V] by (simp add: clks_disk_cluster_valid_def)
  consider "q = None" "r = None" "s' = s1" | c where "q = Some (Some c)" "r = Some c" "s' = s1"
    | "q = Some None" "q2 = None" "r = None" "s' = s2" | p where "q = Some None" "q2 = Some p" "r = p" "s' = s2"
    using rs by (cases q; cases q2) (auto split: option.splits)
  then have "cache_step s s' \<and> on_disk dc s' = on_disk dc s \<and> dc (disk_hw s') = dc (disk_hw s) \<and>
    (\<forall>c. r = Some c \<longrightarrow> c \<in> free_clusters dc s) \<and> (drive_works ops (clks_disk_sector_total s) \<and> r = None \<longrightarrow> free_clusters dc s = {})"
  proof cases
    case (4 p)
    have n: "fat_entry dc s x \<noteq> 0" if "p = None" "x \<in> clusters s" for x
      using A B fe 4 that cl [of x] st by (cases "start \<le> x") auto
    show ?thesis using A B fe 4 st n by (auto simp: free_clusters_def cl [unfolded mem_Collect_eq] intro: cache_step_trans)
  qed (use A B fe st t(2) in \<open>auto simp: free_clusters_def cl [unfolded mem_Collect_eq] intro: cache_step_trans\<close>)
  then show "cache_step s s'" "on_disk dc s' = on_disk dc s" "dc (disk_hw s') = dc (disk_hw s)"
    "r = Some c \<Longrightarrow> c \<in> free_clusters dc s"
    "drive_works ops (clks_disk_sector_total s) \<Longrightarrow> r = None \<Longrightarrow> free_clusters dc s = {}" by blast+
qed

lemma alloc_one_spec:
  assumes D: "drive_ok ops dc" and V: "volume_ok s" and r: "clks_disk_alloc_cluster_no_zero ops s = (r, s')"
  shows "fat_same_but (free_clusters dc s) dc s s'"
    "r = Some c \<Longrightarrow> c \<in> free_clusters dc s \<and> fat_same_but {c} dc s s' \<and> fat_entry dc s' c = CLKS_DISK_FAT32_EOC"
    "r = Some c \<Longrightarrow> coherent dc s \<Longrightarrow> coherent dc s'"
    "drive_works ops (clks_disk_sector_total s) \<Longrightarrow> r = None \<Longrightarrow> free_clusters dc s = {} \<and> fat_same_but {} dc s s' \<and> (coherent dc s \<longrightarrow> coherent dc s')"
proof -
  obtain q s1 where f: "clks_disk_find_free_cluster ops s = (q, s1)" by fastforce
  note F = find_free_spec [OF D V f]
  have same: "fat_same_but {} dc s s1" by (rule fat_same_but_same [OF F(1,2)])
  note t = fat_same_but_D [OF same]
  have co: "coherent dc s \<Longrightarrow> coherent dc s1" using coherent_same [OF _ F(1-3)] .
  have "fat_same_but (free_clusters dc s) dc s s' \<and>
    (\<forall>c. r = Some c \<longrightarrow> c \<in> free_clusters dc s \<and> fat_same_but {c} dc s s' \<and> fat_entry dc s' c = CLKS_DISK_FAT32_EOC \<and> (coherent dc s \<longrightarrow> coherent dc s')) \<and>
    (drive_works ops (clks_disk_sector_total s) \<and> r = None \<longrightarrow> free_clusters dc s = {} \<and> fat_same_but {} dc s s' \<and> (coherent dc s \<longrightarrow> coherent dc s'))"
  proof (cases q)
    case None
    then have "r = None" "s' = s1" using r f by (auto simp: clks_disk_alloc_cluster_no_zero_def)
    then show ?thesis using F(5) None same co fat_same_but_same [OF F(1,2)] by auto
  next
    case (Some c)
    have fc: "c \<in> free_clusters dc s" by (rule F(4) [OF Some])
    then have c1: "c \<in> clusters s1" and V1: "volume_ok s1" using t(3,4) V by (auto simp: free_clusters_def)
    obtain ok s2 where w: "clks_disk_fat_write_entry ops c CLKS_DISK_FAT32_EOC s1 = (ok, s2)" by fastforce
    have v: "CLKS_DISK_FAT32_EOC < 2 ^ 28" by (simp add: CLKS_DISK_FAT32_EOC_def)
    note W = fat_write_spec [OF D V1 cluster_entry [OF c1] v w]
    have rs: "r = (if ok then Some c else None)" "s' = s2"
      using r f Some w by (auto simp: clks_disk_alloc_cluster_no_zero_def split: if_splits)
    have s2: "fat_same_but {c} dc s s2" by (rule fat_same_but_trans [OF same write_same_but [OF D V1 c1 v w]]) simp
    moreover have "fat_same_but (free_clusters dc s) dc s s2" using fat_same_but_trans [OF s2 fat_same_but_refl [of "{}"]] fc by simp
    ultimately show ?thesis using rs fc W(5-7) co t(2) by auto
  qed
  then show "fat_same_but (free_clusters dc s) dc s s'"
    "r = Some c \<Longrightarrow> c \<in> free_clusters dc s \<and> fat_same_but {c} dc s s' \<and> fat_entry dc s' c = CLKS_DISK_FAT32_EOC"
    "r = Some c \<Longrightarrow> coherent dc s \<Longrightarrow> coherent dc s'"
    "drive_works ops (clks_disk_sector_total s) \<Longrightarrow> r = None \<Longrightarrow> free_clusters dc s = {} \<and> fat_same_but {} dc s s' \<and> (coherent dc s \<longrightarrow> coherent dc s')"
    by blast+
qed

lemma free_clusters_but:
  assumes "fat_same_but A dc s s'" "\<And>x. x \<in> A \<Longrightarrow> fat_entry dc s' x \<noteq> 0"
  shows "free_clusters dc s' = free_clusters dc s - A"
proof -
  have "x \<in> free_clusters dc s' \<longleftrightarrow> x \<in> free_clusters dc s - A" for x
    using assms(2) [of x] fat_same_but_D(5) [OF assms(1), of x] fat_same_but_D(3) [OF assms(1)]
    unfolding free_clusters_def by (cases "x \<in> A") auto
  then show ?thesis by blast
qed

lemma chain_extend:
  assumes V: "volume_ok s" and ch: "file_chain dc s cs" and c: "c \<in> clusters s" "c \<notin> set cs"
    and e: "CLKS_DISK_FAT32_EOC_MIN \<le> fat_entry dc s c" and S: "fat_same_but {last cs} dc s s'" and l: "fat_entry dc s' (last cs) = c"
  shows "file_chain dc s' (cs @ [c])"
proof -
  have cs: "cs = butlast cs @ [last cs]" "cs \<noteq> []" using ch by (auto simp: file_chain_def dest: chain_nonempty)
  have sub: "set cs \<subseteq> clusters s" using ch by (simp add: file_chain_def)
  have dist: "distinct (butlast cs @ [last cs])" using file_chain_distinct [OF V ch] cs by simp
  have "chain (fat_entry dc s') (butlast cs @ [last cs, c])"
  proof (rule chain_snoc)
    show "chain (fat_entry dc s) (butlast cs @ [last cs])" using ch cs by (simp add: file_chain_def)
    show "\<forall>x \<in> set (butlast cs @ [last cs]). x < CLKS_DISK_FAT32_EOC_MIN" using sub cs cluster_bound [OF V] by auto
    show "c \<notin> set (butlast cs @ [last cs])" using c(2) cs by simp
    have "c \<notin> {last cs}" using c(2) last_in_set [OF cs(2)] by blast
    then show "CLKS_DISK_FAT32_EOC_MIN \<le> fat_entry dc s' c" using e fat_same_but_D(5) [OF S c(1)] by simp
    show "fat_entry dc s' x = fat_entry dc s x" if "x \<in> set (butlast cs)" "x \<noteq> last cs" for x
      using fat_same_but_D(5) [OF S, of x] that sub in_set_butlastD [OF that(1)] by auto
  qed (use l dist in auto)
  moreover have "butlast cs @ [last cs, c] = cs @ [c]" using cs by (metis append.assoc append_Cons append_Nil)
  ultimately show ?thesis using sub c(1) fat_same_but_D(3) [OF S] by (auto simp: file_chain_def)
qed

text \<open>The loop, with the chain that it has built so far.\<close>

definition built :: "('h \<Rightarrow> nat \<Rightarrow> u8) \<Rightarrow> 'h disk_state \<Rightarrow> nat list \<Rightarrow> nat \<Rightarrow> nat \<Rightarrow> bool" where
  "built dc s cs first prev \<longleftrightarrow> (if cs = [] then first = 0 \<and> prev = 0 else file_chain dc s cs \<and> first = hd cs \<and> prev = last cs)"

lemma cluster_pos: "c \<in> clusters s \<Longrightarrow> c \<noteq> 0"
  by (auto simp: clks_disk_cluster_valid_def)

lemma built_not_free:
  assumes "volume_ok s" "file_chain dc s cs" "x \<in> set cs"
  shows "x \<notin> free_clusters dc s"
proof
  assume "x \<in> free_clusters dc s"
  then have z: "fat_entry dc s x = 0" by (simp add: free_clusters_def)
  obtain as bs where e: "cs = as @ x # bs" using assms(3) by (meson split_list)
  have "chain (fat_entry dc s) (x # bs)" using assms(2) chain_suffix unfolding file_chain_def e by blast
  then show False using z assms(2) cluster_pos [of "hd bs" s] by (cases bs) (auto simp: e file_chain_def CLKS_DISK_FAT32_EOC_MIN_def)
qed

lemma alloc_loop_spec:
  assumes "drive_ok ops dc" "volume_ok s" "built dc s pre first prev" "alloc_loop ops n first prev s = (r, s')"
  shows "fat_same_but (set pre \<union> free_clusters dc s) dc s s' \<and>
    (\<forall>f. r = Some f \<longrightarrow> (\<exists>cs. length cs = n \<and> distinct cs \<and> set cs \<subseteq> free_clusters dc s \<and> built dc s' (pre @ cs) f (if pre @ cs = [] then 0 else last (pre @ cs)) \<and>
       fat_same_but (set pre \<union> set cs) dc s s') \<and> (coherent dc s \<longrightarrow> coherent dc s')) \<and>
    (drive_works ops (clks_disk_sector_total s) \<and> r = None \<longrightarrow>
       card (free_clusters dc s) < n \<and> fat_same_but (set pre) dc s s' \<and> (\<forall>x \<in> set pre. fat_entry dc s' x = 0) \<and> (coherent dc s \<longrightarrow> coherent dc s'))"
  using assms(2-)
proof (induction n arbitrary: pre first prev s)
  case 0
  then show ?case by (auto simp: built_def intro!: exI [of _ "[]"])
next
  case (Suc n)
  obtain q s1 where a: "clks_disk_alloc_cluster_no_zero ops s = (q, s1)" by fastforce
  note A = alloc_one_spec [OF assms(1) Suc.prems(1) a]
  have ffin: "finite (free_clusters dc s)" by (rule finite_subset [of _ "clusters s"]) (auto simp: free_clusters_def)
  have "pre \<noteq> [] \<Longrightarrow> set pre \<subseteq> clusters s" using Suc.prems(2) by (simp add: built_def file_chain_def)
  then have "pre \<noteq> [] \<Longrightarrow> hd pre \<in> clusters s \<and> last pre \<in> clusters s" using hd_in_set last_in_set by blast
  then have pre0: "first = 0 \<longleftrightarrow> pre = []" "prev = 0 \<longleftrightarrow> pre = []"
    using Suc.prems(2) cluster_pos [of "hd pre" s] cluster_pos [of "last pre" s]
    by (auto simp: built_def file_chain_def split: if_splits)
  have prefree: "set pre \<inter> free_clusters dc s = {}"
    using Suc.prems(2) built_not_free [OF Suc.prems(1)] by (auto simp: built_def split: if_splits)
  show ?case
  proof (cases q)
    case None
    have rs: "r = None" "s' = (if pre \<noteq> [] then clks_disk_free_chain ops first s1 else s1)"
      using Suc.prems(3) a None pre0 by (auto simp: CLKS_DISK_INVALID_CLUSTER_def)
    show ?thesis
    proof (cases "pre = []")
      case True
      then show ?thesis using rs A(1,4) None by auto
    next
      case False
      then have pc: "file_chain dc s pre" "first = hd pre" using Suc.prems(2) by (auto simp: built_def)
      have V1: "volume_ok s1" using fat_same_but_D(4) [OF A(1)] Suc.prems(1) by simp
      have pc1: "file_chain dc s1 pre" using file_chain_same [OF A(1) prefree] pc(1) by simp
      note F = free_chain_spec [OF assms(1) V1 pc1]
      have s': "s' = clks_disk_free_chain ops (hd pre) s1" using rs False pc by simp
      have "fat_same_but (set pre \<union> free_clusters dc s) dc s s'" unfolding s' by (rule fat_same_but_trans [OF A(1) F(1)]) auto
      moreover have "fat_same_but (set pre) dc s s' \<and> card (free_clusters dc s) < Suc n \<and> (\<forall>x \<in> set pre. fat_entry dc s' x = 0) \<and> (coherent dc s \<longrightarrow> coherent dc s')"
        if "drive_works ops (clks_disk_sector_total s)"
      proof -
        note A4 = A(4) [OF that None]
        have w1: "drive_works ops (clks_disk_sector_total s1)" using that fat_same_but_D(2) [OF A(1)] by simp
        have "fat_same_but (set pre) dc s s'" unfolding s' using A4 by (intro fat_same_but_trans [OF _ F(1), of "{}"]) auto
        then show ?thesis using A4 F(3,4) [OF w1] by (auto simp: s')
      qed
      ultimately show ?thesis using rs by auto
    qed
  next
    case (Some current)
    note A2 = A(2) [OF Some]
    have cur: "current \<in> clusters s" "current \<in> free_clusters dc s" "current \<notin> set pre" using A2 prefree by (auto simp: free_clusters_def)
    note t = fat_same_but_D [OF conjunct1 [OF conjunct2 [OF A2]]]
    have V1: "volume_ok s1" using t(4) Suc.prems(1) by simp
    have eoc: "CLKS_DISK_FAT32_EOC_MIN \<le> fat_entry dc s1 current" using A2 by (simp add: disk_consts)
    obtain ok s2 where w: "(if prev \<noteq> CLKS_DISK_INVALID_CLUSTER then clks_disk_fat_write_entry ops prev current s1 else (True, s1)) = (ok, s2)" by fastforce
    have pre1: "pre \<noteq> [] \<Longrightarrow> file_chain dc s1 pre \<and> prev = last pre \<and> first = hd pre"
      using Suc.prems(2) file_chain_same [OF conjunct1 [OF conjunct2 [OF A2]], of pre] cur(3) by (auto simp: built_def)
    have W: "fat_same_but (set pre) dc s1 s2 \<and> (ok \<longrightarrow> file_chain dc s2 (pre @ [current])) \<and> (\<not> ok \<longrightarrow> pre \<noteq> [] \<and> (file_chain dc s2 pre \<or> file_chain dc s2 (pre @ [current]))) \<and>
      (ok \<longrightarrow> coherent dc s1 \<longrightarrow> coherent dc s2) \<and> (drive_works ops (clks_disk_sector_total s) \<longrightarrow> ok)"
    proof (cases "pre = []")
      case True
      then have "ok" "s2 = s1" using w pre0 by (auto simp: CLKS_DISK_INVALID_CLUSTER_def)
      then show ?thesis using True eoc cur(1) t(3) by (auto simp: file_chain_def)
    next
      case False
      note p1 = pre1 [OF False]
      have lp0: "last pre \<in> set pre" by (rule last_in_set [OF False])
      moreover have "last pre \<in> clusters s1" using p1 lp0 unfolding file_chain_def by blast
      ultimately have lp: "last pre \<in> set pre" "last pre \<in> clusters s1" by simp_all
      have we: "clks_disk_fat_write_entry ops (last pre) current s1 = (ok, s2)" using w pre0 False p1 by (simp add: CLKS_DISK_INVALID_CLUSTER_def)
      have cv: "current < 2 ^ 28" using cluster_small [OF Suc.prems(1) cur(1)] .
      note Wr = fat_write_spec [OF assms(1) V1 cluster_entry [OF lp(2)] cv we]
      have sb: "fat_same_but {last pre} dc s1 s2" by (rule write_same_but [OF assms(1) V1 lp(2) cv we])
      have ext: "file_chain dc s2 (pre @ [current])" if "fat_entry dc s2 (last pre) = current"
        by (rule chain_extend [OF V1 conjunct1 [OF p1] _ cur(3) eoc sb that]) (use cur(1) t(3) in simp)
      have kept: "file_chain dc s2 pre" if "fat_entry dc s2 (last pre) = fat_entry dc s1 (last pre)"
      proof -
        have "chain (fat_entry dc s2) pre = chain (fat_entry dc s1) pre"
        proof (rule chain_cong)
          fix c assume "c \<in> set pre"
          then show "fat_entry dc s2 c = fat_entry dc s1 c"
            using fat_same_but_D(5) [OF sb, of c] that p1 by (cases "c = last pre") (auto simp: file_chain_def)
        qed
        then show ?thesis using p1 fat_same_but_D(3) [OF sb] by (simp add: file_chain_def)
      qed
      have "fat_same_but (set pre) dc s1 s2" by (rule fat_same_but_trans [OF sb fat_same_but_refl [of "{}"]]) (use lp in simp)
      then show ?thesis using False ext kept Wr(4-7) t(2) by auto
    qed
    have S2: "fat_same_but (set pre \<union> {current}) dc s s2"
      by (rule fat_same_but_trans [OF conjunct1 [OF conjunct2 [OF A2]] conjunct1 [OF W]]) auto
    note t2 = fat_same_but_D [OF S2]
    have V2: "volume_ok s2" using t2(4) Suc.prems(1) by simp
    show ?thesis
    proof (cases ok)
      case False
      have s': "r = None" "s' = clks_disk_free_chain ops first s2" using Suc.prems(3) a Some w False by auto
      have p: "pre \<noteq> []" using W False by blast
      have hd: "first = hd pre" "first = hd (pre @ [current])" using pre1 [OF p] p by simp_all
      obtain cs where cs: "cs = pre \<or> cs = pre @ [current]" "file_chain dc s2 cs" "first = hd cs" using W False hd by blast
      have "fat_same_but (set cs) dc s2 s'" unfolding s'(2) cs(3) by (rule free_chain_spec(1) [OF assms(1) V2 cs(2)])
      then have "fat_same_but (set pre \<union> free_clusters dc s) dc s s'"
        by (rule fat_same_but_trans [OF S2]) (use cs(1) cur(2) in auto)
      then show ?thesis using s' W False by auto
    next
      case True
      have e: "alloc_loop ops n (if first = CLKS_DISK_INVALID_CLUSTER then current else first) current s2 = (r, s')"
        using Suc.prems(3) a Some w True by simp
      have b2: "built dc s2 (pre @ [current]) (if first = CLKS_DISK_INVALID_CLUSTER then current else first) current"
        using W True pre0 pre1 by (auto simp: built_def CLKS_DISK_INVALID_CLUSTER_def)
      note IH = Suc.IH [OF V2 b2 e]
      have ch2: "file_chain dc s2 (pre @ [current])" using W True by simp
      have fr: "free_clusters dc s2 = free_clusters dc s - {current}"
      proof -
        have "fat_entry dc s2 x \<noteq> 0" if "x \<in> set pre \<union> {current}" for x
          using built_not_free [OF V2 ch2, of x] that ch2 by (auto simp: free_clusters_def file_chain_def)
        then have "free_clusters dc s2 = free_clusters dc s - (set pre \<union> {current})" by (rule free_clusters_but [OF S2])
        then show ?thesis using prefree by auto
      qed
      have w2: "drive_works ops (clks_disk_sector_total s2) = drive_works ops (clks_disk_sector_total s)" using t2(2) by simp
      have c2: "coherent dc s \<Longrightarrow> coherent dc s2" using W True A(3) [OF Some] by blast
      have one: "fat_same_but (set pre \<union> free_clusters dc s) dc s s'"
        by (rule fat_same_but_trans [OF S2 conjunct1 [OF IH]]) (use cur(2) fr in auto)
      have two: "\<exists>cs. length cs = Suc n \<and> distinct cs \<and> set cs \<subseteq> free_clusters dc s \<and> built dc s' (pre @ cs) f (if pre @ cs = [] then 0 else last (pre @ cs)) \<and>
          fat_same_but (set pre \<union> set cs) dc s s'" if rf: "r = Some f" for f
      proof -
        obtain cs where cs: "length cs = n" "distinct cs" "set cs \<subseteq> free_clusters dc s2"
          "built dc s' ((pre @ [current]) @ cs) f (if (pre @ [current]) @ cs = [] then 0 else last ((pre @ [current]) @ cs))"
          "fat_same_but (set (pre @ [current]) \<union> set cs) dc s2 s'"
          using IH rf by blast
        have "fat_same_but (set pre \<union> set (current # cs)) dc s s'" by (rule fat_same_but_trans [OF S2 cs(5)]) auto
        then show ?thesis using cs cur(2) fr by (intro exI [of _ "current # cs"]) auto
      qed
      have three: "card (free_clusters dc s) < Suc n \<and> fat_same_but (set pre) dc s s' \<and> (\<forall>x \<in> set pre. fat_entry dc s' x = 0) \<and> (coherent dc s \<longrightarrow> coherent dc s')"
        if "drive_works ops (clks_disk_sector_total s)" "r = None"
      proof -
        have I: "card (free_clusters dc s2) < n" "fat_same_but (set (pre @ [current])) dc s2 s'" "\<forall>x \<in> set (pre @ [current]). fat_entry dc s' x = 0"
          "coherent dc s2 \<longrightarrow> coherent dc s'" using IH that w2 by auto
        have F: "fat_same_but (set pre \<union> {current}) dc s s'" by (rule fat_same_but_trans [OF S2 I(2)]) auto
        have "fat_entry dc s' c = fat_entry dc s c" if "c < fl_cluster_count (clks_disk_fat32 s) + 2" "c \<notin> set pre" for c
          using F I(3) that cur(2) by (cases "c = current") (auto simp: fat_same_but_def free_clusters_def)
        then have "fat_same_but (set pre) dc s s'" using F by (simp add: fat_same_but_def)
        moreover have "card (free_clusters dc s) = Suc (card (free_clusters dc s2))"
          using card.remove [OF ffin cur(2)] fr by simp
        ultimately show ?thesis using I c2 by auto
      qed
      have co: "coherent dc s \<longrightarrow> coherent dc s'" if "r = Some f" for f using IH c2 that by blast
      show ?thesis using one two three co by blast
    qed
  qed
qed

section \<open>Reading and writing the clusters of a chain\<close>

definition cluster_start :: "'h disk_state \<Rightarrow> nat \<Rightarrow> nat" where
  "cluster_start s c = (fl_data_lba (clks_disk_fat32 s) + (c - 2) * fl_sectors_per_cluster (clks_disk_fat32 s)) * 512"

abbreviation cluster_size :: "'h disk_state \<Rightarrow> nat" where
  "cluster_size s \<equiv> fl_cluster_size_bytes (clks_disk_fat32 s)"

lemma cluster_bytes_eq: "cluster_bytes dc s c = get_bytes (on_disk dc s) (cluster_start s c) (cluster_size s)"
  by (simp add: cluster_bytes_def cluster_start_def Let_def)

lemma cluster_bytes_length [simp]: "length (cluster_bytes dc s c) = cluster_size s"
  by (simp add: cluster_bytes_eq)

lemma chain_bytes_Cons: "chain_bytes dc s (c # cs) = cluster_bytes dc s c @ chain_bytes dc s cs"
  by (simp add: chain_bytes_def)

lemma chain_bytes_append: "chain_bytes dc s (cs @ ds) = chain_bytes dc s cs @ chain_bytes dc s ds"
  by (simp add: chain_bytes_def)

lemma chain_bytes_length [simp]: "length (chain_bytes dc s cs) = length cs * cluster_size s"
  by (induction cs) (simp_all add: chain_bytes_def)

lemma cluster_place:
  assumes "volume_ok s" "c \<in> clusters s"
  shows "cluster_start s c + cluster_size s \<le> clks_disk_bytes_len s" "fl_data_lba (clks_disk_fat32 s) * 512 \<le> cluster_start s c"
    "clks_disk_cluster_lba c s = Some (fl_data_lba (clks_disk_fat32 s) + (c - 2) * fl_sectors_per_cluster (clks_disk_fat32 s))"
    "clks_disk_cluster_first_byte_offset c s = Some (cluster_start s c)"
    "fl_data_lba (clks_disk_fat32 s) + (c - 2) * fl_sectors_per_cluster (clks_disk_fat32 s) + fl_sectors_per_cluster (clks_disk_fat32 s) \<le> clks_disk_sector_total s"
    "0 < cluster_size s" "n \<le> cluster_size s \<Longrightarrow> clks_disk_bytes_range_valid (cluster_start s c) n s"
proof -
  let ?l = "clks_disk_fat32 s"
  note v = volume_okD [OF assms(1)]
  have "c - 2 + 1 \<le> fl_cluster_count ?l" using assms(2) by (auto simp: clks_disk_cluster_valid_def)
  then have "(c - 2 + 1) * fl_sectors_per_cluster ?l \<le> fl_cluster_count ?l * fl_sectors_per_cluster ?l" by (rule mult_le_mono1)
  then show t: "fl_data_lba ?l + (c - 2) * fl_sectors_per_cluster ?l + fl_sectors_per_cluster ?l \<le> clks_disk_sector_total s"
    using v(7) by (simp add: algebra_simps)
  have len: "clks_disk_bytes_len s = clks_disk_sector_total s * 512" using v(1) by (simp add: cache_ok_def)
  have "(fl_data_lba ?l + (c - 2) * fl_sectors_per_cluster ?l + fl_sectors_per_cluster ?l) * 512 \<le> clks_disk_sector_total s * 512"
    using t by (rule mult_le_mono1)
  then show le: "cluster_start s c + cluster_size s \<le> clks_disk_bytes_len s" by (simp add: cluster_start_def v(4) len algebra_simps)
  show "fl_data_lba ?l * 512 \<le> cluster_start s c" by (simp add: cluster_start_def)
  show lba: "clks_disk_cluster_lba c s = Some (fl_data_lba ?l + (c - 2) * fl_sectors_per_cluster ?l)"
    using assms(2) t v(3) by (auto simp: clks_disk_cluster_lba_def Let_def)
  show "clks_disk_cluster_first_byte_offset c s = Some (cluster_start s c)"
    by (simp add: clks_disk_cluster_first_byte_offset_def lba cluster_start_def CLKS_DISK_SECTOR_SIZE_def)
  show "0 < cluster_size s" by (simp add: v(3,4))
  show "n \<le> cluster_size s \<Longrightarrow> clks_disk_bytes_range_valid (cluster_start s c) n s"
    using le \<open>0 < cluster_size s\<close> by (auto simp: clks_disk_bytes_range_valid_def)
qed

lemma cluster_apart:
  assumes "volume_ok s" "c \<in> clusters s" "d \<in> clusters s" "c \<noteq> d"
  shows "cluster_start s c + cluster_size s \<le> cluster_start s d \<or> cluster_start s d + cluster_size s \<le> cluster_start s c"
proof -
  have *: "cluster_start s x + cluster_size s \<le> cluster_start s y" if "2 \<le> x" "x < y" for x y
  proof -
    have "(x - 2 + 1) * fl_sectors_per_cluster (clks_disk_fat32 s) \<le> (y - 2) * fl_sectors_per_cluster (clks_disk_fat32 s)"
      using that by (intro mult_le_mono1) simp
    then show ?thesis by (simp add: cluster_start_def volume_okD(4) [OF assms(1)] algebra_simps)
  qed
  have "2 \<le> c" "2 \<le> d" using assms(2,3) by (simp_all add: clks_disk_cluster_valid_def)
  then show ?thesis using * assms(4) by (meson linorder_neqE_nat)
qed

text \<open>What a write of data leaves: every byte outside some clusters.\<close>

definition data_same_but :: "nat set \<Rightarrow> ('h \<Rightarrow> nat \<Rightarrow> u8) \<Rightarrow> 'h disk_state \<Rightarrow> 'h disk_state \<Rightarrow> bool" where
  "data_same_but A dc s s' \<longleftrightarrow> cache_step s s' \<and>
     (\<forall>a. (\<forall>c \<in> A. a < cluster_start s c \<or> cluster_start s c + cluster_size s \<le> a) \<longrightarrow> on_disk dc s' a = on_disk dc s a)"

lemma data_same_but_same: "cache_step s s' \<Longrightarrow> on_disk dc s' = on_disk dc s \<Longrightarrow> data_same_but A dc s s'"
  by (simp add: data_same_but_def)

lemma data_same_but_trans:
  assumes "data_same_but A dc s s1" "data_same_but B dc s1 s2" "A \<union> B \<subseteq> C"
  shows "data_same_but C dc s s2"
proof -
  have "clks_disk_fat32 s1 = clks_disk_fat32 s" using assms(1) by (simp add: data_same_but_def cache_step_def disk_static_def)
  then show ?thesis using assms unfolding data_same_but_def by (auto intro: cache_step_trans simp: cluster_start_def subset_iff)
qed

lemma data_same_but_D:
  assumes "data_same_but A dc s s'" "volume_ok s" "A \<subseteq> clusters s"
  shows "clks_disk_fat32 s' = clks_disk_fat32 s" "clks_disk_sector_total s' = clks_disk_sector_total s" "clusters s' = clusters s" "volume_ok s'"
    "c < fl_cluster_count (clks_disk_fat32 s) + 2 \<Longrightarrow> fat_entry dc s' c = fat_entry dc s c"
    "c \<in> clusters s \<Longrightarrow> c \<notin> A \<Longrightarrow> cluster_bytes dc s' c = cluster_bytes dc s c"
    "cluster_start s' c = cluster_start s c"
proof -
  have st: "disk_static s' = disk_static s" using assms(1) by (simp add: data_same_but_def cache_step_def)
  note q = disk_static_eqs [OF st]
  show "clks_disk_fat32 s' = clks_disk_fat32 s" "clks_disk_sector_total s' = clks_disk_sector_total s" by (rule q(6), rule q(2))
  show "clusters s' = clusters s" unfolding cluster_valid_static [OF st] ..
  show "volume_ok s'" using volume_ok_static [OF st] assms(2) by simp
  show cs: "cluster_start s' c = cluster_start s c" for c by (simp add: cluster_start_def q)
  have low: "on_disk dc s' a = on_disk dc s a" if "a < fl_data_lba (clks_disk_fat32 s) * 512" for a
  proof -
    have "a < cluster_start s x" if "x \<in> A" for x
      using cluster_place(2) [OF assms(2), of x] assms(3) that \<open>a < _\<close> by auto
    then show ?thesis using assms(1) unfolding data_same_but_def by blast
  qed
  show "fat_entry dc s' c = fat_entry dc s c" if "c < fl_cluster_count (clks_disk_fat32 s) + 2"
  proof -
    have "0 < fl_fat_count (clks_disk_fat32 s)" by (rule volume_okD(5) [OF assms(2)])
    note r = fat_copy_range [OF assms(2) that this]
    have "clks_disk_read_u32 (on_disk dc s') (fl_fat_lba (clks_disk_fat32 s) * 512 + c * 4) = clks_disk_read_u32 (on_disk dc s) (fl_fat_lba (clks_disk_fat32 s) * 512 + c * 4)"
      using r by (intro read_u32_cong low) simp
    then show ?thesis by (simp add: fat_entry_def q)
  qed
  show "cluster_bytes dc s' c = cluster_bytes dc s c" if "c \<in> clusters s" "c \<notin> A"
  proof -
    have "on_disk dc s' a = on_disk dc s a" if a: "cluster_start s c \<le> a" "a < cluster_start s c + cluster_size s" for a
    proof -
      have "a < cluster_start s x \<or> cluster_start s x + cluster_size s \<le> a" if "x \<in> A" for x
        using cluster_apart [OF assms(2) \<open>c \<in> clusters s\<close>, of x] assms(3) that \<open>c \<notin> A\<close> a by fastforce
      then show ?thesis using assms(1) unfolding data_same_but_def by blast
    qed
    then show ?thesis by (simp add: cluster_bytes_eq cs q get_bytes_eq_iff)
  qed
qed

lemma data_chain_same:
  assumes "data_same_but A dc s s'" "volume_ok s" "A \<subseteq> clusters s"
  shows "file_chain dc s' cs = file_chain dc s cs" "set cs \<inter> A = {} \<Longrightarrow> file_chain dc s cs \<Longrightarrow> chain_bytes dc s' cs = chain_bytes dc s cs"
proof -
  note d = data_same_but_D [OF assms]
  have "chain (fat_entry dc s') cs = chain (fat_entry dc s) cs" if "set cs \<subseteq> clusters s"
    using that cluster_entry by (intro chain_cong d(5)) blast
  then show "file_chain dc s' cs = file_chain dc s cs" using d(3) by (auto simp: file_chain_def)
  show "set cs \<inter> A = {} \<Longrightarrow> file_chain dc s cs \<Longrightarrow> chain_bytes dc s' cs = chain_bytes dc s cs"
    unfolding chain_bytes_def file_chain_def by (intro arg_cong [where f = concat] map_cong refl d(6)) blast+
qed

text \<open>The write of some bytes inside one cluster; \<open>b\<close> is the cache with the change.\<close>

lemma cluster_write_spec:
  assumes D: "drive_ok ops dc" and V: "volume_ok s" and c: "c \<in> clusters s"
    and b: "\<forall>a. \<not> (cluster_start s c \<le> a \<and> a < cluster_start s c + cluster_size s) \<longrightarrow> b a = clks_disk_bytes s a"
    and w: "clks_disk_sync_sector_range_no_flush ops (fl_data_lba (clks_disk_fat32 s) + (c - 2) * fl_sectors_per_cluster (clks_disk_fat32 s))
        (fl_sectors_per_cluster (clks_disk_fat32 s)) (s\<lparr>clks_disk_bytes := b\<rparr>) = (ok, s')"
  shows "data_same_but {c} dc s s'" "ok \<Longrightarrow> cluster_bytes dc s' c = get_bytes b (cluster_start s c) (cluster_size s)"
    "ok \<Longrightarrow> coherent dc s \<Longrightarrow> coherent dc s'" "drive_works ops (clks_disk_sector_total s) \<Longrightarrow> ok"
proof -
  let ?lba = "fl_data_lba (clks_disk_fat32 s) + (c - 2) * fl_sectors_per_cluster (clks_disk_fat32 s)"
  let ?n = "fl_sectors_per_cluster (clks_disk_fat32 s)"
  have r: "cluster_start s c \<le> a \<and> a < cluster_start s c + cluster_size s \<longleftrightarrow> ?lba \<le> a div 512 \<and> a div 512 < ?lba + ?n" for a
    unfolding sector_range [symmetric] by (simp add: cluster_start_def volume_okD(4) [OF V] algebra_simps)
  note W = write_back_spec [OF D volume_okD(1) [OF V] b [unfolded r] disjI2 [OF w]]
  have st: "disk_static s' = disk_static s" using W(1) by (simp add: cache_step_def)
  show d: "data_same_but {c} dc s s'" unfolding data_same_but_def
  proof (intro conjI allI impI)
    show "cache_step s s'" by (rule W(1))
    fix a assume a: "\<forall>c \<in> {c}. a < cluster_start s c \<or> cluster_start s c + cluster_size s \<le> a"
    have "\<not> (cluster_start s c \<le> a \<and> a < cluster_start s c + cluster_size s)" using a by auto
    then show "on_disk dc s' a = on_disk dc s a" unfolding r by (rule W(2))
  qed
  show "cluster_bytes dc s' c = get_bytes b (cluster_start s c) (cluster_size s)" if ok
  proof -
    have "on_disk dc s' a = b a" if "cluster_start s c \<le> a" "a < cluster_start s c + cluster_size s" for a
      using W(3) [of a] r [of a] that \<open>ok\<close> by blast
    then show ?thesis by (simp add: cluster_bytes_eq cluster_start_def disk_static_eqs(6) [OF st] get_bytes_eq_iff)
  qed
  show "ok \<Longrightarrow> coherent dc s \<Longrightarrow> coherent dc s'" by (rule W(4))
  show "drive_works ops (clks_disk_sector_total s) \<Longrightarrow> ok" using W(5) cluster_place(5) [OF V c] by blast
qed

text \<open>The loops over a chain.\<close>

lemma write_cluster_contents:
  assumes "length xs \<le> n"
  shows "get_bytes (put_bytes p xs (put_bytes p (replicate n 0) m)) p n = xs @ replicate (n - length xs) 0"
  using assms by (intro nth_equalityI) (auto simp: get_bytes_def put_bytes_def nth_append)

lemma write_loop_spec:
  assumes "drive_ok ops dc" "volume_ok s" "file_chain dc s (c # cs)" "length cs < n" "data \<noteq> []" "write_chain_loop ops n c data s = (ok, s')"
  shows "data_same_but (set (c # cs)) dc s s' \<and> (ok \<longrightarrow> take (length data) (chain_bytes dc s' (c # cs)) = data) \<and>
    (ok \<and> coherent dc s \<longrightarrow> coherent dc s') \<and>
    (drive_works ops (clks_disk_sector_total s) \<and> length data \<le> length (c # cs) * cluster_size s \<longrightarrow> ok)"
  using assms(2-)
proof (induction cs arbitrary: c n data s rule: measure_induct_rule [where f = length])
  case (less cs)
  note V = less.prems(1) and ch = less.prems(2) and n = less.prems(3) and ne = less.prems(4) and run = less.prems(5)
  have c: "c \<in> clusters s" and sub: "set (c # cs) \<subseteq> clusters s" using ch by (auto simp: file_chain_def)
  note P = cluster_place [OF V c]
  let ?m = "min (length data) (cluster_size s)"
  let ?b = "put_bytes (cluster_start s c) (take ?m data) (put_bytes (cluster_start s c) (replicate (cluster_size s) 0) (clks_disk_bytes s))"
  obtain k where k: "n = Suc k" "length cs \<le> k" using n by (cases n) auto
  obtain wok s1 where w: "clks_disk_sync_sector_range_no_flush ops (fl_data_lba (clks_disk_fat32 s) + (c - 2) * fl_sectors_per_cluster (clks_disk_fat32 s))
        (fl_sectors_per_cluster (clks_disk_fat32 s)) (s\<lparr>clks_disk_bytes := ?b\<rparr>) = (wok, s1)" by fastforce
  have bo: "\<forall>a. \<not> (cluster_start s c \<le> a \<and> a < cluster_start s c + cluster_size s) \<longrightarrow> ?b a = clks_disk_bytes s a" by (auto simp: put_bytes_def)
  note W = cluster_write_spec [OF assms(1) V c bo w]
  have wc: "cluster_bytes dc s1 c = take ?m data @ replicate (cluster_size s - ?m) 0" if wok
    using W(2) [OF that] write_cluster_contents [of "take ?m data"] by simp
  have off: "(fl_data_lba (clks_disk_fat32 s) + (c - 2) * fl_sectors_per_cluster (clks_disk_fat32 s)) * 512 = cluster_start s c" by (simp add: cluster_start_def)
  have ev: "write_chain_loop ops n c data s = (if \<not> wok then (False, s1) else if drop ?m data = [] then (True, s1)
      else case clks_disk_fat_next_cluster ops c s1 of
              (None, s2) \<Rightarrow> (False, s2)
            | (Some (next_cluster, is_eoc), s2) \<Rightarrow>
                if is_eoc \<or> \<not> clks_disk_cluster_valid next_cluster s2 then (False, s2) else write_chain_loop ops k next_cluster (drop ?m data) s2)"
    using ne c w P(7) [OF order_refl] unfolding k(1) write_chain_loop.simps(2) P(3) option.case Let_def CLKS_DISK_SECTOR_SIZE_def off by simp
  have csub: "{c} \<subseteq> clusters s" using c by simp
  note d1 = data_same_but_D [OF W(1) V csub]
  have full: "data_same_but (set (c # cs)) dc s s1" by (rule data_same_but_trans [OF W(1) data_same_but_same [OF cache_step_refl refl, of "{}"]]) simp
  show ?case
  proof (cases "wok \<and> drop ?m data \<noteq> []")
    case False
    then have rs: "s' = s1" "ok = wok" "ok \<Longrightarrow> drop ?m data = []" using run ev by (auto split: if_splits)
    have "take (length data) (chain_bytes dc s1 (c # cs)) = data" if ok
    proof -
      have "length data \<le> cluster_size s" using rs(3) [OF that] by auto
      then show ?thesis using wc rs(2) that by (simp add: chain_bytes_Cons)
    qed
    then show ?thesis using rs full W(3,4) by auto
  next
    case True
    then have big: "cluster_size s < length data" "?m = cluster_size s" by auto
    obtain r s2 where r: "clks_disk_fat_next_cluster ops c s1 = (r, s2)" by fastforce
    have c1: "c \<in> clusters s1" using c d1(3) by simp
    note N = next_cluster_spec [OF assms(1) d1(4) c1 r]
    have fe: "fat_entry dc s1 c = fat_entry dc s c" by (rule d1(5) [OF cluster_entry [OF c]])
    have S2: "data_same_but {c} dc s s2" by (rule data_same_but_trans [OF W(1) data_same_but_same [OF N(1,2), of "{}"]]) simp
    note d2 = data_same_but_D [OF S2 V csub]
    have co2: "coherent dc s \<Longrightarrow> coherent dc s2" using W(3) True coherent_same [OF _ N(1-3)] by blast
    have full2: "data_same_but (set (c # cs)) dc s s2" by (rule data_same_but_trans [OF S2 data_same_but_same [OF cache_step_refl refl, of "{}"]]) simp
    show ?thesis
    proof (cases "r = None \<or> cs = []")
      case True
      have "CLKS_DISK_FAT32_EOC_MIN \<le> fat_entry dc s c" if "cs = []" using ch that by (simp add: file_chain_def)
      then have "s' = s2" "\<not> ok" using run ev \<open>wok \<and> drop ?m data \<noteq> []\<close> r N(4) True fe by (auto split: if_splits)
      moreover have "r \<noteq> None" if "drive_works ops (clks_disk_sector_total s)" using N(5) that d1(2) by simp
      ultimately show ?thesis using full2 True big by auto
    next
      case False
      then obtain d ds where cs: "cs = d # ds" by (cases cs) auto
      have fd: "fat_entry dc s c = d" and dcl: "d \<in> clusters s" using ch by (auto simp: cs file_chain_def)
      have "\<not> CLKS_DISK_FAT32_EOC_MIN \<le> d" using cluster_bound [OF V dcl] by simp
      then have rv: "r = Some (d, False)" using N(4) False fe fd by auto
      have dv: "clks_disk_cluster_valid d s2" using dcl d2(3) by blast
      have run2: "write_chain_loop ops k d (drop ?m data) s2 = (ok, s')" using run ev True r rv dv by simp
      have ch2: "file_chain dc s2 (d # ds)" unfolding data_chain_same(1) [OF S2 V csub] using ch by (auto simp: file_chain_def cs)
      have kk: "length ds < length cs" "length ds < k" using k(2) by (simp_all add: cs)
      have I: "data_same_but (set cs) dc s2 s' \<and> (ok \<longrightarrow> take (length (drop ?m data)) (chain_bytes dc s' cs) = drop ?m data) \<and> (ok \<and> coherent dc s2 \<longrightarrow> coherent dc s') \<and>
        (drive_works ops (clks_disk_sector_total s2) \<and> length (drop ?m data) \<le> length cs * cluster_size s2 \<longrightarrow> ok)"
        using less.IH [OF kk(1) d2(4) ch2 kk(2) _ run2] True unfolding cs by blast
      have S: "data_same_but (set (c # cs)) dc s s'" by (rule data_same_but_trans [OF S2 conjunct1 [OF I]]) auto
      have cc: "cluster_bytes dc s' c = take ?m data"
      proof -
        have "set cs \<subseteq> clusters s2" using sub d2(3) by auto
        moreover have "c \<notin> set cs" using file_chain_distinct [OF V ch] by simp
        ultimately have "cluster_bytes dc s' c = cluster_bytes dc s2 c" using data_same_but_D(6) [OF conjunct1 [OF I] d2(4)] c d2(3) by auto
        also have "\<dots> = cluster_bytes dc s1 c" by (rule fat_same_but_D(6) [OF fat_same_but_same [OF N(1,2)]])
        finally show ?thesis using wc True big by simp
      qed
      have "take (length data) (chain_bytes dc s' (c # cs)) = data" if ok
      proof -
        have "take (length data - cluster_size s) (chain_bytes dc s' cs) = drop ?m data" using I that big by simp
        then have "take (length data) (chain_bytes dc s' (c # cs)) = take ?m data @ drop ?m data"
          using big by (simp add: chain_bytes_Cons cc)
        then show ?thesis by simp
      qed
      then show ?thesis using S I co2 d2(1,2) big by (auto simp: cs)
    qed
  qed
qed

lemma read_loop_spec:
  assumes "drive_ok ops dc" "volume_ok s" "file_chain dc s (c # cs)" "length cs < n" "length out < len" "read_chain_loop ops len n c out s = (r, s')"
  shows "cache_step s s' \<and> on_disk dc s' = on_disk dc s \<and> dc (disk_hw s') = dc (disk_hw s) \<and>
    (\<forall>bs. r = Some bs \<longrightarrow> bs = out @ take (len - length out) (chain_bytes dc s (c # cs)) \<and> len \<le> length out + length (c # cs) * cluster_size s) \<and>
    (drive_works ops (clks_disk_sector_total s) \<and> len \<le> length out + length (c # cs) * cluster_size s \<longrightarrow> r \<noteq> None)"
  using assms(2-)
proof (induction cs arbitrary: c n out s rule: measure_induct_rule [where f = length])
  case (less cs)
  note V = less.prems(1) and ch = less.prems(2) and n = less.prems(3) and lt = less.prems(4) and run = less.prems(5)
  have c: "c \<in> clusters s" using ch by (simp add: file_chain_def)
  note P = cluster_place [OF V c]
  let ?m = "min (len - length out) (cluster_size s)"
  obtain k where k: "n = Suc k" "length cs \<le> k" using n by (cases n) auto
  obtain lok s1 where l: "clks_disk_ensure_loaded_range ops (cluster_start s c) ?m s = (lok, s1)" by fastforce
  note L = ensure_loaded_spec [OF assms(1) volume_okD(1) [OF V] l]
  have same1: "fat_same_but {} dc s s1" by (rule fat_same_but_same [OF L(1,2)])
  note d1 = fat_same_but_D [OF same1]
  have lw: "lok" if "drive_works ops (clks_disk_sector_total s)" using L(6) [OF that] P(1) by simp
  let ?out = "out @ get_bytes (clks_disk_bytes s1) (cluster_start s c) ?m"
  have gb: "get_bytes (clks_disk_bytes s1) (cluster_start s c) ?m = take ?m (cluster_bytes dc s c)" if lok
    unfolding L(5) [OF that] cluster_bytes_eq by (simp add: get_bytes_def take_map)
  have ev: "read_chain_loop ops len n c out s = (if \<not> lok then (None, s1) else if length ?out \<ge> len then (Some ?out, s1)
      else case clks_disk_fat_next_cluster ops c s1 of
                (None, s2) \<Rightarrow> (None, s2)
              | (Some (next_cluster, is_eoc), s2) \<Rightarrow>
                  if is_eoc \<or> \<not> clks_disk_cluster_valid next_cluster s2 then (None, s2)
                  else read_chain_loop ops len k next_cluster ?out s2)"
    using lt c l P(7) [of ?m] unfolding k(1) read_chain_loop.simps(2) P(4) option.case Let_def by simp
  show ?case
  proof (cases "lok \<and> length ?out < len")
    case False
    then have rs: "s' = s1" "r = (if lok then Some ?out else None)" using run ev by (auto split: if_splits)
    have "len - length out \<le> cluster_size s" if lok using that False lt by auto
    then have "?m = len - length out" if lok using that by simp
    moreover have "take (len - length out) (chain_bytes dc s (c # cs)) = take (len - length out) (cluster_bytes dc s c)" if lok
      using \<open>lok \<Longrightarrow> len - length out \<le> cluster_size s\<close> that by (simp add: chain_bytes_Cons)
    ultimately show ?thesis using rs L(1-3) gb lw \<open>lok \<Longrightarrow> len - length out \<le> cluster_size s\<close> lt by auto
  next
    case True
    then have big: "cluster_size s < len - length out" "?m = cluster_size s" by auto
    obtain q s2 where q: "clks_disk_fat_next_cluster ops c s1 = (q, s2)" by fastforce
    have V1: "volume_ok s1" and c1: "c \<in> clusters s1" using c d1(3,4) V by simp_all
    note N = next_cluster_spec [OF assms(1) V1 c1 q]
    have fe: "fat_entry dc s1 c = fat_entry dc s c" by (rule d1(5) [OF c]) simp
    have st2: "cache_step s s2" "on_disk dc s2 = on_disk dc s" "dc (disk_hw s2) = dc (disk_hw s)"
      using L(1-3) N(1-3) by (auto intro: cache_step_trans)
    have same2: "fat_same_but {} dc s s2" by (rule fat_same_but_same [OF st2(1,2)])
    note d2 = fat_same_but_D [OF same2]
    have out: "?out = out @ cluster_bytes dc s c" using gb True big(2) by simp
    show ?thesis
    proof (cases "q = None \<or> cs = []")
      case True
      have "CLKS_DISK_FAT32_EOC_MIN \<le> fat_entry dc s c" if "cs = []" using ch that by (simp add: file_chain_def)
      then have "s' = s2" "r = None" using run ev \<open>lok \<and> length ?out < len\<close> q N(4) True fe by (auto split: if_splits)
      moreover have "q \<noteq> None" if "drive_works ops (clks_disk_sector_total s)" using N(5) that d1(2) by simp
      ultimately show ?thesis using st2 True big by auto
    next
      case False
      then obtain d ds where cs: "cs = d # ds" by (cases cs) auto
      have fd: "fat_entry dc s c = d" and dcl: "d \<in> clusters s" using ch by (auto simp: cs file_chain_def)
      have "\<not> CLKS_DISK_FAT32_EOC_MIN \<le> d" using cluster_bound [OF V dcl] by simp
      then have qv: "q = Some (d, False)" using N(4) False fe fd by auto
      have dv: "clks_disk_cluster_valid d s2" using dcl d2(3) by blast
      have run2: "read_chain_loop ops len k d (out @ cluster_bytes dc s c) s2 = (r, s')" using run ev True q qv dv out by simp
      have V2: "volume_ok s2" using d2(4) V by simp
      have ch2: "file_chain dc s2 (d # ds)" using ch by (subst file_chain_same [OF same2]) (auto simp: file_chain_def cs)
      have kk: "length ds < length cs" "length ds < k" using k(2) by (simp_all add: cs)
      have o: "length (out @ cluster_bytes dc s c) < len" using big by simp
      note I = less.IH [OF kk(1) V2 ch2 kk(2) o run2, unfolded d2(1,2) st2(2,3) chain_bytes_same [OF same2]]
      have t: "take (len - length out) (chain_bytes dc s (c # cs)) = cluster_bytes dc s c @ take (len - length (out @ cluster_bytes dc s c)) (chain_bytes dc s (d # ds))"
        using big by (simp add: chain_bytes_Cons [of dc s c] cs)
      show ?thesis unfolding t using I cache_step_trans [OF st2(1)] by (auto simp: cs)
    qed
  qed
qed

lemma last_loop_spec:
  assumes "drive_ok ops dc" "volume_ok s" "file_chain dc s (c # cs)" "length cs < n" "last_cluster_loop ops n c s = (r, s')"
  shows "cache_step s s' \<and> on_disk dc s' = on_disk dc s \<and> dc (disk_hw s') = dc (disk_hw s) \<and>
    (r = None \<or> r = Some (last (c # cs))) \<and> (drive_works ops (clks_disk_sector_total s) \<longrightarrow> r \<noteq> None)"
  using assms(2-)
proof (induction cs arbitrary: c n s rule: measure_induct_rule [where f = length])
  case (less cs)
  note V = less.prems(1) and ch = less.prems(2) and n = less.prems(3) and run = less.prems(4)
  have c: "c \<in> clusters s" using ch by (simp add: file_chain_def)
  obtain k where k: "n = Suc k" "length cs \<le> k" using n by (cases n) auto
  obtain q s1 where q: "clks_disk_fat_next_cluster ops c s = (q, s1)" by fastforce
  note N = next_cluster_spec [OF assms(1) V c q]
  show ?case
  proof (cases "q = None \<or> cs = []")
    case True
    have "CLKS_DISK_FAT32_EOC_MIN \<le> fat_entry dc s c" if "cs = []" using ch that by (simp add: file_chain_def)
    then have "s' = s1 \<and> r = (if q = None then None else Some c)" using run c q N(4) True by (auto simp: k(1) split: if_splits)
    then show ?thesis using N True by auto
  next
    case False
    then obtain d ds where cs: "cs = d # ds" by (cases cs) auto
    have fd: "fat_entry dc s c = d" and dcl: "d \<in> clusters s" using ch by (auto simp: cs file_chain_def)
    have "\<not> CLKS_DISK_FAT32_EOC_MIN \<le> d" using cluster_bound [OF V dcl] by simp
    then have qv: "q = Some (d, False)" using N(4) False fd by auto
    have same: "fat_same_but {} dc s s1" by (rule fat_same_but_same [OF N(1,2)])
    note t = fat_same_but_D [OF same]
    have "clks_disk_cluster_valid d s1" using dcl t(3) by blast
    then have run2: "last_cluster_loop ops k d s1 = (r, s')" using run c q qv by (simp add: k(1))
    have V1: "volume_ok s1" using t(4) V by simp
    have ch1: "file_chain dc s1 (d # ds)" using ch by (subst file_chain_same [OF same]) (auto simp: file_chain_def cs)
    have kk: "length ds < length cs" "length ds < k" using k(2) by (simp_all add: cs)
    show ?thesis using less.IH [OF kk(1) V1 ch1 kk(2) run2] N(1-3) t(2) cache_step_trans [OF N(1)] by (auto simp: cs)
  qed
qed

lemma last_cluster_spec:
  assumes "drive_ok ops dc" "volume_ok s" "file_chain dc s cs" "clks_disk_chain_last_cluster ops (hd cs) s = (r, s')"
  shows "cache_step s s'" "on_disk dc s' = on_disk dc s" "dc (disk_hw s') = dc (disk_hw s)" "r = None \<or> r = Some (last cs)"
    "drive_works ops (clks_disk_sector_total s) \<Longrightarrow> r \<noteq> None"
proof -
  obtain c ds where cs: "cs = c # ds" using assms(3) by (cases cs) (auto simp: file_chain_def)
  have "length ds < fl_cluster_count (clks_disk_fat32 s)" using file_chain_length [OF assms(2,3)] by (simp add: cs)
  moreover have "last_cluster_loop ops (fl_cluster_count (clks_disk_fat32 s)) c s = (r, s')"
    using assms(3,4) by (simp add: cs clks_disk_chain_last_cluster_def file_chain_def)
  ultimately have L: "cache_step s s' \<and> on_disk dc s' = on_disk dc s \<and> dc (disk_hw s') = dc (disk_hw s) \<and>
    (r = None \<or> r = Some (last (c # ds))) \<and> (drive_works ops (clks_disk_sector_total s) \<longrightarrow> r \<noteq> None)"
    by (rule last_loop_spec [OF assms(1,2) assms(3) [unfolded cs]])
  then show "cache_step s s'" "on_disk dc s' = on_disk dc s" "dc (disk_hw s') = dc (disk_hw s)" "r = None \<or> r = Some (last cs)"
    "drive_works ops (clks_disk_sector_total s) \<Longrightarrow> r \<noteq> None"
    unfolding cs by blast+
qed

end
