(* ===== verification/Clks_Fat_File.thy ===== *)
theory Clks_Fat_File
  imports Clks_Fat_Chain
begin

text \<open>
  Files on the disk: appending to the clusters of a file, a drive in memory with a small volume on it for the
  examples, and the properties of allocation, release, writing, reading and appending.
\<close>

section \<open>Appending\<close>

text \<open>The entries of the table may differ in one set of clusters, the contents in another.\<close>

definition vol_same :: "nat set \<Rightarrow> nat set \<Rightarrow> ('h \<Rightarrow> nat \<Rightarrow> u8) \<Rightarrow> 'h disk_state \<Rightarrow> 'h disk_state \<Rightarrow> bool" where
  "vol_same A B dc s s' \<longleftrightarrow> cache_step s s' \<and> (\<forall>c \<in> clusters s. c \<notin> A \<longrightarrow> fat_entry dc s' c = fat_entry dc s c) \<and>
     (\<forall>c \<in> clusters s. c \<notin> B \<longrightarrow> cluster_bytes dc s' c = cluster_bytes dc s c)"

lemma vol_same_refl [simp]: "vol_same A B dc s s"
  by (simp add: vol_same_def)

lemma vol_same_D:
  assumes "vol_same A B dc s s'"
  shows "clks_disk_fat32 s' = clks_disk_fat32 s" "clks_disk_sector_total s' = clks_disk_sector_total s" "clusters s' = clusters s"
    "volume_ok s' = volume_ok s" "c \<in> clusters s \<Longrightarrow> c \<notin> A \<Longrightarrow> fat_entry dc s' c = fat_entry dc s c"
    "c \<in> clusters s \<Longrightarrow> c \<notin> B \<Longrightarrow> cluster_bytes dc s' c = cluster_bytes dc s c"
proof -
  have st: "disk_static s' = disk_static s" using assms by (simp add: vol_same_def cache_step_def)
  show "clks_disk_fat32 s' = clks_disk_fat32 s" "clks_disk_sector_total s' = clks_disk_sector_total s"
    by (rule disk_static_eqs(6) [OF st], rule disk_static_eqs(2) [OF st])
  show "clusters s' = clusters s" unfolding cluster_valid_static [OF st] ..
  show "volume_ok s' = volume_ok s" by (rule volume_ok_static [OF st])
  show "c \<in> clusters s \<Longrightarrow> c \<notin> A \<Longrightarrow> fat_entry dc s' c = fat_entry dc s c"
    "c \<in> clusters s \<Longrightarrow> c \<notin> B \<Longrightarrow> cluster_bytes dc s' c = cluster_bytes dc s c"
    using assms by (simp_all add: vol_same_def)
qed

lemma vol_same_trans:
  assumes "vol_same A B dc s s1" "vol_same A' B' dc s1 s2" "A \<union> A' \<subseteq> C" "B \<union> B' \<subseteq> D"
  shows "vol_same C D dc s s2"
proof -
  note d = vol_same_D [OF assms(1)] and e = vol_same_D [OF assms(2)]
  have "cache_step s s2" using assms(1,2) by (auto simp: vol_same_def intro: cache_step_trans)
  moreover have "fat_entry dc s2 c = fat_entry dc s c" if "c \<in> clusters s" "c \<notin> C" for c
  proof -
    have "c \<in> clusters s1" "c \<notin> A" "c \<notin> A'" using that assms(3) d(3) by blast+
    then show ?thesis using d(5) [OF that(1)] e(5) by simp
  qed
  moreover have "cluster_bytes dc s2 c = cluster_bytes dc s c" if "c \<in> clusters s" "c \<notin> D" for c
  proof -
    have "c \<in> clusters s1" "c \<notin> B" "c \<notin> B'" using that assms(4) d(3) by blast+
    then show ?thesis using d(6) [OF that(1)] e(6) by simp
  qed
  ultimately show ?thesis by (simp add: vol_same_def)
qed

lemma vol_same_mono: "vol_same A B dc s s' \<Longrightarrow> A \<subseteq> C \<Longrightarrow> B \<subseteq> D \<Longrightarrow> vol_same C D dc s s'"
  by (rule vol_same_trans [OF _ vol_same_refl [of "{}" "{}"]]) auto

lemma vol_same_fat: "fat_same_but A dc s s' \<Longrightarrow> vol_same A B dc s s'"
  using fat_same_but_D(5,6) [of A dc s s'] by (simp add: vol_same_def fat_same_but_def)

lemma vol_same_data: "data_same_but B dc s s' \<Longrightarrow> volume_ok s \<Longrightarrow> B \<subseteq> clusters s \<Longrightarrow> vol_same A B dc s s'"
  unfolding vol_same_def
proof (intro conjI ballI impI)
  assume p: "data_same_but B dc s s'" "volume_ok s" "B \<subseteq> clusters s"
  show "cache_step s s'" using p(1) by (simp add: data_same_but_def)
  fix c assume c: "c \<in> clusters s"
  show "fat_entry dc s' c = fat_entry dc s c" by (rule data_same_but_D(5) [OF p cluster_entry [OF c]])
  show "cluster_bytes dc s' c = cluster_bytes dc s c" if "c \<notin> B" by (rule data_same_but_D(6) [OF p c that])
qed

lemma vol_same_same: "cache_step s s' \<Longrightarrow> on_disk dc s' = on_disk dc s \<Longrightarrow> vol_same A B dc s s'"
  by (rule vol_same_fat [OF fat_same_but_same])

lemma vol_same_chain:
  assumes "vol_same A B dc s s'"
  shows "set cs \<inter> A = {} \<Longrightarrow> file_chain dc s' cs = file_chain dc s cs"
    "set cs \<inter> B = {} \<Longrightarrow> set cs \<subseteq> clusters s \<Longrightarrow> chain_bytes dc s' cs = chain_bytes dc s cs"
proof -
  show "file_chain dc s' cs = file_chain dc s cs" if "set cs \<inter> A = {}"
  proof -
    have "chain (fat_entry dc s') cs = chain (fat_entry dc s) cs" if "set cs \<subseteq> clusters s"
      using \<open>set cs \<inter> A = {}\<close> that by (intro chain_cong vol_same_D(5) [OF assms]) auto
    then show ?thesis using vol_same_D(3) [OF assms] by (auto simp: file_chain_def)
  qed
  show "set cs \<inter> B = {} \<Longrightarrow> set cs \<subseteq> clusters s \<Longrightarrow> chain_bytes dc s' cs = chain_bytes dc s cs"
    unfolding chain_bytes_def by (intro arg_cong [where f = concat] map_cong refl vol_same_D(6) [OF assms]) auto
qed

text \<open>A free cluster that is taken and put behind the last cluster of a chain.\<close>

lemma link_spec:
  assumes D: "drive_ok ops dc" and V: "volume_ok s" and ch: "file_chain dc s cs"
    and a: "clks_disk_alloc_cluster_no_zero ops s = (Some c, s1)" and w: "clks_disk_fat_write_entry ops (last cs) c s1 = (ok, s2)"
  shows "c \<in> free_clusters dc s" "c \<notin> set cs" "fat_same_but {last cs, c} dc s s2" "CLKS_DISK_FAT32_EOC_MIN \<le> fat_entry dc s2 c"
    "ok \<Longrightarrow> file_chain dc s2 (cs @ [c])" "ok \<Longrightarrow> coherent dc s \<Longrightarrow> coherent dc s2" "drive_works ops (clks_disk_sector_total s) \<Longrightarrow> ok"
    "ok \<Longrightarrow> free_clusters dc s2 = free_clusters dc s - {c}"
proof -
  have A: "c \<in> free_clusters dc s" "fat_same_but {c} dc s s1" "fat_entry dc s1 c = CLKS_DISK_FAT32_EOC" "coherent dc s \<Longrightarrow> coherent dc s1"
    using alloc_one_spec(2,3) [OF D V a refl] by auto
  show cf: "c \<in> free_clusters dc s" by (rule A(1))
  show nc: "c \<notin> set cs" using built_not_free [OF V ch] A(1) by blast
  note t = fat_same_but_D [OF A(2)]
  have c: "c \<in> clusters s" using A(1) by (simp add: free_clusters_def)
  have V1: "volume_ok s1" using V t(4) by simp
  have ch1: "file_chain dc s1 cs" using file_chain_same [OF A(2), of cs] nc ch by simp
  have lin: "last cs \<in> set cs" using ch by (auto simp: file_chain_def dest: chain_nonempty)
  then have lc: "last cs \<in> clusters s" using ch by (auto simp: file_chain_def)
  then have lc1: "last cs \<in> clusters s1" unfolding t(3) .
  have cv: "c < 2 ^ 28" by (rule cluster_small [OF V c])
  note W = fat_write_spec [OF D V1 cluster_entry [OF lc1] cv w]
  have sb: "fat_same_but {last cs} dc s1 s2" by (rule write_same_but [OF D V1 lc1 cv w])
  show S2: "fat_same_but {last cs, c} dc s s2" by (rule fat_same_but_trans [OF A(2) sb]) auto
  have ne: "c \<noteq> last cs" using lin nc by blast
  have c1: "c \<in> clusters s1" using c unfolding t(3) .
  have eoc: "CLKS_DISK_FAT32_EOC_MIN \<le> fat_entry dc s1 c" using A(3) by (simp add: disk_consts)
  show "CLKS_DISK_FAT32_EOC_MIN \<le> fat_entry dc s2 c" using eoc fat_same_but_D(5) [OF sb c1] ne by simp
  show ext: "file_chain dc s2 (cs @ [c])" if ok by (rule chain_extend [OF V1 ch1 c1 nc eoc sb W(5) [OF that]])
  show "ok \<Longrightarrow> coherent dc s \<Longrightarrow> coherent dc s2" using W(6) A(4) by blast
  show "drive_works ops (clks_disk_sector_total s) \<Longrightarrow> ok" using W(7) t(2) by simp
  show "free_clusters dc s2 = free_clusters dc s - {c}" if ok
  proof -
    have V2: "volume_ok s2" using fat_same_but_D(4) [OF S2] V by simp
    have "x \<in> clusters s2" "fat_entry dc s2 x \<noteq> 0" if "x \<in> {last cs, c}" for x
    proof -
      have "x \<in> set (cs @ [c])" using that lin by auto
      then show x: "x \<in> clusters s2" using ext [OF \<open>ok\<close>] by (auto simp: file_chain_def)
      have "x \<notin> free_clusters dc s2" by (rule built_not_free [OF V2 ext [OF \<open>ok\<close>] \<open>x \<in> set (cs @ [c])\<close>])
      then show "fat_entry dc s2 x \<noteq> 0" using x by (simp add: free_clusters_def)
    qed
    then have "free_clusters dc s2 = free_clusters dc s - {last cs, c}" by (intro free_clusters_but [OF S2])
    moreover have "last cs \<notin> free_clusters dc s" by (rule built_not_free [OF V ch lin])
    ultimately show ?thesis by blast
  qed
qed

lemma append_contents:
  assumes "length xs = min (length data) n" "take (length xs) (get_bytes b p n) = take n data" "0 < n"
    and "take (length data - n) ys = drop n data"
  shows "take (length data) (get_bytes b p n @ ys) = data"
proof (cases "length data \<le> n")
  case True
  then show ?thesis using assms by simp
next
  case False
  then have "get_bytes b p n = take n data" using assms(1,2) by simp
  then show ?thesis using False assms(4) by (simp add: append_take_drop_id)
qed

lemma append_loop_spec:
  assumes "drive_ok ops dc" "volume_ok s" "file_chain dc s cs" "append_loop ops (cluster_size s) data (last cs) s = (ok, s')"
  shows "vol_same (insert (last cs) (free_clusters dc s)) (free_clusters dc s) dc s s' \<and>
    (ok \<longrightarrow> (\<exists>ds. file_chain dc s' (cs @ ds) \<and> set ds \<subseteq> free_clusters dc s \<and> take (length data) (chain_bytes dc s' ds) = data) \<and>
       (coherent dc s \<longrightarrow> coherent dc s')) \<and>
    (drive_works ops (clks_disk_sector_total s) \<and> length data \<le> card (free_clusters dc s) * cluster_size s \<longrightarrow> ok)"
  using assms(2-)
proof (induction data arbitrary: cs s rule: measure_induct_rule [where f = length])
  case (less data)
  note V = less.prems(1) and ch = less.prems(2) and run = less.prems(3)
  have cs0: "0 < cluster_size s" by (simp add: volume_okD(3,4) [OF V])
  have ffin: "finite (free_clusters dc s)" by (rule finite_subset [of _ "clusters s"]) (auto simp: free_clusters_def)
  show ?case
  proof (cases "data = []")
    case True
    then have "clks_disk_flush_hw ops s = (ok, s')" using run by (simp add: append_loop.simps [of _ _ "[]"])
    note F = flush_spec [OF assms(1) this]
    have f: "fat_same_but {} dc s s'" by (rule fat_same_but_same [OF F(1,2)])
    have "file_chain dc s' (cs @ [])" using file_chain_same [OF f, of cs] ch by simp
    then show ?thesis using True F(4) vol_same_same [OF F(1,2)] coherent_same [OF _ F(1-3)]
      by (intro conjI impI exI [of _ "[]"]) auto
  next
    case ne: False
    let ?m = "min (length data) (cluster_size s)"
    obtain q s1 where a: "clks_disk_alloc_cluster_no_zero ops s = (q, s1)" by fastforce
    show ?thesis
    proof (cases q)
      case None
      then have rs: "\<not> ok" "s' = s1" using run a ne cs0 by (auto simp: append_loop.simps [of _ _ data] Let_def)
      note A = alloc_one_spec [OF assms(1) V a]
      have "vol_same (insert (last cs) (free_clusters dc s)) (free_clusters dc s) dc s s'"
        unfolding rs(2) by (rule vol_same_mono [OF vol_same_fat [where B = "{}", OF A(1)]]) auto
      moreover have "card (free_clusters dc s) = 0" if "drive_works ops (clks_disk_sector_total s)" using A(4) [OF that None] by simp
      ultimately show ?thesis using rs ne by auto
    next
      case (Some c)
      obtain wok s2 where w: "clks_disk_fat_write_entry ops (last cs) c s1 = (wok, s2)" by fastforce
      note L = link_spec [OF assms(1) V ch a [unfolded Some] w]
      note t = fat_same_but_D [OF L(3)]
      have c: "c \<in> clusters s" using L(1) by (simp add: free_clusters_def)
      then have c2: "c \<in> clusters s2" unfolding t(3) .
      have V2: "volume_ok s2" using V t(4) by simp
      have S2: "vol_same {last cs, c} {} dc s s2" by (rule vol_same_fat [OF L(3)])
      show ?thesis
      proof (cases wok)
        case False
        then have rs: "\<not> ok" "s' = clks_disk_free_chain ops c s2" using run a ne cs0 Some w by (auto simp: append_loop.simps [of _ _ data] Let_def)
        have "file_chain dc s2 [c]" using L(4) c2 by (simp add: file_chain_def)
        note F = free_chain_spec(1) [OF assms(1) V2 this]
        have "vol_same (insert (last cs) (free_clusters dc s)) (free_clusters dc s) dc s s'"
          unfolding rs(2) by (rule vol_same_trans [OF S2 vol_same_fat [where B = "{}", OF F [unfolded list.sel]]]) (use L(1) in auto)
        then show ?thesis using rs L(7) False by auto
      next
        case True
        note P = cluster_place [OF V2 c2]
        define b0 where "b0 = (if ?m < cluster_size s2 then put_bytes (cluster_start s2 c) (replicate (cluster_size s2) 0) (clks_disk_bytes s2) else clks_disk_bytes s2)"
        let ?b = "put_bytes (cluster_start s2 c) (take ?m data) b0"
        obtain sok s3 where sy: "clks_disk_sync_sector_range_no_flush ops (fl_data_lba (clks_disk_fat32 s2) + (c - 2) * fl_sectors_per_cluster (clks_disk_fat32 s2))
          (fl_sectors_per_cluster (clks_disk_fat32 s2)) (s2\<lparr>clks_disk_bytes := ?b\<rparr>) = (sok, s3)" by fastforce
        have bo: "\<forall>x. \<not> (cluster_start s2 c \<le> x \<and> x < cluster_start s2 c + cluster_size s2) \<longrightarrow> ?b x = clks_disk_bytes s2 x"
          using t(1) by (auto simp: put_bytes_def b0_def)
        note W = cluster_write_spec [OF assms(1) V2 c2 bo sy]
        have csub: "{c} \<subseteq> clusters s2" using c2 by simp
        have S3: "vol_same {} {c} dc s2 s3" by (rule vol_same_data [OF W(1) V2 csub])
        have S13: "vol_same {last cs, c} {c} dc s s3" by (rule vol_same_trans [OF S2 S3]) auto
        note t3 = vol_same_D [OF S3] and t13 = vol_same_D [OF S13]
        have off: "(fl_data_lba (clks_disk_fat32 s2) + (c - 2) * fl_sectors_per_cluster (clks_disk_fat32 s2)) * 512 = cluster_start s2 c" by (simp add: cluster_start_def)
        have sz: "cluster_size s2 = cluster_size s" "cluster_size s3 = cluster_size s" using t(1) t13(1) by simp_all
        have rv: "clks_disk_bytes_range_valid (cluster_start s2 c) (cluster_size s) s2" using P(7) [of "cluster_size s"] sz by simp
        have ev: "append_loop ops (cluster_size s) data (last cs) s = (if \<not> sok then (False, s3) else append_loop ops (cluster_size s) (drop ?m data) c s3)"
          unfolding append_loop.simps [of _ _ data] Let_def a Some prod.case option.case w P(3) CLKS_DISK_SECTOR_SIZE_def off
          using sy [unfolded b0_def sz(1)] True ne cs0 rv by simp
        show ?thesis
        proof (cases sok)
          case False
          then have "\<not> ok" "s' = s3" using run ev by auto
          moreover have "vol_same (insert (last cs) (free_clusters dc s)) (free_clusters dc s) dc s s3"
            by (rule vol_same_mono [OF S13]) (use L(1) in auto)
          ultimately show ?thesis using W(4) False t(2) by auto
        next
          case so: True
          have run3: "append_loop ops (cluster_size s3) (drop ?m data) (last (cs @ [c])) s3 = (ok, s')" using run ev so sz by simp
          have V3: "volume_ok s3" using V2 t3(4) by simp
          have ch3: "file_chain dc s3 (cs @ [c])" using vol_same_chain(1) [OF S3, of "cs @ [c]"] L(5) [OF True] by simp
          have lt: "length (drop ?m data) < length data" using ne cs0 by simp
          note I = less.IH [OF lt V3 ch3 run3]
          have fr: "free_clusters dc s3 = free_clusters dc s - {c}"
          proof -
            have "x \<in> free_clusters dc s3 \<longleftrightarrow> x \<in> free_clusters dc s2" for x
              using t3(3) t3(5) [of x] by (auto simp: free_clusters_def)
            then show ?thesis using L(8) [OF True] by blast
          qed
          have S: "vol_same (insert (last cs) (free_clusters dc s)) (free_clusters dc s) dc s s'"
            by (rule vol_same_trans [OF S13 conjunct1 [OF I]]) (use L(1) fr in auto)
          have cb: "cluster_bytes dc s' c = get_bytes ?b (cluster_start s2 c) (cluster_size s)"
          proof -
            have "c \<in> clusters s3" "c \<notin> free_clusters dc s3" using c2 t3(3) fr by blast+
            then have "cluster_bytes dc s' c = cluster_bytes dc s3 c" by (rule vol_same_D(6) [OF conjunct1 [OF I]])
            then show ?thesis using W(2) [OF so] sz by simp
          qed
          have new: "\<exists>ds. file_chain dc s' (cs @ ds) \<and> set ds \<subseteq> free_clusters dc s \<and> take (length data) (chain_bytes dc s' ds) = data" if ok: ok
          proof -
            obtain ds where ds: "file_chain dc s' ((cs @ [c]) @ ds)" "set ds \<subseteq> free_clusters dc s3" "take (length (drop ?m data)) (chain_bytes dc s' ds) = drop ?m data"
              using I ok by blast
            have "take ?m (get_bytes ?b (cluster_start s2 c) (cluster_size s)) = take ?m data"
              by (intro nth_equalityI) (auto simp: get_bytes_def put_bytes_def)
            then have "take (length data) (chain_bytes dc s' (c # ds)) = data"
              unfolding chain_bytes_Cons cb
              using ds(3) cs0 by (intro append_contents [where xs = "take ?m data"]) (auto simp: min_def split: if_splits)
            then show ?thesis using ds(1,2) fr L(1) by (intro exI [of _ "c # ds"]) auto
          qed
          have works: ok if "drive_works ops (clks_disk_sector_total s)" "length data \<le> card (free_clusters dc s) * cluster_size s"
          proof -
            have "card (free_clusters dc s) = Suc (card (free_clusters dc s3))" using card.remove [OF ffin L(1)] fr by simp
            then have "length (drop ?m data) \<le> card (free_clusters dc s3) * cluster_size s3" using that(2) sz by simp
            then show ?thesis using I that(1) t13(2) by simp
          qed
          have co: "coherent dc s \<longrightarrow> coherent dc s'" if ok using I that L(6) [OF True] W(3) [OF so] by blast
          show ?thesis using S new works co by blast
        qed
      qed
    qed
  qed
qed

text \<open>The bytes that are put into the rest of the last cluster; the sector in which the file ends has been loaded.\<close>

lemma append_tail_spec:
  assumes D: "drive_ok ops dc" and V: "volume_ok s" and c: "c \<in> clusters s" and m: "w + m \<le> cluster_size s" "m \<le> length data" "0 < m"
    and r: "append_tail ops c w m data s = (ok, s')"
  shows "data_same_but {c} dc s s'"
    "ok \<Longrightarrow> clks_disk_hw_backed s \<longrightarrow> w mod 512 = 0 \<or> clks_disk_loaded_test ((cluster_start s c + w) div 512) s \<Longrightarrow>
       take (w + m) (cluster_bytes dc s' c) = take w (cluster_bytes dc s c) @ take m data"
    "ok \<Longrightarrow> coherent dc s \<Longrightarrow> coherent dc s'" "drive_works ops (clks_disk_sector_total s) \<Longrightarrow> ok"
    "ok \<Longrightarrow> a div 512 = (cluster_start s c + w) div 512 \<Longrightarrow> a < cluster_start s c + w \<Longrightarrow> on_disk dc s' a = clks_disk_bytes s a"
proof -
  let ?lba = "fl_data_lba (clks_disk_fat32 s) + (c - 2) * fl_sectors_per_cluster (clks_disk_fat32 s)"
  let ?p = "cluster_start s c + w"
  let ?b = "put_bytes ?p (take m data) (clks_disk_bytes s)"
  let ?l = "?lba + w div 512" and ?n = "(w + m + 511) div 512 - w div 512"
  note P = cluster_place [OF V c]
  have st: "cluster_start s c = ?lba * 512" by (simp add: cluster_start_def)
  have "clks_disk_bytes_range_valid ?p m s" using P(1,6) m by (auto simp: clks_disk_bytes_range_valid_def)
  then have sy: "clks_disk_sync_sector_range_no_flush ops ?l ?n (s\<lparr>clks_disk_bytes := ?b\<rparr>) = (ok, s')"
    using r unfolding append_tail_def P(3) option.case Let_def CLKS_DISK_SECTOR_SIZE_def st by simp
  have wn: "w div 512 < (w + m + 511) div 512" using m(3) by simp
  have sec: "(cluster_start s c + x) div 512 = ?lba + x div 512" for x by (simp add: st)
  have inr: "?l \<le> a div 512 \<and> a div 512 < ?l + ?n" if "?p \<le> a" "a < ?p + m" for a
  proof -
    define x where "x = a - cluster_start s c"
    have x: "a = cluster_start s c + x" "w \<le> x" "x < w + m" using that by (auto simp: x_def)
    have "(x + 512) div 512 \<le> (w + m + 511) div 512" using x(3) by (intro div_le_mono) simp
    then have "x div 512 < (w + m + 511) div 512" by simp
    then show ?thesis using sec [of x] div_le_mono [OF x(2), of 512] by (simp add: x(1))
  qed
  have bo: "\<forall>a. \<not> (?l \<le> a div 512 \<and> a div 512 < ?l + ?n) \<longrightarrow> ?b a = clks_disk_bytes s a"
    using inr m(2) by (auto simp: put_bytes_def)
  note W = write_back_spec [OF D volume_okD(1) [OF V] bo disjI2 [OF sy]]
  have le: "(w + m + 511) div 512 \<le> fl_sectors_per_cluster (clks_disk_fat32 s)"
  proof -
    have "w + m \<le> fl_sectors_per_cluster (clks_disk_fat32 s) * 512" using m(1) by (simp add: volume_okD(4) [OF V])
    then have "(w + m + 511) div 512 \<le> (fl_sectors_per_cluster (clks_disk_fat32 s) * 512 + 511) div 512" by (intro div_le_mono) simp
    then show ?thesis by simp
  qed
  show d: "data_same_but {c} dc s s'" unfolding data_same_but_def
  proof (intro conjI allI impI)
    show "cache_step s s'" by (rule W(1))
    fix a assume a: "\<forall>x \<in> {c}. a < cluster_start s x \<or> cluster_start s x + cluster_size s \<le> a"
    have "\<not> (?l \<le> a div 512 \<and> a div 512 < ?l + ?n)"
    proof
      assume q: "?l \<le> a div 512 \<and> a div 512 < ?l + ?n"
      then have "?lba \<le> a div 512 \<and> a div 512 < ?lba + fl_sectors_per_cluster (clks_disk_fat32 s)" using le wn by linarith
      then have "?lba * 512 \<le> a \<and> a < (?lba + fl_sectors_per_cluster (clks_disk_fat32 s)) * 512" unfolding sector_range .
      then show False using a by (auto simp: st volume_okD(4) [OF V] algebra_simps)
    qed
    then show "on_disk dc s' a = on_disk dc s a" by (rule W(2))
  qed
  have "{c} \<subseteq> clusters s" using c by simp
  note dd = data_same_but_D(1,7) [OF d V this]
  show "ok \<Longrightarrow> coherent dc s \<Longrightarrow> coherent dc s'" by (rule W(4))
  show ok if "drive_works ops (clks_disk_sector_total s)"
  proof (rule W(5) [OF that])
    show "?l + ?n \<le> clks_disk_sector_total s" using P(5) le wn by linarith
  qed
  have first: "?l \<le> a div 512 \<and> a div 512 < ?l + ?n" if "a div 512 = ?p div 512" for a
    using that sec [of w] wn by simp
  show keep: "on_disk dc s' a = clks_disk_bytes s a" if "ok" "a div 512 = ?p div 512" "a < ?p" for a
    using W(3) [of a] first [OF that(2)] that by (auto simp: put_bytes_def)
  show "take (w + m) (cluster_bytes dc s' c) = take w (cluster_bytes dc s c) @ take m data"
    if ok "clks_disk_hw_backed s \<longrightarrow> w mod 512 = 0 \<or> clks_disk_loaded_test (?p div 512) s"
  proof -
    have low: "on_disk dc s' a = on_disk dc s a" if a: "cluster_start s c \<le> a" "a < ?p" for a
    proof (cases "a div 512 = ?p div 512")
      case True
      have "w mod 512 \<noteq> 0"
      proof
        assume "w mod 512 = 0"
        then have "?p = (?lba + w div 512) * 512" by (simp add: st algebra_simps) (metis add.commute mod_0_imp_dvd dvd_mult_div_cancel)
        then show False using True a(2) by (simp add: less_mult_imp_div_less)
      qed
      then have "clks_disk_bytes s a = on_disk dc s a" using \<open>clks_disk_hw_backed s \<longrightarrow> _\<close> True by (simp add: on_disk_def)
      then show ?thesis using keep [OF \<open>ok\<close> True a(2)] by simp
    next
      case False
      have "a div 512 \<le> ?p div 512" using a(2) by (intro div_le_mono) simp
      then have "\<not> ?l \<le> a div 512" using False sec [of w] by simp
      then show ?thesis by (intro W(2)) blast
    qed
    have new: "on_disk dc s' a = data ! (a - ?p)" if a: "?p \<le> a" "a < ?p + m" for a
      using W(3) [of a] inr [OF a] a m(2) \<open>ok\<close> by (auto simp: put_bytes_def)
    show ?thesis
    proof (rule nth_equalityI)
      show "length (take (w + m) (cluster_bytes dc s' c)) = length (take w (cluster_bytes dc s c) @ take m data)" using m dd by simp
      fix i assume "i < length (take (w + m) (cluster_bytes dc s' c))"
      then have i: "i < w + m" "i < cluster_size s" using m(1) by auto
      have "take (w + m) (cluster_bytes dc s' c) ! i = on_disk dc s' (cluster_start s c + i)"
        using i dd by (simp add: cluster_bytes_eq get_bytes_def)
      also have "\<dots> = (take w (cluster_bytes dc s c) @ take m data) ! i"
      proof (cases "i < w")
        case True
        then show ?thesis using low [of "cluster_start s c + i"] i m(1) by (simp add: nth_append cluster_bytes_eq get_bytes_def)
      next
        case False
        then show ?thesis using new [of "cluster_start s c + i"] i m by (auto simp: nth_append)
      qed
      finally show "take (w + m) (cluster_bytes dc s' c) ! i = (take w (cluster_bytes dc s c) @ take m data) ! i" .
    qed
  qed
qed

section \<open>Files\<close>

lemma last_in_chain: "file_chain dc s cs \<Longrightarrow> last cs \<in> set cs \<and> last cs \<in> clusters s"
  using chain_nonempty [of "fat_entry dc s" cs] last_in_set [of cs] unfolding file_chain_def by blast

lemma write_file_spec:
  assumes D: "drive_ok ops dc" and V: "volume_ok s" and ch: "file_chain dc s cs" and w: "clks_disk_write_file_chain ops (hd cs) data s = (ok, s')"
  shows "data_same_but (set cs) dc s s'" "ok \<Longrightarrow> take (length data) (chain_bytes dc s' cs) = data" "ok \<Longrightarrow> coherent dc s \<Longrightarrow> coherent dc s'"
    "drive_works ops (clks_disk_sector_total s) \<Longrightarrow> length data \<le> length cs * cluster_size s \<Longrightarrow> ok"
proof -
  obtain c ds where cs: "cs = c # ds" using ch by (cases cs) (auto simp: file_chain_def)
  have n: "length ds < fl_cluster_count (clks_disk_fat32 s)" using file_chain_length [OF V ch] by (simp add: cs)
  have "data_same_but (set cs) dc s s' \<and> (ok \<longrightarrow> take (length data) (chain_bytes dc s' cs) = data) \<and> (ok \<and> coherent dc s \<longrightarrow> coherent dc s') \<and>
    (drive_works ops (clks_disk_sector_total s) \<and> length data \<le> length cs * cluster_size s \<longrightarrow> ok)"
  proof (cases "data = []")
    case True
    then show ?thesis using w data_same_but_same [OF cache_step_refl refl] by (simp add: clks_disk_write_file_chain_def)
  next
    case False
    then have "write_chain_loop ops (fl_cluster_count (clks_disk_fat32 s)) c data s = (ok, s')"
      using w ch by (simp add: clks_disk_write_file_chain_def cs file_chain_def)
    from write_loop_spec [OF D V ch [unfolded cs] n False this] show ?thesis unfolding cs .
  qed
  then show "data_same_but (set cs) dc s s'" "ok \<Longrightarrow> take (length data) (chain_bytes dc s' cs) = data" "ok \<Longrightarrow> coherent dc s \<Longrightarrow> coherent dc s'"
    "drive_works ops (clks_disk_sector_total s) \<Longrightarrow> length data \<le> length cs * cluster_size s \<Longrightarrow> ok" by blast+
qed

lemma read_file_spec:
  assumes D: "drive_ok ops dc" and V: "volume_ok s" and ch: "file_chain dc s cs" and r: "clks_disk_read_file_chain ops (hd cs) n s = (r, s')"
  shows "cache_step s s'" "on_disk dc s' = on_disk dc s" "dc (disk_hw s') = dc (disk_hw s)"
    "r = Some bs \<Longrightarrow> bs = take n (chain_bytes dc s cs) \<and> n \<le> length cs * cluster_size s"
    "drive_works ops (clks_disk_sector_total s) \<Longrightarrow> n \<le> length cs * cluster_size s \<Longrightarrow> r \<noteq> None"
proof -
  obtain c ds where cs: "cs = c # ds" using ch by (cases cs) (auto simp: file_chain_def)
  have l: "length ds < fl_cluster_count (clks_disk_fat32 s)" using file_chain_length [OF V ch] by (simp add: cs)
  have "cache_step s s' \<and> on_disk dc s' = on_disk dc s \<and> dc (disk_hw s') = dc (disk_hw s) \<and>
    (\<forall>bs. r = Some bs \<longrightarrow> bs = [] @ take (n - length ([] :: u8 list)) (chain_bytes dc s cs) \<and> n \<le> length ([] :: u8 list) + length cs * cluster_size s) \<and>
    (drive_works ops (clks_disk_sector_total s) \<and> n \<le> length ([] :: u8 list) + length cs * cluster_size s \<longrightarrow> r \<noteq> None)"
  proof (cases "n = 0")
    case True
    then show ?thesis using r by (auto simp: clks_disk_read_file_chain_def)
  next
    case False
    then have "read_chain_loop ops n (fl_cluster_count (clks_disk_fat32 s)) c [] s = (r, s')" "length ([] :: u8 list) < n"
      using r ch by (simp_all add: clks_disk_read_file_chain_def cs file_chain_def)
    from read_loop_spec [OF D V ch [unfolded cs] l this(2,1)] show ?thesis unfolding cs .
  qed
  then show "cache_step s s'" "on_disk dc s' = on_disk dc s" "dc (disk_hw s') = dc (disk_hw s)"
    "r = Some bs \<Longrightarrow> bs = take n (chain_bytes dc s cs) \<and> n \<le> length cs * cluster_size s"
    "drive_works ops (clks_disk_sector_total s) \<Longrightarrow> n \<le> length cs * cluster_size s \<Longrightarrow> r \<noteq> None" by auto
qed

lemma alloc_chain_spec:
  assumes D: "drive_ok ops dc" and V: "volume_ok s" and n: "0 < n" and r: "clks_disk_alloc_chain ops n s = (r, s')"
  shows "fat_same_but (free_clusters dc s) dc s s'"
    "r = Some f \<Longrightarrow> \<exists>cs. length cs = n \<and> hd cs = f \<and> file_chain dc s' cs \<and> set cs \<subseteq> free_clusters dc s \<and>
       free_clusters dc s' = free_clusters dc s - set cs \<and> fat_same_but (set cs) dc s s'"
    "r = Some f \<Longrightarrow> coherent dc s \<Longrightarrow> coherent dc s'"
    "drive_works ops (clks_disk_sector_total s) \<Longrightarrow> (r = None \<longleftrightarrow> card (free_clusters dc s) < n) \<and> (r = None \<longrightarrow> fat_same_but {} dc s s')"
proof -
  have l: "alloc_loop ops n 0 0 s = (r, s')" using r n by (simp add: clks_disk_alloc_chain_def CLKS_DISK_INVALID_CLUSTER_def)
  have b: "built dc s [] 0 0" by (simp add: built_def)
  note A = alloc_loop_spec [OF D V b l]
  show "fat_same_but (free_clusters dc s) dc s s'" using A by simp
  show co: "r = Some f \<Longrightarrow> coherent dc s \<Longrightarrow> coherent dc s'" for f using A by blast
  show some: "\<exists>cs. length cs = n \<and> hd cs = f \<and> file_chain dc s' cs \<and> set cs \<subseteq> free_clusters dc s \<and>
       free_clusters dc s' = free_clusters dc s - set cs \<and> fat_same_but (set cs) dc s s'" if rf: "r = Some f" for f
  proof -
    obtain cs where cs: "length cs = n" "set cs \<subseteq> free_clusters dc s" "built dc s' ([] @ cs) f (if [] @ cs = [] then 0 else last ([] @ cs))"
      "fat_same_but (set [] \<union> set cs) dc s s'" using A rf by blast
    have ch: "file_chain dc s' cs" "hd cs = f" using cs(1,3) n by (auto simp: built_def split: if_splits)
    have V': "volume_ok s'" using fat_same_but_D(4) [OF cs(4)] V by simp
    have "fat_entry dc s' x \<noteq> 0" if "x \<in> set cs" for x
      using built_not_free [OF V' ch(1) that] ch(1) that by (auto simp: free_clusters_def file_chain_def)
    then have "free_clusters dc s' = free_clusters dc s - set cs" using free_clusters_but [of "set cs" dc s s'] cs(4) by simp
    then show ?thesis using cs(1,2,4) ch by auto
  qed
  show "(r = None \<longleftrightarrow> card (free_clusters dc s) < n) \<and> (r = None \<longrightarrow> fat_same_but {} dc s s')" if w: "drive_works ops (clks_disk_sector_total s)"
  proof -
    have "n \<le> card (free_clusters dc s)" if rf: "r = Some f" for f
    proof -
      obtain cs where cs: "length cs = n" "distinct cs" "set cs \<subseteq> free_clusters dc s" using A rf by blast
      have "finite (free_clusters dc s)" by (rule finite_subset [of _ "clusters s"]) (auto simp: free_clusters_def)
      from card_mono [OF this cs(3)] show ?thesis using cs(1,2) by (simp add: distinct_card)
    qed
    then show ?thesis using A w by (cases r) (auto simp: not_less)
  qed
qed

lemma append_pieces:
  assumes "length B = N" "length C = n" "length C' = n" "e \<le> n" "m = min (length data) (n - e)"
    and "take (e + m) C' = take e C @ take m data" "take (length data - m) D = drop m data"
  shows "take (N + e + length data) (B @ C' @ D) = take (N + e) (B @ C) @ data"
proof (cases "length data \<le> n - e")
  case True
  then have "take (e + length data) C' = take e C @ data" using assms(5,6) by simp
  then show ?thesis using True assms(1-4) by (simp add: add.assoc)
next
  case False
  then have m: "m = n - e" "e + m = n" using assms(4,5) by auto
  have "C' = take e C @ take m data" using assms(3,6) m(2) by simp
  moreover have "take (length data + e - n) D = drop m data"
  proof -
    have "length data + e - n = length data - m" using m(1) assms(4) by linarith
    then show ?thesis using assms(7) by simp
  qed
  ultimately show ?thesis using assms(1-4) False m by (simp add: add.assoc add.commute [of e])
qed

text \<open>The copy into the rest of the last cluster, or no copy when the file fills it.\<close>

lemma append_first_spec:
  assumes D: "drive_ok ops dc" and V: "volume_ok s" and c: "c \<in> clusters s" and e: "0 < e" "e \<le> cluster_size s" and ne: "data \<noteq> []"
    and l: "clks_disk_hw_backed s \<longrightarrow> e mod 512 = 0 \<or> clks_disk_loaded_test ((cluster_start s c + e) div 512) s"
    and r: "(if e mod cluster_size s = 0 then (True, s) else append_tail ops c (e mod cluster_size s) (min (length data) (cluster_size s - e)) data s) = (ok, s')"
  shows "vol_same {} {c} dc s s'"
    "ok \<Longrightarrow> take (e + min (length data) (cluster_size s - e)) (cluster_bytes dc s' c) =
       take e (cluster_bytes dc s c) @ take (min (length data) (cluster_size s - e)) data"
    "ok \<Longrightarrow> coherent dc s \<Longrightarrow> coherent dc s'" "drive_works ops (clks_disk_sector_total s) \<Longrightarrow> ok"
proof -
  let ?m = "min (length data) (cluster_size s - e)"
  have "vol_same {} {c} dc s s' \<and> (ok \<longrightarrow> take (e + ?m) (cluster_bytes dc s' c) = take e (cluster_bytes dc s c) @ take ?m data) \<and>
    (ok \<longrightarrow> coherent dc s \<longrightarrow> coherent dc s') \<and> (drive_works ops (clks_disk_sector_total s) \<longrightarrow> ok)"
  proof (cases "e = cluster_size s")
    case True
    then show ?thesis using r by simp
  next
    case False
    then have lt: "e < cluster_size s" and mod: "e mod cluster_size s = e" using e by auto
    have m: "e + ?m \<le> cluster_size s" "?m \<le> length data" "0 < ?m" using lt ne by auto
    have a: "append_tail ops c e ?m data s = (ok, s')" using r mod e(1) by simp
    have "{c} \<subseteq> clusters s" using c by simp
    then show ?thesis using append_tail_spec(1,3,4) [OF D V c m a] append_tail_spec(2) [OF D V c m a _ l] vol_same_data [OF _ V] by blast
  qed
  then show "vol_same {} {c} dc s s'" "ok \<Longrightarrow> coherent dc s \<Longrightarrow> coherent dc s'" "drive_works ops (clks_disk_sector_total s) \<Longrightarrow> ok"
    "ok \<Longrightarrow> take (e + ?m) (cluster_bytes dc s' c) = take e (cluster_bytes dc s c) @ take ?m data" by blast+
qed

lemma append_file_spec:
  assumes D: "drive_ok ops dc" and V: "volume_ok s" and ch: "file_chain dc s cs"
    and old: "(length cs - 1) * cluster_size s < old" "old \<le> length cs * cluster_size s"
    and l: "clks_disk_hw_backed s \<longrightarrow> old mod 512 = 0 \<or> clks_disk_loaded_test ((cluster_start s (last cs) + old mod cluster_size s) div 512) s"
    and r: "clks_disk_append_file_chain ops (hd cs) old data s = (r, s')"
  shows "vol_same (insert (last cs) (free_clusters dc s)) (insert (last cs) (free_clusters dc s)) dc s s' \<and>
    (\<forall>f. r = Some f \<longrightarrow> f = hd cs \<and> (\<exists>ds. file_chain dc s' (cs @ ds) \<and> set ds \<subseteq> free_clusters dc s \<and>
       take (old + length data) (chain_bytes dc s' (cs @ ds)) = take old (chain_bytes dc s cs) @ data) \<and> (coherent dc s \<longrightarrow> coherent dc s')) \<and>
    (drive_works ops (clks_disk_sector_total s) \<and> length data \<le> card (free_clusters dc s) * cluster_size s \<longrightarrow> r \<noteq> None)"
proof (cases "data = []")
  case True
  then have "r = Some (hd cs)" "s' = s" using r by (auto simp: clks_disk_append_file_chain_def Let_def)
  then show ?thesis using ch True by (intro conjI allI impI exI [of _ "[]"]) (auto simp: chain_bytes_append)
next
  case ne: False
  let ?n = "cluster_size s" and ?c = "last cs"
  define e where "e = old - (length cs - 1) * ?n"
  have cs: "cs = butlast cs @ [?c]" using ch by (auto simp: file_chain_def dest: chain_nonempty)
  have lcs: "length (butlast cs) = length cs - 1" "length cs = Suc (length cs - 1)" using ch by (auto simp: file_chain_def dest: chain_nonempty)
  have "length cs * ?n = (length cs - 1) * ?n + ?n" by (subst lcs(2)) simp
  then have e: "old = length (butlast cs) * ?n + e" "0 < e" "e \<le> ?n" using old by (simp_all add: e_def)
  have n0: "0 < ?n" using e by simp
  have w: "old mod ?n = e mod ?n" using e(1) by simp
  note c = last_in_chain [OF ch]
  have hv: "clks_disk_cluster_valid (hd cs) s" using ch by (cases cs) (auto simp: file_chain_def)
  obtain q s1 where lc: "clks_disk_chain_last_cluster ops (hd cs) s = (q, s1)" by fastforce
  note L = last_cluster_spec [OF D V ch lc]
  have same: "fat_same_but {} dc s s1" by (rule fat_same_but_same [OF L(1,2)])
  note t = fat_same_but_D [OF same]
  have V1: "volume_ok s1" and c1: "?c \<in> clusters s1" using V t(3,4) c by simp_all
  show ?thesis
  proof (cases q)
    case None
    then have "r = None" "s' = s1" using r ne n0 hv lc by (auto simp: clks_disk_append_file_chain_def Let_def)
    then show ?thesis using None L(5) vol_same_same [OF L(1,2)] by auto
  next
    case (Some x)
    then have q: "q = Some ?c" using L(4) by simp
    let ?m = "min (length data) (?n - e)"
    obtain ok2 s2 where a: "(if e mod ?n = 0 then (True, s1) else append_tail ops ?c (e mod ?n) ?m data s1) = (ok2, s2)" by fastforce
    have m: "(if e mod ?n = 0 then 0 else min (length data) (?n - e mod ?n)) = ?m"
      using e(2,3) by (cases "e = ?n") auto
    obtain ok3 s3 where b: "append_loop ops ?n (drop ?m data) ?c s2 = (ok3, s3)" by fastforce
    have ev: "r = (if ok2 \<and> ok3 then Some (hd cs) else None)" "s' = (if ok2 then s3 else s2)"
    proof -
      have "(r, s') = (if \<not> ok2 then (None, s2) else (if ok3 then Some (hd cs) else None, s3))"
        using r ne n0 hv unfolding clks_disk_append_file_chain_def Let_def lc prod.case q option.case w m a b by simp
      then show "r = (if ok2 \<and> ok3 then Some (hd cs) else None)" "s' = (if ok2 then s3 else s2)" by (auto split: if_splits)
    qed
    have sz: "cluster_size s1 = ?n" by (simp add: t(1))
    have l1: "clks_disk_hw_backed s1 \<longrightarrow> e mod 512 = 0 \<or> clks_disk_loaded_test ((cluster_start s1 ?c + e) div 512) s1"
    proof -
      have dv: "512 dvd ?n" by (simp add: volume_okD(4) [OF V])
      show ?thesis
      proof (cases "e mod 512 = 0")
        case False
        then have "e \<noteq> ?n" using dv by auto
        then have em: "old mod ?n = e" using w e(3) by simp
        have "old mod 512 = e mod 512" using dv em by (metis mod_mod_cancel)
        then have "clks_disk_hw_backed s \<longrightarrow> clks_disk_loaded_test ((cluster_start s ?c + e) div 512) s" using l em False by simp
        then show ?thesis using L(1) t(1) by (auto simp: cluster_start_def cache_step_def disk_static_def)
      qed simp
    qed
    note A = append_first_spec [OF D V1 c1 e(2) _ ne l1, unfolded sz, OF e(3) a]
    have S2: "vol_same {} {?c} dc s s2" by (rule vol_same_trans [OF vol_same_same [OF L(1,2), of "{}" "{}"] A(1)]) auto
    note t2 = vol_same_D [OF S2]
    have fr: "free_clusters dc s2 = free_clusters dc s"
      using t2(3) t2(5) by (auto simp: free_clusters_def)
    show ?thesis
    proof (cases ok2)
      case False
      then show ?thesis using ev A(4) t(2) vol_same_mono [OF S2] by auto
    next
      case True
      have V2: "volume_ok s2" and ch2: "file_chain dc s2 cs" using t2(4) V vol_same_chain(1) [OF S2, of cs] ch by simp_all
      have b2: "append_loop ops (cluster_size s2) (drop ?m data) ?c s2 = (ok3, s')" using b ev True t2(1) by simp
      note I = append_loop_spec [OF D V2 ch2 b2, unfolded fr t2(1,2)]
      have S: "vol_same (insert ?c (free_clusters dc s)) (insert ?c (free_clusters dc s)) dc s s'"
        by (rule vol_same_trans [OF S2 conjunct1 [OF I]]) auto
      have cf: "set cs \<inter> free_clusters dc s = {}" using built_not_free [OF V ch] by blast
      have cb: "chain_bytes dc s' (butlast cs) = chain_bytes dc s (butlast cs)"
      proof (rule vol_same_chain(2) [OF S])
        have "?c \<notin> set (butlast cs)" using file_chain_distinct [OF V ch] cs by (metis distinct_append not_distinct_conv_prefix)
        then show "set (butlast cs) \<inter> insert ?c (free_clusters dc s) = {}" using cf in_set_butlastD by fastforce
        show "set (butlast cs) \<subseteq> clusters s" using ch in_set_butlastD unfolding file_chain_def by fastforce
      qed
      have cl: "cluster_bytes dc s' ?c = cluster_bytes dc s2 ?c"
        by (rule vol_same_D(6) [OF conjunct1 [OF I]]) (use c t2(3) cf in auto)
      have new: "\<exists>ds. file_chain dc s' (cs @ ds) \<and> set ds \<subseteq> free_clusters dc s \<and>
         take (old + length data) (chain_bytes dc s' (cs @ ds)) = take old (chain_bytes dc s cs) @ data" if o: ok3
      proof -
        obtain ds where ds: "file_chain dc s' (cs @ ds)" "set ds \<subseteq> free_clusters dc s" "take (length (drop ?m data)) (chain_bytes dc s' ds) = drop ?m data"
          using I o by blast
        have x: "cluster_bytes dc s1 ?c = cluster_bytes dc s ?c" by (rule t(6))
        have "take (length (butlast cs) * ?n + e + length data) (chain_bytes dc s (butlast cs) @ cluster_bytes dc s' ?c @ chain_bytes dc s' ds) =
          take (length (butlast cs) * ?n + e) (chain_bytes dc s (butlast cs) @ cluster_bytes dc s ?c) @ data"
          using A(2) [OF True] ds(3) e(3) vol_same_D(1) [OF S] by (intro append_pieces [where m = ?m]) (simp_all add: cl x t2(1))
        moreover have "chain_bytes dc s' (cs @ ds) = chain_bytes dc s (butlast cs) @ cluster_bytes dc s' ?c @ chain_bytes dc s' ds"
          by (subst cs) (simp add: chain_bytes_append chain_bytes_Cons cb)
        moreover have "chain_bytes dc s cs = chain_bytes dc s (butlast cs) @ cluster_bytes dc s ?c"
          by (subst cs) (simp add: chain_bytes_append chain_bytes_def)
        ultimately show ?thesis using ds(1,2) e(1) by auto
      qed
      have co: "coherent dc s \<longrightarrow> coherent dc s'" if ok3 using I that A(3) [OF True] coherent_same [OF _ L(1-3)] by blast
      have works: ok3 if "drive_works ops (clks_disk_sector_total s)" "length data \<le> card (free_clusters dc s) * ?n" using I that by simp
      show ?thesis using S new co works ev True by auto
    qed
  qed
qed

section \<open>A drive in memory, and a small volume on it\<close>

definition ram_drive :: "(nat \<Rightarrow> u8) ata_ops" where
  "ram_drive = \<lparr>ata_read = \<lambda>lba n h. (True, get_bytes h (lba * 512) (n * 512), h),
     ata_write = \<lambda>lba n bs h. (True, put_bytes (lba * 512) bs h), ata_flush = \<lambda>h. (True, h)\<rparr>"

lemma ram_drive_ok: "drive_ok ram_drive id"
  by (auto simp: drive_ok_def ram_drive_def put_bytes_def algebra_simps)

lemma ram_drive_works: "drive_works ram_drive n"
  by (simp add: drive_works_def ram_drive_def)

text \<open>
  Six sectors: one before the table, the table, and clusters 2 to 5 of one sector each. A file has clusters 2
  and 3, full of the byte 7; the other two are free. The cache is empty, or has sector 3 (the cluster 3).
\<close>

definition ram_volume :: "bool \<Rightarrow> (nat \<Rightarrow> u8) disk_state" where
  "ram_volume loaded = \<lparr>clks_disk_bytes = \<lambda>a. if loaded then 7 else 0, clks_disk_bytes_len = 3072, clks_disk_sector_total = 6,
     clks_disk_loaded_bitmap = \<lambda>_. if loaded then 8 else 0, clks_disk_loaded_bitmap_bytes = 1, clks_disk_ready = True, clks_disk_hw_backed = True,
     clks_disk_fat32 = \<lparr>fl_valid = True, fl_bytes_per_sector = 512, fl_sectors_per_cluster = 1, fl_reserved_sectors = 1, fl_fat_count = 1,
       fl_sectors_per_fat = 1, fl_total_sectors = 6, fl_root_cluster = 2, fl_cluster_count = 4, fl_cluster_size_bytes = 512,
       fl_entries_per_cluster = 16, fl_volume_lba = 0, fl_fat_lba = 1, fl_data_lba = 2\<rparr>,
     clks_disk_alloc_hint = 2,
     disk_hw = \<lambda>a. if a = 520 then 3 else if 524 \<le> a \<and> a < 527 then 0xFF else if a = 527 then 0x0F else if 1024 \<le> a \<and> a < 2048 then 7 else 0\<rparr>"

lemma ram_volume_ok: "volume_ok (ram_volume b)"
  by (simp add: volume_ok_def cache_ok_def ram_volume_def)

lemma ram_volume_size [simp]: "cluster_size (ram_volume b) = 512" "clks_disk_sector_total (ram_volume b) = 6" "clks_disk_hw_backed (ram_volume b)"
  by (simp_all add: ram_volume_def)

lemma ram_volume_loaded: "clks_disk_loaded_test l (ram_volume b) \<longleftrightarrow> b \<and> l = 3"
proof -
  have "l \<in> {0, 1, 2, 3, 4, 5, 6, 7}" if "l < 8" using that by auto
  then show ?thesis by (cases "l < 8") (auto simp: clks_disk_loaded_test_def ram_volume_def)
qed

lemma ram_volume_disk: "on_disk id (ram_volume b) a = disk_hw (ram_volume b) a"
proof (cases "b \<and> a div 512 = 3")
  case True
  then have "1536 \<le> a" "a < 2048" by auto
  then show ?thesis using True by (simp add: on_disk_def ram_volume_loaded) (simp add: ram_volume_def)
next
  case False
  then show ?thesis by (auto simp: on_disk_def ram_volume_loaded)
qed

lemma ram_volume_entries:
  "fat_entry id (ram_volume b) 2 = 3" "fat_entry id (ram_volume b) 3 = 0x0FFFFFFF" "fat_entry id (ram_volume b) 4 = 0" "fat_entry id (ram_volume b) 5 = 0"
  by (simp_all add: fat_entry_def clks_disk_read_u32_def ram_volume_disk) (simp_all add: ram_volume_def)

lemma ram_volume_clusters: "clusters (ram_volume b) = {2, 3, 4, 5}"
  unfolding clusters_eq [OF ram_volume_ok] by (auto simp: ram_volume_def)

lemma ram_volume_chain: "file_chain id (ram_volume b) [2, 3]"
  by (simp add: file_chain_def ram_volume_entries ram_volume_clusters [simplified] disk_consts)

lemma ram_volume_free: "free_clusters id (ram_volume b) = {4, 5}"
proof -
  have "clks_disk_cluster_valid c (ram_volume b) \<longleftrightarrow> c = 2 \<or> c = 3 \<or> c = 4 \<or> c = 5" for c using ram_volume_clusters [of b] by auto
  then show ?thesis by (auto simp: free_clusters_def ram_volume_entries)
qed

section \<open>The properties\<close>

text \<open>C16.
  The allocator of clusters. On a drive that may fail but does not lie, \<open>clks_disk_alloc_chain\<close> of \<open>n\<close>
  clusters changes nothing but entries of free clusters, whatever happens, so no file is damaged. A success
  returns the first of \<open>n\<close> clusters that were free, are linked as one chain with an end mark and are the only
  ones whose entries have changed. On a drive that works it fails exactly when fewer than \<open>n\<close> clusters are
  free, and then the table is as it was: the clusters already taken have been released again.\<close>

theorem fat_alloc_chain:
  assumes "drive_ok ops dc" and "volume_ok s" and "0 < n" and "clks_disk_alloc_chain ops n s = (r, s')"
  shows "fat_same_but (free_clusters dc s) dc s s' \<and>
    (\<forall>f. r = Some f \<longrightarrow> (\<exists>cs. length cs = n \<and> hd cs = f \<and> file_chain dc s' cs \<and> set cs \<subseteq> free_clusters dc s \<and>
       free_clusters dc s' = free_clusters dc s - set cs \<and> fat_same_but (set cs) dc s s') \<and> (coherent dc s \<longrightarrow> coherent dc s')) \<and>
    (drive_works ops (clks_disk_sector_total s) \<longrightarrow>
       (r = None \<longleftrightarrow> card (free_clusters dc s) < n) \<and> (r = None \<longrightarrow> fat_same_but {} dc s s'))"
  using alloc_chain_spec(1-3) [OF assms] alloc_chain_spec(4) [OF assms] by blast

theorem fat_alloc_chain_witness:
  "(\<exists>f s' cs. clks_disk_alloc_chain ram_drive 2 (ram_volume False) = (Some f, s') \<and> length cs = 2 \<and> hd cs = f \<and> set cs \<subseteq> {4, 5} \<and> file_chain id s' cs) \<and>
   (\<exists>s'. clks_disk_alloc_chain ram_drive 3 (ram_volume False) = (None, s') \<and> fat_same_but {} id (ram_volume False) s')"
proof
  obtain r s' where e: "clks_disk_alloc_chain ram_drive 2 (ram_volume False) = (r, s')" by fastforce
  note A = fat_alloc_chain [OF ram_drive_ok ram_volume_ok _ e, unfolded ram_volume_free]
  have "r \<noteq> None" using A ram_drive_works by simp
  then show "\<exists>f s' cs. clks_disk_alloc_chain ram_drive 2 (ram_volume False) = (Some f, s') \<and> length cs = 2 \<and> hd cs = f \<and> set cs \<subseteq> {4, 5} \<and> file_chain id s' cs"
    using A e by auto
next
  obtain r s' where e: "clks_disk_alloc_chain ram_drive 3 (ram_volume False) = (r, s')" by fastforce
  note A = fat_alloc_chain [OF ram_drive_ok ram_volume_ok _ e, unfolded ram_volume_free]
  have "r = None" using A ram_drive_works by simp
  then show "\<exists>s'. clks_disk_alloc_chain ram_drive 3 (ram_volume False) = (None, s') \<and> fat_same_but {} id (ram_volume False) s'"
    using A e ram_drive_works by auto
qed

text \<open>C17.
  The release of the clusters of a file: \<open>clks_disk_free_chain\<close> ends, changes no entry but those of the chain,
  and makes each of these free or leaves it; the contents of all clusters stay. On a drive that works the
  clusters of the chain become free, all of them and no others.\<close>

theorem fat_free_chain:
  assumes "drive_ok ops dc" and "volume_ok s" and "file_chain dc s cs"
  shows "fat_same_but (set cs) dc s (clks_disk_free_chain ops (hd cs) s) \<and>
    (\<forall>c \<in> set cs. fat_entry dc (clks_disk_free_chain ops (hd cs) s) c \<in> {0, fat_entry dc s c}) \<and>
    (drive_works ops (clks_disk_sector_total s) \<longrightarrow>
       free_clusters dc (clks_disk_free_chain ops (hd cs) s) = free_clusters dc s \<union> set cs \<and>
       (coherent dc s \<longrightarrow> coherent dc (clks_disk_free_chain ops (hd cs) s)))"
proof -
  note F = free_chain_spec [OF assms]
  have "free_clusters dc (clks_disk_free_chain ops (hd cs) s) = free_clusters dc s \<union> set cs" if "drive_works ops (clks_disk_sector_total s)"
  proof -
    have "c \<in> free_clusters dc (clks_disk_free_chain ops (hd cs) s) \<longleftrightarrow> c \<in> free_clusters dc s \<union> set cs" for c
      using F(3) [OF that, of c] fat_same_but_D(3) [OF F(1)] fat_same_but_D(5) [OF F(1), of c] assms(3)
      unfolding free_clusters_def file_chain_def by (cases "c \<in> set cs") auto
    then show ?thesis by blast
  qed
  then show ?thesis using F(1,2,4) by blast
qed

theorem fat_free_chain_witness: "free_clusters id (clks_disk_free_chain ram_drive 2 (ram_volume False)) = {2, 3, 4, 5}"
  using fat_free_chain [OF ram_drive_ok ram_volume_ok ram_volume_chain, of False] ram_drive_works by (auto simp: ram_volume_free)

text \<open>C18.
  What is written to a file is read back. \<open>clks_disk_write_file_chain\<close> on the clusters of a file changes
  no byte of the disk outside these clusters, even when it fails; when it and a later
  \<open>clks_disk_read_file_chain\<close> of as many bytes succeed, the bytes read are the bytes written, and on a drive
  that works both succeed for all data that fits into the clusters. Reading changes nothing on the disk, and a
  cache that agrees with the drive agrees with it afterwards.\<close>

theorem fat_file_roundtrip:
  assumes "drive_ok ops dc" and "volume_ok s" and "file_chain dc s cs"
    and "clks_disk_write_file_chain ops (hd cs) data s = (ok, s1)" and "clks_disk_read_file_chain ops (hd cs) (length data) s1 = (r, s2)"
  shows "data_same_but (set cs) dc s s1 \<and> file_chain dc s1 cs \<and> on_disk dc s2 = on_disk dc s1 \<and>
    (ok \<and> r \<noteq> None \<longrightarrow> r = Some data) \<and> (ok \<and> coherent dc s \<longrightarrow> coherent dc s2) \<and>
    (drive_works ops (clks_disk_sector_total s) \<and> length data \<le> length cs * cluster_size s \<longrightarrow> ok \<and> r = Some data)"
proof -
  note W = write_file_spec [OF assms(1-4)]
  have sub: "set cs \<subseteq> clusters s" using assms(3) by (simp add: file_chain_def)
  note t = data_same_but_D [OF W(1) assms(2) sub]
  have ch1: "file_chain dc s1 cs" using data_chain_same(1) [OF W(1) assms(2) sub] assms(3) by simp
  note R = read_file_spec [OF assms(1) t(4) ch1 assms(5)]
  have eq: "r = Some data" if "ok" "r \<noteq> None" using R(4) W(2) [OF that(1)] that(2) by (cases r) auto
  have "r \<noteq> None" if "drive_works ops (clks_disk_sector_total s)" "length data \<le> length cs * cluster_size s"
    using R(5) that t(1,2) by simp
  then show ?thesis using W(1,3,4) ch1 R(2) eq coherent_same [OF _ R(1-3)] by blast
qed

theorem fat_file_roundtrip_witness:
  "\<exists>s1. clks_disk_write_file_chain ram_drive 2 (replicate 600 5) (ram_volume False) = (True, s1) \<and>
     fst (clks_disk_read_file_chain ram_drive 2 600 s1) = Some (replicate 600 5)"
proof -
  define data :: "u8 list" where "data = replicate 600 5"
  have len: "length data = 600" by (simp add: data_def)
  obtain ok s1 where w: "clks_disk_write_file_chain ram_drive 2 data (ram_volume False) = (ok, s1)" by fastforce
  obtain r s2 where r: "clks_disk_read_file_chain ram_drive 2 (length data) s1 = (r, s2)" by fastforce
  note R = fat_file_roundtrip [OF ram_drive_ok ram_volume_ok ram_volume_chain, unfolded list.sel, OF w r]
  have "length data \<le> length [2 :: nat, 3] * cluster_size (ram_volume False)" by (simp add: len)
  then have "ok" "r = Some data" using R ram_drive_works by blast+
  then have "\<exists>s1. clks_disk_write_file_chain ram_drive 2 data (ram_volume False) = (True, s1) \<and> fst (clks_disk_read_file_chain ram_drive 2 600 s1) = Some data"
    using w r by (intro exI [of _ s1]) (simp add: len)
  then show ?thesis unfolding data_def .
qed

text \<open>C19.
  An append extends a file. Let a file of \<open>old\<close> bytes end in the last of its clusters, and let the sector in
  which it ends be in the cache, or the file end with a sector. When \<open>clks_disk_append_file_chain\<close> succeeds, the
  clusters of the file are the old ones followed by clusters that were free, and its contents are the old bytes
  followed by the new ones. Whatever happens, all other files keep their clusters and their contents; on a drive
  that works with room for the data the append succeeds.\<close>

theorem fat_append_extends:
  assumes "drive_ok ops dc" and "volume_ok s" and "file_chain dc s cs"
    and "(length cs - 1) * cluster_size s < old" and "old \<le> length cs * cluster_size s"
    and "clks_disk_hw_backed s \<longrightarrow> old mod 512 = 0 \<or> clks_disk_loaded_test ((cluster_start s (last cs) + old mod cluster_size s) div 512) s"
    and "clks_disk_append_file_chain ops (hd cs) old data s = (r, s')"
  shows "(\<forall>f. r = Some f \<longrightarrow> f = hd cs \<and> (\<exists>ds. file_chain dc s' (cs @ ds) \<and> set ds \<subseteq> free_clusters dc s \<and>
       take (old + length data) (chain_bytes dc s' (cs @ ds)) = take old (chain_bytes dc s cs) @ data) \<and> (coherent dc s \<longrightarrow> coherent dc s')) \<and>
    (\<forall>es. file_chain dc s es \<and> set es \<inter> set cs = {} \<longrightarrow> file_chain dc s' es \<and> chain_bytes dc s' es = chain_bytes dc s es) \<and>
    (drive_works ops (clks_disk_sector_total s) \<and> length data \<le> card (free_clusters dc s) * cluster_size s \<longrightarrow> r \<noteq> None)"
proof -
  note A = append_file_spec [OF assms]
  have "file_chain dc s' es \<and> chain_bytes dc s' es = chain_bytes dc s es" if es: "file_chain dc s es" "set es \<inter> set cs = {}" for es
  proof -
    have "set es \<inter> insert (last cs) (free_clusters dc s) = {}"
      using es(2) last_in_chain [OF assms(3)] built_not_free [OF assms(2) es(1)] by blast
    then show ?thesis using vol_same_chain [OF conjunct1 [OF A], of es] es(1) by (simp add: file_chain_def)
  qed
  then show ?thesis using A by blast
qed

theorem fat_append_extends_witness:
  "\<exists>s' ds. clks_disk_append_file_chain ram_drive 2 1000 (replicate 100 9) (ram_volume True) = (Some 2, s') \<and> file_chain id s' ([2, 3] @ ds) \<and>
     take 1100 (chain_bytes id s' ([2, 3] @ ds)) = take 1000 (chain_bytes id (ram_volume True) [2, 3]) @ replicate 100 9"
proof -
  define data :: "u8 list" where "data = replicate 100 9"
  have len: "length data = 100" by (simp add: data_def)
  obtain r s' where e: "clks_disk_append_file_chain ram_drive 2 1000 data (ram_volume True) = (r, s')" by fastforce
  have st: "cluster_start (ram_volume True) 3 = 1536" by (simp add: cluster_start_def ram_volume_def)
  note A = fat_append_extends [OF ram_drive_ok ram_volume_ok ram_volume_chain, of True 1000 data r s']
  have "r \<noteq> None" using A ram_drive_works e len by (simp add: ram_volume_loaded st ram_volume_free)
  then have "\<exists>s' ds. clks_disk_append_file_chain ram_drive 2 1000 data (ram_volume True) = (Some 2, s') \<and> file_chain id s' ([2, 3] @ ds) \<and>
     take 1100 (chain_bytes id s' ([2, 3] @ ds)) = take 1000 (chain_bytes id (ram_volume True) [2, 3]) @ data"
    using A e len by (auto simp: ram_volume_loaded st)
  then show ?thesis unfolding data_def .
qed

text \<open>
  Without the sector in the cache the append goes wrong: \<open>clks_disk_append_file_chain\<close> does not load the sector
  in which the file ends before it writes into the cache and marks the sector as loaded, so the bytes of the
  file in this sector are replaced by what the cache happens to contain, and a drive that works stores them.
\<close>

theorem append_writes_stale_bytes:
  assumes "drive_ok ops dc" and "volume_ok s" and "coherent dc s" and "c \<in> clusters s"
    and "within + n \<le> cluster_size s" and "n \<le> length data" and "0 < n"
    and "\<not> clks_disk_loaded_test ((cluster_start s c + within) div 512) s"
    and "append_tail ops c within n data s = (True, s')"
    and "a div 512 = (cluster_start s c + within) div 512" and "a < cluster_start s c + within"
  shows "on_disk dc s a = dc (disk_hw s) a \<and> dc (disk_hw s') a = clks_disk_bytes s a"
proof
  show "on_disk dc s a = dc (disk_hw s) a" using assms(3) by (simp add: coherent_def)
  have "coherent dc s'" using append_tail_spec(3) [OF assms(1,2,4-7,9)] assms(3) by simp
  then show "dc (disk_hw s') a = clks_disk_bytes s a"
    using append_tail_spec(5) [OF assms(1,2,4-7,9) _ assms(10,11)] by (simp add: coherent_def)
qed

theorem append_writes_stale_bytes_witness:
  "\<exists>s'. append_tail ram_drive 3 488 10 (replicate 10 9) (ram_volume False) = (True, s') \<and> disk_hw (ram_volume False) 1540 = 7 \<and> disk_hw s' 1540 = 0"
proof -
  obtain ok s' where e: "append_tail ram_drive 3 488 10 (replicate 10 9) (ram_volume False) = (ok, s')" by fastforce
  have c: "3 \<in> clusters (ram_volume False)" unfolding ram_volume_clusters by simp
  have st: "cluster_start (ram_volume False) 3 = 1536" by (simp add: cluster_start_def ram_volume_def)
  have co: "coherent id (ram_volume False)" using ram_volume_disk [of False] by (simp add: coherent_def)
  have ok using append_tail_spec(4) [OF ram_drive_ok ram_volume_ok c _ _ _ e] ram_drive_works by simp
  then have "disk_hw s' 1540 = clks_disk_bytes (ram_volume False) 1540"
    using append_writes_stale_bytes [OF ram_drive_ok ram_volume_ok co c, of 488 10 "replicate 10 9" s' 1540] e by (simp add: ram_volume_loaded st)
  then show ?thesis using e \<open>ok\<close> by (simp add: ram_volume_def)
qed

end
