(* ===== verification/Clks_Vm.thy ===== *)
theory Clks_Vm
  imports Clks_Pmm "HOL-Library.Sublist"
begin

text \<open>
  The paging manager, \<open>kernel/memory/vm.c\<close>, for \<open>CLKS_ARCH_X86_64\<close>: four levels of tables of 512
  entries in physical pages, reached through the direct map of the boot loader. A pointer to a table
  is the value \<open>clks_boot_phys_to_virt\<close> returns (0 is the null pointer) and \<open>vm_mem\<close> gives the entries
  behind it. The processor is the part of it that the code uses: CR3, the EFER register and the
  answers of CPUID; the translation cache (\<open>invlpg\<close>) and the log are left out.
\<close>

section \<open>State\<close>

definition CLKS_VM_PTE_PRESENT :: u64 where [clks_consts]:
  "CLKS_VM_PTE_PRESENT = 1"

definition CLKS_VM_PTE_WRITE :: u64 where [clks_consts]:
  "CLKS_VM_PTE_WRITE = 2"

definition CLKS_VM_PTE_USER :: u64 where [clks_consts]:
  "CLKS_VM_PTE_USER = 4"

definition CLKS_VM_PTE_PWT :: u64 where [clks_consts]:
  "CLKS_VM_PTE_PWT = 8"

definition CLKS_VM_PTE_PCD :: u64 where [clks_consts]:
  "CLKS_VM_PTE_PCD = 16"

definition CLKS_VM_PTE_PS :: u64 where [clks_consts]:
  "CLKS_VM_PTE_PS = 128"

definition CLKS_VM_PTE_NX :: u64 where [clks_consts]:
  "CLKS_VM_PTE_NX = 0x8000000000000000"

definition CLKS_VM_PTE_ADDR_MASK :: u64 where [clks_consts]:
  "CLKS_VM_PTE_ADDR_MASK = 0x000FFFFFFFFFF000"

definition CLKS_VM_EFER_NXE :: u64 where [clks_consts]:
  "CLKS_VM_EFER_NXE = 0x800"

definition CLKS_VM_CPUID_EXT_FEATURES :: u32 where [clks_consts]:
  "CLKS_VM_CPUID_EXT_FEATURES = 0x80000001"

definition CLKS_VM_CPUID_EXT_NX :: u32 where [clks_consts]:
  "CLKS_VM_CPUID_EXT_NX = 0x100000"

definition CLKS_VM_KERNEL_STACK_WINDOW_PAGES :: nat where [clks_consts]:
  "CLKS_VM_KERNEL_STACK_WINDOW_PAGES = 32"

definition CLKS_VM_PAGE_SIZE :: u64 where [clks_consts]:
  "CLKS_VM_PAGE_SIZE = 4096"

definition CLKS_VM_FLAG_READ :: u64 where [clks_consts]:
  "CLKS_VM_FLAG_READ = 1"

definition CLKS_VM_FLAG_WRITE :: u64 where [clks_consts]:
  "CLKS_VM_FLAG_WRITE = 2"

definition CLKS_VM_FLAG_EXEC :: u64 where [clks_consts]:
  "CLKS_VM_FLAG_EXEC = 4"

definition CLKS_VM_FLAG_USER :: u64 where [clks_consts]:
  "CLKS_VM_FLAG_USER = 8"

definition CLKS_VM_FLAG_MMIO :: u64 where [clks_consts]:
  "CLKS_VM_FLAG_MMIO = 16"

record vm_state =
  vm_pmm :: pmm_state
  vm_mem :: "u64 \<Rightarrow> nat \<Rightarrow> u64"
  vm_hhdm :: u64
  vm_cr3 :: u64
  vm_efer :: u64
  vm_cpu_max_ext :: u32
  vm_cpu_ext_edx :: u32
  clks_vm_ready :: bool
  clks_vm_nxe_ready :: bool
  clks_vm_kernel_cr3_value :: u64

text \<open>\<open>(p & flag) != 0\<close>\<close>

abbreviation has :: "u64 \<Rightarrow> u64 \<Rightarrow> bool" where
  "has e flag \<equiv> e AND flag \<noteq> 0"

definition unaligned :: "u64 \<Rightarrow> bool" where
  "unaligned a \<longleftrightarrow> a AND (CLKS_VM_PAGE_SIZE - 1) \<noteq> 0"

definition clks_boot_phys_to_virt :: "u64 \<Rightarrow> vm_state \<Rightarrow> u64" where
  "clks_boot_phys_to_virt phys_addr s = (if vm_hhdm s = 0 then 0 else phys_addr + vm_hhdm s)"

text \<open>Entries of the table at a pointer.\<close>

definition vm_set :: "u64 \<Rightarrow> nat \<Rightarrow> u64 \<Rightarrow> vm_state \<Rightarrow> vm_state" where
  "vm_set table i v s = s\<lparr>vm_mem := (vm_mem s)(table := (vm_mem s table)(i := v))\<rparr>"

definition vm_zero :: "u64 \<Rightarrow> vm_state \<Rightarrow> vm_state" where
  "vm_zero table s = s\<lparr>vm_mem := (vm_mem s)(table := (\<lambda>_. 0))\<rparr>"

text \<open>\<open>(virt_addr >> shift) & 0x1FF\<close>\<close>

definition vm_index :: "nat \<Rightarrow> u64 \<Rightarrow> nat" where
  "vm_index shift virt_addr = unat (drop_bit shift virt_addr AND 0x1FF)"

definition vm_alloc_page :: "vm_state \<Rightarrow> u64 \<times> vm_state" where
  "vm_alloc_page s = (case clks_pmm_alloc_page (vm_pmm s) of (p, m) \<Rightarrow> (p, s\<lparr>vm_pmm := m\<rparr>))"

definition vm_free_page :: "u64 \<Rightarrow> vm_state \<Rightarrow> vm_state" where
  "vm_free_page p s = s\<lparr>vm_pmm := clks_pmm_free_page p (vm_pmm s)\<rparr>"

section \<open>Operations\<close>

definition clks_vm_enable_nxe :: "vm_state \<Rightarrow> bool \<times> vm_state" where
  "clks_vm_enable_nxe s =
     (if vm_cpu_max_ext s < CLKS_VM_CPUID_EXT_FEATURES then (False, s)
      else if vm_cpu_ext_edx s AND CLKS_VM_CPUID_EXT_NX = 0 then (False, s)
      else
        let s1 = (if \<not> has (vm_efer s) CLKS_VM_EFER_NXE
                  then s\<lparr>vm_efer := vm_efer s OR CLKS_VM_EFER_NXE\<rparr> else s)
        in (has (vm_efer s1) CLKS_VM_EFER_NXE, s1))"

definition clks_vm_current_cr3 :: "vm_state \<Rightarrow> u64" where
  "clks_vm_current_cr3 s = vm_cr3 s"

definition clks_vm_kernel_cr3 :: "vm_state \<Rightarrow> u64" where
  "clks_vm_kernel_cr3 s = clks_vm_kernel_cr3_value s"

definition clks_vm_switch_cr3 :: "u64 \<Rightarrow> vm_state \<Rightarrow> vm_state" where
  "clks_vm_switch_cr3 cr3 s = (if cr3 \<noteq> 0 \<and> \<not> unaligned cr3 then s\<lparr>vm_cr3 := cr3\<rparr> else s)"

definition clks_vm_current_pml4 :: "vm_state \<Rightarrow> u64" where
  "clks_vm_current_pml4 s =
     (if vm_cr3 s = 0 then 0 else clks_boot_phys_to_virt (vm_cr3 s AND CLKS_VM_PTE_ADDR_MASK) s)"

definition clks_vm_entry_flags_from_api :: "u64 \<Rightarrow> vm_state \<Rightarrow> u64" where
  "clks_vm_entry_flags_from_api flags s =
     (let f0 = CLKS_VM_PTE_PRESENT;
          f1 = (if has flags CLKS_VM_FLAG_WRITE then f0 OR CLKS_VM_PTE_WRITE else f0);
          f2 = (if has flags CLKS_VM_FLAG_USER then f1 OR CLKS_VM_PTE_USER else f1);
          f3 = (if clks_vm_nxe_ready s \<and> \<not> has flags CLKS_VM_FLAG_EXEC then f2 OR CLKS_VM_PTE_NX else f2)
      in if has flags CLKS_VM_FLAG_MMIO then f3 OR (CLKS_VM_PTE_PWT OR CLKS_VM_PTE_PCD) else f3)"

text \<open>The entry pointer is a table and an index into it.\<close>

definition clks_vm_next_table :: "u64 \<Rightarrow> nat \<Rightarrow> u64 \<Rightarrow> vm_state \<Rightarrow> u64 option \<times> vm_state" where
  "clks_vm_next_table table i table_flags s =
     (let follow = (\<lambda>s1.
            if has (vm_mem s1 table i) CLKS_VM_PTE_PS then (None, s1)
            else
              let t = clks_boot_phys_to_virt (vm_mem s1 table i AND CLKS_VM_PTE_ADDR_MASK) s1
              in if t = 0 then (None, s1) else (Some t, s1))
      in if \<not> has (vm_mem s table i) CLKS_VM_PTE_PRESENT then
           (case vm_alloc_page s of (new_phys, s1) \<Rightarrow>
              if new_phys = 0 then (None, s1)
              else
                let virt = clks_boot_phys_to_virt new_phys s1 in
                if virt = 0 then (None, vm_free_page new_phys s1)
                else follow (vm_set table i
                       ((new_phys AND CLKS_VM_PTE_ADDR_MASK) OR CLKS_VM_PTE_PRESENT OR CLKS_VM_PTE_WRITE OR table_flags)
                       (vm_zero virt s1)))
         else follow s)"

text \<open>The recursion of \<open>clks_vm_destroy_table_recursive\<close>: the argument is \<open>level - 1\<close>.\<close>

fun destroy_table :: "nat \<Rightarrow> u64 \<Rightarrow> vm_state \<Rightarrow> vm_state" where
  "destroy_table below table_phys s =
     (if table_phys = 0 \<or> unaligned table_phys then s
      else
        let table = clks_boot_phys_to_virt table_phys s in
        if table = 0 then s
        else vm_free_page table_phys
          (case below of 0 \<Rightarrow> s
           | Suc b \<Rightarrow>
               fold (\<lambda>i s1.
                 let entry = vm_mem s1 table i in
                 if \<not> has entry CLKS_VM_PTE_PRESENT \<or> has entry CLKS_VM_PTE_PS then s1
                 else vm_set table i 0 (destroy_table b (entry AND CLKS_VM_PTE_ADDR_MASK) s1)) [0..<512] s))"

declare destroy_table.simps [simp del]

definition clks_vm_destroy_table_recursive :: "u64 \<Rightarrow> nat \<Rightarrow> vm_state \<Rightarrow> vm_state" where
  "clks_vm_destroy_table_recursive table_phys level s = destroy_table (level - 1) table_phys s"

definition clks_vm_init :: "vm_state \<Rightarrow> vm_state" where
  "clks_vm_init s =
     (let s1 = s\<lparr>clks_vm_kernel_cr3_value := vm_cr3 s AND CLKS_VM_PTE_ADDR_MASK,
                 clks_vm_ready := (clks_vm_current_pml4 s \<noteq> 0), clks_vm_nxe_ready := False\<rparr>
      in if clks_vm_ready s1
         then (case clks_vm_enable_nxe s1 of (ok, s2) \<Rightarrow> s2\<lparr>clks_vm_nxe_ready := ok\<rparr>) else s1)"

definition clks_vm_create_address_space :: "vm_state \<Rightarrow> u64 \<times> vm_state" where
  "clks_vm_create_address_space s =
     (if \<not> clks_vm_ready s \<or> clks_vm_kernel_cr3_value s = 0 then (0, s)
      else
        let kernel_pml4 = clks_boot_phys_to_virt (clks_vm_kernel_cr3_value s) s in
        if kernel_pml4 = 0 then (0, s)
        else case vm_alloc_page s of (phys, s1) \<Rightarrow>
          if phys = 0 then (0, s1)
          else
            let dst = clks_boot_phys_to_virt phys s1 in
            if dst = 0 then (0, vm_free_page phys s1)
            else
              let s2 = vm_zero dst s1;
                  s3 = vm_set dst 0 (vm_mem s2 kernel_pml4 0) s2;
                  s4 = fold (\<lambda>i t. vm_set dst i (vm_mem t kernel_pml4 i) t) [256..<512] s3
              in (phys AND CLKS_VM_PTE_ADDR_MASK, s4))"

definition clks_vm_destroy_address_space :: "u64 \<Rightarrow> vm_state \<Rightarrow> vm_state" where
  "clks_vm_destroy_address_space cr3 s =
     (if cr3 = 0 \<or> unaligned cr3 \<or> cr3 = clks_vm_kernel_cr3_value s then s
      else
        let s1 = (if vm_cr3 s = cr3 \<and> clks_vm_kernel_cr3_value s \<noteq> 0
                  then clks_vm_switch_cr3 (clks_vm_kernel_cr3_value s) s else s);
            pml4 = clks_boot_phys_to_virt cr3 s1;
            s2 = (if pml4 \<noteq> 0 then
                    fold (\<lambda>i t.
                      let entry = vm_mem t pml4 i in
                      if i = 0 then vm_set pml4 i 0 t
                      else if \<not> has entry CLKS_VM_PTE_PRESENT \<or> has entry CLKS_VM_PTE_PS then t
                      else vm_set pml4 i 0
                             (clks_vm_destroy_table_recursive (entry AND CLKS_VM_PTE_ADDR_MASK) 3 t)) [0..<256] s1
                  else s1)
        in vm_free_page cr3 s2)"

definition clks_vm_map_page_current :: "u64 \<Rightarrow> u64 \<Rightarrow> u64 \<Rightarrow> vm_state \<Rightarrow> bool \<times> vm_state" where
  "clks_vm_map_page_current virt_addr phys_addr flags s =
     (if \<not> clks_vm_ready s \<or> unaligned virt_addr \<or> unaligned phys_addr then (False, s)
      else
        let pml4 = clks_vm_current_pml4 s in
        if pml4 = 0 then (False, s)
        else
          let table_flags = (if has flags CLKS_VM_FLAG_USER then CLKS_VM_PTE_USER else 0) in
          case clks_vm_next_table pml4 (vm_index 39 virt_addr) table_flags s of
            (None, s1) \<Rightarrow> (False, s1)
          | (Some pdpt, s1) \<Rightarrow>
              (case clks_vm_next_table pdpt (vm_index 30 virt_addr) table_flags s1 of
                 (None, s2) \<Rightarrow> (False, s2)
               | (Some pd, s2) \<Rightarrow>
                   (case clks_vm_next_table pd (vm_index 21 virt_addr) table_flags s2 of
                      (None, s3) \<Rightarrow> (False, s3)
                    | (Some pt, s3) \<Rightarrow>
                        (True, vm_set pt (vm_index 12 virt_addr)
                           ((phys_addr AND CLKS_VM_PTE_ADDR_MASK) OR clks_vm_entry_flags_from_api flags s3) s3))))"

text \<open>
  The walk that \<open>clks_vm_protect_page_current\<close> and \<open>clks_vm_unmap_page_current\<close> share: the pointer
  to the last table, when every entry on the way is present and not a large page and the entry of the
  page is present.
\<close>

definition vm_down :: "u64 \<Rightarrow> nat \<Rightarrow> vm_state \<Rightarrow> u64 option" where
  "vm_down table i s =
     (if \<not> has (vm_mem s table i) CLKS_VM_PTE_PRESENT \<or> has (vm_mem s table i) CLKS_VM_PTE_PS then None
      else
        let t = clks_boot_phys_to_virt (vm_mem s table i AND CLKS_VM_PTE_ADDR_MASK) s
        in if t = 0 then None else Some t)"

definition vm_find_pt :: "u64 \<Rightarrow> vm_state \<Rightarrow> u64 option" where
  "vm_find_pt virt_addr s =
     (let pml4 = clks_vm_current_pml4 s in
      if pml4 = 0 then None
      else
        Option.bind (vm_down pml4 (vm_index 39 virt_addr) s) (\<lambda>pdpt.
        Option.bind (vm_down pdpt (vm_index 30 virt_addr) s) (\<lambda>pd.
        Option.bind (vm_down pd (vm_index 21 virt_addr) s) (\<lambda>pt.
          if \<not> has (vm_mem s pt (vm_index 12 virt_addr)) CLKS_VM_PTE_PRESENT then None else Some pt))))"

definition clks_vm_protect_page_current :: "u64 \<Rightarrow> u64 \<Rightarrow> vm_state \<Rightarrow> bool \<times> vm_state" where
  "clks_vm_protect_page_current virt_addr flags s =
     (if \<not> clks_vm_ready s \<or> unaligned virt_addr then (False, s)
      else case vm_find_pt virt_addr s of
        None \<Rightarrow> (False, s)
      | Some pt \<Rightarrow>
          let i = vm_index 12 virt_addr; old_entry = vm_mem s pt i
          in (True, vm_set pt i ((old_entry AND CLKS_VM_PTE_ADDR_MASK) OR clks_vm_entry_flags_from_api flags s) s))"

definition clks_vm_unmap_page_current :: "u64 \<Rightarrow> vm_state \<Rightarrow> u64 option \<times> vm_state" where
  "clks_vm_unmap_page_current virt_addr s =
     (if \<not> clks_vm_ready s \<or> unaligned virt_addr then (None, s)
      else case vm_find_pt virt_addr s of
        None \<Rightarrow> (None, s)
      | Some pt \<Rightarrow>
          let i = vm_index 12 virt_addr; entry = vm_mem s pt i
          in (Some (entry AND CLKS_VM_PTE_ADDR_MASK), vm_set pt i 0 s))"

text \<open>The physical address and the entry of a virtual address.\<close>

definition clks_vm_translate_current :: "u64 \<Rightarrow> vm_state \<Rightarrow> (u64 \<times> u64) option" where
  "clks_vm_translate_current virt_addr s =
     (if \<not> clks_vm_ready s then None
      else
        let pml4 = clks_vm_current_pml4 s; e4 = vm_mem s pml4 (vm_index 39 virt_addr) in
        if pml4 = 0 \<or> \<not> has e4 CLKS_VM_PTE_PRESENT then None
        else
          let pdpt = clks_boot_phys_to_virt (e4 AND CLKS_VM_PTE_ADDR_MASK) s;
              e3 = vm_mem s pdpt (vm_index 30 virt_addr) in
          if pdpt = 0 \<or> \<not> has e3 CLKS_VM_PTE_PRESENT then None
          else if has e3 CLKS_VM_PTE_PS then
            Some ((e3 AND 0x000FFFFFC0000000) + (virt_addr AND (push_bit 30 1 - 1)), e3)
          else
            let pd = clks_boot_phys_to_virt (e3 AND CLKS_VM_PTE_ADDR_MASK) s;
                e2 = vm_mem s pd (vm_index 21 virt_addr) in
            if pd = 0 \<or> \<not> has e2 CLKS_VM_PTE_PRESENT then None
            else if has e2 CLKS_VM_PTE_PS then
              Some ((e2 AND 0x000FFFFFFFE00000) + (virt_addr AND (push_bit 21 1 - 1)), e2)
            else
              let pt = clks_boot_phys_to_virt (e2 AND CLKS_VM_PTE_ADDR_MASK) s;
                  entry = vm_mem s pt (vm_index 12 virt_addr) in
              if pt = 0 \<or> \<not> has entry CLKS_VM_PTE_PRESENT then None
              else Some ((entry AND CLKS_VM_PTE_ADDR_MASK) + (virt_addr AND (CLKS_VM_PAGE_SIZE - 1)), entry))"

definition clks_vm_map_page_in_address_space :: "u64 \<Rightarrow> u64 \<Rightarrow> u64 \<Rightarrow> u64 \<Rightarrow> vm_state \<Rightarrow> bool \<times> vm_state" where
  "clks_vm_map_page_in_address_space cr3 virt_addr phys_addr flags s =
     (if cr3 = 0 \<or> unaligned cr3 then (False, s)
      else
        let prev_cr3 = vm_cr3 s;
            other = (prev_cr3 AND CLKS_VM_PTE_ADDR_MASK \<noteq> cr3 AND CLKS_VM_PTE_ADDR_MASK);
            s1 = (if other then clks_vm_switch_cr3 cr3 s else s)
        in case clks_vm_map_page_current virt_addr phys_addr flags s1 of (ok, s2) \<Rightarrow>
             (ok, if other then clks_vm_switch_cr3 prev_cr3 s2 else s2))"

text \<open>The pages of the stack window that are left, from page \<open>page\<close> on.\<close>

function stack_window_loop :: "u64 \<Rightarrow> u64 \<Rightarrow> u64 \<Rightarrow> nat \<Rightarrow> vm_state \<Rightarrow> bool \<times> vm_state" where
  "stack_window_loop target_cr3 current_cr3 start page s =
     (let restore = (\<lambda>t. if vm_cr3 t AND CLKS_VM_PTE_ADDR_MASK \<noteq> current_cr3 AND CLKS_VM_PTE_ADDR_MASK
                       then clks_vm_switch_cr3 current_cr3 t else t) in
      if page < CLKS_VM_KERNEL_STACK_WINDOW_PAGES then
        let virt = start + of_nat page * CLKS_VM_PAGE_SIZE in
        case clks_vm_translate_current virt s of
          None \<Rightarrow> stack_window_loop target_cr3 current_cr3 start (page + 1) s
        | Some (phys, _) \<Rightarrow>
            if phys = 0 then stack_window_loop target_cr3 current_cr3 start (page + 1) s
            else
              (case clks_vm_map_page_in_address_space target_cr3 (virt AND NOT (CLKS_VM_PAGE_SIZE - 1))
                      (phys AND CLKS_VM_PTE_ADDR_MASK)
                      (CLKS_VM_FLAG_READ OR CLKS_VM_FLAG_WRITE OR CLKS_VM_FLAG_EXEC) s of
                 (ok, s1) \<Rightarrow>
                   if \<not> ok then (False, restore s1)
                   else stack_window_loop target_cr3 current_cr3 start (page + 1) s1)
      else (True, restore s))"
  by pat_completeness auto
termination
  by (relation "measure (\<lambda>(_, _, _, page, _). CLKS_VM_KERNEL_STACK_WINDOW_PAGES - page)") auto

declare stack_window_loop.simps [simp del]

definition clks_vm_map_current_stack_window :: "u64 \<Rightarrow> u64 \<Rightarrow> vm_state \<Rightarrow> bool \<times> vm_state" where
  "clks_vm_map_current_stack_window rsp target_cr3 s =
     (if target_cr3 = 0 \<or> unaligned target_cr3 then (False, s)
      else
        stack_window_loop target_cr3 (vm_cr3 s)
          ((rsp AND NOT (CLKS_VM_PAGE_SIZE - 1)) -
            of_nat (CLKS_VM_KERNEL_STACK_WINDOW_PAGES div 2) * CLKS_VM_PAGE_SIZE) 0 s)"

section \<open>The tree of tables\<close>

abbreviation p2v :: "vm_state \<Rightarrow> u64 \<Rightarrow> u64" where
  "p2v s t \<equiv> clks_boot_phys_to_virt t s"

text \<open>The table an entry refers to, and the table reached by a path of indices.\<close>

definition vm_child :: "vm_state \<Rightarrow> u64 \<Rightarrow> nat \<Rightarrow> u64 option" where
  "vm_child s t i =
     (let e = vm_mem s (p2v s t) i in
      if has e CLKS_VM_PTE_PRESENT \<and> \<not> has e CLKS_VM_PTE_PS then Some (e AND CLKS_VM_PTE_ADDR_MASK) else None)"

fun vm_walk :: "vm_state \<Rightarrow> u64 \<Rightarrow> nat list \<Rightarrow> u64 option" where
  "vm_walk s t [] = Some t"
| "vm_walk s t (i # is) = (case vm_child s t i of None \<Rightarrow> None | Some u \<Rightarrow> vm_walk s u is)"

text \<open>The entry that maps a page, at the level where the walk stops.\<close>

fun vm_resolve :: "vm_state \<Rightarrow> u64 \<Rightarrow> nat list \<Rightarrow> (nat \<times> u64) option" where
  "vm_resolve s t [] = None"
| "vm_resolve s t (i # is) =
     (let e = vm_mem s (p2v s t) i in
      if \<not> has e CLKS_VM_PTE_PRESENT then None
      else if is = [] \<or> has e CLKS_VM_PTE_PS then Some (length is, e)
      else vm_resolve s (e AND CLKS_VM_PTE_ADDR_MASK) is)"

definition vm_root :: "vm_state \<Rightarrow> u64" where
  "vm_root s = vm_cr3 s AND CLKS_VM_PTE_ADDR_MASK"

definition vm_path :: "nat list \<Rightarrow> bool" where
  "vm_path p \<longleftrightarrow> length p \<le> 3 \<and> (\<forall>i \<in> set p. i < 512)"

text \<open>The direct map takes a physical address to a pointer that is not null.\<close>

definition vm_mapped :: "vm_state \<Rightarrow> u64 \<Rightarrow> bool" where
  "vm_mapped s t \<longleftrightarrow> t + vm_hhdm s \<noteq> 0"

text \<open>
  A tree below a root: no table is reached twice, none is a free page, all are in the direct map, and
  the top level has no large pages (the processor has none there).
\<close>

definition vm_tree_ok :: "vm_state \<Rightarrow> u64 \<Rightarrow> bool" where
  "vm_tree_ok s r \<longleftrightarrow>
     (\<forall>p q t. vm_path p \<longrightarrow> vm_path q \<longrightarrow> vm_walk s r p = Some t \<longrightarrow> vm_walk s r q = Some t \<longrightarrow> p = q) \<and>
     (\<forall>p t. vm_path p \<longrightarrow> vm_walk s r p = Some t \<longrightarrow> t \<notin> pmm_avail (vm_pmm s) \<and> vm_mapped s t) \<and>
     (\<forall>i < 512. has (vm_mem s (p2v s r) i) CLKS_VM_PTE_PRESENT \<longrightarrow> \<not> has (vm_mem s (p2v s r) i) CLKS_VM_PTE_PS)"

text \<open>There is a direct map, and free pages are addresses a table entry can hold.\<close>

definition vm_env_ok :: "vm_state \<Rightarrow> bool" where
  "vm_env_ok s \<longleftrightarrow> clks_vm_ready s \<and> vm_cr3 s \<noteq> 0 \<and> vm_hhdm s \<noteq> 0 \<and>
     pmm_inv (vm_pmm s) \<and> (\<forall>p \<in> pmm_avail (vm_pmm s). p AND CLKS_VM_PTE_ADDR_MASK = p \<and> vm_mapped s p)"

definition vm_ok :: "vm_state \<Rightarrow> bool" where
  "vm_ok s \<longleftrightarrow> vm_env_ok s \<and> vm_tree_ok s (vm_root s)"

lemma and_dist: "(a OR b) AND c = (a AND c) OR (b AND (c :: u64))"
  by (simp add: bit.conj_disj_distrib2)

lemma mask_idem [simp]: "(p AND CLKS_VM_PTE_ADDR_MASK) AND CLKS_VM_PTE_ADDR_MASK = p AND CLKS_VM_PTE_ADDR_MASK"
  by (simp add: and.assoc)

lemma table_entry:
  assumes "f = 0 \<or> f = CLKS_VM_PTE_USER"
    "e = ((p AND CLKS_VM_PTE_ADDR_MASK) OR CLKS_VM_PTE_PRESENT OR CLKS_VM_PTE_WRITE OR f)"
  shows "has e CLKS_VM_PTE_PRESENT" "e AND CLKS_VM_PTE_PS = 0"
    "e AND CLKS_VM_PTE_ADDR_MASK = p AND CLKS_VM_PTE_ADDR_MASK"
proof -
  show "has e CLKS_VM_PTE_PRESENT"
    using assms by (auto simp: and_dist and.assoc clks_consts)
  show "e AND CLKS_VM_PTE_PS = 0" "e AND CLKS_VM_PTE_ADDR_MASK = p AND CLKS_VM_PTE_ADDR_MASK"
    using assms by (auto simp: and_dist and.assoc clks_consts)
qed

lemma leaf_entry:
  assumes "e = ((p AND CLKS_VM_PTE_ADDR_MASK) OR clks_vm_entry_flags_from_api flags s)"
  shows "has e CLKS_VM_PTE_PRESENT" "e AND CLKS_VM_PTE_ADDR_MASK = p AND CLKS_VM_PTE_ADDR_MASK"
proof -
  define f where "f = clks_vm_entry_flags_from_api flags s"
  have "f AND CLKS_VM_PTE_PRESENT = 1" "f AND CLKS_VM_PTE_ADDR_MASK = 0"
    unfolding f_def clks_vm_entry_flags_from_api_def Let_def
    by (simp_all add: and_dist clks_consts)
  then show "has e CLKS_VM_PTE_PRESENT" "e AND CLKS_VM_PTE_ADDR_MASK = p AND CLKS_VM_PTE_ADDR_MASK"
    unfolding assms f_def [symmetric] by (simp_all add: and_dist and.assoc, simp add: clks_consts)
qed

lemma p2v_inject: "vm_env_ok s \<Longrightarrow> p2v s a = p2v s b \<longleftrightarrow> a = b"
  by (auto simp: vm_env_ok_def clks_boot_phys_to_virt_def)

lemma p2v_nonnull: "vm_env_ok s \<Longrightarrow> vm_mapped s a \<Longrightarrow> p2v s a \<noteq> 0"
  by (simp add: clks_boot_phys_to_virt_def vm_mapped_def vm_env_ok_def)

lemma vm_path_snoc: "vm_path (p @ [i]) \<longleftrightarrow> vm_path p \<and> length p < 3 \<and> i < 512"
  by (auto simp: vm_path_def)

lemma vm_path_Nil [simp]: "vm_path []"
  by (simp add: vm_path_def)

lemma vm_walk_append: "vm_walk s t (p @ q) = Option.bind (vm_walk s t p) (\<lambda>u. vm_walk s u q)"
  by (induction p arbitrary: t) (auto split: option.split)

lemma vm_walk_snoc: "vm_walk s t (p @ [i]) = Option.bind (vm_walk s t p) (\<lambda>u. vm_child s u i)"
  by (simp add: vm_walk_append cong: option.case_cong) (auto split: option.split simp: bind_eq_Some_conv intro!: arg_cong2 [where f = Option.bind])

lemma vm_walk_masked:
  assumes "vm_walk s r p = Some t" "r AND CLKS_VM_PTE_ADDR_MASK = r"
  shows "t AND CLKS_VM_PTE_ADDR_MASK = t"
  using assms
proof (induction p arbitrary: r)
  case (Cons i p)
  then obtain u where u: "vm_child s r i = Some u" "vm_walk s u p = Some t" by (auto split: option.splits)
  then have "u AND CLKS_VM_PTE_ADDR_MASK = u" by (auto simp: vm_child_def Let_def split: if_splits)
  with Cons.IH u(2) show ?case by blast
qed simp

lemma vm_resolve_walk:
  "vm_walk s r p = Some t \<Longrightarrow> q \<noteq> [] \<Longrightarrow> vm_resolve s r (p @ q) = vm_resolve s t q"
proof (induction p arbitrary: r)
  case (Cons i p)
  then obtain u where u: "vm_child s r i = Some u" "vm_walk s u p = Some t" by (auto split: option.splits)
  then have "vm_resolve s r (i # p @ q) = vm_resolve s u (p @ q)"
    using Cons.prems(2) by (auto simp: vm_child_def Let_def split: if_splits)
  with Cons.IH u(2) Cons.prems(2) show ?case by simp
qed simp

lemma vm_resolve_cong:
  assumes "vm_walk s r p = Some t" "vm_hhdm s' = vm_hhdm s"
    "\<And>a j b u. p @ q = a @ j # b \<Longrightarrow> length p \<le> length a \<Longrightarrow> vm_walk s r a = Some u \<Longrightarrow>
       vm_mem s' (p2v s u) j = vm_mem s (p2v s u) j"
  shows "vm_resolve s' t q = vm_resolve s t q"
  using assms
proof (induction q arbitrary: p t)
  case (Cons i q)
  have pv: "p2v s' a = p2v s a" for a using Cons.prems(2) by (simp add: clks_boot_phys_to_virt_def)
  let ?e = "vm_mem s (p2v s t) i"
  have e: "vm_mem s' (p2v s t) i = ?e" by (rule Cons.prems(3) [of p i q]) (simp_all add: Cons.prems(1))
  show ?case
  proof (cases "has ?e CLKS_VM_PTE_PRESENT \<and> q \<noteq> [] \<and> \<not> has ?e CLKS_VM_PTE_PS")
    case False
    then show ?thesis unfolding vm_resolve.simps pv e Let_def by auto
  next
    case True
    let ?u = "?e AND CLKS_VM_PTE_ADDR_MASK"
    have w: "vm_walk s r (p @ [i]) = Some ?u"
      using True Cons.prems(1) by (simp add: vm_walk_snoc vm_child_def Let_def)
    have "vm_resolve s' ?u q = vm_resolve s ?u q"
      by (rule Cons.IH [OF w Cons.prems(2)]) (use Cons.prems(3) in auto)
    with True show ?thesis by (simp add: pv e Let_def)
  qed
qed simp

text \<open>Writing one entry changes only the paths through it.\<close>

lemma vm_set_mem:
  "vm_mem (vm_set t i v s) u j = (if u = t \<and> j = i then v else vm_mem s u j)"
  by (simp add: vm_set_def)

lemma vm_set_simps [simp]:
  "vm_pmm (vm_set t i v s) = vm_pmm s" "vm_hhdm (vm_set t i v s) = vm_hhdm s" "vm_cr3 (vm_set t i v s) = vm_cr3 s"
  "clks_vm_ready (vm_set t i v s) = clks_vm_ready s" "clks_vm_nxe_ready (vm_set t i v s) = clks_vm_nxe_ready s"
  "clks_vm_kernel_cr3_value (vm_set t i v s) = clks_vm_kernel_cr3_value s" "vm_efer (vm_set t i v s) = vm_efer s"
  "p2v (vm_set t i v s) a = p2v s a" "vm_root (vm_set t i v s) = vm_root s" "vm_env_ok (vm_set t i v s) = vm_env_ok s" "vm_mapped (vm_set t i v s) a = vm_mapped s a"
  by (simp_all add: vm_set_def clks_boot_phys_to_virt_def fun_eq_iff vm_root_def vm_env_ok_def vm_mapped_def)

lemma vm_set_walk:
  assumes e: "vm_env_ok s" and inj: "vm_tree_ok s r" and p: "vm_path p" "vm_walk s r p = Some t"
    and q: "vm_path q" "\<not> prefix (p @ [i]) q"
  shows "vm_walk (vm_set (p2v s t) i v s) r q = vm_walk s r q"
  using q
proof (induction q rule: rev_induct)
  case (snoc j q)
  let ?s = "vm_set (p2v s t) i v s"
  have q: "vm_path q" "\<not> prefix (p @ [i]) q" "\<not> (q = p \<and> j = i)"
    using snoc.prems by (auto simp: vm_path_snoc)
  then have IH: "vm_walk ?s r q = vm_walk s r q" using snoc.IH by blast
  show ?case
  proof (cases "vm_walk s r q")
    case None
    with IH show ?thesis by (simp add: vm_walk_snoc)
  next
    case (Some u)
    have ut: "\<not> (u = t \<and> j = i)"
      using Some p q inj unfolding vm_tree_ok_def by blast
    then have "vm_child ?s u j = vm_child s u j"
      using ut p2v_inject [OF e, of u t] by (auto simp: vm_child_def vm_set_mem Let_def)
    with IH Some show ?thesis by (simp add: vm_walk_snoc)
  qed
qed simp

lemma vm_zero_simps [simp]:
  "vm_pmm (vm_zero t s) = vm_pmm s" "vm_hhdm (vm_zero t s) = vm_hhdm s" "vm_cr3 (vm_zero t s) = vm_cr3 s"
  "clks_vm_ready (vm_zero t s) = clks_vm_ready s" "clks_vm_nxe_ready (vm_zero t s) = clks_vm_nxe_ready s"
  "clks_vm_kernel_cr3_value (vm_zero t s) = clks_vm_kernel_cr3_value s" "vm_efer (vm_zero t s) = vm_efer s"
  "vm_mem (vm_zero t s) u j = (if u = t then 0 else vm_mem s u j)"
  "p2v (vm_zero t s) a = p2v s a" "p2v (s\<lparr>vm_pmm := m\<rparr>) a = p2v s a"
  by (simp_all add: vm_zero_def clks_boot_phys_to_virt_def)

text \<open>The processor and the switches of the manager are unchanged.\<close>

definition vm_same :: "vm_state \<Rightarrow> vm_state \<Rightarrow> bool" where
  "vm_same s s' \<longleftrightarrow> vm_hhdm s' = vm_hhdm s \<and> vm_cr3 s' = vm_cr3 s \<and> vm_efer s' = vm_efer s \<and>
     clks_vm_ready s' = clks_vm_ready s \<and> clks_vm_nxe_ready s' = clks_vm_nxe_ready s \<and>
     clks_vm_kernel_cr3_value s' = clks_vm_kernel_cr3_value s"

lemma vm_same_refl [simp]: "vm_same s s" by (simp add: vm_same_def)

lemma vm_same_trans: "vm_same s s1 \<Longrightarrow> vm_same s1 s2 \<Longrightarrow> vm_same s s2" by (simp add: vm_same_def)

lemma vm_same_p2v: "vm_same s s' \<Longrightarrow> p2v s' a = p2v s a" by (simp add: vm_same_def clks_boot_phys_to_virt_def)

lemma vm_same_mapped: "vm_same s s' \<Longrightarrow> vm_mapped s' a = vm_mapped s a" by (simp add: vm_same_def vm_mapped_def)

lemma vm_same_root: "vm_same s s' \<Longrightarrow> vm_root s' = vm_root s" by (simp add: vm_same_def vm_root_def)

definition vm_full :: "nat list \<Rightarrow> bool" where
  "vm_full k \<longleftrightarrow> length k = 4 \<and> (\<forall>i \<in> set k. i < 512)"

lemma vm_full_split: "vm_full (a @ j # b) \<Longrightarrow> vm_path a \<and> j < 512"
  by (auto simp: vm_full_def vm_path_def)

text \<open>The tables of a space that belong to it alone, and those its operations may write.\<close>

definition vm_user :: "nat list \<Rightarrow> bool" where
  "vm_user p \<longleftrightarrow> p = [] \<or> 0 < hd p \<and> hd p < 256"

definition vm_private :: "vm_state \<Rightarrow> u64 \<Rightarrow> u64 set" where
  "vm_private s r = {t. \<exists>p. vm_path p \<and> vm_user p \<and> vm_walk s r p = Some t}"

definition vm_reach :: "vm_state \<Rightarrow> u64 \<Rightarrow> u64 set" where
  "vm_reach s r = {t. \<exists>p. vm_path p \<and> vm_walk s r p = Some t}"

definition vm_writes :: "vm_state \<Rightarrow> u64 \<Rightarrow> u64 set" where
  "vm_writes s r = vm_private s r \<union> pmm_avail (vm_pmm s)"

text \<open>Nothing outside a set of tables is written, and the set does not grow.\<close>

definition vm_frame :: "u64 \<Rightarrow> vm_state \<Rightarrow> vm_state \<Rightarrow> bool" where
  "vm_frame r s s' \<longleftrightarrow> vm_writes s' r \<subseteq> vm_writes s r \<and>
     (\<forall>u. u \<notin> vm_writes s r \<longrightarrow> vm_mem s' (p2v s u) = vm_mem s (p2v s u))"

lemma vm_frame_refl [simp]: "vm_frame r s s"
  by (simp add: vm_frame_def)

lemma vm_frame_trans:
  "vm_frame r s s1 \<Longrightarrow> vm_frame r s1 s2 \<Longrightarrow> vm_same s s1 \<Longrightarrow> vm_frame r s s2"
  unfolding vm_frame_def using vm_same_p2v by (metis subset_iff)

text \<open>A space whose tables are not written is not affected.\<close>

lemma vm_frame_other:
  assumes f: "vm_frame r s s'" and same: "vm_same s s'" and o: "vm_reach s q \<inter> vm_writes s r = {}"
  shows "vm_reach s' q = vm_reach s q" "vm_full k \<Longrightarrow> vm_resolve s' q k = vm_resolve s q k"
    "vm_reach s' q \<inter> vm_writes s' r = {}"
proof -
  have mem: "vm_mem s' (p2v s' u) = vm_mem s (p2v s u)" if "u \<in> vm_reach s q" for u
    using f o that vm_same_p2v [OF same] unfolding vm_frame_def by auto
  have w: "vm_walk s' q p = vm_walk s q p" if "vm_path p" for p
    using that
  proof (induction p rule: rev_induct)
    case (snoc j p)
    then have p: "vm_path p" "vm_walk s' q p = vm_walk s q p" by (simp_all add: vm_path_snoc)
    have "vm_child s' u j = vm_child s u j" if "vm_walk s q p = Some u" for u
    proof -
      have "u \<in> vm_reach s q" using that p(1) by (auto simp: vm_reach_def)
      then show ?thesis by (simp add: mem vm_child_def)
    qed
    with p(2) show ?case by (cases "vm_walk s q p") (simp_all add: vm_walk_snoc)
  qed simp
  then show r: "vm_reach s' q = vm_reach s q" by (auto simp: vm_reach_def)
  show "vm_reach s' q \<inter> vm_writes s' r = {}" using r o f by (auto simp: vm_frame_def)
  assume k: "vm_full k"
  show "vm_resolve s' q k = vm_resolve s q k"
  proof (rule vm_resolve_cong [of s q "[]"])
    show "vm_mem s' (p2v s u) j = vm_mem s (p2v s u) j" if "[] @ k = a @ j # b" "vm_walk s q a = Some u" for a j b u
    proof -
      have "u \<in> vm_reach s q" using that vm_full_split [of a j b] k by (auto simp: vm_reach_def)
      then show ?thesis using mem [of u] vm_same_p2v [OF same] by simp
    qed
  qed (use same in \<open>simp_all add: vm_same_def\<close>)
qed

lemma vm_user_snoc: "vm_user (p @ [i]) \<longleftrightarrow> (if p = [] then 0 < i \<and> i < 256 else vm_user p)"
  by (simp add: vm_user_def)

lemma vm_grow:
  assumes e: "vm_env_ok s" and T: "vm_tree_ok s r"
    and p: "vm_path p" "length p < 3" "vm_walk s r p = Some t" and i: "i < 512"
    and new: "\<not> has (vm_mem s (p2v s t) i) CLKS_VM_PTE_PRESENT"
    and al: "clks_pmm_alloc_page (vm_pmm s) = (f, m)" "f \<noteq> 0"
    and v: "has v CLKS_VM_PTE_PRESENT" "v AND CLKS_VM_PTE_PS = 0" "v AND CLKS_VM_PTE_ADDR_MASK = f"
    and s': "s' = vm_set (p2v s t) i v (vm_zero (p2v s f) (s\<lparr>vm_pmm := m\<rparr>))"
  shows "vm_env_ok s'" "vm_tree_ok s' r" "vm_same s s'" "vm_walk s' r (p @ [i]) = Some f"
    "vm_user p \<Longrightarrow> vm_frame r s s'" "\<And>k. vm_full k \<Longrightarrow> vm_resolve s' r k = vm_resolve s r k"
proof -
  have pi: "pmm_inv (vm_pmm s)" using e by (simp add: vm_env_ok_def)
  have f: "f \<in> pmm_avail (vm_pmm s)" "pmm_avail m = pmm_avail (vm_pmm s) - {f}" "pmm_inv m"
    using pmm.alloc_page [OF pi al] by blast+
  show same: "vm_same s s'" by (simp add: vm_same_def s')
  have pv: "p2v s' a = p2v s a" for a by (rule vm_same_p2v [OF same])
  show "vm_env_ok s'" using e f by (auto simp: vm_env_ok_def s' vm_mapped_def)
  have inj: "a = b" if "vm_path a" "vm_path b" "vm_walk s r a = Some u" "vm_walk s r b = Some u" for a b u
    using T that unfolding vm_tree_ok_def by blast
  have nf: "u \<noteq> f" if "vm_path a" "vm_walk s r a = Some u" for a u
    using T that f(1) unfolding vm_tree_ok_def by blast
  have mem: "vm_mem s' (p2v s u) j = (if u = t \<and> j = i then v else if u = f then 0 else vm_mem s (p2v s u) j)" for u j
    using p2v_inject [OF e, of u t] p2v_inject [OF e, of u f] nf [OF p(1,3)] by (auto simp: s' vm_set_mem)
  have cf: "vm_child s' f j = None" for j
    using nf [OF p(1,3)] by (simp add: vm_child_def pv mem)
  have walk: "vm_walk s' r q = (if q = p @ [i] then Some f else if prefix (p @ [i]) q then None else vm_walk s r q)"
    if "vm_path q" for q
    using that
  proof (induction q rule: rev_induct)
    case (snoc j q)
    have q: "vm_path q" using snoc.prems by (simp add: vm_path_snoc)
    show ?case
    proof (cases "prefix (p @ [i]) q")
      case True
      then have "q @ [j] \<noteq> p @ [i]" "prefix (p @ [i]) (q @ [j])" by (auto dest: prefix_length_le)
      with True snoc.IH [OF q] cf show ?thesis by (auto simp: vm_walk_snoc)
    next
      case False
      then have w: "vm_walk s' r q = vm_walk s r q" using snoc.IH [OF q] by auto
      show ?thesis
      proof (cases "q @ [j] = p @ [i]")
        case True
        moreover have "vm_child s' t i = Some f" using v by (simp add: vm_child_def pv mem)
        ultimately show ?thesis using w p(3) by (simp add: vm_walk_snoc)
      next
        case ne: False
        have "vm_child s' u j = vm_child s u j" if u: "vm_walk s r q = Some u" for u
        proof -
          have "u \<noteq> f" "\<not> (u = t \<and> j = i)" using nf [OF q u] inj [OF q p(1) u] p(3) ne by auto
          then show ?thesis by (auto simp: vm_child_def pv mem Let_def)
        qed
        with w ne False show ?thesis by (cases "vm_walk s r q") (auto simp: vm_walk_snoc)
      qed
    qed
  qed (simp add: prefix_def)
  show wpi: "vm_walk s' r (p @ [i]) = Some f" using walk [of "p @ [i]"] p i by (simp add: vm_path_snoc)
  have tab: "q = p @ [i] \<and> u = f \<or> vm_walk s r q = Some u" if "vm_path q" "vm_walk s' r q = Some u" for q u
    using walk [OF that(1)] that(2) by (auto split: if_splits)
  show "vm_frame r s s'" if u: "vm_user p"
  proof -
    have "t \<in> vm_writes s r" "f \<in> vm_writes s r" using p u f(1) by (auto simp: vm_writes_def vm_private_def)
    then have "vm_mem s' (p2v s a) = vm_mem s (p2v s a)" if "a \<notin> vm_writes s r" for a
      using that mem [of a] by (intro ext) auto
    moreover have "vm_writes s' r \<subseteq> vm_writes s r"
      using tab f(1,2) by (auto simp: vm_writes_def vm_private_def s')
    ultimately show ?thesis by (simp add: vm_frame_def)
  qed
  show "vm_tree_ok s' r"
    unfolding vm_tree_ok_def
  proof (intro conjI allI impI)
    show "a = b" if "vm_path a" "vm_path b" "vm_walk s' r a = Some u" "vm_walk s' r b = Some u" for a b u
      using tab [OF that(1,3)] tab [OF that(2,4)] inj [OF that(1,2)] nf [OF that(1)] nf [OF that(2)] by blast
    show "u \<notin> pmm_avail (vm_pmm s')" "vm_mapped s' u" if "vm_path a" "vm_walk s' r a = Some u" for a u
      using tab [OF that] that(1) T e f(1,2) vm_same_mapped [OF same] unfolding vm_tree_ok_def vm_env_ok_def
      by (auto simp: s')
    fix j :: nat
    assume "j < 512" "has (vm_mem s' (p2v s' r) j) CLKS_VM_PTE_PRESENT"
    moreover have "r \<noteq> f" using nf [of "[]" r] by simp
    ultimately show "\<not> has (vm_mem s' (p2v s' r) j) CLKS_VM_PTE_PS"
      using T v unfolding vm_tree_ok_def pv mem by (auto split: if_splits)
  qed
  fix k
  assume k: "vm_full k"
  show "vm_resolve s' r k = vm_resolve s r k"
  proof (cases "prefix (p @ [i]) k")
    case True
    then obtain b where b: "k = p @ i # b" by (auto simp: prefix_def)
    then obtain j b' where b': "b = j # b'" using k p(2) by (cases b) (auto simp: vm_full_def)
    have "vm_resolve s r k = vm_resolve s t (i # b)" unfolding b by (rule vm_resolve_walk [OF p(3)]) simp
    also have "\<dots> = None" using new by simp
    finally have 1: "vm_resolve s r k = None" .
    have "vm_walk s' r p = Some t" using walk [OF p(1)] p(3) by (auto dest: prefix_length_le)
    then have "vm_resolve s' r k = vm_resolve s' t (i # b)" unfolding b by (rule vm_resolve_walk) simp
    also have "\<dots> = vm_resolve s' f b" using v by (simp add: pv mem b' Let_def)
    also have "\<dots> = None" using nf [OF p(1,3)] by (simp add: b' pv mem)
    finally show ?thesis using 1 by simp
  next
    case False
    show ?thesis
    proof (rule vm_resolve_cong [of s r "[]"])
      show "vm_mem s' (p2v s u) j = vm_mem s (p2v s u) j"
        if "[] @ k = a @ j # b" "vm_walk s r a = Some u" for a j b u
      proof -
        have a: "vm_path a" using vm_full_split k that(1) by simp
        have "\<not> (a = p \<and> j = i)" using False that(1) by auto
        then have "u \<noteq> f" "\<not> (u = t \<and> j = i)" using nf [OF a that(2)] inj [OF a p(1) that(2)] p(3) by auto
        then show ?thesis by (auto simp: mem)
      qed
    qed (simp_all add: s')
  qed
qed

text \<open>One step down the tree, creating a table where there is none.\<close>

lemma next_table_spec:
  assumes e: "vm_env_ok s" and T: "vm_tree_ok s r" and r: "r AND CLKS_VM_PTE_ADDR_MASK = r"
    and p: "vm_path p" "length p < 3" "vm_walk s r p = Some t" and i: "i < 512"
    and tf: "tf = 0 \<or> tf = CLKS_VM_PTE_USER"
    and run: "clks_vm_next_table (p2v s t) i tf s = (res, s')"
  shows "vm_env_ok s' \<and> vm_tree_ok s' r \<and> vm_same s s' \<and> (vm_user p \<longrightarrow> vm_frame r s s') \<and>
    (\<forall>k. vm_full k \<longrightarrow> vm_resolve s' r k = vm_resolve s r k) \<and>
    (\<forall>v. res = Some v \<longrightarrow> (\<exists>u. v = p2v s u \<and> vm_walk s' r (p @ [i]) = Some u))"
proof (cases "has (vm_mem s (p2v s t) i) CLKS_VM_PTE_PRESENT")
  case True
  let ?u = "vm_mem s (p2v s t) i AND CLKS_VM_PTE_ADDR_MASK"
  have w: "vm_walk s r (p @ [i]) = Some ?u" if "\<not> has (vm_mem s (p2v s t) i) CLKS_VM_PTE_PS"
    using that True p(3) by (simp add: vm_walk_snoc vm_child_def Let_def)
  have "vm_path (p @ [i])" using p i by (simp add: vm_path_snoc)
  then have nn: "p2v s ?u \<noteq> 0" if "\<not> has (vm_mem s (p2v s t) i) CLKS_VM_PTE_PS"
    using p2v_nonnull [OF e] T w [OF that] unfolding vm_tree_ok_def by blast
  have "s' = s" "res = (if has (vm_mem s (p2v s t) i) CLKS_VM_PTE_PS then None else Some (p2v s ?u))"
    using run True nn by (auto simp: clks_vm_next_table_def Let_def split: if_splits)
  with w show ?thesis using e T by auto
next
  case False
  obtain f m where al: "clks_pmm_alloc_page (vm_pmm s) = (f, m)" by fastforce
  have pi: "pmm_inv (vm_pmm s)" using e by (simp add: vm_env_ok_def)
  show ?thesis
  proof (cases "f = 0")
    case True
    then have "m = vm_pmm s" using pmm.alloc_none [OF pi] al by blast
    then have "s' = s" "res = None"
      using run False al True by (auto simp: clks_vm_next_table_def vm_alloc_page_def Let_def)
    with e T show ?thesis by simp
  next
    case ne: False
    have f: "f AND CLKS_VM_PTE_ADDR_MASK = f" "vm_mapped s f"
      using pmm.alloc_page [OF pi al ne] e by (simp_all add: vm_env_ok_def)
    define v where "v = (f AND CLKS_VM_PTE_ADDR_MASK) OR CLKS_VM_PTE_PRESENT OR CLKS_VM_PTE_WRITE OR tf"
    note v = table_entry [OF tf v_def]
    define s2 where "s2 = vm_set (p2v s t) i v (vm_zero (p2v s f) (s\<lparr>vm_pmm := m\<rparr>))"
    note g = vm_grow [OF e T p i False al ne v(1,2) v(3) [unfolded f(1)] s2_def]
    have pf: "p2v s f \<noteq> 0" by (rule p2v_nonnull [OF e f(2)])
    have mv: "vm_mem s2 (p2v s t) i = v" by (simp add: s2_def vm_set_mem)
    have "p2v s2 f = p2v s f" by (simp add: s2_def)
    moreover have "f OR CLKS_VM_PTE_PRESENT OR CLKS_VM_PTE_WRITE OR tf = v" using f by (simp add: v_def)
    ultimately have "clks_vm_next_table (p2v s t) i tf s = (Some (p2v s f), s2)"
      using False al ne pf v f mv
      by (simp add: clks_vm_next_table_def vm_alloc_page_def Let_def s2_def [symmetric])
    with run g show ?thesis by auto
  qed
qed

text \<open>The index path of a virtual address, and the physical address behind an entry.\<close>

definition vm_indices :: "u64 \<Rightarrow> nat list" where
  "vm_indices va = [vm_index 39 va, vm_index 30 va, vm_index 21 va, vm_index 12 va]"

definition vm_address :: "nat \<Rightarrow> u64 \<Rightarrow> u64 \<Rightarrow> u64" where
  "vm_address level e va =
     (if level = 0 then (e AND CLKS_VM_PTE_ADDR_MASK) + (va AND (CLKS_VM_PAGE_SIZE - 1))
      else if level = 1 then (e AND 0x000FFFFFFFE00000) + (va AND (push_bit 21 1 - 1))
      else (e AND 0x000FFFFFC0000000) + (va AND (push_bit 30 1 - 1)))"

lemma vm_index_less: "vm_index sh va < 512"
proof -
  have "drop_bit sh va AND 0x1FF \<le> 0x1FF" by (rule word_and_le1)
  then show ?thesis by (simp add: vm_index_def word_le_nat_alt)
qed

lemma vm_full_indices [simp]: "vm_full (vm_indices va)"
  by (simp add: vm_full_def vm_indices_def vm_index_less)

lemma vm_env_pml4:
  assumes "vm_env_ok s" "vm_tree_ok s (vm_root s)"
  shows "clks_vm_current_pml4 s = p2v s (vm_root s)" "p2v s (vm_root s) \<noteq> 0"
    "vm_root s AND CLKS_VM_PTE_ADDR_MASK = vm_root s"
proof -
  show m: "vm_root s AND CLKS_VM_PTE_ADDR_MASK = vm_root s" by (simp add: vm_root_def)
  have "vm_mapped s (vm_root s)"
    using assms(2) vm_path_Nil vm_walk.simps(1) unfolding vm_tree_ok_def by blast
  then show "p2v s (vm_root s) \<noteq> 0" by (rule p2v_nonnull [OF assms(1)])
  show "clks_vm_current_pml4 s = p2v s (vm_root s)"
    using assms by (simp add: clks_vm_current_pml4_def vm_root_def vm_env_ok_def)
qed

lemma vm_child_nonnull:
  assumes "vm_ok s" "vm_walk s (vm_root s) p = Some t" "length p < 3" "\<forall>i \<in> set p. i < 512" "i < 512"
    and "vm_child s t i = Some u"
  shows "p2v s u \<noteq> 0" "vm_walk s (vm_root s) (p @ [i]) = Some u"
proof -
  show w: "vm_walk s (vm_root s) (p @ [i]) = Some u" using assms by (simp add: vm_walk_snoc)
  have "vm_path (p @ [i])" using assms by (auto simp: vm_path_def)
  then show "p2v s u \<noteq> 0" using p2v_nonnull w assms(1) unfolding vm_ok_def vm_tree_ok_def by blast
qed

lemma translate_resolve:
  assumes "vm_ok s"
  shows "clks_vm_translate_current va s =
    map_option (\<lambda>(l, e). (vm_address l e va, e)) (vm_resolve s (vm_root s) (vm_indices va))"
proof -
  have e: "vm_env_ok s" and T: "vm_tree_ok s (vm_root s)" using assms by (simp_all add: vm_ok_def)
  note pm = vm_env_pml4 [OF e T]
  have r: "clks_vm_ready s" using e by (simp add: vm_env_ok_def)
  have ps: "vm_mem s (p2v s (vm_root s)) (vm_index 39 va) AND CLKS_VM_PTE_PS = 0"
    if "has (vm_mem s (p2v s (vm_root s)) (vm_index 39 va)) CLKS_VM_PTE_PRESENT"
    using T that vm_index_less unfolding vm_tree_ok_def by blast
  define e4 where "e4 = vm_mem s (p2v s (vm_root s)) (vm_index 39 va)"
  define e3 where "e3 = vm_mem s (p2v s (e4 AND CLKS_VM_PTE_ADDR_MASK)) (vm_index 30 va)"
  define e2 where "e2 = vm_mem s (p2v s (e3 AND CLKS_VM_PTE_ADDR_MASK)) (vm_index 21 va)"
  have c4: "p2v s (e4 AND CLKS_VM_PTE_ADDR_MASK) \<noteq> 0 \<and>
      vm_walk s (vm_root s) [vm_index 39 va] = Some (e4 AND CLKS_VM_PTE_ADDR_MASK)" if "has e4 CLKS_VM_PTE_PRESENT"
    using vm_child_nonnull [OF assms, of "[]" "vm_root s" "vm_index 39 va" "e4 AND CLKS_VM_PTE_ADDR_MASK"] that ps
    by (simp add: vm_index_less vm_child_def e4_def Let_def)
  have c3: "p2v s (e3 AND CLKS_VM_PTE_ADDR_MASK) \<noteq> 0 \<and>
      vm_walk s (vm_root s) [vm_index 39 va, vm_index 30 va] = Some (e3 AND CLKS_VM_PTE_ADDR_MASK)"
    if "has e4 CLKS_VM_PTE_PRESENT" "has e3 CLKS_VM_PTE_PRESENT" "e3 AND CLKS_VM_PTE_PS = 0"
    using vm_child_nonnull [OF assms conjunct2 [OF c4 [OF that(1)]], of "vm_index 30 va" "e3 AND CLKS_VM_PTE_ADDR_MASK"] that
    by (simp add: vm_index_less vm_child_def e3_def Let_def)
  have c2: "p2v s (e2 AND CLKS_VM_PTE_ADDR_MASK) \<noteq> 0"
    if "has e4 CLKS_VM_PTE_PRESENT" "has e3 CLKS_VM_PTE_PRESENT" "e3 AND CLKS_VM_PTE_PS = 0"
      "has e2 CLKS_VM_PTE_PRESENT" "e2 AND CLKS_VM_PTE_PS = 0"
    using vm_child_nonnull [OF assms conjunct2 [OF c3 [OF that(1-3)]], of "vm_index 21 va" "e2 AND CLKS_VM_PTE_ADDR_MASK"] that
    by (simp add: vm_index_less vm_child_def e2_def Let_def)
  show ?thesis
    using ps c4 c3 c2
    by (auto simp: clks_vm_translate_current_def vm_indices_def pm r Let_def vm_address_def
      e4_def [symmetric] e3_def [symmetric] e2_def [symmetric])
qed

text \<open>Writing an entry of a last-level table.\<close>

lemma vm_leaf:
  assumes e: "vm_env_ok s" and T: "vm_tree_ok s r" and p: "vm_path p" "length p = 3" "vm_walk s r p = Some t"
    and i: "i < 512" and s': "s' = vm_set (p2v s t) i v s"
  shows "vm_tree_ok s' r" "vm_user p \<Longrightarrow> vm_frame r s s'" "vm_full k \<Longrightarrow> vm_resolve s' r k =
    (if k = p @ [i] then (if has v CLKS_VM_PTE_PRESENT then Some (0, v) else None) else vm_resolve s r k)"
proof -
  have walk: "vm_walk s' r q = vm_walk s r q" if "vm_path q" for q
    unfolding s' using that p(2)
    by (intro vm_set_walk [OF e T p(1,3)]) (auto simp: vm_path_def dest: prefix_length_le)
  have pv: "p2v s' a = p2v s a" for a by (simp add: s')
  have inj: "a = b" if "vm_path a" "vm_path b" "vm_walk s r a = Some u" "vm_walk s r b = Some u" for a b u
    using T that unfolding vm_tree_ok_def by blast
  have rt: "r \<noteq> t" using inj [OF p(1), of "[]" t] p by auto
  have "vm_mem s' (p2v s' r) j = vm_mem s (p2v s r) j" for j
    using rt p2v_inject [OF e, of r t] by (simp add: pv s' vm_set_mem)
  then show "vm_tree_ok s' r"
    using T unfolding vm_tree_ok_def by (simp add: walk) (simp add: s')
  show "vm_frame r s s'" if u: "vm_user p"
  proof -
    have "t \<in> vm_writes s r" using p u by (auto simp: vm_writes_def vm_private_def)
    then have "vm_mem s' (p2v s a) = vm_mem s (p2v s a)" if "a \<notin> vm_writes s r" for a
      using that p2v_inject [OF e, of a t] by (intro ext) (auto simp: s' vm_set_mem)
    moreover have "vm_writes s' r = vm_writes s r" using walk by (auto simp: vm_writes_def vm_private_def s')
    ultimately show ?thesis by (simp add: vm_frame_def)
  qed
  assume k: "vm_full k"
  show "vm_resolve s' r k =
    (if k = p @ [i] then (if has v CLKS_VM_PTE_PRESENT then Some (0, v) else None) else vm_resolve s r k)"
  proof (cases "k = p @ [i]")
    case True
    have "vm_resolve s' r k = vm_resolve s' t [i]"
      unfolding True by (rule vm_resolve_walk) (simp_all add: walk p)
    with True show ?thesis by (simp add: pv s' vm_set_mem Let_def)
  next
    case False
    have "vm_resolve s' r k = vm_resolve s r k"
    proof (rule vm_resolve_cong [of s r "[]"])
      show "vm_mem s' (p2v s u) j = vm_mem s (p2v s u) j"
        if "[] @ k = a @ j # b" "vm_walk s r a = Some u" for a j b u
      proof -
        have a: "vm_path a" using vm_full_split k that(1) by simp
        have "\<not> (a = p \<and> j = i)" using False that(1) k p(2) by (auto simp: vm_full_def)
        then have "\<not> (u = t \<and> j = i)" using inj [OF a p(1) that(2)] p(3) by blast
        then show ?thesis using p2v_inject [OF e, of u t] by (auto simp: s' vm_set_mem)
      qed
    qed (simp_all add: s')
    with False show ?thesis by simp
  qed
qed

lemma vm_ok_translate_cong:
  assumes "vm_ok s" "vm_ok s'" "vm_root s' = vm_root s"
    "vm_resolve s' (vm_root s) (vm_indices w) = vm_resolve s (vm_root s) (vm_indices w)"
  shows "clks_vm_translate_current w s' = clks_vm_translate_current w s"
  using assms by (simp add: translate_resolve)

lemma vm_ok_leaf:
  assumes ok: "vm_ok s" and p: "vm_walk s (vm_root s) [vm_index 39 va, vm_index 30 va, vm_index 21 va] = Some t"
    and s': "s' = vm_set (p2v s t) (vm_index 12 va) v s"
  shows "vm_ok s'" "vm_same s s'"
    "0 < vm_index 39 va \<and> vm_index 39 va < 256 \<Longrightarrow> vm_frame (vm_root s) s s'"
    "clks_vm_translate_current w s' =
    (if vm_indices w = vm_indices va
     then if has v CLKS_VM_PTE_PRESENT then Some ((v AND CLKS_VM_PTE_ADDR_MASK) + (w AND (CLKS_VM_PAGE_SIZE - 1)), v) else None
     else clks_vm_translate_current w s)"
proof -
  have e: "vm_env_ok s" and T: "vm_tree_ok s (vm_root s)" using ok by (simp_all add: vm_ok_def)
  have pp: "vm_path [vm_index 39 va, vm_index 30 va, vm_index 21 va]"
    by (simp add: vm_path_def vm_index_less)
  have len: "length [vm_index 39 va, vm_index 30 va, vm_index 21 va] = 3" by simp
  note l = vm_leaf [OF e T pp len p vm_index_less s']
  have pq: "[vm_index 39 va, vm_index 30 va, vm_index 21 va] @ [vm_index 12 va] = vm_indices va"
    by (simp add: vm_indices_def)
  show ok': "vm_ok s'" using l(1) e by (simp add: vm_ok_def s')
  show "vm_same s s'" by (simp add: vm_same_def s')
  show "vm_frame (vm_root s) s s'" if "0 < vm_index 39 va \<and> vm_index 39 va < 256"
    using that by (intro l(2)) (simp add: vm_user_def)
  have "vm_resolve s' (vm_root s) (vm_indices w) =
    (if vm_indices w = vm_indices va then (if has v CLKS_VM_PTE_PRESENT then Some (0, v) else None)
     else vm_resolve s (vm_root s) (vm_indices w))"
    using l(3) [OF vm_full_indices, of w] unfolding pq .
  then show "clks_vm_translate_current w s' =
    (if vm_indices w = vm_indices va
     then if has v CLKS_VM_PTE_PRESENT then Some ((v AND CLKS_VM_PTE_ADDR_MASK) + (w AND (CLKS_VM_PAGE_SIZE - 1)), v) else None
     else clks_vm_translate_current w s)"
    using translate_resolve [OF ok] translate_resolve [OF ok'] by (simp add: s' vm_address_def)
qed

lemma map_page_spec:
  assumes ok: "vm_ok s" and run: "clks_vm_map_page_current va pa flags s = (r, s')"
  shows "vm_ok s' \<and> vm_same s s' \<and>
    (0 < vm_index 39 va \<and> vm_index 39 va < 256 \<longrightarrow> vm_frame (vm_root s) s s') \<and>
    (let e = (pa AND CLKS_VM_PTE_ADDR_MASK) OR clks_vm_entry_flags_from_api flags s in
     \<forall>w. clks_vm_translate_current w s' =
       (if r \<and> vm_indices w = vm_indices va
        then Some ((pa AND CLKS_VM_PTE_ADDR_MASK) + (w AND (CLKS_VM_PAGE_SIZE - 1)), e)
        else clks_vm_translate_current w s))"
proof (cases "unaligned va \<or> unaligned pa")
  case True
  then have "r = False" "s' = s" using run by (auto simp: clks_vm_map_page_current_def)
  with ok show ?thesis by simp
next
  case al: False
  have e: "vm_env_ok s" and T: "vm_tree_ok s (vm_root s)" using ok by (simp_all add: vm_ok_def)
  note pm = vm_env_pml4 [OF e T]
  have rd: "clks_vm_ready s" using e by (simp add: vm_env_ok_def)
  define tf where "tf = (if has flags CLKS_VM_FLAG_USER then CLKS_VM_PTE_USER else 0)"
  have tf: "tf = 0 \<or> tf = CLKS_VM_PTE_USER" by (simp add: tf_def)
  let ?r = "vm_root s"
  have keep: "vm_ok t \<and> vm_same s t \<and> (\<forall>w. clks_vm_translate_current w t = clks_vm_translate_current w s)"
    if "vm_env_ok t" "vm_tree_ok t ?r" "vm_same s t" "\<And>k. vm_full k \<Longrightarrow> vm_resolve t ?r k = vm_resolve s ?r k" for t
  proof -
    have "vm_ok t" using that(1,2) vm_same_root [OF that(3)] by (simp add: vm_ok_def)
    with that(3,4) vm_ok_translate_cong [OF ok _ vm_same_root [OF that(3)]] show ?thesis by simp
  qed
  have fail: ?thesis if "r = False" "vm_env_ok s'" "vm_tree_ok s' ?r" "vm_same s s'"
    "0 < vm_index 39 va \<and> vm_index 39 va < 256 \<longrightarrow> vm_frame ?r s s'"
    "\<And>k. vm_full k \<Longrightarrow> vm_resolve s' ?r k = vm_resolve s ?r k"
    using keep [OF that(2-4,6)] that(1,5) by simp
  obtain o1 s1 where n1: "clks_vm_next_table (p2v s ?r) (vm_index 39 va) tf s = (o1, s1)" by fastforce
  have sp1: "vm_env_ok s1 \<and> vm_tree_ok s1 ?r \<and> vm_same s s1 \<and> (vm_user [] \<longrightarrow> vm_frame ?r s s1) \<and>
    (\<forall>k. vm_full k \<longrightarrow> vm_resolve s1 ?r k = vm_resolve s ?r k) \<and>
    (\<forall>v. o1 = Some v \<longrightarrow> (\<exists>u. v = p2v s u \<and> vm_walk s1 ?r ([] @ [vm_index 39 va]) = Some u))"
    by (rule next_table_spec [OF e T pm(3) vm_path_Nil _ _ vm_index_less tf n1]) simp_all
  have step: "clks_vm_map_page_current va pa flags s =
    (case o1 of None \<Rightarrow> (False, s1)
     | Some pdpt \<Rightarrow>
         (case clks_vm_next_table pdpt (vm_index 30 va) tf s1 of
            (None, s2) \<Rightarrow> (False, s2)
          | (Some pd, s2) \<Rightarrow>
              (case clks_vm_next_table pd (vm_index 21 va) tf s2 of
                 (None, s3) \<Rightarrow> (False, s3)
               | (Some pt, s3) \<Rightarrow>
                   (True, vm_set pt (vm_index 12 va)
                      ((pa AND CLKS_VM_PTE_ADDR_MASK) OR clks_vm_entry_flags_from_api flags s3) s3))))"
    using al rd pm n1 by (simp add: clks_vm_map_page_current_def tf_def [symmetric] Let_def)
  show ?thesis
  proof (cases o1)
    case None
    with step run sp1 show ?thesis by (intro fail) (auto simp: vm_user_def)
  next
    case (Some v1)
    with sp1 obtain u1 where u1: "v1 = p2v s1 u1" "vm_walk s1 ?r [vm_index 39 va] = Some u1"
      using vm_same_p2v by (auto simp del: vm_walk.simps)
    have pp1: "vm_path [vm_index 39 va]" by (simp add: vm_path_def vm_index_less)
    obtain o2 s2 where n2: "clks_vm_next_table (p2v s1 u1) (vm_index 30 va) tf s1 = (o2, s2)" by fastforce
    have sp2: "vm_env_ok s2 \<and> vm_tree_ok s2 ?r \<and> vm_same s1 s2 \<and> (vm_user [vm_index 39 va] \<longrightarrow> vm_frame ?r s1 s2) \<and>
      (\<forall>k. vm_full k \<longrightarrow> vm_resolve s2 ?r k = vm_resolve s1 ?r k) \<and>
      (\<forall>v. o2 = Some v \<longrightarrow> (\<exists>u. v = p2v s1 u \<and> vm_walk s2 ?r ([vm_index 39 va] @ [vm_index 30 va]) = Some u))"
      by (rule next_table_spec [OF _ _ pm(3) pp1 _ u1(2) vm_index_less tf n2]) (use sp1 in simp_all)
    show ?thesis
    proof (cases o2)
      case None
      with step run sp1 sp2 Some u1(1) n2 show ?thesis
        by (intro fail) (auto simp: vm_user_def intro: vm_same_trans vm_frame_trans)
    next
      case (Some v2)
      with sp2 obtain u2 where u2: "v2 = p2v s2 u2" "vm_walk s2 ?r [vm_index 39 va, vm_index 30 va] = Some u2"
        using vm_same_p2v by auto
      have pp2: "vm_path [vm_index 39 va, vm_index 30 va]" by (simp add: vm_path_def vm_index_less)
      obtain o3 s3 where n3: "clks_vm_next_table (p2v s2 u2) (vm_index 21 va) tf s2 = (o3, s3)" by fastforce
      have sp3: "vm_env_ok s3 \<and> vm_tree_ok s3 ?r \<and> vm_same s2 s3 \<and> (vm_user [vm_index 39 va, vm_index 30 va] \<longrightarrow> vm_frame ?r s2 s3) \<and>
        (\<forall>k. vm_full k \<longrightarrow> vm_resolve s3 ?r k = vm_resolve s2 ?r k) \<and>
        (\<forall>v. o3 = Some v \<longrightarrow> (\<exists>u. v = p2v s2 u \<and>
          vm_walk s3 ?r ([vm_index 39 va, vm_index 30 va] @ [vm_index 21 va]) = Some u))"
        by (rule next_table_spec [OF _ _ pm(3) pp2 _ u2(2) vm_index_less tf n3]) (use sp2 in simp_all)
      have same3: "vm_same s s3"
        by (rule vm_same_trans [OF vm_same_trans [of s s1 s2]]) (use sp1 sp2 sp3 in simp_all)
      have fr3: "0 < vm_index 39 va \<and> vm_index 39 va < 256 \<longrightarrow> vm_frame ?r s s3"
      proof
        assume "0 < vm_index 39 va \<and> vm_index 39 va < 256"
        then have "vm_frame ?r s s1" "vm_frame ?r s1 s2" "vm_frame ?r s2 s3"
          using sp1 sp2 sp3 by (simp_all add: vm_user_def)
        moreover have "vm_same s s1" "vm_same s s2" using sp1 sp2 vm_same_trans [of s s1 s2] by simp_all
        ultimately show "vm_frame ?r s s3" using vm_frame_trans by blast
      qed
      have res3: "vm_resolve s3 ?r k = vm_resolve s ?r k" if "vm_full k" for k using sp1 sp2 sp3 that by simp
      have k3: "vm_ok s3" "clks_vm_translate_current w s3 = clks_vm_translate_current w s" for w
        using keep [OF _ _ same3 res3] sp3 by blast+
      show ?thesis
      proof (cases o3)
        case None
        with step run \<open>o1 = Some v1\<close> Some u1(1) u2(1) n2 n3 have "r = False" "s' = s3" by auto
        with sp3 same3 res3 fr3 show ?thesis by (intro fail) auto
      next
        case (Some v3)
        with sp3 obtain u3 where u3: "v3 = p2v s3 u3"
          "vm_walk s3 ?r [vm_index 39 va, vm_index 30 va, vm_index 21 va] = Some u3"
          using vm_same_p2v by auto
        let ?e = "(pa AND CLKS_VM_PTE_ADDR_MASK) OR clks_vm_entry_flags_from_api flags s3"
        have fl: "clks_vm_entry_flags_from_api flags s3 = clks_vm_entry_flags_from_api flags s"
          using same3 by (simp add: clks_vm_entry_flags_from_api_def vm_same_def)
        have res: "r = True" "s' = vm_set (p2v s3 u3) (vm_index 12 va) ?e s3"
          using step run \<open>o1 = Some v1\<close> \<open>o2 = Some v2\<close> Some u1(1) u2(1) u3(1) n2 n3 by auto
        have w3: "vm_walk s3 (vm_root s3) [vm_index 39 va, vm_index 30 va, vm_index 21 va] = Some u3"
          using u3(2) vm_same_root [OF same3] by simp
        note lf = vm_ok_leaf [OF k3(1) w3 res(2)]
        have fr: "0 < vm_index 39 va \<and> vm_index 39 va < 256 \<longrightarrow> vm_frame ?r s s'"
          using fr3 lf(3) vm_frame_trans [OF _ _ same3, of ?r s'] vm_same_root [OF same3] by simp
        show ?thesis
          using lf(1,2,4) vm_same_trans [OF same3 lf(2)] fr leaf_entry [OF refl, of pa flags s3] res(1) k3(2)
          by (simp add: Let_def fl)
      qed
    qed
  qed
qed

section \<open>Protecting and unmapping\<close>

lemma vm_down_child:
  assumes "vm_ok s" "vm_walk s (vm_root s) p = Some t" "length p < 3" "\<forall>i \<in> set p. i < 512" "i < 512"
  shows "vm_down (p2v s t) i s = map_option (p2v s) (vm_child s t i)"
  using vm_child_nonnull(1) [OF assms] by (auto simp: vm_down_def vm_child_def Let_def)

lemma find_pt_walk:
  assumes ok: "vm_ok s"
  shows "vm_find_pt va s = Option.bind (vm_walk s (vm_root s) [vm_index 39 va, vm_index 30 va, vm_index 21 va])
    (\<lambda>t. if has (vm_mem s (p2v s t) (vm_index 12 va)) CLKS_VM_PTE_PRESENT then Some (p2v s t) else None)"
proof -
  have e: "vm_env_ok s" "vm_tree_ok s (vm_root s)" using ok by (simp_all add: vm_ok_def)
  note ix = vm_index_less
  have d: "vm_down (p2v s (vm_root s)) (vm_index 39 va) s = map_option (p2v s) (vm_child s (vm_root s) (vm_index 39 va))"
    by (rule vm_down_child [OF ok, of "[]"]) (simp_all add: ix)
  show ?thesis
  proof (cases "vm_child s (vm_root s) (vm_index 39 va)")
    case None
    with d vm_env_pml4 [OF e] show ?thesis by (simp add: vm_find_pt_def)
  next
    case (Some u)
    then have w: "vm_walk s (vm_root s) [vm_index 39 va] = Some u" by simp
    have d2: "vm_down (p2v s u) (vm_index 30 va) s = map_option (p2v s) (vm_child s u (vm_index 30 va))"
      by (rule vm_down_child [OF ok w]) (simp_all add: ix)
    have d3: "vm_down (p2v s w) (vm_index 21 va) s = map_option (p2v s) (vm_child s w (vm_index 21 va))"
      if "vm_child s u (vm_index 30 va) = Some w" for w
    proof (rule vm_down_child [OF ok, of "[vm_index 39 va, vm_index 30 va]"])
      show "vm_walk s (vm_root s) [vm_index 39 va, vm_index 30 va] = Some w" using Some that by simp
    qed (simp_all add: ix)
    show ?thesis
      using d d2 d3 Some vm_env_pml4 [OF e]
      by (cases "vm_child s u (vm_index 30 va)")
        (auto simp: vm_find_pt_def bind_map_option o_def split: option.split)
  qed
qed

lemma find_pt_Some:
  assumes ok: "vm_ok s" and f: "vm_find_pt va s = Some v"
  shows "\<exists>t. v = p2v s t \<and> vm_walk s (vm_root s) [vm_index 39 va, vm_index 30 va, vm_index 21 va] = Some t \<and>
    has (vm_mem s v (vm_index 12 va)) CLKS_VM_PTE_PRESENT \<and>
    clks_vm_translate_current w s =
      (if vm_indices w = vm_indices va
       then Some ((vm_mem s v (vm_index 12 va) AND CLKS_VM_PTE_ADDR_MASK) + (w AND (CLKS_VM_PAGE_SIZE - 1)),
          vm_mem s v (vm_index 12 va))
       else clks_vm_translate_current w s)"
proof -
  obtain t where t: "vm_walk s (vm_root s) [vm_index 39 va, vm_index 30 va, vm_index 21 va] = Some t"
    "has (vm_mem s (p2v s t) (vm_index 12 va)) CLKS_VM_PTE_PRESENT" "v = p2v s t"
    using f unfolding find_pt_walk [OF ok] by (auto simp: bind_eq_Some_conv split: if_splits)
  have "vm_resolve s (vm_root s) (vm_indices va) = vm_resolve s t [vm_index 12 va]"
    using vm_resolve_walk [OF t(1), of "[vm_index 12 va]"] by (simp add: vm_indices_def)
  then have "vm_resolve s (vm_root s) (vm_indices va) = Some (0, vm_mem s v (vm_index 12 va))"
    using t(2,3) by (simp add: Let_def)
  then show ?thesis using t by (auto simp: translate_resolve [OF ok] vm_address_def)
qed

lemma unmap_page_spec:
  assumes ok: "vm_ok s" and run: "clks_vm_unmap_page_current va s = (r, s')"
  shows "case r of None \<Rightarrow> s' = s
    | Some pa \<Rightarrow> vm_ok s' \<and> vm_same s s' \<and>
        (\<exists>e. has e CLKS_VM_PTE_PRESENT \<and> pa = e AND CLKS_VM_PTE_ADDR_MASK \<and>
          (\<forall>w. vm_indices w = vm_indices va \<longrightarrow>
            clks_vm_translate_current w s = Some (pa + (w AND (CLKS_VM_PAGE_SIZE - 1)), e))) \<and>
        (\<forall>w. clks_vm_translate_current w s' =
          (if vm_indices w = vm_indices va then None else clks_vm_translate_current w s))"
proof (cases "unaligned va \<or> vm_find_pt va s = None")
  case True
  then have "r = None" "s' = s" using run by (auto simp: clks_vm_unmap_page_current_def split: if_splits)
  then show ?thesis by simp
next
  case False
  then obtain v where v: "vm_find_pt va s = Some v" by auto
  obtain t where t: "v = p2v s t" "vm_walk s (vm_root s) [vm_index 39 va, vm_index 30 va, vm_index 21 va] = Some t"
    "has (vm_mem s v (vm_index 12 va)) CLKS_VM_PTE_PRESENT" using find_pt_Some [OF ok v] by blast
  have "clks_vm_ready s" using ok by (simp add: vm_ok_def vm_env_ok_def)
  then have r: "r = Some (vm_mem s v (vm_index 12 va) AND CLKS_VM_PTE_ADDR_MASK)"
    and s': "s' = vm_set (p2v s t) (vm_index 12 va) 0 s"
    using run False v t(1) by (simp_all add: clks_vm_unmap_page_current_def Let_def)
  note l = vm_ok_leaf [OF ok t(2) s']
  have "\<exists>e. has e CLKS_VM_PTE_PRESENT \<and> vm_mem s v (vm_index 12 va) AND CLKS_VM_PTE_ADDR_MASK = e AND CLKS_VM_PTE_ADDR_MASK \<and>
          (\<forall>w. vm_indices w = vm_indices va \<longrightarrow> clks_vm_translate_current w s =
            Some ((vm_mem s v (vm_index 12 va) AND CLKS_VM_PTE_ADDR_MASK) + (w AND (CLKS_VM_PAGE_SIZE - 1)), e))"
    using t(3) find_pt_Some [OF ok v] by (intro exI [of _ "vm_mem s v (vm_index 12 va)"]) metis
  with l show ?thesis by (simp add: r)
qed

lemma protect_page_spec:
  assumes ok: "vm_ok s" and run: "clks_vm_protect_page_current va flags s = (r, s')"
  shows "if r then vm_ok s' \<and> vm_same s s' \<and>
      (\<exists>e. (\<forall>w. vm_indices w = vm_indices va \<longrightarrow> clks_vm_translate_current w s =
           Some ((e AND CLKS_VM_PTE_ADDR_MASK) + (w AND (CLKS_VM_PAGE_SIZE - 1)), e)) \<and>
         (\<forall>w. clks_vm_translate_current w s' = (if vm_indices w = vm_indices va
           then Some ((e AND CLKS_VM_PTE_ADDR_MASK) + (w AND (CLKS_VM_PAGE_SIZE - 1)),
             (e AND CLKS_VM_PTE_ADDR_MASK) OR clks_vm_entry_flags_from_api flags s)
           else clks_vm_translate_current w s)))
    else s' = s"
proof (cases "unaligned va \<or> vm_find_pt va s = None")
  case True
  then have "r = False" "s' = s" using run by (auto simp: clks_vm_protect_page_current_def split: if_splits)
  then show ?thesis by simp
next
  case False
  then obtain v where v: "vm_find_pt va s = Some v" by auto
  obtain t where t: "v = p2v s t" "vm_walk s (vm_root s) [vm_index 39 va, vm_index 30 va, vm_index 21 va] = Some t"
    using find_pt_Some [OF ok v] by blast
  let ?e = "vm_mem s v (vm_index 12 va)"
  let ?n = "(?e AND CLKS_VM_PTE_ADDR_MASK) OR clks_vm_entry_flags_from_api flags s"
  have "clks_vm_ready s" using ok by (simp add: vm_ok_def vm_env_ok_def)
  then have r: "r = True" and s': "s' = vm_set (p2v s t) (vm_index 12 va) ?n s"
    using run False v t(1) by (simp_all add: clks_vm_protect_page_current_def Let_def)
  note l = vm_ok_leaf [OF ok t(2) s']
  have "\<forall>w. vm_indices w = vm_indices va \<longrightarrow> clks_vm_translate_current w s =
           Some ((?e AND CLKS_VM_PTE_ADDR_MASK) + (w AND (CLKS_VM_PAGE_SIZE - 1)), ?e)"
    using find_pt_Some [OF ok v] by metis
  with l leaf_entry [OF refl, of ?e flags s] show ?thesis
    unfolding r if_True by (intro conjI exI [of _ ?e]) simp_all
qed


section \<open>Creating and destroying address spaces\<close>

lemma copy_entries:
  assumes "d \<noteq> k"
  shows "vm_mem (fold (\<lambda>i t. vm_set d i (vm_mem t k i) t) [a..<b] s) u j =
      (if u = d \<and> a \<le> j \<and> j < b then vm_mem s k j else vm_mem s u j) \<and>
    vm_same s (fold (\<lambda>i t. vm_set d i (vm_mem t k i) t) [a..<b] s) \<and>
    vm_pmm (fold (\<lambda>i t. vm_set d i (vm_mem t k i) t) [a..<b] s) = vm_pmm s"
proof (induction b arbitrary: u j)
  case (Suc b)
  show ?case
  proof (cases "a \<le> b")
    case True
    define t where "t = fold (\<lambda>i t. vm_set d i (vm_mem t k i) t) [a..<b] s"
    have t: "vm_mem t u j = (if u = d \<and> a \<le> j \<and> j < b then vm_mem s k j else vm_mem s u j)"
      "vm_mem t k b = vm_mem s k b" "vm_same s t" "vm_pmm t = vm_pmm s" for u j
      using Suc.IH [folded t_def] assms by auto
    have "vm_same s (vm_set d b (vm_mem t k b) t)" using t(3) by (simp add: vm_same_def)
    with True t show ?thesis by (auto simp: t_def [symmetric] vm_set_mem less_Suc_eq)
  qed auto
qed (simp add: vm_same_def)

lemma create_space_spec:
  assumes e: "vm_env_ok s" and k: "clks_vm_kernel_cr3_value s = kr" "kr \<noteq> 0" "kr AND CLKS_VM_PTE_ADDR_MASK = kr"
    and T: "vm_tree_ok s kr" and run: "clks_vm_create_address_space s = (n, s')"
  shows "if n = 0 then s' = s
    else n \<in> pmm_avail (vm_pmm s) \<and> vm_env_ok s' \<and> vm_same s s' \<and> vm_tree_ok s' n \<and>
      n AND CLKS_VM_PTE_ADDR_MASK = n \<and> vm_writes s' n = pmm_avail (vm_pmm s) \<and>
      pmm_avail (vm_pmm s') = pmm_avail (vm_pmm s) - {n} \<and>
      (\<forall>u. u \<noteq> n \<longrightarrow> vm_mem s' (p2v s u) = vm_mem s (p2v s u)) \<and>
      (\<forall>idx. vm_full idx \<longrightarrow> vm_resolve s' n idx = (if hd idx = 0 \<or> 256 \<le> hd idx then vm_resolve s kr idx else None))"
proof -
  have rd: "clks_vm_ready s" "pmm_inv (vm_pmm s)" using e by (simp_all add: vm_env_ok_def)
  have "vm_mapped s kr" using T vm_path_Nil vm_walk.simps(1) unfolding vm_tree_ok_def by blast
  then have kp: "p2v s kr \<noteq> 0" by (rule p2v_nonnull [OF e])
  obtain f m where al: "clks_pmm_alloc_page (vm_pmm s) = (f, m)" by fastforce
  show ?thesis
  proof (cases "f = 0")
    case True
    then have "m = vm_pmm s" using pmm.alloc_none [OF rd(2)] al by blast
    then have "n = 0" "s' = s" using run rd k kp True al
      by (auto simp: clks_vm_create_address_space_def vm_alloc_page_def Let_def)
    then show ?thesis by simp
  next
    case False
    have f: "f \<in> pmm_avail (vm_pmm s)" "pmm_avail m = pmm_avail (vm_pmm s) - {f}" "pmm_inv m"
      using pmm.alloc_page [OF rd(2) al False] by blast+
    have fm: "f AND CLKS_VM_PTE_ADDR_MASK = f" using e f(1) by (simp add: vm_env_ok_def)
    have fmap: "vm_mapped s f" using e f(1) by (simp add: vm_env_ok_def)
    have fp: "p2v s f \<noteq> 0" by (rule p2v_nonnull [OF e fmap])
    have nf: "u \<noteq> f" if "vm_path a" "vm_walk s kr a = Some u" for a u
      using T that f(1) unfolding vm_tree_ok_def by blast
    have kf: "kr \<noteq> f" using nf [of "[]" kr] by simp
    then have pk: "p2v s f \<noteq> p2v s kr" using p2v_inject [OF e] by auto
    define s2 where "s2 = vm_zero (p2v s f) (s\<lparr>vm_pmm := m\<rparr>)"
    define s3 where "s3 = vm_set (p2v s f) 0 (vm_mem s2 (p2v s kr) 0) s2"
    define s4 where "s4 = fold (\<lambda>i t. vm_set (p2v s f) i (vm_mem t (p2v s kr) i) t) [256..<512] s3"
    have "clks_vm_create_address_space s = (f, s4)"
      using rd k kp al False fp fm pk pk [symmetric]
      by (simp add: clks_vm_create_address_space_def vm_alloc_page_def Let_def s4_def s3_def s2_def
          del: upt_rec_numeral)
    then have "n = f" "s' = s4" using run by simp_all
    note cp = copy_entries [OF pk, of 256 512 s3, folded s4_def]
    have same: "vm_same s s'"
      using cp \<open>s' = s4\<close> by (simp add: vm_same_def s3_def s2_def)
    have pm: "vm_pmm s' = m" using cp \<open>s' = s4\<close> by (simp add: s3_def s2_def)
    have pv: "p2v s' a = p2v s a" for a by (rule vm_same_p2v [OF same])
    have mem: "vm_mem s' (p2v s u) j =
      (if u = f then if j = 0 \<or> 256 \<le> j \<and> j < 512 then vm_mem s (p2v s kr) j else 0 else vm_mem s (p2v s u) j)" for u j
    proof -
      have pe: "p2v s u = p2v s f \<longleftrightarrow> u = f" by (rule p2v_inject [OF e])
      have m3: "vm_mem s3 v i = (if v = p2v s f then if i = 0 then vm_mem s (p2v s kr) 0 else 0 else vm_mem s v i)" for v i
        using pk by (simp add: s3_def s2_def vm_set_mem)
      show ?thesis unfolding \<open>s' = s4\<close> conjunct1 [OF cp] m3 pe using pk by simp
    qed
    have ch: "vm_child s' u j = vm_child s u j" if "u \<noteq> f" for u j
      using that by (simp add: vm_child_def pv mem)
    have chf: "vm_child s' f j = (if j = 0 \<or> 256 \<le> j \<and> j < 512 then vm_child s kr j else None)" for j
      by (simp add: vm_child_def pv mem)
    have wk: "vm_walk s' kr a = vm_walk s kr a" if "vm_path a" for a
      using that
    proof (induction a rule: rev_induct)
      case (snoc j a)
      then have a: "vm_path a" "vm_walk s' kr a = vm_walk s kr a" by (simp_all add: vm_path_snoc)
      show ?case
      proof (cases "vm_walk s kr a")
        case (Some u)
        with nf [OF a(1) Some] a(2) ch show ?thesis by (simp add: vm_walk_snoc)
      qed (use a(2) in \<open>simp add: vm_walk_snoc\<close>)
    qed simp
    have wf: "vm_walk s' f (j # a) = (if j = 0 \<or> 256 \<le> j then vm_walk s kr (j # a) else None)" if "vm_path (j # a)" for j a
    proof (cases "j = 0 \<or> 256 \<le> j")
      case True
      then have "vm_child s' f j = vm_child s' kr j" using that chf ch [OF kf] by (simp add: vm_path_def)
      then have "vm_walk s' f (j # a) = vm_walk s' kr (j # a)" by simp
      with True wk [OF that] show ?thesis by simp
    qed (simp add: chf)
    have wf2: "a = [] \<and> u = f \<or> a \<noteq> [] \<and> \<not> vm_user a \<and> vm_walk s kr a = Some u" if "vm_path a" "vm_walk s' f a = Some u" for a u
      using that wf by (cases a) (auto simp: vm_user_def split: if_splits)
    have tree: "vm_tree_ok s' f"
      unfolding vm_tree_ok_def
    proof (intro conjI allI impI)
      show "a = b" if "vm_path a" "vm_path b" "vm_walk s' f a = Some u" "vm_walk s' f b = Some u" for a b u
        using wf2 [OF that(1,3)] wf2 [OF that(2,4)] nf [OF that(1)] nf [OF that(2)] T that(1,2)
        unfolding vm_tree_ok_def by blast
      show "u \<notin> pmm_avail (vm_pmm s')" "vm_mapped s' u" if "vm_path a" "vm_walk s' f a = Some u" for a u
        using wf2 [OF that] T that(1) f(2) fmap vm_same_mapped [OF same] unfolding vm_tree_ok_def pm by auto
      show "\<not> has (vm_mem s' (p2v s' f) j) CLKS_VM_PTE_PS"
        if "j < 512" "has (vm_mem s' (p2v s' f) j) CLKS_VM_PTE_PRESENT" for j
        using that T unfolding vm_tree_ok_def pv mem by (auto split: if_splits)
    qed
    have priv: "vm_private s' f = {f}"
    proof
      show "vm_private s' f \<subseteq> {f}" unfolding vm_private_def using wf2 by blast
      show "{f} \<subseteq> vm_private s' f"
        by (auto simp: vm_private_def vm_user_def intro!: exI [of _ "[]"])
    qed
    have res: "vm_resolve s' f idx = (if hd idx = 0 \<or> 256 \<le> hd idx then vm_resolve s kr idx else None)" if full: "vm_full idx" for idx
    proof -
      obtain j a where idx: "idx = j # a" using full by (cases idx) (auto simp: vm_full_def)
      show ?thesis
      proof (cases "j = 0 \<or> 256 \<le> j")
        case True
        then have "vm_mem s' (p2v s' f) j = vm_mem s' (p2v s' kr) j"
          using full kf idx by (auto simp: vm_full_def pv mem)
        then have "vm_resolve s' f idx = vm_resolve s' kr idx" by (simp add: idx)
        also have "\<dots> = vm_resolve s kr idx"
        proof (rule vm_resolve_cong [of s kr "[]"])
          show "vm_mem s' (p2v s u) i = vm_mem s (p2v s u) i" if "[] @ idx = b @ i # c" "vm_walk s kr b = Some u" for b i c u
            using nf [of b u] that vm_full_split [of b i c] full by (simp add: mem)
        qed (use same in \<open>simp_all add: vm_same_def\<close>)
        finally show ?thesis using True idx by simp
      next
        case False
        then show ?thesis by (simp add: idx pv mem)
      qed
    qed
    have "vm_env_ok s'" using e same f vm_same_mapped [OF same] by (auto simp: vm_env_ok_def vm_same_def pm)
    moreover have "vm_writes s' f = pmm_avail (vm_pmm s)" using f by (auto simp: vm_writes_def priv pm)
    moreover have "\<forall>u. u \<noteq> f \<longrightarrow> vm_mem s' (p2v s u) = vm_mem s (p2v s u)" by (auto simp: mem)
    ultimately show ?thesis
      unfolding \<open>n = f\<close> using False f same tree fm res by (simp add: pm)
  qed
qed

text \<open>Mapping a page of another address space.\<close>

lemma vm_cr3_simps [simp]:
  "vm_walk (s\<lparr>vm_cr3 := c\<rparr>) r p = vm_walk s r p" "vm_resolve (s\<lparr>vm_cr3 := c\<rparr>) r p = vm_resolve s r p"
  "vm_tree_ok (s\<lparr>vm_cr3 := c\<rparr>) r = vm_tree_ok s r" "vm_root (s\<lparr>vm_cr3 := c\<rparr>) = c AND CLKS_VM_PTE_ADDR_MASK"
  "vm_reach (s\<lparr>vm_cr3 := c\<rparr>) r = vm_reach s r" "vm_writes (s\<lparr>vm_cr3 := c\<rparr>) r = vm_writes s r"
  "c \<noteq> 0 \<Longrightarrow> vm_env_ok s \<Longrightarrow> vm_env_ok (s\<lparr>vm_cr3 := c\<rparr>)" "p2v (s\<lparr>vm_cr3 := c\<rparr>) a = p2v s a"
  "vm_mapped (s\<lparr>vm_cr3 := c\<rparr>) a = vm_mapped s a"
proof -
  show mp: "vm_mapped (s\<lparr>vm_cr3 := c\<rparr>) a = vm_mapped s a" for a by (simp add: vm_mapped_def)
  show pv: "p2v (s\<lparr>vm_cr3 := c\<rparr>) a = p2v s a" for a by (simp add: clks_boot_phys_to_virt_def)
  have c: "vm_child (s\<lparr>vm_cr3 := c\<rparr>) t i = vm_child s t i" for t i by (simp add: vm_child_def pv)
  show w: "vm_walk (s\<lparr>vm_cr3 := c\<rparr>) r p = vm_walk s r p" for r p
    by (induction p arbitrary: r) (auto simp: c split: option.split)
  show "vm_resolve (s\<lparr>vm_cr3 := c\<rparr>) r p = vm_resolve s r p"
    by (induction p arbitrary: r) (simp_all add: pv Let_def)
  show "vm_tree_ok (s\<lparr>vm_cr3 := c\<rparr>) r = vm_tree_ok s r" by (simp add: vm_tree_ok_def w pv mp)
  show "vm_root (s\<lparr>vm_cr3 := c\<rparr>) = c AND CLKS_VM_PTE_ADDR_MASK" by (simp add: vm_root_def)
  show "vm_reach (s\<lparr>vm_cr3 := c\<rparr>) r = vm_reach s r" by (simp add: vm_reach_def w)
  show "vm_writes (s\<lparr>vm_cr3 := c\<rparr>) r = vm_writes s r" by (simp add: vm_writes_def vm_private_def w)
  show "c \<noteq> 0 \<Longrightarrow> vm_env_ok s \<Longrightarrow> vm_env_ok (s\<lparr>vm_cr3 := c\<rparr>)" by (simp add: vm_env_ok_def mp)
qed

lemma map_other_space:
  assumes ok: "vm_ok s" and c: "\<not> unaligned (vm_cr3 s)" "vm_root s \<noteq> r"
    and r: "r \<noteq> 0" "\<not> unaligned r" "r AND CLKS_VM_PTE_ADDR_MASK = r" "vm_tree_ok s r"
    and sep: "vm_reach s (vm_root s) \<inter> vm_writes s r = {}" and va: "0 < vm_index 39 va" "vm_index 39 va < 256"
    and run: "clks_vm_map_page_in_address_space r va pa flags s = (ok', s')"
  shows "vm_ok s' \<and> vm_same s s' \<and> vm_tree_ok s' r \<and> vm_reach s' (vm_root s) \<inter> vm_writes s' r = {} \<and>
    (\<forall>w. clks_vm_translate_current w s' = clks_vm_translate_current w s) \<and>
    (let e = (pa AND CLKS_VM_PTE_ADDR_MASK) OR clks_vm_entry_flags_from_api flags s in
     \<forall>w. clks_vm_translate_current w (s'\<lparr>vm_cr3 := r\<rparr>) =
       (if ok' \<and> vm_indices w = vm_indices va
        then Some ((pa AND CLKS_VM_PTE_ADDR_MASK) + (w AND (CLKS_VM_PAGE_SIZE - 1)), e)
        else clks_vm_translate_current w (s\<lparr>vm_cr3 := r\<rparr>)))"
proof -
  have e: "vm_env_ok s" and T: "vm_tree_ok s (vm_root s)" using ok by (simp_all add: vm_ok_def)
  have c0: "vm_cr3 s \<noteq> 0" using e by (simp add: vm_env_ok_def)
  define s1 where "s1 = s\<lparr>vm_cr3 := r\<rparr>"
  have s1: "vm_ok s1" using e r by (simp add: s1_def vm_ok_def)
  obtain s2 where m: "clks_vm_map_page_current va pa flags s1 = (ok', s2)" and s': "s' = s2\<lparr>vm_cr3 := vm_cr3 s\<rparr>"
    using run c r c0 by (auto simp: clks_vm_map_page_in_address_space_def clks_vm_switch_cr3_def vm_root_def
      s1_def Let_def split: prod.splits)
  note sp = map_page_spec [OF s1 m]
  have same: "vm_same s1 s2" and ok2: "vm_ok s2" and fr: "vm_frame r s1 s2"
    using sp va r(3) by (simp_all add: s1_def)
  note ot = vm_frame_other [OF fr same, of "vm_root s"]
  have sep1: "vm_reach s1 (vm_root s) \<inter> vm_writes s1 r = {}" using sep by (simp add: s1_def)
  have same': "vm_same s s'" using same by (simp add: vm_same_def s' s1_def)
  have r2: "vm_root s2 = r" using same r(3) by (simp add: vm_same_def vm_root_def s1_def)
  have tr: "vm_tree_ok s2 r" "vm_env_ok s2" using ok2 r2 by (simp_all add: vm_ok_def)
  have mem: "vm_mem s2 (p2v s u) = vm_mem s (p2v s u)" if "u \<in> vm_reach s (vm_root s)" for u
    using fr sep that unfolding vm_frame_def by (auto simp: s1_def)
  have walk: "vm_walk s2 (vm_root s) p = vm_walk s (vm_root s) p" if "vm_path p" for p
    using that
  proof (induction p rule: rev_induct)
    case (snoc j p)
    then have p: "vm_path p" "vm_walk s2 (vm_root s) p = vm_walk s (vm_root s) p" by (simp_all add: vm_path_snoc)
    have "vm_child s2 u j = vm_child s u j" if "vm_walk s (vm_root s) p = Some u" for u
    proof -
      have "u \<in> vm_reach s (vm_root s)" using that p(1) by (auto simp: vm_reach_def)
      then show ?thesis using mem same by (simp add: vm_child_def vm_same_p2v [OF same] s1_def)
    qed
    with p(2) show ?case by (cases "vm_walk s (vm_root s) p") (simp_all add: vm_walk_snoc)
  qed simp
  have av: "pmm_avail (vm_pmm s2) \<subseteq> vm_writes s r" using fr by (auto simp: vm_frame_def vm_writes_def s1_def vm_private_def)
  have rr: "vm_root s \<in> vm_reach s (vm_root s)" by (auto simp: vm_reach_def intro: exI [of _ "[]"])
  have tk: "vm_tree_ok s2 (vm_root s)"
    unfolding vm_tree_ok_def
  proof (intro conjI allI impI)
    show "a = b" if "vm_path a" "vm_path b" "vm_walk s2 (vm_root s) a = Some u" "vm_walk s2 (vm_root s) b = Some u" for a b u
      using T that walk unfolding vm_tree_ok_def by metis
    show "u \<notin> pmm_avail (vm_pmm s2)" if "vm_path a" "vm_walk s2 (vm_root s) a = Some u" for a u
      using av sep that walk by (auto simp: vm_reach_def)
    show "vm_mapped s2 u" if "vm_path a" "vm_walk s2 (vm_root s) a = Some u" for a u
      using T that walk [OF that(1)] vm_same_mapped [OF same, of u] unfolding vm_tree_ok_def by (simp add: s1_def)
    show "\<not> has (vm_mem s2 (p2v s2 (vm_root s)) i) CLKS_VM_PTE_PS"
      if "i < 512" "has (vm_mem s2 (p2v s2 (vm_root s)) i) CLKS_VM_PTE_PRESENT" for i
      using T that mem [OF rr] vm_same_p2v [OF same, of "vm_root s"] unfolding vm_tree_ok_def by (simp add: s1_def)
  qed
  have ok': "vm_ok s'"
    using tk tr(2) c0 by (simp add: vm_ok_def s' vm_root_def [symmetric])
  have t1: "clks_vm_translate_current w s' = clks_vm_translate_current w s" for w
  proof -
    have "vm_resolve s' (vm_root s') (vm_indices w) = vm_resolve s (vm_root s) (vm_indices w)"
      using ot(2) [OF sep1 vm_full_indices] unfolding vm_same_root [OF same'] by (simp add: s' s1_def)
    then show ?thesis unfolding translate_resolve [OF ok] translate_resolve [OF ok'] by simp
  qed
  have "vm_reach s' (vm_root s) \<inter> vm_writes s' r = {}" using ot(3) [OF sep1] by (simp add: s')
  moreover have "s'\<lparr>vm_cr3 := r\<rparr> = s2" using same by (simp add: s' vm_same_def s1_def)
  moreover have "clks_vm_entry_flags_from_api flags s1 = clks_vm_entry_flags_from_api flags s"
    by (simp add: clks_vm_entry_flags_from_api_def s1_def)
  moreover have "vm_tree_ok s' r" using tr by (simp add: s')
  ultimately show ?thesis
    using ok' same' t1 sp unfolding s1_def [symmetric] by (simp add: Let_def)
qed

text \<open>The tables below a table, at most \<open>b\<close> levels down, and those below one entry of it.\<close>

definition vm_short :: "nat \<Rightarrow> nat list \<Rightarrow> bool" where
  "vm_short b p \<longleftrightarrow> length p \<le> b \<and> (\<forall>i \<in> set p. i < 512)"

definition vm_sub :: "vm_state \<Rightarrow> u64 \<Rightarrow> nat \<Rightarrow> u64 set" where
  "vm_sub s t b = {u. \<exists>p. vm_short b p \<and> vm_walk s t p = Some u}"

definition vm_below :: "vm_state \<Rightarrow> u64 \<Rightarrow> nat \<Rightarrow> nat \<Rightarrow> u64 set" where
  "vm_below s t b i = (case vm_child s t i of None \<Rightarrow> {} | Some u \<Rightarrow> vm_sub s u b)"

definition vm_injective :: "vm_state \<Rightarrow> u64 \<Rightarrow> nat \<Rightarrow> bool" where
  "vm_injective s t b \<longleftrightarrow> (\<forall>p q u. vm_short b p \<longrightarrow> vm_short b q \<longrightarrow> vm_walk s t p = Some u \<longrightarrow>
     vm_walk s t q = Some u \<longrightarrow> p = q)"

lemma vm_short_simps: "vm_short b []" "vm_short (Suc b) (i # p) \<longleftrightarrow> i < 512 \<and> vm_short b p"
  by (auto simp: vm_short_def)

lemma vm_sub_Suc: "vm_sub s t (Suc b) = insert t (\<Union>i<512. vm_below s t b i)"
proof (rule set_eqI)
  fix u
  have "u \<in> vm_sub s t (Suc b) \<longleftrightarrow> u = t \<or> (\<exists>i p. vm_short (Suc b) (i # p) \<and> vm_walk s t (i # p) = Some u)"
    unfolding vm_sub_def mem_Collect_eq
    by (metis list.exhaust option.inject vm_short_simps(1) vm_walk.simps(1))
  also have "\<dots> \<longleftrightarrow> u \<in> insert t (\<Union>i<512. vm_below s t b i)"
    by (auto simp: vm_short_simps vm_below_def vm_sub_def split: option.splits)
  finally show "u \<in> vm_sub s t (Suc b) \<longleftrightarrow> u \<in> insert t (\<Union>i<512. vm_below s t b i)" .
qed

lemma vm_sub_self: "t \<in> vm_sub s t b"
  by (auto simp: vm_sub_def vm_short_def intro: exI [of _ "[]"])

lemma vm_sub_cong:
  assumes same: "vm_same s s'" and mem: "\<And>u. u \<in> vm_sub s t b \<Longrightarrow> vm_mem s' (p2v s u) = vm_mem s (p2v s u)"
  shows "vm_short b p \<Longrightarrow> vm_walk s' t p = vm_walk s t p" "vm_sub s' t b = vm_sub s t b"
    "vm_injective s' t b = vm_injective s t b"
proof -
  show w: "vm_walk s' t p = vm_walk s t p" if "vm_short b p" for p
    using that
  proof (induction p rule: rev_induct)
    case (snoc j p)
    then have p: "vm_short b p" "vm_walk s' t p = vm_walk s t p" by (auto simp: vm_short_def)
    have "vm_child s' u j = vm_child s u j" if "vm_walk s t p = Some u" for u
    proof -
      have "u \<in> vm_sub s t b" using that p(1) by (auto simp: vm_sub_def)
      then show ?thesis using mem by (simp add: vm_child_def vm_same_p2v [OF same])
    qed
    with p(2) show ?case by (cases "vm_walk s t p") (simp_all add: vm_walk_snoc)
  qed simp
  then show "vm_sub s' t b = vm_sub s t b" "vm_injective s' t b = vm_injective s t b"
    by (auto simp: vm_sub_def vm_injective_def)
qed

lemma vm_injective_below:
  assumes "vm_injective s t (Suc b)"
  shows "t \<notin> vm_below s t b i \<or> 512 \<le> i" "i < 512 \<Longrightarrow> j < 512 \<Longrightarrow> i \<noteq> j \<Longrightarrow> vm_below s t b i \<inter> vm_below s t b j = {}"
    "i < 512 \<Longrightarrow> vm_child s t i = Some u \<Longrightarrow> vm_injective s u b"
proof -
  have path: "\<exists>p. vm_short (Suc b) (i # p) \<and> vm_walk s t (i # p) = Some u" if "u \<in> vm_below s t b i" "i < 512" for u i
    using that by (auto simp: vm_below_def vm_sub_def vm_short_simps split: option.splits)
  show "t \<notin> vm_below s t b i \<or> 512 \<le> i"
  proof (rule ccontr)
    assume "\<not> ?thesis"
    then obtain p where "vm_short (Suc b) (i # p)" "vm_walk s t (i # p) = Some t" using path [of t i] by auto
    with assms vm_short_simps(1) have "i # p = []" unfolding vm_injective_def by (metis vm_walk.simps(1))
    then show False by simp
  qed
  show "vm_below s t b i \<inter> vm_below s t b j = {}" if ij: "i < 512" "j < 512" "i \<noteq> j"
  proof (rule ccontr)
    assume "\<not> ?thesis"
    then obtain u where u: "u \<in> vm_below s t b i" "u \<in> vm_below s t b j" by blast
    obtain p where "vm_short (Suc b) (i # p)" "vm_walk s t (i # p) = Some u" using path [OF u(1) ij(1)] by blast
    moreover obtain q where "vm_short (Suc b) (j # q)" "vm_walk s t (j # q) = Some u"
      using path [OF u(2) ij(2)] by blast
    ultimately have "i # p = j # q" using assms unfolding vm_injective_def by blast
    with ij(3) show False by simp
  qed
  show "vm_injective s u b" if u: "i < 512" "vm_child s t i = Some u"
    unfolding vm_injective_def
  proof (intro allI impI)
    fix p q w
    assume "vm_short b p" "vm_short b q" "vm_walk s u p = Some w" "vm_walk s u q = Some w"
    with u assms have "i # p = i # q" unfolding vm_injective_def
      by (metis option.case(2) vm_short_simps(2) vm_walk.simps(2))
    then show "p = q" by simp
  qed
qed

lemma masked_aligned: "u AND CLKS_VM_PTE_ADDR_MASK = u \<Longrightarrow> \<not> unaligned u"
proof -
  assume "u AND CLKS_VM_PTE_ADDR_MASK = u"
  then have "u AND (CLKS_VM_PAGE_SIZE - 1) = u AND (CLKS_VM_PTE_ADDR_MASK AND (CLKS_VM_PAGE_SIZE - 1))"
    by (metis and.assoc)
  then show ?thesis by (simp add: unaligned_def clks_consts)
qed

text \<open>What destroying does to a set of tables: they are free again, nothing else is touched.\<close>

definition vm_freed :: "u64 set \<Rightarrow> u64 set \<Rightarrow> u64 set \<Rightarrow> vm_state \<Rightarrow> vm_state \<Rightarrow> bool" where
  "vm_freed all own ts s s' \<longleftrightarrow> vm_env_ok s' \<and> vm_same s s' \<and> pmm.owns all (vm_pmm s') (own - ts) \<and>
     (\<forall>u. u \<notin> ts \<longrightarrow> vm_mem s' (p2v s u) = vm_mem s (p2v s u))"

lemma free_table:
  assumes e: "vm_env_ok s" and o: "pmm.owns all (vm_pmm s) own" and t: "t \<in> own" "t AND CLKS_VM_PTE_ADDR_MASK = t" "vm_mapped s t"
  shows "vm_freed all own {t} s (vm_free_page t s)"
proof -
  have o': "pmm.owns all (clks_pmm_free_page t (vm_pmm s)) (own - {t})" by (rule pmm.owns_release [OF o t(1)])
  have av: "pmm_avail (clks_pmm_free_page t (vm_pmm s)) \<subseteq> insert t (pmm_avail (vm_pmm s))"
    using o o' by (auto simp: pmm.owns_def)
  have "pmm_inv (clks_pmm_free_page t (vm_pmm s))" using o' by (simp add: pmm.owns_def)
  with e t av have "vm_env_ok (vm_free_page t s)" by (auto simp: vm_env_ok_def vm_free_page_def vm_mapped_def)
  with o' show ?thesis by (simp add: vm_freed_def vm_free_page_def vm_same_def)
qed

text \<open>The loop over the entries of a table, given what the recursive call does.\<close>

definition destroy_entry :: "(u64 \<Rightarrow> vm_state \<Rightarrow> vm_state) \<Rightarrow> u64 \<Rightarrow> nat \<Rightarrow> vm_state \<Rightarrow> vm_state" where
  "destroy_entry rec table i s =
     (let entry = vm_mem s table i in
      if \<not> has entry CLKS_VM_PTE_PRESENT \<or> has entry CLKS_VM_PTE_PS then s
      else vm_set table i 0 (rec (entry AND CLKS_VM_PTE_ADDR_MASK) s))"

lemma destroy_fold:
  assumes rec: "\<And>s t own. vm_env_ok s \<Longrightarrow> pmm.owns all (vm_pmm s) own \<Longrightarrow> \<forall>u \<in> own. vm_mapped s u \<Longrightarrow>
      vm_sub s t b \<subseteq> own \<Longrightarrow> t AND CLKS_VM_PTE_ADDR_MASK = t \<Longrightarrow> vm_injective s t b \<Longrightarrow> vm_freed all own (vm_sub s t b) s (rec t s)"
    and e: "vm_env_ok s" and o: "pmm.owns all (vm_pmm s) own" "\<forall>u \<in> own. vm_mapped s u" and inj: "vm_injective s t (Suc b)"
    and sub: "(\<Union>i \<in> {a..<m}. vm_below s t b i) \<subseteq> own" and m: "m \<le> 512" and n: "n \<le> m"
  defines "done \<equiv> \<lambda>n. (\<Union>i \<in> {a..<n}. vm_below s t b i)"
  defines "sn \<equiv> \<lambda>n. fold (destroy_entry rec (p2v s t)) [a..<n] s"
  shows "vm_env_ok (sn n) \<and> vm_same s (sn n) \<and> pmm.owns all (vm_pmm (sn n)) (own - done n) \<and>
    (\<forall>u. u \<notin> insert t (done n) \<longrightarrow> vm_mem (sn n) (p2v s u) = vm_mem s (p2v s u)) \<and>
    (\<forall>j. j < a \<or> n \<le> j \<longrightarrow> vm_mem (sn n) (p2v s t) j = vm_mem s (p2v s t) j)"
  using n
proof (induction n)
  case 0
  then show ?case using e o by (simp add: sn_def done_def)
next
  case (Suc n)
  show ?case
  proof (cases "a \<le> n")
    case False
    then have "[a..<Suc n] = []" "{a..<Suc n} = {}" by auto
    with e o show ?thesis by (simp add: sn_def done_def del: upt_Suc)
  next
    case True
    have IH: "vm_env_ok (sn n)" "vm_same s (sn n)" "pmm.owns all (vm_pmm (sn n)) (own - done n)"
      "\<And>u. u \<notin> insert t (done n) \<Longrightarrow> vm_mem (sn n) (p2v s u) = vm_mem s (p2v s u)"
      "\<And>j. j < a \<or> n \<le> j \<Longrightarrow> vm_mem (sn n) (p2v s t) j = vm_mem s (p2v s t) j"
      using Suc by auto
    have step: "sn (Suc n) = destroy_entry rec (p2v s t) n (sn n)" using True by (simp add: sn_def)
    have dn: "done (Suc n) = done n \<union> vm_below s t b n"
      using True by (auto simp: done_def atLeastLessThanSuc)
    have en: "vm_mem (sn n) (p2v s t) n = vm_mem s (p2v s t) n" using IH(5) by simp
    show ?thesis
    proof (cases "vm_child s t n")
      case None
      then have "sn (Suc n) = sn n" "vm_below s t b n = {}"
        unfolding step destroy_entry_def en by (auto simp: vm_child_def vm_below_def Let_def split: if_splits)
      with IH dn show ?thesis by simp
    next
      case (Some u)
      let ?t = "rec u (sn n)"
      have sn1: "sn (Suc n) = vm_set (p2v s t) n 0 ?t"
        using Some unfolding step destroy_entry_def en by (auto simp: vm_child_def Let_def split: if_splits)
      have um: "u AND CLKS_VM_PTE_ADDR_MASK = u" using Some by (auto simp: vm_child_def Let_def split: if_splits)
      have bl: "vm_below s t b n = vm_sub s u b" using Some by (simp add: vm_below_def)
      have nn: "n < 512" "n < m" using Suc.prems m by simp_all
      have disj: "vm_sub s u b \<inter> insert t (done n) = {}"
      proof -
        have "vm_below s t b n \<inter> vm_below s t b i = {}" if "i < n" for i
          using vm_injective_below(2) [OF inj nn(1), of i] that nn by simp
        moreover have "t \<notin> vm_below s t b n" using vm_injective_below(1) [OF inj, of n] nn(1) by auto
        ultimately show ?thesis unfolding bl [symmetric] done_def by fastforce
      qed
      have mem: "vm_mem (sn n) (p2v s w) = vm_mem s (p2v s w)" if "w \<in> vm_sub s u b" for w
        using IH(4) [of w] that disj by blast
      note cong = vm_sub_cong [OF IH(2) mem]
      have inju: "vm_injective (sn n) u b" using cong(3) vm_injective_below(3) [OF inj nn(1) Some] by simp
      have "vm_below s t b n \<subseteq> (\<Union>i \<in> {a..<m}. vm_below s t b i)" by (rule UN_upper) (use True nn(2) in simp)
      then have "vm_sub s u b \<subseteq> own" using sub bl by blast
      then have "vm_sub (sn n) u b \<subseteq> own - done n" using cong(2) disj by auto
      moreover have "\<forall>w \<in> own - done n. vm_mapped (sn n) w" using o(2) vm_same_mapped [OF IH(2)] by simp
      ultimately have "vm_freed all (own - done n) (vm_sub (sn n) u b) (sn n) ?t"
        using rec [OF IH(1,3) _ _ um inju] by blast
      with cong(2)
      have fr: "vm_freed all (own - done n) (vm_sub s u b) (sn n) ?t" by simp
      have pv: "p2v (sn n) w = p2v s w" for w by (rule vm_same_p2v [OF IH(2)])
      have "vm_same s ?t" using fr IH(2) vm_same_trans by (auto simp: vm_freed_def)
      then have "vm_same s (sn (Suc n))" unfolding sn1 by (simp add: vm_same_def)
      moreover have "vm_env_ok (sn (Suc n))" using fr by (simp add: sn1 vm_freed_def)
      moreover have "pmm.owns all (vm_pmm (sn (Suc n))) (own - done (Suc n))"
        using fr by (simp add: sn1 vm_freed_def dn bl Diff_eq Int_assoc)
      moreover have "vm_mem (sn (Suc n)) (p2v s w) = vm_mem s (p2v s w)" if "w \<notin> insert t (done (Suc n))" for w
      proof -
        have "p2v s w \<noteq> p2v s t" using p2v_inject [OF e, of w t] that by simp
        then have "vm_mem (sn (Suc n)) (p2v s w) = vm_mem ?t (p2v s w)" by (simp add: sn1 vm_set_mem fun_eq_iff)
        then show ?thesis using fr IH(4) [of w] that by (simp add: vm_freed_def pv dn bl)
      qed
      moreover have "vm_mem (sn (Suc n)) (p2v s t) j = vm_mem s (p2v s t) j" if "j < a \<or> Suc n \<le> j" for j
      proof -
        have "t \<notin> vm_sub s u b" using disj by blast
        then have "vm_mem ?t (p2v s t) j = vm_mem (sn n) (p2v s t) j" using fr by (simp add: vm_freed_def pv)
        with that True IH(5) show ?thesis by (auto simp: sn1 vm_set_mem)
      qed
      ultimately show ?thesis by blast
    qed
  qed
qed

lemma destroy_table_spec:
  assumes "vm_env_ok s" "pmm.owns all (vm_pmm s) own" "\<forall>u \<in> own. vm_mapped s u" "vm_sub s t b \<subseteq> own"
    "t AND CLKS_VM_PTE_ADDR_MASK = t" "vm_injective s t b"
  shows "vm_freed all own (vm_sub s t b) s (destroy_table b t s)"
  using assms
proof (induction b arbitrary: s t own)
  case 0
  have sub: "vm_sub s t 0 = {t}" by (auto simp: vm_sub_def vm_short_def)
  with 0 have "t \<in> own" by simp
  with 0 have "t \<noteq> 0" by (auto simp: pmm.owns_def)
  moreover have "p2v s t \<noteq> 0" using p2v_nonnull [OF 0(1)] 0(3) \<open>t \<in> own\<close> by blast
  ultimately have "destroy_table 0 t s = vm_free_page t s"
    using masked_aligned [OF 0(5)] by (subst destroy_table.simps) (simp add: Let_def)
  with free_table 0 \<open>t \<in> own\<close> show ?case by (simp add: sub)
next
  case (Suc b)
  have sub: "vm_sub s t (Suc b) = insert t (\<Union>i<512. vm_below s t b i)" by (rule vm_sub_Suc)
  define rest where "rest = (\<Union>i \<in> {0..<512}. vm_below s t b i)"
  have rest: "rest \<subseteq> own" "vm_sub s t (Suc b) = insert t rest"
    using Suc.prems(4) unfolding sub rest_def by (auto simp: atLeast0LessThan)
  have t: "t \<in> own" using Suc.prems(4) sub by blast
  then have "t \<noteq> 0" using Suc.prems(2) by (auto simp: pmm.owns_def)
  define s1 where "s1 = fold (destroy_entry (destroy_table b) (p2v s t)) [0..<512] s"
  have "destroy_table (Suc b) t s =
      (if t = 0 \<or> unaligned t then s else if p2v s t = 0 then s else vm_free_page t s1)"
    unfolding destroy_table.simps [of "Suc b"] nat.case Let_def s1_def destroy_entry_def [abs_def] by (rule refl)
  then have run: "destroy_table (Suc b) t s = vm_free_page t s1"
    using \<open>t \<noteq> 0\<close> masked_aligned [OF Suc.prems(5)] p2v_nonnull [OF Suc.prems(1)] Suc.prems(3) t by simp
  have f: "vm_env_ok s1 \<and> vm_same s s1 \<and> pmm.owns all (vm_pmm s1) (own - rest) \<and>
    (\<forall>u. u \<notin> insert t rest \<longrightarrow> vm_mem s1 (p2v s u) = vm_mem s (p2v s u)) \<and>
    (\<forall>j. j < 0 \<or> 512 \<le> j \<longrightarrow> vm_mem s1 (p2v s t) j = vm_mem s (p2v s t) j)"
    unfolding s1_def rest_def
    by (rule destroy_fold [OF Suc.IH Suc.prems(1,2,3,6) rest(1) [unfolded rest_def] order_refl order_refl])
  have tr: "t \<notin> rest" using vm_injective_below(1) [OF Suc.prems(6)] unfolding rest_def by fastforce
  have "vm_freed all (own - rest) {t} s1 (vm_free_page t s1)"
    by (rule free_table) (use f t tr Suc.prems(3,5) vm_same_mapped [of s s1] in auto)
  then have g: "vm_env_ok (vm_free_page t s1)" "vm_same s1 (vm_free_page t s1)"
    "pmm.owns all (vm_pmm (vm_free_page t s1)) (own - insert t rest)"
    "\<And>u. u \<noteq> t \<Longrightarrow> vm_mem (vm_free_page t s1) (p2v s1 u) = vm_mem s1 (p2v s1 u)"
    unfolding vm_freed_def Diff_insert [of own t rest] by blast+
  have s1: "vm_same s s1" using f by blast
  have "vm_mem (vm_free_page t s1) (p2v s u) = vm_mem s (p2v s u)" if "u \<notin> insert t rest" for u
    using g(4) [of u] f that by (simp add: vm_same_p2v [OF s1])
  with g vm_same_trans [OF s1 g(2)] show ?case unfolding run rest(2) vm_freed_def by blast
qed

lemma vm_below_alt:
  "vm_below s t b i = {u. \<exists>p. vm_short b p \<and> vm_walk s t (i # p) = Some u}"
  by (auto simp: vm_below_def vm_sub_def split: option.splits)

lemma vm_path_short: "vm_path (i # p) \<longleftrightarrow> i < 512 \<and> vm_short 2 p"
  by (auto simp: vm_path_def vm_short_def)

lemma vm_private_split: "vm_private s r = insert r (\<Union>i \<in> {1..<256}. vm_below s r 2 i)"
proof
  show "vm_private s r \<subseteq> insert r (\<Union>i \<in> {1..<256}. vm_below s r 2 i)"
  proof
    fix u
    assume "u \<in> vm_private s r"
    then obtain p where p: "vm_path p" "vm_user p" "vm_walk s r p = Some u" by (auto simp: vm_private_def)
    show "u \<in> insert r (\<Union>i \<in> {1..<256}. vm_below s r 2 i)"
    proof (cases p)
      case Nil
      with p(3) show ?thesis by simp
    next
      case (Cons i q)
      with p have "u \<in> vm_below s r 2 i" "i \<in> {1..<256}"
        by (auto simp: vm_below_alt vm_path_short vm_user_def simp del: vm_walk.simps)
      then show ?thesis by blast
    qed
  qed
  show "insert r (\<Union>i \<in> {1..<256}. vm_below s r 2 i) \<subseteq> vm_private s r"
  proof
    fix u
    assume "u \<in> insert r (\<Union>i \<in> {1..<256}. vm_below s r 2 i)"
    then consider "u = r" | i where "i \<in> {1..<256}" "u \<in> vm_below s r 2 i" by blast
    then show "u \<in> vm_private s r"
    proof cases
      case 1
      then show ?thesis by (auto simp: vm_private_def vm_user_def intro!: exI [of _ "[]"])
    next
      case (2 i)
      then obtain q where "vm_short 2 q" "vm_walk s r (i # q) = Some u" by (auto simp: vm_below_alt simp del: vm_walk.simps)
      with 2(1) show ?thesis
        unfolding vm_private_def mem_Collect_eq by (intro exI [of _ "i # q"]) (simp add: vm_path_short vm_user_def)
    qed
  qed
qed

lemma vm_tree_injective: "vm_tree_ok s r \<longleftrightarrow>
    vm_injective s r 3 \<and> (\<forall>p t. vm_path p \<longrightarrow> vm_walk s r p = Some t \<longrightarrow> t \<notin> pmm_avail (vm_pmm s) \<and> vm_mapped s t) \<and>
    (\<forall>i < 512. has (vm_mem s (p2v s r) i) CLKS_VM_PTE_PRESENT \<longrightarrow> \<not> has (vm_mem s (p2v s r) i) CLKS_VM_PTE_PS)"
  by (simp add: vm_tree_ok_def vm_injective_def vm_path_def vm_short_def)

lemma vm_set_zero_walk:
  assumes e: "vm_env_ok s" and T: "vm_tree_ok s r" and q: "vm_path q"
  shows "vm_walk (vm_set (p2v s r) 0 0 s) r q = (if prefix [0] q then None else vm_walk s r q)"
proof (cases "prefix [0] q")
  case True
  then obtain q' where "q = 0 # q'" by (auto simp: prefix_def)
  moreover have "vm_child (vm_set (p2v s r) 0 0 s) r 0 = None" by (simp add: vm_child_def vm_set_mem)
  ultimately show ?thesis by simp
next
  case False
  with vm_set_walk [OF e T vm_path_Nil _ q, of r 0 0] show ?thesis by simp
qed

lemma destroy_space_spec:
  assumes e: "vm_env_ok s" and o: "pmm.owns all (vm_pmm s) own" "\<forall>u \<in> own. vm_mapped s u" and T: "vm_tree_ok s r"
    and r: "r \<noteq> 0" "r AND CLKS_VM_PTE_ADDR_MASK = r" "r \<noteq> kr"
    and k: "clks_vm_kernel_cr3_value s = kr" "kr \<noteq> 0" "kr AND CLKS_VM_PTE_ADDR_MASK = kr"
    and p: "vm_private s r \<subseteq> own"
  defines "s' \<equiv> clks_vm_destroy_address_space r s"
  shows "vm_env_ok s' \<and> vm_same (s\<lparr>vm_cr3 := (if vm_cr3 s = r then kr else vm_cr3 s)\<rparr>) s' \<and>
    pmm.owns all (vm_pmm s') (own - vm_private s r) \<and>
    (\<forall>u. u \<notin> vm_private s r \<longrightarrow> vm_mem s' (p2v s u) = vm_mem s (p2v s u))"
proof -
  define s1 where "s1 = s\<lparr>vm_cr3 := (if vm_cr3 s = r then kr else vm_cr3 s)\<rparr>"
  have e1: "vm_env_ok s1" using e k(2) by (simp add: s1_def)
  have T1: "vm_tree_ok s1 r" using T by (simp add: s1_def)
  have priv1: "vm_private s1 r = vm_private s r" by (simp add: s1_def vm_private_def)
  have pv: "p2v s1 u = p2v s u" for u by (simp add: s1_def)
  define s2 where "s2 = vm_set (p2v s1 r) 0 0 s1"
  have e2: "vm_env_ok s2" using e1 by (simp add: s2_def)
  have same2: "vm_same s1 s2" by (simp add: s2_def vm_same_def)
  have o2: "pmm.owns all (vm_pmm s2) own" "\<forall>u \<in> own. vm_mapped s2 u" using o by (simp_all add: s2_def s1_def)
  have walk: "vm_walk s2 r q = (if prefix [0] q then None else vm_walk s1 r q)" if "vm_path q" for q
    unfolding s2_def by (rule vm_set_zero_walk [OF e1 T1 that])
  have inj: "vm_injective s2 r (Suc 2)"
    using T1 walk unfolding vm_tree_injective vm_injective_def numeral_3_eq_3 numeral_2_eq_2
    by (auto simp: vm_short_def vm_path_def split: if_splits)
  have below: "vm_below s2 r 2 i = vm_below s1 r 2 i" if "i \<in> {1..<256}" for i
    unfolding vm_below_alt using walk [of "i # p" for p] that
    by (auto simp: vm_short_def vm_path_def simp del: vm_walk.simps)
  define B where "B = (\<Union>i \<in> {1..<256}. vm_below s2 r 2 i)"
  have B: "vm_private s r = insert r B"
  proof -
    have "vm_below s2 r 2 i = vm_below s r 2 i" if "i \<in> {1..<256}" for i
      using below [OF that] by (simp add: vm_below_alt s1_def del: vm_walk.simps)
    then show ?thesis unfolding vm_private_split B_def by auto
  qed
  define s3 where "s3 = fold (destroy_entry (destroy_table 2) (p2v s2 r)) [1..<256] s2"
  have Bo: "B \<subseteq> own" using p B by blast
  have f: "vm_env_ok s3 \<and> vm_same s2 s3 \<and> pmm.owns all (vm_pmm s3) (own - B) \<and>
    (\<forall>u. u \<notin> insert r B \<longrightarrow> vm_mem s3 (p2v s2 u) = vm_mem s2 (p2v s2 u)) \<and>
    (\<forall>j. j < 1 \<or> 256 \<le> j \<longrightarrow> vm_mem s3 (p2v s2 r) j = vm_mem s2 (p2v s2 r) j)"
    unfolding s3_def B_def
    by (rule destroy_fold [OF destroy_table_spec e2 o2 inj Bo [unfolded B_def] _ order_refl]) simp_all
  have rB: "r \<notin> B"
    using vm_injective_below(1) [OF inj] unfolding B_def by fastforce
  have "r \<in> own" using p B by blast
  then have g: "vm_freed all (own - B) {r} s3 (vm_free_page r s3)"
    by (intro free_table) (use f rB r(2) o2(2) vm_same_mapped [of s2 s3] in auto)
  have pr: "p2v s1 r \<noteq> 0" using p2v_nonnull [OF e1] o(2) \<open>r \<in> own\<close> by (simp add: s1_def)
  have fold: "fold (\<lambda>i t. let entry = vm_mem t (p2v s1 r) i in
                      if i = 0 then vm_set (p2v s1 r) i 0 t
                      else if \<not> has entry CLKS_VM_PTE_PRESENT \<or> has entry CLKS_VM_PTE_PS then t
                      else vm_set (p2v s1 r) i 0
                             (clks_vm_destroy_table_recursive (entry AND CLKS_VM_PTE_ADDR_MASK) 3 t)) [0..<256] s1 = s3"
  proof -
    have u: "[0..<256] = 0 # [1..<256]" by (simp add: upt_conv_Cons del: upt_rec_numeral)
    show ?thesis
      unfolding u s3_def fold_simps s2_def [symmetric]
      by (simp add: s2_def [symmetric] Let_def del: upt_rec_numeral)
        (rule fold_cong, auto simp: destroy_entry_def clks_vm_destroy_table_recursive_def s2_def Let_def numeral_2_eq_2 numeral_3_eq_3)
  qed
  have "s' = vm_free_page r s3"
  proof -
    have sw: "(if vm_cr3 s = r \<and> clks_vm_kernel_cr3_value s \<noteq> 0
                  then clks_vm_switch_cr3 (clks_vm_kernel_cr3_value s) s else s) = s1"
      using k masked_aligned [OF k(3)] by (simp add: s1_def clks_vm_switch_cr3_def)
    show ?thesis
      unfolding s'_def clks_vm_destroy_address_space_def Let_def [of "if _ then _ else _ :: vm_state"] sw
      using r k masked_aligned [OF r(2)] pr fold by (simp add: Let_def)
  qed
  moreover have "vm_mem (vm_free_page r s3) (p2v s u) = vm_mem s (p2v s u)" if "u \<notin> insert r B" for u
  proof -
    have "vm_mem s2 (p2v s u) = vm_mem s (p2v s u)"
      using that p2v_inject [OF e, of u r] by (intro ext) (simp add: s2_def vm_set_mem pv, simp add: s1_def)
    moreover have "p2v s2 u = p2v s u" "p2v s3 u = p2v s u"
      using vm_same_p2v [OF same2] vm_same_p2v [of s2 s3] f by (simp_all add: pv)
    moreover have "vm_mem (vm_free_page r s3) (p2v s3 u) = vm_mem s3 (p2v s3 u)"
      using g that unfolding vm_freed_def by blast
    moreover have "vm_mem s3 (p2v s2 u) = vm_mem s2 (p2v s2 u)" using f that by blast
    ultimately show ?thesis by simp
  qed
  moreover have "vm_same s1 (vm_free_page r s3)"
    using g f vm_same_trans [OF same2] vm_same_trans unfolding vm_freed_def by blast
  moreover have "own - B - {r} = own - insert r B" by auto
  ultimately show ?thesis
    using g unfolding B s1_def [symmetric] vm_freed_def by simp
qed

section \<open>Properties\<close>

text \<open>
  For the witnesses: a machine with an empty top-level table at \<open>0x1000\<close>, four free pages from 1 MiB,
  and the direct map at the usual offset.
\<close>

definition vm_demo :: vm_state where
  "vm_demo = \<lparr>vm_pmm = \<lparr>pmm_free_stack = (\<lambda>i. if i = 0 then 0x100000 else if i = 1 then 0x101000
       else if i = 2 then 0x102000 else 0x103000), pmm_free_top = 4, pmm_managed_pages = 5, pmm_dropped_pages = 0\<rparr>,
     vm_mem = (\<lambda>_ _. 0), vm_hhdm = 0xFFFF800000000000, vm_cr3 = 0x1000, vm_efer = 0,
     vm_cpu_max_ext = 0, vm_cpu_ext_edx = 0, clks_vm_ready = True, clks_vm_nxe_ready = False,
     clks_vm_kernel_cr3_value = 0x1000\<rparr>"

lemma vm_demo_simps [simp]:
  "vm_mem vm_demo t i = 0" "vm_cr3 vm_demo = 0x1000" "clks_vm_kernel_cr3_value vm_demo = 0x1000"
  "vm_root vm_demo = 0x1000" "vm_child vm_demo t i = None"
  by (simp_all add: vm_demo_def vm_root_def clks_consts vm_child_def)

lemma vm_demo_ready: "clks_vm_ready vm_demo" "vm_hhdm vm_demo = 0xFFFF800000000000"
  by (simp_all add: vm_demo_def)

lemma vm_demo_mapped: "vm_mapped vm_demo t \<longleftrightarrow> t + 0xFFFF800000000000 \<noteq> 0"
  by (simp add: vm_mapped_def vm_demo_def)

lemma vm_demo_walk [simp]: "vm_walk vm_demo t p = (if p = [] then Some t else None)"
  by (cases p) simp_all

lemma vm_demo_avail: "pmm_avail (vm_pmm vm_demo) = {0x100000, 0x101000, 0x102000, 0x103000}"
  "pmm_inv (vm_pmm vm_demo)"
proof -
  have "pmm_free_list (vm_pmm vm_demo) = [0x100000, 0x101000, 0x102000, 0x103000]"
    by (simp add: vm_demo_def pmm_free_list_def live_part_def upt_rec)
  then show "pmm_avail (vm_pmm vm_demo) = {0x100000, 0x101000, 0x102000, 0x103000}" "pmm_inv (vm_pmm vm_demo)"
    by (simp_all add: pmm_avail_def pmm_inv_def page_aligned_def CLKS_PMM_MAX_TRACKED_PAGES_def,
        simp add: vm_demo_def)
qed

lemma vm_demo_env: "vm_env_ok vm_demo"
proof -
  have "clks_vm_ready vm_demo" "vm_hhdm vm_demo = 0xFFFF800000000000" by (simp_all add: vm_demo_def)
  then show ?thesis using vm_demo_avail by (simp add: vm_env_ok_def vm_mapped_def clks_consts)
qed

lemma vm_demo_tree: "t \<notin> pmm_avail (vm_pmm vm_demo) \<Longrightarrow> vm_mapped vm_demo t \<Longrightarrow> vm_tree_ok vm_demo t"
  by (simp add: vm_tree_ok_def split: if_splits)

lemma vm_demo_ok: "vm_ok vm_demo"
  by (simp add: vm_ok_def vm_demo_env vm_demo_tree vm_demo_avail vm_demo_mapped vm_demo_mapped)

text \<open>
  C20. Mapping a page in a well-formed tree. The tree stays well-formed (no table is shared, none is a
  free page). On success every address of the page translates to the frame, with the permission bits
  the caller asked for, and every other address translates as before; on failure (no page for a
  table, a large page in the way) no translation changes.
\<close>

theorem map_page_translates:
  assumes "vm_ok s" "clks_vm_map_page_current va pa flags s = (r, s')"
  shows "vm_ok s' \<and> vm_same s s' \<and>
    (let e = (pa AND CLKS_VM_PTE_ADDR_MASK) OR clks_vm_entry_flags_from_api flags s in
     \<forall>w. clks_vm_translate_current w s' =
       (if r \<and> vm_indices w = vm_indices va
        then Some ((pa AND CLKS_VM_PTE_ADDR_MASK) + (w AND (CLKS_VM_PAGE_SIZE - 1)), e)
        else clks_vm_translate_current w s))"
  using map_page_spec [OF assms] by simp

theorem map_page_translates_witness:
  "\<exists>s'. clks_vm_map_page_current 0x8000000000 0x5000 CLKS_VM_FLAG_WRITE vm_demo = (True, s') \<and> vm_ok s' \<and>
    clks_vm_translate_current 0x8000000123 s' = Some (0x5123, 0x5003)"
proof -
  obtain r s' where run: "clks_vm_map_page_current 0x8000000000 0x5000 CLKS_VM_FLAG_WRITE vm_demo = (r, s')" by fastforce
  have i: "vm_indices 0x8000000123 = vm_indices 0x8000000000"
    by (simp add: vm_indices_def vm_index_def drop_bit_eq_div)
  have f: "(0x5000 AND CLKS_VM_PTE_ADDR_MASK) OR clks_vm_entry_flags_from_api CLKS_VM_FLAG_WRITE vm_demo = 0x5003"
    by (simp add: clks_vm_entry_flags_from_api_def clks_consts) (simp add: vm_demo_def)
  have "fst (clks_vm_map_page_current 0x8000000000 0x5000 CLKS_VM_FLAG_WRITE vm_demo)" by code_simp
  then have "r = True" using run by simp
  with map_page_translates [OF vm_demo_ok run] i f run show ?thesis
    by (auto simp: Let_def clks_consts)
qed

text \<open>
  Unmapping undoes mapping: it succeeds only for a page that is mapped with a last-level entry,
  returns the frame the page was translated to, and afterwards exactly the addresses of that page have
  no translation. Otherwise nothing changes.
\<close>

theorem unmap_page_removes:
  assumes "vm_ok s" "clks_vm_unmap_page_current va s = (r, s')"
  shows "case r of None \<Rightarrow> s' = s
    | Some pa \<Rightarrow> vm_ok s' \<and> vm_same s s' \<and>
        (\<exists>e. has e CLKS_VM_PTE_PRESENT \<and> pa = e AND CLKS_VM_PTE_ADDR_MASK \<and>
          (\<forall>w. vm_indices w = vm_indices va \<longrightarrow>
            clks_vm_translate_current w s = Some (pa + (w AND (CLKS_VM_PAGE_SIZE - 1)), e))) \<and>
        (\<forall>w. clks_vm_translate_current w s' =
          (if vm_indices w = vm_indices va then None else clks_vm_translate_current w s))"
  by (rule unmap_page_spec [OF assms])

theorem unmap_page_removes_witness:
  "\<exists>s'. clks_vm_unmap_page_current 0x8000000000
      (snd (clks_vm_map_page_current 0x8000000000 0x5000 CLKS_VM_FLAG_WRITE vm_demo)) = (Some 0x5000, s') \<and>
    clks_vm_translate_current 0x8000000123 s' = None"
proof -
  define s where "s = snd (clks_vm_map_page_current 0x8000000000 0x5000 CLKS_VM_FLAG_WRITE vm_demo)"
  have ok: "vm_ok s" unfolding s_def using map_page_spec [OF vm_demo_ok] by (metis prod.collapse)
  obtain r s' where run: "clks_vm_unmap_page_current 0x8000000000 s = (r, s')" by fastforce
  have "fst (clks_vm_unmap_page_current 0x8000000000 s) = Some 0x5000" unfolding s_def by code_simp
  then have r: "r = Some 0x5000" using run by simp
  have i: "vm_indices 0x8000000123 = vm_indices 0x8000000000"
    by (simp add: vm_indices_def vm_index_def drop_bit_eq_div)
  have "clks_vm_translate_current 0x8000000123 s' = None"
    using unmap_page_removes [OF ok run] i by (simp add: r)
  with run r show ?thesis by (auto simp: s_def [symmetric])
qed

text \<open>
  A new address space: its root is a page that was free; it shares the kernel half and entry 0
  with the kernel's tree, so there every address resolves as in the kernel, and nothing else is
  mapped. No existing table is written.
\<close>

theorem create_space_shares_kernel:
  assumes "vm_env_ok s" "clks_vm_kernel_cr3_value s = kr" "kr \<noteq> 0" "kr AND CLKS_VM_PTE_ADDR_MASK = kr"
    and "vm_tree_ok s kr" "clks_vm_create_address_space s = (n, s')"
  shows "if n = 0 then s' = s
    else n \<in> pmm_avail (vm_pmm s) \<and> vm_env_ok s' \<and> vm_same s s' \<and> vm_tree_ok s' n \<and>
      n AND CLKS_VM_PTE_ADDR_MASK = n \<and> vm_writes s' n = pmm_avail (vm_pmm s) \<and>
      pmm_avail (vm_pmm s') = pmm_avail (vm_pmm s) - {n} \<and>
      (\<forall>u. u \<noteq> n \<longrightarrow> vm_mem s' (p2v s u) = vm_mem s (p2v s u)) \<and>
      (\<forall>idx. vm_full idx \<longrightarrow> vm_resolve s' n idx = (if hd idx = 0 \<or> 256 \<le> hd idx then vm_resolve s kr idx else None))"
  by (rule create_space_spec [OF assms])

theorem create_space_shares_kernel_witness:
  "\<exists>n s'. clks_vm_create_address_space vm_demo = (n, s') \<and> n \<in> pmm_avail (vm_pmm vm_demo) \<and> vm_tree_ok s' n"
proof -
  obtain n s' where run: "clks_vm_create_address_space vm_demo = (n, s')" by fastforce
  have k: "0x1000 AND CLKS_VM_PTE_ADDR_MASK = 0x1000" "vm_tree_ok vm_demo 0x1000"
    by (simp_all add: clks_consts vm_demo_tree vm_demo_avail vm_demo_mapped)
  obtain f m where al: "clks_pmm_alloc_page (vm_pmm vm_demo) = (f, m)" by fastforce
  have "fst (clks_pmm_alloc_page (vm_pmm vm_demo)) = 0x103000" by code_simp
  then have "fst (clks_vm_create_address_space vm_demo) \<noteq> 0"
    using al by (simp add: clks_vm_create_address_space_def vm_alloc_page_def clks_boot_phys_to_virt_def clks_consts
      Let_def vm_demo_ready del: upt_rec_numeral)
  then have "n \<noteq> 0" using run by simp
  with create_space_shares_kernel [OF vm_demo_env _ _ k run] run show ?thesis by (auto split: if_splits)
qed

text \<open>
  C21. Isolation: mapping a page in the lower half of another address space leaves every translation
  of the current one, its tables and the CR3 register as they were, when the other space's own tables
  and the free pages are not tables of the current one; that separation is kept. In the other space
  the page is mapped as by \<open>clks_vm_map_page_current\<close>.
\<close>

theorem map_in_space_isolated:
  assumes "vm_ok s" "\<not> unaligned (vm_cr3 s)" "vm_root s \<noteq> r"
    and "r \<noteq> 0" "\<not> unaligned r" "r AND CLKS_VM_PTE_ADDR_MASK = r" "vm_tree_ok s r"
    and "vm_reach s (vm_root s) \<inter> vm_writes s r = {}" "0 < vm_index 39 va" "vm_index 39 va < 256"
    and "clks_vm_map_page_in_address_space r va pa flags s = (ok', s')"
  shows "vm_ok s' \<and> vm_same s s' \<and> vm_tree_ok s' r \<and> vm_reach s' (vm_root s) \<inter> vm_writes s' r = {} \<and>
    (\<forall>w. clks_vm_translate_current w s' = clks_vm_translate_current w s) \<and>
    (let e = (pa AND CLKS_VM_PTE_ADDR_MASK) OR clks_vm_entry_flags_from_api flags s in
     \<forall>w. clks_vm_translate_current w (s'\<lparr>vm_cr3 := r\<rparr>) =
       (if ok' \<and> vm_indices w = vm_indices va
        then Some ((pa AND CLKS_VM_PTE_ADDR_MASK) + (w AND (CLKS_VM_PAGE_SIZE - 1)), e)
        else clks_vm_translate_current w (s\<lparr>vm_cr3 := r\<rparr>)))"
  by (rule map_other_space [OF assms])

theorem map_in_space_isolated_witness:
  "\<exists>s'. clks_vm_map_page_in_address_space 0x2000 0x8000000000 0x5000 CLKS_VM_FLAG_WRITE vm_demo = (True, s') \<and>
    vm_ok s' \<and> vm_cr3 s' = 0x1000 \<and> clks_vm_translate_current 0x8000000123 s' = None"
proof -
  obtain ok' s' where run:
    "clks_vm_map_page_in_address_space 0x2000 0x8000000000 0x5000 CLKS_VM_FLAG_WRITE vm_demo = (ok', s')" by fastforce
  have r: "\<not> unaligned (vm_cr3 vm_demo)" "vm_root vm_demo \<noteq> 0x2000" "(0x2000 :: u64) \<noteq> 0" "\<not> unaligned 0x2000"
    "0x2000 AND CLKS_VM_PTE_ADDR_MASK = 0x2000" "vm_tree_ok vm_demo 0x2000"
    "vm_reach vm_demo (vm_root vm_demo) \<inter> vm_writes vm_demo 0x2000 = {}"
    "0 < vm_index 39 0x8000000000" "vm_index 39 0x8000000000 < 256"
    by (auto simp: unaligned_def clks_consts vm_demo_tree vm_demo_avail vm_demo_mapped vm_reach_def vm_writes_def vm_private_def
      vm_index_def drop_bit_eq_div split: if_splits)
  have n: "clks_vm_translate_current w vm_demo = None" for w
    by (simp add: translate_resolve [OF vm_demo_ok] vm_indices_def clks_consts)
  have "fst (clks_vm_map_page_in_address_space 0x2000 0x8000000000 0x5000 CLKS_VM_FLAG_WRITE vm_demo)" by code_simp
  then have "ok' = True" using run by simp
  with map_in_space_isolated [OF vm_demo_ok r run] run n show ?thesis
    by (auto simp: vm_same_def)
qed

text \<open>
  C22. Destroying an address space gives back to the page allocator exactly its root and the tables
  of its own part, each once, and writes no other table: pages that the space shares with the kernel
  stay allocated and unchanged. When the space was the current one, the kernel's is current afterwards.
\<close>

theorem destroy_space_frees_private:
  assumes "vm_env_ok s" "pmm.owns all (vm_pmm s) own" "\<forall>u \<in> own. vm_mapped s u" "vm_tree_ok s r"
    and "r \<noteq> 0" "r AND CLKS_VM_PTE_ADDR_MASK = r" "r \<noteq> kr"
    and "clks_vm_kernel_cr3_value s = kr" "kr \<noteq> 0" "kr AND CLKS_VM_PTE_ADDR_MASK = kr" "vm_private s r \<subseteq> own"
  shows "let s' = clks_vm_destroy_address_space r s in
    vm_env_ok s' \<and> vm_same (s\<lparr>vm_cr3 := (if vm_cr3 s = r then kr else vm_cr3 s)\<rparr>) s' \<and>
    pmm.owns all (vm_pmm s') (own - vm_private s r) \<and>
    (\<forall>u. u \<notin> vm_private s r \<longrightarrow> vm_mem s' (p2v s u) = vm_mem s (p2v s u))"
  unfolding Let_def by (rule destroy_space_spec [OF assms])

theorem destroy_space_frees_private_witness:
  "let s' = clks_vm_destroy_address_space 0x2000 vm_demo in
    vm_env_ok s' \<and> vm_cr3 s' = 0x1000 \<and> pmm_avail (vm_pmm s') = {0x100000, 0x101000, 0x102000, 0x103000, 0x2000}"
proof -
  have o: "pmm.owns {0x100000, 0x101000, 0x102000, 0x103000, 0x2000} (vm_pmm vm_demo) {0x2000}"
    unfolding pmm.owns_def
    using vm_demo_avail by (auto simp: CLKS_PMM_MAX_TRACKED_PAGES_def page_aligned_def card_insert_if)
  have r: "vm_tree_ok vm_demo 0x2000" "(0x2000 :: u64) \<noteq> 0" "0x2000 AND CLKS_VM_PTE_ADDR_MASK = 0x2000"
    "(0x2000 :: u64) \<noteq> 0x1000" "clks_vm_kernel_cr3_value vm_demo = 0x1000" "(0x1000 :: u64) \<noteq> 0"
    "0x1000 AND CLKS_VM_PTE_ADDR_MASK = 0x1000" "vm_private vm_demo 0x2000 \<subseteq> {0x2000}"
    by (auto simp: clks_consts vm_demo_tree vm_demo_avail vm_demo_mapped vm_private_def split: if_splits)
  have p: "vm_private vm_demo 0x2000 = {0x2000}"
    by (auto simp: vm_private_def vm_user_def intro!: exI [of _ "[]"] split: if_splits)
  define s' where "s' = clks_vm_destroy_address_space 0x2000 vm_demo"
  have "\<forall>u \<in> {0x2000}. vm_mapped vm_demo u" by (simp add: vm_demo_mapped)
  from destroy_space_frees_private [OF vm_demo_env o this r]
  have "vm_env_ok s'" "vm_same (vm_demo\<lparr>vm_cr3 := 0x1000\<rparr>) s'"
    "pmm.owns {0x100000, 0x101000, 0x102000, 0x103000, 0x2000} (vm_pmm s') ({0x2000} - {0x2000})"
    unfolding Let_def p s'_def [symmetric] by simp_all
  then show ?thesis
    unfolding Let_def s'_def [symmetric] pmm.owns_def by (simp add: vm_same_def)
qed
end
