(* ===== verification/Clks_Elf64.thy ===== *)
theory Clks_Elf64
  imports Clks_Bytes Clks_Heap Clks_String
begin

text \<open>
  The ELF loader, \<open>kernel/runtime/elf64.c\<close>. The image is the list of the \<open>size\<close> bytes the caller
  passes, or \<open>None\<close> for a null pointer. The loaded image is a block of the kernel heap; heap pointers
  are arena offsets as in \<open>Clks_Heap\<close>, the address of the arena is the argument \<open>arena\<close> of the loader,
  and \<open>elf_mem\<close> gives the byte at a heap address. The log is left out. A result \<open>None\<close> would be a heap
  search that does not end.
\<close>

section \<open>State\<close>

definition CLKS_ELF64_MAGIC_0 :: u8 where "CLKS_ELF64_MAGIC_0 = 0x7F"

definition CLKS_ELF64_MAGIC_1 :: u8 where "CLKS_ELF64_MAGIC_1 = 0x45"

definition CLKS_ELF64_MAGIC_2 :: u8 where "CLKS_ELF64_MAGIC_2 = 0x4C"

definition CLKS_ELF64_MAGIC_3 :: u8 where "CLKS_ELF64_MAGIC_3 = 0x46"

definition CLKS_ELF64_CLASS_64 :: u8 where "CLKS_ELF64_CLASS_64 = 2"

definition CLKS_ELF64_DATA_LSB :: u8 where "CLKS_ELF64_DATA_LSB = 1"

definition CLKS_ELF64_VERSION :: u32 where "CLKS_ELF64_VERSION = 1"

definition CLKS_ELF64_ET_EXEC :: u16 where "CLKS_ELF64_ET_EXEC = 2"

definition CLKS_ELF64_ET_DYN :: u16 where "CLKS_ELF64_ET_DYN = 3"

definition CLKS_ELF64_EM_X86_64 :: u16 where "CLKS_ELF64_EM_X86_64 = 62"

definition CLKS_ELF64_PF_X :: u32 where "CLKS_ELF64_PF_X = 1"

definition CLKS_ELF64_MAX_SEGMENTS :: nat where "CLKS_ELF64_MAX_SEGMENTS = 16"

definition CLKS_ELF64_PT_LOAD :: u32 where "CLKS_ELF64_PT_LOAD = 1"

text \<open>\<open>sizeof(struct clks_elf64_ehdr)\<close> and \<open>sizeof(struct clks_elf64_phdr)\<close>.\<close>

definition EHDR_SIZE :: nat where "EHDR_SIZE = 64"

definition PHDR_SIZE :: nat where "PHDR_SIZE = 56"

lemmas elf_consts = CLKS_ELF64_MAGIC_0_def CLKS_ELF64_MAGIC_1_def CLKS_ELF64_MAGIC_2_def CLKS_ELF64_MAGIC_3_def
  CLKS_ELF64_CLASS_64_def CLKS_ELF64_DATA_LSB_def CLKS_ELF64_VERSION_def CLKS_ELF64_ET_EXEC_def CLKS_ELF64_ET_DYN_def
  CLKS_ELF64_EM_X86_64_def CLKS_ELF64_PF_X_def CLKS_ELF64_MAX_SEGMENTS_def CLKS_ELF64_PT_LOAD_def
  EHDR_SIZE_def PHDR_SIZE_def

record clks_elf64_ehdr =
  e_ident :: "u8 list"
  e_type :: u16
  e_machine :: u16
  e_version :: u32
  e_entry :: u64
  e_phoff :: u64
  e_shoff :: u64
  e_flags :: u32
  e_ehsize :: u16
  e_phentsize :: u16
  e_phnum :: u16
  e_shentsize :: u16
  e_shnum :: u16
  e_shstrndx :: u16

record clks_elf64_phdr =
  p_type :: u32
  p_flags :: u32
  p_offset :: u64
  p_vaddr :: u64
  p_paddr :: u64
  p_filesz :: u64
  p_memsz :: u64
  p_align :: u64

record clks_elf64_info =
  info_entry :: u64
  info_phnum :: u16
  info_loadable_segments :: u16
  info_total_load_memsz :: u64

record clks_elf64_loaded_segment =
  seg_base :: nat
  seg_vaddr :: u64
  seg_memsz :: u64
  seg_filesz :: u64
  seg_flags :: u32

text \<open>The segments are the first \<open>segment_count\<close> of the array.\<close>

record clks_elf64_loaded_image =
  li_entry :: u64
  li_image_base :: "nat option"
  li_image_size :: u64
  li_image_vaddr_base :: u64
  li_segments :: "clks_elf64_loaded_segment list"

record elf_state =
  elf_heap :: heap_state
  elf_mem :: "nat \<Rightarrow> u8"

text \<open>The structures read from the bytes of the image.\<close>

definition ehdr_at :: "u8 list \<Rightarrow> clks_elf64_ehdr" where
  "ehdr_at b = \<lparr>e_ident = take 16 b, e_type = le16_at b 16, e_machine = le16_at b 18, e_version = le32_at b 20,
     e_entry = le64_at b 24, e_phoff = le64_at b 32, e_shoff = le64_at b 40, e_flags = le32_at b 48,
     e_ehsize = le16_at b 52, e_phentsize = le16_at b 54, e_phnum = le16_at b 56, e_shentsize = le16_at b 58,
     e_shnum = le16_at b 60, e_shstrndx = le16_at b 62\<rparr>"

definition phdr_at :: "u8 list \<Rightarrow> nat \<Rightarrow> clks_elf64_phdr" where
  "phdr_at b off = \<lparr>p_type = le32_at b off, p_flags = le32_at b (off + 4), p_offset = le64_at b (off + 8),
     p_vaddr = le64_at b (off + 16), p_paddr = le64_at b (off + 24), p_filesz = le64_at b (off + 32),
     p_memsz = le64_at b (off + 40), p_align = le64_at b (off + 48)\<rparr>"

text \<open>The program headers, in the order of the loops \<open>for (i = 0; i < eh->e_phnum; i++)\<close>.\<close>

definition phdrs_of :: "u8 list \<Rightarrow> clks_elf64_phdr list" where
  "phdrs_of b = (let eh = ehdr_at b in
     map (\<lambda>i. phdr_at b (unat (e_phoff eh + of_nat i * ucast (e_phentsize eh)))) [0..<unat (e_phnum eh)])"

section \<open>Operations\<close>

definition clks_elf64_header_ok :: "clks_elf64_ehdr \<Rightarrow> bool" where
  "clks_elf64_header_ok eh =
     (if e_ident eh ! 0 \<noteq> CLKS_ELF64_MAGIC_0 \<or> e_ident eh ! 1 \<noteq> CLKS_ELF64_MAGIC_1 \<or>
         e_ident eh ! 2 \<noteq> CLKS_ELF64_MAGIC_2 \<or> e_ident eh ! 3 \<noteq> CLKS_ELF64_MAGIC_3 then False
      else if e_ident eh ! 4 \<noteq> CLKS_ELF64_CLASS_64 \<or> e_ident eh ! 5 \<noteq> CLKS_ELF64_DATA_LSB then False
      else if ucast (e_ident eh ! 6) \<noteq> CLKS_ELF64_VERSION \<or> e_version eh \<noteq> CLKS_ELF64_VERSION then False
      else if e_type eh \<noteq> CLKS_ELF64_ET_EXEC \<and> e_type eh \<noteq> CLKS_ELF64_ET_DYN then False
      else if e_machine eh \<noteq> CLKS_ELF64_EM_X86_64 then False
      else if unat (e_ehsize eh) \<noteq> EHDR_SIZE then False
      else if unat (e_phentsize eh) \<noteq> PHDR_SIZE then False
      else True)"

definition clks_elf64_range_ok :: "u64 \<Rightarrow> u64 \<Rightarrow> u64 \<Rightarrow> bool" where
  "clks_elf64_range_ok off len size_of =
     (if off > size_of then False else if len > size_of - off then False else True)"

definition clks_elf64_validate :: "u8 list option \<Rightarrow> bool" where
  "clks_elf64_validate file =
     (case file of None \<Rightarrow> False
      | Some b \<Rightarrow>
          if length b < EHDR_SIZE then False
          else
            let eh = ehdr_at b; image_size = of_nat (length b) in
            if \<not> clks_elf64_header_ok eh then False
            else
              let ph_table_size = ucast (e_phnum eh) * ucast (e_phentsize eh) in
              if \<not> clks_elf64_range_ok (e_phoff eh) ph_table_size image_size then False
              else
                list_all (\<lambda>ph.
                  if p_type ph \<noteq> CLKS_ELF64_PT_LOAD then True
                  else if p_filesz ph > p_memsz ph then False
                  else clks_elf64_range_ok (p_offset ph) (p_filesz ph) image_size) (phdrs_of b))"

definition clks_elf64_inspect :: "u8 list option \<Rightarrow> bool \<times> clks_elf64_info" where
  "clks_elf64_inspect file =
     (let zero = \<lparr>info_entry = 0, info_phnum = 0, info_loadable_segments = 0, info_total_load_memsz = 0\<rparr> in
      if \<not> clks_elf64_validate file then (False, zero)
      else
        let b = the file; eh = ehdr_at b in
        (True, fold (\<lambda>ph info.
           if p_type ph \<noteq> CLKS_ELF64_PT_LOAD then info
           else info\<lparr>info_loadable_segments := info_loadable_segments info + 1,
                     info_total_load_memsz := info_total_load_memsz info + p_memsz ph\<rparr>) (phdrs_of b)
           (zero\<lparr>info_entry := e_entry eh, info_phnum := e_phnum eh\<rparr>)))"

definition zero_loaded :: clks_elf64_loaded_image where
  "zero_loaded = \<lparr>li_entry = 0, li_image_base = None, li_image_size = 0, li_image_vaddr_base = 0, li_segments = []\<rparr>"

definition clks_elf64_unload :: "clks_elf64_loaded_image \<Rightarrow> elf_state \<Rightarrow> clks_elf64_loaded_image \<times> elf_state" where
  "clks_elf64_unload loaded s =
     (zero_loaded,
      if li_image_base loaded \<noteq> None then s\<lparr>elf_heap := clks_kfree (li_image_base loaded) (elf_heap s)\<rparr> else s)"

definition clks_elf64_entry_pointer :: "clks_elf64_loaded_image \<Rightarrow> u64 \<Rightarrow> nat option" where
  "clks_elf64_entry_pointer loaded entry =
     (case li_image_base loaded of None \<Rightarrow> None
      | Some base \<Rightarrow>
          if entry < li_image_vaddr_base loaded then None
          else
            let off = entry - li_image_vaddr_base loaded in
            if off \<ge> li_image_size loaded then None else Some (base + unat off))"

text \<open>One slot of \<open>clks_elf64_rebase_exec_pointers\<close>, and the slots of one segment.\<close>

definition rebase_slot :: "u64 \<Rightarrow> u64 \<Rightarrow> u64 \<Rightarrow> nat \<Rightarrow> (nat \<Rightarrow> u8) \<Rightarrow> nat \<Rightarrow> u8" where
  "rebase_slot old_base old_end delta a m =
     (let v = load64 m a in if v \<ge> old_base \<and> v < old_end then store64 a (v + delta) m else m)"

definition rebase_segment ::
  "u64 \<Rightarrow> u64 \<Rightarrow> u64 \<Rightarrow> clks_elf64_loaded_segment \<Rightarrow> (nat \<Rightarrow> u8) \<Rightarrow> nat \<Rightarrow> u8" where
  "rebase_segment old_base old_end delta seg m =
     (if seg_flags seg AND CLKS_ELF64_PF_X \<noteq> 0 then m
      else if seg_filesz seg < 8 then m
      else
        let scan_len = seg_filesz seg - seg_filesz seg mod 8 in
        fold (\<lambda>k. rebase_slot old_base old_end delta (seg_base seg + 8 * k)) [0..<unat scan_len div 8] m)"

definition clks_elf64_rebase_exec_pointers ::
  "clks_elf64_loaded_image \<Rightarrow> u64 \<Rightarrow> u64 \<Rightarrow> u64 \<Rightarrow> (nat \<Rightarrow> u8) \<Rightarrow> nat \<Rightarrow> u8" where
  "clks_elf64_rebase_exec_pointers loaded old_base old_end delta m =
     (if delta = 0 \<or> old_end \<le> old_base then m
      else fold (rebase_segment old_base old_end delta) (li_segments loaded) m)"

text \<open>
  The first loop of \<open>clks_elf64_load\<close>: the number of loaded segments, the least address and the greatest
  end; \<open>None\<close> when an end wraps.
\<close>

definition skipped :: "clks_elf64_phdr \<Rightarrow> bool" where
  "skipped ph \<longleftrightarrow> p_type ph \<noteq> CLKS_ELF64_PT_LOAD \<or> p_memsz ph = 0"

fun extent_loop :: "clks_elf64_phdr list \<Rightarrow> nat \<times> u64 \<times> u64 \<Rightarrow> (nat \<times> u64 \<times> u64) option" where
  "extent_loop [] acc = Some acc"
| "extent_loop (ph # phs) (load_count, min_vaddr, max_vaddr_end) =
     (if skipped ph then extent_loop phs (load_count, min_vaddr, max_vaddr_end)
      else
        let min1 = (if load_count = 0 \<or> p_vaddr ph < min_vaddr then p_vaddr ph else min_vaddr);
            seg_end = p_vaddr ph + p_memsz ph in
        if seg_end < p_vaddr ph then None
        else extent_loop phs (load_count + 1, min1,
               if load_count = 0 \<or> seg_end > max_vaddr_end then seg_end else max_vaddr_end))"

text \<open>The second loop: the contents of the segments.\<close>

fun place_loop ::
  "u8 list \<Rightarrow> nat \<Rightarrow> u64 \<Rightarrow> u64 \<Rightarrow> clks_elf64_phdr list \<Rightarrow> clks_elf64_loaded_image \<Rightarrow> elf_state \<Rightarrow>
     bool \<times> clks_elf64_loaded_image \<times> elf_state" where
  "place_loop b image_base min_vaddr load_span [] loaded s = (True, loaded, s)"
| "place_loop b image_base min_vaddr load_span (ph # phs) loaded s =
     (if skipped ph then place_loop b image_base min_vaddr load_span phs loaded s
      else if length (li_segments loaded) \<ge> CLKS_ELF64_MAX_SEGMENTS then (False, clks_elf64_unload loaded s)
      else
        let seg_off = p_vaddr ph - min_vaddr in
        if seg_off > load_span \<or> p_memsz ph > load_span - seg_off then (False, clks_elf64_unload loaded s)
        else
          let seg_dst = image_base + unat seg_off in
          place_loop b image_base min_vaddr load_span phs
            (loaded\<lparr>li_segments := li_segments loaded @
               [\<lparr>seg_base = seg_dst, seg_vaddr = p_vaddr ph, seg_memsz = p_memsz ph, seg_filesz = p_filesz ph,
                 seg_flags = p_flags ph\<rparr>]\<rparr>)
            (s\<lparr>elf_mem := put_bytes seg_dst (take (unat (p_filesz ph)) (drop (unat (p_offset ph)) b)) (elf_mem s)\<rparr>))"

definition clks_elf64_load ::
  "u64 \<Rightarrow> u8 list option \<Rightarrow> elf_state \<Rightarrow> (bool \<times> clks_elf64_loaded_image \<times> elf_state) option" where
  "clks_elf64_load arena file s =
     (if \<not> clks_elf64_validate file then Some (False, zero_loaded, s)
      else
        let b = the file; eh = ehdr_at b in
        case extent_loop (phdrs_of b) (0, 0, 0) of
          None \<Rightarrow> Some (False, zero_loaded, s)
        | Some (load_count, min_vaddr, max_vaddr_end) \<Rightarrow>
            if load_count = 0 then Some (False, zero_loaded, s)
            else if load_count > CLKS_ELF64_MAX_SEGMENTS then Some (False, zero_loaded, s)
            else
              let load_span = max_vaddr_end - min_vaddr in
              if load_span = 0 then Some (False, zero_loaded, s)
              else
                Option.bind (clks_kmalloc (unat load_span) (elf_heap s)) (\<lambda>(r, h).
                  case r of None \<Rightarrow> Some (False, zero_loaded, s\<lparr>elf_heap := h\<rparr>)
                  | Some image_base \<Rightarrow>
                      let s1 = \<lparr>elf_heap = h, elf_mem = clks_memset image_base 0 (unat load_span) (elf_mem s)\<rparr>;
                          l1 = \<lparr>li_entry = e_entry eh, li_image_base = Some image_base, li_image_size = load_span,
                                li_image_vaddr_base = min_vaddr, li_segments = []\<rparr>
                      in case place_loop b image_base min_vaddr load_span (phdrs_of b) l1 s1 of
                           (ok, l2, s2) \<Rightarrow>
                             if \<not> ok then Some (False, l2, s2)
                             else
                               let new_base = arena + of_nat image_base in
                               if e_type eh = CLKS_ELF64_ET_EXEC \<and> new_base \<noteq> min_vaddr
                               then Some (True, l2, s2\<lparr>elf_mem := clks_elf64_rebase_exec_pointers l2 min_vaddr
                                      max_vaddr_end (new_base - min_vaddr) (elf_mem s2)\<rparr>)
                               else Some (True, l2, s2)))"

section \<open>What validation gives\<close>

lemma range_ok: "clks_elf64_range_ok off len t \<longleftrightarrow> unat off + unat len \<le> unat t"
proof (cases "off \<le> t")
  case True
  then have "unat (t - off) = unat t - unat off" "unat off \<le> unat t" by (simp_all add: unat_sub word_le_nat_alt)
  moreover have "clks_elf64_range_ok off len t \<longleftrightarrow> unat len \<le> unat (t - off)"
  proof -
    have "\<not> t < off" using True by simp
    then have "clks_elf64_range_ok off len t \<longleftrightarrow> \<not> t - off < len" by (simp add: clks_elf64_range_ok_def)
    then show ?thesis by (simp add: not_less word_le_nat_alt)
  qed
  ultimately show ?thesis by auto
next
  case False
  then have "off > t" "unat off > unat t" by (simp_all add: not_le word_less_nat_alt)
  then show ?thesis by (simp add: clks_elf64_range_ok_def)
qed

definition loads_of :: "u8 list \<Rightarrow> clks_elf64_phdr list" where
  "loads_of b = filter (\<lambda>ph. \<not> skipped ph) (phdrs_of b)"

lemma validate_loads:
  assumes "clks_elf64_validate (Some b)" "length b < 18446744073709551616" "ph \<in> set (loads_of b)"
  shows "unat (p_filesz ph) \<le> unat (p_memsz ph)" "unat (p_offset ph) + unat (p_filesz ph) \<le> length b" "p_memsz ph \<noteq> 0"
proof -
  have l: "unat (of_nat (length b) :: u64) = length b" using assms(2) by (simp add: unsigned_of_nat take_bit_eq_mod)
  have "p_filesz ph \<le> p_memsz ph \<and> clks_elf64_range_ok (p_offset ph) (p_filesz ph) (of_nat (length b)) \<and> p_memsz ph \<noteq> 0"
    using assms(1,3) by (auto simp: clks_elf64_validate_def Let_def list_all_iff loads_of_def skipped_def split: if_splits)
  then show "unat (p_filesz ph) \<le> unat (p_memsz ph)" "unat (p_offset ph) + unat (p_filesz ph) \<le> length b" "p_memsz ph \<noteq> 0"
    by (simp_all add: range_ok l word_le_nat_alt)
qed

section \<open>The extent of the segments\<close>

text \<open>The segments lie between two addresses, without wrapping.\<close>

definition within :: "u64 \<Rightarrow> u64 \<Rightarrow> clks_elf64_phdr \<Rightarrow> bool" where
  "within lo hi ph \<longleftrightarrow> unat lo \<le> unat (p_vaddr ph) \<and> unat (p_vaddr ph) + unat (p_memsz ph) \<le> unat hi"

lemma no_wrap_end: "\<not> a + b < a \<Longrightarrow> unat (a + b) = unat a + unat b" for a b :: u64
  using no_olen_add_nat [of a b] by (auto simp: word_le_nat_alt not_less no_olen_add unat_word_ariths)

lemma extent_loop_spec:
  assumes "extent_loop phs (n, lo, hi) = Some (n', lo', hi')"
  shows "n' = n + length (filter (\<lambda>ph. \<not> skipped ph) phs) \<and>
    (\<forall>ph \<in> set phs. \<not> skipped ph \<longrightarrow> within lo' hi' ph) \<and> (0 < n \<longrightarrow> unat lo' \<le> unat lo \<and> unat hi \<le> unat hi')"
  using assms
proof (induction phs arbitrary: n lo hi)
  case (Cons ph phs)
  show ?case
  proof (cases "skipped ph")
    case True
    with Cons.IH [of n lo hi] Cons.prems show ?thesis by simp
  next
    case False
    define lo1 where "lo1 = (if n = 0 \<or> p_vaddr ph < lo then p_vaddr ph else lo)"
    define e where "e = p_vaddr ph + p_memsz ph"
    define hi1 where "hi1 = (if n = 0 \<or> e > hi then e else hi)"
    have "extent_loop (ph # phs) (n, lo, hi) = (if e < p_vaddr ph then None else extent_loop phs (n + 1, lo1, hi1))"
      using False by (simp only: extent_loop.simps if_False Let_def lo1_def hi1_def e_def)
    then have nw: "\<not> e < p_vaddr ph" and run: "extent_loop phs (n + 1, lo1, hi1) = Some (n', lo', hi')"
      using Cons.prems by (simp_all split: if_splits)
    have "unat e = unat (p_vaddr ph) + unat (p_memsz ph)" using no_wrap_end nw by (simp add: e_def)
    moreover have "unat lo1 \<le> unat (p_vaddr ph)" "unat e \<le> unat hi1" "0 < n \<longrightarrow> unat lo1 \<le> unat lo \<and> unat hi \<le> unat hi1"
      by (auto simp: lo1_def hi1_def word_less_nat_alt)
    ultimately show ?thesis using Cons.IH [OF run] False by (auto simp: within_def)
  qed
qed simp

lemma extent_loop_tight:
  assumes "extent_loop phs (n, lo, hi) = Some (n', lo', hi')"
  shows "(0 < n \<and> lo' = lo \<or> n' = 0 \<or> (\<exists>ph \<in> set phs. \<not> skipped ph \<and> p_vaddr ph = lo')) \<and>
    (0 < n \<and> hi' = hi \<or> n' = 0 \<or> (\<exists>ph \<in> set phs. \<not> skipped ph \<and> unat (p_vaddr ph) + unat (p_memsz ph) = unat hi'))"
  using assms
proof (induction phs arbitrary: n lo hi)
  case (Cons ph phs)
  show ?case
  proof (cases "skipped ph")
    case True
    with Cons.IH [of n lo hi] Cons.prems show ?thesis by auto
  next
    case False
    define lo1 where "lo1 = (if n = 0 \<or> p_vaddr ph < lo then p_vaddr ph else lo)"
    define e where "e = p_vaddr ph + p_memsz ph"
    define hi1 where "hi1 = (if n = 0 \<or> e > hi then e else hi)"
    have "extent_loop (ph # phs) (n, lo, hi) = (if e < p_vaddr ph then None else extent_loop phs (n + 1, lo1, hi1))"
      using False by (simp only: extent_loop.simps if_False Let_def lo1_def hi1_def e_def)
    then have nw: "\<not> e < p_vaddr ph" and run: "extent_loop phs (n + 1, lo1, hi1) = Some (n', lo', hi')"
      using Cons.prems by (simp_all split: if_splits)
    have "unat e = unat (p_vaddr ph) + unat (p_memsz ph)" using no_wrap_end nw by (simp add: e_def)
    moreover have "lo1 = p_vaddr ph \<or> 0 < n \<and> lo1 = lo" "hi1 = e \<or> 0 < n \<and> hi1 = hi"
      by (auto simp: lo1_def hi1_def)
    ultimately show ?thesis using Cons.IH [OF run] False by auto
  qed
qed auto

text \<open>The extent of the loaded segments: from the least address to the greatest end.\<close>

definition extent_of :: "clks_elf64_phdr list \<Rightarrow> u64 \<Rightarrow> u64 \<Rightarrow> bool" where
  "extent_of phs lo hi \<longleftrightarrow> (\<forall>ph \<in> set phs. within lo hi ph) \<and> (\<exists>ph \<in> set phs. p_vaddr ph = lo) \<and>
     (\<exists>ph \<in> set phs. unat (p_vaddr ph) + unat (p_memsz ph) = unat hi)"

section \<open>The contents of the image\<close>

text \<open>
  What the image should hold at a virtual address: the byte of the last loaded segment whose file part
  covers it, and 0 elsewhere.
\<close>

definition elf_image_byte :: "u8 list \<Rightarrow> clks_elf64_phdr list \<Rightarrow> nat \<Rightarrow> u8" where
  "elf_image_byte b phs x = fold (\<lambda>ph acc.
     if unat (p_vaddr ph) \<le> x \<and> x < unat (p_vaddr ph) + unat (p_filesz ph)
     then b ! (unat (p_offset ph) + (x - unat (p_vaddr ph))) else acc) phs 0"

lemma elf_image_byte_snoc: "elf_image_byte b (phs @ [ph]) x =
    (if unat (p_vaddr ph) \<le> x \<and> x < unat (p_vaddr ph) + unat (p_filesz ph)
     then b ! (unat (p_offset ph) + (x - unat (p_vaddr ph))) else elf_image_byte b phs x)"
  by (simp add: elf_image_byte_def)

definition segment_of :: "nat \<Rightarrow> u64 \<Rightarrow> clks_elf64_phdr \<Rightarrow> clks_elf64_loaded_segment" where
  "segment_of base lo ph = \<lparr>seg_base = base + (unat (p_vaddr ph) - unat lo), seg_vaddr = p_vaddr ph,
     seg_memsz = p_memsz ph, seg_filesz = p_filesz ph, seg_flags = p_flags ph\<rparr>"

definition place :: "u8 list \<Rightarrow> nat \<Rightarrow> u64 \<Rightarrow> clks_elf64_phdr \<Rightarrow> (nat \<Rightarrow> u8) \<Rightarrow> nat \<Rightarrow> u8" where
  "place b base lo ph = put_bytes (base + (unat (p_vaddr ph) - unat lo))
     (take (unat (p_filesz ph)) (drop (unat (p_offset ph)) b))"

lemma within_off:
  assumes "within lo hi ph"
  shows "unat (p_vaddr ph - lo) = unat (p_vaddr ph) - unat lo" "unat (hi - lo) = unat hi - unat lo"
    "\<not> (p_vaddr ph - lo > hi - lo \<or> p_memsz ph > (hi - lo) - (p_vaddr ph - lo))"
proof -
  have a: "lo \<le> p_vaddr ph" "lo \<le> hi" using assms by (simp_all add: within_def word_le_nat_alt)
  show v: "unat (p_vaddr ph - lo) = unat (p_vaddr ph) - unat lo" and h: "unat (hi - lo) = unat hi - unat lo"
    using a by (simp_all add: unat_sub)
  have "p_vaddr ph - lo \<le> hi - lo" unfolding word_le_nat_alt v h using assms by (auto simp: within_def)
  then have r: "unat ((hi - lo) - (p_vaddr ph - lo)) = (unat hi - unat lo) - (unat (p_vaddr ph) - unat lo)"
    by (simp only: unat_sub v h)
  have "p_memsz ph \<le> (hi - lo) - (p_vaddr ph - lo)"
    unfolding word_le_nat_alt r using assms by (auto simp: within_def)
  with \<open>p_vaddr ph - lo \<le> hi - lo\<close>
  show "\<not> (p_vaddr ph - lo > hi - lo \<or> p_memsz ph > (hi - lo) - (p_vaddr ph - lo))"
    by (simp only: not_less de_Morgan_disj simp_thms)
qed

lemma place_loop_spec:
  assumes "\<forall>ph \<in> set phs. \<not> skipped ph \<longrightarrow> within lo hi ph"
    and "length (li_segments loaded) + length (filter (\<lambda>ph. \<not> skipped ph) phs) \<le> CLKS_ELF64_MAX_SEGMENTS"
  shows "place_loop b base lo (hi - lo) phs loaded s =
    (True, loaded\<lparr>li_segments := li_segments loaded @ map (segment_of base lo) (filter (\<lambda>ph. \<not> skipped ph) phs)\<rparr>,
     s\<lparr>elf_mem := fold (place b base lo) (filter (\<lambda>ph. \<not> skipped ph) phs) (elf_mem s)\<rparr>)"
  using assms
proof (induction phs arbitrary: loaded s)
  case (Cons ph phs)
  show ?case
  proof (cases "skipped ph")
    case True
    with Cons.IH [of loaded s] Cons.prems show ?thesis by simp
  next
    case False
    then have w: "within lo hi ph" using Cons.prems by simp
    have len: "\<not> length (li_segments loaded) \<ge> CLKS_ELF64_MAX_SEGMENTS" using Cons.prems(2) False by simp
    show ?thesis
      using False len within_off [OF w] Cons.IH Cons.prems
      by (simp add: Let_def segment_of_def place_def)
  qed
qed simp

lemma place_fold:
  assumes "\<forall>ph \<in> set phs. within lo hi ph \<and> unat (p_filesz ph) \<le> unat (p_memsz ph) \<and>
      unat (p_offset ph) + unat (p_filesz ph) \<le> length b"
  shows "(\<forall>x < unat hi - unat lo. fold (place b base lo) phs m (base + x) =
      (if \<exists>ph \<in> set phs. unat (p_vaddr ph) \<le> unat lo + x \<and> unat lo + x < unat (p_vaddr ph) + unat (p_filesz ph)
       then elf_image_byte b phs (unat lo + x) else m (base + x))) \<and>
    (\<forall>a. a < base \<or> base + (unat hi - unat lo) \<le> a \<longrightarrow> fold (place b base lo) phs m a = m a)"
  using assms
proof (induction phs rule: rev_induct)
  case (snoc ph phs)
  have w: "within lo hi ph" "unat (p_filesz ph) \<le> unat (p_memsz ph)" "unat (p_offset ph) + unat (p_filesz ph) \<le> length b"
    using snoc.prems by simp_all
  note IH = snoc.IH
  have IH: "\<forall>x < unat hi - unat lo. fold (place b base lo) phs m (base + x) =
      (if \<exists>ph \<in> set phs. unat (p_vaddr ph) \<le> unat lo + x \<and> unat lo + x < unat (p_vaddr ph) + unat (p_filesz ph)
       then elf_image_byte b phs (unat lo + x) else m (base + x))"
    "\<forall>a. a < base \<or> base + (unat hi - unat lo) \<le> a \<longrightarrow> fold (place b base lo) phs m a = m a"
    using snoc.IH snoc.prems by simp_all
  have pl: "place b base lo ph m' a =
    (if base + (unat (p_vaddr ph) - unat lo) \<le> a \<and> a < base + (unat (p_vaddr ph) - unat lo) + unat (p_filesz ph)
     then b ! (unat (p_offset ph) + (a - (base + (unat (p_vaddr ph) - unat lo)))) else m' a)" for m' a
  proof -
    have "take (unat (p_filesz ph)) (drop (unat (p_offset ph)) b) ! k = b ! (unat (p_offset ph) + k)"
      if "k < unat (p_filesz ph)" for k using that w(3) by simp
    moreover have "length (take (unat (p_filesz ph)) (drop (unat (p_offset ph)) b)) = unat (p_filesz ph)"
      using w(3) by simp
    ultimately show ?thesis unfolding place_def put_bytes_def by (auto simp del: nth_take)
  qed
  show ?case
  proof (intro conjI allI impI)
    fix x
    assume x: "x < unat hi - unat lo"
    show "fold (place b base lo) (phs @ [ph]) m (base + x) =
      (if \<exists>ph \<in> set (phs @ [ph]). unat (p_vaddr ph) \<le> unat lo + x \<and> unat lo + x < unat (p_vaddr ph) + unat (p_filesz ph)
       then elf_image_byte b (phs @ [ph]) (unat lo + x) else m (base + x))"
    proof (cases "unat (p_vaddr ph) \<le> unat lo + x \<and> unat lo + x < unat (p_vaddr ph) + unat (p_filesz ph)")
      case True
      then have c: "(base + (unat (p_vaddr ph) - unat lo) \<le> base + x \<and>
          base + x < base + (unat (p_vaddr ph) - unat lo) + unat (p_filesz ph)) = True"
        and e: "base + x - (base + (unat (p_vaddr ph) - unat lo)) = unat lo + x - unat (p_vaddr ph)"
        using w(1) by (auto simp: within_def)
      have "fold (place b base lo) (phs @ [ph]) m (base + x) = b ! (unat (p_offset ph) + (unat lo + x - unat (p_vaddr ph)))"
        unfolding fold_append fold_simps comp_apply pl c e by (simp only: if_True)
      also have "\<dots> = elf_image_byte b (phs @ [ph]) (unat lo + x)"
        using True by (simp add: elf_image_byte_def)
      finally show ?thesis using True by auto
    next
      case False
      then have "\<not> (unat (p_vaddr ph) - unat lo \<le> x \<and> x < unat (p_vaddr ph) - unat lo + unat (p_filesz ph))"
        using w(1) by (auto simp: within_def)
      then have c: "(base + (unat (p_vaddr ph) - unat lo) \<le> base + x \<and>
          base + x < base + (unat (p_vaddr ph) - unat lo) + unat (p_filesz ph)) = False" by simp
      have "place b base lo ph (fold (place b base lo) phs m) (base + x) = fold (place b base lo) phs m (base + x)"
        unfolding pl c by (simp only: if_False)
      moreover have "elf_image_byte b (phs @ [ph]) (unat lo + x) = elf_image_byte b phs (unat lo + x)"
        unfolding elf_image_byte_snoc by (rule if_not_P [OF False])
      moreover have "(\<exists>ph \<in> set (phs @ [ph]). unat (p_vaddr ph) \<le> unat lo + x \<and> unat lo + x < unat (p_vaddr ph) + unat (p_filesz ph)) =
          (\<exists>ph \<in> set phs. unat (p_vaddr ph) \<le> unat lo + x \<and> unat lo + x < unat (p_vaddr ph) + unat (p_filesz ph))"
        using False by auto
      ultimately show ?thesis using x IH(1) unfolding fold_append fold_simps comp_apply by presburger
    qed
  next
    fix a
    assume "a < base \<or> base + (unat hi - unat lo) \<le> a"
    then show "fold (place b base lo) (phs @ [ph]) m a = m a"
      using w IH(2) by (auto simp: pl within_def)
  qed
qed simp

lemma elf_image_byte_outside:
  "\<not> (\<exists>ph \<in> set phs. unat (p_vaddr ph) \<le> x \<and> x < unat (p_vaddr ph) + unat (p_filesz ph)) \<Longrightarrow> elf_image_byte b phs x = 0"
  by (induction phs rule: rev_induct) (auto simp: elf_image_byte_def)

lemma memset_zero: "clks_memset p 0 n m a = (if p \<le> a \<and> a < p + n then 0 else m a)"
  by (induction n) (auto simp: clks_memset_def)

section \<open>Loading\<close>

lemma load_spec:
  assumes hl: "heap_live (elf_heap s) L" and b: "length b < 18446744073709551616"
  shows "\<exists>ok img s'. clks_elf64_load arena (Some b) s = Some (ok, img, s') \<and>
    (if \<not> ok then img = zero_loaded \<and> s' = s \<and>
       (clks_elf64_validate (Some b) \<longrightarrow> (\<forall>n lo hi. extent_loop (phdrs_of b) (0, 0, 0) = Some (n, lo, hi) \<longrightarrow>
          n = 0 \<or> n > CLKS_ELF64_MAX_SEGMENTS \<or> clks_kmalloc (unat (hi - lo)) (elf_heap s) = Some (None, elf_heap s)))
     else clks_elf64_validate (Some b) \<and>
       (\<exists>p sz lo hi m. unat lo < unat hi \<and> extent_of (loads_of b) lo hi \<and>
          L p = None \<and> heap_live (elf_heap s') (L(p \<mapsto> sz)) \<and>
          (unat hi - unat lo + 15 < USIZE_RANGE \<longrightarrow> unat hi - unat lo \<le> sz) \<and>
          img = \<lparr>li_entry = e_entry (ehdr_at b), li_image_base = Some p, li_image_size = hi - lo,
            li_image_vaddr_base = lo, li_segments = map (segment_of p lo) (loads_of b)\<rparr> \<and>
          (\<forall>x < unat hi - unat lo. m (p + x) = elf_image_byte b (loads_of b) (unat lo + x)) \<and>
          (\<forall>a. a < p \<or> p + (unat hi - unat lo) \<le> a \<longrightarrow> m a = elf_mem s a) \<and>
          elf_mem s' = (if e_type (ehdr_at b) = CLKS_ELF64_ET_EXEC \<and> arena + of_nat p \<noteq> lo
            then clks_elf64_rebase_exec_pointers img lo hi (arena + of_nat p - lo) m else m)))"
proof (cases "clks_elf64_validate (Some b)")
  case False
  then show ?thesis by (intro exI [of _ False] exI [of _ zero_loaded] exI [of _ s]) (simp add: clks_elf64_load_def)
next
  case val: True
  show ?thesis
  proof (cases "extent_loop (phdrs_of b) (0, 0, 0)")
    case None
    then show ?thesis by (intro exI [of _ False] exI [of _ zero_loaded] exI [of _ s]) (simp add: clks_elf64_load_def Let_def)
  next
    case (Some e)
    obtain n lo hi where e: "extent_loop (phdrs_of b) (0, 0, 0) = Some (n, lo, hi)" using Some by (cases e) auto
    note x = extent_loop_spec [OF e]
    then have n: "n = length (loads_of b)" and win: "\<forall>ph \<in> set (loads_of b). within lo hi ph"
      by (auto simp: loads_of_def)
    show ?thesis
    proof (cases "n = 0 \<or> n > CLKS_ELF64_MAX_SEGMENTS")
      case True
      with e show ?thesis by (intro exI [of _ False] exI [of _ zero_loaded] exI [of _ s]) (auto simp: clks_elf64_load_def Let_def)
    next
      case False
      have ext: "extent_of (loads_of b) lo hi"
        using extent_loop_tight [OF e] win False by (auto simp: extent_of_def loads_of_def)
      obtain ph where ph: "ph \<in> set (loads_of b)" using False n by (cases "loads_of b") auto
      have lh: "unat lo < unat hi"
        using win ph validate_loads(3) [OF val b ph] by (auto simp: within_def unat_eq_zero [symmetric] simp del: unat_eq_zero)
      have sp: "unat (hi - lo) = unat hi - unat lo" using win ph within_off(2) by blast
      have ne: "hi - lo \<noteq> 0" using lh by auto
      obtain r h where k: "clks_kmalloc (unat (hi - lo)) (elf_heap s) = Some (r, h)"
        using heap.malloc_runs [OF hl] by blast
      show ?thesis
      proof (cases r)
        case None
        then have "h = elf_heap s" using heap.malloc_null [OF hl] k by blast
        with False ne e k None show ?thesis by (intro exI [of _ False] exI [of _ zero_loaded] exI [of _ s]) (simp add: clks_elf64_load_def Let_def val)
      next
        case (Some p)
        obtain sz where sz: "L p = None" "heap_live h (L(p \<mapsto> sz))" "unat (hi - lo) + 15 < USIZE_RANGE \<longrightarrow> unat (hi - lo) \<le> sz"
          using heap.malloc_some [OF hl] k Some by blast
        define m0 where "m0 = clks_memset p 0 (unat (hi - lo)) (elf_mem s)"
        define m where "m = fold (place b p lo) (loads_of b) m0"
        define img where "img = \<lparr>li_entry = e_entry (ehdr_at b), li_image_base = Some p, li_image_size = hi - lo,
            li_image_vaddr_base = lo, li_segments = map (segment_of p lo) (loads_of b)\<rparr>"
        have pf: "\<forall>ph \<in> set (loads_of b). within lo hi ph \<and> unat (p_filesz ph) \<le> unat (p_memsz ph) \<and>
            unat (p_offset ph) + unat (p_filesz ph) \<le> length b"
          using win validate_loads [OF val b] by blast
        note fo = place_fold [OF pf, of p m0, folded m_def]
        have m0: "m0 a = (if p \<le> a \<and> a < p + (unat hi - unat lo) then 0 else elf_mem s a)" for a
          by (simp add: m0_def memset_zero sp)
        have c1: "\<forall>x < unat hi - unat lo. m (p + x) = elf_image_byte b (loads_of b) (unat lo + x)"
        proof (intro allI impI)
          fix x
          assume x: "x < unat hi - unat lo"
          then have "m0 (p + x) = 0" unfolding m0 by (intro if_P) (meson add_strict_left_mono le_add1)
          with x fo elf_image_byte_outside [of "loads_of b" "unat lo + x" b]
          show "m (p + x) = elf_image_byte b (loads_of b) (unat lo + x)" by presburger
        qed
        have c2: "\<forall>a. a < p \<or> p + (unat hi - unat lo) \<le> a \<longrightarrow> m a = elf_mem s a"
          using fo by (auto simp: m0)
        have pl: "place_loop b p lo (hi - lo) (phdrs_of b)
            \<lparr>li_entry = e_entry (ehdr_at b), li_image_base = Some p, li_image_size = hi - lo,
             li_image_vaddr_base = lo, li_segments = []\<rparr>
            \<lparr>elf_heap = h, elf_mem = clks_memset p 0 (unat (hi - lo)) (elf_mem s)\<rparr> =
          (True, img, \<lparr>elf_heap = h, elf_mem = m\<rparr>)"
          using False n win by (subst place_loop_spec) (auto simp: loads_of_def img_def m_def m0_def)
        define s' where "s' = \<lparr>elf_heap = h, elf_mem = (if e_type (ehdr_at b) = CLKS_ELF64_ET_EXEC \<and> arena + of_nat p \<noteq> lo
            then clks_elf64_rebase_exec_pointers img lo hi (arena + of_nat p - lo) m else m)\<rparr>"
        have run: "clks_elf64_load arena (Some b) s = Some (True, img, s')"
          using False ne e k Some pl val by (simp add: clks_elf64_load_def Let_def s'_def)
        have hs: "heap_live (elf_heap s') (L(p \<mapsto> sz))" using sz by (simp add: s'_def)
        have ms: "elf_mem s' = (if e_type (ehdr_at b) = CLKS_ELF64_ET_EXEC \<and> arena + of_nat p \<noteq> lo
            then clks_elf64_rebase_exec_pointers img lo hi (arena + of_nat p - lo) m else m)" by (simp add: s'_def)
        show ?thesis
          unfolding img_def [symmetric]
          by (intro exI [of _ True] exI [of _ img] exI [of _ s'] conjI run)
            (simp only: not_True_eq_False if_False,
             intro conjI val exI [of _ p] exI [of _ sz] exI [of _ lo] exI [of _ hi] exI [of _ m]
               lh ext sz(1) hs sz(3) [unfolded sp] img_def c1 c2 ms)
      qed
    qed
  qed
qed

section \<open>Rebasing\<close>

definition rebased :: "u64 \<Rightarrow> u64 \<Rightarrow> u64 \<Rightarrow> u64 \<Rightarrow> u64" where
  "rebased old_base old_end delta v = (if old_base \<le> v \<and> v < old_end then v + delta else v)"

lemma rebase_slots:
  "(\<forall>k < n. load64 (fold (\<lambda>k. rebase_slot ob oe d (base + 8 * k)) [0..<n] m) (base + 8 * k) =
      rebased ob oe d (load64 m (base + 8 * k))) \<and>
   (\<forall>a. a < base \<or> base + 8 * n \<le> a \<longrightarrow> fold (\<lambda>k. rebase_slot ob oe d (base + 8 * k)) [0..<n] m a = m a)"
proof (induction n)
  case (Suc n)
  define m1 where "m1 = fold (\<lambda>k. rebase_slot ob oe d (base + 8 * k)) [0..<n] m"
  have st: "fold (\<lambda>k. rebase_slot ob oe d (base + 8 * k)) [0..<Suc n] m = rebase_slot ob oe d (base + 8 * n) m1"
    by (simp add: m1_def)
  have IH: "load64 m1 (base + 8 * k) = rebased ob oe d (load64 m (base + 8 * k))" if "k < n" for k
    using Suc that by (simp add: m1_def)
  have out: "m1 a = m a" if "a < base \<or> base + 8 * n \<le> a" for a using Suc that unfolding m1_def by blast
  have new: "load64 m1 (base + 8 * n) = load64 m (base + 8 * n)" by (rule load64_cong) (simp add: out)
  show ?case
    unfolding st
  proof (intro conjI allI impI)
    fix k
    assume k: "k < Suc n"
    show "load64 (rebase_slot ob oe d (base + 8 * n) m1) (base + 8 * k) = rebased ob oe d (load64 m (base + 8 * k))"
    proof (cases "k = n")
      case True
      then show ?thesis using new by (simp add: rebase_slot_def rebased_def Let_def)
    next
      case False
      then have "k < n" using k by simp
      then show ?thesis using IH [of k] by (simp add: rebase_slot_def Let_def load_store64_other)
    qed
  next
    fix a
    assume "a < base \<or> base + 8 * Suc n \<le> a"
    then show "rebase_slot ob oe d (base + 8 * n) m1 a = m a"
      using out [of a] by (auto simp: rebase_slot_def Let_def store64_other)
  qed
qed simp

text \<open>The number of slots of a segment that are scanned.\<close>

definition slots_of :: "clks_elf64_loaded_segment \<Rightarrow> nat" where
  "slots_of seg = (if seg_flags seg AND CLKS_ELF64_PF_X \<noteq> 0 then 0 else unat (seg_filesz seg) div 8)"

lemma rebase_segment_slots:
  "rebase_segment ob oe d seg m = fold (\<lambda>k. rebase_slot ob oe d (seg_base seg + 8 * k)) [0..<slots_of seg] m"
proof -
  have "unat (seg_filesz seg - seg_filesz seg mod 8) div 8 = unat (seg_filesz seg) div 8"
  proof -
    have "unat (seg_filesz seg mod 8) = unat (seg_filesz seg) mod 8" by (simp add: unat_mod)
    moreover have "seg_filesz seg mod 8 \<le> seg_filesz seg" by (simp add: word_le_nat_alt unat_mod)
    ultimately have "unat (seg_filesz seg - seg_filesz seg mod 8) = unat (seg_filesz seg) - unat (seg_filesz seg) mod 8"
      by (simp add: unat_sub)
    then show ?thesis by (simp add: minus_mod_eq_mult_div)
  qed
  moreover have "unat (seg_filesz seg) div 8 = 0" if "seg_filesz seg < 8"
    using that by (simp add: word_less_nat_alt)
  ultimately show ?thesis by (simp add: rebase_segment_def slots_of_def Let_def)
qed

definition apart :: "clks_elf64_loaded_segment \<Rightarrow> clks_elf64_loaded_segment \<Rightarrow> bool" where
  "apart s t \<longleftrightarrow> seg_base s + unat (seg_filesz s) \<le> seg_base t \<or> seg_base t + unat (seg_filesz t) \<le> seg_base s"

lemma slots_le: "8 * slots_of seg \<le> unat (seg_filesz seg)"
  by (simp add: slots_of_def)

lemma rebase_segments:
  assumes "sorted_wrt apart segs"
  shows "(\<forall>seg \<in> set segs. \<forall>k < slots_of seg. load64 (fold (rebase_segment ob oe d) segs m) (seg_base seg + 8 * k) =
      rebased ob oe d (load64 m (seg_base seg + 8 * k))) \<and>
    (\<forall>a. (\<forall>seg \<in> set segs. a < seg_base seg \<or> seg_base seg + 8 * slots_of seg \<le> a) \<longrightarrow>
      fold (rebase_segment ob oe d) segs m a = m a)"
  using assms
proof (induction segs rule: rev_induct)
  case (snoc s segs)
  define m1 where "m1 = fold (rebase_segment ob oe d) segs m"
  have st: "fold (rebase_segment ob oe d) (segs @ [s]) m = rebase_segment ob oe d s m1" by (simp add: m1_def)
  have ap: "\<forall>t \<in> set segs. apart t s" and sw: "sorted_wrt apart segs" using snoc.prems by (auto simp: sorted_wrt_append)
  have IH: "load64 m1 (seg_base seg + 8 * k) = rebased ob oe d (load64 m (seg_base seg + 8 * k))"
    if "seg \<in> set segs" "k < slots_of seg" for seg k using snoc.IH [OF sw] that by (simp add: m1_def)
  have out: "m1 a = m a" if "\<forall>seg \<in> set segs. a < seg_base seg \<or> seg_base seg + 8 * slots_of seg \<le> a" for a
    using snoc.IH [OF sw] that by (simp add: m1_def)
  note sl = rebase_slots [where n = "slots_of s" and base = "seg_base s" and m = m1 and ob = ob and oe = oe and d = d,
      folded rebase_segment_slots]
  have slot_in: "a < seg_base seg \<or> seg_base seg + unat (seg_filesz seg) \<le> a \<Longrightarrow>
      a < seg_base seg \<or> seg_base seg + 8 * slots_of seg \<le> a" for a seg using slots_le [of seg] by auto
  show ?case
    unfolding st
  proof (intro conjI ballI allI impI)
    fix seg k
    assume seg: "seg \<in> set (segs @ [s])" and k: "k < slots_of seg"
    show "load64 (rebase_segment ob oe d s m1) (seg_base seg + 8 * k) = rebased ob oe d (load64 m (seg_base seg + 8 * k))"
    proof (cases "seg \<in> set segs")
      case True
      have "load64 (rebase_segment ob oe d s m1) (seg_base seg + 8 * k) = load64 m1 (seg_base seg + 8 * k)"
      proof (rule load64_cong)
        fix i :: nat
        assume "i < 8"
        then have "seg_base seg + 8 * k + i < seg_base s \<or> seg_base s + 8 * slots_of s \<le> seg_base seg + 8 * k + i"
          using ap True k slots_le [of seg] slots_le [of s] by (force simp: apart_def)
        then show "rebase_segment ob oe d s m1 (seg_base seg + 8 * k + i) = m1 (seg_base seg + 8 * k + i)"
          using sl by blast
      qed
      then show ?thesis using IH [OF True k] by simp
    next
      case False
      then have "seg = s" using seg by simp
      moreover have "load64 m1 (seg_base s + 8 * k) = load64 m (seg_base s + 8 * k)" if "k < slots_of s"
      proof (rule load64_cong)
        fix i :: nat
        assume "i < 8"
        have "seg_base s + 8 * k + i < seg_base t \<or> seg_base t + 8 * slots_of t \<le> seg_base s + 8 * k + i"
          if "t \<in> set segs" for t
        proof -
          have "8 * k + i < unat (seg_filesz s)" using \<open>i < 8\<close> \<open>k < slots_of s\<close> slots_le [of s] by linarith
          then show ?thesis using ap that slots_le [of t] unfolding apart_def by fastforce
        qed
        then have "\<forall>t \<in> set segs. seg_base s + 8 * k + i < seg_base t \<or> seg_base t + 8 * slots_of t \<le> seg_base s + 8 * k + i"
          by blast
        then show "m1 (seg_base s + 8 * k + i) = m (seg_base s + 8 * k + i)" by (rule out)
      qed
      ultimately show ?thesis using sl k by simp
    qed
  next
    fix a
    assume "\<forall>seg \<in> set (segs @ [s]). a < seg_base seg \<or> seg_base seg + 8 * slots_of seg \<le> a"
    then have "a < seg_base s \<or> seg_base s + 8 * slots_of s \<le> a" "m1 a = m a" using out [of a] by simp_all
    moreover have "rebase_segment ob oe d s m1 a = m1 a" by (rule conjunct2 [OF sl, rule_format]) fact
    ultimately show "rebase_segment ob oe d s m1 a = m a" by simp
  qed
qed simp

lemma rebase_frame:
  assumes "\<forall>seg \<in> set segs. a < seg_base seg \<or> seg_base seg + unat (seg_filesz seg) \<le> a"
  shows "fold (rebase_segment ob oe d) segs m a = m a"
  using assms
proof (induction segs arbitrary: m)
  case (Cons seg segs)
  have "a < seg_base seg \<or> seg_base seg + 8 * slots_of seg \<le> a" using Cons.prems slots_le [of seg] by auto
  with rebase_slots [of "slots_of seg" ob oe d "seg_base seg" m] have "rebase_segment ob oe d seg m a = m a"
    unfolding rebase_segment_slots by blast
  with Cons show ?case by simp
qed simp

text \<open>What a successful call of \<open>clks_elf64_load\<close> leaves behind, with the rebasing as the code does it.\<close>

definition loaded_image :: "u64 \<Rightarrow> u8 list \<Rightarrow> (nat \<rightharpoonup> nat) \<Rightarrow> elf_state \<Rightarrow> clks_elf64_loaded_image \<Rightarrow> elf_state \<Rightarrow> bool" where
  "loaded_image arena b L s img s' \<longleftrightarrow>
       (\<exists>p sz lo hi m. unat lo < unat hi \<and> extent_of (loads_of b) lo hi \<and>
          L p = None \<and> heap_live (elf_heap s') (L(p \<mapsto> sz)) \<and>
          (unat hi - unat lo + 15 < USIZE_RANGE \<longrightarrow> unat hi - unat lo \<le> sz) \<and>
          img = \<lparr>li_entry = e_entry (ehdr_at b), li_image_base = Some p, li_image_size = hi - lo,
            li_image_vaddr_base = lo, li_segments = map (segment_of p lo) (loads_of b)\<rparr> \<and>
          (\<forall>x < unat hi - unat lo. m (p + x) = elf_image_byte b (loads_of b) (unat lo + x)) \<and>
          (\<forall>a. a < p \<or> p + (unat hi - unat lo) \<le> a \<longrightarrow> m a = elf_mem s a) \<and>
          elf_mem s' = (if e_type (ehdr_at b) = CLKS_ELF64_ET_EXEC \<and> arena + of_nat p \<noteq> lo
            then clks_elf64_rebase_exec_pointers img lo hi (arena + of_nat p - lo) m else m))"

text \<open>
  The same with the rebasing said by its effect. \<open>m\<close> is the memory before rebasing: the image placed at
  \<open>p\<close>, in a new block of \<open>sz\<close> bytes. In the end nothing outside the image has changed, and in an executable
  whose file parts do not overlap the aligned 64-bit values of the segments that are not executable have been
  moved when they point into the old extent (\<open>rebased\<close>), and no other byte.
\<close>

definition image_in_place :: "u64 \<Rightarrow> u8 list \<Rightarrow> (nat \<rightharpoonup> nat) \<Rightarrow> elf_state \<Rightarrow> clks_elf64_loaded_image \<Rightarrow> elf_state \<Rightarrow> bool" where
  "image_in_place arena b L s img s' \<longleftrightarrow>
       (\<exists>p sz lo hi m. unat lo < unat hi \<and> extent_of (loads_of b) lo hi \<and>
          L p = None \<and> heap_live (elf_heap s') (L(p \<mapsto> sz)) \<and>
          (unat hi - unat lo + 15 < USIZE_RANGE \<longrightarrow> unat hi - unat lo \<le> sz) \<and>
          img = \<lparr>li_entry = e_entry (ehdr_at b), li_image_base = Some p, li_image_size = hi - lo,
            li_image_vaddr_base = lo, li_segments = map (segment_of p lo) (loads_of b)\<rparr> \<and>
          (\<forall>x < unat hi - unat lo. m (p + x) = elf_image_byte b (loads_of b) (unat lo + x)) \<and>
          (\<forall>a. a < p \<or> p + (unat hi - unat lo) \<le> a \<longrightarrow> m a = elf_mem s a \<and> elf_mem s' a = elf_mem s a) \<and>
          elf_mem s' = (if e_type (ehdr_at b) = CLKS_ELF64_ET_EXEC \<and> arena + of_nat p \<noteq> lo
            then clks_elf64_rebase_exec_pointers img lo hi (arena + of_nat p - lo) m else m) \<and>
          (e_type (ehdr_at b) = CLKS_ELF64_ET_EXEC \<and> sorted_wrt apart (map (segment_of p lo) (loads_of b)) \<longrightarrow>
            (\<forall>seg \<in> set (map (segment_of p lo) (loads_of b)). \<forall>k < slots_of seg.
               load64 (elf_mem s') (seg_base seg + 8 * k) =
                 rebased lo hi (arena + of_nat p - lo) (load64 m (seg_base seg + 8 * k))) \<and>
            (\<forall>a. (\<forall>seg \<in> set (map (segment_of p lo) (loads_of b)).
                 a < seg_base seg \<or> seg_base seg + 8 * slots_of seg \<le> a) \<longrightarrow> elf_mem s' a = m a)))"

lemma loaded_image_rebased:
  assumes "loaded_image arena b L s img s'" "clks_elf64_validate (Some b)" "length b < 18446744073709551616"
  shows "image_in_place arena b L s img s'"
proof -
  obtain p sz lo hi m where h: "unat lo < unat hi" "extent_of (loads_of b) lo hi"
      "L p = None" "heap_live (elf_heap s') (L(p \<mapsto> sz))"
      "unat hi - unat lo + 15 < USIZE_RANGE \<longrightarrow> unat hi - unat lo \<le> sz"
    and img: "img = \<lparr>li_entry = e_entry (ehdr_at b), li_image_base = Some p, li_image_size = hi - lo,
        li_image_vaddr_base = lo, li_segments = map (segment_of p lo) (loads_of b)\<rparr>"
    and m: "\<forall>x < unat hi - unat lo. m (p + x) = elf_image_byte b (loads_of b) (unat lo + x)"
      "\<forall>a. a < p \<or> p + (unat hi - unat lo) \<le> a \<longrightarrow> m a = elf_mem s a"
    and e: "elf_mem s' = (if e_type (ehdr_at b) = CLKS_ELF64_ET_EXEC \<and> arena + of_nat p \<noteq> lo
        then clks_elf64_rebase_exec_pointers img lo hi (arena + of_nat p - lo) m else m)"
    using assms(1) unfolding loaded_image_def by blast
  let ?segs = "map (segment_of p lo) (loads_of b)" and ?d = "arena + of_nat p - lo"
  have moved: "elf_mem s' = fold (rebase_segment lo hi ?d) ?segs m"
    if "e_type (ehdr_at b) = CLKS_ELF64_ET_EXEC" "arena + of_nat p \<noteq> lo"
    using e that h(1) by (simp add: clks_elf64_rebase_exec_pointers_def img word_le_nat_alt)
  have same: "rebased lo hi 0 v = v" for v by (simp add: rebased_def)
  have out: "elf_mem s' a = m a" if a: "a < p \<or> p + (unat hi - unat lo) \<le> a" for a
  proof (cases "e_type (ehdr_at b) = CLKS_ELF64_ET_EXEC \<and> arena + of_nat p \<noteq> lo")
    case True
    have "a < seg_base (segment_of p lo ph) \<or> seg_base (segment_of p lo ph) + unat (seg_filesz (segment_of p lo ph)) \<le> a"
      if "ph \<in> set (loads_of b)" for ph
    proof -
      have "within lo hi ph" "unat (p_filesz ph) \<le> unat (p_memsz ph)"
        using h(2) [unfolded extent_of_def] that validate_loads(1) [OF assms(2,3) that] by simp_all
      with a show ?thesis by (auto simp: segment_of_def within_def)
    qed
    then have "fold (rebase_segment lo hi ?d) ?segs m a = m a" by (intro rebase_frame) simp
    with moved True show ?thesis by simp
  qed (use e in auto)
  have slots: "(\<forall>seg \<in> set ?segs. \<forall>k < slots_of seg. load64 (elf_mem s') (seg_base seg + 8 * k) =
        rebased lo hi ?d (load64 m (seg_base seg + 8 * k))) \<and>
      (\<forall>a. (\<forall>seg \<in> set ?segs. a < seg_base seg \<or> seg_base seg + 8 * slots_of seg \<le> a) \<longrightarrow> elf_mem s' a = m a)"
    if "e_type (ehdr_at b) = CLKS_ELF64_ET_EXEC" "sorted_wrt apart ?segs"
  proof (cases "arena + of_nat p = lo")
    case True
    then show ?thesis using e by (simp add: same)
  next
    case False
    show ?thesis unfolding moved [OF that(1) False] by (rule rebase_segments [OF that(2)])
  qed
  show ?thesis
    unfolding image_in_place_def
    by (rule exI [of _ p], rule exI [of _ sz], rule exI [of _ lo], rule exI [of _ hi], rule exI [of _ m],
        intro conjI h img m e allI impI) (use m(2) out e slots in \<open>(auto simp del: set_map)\<close>)
qed

section \<open>Properties\<close>

text \<open>
  For the witnesses: a file with one loaded segment whose bytes follow the program header.
\<close>

definition elf_file :: "u16 \<Rightarrow> u64 \<Rightarrow> u64 \<Rightarrow> u8 list \<Rightarrow> u8 list" where
  "elf_file ty vaddr memsz bytes =
     [0x7F, 0x45, 0x4C, 0x46, 2, 1, 1] @ replicate 9 0 @ le_bytes 2 (ucast ty) @ le_bytes 2 62 @ le_bytes 4 1 @
     le_bytes 8 vaddr @ le_bytes 8 64 @ le_bytes 8 0 @ le_bytes 4 0 @ le_bytes 2 64 @ le_bytes 2 56 @ le_bytes 2 1 @
     le_bytes 6 0 @
     le_bytes 4 1 @ le_bytes 4 4 @ le_bytes 8 120 @ le_bytes 8 vaddr @ le_bytes 8 vaddr @
     le_bytes 8 (of_nat (length bytes)) @ le_bytes 8 memsz @ le_bytes 8 8 @ bytes"


lemma kmalloc_init_16: "\<exists>h. clks_kmalloc 16 clks_heap_init = Some (Some 40, h)"
  using kmalloc_spec [OF heap_rep_init, of 16]
  by (auto simp: align_up_small USIZE_RANGE_def CLKS_HEAP_ARENA_SIZE_def)


text \<open>
  Rebasing, for segments whose file parts do not overlap: in every segment that is not executable
  exactly the aligned 64-bit values that lie in the old range are moved by the distance between the old
  and the new place, and no other byte changes.
\<close>

theorem elf_rebase_moves_pointers:
  assumes "sorted_wrt apart (li_segments img)" "delta \<noteq> 0" "old_base < old_end"
  shows "let m' = clks_elf64_rebase_exec_pointers img old_base old_end delta m in
    (\<forall>seg \<in> set (li_segments img). \<forall>k < slots_of seg.
       load64 m' (seg_base seg + 8 * k) = rebased old_base old_end delta (load64 m (seg_base seg + 8 * k))) \<and>
    (\<forall>a. (\<forall>seg \<in> set (li_segments img). a < seg_base seg \<or> seg_base seg + 8 * slots_of seg \<le> a) \<longrightarrow> m' a = m a)"
  using rebase_segments [OF assms(1)] assms(2,3)
  by (simp add: clks_elf64_rebase_exec_pointers_def not_le [symmetric] Let_def)

theorem elf_rebase_moves_pointers_witness:
  "load64 (clks_elf64_rebase_exec_pointers
     \<lparr>li_entry = 0, li_image_base = Some 40, li_image_size = 16, li_image_vaddr_base = 0x400000,
      li_segments = [\<lparr>seg_base = 40, seg_vaddr = 0x400000, seg_memsz = 16, seg_filesz = 16, seg_flags = 4\<rparr>]\<rparr>
     0x400000 0x400010 0x100 (store64 40 0x400008 (\<lambda>_. 0))) 40 = 0x400108"
proof -
  let ?i = "\<lparr>li_entry = 0, li_image_base = Some 40, li_image_size = 16, li_image_vaddr_base = 0x400000,
      li_segments = [\<lparr>seg_base = 40, seg_vaddr = 0x400000, seg_memsz = 16, seg_filesz = 16, seg_flags = 4\<rparr>]\<rparr>"
  have a: "sorted_wrt apart (li_segments ?i)" "(0x100 :: u64) \<noteq> 0" "(0x400000 :: u64) < 0x400010" by simp_all
  have s: "slots_of \<lparr>seg_base = 40, seg_vaddr = 0x400000, seg_memsz = 16, seg_filesz = 16, seg_flags = 4\<rparr> = 2"
    by (simp add: slots_of_def CLKS_ELF64_PF_X_def)
  from elf_rebase_moves_pointers [OF a, where m = "store64 40 0x400008 (\<lambda>_. 0)"] show ?thesis
    by (auto simp: Let_def s rebased_def dest!: spec [of _ 0])
qed

text \<open>
  A segment that asks for all of memory. The span of the image is 2^64 - 1, \<open>clks_kmalloc\<close> rounds
  the request up to zero bytes and succeeds, and the loader reports success after clearing 2^64 - 1 bytes
  from the start of a block of no bytes.
\<close>

theorem elf_huge_segment_overruns:
  "\<exists>img s'. clks_elf64_load arena (Some (elf_file 3 0 0xFFFFFFFFFFFFFFFF []))
       \<lparr>elf_heap = clks_heap_init, elf_mem = m\<rparr> = Some (True, img, s') \<and>
     li_image_base img = Some 40 \<and> li_image_size img = 0xFFFFFFFFFFFFFFFF \<and>
     heap_live (elf_heap s') [40 \<mapsto> 0] \<and>
     (\<forall>a. 40 \<le> a \<and> a < 40 + 18446744073709551615 \<longrightarrow> elf_mem s' a = 0)"
proof -
  let ?b = "elf_file 3 0 0xFFFFFFFFFFFFFFFF []"
  have v: "clks_elf64_validate (Some ?b)" by code_simp
  have ph: "\<exists>ph. phdrs_of ?b = [ph] \<and> \<not> skipped ph \<and> p_vaddr ph = 0 \<and> p_memsz ph = 0xFFFFFFFFFFFFFFFF \<and> p_filesz ph = 0"
    (is "\<exists>ph. ?P ph")
  proof (rule exI)
    show "?P (hd (phdrs_of ?b))" by code_simp
  qed
  then obtain ph where ph: "phdrs_of ?b = [ph]" "\<not> skipped ph" "p_vaddr ph = 0" "p_memsz ph = 0xFFFFFFFFFFFFFFFF"
    "p_filesz ph = 0" by blast
  have ty: "e_type (ehdr_at ?b) \<noteq> CLKS_ELF64_ET_EXEC" by code_simp
  obtain h where h: "clks_kmalloc 18446744073709551615 clks_heap_init = Some (Some 40, h)" "heap_live h [40 \<mapsto> 0]"
    using kmalloc_huge [of 18446744073709551615] by (auto simp: USIZE_RANGE_def)
  have e: "extent_loop (phdrs_of ?b) (0, 0, 0) = Some (1, 0, 0xFFFFFFFFFFFFFFFF)"
    using ph by simp
  have p: "place_loop ?b 40 0 0xFFFFFFFFFFFFFFFF (phdrs_of ?b) l s =
      (True, l\<lparr>li_segments := [segment_of 40 0 ph]\<rparr>, s)" if "li_segments l = []" for l s
  proof -
    have "put_bytes 40 [] m = m" for m by (rule ext) (auto simp: put_bytes_def)
    then show ?thesis using ph that by (simp add: Let_def CLKS_ELF64_MAX_SEGMENTS_def segment_of_def)
  qed
  show ?thesis
    using v e p h ty by (simp add: clks_elf64_load_def Let_def CLKS_ELF64_MAX_SEGMENTS_def memset_zero)
qed

theorem elf_huge_segment_overruns_witness:
  "\<exists>img s'. clks_elf64_load 0 (Some (elf_file 3 0 0xFFFFFFFFFFFFFFFF []))
     \<lparr>elf_heap = clks_heap_init, elf_mem = (\<lambda>_. 1)\<rparr> = Some (True, img, s') \<and> elf_mem s' 1000000 = 0"
proof -
  obtain img s' where s: "clks_elf64_load 0 (Some (elf_file 3 0 0xFFFFFFFFFFFFFFFF []))
      \<lparr>elf_heap = clks_heap_init, elf_mem = (\<lambda>_. 1)\<rparr> = Some (True, img, s')"
    "\<forall>a. 40 \<le> a \<and> a < 40 + 18446744073709551615 \<longrightarrow> elf_mem s' a = 0"
    using elf_huge_segment_overruns [of 0 "\<lambda>_. 1"] by blast
  have "elf_mem s' 1000000 = 0" by (rule s(2) [rule_format]) simp
  with s(1) show ?thesis by blast
qed
end
