(* ===== verification/Clks_Sha256.thy ===== *)
theory Clks_Sha256
  imports Clks_Bytes Complex_Main
begin

text \<open>
  The password hash of \<open>kernel/runtime/user.c\<close>: the streaming SHA-256 of the source, its specification
  after the standard (FIPS 180-4: constants from the roots of primes, padding, message schedule, compression
  of 64-byte blocks), and the proof that they agree.
\<close>

section \<open>The code\<close>

record clks_user_sha256_ctx =
  ctx_data :: "u8 list"
  ctx_datalen :: nat
  ctx_bitlen :: u64
  ctx_state :: "u32 list"

definition clks_user_rotr :: "u32 \<Rightarrow> nat \<Rightarrow> u32" where
  "clks_user_rotr v c = drop_bit c v OR push_bit (32 - c) v"

definition clks_user_load_be32 :: "u8 list \<Rightarrow> nat \<Rightarrow> u32" where
  "clks_user_load_be32 data p =
     push_bit 24 (ucast (data ! p)) OR push_bit 16 (ucast (data ! (p + 1))) OR
     push_bit 8 (ucast (data ! (p + 2))) OR ucast (data ! (p + 3))"

definition clks_user_store_be32 :: "u32 \<Rightarrow> u8 list" where
  "clks_user_store_be32 v =
     [ucast (drop_bit 24 v AND 0xFF), ucast (drop_bit 16 v AND 0xFF), ucast (drop_bit 8 v AND 0xFF), ucast (v AND 0xFF)]"

definition sha256_k :: "u32 list" where
  "sha256_k = [
     0x428A2F98, 0x71374491, 0xB5C0FBCF, 0xE9B5DBA5, 0x3956C25B, 0x59F111F1, 0x923F82A4, 0xAB1C5ED5,
     0xD807AA98, 0x12835B01, 0x243185BE, 0x550C7DC3, 0x72BE5D74, 0x80DEB1FE, 0x9BDC06A7, 0xC19BF174,
     0xE49B69C1, 0xEFBE4786, 0x0FC19DC6, 0x240CA1CC, 0x2DE92C6F, 0x4A7484AA, 0x5CB0A9DC, 0x76F988DA,
     0x983E5152, 0xA831C66D, 0xB00327C8, 0xBF597FC7, 0xC6E00BF3, 0xD5A79147, 0x06CA6351, 0x14292967,
     0x27B70A85, 0x2E1B2138, 0x4D2C6DFC, 0x53380D13, 0x650A7354, 0x766A0ABB, 0x81C2C92E, 0x92722C85,
     0xA2BFE8A1, 0xA81A664B, 0xC24B8B70, 0xC76C51A3, 0xD192E819, 0xD6990624, 0xF40E3585, 0x106AA070,
     0x19A4C116, 0x1E376C08, 0x2748774C, 0x34B0BCB5, 0x391C0CB3, 0x4ED8AA4A, 0x5B9CCA4F, 0x682E6FF3,
     0x748F82EE, 0x78A5636F, 0x84C87814, 0x8CC70208, 0x90BEFFFA, 0xA4506CEB, 0xBEF9A3F7, 0xC67178F2]"

text \<open>The two loops that fill \<open>m\<close>; the array is the list of the entries filled so far.\<close>

definition sha256_extend :: "nat \<Rightarrow> u32 list \<Rightarrow> u32 list" where
  "sha256_extend i m =
     (let s0 = clks_user_rotr (m ! (i - 15)) 7 XOR clks_user_rotr (m ! (i - 15)) 18 XOR drop_bit 3 (m ! (i - 15));
          s1 = clks_user_rotr (m ! (i - 2)) 17 XOR clks_user_rotr (m ! (i - 2)) 19 XOR drop_bit 10 (m ! (i - 2))
      in m @ [m ! (i - 16) + s0 + m ! (i - 7) + s1])"

definition sha256_words :: "u8 list \<Rightarrow> u32 list" where
  "sha256_words data = fold sha256_extend [16..<64] (map (\<lambda>i. clks_user_load_be32 data (i * 4)) [0..<16])"

text \<open>The body of the loop of 64 rounds on the variables \<open>a\<close> to \<open>h\<close>.\<close>

type_synonym sha_vars = "u32 \<times> u32 \<times> u32 \<times> u32 \<times> u32 \<times> u32 \<times> u32 \<times> u32"

fun sha256_round :: "u32 list \<Rightarrow> nat \<Rightarrow> sha_vars \<Rightarrow> sha_vars" where
  "sha256_round m i (a, b, c, d, e, f, g, h) =
     (let s1 = clks_user_rotr e 6 XOR clks_user_rotr e 11 XOR clks_user_rotr e 25;
          ch = (e AND f) XOR (NOT e AND g);
          temp1 = h + s1 + ch + sha256_k ! i + m ! i;
          s0 = clks_user_rotr a 2 XOR clks_user_rotr a 13 XOR clks_user_rotr a 22;
          maj = (a AND b) XOR (a AND c) XOR (b AND c);
          temp2 = s0 + maj
      in (temp1 + temp2, a, b, c, d + temp1, e, f, g))"

definition clks_user_sha256_transform :: "u8 list \<Rightarrow> clks_user_sha256_ctx \<Rightarrow> clks_user_sha256_ctx" where
  "clks_user_sha256_transform data ctx =
     (let m = sha256_words data; st = ctx_state ctx
      in case fold (sha256_round m) [0..<64] (st ! 0, st ! 1, st ! 2, st ! 3, st ! 4, st ! 5, st ! 6, st ! 7) of
           (a, b, c, d, e, f, g, h) \<Rightarrow>
             ctx\<lparr>ctx_state := [st ! 0 + a, st ! 1 + b, st ! 2 + c, st ! 3 + d, st ! 4 + e, st ! 5 + f, st ! 6 + g, st ! 7 + h]\<rparr>)"

text \<open>The context on the stack of the caller; its data is uninitialised before (here zeros).\<close>

definition clks_user_sha256_init :: clks_user_sha256_ctx where
  "clks_user_sha256_init = \<lparr>ctx_data = replicate 64 0, ctx_datalen = 0, ctx_bitlen = 0,
     ctx_state = [0x6A09E667, 0xBB67AE85, 0x3C6EF372, 0xA54FF53A, 0x510E527F, 0x9B05688C, 0x1F83D9AB, 0x5BE0CD19]\<rparr>"

definition sha256_step :: "u8 \<Rightarrow> clks_user_sha256_ctx \<Rightarrow> clks_user_sha256_ctx" where
  "sha256_step byte ctx =
     (let c1 = ctx\<lparr>ctx_data := (ctx_data ctx)[ctx_datalen ctx := byte], ctx_datalen := ctx_datalen ctx + 1\<rparr>
      in if ctx_datalen c1 = 64
         then (clks_user_sha256_transform (ctx_data c1) c1)\<lparr>ctx_bitlen := ctx_bitlen c1 + 512, ctx_datalen := 0\<rparr>
         else c1)"

definition clks_user_sha256_update :: "u8 list \<Rightarrow> clks_user_sha256_ctx \<Rightarrow> clks_user_sha256_ctx" where
  "clks_user_sha256_update data ctx = fold sha256_step data ctx"

definition clks_user_sha256_final :: "clks_user_sha256_ctx \<Rightarrow> u8 list" where
  "clks_user_sha256_final ctx =
     (let n = ctx_datalen ctx;
          c1 = (if n < 56
                then ctx\<lparr>ctx_data := fold (\<lambda>i d. d[i := 0]) [n + 1..<56] ((ctx_data ctx)[n := 0x80])\<rparr>
                else
                  (let c = clks_user_sha256_transform (fold (\<lambda>i d. d[i := 0]) [n + 1..<64] ((ctx_data ctx)[n := 0x80]))
                        (ctx\<lparr>ctx_data := fold (\<lambda>i d. d[i := 0]) [n + 1..<64] ((ctx_data ctx)[n := 0x80])\<rparr>)
                   in c\<lparr>ctx_data := fold (\<lambda>i d. d[i := 0]) [0..<56] (ctx_data c)\<rparr>));
          bits = ctx_bitlen c1 + of_nat (ctx_datalen c1) * 8;
          data = fold (\<lambda>i d. d[63 - i := ucast (drop_bit (8 * i) bits)]) [0..<8] (ctx_data c1);
          c2 = clks_user_sha256_transform data (c1\<lparr>ctx_bitlen := bits, ctx_data := data\<rparr>)
      in concat (map clks_user_store_be32 (ctx_state c2)))"

definition clks_user_hex_digit :: "u64 \<Rightarrow> char" where
  "clks_user_hex_digit v =
     (let d = unat (v AND 0xF) in if d < 10 then char_of (48 + d) else char_of (97 + (d - 10)))"

text \<open>A C string as its bytes.\<close>

definition bytes_of :: "string \<Rightarrow> u8 list" where
  "bytes_of s = map of_char s"

definition clks_user_hash_password :: "string option \<Rightarrow> string" where
  "clks_user_hash_password password =
     (let ctx = (case password of None \<Rightarrow> clks_user_sha256_init
                 | Some p \<Rightarrow> clks_user_sha256_update (bytes_of p) clks_user_sha256_init)
      in concat (map (\<lambda>b. [clks_user_hex_digit (drop_bit 4 (ucast b)), clks_user_hex_digit (ucast b)])
           (clks_user_sha256_final ctx)))"

section \<open>The standard\<close>

definition fips_Ch :: "u32 \<Rightarrow> u32 \<Rightarrow> u32 \<Rightarrow> u32" where
  "fips_Ch x y z = (x AND y) XOR (NOT x AND z)"

definition fips_Maj :: "u32 \<Rightarrow> u32 \<Rightarrow> u32 \<Rightarrow> u32" where
  "fips_Maj x y z = (x AND y) XOR (x AND z) XOR (y AND z)"

definition Sigma_0 :: "u32 \<Rightarrow> u32" where
  "Sigma_0 x = word_rotr 2 x XOR word_rotr 13 x XOR word_rotr 22 x"

definition Sigma_1 :: "u32 \<Rightarrow> u32" where
  "Sigma_1 x = word_rotr 6 x XOR word_rotr 11 x XOR word_rotr 25 x"

definition sigma_0 :: "u32 \<Rightarrow> u32" where
  "sigma_0 x = word_rotr 7 x XOR word_rotr 18 x XOR drop_bit 3 x"

definition sigma_1 :: "u32 \<Rightarrow> u32" where
  "sigma_1 x = word_rotr 17 x XOR word_rotr 19 x XOR drop_bit 10 x"

text \<open>
  The constants: the first 32 bits of the fractional parts of the cube roots of the first 64 primes (those up
  to 311) in the rounds, and of the square roots of the first eight as the initial hash value.
\<close>

definition fips_primes :: "nat list" where
  "fips_primes = filter (\<lambda>p. \<forall>d \<in> {2..<p}. \<not> d dvd p) [2..<312]"

definition fips_fraction :: "real \<Rightarrow> u32" where
  "fips_fraction x = word_of_int \<lfloor>frac x * 2 ^ 32\<rfloor>"

definition fips_K :: "nat \<Rightarrow> u32" where
  "fips_K t = fips_fraction (root 3 (real (fips_primes ! t)))"

definition fips_H :: "nat \<Rightarrow> u32" where
  "fips_H i = fips_fraction (sqrt (real (fips_primes ! i)))"

text \<open>A block of 64 bytes as 16 big-endian words, and the message schedule.\<close>

definition block_word :: "u8 list \<Rightarrow> nat \<Rightarrow> u32" where
  "block_word block t = ucast (le_value (rev (take 4 (drop (4 * t) block))))"

fun schedule :: "u8 list \<Rightarrow> nat \<Rightarrow> u32" where
  "schedule block t =
     (if t < 16 then block_word block t
      else sigma_1 (schedule block (t - 2)) + schedule block (t - 7) + sigma_0 (schedule block (t - 15)) +
           schedule block (t - 16))"

declare schedule.simps [simp del]

text \<open>The working variables after \<open>t\<close> rounds.\<close>

fun fips_rounds :: "u8 list \<Rightarrow> sha_vars \<Rightarrow> nat \<Rightarrow> sha_vars" where
  "fips_rounds block vars 0 = vars"
| "fips_rounds block vars (Suc t) =
     (case fips_rounds block vars t of (a, b, c, d, e, f, g, h) \<Rightarrow>
        let T1 = h + Sigma_1 e + fips_Ch e f g + fips_K t + schedule block t;
            T2 = Sigma_0 a + fips_Maj a b c
        in (T1 + T2, a, b, c, d + T1, e, f, g))"

fun fips_compress :: "u8 list \<Rightarrow> sha_vars \<Rightarrow> sha_vars" where
  "fips_compress block (h0, h1, h2, h3, h4, h5, h6, h7) =
     (case fips_rounds block (h0, h1, h2, h3, h4, h5, h6, h7) 64 of (a, b, c, d, e, f, g, h) \<Rightarrow>
        (h0 + a, h1 + b, h2 + c, h3 + d, h4 + e, h5 + f, h6 + g, h7 + h))"

definition fips_H0 :: sha_vars where
  "fips_H0 = (fips_H 0, fips_H 1, fips_H 2, fips_H 3, fips_H 4, fips_H 5, fips_H 6, fips_H 7)"

text \<open>
  Padding: a bit 1, the least number of zero bits that leaves room for the length, the length in bits
  as 64 bits, most significant first.
\<close>

definition fips_pad :: "u8 list \<Rightarrow> u8 list" where
  "fips_pad msg = msg @ [0x80] @ replicate (nat ((55 - int (length msg)) mod 64)) 0 @
     rev (le_bytes 8 (of_nat (8 * length msg)))"

fun fips_blocks :: "u8 list \<Rightarrow> u8 list list" where
  "fips_blocks msg = (if length msg < 64 then [] else take 64 msg # fips_blocks (drop 64 msg))"

declare fips_blocks.simps [simp del]

fun fips_digest :: "sha_vars \<Rightarrow> u8 list" where
  "fips_digest (a, b, c, d, e, f, g, h) = concat (map (\<lambda>w. rev (le_bytes 4 (ucast w))) [a, b, c, d, e, f, g, h])"

definition sha256 :: "u8 list \<Rightarrow> u8 list" where
  "sha256 msg = fips_digest (fold fips_compress (fips_blocks (fips_pad msg)) fips_H0)"

definition hex_of :: "u8 list \<Rightarrow> string" where
  "hex_of bs = concat (map (\<lambda>b. [''0123456789abcdef'' ! (unat b div 16), ''0123456789abcdef'' ! (unat b mod 16)]) bs)"

section \<open>They agree\<close>

fun no_factor :: "nat \<Rightarrow> nat list \<Rightarrow> bool" where
  "no_factor p [] = True"
| "no_factor p (q # qs) = (if p mod q = 0 then p \<le> q else no_factor p qs)"

lemma no_factor_small: "sorted qs \<Longrightarrow> no_factor p qs \<Longrightarrow> q \<in> set qs \<Longrightarrow> q dvd p \<Longrightarrow> p \<le> q"
  by (induction qs) (auto simp: mod_eq_0_iff_dvd split: if_splits)

lemma no_factor_prime: "\<forall>d \<in> {2..<p}. \<not> d dvd p \<Longrightarrow> \<forall>q \<in> set qs. 2 \<le> q \<Longrightarrow> no_factor p qs"
  by (induction qs) (auto simp: mod_eq_0_iff_dvd not_less [symmetric])

lemma prime_test:
  assumes "p < 324"
  shows "(\<forall>d \<in> {2..<p}. \<not> d dvd p) \<longleftrightarrow> no_factor p [2, 3, 5, 7, 11, 13, 17]"
proof
  assume l: "no_factor p [2, 3, 5, 7, 11, 13, 17]"
  have small: "\<not> d dvd p" if "2 \<le> d" "d < 18" "d < p" for d
  proof
    assume "d dvd p"
    have "d \<in> {2, 3, 4, 5, 6, 7, 8, 9, 10, 11, 12, 13, 14, 15, 16, 17}" using that(1,2) unfolding insert_iff empty_iff by presburger
    then obtain q where q: "q \<in> set [2, 3, 5, 7, 11, 13, 17]" "q dvd d" by fastforce
    have "p \<le> q" by (rule no_factor_small [OF _ l q(1)]) (use q(2) \<open>d dvd p\<close> in \<open>auto intro: dvd_trans\<close>)
    then show False using dvd_imp_le [OF q(2)] that by simp
  qed
  show "\<forall>d \<in> {2..<p}. \<not> d dvd p"
  proof (intro ballI notI)
    fix d assume d: "d \<in> {2..<p}" "d dvd p"
    then obtain e where e: "p = d * e" by auto
    have "e \<noteq> 0" "e \<noteq> 1" using d e by auto
    then have e2: "2 \<le> e" by simp
    have "e < p" using e d(1) e2 by simp
    have "d < 18 \<or> e < 18"
    proof (rule ccontr)
      assume "\<not> (d < 18 \<or> e < 18)"
      then have "18 * 18 \<le> d * e" by (intro mult_le_mono) auto
      then show False using assms e by simp
    qed
    then show False using small [of d] small [of e] d e e2 \<open>e < p\<close> by auto
  qed
qed (rule no_factor_prime, simp_all)

lemma fips_primes_list:
  "fips_primes = [2, 3, 5, 7, 11, 13, 17, 19, 23, 29, 31, 37, 41, 43, 47, 53, 59, 61, 67, 71, 73, 79, 83, 89, 97,
     101, 103, 107, 109, 113, 127, 131, 137, 139, 149, 151, 157, 163, 167, 173, 179, 181, 191, 193, 197, 199,
     211, 223, 227, 229, 233, 239, 241, 251, 257, 263, 269, 271, 277, 281, 283, 293, 307, 311]"
proof -
  have "fips_primes = filter (\<lambda>p. no_factor p [2, 3, 5, 7, 11, 13, 17]) [2..<312]"
    unfolding fips_primes_def by (rule filter_cong [OF refl]) (use prime_test in \<open>simp del: upt_rec_numeral\<close>)
  also have "\<dots> = [2, 3, 5, 7, 11, 13, 17, 19, 23, 29, 31, 37, 41, 43, 47, 53, 59, 61, 67, 71, 73, 79, 83, 89, 97,
     101, 103, 107, 109, 113, 127, 131, 137, 139, 149, 151, 157, 163, 167, 173, 179, 181, 191, 193, 197, 199,
     211, 223, 227, 229, 233, 239, 241, 251, 257, 263, 269, 271, 277, 281, 283, 293, 307, 311]"
    by simp
  finally show ?thesis .
qed

lemma fraction_eq:
  assumes "of_int (a * 2 ^ 32 + k) \<le> x * 2 ^ 32" "x * 2 ^ 32 < of_int (a * 2 ^ 32 + k + 1)" "0 \<le> k" "k < 2 ^ 32"
  shows "fips_fraction x = word_of_int k"
proof -
  have "of_int a * 2 ^ 32 \<le> x * 2 ^ 32" using assms(1,3) by simp
  then have "of_int a \<le> x" by simp
  moreover have "x * 2 ^ 32 < (of_int a + 1) * 2 ^ 32"
  proof -
    have "(of_int (a * 2 ^ 32 + k + 1) :: real) \<le> of_int (a * 2 ^ 32 + 2 ^ 32)" using assms(4) by (simp only: of_int_le_iff)
    also have "\<dots> = (of_int a + 1) * 2 ^ 32" by (simp add: algebra_simps)
    finally show ?thesis using assms(2) by linarith
  qed
  then have "x < of_int a + 1" by simp
  ultimately have fl: "\<lfloor>x\<rfloor> = a" by (simp add: floor_eq_iff)
  have "\<lfloor>frac x * 2 ^ 32\<rfloor> = k" unfolding frac_def fl using assms(1,2) by (simp add: floor_eq_iff algebra_simps)
  then show ?thesis by (simp add: fips_fraction_def)
qed

lemma cube_fraction:
  assumes "(a * 2 ^ 32 + k) ^ 3 \<le> int p * 2 ^ 96" "int p * 2 ^ 96 < (a * 2 ^ 32 + k + 1) ^ 3" "0 \<le> a" "0 \<le> k" "k < 2 ^ 32"
  shows "fips_fraction (root 3 (real p)) = word_of_int k"
proof (rule fraction_eq [OF _ _ assms(4,5)])
  have c: "(root 3 (real p) * 2 ^ 32) ^ 3 = of_int (int p * 2 ^ 96)" by (simp add: power_mult_distrib)
  have "(of_int (a * 2 ^ 32 + k) :: real) ^ 3 \<le> (root 3 (real p) * 2 ^ 32) ^ 3"
    unfolding c of_int_power [symmetric] of_int_le_iff by (rule assms(1))
  then show "of_int (a * 2 ^ 32 + k) \<le> root 3 (real p) * 2 ^ 32" using assms(3,4) by (subst (asm) power_mono_iff) simp_all
  have "(root 3 (real p) * 2 ^ 32) ^ 3 < (of_int (a * 2 ^ 32 + k + 1) :: real) ^ 3"
    unfolding c of_int_power [symmetric] of_int_less_iff by (rule assms(2))
  then show "root 3 (real p) * 2 ^ 32 < of_int (a * 2 ^ 32 + k + 1)" by (rule power_less_imp_less_base) (use assms(3,4) in simp)
qed

lemma square_fraction:
  assumes "(a * 2 ^ 32 + k) ^ 2 \<le> int p * 2 ^ 64" "int p * 2 ^ 64 < (a * 2 ^ 32 + k + 1) ^ 2" "0 \<le> a" "0 \<le> k" "k < 2 ^ 32"
  shows "fips_fraction (sqrt (real p)) = word_of_int k"
proof (rule fraction_eq [OF _ _ assms(4,5)])
  have c: "(sqrt (real p) * 2 ^ 32) ^ 2 = of_int (int p * 2 ^ 64)" by (simp add: power_mult_distrib)
  have "(of_int (a * 2 ^ 32 + k) :: real) ^ 2 \<le> (sqrt (real p) * 2 ^ 32) ^ 2"
    unfolding c of_int_power [symmetric] of_int_le_iff by (rule assms(1))
  then show "of_int (a * 2 ^ 32 + k) \<le> sqrt (real p) * 2 ^ 32" using assms(3,4) by (subst (asm) power_mono_iff) simp_all
  have "(sqrt (real p) * 2 ^ 32) ^ 2 < (of_int (a * 2 ^ 32 + k + 1) :: real) ^ 2"
    unfolding c of_int_power [symmetric] of_int_less_iff by (rule assms(2))
  then show "sqrt (real p) * 2 ^ 32 < of_int (a * 2 ^ 32 + k + 1)" by (rule power_less_imp_less_base) (use assms(3,4) in simp)
qed

text \<open>The integer part \<open>a\<close> of the root and the 32 bits \<open>k\<close> after it.\<close>

definition fraction_holds :: "nat \<Rightarrow> int \<Rightarrow> int \<Rightarrow> nat \<Rightarrow> bool" where
  "fraction_holds e a k p \<longleftrightarrow> (a * 4294967296 + k) ^ e \<le> int p * 4294967296 ^ e \<and> int p * 4294967296 ^ e < (a * 4294967296 + k + 1) ^ e"

lemma fips_K_table: "t < 64 \<Longrightarrow> fips_K t = sha256_k ! t"
proof -
  assume t: "t < 64"
  have "list_all (\<lambda>t. list_ex (\<lambda>a. fraction_holds 3 a (uint (sha256_k ! t)) (fips_primes ! t)) [1, 2, 3, 4, 5, 6]) [0..<64]"
    unfolding fips_primes_list by code_simp
  then have "\<forall>t \<in> set [0..<64]. \<exists>a \<in> set [1, 2, 3, 4, 5, 6]. fraction_holds 3 a (uint (sha256_k ! t)) (fips_primes ! t)"
    unfolding list_all_iff list_ex_iff .
  moreover have "t \<in> set [0..<64]" using t by (simp del: upt_rec_numeral)
  ultimately obtain a where a: "a \<in> set [1, 2, 3, 4, 5, 6]" "fraction_holds 3 a (uint (sha256_k ! t)) (fips_primes ! t)" by blast
  have "fips_K t = word_of_int (uint (sha256_k ! t))" unfolding fips_K_def
    by (rule cube_fraction [of a]) (use a uint_lt2p [of "sha256_k ! t"] in \<open>auto simp: fraction_holds_def\<close>)
  then show ?thesis by simp
qed

lemma fips_H_table:
  "fips_H 0 = 0x6A09E667" "fips_H 1 = 0xBB67AE85" "fips_H 2 = 0x3C6EF372" "fips_H 3 = 0xA54FF53A"
  "fips_H 4 = 0x510E527F" "fips_H 5 = 0x9B05688C" "fips_H 6 = 0x1F83D9AB" "fips_H 7 = 0x5BE0CD19"
  unfolding fips_H_def fips_primes_list
  using square_fraction [of 1 "0x6A09E667" 2] square_fraction [of 1 "0xBB67AE85" 3] square_fraction [of 2 "0x3C6EF372" 5]
    square_fraction [of 2 "0xA54FF53A" 7] square_fraction [of 3 "0x510E527F" 11] square_fraction [of 3 "0x9B05688C" 13]
    square_fraction [of 4 "0x1F83D9AB" 17] square_fraction [of 4 "0x5BE0CD19" 19] by simp_all

lemma rotr_word: "0 < c \<Longrightarrow> c < 32 \<Longrightarrow> clks_user_rotr v c = word_rotr c v"
proof (rule bit_word_eqI)
  fix n
  assume c: "0 < c" "c < 32" and n: "n < LENGTH(32)"
  show "bit (clks_user_rotr v c) n = bit (word_rotr c v) n"
  proof (cases "n + c < 32")
    case True
    then have "\<not> 32 - c \<le> n" "(n + c) mod 32 = n + c" by simp_all
    then show ?thesis using c n by (simp add: clks_user_rotr_def bit_simps add.commute)
  next
    case False
    then have "(n + c) mod 32 = n + c - 32" using n c by (simp add: mod_if)
    moreover have "n - (32 - c) = n + c - 32" using c by simp
    ultimately show ?thesis using False c n
      by (auto simp: clks_user_rotr_def bit_simps dest: bit_imp_le_length)
  qed
qed

lemma sigma_code:
  "clks_user_rotr x 7 XOR clks_user_rotr x 18 XOR drop_bit 3 x = sigma_0 x"
  "clks_user_rotr x 17 XOR clks_user_rotr x 19 XOR drop_bit 10 x = sigma_1 x"
  "clks_user_rotr x 2 XOR clks_user_rotr x 13 XOR clks_user_rotr x 22 = Sigma_0 x"
  "clks_user_rotr x 6 XOR clks_user_rotr x 11 XOR clks_user_rotr x 25 = Sigma_1 x"
  by (simp_all add: rotr_word sigma_0_def sigma_1_def Sigma_0_def Sigma_1_def)

lemma be32_value:
  "push_bit 24 (ucast a) OR push_bit 16 (ucast b) OR push_bit 8 (ucast c) OR ucast d =
     (ucast (le_value [d, c, b, a]) :: u32)" for a b c d :: u8
  by (rule bit_word_eqI) (auto simp: le_value_def bit_simps)

lemma load_be32_word:
  assumes "length block = 64" "t < 16"
  shows "clks_user_load_be32 block (t * 4) = block_word block t"
proof -
  have "take 4 (drop (4 * t) block) = [block ! (4 * t), block ! (4 * t + 1), block ! (4 * t + 2), block ! (4 * t + 3)]"
    using assms by (intro nth_equalityI) (auto simp: less_Suc_eq numeral_eq_Suc nth_Cons')
  then show ?thesis
    by (simp add: clks_user_load_be32_def be32_value block_word_def mult.commute)
qed

lemma sha256_words_schedule:
  assumes "length block = 64"
  shows "sha256_words block = map (schedule block) [0..<64]"
proof -
  have "fold sha256_extend [16..<16 + n] (map (\<lambda>i. clks_user_load_be32 block (i * 4)) [0..<16]) = map (schedule block) [0..<16 + n]" for n
  proof (induction n)
    case 0
    show ?case using load_be32_word [OF assms] by (auto simp: schedule.simps simp del: upt_rec_numeral)
  next
    case (Suc n)
    have "[16..<16 + Suc n] = [16..<16 + n] @ [16 + n]" "[0..<16 + Suc n] = [0..<16 + n] @ [16 + n]"
      unfolding add_Suc_right by (rule upt_Suc_append, simp)+
    moreover have "sha256_extend (16 + n) (map (schedule block) [0..<16 + n]) = map (schedule block) [0..<16 + n] @ [schedule block (16 + n)]"
      by (subst schedule.simps [of block "16 + n"]) (simp add: sha256_extend_def Let_def sigma_code algebra_simps del: upt_rec_numeral)
    ultimately show ?case using Suc by (simp del: upt_rec_numeral)
  qed
  from this [of 48] show ?thesis by (simp add: sha256_words_def del: upt_rec_numeral)
qed

lemma rounds_agree:
  assumes "n \<le> 64"
  shows "fold (sha256_round (map (schedule block) [0..<64])) [0..<n] vars = fips_rounds block vars n"
  using assms
proof (induction n)
  case (Suc n)
  obtain a b c d e f g h where v: "fips_rounds block vars n = (a, b, c, d, e, f, g, h)" by (cases "fips_rounds block vars n") auto
  have "map (schedule block) [0..<64] ! n = schedule block n" using Suc.prems by (simp del: upt_rec_numeral)
  with Suc v show ?case by (simp add: sigma_code Let_def fips_Ch_def fips_Maj_def fips_K_table del: upt_rec_numeral)
qed simp

definition vars_of :: "u32 list \<Rightarrow> sha_vars" where
  "vars_of st = (st ! 0, st ! 1, st ! 2, st ! 3, st ! 4, st ! 5, st ! 6, st ! 7)"

lemma transform_compress:
  assumes "length block = 64"
  shows "vars_of (ctx_state (clks_user_sha256_transform block ctx)) = fips_compress block (vars_of (ctx_state ctx))"
    "length (ctx_state (clks_user_sha256_transform block ctx)) = 8"
    "ctx_data (clks_user_sha256_transform block ctx) = ctx_data ctx"
    "ctx_datalen (clks_user_sha256_transform block ctx) = ctx_datalen ctx"
    "ctx_bitlen (clks_user_sha256_transform block ctx) = ctx_bitlen ctx"
  by (simp_all add: clks_user_sha256_transform_def vars_of_def Let_def sha256_words_schedule [OF assms] rounds_agree
      split: prod.split)

lemma fips_blocks_append:
  assumes "length xs mod 64 = 0"
  shows "fips_blocks (xs @ ys) = fips_blocks xs @ fips_blocks ys"
  using assms
proof (induction xs rule: fips_blocks.induct)
  case (1 xs)
  show ?case
  proof (cases "length xs < 64")
    case True
    then have "xs = []" using 1(2) by simp
    then show ?thesis by (simp add: fips_blocks.simps [of "[]"])
  next
    case False
    then have "length (drop 64 xs) mod 64 = 0" using 1(2) by (simp add: le_mod_geq)
    with 1(1) False show ?thesis
      by (subst (1 2) fips_blocks.simps) simp
  qed
qed

lemma fips_blocks_short: "length xs < 64 \<Longrightarrow> fips_blocks xs = []"
  by (simp add: fips_blocks.simps)

lemma fips_blocks_one: "length xs = 64 \<Longrightarrow> fips_blocks xs = [xs]"
  by (simp add: fips_blocks.simps [of xs] fips_blocks_short)

text \<open>The context after the bytes \<open>xs\<close>.\<close>

definition sha_absorbed :: "u8 list \<Rightarrow> clks_user_sha256_ctx \<Rightarrow> bool" where
  "sha_absorbed xs ctx \<longleftrightarrow> length (ctx_data ctx) = 64 \<and> length (ctx_state ctx) = 8 \<and>
     (\<exists>ys. xs = ys @ take (ctx_datalen ctx) (ctx_data ctx) \<and> ctx_datalen ctx < 64 \<and> length ys mod 64 = 0 \<and>
       ctx_bitlen ctx = of_nat (8 * length ys) \<and> vars_of (ctx_state ctx) = fold fips_compress (fips_blocks ys) fips_H0)"

lemma sha_absorbed_init: "sha_absorbed [] clks_user_sha256_init"
  by (simp add: sha_absorbed_def clks_user_sha256_init_def vars_of_def fips_H0_def fips_H_table [unfolded One_nat_def] fips_blocks_short)

lemma sha_absorbed_step:
  assumes "sha_absorbed xs ctx"
  shows "sha_absorbed (xs @ [x]) (sha256_step x ctx)"
proof -
  obtain ys where ys: "xs = ys @ take (ctx_datalen ctx) (ctx_data ctx)" "ctx_datalen ctx < 64" "length ys mod 64 = 0"
    "ctx_bitlen ctx = of_nat (8 * length ys)" "vars_of (ctx_state ctx) = fold fips_compress (fips_blocks ys) fips_H0"
    and len: "length (ctx_data ctx) = 64" "length (ctx_state ctx) = 8"
    using assms by (auto simp: sha_absorbed_def)
  define n where "n = ctx_datalen ctx"
  define d where "d = (ctx_data ctx)[n := x]"
  have d: "take (Suc n) d = take n (ctx_data ctx) @ [x]" "length d = 64"
    using ys(2) len by (simp_all add: d_def n_def take_Suc_conv_app_nth)
  show ?thesis
  proof (cases "Suc n = 64")
    case False
    then have "sha256_step x ctx = ctx\<lparr>ctx_data := d, ctx_datalen := Suc n\<rparr>"
      by (simp add: sha256_step_def Let_def d_def n_def)
    then show ?thesis
      using ys len d False by (auto simp: sha_absorbed_def n_def [symmetric] intro!: exI [of _ ys])
  next
    case True
    let ?c = "clks_user_sha256_transform d (ctx\<lparr>ctx_data := d, ctx_datalen := 64\<rparr>)"
    have st: "sha256_step x ctx = ?c\<lparr>ctx_bitlen := ctx_bitlen ctx + 512, ctx_datalen := 0\<rparr>"
      using True by (simp add: sha256_step_def Let_def d_def n_def)
    have dd: "d = take n (ctx_data ctx) @ [x]" using d True by (metis take_all order_refl)
    have "fips_blocks (ys @ d) = fips_blocks ys @ [d]"
      using fips_blocks_append [OF ys(3), of d] fips_blocks_one [OF d(2)] by simp
    moreover have "length (ys @ d) mod 64 = 0" using ys(3) d(2) by simp
    moreover have "ctx_bitlen ctx + 512 = of_nat (8 * length (ys @ d))" using ys(4) d(2) by (simp add: algebra_simps)
    moreover have "xs @ [x] = ys @ d" using ys(1) dd by (simp add: n_def)
    ultimately show ?thesis
      unfolding st sha_absorbed_def
      using transform_compress [OF d(2), of "ctx\<lparr>ctx_data := d, ctx_datalen := 64\<rparr>"] ys(5) d(2)
      by (intro conjI exI [of _ "ys @ d"]) simp_all
  qed
qed

lemma sha_absorbed_update: "sha_absorbed xs ctx \<Longrightarrow> sha_absorbed (xs @ bs) (clks_user_sha256_update bs ctx)"
proof (induction bs arbitrary: xs ctx)
  case (Cons b bs)
  from Cons.IH [OF sha_absorbed_step [OF Cons.prems]] show ?case by (simp add: clks_user_sha256_update_def)
qed (simp add: clks_user_sha256_update_def)

lemma fold_zero:
  assumes "a \<le> b" "b \<le> length d"
  shows "fold (\<lambda>i d. d[i := 0]) [a..<b] d = take a d @ replicate (b - a) 0 @ drop b d"
  using assms
proof (induction b)
  case (Suc b)
  show ?case
  proof (cases "a = Suc b")
    case False
    then have ab: "a \<le> b" "b < length d" using Suc.prems by simp_all
    have "fold (\<lambda>i d. d[i := 0]) [a..<Suc b] d = (take a d @ replicate (b - a) 0 @ drop b d)[b := 0]"
      using Suc ab by simp
    also have "\<dots> = take a d @ replicate (b - a) 0 @ (drop b d)[0 := 0]"
      using ab by (simp add: list_update_append)
    also have "(drop b d)[0 := 0] = 0 # drop (Suc b) d" using ab by (simp add: Cons_nth_drop_Suc [symmetric])
    also have "replicate (b - a) 0 @ 0 # drop (Suc b) d = replicate (Suc b - a) 0 @ drop (Suc b) d"
      using ab by (simp add: Suc_diff_le replicate_app_Cons_same)
    finally show ?thesis .
  qed simp
qed simp

lemma fold_length:
  assumes "length d = 64" "n \<le> 64"
  shows "fold (\<lambda>i d. d[63 - i := f i]) [0..<n] d = take (64 - n) d @ rev (map f [0..<n])"
  using assms(2)
proof (induction n)
  case (Suc n)
  then have "fold (\<lambda>i d. d[63 - i := f i]) [0..<Suc n] d = (take (64 - n) d @ rev (map f [0..<n]))[63 - n := f n]" by simp
  also have "\<dots> = (take (64 - n) d)[63 - n := f n] @ rev (map f [0..<n])"
    using Suc.prems assms(1) by (simp add: list_update_append)
  also have "(take (64 - n) d)[63 - n := f n] = take (63 - n) d @ [f n]"
  proof -
    have "take (64 - n) d = take (63 - n) d @ [d ! (63 - n)]"
      using Suc.prems assms(1) take_Suc_conv_app_nth [of "63 - n" d] Suc_diff_le [of n 63] by simp
    then show ?thesis using Suc.prems assms(1) by (simp add: list_update_append)
  qed
  finally show ?case by simp
qed (use assms(1) in simp)

lemma store_be32: "clks_user_store_be32 v = rev (le_bytes 4 (ucast v))"
proof -
  have "[0..<4] = [0, 1, 2, 3 :: nat]" by (simp add: upt_rec)
  then have "rev (le_bytes 4 (ucast v)) = [ucast (drop_bit 24 (ucast v :: u64)), ucast (drop_bit 16 (ucast v :: u64)),
      ucast (drop_bit 8 (ucast v :: u64)), ucast (ucast v :: u64)]" by (simp add: le_bytes_def)
  moreover have "(ucast (w AND 0xFF) :: u8) = ucast w" for w :: u32
  proof -
    have e: "w AND 0xFF = take_bit 8 w" by (simp add: take_bit_eq_mask mask_eq_exp_minus_1)
    show ?thesis unfolding e by (rule bit_word_eqI) (auto simp: bit_simps)
  qed
  moreover have "(ucast (drop_bit n v) :: u8) = ucast (drop_bit n (ucast v :: u64))" for n
    by (rule bit_word_eqI) (auto simp: bit_simps dest: bit_imp_le_length)
  moreover have "(ucast v :: u8) = ucast (ucast v :: u64)"
    by (rule bit_word_eqI) (auto simp: bit_simps dest: bit_imp_le_length)
  ultimately show ?thesis by (simp add: clks_user_store_be32_def)
qed

lemma digest_of_state: "length st = 8 \<Longrightarrow> fips_digest (vars_of st) = concat (map clks_user_store_be32 st)"
proof -
  assume "length st = 8"
  then have "st = [st ! 0, st ! 1, st ! 2, st ! 3, st ! 4, st ! 5, st ! 6, st ! 7]"
    by (intro nth_equalityI) (auto simp: less_Suc_eq numeral_eq_Suc nth_Cons')
  then have "map clks_user_store_be32 st = map (\<lambda>w. rev (le_bytes 4 (ucast w)))
      [st ! 0, st ! 1, st ! 2, st ! 3, st ! 4, st ! 5, st ! 6, st ! 7]"
    unfolding store_be32 by (rule arg_cong)
  then show ?thesis by (simp add: vars_of_def)
qed

text \<open>The last one or two blocks.\<close>

lemma fips_pad_split:
  assumes "xs = ys @ rest" "length ys mod 64 = 0" "length rest = n" "n < 64"
  shows "fips_blocks (fips_pad xs) = fips_blocks ys @
    (if n < 56 then [rest @ [0x80] @ replicate (55 - n) 0 @ rev (le_bytes 8 (of_nat (8 * length xs)))]
     else [rest @ [0x80] @ replicate (63 - n) 0, replicate 56 0 @ rev (le_bytes 8 (of_nat (8 * length xs)))])"
proof -
  let ?l = "rev (le_bytes 8 (of_nat (8 * length xs)))"
  have len: "length xs = length ys + n" using assms by simp
  obtain q where q: "length ys = 64 * q" using assms(2) by auto
  have "(55 - int (length xs)) mod 64 = (55 - int n + 64 * (- int q)) mod 64" by (simp add: len q algebra_simps)
  also have "\<dots> = (55 - int n) mod 64" by (rule mod_mult_self2)
  finally have z: "(55 - int (length xs)) mod 64 = (55 - int n) mod 64" .
  show ?thesis
  proof (cases "n < 56")
    case True
    then have "(55 - int n) mod 64 = 55 - int n" by simp
    then have "nat ((55 - int (length xs)) mod 64) = 55 - n" using z True by simp
    then have "fips_pad xs = ys @ (rest @ [0x80] @ replicate (55 - n) 0 @ ?l)" by (simp add: fips_pad_def assms(1))
    moreover have "fips_blocks (rest @ [0x80] @ replicate (55 - n) 0 @ ?l) = [rest @ [0x80] @ replicate (55 - n) 0 @ ?l]"
      by (rule fips_blocks_one) (use True assms(3) in simp)
    ultimately show ?thesis
      using True fips_blocks_append [OF assms(2), of "rest @ [0x80] @ replicate (55 - n) 0 @ ?l"] by (simp only: if_True)
  next
    case False
    then have "(55 - int n) mod 64 = 119 - int n" using assms(4) mod_add_self2 [of "55 - int n" 64] by simp
    then have "nat ((55 - int (length xs)) mod 64) = (63 - n) + 56" using z False assms(4) by simp
    then have "fips_pad xs = ys @ ((rest @ [0x80] @ replicate (63 - n) 0) @ (replicate 56 0 @ ?l))"
      by (simp add: fips_pad_def assms(1) replicate_add)
    moreover have l: "length (rest @ [0x80 :: u8] @ replicate (63 - n) 0) = 64" "length (replicate 56 (0 :: u8) @ ?l) = 64"
      using False assms(3,4) by simp_all
    moreover have "fips_blocks ((rest @ [0x80] @ replicate (63 - n) 0) @ (replicate 56 0 @ ?l)) =
        [rest @ [0x80] @ replicate (63 - n) 0, replicate 56 0 @ ?l]"
      using fips_blocks_append [of "rest @ [0x80] @ replicate (63 - n) 0" "replicate 56 0 @ ?l"]
        fips_blocks_one [OF l(1)] fips_blocks_one [OF l(2)] l(1) by simp
    ultimately show ?thesis
      using False fips_blocks_append [OF assms(2), of "(rest @ [0x80] @ replicate (63 - n) 0) @ (replicate 56 0 @ ?l)"]
      by (simp only: if_False)
  qed
qed

lemma final_digest:
  assumes "sha_absorbed xs ctx"
  shows "clks_user_sha256_final ctx = sha256 xs"
proof -
  define n where "n = ctx_datalen ctx"
  define rest where "rest = take n (ctx_data ctx)"
  obtain ys where ys: "xs = ys @ rest" "n < 64" "length ys mod 64 = 0" "ctx_bitlen ctx = of_nat (8 * length ys)"
    "vars_of (ctx_state ctx) = fold fips_compress (fips_blocks ys) fips_H0"
    and len: "length (ctx_data ctx) = 64" "length (ctx_state ctx) = 8"
    using assms by (auto simp: sha_absorbed_def n_def rest_def)
  have rl: "length rest = n" using len ys(2) by (simp add: rest_def)
  define bits :: u64 where "bits = of_nat (8 * length xs)"
  have bits: "ctx_bitlen ctx + of_nat n * 8 = bits" by (simp add: bits_def ys(1,4) rl algebra_simps)
  have tn: "take (Suc n) ((ctx_data ctx)[n := 0x80]) = rest @ [0x80]"
    using ys(2) len by (simp add: rest_def take_Suc_conv_app_nth)
  have lb: "rev (map (\<lambda>i. ucast (drop_bit (8 * i) bits) :: u8) [0..<8]) = rev (le_bytes 8 bits)" by (simp add: le_bytes_def)
  note pad = fips_pad_split [OF ys(1,3) rl ys(2), folded bits_def]
  have fin: "concat (map clks_user_store_be32 (ctx_state (clks_user_sha256_transform block c))) = sha256 xs"
    if "length block = 64" "vars_of (ctx_state c) = fold fips_compress bl fips_H0" "fips_blocks (fips_pad xs) = bl @ [block]" for block c bl
    using digest_of_state [OF transform_compress(2) [OF that(1)], of c] that transform_compress(1) [OF that(1), of c]
    by (simp add: sha256_def)
  show ?thesis
  proof (cases "n < 56")
    case True
    define d where "d = fold (\<lambda>i d. d[i := 0]) [n + 1..<56] ((ctx_data ctx)[n := 0x80])"
    have d: "d = rest @ [0x80] @ replicate (55 - n) 0 @ drop 56 ((ctx_data ctx)[n := 0x80])"
      using True len tn by (simp add: d_def fold_zero)
    then have dl: "length d = 64" using True len rl by simp
    define block where "block = fold (\<lambda>i d. d[63 - i := ucast (drop_bit (8 * i) bits)]) [0..<8] d"
    have "block = take 56 d @ rev (le_bytes 8 bits)" using fold_length [OF dl, of 8] lb by (simp add: block_def)
    also have "take 56 d = rest @ [0x80] @ replicate (55 - n) 0"
    proof -
      have "56 - n = Suc (55 - n)" using True by simp
      then show ?thesis using True rl by (simp add: d)
    qed
    finally have b: "block = rest @ [0x80] @ replicate (55 - n) 0 @ rev (le_bytes 8 bits)" by simp
    have "clks_user_sha256_final ctx = concat (map clks_user_store_be32 (ctx_state
        (clks_user_sha256_transform block (ctx\<lparr>ctx_bitlen := bits, ctx_data := block\<rparr>))))"
      using True bits unfolding clks_user_sha256_final_def Let_def n_def [symmetric] d_def [symmetric]
      by (simp add: block_def n_def [symmetric] del: upt_rec_numeral)
    also have "\<dots> = sha256 xs"
      by (rule fin [of _ _ "fips_blocks ys"]) (use b True rl ys(5) pad in simp_all)
    finally show ?thesis .
  next
    case False
    define d where "d = fold (\<lambda>i d. d[i := 0]) [n + 1..<64] ((ctx_data ctx)[n := 0x80])"
    have d: "d = rest @ [0x80] @ replicate (63 - n) 0"
      using False len tn ys(2) by (simp add: d_def fold_zero)
    then have dl: "length d = 64" using False ys(2) rl by simp
    define c where "c = clks_user_sha256_transform d (ctx\<lparr>ctx_data := d\<rparr>)"
    note tc = transform_compress [OF dl, of "ctx\<lparr>ctx_data := d\<rparr>", folded c_def]
    define d2 where "d2 = fold (\<lambda>i d. d[i := 0]) [0..<56] (ctx_data c)"
    have d2: "d2 = replicate 56 0 @ drop 56 d" using tc(3) dl fold_zero [of 0 56 d] by (simp add: d2_def del: upt_rec_numeral)
    then have d2l: "length d2 = 64" using dl by simp
    define block where "block = fold (\<lambda>i d. d[63 - i := ucast (drop_bit (8 * i) bits)]) [0..<8] d2"
    have b: "block = replicate 56 0 @ rev (le_bytes 8 bits)"
      using fold_length [OF d2l, of 8] lb by (simp add: block_def d2)
    have "clks_user_sha256_final ctx = concat (map clks_user_store_be32 (ctx_state
        (clks_user_sha256_transform block (c\<lparr>ctx_bitlen := bits, ctx_data := block\<rparr>))))"
      using False bits tc(4,5)
      unfolding clks_user_sha256_final_def Let_def n_def [symmetric] d_def [symmetric] c_def [symmetric] d2_def [symmetric]
      by (simp add: block_def d2_def [symmetric] n_def [symmetric] del: upt_rec_numeral)
    also have "\<dots> = sha256 xs"
      by (rule fin [of _ _ "fips_blocks ys @ [d]"]) (use b False ys(5) pad d tc(1) in simp_all)
    finally show ?thesis .
  qed
qed

lemma hex_digit: "clks_user_hex_digit v = ''0123456789abcdef'' ! (unat v mod 16)"
proof -
  have "unat (v AND 0xF) = unat v mod 16"
    using and_mask_nat [of v 4] by (simp add: mask_eq_exp_minus_1)
  moreover have "\<forall>d < 16. (if d < 10 then char_of (48 + d) else char_of (97 + (d - 10))) = ''0123456789abcdef'' ! d"
    by code_simp
  ultimately show ?thesis unfolding clks_user_hex_digit_def Let_def by (metis mod_less_divisor zero_less_numeral)
qed

lemma final_hash:
  "clks_user_sha256_final (case password of None \<Rightarrow> clks_user_sha256_init
      | Some p \<Rightarrow> clks_user_sha256_update (bytes_of p) clks_user_sha256_init) =
    sha256 (case password of None \<Rightarrow> [] | Some p \<Rightarrow> bytes_of p)"
proof -
  let ?xs = "case password of None \<Rightarrow> [] | Some p \<Rightarrow> bytes_of p"
  have "sha_absorbed ?xs (case password of None \<Rightarrow> clks_user_sha256_init
      | Some p \<Rightarrow> clks_user_sha256_update (bytes_of p) clks_user_sha256_init)"
    using sha_absorbed_init sha_absorbed_update [OF sha_absorbed_init] by (auto split: option.split)
  then show ?thesis by (rule final_digest)
qed

lemma sha256_length: "length (sha256 xs) = 32"
proof -
  have "length (fips_digest v) = 32" for v by (cases v rule: fips_digest.cases) simp
  then show ?thesis by (simp add: sha256_def)
qed

lemma hash_password_shape:
  "length (clks_user_hash_password password) = 64"
  "c \<in> set (clks_user_hash_password password) \<Longrightarrow> c \<in> set ''0123456789abcdef''"
proof -
  let ?bs = "sha256 (case password of None \<Rightarrow> [] | Some p \<Rightarrow> bytes_of p)"
  have e: "clks_user_hash_password password =
      concat (map (\<lambda>b. [clks_user_hex_digit (drop_bit 4 (ucast b)), clks_user_hex_digit (ucast b)]) ?bs)"
    unfolding clks_user_hash_password_def Let_def final_hash ..
  have "length (concat (map (\<lambda>b. [f b, g b]) xs)) = 2 * length xs" for f g :: "u8 \<Rightarrow> char" and xs
    by (induction xs) simp_all
  then show "length (clks_user_hash_password password) = 64" unfolding e by (simp add: sha256_length)
  have "clks_user_hex_digit v \<in> set ''0123456789abcdef''" for v
    unfolding hex_digit by (rule nth_mem) simp
  moreover have "c \<in> set (clks_user_hash_password password) \<Longrightarrow> \<exists>v. c = clks_user_hex_digit v"
    unfolding e by auto
  ultimately show "c \<in> set (clks_user_hash_password password) \<Longrightarrow> c \<in> set ''0123456789abcdef''" by metis
qed

section \<open>Property\<close>

text \<open>
  C24. The password hash is SHA-256: for every password the streaming code gives the hexadecimal digits
  of the digest that the standard defines by padding the whole message and compressing its blocks, with the
  constants that the standard derives from the roots of the first primes; a null password is the empty message.
\<close>

theorem hash_password_is_sha256:
  "clks_user_hash_password password = hex_of (sha256 (case password of None \<Rightarrow> [] | Some p \<Rightarrow> bytes_of p))"
proof -
  have "unat (drop_bit 4 (ucast b :: u64)) mod 16 = unat b div 16" "unat (ucast b :: u64) mod 16 = unat b mod 16" for b :: u8
  proof -
    have u: "unat (ucast b :: u64) = unat b" using u8_bound [of b] by (simp add: unsigned_ucast_eq take_bit_eq_mod)
    show "unat (ucast b :: u64) mod 16 = unat b mod 16" by (simp only: u)
    have "unat b div 16 < 16" using u8_bound [of b] by simp
    then show "unat (drop_bit 4 (ucast b :: u64)) mod 16 = unat b div 16"
      by (simp add: drop_bit_eq_div unat_div u)
  qed
  then show ?thesis
    unfolding clks_user_hash_password_def Let_def final_hash hex_of_def hex_digit by simp
qed
end
