(* ===== verification/Clks_User.thy ===== *)
theory Clks_User
  imports Clks_Fs Clks_Sha256
begin

text \<open>
  User accounts, \<open>kernel/runtime/user.c\<close>: the text database in the file system, login of the current
  process, administration, and the policy for paths. C strings are HOL strings, so a \<open>char\<close> array of
  size \<open>n\<close> holds at most \<open>n - 1\<close> characters. The user fields of the record of the current process
  (\<open>kernel/runtime/exec\<close>) are part of the state, \<open>None\<close> when there is no current process. The mount
  path of the disk and the rescue switch of the boot loader are arguments. A result \<open>None\<close> of an
  operation would be a heap search that does not end. Log output is left out.
\<close>

section \<open>State\<close>

text \<open>The configuration, with its default values.\<close>

definition CLKS_CFG_USER_SYSTEM :: bool where "CLKS_CFG_USER_SYSTEM = True"

definition CLKS_CFG_USER_DISK_LOGIN :: bool where "CLKS_CFG_USER_DISK_LOGIN = True"

definition CLKS_CFG_USER_READ_POLICY :: bool where "CLKS_CFG_USER_READ_POLICY = True"

definition CLKS_CFG_USER_WRITE_POLICY :: bool where "CLKS_CFG_USER_WRITE_POLICY = True"

definition CLKS_CFG_USER_PRIVILEGE_POLICY :: bool where "CLKS_CFG_USER_PRIVILEGE_POLICY = True"

lemmas user_config = CLKS_CFG_USER_SYSTEM_def CLKS_CFG_USER_DISK_LOGIN_def CLKS_CFG_USER_READ_POLICY_def
  CLKS_CFG_USER_WRITE_POLICY_def CLKS_CFG_USER_PRIVILEGE_POLICY_def

definition CLKS_USER_NAME_MAX :: nat where "CLKS_USER_NAME_MAX = 32"

definition CLKS_USER_HOME_MAX :: nat where "CLKS_USER_HOME_MAX = 96"

definition CLKS_USER_HASH_HEX_LEN :: nat where "CLKS_USER_HASH_HEX_LEN = 64"

definition CLKS_USER_RECORD_MAX :: nat where "CLKS_USER_RECORD_MAX = 192"

definition CLKS_USER_DB_PATH :: string where "CLKS_USER_DB_PATH = ''/system/databases/users.db''"

definition CLKS_USER_ROLE_USER :: u64 where "CLKS_USER_ROLE_USER = 0"

definition CLKS_USER_ROLE_ADMIN :: u64 where "CLKS_USER_ROLE_ADMIN = 1"

definition CLKS_USER_UID_ROOT :: u64 where "CLKS_USER_UID_ROOT = 0"

definition CLKS_USER_UID_BASE :: u64 where "CLKS_USER_UID_BASE = 1000"

definition CLKS_USER_UID_NOBODY :: u64 where "CLKS_USER_UID_NOBODY = 65534"

lemmas user_sizes = CLKS_USER_NAME_MAX_def CLKS_USER_HOME_MAX_def CLKS_USER_HASH_HEX_LEN_def CLKS_USER_RECORD_MAX_def

lemmas user_consts = CLKS_USER_ROLE_USER_def CLKS_USER_ROLE_ADMIN_def CLKS_USER_UID_ROOT_def CLKS_USER_UID_NOBODY_def

record clks_user_record =
  ur_uid :: u64
  ur_role :: u64
  ur_name :: string
  ur_hash :: string
  ur_home :: string

record clks_user_public_info =
  pi_uid :: u64
  pi_role :: u64
  pi_logged_in :: u64
  pi_disk_login_required :: u64
  pi_name :: string
  pi_home :: string

record exec_user =
  eu_uid :: u64
  eu_role :: u64
  eu_logged_in :: bool
  eu_disk_login_required :: bool
  eu_username :: string
  eu_home :: string

record 'd user_state =
  us_fs :: "'d fs_state"
  us_proc :: "exec_user option"
  clks_user_disk_login_required :: bool

section \<open>Text\<close>

text \<open>\<open>clks_user_copy(dst, dst_size, src)\<close> and \<open>clks_user_append\<close>: the string at \<open>dst\<close> afterwards.\<close>

definition clks_user_copy :: "nat \<Rightarrow> string \<Rightarrow> string" where
  "clks_user_copy dst_size src = take (dst_size - 1) src"

definition clks_user_append :: "nat \<Rightarrow> string \<Rightarrow> string \<Rightarrow> string" where
  "clks_user_append dst_size dst src =
     (if length dst \<ge> dst_size then take (dst_size - 1) dst
      else dst @ clks_user_copy (dst_size - length dst) src)"

definition is_blank :: "char \<Rightarrow> bool" where
  "is_blank c \<longleftrightarrow> c \<in> {CHR 0x20, CHR 0x09, CHR 0x0D, CHR 0x0A}"

definition clks_user_trim :: "string \<Rightarrow> string" where
  "clks_user_trim t = rev (dropWhile is_blank (rev (dropWhile is_blank t)))"

definition name_char :: "char \<Rightarrow> bool" where
  "name_char ch \<longleftrightarrow> (let n = (of_char ch :: nat) in
     97 \<le> n \<and> n \<le> 122 \<or> 65 \<le> n \<and> n \<le> 90 \<or> 48 \<le> n \<and> n \<le> 57 \<or> n = 95 \<or> n = 45)"

definition clks_user_name_valid :: "string option \<Rightarrow> bool" where
  "clks_user_name_valid name =
     (case name of None \<Rightarrow> False
      | Some n \<Rightarrow> if n = [] then False else if length n \<ge> CLKS_USER_NAME_MAX then False else list_all name_char n)"

text \<open>The loop of \<open>clks_user_parse_u64_dec\<close>.\<close>

fun parse_dec_loop :: "string \<Rightarrow> u64 \<Rightarrow> u64 option" where
  "parse_dec_loop [] v = Some v"
| "parse_dec_loop (c # cs) v =
     (let n = (of_char c :: nat) in
      if n < 48 \<or> n > 57 then None
      else
        let digit = of_nat (n - 48) in
        if v > (- 1 - digit) div 10 then None else parse_dec_loop cs (v * 10 + digit))"

definition clks_user_parse_u64_dec :: "string \<Rightarrow> u64 option" where
  "clks_user_parse_u64_dec t = (if t = [] then None else parse_dec_loop t 0)"

text \<open>The digits in \<open>tmp\<close>, the least significant first.\<close>

function dec_loop :: "u64 \<Rightarrow> nat \<Rightarrow> string" where
  "dec_loop v len = (if v \<noteq> 0 \<and> len < 32 then char_of (48 + unat (v mod 10)) # dec_loop (v div 10) (len + 1) else [])"
  by pat_completeness auto
termination
  by (relation "measure (\<lambda>(_, len). 32 - len)") auto

declare dec_loop.simps [simp del]

definition clks_user_append_u64_dec :: "nat \<Rightarrow> string \<Rightarrow> u64 \<Rightarrow> string" where
  "clks_user_append_u64_dec out_size out v =
     (if v = 0 then clks_user_append out_size out ''0''
      else fold (\<lambda>c o'. clks_user_append out_size o' [c]) (rev (dec_loop v 0)) out)"

definition clks_user_uid_for_name :: "string \<Rightarrow> u64" where
  "clks_user_uid_for_name name =
     (if name = ''root'' then CLKS_USER_UID_ROOT
      else if name = [] then CLKS_USER_UID_NOBODY
      else CLKS_USER_UID_BASE +
        fold (\<lambda>c hash. (push_bit 5 hash + hash) XOR of_nat (of_char c)) name 5381 mod 60000)"

section \<open>Records\<close>

text \<open>A cursor into a line, \<open>None\<close> behind its last field.\<close>

definition clks_user_next_field :: "string option \<Rightarrow> string option \<times> string option" where
  "clks_user_next_field cursor =
     (case cursor of None \<Rightarrow> (None, None)
      | Some t \<Rightarrow>
          let field = takeWhile (\<lambda>c. c \<noteq> CHR '':'') t; rest = dropWhile (\<lambda>c. c \<noteq> CHR '':'') t
          in (Some field, if rest = [] then None else Some (tl rest)))"

definition clks_user_parse_record :: "string \<Rightarrow> clks_user_record option" where
  "clks_user_parse_record line =
     (let tmp = clks_user_trim (clks_user_copy CLKS_USER_RECORD_MAX line) in
      if tmp = [] \<or> hd tmp = CHR ''#'' then None
      else case clks_user_next_field (Some tmp) of (name, c1) \<Rightarrow>
        case clks_user_next_field c1 of (role_text, c2) \<Rightarrow>
        case clks_user_next_field c2 of (hash, c3) \<Rightarrow>
        case clks_user_next_field c3 of (home, uid_text) \<Rightarrow>
          if name = None \<or> role_text = None \<or> hash = None \<or> home = None then None
          else
            let home1 = clks_user_trim (the home); uid1 = map_option clks_user_trim uid_text in
            if \<not> clks_user_name_valid name \<or> length (the hash) \<noteq> CLKS_USER_HASH_HEX_LEN \<or> home1 = [] \<or> hd home1 \<noteq> slash
            then None
            else
              Option.bind
                (if uid1 \<noteq> None \<and> the uid1 \<noteq> [] then clks_user_parse_u64_dec (the uid1)
                 else Some (clks_user_uid_for_name (the name)))
                (\<lambda>uid. Some \<lparr>ur_uid = uid,
                   ur_role = (if the role_text = ''admin'' \<or> the role_text = ''root''
                              then CLKS_USER_ROLE_ADMIN else CLKS_USER_ROLE_USER),
                   ur_name = clks_user_copy CLKS_USER_NAME_MAX (the name),
                   ur_hash = clks_user_copy (CLKS_USER_HASH_HEX_LEN + 1) (the hash),
                   ur_home = clks_user_copy CLKS_USER_HOME_MAX home1\<rparr>))"

definition clks_user_record_line :: "clks_user_record \<Rightarrow> nat \<Rightarrow> string" where
  "clks_user_record_line r out_size =
     (let add = (\<lambda>t o'. clks_user_append out_size o' t);
          o1 = add (ur_name r) [];
          o2 = add '':'' o1;
          o3 = add (if ur_role r = CLKS_USER_ROLE_ADMIN then ''admin'' else ''user'') o2;
          o4 = add '':'' o3;
          o5 = add (ur_hash r) o4;
          o6 = add '':'' o5;
          o7 = add (ur_home r) o6;
          o8 = add '':'' o7;
          o9 = clks_user_append_u64_dec out_size o8 (ur_uid r)
      in add [CHR 0x0A] o9)"

definition clks_user_home_for :: "nat \<Rightarrow> string \<Rightarrow> string" where
  "clks_user_home_for out_size name = clks_user_append out_size (clks_user_append out_size [] ''/home/'') name"

section \<open>The database\<close>

definition clks_user_read_db :: "'d disk_ops \<Rightarrow> nat \<Rightarrow> 'd user_state \<Rightarrow> string option \<times> 'd user_state" where
  "clks_user_read_db dk out_size s =
     (case clks_fs_read_all dk (Some CLKS_USER_DB_PATH) (us_fs s) of
        (None, fs) \<Rightarrow> (None, s\<lparr>us_fs := fs\<rparr>)
      | (Some bytes, fs) \<Rightarrow>
          (if length bytes + 1 > out_size then None else Some (map (\<lambda>b. char_of (unat b)) bytes), s\<lparr>us_fs := fs\<rparr>))"

text \<open>
  The loops over the database cut it at the newlines and at its end, and copy at most 191 characters
  of each piece to \<open>line\<close>; a piece may contain a null character, which ends the string in \<open>line\<close>.
\<close>

fun db_pieces :: "string \<Rightarrow> string list" where
  "db_pieces [] = [[]]"
| "db_pieces (c # cs) =
     (if c = CHR 0x0A then [] # db_pieces cs
      else case db_pieces cs of [] \<Rightarrow> [[c]] | p # ps \<Rightarrow> (c # p) # ps)"

definition piece_line :: "string \<Rightarrow> nat \<times> string" where
  "piece_line p =
     (let line_len = (if length p \<ge> CLKS_USER_RECORD_MAX then CLKS_USER_RECORD_MAX - 1 else length p)
      in (line_len, takeWhile (\<lambda>c. c \<noteq> CHR 0x00) (take line_len p)))"

text \<open>The records that the loops of \<open>clks_user_find\<close>, \<open>clks_user_count\<close> and \<open>clks_user_at\<close> meet, in order.\<close>

definition db_records :: "string \<Rightarrow> clks_user_record list" where
  "db_records db = List.map_filter (\<lambda>p. clks_user_parse_record (snd (piece_line p))) (db_pieces db)"

definition clks_user_find :: "'d disk_ops \<Rightarrow> string option \<Rightarrow> 'd user_state \<Rightarrow> clks_user_record option \<times> 'd user_state" where
  "clks_user_find dk name s =
     (if \<not> clks_user_name_valid name then (None, s)
      else case clks_user_read_db dk 4096 s of
        (None, s1) \<Rightarrow> (None, s1)
      | (Some db, s1) \<Rightarrow> (find (\<lambda>r. Some (ur_name r) = name) (db_records db), s1))"

definition clks_user_verify_password ::
  "'d disk_ops \<Rightarrow> string option \<Rightarrow> string option \<Rightarrow> 'd user_state \<Rightarrow> clks_user_record option \<times> 'd user_state" where
  "clks_user_verify_password dk name password s =
     (if password = None then (None, s)
      else case clks_user_find dk name s of
        (None, s1) \<Rightarrow> (None, s1)
      | (Some r, s1) \<Rightarrow> (if ur_hash r \<noteq> clks_user_hash_password password then None else Some r, s1))"

definition clks_user_public_from_record :: "clks_user_record \<Rightarrow> u64 \<Rightarrow> 'd user_state \<Rightarrow> clks_user_public_info" where
  "clks_user_public_from_record r logged_in s =
     \<lparr>pi_uid = ur_uid r, pi_role = ur_role r, pi_logged_in = logged_in,
      pi_disk_login_required = (if clks_user_disk_login_required s then 1 else 0),
      pi_name = clks_user_copy CLKS_USER_NAME_MAX (ur_name r), pi_home = clks_user_copy CLKS_USER_HOME_MAX (ur_home r)\<rparr>"

text \<open>One piece of the database in \<open>clks_user_db_rewrite_with\<close>: the new text, its length, whether the name was found.\<close>

definition rewrite_piece ::
  "clks_user_record option \<Rightarrow> string option \<Rightarrow> string \<Rightarrow> string \<times> nat \<times> bool \<Rightarrow> (string \<times> nat \<times> bool) option" where
  "rewrite_piece replace_record remove_name p acc =
     (case acc of (next_db, next_len, found) \<Rightarrow>
      case piece_line p of (line_len, line) \<Rightarrow>
        let emit_original =
              (if line \<noteq> [] then
                 if next_len + line_len + 2 \<ge> 4096 then None
                 else Some (clks_user_append 4096 (clks_user_append 4096 next_db line) [CHR 0x0A], next_len + line_len + 1, found)
               else Some (next_db, next_len, found)) in
        case clks_user_parse_record line of
          None \<Rightarrow> emit_original
        | Some r \<Rightarrow>
            if remove_name = Some (ur_name r) then Some (next_db, next_len, True)
            else (case replace_record of
                None \<Rightarrow> emit_original
              | Some q \<Rightarrow>
                  if ur_name r \<noteq> ur_name q then emit_original
                  else
                    let record_line = clks_user_record_line q CLKS_USER_RECORD_MAX in
                    if next_len + length record_line + 1 \<ge> 4096 then None
                    else Some (clks_user_append 4096 next_db record_line, next_len + length record_line, True)))"

fun rewrite_loop ::
  "clks_user_record option \<Rightarrow> string option \<Rightarrow> string list \<Rightarrow> string \<times> nat \<times> bool \<Rightarrow> (string \<times> nat \<times> bool) option" where
  "rewrite_loop replace_record remove_name [] acc = Some acc"
| "rewrite_loop replace_record remove_name (p # ps) acc =
     Option.bind (rewrite_piece replace_record remove_name p acc) (rewrite_loop replace_record remove_name ps)"

text \<open>A call of a file operation.\<close>

definition fs_call :: "('d fs_state \<Rightarrow> (bool \<times> 'd fs_state) option) \<Rightarrow> 'd user_state \<Rightarrow> (bool \<times> 'd user_state) option" where
  "fs_call f s = map_option (\<lambda>(ok, fs). (ok, s\<lparr>us_fs := fs\<rparr>)) (f (us_fs s))"

definition clks_user_db_rewrite_with ::
  "'d disk_ops \<Rightarrow> clks_user_record option \<Rightarrow> string option \<Rightarrow> 'd user_state \<Rightarrow> (bool \<times> 'd user_state) option" where
  "clks_user_db_rewrite_with dk replace_record remove_name s =
     (case clks_user_read_db dk 4096 s of
        (None, s1) \<Rightarrow> Some (False, s1)
      | (Some db, s1) \<Rightarrow>
          (case rewrite_loop replace_record remove_name (db_pieces db) ([], 0, False) of
             None \<Rightarrow> Some (False, s1)
           | Some (next_db, next_len, found) \<Rightarrow>
               if \<not> found then Some (False, s1)
               else fs_call (clks_fs_write_all dk (Some CLKS_USER_DB_PATH) (Some (bytes_of next_db)) (length next_db)) s1))"

definition clks_user_db_ensure :: "'d disk_ops \<Rightarrow> 'd user_state \<Rightarrow> (bool \<times> 'd user_state) option" where
  "clks_user_db_ensure dk s =
     (case clks_fs_stat dk (Some CLKS_USER_DB_PATH) (us_fs s) of
        Some info \<Rightarrow>
          if ni_type info = FS_NODE_FILE then Some (True, s)
          else fs_call (clks_fs_write_all dk (Some CLKS_USER_DB_PATH) (Some [0]) 0) s
      | None \<Rightarrow> fs_call (clks_fs_write_all dk (Some CLKS_USER_DB_PATH) (Some [0]) 0) s)"

section \<open>The current process\<close>

text \<open>From \<open>kernel/runtime/exec/current.inc\<close>.\<close>

definition clks_exec_current_set_user ::
  "u64 \<Rightarrow> u64 \<Rightarrow> string \<Rightarrow> string \<Rightarrow> bool \<Rightarrow> bool \<Rightarrow> 'd user_state \<Rightarrow> bool \<times> 'd user_state" where
  "clks_exec_current_set_user uid role name home logged_in disk_login_required s =
     (if us_proc s = None \<or> name = [] \<or> home = [] \<or> hd home \<noteq> slash then (False, s)
      else (True, s\<lparr>us_proc := Some \<lparr>eu_uid = uid,
              eu_role = (if role = CLKS_USER_ROLE_ADMIN then CLKS_USER_ROLE_ADMIN else CLKS_USER_ROLE_USER),
              eu_logged_in = logged_in, eu_disk_login_required = disk_login_required,
              eu_username = clks_user_copy CLKS_USER_NAME_MAX name, eu_home = clks_user_copy CLKS_USER_HOME_MAX home\<rparr>\<rparr>))"

definition clks_exec_proc_set_default_user :: exec_user where
  "clks_exec_proc_set_default_user = \<lparr>eu_uid = CLKS_USER_UID_NOBODY, eu_role = CLKS_USER_ROLE_USER,
     eu_logged_in = False, eu_disk_login_required = False, eu_username = ''nobody'', eu_home = ''/''\<rparr>"

definition clks_exec_current_clear_user :: "bool \<Rightarrow> 'd user_state \<Rightarrow> 'd user_state" where
  "clks_exec_current_clear_user disk_login_required s =
     (if us_proc s = None then s
      else s\<lparr>us_proc := Some (clks_exec_proc_set_default_user\<lparr>eu_disk_login_required := disk_login_required\<rparr>)\<rparr>)"

definition clks_exec_current_user_info :: "'d user_state \<Rightarrow> exec_user option" where
  "clks_exec_current_user_info s = us_proc s"

section \<open>Operations\<close>

definition clks_user_is_disk_boot :: "'d disk_ops \<Rightarrow> ('d \<Rightarrow> string) \<Rightarrow> 'd user_state \<Rightarrow> bool" where
  "clks_user_is_disk_boot dk mount_path s =
     (if \<not> dk_is_mounted dk (fs_disk (us_fs s)) then False else mount_path (fs_disk (us_fs s)) = ''/'')"

definition clks_user_init :: "'d disk_ops \<Rightarrow> ('d \<Rightarrow> string) \<Rightarrow> bool \<Rightarrow> 'd user_state \<Rightarrow> 'd user_state" where
  "clks_user_init dk mount_path rescue_mode s =
     (let s1 = s\<lparr>clks_user_disk_login_required :=
            CLKS_CFG_USER_SYSTEM \<and> CLKS_CFG_USER_DISK_LOGIN \<and> clks_user_is_disk_boot dk mount_path s\<rparr>
      in if clks_user_is_disk_boot dk mount_path s1 \<and> rescue_mode then s1\<lparr>clks_user_disk_login_required := False\<rparr> else s1)"

definition clks_user_current_info :: "'d user_state \<Rightarrow> clks_user_public_info" where
  "clks_user_current_info s =
     (if \<not> CLKS_CFG_USER_SYSTEM then
        \<lparr>pi_uid = CLKS_USER_UID_ROOT, pi_role = CLKS_USER_ROLE_ADMIN, pi_logged_in = 1, pi_disk_login_required = 0,
         pi_name = ''root'', pi_home = ''/''\<rparr>
      else
        let u = (case clks_exec_current_user_info s of
                   Some u \<Rightarrow> u
                 | None \<Rightarrow> \<lparr>eu_uid = CLKS_USER_UID_NOBODY, eu_role = CLKS_USER_ROLE_USER, eu_logged_in = False,
                     eu_disk_login_required = clks_user_disk_login_required s, eu_username = [], eu_home = []\<rparr>);
            u1 = (if \<not> clks_user_disk_login_required s then
                    \<lparr>eu_uid = CLKS_USER_UID_ROOT, eu_role = CLKS_USER_ROLE_ADMIN, eu_logged_in = True,
                     eu_disk_login_required = False, eu_username = ''root'', eu_home = ''/''\<rparr>
                  else if \<not> eu_logged_in u then
                    u\<lparr>eu_disk_login_required := True, eu_uid := CLKS_USER_UID_NOBODY, eu_role := CLKS_USER_ROLE_USER,
                      eu_username := ''nobody'', eu_home := ''/''\<rparr>
                  else u\<lparr>eu_disk_login_required := True\<rparr>)
        in \<lparr>pi_uid = eu_uid u1, pi_role = eu_role u1, pi_logged_in = (if eu_logged_in u1 then 1 else 0),
            pi_disk_login_required = (if eu_disk_login_required u1 then 1 else 0),
            pi_name = clks_user_copy CLKS_USER_NAME_MAX (eu_username u1),
            pi_home = clks_user_copy CLKS_USER_HOME_MAX (eu_home u1)\<rparr>)"

definition clks_user_current_is_admin :: "'d user_state \<Rightarrow> bool" where
  "clks_user_current_is_admin s =
     (if \<not> CLKS_CFG_USER_SYSTEM then True
      else if \<not> clks_user_disk_login_required s then True
      else
        let info = clks_user_current_info s
        in pi_logged_in info \<noteq> 0 \<and> pi_role info = CLKS_USER_ROLE_ADMIN)"

definition clks_user_login ::
  "'d disk_ops \<Rightarrow> string option \<Rightarrow> string option \<Rightarrow> 'd user_state \<Rightarrow> clks_user_public_info option \<times> 'd user_state" where
  "clks_user_login dk name password s =
     (if \<not> CLKS_CFG_USER_SYSTEM \<or> \<not> clks_user_disk_login_required s then
        let root = \<lparr>ur_uid = CLKS_USER_UID_ROOT, ur_role = CLKS_USER_ROLE_ADMIN, ur_name = ''root'', ur_hash = [], ur_home = ''/''\<rparr>
        in case clks_exec_current_set_user (ur_uid root) (ur_role root) (ur_name root) (ur_home root) True False s of
             (_, s1) \<Rightarrow> (Some (clks_user_public_from_record root 1 s1), s1)
      else case clks_user_verify_password dk name password s of
        (None, s1) \<Rightarrow> (None, s1)
      | (Some r, s1) \<Rightarrow>
          (case clks_exec_current_set_user (ur_uid r) (ur_role r) (ur_name r) (ur_home r) True True s1 of
             (ok, s2) \<Rightarrow> if \<not> ok then (None, s2) else (Some (clks_user_public_from_record r 1 s2), s2)))"

definition clks_user_logout :: "'d user_state \<Rightarrow> 'd user_state" where
  "clks_user_logout s =
     (if \<not> clks_user_disk_login_required s
      then snd (clks_exec_current_set_user CLKS_USER_UID_ROOT CLKS_USER_ROLE_ADMIN ''root'' ''/'' True False s)
      else clks_exec_current_clear_user True s)"

definition clks_user_count :: "'d disk_ops \<Rightarrow> 'd user_state \<Rightarrow> nat \<times> 'd user_state" where
  "clks_user_count dk s =
     (if \<not> CLKS_CFG_USER_SYSTEM then (0, s)
      else case clks_user_read_db dk 4096 s of
        (None, s1) \<Rightarrow> (0, s1) | (Some db, s1) \<Rightarrow> (length (db_records db), s1))"

definition clks_user_at :: "'d disk_ops \<Rightarrow> nat \<Rightarrow> 'd user_state \<Rightarrow> clks_user_public_info option \<times> 'd user_state" where
  "clks_user_at dk index s =
     (if \<not> CLKS_CFG_USER_SYSTEM then (None, s)
      else case clks_user_read_db dk 4096 s of
        (None, s1) \<Rightarrow> (None, s1)
      | (Some db, s1) \<Rightarrow>
          (if index < length (db_records db) then Some (clks_user_public_from_record (db_records db ! index) 1 s1) else None, s1))"

definition clks_user_create ::
  "'d disk_ops \<Rightarrow> string option \<Rightarrow> string option \<Rightarrow> u64 \<Rightarrow> 'd user_state \<Rightarrow> (bool \<times> 'd user_state) option" where
  "clks_user_create dk name password role s =
     (if \<not> CLKS_CFG_USER_SYSTEM \<or> \<not> clks_user_current_is_admin s \<or> \<not> clks_user_name_valid name \<or>
         password = None \<or> password = Some [] then Some (False, s)
      else
        Option.bind (clks_user_db_ensure dk s) (\<lambda>(ok, s1).
          if \<not> ok then Some (False, s1)
          else case clks_user_find dk name s1 of
            (Some _, s2) \<Rightarrow> Some (False, s2)
          | (None, s2) \<Rightarrow>
              let r = \<lparr>ur_uid = clks_user_uid_for_name (the name),
                    ur_role = (if role = CLKS_USER_ROLE_ADMIN then CLKS_USER_ROLE_ADMIN else CLKS_USER_ROLE_USER),
                    ur_name = clks_user_copy CLKS_USER_NAME_MAX (the name), ur_hash = clks_user_hash_password password,
                    ur_home = clks_user_home_for CLKS_USER_HOME_MAX (the name)\<rparr>;
                  finish = (\<lambda>s3.
                    case clks_fs_mkdir dk (Some (ur_home r)) (us_fs s3) of (made, fs) \<Rightarrow>
                      let s4 = s3\<lparr>us_fs := fs\<rparr>; line = clks_user_record_line r CLKS_USER_RECORD_MAX in
                      if \<not> made then Some (False, s4)
                      else fs_call (clks_fs_append dk (Some CLKS_USER_DB_PATH) (Some (bytes_of line)) (length line)) s4)
              in case clks_fs_stat dk (Some ''/home'') (us_fs s2) of
                   None \<Rightarrow>
                     (case clks_fs_mkdir dk (Some ''/home'') (us_fs s2) of (made, fs) \<Rightarrow>
                        if \<not> made then Some (False, s2\<lparr>us_fs := fs\<rparr>) else finish (s2\<lparr>us_fs := fs\<rparr>))
                 | Some info \<Rightarrow> if ni_type info \<noteq> FS_NODE_DIR then Some (False, s2) else finish s2))"

definition clks_user_change_password ::
  "'d disk_ops \<Rightarrow> string option \<Rightarrow> string option \<Rightarrow> string option \<Rightarrow> 'd user_state \<Rightarrow> (bool \<times> 'd user_state) option" where
  "clks_user_change_password dk name old_password new_password s =
     (if \<not> CLKS_CFG_USER_SYSTEM \<or> \<not> clks_user_name_valid name \<or> new_password = None \<or> new_password = Some []
      then Some (False, s)
      else case clks_user_find dk name s of
        (None, s1) \<Rightarrow> Some (False, s1)
      | (Some r, s1) \<Rightarrow>
          let current = clks_user_current_info s1 in
          if pi_logged_in current = 0 then Some (False, s1)
          else
            (case (if pi_role current \<noteq> CLKS_USER_ROLE_ADMIN \<or> Some (pi_name current) = name
                   then (case clks_user_verify_password dk name old_password s1 of (v, s2) \<Rightarrow> (v \<noteq> None, s2))
                   else (True, s1)) of
               (ok, s2) \<Rightarrow>
                 if \<not> ok then Some (False, s2)
                 else clks_user_db_rewrite_with dk (Some (r\<lparr>ur_hash := clks_user_hash_password new_password\<rparr>)) None s2))"

definition clks_user_set_role ::
  "'d disk_ops \<Rightarrow> string option \<Rightarrow> u64 \<Rightarrow> 'd user_state \<Rightarrow> (bool \<times> 'd user_state) option" where
  "clks_user_set_role dk name role s =
     (if \<not> CLKS_CFG_USER_SYSTEM \<or> \<not> clks_user_current_is_admin s then Some (False, s)
      else case clks_user_find dk name s of
        (None, s1) \<Rightarrow> Some (False, s1)
      | (Some r, s1) \<Rightarrow>
          if name = Some ''root'' then Some (False, s1)
          else clks_user_db_rewrite_with dk
                 (Some (r\<lparr>ur_role := (if role = CLKS_USER_ROLE_ADMIN then CLKS_USER_ROLE_ADMIN else CLKS_USER_ROLE_USER)\<rparr>))
                 None s1)"

definition clks_user_remove :: "'d disk_ops \<Rightarrow> string option \<Rightarrow> 'd user_state \<Rightarrow> (bool \<times> 'd user_state) option" where
  "clks_user_remove dk name s =
     (if \<not> CLKS_CFG_USER_SYSTEM \<or> \<not> clks_user_current_is_admin s \<or> \<not> clks_user_name_valid name \<or> name = Some ''root''
      then Some (False, s)
      else clks_user_db_rewrite_with dk None name s)"

section \<open>Policy for paths\<close>

text \<open>From \<open>rust/src/path.rs\<close>.\<close>

definition PATH_POLICY_USER_DB :: u32 where "PATH_POLICY_USER_DB = 1"

definition PATH_POLICY_TEMP :: u32 where "PATH_POLICY_TEMP = 2"

definition PATH_POLICY_HOME :: u32 where "PATH_POLICY_HOME = 4"

definition PATH_POLICY_HOME_ROOT :: u32 where "PATH_POLICY_HOME_ROOT = 8"

definition PATH_POLICY_UNDER_HOME_ROOT :: u32 where "PATH_POLICY_UNDER_HOME_ROOT = 16"

definition PATH_POLICY_SYSTEM :: u32 where "PATH_POLICY_SYSTEM = 32"

definition PATH_POLICY_SYSTEM_DRIVERS :: u32 where "PATH_POLICY_SYSTEM_DRIVERS = 64"

definition PATH_POLICY_USER_PROGRAM :: u32 where "PATH_POLICY_USER_PROGRAM = 128"

lemmas path_policies = PATH_POLICY_USER_DB_def PATH_POLICY_TEMP_def PATH_POLICY_HOME_def PATH_POLICY_HOME_ROOT_def
  PATH_POLICY_UNDER_HOME_ROOT_def PATH_POLICY_SYSTEM_def PATH_POLICY_SYSTEM_DRIVERS_def PATH_POLICY_USER_PROGRAM_def

definition path_has_suffix :: "string \<Rightarrow> string \<Rightarrow> bool" where
  "path_has_suffix path suffix \<longleftrightarrow> length path \<ge> length suffix \<and> drop (length path - length suffix) path = suffix"

definition path_is_user_program_bytes :: "string \<Rightarrow> bool" where
  "path_is_user_program_bytes path =
     (if path = [] \<or> hd path \<noteq> slash then False
      else if path_at_or_under path ''/system'' \<or> path_at_or_under path ''/system/drivers'' then False
      else path_starts_with path ''/shell/'' \<or> path_has_suffix path ''.elf'')"

definition clks_rust_path_policy_flags :: "string \<Rightarrow> string \<Rightarrow> u32" where
  "clks_rust_path_policy_flags path home =
     (let f1 = (if path = CLKS_USER_DB_PATH then PATH_POLICY_USER_DB else 0);
          f2 = (if path_at_or_under path ''/temp'' then f1 OR PATH_POLICY_TEMP else f1);
          f3 = (if path = ''/home'' then f2 OR PATH_POLICY_HOME_ROOT else f2);
          f4 = (if path_at_or_under path ''/home'' then f3 OR PATH_POLICY_UNDER_HOME_ROOT else f3);
          f5 = (if path_at_or_under path ''/system'' then f4 OR PATH_POLICY_SYSTEM else f4);
          f6 = (if path_at_or_under path ''/system/drivers'' then f5 OR PATH_POLICY_SYSTEM_DRIVERS else f5);
          f7 = (if path_is_user_program_bytes path then f6 OR PATH_POLICY_USER_PROGRAM else f6)
      in if home \<noteq> [] \<and> path_at_or_under path home then f7 OR PATH_POLICY_HOME else f7)"

definition clks_rust_path_at_or_under :: "string option \<Rightarrow> string option \<Rightarrow> u32" where
  "clks_rust_path_at_or_under path prefix =
     (if path = None \<or> prefix = None then 0 else if path_at_or_under (the path) (the prefix) then 1 else 0)"

definition clks_rust_path_has_prefix :: "string option \<Rightarrow> string option \<Rightarrow> u32" where
  "clks_rust_path_has_prefix path prefix =
     (if path = None \<or> prefix = None then 0 else if path_starts_with (the path) (the prefix) then 1 else 0)"

definition clks_rust_path_is_user_program :: "string option \<Rightarrow> u32" where
  "clks_rust_path_is_user_program path =
     (case path of None \<Rightarrow> 0 | Some p \<Rightarrow> if path_is_user_program_bytes p then 1 else 0)"

definition clks_user_path_read_allowed :: "string option \<Rightarrow> 'd user_state \<Rightarrow> bool" where
  "clks_user_path_read_allowed path s =
     (case path of None \<Rightarrow> False
      | Some p \<Rightarrow>
          if p = [] \<or> hd p \<noteq> slash then False
          else case clks_rust_path_normalize_absolute path (CLKS_USER_HOME_MAX * 2) of
            None \<Rightarrow> False
          | Some normalized \<Rightarrow>
              if \<not> CLKS_CFG_USER_SYSTEM \<or> \<not> CLKS_CFG_USER_READ_POLICY \<or> \<not> clks_user_disk_login_required s then True
              else
                let info = clks_user_current_info s in
                if pi_logged_in info = 0 then False
                else if pi_role info = CLKS_USER_ROLE_ADMIN \<or> pi_uid info = CLKS_USER_UID_ROOT then True
                else
                  let policy_flags = clks_rust_path_policy_flags normalized (pi_home info) in
                  if policy_flags AND PATH_POLICY_USER_DB \<noteq> 0 then False
                  else if policy_flags AND PATH_POLICY_TEMP \<noteq> 0 then True
                  else if policy_flags AND PATH_POLICY_HOME \<noteq> 0 then True
                  else if policy_flags AND PATH_POLICY_UNDER_HOME_ROOT \<noteq> 0
                       then policy_flags AND PATH_POLICY_HOME_ROOT \<noteq> 0
                  else True)"

definition clks_user_path_write_allowed :: "string option \<Rightarrow> 'd user_state \<Rightarrow> bool" where
  "clks_user_path_write_allowed path s =
     (case path of None \<Rightarrow> False
      | Some p \<Rightarrow>
          if p = [] \<or> hd p \<noteq> slash then False
          else case clks_rust_path_normalize_absolute path (CLKS_USER_HOME_MAX * 2) of
            None \<Rightarrow> False
          | Some normalized \<Rightarrow>
              if \<not> CLKS_CFG_USER_SYSTEM \<or> \<not> CLKS_CFG_USER_WRITE_POLICY \<or> \<not> clks_user_disk_login_required s then True
              else
                let info = clks_user_current_info s in
                if pi_logged_in info = 0 then False
                else if pi_role info = CLKS_USER_ROLE_ADMIN \<or> pi_uid info = CLKS_USER_UID_ROOT then True
                else
                  let policy_flags = clks_rust_path_policy_flags normalized (pi_home info) in
                  if policy_flags AND PATH_POLICY_TEMP \<noteq> 0 then True
                  else if policy_flags AND PATH_POLICY_HOME \<noteq> 0 then True
                  else False)"

definition clks_user_privileged_operation_allowed :: "'d user_state \<Rightarrow> bool" where
  "clks_user_privileged_operation_allowed s =
     (if \<not> CLKS_CFG_USER_SYSTEM \<or> \<not> CLKS_CFG_USER_PRIVILEGE_POLICY then True else clks_user_current_is_admin s)"

text \<open>The comparison of names on the disk, from \<open>kernel/storage/disk/directory.inc\<close>.\<close>

definition clks_disk_ascii_upper :: "char \<Rightarrow> char" where
  "clks_disk_ascii_upper ch =
     (if 97 \<le> (of_char ch :: nat) \<and> (of_char ch :: nat) \<le> 122 then char_of ((of_char ch :: nat) - 32) else ch)"

fun clks_disk_text_equals_casefold :: "string \<Rightarrow> string \<Rightarrow> bool" where
  "clks_disk_text_equals_casefold (c # cs) (d # ds) =
     (if clks_disk_ascii_upper c \<noteq> clks_disk_ascii_upper d then False else clks_disk_text_equals_casefold cs ds)"
| "clks_disk_text_equals_casefold [] [] = True"
| "clks_disk_text_equals_casefold _ _ = False"
section \<open>Printing and parsing records\<close>

text \<open>The line of a record, without the bound of the buffer.\<close>

definition dec_text :: "u64 \<Rightarrow> string" where
  "dec_text v = (if v = 0 then ''0'' else rev (dec_loop v 0))"

definition record_text :: "clks_user_record \<Rightarrow> string" where
  "record_text r = ur_name r @ '':'' @ (if ur_role r = CLKS_USER_ROLE_ADMIN then ''admin'' else ''user'') @
     '':'' @ ur_hash r @ '':'' @ ur_home r @ '':'' @ dec_text (ur_uid r)"

lemma user_append_take: "clks_user_append n dst src = take (n - 1) (dst @ src)"
  by (auto simp: clks_user_append_def clks_user_copy_def)

lemma user_append_fold:
  "length dst \<le> n - 1 \<Longrightarrow> fold (\<lambda>c dst. clks_user_append n dst [c]) cs dst = take (n - 1) (dst @ cs)"
proof (induction cs arbitrary: dst)
  case (Cons c cs)
  then have "fold (\<lambda>c dst. clks_user_append n dst [c]) (c # cs) dst = take (n - 1) (take (n - 1) (dst @ [c]) @ cs)"
    by (simp add: user_append_take)
  also have "\<dots> = take (n - 1) (dst @ c # cs)" using Cons.prems by (cases "length dst = n - 1") auto
  finally show ?case .
qed simp

lemma append_u64_take: "length dst \<le> n - 1 \<Longrightarrow> clks_user_append_u64_dec n dst v = take (n - 1) (dst @ dec_text v)"
  proof (cases "v = 0")
  case True
  then show ?thesis by (simp add: clks_user_append_u64_dec_def dec_text_def user_append_take)
next
  case False
  assume "length dst \<le> n - 1"
  from user_append_fold [OF this] False show ?thesis
    by (simp only: clks_user_append_u64_dec_def dec_text_def if_False)
qed

lemma record_line_take: "clks_user_record_line r n = take (n - 1) (record_text r @ [CHR 0x0A])"
proof -
  have t: "take m (take m xs @ ys) = take m (xs @ ys)" for m and xs ys :: string by (cases "length xs \<le> m") simp_all
  show ?thesis
    by (simp add: clks_user_record_line_def Let_def user_append_take append_u64_take t record_text_def
        del: take_append append.append_Cons)
qed
lemma dec_loop_step: "v \<noteq> 0 \<Longrightarrow> n < 32 \<Longrightarrow> dec_loop v n = char_of (48 + unat (v mod 10)) # dec_loop (v div 10) (n + 1)"
  by (subst dec_loop.simps) simp

lemma digit_char: "d < 10 \<Longrightarrow> (of_char (char_of (48 + d) :: char) :: nat) = 48 + d"
  by simp

lemma parse_dec_loop_append:
  "parse_dec_loop (xs @ ys) v = Option.bind (parse_dec_loop xs v) (parse_dec_loop ys)"
  by (induction xs arbitrary: v) (auto simp: Let_def)

lemma parse_dec_digit:
  fixes v :: u64
  shows "parse_dec_loop [char_of (48 + unat (v mod 10))] (v div 10) = Some v"
proof -
  let ?d = "unat (v mod 10)"
  have d: "?d < 10" by (simp add: unat_mod_distrib)
  have "of_nat ?d = v mod 10" by simp
  moreover have "v div 10 \<le> (- 1 - v mod 10) div 10"
  proof -
    have "v mod 10 \<le> - 1" by simp
    then have "unat (- 1 - v mod 10) = unat (- 1 :: u64) - ?d" by (rule unat_sub)
    moreover have "unat v \<le> unat (- 1 :: u64)" by (simp flip: word_le_nat_alt)
    moreover have "?d = unat v mod 10" by (simp add: unat_mod_distrib)
    ultimately have "unat v div 10 \<le> unat (- 1 - v mod 10) div 10"
      by (metis (no_types, lifting) diff_le_mono div_le_mono minus_mod_eq_mult_div nonzero_mult_div_cancel_left zero_neq_numeral)
    then show ?thesis by (simp add: word_le_nat_alt unat_div_distrib)
  qed
  moreover have "v div 10 * 10 + v mod 10 = v" by (rule div_mult_mod_eq)
  ultimately show ?thesis using d by (simp add: Let_def digit_char not_less)
qed

lemma parse_dec_rev: "unat v < 10 ^ (32 - n) \<Longrightarrow> n \<le> 32 \<Longrightarrow> parse_dec_loop (rev (dec_loop v n)) 0 = Some v"
proof (induction v n rule: dec_loop.induct)
  case (1 v n)
  show ?case
  proof (cases "v = 0")
    case True
    then show ?thesis by (simp add: dec_loop.simps)
  next
    case False
    then have n: "n < 32" using 1 by (cases "n = 32") (auto simp: unat_eq_zero)
    have e: "32 - n = Suc (32 - (n + 1))" using n by simp
    have "unat v < 10 * 10 ^ (32 - (n + 1))" using "1.prems"(1) unfolding e by simp
    then have "unat (v div 10) < 10 ^ (32 - (n + 1))" by (simp add: unat_div_distrib less_mult_imp_div_less mult.commute)
    then have "parse_dec_loop (rev (dec_loop (v div 10) (n + 1))) 0 = Some (v div 10)"
      using "1.IH" n False by simp
    then show ?thesis
      by (simp add: dec_loop_step [OF False n] parse_dec_loop_append parse_dec_digit del: parse_dec_loop.simps)
  qed
qed

lemma dec_loop_digits: "\<forall>c \<in> set (dec_loop v n). 48 \<le> (of_char c :: nat) \<and> (of_char c :: nat) \<le> 57"
proof (induction v n rule: dec_loop.induct)
  case (1 v n)
  have "unat (v mod 10) < 10" by (simp add: unat_mod_distrib)
  with 1 show ?case by (subst dec_loop.simps) (auto simp: digit_char)
qed

lemma dec_text_digits: "c \<in> set (dec_text v) \<Longrightarrow> 48 \<le> (of_char c :: nat) \<and> (of_char c :: nat) \<le> 57"
  using dec_loop_digits [of v 0] by (auto simp: dec_text_def split: if_splits)

lemma dec_text_nonempty: "dec_text v \<noteq> []"
  by (simp add: dec_text_def dec_loop_step)

lemma parse_dec_text: "clks_user_parse_u64_dec (dec_text v) = Some v"
proof -
  have "unat v < 10 ^ (32 - 0)" using u64_bound [of v] by simp
  then have "parse_dec_loop (rev (dec_loop v 0)) 0 = Some v" by (rule parse_dec_rev) simp
  then show ?thesis using dec_text_nonempty [of v]
    by (simp add: clks_user_parse_u64_dec_def dec_text_def split: if_splits)
qed
text \<open>A record whose fields the format can carry, and whose line fits the buffer.\<close>

definition field_char :: "char \<Rightarrow> bool" where
  "field_char c \<longleftrightarrow> c \<noteq> CHR '':'' \<and> c \<noteq> CHR 0x0A \<and> c \<noteq> CHR 0x00"

definition record_ok :: "clks_user_record \<Rightarrow> bool" where
  "record_ok r \<longleftrightarrow> clks_user_name_valid (Some (ur_name r)) \<and> ur_role r \<in> {CLKS_USER_ROLE_USER, CLKS_USER_ROLE_ADMIN} \<and>
     length (ur_hash r) = CLKS_USER_HASH_HEX_LEN \<and> list_all field_char (ur_hash r) \<and>
     ur_home r \<noteq> [] \<and> hd (ur_home r) = slash \<and> list_all field_char (ur_home r) \<and>
     length (ur_home r) < CLKS_USER_HOME_MAX \<and> clks_user_trim (ur_home r) = ur_home r \<and>
     length (record_text r) + 1 < CLKS_USER_RECORD_MAX"

lemma name_char_field: "name_char c \<Longrightarrow> field_char c \<and> \<not> is_blank c \<and> c \<noteq> CHR ''#''"
  by (auto simp: name_char_def field_char_def is_blank_def Let_def)

lemma digit_field: "48 \<le> (of_char c :: nat) \<Longrightarrow> (of_char c :: nat) \<le> 57 \<Longrightarrow> field_char c \<and> \<not> is_blank c"
  by (auto simp: field_char_def is_blank_def)

lemma name_valid_D:
  assumes "clks_user_name_valid (Some n)"
  shows "n \<noteq> []" "length n < 32" "\<forall>c \<in> set n. field_char c \<and> \<not> is_blank c \<and> c \<noteq> CHR ''#''"
  using assms name_char_field by (auto simp: clks_user_name_valid_def user_sizes list_all_iff split: if_splits)

lemma trim_id:
  assumes "t \<noteq> [] \<Longrightarrow> \<not> is_blank (hd t)" "t \<noteq> [] \<Longrightarrow> \<not> is_blank (last t)"
  shows "clks_user_trim t = t"
proof -
  have d: "dropWhile is_blank xs = xs" if "xs \<noteq> [] \<Longrightarrow> \<not> is_blank (hd xs)" for xs
    using that by (cases xs) auto
  have "dropWhile is_blank t = t" "dropWhile is_blank (rev t) = rev t"
    using d [of t] d [of "rev t"] assms by (auto simp: hd_rev)
  then show ?thesis by (simp add: clks_user_trim_def)
qed

lemma trim_newline:
  assumes "t \<noteq> []" "\<not> is_blank (hd t)" "\<not> is_blank (last t)"
  shows "clks_user_trim (t @ [CHR 0x0A]) = t"
proof -
  have "dropWhile is_blank (t @ [CHR 0x0A]) = t @ [CHR 0x0A]" using assms by (cases t) auto
  moreover have "dropWhile is_blank (rev t) = rev t" using assms by (cases t rule: rev_cases) auto
  ultimately show ?thesis by (simp add: clks_user_trim_def is_blank_def)
qed

lemma next_field_colon: "CHR '':'' \<notin> set f \<Longrightarrow> clks_user_next_field (Some (f @ '':'' @ t)) = (Some f, Some t)"
  by (induction f) (auto simp: clks_user_next_field_def Let_def split: if_splits)

lemma next_field_last: "CHR '':'' \<notin> set f \<Longrightarrow> clks_user_next_field (Some f) = (Some f, None)"
  by (simp add: clks_user_next_field_def Let_def takeWhile_eq_all_conv dropWhile_eq_Nil_conv)

lemma record_text_ends:
  assumes "record_ok r"
  shows "record_text r \<noteq> []" "hd (record_text r) = hd (ur_name r)" "last (record_text r) = last (dec_text (ur_uid r))"
    "\<not> is_blank (hd (record_text r))" "\<not> is_blank (last (record_text r))" "hd (record_text r) \<noteq> CHR ''#''"
    "\<forall>c \<in> set (record_text r). c \<noteq> CHR 0x0A \<and> c \<noteq> CHR 0x00"
proof -
  have n: "ur_name r \<noteq> []" "\<forall>c \<in> set (ur_name r). field_char c \<and> \<not> is_blank c \<and> c \<noteq> CHR ''#''"
    using assms name_valid_D by (auto simp: record_ok_def)
  have d: "\<forall>c \<in> set (dec_text (ur_uid r)). field_char c \<and> \<not> is_blank c"
    using dec_text_digits digit_field by blast
  show "record_text r \<noteq> []" using n by (simp add: record_text_def)
  show h: "hd (record_text r) = hd (ur_name r)" using n by (simp add: record_text_def)
  show l: "last (record_text r) = last (dec_text (ur_uid r))" using dec_text_nonempty by (simp add: record_text_def)
  show "\<not> is_blank (hd (record_text r))" "hd (record_text r) \<noteq> CHR ''#''" using h n by auto
  show "\<not> is_blank (last (record_text r))" using l d dec_text_nonempty by simp
  show "\<forall>c \<in> set (record_text r). c \<noteq> CHR 0x0A \<and> c \<noteq> CHR 0x00"
  proof -
    have f: "\<forall>c \<in> set (ur_hash r). field_char c" "\<forall>c \<in> set (ur_home r). field_char c"
      using assms by (simp_all add: record_ok_def list_all_iff)
    have r: "\<forall>c \<in> set (if ur_role r = CLKS_USER_ROLE_ADMIN then ''admin'' else ''user''). field_char c"
      by (simp add: field_char_def)
    have "\<forall>c \<in> set (record_text r). c = CHR '':'' \<or> field_char c"
    proof -
      have w: "\<forall>c \<in> A. c = CHR '':'' \<or> field_char c" if "\<forall>c \<in> A. field_char c" for A using that by blast
      have sep: "\<forall>c \<in> set '':''. c = CHR '':'' \<or> field_char c" by simp
      have nn: "\<forall>c \<in> set (ur_name r). field_char c" using n(2) by blast
      have dd: "\<forall>c \<in> set (dec_text (ur_uid r)). field_char c" using d by blast
      show ?thesis unfolding record_text_def set_append ball_Un
        by (intro conjI sep w [OF f(1)] w [OF f(2)] w [OF r] w [OF nn] w [OF dd])
    qed
    moreover have "c \<noteq> CHR 0x0A \<and> c \<noteq> CHR 0x00" if "c = CHR '':'' \<or> field_char c" for c
      using that by (auto simp: field_char_def)
    ultimately show ?thesis by (simp only: Ball_def) blast
  qed
qed

lemma parse_record_text:
  assumes ok: "record_ok r" and tr: "clks_user_trim (clks_user_copy CLKS_USER_RECORD_MAX line) = record_text r"
  shows "clks_user_parse_record line = Some r"
proof -
  note e = record_text_ends [OF ok]
  have n: "clks_user_name_valid (Some (ur_name r))" and role: "ur_role r \<in> {CLKS_USER_ROLE_USER, CLKS_USER_ROLE_ADMIN}"
    and hash: "length (ur_hash r) = CLKS_USER_HASH_HEX_LEN" "CHR '':'' \<notin> set (ur_hash r)"
    and home: "ur_home r \<noteq> []" "hd (ur_home r) = slash" "CHR '':'' \<notin> set (ur_home r)"
      "length (ur_home r) < CLKS_USER_HOME_MAX" "clks_user_trim (ur_home r) = ur_home r"
    using ok by (auto simp: record_ok_def list_all_iff field_char_def)
  have nc: "CHR '':'' \<notin> set (ur_name r)" "length (ur_name r) < CLKS_USER_NAME_MAX"
    using name_valid_D [OF n] by (auto simp: field_char_def user_sizes)
  have uc: "CHR '':'' \<notin> set (dec_text (ur_uid r))" "\<forall>c \<in> set (dec_text (ur_uid r)). \<not> is_blank c"
    using dec_text_digits digit_field by (fastforce simp: field_char_def)+
  let ?u = "dec_text (ur_uid r)" and ?role = "if ur_role r = CLKS_USER_ROLE_ADMIN then ''admin'' else ''user''"
  have ut: "clks_user_trim ?u = ?u" using uc(2) by (intro trim_id) auto
  have f: "clks_user_next_field (Some (record_text r)) = (Some (ur_name r), Some (?role @ '':'' @ ur_hash r @ '':'' @ ur_home r @ '':'' @ ?u))"
    unfolding record_text_def by (rule next_field_colon [OF nc(1)])
  have f1: "clks_user_next_field (Some (?role @ '':'' @ t)) = (Some ?role, Some t)" for t
    by (rule next_field_colon) simp
  have role': "(if ?role = ''admin'' \<or> ?role = ''root'' then CLKS_USER_ROLE_ADMIN else CLKS_USER_ROLE_USER) = ur_role r"
    using role by auto
  have "clks_user_parse_record line = Some \<lparr>ur_uid = ur_uid r, ur_role = ur_role r,
      ur_name = clks_user_copy CLKS_USER_NAME_MAX (ur_name r), ur_hash = clks_user_copy (CLKS_USER_HASH_HEX_LEN + 1) (ur_hash r),
      ur_home = clks_user_copy CLKS_USER_HOME_MAX (ur_home r)\<rparr>"
    unfolding clks_user_parse_record_def Let_def tr f f1 prod.case next_field_colon [OF hash(2)] next_field_colon [OF home(3)]
      next_field_last [OF uc(1)] option.sel option.map ut home(5) role'
    using e(1,6) n hash(1) home(1,2) dec_text_nonempty [of "ur_uid r"] by (simp add: parse_dec_text)
  moreover have "clks_user_copy CLKS_USER_NAME_MAX (ur_name r) = ur_name r"
    "clks_user_copy (CLKS_USER_HASH_HEX_LEN + 1) (ur_hash r) = ur_hash r"
    "clks_user_copy CLKS_USER_HOME_MAX (ur_home r) = ur_home r"
    using nc(2) hash(1) home(4) by (simp_all add: clks_user_copy_def)
  ultimately show ?thesis by simp
qed

lemma record_line_ok: "record_ok r \<Longrightarrow> clks_user_record_line r CLKS_USER_RECORD_MAX = record_text r @ [CHR 0x0A]"
  unfolding record_line_take by (rule take_all) (simp add: record_ok_def user_sizes)

lemma parse_printed:
  assumes "record_ok r"
  shows "clks_user_parse_record (record_text r) = Some r" "clks_user_parse_record (record_text r @ [CHR 0x0A]) = Some r"
proof -
  note e = record_text_ends [OF assms]
  have l: "length (record_text r) + 1 < CLKS_USER_RECORD_MAX" using assms by (simp add: record_ok_def)
  have c: "clks_user_copy CLKS_USER_RECORD_MAX (record_text r) = record_text r"
    "clks_user_copy CLKS_USER_RECORD_MAX (record_text r @ [CHR 0x0A]) = record_text r @ [CHR 0x0A]"
    using l by (simp_all add: clks_user_copy_def user_sizes)
  show "clks_user_parse_record (record_text r) = Some r"
    by (rule parse_record_text [OF assms]) (use trim_id [of "record_text r"] e c in simp)
  show "clks_user_parse_record (record_text r @ [CHR 0x0A]) = Some r"
    by (rule parse_record_text [OF assms]) (use trim_newline [of "record_text r"] e c in simp)
qed
section \<open>Databases as lines\<close>

abbreviation newline :: char where "newline \<equiv> CHR 0x0A"

definition text_of :: "string list \<Rightarrow> string" where
  "text_of ls = concat (map (\<lambda>l. l @ [newline]) ls)"

definition no_newline :: "string \<Rightarrow> bool" where
  "no_newline l \<longleftrightarrow> newline \<notin> set l"

definition line_records :: "string list \<Rightarrow> clks_user_record list" where
  "line_records ls = List.map_filter (\<lambda>p. clks_user_parse_record (snd (piece_line p))) ls"

lemma line_records_simps [simp]:
  "line_records [] = []"
  "line_records (l # ls) = (case clks_user_parse_record (snd (piece_line l)) of None \<Rightarrow> [] | Some r \<Rightarrow> [r]) @ line_records ls"
  by (simp_all add: line_records_def List.map_filter_simps split: option.split)

lemma line_records_append [simp]: "line_records (ls @ ms) = line_records ls @ line_records ms"
  by (induction ls) simp_all

lemma line_records_empty: "line_records [[]] = []"
  by (simp add: piece_line_def clks_user_parse_record_def clks_user_copy_def clks_user_trim_def)

lemma db_records_lines: "db_records db = line_records (db_pieces db)"
  by (simp add: db_records_def line_records_def)

lemma text_of_simps [simp]: "text_of [] = []" "text_of (l # ls) = l @ newline # text_of ls" "text_of (ls @ ms) = text_of ls @ text_of ms"
  by (simp_all add: text_of_def)

lemma db_pieces_nonempty [simp]: "db_pieces db \<noteq> []"
  by (induction db) (simp_all split: list.split)

lemma db_pieces_line: "no_newline l \<Longrightarrow> db_pieces (l @ newline # t) = l # db_pieces t"
  by (induction l) (auto simp: no_newline_def)

lemma db_pieces_text: "list_all no_newline ls \<Longrightarrow> db_pieces (text_of ls @ t) = ls @ db_pieces t"
  by (induction ls) (simp_all add: db_pieces_line)

lemma db_pieces_no_newline: "list_all no_newline (db_pieces db)"
  by (induction db) (auto simp: no_newline_def split: list.split)

lemma db_records_text: "list_all no_newline ls \<Longrightarrow> db_records (text_of ls @ t) = line_records ls @ db_records t"
  by (simp add: db_records_lines db_pieces_text)

lemma db_records_complete: "list_all no_newline ls \<Longrightarrow> db_records (text_of ls) = line_records ls"
  using db_records_text [of ls "[]"] line_records_empty by (simp add: db_records_lines)

lemma piece_line_line:
  assumes "piece_line p = (n, l)"
  shows "snd (piece_line l) = l" "length l \<le> n" "length l < 192" "no_newline p \<Longrightarrow> no_newline l" "n < 192"
proof -
  have l: "l = takeWhile (\<lambda>c. c \<noteq> CHR 0x00) (take n p)" "n = (if length p \<ge> 192 then 191 else length p)"
    using assms [unfolded piece_line_def user_sizes Let_def] by auto
  have le: "length l \<le> n" unfolding l(1) using length_takeWhile_le [of "\<lambda>c. c \<noteq> CHR 0x00" "take n p"] by simp
  then show "length l \<le> n" .
  show n: "n < 192" using l(2) by simp
  with le show s: "length l < 192" by simp
  have z: "\<forall>c \<in> set l. c \<noteq> CHR 0x00" unfolding l(1) by (blast dest: set_takeWhileD)
  have "takeWhile (\<lambda>c. c \<noteq> CHR 0x00) l = l" using z by (simp add: takeWhile_eq_all_conv)
  with s show "snd (piece_line l) = l" by (simp add: piece_line_def user_sizes)
  show "no_newline l" if "no_newline p"
    using that unfolding l(1) no_newline_def by (meson in_set_takeD set_takeWhileD)
qed

section \<open>Rewriting the database\<close>

text \<open>What a rewrite does to a record.\<close>

definition record_update :: "clks_user_record option \<Rightarrow> string option \<Rightarrow> clks_user_record \<Rightarrow> clks_user_record list" where
  "record_update replace_record remove_name r =
     (if remove_name = Some (ur_name r) then []
      else case replace_record of None \<Rightarrow> [r] | Some q \<Rightarrow> if ur_name r = ur_name q then [q] else [r])"

definition record_hit :: "clks_user_record option \<Rightarrow> string option \<Rightarrow> clks_user_record \<Rightarrow> bool" where
  "record_hit replace_record remove_name r \<longleftrightarrow>
     remove_name = Some (ur_name r) \<or> (\<exists>q. replace_record = Some q \<and> ur_name q = ur_name r)"

definition rewrite_acc :: "string list \<Rightarrow> string \<times> nat \<times> bool \<Rightarrow> bool" where
  "rewrite_acc ls acc \<longleftrightarrow> (case acc of (next_db, next_len, found) \<Rightarrow>
     next_db = text_of ls \<and> list_all no_newline ls \<and> length next_db \<le> next_len \<and> next_len < 4096)"

lemma append_fits: "length t + length u < 4096 \<Longrightarrow> clks_user_append 4096 t u = t @ u"
  unfolding user_append_take by (rule take_all) simp

lemma rewrite_piece_spec:
  assumes acc: "rewrite_acc ls (t, n, f)" and q: "\<And>q. rep = Some q \<Longrightarrow> record_ok q" and p: "no_newline p"
    and run: "rewrite_piece rep rem p (t, n, f) = Some (t', n', f')"
  shows "\<exists>ms. rewrite_acc (ls @ ms) (t', n', f') \<and>
    line_records ms = concat (map (record_update rep rem) (line_records [p])) \<and>
    f' = (f \<or> (\<exists>r \<in> set (line_records [p]). record_hit rep rem r))"
proof -
  obtain k l where pl: "piece_line p = (k, l)" by fastforce
  note line = piece_line_line [OF pl]
  have a: "t = text_of ls" "list_all no_newline ls" "length t \<le> n" "n < 4096"
    using acc by (auto simp: rewrite_acc_def)
  have rec: "line_records [l] = line_records [p]" using line(1) pl by simp
  define emit where "emit = (if l \<noteq> [] then
      if n + k + 2 \<ge> 4096 then None
      else Some (clks_user_append 4096 (clks_user_append 4096 t l) [newline], n + k + 1, f)
    else Some (t, n, f))"
  have kept: "\<exists>ms. rewrite_acc (ls @ ms) (t', n', f') \<and> line_records ms = line_records [p] \<and> f' = f"
    if e: "emit = Some (t', n', f')"
  proof (cases "l = []")
    case True
    then have "line_records [p] = []" using rec line_records_empty by simp
    with True e acc show ?thesis by (intro exI [of _ "[]"]) (simp add: emit_def)
  next
    case False
    with e have b: "n + k + 2 < 4096" "t' = clks_user_append 4096 (clks_user_append 4096 t l) [newline]"
      "n' = n + k + 1" "f' = f" by (auto simp: emit_def split: if_splits)
    have "clks_user_append 4096 t l = t @ l" using a(3) b(1) line(2) by (intro append_fits) linarith
    moreover have "clks_user_append 4096 (t @ l) [newline] = (t @ l) @ [newline]"
      using a(3) b(1) line(2) by (intro append_fits) simp
    ultimately have "t' = t @ l @ [newline]" using b(2) by simp
    with a b(1,3,4) line(2,4) p rec show ?thesis by (intro exI [of _ "[l]"]) (simp add: rewrite_acc_def)
  qed
  have run': "(case clks_user_parse_record l of None \<Rightarrow> emit
     | Some r \<Rightarrow> if rem = Some (ur_name r) then Some (t, n, True)
         else (case rep of None \<Rightarrow> emit
           | Some q \<Rightarrow> if ur_name r \<noteq> ur_name q then emit
               else let record_line = clks_user_record_line q CLKS_USER_RECORD_MAX in
                 if n + length record_line + 1 \<ge> 4096 then None
                 else Some (clks_user_append 4096 t record_line, n + length record_line, True))) = Some (t', n', f')"
    using run by (simp only: rewrite_piece_def prod.case pl Let_def emit_def)
  show ?thesis
  proof (cases "clks_user_parse_record l")
    case None
    with run' have "emit = Some (t', n', f')" by simp
    with kept None pl show ?thesis by fastforce
  next
    case (Some r)
    then have one: "line_records [p] = [r]" using pl by simp
    consider (rem) "rem = Some (ur_name r)" | (rep) q where "rem \<noteq> Some (ur_name r)" "rep = Some q" "ur_name r = ur_name q"
      | (keep) "rem \<noteq> Some (ur_name r)" "\<And>q. rep = Some q \<Longrightarrow> ur_name r \<noteq> ur_name q" by blast
    then show ?thesis
    proof cases
      case rem
      with run' Some have "t' = t" "n' = n" "f' = True" by auto
      with rem a one show ?thesis
        by (intro exI [of _ "[]"]) (simp add: rewrite_acc_def record_update_def record_hit_def)
    next
      case rep
      note okq = q [OF rep(2)]
      note line_q = record_line_ok [OF okq]
      have b: "n + length (record_text q) + 2 < 4096" "t' = clks_user_append 4096 t (record_text q @ [newline])"
        "n' = n + length (record_text q) + 1" "f' = True"
        using run' Some rep by (auto simp: line_q Let_def split: if_splits)
      have t': "t' = t @ record_text q @ [newline]" unfolding b(2) using a(3) b(1) by (intro append_fits) simp
      have nn: "no_newline (record_text q)" "\<forall>c \<in> set (record_text q). c \<noteq> CHR 0x00"
        using record_text_ends(7) [OF okq] by (auto simp: no_newline_def)
      have "length (record_text q) < 191" using okq by (simp add: record_ok_def user_sizes)
      then have "snd (piece_line (record_text q)) = record_text q"
        using nn(2) by (simp add: piece_line_def user_sizes takeWhile_eq_all_conv)
      then have "line_records [record_text q] = [q]" using parse_printed(1) [OF okq] by simp
      with a b(1,3,4) t' nn(1) one rep show ?thesis
        by (intro exI [of _ "[record_text q]"]) (simp add: rewrite_acc_def record_update_def record_hit_def)
    next
      case keep
      then have "emit = Some (t', n', f')" using run' Some by (cases rep) simp_all
      from kept [OF this] keep one show ?thesis by (auto simp: record_update_def record_hit_def split: option.split)
    qed
  qed
qed

lemma rewrite_loop_spec:
  assumes "rewrite_acc ls (t, n, f)" "\<And>q. rep = Some q \<Longrightarrow> record_ok q" "list_all no_newline ps"
    "rewrite_loop rep rem ps (t, n, f) = Some (t', n', f')"
  shows "\<exists>ms. rewrite_acc (ls @ ms) (t', n', f') \<and>
    line_records ms = concat (map (record_update rep rem) (line_records ps)) \<and>
    f' = (f \<or> (\<exists>r \<in> set (line_records ps). record_hit rep rem r))"
  using assms
proof (induction ps arbitrary: ls t n f)
  case Nil
  then show ?case by (intro exI [of _ "[]"]) auto
next
  case (Cons p ps)
  obtain t1 n1 f1 where p: "rewrite_piece rep rem p (t, n, f) = Some (t1, n1, f1)"
    and r: "rewrite_loop rep rem ps (t1, n1, f1) = Some (t', n', f')"
    using Cons.prems(4) by (auto simp: bind_eq_Some_conv)
  obtain ms where m: "rewrite_acc (ls @ ms) (t1, n1, f1)"
    "line_records ms = concat (map (record_update rep rem) (line_records [p]))"
    "f1 = (f \<or> (\<exists>r \<in> set (line_records [p]). record_hit rep rem r))"
    using rewrite_piece_spec [OF Cons.prems(1,2) _ p] Cons.prems(3) by auto
  obtain ks where k: "rewrite_acc ((ls @ ms) @ ks) (t', n', f')"
    "line_records ks = concat (map (record_update rep rem) (line_records ps))"
    "f' = (f1 \<or> (\<exists>r \<in> set (line_records ps). record_hit rep rem r))"
    using Cons.IH [OF m(1) Cons.prems(2) _ r] Cons.prems(3) by auto
  have s: "line_records (p # ps) = line_records [p] @ line_records ps" by simp
  show ?case unfolding s by (intro exI [of _ "ms @ ks"]) (use k m in \<open>auto simp del: line_records_simps\<close>)
qed

lemma rewrite_records:
  assumes "\<And>q. rep = Some q \<Longrightarrow> record_ok q"
    "rewrite_loop rep rem (db_pieces db) ([], 0, False) = Some (t, n, f)"
  shows "db_records t = concat (map (record_update rep rem) (db_records db))"
    "f = (\<exists>r \<in> set (db_records db). record_hit rep rem r)" "length t < 4096"
    "\<exists>ls. t = text_of ls \<and> list_all no_newline ls"
proof -
  obtain ms where m: "rewrite_acc ms (t, n, f)"
    "line_records ms = concat (map (record_update rep rem) (line_records (db_pieces db)))"
    "f = (\<exists>r \<in> set (line_records (db_pieces db)). record_hit rep rem r)"
    using rewrite_loop_spec [OF _ assms(1) db_pieces_no_newline assms(2), of "[]"] by (auto simp: rewrite_acc_def)
  then show "db_records t = concat (map (record_update rep rem) (db_records db))"
    "f = (\<exists>r \<in> set (db_records db). record_hit rep rem r)" "length t < 4096"
    "\<exists>ls. t = text_of ls \<and> list_all no_newline ls"
    using db_records_complete [of ms] by (auto simp: rewrite_acc_def db_records_lines)
qed
section \<open>Operations over a store\<close>

text \<open>The contents of the database file as the loops read it, and the records in it.\<close>

definition db_text :: "u8 list option \<Rightarrow> string option" where
  "db_text bytes = (case bytes of None \<Rightarrow> None
     | Some bs \<Rightarrow> if length bs + 1 > 4096 then None else Some (map (\<lambda>b. char_of (unat b)) bs))"

definition accounts :: "u8 list option \<Rightarrow> clks_user_record list" where
  "accounts bytes = (case db_text bytes of None \<Rightarrow> [] | Some db \<Rightarrow> db_records db)"

definition same_login :: "'d user_state \<Rightarrow> 'd user_state \<Rightarrow> bool" where
  "same_login s s' \<longleftrightarrow> us_proc s' = us_proc s \<and> clks_user_disk_login_required s' = clks_user_disk_login_required s"

lemma same_login_simps [simp]: "same_login s s" "same_login s (s1\<lparr>us_fs := fs\<rparr>) \<longleftrightarrow> same_login s s1"
  by (simp_all add: same_login_def)

lemma same_login_trans: "same_login s s1 \<Longrightarrow> same_login s1 s2 \<Longrightarrow> same_login s s2"
  by (simp add: same_login_def)

lemma bytes_of_text [simp]: "length (bytes_of t) = length t" "map (\<lambda>b. char_of (unat b)) (bytes_of t) = t"
proof -
  have "char_of (unat (of_char c :: u8)) = c" for c :: char
  proof -
    have "(of_char c :: nat) < 256" by (metis of_char_mod_256 mod_less_divisor zero_less_numeral)
    moreover have "unat (of_char c :: u8) = (of_char c :: nat)"
    proof -
      have "(of_char c :: u8) = of_nat (of_char c)" by (simp add: of_nat_of_char)
      with \<open>(of_char c :: nat) < 256\<close> show ?thesis by (simp add: unat_of_nat)
    qed
    ultimately show ?thesis by simp
  qed
  then show "map (\<lambda>b. char_of (unat b)) (bytes_of t) = t" by (simp add: bytes_of_def comp_def)
  show "length (bytes_of t) = length t" by (simp add: bytes_of_def)
qed

text \<open>What the user database relies on in the file system, with the states it holds in.\<close>

locale account_store =
  fixes dk :: "'d disk_ops" and good :: "'d fs_state \<Rightarrow> bool" and stored :: "'d fs_state \<Rightarrow> u8 list option"
  assumes read_law: "good s \<Longrightarrow>
      \<exists>s'. clks_fs_read_all dk (Some CLKS_USER_DB_PATH) s = (stored s, s') \<and> good s' \<and> stored s' = stored s"
    and stat_law: "good s \<Longrightarrow>
      (\<exists>i. clks_fs_stat dk (Some CLKS_USER_DB_PATH) s = Some i \<and> ni_type i = FS_NODE_FILE) \<longleftrightarrow> stored s \<noteq> None"
    and write_law: "good s \<Longrightarrow> n \<le> length bs \<Longrightarrow> n < 4096 \<Longrightarrow>
      \<exists>ok s'. clks_fs_write_all dk (Some CLKS_USER_DB_PATH) (Some bs) n s = Some (ok, s') \<and> good s' \<and>
        stored s' = (if ok then Some (take n bs) else stored s)"
    and append_law: "good s \<Longrightarrow> stored s = Some old \<Longrightarrow> length old + length bs < 4294967296 \<Longrightarrow>
      \<exists>ok s'. clks_fs_append dk (Some CLKS_USER_DB_PATH) (Some bs) (length bs) s = Some (ok, s') \<and> good s' \<and>
        stored s' = (if ok then Some (old @ bs) else stored s)"
    and mkdir_law: "good s \<Longrightarrow> clks_fs_mkdir dk (Some p) s = (ok, s') \<Longrightarrow> good s' \<and> stored s' = stored s"
begin

lemma read_db:
  assumes "good (us_fs s)"
  obtains fs where "clks_user_read_db dk 4096 s = (db_text (stored (us_fs s)), s\<lparr>us_fs := fs\<rparr>)"
    "good fs" "stored fs = stored (us_fs s)"
proof -
  obtain fs where "clks_fs_read_all dk (Some CLKS_USER_DB_PATH) (us_fs s) = (stored (us_fs s), fs)" "good fs"
    "stored fs = stored (us_fs s)" using read_law [OF assms] by blast
  then show thesis by (intro that [of fs]) (auto simp: clks_user_read_db_def db_text_def split: option.split)
qed

lemma find_account:
  assumes "good (us_fs s)"
  obtains fs where "clks_user_find dk name s =
      (if clks_user_name_valid name then find (\<lambda>r. Some (ur_name r) = name) (accounts (stored (us_fs s))) else None,
       s\<lparr>us_fs := fs\<rparr>)"
    "good fs" "stored fs = stored (us_fs s)"
proof (cases "clks_user_name_valid name")
  case True
  obtain fs where fs: "clks_user_read_db dk 4096 s = (db_text (stored (us_fs s)), s\<lparr>us_fs := fs\<rparr>)"
    "good fs" "stored fs = stored (us_fs s)" by (rule read_db [OF assms])
  with True show thesis
    by (intro that [of fs]) (auto simp: clks_user_find_def accounts_def split: option.split)
next
  case False
  with assms show thesis by (intro that [of "us_fs s"]) (simp_all add: clks_user_find_def)
qed

lemma rewrite_accounts:
  assumes "good (us_fs s)" "\<And>q. rep = Some q \<Longrightarrow> record_ok q"
  shows "\<exists>ok s'. clks_user_db_rewrite_with dk rep rem s = Some (ok, s') \<and> good (us_fs s') \<and> same_login s s' \<and>
    (if ok then accounts (stored (us_fs s')) = concat (map (record_update rep rem) (accounts (stored (us_fs s)))) \<and>
       (\<exists>r \<in> set (accounts (stored (us_fs s))). record_hit rep rem r)
     else stored (us_fs s') = stored (us_fs s))"
proof -
  obtain fs where fs: "clks_user_read_db dk 4096 s = (db_text (stored (us_fs s)), s\<lparr>us_fs := fs\<rparr>)"
    "good fs" "stored fs = stored (us_fs s)" by (rule read_db [OF assms(1)])
  show ?thesis
  proof (cases "db_text (stored (us_fs s))")
    case None
    with fs show ?thesis by (intro exI [of _ False]) (simp add: clks_user_db_rewrite_with_def)
  next
    case (Some db)
    show ?thesis
    proof (cases "rewrite_loop rep rem (db_pieces db) ([], 0, False)")
      case None
      with fs Some show ?thesis by (intro exI [of _ False]) (simp add: clks_user_db_rewrite_with_def)
    next
      case run: (Some a)
      obtain t n f where a: "a = (t, n, f)" by (cases a)
      note t = rewrite_records [OF assms(2) run [unfolded a]]
      have acc: "accounts (stored (us_fs s)) = db_records db" using Some by (simp add: accounts_def)
      show ?thesis
      proof (cases f)
        case False
        with fs Some run a show ?thesis by (intro exI [of _ False]) (simp add: clks_user_db_rewrite_with_def)
      next
        case True
        obtain ok fs' where w: "clks_fs_write_all dk (Some CLKS_USER_DB_PATH) (Some (bytes_of t)) (length t) fs = Some (ok, fs')"
          "good fs'" "stored fs' = (if ok then Some (take (length t) (bytes_of t)) else stored fs)"
          using write_law [OF fs(2), of "length t" "bytes_of t"] t(3) by auto
        have "accounts (Some (take (length t) (bytes_of t))) = db_records t"
          using t(3) by (simp add: accounts_def db_text_def)
        with fs Some run a True w t acc show ?thesis
          by (intro exI [of _ ok]) (simp add: clks_user_db_rewrite_with_def fs_call_def)
      qed
    qed
  qed
qed

end
section \<open>New accounts\<close>

text \<open>A database that ends behind a line, which appending a line to it needs.\<close>

definition complete_text :: "string \<Rightarrow> bool" where
  "complete_text t \<longleftrightarrow> t = [] \<or> last t = newline"

lemma pieces_text: "text_of (butlast (db_pieces t)) @ last (db_pieces t) = t"
proof (induction t)
  case (Cons c t)
  then show ?case by (cases "db_pieces t" rule: list.exhaust [of _ "?case"]) (auto split: list.split)
qed simp

lemma complete_lines:
  assumes "complete_text t"
  shows "text_of (butlast (db_pieces t)) = t" "list_all no_newline (butlast (db_pieces t))"
proof -
  have n: "list_all no_newline (db_pieces t)" by (rule db_pieces_no_newline)
  then show "list_all no_newline (butlast (db_pieces t))" by (auto simp: list_all_iff dest: in_set_butlastD)
  have l: "no_newline (last (db_pieces t))" using n last_in_set [of "db_pieces t"] by (simp add: list_all_iff)
  have "last (db_pieces t) = []"
  proof (rule ccontr)
    assume ne: "last (db_pieces t) \<noteq> []"
    then have "last t = last (last (db_pieces t))" "t \<noteq> []" using pieces_text [of t] by (metis last_appendR, metis append_is_Nil_conv)
    with assms have "last (last (db_pieces t)) = newline" by (simp add: complete_text_def)
    with ne l show False using last_in_set [OF ne] by (simp add: no_newline_def)
  qed
  then show "text_of (butlast (db_pieces t)) = t" using pieces_text [of t] by simp
qed

lemma db_records_append:
  assumes "complete_text t"
  shows "db_records (t @ u) = db_records t @ db_records u"
proof -
  note c = complete_lines [OF assms]
  have "db_records (t @ u) = line_records (butlast (db_pieces t)) @ db_records u"
    using db_records_text [OF c(2), of u] by (simp add: c(1))
  moreover have "db_records t = line_records (butlast (db_pieces t))"
    using db_records_complete [OF c(2)] by (simp add: c(1))
  ultimately show ?thesis by simp
qed

lemma db_records_line: "record_ok r \<Longrightarrow> db_records (record_text r @ [newline]) = [r]"
proof -
  assume r: "record_ok r"
  have nn: "no_newline (record_text r)" "\<forall>c \<in> set (record_text r). c \<noteq> CHR 0x00"
    using record_text_ends(7) [OF r] by (auto simp: no_newline_def)
  have "length (record_text r) < 191" using r by (simp add: record_ok_def user_sizes)
  then have "snd (piece_line (record_text r)) = record_text r"
    using nn(2) by (simp add: piece_line_def user_sizes takeWhile_eq_all_conv)
  then show ?thesis
    using db_records_complete [of "[record_text r]"] nn(1) parse_printed(1) [OF r] by simp
qed

text \<open>The record that \<open>clks_user_create\<close> builds.\<close>

definition new_record :: "string \<Rightarrow> string \<Rightarrow> u64 \<Rightarrow> clks_user_record" where
  "new_record name password role =
     \<lparr>ur_uid = clks_user_uid_for_name name,
      ur_role = (if role = CLKS_USER_ROLE_ADMIN then CLKS_USER_ROLE_ADMIN else CLKS_USER_ROLE_USER),
      ur_name = name, ur_hash = clks_user_hash_password (Some password), ur_home = ''/home/'' @ name\<rparr>"

lemma dec_loop_length: "unat v < 10 ^ k \<Longrightarrow> length (dec_loop v n) \<le> k"
proof (induction k arbitrary: v n)
  case 0
  then have "v = 0" by (simp add: unat_eq_zero)
  then show ?case by (simp add: dec_loop.simps)
next
  case (Suc k)
  show ?case
  proof (cases "v \<noteq> 0 \<and> n < 32")
    case True
    have "unat (v div 10) < 10 ^ k"
      using Suc.prems by (simp add: unat_div_distrib less_mult_imp_div_less mult.commute)
    then have "length (dec_loop (v div 10) (n + 1)) \<le> k" by (rule Suc.IH)
    then show ?thesis by (subst dec_loop.simps) simp
  next
    case False
    then show ?thesis by (subst dec_loop.simps) auto
  qed
qed

lemma dec_text_length: "length (dec_text v) \<le> 20"
proof -
  have "unat v < 10 ^ 20" using u64_bound [of v] by simp
  then show ?thesis using dec_loop_length [of v 20 0] by (simp add: dec_text_def)
qed

lemma new_record_fields:
  assumes "clks_user_name_valid (Some name)"
  shows "\<lparr>ur_uid = clks_user_uid_for_name name,
      ur_role = (if role = CLKS_USER_ROLE_ADMIN then CLKS_USER_ROLE_ADMIN else CLKS_USER_ROLE_USER),
      ur_name = clks_user_copy CLKS_USER_NAME_MAX name, ur_hash = clks_user_hash_password (Some password),
      ur_home = clks_user_home_for CLKS_USER_HOME_MAX name\<rparr> = new_record name password role"
  using name_valid_D(2) [OF assms]
  by (simp add: new_record_def clks_user_copy_def clks_user_home_for_def user_append_take user_sizes)

lemma new_record_ok:
  assumes "clks_user_name_valid (Some name)"
  shows "record_ok (new_record name password role)"
proof -
  note n = name_valid_D [OF assms]
  have hash: "length (clks_user_hash_password (Some password)) = 64"
    "list_all field_char (clks_user_hash_password (Some password))"
  proof -
    show "length (clks_user_hash_password (Some password)) = 64" by (rule hash_password_shape)
    have "\<forall>c \<in> set ''0123456789abcdef''. field_char c" by (simp add: field_char_def)
    then show "list_all field_char (clks_user_hash_password (Some password))"
      using hash_password_shape(2) [of _ "Some password"] by (auto simp: list_all_iff simp del: set_simps)
  qed
  have home: "list_all field_char (''/home/'' @ name)"
    using n(3) by (simp add: list_all_iff field_char_def)
  have "\<not> is_blank (last name)" using n(1,3) by simp
  then have trim: "clks_user_trim (''/home/'' @ name) = ''/home/'' @ name"
    using n(1) by (intro trim_id) (simp_all add: is_blank_def)
  have "length (record_text (new_record name password role)) < 191"
    using n(2) dec_text_length [of "clks_user_uid_for_name name"] hash(1) by (simp add: record_text_def new_record_def)
  with assms n(2) hash home trim show ?thesis
    by (simp add: record_ok_def new_record_def user_sizes)
qed

context account_store
begin

lemma ensure_db:
  assumes "good (us_fs s)"
  shows "\<exists>ok s'. clks_user_db_ensure dk s = Some (ok, s') \<and> good (us_fs s') \<and> same_login s s' \<and>
    stored (us_fs s') = (if stored (us_fs s) = None \<and> ok then Some [] else stored (us_fs s)) \<and>
    (ok \<longrightarrow> stored (us_fs s') \<noteq> None)"
proof (cases "stored (us_fs s) = None")
  case True
  then have st: "\<not> (\<exists>i. clks_fs_stat dk (Some CLKS_USER_DB_PATH) (us_fs s) = Some i \<and> ni_type i = FS_NODE_FILE)"
    using stat_law [OF assms] by blast
  obtain ok fs where w: "clks_fs_write_all dk (Some CLKS_USER_DB_PATH) (Some [0]) 0 (us_fs s) = Some (ok, fs)"
    "good fs" "stored fs = (if ok then Some (take 0 [0]) else stored (us_fs s))"
    using write_law [OF assms, of 0 "[0]"] by auto
  from st have "clks_user_db_ensure dk s = fs_call (clks_fs_write_all dk (Some CLKS_USER_DB_PATH) (Some [0]) 0) s"
    by (auto simp: clks_user_db_ensure_def split: option.split)
  with w True show ?thesis by (intro exI [of _ ok]) (simp add: fs_call_def)
next
  case False
  then obtain i where "clks_fs_stat dk (Some CLKS_USER_DB_PATH) (us_fs s) = Some i" "ni_type i = FS_NODE_FILE"
    using stat_law [OF assms] by blast
  with False assms show ?thesis by (intro exI [of _ True]) (simp add: clks_user_db_ensure_def)
qed

lemma create_account:
  assumes g: "good (us_fs s)" and adm: "clks_user_current_is_admin s" and nm: "clks_user_name_valid (Some name)"
    and pw: "password \<noteq> []" and old: "old = (case stored (us_fs s) of None \<Rightarrow> [] | Some bs \<Rightarrow> bs)"
    and small: "length old < 4294966000"
  shows "\<exists>ok s'. clks_user_create dk (Some name) (Some password) role s = Some (ok, s') \<and> good (us_fs s') \<and> same_login s s' \<and>
    (if ok then stored (us_fs s') = Some (old @ bytes_of (record_text (new_record name password role) @ [newline])) \<and>
       (\<forall>r \<in> set (accounts (Some old)). ur_name r \<noteq> name)
     else stored (us_fs s') \<in> {stored (us_fs s), Some old})"
proof -
  let ?r = "new_record name password role"
  let ?line = "record_text ?r @ [newline]"
  have okr: "record_ok ?r" by (rule new_record_ok [OF nm])
  have line: "clks_user_record_line ?r CLKS_USER_RECORD_MAX = ?line" by (rule record_line_ok [OF okr])
  have len: "length ?line < 192" using okr by (simp add: record_ok_def user_sizes)
  obtain ok1 s1 where e: "clks_user_db_ensure dk s = Some (ok1, s1)" "good (us_fs s1)" "same_login s s1"
    "stored (us_fs s1) = (if stored (us_fs s) = None \<and> ok1 then Some [] else stored (us_fs s))"
    "ok1 \<longrightarrow> stored (us_fs s1) \<noteq> None" using ensure_db [OF g] by blast
  define finish where "finish = (\<lambda>s3.
      case clks_fs_mkdir dk (Some (ur_home ?r)) (us_fs s3) of (made, fs) \<Rightarrow>
        let s4 = s3\<lparr>us_fs := fs\<rparr>; line = clks_user_record_line ?r CLKS_USER_RECORD_MAX in
        if \<not> made then Some (False, s4)
        else fs_call (clks_fs_append dk (Some CLKS_USER_DB_PATH) (Some (bytes_of line)) (length line)) s4)"
  have run: "clks_user_create dk (Some name) (Some password) role s =
      (if \<not> ok1 then Some (False, s1)
       else case clks_user_find dk (Some name) s1 of
         (Some _, s2) \<Rightarrow> Some (False, s2)
       | (None, s2) \<Rightarrow> (case clks_fs_stat dk (Some ''/home'') (us_fs s2) of
           None \<Rightarrow> (case clks_fs_mkdir dk (Some ''/home'') (us_fs s2) of (made, fs) \<Rightarrow>
                     if \<not> made then Some (False, s2\<lparr>us_fs := fs\<rparr>) else finish (s2\<lparr>us_fs := fs\<rparr>))
         | Some info \<Rightarrow> if ni_type info \<noteq> FS_NODE_DIR then Some (False, s2) else finish s2))"
    using adm nm pw unfolding clks_user_create_def e(1) option.sel new_record_fields [OF nm] Let_def finish_def
    by (simp add: CLKS_CFG_USER_SYSTEM_def)
  show ?thesis
  proof (cases ok1)
    case False
    with run e show ?thesis by (intro exI [of _ False]) auto
  next
    case True
    have st1: "stored (us_fs s1) = Some old" using e(4,5) True old by (auto split: option.splits if_splits)
    obtain fs2 where f: "clks_user_find dk (Some name) s1 =
        (find (\<lambda>r. Some (ur_name r) = Some name) (accounts (Some old)), s1\<lparr>us_fs := fs2\<rparr>)"
      "good fs2" "stored fs2 = Some old"
      by (rule find_account [OF e(2), of "Some name"]) (use nm st1 in auto)
    have fin: "\<exists>ok s'. finish (s1\<lparr>us_fs := fs3\<rparr>) = Some (ok, s') \<and> good (us_fs s') \<and> same_login s s' \<and>
        stored (us_fs s') = Some (if ok then old @ bytes_of ?line else old)" if f3: "good fs3" "stored fs3 = Some old" for fs3
    proof -
      obtain made fs4 where mk: "clks_fs_mkdir dk (Some (ur_home ?r)) fs3 = (made, fs4)" by fastforce
      have f4: "good fs4" "stored fs4 = Some old" using mkdir_law [OF f3(1) mk] f3(2) by auto
      have "length old + length (bytes_of ?line) < 4294967296" using small len by simp
      from append_law [OF f4 this] obtain ok fs5 where
        "clks_fs_append dk (Some CLKS_USER_DB_PATH) (Some (bytes_of ?line)) (length (bytes_of ?line)) fs4 = Some (ok, fs5)"
        "good fs5" "stored fs5 = (if ok then Some (old @ bytes_of ?line) else stored fs4)" by blast
      with f4 mk e(3) show ?thesis
        unfolding finish_def line by (cases made) (auto simp: fs_call_def)
    qed
    show ?thesis
    proof (cases "find (\<lambda>r. Some (ur_name r) = Some name) (accounts (Some old))")
      case (Some r)
      with run True f e(3) show ?thesis by (intro exI [of _ False]) auto
    next
      case None
      then have free: "\<forall>r \<in> set (accounts (Some old)). ur_name r \<noteq> name" by (auto simp: find_None_iff)
      obtain made fs3 where mk: "clks_fs_mkdir dk (Some ''/home'') fs2 = (made, fs3)" by fastforce
      have f3: "good fs3" "stored fs3 = Some old" using mkdir_law [OF f(2) mk] f(3) by auto
      have run': "clks_user_create dk (Some name) (Some password) role s =
          (case clks_fs_stat dk (Some ''/home'') fs2 of
             None \<Rightarrow> if \<not> made then Some (False, s1\<lparr>us_fs := fs3\<rparr>) else finish (s1\<lparr>us_fs := fs3\<rparr>)
           | Some info \<Rightarrow> if ni_type info \<noteq> FS_NODE_DIR then Some (False, s1\<lparr>us_fs := fs2\<rparr>) else finish (s1\<lparr>us_fs := fs2\<rparr>))"
        using run True f(1) None mk by (simp cong: option.case_cong)
      define Q where "Q x \<longleftrightarrow> (\<exists>ok s'. x = Some (ok, s') \<and> good (us_fs s') \<and> same_login s s' \<and>
          stored (us_fs s') = Some (if ok then old @ bytes_of ?line else old))" for x
      have "Q (Some (False, s1\<lparr>us_fs := fs\<rparr>))" if "good fs" "stored fs = Some old" for fs
        unfolding Q_def using that e(3) by (intro exI [of _ False]) simp
      then have "Q (Some (False, s1\<lparr>us_fs := fs2\<rparr>))" "Q (Some (False, s1\<lparr>us_fs := fs3\<rparr>))" using f(2,3) f3 by blast+
      moreover have "Q (finish (s1\<lparr>us_fs := fs2\<rparr>))" "Q (finish (s1\<lparr>us_fs := fs3\<rparr>))"
        using fin [OF f(2,3)] fin [OF f3] by (simp_all only: Q_def)
      ultimately have "Q (clks_user_create dk (Some name) (Some password) role s)"
        unfolding run' by (simp split: option.split)
      then show ?thesis using free unfolding Q_def by (auto split: if_splits)
    qed
  qed
qed

end
section \<open>The file system as the store\<close>

text \<open>A running file system with no disk mounted, and the contents of the database file in it.\<close>

definition ram_store :: "(nat \<rightharpoonup> nat) \<Rightarrow> 'd disk_ops \<Rightarrow> 'd fs_state \<Rightarrow> bool" where
  "ram_store F dk s \<longleftrightarrow> fs_inv F s \<and> clks_fs_ready s \<and> (\<forall>p. \<not> in_mount dk p s)"

definition db_name :: string where "db_name = ''system/databases/users.db''"

definition db_file :: "'d fs_state \<Rightarrow> u8 list option" where
  "db_file s = (case fs_view s db_name of Some (File_Entry bs) \<Rightarrow> Some bs | _ \<Rightarrow> None)"

lemma db_path_ok:
  "clks_fs_normalize_external_path (Some CLKS_USER_DB_PATH) CLKS_FS_PATH_MAX = Some db_name"
  "clks_fs_internal_writable_node_path db_name"
  by code_simp+

lemma fs_step_store:
  assumes "ram_store F dk s" "fs_step F q s s'"
  shows "ram_store F dk s'" "q \<noteq> db_name \<Longrightarrow> db_file s' = db_file s"
proof -
  show "ram_store F dk s'" using assms in_mount_cong [of s' s] by (auto simp: ram_store_def fs_step_def)
  show "db_file s' = db_file s" if "q \<noteq> db_name"
  proof -
    have "fs_view s' db_name = fs_view s db_name \<or> fs_view s db_name = None \<and> fs_view s' db_name = Some Dir_Entry"
      using assms(2) that unfolding fs_step_def by metis
    then show ?thesis by (auto simp: db_file_def)
  qed
qed

interpretation ram: account_store dk "ram_store F dk" db_file for dk :: "'d disk_ops" and F
proof
  fix s :: "'d fs_state"
  assume g: "ram_store F dk s"
  then have i: "fs_inv F s" "clks_fs_ready s" and m: "\<not> in_mount dk p s" for p by (simp_all add: ram_store_def)
  note r = read_all_view [OF i m db_path_ok(1)]
  show "\<exists>s'. clks_fs_read_all dk (Some CLKS_USER_DB_PATH) s = (db_file s, s') \<and> ram_store F dk s' \<and> db_file s' = db_file s"
    unfolding r db_file_def using g by (auto split: option.split fs_entry.split)
  show "(\<exists>i. clks_fs_stat dk (Some CLKS_USER_DB_PATH) s = Some i \<and> ni_type i = FS_NODE_FILE) \<longleftrightarrow> db_file s \<noteq> None"
  proof -
    have "\<not> clks_fs_is_dynamic_dev_dir (Some CLKS_USER_DB_PATH)" "\<not> clks_fs_is_dynamic_dev_file (Some CLKS_USER_DB_PATH)"
      by (simp_all add: clks_fs_is_dynamic_dev_dir_def clks_fs_is_dynamic_dev_file_def clks_fs_external_path_equals_def CLKS_USER_DB_PATH_def)
    moreover have "fn_type (fs_node s j) = FS_NODE_FILE \<or> fn_type (fs_node s j) = FS_NODE_DIR"
      if "clks_fs_find_node_by_internal db_name s = Some j" for j
    proof -
      have "fs_table_ok s" using i by (simp add: fs_inv_def)
      with find_internal_Some [OF that] fs_table_live(5) [of s j] show ?thesis by (cases "fn_type (fs_node s j)") auto
    qed
    then have "(case clks_fs_find_node_by_internal db_name s of None \<Rightarrow> False
        | Some j \<Rightarrow> fn_type (fs_node s j) = FS_NODE_FILE) \<longleftrightarrow> db_file s \<noteq> None"
      unfolding db_file_def fs_view_def by (auto split: option.split)
    ultimately show ?thesis using i m
      by (auto simp: clks_fs_stat_def clks_fs_find_node_by_external_def db_path_ok(1) split: option.splits)
  qed
  show "\<exists>ok s'. clks_fs_write_all dk (Some CLKS_USER_DB_PATH) (Some bs) n s = Some (ok, s') \<and> ram_store F dk s' \<and>
      db_file s' = (if ok then Some (take n bs) else db_file s)" if "n \<le> length bs" "n < 4096" for n bs
  proof -
    have "n + 15 < USIZE_RANGE" using that by (simp add: USIZE_RANGE_def)
    from write_all_spec [OF i m db_path_ok this, of "Some bs"] that obtain ok s' where
      w: "clks_fs_write_all dk (Some CLKS_USER_DB_PATH) (Some bs) n s = Some (ok, s')"
      "fs_step F db_name s s'"
      "fs_view s' db_name = (if ok then Some (File_Entry (take n bs)) else fs_view s db_name)"
      by auto
    then show ?thesis using fs_step_store(1) [OF g w(2)] by (auto simp: db_file_def)
  qed
  show "\<exists>ok s'. clks_fs_append dk (Some CLKS_USER_DB_PATH) (Some bs) (length bs) s = Some (ok, s') \<and> ram_store F dk s' \<and>
      db_file s' = (if ok then Some (old @ bs) else db_file s)"
    if "db_file s = Some old" "length old + length bs < 4294967296" for old bs
  proof -
    have v: "old = (case fs_view s db_name of Some (File_Entry bs) \<Rightarrow> bs | _ \<Rightarrow> [])"
      using that(1) by (auto simp: db_file_def split: option.splits fs_entry.splits)
    have "length old + length bs + 15 < USIZE_RANGE" using that by (simp add: USIZE_RANGE_def)
    from append_spec [OF i m db_path_ok v this order_refl] obtain ok s' where
      w: "clks_fs_append dk (Some CLKS_USER_DB_PATH) (Some bs) (length bs) s = Some (ok, s')"
      "fs_step F db_name s s'"
      "fs_view s' db_name = (if ok then Some (File_Entry (old @ bs)) else fs_view s db_name)"
      by auto
    then show ?thesis using fs_step_store(1) [OF g w(2)] by (auto simp: db_file_def)
  qed
  show "ram_store F dk s' \<and> db_file s' = db_file s" if run: "clks_fs_mkdir dk (Some p) s = (ok, s')" for p ok s'
  proof (cases "clks_fs_normalize_external_path (Some p) CLKS_FS_PATH_MAX")
    case None
    with run g i m show ?thesis by (simp add: clks_fs_mkdir_def)
  next
    case (Some q)
    show ?thesis
    proof (cases "clks_fs_internal_writable_node_path q")
      case False
      with Some run g i m show ?thesis by (simp add: clks_fs_mkdir_def)
    next
      case True
      note k = mkdir_spec [OF i m Some True run]
      have "db_file s' = db_file s" if "q = db_name"
        using k that by (auto simp: db_file_def)
      then show ?thesis using k fs_step_store [OF g, of q s'] by blast
    qed
  qed
qed
section \<open>Policy\<close>

lemma if_or: "(if c then f OR b else f) = f OR (if c then b else 0)" for f b :: "'a::len word"
  by simp

lemma or_and: "(a OR b) AND d = (a AND d) OR (b AND d)" for a b d :: "'a::len word"
  by (rule bit_word_eqI) (auto simp: bit_simps)

lemma if_and: "(if c then b else 0) AND d = (if c then b AND d else 0)" for b d :: "'a::len word"
  by simp

lemma or_zero: "a OR b = 0 \<longleftrightarrow> a = 0 \<and> b = 0" for a b :: "'a::len word"
  by (rule or_eq_0_iff)

lemma policy_flags:
  "clks_rust_path_policy_flags p h AND PATH_POLICY_USER_DB \<noteq> 0 \<longleftrightarrow> p = CLKS_USER_DB_PATH"
  "clks_rust_path_policy_flags p h AND PATH_POLICY_TEMP \<noteq> 0 \<longleftrightarrow> path_at_or_under p ''/temp''"
  "clks_rust_path_policy_flags p h AND PATH_POLICY_HOME_ROOT \<noteq> 0 \<longleftrightarrow> p = ''/home''"
  "clks_rust_path_policy_flags p h AND PATH_POLICY_UNDER_HOME_ROOT \<noteq> 0 \<longleftrightarrow> path_at_or_under p ''/home''"
  "clks_rust_path_policy_flags p h AND PATH_POLICY_HOME \<noteq> 0 \<longleftrightarrow> h \<noteq> [] \<and> path_at_or_under p h"
  unfolding clks_rust_path_policy_flags_def Let_def if_or or_and if_and or_zero de_Morgan_conj
  by (simp_all add: path_policies)

lemma normalize_absolute_slash:
  "clks_rust_path_normalize_absolute (Some p) n = Some q \<Longrightarrow> p \<noteq> [] \<and> hd p = slash"
  by (auto simp: clks_rust_path_normalize_absolute_def normalize_impl_def split: if_splits)

text \<open>An ordinary user who has logged in.\<close>

definition ordinary_user :: "'d user_state \<Rightarrow> string \<Rightarrow> bool" where
  "ordinary_user s home \<longleftrightarrow> clks_user_disk_login_required s \<and>
     (\<exists>u. us_proc s = Some u \<and> eu_logged_in u \<and> eu_role u = CLKS_USER_ROLE_USER \<and> eu_uid u \<noteq> CLKS_USER_UID_ROOT \<and>
       home = clks_user_copy CLKS_USER_HOME_MAX (eu_home u))"

lemma ordinary_info:
  assumes "ordinary_user s home"
  shows "clks_user_disk_login_required s" "pi_logged_in (clks_user_current_info s) = 1"
    "pi_role (clks_user_current_info s) = CLKS_USER_ROLE_USER" "pi_uid (clks_user_current_info s) \<noteq> CLKS_USER_UID_ROOT"
    "pi_home (clks_user_current_info s) = home"
  using assms
  by (auto simp: ordinary_user_def clks_user_current_info_def clks_exec_current_user_info_def CLKS_CFG_USER_SYSTEM_def Let_def)

lemma current_admin:
  assumes "clks_user_disk_login_required s"
  shows "clks_user_current_is_admin s \<longleftrightarrow> (\<exists>u. us_proc s = Some u \<and> eu_logged_in u \<and> eu_role u = CLKS_USER_ROLE_ADMIN)"
  using assms by (auto simp: clks_user_current_is_admin_def clks_user_current_info_def clks_exec_current_user_info_def
      CLKS_CFG_USER_SYSTEM_def Let_def user_consts split: option.splits)

lemma find_same_login: "clks_user_find dk name s = (r, s') \<Longrightarrow> same_login s s'"
  by (auto simp: clks_user_find_def clks_user_read_db_def split: if_splits option.splits prod.splits)

lemma verify_same_login: "clks_user_verify_password dk name pw s = (r, s') \<Longrightarrow> same_login s s'"
  using find_same_login by (fastforce simp: clks_user_verify_password_def split: if_splits option.splits prod.splits)

lemma verify_Some:
  assumes "clks_user_verify_password dk name pw s = (Some r, s')"
  shows "pw \<noteq> None" "clks_user_find dk name s = (Some r, s')" "ur_hash r = clks_user_hash_password pw"
  using assms by (auto simp: clks_user_verify_password_def split: if_splits option.splits prod.splits)

text \<open>The policy compares paths by their characters; the disk compares names without regard to case.\<close>

lemma policy_case_sensitive:
  assumes "ordinary_user s home"
  shows "clks_user_path_read_allowed (Some CLKS_USER_DB_PATH) s = False"
    "clks_user_path_read_allowed (Some ''/SYSTEM/databases/users.db'') s"
    "clks_disk_text_equals_casefold ''/SYSTEM/databases/users.db'' CLKS_USER_DB_PATH"
proof -
  note o = ordinary_info [OF assms]
  have n: "clks_rust_path_normalize_absolute (Some CLKS_USER_DB_PATH) (CLKS_USER_HOME_MAX * 2) = Some CLKS_USER_DB_PATH"
    "clks_rust_path_normalize_absolute (Some ''/SYSTEM/databases/users.db'') (CLKS_USER_HOME_MAX * 2) =
      Some ''/SYSTEM/databases/users.db''" by code_simp+
  have d: "''/SYSTEM/databases/users.db'' \<noteq> CLKS_USER_DB_PATH" "\<not> path_at_or_under ''/SYSTEM/databases/users.db'' ''/home''"
    by code_simp+
  show "clks_user_path_read_allowed (Some CLKS_USER_DB_PATH) s = False"
    unfolding clks_user_path_read_allowed_def option.case n Let_def policy_flags
    using o by (simp add: user_config user_consts)
  have h: "''/SYSTEM/databases/users.db'' \<noteq> []" "hd ''/SYSTEM/databases/users.db'' = slash" by simp_all
  show "clks_user_path_read_allowed (Some ''/SYSTEM/databases/users.db'') s"
    unfolding clks_user_path_read_allowed_def option.case n Let_def policy_flags
    using o d h by (simp only: user_config user_consts) simp
  show "clks_disk_text_equals_casefold ''/SYSTEM/databases/users.db'' CLKS_USER_DB_PATH" by code_simp
qed

text \<open>
  A record whose line does not fit 191 characters is written without its newline, and the line behind it
  in the file is lost.
\<close>

lemma truncated_line_absorbs:
  assumes "191 \<le> length (record_text r)" "no_newline (record_text r)" "no_newline next_line"
  shows "db_records (clks_user_record_line r CLKS_USER_RECORD_MAX @ next_line @ [newline]) =
    db_records (clks_user_record_line r CLKS_USER_RECORD_MAX)"
proof -
  let ?l = "take 191 (record_text r)"
  have l: "clks_user_record_line r CLKS_USER_RECORD_MAX = ?l"
    using assms(1) by (simp add: record_line_take user_sizes)
  have n: "no_newline ?l" using assms(2) by (auto simp: no_newline_def dest: in_set_takeD)
  have len: "length ?l = 191" using assms(1) by simp
  have "no_newline (?l @ next_line)" using n assms(3) by (simp add: no_newline_def)
  then have "db_pieces (?l @ next_line @ [newline]) = [?l @ next_line, []]"
    using db_pieces_line [of "?l @ next_line" "[]"] by simp
  moreover have "db_pieces xs = [xs]" if "no_newline xs" for xs
    using that by (induction xs) (auto simp: no_newline_def)
  then have "db_pieces ?l = [?l]" using n .
  moreover have "piece_line (?l @ next_line) = piece_line ?l"
    using len by (cases next_line) (simp_all add: piece_line_def user_sizes Let_def)
  ultimately show ?thesis using line_records_empty unfolding l db_records_lines by simp
qed
section \<open>Properties\<close>

text \<open>For the witnesses: an account, and the state of a machine without a disk.\<close>

definition demo_record :: clks_user_record where
  "demo_record = \<lparr>ur_uid = 4711, ur_role = CLKS_USER_ROLE_ADMIN, ur_name = ''ann'', ur_hash = replicate 64 (CHR ''0''), ur_home = ''/home/ann''\<rparr>"

definition demo_state :: "bool \<Rightarrow> exec_user option \<Rightarrow> unit user_state" where
  "demo_state required proc = \<lparr>us_fs = root_fs, us_proc = proc, clks_user_disk_login_required = required\<rparr>"

definition demo_login :: exec_user where
  "demo_login = \<lparr>eu_uid = 1234, eu_role = CLKS_USER_ROLE_USER, eu_logged_in = True, eu_disk_login_required = True,
     eu_username = ''ann'', eu_home = ''/home/ann''\<rparr>"

lemma demo_record_ok: "record_ok demo_record"
  by code_simp

lemma demo_store: "ram_store Map.empty no_disk (us_fs (demo_state required proc))"
  using root_fs_inv by (simp add: ram_store_def demo_state_def)

lemma demo_db_file: "db_file (us_fs (demo_state required proc)) = None"
  by (simp add: db_file_def demo_state_def root_fs_view db_name_def)

lemma demo_user: "ordinary_user (demo_state True (Some demo_login)) ''/home/ann''"
  by (simp add: ordinary_user_def demo_state_def demo_login_def clks_user_copy_def user_consts user_sizes)

text \<open>
  C25. A record written to the database is read back as it was: parsing the printed line gives the
  record, with its number, and a database that ends behind a line has exactly this record more when the
  line is appended.
\<close>

theorem user_record_roundtrip:
  assumes "record_ok r" "complete_text db"
  shows "clks_user_parse_record (clks_user_record_line r CLKS_USER_RECORD_MAX) = Some r \<and>
    db_records (db @ clks_user_record_line r CLKS_USER_RECORD_MAX) = db_records db @ [r]"
  unfolding record_line_ok [OF assms(1)] using parse_printed(2) [OF assms(1)] db_records_append [OF assms(2)]
    db_records_line [OF assms(1)] by simp

theorem user_record_roundtrip_witness:
  "clks_user_parse_record (clks_user_record_line demo_record CLKS_USER_RECORD_MAX) = Some demo_record \<and>
   db_records ([] @ clks_user_record_line demo_record CLKS_USER_RECORD_MAX) = db_records [] @ [demo_record]"
  by (rule user_record_roundtrip [OF demo_record_ok]) (simp add: complete_text_def)



text \<open>
  Creating an account returns. On success the name was free, the file is the old one and the line of
  the new account, and the accounts are the old ones and the new one -- as long as the file has fewer than
  4096 bytes. The size is not checked: when the file grows to 4096 bytes the call reports success and from
  then on no name is found in the database. On failure the file is as before, or new and empty.
\<close>

theorem user_create_account:
  assumes "ram_store F dk (us_fs s)" "clks_user_current_is_admin s" "clks_user_name_valid (Some name)" "password \<noteq> []"
    and "old = (case db_file (us_fs s) of None \<Rightarrow> [] | Some bs \<Rightarrow> bs)" "length old < 4294966000"
    and "complete_text (map (\<lambda>b. char_of (unat b)) old)"
  shows "\<exists>ok s'. clks_user_create dk (Some name) (Some password) role s = Some (ok, s') \<and>
    ram_store F dk (us_fs s') \<and> same_login s s' \<and>
    (if ok then (\<exists>new. db_file (us_fs s') = Some new \<and>
        (if length new < 4096
         then accounts (Some new) = accounts (Some old) @ [new_record name password role] \<and>
           (\<forall>r \<in> set (accounts (Some old)). ur_name r \<noteq> name)
         else \<forall>other. fst (clks_user_find dk other s') = None))
     else db_file (us_fs s') \<in> {db_file (us_fs s), Some old})"
proof -
  let ?r = "new_record name password role"
  let ?new = "old @ bytes_of (record_text ?r @ [newline])"
  obtain ok s' where c: "clks_user_create dk (Some name) (Some password) role s = Some (ok, s')"
    "ram_store F dk (us_fs s')" "same_login s s'"
    "if ok then db_file (us_fs s') = Some ?new \<and> (\<forall>r \<in> set (accounts (Some old)). ur_name r \<noteq> name)
     else db_file (us_fs s') \<in> {db_file (us_fs s), Some old}"
    using ram.create_account [OF assms(1-6)] by blast
  have "accounts (Some ?new) = accounts (Some old) @ [?r]" if "length ?new < 4096"
    using that db_records_append [OF assms(7)] db_records_line [OF new_record_ok [OF assms(3)]]
    by (simp add: accounts_def db_text_def)
  moreover have "fst (clks_user_find dk other s') = None" if "ok" "\<not> length ?new < 4096" for other
  proof -
    obtain fs where "clks_user_find dk other s' =
        (if clks_user_name_valid other then find (\<lambda>r. Some (ur_name r) = other) (accounts (db_file (us_fs s'))) else None,
         s'\<lparr>us_fs := fs\<rparr>)" by (rule ram.find_account [OF c(2), of other])
    moreover have "accounts (Some ?new) = []" using that(2) by (simp add: accounts_def db_text_def)
    ultimately show ?thesis using c(4) that(1) by (simp only: if_True) simp
  qed
  ultimately show ?thesis using c by (intro exI [of _ ok] exI [of _ s']) (cases ok, auto)
qed

theorem user_create_account_witness:
  "\<exists>ok s'. clks_user_create no_disk (Some ''ann'') (Some ''pw'') CLKS_USER_ROLE_USER (demo_state False None) = Some (ok, s') \<and>
    ram_store Map.empty no_disk (us_fs s') \<and> same_login (demo_state False None) s' \<and>
    (if ok then (\<exists>new. db_file (us_fs s') = Some new \<and>
        (if length new < 4096
         then accounts (Some new) = accounts (Some []) @ [new_record ''ann'' ''pw'' CLKS_USER_ROLE_USER] \<and>
           (\<forall>r \<in> set (accounts (Some [])). ur_name r \<noteq> ''ann'')
         else \<forall>other. fst (clks_user_find no_disk other s') = None))
     else db_file (us_fs s') \<in> {db_file (us_fs (demo_state False None)), Some []})"
proof (rule user_create_account [OF demo_store])
  show "clks_user_current_is_admin (demo_state False None)"
    by (simp add: clks_user_current_is_admin_def demo_state_def)
  show "clks_user_name_valid (Some ''ann'')" by code_simp
qed (simp_all add: demo_db_file complete_text_def)


text \<open>
  The policy for paths of an ordinary user. A path may be written exactly when it normalises to
  something at or below \<open>/temp\<close> or the home of the user; it may be read exactly when it normalises to
  something that is not the user database and is at or below \<open>/temp\<close> or the home of the user, is not at
  or below \<open>/home\<close>, or is \<open>/home\<close> itself.
\<close>

theorem user_path_policy:
  assumes "ordinary_user s home"
  shows "(clks_user_path_write_allowed (Some p) s \<longleftrightarrow>
      (\<exists>q. clks_rust_path_normalize_absolute (Some p) (CLKS_USER_HOME_MAX * 2) = Some q \<and>
        (path_at_or_under q ''/temp'' \<or> home \<noteq> [] \<and> path_at_or_under q home))) \<and>
    (clks_user_path_read_allowed (Some p) s \<longleftrightarrow>
      (\<exists>q. clks_rust_path_normalize_absolute (Some p) (CLKS_USER_HOME_MAX * 2) = Some q \<and> q \<noteq> CLKS_USER_DB_PATH \<and>
        (path_at_or_under q ''/temp'' \<or> home \<noteq> [] \<and> path_at_or_under q home \<or>
         \<not> path_at_or_under q ''/home'' \<or> q = ''/home'')))"
proof (cases "clks_rust_path_normalize_absolute (Some p) (CLKS_USER_HOME_MAX * 2)")
  case None
  then show ?thesis by (simp add: clks_user_path_write_allowed_def clks_user_path_read_allowed_def)
next
  case (Some q)
  note o = ordinary_info [OF assms] and n = normalize_absolute_slash [OF Some]
  have "clks_user_path_write_allowed (Some p) s \<longleftrightarrow> path_at_or_under q ''/temp'' \<or> home \<noteq> [] \<and> path_at_or_under q home"
    unfolding clks_user_path_write_allowed_def option.case Some Let_def policy_flags
    using o n by (simp only: user_config user_consts) simp
  moreover have "clks_user_path_read_allowed (Some p) s \<longleftrightarrow> q \<noteq> CLKS_USER_DB_PATH \<and>
      (path_at_or_under q ''/temp'' \<or> home \<noteq> [] \<and> path_at_or_under q home \<or> \<not> path_at_or_under q ''/home'' \<or> q = ''/home'')"
    unfolding clks_user_path_read_allowed_def option.case Some Let_def policy_flags
    using o n by (simp only: user_config user_consts) auto
  ultimately show ?thesis using Some by simp
qed

theorem user_path_policy_witness:
  "clks_user_path_write_allowed (Some ''/home/ann/a'') (demo_state True (Some demo_login)) \<and>
   \<not> clks_user_path_write_allowed (Some ''/home/annie'') (demo_state True (Some demo_login)) \<and>
   \<not> clks_user_path_read_allowed (Some ''/home/bob/a'') (demo_state True (Some demo_login))"
proof -
  have n: "clks_rust_path_normalize_absolute (Some ''/home/ann/a'') (CLKS_USER_HOME_MAX * 2) = Some ''/home/ann/a''"
    "clks_rust_path_normalize_absolute (Some ''/home/annie'') (CLKS_USER_HOME_MAX * 2) = Some ''/home/annie''"
    "clks_rust_path_normalize_absolute (Some ''/home/bob/a'') (CLKS_USER_HOME_MAX * 2) = Some ''/home/bob/a''"
    by code_simp+
  have p: "path_at_or_under ''/home/ann/a'' ''/home/ann''" "\<not> path_at_or_under ''/home/annie'' ''/home/ann''"
    "\<not> path_at_or_under ''/home/annie'' ''/temp''" "\<not> path_at_or_under ''/home/bob/a'' ''/home/ann''"
    "\<not> path_at_or_under ''/home/bob/a'' ''/temp''" "path_at_or_under ''/home/bob/a'' ''/home''"
    "''/home/bob/a'' \<noteq> ''/home''" "''/home/ann'' \<noteq> []"
    by code_simp+
  show ?thesis
  proof (intro conjI)
    show "clks_user_path_write_allowed (Some ''/home/ann/a'') (demo_state True (Some demo_login))"
      unfolding user_path_policy [OF demo_user, THEN conjunct1] using n(1) p(1,8) by blast
    show "\<not> clks_user_path_write_allowed (Some ''/home/annie'') (demo_state True (Some demo_login))"
      unfolding user_path_policy [OF demo_user, THEN conjunct1] n(2) option.inject using p(2,3) by blast
    show "\<not> clks_user_path_read_allowed (Some ''/home/bob/a'') (demo_state True (Some demo_login))"
      unfolding user_path_policy [OF demo_user, THEN conjunct2] n(3) option.inject using p(4-7) by blast
  qed
qed
end
