(* ===== verification/Clks_Net.thy ===== *)
theory Clks_Net
  imports Clks_Ring Clks_Bytes
begin

text \<open>
  The network stack, \<open>kernel/runtime/net.c\<close>: Ethernet, ARP, IPv4, ICMP, UDP, DHCP and one TCP
  connection. A received packet is a pointer into the receive buffer, here a function from offsets to
  bytes, with its length; a packet to send is a list of bytes. The network card is a record of
  operations on a state of its own: what \<open>clks_net_hw_init\<close> and the registers of the card do is not
  modelled. Log output and the pauses of the processor are left out.
\<close>

section \<open>Constants\<close>

definition CLKS_NET_DESC_COUNT :: nat where "CLKS_NET_DESC_COUNT = 128"
definition CLKS_NET_BUF_SIZE :: nat where "CLKS_NET_BUF_SIZE = 2048"
definition CLKS_NET_TX_WAIT_LOOPS :: nat where "CLKS_NET_TX_WAIT_LOOPS = 200000"
definition CLKS_NET_ETHERTYPE_ARP :: u16 where "CLKS_NET_ETHERTYPE_ARP = 0x0806"
definition CLKS_NET_ETHERTYPE_IPV4 :: u16 where "CLKS_NET_ETHERTYPE_IPV4 = 0x0800"
definition CLKS_NET_ARP_HTYPE_ETHERNET :: u16 where "CLKS_NET_ARP_HTYPE_ETHERNET = 1"
definition CLKS_NET_ARP_OP_REQUEST :: u16 where "CLKS_NET_ARP_OP_REQUEST = 1"
definition CLKS_NET_ARP_OP_REPLY :: u16 where "CLKS_NET_ARP_OP_REPLY = 2"
definition CLKS_NET_IPV4_PROTO_ICMP :: u8 where "CLKS_NET_IPV4_PROTO_ICMP = 1"
definition CLKS_NET_IPV4_PROTO_TCP :: u8 where "CLKS_NET_IPV4_PROTO_TCP = 6"
definition CLKS_NET_IPV4_PROTO_UDP :: u8 where "CLKS_NET_IPV4_PROTO_UDP = 17"
definition CLKS_NET_DEFAULT_IP_BE :: u32 where "CLKS_NET_DEFAULT_IP_BE = 0"
definition CLKS_NET_DEFAULT_NETMASK_BE :: u32 where "CLKS_NET_DEFAULT_NETMASK_BE = 0"
definition CLKS_NET_DEFAULT_GATEWAY_BE :: u32 where "CLKS_NET_DEFAULT_GATEWAY_BE = 0"
definition CLKS_NET_DEFAULT_DNS_BE :: u32 where "CLKS_NET_DEFAULT_DNS_BE = 0"
definition CLKS_NET_FALLBACK_IP_BE :: u32 where "CLKS_NET_FALLBACK_IP_BE = 0x0A00020F"
definition CLKS_NET_FALLBACK_NETMASK_BE :: u32 where "CLKS_NET_FALLBACK_NETMASK_BE = 0xFFFFFF00"
definition CLKS_NET_FALLBACK_GATEWAY_BE :: u32 where "CLKS_NET_FALLBACK_GATEWAY_BE = 0x0A000202"
definition CLKS_NET_CLOUDFLARE_DNS_PRIMARY_BE :: u32 where "CLKS_NET_CLOUDFLARE_DNS_PRIMARY_BE = 0x01010101"
definition CLKS_NET_FALLBACK_DNS_BE :: u32 where "CLKS_NET_FALLBACK_DNS_BE = CLKS_NET_CLOUDFLARE_DNS_PRIMARY_BE"
definition CLKS_NET_DHCP_SERVER_PORT :: u16 where "CLKS_NET_DHCP_SERVER_PORT = 67"
definition CLKS_NET_DHCP_CLIENT_PORT :: u16 where "CLKS_NET_DHCP_CLIENT_PORT = 68"
definition CLKS_NET_DHCP_MAGIC :: u32 where "CLKS_NET_DHCP_MAGIC = 0x63825363"
definition CLKS_NET_DHCP_MSG_DISCOVER :: u8 where "CLKS_NET_DHCP_MSG_DISCOVER = 1"
definition CLKS_NET_DHCP_MSG_OFFER :: u8 where "CLKS_NET_DHCP_MSG_OFFER = 2"
definition CLKS_NET_DHCP_MSG_REQUEST :: u8 where "CLKS_NET_DHCP_MSG_REQUEST = 3"
definition CLKS_NET_DHCP_MSG_ACK :: u8 where "CLKS_NET_DHCP_MSG_ACK = 5"
definition CLKS_NET_DHCP_MSG_NAK :: u8 where "CLKS_NET_DHCP_MSG_NAK = 6"
definition CLKS_NET_DHCP_OPT_SUBNET_MASK :: u8 where "CLKS_NET_DHCP_OPT_SUBNET_MASK = 1"
definition CLKS_NET_DHCP_OPT_ROUTER :: u8 where "CLKS_NET_DHCP_OPT_ROUTER = 3"
definition CLKS_NET_DHCP_OPT_DNS :: u8 where "CLKS_NET_DHCP_OPT_DNS = 6"
definition CLKS_NET_DHCP_OPT_REQ_IP :: u8 where "CLKS_NET_DHCP_OPT_REQ_IP = 50"
definition CLKS_NET_DHCP_OPT_MSG_TYPE :: u8 where "CLKS_NET_DHCP_OPT_MSG_TYPE = 53"
definition CLKS_NET_DHCP_OPT_SERVER_ID :: u8 where "CLKS_NET_DHCP_OPT_SERVER_ID = 54"
definition CLKS_NET_DHCP_OPT_PARAM_REQ :: u8 where "CLKS_NET_DHCP_OPT_PARAM_REQ = 55"
definition CLKS_NET_DHCP_OPT_END :: u8 where "CLKS_NET_DHCP_OPT_END = 255"
definition CLKS_NET_DHCP_STAGE_POLL_LOOPS :: nat where "CLKS_NET_DHCP_STAGE_POLL_LOOPS = 160000000"
definition CLKS_NET_DHCP_STAGE_RETRIES :: nat where "CLKS_NET_DHCP_STAGE_RETRIES = 4"
definition CLKS_NET_ARP_TABLE_CAP :: nat where "CLKS_NET_ARP_TABLE_CAP = 16"
definition CLKS_NET_UDP_QUEUE_CAP :: nat where "CLKS_NET_UDP_QUEUE_CAP = 16"
definition CLKS_NET_UDP_PAYLOAD_MAX :: nat where "CLKS_NET_UDP_PAYLOAD_MAX = 1472"
definition CLKS_NET_TCP_RECV_CAP :: nat where "CLKS_NET_TCP_RECV_CAP = 65536"
definition CLKS_NET_TCP_SEND_MAX_SEGMENT :: nat where "CLKS_NET_TCP_SEND_MAX_SEGMENT = 1200"
definition CLKS_NET_TCP_DEFAULT_POLL_LOOPS :: nat where "CLKS_NET_TCP_DEFAULT_POLL_LOOPS = 300000"
definition CLKS_NET_TCP_MIN_POLL_LOOPS :: nat where "CLKS_NET_TCP_MIN_POLL_LOOPS = 5000000"
definition CLKS_NET_TCP_RETRY_COUNT :: nat where "CLKS_NET_TCP_RETRY_COUNT = 4"
definition CLKS_NET_TCP_DEFAULT_WINDOW :: nat where "CLKS_NET_TCP_DEFAULT_WINDOW = 16384"
definition CLKS_NET_TCP_MSS :: u16 where "CLKS_NET_TCP_MSS = 1460"
definition CLKS_NET_TCP_SYN_OPTION_LEN :: nat where "CLKS_NET_TCP_SYN_OPTION_LEN = 4"
definition CLKS_NET_TCP_OPT_MSS :: u8 where "CLKS_NET_TCP_OPT_MSS = 2"
definition CLKS_NET_TCP_OPT_MSS_LEN :: u8 where "CLKS_NET_TCP_OPT_MSS_LEN = 4"
definition CLKS_NET_PING_DEFAULT_POLL_LOOPS :: nat where "CLKS_NET_PING_DEFAULT_POLL_LOOPS = 200000000"
definition CLKS_NET_PING_MIN_POLL_LOOPS :: nat where "CLKS_NET_PING_MIN_POLL_LOOPS = 5000000"
definition CLKS_NET_TCP_ERR_NONE :: u64 where "CLKS_NET_TCP_ERR_NONE = 0"
definition CLKS_NET_TCP_ERR_UNAVAILABLE :: u64 where "CLKS_NET_TCP_ERR_UNAVAILABLE = 1"
definition CLKS_NET_TCP_ERR_BAD_ARG :: u64 where "CLKS_NET_TCP_ERR_BAD_ARG = 2"
definition CLKS_NET_TCP_ERR_ARP :: u64 where "CLKS_NET_TCP_ERR_ARP = 3"
definition CLKS_NET_TCP_ERR_SYN_TX :: u64 where "CLKS_NET_TCP_ERR_SYN_TX = 4"
definition CLKS_NET_TCP_ERR_RST :: u64 where "CLKS_NET_TCP_ERR_RST = 5"
definition CLKS_NET_TCP_ERR_TIMEOUT :: u64 where "CLKS_NET_TCP_ERR_TIMEOUT = 6"
definition CLKS_NET_TCP_ERR_STALE_ACK :: u64 where "CLKS_NET_TCP_ERR_STALE_ACK = 7"
definition CLKS_CFG_NET_DHCP_CLIENT :: bool where "CLKS_CFG_NET_DHCP_CLIENT = True"
definition CLKS_NET_IP_HEADER_MIN_LEN :: nat where "CLKS_NET_IP_HEADER_MIN_LEN = 20"
definition CLKS_NET_ICMP_HEADER_LEN :: nat where "CLKS_NET_ICMP_HEADER_LEN = 8"
definition CLKS_NET_TCP_HEADER_MIN_LEN :: nat where "CLKS_NET_TCP_HEADER_MIN_LEN = 20"
definition CLKS_NET_UDP_HEADER_LEN :: nat where "CLKS_NET_UDP_HEADER_LEN = 8"
definition CLKS_NET_ETH_HEADER_LEN :: nat where "CLKS_NET_ETH_HEADER_LEN = 14"
definition CLKS_NET_MAX_IPV4_PAYLOAD :: nat where "CLKS_NET_MAX_IPV4_PAYLOAD = 1480"
definition CLKS_NET_TCP_FLAG_FIN :: u16 where "CLKS_NET_TCP_FLAG_FIN = 0x001"
definition CLKS_NET_TCP_FLAG_SYN :: u16 where "CLKS_NET_TCP_FLAG_SYN = 0x002"
definition CLKS_NET_TCP_FLAG_RST :: u16 where "CLKS_NET_TCP_FLAG_RST = 0x004"
definition CLKS_NET_TCP_FLAG_PSH :: u16 where "CLKS_NET_TCP_FLAG_PSH = 0x008"
definition CLKS_NET_TCP_FLAG_ACK :: u16 where "CLKS_NET_TCP_FLAG_ACK = 0x010"
definition clks_net_mac_broadcast :: "u8 list" where "clks_net_mac_broadcast = [0xFF, 0xFF, 0xFF, 0xFF, 0xFF, 0xFF]"

lemmas net_lengths = CLKS_NET_IP_HEADER_MIN_LEN_def CLKS_NET_ICMP_HEADER_LEN_def CLKS_NET_TCP_HEADER_MIN_LEN_def
  CLKS_NET_UDP_HEADER_LEN_def CLKS_NET_ETH_HEADER_LEN_def CLKS_NET_MAX_IPV4_PAYLOAD_def CLKS_NET_UDP_PAYLOAD_MAX_def
  CLKS_NET_TCP_SYN_OPTION_LEN_def

lemmas net_protocols = CLKS_NET_ETHERTYPE_ARP_def CLKS_NET_ETHERTYPE_IPV4_def CLKS_NET_IPV4_PROTO_ICMP_def
  CLKS_NET_IPV4_PROTO_TCP_def CLKS_NET_IPV4_PROTO_UDP_def CLKS_NET_ARP_HTYPE_ETHERNET_def
  CLKS_NET_ARP_OP_REQUEST_def CLKS_NET_ARP_OP_REPLY_def CLKS_NET_DHCP_SERVER_PORT_def CLKS_NET_DHCP_CLIENT_PORT_def

lemmas tcp_flags = CLKS_NET_TCP_FLAG_FIN_def CLKS_NET_TCP_FLAG_SYN_def CLKS_NET_TCP_FLAG_RST_def
  CLKS_NET_TCP_FLAG_PSH_def CLKS_NET_TCP_FLAG_ACK_def

section \<open>State\<close>

type_synonym buf = "nat \<Rightarrow> u8"

record clks_net_arp_entry =
  ae_valid :: bool
  ae_ipv4_be :: u32
  ae_mac :: "u8 list"
  ae_stamp :: u64

text \<open>The payload of a datagram in the queue is the list of its \<open>payload_len\<close> bytes.\<close>

record clks_net_udp_packet =
  up_valid :: bool
  up_src_ipv4_be :: u32
  up_src_port :: u16
  up_dst_port :: u16
  up_payload :: "u8 list"

datatype clks_net_tcp_state = TCP_CLOSED | TCP_SYN_SENT | TCP_ESTABLISHED | TCP_FIN_WAIT1 | TCP_FIN_WAIT2 | TCP_CLOSE_WAIT
  | TCP_LAST_ACK | TCP_LISTEN | TCP_SYN_RECEIVED

record clks_net_tcp_conn =
  tc_active :: bool
  tc_peer_fin :: bool
  tc_reset_seen :: bool
  tc_state :: clks_net_tcp_state
  tc_remote_ipv4_be :: u32
  tc_remote_alt_ipv4_be :: u32
  tc_remote_port :: u16
  tc_local_port :: u16
  tc_remote_mac :: "u8 list"
  tc_snd_iss :: u32
  tc_snd_una :: u32
  tc_snd_nxt :: u32
  tc_rcv_nxt :: u32
  tc_recv_head :: nat
  tc_recv_tail :: nat
  tc_recv_count :: nat
  tc_stale_ack_seen :: bool
  tc_recv_buf :: "nat \<Rightarrow> u8"

record 'd net_state =
  clks_net_ready :: bool
  clks_net_hw_ready :: bool
  clks_net_ipv4_be :: u32
  clks_net_netmask_be :: u32
  clks_net_gateway_be :: u32
  clks_net_dns_be :: u32
  clks_net_mac :: "u8 list"
  clks_net_rx_index :: nat
  clks_net_tx_index :: nat
  clks_net_arp_table :: "clks_net_arp_entry list"
  clks_net_arp_stamp :: u64
  clks_net_udp_queue :: "nat \<Rightarrow> clks_net_udp_packet"
  clks_net_udp_head :: nat
  clks_net_udp_tail :: nat
  clks_net_udp_count :: nat
  clks_net_tcp :: clks_net_tcp_conn
  clks_net_tcp_ephemeral_port :: u16
  clks_net_tcp_last_err :: u64
  clks_net_ipv4_ident :: u16
  clks_net_ping_ident :: u16
  clks_net_ping_seq :: u16
  clks_net_ping_waiting :: bool
  clks_net_ping_reply_ok :: bool
  clks_net_ping_wait_dst_be :: u32
  clks_net_ping_wait_alt_src_be :: u32
  clks_net_ping_wait_seq :: u16
  clks_net_dhcp_xid_seed :: u32
  clks_net_dhcp_active :: bool
  clks_net_dhcp_offer_ready :: bool
  clks_net_dhcp_ack_ready :: bool
  clks_net_dhcp_failed :: bool
  clks_net_dhcp_xid :: u32
  clks_net_dhcp_offer_ip_be :: u32
  clks_net_dhcp_server_id_be :: u32
  clks_net_dhcp_offer_netmask_be :: u32
  clks_net_dhcp_offer_gateway_be :: u32
  clks_net_dhcp_offer_dns_be :: u32
  net_dev :: 'd

text \<open>
  The card: whether the transmit descriptor at an index is free, handing it a buffer, the length and
  buffer of the receive descriptor at an index when it is filled, giving it back, and bringing up the
  card, which yields its address. The tick counter of the timer interrupt is read from it as well.
\<close>

record 'd net_device =
  nd_tx_done :: "nat \<Rightarrow> 'd \<Rightarrow> bool \<times> 'd"
  nd_tx :: "nat \<Rightarrow> u8 list \<Rightarrow> 'd \<Rightarrow> 'd"
  nd_rx :: "nat \<Rightarrow> 'd \<Rightarrow> (nat \<times> buf) option \<times> 'd"
  nd_rx_done :: "nat \<Rightarrow> 'd \<Rightarrow> 'd"
  nd_hw_init :: "'d \<Rightarrow> u8 list option \<times> 'd"
  nd_ticks :: "'d \<Rightarrow> u64"

definition on_dev :: "('d \<Rightarrow> 'r \<times> 'd) \<Rightarrow> 'd net_state \<Rightarrow> 'r \<times> 'd net_state" where
  "on_dev f s = (case f (net_dev s) of (r, d) \<Rightarrow> (r, s\<lparr>net_dev := d\<rparr>))"

definition tcp_upd :: "(clks_net_tcp_conn \<Rightarrow> clks_net_tcp_conn) \<Rightarrow> 'd net_state \<Rightarrow> 'd net_state" where
  "tcp_upd f s = s\<lparr>clks_net_tcp := f (clks_net_tcp s)\<rparr>"

section \<open>Bytes, addresses and checksums\<close>

definition advance :: "buf \<Rightarrow> nat \<Rightarrow> buf" where
  "advance p n = (\<lambda>i. p (n + i))"

definition clks_net_read_be16 :: "buf \<Rightarrow> u16" where
  "clks_net_read_be16 p = push_bit 8 (ucast (p 0)) OR ucast (p 1)"

definition clks_net_write_be16 :: "u16 \<Rightarrow> u8 list" where
  "clks_net_write_be16 v = [ucast (drop_bit 8 v AND 0xFF), ucast (v AND 0xFF)]"

definition clks_net_read_be32 :: "buf \<Rightarrow> u32" where
  "clks_net_read_be32 p = push_bit 24 (ucast (p 0)) OR push_bit 16 (ucast (p 1)) OR push_bit 8 (ucast (p 2)) OR ucast (p 3)"

definition clks_net_write_be32 :: "u32 \<Rightarrow> u8 list" where
  "clks_net_write_be32 v =
     [ucast (drop_bit 24 v AND 0xFF), ucast (drop_bit 16 v AND 0xFF), ucast (drop_bit 8 v AND 0xFF), ucast (v AND 0xFF)]"

text \<open>An address of the card in memory, as the list of its six bytes.\<close>

definition mac_at :: "buf \<Rightarrow> u8 list" where
  "mac_at p = map p [0..<6]"

definition clks_net_mac_equal :: "u8 list \<Rightarrow> u8 list \<Rightarrow> bool" where
  "clks_net_mac_equal left right \<longleftrightarrow> list_all (\<lambda>i. left ! i = right ! i) [0..<6]"

definition clks_net_mac_invalid :: "u8 list \<Rightarrow> bool" where
  "clks_net_mac_invalid mac \<longleftrightarrow> list_all (\<lambda>i. mac ! i = 0) [0..<6] \<or> list_all (\<lambda>i. mac ! i = 0xFF) [0..<6]"

text \<open>The loops over the 16-bit words of a packet, and the one that folds the carries.\<close>

fun sum_words :: "u8 list \<Rightarrow> u32 \<Rightarrow> u32" where
  "sum_words (a # b # data) acc = sum_words data (acc + ucast (push_bit 8 (ucast a) OR ucast b :: u16))"
| "sum_words [a] acc = acc + push_bit 8 (ucast a)"
| "sum_words [] acc = acc"

lemma fold_carry_less:
  fixes acc :: u32
  assumes "drop_bit 16 acc \<noteq> 0"
  shows "unat ((acc AND 0xFFFF) + drop_bit 16 acc) < unat acc"
proof -
  have d: "unat (drop_bit 16 acc) = unat acc div 65536" by (simp add: drop_bit_eq_div unat_div)
  have m: "unat (acc AND 0xFFFF) = unat acc mod 65536"
    using and_mask_nat [of acc 16] by (simp add: mask_eq_exp_minus_1)
  have nz: "unat acc div 65536 \<noteq> 0" using assms d by (metis unat_eq_zero)
  have "unat acc mod 65536 < 65536" by simp
  moreover have "unat acc div 65536 < 65536" using u32_bound [of acc] by (simp add: less_mult_imp_div_less)
  ultimately have "unat acc mod 65536 + unat acc div 65536 < 2 ^ 32" by simp
  then have "unat ((acc AND 0xFFFF) + drop_bit 16 acc) = unat acc mod 65536 + unat acc div 65536"
    using unat_plus_small [of "acc AND 0xFFFF" "drop_bit 16 acc"] by (simp add: d m)
  moreover have "unat acc = unat acc mod 65536 + 65536 * (unat acc div 65536)" by simp
  ultimately show ?thesis using nz by linarith
qed

function fold_carry :: "u32 \<Rightarrow> u32" where
  "fold_carry acc = (if drop_bit 16 acc \<noteq> 0 then fold_carry ((acc AND 0xFFFF) + drop_bit 16 acc) else acc)"
  by pat_completeness auto

termination
  by (relation "measure unat") (auto intro: fold_carry_less)

declare fold_carry.simps [simp del]

definition clks_net_checksum16 :: "u8 list \<Rightarrow> u16" where
  "clks_net_checksum16 data = ucast (NOT (fold_carry (sum_words data 0)) AND 0xFFFF)"

text \<open>\<open>clks_net_udp_checksum\<close> and \<open>clks_net_tcp_checksum\<close> differ in the protocol number only.\<close>

definition pseudo_sum :: "u32 \<Rightarrow> u32 \<Rightarrow> u8 \<Rightarrow> nat \<Rightarrow> u32" where
  "pseudo_sum src_ip_be dst_ip_be proto n =
     (drop_bit 16 src_ip_be AND 0xFFFF) + (src_ip_be AND 0xFFFF) + (drop_bit 16 dst_ip_be AND 0xFFFF) +
     (dst_ip_be AND 0xFFFF) + ucast proto + of_nat n"

definition clks_net_udp_checksum :: "u32 \<Rightarrow> u32 \<Rightarrow> u8 list \<Rightarrow> u16" where
  "clks_net_udp_checksum src_ip_be dst_ip_be udp =
     (let out = ucast (NOT (fold_carry (sum_words udp (pseudo_sum src_ip_be dst_ip_be CLKS_NET_IPV4_PROTO_UDP (length udp)))) AND 0xFFFF)
      in if out = 0 then 0xFFFF else out)"

definition clks_net_tcp_checksum :: "u32 \<Rightarrow> u32 \<Rightarrow> u8 list \<Rightarrow> u16" where
  "clks_net_tcp_checksum src_ip_be dst_ip_be tcp =
     (if tcp = [] then 0
      else
        let out = ucast (NOT (fold_carry (sum_words tcp (pseudo_sum src_ip_be dst_ip_be CLKS_NET_IPV4_PROTO_TCP (length tcp)))) AND 0xFFFF)
        in if out = 0 then 0xFFFF else out)"

text \<open>Sequence numbers are compared by the sign of their difference.\<close>

definition clks_net_tcp_seq_ge :: "u32 \<Rightarrow> u32 \<Rightarrow> bool" where
  "clks_net_tcp_seq_ge left right \<longleftrightarrow> sint (left - right) \<ge> 0"

definition clks_net_tcp_seq_le :: "u32 \<Rightarrow> u32 \<Rightarrow> bool" where
  "clks_net_tcp_seq_le left right \<longleftrightarrow> sint (left - right) \<le> 0"
section \<open>Configuration and tables\<close>

definition clks_net_apply_fallback_config :: "'d net_state \<Rightarrow> 'd net_state" where
  "clks_net_apply_fallback_config s =
     s\<lparr>clks_net_ipv4_be := CLKS_NET_FALLBACK_IP_BE, clks_net_netmask_be := CLKS_NET_FALLBACK_NETMASK_BE,
       clks_net_gateway_be := CLKS_NET_FALLBACK_GATEWAY_BE, clks_net_dns_be := CLKS_NET_FALLBACK_DNS_BE\<rparr>"

definition clks_net_dhcp_state_reset :: "'d net_state \<Rightarrow> 'd net_state" where
  "clks_net_dhcp_state_reset s =
     s\<lparr>clks_net_dhcp_active := False, clks_net_dhcp_offer_ready := False, clks_net_dhcp_ack_ready := False,
       clks_net_dhcp_failed := False, clks_net_dhcp_xid := 0, clks_net_dhcp_offer_ip_be := 0,
       clks_net_dhcp_server_id_be := 0, clks_net_dhcp_offer_netmask_be := 0, clks_net_dhcp_offer_gateway_be := 0,
       clks_net_dhcp_offer_dns_be := 0\<rparr>"

text \<open>One read of the status of the descriptor, and the loop that waits for it.\<close>

fun tx_wait :: "'d net_device \<Rightarrow> nat \<Rightarrow> nat \<Rightarrow> 'd net_state \<Rightarrow> bool \<times> 'd net_state" where
  "tx_wait dv index 0 s = on_dev (nd_tx_done dv index) s"
| "tx_wait dv index (Suc n) s =
     (case on_dev (nd_tx_done dv index) s of (done, s1) \<Rightarrow> if done then (True, s1) else tx_wait dv index n s1)"

definition clks_net_tx_frame :: "'d net_device \<Rightarrow> u8 list \<Rightarrow> 'd net_state \<Rightarrow> bool \<times> 'd net_state" where
  "clks_net_tx_frame dv frame s =
     (if \<not> clks_net_hw_ready s then (False, s)
      else if length frame = 0 \<or> length frame > CLKS_NET_BUF_SIZE then (False, s)
      else
        let send_len = (if length frame < 60 then 60 else length frame); index = clks_net_tx_index s
        in case tx_wait dv index CLKS_NET_TX_WAIT_LOOPS s of (done, s1) \<Rightarrow>
          if \<not> done then (False, s1)
          else (True, s1\<lparr>net_dev := nd_tx dv index (frame @ replicate (send_len - length frame) 0) (net_dev s1),
                        clks_net_tx_index := (index + 1) mod CLKS_NET_DESC_COUNT\<rparr>))"

definition zero_arp_entry :: clks_net_arp_entry where
  "zero_arp_entry = \<lparr>ae_valid = False, ae_ipv4_be = 0, ae_mac = [0, 0, 0, 0, 0, 0], ae_stamp = 0\<rparr>"

definition clks_net_arp_table_reset :: "'d net_state \<Rightarrow> 'd net_state" where
  "clks_net_arp_table_reset s =
     s\<lparr>clks_net_arp_table := replicate CLKS_NET_ARP_TABLE_CAP zero_arp_entry, clks_net_arp_stamp := 1\<rparr>"

text \<open>The loop of \<open>clks_net_arp_upsert\<close>: the entry of the address, or the free and the oldest index.\<close>

fun arp_scan :: "u32 \<Rightarrow> clks_net_arp_entry list \<Rightarrow> nat \<Rightarrow> nat \<Rightarrow> nat \<Rightarrow> u64 \<Rightarrow> nat + nat \<times> nat" where
  "arp_scan ipv4_be [] i free_index oldest_index oldest_stamp = Inr (free_index, oldest_index)"
| "arp_scan ipv4_be (e # es) i free_index oldest_index oldest_stamp =
     (if ae_valid e \<and> ae_ipv4_be e = ipv4_be then Inl i
      else arp_scan ipv4_be es (i + 1)
        (if \<not> ae_valid e \<and> free_index = CLKS_NET_ARP_TABLE_CAP then i else free_index)
        (if ae_stamp e < oldest_stamp then i else oldest_index)
        (if ae_stamp e < oldest_stamp then ae_stamp e else oldest_stamp))"

definition clks_net_arp_upsert :: "u32 \<Rightarrow> u8 list \<Rightarrow> 'd net_state \<Rightarrow> 'd net_state" where
  "clks_net_arp_upsert ipv4_be mac s =
     (if clks_net_mac_invalid mac \<or> ipv4_be = 0 then s
      else case arp_scan ipv4_be (clks_net_arp_table s) 0 CLKS_NET_ARP_TABLE_CAP 0 (- 1) of
        Inl i \<Rightarrow> s\<lparr>clks_net_arp_table := (clks_net_arp_table s)[i :=
                     (clks_net_arp_table s ! i)\<lparr>ae_mac := mac, ae_stamp := clks_net_arp_stamp s\<rparr>],
                   clks_net_arp_stamp := clks_net_arp_stamp s + 1\<rparr>
      | Inr (free_index, oldest_index) \<Rightarrow>
          let i = (if free_index = CLKS_NET_ARP_TABLE_CAP then oldest_index else free_index)
          in s\<lparr>clks_net_arp_table := (clks_net_arp_table s)[i :=
                 \<lparr>ae_valid = True, ae_ipv4_be = ipv4_be, ae_mac = mac, ae_stamp = clks_net_arp_stamp s\<rparr>],
               clks_net_arp_stamp := clks_net_arp_stamp s + 1\<rparr>)"

definition clks_net_arp_lookup :: "u32 \<Rightarrow> 'd net_state \<Rightarrow> u8 list option" where
  "clks_net_arp_lookup ipv4_be s =
     map_option ae_mac (find (\<lambda>e. ae_valid e \<and> ae_ipv4_be e = ipv4_be) (clks_net_arp_table s))"

definition zero_packet :: clks_net_udp_packet where
  "zero_packet = \<lparr>up_valid = False, up_src_ipv4_be = 0, up_src_port = 0, up_dst_port = 0, up_payload = []\<rparr>"

definition clks_net_udp_queue_reset :: "'d net_state \<Rightarrow> 'd net_state" where
  "clks_net_udp_queue_reset s =
     s\<lparr>clks_net_udp_queue := (\<lambda>_. zero_packet), clks_net_udp_head := 0, clks_net_udp_tail := 0, clks_net_udp_count := 0\<rparr>"

definition clks_net_udp_queue_push ::
  "u32 \<Rightarrow> u16 \<Rightarrow> u16 \<Rightarrow> buf \<Rightarrow> nat \<Rightarrow> 'd net_state \<Rightarrow> 'd net_state" where
  "clks_net_udp_queue_push src_ipv4_be src_port dst_port payload payload_len s =
     (let n = (if payload_len > CLKS_NET_UDP_PAYLOAD_MAX then CLKS_NET_UDP_PAYLOAD_MAX else payload_len);
          s1 = (if clks_net_udp_count s \<ge> CLKS_NET_UDP_QUEUE_CAP
                then s\<lparr>clks_net_udp_head := (clks_net_udp_head s + 1) mod CLKS_NET_UDP_QUEUE_CAP,
                       clks_net_udp_count := clks_net_udp_count s - 1\<rparr>
                else s);
          pkt = \<lparr>up_valid = True, up_src_ipv4_be = src_ipv4_be, up_src_port = src_port, up_dst_port = dst_port,
                 up_payload = map payload [0..<n]\<rparr>
      in s1\<lparr>clks_net_udp_queue := (clks_net_udp_queue s1)(clks_net_udp_tail s1 := pkt),
            clks_net_udp_tail := (clks_net_udp_tail s1 + 1) mod CLKS_NET_UDP_QUEUE_CAP,
            clks_net_udp_count := clks_net_udp_count s1 + 1\<rparr>)"

definition zero_conn :: clks_net_tcp_conn where
  "zero_conn = \<lparr>tc_active = False, tc_peer_fin = False, tc_reset_seen = False, tc_state = TCP_CLOSED,
     tc_remote_ipv4_be = 0, tc_remote_alt_ipv4_be = 0, tc_remote_port = 0, tc_local_port = 0,
     tc_remote_mac = [0, 0, 0, 0, 0, 0], tc_snd_iss = 0, tc_snd_una = 0, tc_snd_nxt = 0, tc_rcv_nxt = 0,
     tc_recv_head = 0, tc_recv_tail = 0, tc_recv_count = 0, tc_stale_ack_seen = False, tc_recv_buf = (\<lambda>_. 0)\<rparr>"

text \<open>The state of the stack before its start: the initial values of the file's variables.\<close>

definition net_boot :: "'d \<Rightarrow> 'd net_state" where
  "net_boot d =
     \<lparr>clks_net_ready = False, clks_net_hw_ready = False, clks_net_ipv4_be = CLKS_NET_DEFAULT_IP_BE,
      clks_net_netmask_be = CLKS_NET_DEFAULT_NETMASK_BE, clks_net_gateway_be = CLKS_NET_DEFAULT_GATEWAY_BE,
      clks_net_dns_be = CLKS_NET_DEFAULT_DNS_BE, clks_net_mac = [0, 0, 0, 0, 0, 0], clks_net_rx_index = 0, clks_net_tx_index = 0,
      clks_net_arp_table = replicate CLKS_NET_ARP_TABLE_CAP zero_arp_entry, clks_net_arp_stamp = 1,
      clks_net_udp_queue = (\<lambda>_. zero_packet), clks_net_udp_head = 0, clks_net_udp_tail = 0, clks_net_udp_count = 0,
      clks_net_tcp = zero_conn, clks_net_tcp_ephemeral_port = 43000, clks_net_tcp_last_err = CLKS_NET_TCP_ERR_NONE,
      clks_net_ipv4_ident = 1, clks_net_ping_ident = 0x434C, clks_net_ping_seq = 0, clks_net_ping_waiting = False,
      clks_net_ping_reply_ok = False, clks_net_ping_wait_dst_be = 0, clks_net_ping_wait_alt_src_be = 0,
      clks_net_ping_wait_seq = 0, clks_net_dhcp_xid_seed = 0x434C4B53, clks_net_dhcp_active = False,
      clks_net_dhcp_offer_ready = False, clks_net_dhcp_ack_ready = False, clks_net_dhcp_failed = False,
      clks_net_dhcp_xid = 0, clks_net_dhcp_offer_ip_be = 0, clks_net_dhcp_server_id_be = 0,
      clks_net_dhcp_offer_netmask_be = 0, clks_net_dhcp_offer_gateway_be = 0, clks_net_dhcp_offer_dns_be = 0, net_dev = d\<rparr>"

definition clks_net_tcp_reset :: "'d net_state \<Rightarrow> 'd net_state" where
  "clks_net_tcp_reset s = s\<lparr>clks_net_tcp := zero_conn\<rparr>"

definition clks_net_tcp_next_ephemeral_port :: "'d net_device \<Rightarrow> 'd net_state \<Rightarrow> u16 \<times> 'd net_state" where
  "clks_net_tcp_next_ephemeral_port dv s =
     (let mix = (ucast (nd_ticks dv (net_dev s) XOR ucast (clks_net_ipv4_ident s) XOR ucast (clks_net_tcp_ephemeral_port s)) :: u32);
          step = (ucast ((mix AND 0x3F) OR 1) :: u16);
          p1 = clks_net_tcp_ephemeral_port s + step;
          p2 = (if p1 < 43000 \<or> p1 > 60000 then ucast (43000 + mix mod 16001) else p1)
      in (p2, s\<lparr>clks_net_tcp_ephemeral_port := p2\<rparr>))"

definition clks_net_tcp_make_iss :: "'d net_device \<Rightarrow> u32 \<Rightarrow> u16 \<Rightarrow> u16 \<Rightarrow> u32 \<Rightarrow> 'd net_state \<Rightarrow> u32" where
  "clks_net_tcp_make_iss dv dst_ipv4_be src_port dst_port try_index s =
     (let ticks = nd_ticks dv (net_dev s);
          v = ((ucast ticks * 1103515245) XOR (ucast (drop_bit 32 ticks) * 2654435761) XOR
               push_bit 16 (ucast (clks_net_ipv4_ident s)) XOR push_bit 1 (ucast src_port) XOR dst_ipv4_be XOR
               push_bit 8 (ucast dst_port) XOR (try_index * 0x9E3779B9) :: u32)
      in if v = 0 then 1 else v)"

text \<open>One byte stored in the receive buffer, and one taken from it.\<close>

definition recv_store :: "u8 \<Rightarrow> clks_net_tcp_conn \<Rightarrow> clks_net_tcp_conn" where
  "recv_store b c =
     (let c1 = (if tc_recv_count c \<ge> CLKS_NET_TCP_RECV_CAP
                then c\<lparr>tc_recv_head := (tc_recv_head c + 1) mod CLKS_NET_TCP_RECV_CAP, tc_recv_count := tc_recv_count c - 1\<rparr>
                else c)
      in c1\<lparr>tc_recv_buf := (tc_recv_buf c1)(tc_recv_tail c1 := b),
            tc_recv_tail := (tc_recv_tail c1 + 1) mod CLKS_NET_TCP_RECV_CAP, tc_recv_count := tc_recv_count c1 + 1\<rparr>)"

definition clks_net_tcp_recv_push :: "buf \<Rightarrow> nat \<Rightarrow> 'd net_state \<Rightarrow> 'd net_state" where
  "clks_net_tcp_recv_push payload payload_len = tcp_upd (fold recv_store (map payload [0..<payload_len]))"

fun recv_take :: "nat \<Rightarrow> clks_net_tcp_conn \<Rightarrow> u8 list \<times> clks_net_tcp_conn" where
  "recv_take 0 c = ([], c)"
| "recv_take (Suc n) c =
     (if tc_recv_count c > 0
      then case recv_take n (c\<lparr>tc_recv_head := (tc_recv_head c + 1) mod CLKS_NET_TCP_RECV_CAP,
                               tc_recv_count := tc_recv_count c - 1\<rparr>) of
             (bs, c') \<Rightarrow> (tc_recv_buf c (tc_recv_head c) # bs, c')
      else ([], c))"

definition clks_net_tcp_recv_pop :: "nat \<Rightarrow> 'd net_state \<Rightarrow> u8 list \<times> 'd net_state" where
  "clks_net_tcp_recv_pop payload_capacity s =
     (case recv_take payload_capacity (clks_net_tcp s) of (bs, c) \<Rightarrow> (bs, s\<lparr>clks_net_tcp := c\<rparr>))"

definition clks_net_next_hop_for :: "u32 \<Rightarrow> 'd net_state \<Rightarrow> u32" where
  "clks_net_next_hop_for dst_ipv4_be s =
     (if dst_ipv4_be = 0 \<or> dst_ipv4_be = 0xFFFFFFFF then dst_ipv4_be
      else if clks_net_netmask_be s = 0 then if clks_net_gateway_be s \<noteq> 0 then clks_net_gateway_be s else dst_ipv4_be
      else if (dst_ipv4_be AND clks_net_netmask_be s) = (clks_net_ipv4_be s AND clks_net_netmask_be s) then dst_ipv4_be
      else if clks_net_gateway_be s \<noteq> 0 then clks_net_gateway_be s else dst_ipv4_be)"

section \<open>Sending\<close>

definition clks_net_send_arp_packet ::
  "'d net_device \<Rightarrow> u16 \<Rightarrow> u8 list \<Rightarrow> u32 \<Rightarrow> 'd net_state \<Rightarrow> bool \<times> 'd net_state" where
  "clks_net_send_arp_packet dv op dst_mac target_ip_be s =
     (let eth = dst_mac @ clks_net_mac s @ clks_net_write_be16 CLKS_NET_ETHERTYPE_ARP;
          arp = clks_net_write_be16 CLKS_NET_ARP_HTYPE_ETHERNET @ clks_net_write_be16 CLKS_NET_ETHERTYPE_IPV4 @ [6, 4] @
                clks_net_write_be16 op @ clks_net_mac s @ clks_net_write_be32 (clks_net_ipv4_be s) @
                (if op = CLKS_NET_ARP_OP_REQUEST then [0, 0, 0, 0, 0, 0] else dst_mac) @
                clks_net_write_be32 target_ip_be
      in clks_net_tx_frame dv (eth @ arp) s)"

text \<open>The header of an IPv4 packet of ours with its checksum field.\<close>

definition ipv4_header :: "u32 \<Rightarrow> u32 \<Rightarrow> u8 \<Rightarrow> u16 \<Rightarrow> nat \<Rightarrow> u16 \<Rightarrow> u8 list" where
  "ipv4_header src_ipv4_be dst_ipv4_be proto ident total_len csum =
     [0x45, 0] @ clks_net_write_be16 (of_nat total_len) @ clks_net_write_be16 ident @ clks_net_write_be16 0x4000 @
     [64, proto] @ clks_net_write_be16 csum @ clks_net_write_be32 src_ipv4_be @ clks_net_write_be32 dst_ipv4_be"

definition clks_net_send_ipv4_packet_from ::
  "'d net_device \<Rightarrow> u32 \<Rightarrow> u32 \<Rightarrow> u8 list \<Rightarrow> u8 \<Rightarrow> u8 list \<Rightarrow> 'd net_state \<Rightarrow> bool \<times> 'd net_state" where
  "clks_net_send_ipv4_packet_from dv src_ipv4_be dst_ipv4_be dst_mac proto payload s =
     (if length payload > CLKS_NET_MAX_IPV4_PAYLOAD then (False, s)
      else
        let eth = dst_mac @ clks_net_mac s @ clks_net_write_be16 CLKS_NET_ETHERTYPE_IPV4;
            total_len = CLKS_NET_IP_HEADER_MIN_LEN + length payload;
            header = ipv4_header src_ipv4_be dst_ipv4_be proto (clks_net_ipv4_ident s) total_len;
            csum = clks_net_checksum16 (header 0)
        in clks_net_tx_frame dv (eth @ header csum @ payload) (s\<lparr>clks_net_ipv4_ident := clks_net_ipv4_ident s + 1\<rparr>))"

definition clks_net_send_ipv4_packet ::
  "'d net_device \<Rightarrow> u32 \<Rightarrow> u8 list \<Rightarrow> u8 \<Rightarrow> u8 list \<Rightarrow> 'd net_state \<Rightarrow> bool \<times> 'd net_state" where
  "clks_net_send_ipv4_packet dv dst_ipv4_be dst_mac proto payload s =
     clks_net_send_ipv4_packet_from dv (clks_net_ipv4_be s) dst_ipv4_be dst_mac proto payload s"

definition udp_datagram :: "u16 \<Rightarrow> u16 \<Rightarrow> u8 list \<Rightarrow> u16 \<Rightarrow> u8 list" where
  "udp_datagram src_port dst_port payload csum =
     clks_net_write_be16 src_port @ clks_net_write_be16 dst_port @
     clks_net_write_be16 (of_nat (CLKS_NET_UDP_HEADER_LEN + length payload)) @ clks_net_write_be16 csum @ payload"

definition clks_net_send_udp_datagram ::
  "'d net_device \<Rightarrow> u32 \<Rightarrow> u32 \<Rightarrow> u8 list \<Rightarrow> u16 \<Rightarrow> u16 \<Rightarrow> u8 list \<Rightarrow> 'd net_state \<Rightarrow> bool \<times> 'd net_state" where
  "clks_net_send_udp_datagram dv src_ipv4_be dst_ipv4_be dst_mac src_port dst_port payload s =
     (if src_port = 0 \<or> dst_port = 0 then (False, s)
      else if length payload > CLKS_NET_UDP_PAYLOAD_MAX then (False, s)
      else
        let udp = udp_datagram src_port dst_port payload;
            csum = (if src_port = CLKS_NET_DHCP_CLIENT_PORT \<and> dst_port = CLKS_NET_DHCP_SERVER_PORT then 0
                    else clks_net_udp_checksum src_ipv4_be dst_ipv4_be (udp 0))
        in clks_net_send_ipv4_packet_from dv src_ipv4_be dst_ipv4_be dst_mac CLKS_NET_IPV4_PROTO_UDP (udp csum) s)"

text \<open>The header length of a segment of ours, and the segment with its checksum field.\<close>

definition tcp_header_len :: "u16 \<Rightarrow> nat" where
  "tcp_header_len flags =
     (if flags AND CLKS_NET_TCP_FLAG_SYN \<noteq> 0 then CLKS_NET_TCP_HEADER_MIN_LEN + CLKS_NET_TCP_SYN_OPTION_LEN
      else CLKS_NET_TCP_HEADER_MIN_LEN)"

definition tcp_segment :: "u16 \<Rightarrow> u16 \<Rightarrow> u32 \<Rightarrow> u32 \<Rightarrow> u16 \<Rightarrow> u16 \<Rightarrow> u8 list \<Rightarrow> u16 \<Rightarrow> u8 list" where
  "tcp_segment src_port dst_port seq ack flags window payload csum =
     clks_net_write_be16 src_port @ clks_net_write_be16 dst_port @ clks_net_write_be32 seq @ clks_net_write_be32 ack @
     clks_net_write_be16 (push_bit 12 (of_nat (tcp_header_len flags div 4)) OR (flags AND 0x1FF)) @
     clks_net_write_be16 window @ clks_net_write_be16 csum @ clks_net_write_be16 0 @
     (if flags AND CLKS_NET_TCP_FLAG_SYN \<noteq> 0
      then [CLKS_NET_TCP_OPT_MSS, CLKS_NET_TCP_OPT_MSS_LEN] @ clks_net_write_be16 CLKS_NET_TCP_MSS else []) @
     payload"

definition clks_net_send_tcp_segment_raw ::
  "'d net_device \<Rightarrow> u32 \<Rightarrow> u32 \<Rightarrow> u8 list \<Rightarrow> u16 \<Rightarrow> u16 \<Rightarrow> u32 \<Rightarrow> u32 \<Rightarrow> u16 \<Rightarrow> u8 list \<Rightarrow> 'd net_state \<Rightarrow>
   bool \<times> 'd net_state" where
  "clks_net_send_tcp_segment_raw dv src_ipv4_be dst_ipv4_be dst_mac src_port dst_port seq ack flags payload s =
     (if src_port = 0 \<or> dst_port = 0 then (False, s)
      else if length payload > CLKS_NET_MAX_IPV4_PAYLOAD - tcp_header_len flags then (False, s)
      else
        let free_bytes = CLKS_NET_TCP_RECV_CAP - tc_recv_count (clks_net_tcp s);
            window = of_nat (if free_bytes < CLKS_NET_TCP_DEFAULT_WINDOW then free_bytes else CLKS_NET_TCP_DEFAULT_WINDOW);
            tcp = tcp_segment src_port dst_port seq ack flags window payload
        in clks_net_send_ipv4_packet_from dv src_ipv4_be dst_ipv4_be dst_mac CLKS_NET_IPV4_PROTO_TCP
             (tcp (clks_net_tcp_checksum src_ipv4_be dst_ipv4_be (tcp 0))) s)"

definition clks_net_send_tcp_ack :: "'d net_device \<Rightarrow> 'd net_state \<Rightarrow> bool \<times> 'd net_state" where
  "clks_net_send_tcp_ack dv s =
     (let c = clks_net_tcp s in
      if \<not> tc_active c then (False, s)
      else clks_net_send_tcp_segment_raw dv (clks_net_ipv4_be s) (tc_remote_ipv4_be c) (tc_remote_mac c)
             (tc_local_port c) (tc_remote_port c) (tc_snd_nxt c) (tc_rcv_nxt c) CLKS_NET_TCP_FLAG_ACK [] s)"

definition icmp_echo :: "u8 \<Rightarrow> u16 \<Rightarrow> u16 \<Rightarrow> u8 list \<Rightarrow> u16 \<Rightarrow> u8 list" where
  "icmp_echo ty ident seq payload csum =
     [ty, 0] @ clks_net_write_be16 csum @ clks_net_write_be16 ident @ clks_net_write_be16 seq @ payload"

definition clks_net_send_icmp_echo ::
  "'d net_device \<Rightarrow> u32 \<Rightarrow> u8 list \<Rightarrow> u8 \<Rightarrow> u16 \<Rightarrow> u8 list \<Rightarrow> 'd net_state \<Rightarrow> bool \<times> 'd net_state" where
  "clks_net_send_icmp_echo dv dst_ipv4_be dst_mac ty seq payload s =
     (if length payload > 64 then (False, s)
      else
        let icmp = icmp_echo ty (clks_net_ping_ident s) seq payload
        in clks_net_send_ipv4_packet dv dst_ipv4_be dst_mac CLKS_NET_IPV4_PROTO_ICMP
             (icmp (clks_net_checksum16 (icmp 0))) s)"

definition clks_net_send_icmp_echo_reply ::
  "'d net_device \<Rightarrow> u32 \<Rightarrow> u8 list \<Rightarrow> u16 \<Rightarrow> u8 list \<Rightarrow> 'd net_state \<Rightarrow> bool \<times> 'd net_state" where
  "clks_net_send_icmp_echo_reply dv dst_ipv4_be dst_mac seq payload s =
     clks_net_send_icmp_echo dv dst_ipv4_be dst_mac 0 seq payload s"

definition clks_net_send_icmp_echo_request ::
  "'d net_device \<Rightarrow> u32 \<Rightarrow> u8 list \<Rightarrow> u16 \<Rightarrow> 'd net_state \<Rightarrow> bool \<times> 'd net_state" where
  "clks_net_send_icmp_echo_request dv dst_ipv4_be dst_mac seq s =
     clks_net_send_icmp_echo dv dst_ipv4_be dst_mac 8 seq (map (\<lambda>i. ucast (of_nat i + (seq AND 0xFF))) [0..<32]) s"
definition dhcp_packet :: "u32 \<Rightarrow> u8 list \<Rightarrow> u8 list \<Rightarrow> u8 list" where
  "dhcp_packet xid mac opts =
     [1, 1, 6, 0] @ clks_net_write_be32 xid @ [0, 0] @ clks_net_write_be16 0 @ replicate 16 0 @ mac @
     replicate 202 0 @ clks_net_write_be32 CLKS_NET_DHCP_MAGIC @ opts"

definition clks_net_dhcp_send_discover :: "'d net_device \<Rightarrow> 'd net_state \<Rightarrow> bool \<times> 'd net_state" where
  "clks_net_dhcp_send_discover dv s =
     (let opts = [CLKS_NET_DHCP_OPT_MSG_TYPE, 1, CLKS_NET_DHCP_MSG_DISCOVER, CLKS_NET_DHCP_OPT_PARAM_REQ, 2,
            CLKS_NET_DHCP_OPT_ROUTER, CLKS_NET_DHCP_OPT_DNS, CLKS_NET_DHCP_OPT_END, 0]
      in clks_net_send_udp_datagram dv 0 0xFFFFFFFF clks_net_mac_broadcast CLKS_NET_DHCP_CLIENT_PORT CLKS_NET_DHCP_SERVER_PORT
           (dhcp_packet (clks_net_dhcp_xid s) (clks_net_mac s) opts) s)"

definition clks_net_dhcp_send_request :: "'d net_device \<Rightarrow> 'd net_state \<Rightarrow> bool \<times> 'd net_state" where
  "clks_net_dhcp_send_request dv s =
     (let req_ip = clks_net_dhcp_offer_ip_be s in
      if req_ip = 0 then (False, s)
      else
        let opts = [CLKS_NET_DHCP_OPT_MSG_TYPE, 1, CLKS_NET_DHCP_MSG_REQUEST, CLKS_NET_DHCP_OPT_REQ_IP, 4] @
              clks_net_write_be32 req_ip @
              [CLKS_NET_DHCP_OPT_PARAM_REQ, 2, CLKS_NET_DHCP_OPT_ROUTER, CLKS_NET_DHCP_OPT_DNS, CLKS_NET_DHCP_OPT_END, 0]
        in clks_net_send_udp_datagram dv 0 0xFFFFFFFF clks_net_mac_broadcast CLKS_NET_DHCP_CLIENT_PORT CLKS_NET_DHCP_SERVER_PORT
             (dhcp_packet (clks_net_dhcp_xid s) (clks_net_mac s) opts) s)"

section \<open>Receiving\<close>

text \<open>The options of a DHCP message, and the loop that collects them.\<close>

record dhcp_options =
  do_msg_type :: u8
  do_server_id_be :: u32
  do_subnet_be :: u32
  do_router_be :: u32
  do_dns_be :: u32

definition dhcp_take_option :: "buf \<Rightarrow> u8 \<Rightarrow> nat \<Rightarrow> nat \<Rightarrow> dhcp_options \<Rightarrow> dhcp_options" where
  "dhcp_take_option payload code at n opts =
     (if code = CLKS_NET_DHCP_OPT_MSG_TYPE \<and> n \<ge> 1 then opts\<lparr>do_msg_type := payload at\<rparr>
      else if code = CLKS_NET_DHCP_OPT_SUBNET_MASK \<and> n \<ge> 4 then opts\<lparr>do_subnet_be := clks_net_read_be32 (advance payload at)\<rparr>
      else if code = CLKS_NET_DHCP_OPT_ROUTER \<and> n \<ge> 4 then opts\<lparr>do_router_be := clks_net_read_be32 (advance payload at)\<rparr>
      else if code = CLKS_NET_DHCP_OPT_DNS \<and> n \<ge> 4 then opts\<lparr>do_dns_be := clks_net_read_be32 (advance payload at)\<rparr>
      else if code = CLKS_NET_DHCP_OPT_SERVER_ID \<and> n \<ge> 4
           then opts\<lparr>do_server_id_be := clks_net_read_be32 (advance payload at)\<rparr>
      else opts)"

function dhcp_options_loop :: "buf \<Rightarrow> nat \<Rightarrow> nat \<Rightarrow> dhcp_options \<Rightarrow> dhcp_options" where
  "dhcp_options_loop payload payload_len at opts =
     (if at < payload_len then
        let code = payload at; at1 = at + 1 in
        if code = 0 then dhcp_options_loop payload payload_len at1 opts
        else if code = CLKS_NET_DHCP_OPT_END then opts
        else if at1 \<ge> payload_len then opts
        else
          let n = unat (payload at1); at2 = at1 + 1 in
          if at2 + n > payload_len then opts
          else
            dhcp_options_loop payload payload_len (at2 + n) (dhcp_take_option payload code at2 n opts)
      else opts)"
  by pat_completeness auto

termination
  by (relation "measure (\<lambda>(_, payload_len, at, _). payload_len - at)") auto

declare dhcp_options_loop.simps [simp del]

definition clks_net_dhcp_process_payload :: "u32 \<Rightarrow> buf \<Rightarrow> nat \<Rightarrow> 'd net_state \<Rightarrow> 'd net_state" where
  "clks_net_dhcp_process_payload src_ipv4_be payload payload_len s =
     (if payload_len < 240 \<or> \<not> clks_net_dhcp_active s then s
      else if payload 0 \<noteq> 2 \<or> payload 1 \<noteq> 1 \<or> payload 2 \<noteq> 6 then s
      else if clks_net_read_be32 (advance payload 4) \<noteq> clks_net_dhcp_xid s then s
      else if \<not> clks_net_mac_equal (mac_at (advance payload 28)) (clks_net_mac s) then s
      else if clks_net_read_be32 (advance payload 236) \<noteq> CLKS_NET_DHCP_MAGIC then s
      else
        let yiaddr_be = clks_net_read_be32 (advance payload 16);
            opts = dhcp_options_loop payload payload_len 240
              \<lparr>do_msg_type = 0, do_server_id_be = 0, do_subnet_be = 0, do_router_be = 0, do_dns_be = 0\<rparr>;
            msg_type = do_msg_type opts;
            server_id_be = (if do_server_id_be opts = 0 then src_ipv4_be else do_server_id_be opts)
        in
        if msg_type = CLKS_NET_DHCP_MSG_OFFER \<or> (msg_type = 0 \<and> \<not> clks_net_dhcp_offer_ready s) then
          s\<lparr>clks_net_dhcp_offer_ip_be := yiaddr_be, clks_net_dhcp_server_id_be := server_id_be,
            clks_net_dhcp_offer_netmask_be := do_subnet_be opts, clks_net_dhcp_offer_gateway_be := do_router_be opts,
            clks_net_dhcp_offer_dns_be := do_dns_be opts, clks_net_dhcp_offer_ready := True\<rparr>
        else if msg_type = CLKS_NET_DHCP_MSG_ACK \<or>
                (msg_type = 0 \<and> clks_net_dhcp_offer_ready s \<and> \<not> clks_net_dhcp_ack_ready s) then
          s\<lparr>clks_net_dhcp_offer_ip_be := (if yiaddr_be \<noteq> 0 then yiaddr_be else clks_net_dhcp_offer_ip_be s),
            clks_net_dhcp_server_id_be := (if server_id_be \<noteq> 0 then server_id_be else clks_net_dhcp_server_id_be s),
            clks_net_dhcp_offer_netmask_be := (if do_subnet_be opts \<noteq> 0 then do_subnet_be opts else clks_net_dhcp_offer_netmask_be s),
            clks_net_dhcp_offer_gateway_be := (if do_router_be opts \<noteq> 0 then do_router_be opts else clks_net_dhcp_offer_gateway_be s),
            clks_net_dhcp_offer_dns_be := (if do_dns_be opts \<noteq> 0 then do_dns_be opts else clks_net_dhcp_offer_dns_be s),
            clks_net_dhcp_ack_ready := True\<rparr>
        else if msg_type = CLKS_NET_DHCP_MSG_NAK then s\<lparr>clks_net_dhcp_failed := True\<rparr>
        else s)"

definition clks_net_process_icmp :: "'d net_device \<Rightarrow> u32 \<Rightarrow> u8 list \<Rightarrow> buf \<Rightarrow> nat \<Rightarrow> 'd net_state \<Rightarrow> 'd net_state" where
  "clks_net_process_icmp dv src_ipv4_be src_mac icmp icmp_len s =
     (if icmp_len < CLKS_NET_ICMP_HEADER_LEN then s
      else
        let ident = clks_net_read_be16 (advance icmp 4); seq = clks_net_read_be16 (advance icmp 6);
            payload = advance icmp CLKS_NET_ICMP_HEADER_LEN; payload_len = icmp_len - CLKS_NET_ICMP_HEADER_LEN in
        if icmp 0 = 8 \<and> icmp 1 = 0 then
          if ident = clks_net_ping_ident s
          then snd (clks_net_send_icmp_echo_reply dv src_ipv4_be src_mac seq (map payload [0..<payload_len]) s)
          else s
        else if icmp 0 = 0 \<and> icmp 1 = 0 then
          if ident = clks_net_ping_ident s \<and> clks_net_ping_waiting s \<and> seq = clks_net_ping_wait_seq s \<and>
             (src_ipv4_be = clks_net_ping_wait_dst_be s \<or>
              (clks_net_ping_wait_alt_src_be s \<noteq> 0 \<and> src_ipv4_be = clks_net_ping_wait_alt_src_be s))
          then s\<lparr>clks_net_ping_reply_ok := True, clks_net_ping_waiting := False\<rparr>
          else s
        else s)"

definition clks_net_process_udp :: "u32 \<Rightarrow> buf \<Rightarrow> nat \<Rightarrow> 'd net_state \<Rightarrow> 'd net_state" where
  "clks_net_process_udp src_ipv4_be udp udp_len s =
     (if udp_len < CLKS_NET_UDP_HEADER_LEN then s
      else
        let src_port = clks_net_read_be16 udp; dst_port = clks_net_read_be16 (advance udp 2);
            wire_len = unat (clks_net_read_be16 (advance udp 4)) in
        if wire_len < CLKS_NET_UDP_HEADER_LEN \<or> wire_len > udp_len then s
        else
          let payload = advance udp CLKS_NET_UDP_HEADER_LEN; payload_len = wire_len - CLKS_NET_UDP_HEADER_LEN in
          if dst_port = CLKS_NET_DHCP_CLIENT_PORT \<and> src_port = CLKS_NET_DHCP_SERVER_PORT
          then clks_net_dhcp_process_payload src_ipv4_be payload payload_len s
          else clks_net_udp_queue_push src_ipv4_be src_port dst_port payload payload_len s)"

text \<open>A segment for the listening connection.\<close>

definition tcp_accept_syn ::
  "'d net_device \<Rightarrow> u32 \<Rightarrow> u8 list \<Rightarrow> u16 \<Rightarrow> u16 \<Rightarrow> u16 \<Rightarrow> u32 \<Rightarrow> 'd net_state \<Rightarrow> 'd net_state" where
  "tcp_accept_syn dv src_ipv4_be src_mac src_port dst_port flags seq s =
     (let c = clks_net_tcp s in
      if flags AND CLKS_NET_TCP_FLAG_SYN \<noteq> 0 \<and> dst_port = tc_local_port c then
        let iss = clks_net_tcp_make_iss dv src_ipv4_be (tc_local_port c) src_port 0 s;
            c1 = c\<lparr>tc_remote_mac := src_mac, tc_remote_ipv4_be := src_ipv4_be, tc_remote_alt_ipv4_be := 0,
                   tc_remote_port := src_port, tc_snd_iss := iss, tc_snd_una := iss, tc_snd_nxt := iss + 1,
                   tc_rcv_nxt := seq + 1, tc_state := TCP_SYN_RECEIVED\<rparr>
        in snd (clks_net_send_tcp_segment_raw dv (clks_net_ipv4_be s) (tc_remote_ipv4_be c1) (tc_remote_mac c1)
             (tc_local_port c1) (tc_remote_port c1) (tc_snd_iss c1) (tc_rcv_nxt c1)
             (CLKS_NET_TCP_FLAG_SYN OR CLKS_NET_TCP_FLAG_ACK) [] (s\<lparr>clks_net_tcp := c1\<rparr>))
      else s)"

text \<open>
  A segment for a connection past its handshake, in the order of the code: the acknowledgement, the
  data, the end of the stream, and the two states that wait for an acknowledgement of our end.
\<close>

definition tcp_take_ack :: "u16 \<Rightarrow> u32 \<Rightarrow> clks_net_tcp_conn \<Rightarrow> clks_net_tcp_conn" where
  "tcp_take_ack flags ack c =
     (if flags AND CLKS_NET_TCP_FLAG_ACK \<noteq> 0 \<and> clks_net_tcp_seq_ge ack (tc_snd_una c) \<and> clks_net_tcp_seq_le ack (tc_snd_nxt c)
      then c\<lparr>tc_snd_una := ack\<rparr> else c)"

definition tcp_take_data :: "u32 \<Rightarrow> u8 list \<Rightarrow> clks_net_tcp_conn \<Rightarrow> clks_net_tcp_conn" where
  "tcp_take_data seq data c =
     (if data \<noteq> [] \<and> seq = tc_rcv_nxt c
      then (fold recv_store data c)\<lparr>tc_rcv_nxt := tc_rcv_nxt c + of_nat (length data)\<rparr> else c)"

definition tcp_take_fin :: "u16 \<Rightarrow> u32 \<Rightarrow> clks_net_tcp_conn \<Rightarrow> clks_net_tcp_conn" where
  "tcp_take_fin flags fin_seq c =
     (if flags AND CLKS_NET_TCP_FLAG_FIN \<noteq> 0 then
        let c1 = (if fin_seq = tc_rcv_nxt c then c\<lparr>tc_rcv_nxt := tc_rcv_nxt c + 1\<rparr> else c);
            c2 = c1\<lparr>tc_peer_fin := True\<rparr>
        in if tc_state c2 = TCP_ESTABLISHED then c2\<lparr>tc_state := TCP_CLOSE_WAIT\<rparr>
           else if tc_state c2 = TCP_FIN_WAIT2 then c2\<lparr>tc_state := TCP_CLOSED, tc_active := False\<rparr>
           else c2
      else c)"

definition tcp_our_fin :: "clks_net_tcp_conn \<Rightarrow> clks_net_tcp_conn" where
  "tcp_our_fin c =
     (let c1 = (if tc_state c = TCP_FIN_WAIT1 \<and> clks_net_tcp_seq_ge (tc_snd_una c) (tc_snd_nxt c) then
                  if tc_peer_fin c then c\<lparr>tc_state := TCP_CLOSED, tc_active := False\<rparr> else c\<lparr>tc_state := TCP_FIN_WAIT2\<rparr>
                else c)
      in if tc_state c1 = TCP_LAST_ACK \<and> clks_net_tcp_seq_ge (tc_snd_una c1) (tc_snd_nxt c1)
         then c1\<lparr>tc_state := TCP_CLOSED, tc_active := False\<rparr> else c1)"

text \<open>A segment whose header has been read: its ports, flags, numbers and data.\<close>

definition tcp_input ::
  "'d net_device \<Rightarrow> u32 \<Rightarrow> u8 list \<Rightarrow> u16 \<Rightarrow> u16 \<Rightarrow> u16 \<Rightarrow> u32 \<Rightarrow> u32 \<Rightarrow> u8 list \<Rightarrow> 'd net_state \<Rightarrow> 'd net_state" where
  "tcp_input dv src_ipv4_be src_mac src_port dst_port flags seq ack data s =
     (let c = clks_net_tcp s in
      if \<not> tc_active c then s
      else if tc_state c = TCP_LISTEN then tcp_accept_syn dv src_ipv4_be src_mac src_port dst_port flags seq s
      else if (tc_remote_ipv4_be c \<noteq> src_ipv4_be \<and> (tc_remote_alt_ipv4_be c = 0 \<or> tc_remote_alt_ipv4_be c \<noteq> src_ipv4_be)) \<or>
              tc_remote_port c \<noteq> src_port \<or> tc_local_port c \<noteq> dst_port then s
      else
        let c1 = c\<lparr>tc_remote_mac := src_mac\<rparr>; s1 = s\<lparr>clks_net_tcp := c1\<rparr> in
        if flags AND CLKS_NET_TCP_FLAG_RST \<noteq> 0
        then s\<lparr>clks_net_tcp := c1\<lparr>tc_reset_seen := True, tc_active := False, tc_state := TCP_CLOSED\<rparr>\<rparr>
        else if tc_state c1 = TCP_SYN_SENT then
          if (flags AND (CLKS_NET_TCP_FLAG_SYN OR CLKS_NET_TCP_FLAG_ACK)) = (CLKS_NET_TCP_FLAG_SYN OR CLKS_NET_TCP_FLAG_ACK) \<and>
             ack = tc_snd_nxt c1
          then snd (clks_net_send_tcp_ack dv
                 (s\<lparr>clks_net_tcp := c1\<lparr>tc_snd_una := ack, tc_rcv_nxt := seq + 1, tc_state := TCP_ESTABLISHED\<rparr>\<rparr>))
          else if flags AND CLKS_NET_TCP_FLAG_SYN = 0 \<and> flags AND CLKS_NET_TCP_FLAG_ACK \<noteq> 0
          then s\<lparr>clks_net_tcp := c1\<lparr>tc_stale_ack_seen := True\<rparr>\<rparr>
          else s1
        else if tc_state c1 = TCP_SYN_RECEIVED \<and> \<not> (flags AND CLKS_NET_TCP_FLAG_ACK \<noteq> 0 \<and> ack = tc_snd_nxt c1) then s1
        else
          let c2 = (if tc_state c1 = TCP_SYN_RECEIVED then c1\<lparr>tc_snd_una := ack, tc_state := TCP_ESTABLISHED\<rparr> else c1);
              c3 = tcp_our_fin (tcp_take_fin flags (seq + of_nat (length data)) (tcp_take_data seq data (tcp_take_ack flags ack c2)));
              ack_needed = (data \<noteq> [] \<or> flags AND CLKS_NET_TCP_FLAG_FIN \<noteq> 0);
              s3 = s\<lparr>clks_net_tcp := c3\<rparr>
          in if ack_needed \<and> tc_active c3 then snd (clks_net_send_tcp_ack dv s3) else s3)"

definition clks_net_process_tcp :: "'d net_device \<Rightarrow> u32 \<Rightarrow> u8 list \<Rightarrow> buf \<Rightarrow> nat \<Rightarrow> 'd net_state \<Rightarrow> 'd net_state" where
  "clks_net_process_tcp dv src_ipv4_be src_mac tcp tcp_len s =
     (if tcp_len < CLKS_NET_TCP_HEADER_MIN_LEN then s
      else
        let src_port = clks_net_read_be16 tcp; dst_port = clks_net_read_be16 (advance tcp 2);
            raw_flags = clks_net_read_be16 (advance tcp 12);
            header_len = unat (drop_bit 12 raw_flags AND 0xF) * 4; flags = raw_flags AND 0x1FF;
            seq = clks_net_read_be32 (advance tcp 4); ack = clks_net_read_be32 (advance tcp 8) in
        if header_len < CLKS_NET_TCP_HEADER_MIN_LEN \<or> header_len > tcp_len then s
        else tcp_input dv src_ipv4_be src_mac src_port dst_port flags seq ack
               (map (advance tcp header_len) [0..<tcp_len - header_len]) s)"

definition clks_net_process_ipv4 :: "'d net_device \<Rightarrow> buf \<Rightarrow> nat \<Rightarrow> 'd net_state \<Rightarrow> 'd net_state" where
  "clks_net_process_ipv4 dv frame frame_len s =
     (if frame_len < CLKS_NET_ETH_HEADER_LEN + CLKS_NET_IP_HEADER_MIN_LEN then s
      else
        let ip = advance frame CLKS_NET_ETH_HEADER_LEN; ip_len = frame_len - CLKS_NET_ETH_HEADER_LEN in
        if drop_bit 4 (ip 0) \<noteq> 4 then s
        else
          let ihl_words = unat (ip 0 AND 0xF); ihl_bytes = ihl_words * 4; total_len = unat (clks_net_read_be16 (advance ip 2)) in
          if ihl_words < 5 then s
          else if ihl_bytes > ip_len then s
          else if total_len < ihl_bytes \<or> total_len > ip_len then s
          else if clks_net_read_be16 (advance ip 6) AND 0x3FFF \<noteq> 0 then s
          else
            let dst_ipv4_be = clks_net_read_be32 (advance ip 16); l4 = advance ip ihl_bytes; l4_len = total_len - ihl_bytes;
                proto = ip 9; eth_src = mac_at (advance frame 6) in
            if dst_ipv4_be \<noteq> clks_net_ipv4_be s \<and> dst_ipv4_be \<noteq> 0xFFFFFFFF \<and>
               \<not> (clks_net_dhcp_active s \<and> clks_net_ipv4_be s = 0 \<and> proto = CLKS_NET_IPV4_PROTO_UDP \<and>
                  l4_len \<ge> CLKS_NET_UDP_HEADER_LEN \<and> clks_net_read_be16 l4 = CLKS_NET_DHCP_SERVER_PORT \<and>
                  clks_net_read_be16 (advance l4 2) = CLKS_NET_DHCP_CLIENT_PORT) then s
            else
              let src_ipv4_be = clks_net_read_be32 (advance ip 12) in
              if src_ipv4_be = 0 then s
              else
                let s1 = clks_net_arp_upsert src_ipv4_be eth_src s in
                if proto = CLKS_NET_IPV4_PROTO_ICMP then clks_net_process_icmp dv src_ipv4_be eth_src l4 l4_len s1
                else if proto = CLKS_NET_IPV4_PROTO_UDP then clks_net_process_udp src_ipv4_be l4 l4_len s1
                else if proto = CLKS_NET_IPV4_PROTO_TCP then clks_net_process_tcp dv src_ipv4_be eth_src l4 l4_len s1
                else s1)"

definition clks_net_process_arp :: "'d net_device \<Rightarrow> buf \<Rightarrow> nat \<Rightarrow> 'd net_state \<Rightarrow> 'd net_state" where
  "clks_net_process_arp dv frame frame_len s =
     (if frame_len < CLKS_NET_ETH_HEADER_LEN + 28 then s
      else
        let arp = advance frame CLKS_NET_ETH_HEADER_LEN in
        if clks_net_read_be16 arp \<noteq> CLKS_NET_ARP_HTYPE_ETHERNET then s
        else if clks_net_read_be16 (advance arp 2) \<noteq> CLKS_NET_ETHERTYPE_IPV4 then s
        else if arp 4 \<noteq> 6 \<or> arp 5 \<noteq> 4 then s
        else
          let op = clks_net_read_be16 (advance arp 6); sender_ip_be = clks_net_read_be32 (advance arp 14);
              target_ip_be = clks_net_read_be32 (advance arp 24); sha = mac_at (advance arp 8);
              s1 = (if sender_ip_be \<noteq> 0 \<and> \<not> clks_net_mac_invalid sha then clks_net_arp_upsert sender_ip_be sha s else s)
          in if op = CLKS_NET_ARP_OP_REQUEST \<and> target_ip_be = clks_net_ipv4_be s1
             then snd (clks_net_send_arp_packet dv CLKS_NET_ARP_OP_REPLY (mac_at (advance frame 6)) sender_ip_be s1)
             else s1)"

definition clks_net_process_frame :: "'d net_device \<Rightarrow> buf \<Rightarrow> nat \<Rightarrow> 'd net_state \<Rightarrow> 'd net_state" where
  "clks_net_process_frame dv frame frame_len s =
     (if frame_len < CLKS_NET_ETH_HEADER_LEN then s
      else if \<not> clks_net_mac_equal (mac_at frame) (clks_net_mac s) \<and> \<not> clks_net_mac_equal (mac_at frame) clks_net_mac_broadcast then s
      else
        let ethertype = clks_net_read_be16 (advance frame 12) in
        if ethertype = CLKS_NET_ETHERTYPE_ARP then clks_net_process_arp dv frame frame_len s
        else if ethertype = CLKS_NET_ETHERTYPE_IPV4 then clks_net_process_ipv4 dv frame frame_len s
        else s)"

text \<open>The loop over the receive descriptors.\<close>

fun rx_loop :: "'d net_device \<Rightarrow> nat \<Rightarrow> 'd net_state \<Rightarrow> 'd net_state" where
  "rx_loop dv 0 s = s"
| "rx_loop dv (Suc n) s =
     (case on_dev (nd_rx dv (clks_net_rx_index s)) s of
        (None, s1) \<Rightarrow> s1
      | (Some (len, frame), s1) \<Rightarrow>
          let s2 = (if 0 < len \<and> len \<le> CLKS_NET_BUF_SIZE then clks_net_process_frame dv frame len s1 else s1)
          in rx_loop dv n (s2\<lparr>net_dev := nd_rx_done dv (clks_net_rx_index s2) (net_dev s2),
               clks_net_rx_index := (clks_net_rx_index s2 + 1) mod CLKS_NET_DESC_COUNT\<rparr>))"

definition clks_net_poll_internal :: "'d net_device \<Rightarrow> 'd net_state \<Rightarrow> 'd net_state" where
  "clks_net_poll_internal dv s = (if \<not> clks_net_hw_ready s then s else rx_loop dv CLKS_NET_DESC_COUNT s)"

definition clks_net_poll :: "'d net_device \<Rightarrow> 'd net_state \<Rightarrow> 'd net_state" where
  "clks_net_poll dv s = clks_net_poll_internal dv s"
section \<open>Waiting\<close>

text \<open>
  The loops that poll the card at most a number of times and stop at the first turn that has a result;
  the pauses between the turns are left out.
\<close>

fun poll_until :: "('s \<Rightarrow> 'r option \<times> 's) \<Rightarrow> nat \<Rightarrow> 's \<Rightarrow> 'r option \<times> 's" where
  "poll_until f 0 s = (None, s)"
| "poll_until f (Suc n) s = (case f s of (None, s1) \<Rightarrow> poll_until f n s1 | (Some r, s1) \<Rightarrow> (Some r, s1))"

text \<open>One stage of DHCP: at most four sends, each with its wait. The result tells whether the server refused.\<close>

fun dhcp_stage :: "'d net_device \<Rightarrow> ('d net_state \<Rightarrow> bool \<times> 'd net_state) \<Rightarrow> ('d net_state \<Rightarrow> bool) \<Rightarrow> nat \<Rightarrow>
   'd net_state \<Rightarrow> bool \<times> 'd net_state" where
  "dhcp_stage dv send ready 0 s = (False, s)"
| "dhcp_stage dv send ready (Suc n) s =
     (case send s of (ok, s1) \<Rightarrow>
        if \<not> ok then dhcp_stage dv send ready n s1
        else case poll_until (\<lambda>t. let t1 = clks_net_poll_internal dv t in
               (if clks_net_dhcp_failed t1 then Some True else if ready t1 then Some False else None, t1))
             CLKS_NET_DHCP_STAGE_POLL_LOOPS s1 of
          (Some failed, s2) \<Rightarrow> (failed, s2)
        | (None, s2) \<Rightarrow> dhcp_stage dv send ready n s2)"

definition clks_net_dhcp_autoconfigure :: "'d net_device \<Rightarrow> 'd net_state \<Rightarrow> bool \<times> 'd net_state" where
  "clks_net_dhcp_autoconfigure dv s =
     (let s0 = clks_net_dhcp_state_reset s;
          seed = (if clks_net_dhcp_xid_seed s0 + 1 = 0 then 1 else clks_net_dhcp_xid_seed s0 + 1);
          s1 = s0\<lparr>clks_net_dhcp_active := True, clks_net_dhcp_xid_seed := seed, clks_net_dhcp_xid := seed\<rparr>
      in case dhcp_stage dv (clks_net_dhcp_send_discover dv) clks_net_dhcp_offer_ready CLKS_NET_DHCP_STAGE_RETRIES s1 of
           (refused, s2) \<Rightarrow>
             if refused \<or> \<not> clks_net_dhcp_offer_ready s2 \<or> clks_net_dhcp_offer_ip_be s2 = 0 \<or> clks_net_dhcp_server_id_be s2 = 0
             then (False, s2\<lparr>clks_net_dhcp_active := False\<rparr>)
             else case dhcp_stage dv (clks_net_dhcp_send_request dv) clks_net_dhcp_ack_ready CLKS_NET_DHCP_STAGE_RETRIES s2 of
               (refused', s3) \<Rightarrow>
                 let s4 = s3\<lparr>clks_net_dhcp_active := False\<rparr> in
                 if refused' \<or> \<not> clks_net_dhcp_ack_ready s4 \<or> clks_net_dhcp_offer_ip_be s4 = 0 then (False, s4)
                 else (True, s4\<lparr>clks_net_ipv4_be := clks_net_dhcp_offer_ip_be s4,
                   clks_net_netmask_be := (if clks_net_dhcp_offer_netmask_be s4 \<noteq> 0 then clks_net_dhcp_offer_netmask_be s4
                                           else CLKS_NET_FALLBACK_NETMASK_BE),
                   clks_net_gateway_be := (if clks_net_dhcp_offer_gateway_be s4 \<noteq> 0 then clks_net_dhcp_offer_gateway_be s4
                                           else if clks_net_dhcp_server_id_be s4 \<noteq> 0 then clks_net_dhcp_server_id_be s4
                                           else CLKS_NET_FALLBACK_GATEWAY_BE),
                   clks_net_dns_be := (if clks_net_dhcp_offer_dns_be s4 \<noteq> 0 then clks_net_dhcp_offer_dns_be s4
                                       else CLKS_NET_CLOUDFLARE_DNS_PRIMARY_BE)\<rparr>))"

definition clks_net_resolve_ipv4 :: "'d net_device \<Rightarrow> u32 \<Rightarrow> nat \<Rightarrow> 'd net_state \<Rightarrow> u8 list option \<times> 'd net_state" where
  "clks_net_resolve_ipv4 dv dst_ipv4_be poll_budget s =
     (if dst_ipv4_be = 0 then (None, s)
      else if dst_ipv4_be = clks_net_ipv4_be s then (Some (clks_net_mac s), s)
      else
        let target_ip_be = clks_net_next_hop_for dst_ipv4_be s in
        if target_ip_be = 0 then (None, s)
        else case clks_net_arp_lookup target_ip_be s of
          Some mac \<Rightarrow> (Some mac, s)
        | None \<Rightarrow>
            poll_until (\<lambda>t. let t1 = clks_net_poll dv t in (clks_net_arp_lookup target_ip_be t1, t1))
              (if poll_budget = 0 then 100000 else poll_budget)
              (snd (clks_net_send_arp_packet dv CLKS_NET_ARP_OP_REQUEST clks_net_mac_broadcast target_ip_be s)))"

section \<open>The interface\<close>

definition net_cleared :: "'d net_state \<Rightarrow> 'd net_state" where
  "net_cleared s =
     (clks_net_dhcp_state_reset (clks_net_tcp_reset (clks_net_udp_queue_reset (clks_net_arp_table_reset
       (s\<lparr>clks_net_mac := [0, 0, 0, 0, 0, 0], clks_net_rx_index := 0, clks_net_tx_index := 0\<rparr>)))))
     \<lparr>clks_net_ipv4_be := CLKS_NET_DEFAULT_IP_BE, clks_net_netmask_be := CLKS_NET_DEFAULT_NETMASK_BE,
      clks_net_gateway_be := CLKS_NET_DEFAULT_GATEWAY_BE, clks_net_dns_be := CLKS_NET_DEFAULT_DNS_BE,
      clks_net_ipv4_ident := 1, clks_net_ping_seq := 0, clks_net_ping_waiting := False, clks_net_ping_reply_ok := False,
      clks_net_ping_wait_dst_be := 0, clks_net_ping_wait_alt_src_be := 0, clks_net_ping_wait_seq := 0,
      clks_net_ready := False, clks_net_hw_ready := False\<rparr>"

definition clks_net_init :: "'d net_device \<Rightarrow> 'd net_state \<Rightarrow> 'd net_state" where
  "clks_net_init dv s =
     (case on_dev (nd_hw_init dv) (net_cleared s) of
        (None, s1) \<Rightarrow> s1
      | (Some mac, s1) \<Rightarrow>
          let s2 = s1\<lparr>clks_net_mac := mac, clks_net_hw_ready := True\<rparr> in
          (case (if CLKS_CFG_NET_DHCP_CLIENT then clks_net_dhcp_autoconfigure dv s2 else (False, s2)) of
             (ok, s3) \<Rightarrow> (if ok then s3 else clks_net_apply_fallback_config s3)\<lparr>clks_net_ready := True\<rparr>))"

definition clks_net_available :: "'d net_state \<Rightarrow> bool" where
  "clks_net_available s \<longleftrightarrow> clks_net_ready s \<and> clks_net_hw_ready s"

definition clks_net_ipv4_addr_be :: "'d net_state \<Rightarrow> u32" where
  "clks_net_ipv4_addr_be s = (if \<not> clks_net_available s then 0 else clks_net_ipv4_be s)"

definition clks_net_ipv4_netmask_be :: "'d net_state \<Rightarrow> u32" where
  "clks_net_ipv4_netmask_be s = (if \<not> clks_net_available s then 0 else clks_net_netmask_be s)"

definition clks_net_ipv4_gateway_be :: "'d net_state \<Rightarrow> u32" where
  "clks_net_ipv4_gateway_be s = (if \<not> clks_net_available s then 0 else clks_net_gateway_be s)"

definition clks_net_ipv4_dns_be :: "'d net_state \<Rightarrow> u32" where
  "clks_net_ipv4_dns_be s = (if \<not> clks_net_available s then 0 else clks_net_dns_be s)"

definition clks_net_ping_ipv4 :: "'d net_device \<Rightarrow> u32 \<Rightarrow> nat \<Rightarrow> 'd net_state \<Rightarrow> bool \<times> 'd net_state" where
  "clks_net_ping_ipv4 dv dst_ipv4_be poll_budget s =
     (if \<not> clks_net_available s then (False, s)
      else if dst_ipv4_be = 0 then (False, s)
      else if dst_ipv4_be = clks_net_ipv4_be s then (True, s)
      else
        let budget = (if poll_budget = 0 then CLKS_NET_PING_DEFAULT_POLL_LOOPS
                      else if poll_budget < CLKS_NET_PING_MIN_POLL_LOOPS then CLKS_NET_PING_MIN_POLL_LOOPS else poll_budget);
            resolve_budget = (if budget div 2 < 20000 then 20000 else budget div 2)
        in case clks_net_resolve_ipv4 dv dst_ipv4_be resolve_budget s of
             (None, s1) \<Rightarrow> (False, s1)
           | (Some dst_mac, s1) \<Rightarrow>
               let seq = clks_net_ping_seq s1 + 1; next_hop = clks_net_next_hop_for dst_ipv4_be s1;
                   s2 = s1\<lparr>clks_net_ping_seq := seq, clks_net_ping_wait_dst_be := dst_ipv4_be,
                          clks_net_ping_wait_alt_src_be := (if next_hop \<noteq> dst_ipv4_be then next_hop else 0),
                          clks_net_ping_wait_seq := seq, clks_net_ping_reply_ok := False, clks_net_ping_waiting := True\<rparr>
               in case clks_net_send_icmp_echo_request dv dst_ipv4_be dst_mac seq s2 of (ok, s3) \<Rightarrow>
                    if \<not> ok then (False, s3\<lparr>clks_net_ping_waiting := False, clks_net_ping_wait_alt_src_be := 0\<rparr>)
                    else case poll_until (\<lambda>t. let t1 = clks_net_poll_internal dv t in
                           (if clks_net_ping_reply_ok t1 then Some () else None, t1)) budget s3 of
                      (Some _, s4) \<Rightarrow> (True, s4\<lparr>clks_net_ping_reply_ok := False, clks_net_ping_wait_alt_src_be := 0\<rparr>)
                    | (None, s4) \<Rightarrow> (False, s4\<lparr>clks_net_ping_waiting := False, clks_net_ping_reply_ok := False,
                                            clks_net_ping_wait_alt_src_be := 0\<rparr>))"

definition clks_net_udp_send ::
  "'d net_device \<Rightarrow> u32 \<Rightarrow> u16 \<Rightarrow> u16 \<Rightarrow> u8 list \<Rightarrow> 'd net_state \<Rightarrow> nat \<times> 'd net_state" where
  "clks_net_udp_send dv dst_ipv4_be dst_port src_port payload s =
     (if \<not> clks_net_available s then (0, s)
      else if dst_ipv4_be = 0 \<or> dst_port = 0 \<or> src_port = 0 then (0, s)
      else if length payload > CLKS_NET_UDP_PAYLOAD_MAX then (0, s)
      else
        case (if dst_ipv4_be = 0xFFFFFFFF then (Some clks_net_mac_broadcast, s)
              else clks_net_resolve_ipv4 dv dst_ipv4_be 120000 s) of
          (None, s1) \<Rightarrow> (0, s1)
        | (Some dst_mac, s1) \<Rightarrow>
            (case clks_net_send_udp_datagram dv (clks_net_ipv4_be s1) dst_ipv4_be dst_mac src_port dst_port payload s1 of
               (ok, s2) \<Rightarrow> (if ok then length payload else 0, s2)))"

text \<open>The bytes copied with the sender and the ports, or \<open>None\<close> when there is no datagram.\<close>

definition clks_net_udp_recv ::
  "'d net_device \<Rightarrow> nat \<Rightarrow> 'd net_state \<Rightarrow> (u8 list \<times> u32 \<times> u16 \<times> u16) option \<times> 'd net_state" where
  "clks_net_udp_recv dv payload_capacity s =
     (if \<not> clks_net_available s \<or> payload_capacity = 0 then (None, s)
      else
        let s1 = clks_net_poll_internal dv s in
        if clks_net_udp_count s1 = 0 then (None, s1)
        else
          let pkt = clks_net_udp_queue s1 (clks_net_udp_head s1);
              s2 = s1\<lparr>clks_net_udp_head := (clks_net_udp_head s1 + 1) mod CLKS_NET_UDP_QUEUE_CAP,
                     clks_net_udp_count := clks_net_udp_count s1 - 1\<rparr>
          in if \<not> up_valid pkt then (None, s2)
             else (Some (take payload_capacity (up_payload pkt), up_src_ipv4_be pkt, up_src_port pkt, up_dst_port pkt),
                   s2\<lparr>clks_net_udp_queue := (clks_net_udp_queue s2)(clks_net_udp_head s1 := pkt\<lparr>up_valid := False\<rparr>)\<rparr>))"

text \<open>A wait for the handshake: why it ended.\<close>

datatype tcp_event = Ev_Reset | Ev_Stale | Ev_Done

fun tcp_connect_tries ::
  "'d net_device \<Rightarrow> u32 \<Rightarrow> u16 \<Rightarrow> nat \<Rightarrow> nat list \<Rightarrow> 'd net_state \<Rightarrow> bool option \<times> 'd net_state" where
  "tcp_connect_tries dv dst_ipv4_be src_port per_try_budget [] s = (None, s)"
| "tcp_connect_tries dv dst_ipv4_be src_port per_try_budget (try_index # tries) s =
     (let s1 = (if src_port = 0 \<and> try_index > 0
                then case clks_net_tcp_next_ephemeral_port dv s of (port, t) \<Rightarrow> tcp_upd (\<lambda>c. c\<lparr>tc_local_port := port\<rparr>) t
                else s);
          c = clks_net_tcp s1;
          iss = clks_net_tcp_make_iss dv dst_ipv4_be (tc_local_port c) (tc_remote_port c) (of_nat try_index) s1;
          s2 = s1\<lparr>clks_net_tcp := c\<lparr>tc_snd_iss := iss, tc_snd_una := iss, tc_snd_nxt := iss + 1, tc_rcv_nxt := 0,
                 tc_stale_ack_seen := False\<rparr>\<rparr>
      in case clks_net_send_tcp_segment_raw dv (clks_net_ipv4_be s2) dst_ipv4_be (tc_remote_mac c) (tc_local_port c)
                (tc_remote_port c) iss 0 CLKS_NET_TCP_FLAG_SYN [] s2 of (ok, s3) \<Rightarrow>
           if \<not> ok then tcp_connect_tries dv dst_ipv4_be src_port per_try_budget tries
                          (s3\<lparr>clks_net_tcp_last_err := CLKS_NET_TCP_ERR_SYN_TX\<rparr>)
           else case poll_until (\<lambda>t. let t1 = clks_net_poll_internal dv t in
                  (if tc_reset_seen (clks_net_tcp t1) then Some Ev_Reset
                   else if tc_stale_ack_seen (clks_net_tcp t1) then Some Ev_Stale
                   else if tc_state (clks_net_tcp t1) = TCP_ESTABLISHED then Some Ev_Done else None, t1)) per_try_budget s3 of
             (Some Ev_Reset, s4) \<Rightarrow> (Some False, (clks_net_tcp_reset s4)\<lparr>clks_net_tcp_last_err := CLKS_NET_TCP_ERR_RST\<rparr>)
           | (Some Ev_Stale, s4) \<Rightarrow> tcp_connect_tries dv dst_ipv4_be src_port per_try_budget tries
                                     (s4\<lparr>clks_net_tcp_last_err := CLKS_NET_TCP_ERR_STALE_ACK\<rparr>)
           | (Some Ev_Done, s4) \<Rightarrow> (Some True, s4\<lparr>clks_net_tcp_last_err := CLKS_NET_TCP_ERR_NONE\<rparr>)
           | (None, s4) \<Rightarrow> tcp_connect_tries dv dst_ipv4_be src_port per_try_budget tries s4)"

definition clks_net_tcp_connect ::
  "'d net_device \<Rightarrow> u32 \<Rightarrow> u16 \<Rightarrow> u16 \<Rightarrow> nat \<Rightarrow> 'd net_state \<Rightarrow> bool \<times> 'd net_state" where
  "clks_net_tcp_connect dv dst_ipv4_be dst_port src_port poll_budget s =
     (let s0 = s\<lparr>clks_net_tcp_last_err := CLKS_NET_TCP_ERR_NONE\<rparr> in
      if \<not> clks_net_available s0 then (False, s0\<lparr>clks_net_tcp_last_err := CLKS_NET_TCP_ERR_UNAVAILABLE\<rparr>)
      else if dst_ipv4_be = 0 \<or> dst_port = 0 then (False, s0\<lparr>clks_net_tcp_last_err := CLKS_NET_TCP_ERR_BAD_ARG\<rparr>)
      else
        let budget = (if poll_budget = 0 then CLKS_NET_TCP_DEFAULT_POLL_LOOPS
                      else if poll_budget < CLKS_NET_TCP_MIN_POLL_LOOPS then CLKS_NET_TCP_MIN_POLL_LOOPS else poll_budget)
        in case clks_net_resolve_ipv4 dv dst_ipv4_be (budget div 2) s0 of
             (None, s1) \<Rightarrow> (False, s1\<lparr>clks_net_tcp_last_err := CLKS_NET_TCP_ERR_ARP\<rparr>)
           | (Some dst_mac, s1) \<Rightarrow>
               let next_hop = clks_net_next_hop_for dst_ipv4_be s1;
                   s2 = tcp_upd (\<lambda>c. c\<lparr>tc_active := True, tc_state := TCP_SYN_SENT, tc_remote_ipv4_be := dst_ipv4_be,
                          tc_remote_alt_ipv4_be := (if next_hop \<noteq> dst_ipv4_be then next_hop else 0), tc_remote_port := dst_port\<rparr>)
                          (clks_net_tcp_reset s1);
                   (port, s3) = (if src_port \<noteq> 0 then (src_port, s2) else clks_net_tcp_next_ephemeral_port dv s2);
                   s4 = tcp_upd (\<lambda>c. c\<lparr>tc_local_port := port, tc_remote_mac := dst_mac\<rparr>) s3;
                   per_try_budget = (if budget div CLKS_NET_TCP_RETRY_COUNT < 20000 then 20000 else budget div CLKS_NET_TCP_RETRY_COUNT)
               in case tcp_connect_tries dv dst_ipv4_be src_port per_try_budget [0..<CLKS_NET_TCP_RETRY_COUNT] s4 of
                    (Some ok, s5) \<Rightarrow> (ok, s5)
                  | (None, s5) \<Rightarrow>
                      let s6 = clks_net_tcp_reset s5
                      in (False, if clks_net_tcp_last_err s6 \<in> {CLKS_NET_TCP_ERR_NONE, CLKS_NET_TCP_ERR_SYN_TX}
                                 then s6\<lparr>clks_net_tcp_last_err := CLKS_NET_TCP_ERR_TIMEOUT\<rparr> else s6))"

definition clks_net_tcp_listen :: "u16 \<Rightarrow> 'd net_state \<Rightarrow> bool \<times> 'd net_state" where
  "clks_net_tcp_listen port s =
     (let s0 = s\<lparr>clks_net_tcp_last_err := CLKS_NET_TCP_ERR_NONE\<rparr> in
      if \<not> clks_net_available s0 then (False, s0\<lparr>clks_net_tcp_last_err := CLKS_NET_TCP_ERR_UNAVAILABLE\<rparr>)
      else if port = 0 then (False, s0\<lparr>clks_net_tcp_last_err := CLKS_NET_TCP_ERR_BAD_ARG\<rparr>)
      else (True, tcp_upd (\<lambda>c. c\<lparr>tc_active := True, tc_state := TCP_LISTEN, tc_local_port := port\<rparr>) (clks_net_tcp_reset s0)))"

definition clks_net_tcp_accept :: "'d net_device \<Rightarrow> nat \<Rightarrow> 'd net_state \<Rightarrow> bool \<times> 'd net_state" where
  "clks_net_tcp_accept dv poll_budget s =
     (if \<not> tc_active (clks_net_tcp s) \<or> tc_state (clks_net_tcp s) \<noteq> TCP_LISTEN
      then (False, s\<lparr>clks_net_tcp_last_err := CLKS_NET_TCP_ERR_BAD_ARG\<rparr>)
      else
        let budget = (if poll_budget = 0 then CLKS_NET_TCP_DEFAULT_POLL_LOOPS
                      else if poll_budget < CLKS_NET_TCP_MIN_POLL_LOOPS then CLKS_NET_TCP_MIN_POLL_LOOPS else poll_budget)
        in case poll_until (\<lambda>t. let t1 = clks_net_poll_internal dv t in
               (if tc_reset_seen (clks_net_tcp t1) then Some Ev_Reset
                else if tc_state (clks_net_tcp t1) = TCP_ESTABLISHED then Some Ev_Done else None, t1)) budget s of
             (Some Ev_Reset, s1) \<Rightarrow> (False, (clks_net_tcp_reset s1)\<lparr>clks_net_tcp_last_err := CLKS_NET_TCP_ERR_RST\<rparr>)
           | (Some _, s1) \<Rightarrow> (True, s1\<lparr>clks_net_tcp_last_err := CLKS_NET_TCP_ERR_NONE\<rparr>)
           | (None, s1) \<Rightarrow> (False, s1\<lparr>clks_net_tcp_last_err := CLKS_NET_TCP_ERR_TIMEOUT\<rparr>))"

text \<open>At most four sends of one chunk, each with its wait; \<open>None\<close> when none was acknowledged.\<close>

fun tcp_send_tries ::
  "'d net_device \<Rightarrow> nat \<Rightarrow> nat \<Rightarrow> u32 \<Rightarrow> u8 list \<Rightarrow> 'd net_state \<Rightarrow> tcp_event option \<times> 'd net_state" where
  "tcp_send_tries dv per_try_budget 0 seq_start chunk s = (None, s)"
| "tcp_send_tries dv per_try_budget (Suc n) seq_start chunk s =
     (let c = clks_net_tcp s in
      case clks_net_send_tcp_segment_raw dv (clks_net_ipv4_be s) (tc_remote_ipv4_be c) (tc_remote_mac c) (tc_local_port c)
             (tc_remote_port c) seq_start (tc_rcv_nxt c) (CLKS_NET_TCP_FLAG_ACK OR CLKS_NET_TCP_FLAG_PSH) chunk s of (ok, s1) \<Rightarrow>
        if \<not> ok then tcp_send_tries dv per_try_budget n seq_start chunk s1
        else case poll_until (\<lambda>t. let t1 = clks_net_poll_internal dv t in
               (if tc_reset_seen (clks_net_tcp t1) then Some Ev_Reset
                else if clks_net_tcp_seq_ge (tc_snd_una (clks_net_tcp t1)) (seq_start + of_nat (length chunk)) then Some Ev_Done
                else None, t1)) per_try_budget s1 of
          (Some e, s2) \<Rightarrow> (Some e, s2)
        | (None, s2) \<Rightarrow> tcp_send_tries dv per_try_budget n seq_start chunk s2)"

text \<open>The loop over the chunks; a result \<open>None\<close> is a call that does not return.\<close>

partial_function (option) tcp_send_loop ::
  "'d net_device \<Rightarrow> u8 list \<Rightarrow> nat \<Rightarrow> nat \<Rightarrow> 'd net_state \<Rightarrow> (nat \<times> 'd net_state) option" where
  "tcp_send_loop dv payload poll_budget sent_total s =
     (if sent_total < length payload then
        let n16 = (length payload - sent_total) mod 65536;
            chunk_len = (if n16 > CLKS_NET_TCP_SEND_MAX_SEGMENT then CLKS_NET_TCP_SEND_MAX_SEGMENT else n16);
            seq_start = tc_snd_nxt (clks_net_tcp s);
            s1 = tcp_upd (\<lambda>c. c\<lparr>tc_snd_nxt := seq_start + of_nat chunk_len\<rparr>) s;
            per_try_budget = (if poll_budget div CLKS_NET_TCP_RETRY_COUNT < 10000 then 10000
                              else poll_budget div CLKS_NET_TCP_RETRY_COUNT)
        in case tcp_send_tries dv per_try_budget CLKS_NET_TCP_RETRY_COUNT seq_start (take chunk_len (drop sent_total payload)) s1 of
             (None, s2) \<Rightarrow> Some (sent_total, s2)
           | (Some e, s2) \<Rightarrow> if e = Ev_Reset then Some (sent_total, clks_net_tcp_reset s2)
                            else tcp_send_loop dv payload poll_budget (sent_total + chunk_len) s2
      else Some (sent_total, s))"

definition clks_net_tcp_send :: "'d net_device \<Rightarrow> u8 list option \<Rightarrow> nat \<Rightarrow> 'd net_state \<Rightarrow> (nat \<times> 'd net_state) option" where
  "clks_net_tcp_send dv payload poll_budget s =
     (let c = clks_net_tcp s in
      if \<not> tc_active c \<or> tc_state c \<notin> {TCP_ESTABLISHED, TCP_CLOSE_WAIT} \<or> payload = None \<or> payload = Some [] then Some (0, s)
      else tcp_send_loop dv (the payload) (if poll_budget = 0 then CLKS_NET_TCP_DEFAULT_POLL_LOOPS else poll_budget) 0 s)"

definition clks_net_tcp_recv :: "'d net_device \<Rightarrow> nat \<Rightarrow> nat \<Rightarrow> 'd net_state \<Rightarrow> u8 list \<times> 'd net_state" where
  "clks_net_tcp_recv dv payload_capacity poll_budget s =
     (if payload_capacity = 0 then ([], s)
      else
        let budget = (if poll_budget = 0 then CLKS_NET_TCP_DEFAULT_POLL_LOOPS div 2 else poll_budget) in
        case clks_net_tcp_recv_pop payload_capacity s of (got, s1) \<Rightarrow>
          if got \<noteq> [] then (got, s1)
          else case poll_until (\<lambda>t. case clks_net_tcp_recv_pop payload_capacity (clks_net_poll_internal dv t) of (bs, t1) \<Rightarrow>
                 (if bs \<noteq> [] then Some bs else if \<not> tc_active (clks_net_tcp t1) then Some [] else None, t1)) budget s1 of
            (Some bs, s2) \<Rightarrow> (bs, s2)
          | (None, s2) \<Rightarrow> ([], s2))"

text \<open>At most four sends of our end of the stream, each with its wait.\<close>

fun tcp_close_tries :: "'d net_device \<Rightarrow> nat \<Rightarrow> nat \<Rightarrow> u32 \<Rightarrow> 'd net_state \<Rightarrow> bool \<times> 'd net_state" where
  "tcp_close_tries dv per_try_budget 0 fin_seq s = (False, s)"
| "tcp_close_tries dv per_try_budget (Suc n) fin_seq s =
     (let c = clks_net_tcp s;
          s1 = snd (clks_net_send_tcp_segment_raw dv (clks_net_ipv4_be s) (tc_remote_ipv4_be c) (tc_remote_mac c)
                 (tc_local_port c) (tc_remote_port c) fin_seq (tc_rcv_nxt c) (CLKS_NET_TCP_FLAG_FIN OR CLKS_NET_TCP_FLAG_ACK) [] s)
      in case poll_until (\<lambda>t. let t1 = clks_net_poll_internal dv t in
             (if tc_state (clks_net_tcp t1) = TCP_CLOSED \<or> \<not> tc_active (clks_net_tcp t1) then Some () else None, t1))
             per_try_budget s1 of
           (Some _, s2) \<Rightarrow> (True, s2)
         | (None, s2) \<Rightarrow> tcp_close_tries dv per_try_budget n fin_seq s2)"

definition clks_net_tcp_close :: "'d net_device \<Rightarrow> nat \<Rightarrow> 'd net_state \<Rightarrow> bool \<times> 'd net_state" where
  "clks_net_tcp_close dv poll_budget s =
     (let c = clks_net_tcp s in
      if \<not> tc_active c \<and> tc_state c = TCP_CLOSED then (True, s)
      else
        let budget = (if poll_budget = 0 then CLKS_NET_TCP_DEFAULT_POLL_LOOPS else poll_budget) in
        if tc_active c \<and> tc_state c \<in> {TCP_ESTABLISHED, TCP_CLOSE_WAIT} then
          let fin_seq = tc_snd_nxt c;
              s1 = s\<lparr>clks_net_tcp := c\<lparr>tc_snd_nxt := fin_seq + 1,
                     tc_state := (if tc_state c = TCP_CLOSE_WAIT then TCP_LAST_ACK else TCP_FIN_WAIT1)\<rparr>\<rparr>;
              per_try_budget = (if budget div CLKS_NET_TCP_RETRY_COUNT < 10000 then 10000 else budget div CLKS_NET_TCP_RETRY_COUNT)
          in case tcp_close_tries dv per_try_budget CLKS_NET_TCP_RETRY_COUNT fin_seq s1 of (ok, s2) \<Rightarrow> (ok, clks_net_tcp_reset s2)
        else (False, clks_net_tcp_reset s))"

definition clks_net_tcp_last_error :: "'d net_state \<Rightarrow> u64" where
  "clks_net_tcp_last_error s = clks_net_tcp_last_err s"
end
