(* ===== verification/Clks_Net_State.thy ===== *)
theory Clks_Net_State
  imports Clks_Net
begin

text \<open>
  The tables of the network stack: the queue of datagrams and the receive buffer of the connection as
  bounded queues over the rings of \<open>Clks_Ring\<close>, the ARP table as a map, and the invariant of the
  whole state with its preservation by every operation of the stack.
\<close>

section \<open>The rings\<close>

interpretation udp_ring: ring CLKS_NET_UDP_QUEUE_CAP
  by unfold_locales (simp add: CLKS_NET_UDP_QUEUE_CAP_def)

interpretation tcp_ring: ring CLKS_NET_TCP_RECV_CAP
  by unfold_locales (simp add: CLKS_NET_TCP_RECV_CAP_def)

text \<open>The datagrams that wait, the oldest first, and the bytes that wait to be read.\<close>

definition udp_waiting :: "'d net_state \<Rightarrow> clks_net_udp_packet list" where
  "udp_waiting s = udp_ring.items (clks_net_udp_queue s) (clks_net_udp_head s) (clks_net_udp_count s)"

definition udp_ok :: "'d net_state \<Rightarrow> bool" where
  "udp_ok s \<longleftrightarrow> clks_net_udp_head s < CLKS_NET_UDP_QUEUE_CAP \<and> clks_net_udp_count s \<le> CLKS_NET_UDP_QUEUE_CAP \<and>
     clks_net_udp_tail s = (clks_net_udp_head s + clks_net_udp_count s) mod CLKS_NET_UDP_QUEUE_CAP \<and>
     list_all up_valid (udp_waiting s)"

definition recv_waiting :: "clks_net_tcp_conn \<Rightarrow> u8 list" where
  "recv_waiting c = tcp_ring.items (tc_recv_buf c) (tc_recv_head c) (tc_recv_count c)"

definition recv_ok :: "clks_net_tcp_conn \<Rightarrow> bool" where
  "recv_ok c \<longleftrightarrow> tc_recv_head c < CLKS_NET_TCP_RECV_CAP \<and> tc_recv_count c \<le> CLKS_NET_TCP_RECV_CAP \<and>
     tc_recv_tail c = (tc_recv_head c + tc_recv_count c) mod CLKS_NET_TCP_RECV_CAP"

lemma udp_waiting_length [simp]: "length (udp_waiting s) = clks_net_udp_count s"
  by (simp add: udp_waiting_def)

lemma recv_waiting_length [simp]: "length (recv_waiting c) = tc_recv_count c"
  by (simp add: recv_waiting_def)

lemma newest_all: "length xs \<le> n \<Longrightarrow> newest n xs = xs"
  by (simp add: newest_def)

lemma set_newest: "set (newest n xs) \<subseteq> set xs"
  by (simp add: newest_def set_drop_subset)

definition received_packet :: "u32 \<Rightarrow> u16 \<Rightarrow> u16 \<Rightarrow> buf \<Rightarrow> nat \<Rightarrow> clks_net_udp_packet" where
  "received_packet src sp dp payload n =
     \<lparr>up_valid = True, up_src_ipv4_be = src, up_src_port = sp, up_dst_port = dp,
      up_payload = map payload [0..<min n CLKS_NET_UDP_PAYLOAD_MAX]\<rparr>"

lemma udp_push_spec:
  assumes "udp_ok s"
  shows "udp_ok (clks_net_udp_queue_push src sp dp payload n s)"
    and "udp_waiting (clks_net_udp_queue_push src sp dp payload n s)
       = newest CLKS_NET_UDP_QUEUE_CAP (udp_waiting s @ [received_packet src sp dp payload n])"
proof -
  let ?s = "clks_net_udp_queue_push src sp dp payload n s" and ?h = "clks_net_udp_head s" and ?c = "clks_net_udp_count s"
  let ?p = "received_packet src sp dp payload n"
  have ok: "?h < CLKS_NET_UDP_QUEUE_CAP" "?c \<le> CLKS_NET_UDP_QUEUE_CAP"
    "clks_net_udp_tail s = (?h + ?c) mod CLKS_NET_UDP_QUEUE_CAP" and v: "list_all up_valid (udp_waiting s)"
    using assms by (simp_all add: udp_ok_def)
  have p: "\<lparr>up_valid = True, up_src_ipv4_be = src, up_src_port = sp, up_dst_port = dp,
      up_payload = map payload [0..<if n > CLKS_NET_UDP_PAYLOAD_MAX then CLKS_NET_UDP_PAYLOAD_MAX else n]\<rparr> = ?p"
    by (simp add: received_packet_def min_def)
  have f: "clks_net_udp_queue ?s = (clks_net_udp_queue s)((?h + ?c) mod CLKS_NET_UDP_QUEUE_CAP := ?p)"
    "clks_net_udp_head ?s = (if ?c < CLKS_NET_UDP_QUEUE_CAP then ?h else (?h + 1) mod CLKS_NET_UDP_QUEUE_CAP)"
    "clks_net_udp_count ?s = (if ?c < CLKS_NET_UDP_QUEUE_CAP then Suc ?c else ?c)"
    "clks_net_udp_tail ?s = ((?h + ?c) mod CLKS_NET_UDP_QUEUE_CAP + 1) mod CLKS_NET_UDP_QUEUE_CAP"
    unfolding clks_net_udp_queue_push_def Let_def p using ok udp_ring.cap_pos by auto
  show w: "udp_waiting ?s = newest CLKS_NET_UDP_QUEUE_CAP (udp_waiting s @ [?p])"
    unfolding udp_waiting_def f by (rule udp_ring.items_store [OF ok(1,2)])
  have "up_valid ?p" by (simp add: received_packet_def)
  with v have "list_all up_valid (udp_waiting ?s)"
    unfolding w list_all_iff using set_newest [of CLKS_NET_UDP_QUEUE_CAP "udp_waiting s @ [?p]"] by auto
  then show "udp_ok ?s"
    using udp_ring.store_pos [OF ok(1,2)] ok udp_ring.cap_pos by (auto simp: udp_ok_def f)
qed

text \<open>Taking the oldest datagram, with its cell marked as free.\<close>

definition udp_taken :: "'d net_state \<Rightarrow> 'd net_state" where
  "udp_taken s = s\<lparr>clks_net_udp_head := (clks_net_udp_head s + 1) mod CLKS_NET_UDP_QUEUE_CAP,
     clks_net_udp_count := clks_net_udp_count s - 1,
     clks_net_udp_queue := (clks_net_udp_queue s)(clks_net_udp_head s :=
       (clks_net_udp_queue s (clks_net_udp_head s))\<lparr>up_valid := False\<rparr>)\<rparr>"

lemma udp_taken_spec:
  assumes "udp_ok s" "clks_net_udp_count s \<noteq> 0"
  shows "udp_ok (udp_taken s)" "udp_waiting s = clks_net_udp_queue s (clks_net_udp_head s) # udp_waiting (udp_taken s)"
    "up_valid (clks_net_udp_queue s (clks_net_udp_head s))"
proof -
  let ?h = "clks_net_udp_head s" and ?n = "clks_net_udp_count s" and ?q = "clks_net_udp_queue s"
  let ?h' = "(?h + 1) mod CLKS_NET_UDP_QUEUE_CAP"
  have u: "?h < CLKS_NET_UDP_QUEUE_CAP" "?n \<le> CLKS_NET_UDP_QUEUE_CAP"
    "clks_net_udp_tail s = (?h + ?n) mod CLKS_NET_UDP_QUEUE_CAP" "list_all up_valid (udp_waiting s)"
    using assms(1) by (simp_all add: udp_ok_def)
  obtain n where n: "?n = Suc n" using assms(2) by (cases ?n) auto
  have "(?h' + k) mod CLKS_NET_UDP_QUEUE_CAP \<noteq> ?h" if "k < n" for k
  proof
    assume "(?h' + k) mod CLKS_NET_UDP_QUEUE_CAP = ?h"
    then have "(?h + Suc k) mod CLKS_NET_UDP_QUEUE_CAP = ?h mod CLKS_NET_UDP_QUEUE_CAP"
      using u(1) by (simp add: mod_simps)
    then have "CLKS_NET_UDP_QUEUE_CAP dvd Suc k" by (simp add: mod_eq_dvd_iff_nat)
    with that u(2) n show False by (auto dest: dvd_imp_le)
  qed
  then have "udp_ring.items (?q(?h := p)) ?h' n = udp_ring.items ?q ?h' n" for p
    unfolding udp_ring.items_def by simp
  then show w: "udp_waiting s = ?q ?h # udp_waiting (udp_taken s)"
    using u(1) by (simp add: udp_waiting_def udp_taken_def n udp_ring.items_Suc)
  from u(4) show "up_valid (?q ?h)" by (simp add: w)
  have "clks_net_udp_tail s = (?h' + (?n - 1)) mod CLKS_NET_UDP_QUEUE_CAP"
    using u(3) udp_ring.take_pos [OF assms(2), of ?h] by simp
  with u w show "udp_ok (udp_taken s)"
    using udp_ring.cap_pos by (simp add: udp_ok_def udp_taken_def [of s] le_diff_conv n del: mod_add_left_eq)
qed

lemma recv_store_spec:
  assumes "recv_ok c"
  shows "recv_ok (recv_store b c)"
    and "recv_waiting (recv_store b c) = newest CLKS_NET_TCP_RECV_CAP (recv_waiting c @ [b])"
proof -
  let ?h = "tc_recv_head c" and ?n = "tc_recv_count c"
  have ok: "?h < CLKS_NET_TCP_RECV_CAP" "?n \<le> CLKS_NET_TCP_RECV_CAP" "tc_recv_tail c = (?h + ?n) mod CLKS_NET_TCP_RECV_CAP"
    using assms by (simp_all add: recv_ok_def)
  have f: "tc_recv_buf (recv_store b c) = (tc_recv_buf c)((?h + ?n) mod CLKS_NET_TCP_RECV_CAP := b)"
    "tc_recv_head (recv_store b c) = (if ?n < CLKS_NET_TCP_RECV_CAP then ?h else (?h + 1) mod CLKS_NET_TCP_RECV_CAP)"
    "tc_recv_count (recv_store b c) = (if ?n < CLKS_NET_TCP_RECV_CAP then Suc ?n else ?n)"
    "tc_recv_tail (recv_store b c) = ((?h + ?n) mod CLKS_NET_TCP_RECV_CAP + 1) mod CLKS_NET_TCP_RECV_CAP"
    unfolding recv_store_def Let_def using ok tcp_ring.cap_pos by auto
  show "recv_waiting (recv_store b c) = newest CLKS_NET_TCP_RECV_CAP (recv_waiting c @ [b])"
    unfolding recv_waiting_def f by (rule tcp_ring.items_store [OF ok(1,2)])
  show "recv_ok (recv_store b c)"
    using tcp_ring.store_pos [OF ok(1,2)] ok tcp_ring.cap_pos by (auto simp: recv_ok_def f)
qed

text \<open>What the loops over the bytes leave alone.\<close>

definition recv_view :: "clks_net_tcp_conn \<Rightarrow> clks_net_tcp_conn" where
  "recv_view c = c\<lparr>tc_recv_head := 0, tc_recv_tail := 0, tc_recv_count := 0, tc_recv_buf := (\<lambda>_. 0)\<rparr>"

lemma recv_view_simps:
  assumes "recv_view c' = recv_view c"
  shows "tc_active c' = tc_active c" "tc_peer_fin c' = tc_peer_fin c" "tc_reset_seen c' = tc_reset_seen c"
    "tc_state c' = tc_state c" "tc_remote_ipv4_be c' = tc_remote_ipv4_be c"
    "tc_remote_alt_ipv4_be c' = tc_remote_alt_ipv4_be c" "tc_remote_port c' = tc_remote_port c"
    "tc_local_port c' = tc_local_port c" "tc_remote_mac c' = tc_remote_mac c" "tc_snd_iss c' = tc_snd_iss c"
    "tc_snd_una c' = tc_snd_una c" "tc_snd_nxt c' = tc_snd_nxt c" "tc_rcv_nxt c' = tc_rcv_nxt c"
    "tc_stale_ack_seen c' = tc_stale_ack_seen c"
  using assms by (cases c; cases c'; simp add: recv_view_def)+

lemma recv_fold_spec:
  assumes "recv_ok c"
  shows "recv_ok (fold recv_store bs c) \<and>
    recv_waiting (fold recv_store bs c) = newest CLKS_NET_TCP_RECV_CAP (recv_waiting c @ bs) \<and>
    recv_view (fold recv_store bs c) = recv_view c"
  using assms
proof (induction bs arbitrary: c)
  case Nil
  then show ?case by (simp add: newest_all recv_ok_def)
next
  case (Cons b bs)
  have "recv_view (recv_store b c) = recv_view c" by (simp add: recv_store_def recv_view_def Let_def)
  with Cons.IH [of "recv_store b c"] recv_store_spec [OF Cons.prems, of b]
    newest_snoc_newest [of CLKS_NET_TCP_RECV_CAP "recv_waiting c @ [b]" bs]
  show ?case by simp
qed

lemmas recv_fold = recv_fold_spec [THEN conjunct1] recv_fold_spec [THEN conjunct2, THEN conjunct1]
  recv_fold_spec [THEN conjunct2, THEN conjunct2]

lemma recv_take_spec:
  assumes "recv_ok c"
  shows "fst (recv_take n c) = take n (recv_waiting c) \<and> recv_ok (snd (recv_take n c)) \<and>
    recv_waiting (snd (recv_take n c)) = drop n (recv_waiting c) \<and> recv_view (snd (recv_take n c)) = recv_view c"
  using assms
proof (induction n arbitrary: c)
  case 0
  then show ?case by simp
next
  case (Suc n)
  show ?case
  proof (cases "tc_recv_count c")
    case 0
    with Suc.prems have "recv_waiting c = []" by (simp flip: length_0_conv)
    with 0 Suc.prems show ?thesis by simp
  next
    case (Suc m)
    let ?c = "c\<lparr>tc_recv_head := (tc_recv_head c + 1) mod CLKS_NET_TCP_RECV_CAP, tc_recv_count := tc_recv_count c - 1\<rparr>"
    have ok: "recv_ok ?c"
      using Suc.prems tcp_ring.cap_pos tcp_ring.take_pos [of "tc_recv_count c" "tc_recv_head c"] Suc
      by (simp add: recv_ok_def)
    have w: "recv_waiting c = tc_recv_buf c (tc_recv_head c) # recv_waiting ?c"
      using Suc.prems Suc by (simp add: recv_waiting_def tcp_ring.items_Suc recv_ok_def)
    have v: "recv_view ?c = recv_view c" by (simp add: recv_view_def)
    show ?thesis using Suc Suc.IH [OF ok] v by (simp add: w split_beta)
  qed
qed

section \<open>The ARP table\<close>

definition arp_has :: "clks_net_arp_entry \<Rightarrow> u32 \<Rightarrow> bool" where
  "arp_has e ip \<longleftrightarrow> ae_valid e \<and> ae_ipv4_be e = ip"

definition arp_ok :: "clks_net_arp_entry list \<Rightarrow> bool" where
  "arp_ok t \<longleftrightarrow> length t = CLKS_NET_ARP_TABLE_CAP \<and>
     (\<forall>i < length t. \<forall>j < length t. ae_valid (t ! i) \<and> ae_valid (t ! j) \<and> ae_ipv4_be (t ! i) = ae_ipv4_be (t ! j) \<longrightarrow> i = j) \<and>
     (\<forall>e \<in> set t. ae_valid e \<longrightarrow> ae_ipv4_be e \<noteq> 0 \<and> \<not> clks_net_mac_invalid (ae_mac e))"

lemma arp_unique:
  "arp_ok t \<Longrightarrow> i < length t \<Longrightarrow> j < length t \<Longrightarrow> arp_has (t ! i) ip \<Longrightarrow> arp_has (t ! j) ip \<Longrightarrow> i = j"
  unfolding arp_ok_def arp_has_def by blast

lemma arp_okI:
  assumes "length t = CLKS_NET_ARP_TABLE_CAP"
    and "\<And>i j ip. i < length t \<Longrightarrow> j < length t \<Longrightarrow> arp_has (t ! i) ip \<Longrightarrow> arp_has (t ! j) ip \<Longrightarrow> i = j"
    and "\<And>e. e \<in> set t \<Longrightarrow> ae_valid e \<Longrightarrow> ae_ipv4_be e \<noteq> 0 \<and> \<not> clks_net_mac_invalid (ae_mac e)"
  shows "arp_ok t"
  using assms unfolding arp_ok_def arp_has_def by blast

definition arp_map :: "clks_net_arp_entry list \<Rightarrow> u32 \<Rightarrow> u8 list option" where
  "arp_map t ip = map_option ae_mac (find (\<lambda>e. arp_has e ip) t)"

lemma arp_lookup_map: "clks_net_arp_lookup ip s = arp_map (clks_net_arp_table s) ip"
  by (simp add: clks_net_arp_lookup_def arp_map_def arp_has_def)

lemma arp_map_iff:
  assumes "arp_ok t"
  shows "arp_map t ip = Some m \<longleftrightarrow> (\<exists>j < length t. arp_has (t ! j) ip \<and> ae_mac (t ! j) = m)"
proof
  assume "arp_map t ip = Some m"
  then show "\<exists>j < length t. arp_has (t ! j) ip \<and> ae_mac (t ! j) = m"
    by (auto simp: arp_map_def find_Some_iff)
next
  assume "\<exists>j < length t. arp_has (t ! j) ip \<and> ae_mac (t ! j) = m"
  then obtain j where j: "j < length t" "arp_has (t ! j) ip" "ae_mac (t ! j) = m" by blast
  have "\<not> arp_has (t ! k) ip" if "k < j" for k
    using arp_unique [OF assms, of k j ip] that j by auto
  then have "find (\<lambda>e. arp_has e ip) t = Some (t ! j)" using j by (auto simp: find_Some_iff)
  with j(3) show "arp_map t ip = Some m" by (simp add: arp_map_def)
qed

lemma arp_map_None: "arp_map t ip = None \<longleftrightarrow> (\<forall>e \<in> set t. \<not> arp_has e ip)"
  by (auto simp: arp_map_def find_None_iff)

lemma arp_scan_Inl:
  "arp_scan ip es i f k st = Inl r \<Longrightarrow> \<exists>j < length es. r = i + j \<and> arp_has (es ! j) ip"
proof (induction ip es i f k st rule: arp_scan.induct)
  case (1 ip i f k st)
  then show ?case by simp
next
  case (2 ip e es i f k st)
  show ?case
  proof (cases "arp_has e ip")
    case True
    with 2 show ?thesis by (intro exI [of _ 0]) (simp add: arp_has_def)
  next
    case False
    with 2 obtain j where "j < length es" "r = i + 1 + j" "arp_has (es ! j) ip"
      by (auto simp: arp_has_def)
    then show ?thesis by (intro exI [of _ "Suc j"]) simp
  qed
qed

lemma arp_scan_Inr:
  assumes "arp_scan ip es i f k st = Inr (f', k')"
  shows "(\<forall>e \<in> set es. \<not> arp_has e ip) \<and>
    (i + length es \<le> CLKS_NET_ARP_TABLE_CAP \<longrightarrow>
       (f' = f \<and> (f \<noteq> CLKS_NET_ARP_TABLE_CAP \<or> (\<forall>e \<in> set es. ae_valid e))) \<or>
       (f = CLKS_NET_ARP_TABLE_CAP \<and> (\<exists>j < length es. f' = i + j \<and> \<not> ae_valid (es ! j)))) \<and>
    ((k' = k \<and> (\<forall>e \<in> set es. st \<le> ae_stamp e)) \<or>
     (\<exists>j < length es. k' = i + j \<and> ae_stamp (es ! j) < st \<and> (\<forall>e \<in> set es. ae_stamp (es ! j) \<le> ae_stamp e)))"
  using assms
proof (induction ip es i f k st rule: arp_scan.induct)
  case (1 ip i f k st)
  then show ?case by simp
next
  case (2 ip e es i f k st)
  let ?f = "if \<not> ae_valid e \<and> f = CLKS_NET_ARP_TABLE_CAP then i else f"
  let ?k = "if ae_stamp e < st then i else k" and ?st = "if ae_stamp e < st then ae_stamp e else st"
  have no: "\<not> arp_has e ip" using "2.prems" by (auto simp: arp_has_def)
  then have ne: "\<not> (ae_valid e \<and> ae_ipv4_be e = ip)" by (simp add: arp_has_def)
  have "arp_scan ip es (i + 1) ?f ?k ?st = Inr (f', k')" using "2.prems" ne by simp
  note IH = "2.IH" [OF ne this]
  have a: "\<forall>x \<in> set (e # es). \<not> arp_has x ip" using IH no by simp
  have b: "(f' = f \<and> (f \<noteq> CLKS_NET_ARP_TABLE_CAP \<or> (\<forall>x \<in> set (e # es). ae_valid x))) \<or>
       (f = CLKS_NET_ARP_TABLE_CAP \<and> (\<exists>j < length (e # es). f' = i + j \<and> \<not> ae_valid ((e # es) ! j)))"
    if le: "i + length (e # es) \<le> CLKS_NET_ARP_TABLE_CAP"
  proof -
    from le have le': "i + 1 + length es \<le> CLKS_NET_ARP_TABLE_CAP" by simp
    from IH [THEN conjunct2, THEN conjunct1, THEN mp, OF le'] consider "f' = ?f" "?f \<noteq> CLKS_NET_ARP_TABLE_CAP \<or> (\<forall>x \<in> set es. ae_valid x)"
      | j where "?f = CLKS_NET_ARP_TABLE_CAP" "j < length es" "f' = i + 1 + j" "\<not> ae_valid (es ! j)" by blast
    then show ?thesis
    proof cases
      case 1
      with le show ?thesis by (cases "\<not> ae_valid e \<and> f = CLKS_NET_ARP_TABLE_CAP") (auto intro!: exI [of _ 0])
    next
      case 2
      with le have "f = CLKS_NET_ARP_TABLE_CAP" by (auto split: if_splits)
      moreover have "f' = i + Suc j \<and> \<not> ae_valid ((e # es) ! Suc j)" "Suc j < length (e # es)" using 2 by simp_all
      ultimately show ?thesis by blast
    qed
  qed
  have c: "(k' = k \<and> (\<forall>x \<in> set (e # es). st \<le> ae_stamp x)) \<or>
     (\<exists>j < length (e # es). k' = i + j \<and> ae_stamp ((e # es) ! j) < st \<and> (\<forall>x \<in> set (e # es). ae_stamp ((e # es) ! j) \<le> ae_stamp x))"
  proof -
    from IH [THEN conjunct2, THEN conjunct2] consider "k' = ?k" "\<forall>x \<in> set es. ?st \<le> ae_stamp x"
      | j where "j < length es" "k' = i + 1 + j" "ae_stamp (es ! j) < ?st" "\<forall>x \<in> set es. ae_stamp (es ! j) \<le> ae_stamp x"
      by blast
    then show ?thesis
    proof cases
      case 1
      then show ?thesis by (cases "ae_stamp e < st") (auto intro!: exI [of _ 0])
    next
      case 2
      then have "ae_stamp (es ! j) < st" "ae_stamp (es ! j) \<le> ae_stamp e" by (auto split: if_splits)
      with 2 have "k' = i + Suc j \<and> ae_stamp ((e # es) ! Suc j) < st \<and> (\<forall>x \<in> set (e # es). ae_stamp ((e # es) ! Suc j) \<le> ae_stamp x)"
        "Suc j < length (e # es)" by simp_all
      then show ?thesis by blast
    qed
  qed
  show ?case by (rule conjI [OF a], rule conjI [OF _ c], rule impI, rule b)
qed

text \<open>An entry written for an address that the table has at that index, or not at all.\<close>

lemma arp_write:
  assumes t: "arp_ok t" and i: "i < length t" and e: "arp_has e ip" "ip \<noteq> 0" "\<not> clks_net_mac_invalid (ae_mac e)"
    and own: "\<And>j. j < length t \<Longrightarrow> arp_has (t ! j) ip \<Longrightarrow> j = i"
  shows "arp_ok (t[i := e])"
    and "arp_map (t[i := e]) ip' = (if ip' = ip then Some (ae_mac e) else if arp_has (t ! i) ip' then None else arp_map t ip')"
proof -
  show ok: "arp_ok (t[i := e])"
  proof (rule arp_okI)
    show "length (t[i := e]) = CLKS_NET_ARP_TABLE_CAP" using t by (simp add: arp_ok_def)
    fix x assume "x \<in> set (t[i := e])" "ae_valid x"
    then show "ae_ipv4_be x \<noteq> 0 \<and> \<not> clks_net_mac_invalid (ae_mac x)"
      using t e set_update_subset_insert [of t i e] by (auto simp: arp_ok_def arp_has_def)
  next
    fix k l x assume kl: "k < length (t[i := e])" "l < length (t[i := e])"
      and h: "arp_has (t[i := e] ! k) x" "arp_has (t[i := e] ! l) x"
    have x: "n = i" if "arp_has e x" "n < length t" "arp_has (t ! n) x" for n
      using that e(1) own [of n] by (auto simp: arp_has_def)
    show "k = l"
    proof (cases "k = i"; cases "l = i")
      assume "k = i" "l \<noteq> i"
      with h kl x [of l] show ?thesis by simp
    next
      assume "k \<noteq> i" "l = i"
      with h kl x [of k] show ?thesis by simp
    next
      assume "k \<noteq> i" "l \<noteq> i"
      with h kl arp_unique [OF t, of k l x] show ?thesis by simp
    qed simp
  qed
  have m: "arp_map (t[i := e]) ip' = Some m \<longleftrightarrow>
      (if ip' = ip then Some (ae_mac e) else if arp_has (t ! i) ip' then None else arp_map t ip') = Some m" for m
  proof (cases "ip' = ip")
    case True
    have "(\<exists>j < length (t[i := e]). arp_has (t[i := e] ! j) ip \<and> ae_mac (t[i := e] ! j) = m) \<longleftrightarrow> ae_mac e = m"
      using i e own by (metis length_list_update nth_list_update_eq nth_list_update_neq)
    with True show ?thesis by (simp add: arp_map_iff [OF ok] del: length_list_update)
  next
    case False
    have "\<not> arp_has e ip'" using False e by (auto simp: arp_has_def)
    then have "(\<exists>j < length t. arp_has (t[i := e] ! j) ip' \<and> ae_mac (t[i := e] ! j) = m) \<longleftrightarrow>
        (\<exists>j < length t. j \<noteq> i \<and> arp_has (t ! j) ip' \<and> ae_mac (t ! j) = m)"
      using i by (metis nth_list_update_eq nth_list_update_neq)
    also have "\<dots> \<longleftrightarrow> \<not> arp_has (t ! i) ip' \<and> (\<exists>j < length t. arp_has (t ! j) ip' \<and> ae_mac (t ! j) = m)"
    proof -
      have "j = i" if "arp_has (t ! i) ip'" "j < length t" "arp_has (t ! j) ip'" for j
        using arp_unique [OF t _ _ that(3) that(1)] that i by simp
      then show ?thesis using i by metis
    qed
    finally show ?thesis using False by (simp add: arp_map_iff [OF ok] arp_map_iff [OF t])
  qed
  show "arp_map (t[i := e]) ip' = (if ip' = ip then Some (ae_mac e) else if arp_has (t ! i) ip' then None else arp_map t ip')"
    by (rule option_eqI) (rule m)
qed

lemma arp_upsert_cases:
  assumes "arp_ok (clks_net_arp_table s)" "ip \<noteq> 0" "\<not> clks_net_mac_invalid mac"
  obtains i e where "i < length (clks_net_arp_table s)" "arp_has e ip" "ae_mac e = mac"
    "clks_net_arp_upsert ip mac s = s\<lparr>clks_net_arp_table := (clks_net_arp_table s)[i := e], clks_net_arp_stamp := clks_net_arp_stamp s + 1\<rparr>"
    "\<And>j. j < length (clks_net_arp_table s) \<Longrightarrow> arp_has (clks_net_arp_table s ! j) ip \<Longrightarrow> j = i"
    "\<And>v. arp_has (clks_net_arp_table s ! i) v \<Longrightarrow> v \<noteq> ip \<Longrightarrow> clks_net_arp_lookup ip s = None \<and>
       (\<forall>x \<in> set (clks_net_arp_table s). ae_valid x \<and> ae_stamp (clks_net_arp_table s ! i) \<le> ae_stamp x)"
proof -
  let ?t = "clks_net_arp_table s"
  have len: "length ?t = CLKS_NET_ARP_TABLE_CAP" "0 < CLKS_NET_ARP_TABLE_CAP"
    using assms(1) by (simp_all add: arp_ok_def CLKS_NET_ARP_TABLE_CAP_def)
  show thesis
  proof (cases "arp_scan ip ?t 0 CLKS_NET_ARP_TABLE_CAP 0 (- 1)")
    case (Inl r)
    then have r: "r < length ?t" "arp_has (?t ! r) ip" using arp_scan_Inl [OF Inl] by auto
    show thesis
    proof (rule that [of r "(?t ! r)\<lparr>ae_mac := mac, ae_stamp := clks_net_arp_stamp s\<rparr>"])
      show "j = r" if "j < length ?t" "arp_has (?t ! j) ip" for j
        using arp_unique [OF assms(1) that(1) r(1) that(2) r(2)] .
      show "clks_net_arp_lookup ip s = None \<and> (\<forall>x \<in> set ?t. ae_valid x \<and> ae_stamp (?t ! r) \<le> ae_stamp x)"
        if "arp_has (?t ! r) v" "v \<noteq> ip" for v using that r by (simp add: arp_has_def)
    qed (use r assms Inl in \<open>simp_all add: clks_net_arp_upsert_def arp_has_def\<close>)
  next
    case (Inr p)
    obtain f k where p: "p = (f, k)" by (cases p)
    note scan = arp_scan_Inr [OF Inr [unfolded p]]
    from scan have none: "\<forall>e \<in> set ?t. \<not> arp_has e ip" by blast
    then have no: "\<And>j. j < length ?t \<Longrightarrow> \<not> arp_has (?t ! j) ip" using nth_mem by blast
    from scan [THEN conjunct2, THEN conjunct1] len
    consider "f = CLKS_NET_ARP_TABLE_CAP" "\<forall>e \<in> set ?t. ae_valid e"
      | "f < length ?t" "\<not> ae_valid (?t ! f)" "f \<noteq> CLKS_NET_ARP_TABLE_CAP" by fastforce
    then show thesis
    proof cases
      case 1
      from scan [THEN conjunct2, THEN conjunct2]
      have k: "k < length ?t \<and> (\<forall>x \<in> set ?t. ae_stamp (?t ! k) \<le> ae_stamp x)"
      proof
        assume "k = 0 \<and> (\<forall>e \<in> set ?t. - 1 \<le> ae_stamp e)"
        moreover from this have "\<forall>e \<in> set ?t. ae_stamp e = - 1" by (metis word_order.extremum_uniqueI)
        ultimately show ?thesis using len by simp
      qed auto
      show thesis
      proof (rule that [of k "\<lparr>ae_valid = True, ae_ipv4_be = ip, ae_mac = mac, ae_stamp = clks_net_arp_stamp s\<rparr>"])
        show "j = k" if "j < length ?t" "arp_has (?t ! j) ip" for j using no that by blast
      qed (use none k 1 assms Inr p in \<open>simp_all add: clks_net_arp_upsert_def arp_has_def arp_lookup_map arp_map_None\<close>)
    next
      case 2
      show thesis
      proof (rule that [of f "\<lparr>ae_valid = True, ae_ipv4_be = ip, ae_mac = mac, ae_stamp = clks_net_arp_stamp s\<rparr>"])
        show "j = f" if "j < length ?t" "arp_has (?t ! j) ip" for j using no that by blast
      qed (use 2 assms Inr p in \<open>simp_all add: clks_net_arp_upsert_def arp_has_def\<close>)
    qed
  qed
qed

lemma arp_upsert_ok:
  assumes "arp_ok (clks_net_arp_table s)"
  shows "arp_ok (clks_net_arp_table (clks_net_arp_upsert ip mac s))"
proof (cases "ip = 0 \<or> clks_net_mac_invalid mac")
  case True
  then show ?thesis using assms by (auto simp: clks_net_arp_upsert_def)
next
  case False
  from False have ip: "ip \<noteq> 0" "\<not> clks_net_mac_invalid mac" by simp_all
  obtain i e where u: "i < length (clks_net_arp_table s)" "arp_has e ip" "ae_mac e = mac"
    "clks_net_arp_upsert ip mac s = s\<lparr>clks_net_arp_table := (clks_net_arp_table s)[i := e], clks_net_arp_stamp := clks_net_arp_stamp s + 1\<rparr>"
    and own: "\<And>j. j < length (clks_net_arp_table s) \<Longrightarrow> arp_has (clks_net_arp_table s ! j) ip \<Longrightarrow> j = i"
    using arp_upsert_cases [OF assms ip] by metis
  show ?thesis using arp_write(1) [OF assms u(1,2) ip(1) _ own] u(3) ip(2) by (simp add: u(4))
qed

lemma arp_upsert_lookup:
  assumes "arp_ok (clks_net_arp_table s)" "ip \<noteq> 0" "\<not> clks_net_mac_invalid mac"
  shows "clks_net_arp_lookup ip (clks_net_arp_upsert ip mac s) = Some mac"
proof -
  obtain i e where u: "i < length (clks_net_arp_table s)" "arp_has e ip" "ae_mac e = mac"
    "clks_net_arp_upsert ip mac s = s\<lparr>clks_net_arp_table := (clks_net_arp_table s)[i := e], clks_net_arp_stamp := clks_net_arp_stamp s + 1\<rparr>"
    and own: "\<And>j. j < length (clks_net_arp_table s) \<Longrightarrow> arp_has (clks_net_arp_table s ! j) ip \<Longrightarrow> j = i"
    by (rule arp_upsert_cases [OF assms]) (rule that)
  have "\<not> clks_net_mac_invalid (ae_mac e)" using u(3) assms(3) by simp
  from arp_write(2) [OF assms(1) u(1,2) assms(2) this own, of ip] show ?thesis
    by (simp add: arp_lookup_map u(3,4))
qed

text \<open>The ARP table is a cache of at most sixteen addresses. Learning a pair keeps the table well formed (no
  address has two entries, none is zero, no hardware address is invalid), the address is then found with
  that hardware address, and every other address is found as before, except at most one: the victim, which
  exists only when the new address was unknown and all entries were in use, and whose entry is one of
  those used longest ago.\<close>

theorem arp_table_is_a_cache:
  assumes "arp_ok (clks_net_arp_table s)" "ip \<noteq> 0" "\<not> clks_net_mac_invalid mac"
  shows "arp_ok (clks_net_arp_table (clks_net_arp_upsert ip mac s)) \<and>
    (\<exists>victim. (\<forall>ip'. clks_net_arp_lookup ip' (clks_net_arp_upsert ip mac s) =
         (if ip' = ip then Some mac else if Some ip' = victim then None else clks_net_arp_lookup ip' s)) \<and>
       (\<forall>v. victim = Some v \<longrightarrow> clks_net_arp_lookup ip s = None \<and>
          (\<forall>e \<in> set (clks_net_arp_table s). ae_valid e) \<and>
          (\<exists>old \<in> set (clks_net_arp_table s). arp_has old v \<and> (\<forall>e \<in> set (clks_net_arp_table s). ae_stamp old \<le> ae_stamp e))))"
proof -
  let ?t = "clks_net_arp_table s"
  obtain i e where u: "i < length ?t" "arp_has e ip" "ae_mac e = mac"
    "clks_net_arp_upsert ip mac s = s\<lparr>clks_net_arp_table := ?t[i := e], clks_net_arp_stamp := clks_net_arp_stamp s + 1\<rparr>"
    and own: "\<And>j. j < length ?t \<Longrightarrow> arp_has (?t ! j) ip \<Longrightarrow> j = i"
    and old: "\<And>v. arp_has (?t ! i) v \<Longrightarrow> v \<noteq> ip \<Longrightarrow> clks_net_arp_lookup ip s = None \<and>
       (\<forall>x \<in> set ?t. ae_valid x \<and> ae_stamp (?t ! i) \<le> ae_stamp x)"
    by (rule arp_upsert_cases [OF assms]) (rule that)
  have "\<not> clks_net_mac_invalid (ae_mac e)" using u(3) assms(3) by simp
  note w = arp_write [OF assms(1) u(1,2) assms(2) this own]
  let ?v = "if ae_valid (?t ! i) \<and> ae_ipv4_be (?t ! i) \<noteq> ip then Some (ae_ipv4_be (?t ! i)) else None"
  have l: "clks_net_arp_lookup ip' (clks_net_arp_upsert ip mac s) =
      (if ip' = ip then Some mac else if Some ip' = ?v then None else clks_net_arp_lookup ip' s)" for ip'
    unfolding arp_lookup_map using w(2) [of ip'] by (simp add: u(3,4) arp_has_def)
  have v: "clks_net_arp_lookup ip s = None \<and> (\<forall>e \<in> set ?t. ae_valid e) \<and>
      (\<exists>o' \<in> set ?t. arp_has o' v \<and> (\<forall>e \<in> set ?t. ae_stamp o' \<le> ae_stamp e))" if "?v = Some v" for v
  proof -
    from that have "arp_has (?t ! i) v" "v \<noteq> ip" by (auto simp: arp_has_def split: if_splits)
    with old [OF this] nth_mem [OF u(1)] show ?thesis by blast
  qed
  have "arp_ok (clks_net_arp_table (clks_net_arp_upsert ip mac s))" using w(1) by (simp add: u(4))
  moreover have "\<exists>victim. (\<forall>ip'. clks_net_arp_lookup ip' (clks_net_arp_upsert ip mac s) =
         (if ip' = ip then Some mac else if Some ip' = victim then None else clks_net_arp_lookup ip' s)) \<and>
       (\<forall>v. victim = Some v \<longrightarrow> clks_net_arp_lookup ip s = None \<and> (\<forall>e \<in> set ?t. ae_valid e) \<and>
          (\<exists>old \<in> set ?t. arp_has old v \<and> (\<forall>e \<in> set ?t. ae_stamp old \<le> ae_stamp e)))"
    by (rule exI [of _ ?v], rule conjI, rule allI, rule l, intro allI impI, rule v)
  ultimately show ?thesis by blast
qed

theorem arp_table_is_a_cache_witness:
  "arp_ok (clks_net_arp_table (clks_net_arp_upsert 0x0A000202 [2, 0, 0, 0, 0, 2] (net_boot ()))) \<and>
   clks_net_arp_lookup 0x0A000202 (clks_net_arp_upsert 0x0A000202 [2, 0, 0, 0, 0, 2] (net_boot ())) = Some [2, 0, 0, 0, 0, 2]"
proof -
  have "arp_ok (clks_net_arp_table (net_boot ()))" by (simp add: net_boot_def arp_ok_def zero_arp_entry_def)
  moreover have "\<not> clks_net_mac_invalid [2, 0, 0, 0, 0, 2]" by (simp add: clks_net_mac_invalid_def upt_rec)
  ultimately show ?thesis
    using arp_table_is_a_cache [of "net_boot ()" "0x0A000202" "[2, 0, 0, 0, 0, 2]"] by auto
qed

section \<open>The invariant of the stack\<close>

definition tcp_ok :: "clks_net_tcp_conn \<Rightarrow> bool" where
  "tcp_ok c \<longleftrightarrow> recv_ok c \<and> (tc_active c \<longleftrightarrow> tc_state c \<noteq> TCP_CLOSED)"

definition net_ok :: "'d net_state \<Rightarrow> bool" where
  "net_ok s \<longleftrightarrow> udp_ok s \<and> tcp_ok (clks_net_tcp s) \<and> arp_ok (clks_net_arp_table s) \<and>
     clks_net_rx_index s < CLKS_NET_DESC_COUNT \<and> clks_net_tx_index s < CLKS_NET_DESC_COUNT"

lemma net_okI:
  assumes "net_ok s" "clks_net_udp_queue s' = clks_net_udp_queue s" "clks_net_udp_head s' = clks_net_udp_head s"
    "clks_net_udp_tail s' = clks_net_udp_tail s" "clks_net_udp_count s' = clks_net_udp_count s"
    "clks_net_arp_table s' = clks_net_arp_table s" "tcp_ok (clks_net_tcp s')"
    "clks_net_rx_index s' < CLKS_NET_DESC_COUNT" "clks_net_tx_index s' < CLKS_NET_DESC_COUNT"
  shows "net_ok s'"
  using assms by (simp add: net_ok_def udp_ok_def udp_waiting_def)

lemma net_ok_fields:
  assumes "net_ok s"
  shows "udp_ok s" "tcp_ok (clks_net_tcp s)" "arp_ok (clks_net_arp_table s)"
    "clks_net_rx_index s < CLKS_NET_DESC_COUNT" "clks_net_tx_index s < CLKS_NET_DESC_COUNT"
  using assms by (simp_all add: net_ok_def)

text \<open>What sending changes: the card, its transmit index and the packet identifier.\<close>

definition after_send :: "'d net_state \<Rightarrow> 'd net_state \<Rightarrow> bool" where
  "after_send s s' \<longleftrightarrow> (\<exists>d i k. s' = s\<lparr>net_dev := d, clks_net_tx_index := i, clks_net_ipv4_ident := k\<rparr> \<and>
     (i = clks_net_tx_index s \<or> i < CLKS_NET_DESC_COUNT))"

named_theorems sends

lemma after_sendI: "s' = s\<lparr>net_dev := d, clks_net_tx_index := i, clks_net_ipv4_ident := k\<rparr> \<Longrightarrow>
    i = clks_net_tx_index s \<or> i < CLKS_NET_DESC_COUNT \<Longrightarrow> after_send s s'"
  unfolding after_send_def by blast

lemma after_send_refl [sends]: "after_send s s"
  by (rule after_sendI [where d = "net_dev s" and i = "clks_net_tx_index s" and k = "clks_net_ipv4_ident s"]) simp_all

lemma after_send_dev [sends]: "after_send s (s\<lparr>net_dev := d\<rparr>)"
  by (rule after_sendI [where d = d and i = "clks_net_tx_index s" and k = "clks_net_ipv4_ident s"]) simp_all

lemma after_send_trans: "after_send s t \<Longrightarrow> after_send t u \<Longrightarrow> after_send s u"
  unfolding after_send_def by force

lemma after_send_on_dev [sends]: "after_send s (snd (on_dev f s))"
  by (simp add: on_dev_def split_beta sends)

lemma after_send_tx_wait [sends]: "after_send s (snd (tx_wait dv i n s))"
proof (induction n arbitrary: s)
  case 0
  then show ?case by (simp add: sends)
next
  case (Suc n)
  show ?case by (auto simp: split_beta intro: after_send_trans [OF after_send_on_dev Suc.IH] sends)
qed

lemma desc_pos: "(n::nat) mod CLKS_NET_DESC_COUNT < CLKS_NET_DESC_COUNT"
  by (simp add: CLKS_NET_DESC_COUNT_def)

lemma after_send_tx_frame [sends]: "after_send s (snd (clks_net_tx_frame dv f s))"
proof -
  let ?t = "snd (tx_wait dv (clks_net_tx_index s) CLKS_NET_TX_WAIT_LOOPS s)"
  have "after_send ?t (?t\<lparr>net_dev := d, clks_net_tx_index := n mod CLKS_NET_DESC_COUNT\<rparr>)" for d n
    by (rule after_sendI [where d = d and i = "n mod CLKS_NET_DESC_COUNT" and k = "clks_net_ipv4_ident ?t"]) (simp_all add: desc_pos)
  from after_send_trans [OF after_send_tx_wait this]
  show ?thesis by (simp add: clks_net_tx_frame_def Let_def split_beta sends)
qed

lemma after_send_arp [sends]: "after_send s (snd (clks_net_send_arp_packet dv op m ip s))"
  by (simp add: clks_net_send_arp_packet_def sends)

lemma after_send_ipv4_from [sends]: "after_send s (snd (clks_net_send_ipv4_packet_from dv src dst m proto p s))"
proof -
  have "after_send s (s\<lparr>clks_net_ipv4_ident := k\<rparr>)" for k
    by (rule after_sendI [where d = "net_dev s" and i = "clks_net_tx_index s" and k = k]) simp_all
  from after_send_trans [OF this after_send_tx_frame]
  show ?thesis by (simp add: clks_net_send_ipv4_packet_from_def Let_def sends)
qed

lemma after_send_udp [sends]: "after_send s (snd (clks_net_send_udp_datagram dv src dst m sp dp p s))"
  by (simp add: clks_net_send_udp_datagram_def Let_def sends)

lemma after_send_tcp [sends]: "after_send s (snd (clks_net_send_tcp_segment_raw dv src dst m sp dp q a f p s))"
  by (simp add: clks_net_send_tcp_segment_raw_def Let_def sends)

lemma after_send_ack [sends]: "after_send s (snd (clks_net_send_tcp_ack dv s))"
  by (simp add: clks_net_send_tcp_ack_def Let_def sends)

lemma after_send_icmp [sends]: "after_send s (snd (clks_net_send_icmp_echo dv dst m ty q p s))"
  by (simp add: clks_net_send_icmp_echo_def clks_net_send_ipv4_packet_def Let_def sends)

lemma after_send_dhcp [sends]:
  "after_send s (snd (clks_net_dhcp_send_discover dv s))" "after_send s (snd (clks_net_dhcp_send_request dv s))"
  by (simp_all add: clks_net_dhcp_send_discover_def clks_net_dhcp_send_request_def Let_def sends)

text \<open>The invariant after a send, after a change of fields it does not read, and after one of the connection.\<close>

named_theorems net_oks

lemma net_ok_send: "after_send s s' \<Longrightarrow> net_ok s \<Longrightarrow> net_ok s'"
proof -
  assume s: "after_send s s'" and ok: "net_ok s"
  from s obtain d i k where "s' = s\<lparr>net_dev := d, clks_net_tx_index := i, clks_net_ipv4_ident := k\<rparr>"
    "i = clks_net_tx_index s \<or> i < CLKS_NET_DESC_COUNT" unfolding after_send_def by blast
  with net_ok_fields [OF ok] show "net_ok s'" by (intro net_okI [OF ok]) auto
qed

lemmas net_ok_sends [net_oks] = after_send_dev [THEN net_ok_send] after_send_on_dev [THEN net_ok_send]
  after_send_tx_frame [THEN net_ok_send] after_send_arp [THEN net_ok_send] after_send_ipv4_from [THEN net_ok_send]
  after_send_udp [THEN net_ok_send] after_send_tcp [THEN net_ok_send] after_send_ack [THEN net_ok_send]
  after_send_icmp [THEN net_ok_send] after_send_dhcp [THEN net_ok_send]

lemma net_ok_tcp [net_oks]: "net_ok s \<Longrightarrow> tcp_ok c \<Longrightarrow> net_ok (s\<lparr>clks_net_tcp := c\<rparr>)"
  by (rule net_okI [of s]) (simp_all add: net_ok_fields)

lemma net_ok_other [net_oks]:
  assumes "net_ok s"
  shows "net_ok (s\<lparr>clks_net_tcp_last_err := e\<rparr>)" "net_ok (s\<lparr>clks_net_tcp_ephemeral_port := p\<rparr>)"
    "net_ok (s\<lparr>clks_net_ping_waiting := w\<rparr>)" "net_ok (s\<lparr>clks_net_ping_reply_ok := w\<rparr>)"
    "net_ok (s\<lparr>clks_net_ping_wait_alt_src_be := ip\<rparr>)" "net_ok (s\<lparr>clks_net_ping_wait_dst_be := ip\<rparr>)"
    "net_ok (s\<lparr>clks_net_ping_wait_seq := q\<rparr>)" "net_ok (s\<lparr>clks_net_ping_seq := q\<rparr>)"
    "net_ok (s\<lparr>clks_net_dhcp_active := w\<rparr>)" "net_ok (s\<lparr>clks_net_dhcp_failed := w\<rparr>)"
    "net_ok (s\<lparr>clks_net_dhcp_xid := ip\<rparr>)" "net_ok (s\<lparr>clks_net_dhcp_xid_seed := ip\<rparr>)"
    "net_ok (s\<lparr>clks_net_dhcp_offer_ip_be := ip\<rparr>)" "net_ok (s\<lparr>clks_net_dhcp_server_id_be := ip\<rparr>)"
    "net_ok (s\<lparr>clks_net_dhcp_offer_netmask_be := ip\<rparr>)" "net_ok (s\<lparr>clks_net_dhcp_offer_gateway_be := ip\<rparr>)"
    "net_ok (s\<lparr>clks_net_dhcp_offer_dns_be := ip\<rparr>)" "net_ok (s\<lparr>clks_net_dhcp_offer_ready := w\<rparr>)"
    "net_ok (s\<lparr>clks_net_dhcp_ack_ready := w\<rparr>)"
    "net_ok (s\<lparr>clks_net_ipv4_be := ip\<rparr>)" "net_ok (s\<lparr>clks_net_netmask_be := ip\<rparr>)"
    "net_ok (s\<lparr>clks_net_gateway_be := ip\<rparr>)" "net_ok (s\<lparr>clks_net_dns_be := ip\<rparr>)"
    "net_ok (s\<lparr>clks_net_mac := m\<rparr>)" "net_ok (s\<lparr>clks_net_hw_ready := w\<rparr>)" "net_ok (s\<lparr>clks_net_ready := w\<rparr>)"
  by (rule net_okI [OF assms]; simp add: net_ok_fields [OF assms])+

lemma tcp_ok_zero [simp]: "tcp_ok zero_conn"
  by (simp add: tcp_ok_def recv_ok_def zero_conn_def CLKS_NET_TCP_RECV_CAP_def)

lemma net_ok_reset [net_oks]: "net_ok s \<Longrightarrow> net_ok (clks_net_tcp_reset s)"
  by (simp add: clks_net_tcp_reset_def net_oks)

lemma net_ok_arp_upsert [net_oks]: "net_ok s \<Longrightarrow> net_ok (clks_net_arp_upsert ip m s)"
proof -
  assume ok: "net_ok s"
  obtain t k where "clks_net_arp_upsert ip m s = s\<lparr>clks_net_arp_table := t, clks_net_arp_stamp := k\<rparr>"
  proof (cases "clks_net_mac_invalid m \<or> ip = 0")
    case True
    then show ?thesis using that [of "clks_net_arp_stamp s" "clks_net_arp_table s"] by (simp add: clks_net_arp_upsert_def)
  next
    case False
    then show ?thesis using that
      by (cases "arp_scan ip (clks_net_arp_table s) 0 CLKS_NET_ARP_TABLE_CAP 0 (- 1)")
        (auto simp: clks_net_arp_upsert_def Let_def split: prod.split)
  qed
  with arp_upsert_ok [OF net_ok_fields(3) [OF ok], of ip m] ok show ?thesis
    by (simp add: net_ok_def udp_ok_def udp_waiting_def)
qed

lemma net_ok_udp_push [net_oks]: "net_ok s \<Longrightarrow> net_ok (clks_net_udp_queue_push src sp dp p n s)"
  using udp_push_spec(1) [of s src sp dp p n]
  by (simp add: net_ok_def clks_net_udp_queue_push_def Let_def)

text \<open>The steps of a segment.\<close>

lemma tcp_ok_upd:
  assumes "tcp_ok c"
  shows "recv_view c' = recv_view c \<Longrightarrow> recv_ok c' \<Longrightarrow> tcp_ok c'"
  using assms recv_view_simps [of c' c] by (simp add: tcp_ok_def)

lemma tcp_ok_take_ack: "tcp_ok c \<Longrightarrow> tcp_ok (tcp_take_ack flags ack c)"
  by (simp add: tcp_take_ack_def tcp_ok_def recv_ok_def)

lemma tcp_ok_take_data: "tcp_ok c \<Longrightarrow> tcp_ok (tcp_take_data seq data c)"
  using recv_fold_spec [of c data] recv_view_simps [of "fold recv_store data c" c]
  by (auto simp: tcp_take_data_def tcp_ok_def recv_ok_def)

lemma tcp_ok_take_fin: "tcp_ok c \<Longrightarrow> tcp_ok (tcp_take_fin flags q c)"
  by (simp add: tcp_take_fin_def tcp_ok_def recv_ok_def Let_def)

lemma tcp_ok_our_fin: "tcp_ok c \<Longrightarrow> tcp_ok (tcp_our_fin c)"
  by (simp add: tcp_our_fin_def tcp_ok_def recv_ok_def Let_def)

lemmas tcp_ok_steps = tcp_ok_take_ack tcp_ok_take_data tcp_ok_take_fin tcp_ok_our_fin

lemma net_ok_icmp [net_oks]: "net_ok s \<Longrightarrow> net_ok (clks_net_process_icmp dv src m p n s)"
  by (simp add: clks_net_process_icmp_def clks_net_send_icmp_echo_reply_def Let_def net_oks)

lemma net_ok_dhcp_payload [net_oks]: "net_ok s \<Longrightarrow> net_ok (clks_net_dhcp_process_payload src p n s)"
  by (simp add: clks_net_dhcp_process_payload_def Let_def net_oks)

lemma net_ok_udp [net_oks]: "net_ok s \<Longrightarrow> net_ok (clks_net_process_udp src p n s)"
  by (simp add: clks_net_process_udp_def Let_def net_oks)

lemma tcp_ok_simple [intro]:
  assumes "tcp_ok c"
  shows "tcp_ok (c\<lparr>tc_remote_mac := m\<rparr>)" "tcp_ok (c\<lparr>tc_snd_una := a\<rparr>)" "tcp_ok (c\<lparr>tc_stale_ack_seen := w\<rparr>)"
    "tcp_ok (c\<lparr>tc_remote_mac := m, tc_snd_una := a\<rparr>)" "tcp_ok (c\<lparr>tc_remote_mac := m, tc_stale_ack_seen := w\<rparr>)"
    "tcp_ok (c\<lparr>tc_remote_mac := m, tc_reset_seen := w, tc_active := False, tc_state := TCP_CLOSED\<rparr>)"
  using assms by (simp_all add: tcp_ok_def recv_ok_def)

lemma tcp_ok_live [intro]:
  assumes "tcp_ok c" "tc_active c" "st \<noteq> TCP_CLOSED"
  shows "tcp_ok (c\<lparr>tc_remote_mac := m, tc_snd_una := a, tc_state := st\<rparr>)"
    "tcp_ok (c\<lparr>tc_remote_mac := m, tc_snd_una := a, tc_rcv_nxt := r, tc_state := st\<rparr>)"
    "tcp_ok (c\<lparr>tc_remote_mac := m, tc_remote_ipv4_be := ip, tc_remote_alt_ipv4_be := ip', tc_remote_port := p, tc_snd_iss := i,
       tc_snd_una := a, tc_snd_nxt := n, tc_rcv_nxt := r, tc_state := st\<rparr>)"
  using assms by (simp_all add: tcp_ok_def recv_ok_def)

lemma net_ok_accept_syn:
  "net_ok s \<Longrightarrow> tc_active (clks_net_tcp s) \<Longrightarrow> net_ok (tcp_accept_syn dv src m sp dp flags q s)"
  unfolding tcp_accept_syn_def Let_def
  by (auto intro!: net_oks tcp_ok_live net_ok_fields)

lemma net_ok_choice: "(b \<Longrightarrow> net_ok t) \<Longrightarrow> (\<not> b \<Longrightarrow> net_ok u) \<Longrightarrow> net_ok (if b then t else u)"
  by simp

lemma tcp_ok_choice: "(b \<Longrightarrow> tcp_ok t) \<Longrightarrow> (\<not> b \<Longrightarrow> tcp_ok u) \<Longrightarrow> tcp_ok (if b then t else u)"
  by simp

lemma net_ok_tcp_input:
  assumes ok: "net_ok s"
  shows "net_ok (tcp_input dv src m sp dp flags q a data s)"
proof -
  note c = net_ok_fields(2) [OF ok]
  show ?thesis
    unfolding tcp_input_def Let_def
    by (intro net_ok_choice; (intro ok net_oks net_ok_accept_syn tcp_ok_steps tcp_ok_choice tcp_ok_simple tcp_ok_live c)?; simp?)
qed

lemma net_ok_tcp_segment [net_oks]: "net_ok s \<Longrightarrow> net_ok (clks_net_process_tcp dv src m p n s)"
  unfolding clks_net_process_tcp_def Let_def by (auto intro: net_ok_tcp_input)

lemma net_ok_ipv4 [net_oks]: "net_ok s \<Longrightarrow> net_ok (clks_net_process_ipv4 dv f n s)"
  by (simp add: clks_net_process_ipv4_def Let_def net_oks)

lemma net_ok_arp [net_oks]: "net_ok s \<Longrightarrow> net_ok (clks_net_process_arp dv f n s)"
  by (simp add: clks_net_process_arp_def Let_def net_oks)

lemma net_ok_frame [net_oks]: "net_ok s \<Longrightarrow> net_ok (clks_net_process_frame dv f n s)"
  by (simp add: clks_net_process_frame_def Let_def net_oks)

lemma net_ok_rx_loop [net_oks]: "net_ok s \<Longrightarrow> net_ok (rx_loop dv n s)"
proof (induction n arbitrary: s)
  case 0
  then show ?case by simp
next
  case (Suc n)
  obtain r s1 where r: "on_dev (nd_rx dv (clks_net_rx_index s)) s = (r, s1)" by fastforce
  have s1: "net_ok s1" using net_ok_send [OF after_send_on_dev Suc.prems, of "nd_rx dv (clks_net_rx_index s)"] r by simp
  show ?case
  proof (cases r)
    case None
    with r s1 show ?thesis by simp
  next
    case (Some p)
    obtain len frame where p: "p = (len, frame)" by (cases p)
    let ?s2 = "if 0 < len \<and> len \<le> CLKS_NET_BUF_SIZE then clks_net_process_frame dv frame len s1 else s1"
    have s2: "net_ok ?s2" using s1 by (simp add: net_oks)
    have "net_ok (?s2\<lparr>net_dev := d, clks_net_rx_index := k mod CLKS_NET_DESC_COUNT\<rparr>)" for d k
      by (rule net_okI [OF s2]) (simp_all add: net_ok_fields [OF s2] desc_pos del: if_split)
    from Suc.IH [OF this] show ?thesis using r Some p by (simp add: Let_def del: if_split)
  qed
qed

lemma net_ok_poll [net_oks]: "net_ok s \<Longrightarrow> net_ok (clks_net_poll_internal dv s)" "net_ok s \<Longrightarrow> net_ok (clks_net_poll dv s)"
  by (simp_all add: clks_net_poll_internal_def clks_net_poll_def net_oks)

lemma poll_until_inv:
  assumes "\<And>t. P t \<Longrightarrow> P (snd (f t))" "P s"
  shows "P (snd (poll_until f n s))"
  using assms(2)
proof (induction n arbitrary: s)
  case 0
  then show ?case by simp
next
  case (Suc n)
  then show ?case using assms(1) [OF Suc.prems] by (cases "f s"; cases "fst (f s)") auto
qed

lemma net_ok_poll_until [net_oks]:
  assumes "net_ok s" "\<And>t. net_ok t \<Longrightarrow> net_ok (snd (f t))"
  shows "net_ok (snd (poll_until f n s))"
  using poll_until_inv [of net_ok f s n] assms by blast

lemma net_ok_bind:
  "net_ok (snd q) \<Longrightarrow> (\<And>r t. net_ok t \<Longrightarrow> net_ok (snd (F r t))) \<Longrightarrow> net_ok (snd (case q of (r, t) \<Rightarrow> F r t))"
  by (cases q) simp

lemma net_ok_option:
  "net_ok (snd A) \<Longrightarrow> (\<And>x. net_ok (snd (B x))) \<Longrightarrow> net_ok (snd (case r of None \<Rightarrow> A | Some x \<Rightarrow> B x))"
  by (cases r) simp_all

lemma net_ok_if: "net_ok (snd A) \<Longrightarrow> net_ok (snd B) \<Longrightarrow> net_ok (snd (if b then A else B))"
  by simp

lemma net_ok_pair: "net_ok t \<Longrightarrow> net_ok (snd (r, t))"
  by simp

lemmas net_binds = net_ok_bind net_ok_option net_ok_if net_ok_pair

lemma net_ok_dhcp_stage:
  assumes "\<And>t. net_ok t \<Longrightarrow> net_ok (snd (send t))" "net_ok s"
  shows "net_ok (snd (dhcp_stage dv send ready n s))"
  using assms(2)
proof (induction n arbitrary: s)
  case 0
  then show ?case by simp
next
  case (Suc n)
  have p: "net_ok (snd (poll_until (\<lambda>t. let t1 = clks_net_poll_internal dv t in
      (if clks_net_dhcp_failed t1 then Some True else if ready t1 then Some False else None, t1)) k (snd (send s))))" for k
    by (rule net_ok_poll_until [OF assms(1) [OF Suc.prems]]) (simp add: Let_def net_oks)
  show ?case
    using Suc.IH [OF p] Suc.IH [OF assms(1) [OF Suc.prems]] p
    by (simp add: split_beta del: poll_until.simps split: option.split)
qed

lemma net_ok_autoconfigure [net_oks]:
  assumes "net_ok s"
  shows "net_ok (snd (clks_net_dhcp_autoconfigure dv s))"
proof -
  have "net_ok (clks_net_dhcp_state_reset s)" using assms by (simp add: clks_net_dhcp_state_reset_def net_oks)
  then show ?thesis
    unfolding clks_net_dhcp_autoconfigure_def Let_def
    by (simp add: split_beta net_oks net_ok_dhcp_stage)
qed

lemma net_ok_resolve [net_oks]: "net_ok s \<Longrightarrow> net_ok (snd (clks_net_resolve_ipv4 dv ip k s))"
  by (simp add: clks_net_resolve_ipv4_def Let_def net_oks split: option.split)

lemma net_ok_init [net_oks]: "net_ok (clks_net_init dv s)"
proof -
  have "net_ok (net_cleared s)"
    by (simp add: net_ok_def net_cleared_def clks_net_dhcp_state_reset_def clks_net_tcp_reset_def clks_net_udp_queue_reset_def
        clks_net_arp_table_reset_def udp_ok_def udp_waiting_def arp_ok_def zero_arp_entry_def udp_ring.items_0 [unfolded CLKS_NET_UDP_QUEUE_CAP_def]
        CLKS_NET_DESC_COUNT_def CLKS_NET_UDP_QUEUE_CAP_def)
  then have "net_ok (snd (on_dev (nd_hw_init dv) (net_cleared s)))" by (simp add: net_oks)
  then show ?thesis
    unfolding clks_net_init_def Let_def clks_net_apply_fallback_config_def
    by (simp add: split_beta net_oks split: option.split)
qed

lemma net_ok_ping [net_oks]: "net_ok s \<Longrightarrow> net_ok (snd (clks_net_ping_ipv4 dv ip k s))"
  unfolding clks_net_ping_ipv4_def clks_net_send_icmp_echo_request_def Let_def
  by (intro net_binds net_oks)

lemma net_ok_udp_send [net_oks]: "net_ok s \<Longrightarrow> net_ok (snd (clks_net_udp_send dv ip dp sp p s))"
  unfolding clks_net_udp_send_def Let_def by (intro net_binds net_oks)

lemma net_ok_udp_recv [net_oks]:
  assumes "net_ok s"
  shows "net_ok (snd (clks_net_udp_recv dv k s))"
proof (cases "\<not> clks_net_available s \<or> k = 0 \<or> clks_net_udp_count (clks_net_poll_internal dv s) = 0")
  case True
  then show ?thesis using assms by (auto simp: clks_net_udp_recv_def Let_def net_oks)
next
  case False
  let ?s = "clks_net_poll_internal dv s"
  have ok: "net_ok ?s" using assms by (simp add: net_oks)
  have n: "clks_net_udp_count ?s \<noteq> 0" using False by simp
  have "net_ok (udp_taken ?s)"
    using ok udp_taken_spec(1) [OF net_ok_fields(1) [OF ok] n] by (simp add: net_ok_def udp_taken_def)
  with False udp_taken_spec(3) [OF net_ok_fields(1) [OF ok] n] show ?thesis
    by (simp add: clks_net_udp_recv_def Let_def udp_taken_def)
qed

lemma tcp_ok_simple' [intro]:
  assumes "tcp_ok c"
  shows "tcp_ok (c\<lparr>tc_local_port := p\<rparr>)" "tcp_ok (c\<lparr>tc_local_port := p, tc_remote_mac := m\<rparr>)"
    "tcp_ok (c\<lparr>tc_snd_nxt := q\<rparr>)" "tcp_ok (c\<lparr>tc_snd_iss := i, tc_snd_una := i, tc_snd_nxt := q, tc_rcv_nxt := 0, tc_stale_ack_seen := w\<rparr>)"
  using assms by (simp_all add: tcp_ok_def recv_ok_def)

lemma net_ok_tcp_upd: "net_ok s \<Longrightarrow> (tcp_ok (clks_net_tcp s) \<Longrightarrow> tcp_ok (f (clks_net_tcp s))) \<Longrightarrow> net_ok (tcp_upd f s)"
  unfolding tcp_upd_def by (rule net_ok_tcp) (auto intro: net_ok_fields)

lemma net_ok_port [net_oks]: "net_ok s \<Longrightarrow> net_ok (snd (clks_net_tcp_next_ephemeral_port dv s))"
  by (simp add: clks_net_tcp_next_ephemeral_port_def Let_def net_oks)

lemma net_ok_recv_pop [net_oks]: "net_ok s \<Longrightarrow> net_ok (snd (clks_net_tcp_recv_pop k s))"
proof -
  assume ok: "net_ok s"
  note c = net_ok_fields(2) [OF ok]
  have "tcp_ok (snd (recv_take k (clks_net_tcp s)))"
    using recv_take_spec [of "clks_net_tcp s" k] c by (intro tcp_ok_upd [OF c]) (simp_all add: tcp_ok_def)
  then show "net_ok (snd (clks_net_tcp_recv_pop k s))"
    using ok by (simp add: clks_net_tcp_recv_pop_def split_beta net_oks)
qed

lemma net_ok_tcp_recv [net_oks]: "net_ok s \<Longrightarrow> net_ok (snd (clks_net_tcp_recv dv k b s))"
  unfolding clks_net_tcp_recv_def Let_def by (intro net_binds net_oks; assumption?)

lemma net_ok_tcp_listen [net_oks]: "net_ok s \<Longrightarrow> net_ok (snd (clks_net_tcp_listen p s))"
proof -
  assume ok: "net_ok s"
  have "net_ok (tcp_upd (\<lambda>c. c\<lparr>tc_active := True, tc_state := TCP_LISTEN, tc_local_port := p\<rparr>)
      (clks_net_tcp_reset (s\<lparr>clks_net_tcp_last_err := e\<rparr>)))" for e
    by (intro net_ok_tcp_upd net_oks ok) (simp add: tcp_ok_def recv_ok_def)
  with ok show ?thesis unfolding clks_net_tcp_listen_def Let_def by (intro net_binds net_oks)
qed

lemma net_ok_tcp_accept [net_oks]: "net_ok s \<Longrightarrow> net_ok (snd (clks_net_tcp_accept dv b s))"
proof -
  assume ok: "net_ok s"
  let ?f = "\<lambda>t. let t1 = clks_net_poll_internal dv t in (if tc_reset_seen (clks_net_tcp t1) then Some Ev_Reset
      else if tc_state (clks_net_tcp t1) = TCP_ESTABLISHED then Some Ev_Done else None, t1)"
  have "net_ok (snd (poll_until ?f k s))" for k
    by (rule net_ok_poll_until [OF ok]) (simp add: Let_def net_oks)
  then show ?thesis
    unfolding clks_net_tcp_accept_def Let_def [of "if _ then _ else _"]
    by (simp add: split_beta net_oks ok split: option.split tcp_event.split)
qed

lemma tcp_reset_eq: "clks_net_tcp_reset s = s\<lparr>clks_net_tcp := zero_conn\<rparr>"
  by (simp add: clks_net_tcp_reset_def)

text \<open>A turn of a polling loop, whatever it looks at.\<close>

lemma net_ok_turn [net_oks]: "net_ok t \<Longrightarrow> net_ok (snd (let t1 = clks_net_poll_internal dv t in (g t1, t1)))"
  by (simp add: Let_def net_oks)

lemma net_ok_event: "net_ok (snd A) \<Longrightarrow> net_ok (snd B) \<Longrightarrow> net_ok (snd C) \<Longrightarrow>
    net_ok (snd (case e of Ev_Reset \<Rightarrow> A | Ev_Stale \<Rightarrow> B | Ev_Done \<Rightarrow> C))"
  by (cases e) simp_all

lemma net_ok_connect_tries:
  "net_ok s \<Longrightarrow> net_ok (snd (tcp_connect_tries dv ip sp b tries s))"
proof (induction tries arbitrary: s)
  case Nil
  then show ?case by simp
next
  case (Cons i tries)
  let ?s1 = "if sp = 0 \<and> i > 0
    then case clks_net_tcp_next_ephemeral_port dv s of (port, t) \<Rightarrow> tcp_upd (\<lambda>c. c\<lparr>tc_local_port := port\<rparr>) t else s"
  have s1: "net_ok ?s1"
    using net_ok_port [OF Cons.prems, of dv] Cons.prems by (auto simp: split_beta intro!: net_ok_tcp_upd)
  have s2: "net_ok (?s1\<lparr>clks_net_tcp := (clks_net_tcp ?s1)\<lparr>tc_snd_iss := j, tc_snd_una := j, tc_snd_nxt := q, tc_rcv_nxt := 0,
      tc_stale_ack_seen := False\<rparr>\<rparr>)" for j q
    by (intro net_ok_tcp s1 tcp_ok_simple' net_ok_fields)
  show ?case
    unfolding tcp_connect_tries.simps Let_def [of ?s1] Let_def [of "clks_net_tcp _"] Let_def [of "clks_net_tcp_make_iss _ _ _ _ _ _"]
      Let_def [of "_\<lparr>clks_net_tcp := _\<rparr>"]
    by (intro net_binds net_ok_event net_ok_turn Cons.IH net_oks s2)
qed

lemma net_ok_tcp_connect [net_oks]: "net_ok s \<Longrightarrow> net_ok (snd (clks_net_tcp_connect dv ip dp sp b s))"
proof -
  assume ok: "net_ok s"
  have new: "net_ok (tcp_upd (\<lambda>c. c\<lparr>tc_active := True, tc_state := TCP_SYN_SENT, tc_remote_ipv4_be := ip, tc_remote_alt_ipv4_be := ip',
      tc_remote_port := p\<rparr>) (clks_net_tcp_reset t))" if "net_ok t" for t ip' p
    using that by (intro net_ok_tcp_upd net_ok_reset) (simp_all add: tcp_ok_def recv_ok_def)
  have local: "net_ok (tcp_upd (\<lambda>c. c\<lparr>tc_local_port := p, tc_remote_mac := m\<rparr>) t)" if "net_ok t" for t p m
    using that by (intro net_ok_tcp_upd tcp_ok_simple')
  show ?thesis
    unfolding clks_net_tcp_connect_def Let_def
    by (intro net_binds net_ok_connect_tries new local net_ok_choice net_oks ok)
qed

lemma net_ok_send_tries: "net_ok s \<Longrightarrow> net_ok (snd (tcp_send_tries dv b n q chunk s))"
proof (induction n arbitrary: s)
  case 0
  then show ?case by simp
next
  case (Suc n)
  then show ?case
    unfolding tcp_send_tries.simps Let_def [of "clks_net_tcp _"]
    by (intro net_binds net_ok_turn net_oks Suc.IH)
qed

lemma net_ok_close_tries: "net_ok s \<Longrightarrow> net_ok (snd (tcp_close_tries dv b n q s))"
proof (induction n arbitrary: s)
  case 0
  then show ?case by simp
next
  case (Suc n)
  then show ?case
    unfolding tcp_close_tries.simps Let_def [of "clks_net_tcp _"] Let_def [of "snd (clks_net_send_tcp_segment_raw _ _ _ _ _ _ _ _ _ _ _)"]
    by (intro net_binds net_ok_turn net_oks Suc.IH)
qed

lemma net_ok_tcp_close [net_oks]: "net_ok s \<Longrightarrow> net_ok (snd (clks_net_tcp_close dv b s))"
proof -
  assume ok: "net_ok s"
  let ?c = "clks_net_tcp s"
  have "net_ok (s\<lparr>clks_net_tcp := ?c\<lparr>tc_snd_nxt := q, tc_state := st\<rparr>\<rparr>)" if "tc_active ?c" "st \<noteq> TCP_CLOSED" for q st
    using net_ok_fields(2) [OF ok] that by (intro net_ok_tcp ok) (simp add: tcp_ok_def recv_ok_def)
  from net_ok_close_tries [OF this] show ?thesis
    unfolding clks_net_tcp_close_def Let_def
    using ok by (auto simp: net_oks split_beta simp del: tcp_close_tries.simps)
qed

lemma net_ok_send_loop: "tcp_send_loop dv payload b done s = Some r \<Longrightarrow> net_ok s \<longrightarrow> net_ok (snd r)"
proof (induction dv payload b "done" s r rule: tcp_send_loop.raw_induct [rotated, consumes 1, case_names step])
  case (step f dv payload b "done" s r)
  show ?case
  proof (intro impI)
    assume ok: "net_ok s"
    show "net_ok (snd r)"
    proof (cases "done < length payload")
      case False
      with step.hyps ok show ?thesis by auto
    next
      case True
      define m where "m = (length payload - done) mod 65536"
      define k where "k = (if m > CLKS_NET_TCP_SEND_MAX_SEGMENT then CLKS_NET_TCP_SEND_MAX_SEGMENT else m)"
      define q where "q = tc_snd_nxt (clks_net_tcp s)"
      define s1 where "s1 = tcp_upd (\<lambda>c. c\<lparr>tc_snd_nxt := q + of_nat k\<rparr>) s"
      define p where "p = (if b div CLKS_NET_TCP_RETRY_COUNT < 10000 then 10000 else b div CLKS_NET_TCP_RETRY_COUNT)"
      obtain e s2 where t: "tcp_send_tries dv p CLKS_NET_TCP_RETRY_COUNT q (take k (drop done payload)) s1 = (e, s2)" by fastforce
      have "net_ok s1" unfolding s1_def by (intro net_ok_tcp_upd ok tcp_ok_simple')
      from net_ok_send_tries [OF this, of dv p CLKS_NET_TCP_RETRY_COUNT q "take k (drop done payload)"]
      have s2: "net_ok s2" by (simp add: t)
      have "(case (e, s2) of (None, s2) \<Rightarrow> Some (done, s2)
          | (Some e, s2) \<Rightarrow> if e = Ev_Reset then Some (done, clks_net_tcp_reset s2) else f dv payload b (done + k) s2) = Some r"
        using step.hyps True unfolding Let_def m_def [symmetric] k_def [symmetric] q_def [symmetric] s1_def [symmetric] p_def [symmetric] t
        by simp
      with s2 step.IH [of dv payload b "done + k" s2 r] show ?thesis
        by (cases e) (auto simp: net_oks split: if_splits)
    qed
  qed
qed

lemma net_ok_tcp_send [net_oks]: "clks_net_tcp_send dv payload b s = Some r \<Longrightarrow> net_ok s \<Longrightarrow> net_ok (snd r)"
  by (auto simp: clks_net_tcp_send_def Let_def dest!: net_ok_send_loop split: if_splits)

text \<open>The states of the stack: after its start, and after any sequence of its calls.\<close>

inductive net_reachable :: "'d net_device \<Rightarrow> 'd net_state \<Rightarrow> bool" for dv where
  reach_init: "net_reachable dv (clks_net_init dv (net_boot d))"
| reach_poll: "net_reachable dv s \<Longrightarrow> net_reachable dv (clks_net_poll dv s)"
| reach_ping: "net_reachable dv s \<Longrightarrow> net_reachable dv (snd (clks_net_ping_ipv4 dv ip budget s))"
| reach_udp_send: "net_reachable dv s \<Longrightarrow> net_reachable dv (snd (clks_net_udp_send dv ip dst_port src_port payload s))"
| reach_udp_recv: "net_reachable dv s \<Longrightarrow> net_reachable dv (snd (clks_net_udp_recv dv capacity s))"
| reach_connect: "net_reachable dv s \<Longrightarrow> net_reachable dv (snd (clks_net_tcp_connect dv ip dst_port src_port budget s))"
| reach_listen: "net_reachable dv s \<Longrightarrow> net_reachable dv (snd (clks_net_tcp_listen port s))"
| reach_accept: "net_reachable dv s \<Longrightarrow> net_reachable dv (snd (clks_net_tcp_accept dv budget s))"
| reach_send: "net_reachable dv s \<Longrightarrow> clks_net_tcp_send dv data budget s = Some r \<Longrightarrow> net_reachable dv (snd r)"
| reach_recv: "net_reachable dv s \<Longrightarrow> net_reachable dv (snd (clks_net_tcp_recv dv capacity budget s))"
| reach_close: "net_reachable dv s \<Longrightarrow> net_reachable dv (snd (clks_net_tcp_close dv budget s))"

lemma net_reachable_ok: "net_reachable dv s \<Longrightarrow> net_ok s"
proof (induction rule: net_reachable.induct)
  case (reach_send s data budget r)
  then show ?case by (blast intro: net_ok_tcp_send)
qed (intro net_oks; assumption)+

section \<open>Properties\<close>

text \<open>A card for the examples: it takes every frame, keeps what was sent, and receives nothing.\<close>

definition quiet_card :: "u8 list list net_device" where
  "quiet_card = \<lparr>nd_tx_done = (\<lambda>i d. (True, d)), nd_tx = (\<lambda>i frame d. d @ [frame]), nd_rx = (\<lambda>i d. (None, d)),
     nd_rx_done = (\<lambda>i d. d), nd_hw_init = (\<lambda>d. (Some [2, 67, 76, 75, 83, 1], d)), nd_ticks = (\<lambda>d. 0)\<rparr>"

text \<open>C29.
  In every state the stack can be in, after its start and any sequence of calls from the programs, with any
  card and any frames received: the ring of datagrams holds at most sixteen, all of them valid, and its
  write position follows from its read position and count; the same for the 65536 bytes of the receive
  buffer; no address has two entries in the ARP table; the connection is active exactly when it is not
  closed; and the descriptor indices are within the descriptor rings.\<close>

theorem net_invariant:
  assumes "net_reachable dv s"
  shows "udp_ok s \<and> length (udp_waiting s) \<le> 16 \<and> recv_ok (clks_net_tcp s) \<and>
    length (recv_waiting (clks_net_tcp s)) \<le> 65536 \<and> arp_ok (clks_net_arp_table s) \<and>
    (tc_active (clks_net_tcp s) \<longleftrightarrow> tc_state (clks_net_tcp s) \<noteq> TCP_CLOSED) \<and>
    clks_net_rx_index s < 128 \<and> clks_net_tx_index s < 128"
  using net_reachable_ok [OF assms]
  by (simp add: net_ok_def tcp_ok_def udp_ok_def recv_ok_def CLKS_NET_UDP_QUEUE_CAP_def CLKS_NET_TCP_RECV_CAP_def
      CLKS_NET_DESC_COUNT_def)

theorem net_invariant_witness:
  "let s = snd (clks_net_tcp_listen 80 (clks_net_poll quiet_card (clks_net_init quiet_card (net_boot [])))) in
   net_reachable quiet_card s \<and> length (udp_waiting s) \<le> 16 \<and> clks_net_tx_index s < 128"
proof -
  have r: "net_reachable quiet_card (snd (clks_net_tcp_listen 80 (clks_net_poll quiet_card (clks_net_init quiet_card (net_boot [])))))"
    by (intro reach_listen reach_poll reach_init)
  from net_invariant [OF this] r show ?thesis by (simp add: Let_def)
qed

text \<open>C30.
  The queue of datagrams is a queue of sixteen that drops its oldest: a datagram that arrives is put
  after those that wait, of which the newest sixteen are kept, with its sender, its ports and at most 1472
  bytes of its payload; a program that receives gets the oldest of those that wait after the card was
  polled, cut to the size of its buffer, and the others stay in their order; nothing is received only when
  nothing waits.\<close>

theorem udp_queue_is_a_bounded_queue:
  assumes "net_ok s" "clks_net_available s" "0 < capacity"
  shows "udp_waiting (clks_net_udp_queue_push src src_port dst_port payload n s) =
      newest CLKS_NET_UDP_QUEUE_CAP (udp_waiting s @ [received_packet src src_port dst_port payload n]) \<and>
    (case udp_waiting (clks_net_poll dv s) of
       [] \<Rightarrow> clks_net_udp_recv dv capacity s = (None, clks_net_poll dv s)
     | p # ps \<Rightarrow> (case clks_net_udp_recv dv capacity s of (r, s') \<Rightarrow>
         r = Some (take capacity (up_payload p), up_src_ipv4_be p, up_src_port p, up_dst_port p) \<and> udp_waiting s' = ps \<and> net_ok s'))"
proof -
  let ?s = "clks_net_poll_internal dv s"
  have ok: "net_ok ?s" using assms(1) by (simp add: net_oks)
  have push: "udp_waiting (clks_net_udp_queue_push src src_port dst_port payload n s) =
      newest CLKS_NET_UDP_QUEUE_CAP (udp_waiting s @ [received_packet src src_port dst_port payload n])"
    using net_ok_fields(1) [OF assms(1)] by (rule udp_push_spec)
  show ?thesis
  proof (cases "udp_waiting ?s")
    case Nil
    then have "clks_net_udp_count ?s = 0" by (simp flip: udp_waiting_length)
    with Nil push assms show ?thesis by (simp add: clks_net_udp_recv_def clks_net_poll_def)
  next
    case (Cons p ps)
    then have n: "clks_net_udp_count ?s \<noteq> 0" by (simp flip: udp_waiting_length)
    note t = udp_taken_spec [OF net_ok_fields(1) [OF ok] n]
    have "net_ok (snd (clks_net_udp_recv dv capacity s))" using assms(1) by (simp add: net_oks)
    then show ?thesis
      using push Cons t n assms(2,3) by (simp add: clks_net_udp_recv_def clks_net_poll_def Let_def udp_taken_def)
  qed
qed

theorem udp_queue_is_a_bounded_queue_witness:
  "let s = (net_boot [] :: u8 list list net_state)\<lparr>clks_net_ready := True, clks_net_hw_ready := True\<rparr> in
   udp_waiting (clks_net_udp_queue_push 167772674 53 5000 (\<lambda>i. of_nat i) 3 s) =
     [\<lparr>up_valid = True, up_src_ipv4_be = 167772674, up_src_port = 53, up_dst_port = 5000, up_payload = [0, 1, 2]\<rparr>]"
proof -
  let ?s = "(net_boot [])\<lparr>clks_net_ready := True, clks_net_hw_ready := True\<rparr> :: u8 list list net_state"
  have ok: "net_ok ?s"
    by (simp add: net_ok_def udp_ok_def udp_waiting_def net_boot_def arp_ok_def zero_arp_entry_def CLKS_NET_DESC_COUNT_def
        CLKS_NET_UDP_QUEUE_CAP_def udp_ring.items_0 [unfolded CLKS_NET_UDP_QUEUE_CAP_def])
  have av: "clks_net_available ?s" by (simp add: clks_net_available_def)
  have w: "udp_waiting ?s = []" by (simp add: udp_waiting_def net_boot_def)
  have b: "[0..<3] = [0, Suc 0, 2]" by (simp add: upt_rec)
  have "received_packet 167772674 53 5000 (\<lambda>i. of_nat i) 3 = \<lparr>up_valid = True, up_src_ipv4_be = 167772674, up_src_port = 53,
      up_dst_port = 5000, up_payload = [0, 1, 2]\<rparr>"
    by (simp add: received_packet_def CLKS_NET_UDP_PAYLOAD_MAX_def b)
  with udp_queue_is_a_bounded_queue [OF ok av, of 1 167772674 53 5000 "\<lambda>i. of_nat i" 3 quiet_card] w show ?thesis
    by (simp add: Let_def newest_def CLKS_NET_UDP_QUEUE_CAP_def)
qed
end
