(* ===== verification/Clks_Net_Wire.thy ===== *)
theory Clks_Net_Wire
  imports Clks_Net_State
begin

text \<open>
  Packets on the wire: which bytes of a frame the receive path reads, the fields of the headers and
  their checksums, what a host that runs this stack makes of the frames another one sends, and the
  handshake of two such hosts.
\<close>

section \<open>Buffers that agree, and buffers that hold a list of bytes\<close>

definition agree :: "nat \<Rightarrow> buf \<Rightarrow> buf \<Rightarrow> bool" where
  "agree n f g \<longleftrightarrow> (\<forall>i < n. f i = g i)"

lemma agree_advance: "agree n f g \<Longrightarrow> k + m \<le> n \<Longrightarrow> agree m (advance f k) (advance g k)"
  by (simp add: agree_def advance_def)

lemma agree_byte: "agree n f g \<Longrightarrow> k < n \<Longrightarrow> f k = g k"
  by (simp add: agree_def)

lemma agree_read16: "agree n f g \<Longrightarrow> k + 2 \<le> n \<Longrightarrow> clks_net_read_be16 (advance f k) = clks_net_read_be16 (advance g k)"
  by (simp add: agree_def advance_def clks_net_read_be16_def)

lemma agree_read16_0: "agree n f g \<Longrightarrow> 2 \<le> n \<Longrightarrow> clks_net_read_be16 f = clks_net_read_be16 g"
  by (simp add: agree_def clks_net_read_be16_def)

lemma agree_read32: "agree n f g \<Longrightarrow> k + 4 \<le> n \<Longrightarrow> clks_net_read_be32 (advance f k) = clks_net_read_be32 (advance g k)"
  by (simp add: agree_def advance_def clks_net_read_be32_def)

lemma agree_map: "agree n f g \<Longrightarrow> m \<le> n \<Longrightarrow> map f [0..<m] = map g [0..<m]"
  by (simp add: agree_def)

lemma agree_tail: "agree n f g \<Longrightarrow> k \<le> n \<Longrightarrow> map (advance f k) [0..<n - k] = map (advance g k) [0..<n - k]"
  by (rule agree_map [OF agree_advance, of n f g k "n - k"]) simp_all

lemma agree_mac: "agree n f g \<Longrightarrow> k + 6 \<le> n \<Longrightarrow> mac_at (advance f k) = mac_at (advance g k)"
  unfolding mac_at_def by (rule agree_map [OF agree_advance, of n f g k 6]) simp_all

lemmas agrees = agree_byte agree_read16 agree_read16_0 agree_read32 agree_mac

lemma advance_advance [simp]: "advance (advance f a) b = advance f (a + b)"
  by (simp add: advance_def add.assoc)

lemma advance_0 [simp]: "advance f 0 = f"
  by (simp add: advance_def)

definition holds :: "buf \<Rightarrow> u8 list \<Rightarrow> bool" where
  "holds f bs \<longleftrightarrow> (\<forall>i < length bs. f i = bs ! i)"

lemma holds_append: "holds f (xs @ ys) \<longleftrightarrow> holds f xs \<and> holds (advance f (length xs)) ys"
proof
  assume h: "holds f (xs @ ys)"
  have "f i = xs ! i" if "i < length xs" for i
    using h that unfolding holds_def by (metis length_append nth_append trans_less_add1)
  moreover have "advance f (length xs) i = ys ! i" if "i < length ys" for i
    using h that unfolding holds_def advance_def by (metis length_append nat_add_left_cancel_less nth_append_length_plus)
  ultimately show "holds f xs \<and> holds (advance f (length xs)) ys" by (simp add: holds_def)
next
  assume h: "holds f xs \<and> holds (advance f (length xs)) ys"
  have "f i = (xs @ ys) ! i" if "i < length (xs @ ys)" for i
  proof (cases "i < length xs")
    case True
    with h show ?thesis by (simp add: holds_def nth_append)
  next
    case False
    then obtain j where "i = length xs + j" using le_Suc_ex not_less by blast
    with h that show ?thesis by (simp add: holds_def advance_def)
  qed
  then show "holds f (xs @ ys)" by (simp add: holds_def)
qed

lemma holds_Cons [simp]: "holds f (b # bs) \<longleftrightarrow> f 0 = b \<and> holds (advance f 1) bs"
  using holds_append [of f "[b]" bs] by (simp add: holds_def)

lemma holds_Nil [simp]: "holds f []"
  by (simp add: holds_def)

lemma holds_map: "holds f bs \<Longrightarrow> map f [0..<length bs] = bs"
  by (rule nth_equalityI) (simp_all add: holds_def)

lemma holds_agree: "holds f bs \<Longrightarrow> holds g bs \<Longrightarrow> agree (length bs) f g"
  by (simp add: holds_def agree_def)

lemma write_be16_length [simp]: "length (clks_net_write_be16 v) = 2"
  by (simp add: clks_net_write_be16_def)

lemma write_be32_length [simp]: "length (clks_net_write_be32 v) = 4"
  by (simp add: clks_net_write_be32_def)

lemma ucast_low_byte:
  "ucast (v AND 0xFF :: u16) = (ucast v :: u8)" "ucast (w AND 0xFF :: u32) = (ucast w :: u8)"
proof -
  have m: "(0xFF :: u16) = mask 8" "(0xFF :: u32) = mask 8" by (simp_all add: mask_eq_exp_minus_1)
  show "ucast (v AND 0xFF :: u16) = (ucast v :: u8)" unfolding m by (rule bit_word_eqI) (auto simp: bit_simps)
  show "ucast (w AND 0xFF :: u32) = (ucast w :: u8)" unfolding m by (rule bit_word_eqI) (auto simp: bit_simps)
qed

lemma holds_be16: "holds f (clks_net_write_be16 v) \<Longrightarrow> clks_net_read_be16 f = v"
proof -
  assume "holds f (clks_net_write_be16 v)"
  then have "f 0 = ucast (drop_bit 8 v)" "f 1 = ucast v"
    by (simp_all add: clks_net_write_be16_def advance_def ucast_low_byte)
  moreover have "push_bit 8 (ucast (ucast (drop_bit 8 v) :: u8)) OR ucast (ucast v :: u8) = v"
    by (rule bit_word_eqI) (auto simp: bit_simps)
  ultimately show ?thesis by (simp add: clks_net_read_be16_def)
qed

lemma holds_be32: "holds f (clks_net_write_be32 v) \<Longrightarrow> clks_net_read_be32 f = v"
proof -
  assume "holds f (clks_net_write_be32 v)"
  then have f: "f 0 = ucast (drop_bit 24 v)" "f 1 = ucast (drop_bit 16 v)" "f 2 = ucast (drop_bit 8 v)" "f 3 = ucast v"
    by (simp_all add: clks_net_write_be32_def advance_def numeral_2_eq_2 numeral_3_eq_3 ucast_low_byte)
  have lo: "push_bit 8 (ucast (ucast (drop_bit 8 v) :: u8)) OR ucast (ucast v :: u8) = take_bit 16 v"
    by (rule bit_word_eqI) (auto simp: bit_simps)
  have mid: "push_bit 16 (ucast (ucast (drop_bit 16 v) :: u8)) OR take_bit 16 v = take_bit 24 v"
    by (rule bit_word_eqI) (auto simp: bit_simps)
  have "push_bit 24 (ucast (ucast (drop_bit 24 v) :: u8)) OR take_bit 24 v = v"
    by (rule bit_word_eqI) (auto simp: bit_simps)
  with lo mid have "push_bit 24 (ucast (ucast (drop_bit 24 v) :: u8)) OR push_bit 16 (ucast (ucast (drop_bit 16 v) :: u8)) OR
      push_bit 8 (ucast (ucast (drop_bit 8 v) :: u8)) OR ucast (ucast v :: u8) = v"
    by (simp only: or.assoc)
  with f show ?thesis by (simp add: clks_net_read_be32_def)
qed

lemma holds_mac: "holds f m \<Longrightarrow> length m = 6 \<Longrightarrow> mac_at f = m"
  unfolding mac_at_def using holds_map [of f m] by simp

section \<open>The bytes the receive path reads\<close>

lemma dhcp_take_option_agree:
  assumes "agree n f g" "at + k \<le> n"
  shows "dhcp_take_option f code at k opts = dhcp_take_option g code at k opts"
  using assms agree_byte [OF assms(1), of at] agree_read32 [OF assms(1), of at]
  by (simp add: dhcp_take_option_def)

lemma dhcp_options_agree:
  "agree n f g \<Longrightarrow> dhcp_options_loop f n at opts = dhcp_options_loop g n at opts"
proof (induction f n at opts rule: dhcp_options_loop.induct)
  case (1 f n at opts)
  note F = dhcp_options_loop.simps [of f n at opts] and G = dhcp_options_loop.simps [of g n at opts]
  show ?case
  proof (cases "at < n")
    case False
    then show ?thesis by (simp add: F G)
  next
    case True
    then have e: "f at = g at" using agree_byte [OF "1.prems"] by simp
    have c0: "dhcp_options_loop f n (at + 1) opts = dhcp_options_loop g n (at + 1) opts" if "g at = 0"
      using "1.IH"(1) [OF True refl refl _ "1.prems"] that e by simp
    have e1: "f (at + 1) = g (at + 1)" if "\<not> at + 1 \<ge> n" using that agree_byte [OF "1.prems"] by simp
    have c1: "dhcp_options_loop f n (at + 1 + 1 + k) (dhcp_take_option f (g at) (at + 1 + 1) k opts) =
        dhcp_options_loop g n (at + 1 + 1 + k) (dhcp_take_option g (g at) (at + 1 + 1) k opts)"
      if "g at \<noteq> 0" "g at \<noteq> CLKS_NET_DHCP_OPT_END" "\<not> at + 1 \<ge> n" "k = unat (g (at + 1))" "\<not> at + 1 + 1 + k > n" for k
      using "1.IH"(2) [OF True refl refl _ _ _ _ refl _ "1.prems"] that e e1
        dhcp_take_option_agree [OF "1.prems", of "at + 1 + 1" k "g at" opts] by simp
    show ?thesis
      unfolding F G Let_def if_P [OF True] e
      using c0 c1 e1 by (auto simp del: add_2_eq_Suc')
  qed
qed

lemma dhcp_payload_agree:
  assumes "agree n f g"
  shows "clks_net_dhcp_process_payload src f n s = clks_net_dhcp_process_payload src g n s"
proof (cases "n < 240")
  case True
  then show ?thesis by (simp add: clks_net_dhcp_process_payload_def)
next
  case False
  then show ?thesis
    unfolding clks_net_dhcp_process_payload_def dhcp_options_agree [OF assms]
    using agree_byte [OF assms, of 0] agree_byte [OF assms, of 1] agree_byte [OF assms, of 2]
      agree_read32 [OF assms, of 4] agree_read32 [OF assms, of 16] agree_read32 [OF assms, of 236] agree_mac [OF assms, of 28]
    by simp
qed

lemma icmp_agree:
  assumes "agree n f g"
  shows "clks_net_process_icmp dv src m f n s = clks_net_process_icmp dv src m g n s"
proof (cases "n < CLKS_NET_ICMP_HEADER_LEN")
  case True
  then show ?thesis by (simp add: clks_net_process_icmp_def)
next
  case False
  then have r: "f 0 = g 0" "f 1 = g 1" "clks_net_read_be16 (advance f 4) = clks_net_read_be16 (advance g 4)"
    "clks_net_read_be16 (advance f 6) = clks_net_read_be16 (advance g 6)"
    "map (advance f CLKS_NET_ICMP_HEADER_LEN) [0..<n - CLKS_NET_ICMP_HEADER_LEN] =
      map (advance g CLKS_NET_ICMP_HEADER_LEN) [0..<n - CLKS_NET_ICMP_HEADER_LEN]"
    using agree_byte [OF assms, of 0] agree_byte [OF assms, of 1] agree_read16 [OF assms, of 4] agree_read16 [OF assms, of 6]
      agree_tail [OF assms, of 8] by (simp_all add: CLKS_NET_ICMP_HEADER_LEN_def)
  show ?thesis unfolding clks_net_process_icmp_def Let_def r ..
qed

lemma udp_push_agree:
  assumes "agree n f g"
  shows "clks_net_udp_queue_push src sp dp f n s = clks_net_udp_queue_push src sp dp g n s"
proof -
  have "map f [0..<if n > CLKS_NET_UDP_PAYLOAD_MAX then CLKS_NET_UDP_PAYLOAD_MAX else n] =
      map g [0..<if n > CLKS_NET_UDP_PAYLOAD_MAX then CLKS_NET_UDP_PAYLOAD_MAX else n]"
    by (rule agree_map [OF assms]) simp
  then show ?thesis unfolding clks_net_udp_queue_push_def Let_def by (simp only:)
qed

lemma udp_agree:
  assumes "agree n f g"
  shows "clks_net_process_udp src f n s = clks_net_process_udp src g n s"
proof (cases "n < CLKS_NET_UDP_HEADER_LEN")
  case True
  then show ?thesis by (simp add: clks_net_process_udp_def)
next
  case False
  then have r: "clks_net_read_be16 f = clks_net_read_be16 g" "clks_net_read_be16 (advance f 2) = clks_net_read_be16 (advance g 2)"
    "clks_net_read_be16 (advance f 4) = clks_net_read_be16 (advance g 4)"
    using agree_read16_0 [OF assms] agree_read16 [OF assms, of 2] agree_read16 [OF assms, of 4] by (simp_all add: CLKS_NET_UDP_HEADER_LEN_def)
  let ?w = "unat (clks_net_read_be16 (advance g 4))"
  have "agree (?w - CLKS_NET_UDP_HEADER_LEN) (advance f CLKS_NET_UDP_HEADER_LEN) (advance g CLKS_NET_UDP_HEADER_LEN)"
    if "\<not> (?w < CLKS_NET_UDP_HEADER_LEN \<or> n < ?w)"
    by (rule agree_advance [OF assms]) (use that in auto)
  from dhcp_payload_agree [OF this] udp_push_agree [OF this] show ?thesis
    unfolding clks_net_process_udp_def Let_def r by auto
qed

lemma tcp_agree:
  assumes "agree n f g"
  shows "clks_net_process_tcp dv src m f n s = clks_net_process_tcp dv src m g n s"
proof (cases "n < CLKS_NET_TCP_HEADER_MIN_LEN")
  case True
  then show ?thesis by (simp add: clks_net_process_tcp_def)
next
  case False
  then have r: "clks_net_read_be16 f = clks_net_read_be16 g" "clks_net_read_be16 (advance f 2) = clks_net_read_be16 (advance g 2)"
    "clks_net_read_be16 (advance f 12) = clks_net_read_be16 (advance g 12)"
    "clks_net_read_be32 (advance f 4) = clks_net_read_be32 (advance g 4)"
    "clks_net_read_be32 (advance f 8) = clks_net_read_be32 (advance g 8)"
    using agree_read16_0 [OF assms] agree_read16 [OF assms, of 2] agree_read16 [OF assms, of 12]
      agree_read32 [OF assms, of 4] agree_read32 [OF assms, of 8] by (simp_all add: CLKS_NET_TCP_HEADER_MIN_LEN_def)
  define h where "h = unat (drop_bit 12 (clks_net_read_be16 (advance g 12)) AND 0xF) * 4"
  show ?thesis
  proof (cases "h < CLKS_NET_TCP_HEADER_MIN_LEN \<or> h > n")
    case True
    then show ?thesis unfolding clks_net_process_tcp_def Let_def r h_def [symmetric] by (simp only: if_True)
  next
    case False
    then have "map (advance f h) [0..<n - h] = map (advance g h) [0..<n - h]"
      by (intro agree_tail [OF assms]) simp
    then show ?thesis unfolding clks_net_process_tcp_def Let_def r h_def [symmetric] by (simp only:)
  qed
qed

lemma ipv4_agree:
  assumes "agree n f g"
  shows "clks_net_process_ipv4 dv f n s = clks_net_process_ipv4 dv g n s"
proof (cases "n < CLKS_NET_ETH_HEADER_LEN + CLKS_NET_IP_HEADER_MIN_LEN")
  case True
  then show ?thesis by (simp add: clks_net_process_ipv4_def)
next
  case False
  let ?e = CLKS_NET_ETH_HEADER_LEN
  have a: "agree (n - ?e) (advance f ?e) (advance g ?e)"
    using False by (intro agree_advance [OF assms]) simp
  have r: "advance f ?e 0 = advance g ?e 0" "advance f ?e 9 = advance g ?e 9"
    "clks_net_read_be16 (advance (advance f ?e) 2) = clks_net_read_be16 (advance (advance g ?e) 2)"
    "clks_net_read_be16 (advance (advance f ?e) 6) = clks_net_read_be16 (advance (advance g ?e) 6)"
    "clks_net_read_be32 (advance (advance f ?e) 12) = clks_net_read_be32 (advance (advance g ?e) 12)"
    "clks_net_read_be32 (advance (advance f ?e) 16) = clks_net_read_be32 (advance (advance g ?e) 16)"
    "mac_at (advance f 6) = mac_at (advance g 6)"
    using False agree_byte [OF a, of 0] agree_byte [OF a, of 9] agree_read16 [OF a, of 2] agree_read16 [OF a, of 6]
      agree_read32 [OF a, of 12] agree_read32 [OF a, of 16] agree_mac [OF assms, of 6]
    by (simp_all add: CLKS_NET_ETH_HEADER_LEN_def CLKS_NET_IP_HEADER_MIN_LEN_def)
  define h where "h = unat (advance g ?e 0 AND 0xF) * 4"
  define t where "t = unat (clks_net_read_be16 (advance (advance g ?e) 2))"
  show ?thesis
  proof (cases "t < h \<or> t > n - ?e")
    case True
    then show ?thesis unfolding clks_net_process_ipv4_def Let_def r h_def [symmetric] t_def [symmetric] by simp
  next
    case False
    then have l4: "agree (t - h) (advance (advance f ?e) h) (advance (advance g ?e) h)"
      by (intro agree_advance [OF a]) simp
    have ports: "clks_net_read_be16 (advance (advance f ?e) h) = clks_net_read_be16 (advance (advance g ?e) h)"
      "clks_net_read_be16 (advance (advance (advance f ?e) h) 2) = clks_net_read_be16 (advance (advance (advance g ?e) h) 2)"
      if "t - h \<ge> CLKS_NET_UDP_HEADER_LEN"
      using that agree_read16_0 [OF l4] agree_read16 [OF l4, of 2] by (simp_all add: CLKS_NET_UDP_HEADER_LEN_def)
    have c: "t - h \<ge> CLKS_NET_UDP_HEADER_LEN \<and> clks_net_read_be16 (advance (advance f ?e) h) = v \<and>
        clks_net_read_be16 (advance (advance (advance f ?e) h) 2) = w \<longleftrightarrow>
        t - h \<ge> CLKS_NET_UDP_HEADER_LEN \<and> clks_net_read_be16 (advance (advance g ?e) h) = v \<and>
        clks_net_read_be16 (advance (advance (advance g ?e) h) 2) = w" for v w
      using ports by auto
    show ?thesis
      unfolding clks_net_process_ipv4_def Let_def r h_def [symmetric] t_def [symmetric]
        icmp_agree [OF l4] udp_agree [OF l4] tcp_agree [OF l4] c ..
  qed
qed

lemma arp_agree:
  assumes "agree n f g"
  shows "clks_net_process_arp dv f n s = clks_net_process_arp dv g n s"
proof (cases "n < CLKS_NET_ETH_HEADER_LEN + 28")
  case True
  then show ?thesis by (simp add: clks_net_process_arp_def)
next
  case False
  let ?e = CLKS_NET_ETH_HEADER_LEN
  have a: "agree (n - ?e) (advance f ?e) (advance g ?e)"
    using False by (intro agree_advance [OF assms]) simp
  have r: "clks_net_read_be16 (advance f ?e) = clks_net_read_be16 (advance g ?e)"
    "advance f ?e 4 = advance g ?e 4" "advance f ?e 5 = advance g ?e 5"
    "clks_net_read_be16 (advance (advance f ?e) 2) = clks_net_read_be16 (advance (advance g ?e) 2)"
    "clks_net_read_be16 (advance (advance f ?e) 6) = clks_net_read_be16 (advance (advance g ?e) 6)"
    "clks_net_read_be32 (advance (advance f ?e) 14) = clks_net_read_be32 (advance (advance g ?e) 14)"
    "clks_net_read_be32 (advance (advance f ?e) 24) = clks_net_read_be32 (advance (advance g ?e) 24)"
    "mac_at (advance (advance f ?e) 8) = mac_at (advance (advance g ?e) 8)"
    "mac_at (advance f 6) = mac_at (advance g 6)"
    using False agree_byte [OF a, of 4] agree_byte [OF a, of 5] agree_read16_0 [OF a] agree_read16 [OF a, of 2] agree_read16 [OF a, of 6]
      agree_read32 [OF a, of 14] agree_read32 [OF a, of 24] agree_mac [OF a, of 8] agree_mac [OF assms, of 6]
    by (simp_all add: CLKS_NET_ETH_HEADER_LEN_def del: advance_advance)
  show ?thesis unfolding clks_net_process_arp_def Let_def r ..
qed

lemma frame_agree:
  assumes "agree n f g"
  shows "clks_net_process_frame dv f n s = clks_net_process_frame dv g n s"
proof (cases "n < CLKS_NET_ETH_HEADER_LEN")
  case True
  then show ?thesis by (simp add: clks_net_process_frame_def)
next
  case False
  have "mac_at f = mac_at g" "clks_net_read_be16 (advance f 12) = clks_net_read_be16 (advance g 12)"
    using False agree_mac [OF assms, of 0] agree_read16 [OF assms, of 12] by (simp_all add: CLKS_NET_ETH_HEADER_LEN_def)
  then show ?thesis
    unfolding clks_net_process_frame_def ipv4_agree [OF assms] arp_agree [OF assms] by simp
qed

text \<open>C28.
  The receive path reads no byte beyond the received length: two frames that agree on their first
  \<open>frame_len\<close> bytes, whatever follows them in the receive buffer, take the stack and the card to the
  same state. So no header length, total length, datagram length, segment offset or option length that a
  sender writes makes the kernel use bytes that are not part of the packet.\<close>

theorem receive_reads_within_frame:
  assumes "\<forall>i < frame_len. frame i = frame' i"
  shows "clks_net_process_frame dv frame frame_len s = clks_net_process_frame dv frame' frame_len s"
  by (rule frame_agree) (use assms in \<open>simp add: agree_def\<close>)

theorem receive_reads_within_frame_witness:
  "clks_net_process_frame quiet_card (\<lambda>i. 255) 60 (net_boot []) =
   clks_net_process_frame quiet_card (\<lambda>i. if i < 60 then 255 else 7) 60 (net_boot [])"
  by (rule receive_reads_within_frame) simp

section \<open>Checksums\<close>

text \<open>
  The reference of RFC 1071: the sum of the big-endian 16-bit words, an odd last byte padded with zero,
  and that sum with its carries added back in, which is the representative in one to 65535 of the sum
  modulo 65535 (zero only for zero).
\<close>

fun word_sum :: "u8 list \<Rightarrow> nat" where
  "word_sum (a # b # data) = unat a * 256 + unat b + word_sum data"
| "word_sum [a] = unat a * 256"
| "word_sum [] = 0"

definition end_around :: "nat \<Rightarrow> nat" where
  "end_around n = (if n = 0 then 0 else (n - 1) mod 65535 + 1)"

lemma end_around_less: "end_around n \<le> 65535"
proof (cases n)
  case (Suc m)
  have "m mod 65535 < 65535" by simp
  then show ?thesis unfolding end_around_def Suc by simp
qed (simp add: end_around_def)

lemma end_around_small: "n \<le> 65535 \<Longrightarrow> end_around n = n"
  by (simp add: end_around_def)

lemma end_around_add: "n \<noteq> 0 \<Longrightarrow> end_around (n + 65535 * q) = end_around n"
  by (cases n) (simp_all add: end_around_def)

lemma end_around_eq: "n \<noteq> 0 \<Longrightarrow> n = end_around n + 65535 * ((n - 1) div 65535)"
  using mod_mult_div_eq [of "n - 1" 65535] by (simp add: end_around_def)

lemma word_sum_bound: "word_sum data \<le> 65535 * length data"
proof (induction data rule: word_sum.induct)
  case (1 a b data)
  then show ?case using u8_bound [of a] u8_bound [of b] by simp
next
  case (2 a)
  then show ?case using u8_bound [of a] by simp
qed simp

lemma unat_ucast_up:
  "unat (ucast b :: u16) = unat b" "unat (ucast b :: u32) = unat b" "unat (ucast w :: u32) = unat w" for b :: u8 and w :: u16
  using u8_bound [of b] u16_bound [of w] by (simp_all add: unsigned_ucast_eq take_bit_nat_eq_self)

lemma unat_word16: "unat (push_bit 8 (ucast a) OR ucast b :: u16) = unat a * 256 + unat b" for a b :: u8
proof -
  have "(push_bit 8 (ucast a) OR ucast b :: u16) = push_bit 8 (ucast a) + ucast b"
    by (rule disjunctive_add [symmetric]) (auto simp: bit_simps dest: bit_imp_le_length)
  moreover have "unat (push_bit 8 (ucast a :: u16)) = unat a * 256"
    using u8_bound [of a] by (simp add: push_bit_eq_mult unat_word_ariths unat_ucast_up)
  moreover have "unat (ucast b :: u16) = unat b" by (simp add: unat_ucast_up)
  ultimately show ?thesis using u8_bound [of a] u8_bound [of b] by (simp add: unat_word_ariths)
qed

lemma unat_sum_words:
  "unat acc + word_sum data < 4294967296 \<Longrightarrow> unat (sum_words data acc) = unat acc + word_sum data"
proof (induction data acc rule: sum_words.induct)
  case (1 a b data acc)
  have w: "unat (ucast (push_bit 8 (ucast a) OR ucast b :: u16) :: u32) = unat a * 256 + unat b"
    by (simp add: unat_ucast_up unat_word16)
  have "unat (acc + ucast (push_bit 8 (ucast a) OR ucast b :: u16)) = unat acc + (unat a * 256 + unat b)"
    using 1(2) w by (subst unat_plus_small) simp_all
  with 1 show ?case by simp
next
  case (2 a acc)
  have "unat (push_bit 8 (ucast a) :: u32) = unat a * 256"
    using u8_bound [of a] by (simp add: push_bit_eq_mult unat_word_ariths unat_ucast_up)
  with 2 show ?case by (simp add: unat_plus_small)
qed simp

lemma unat_fold_carry: "unat (fold_carry acc) = end_around (unat acc)"
proof (induction acc rule: fold_carry.induct)
  case (1 acc)
  have d: "unat (drop_bit 16 acc) = unat acc div 65536" by (simp add: drop_bit_eq_div unat_div)
  have m: "unat (acc AND 0xFFFF) = unat acc mod 65536"
    using and_mask_nat [of acc 16] by (simp add: mask_eq_exp_minus_1)
  show ?case
  proof (cases "drop_bit 16 acc = 0")
    case True
    with d have "unat acc < 65536" by (simp add: div_eq_0_iff)
    with True show ?thesis by (simp add: fold_carry.simps [of acc] end_around_small)
  next
    case False
    then have nz: "unat acc div 65536 \<noteq> 0" by (metis d unat_eq_zero)
    have "unat acc mod 65536 < 65536" "unat acc div 65536 < 65536"
      using u32_bound [of acc] by (simp_all add: less_mult_imp_div_less)
    then have u: "unat ((acc AND 0xFFFF) + drop_bit 16 acc) = unat acc mod 65536 + unat acc div 65536"
      by (subst unat_plus_small) (simp_all add: d m)
    have "unat acc = (unat acc mod 65536 + unat acc div 65536) + 65535 * (unat acc div 65536)"
      using mod_mult_div_eq [of "unat acc" 65536] by linarith
    with end_around_add [of "unat acc mod 65536 + unat acc div 65536" "unat acc div 65536"] nz
    have "end_around (unat acc) = end_around (unat acc mod 65536 + unat acc div 65536)" by simp
    with 1 [OF False] False u show ?thesis by (simp add: fold_carry.simps [of acc])
  qed
qed

lemma unat_complement:
  assumes "unat w \<le> 65535"
  shows "unat (ucast (NOT w AND 0xFFFF :: u32) :: u16) = 65535 - unat w"
proof -
  have m: "(0xFFFF :: u32) = mask 16" by (simp add: mask_eq_exp_minus_1)
  have "ucast (NOT w AND 0xFFFF :: u32) = NOT (ucast w :: u16)"
    unfolding m by (rule bit_word_eqI) (auto simp: bit_simps)
  also have "\<dots> = - 1 - ucast w" by (simp add: not_eq_complement)
  finally have "unat (ucast (NOT w AND 0xFFFF :: u32) :: u16) = unat (- 1 - ucast w :: u16)" by simp
  also have "\<dots> = unat (- 1 :: u16) - unat (ucast w :: u16)" by (rule unat_sub) simp
  also have "unat (ucast w :: u16) = unat w" using assms by (simp add: unsigned_ucast_eq take_bit_nat_eq_self)
  finally show ?thesis by (simp add: unsigned_minus_1_eq_mask mask_eq_exp_minus_1)
qed

text \<open>The ones' complement of the folded sum from a start value, and a message with such a field.\<close>

definition checksum_from :: "u32 \<Rightarrow> u8 list \<Rightarrow> u16" where
  "checksum_from acc data = ucast (NOT (fold_carry (sum_words data acc)) AND 0xFFFF)"

lemma unat_checksum_from:
  "unat acc + word_sum data < 4294967296 \<Longrightarrow> unat (checksum_from acc data) = 65535 - end_around (unat acc + word_sum data)"
  unfolding checksum_from_def by (subst unat_complement) (simp_all add: unat_fold_carry unat_sum_words end_around_less)

lemma word_sum_append: "even (length xs) \<Longrightarrow> word_sum (xs @ ys) = word_sum xs + word_sum ys"
  by (induction xs rule: word_sum.induct) simp_all

lemma word_sum_be16: "word_sum (clks_net_write_be16 v) = unat v"
proof -
  have "push_bit 8 (ucast (ucast (drop_bit 8 v) :: u8)) OR ucast (ucast v :: u8) = v"
    by (rule bit_word_eqI) (auto simp: bit_simps)
  then have "unat (ucast (drop_bit 8 v) :: u8) * 256 + unat (ucast v :: u8) = unat v"
    using unat_word16 [of "ucast (drop_bit 8 v)" "ucast v"] by simp
  then show ?thesis by (simp add: clks_net_write_be16_def ucast_low_byte)
qed

lemma end_around_complete:
  assumes "c = 65535 - end_around n \<or> c = 65535 \<and> end_around n = 65535"
  shows "end_around (n + c) = 65535"
proof (cases "n = 0")
  case True
  then show ?thesis using assms by (auto simp: end_around_def)
next
  case False
  obtain q where q: "n = end_around n + 65535 * q" using end_around_eq [OF False] by blast
  have "n + c = 65535 + 65535 * q \<or> n + c = 65535 + 65535 * (q + 1)"
  proof (cases "c = 65535 - end_around n")
    case True
    with q end_around_less [of n] have "n + c = 65535 + 65535 * q" by linarith
    then show ?thesis ..
  next
    case False
    with assms have "c = 65535" "end_around n = 65535" by simp_all
    with q show ?thesis by simp
  qed
  then show ?thesis using end_around_add [of 65535] by (metis end_around_small le_refl zero_neq_numeral)
qed

lemma checksum_verifies:
  assumes "even (length pre)" "length pre + length post \<le> 65530" "unat acc \<le> 330000"
    and "c = checksum_from acc (pre @ clks_net_write_be16 0 @ post) \<or>
         (c = 0xFFFF \<and> checksum_from acc (pre @ clks_net_write_be16 0 @ post) = 0)"
  shows "fold_carry (sum_words (pre @ clks_net_write_be16 c @ post) acc) = 0xFFFF"
    and "checksum_from acc (pre @ clks_net_write_be16 c @ post) = 0"
proof -
  let ?n = "unat acc + word_sum pre + word_sum post"
  have s: "word_sum (pre @ clks_net_write_be16 v @ post) = word_sum pre + unat v + word_sum post" for v
    using assms(1) by (simp add: word_sum_append word_sum_be16)
  have b: "word_sum pre + word_sum post \<le> 65535 * 65530"
    using word_sum_bound [of pre] word_sum_bound [of post] assms(2) by simp
  have small: "unat acc + word_sum (pre @ clks_net_write_be16 v @ post) < 4294967296" for v
    unfolding s using b assms(3) u16_bound [of v] by simp
  have "unat (checksum_from acc (pre @ clks_net_write_be16 0 @ post)) = 65535 - end_around ?n"
    using unat_checksum_from [OF small, of 0] by (simp only: s) (simp add: add.assoc)
  then have "unat c = 65535 - end_around ?n \<or> unat c = 65535 \<and> end_around ?n = 65535"
    using assms(4) end_around_less [of ?n] by auto
  from end_around_complete [OF this] have e: "end_around (unat acc + word_sum (pre @ clks_net_write_be16 c @ post)) = 65535"
    by (simp add: s ac_simps)
  then have "unat (fold_carry (sum_words (pre @ clks_net_write_be16 c @ post) acc)) = unat (0xFFFF :: u32)"
    by (simp add: unat_fold_carry unat_sum_words [OF small])
  then show "fold_carry (sum_words (pre @ clks_net_write_be16 c @ post) acc) = 0xFFFF" by (simp only: word_unat_eq_iff)
  have "unat (checksum_from acc (pre @ clks_net_write_be16 c @ post)) = 0"
    using unat_checksum_from [OF small, of c] e by simp
  then show "checksum_from acc (pre @ clks_net_write_be16 c @ post) = 0" by (simp add: unat_eq_zero)
qed

lemma checksum16_from: "clks_net_checksum16 data = checksum_from 0 data"
  by (simp add: clks_net_checksum16_def checksum_from_def)

lemma udp_checksum_from: "clks_net_udp_checksum src dst udp =
    (let out = checksum_from (pseudo_sum src dst CLKS_NET_IPV4_PROTO_UDP (length udp)) udp in if out = 0 then 0xFFFF else out)"
  by (simp add: clks_net_udp_checksum_def checksum_from_def)

lemma tcp_checksum_from: "tcp \<noteq> [] \<Longrightarrow> clks_net_tcp_checksum src dst tcp =
    (let out = checksum_from (pseudo_sum src dst CLKS_NET_IPV4_PROTO_TCP (length tcp)) tcp in if out = 0 then 0xFFFF else out)"
  by (simp add: clks_net_tcp_checksum_def checksum_from_def)

lemma unat_add_le: "unat a \<le> m \<Longrightarrow> unat b \<le> k \<Longrightarrow> unat (a + b) \<le> m + k" for a b :: u32
  using mod_less_eq_dividend [of "unat a + unat b" "2 ^ 32"] by (simp add: unat_word_ariths)

lemma pseudo_sum_bound:
  assumes "n \<le> 60000"
  shows "unat (pseudo_sum src dst proto n) \<le> 330000"
proof -
  have h: "unat (w AND 0xFFFF) \<le> 65535" for w :: u32
    using and_mask_nat [of w 16] mod_less_divisor [of 65536 "unat w"] by (simp add: mask_eq_exp_minus_1)
  have p: "unat (ucast proto :: u32) \<le> 255" using u8_bound [of proto] by (simp add: unat_ucast_up)
  have n: "unat (of_nat n :: u32) \<le> 60000" using assms by (simp add: unat_of_nat)
  have "unat (pseudo_sum src dst proto n) \<le> 65535 + 65535 + 65535 + 65535 + 255 + 60000"
    unfolding pseudo_sum_def by (intro unat_add_le h p n)
  then show ?thesis by simp
qed

text \<open>The messages of the stack as a part before the checksum, the checksum and a part after it.\<close>

lemma ipv4_header_parts:
  obtains pre post where "even (length pre)" "length pre + length post = 18"
    "\<And>c. ipv4_header src dst proto ident n c = pre @ clks_net_write_be16 c @ post"
  using that [of "[0x45, 0] @ clks_net_write_be16 (of_nat n) @ clks_net_write_be16 ident @ clks_net_write_be16 0x4000 @ [64, proto]"
      "clks_net_write_be32 src @ clks_net_write_be32 dst"]
  by (simp add: ipv4_header_def)

lemma icmp_echo_parts:
  obtains pre post where "even (length pre)" "length pre + length post = 6 + length payload"
    "\<And>c. icmp_echo ty ident q payload c = pre @ clks_net_write_be16 c @ post"
  using that [of "[ty, 0]" "clks_net_write_be16 ident @ clks_net_write_be16 q @ payload"] by (simp add: icmp_echo_def)

lemma udp_datagram_parts:
  obtains pre post where "even (length pre)" "length pre + length post = 6 + length payload"
    "\<And>c. udp_datagram sp dp payload c = pre @ clks_net_write_be16 c @ post"
  using that [of "clks_net_write_be16 sp @ clks_net_write_be16 dp @ clks_net_write_be16 (of_nat (CLKS_NET_UDP_HEADER_LEN + length payload))"
      payload]
  by (simp add: udp_datagram_def)

lemma tcp_segment_parts:
  obtains pre post where "even (length pre)" "length pre + length post \<le> 22 + length payload"
    "\<And>c. tcp_segment sp dp q a flags window payload c = pre @ clks_net_write_be16 c @ post"
  using that [of "clks_net_write_be16 sp @ clks_net_write_be16 dp @ clks_net_write_be32 q @ clks_net_write_be32 a @
      clks_net_write_be16 (push_bit 12 (of_nat (tcp_header_len flags div 4)) OR (flags AND 0x1FF)) @ clks_net_write_be16 window"
      "clks_net_write_be16 0 @ (if flags AND CLKS_NET_TCP_FLAG_SYN \<noteq> 0
        then [CLKS_NET_TCP_OPT_MSS, CLKS_NET_TCP_OPT_MSS_LEN] @ clks_net_write_be16 CLKS_NET_TCP_MSS else []) @ payload"]
  by (simp add: tcp_segment_def)

lemma udp_sent_verifies:
  assumes "length payload \<le> 1480" and "s = udp_datagram sp dp payload (clks_net_udp_checksum src dst (udp_datagram sp dp payload 0))"
  shows "fold_carry (sum_words s (pseudo_sum src dst CLKS_NET_IPV4_PROTO_UDP (length s))) = 0xFFFF"
proof -
  obtain pre post where u: "even (length pre)" "length pre + length post = 6 + length payload"
    "\<And>c. udp_datagram sp dp payload c = pre @ clks_net_write_be16 c @ post" by (rule udp_datagram_parts) (rule that)
  let ?acc = "pseudo_sum src dst CLKS_NET_IPV4_PROTO_UDP (length s)" and ?c = "clks_net_udp_checksum src dst (udp_datagram sp dp payload 0)"
  have s: "s = pre @ clks_net_write_be16 ?c @ post" using assms(2) u(3) [of ?c] by (rule trans)
  have l: "length (udp_datagram sp dp payload 0) = length s" unfolding s u(3) by simp
  have n: "length s \<le> 60000" unfolding s using u(2) assms(1) by simp
  have "?c = (let out = checksum_from ?acc (udp_datagram sp dp payload 0) in if out = 0 then 0xFFFF else out)"
    unfolding l [symmetric] by (rule udp_checksum_from)
  then have c: "?c = checksum_from ?acc (pre @ clks_net_write_be16 0 @ post) \<or>
      ?c = 0xFFFF \<and> checksum_from ?acc (pre @ clks_net_write_be16 0 @ post) = 0"
    unfolding u(3) [of 0, symmetric] by (simp only: Let_def split: if_split) simp
  have b: "length pre + length post \<le> 65530" using u(2) assms(1) by simp
  from checksum_verifies(1) [OF u(1) b pseudo_sum_bound [OF n] c] show ?thesis unfolding s [symmetric] .
qed

lemma tcp_sent_verifies:
  assumes "length payload \<le> 1480"
    and "s = tcp_segment sp dp sq a flags w payload (clks_net_tcp_checksum src dst (tcp_segment sp dp sq a flags w payload 0))"
  shows "fold_carry (sum_words s (pseudo_sum src dst CLKS_NET_IPV4_PROTO_TCP (length s))) = 0xFFFF"
proof -
  obtain pre post where u: "even (length pre)" "length pre + length post \<le> 22 + length payload"
    "\<And>c. tcp_segment sp dp sq a flags w payload c = pre @ clks_net_write_be16 c @ post" by (rule tcp_segment_parts) (rule that)
  let ?acc = "pseudo_sum src dst CLKS_NET_IPV4_PROTO_TCP (length s)"
    and ?c = "clks_net_tcp_checksum src dst (tcp_segment sp dp sq a flags w payload 0)"
  have s: "s = pre @ clks_net_write_be16 ?c @ post" using assms(2) u(3) [of ?c] by (rule trans)
  have l: "length (tcp_segment sp dp sq a flags w payload 0) = length s" unfolding s u(3) by simp
  have ne: "tcp_segment sp dp sq a flags w payload 0 \<noteq> []" unfolding u(3) by (simp add: clks_net_write_be16_def)
  have n: "length s \<le> 60000" unfolding s using u(2) assms(1) by simp
  have "?c = (let out = checksum_from ?acc (tcp_segment sp dp sq a flags w payload 0) in if out = 0 then 0xFFFF else out)"
    unfolding l [symmetric] by (rule tcp_checksum_from [OF ne])
  then have c: "?c = checksum_from ?acc (pre @ clks_net_write_be16 0 @ post) \<or>
      ?c = 0xFFFF \<and> checksum_from ?acc (pre @ clks_net_write_be16 0 @ post) = 0"
    unfolding u(3) [of 0, symmetric] by (simp only: Let_def split: if_split) simp
  have b: "length pre + length post \<le> 65530" using u(2) assms(1) by simp
  from checksum_verifies(1) [OF u(1) b pseudo_sum_bound [OF n] c] show ?thesis unfolding s [symmetric] .
qed

text \<open>C31.
  The checksums are those of RFC 1071: the checksum of a message is the ones' complement of its
  end-around sum; an IPv4 header and an ICMP message that carry the checksum the stack computes verify to
  zero, and the sum over a UDP datagram or TCP segment with its checksum and its pseudo header is all
  ones, also where a computed zero was replaced by all ones.\<close>

theorem checksums_are_rfc1071:
  assumes "length data \<le> 65535" "length payload \<le> 1480"
  shows "unat (clks_net_checksum16 data) = 65535 - end_around (word_sum data) \<and>
    clks_net_checksum16 (ipv4_header src dst proto ident n (clks_net_checksum16 (ipv4_header src dst proto ident n 0))) = 0 \<and>
    clks_net_checksum16 (icmp_echo ty ident q payload (clks_net_checksum16 (icmp_echo ty ident q payload 0))) = 0 \<and>
    (let udp = udp_datagram sp dp payload; sent = udp (clks_net_udp_checksum src dst (udp 0)) in
       fold_carry (sum_words sent (pseudo_sum src dst CLKS_NET_IPV4_PROTO_UDP (length sent))) = 0xFFFF) \<and>
    (let tcp = tcp_segment sp dp sq a flags window payload; sent = tcp (clks_net_tcp_checksum src dst (tcp 0)) in
       fold_carry (sum_words sent (pseudo_sum src dst CLKS_NET_IPV4_PROTO_TCP (length sent))) = 0xFFFF)"
proof -
  have "word_sum data < 4294967296" using word_sum_bound [of data] assms(1) by simp
  then have data: "unat (clks_net_checksum16 data) = 65535 - end_around (word_sum data)"
    unfolding checksum16_from using unat_checksum_from [of 0 data] by simp
  obtain pre post where h: "even (length pre)" "length pre + length post = 18"
    "\<And>c. ipv4_header src dst proto ident n c = pre @ clks_net_write_be16 c @ post" by (rule ipv4_header_parts) (rule that)
  have header: "clks_net_checksum16 (ipv4_header src dst proto ident n (clks_net_checksum16 (ipv4_header src dst proto ident n 0))) = 0"
    unfolding h(3) checksum16_from by (rule checksum_verifies(2) [OF h(1)]) (simp_all add: h(2))
  obtain pre post where e: "even (length pre)" "length pre + length post = 6 + length payload"
    "\<And>c. icmp_echo ty ident q payload c = pre @ clks_net_write_be16 c @ post" by (rule icmp_echo_parts) (rule that)
  have echo: "clks_net_checksum16 (icmp_echo ty ident q payload (clks_net_checksum16 (icmp_echo ty ident q payload 0))) = 0"
    unfolding e(3) checksum16_from by (rule checksum_verifies(2) [OF e(1)]) (use assms(2) in \<open>simp_all add: e(2)\<close>)
  show ?thesis
    unfolding Let_def
    by (intro conjI data header echo udp_sent_verifies [OF assms(2) refl] tcp_sent_verifies [OF assms(2) refl])
qed

theorem checksums_are_rfc1071_witness:
  "unat (clks_net_checksum16 [0x45, 0, 1]) = 65535 - end_around (word_sum [0x45, 0, 1]) \<and> end_around (word_sum [0x45, 0, 1]) = 17920 \<and>
   clks_net_checksum16 (ipv4_header 0x0A00020F 0x01010101 17 7 28 (clks_net_checksum16 (ipv4_header 0x0A00020F 0x01010101 17 7 28 0))) = 0"
proof -
  have "end_around (word_sum [0x45, 0, 1]) = 17920" by (simp add: end_around_def)
  with checksums_are_rfc1071 [of "[0x45, 0, 1]" "[]"] show ?thesis by simp
qed

section \<open>A frame of one host at another\<close>

lemma mac_equal_refl [simp]: "clks_net_mac_equal m m"
  by (simp add: clks_net_mac_equal_def list_all_iff)

lemma ipv4_header_length [simp]: "length (ipv4_header src dst proto ident n c) = 20"
  by (simp add: ipv4_header_def)

lemma unat_of_nat16: "n < 65536 \<Longrightarrow> unat (of_nat n :: u16) = n"
  by (simp add: unat_of_nat)

text \<open>The fields of a frame around an IPv4 packet.\<close>

lemma holds_ipv4_header:
  assumes "holds h (ipv4_header src dst proto ident n c)" "n < 65536"
  shows "h 0 = 0x45" "h 9 = proto" "clks_net_read_be16 (advance h 6) = 0x4000" "unat (clks_net_read_be16 (advance h 2)) = n"
    "clks_net_read_be32 (advance h 12) = src" "clks_net_read_be32 (advance h 16) = dst"
proof -
  note h = assms(1) [unfolded ipv4_header_def, simplified holds_append, simplified, simplified numeral_2_eq_2 [symmetric], simplified]
  from h show "h 0 = 0x45" by simp
  from h have "holds (advance h 2) (clks_net_write_be16 (of_nat n))" by simp
  from holds_be16 [OF this] show "unat (clks_net_read_be16 (advance h 2)) = n" using assms(2) by (simp add: unat_of_nat16)
  from h show "clks_net_read_be16 (advance h 6) = 0x4000" by (intro holds_be16) simp
  from h show "clks_net_read_be32 (advance h 12) = src" by (intro holds_be32) simp
  from h show "clks_net_read_be32 (advance h 16) = dst" by (intro holds_be32) simp
  from h show "h 9 = proto" by (simp add: advance_def)
qed

definition eth_frame :: "u8 list \<Rightarrow> u8 list \<Rightarrow> u8 list \<Rightarrow> u8 list" where
  "eth_frame dst_mac src_mac packet = dst_mac @ src_mac @ clks_net_write_be16 CLKS_NET_ETHERTYPE_IPV4 @ packet"

lemma frame_dispatch:
  assumes f: "holds f (eth_frame dm sm (ipv4_header src dst proto ident (20 + length p) c @ p))"
    and len: "length dm = 6" "length sm = 6" "length p \<le> 1480" "34 + length p \<le> n"
    and r: "dm = clks_net_mac r" "dst = clks_net_ipv4_be r \<or> dst = 0xFFFFFFFF" "src \<noteq> 0"
  shows "holds (advance f 34) p"
    and "clks_net_process_frame dv f n r =
      (let r1 = clks_net_arp_upsert src sm r; l4 = advance f 34 in
       if proto = CLKS_NET_IPV4_PROTO_ICMP then clks_net_process_icmp dv src sm l4 (length p) r1
       else if proto = CLKS_NET_IPV4_PROTO_UDP then clks_net_process_udp src l4 (length p) r1
       else if proto = CLKS_NET_IPV4_PROTO_TCP then clks_net_process_tcp dv src sm l4 (length p) r1
       else r1)"
proof -
  note h = f [unfolded eth_frame_def holds_append, simplified len, simplified]
  have m: "mac_at f = clks_net_mac r" "mac_at (advance f 6) = sm"
    using h len r(1) by (simp_all add: holds_mac)
  have ty: "clks_net_read_be16 (advance f 12) = CLKS_NET_ETHERTYPE_IPV4" using h by (intro holds_be16) simp
  have hd: "holds (advance f 14) (ipv4_header src dst proto ident (20 + length p) c)" using h by simp
  have n: "20 + length p < 65536" using len(3) by simp
  note fields = holds_ipv4_header [OF hd n, unfolded advance_advance]
  show "holds (advance f 34) p" using h by simp
  have v: "drop_bit 4 (0x45 :: u8) = 4" "unat (0x45 AND 0xF :: u8) = 5" "(0x4000 :: u16) AND 0x3FFF = 0" by simp_all
  have fields': "advance f 14 0 = 0x45" "advance f 14 9 = proto" "clks_net_read_be16 (advance f (14 + 6)) = 0x4000"
    "unat (clks_net_read_be16 (advance f (14 + 2))) = 20 + length p" "clks_net_read_be32 (advance f (14 + 12)) = src"
    "clks_net_read_be32 (advance f (14 + 16)) = dst" by (rule fields)+
  have dst: "\<not> (dst \<noteq> clks_net_ipv4_be r \<and> dst \<noteq> 0xFFFFFFFF \<and> P)" for P using r(2) by blast
  have c: "\<not> n < 14 + 20" "\<not> (5::nat) < 5" "\<not> 5 * 4 > n - 14" "\<not> (20 + length p < 5 * 4 \<or> 20 + length p > n - 14)"
    "20 + length p - 5 * 4 = length p" "14 + 5 * 4 = (34::nat)" using len(4) by simp_all
  have proc: "clks_net_process_ipv4 dv f n r =
      (let r1 = clks_net_arp_upsert src sm r; l4 = advance f 34 in
       if proto = CLKS_NET_IPV4_PROTO_ICMP then clks_net_process_icmp dv src sm l4 (length p) r1
       else if proto = CLKS_NET_IPV4_PROTO_UDP then clks_net_process_udp src l4 (length p) r1
       else if proto = CLKS_NET_IPV4_PROTO_TCP then clks_net_process_tcp dv src sm l4 (length p) r1
       else r1)"
    unfolding clks_net_process_ipv4_def Let_def CLKS_NET_ETH_HEADER_LEN_def CLKS_NET_IP_HEADER_MIN_LEN_def advance_advance
      fields' m v if_not_P [OF dst]
    by (simp only: c r(3) if_False simp_thms)
  show "clks_net_process_frame dv f n r =
      (let r1 = clks_net_arp_upsert src sm r; l4 = advance f 34 in
       if proto = CLKS_NET_IPV4_PROTO_ICMP then clks_net_process_icmp dv src sm l4 (length p) r1
       else if proto = CLKS_NET_IPV4_PROTO_UDP then clks_net_process_udp src l4 (length p) r1
       else if proto = CLKS_NET_IPV4_PROTO_TCP then clks_net_process_tcp dv src sm l4 (length p) r1
       else r1)"
    unfolding clks_net_process_frame_def Let_def [of "clks_net_read_be16 _"] m ty CLKS_NET_ETH_HEADER_LEN_def
    using len(4) by (simp add: proc CLKS_NET_ETHERTYPE_ARP_def CLKS_NET_ETHERTYPE_IPV4_def)
qed

text \<open>What a successful send hands to the card.\<close>

definition padded :: "u8 list \<Rightarrow> u8 list" where
  "padded frame = frame @ replicate (60 - length frame) 0"

definition ip_frame :: "u32 \<Rightarrow> u32 \<Rightarrow> u8 list \<Rightarrow> u8 list \<Rightarrow> u8 \<Rightarrow> u16 \<Rightarrow> u8 list \<Rightarrow> u8 list" where
  "ip_frame src dst dst_mac src_mac proto ident p =
     padded (eth_frame dst_mac src_mac (ipv4_header src dst proto ident (20 + length p)
       (clks_net_checksum16 (ipv4_header src dst proto ident (20 + length p) 0)) @ p))"

lemma tx_frame_sent:
  assumes "clks_net_tx_frame dv fr s = (True, s')"
  obtains i d where "net_dev s' = nd_tx dv i (padded fr) d" "clks_net_tcp s' = clks_net_tcp s" "length fr \<le> CLKS_NET_BUF_SIZE"
    "after_send s s'"
proof -
  obtain "done" t where t: "tx_wait dv (clks_net_tx_index s) CLKS_NET_TX_WAIT_LOOPS s = (done, t)" by fastforce
  have a: "after_send s t" "after_send s s'"
    using after_send_tx_wait [of s dv "clks_net_tx_index s" CLKS_NET_TX_WAIT_LOOPS] after_send_tx_frame [of s dv fr] assms t by simp_all
  have p: "fr @ replicate ((if length fr < 60 then 60 else length fr) - length fr) 0 = padded fr" by (simp add: padded_def)
  have "net_dev s' = nd_tx dv (clks_net_tx_index s) (padded fr) (net_dev t)" "length fr \<le> CLKS_NET_BUF_SIZE"
    using assms t by (auto simp: clks_net_tx_frame_def Let_def padded_def split: if_splits)
  moreover have "clks_net_tcp s' = clks_net_tcp s" using a(2) by (auto simp: after_send_def)
  ultimately show thesis using that a(2) by blast
qed

lemma ipv4_sent:
  assumes "clks_net_send_ipv4_packet_from dv src dst dm proto p s = (True, s')"
  obtains i d where "net_dev s' = nd_tx dv i (ip_frame src dst dm (clks_net_mac s) proto (clks_net_ipv4_ident s) p) d"
    "length p \<le> 1480" "after_send s s'"
proof -
  have l: "length p \<le> 1480" using assms by (auto simp: clks_net_send_ipv4_packet_from_def CLKS_NET_MAX_IPV4_PAYLOAD_def split: if_splits)
  have "clks_net_tx_frame dv (eth_frame dm (clks_net_mac s) (ipv4_header src dst proto (clks_net_ipv4_ident s) (20 + length p)
       (clks_net_checksum16 (ipv4_header src dst proto (clks_net_ipv4_ident s) (20 + length p) 0)) @ p))
       (s\<lparr>clks_net_ipv4_ident := clks_net_ipv4_ident s + 1\<rparr>) = (True, s')"
    using assms l by (simp add: clks_net_send_ipv4_packet_from_def CLKS_NET_MAX_IPV4_PAYLOAD_def CLKS_NET_IP_HEADER_MIN_LEN_def
        Let_def eth_frame_def)
  then obtain i d where "net_dev s' = nd_tx dv i (ip_frame src dst dm (clks_net_mac s) proto (clks_net_ipv4_ident s) p) d"
    by (rule tx_frame_sent) (rule that, simp only: ip_frame_def)
  moreover have "after_send s s'" using after_send_ipv4_from [of s dv src dst dm proto p] assms by simp
  ultimately show thesis using that l by blast
qed

lemma ip_frame_length:
  "length dm = 6 \<Longrightarrow> length sm = 6 \<Longrightarrow> length (ip_frame src dst dm sm proto ident p) = max 60 (34 + length p)"
  by (simp add: ip_frame_def padded_def eth_frame_def)

lemma ip_frame_dispatch:
  assumes "holds f (ip_frame src dst dm sm proto ident p)" "n = length (ip_frame src dst dm sm proto ident p)"
    and "length dm = 6" "length sm = 6" "length p \<le> 1480"
    and "dm = clks_net_mac r" "dst = clks_net_ipv4_be r \<or> dst = 0xFFFFFFFF" "src \<noteq> 0"
  shows "holds (advance f 34) p \<and> clks_net_process_frame dv f n r =
      (let r1 = clks_net_arp_upsert src sm r; l4 = advance f 34 in
       if proto = CLKS_NET_IPV4_PROTO_ICMP then clks_net_process_icmp dv src sm l4 (length p) r1
       else if proto = CLKS_NET_IPV4_PROTO_UDP then clks_net_process_udp src l4 (length p) r1
       else if proto = CLKS_NET_IPV4_PROTO_TCP then clks_net_process_tcp dv src sm l4 (length p) r1
       else r1)"
proof -
  have f: "holds f (eth_frame dm sm (ipv4_header src dst proto ident (20 + length p)
      (clks_net_checksum16 (ipv4_header src dst proto ident (20 + length p) 0)) @ p))"
    using assms(1) by (simp add: ip_frame_def padded_def holds_append)
  have n: "34 + length p \<le> n" using ip_frame_length [OF assms(3,4)] assms(2) by simp
  from frame_dispatch [OF f assms(3,4,5) n assms(6-8)] show ?thesis by blast
qed

section \<open>A datagram from host to host\<close>

lemma udp_datagram_arrives:
  assumes "holds l4 (udp_datagram sp dp payload c)" "length payload \<le> 1472"
  shows "clks_net_process_udp src l4 (8 + length payload) s =
    (if dp = CLKS_NET_DHCP_CLIENT_PORT \<and> sp = CLKS_NET_DHCP_SERVER_PORT
     then clks_net_dhcp_process_payload src (advance l4 8) (length payload) s
     else clks_net_udp_queue_push src sp dp (advance l4 8) (length payload) s)"
    and "holds (advance l4 8) payload"
proof -
  note h = assms(1) [unfolded udp_datagram_def, simplified holds_append, simplified, simplified CLKS_NET_UDP_HEADER_LEN_def]
  have p: "clks_net_read_be16 l4 = sp" "clks_net_read_be16 (advance l4 2) = dp" using h by (simp_all add: holds_be16)
  from h have "holds (advance l4 4) (clks_net_write_be16 (of_nat (8 + length payload)))" by simp
  from holds_be16 [OF this] have w: "unat (clks_net_read_be16 (advance l4 4)) = 8 + length payload"
    using assms(2) unat_of_nat16 [of "8 + length payload"] by simp
  show "holds (advance l4 8) payload" using h by simp
  show "clks_net_process_udp src l4 (8 + length payload) s =
    (if dp = CLKS_NET_DHCP_CLIENT_PORT \<and> sp = CLKS_NET_DHCP_SERVER_PORT
     then clks_net_dhcp_process_payload src (advance l4 8) (length payload) s
     else clks_net_udp_queue_push src sp dp (advance l4 8) (length payload) s)"
    unfolding clks_net_process_udp_def Let_def p w CLKS_NET_UDP_HEADER_LEN_def by simp
qed

lemma udp_datagram_length [simp]: "length (udp_datagram sp dp payload c) = 8 + length payload"
  by (simp add: udp_datagram_def)

lemma udp_sent:
  assumes "clks_net_send_udp_datagram dv src dst dm sp dp payload s = (True, s')"
  obtains i d c where "net_dev s' = nd_tx dv i
      (ip_frame src dst dm (clks_net_mac s) CLKS_NET_IPV4_PROTO_UDP (clks_net_ipv4_ident s) (udp_datagram sp dp payload c)) d"
    "length payload \<le> 1472"
proof -
  let ?c = "if sp = CLKS_NET_DHCP_CLIENT_PORT \<and> dp = CLKS_NET_DHCP_SERVER_PORT then 0
      else clks_net_udp_checksum src dst (udp_datagram sp dp payload 0)"
  have l: "length payload \<le> 1472"
    using assms by (auto simp: clks_net_send_udp_datagram_def CLKS_NET_UDP_PAYLOAD_MAX_def split: if_splits)
  have "clks_net_send_ipv4_packet_from dv src dst dm CLKS_NET_IPV4_PROTO_UDP (udp_datagram sp dp payload ?c) s = (True, s')"
    using assms unfolding clks_net_send_udp_datagram_def Let_def
    by (cases "sp = 0 \<or> dp = 0"; cases "length payload > CLKS_NET_UDP_PAYLOAD_MAX") (simp_all only: if_True if_False prod.inject simp_thms)
  then obtain i d where "net_dev s' = nd_tx dv i
      (ip_frame src dst dm (clks_net_mac s) CLKS_NET_IPV4_PROTO_UDP (clks_net_ipv4_ident s) (udp_datagram sp dp payload ?c)) d"
    by (rule ipv4_sent) (rule that)
  with that l show thesis by blast
qed

text \<open>C32.
  A datagram sent by one host with this stack and received by another arrives exactly: when a program's
  send reports the whole payload, the card was given one frame, and any host whose addresses are those the
  frame is sent to puts a datagram at the end of its queue that has the sender's address, both ports and
  precisely the payload, whatever else is in the receive buffer after the frame; and it has learned the
  sender's hardware address, so that its answer needs no further lookup. (The destination is one whose
  next hop the sender has in its ARP table; the ports are not those of a DHCP reply.)\<close>

theorem udp_datagram_roundtrip:
  assumes "clks_net_udp_send dv dst dst_port src_port payload a = (length payload, a')" "payload \<noteq> []"
    and "clks_net_arp_lookup (clks_net_next_hop_for dst a) a = Some (clks_net_mac b)" "dst = clks_net_ipv4_be b"
    and "dst \<noteq> 0xFFFFFFFF" "dst \<noteq> clks_net_ipv4_be a" "clks_net_ipv4_be a \<noteq> 0"
    and "length (clks_net_mac a) = 6" "length (clks_net_mac b) = 6" "\<not> clks_net_mac_invalid (clks_net_mac a)"
    and "\<not> (src_port = 67 \<and> dst_port = 68)" "udp_ok b" "arp_ok (clks_net_arp_table b)"
  shows "\<exists>frame i d. net_dev a' = nd_tx dv i frame d \<and> length frame \<le> 1514 \<and>
    (\<forall>dv' buf. (\<forall>k < length frame. buf k = frame ! k) \<longrightarrow>
      (let b' = clks_net_process_frame dv' buf (length frame) b in
       udp_waiting b' = newest CLKS_NET_UDP_QUEUE_CAP (udp_waiting b @
         [\<lparr>up_valid = True, up_src_ipv4_be = clks_net_ipv4_be a, up_src_port = src_port, up_dst_port = dst_port, up_payload = payload\<rparr>]) \<and>
       clks_net_arp_lookup (clks_net_ipv4_be a) b' = Some (clks_net_mac a)))"
proof -
  have res: "clks_net_resolve_ipv4 dv dst 120000 a = (if dst = 0 \<or> clks_net_next_hop_for dst a = 0 then None else Some (clks_net_mac b), a)"
    using assms(3,6) by (simp add: clks_net_resolve_ipv4_def Let_def)
  have "clks_net_send_udp_datagram dv (clks_net_ipv4_be a) dst (clks_net_mac b) src_port dst_port payload a = (True, a')"
    using assms(1,2,5) unfolding clks_net_udp_send_def res by (auto split: if_splits prod.splits)
  then obtain i d c where tx: "net_dev a' = nd_tx dv i (ip_frame (clks_net_ipv4_be a) dst (clks_net_mac b) (clks_net_mac a)
      CLKS_NET_IPV4_PROTO_UDP (clks_net_ipv4_ident a) (udp_datagram src_port dst_port payload c)) d"
    and l: "length payload \<le> 1472" by (rule udp_sent) (rule that)
  define frame where "frame = ip_frame (clks_net_ipv4_be a) dst (clks_net_mac b) (clks_net_mac a)
      CLKS_NET_IPV4_PROTO_UDP (clks_net_ipv4_ident a) (udp_datagram src_port dst_port payload c)"
  have len: "length frame \<le> 1514" unfolding frame_def using l by (simp add: ip_frame_length assms(8,9))
  have arrive: "let b' = clks_net_process_frame dv' buf (length frame) b in
       udp_waiting b' = newest CLKS_NET_UDP_QUEUE_CAP (udp_waiting b @
         [\<lparr>up_valid = True, up_src_ipv4_be = clks_net_ipv4_be a, up_src_port = src_port, up_dst_port = dst_port, up_payload = payload\<rparr>]) \<and>
       clks_net_arp_lookup (clks_net_ipv4_be a) b' = Some (clks_net_mac a)"
    if "\<forall>k < length frame. buf k = frame ! k" for dv' and buf :: buf
  proof -
    have buf: "holds buf frame" using that by (simp add: holds_def)
    let ?b = "clks_net_arp_upsert (clks_net_ipv4_be a) (clks_net_mac a) b" and ?l4 = "advance buf 34"
    have lu: "length (udp_datagram src_port dst_port payload c) \<le> 1480" using l by simp
    note fl = frame_def [THEN arg_cong [where f = length]]
    note disp = ip_frame_dispatch [OF buf [unfolded frame_def] fl assms(9,8) lu refl disjI1 [OF assms(4)] assms(7),
        of dv']
    note arr = udp_datagram_arrives [OF disp [THEN conjunct1] l]
    have p: "map (advance ?l4 8) [0..<min (length payload) CLKS_NET_UDP_PAYLOAD_MAX] = payload"
      using holds_map [OF arr(2)] l by (simp add: CLKS_NET_UDP_PAYLOAD_MAX_def)
    have "clks_net_process_frame dv' buf (length frame) b =
        clks_net_udp_queue_push (clks_net_ipv4_be a) src_port dst_port (advance ?l4 8) (length payload) ?b"
      using disp [THEN conjunct2] arr(1) [of "clks_net_ipv4_be a" ?b] assms(11)
      by (auto simp: Let_def frame_def net_protocols)
    moreover have w: "udp_waiting ?b = udp_waiting b" "udp_ok ?b"
    proof -
      obtain t k where "?b = b\<lparr>clks_net_arp_table := t, clks_net_arp_stamp := k\<rparr>"
        by (rule arp_upsert_cases [OF assms(13,7,10)])
      then show "udp_waiting ?b = udp_waiting b" "udp_ok ?b" using assms(12) by (simp_all add: udp_waiting_def udp_ok_def)
    qed
    moreover have "clks_net_arp_lookup (clks_net_ipv4_be a)
        (clks_net_udp_queue_push (clks_net_ipv4_be a) src_port dst_port (advance ?l4 8) (length payload) ?b) = Some (clks_net_mac a)"
      using arp_upsert_lookup [OF assms(13,7,10)] by (simp add: clks_net_arp_lookup_def clks_net_udp_queue_push_def Let_def)
    ultimately show ?thesis
      using udp_push_spec(2) [OF w(2), of "clks_net_ipv4_be a" src_port dst_port "advance ?l4 8" "length payload"] p
      by (simp add: Let_def received_packet_def)
  qed
  show ?thesis
    by (rule exI [of _ frame], rule exI [of _ i], rule exI [of _ d]) (intro conjI len, simp only: tx frame_def, intro allI impI, rule arrive)
qed

text \<open>Sending on a card that takes every frame, as the one of the examples.\<close>

definition ready_card :: "'d net_device \<Rightarrow> bool" where
  "ready_card dv \<longleftrightarrow> (\<forall>i d. nd_tx_done dv i d = (True, d))"

definition after_tx :: "'d net_device \<Rightarrow> u8 list \<Rightarrow> 'd net_state \<Rightarrow> 'd net_state" where
  "after_tx dv fr s = s\<lparr>clks_net_ipv4_ident := clks_net_ipv4_ident s + 1,
     net_dev := nd_tx dv (clks_net_tx_index s) fr (net_dev s), clks_net_tx_index := (clks_net_tx_index s + 1) mod CLKS_NET_DESC_COUNT\<rparr>"

lemma ready_wait: "ready_card dv \<Longrightarrow> tx_wait dv i n s = (True, s)"
  by (cases n) (simp_all add: on_dev_def ready_card_def)

lemma ready_quiet: "ready_card quiet_card"
  by (simp add: ready_card_def quiet_card_def)

lemma ready_ipv4:
  assumes "ready_card dv" "clks_net_hw_ready s" "length p \<le> 1480" "length dm = 6" "length (clks_net_mac s) = 6"
  shows "clks_net_send_ipv4_packet_from dv src dst dm proto p s =
    (True, after_tx dv (ip_frame src dst dm (clks_net_mac s) proto (clks_net_ipv4_ident s) p) s)"
proof -
  define fr where "fr = eth_frame dm (clks_net_mac s) (ipv4_header src dst proto (clks_net_ipv4_ident s) (20 + length p)
        (clks_net_checksum16 (ipv4_header src dst proto (clks_net_ipv4_ident s) (20 + length p) 0)) @ p)"
  have "length fr = 34 + length p" using assms by (simp add: fr_def eth_frame_def)
  then have "clks_net_tx_frame dv fr (s\<lparr>clks_net_ipv4_ident := clks_net_ipv4_ident s + 1\<rparr>) = (True, after_tx dv (padded fr) s)"
    using assms(2,3) by (simp add: clks_net_tx_frame_def CLKS_NET_BUF_SIZE_def padded_def Let_def ready_wait [OF assms(1)] after_tx_def)
  with assms(3) show ?thesis
    by (simp add: clks_net_send_ipv4_packet_from_def Let_def CLKS_NET_MAX_IPV4_PAYLOAD_def CLKS_NET_IP_HEADER_MIN_LEN_def
        ip_frame_def fr_def eth_frame_def)
qed

lemma ready_udp:
  assumes "ready_card dv" "clks_net_hw_ready s" "length payload \<le> 1472" "length dm = 6" "length (clks_net_mac s) = 6" "sp \<noteq> 0" "dp \<noteq> 0"
  shows "fst (clks_net_send_udp_datagram dv src dst dm sp dp payload s)"
  using assms by (simp add: clks_net_send_udp_datagram_def Let_def CLKS_NET_UDP_PAYLOAD_MAX_def ready_ipv4)

definition host :: "u32 \<Rightarrow> u8 list \<Rightarrow> u8 list list net_state" where
  "host ip mac = (net_boot [])\<lparr>clks_net_ready := True, clks_net_hw_ready := True, clks_net_ipv4_be := ip,
     clks_net_netmask_be := 0xFFFFFF00, clks_net_mac := mac\<rparr>"

lemma host_fields [simp]:
  "clks_net_ready (host ip mac)" "clks_net_hw_ready (host ip mac)" "clks_net_ipv4_be (host ip mac) = ip"
  "clks_net_netmask_be (host ip mac) = 0xFFFFFF00" "clks_net_mac (host ip mac) = mac" "net_dev (host ip mac) = []"
  "clks_net_tcp (host ip mac) = zero_conn" "udp_waiting (host ip mac) = []"
  by (simp_all add: host_def net_boot_def udp_waiting_def)

lemma net_ok_host: "net_ok (host ip mac)"
  by (simp add: net_ok_def host_def udp_ok_def udp_waiting_def net_boot_def arp_ok_def zero_arp_entry_def CLKS_NET_DESC_COUNT_def
      CLKS_NET_UDP_QUEUE_CAP_def udp_ring.items_0 [unfolded CLKS_NET_UDP_QUEUE_CAP_def])

theorem udp_datagram_roundtrip_witness:
  "let a = clks_net_arp_upsert 0x0A000202 [2, 0, 0, 0, 0, 2] (host 0x0A000201 [2, 0, 0, 0, 0, 1]);
       b = host 0x0A000202 [2, 0, 0, 0, 0, 2]; r = clks_net_udp_send quiet_card 0x0A000202 53 5000 [1, 2, 3] a in
   fst r = 3 \<and> (\<exists>frame i d. net_dev (snd r) = nd_tx quiet_card i frame d \<and>
     udp_waiting (clks_net_process_frame quiet_card (\<lambda>k. frame ! k) (length frame) b) =
       [\<lparr>up_valid = True, up_src_ipv4_be = 0x0A000201, up_src_port = 5000, up_dst_port = 53, up_payload = [1, 2, 3]\<rparr>])"
proof -
  let ?ma = "[2, 0, 0, 0, 0, 1] :: u8 list" and ?mb = "[2, 0, 0, 0, 0, 2] :: u8 list"
  let ?a = "clks_net_arp_upsert 0x0A000202 ?mb (host 0x0A000201 ?ma)" and ?b = "host 0x0A000202 ?mb"
  have six: "[0..<6] = [0, 1, 2, 3, 4, 5]" by (simp add: upt_rec)
  have mac: "\<not> clks_net_mac_invalid ?ma" "\<not> clks_net_mac_invalid ?mb" by (simp_all add: clks_net_mac_invalid_def six)
  have ar: "arp_ok (clks_net_arp_table (host ip m))" for ip m by (rule net_ok_fields(3) [OF net_ok_host])
  have look: "clks_net_arp_lookup 0x0A000202 ?a = Some ?mb" by (rule arp_upsert_lookup [OF ar _ mac(2)]) simp
  obtain t k where a: "?a = (host 0x0A000201 ?ma)\<lparr>clks_net_arp_table := t, clks_net_arp_stamp := k\<rparr>"
    by (rule arp_upsert_cases [where s = "host 0x0A000201 ?ma" and ip = "0x0A000202", OF ar _ mac(2)]) (simp, rule that)
  have hop: "clks_net_next_hop_for 0x0A000202 ?a = 0x0A000202"
    by (simp add: a clks_net_next_hop_for_def)
  have fields: "clks_net_available ?a" "clks_net_hw_ready ?a" "clks_net_mac ?a = ?ma" "clks_net_ipv4_be ?a = 0x0A000201"
    by (simp_all add: a clks_net_available_def)
  have res: "clks_net_resolve_ipv4 quiet_card 0x0A000202 120000 ?a = (Some ?mb, ?a)"
    by (simp add: clks_net_resolve_ipv4_def Let_def hop look fields)
  have "fst (clks_net_send_udp_datagram quiet_card 0x0A000201 0x0A000202 ?mb 5000 53 [1, 2, 3] ?a)"
    by (rule ready_udp [OF ready_quiet]) (simp_all add: fields)
  then have send: "clks_net_udp_send quiet_card 0x0A000202 53 5000 [1, 2, 3] ?a = (length [1, 2, 3 :: u8], snd (clks_net_udp_send quiet_card 0x0A000202 53 5000 [1, 2, 3] ?a))"
    by (simp add: clks_net_udp_send_def fields res CLKS_NET_UDP_PAYLOAD_MAX_def split_beta)
  have "\<exists>frame i d. net_dev (snd (clks_net_udp_send quiet_card 0x0A000202 53 5000 [1, 2, 3] ?a)) = nd_tx quiet_card i frame d \<and>
    length frame \<le> 1514 \<and>
    (\<forall>dv' buf. (\<forall>k < length frame. buf k = frame ! k) \<longrightarrow>
      (let b' = clks_net_process_frame dv' buf (length frame) ?b in
       udp_waiting b' = newest CLKS_NET_UDP_QUEUE_CAP (udp_waiting ?b @
         [\<lparr>up_valid = True, up_src_ipv4_be = clks_net_ipv4_be ?a, up_src_port = 5000, up_dst_port = 53, up_payload = [1, 2, 3]\<rparr>]) \<and>
       clks_net_arp_lookup (clks_net_ipv4_be ?a) b' = Some (clks_net_mac ?a)))"
    by (rule udp_datagram_roundtrip [OF send])
      (simp_all add: hop look fields mac ar net_ok_fields(1) [OF net_ok_host])
  then obtain frame i d where f: "net_dev (snd (clks_net_udp_send quiet_card 0x0A000202 53 5000 [1, 2, 3] ?a)) = nd_tx quiet_card i frame d"
    "udp_waiting (clks_net_process_frame quiet_card (\<lambda>k. frame ! k) (length frame) ?b) =
      [\<lparr>up_valid = True, up_src_ipv4_be = 0x0A000201, up_src_port = 5000, up_dst_port = 53, up_payload = [1, 2, 3]\<rparr>]"
    by (auto simp: Let_def fields newest_def CLKS_NET_UDP_QUEUE_CAP_def)
  moreover have "fst (clks_net_udp_send quiet_card 0x0A000202 53 5000 [1, 2, 3] ?a) = 3" by (subst send) simp
  ultimately show ?thesis unfolding Let_def by blast
qed
end
