(* ===== verification/Clks_Net_Tcp.thy ===== *)
theory Clks_Net_Tcp
  imports Clks_Net_Wire
begin

text \<open>
  The connection: delivery of a stream from segments in any order, the handshake and the transfer of data
  between two hosts that run this stack, and when a send returns.
\<close>

section \<open>The receive side\<close>

lemma seg_and_fin_rst: "f AND 0x1FF AND CLKS_NET_TCP_FLAG_RST = f AND CLKS_NET_TCP_FLAG_RST"
  by (simp add: CLKS_NET_TCP_FLAG_RST_def and.assoc)

lemma take_ack_fields:
  "recv_waiting (tcp_take_ack fl a c) = recv_waiting c" "recv_ok (tcp_take_ack fl a c) = recv_ok c"
  "tc_rcv_nxt (tcp_take_ack fl a c) = tc_rcv_nxt c" "tc_state (tcp_take_ack fl a c) = tc_state c"
  "tc_active (tcp_take_ack fl a c) = tc_active c" "tc_remote_ipv4_be (tcp_take_ack fl a c) = tc_remote_ipv4_be c"
  "tc_remote_port (tcp_take_ack fl a c) = tc_remote_port c" "tc_local_port (tcp_take_ack fl a c) = tc_local_port c"
  "tc_peer_fin (tcp_take_ack fl a c) = tc_peer_fin c" "tc_snd_nxt (tcp_take_ack fl a c) = tc_snd_nxt c"
  by (simp_all add: tcp_take_ack_def recv_waiting_def recv_ok_def)

lemma take_data_fields:
  assumes "recv_ok c"
  shows "recv_waiting (tcp_take_data q data c) =
      (if q = tc_rcv_nxt c then newest CLKS_NET_TCP_RECV_CAP (recv_waiting c @ data) else recv_waiting c)"
    "recv_ok (tcp_take_data q data c)"
    "tc_rcv_nxt (tcp_take_data q data c) = tc_rcv_nxt c + (if q = tc_rcv_nxt c then of_nat (length data) else 0)"
    "tc_state (tcp_take_data q data c) = tc_state c" "tc_active (tcp_take_data q data c) = tc_active c"
    "tc_remote_ipv4_be (tcp_take_data q data c) = tc_remote_ipv4_be c"
    "tc_remote_port (tcp_take_data q data c) = tc_remote_port c" "tc_local_port (tcp_take_data q data c) = tc_local_port c"
    "tc_snd_nxt (tcp_take_data q data c) = tc_snd_nxt c" "tc_snd_una (tcp_take_data q data c) = tc_snd_una c"
    "tc_remote_mac (tcp_take_data q data c) = tc_remote_mac c"
proof -
  let ?c = "fold recv_store data c"
  note f = recv_fold_spec [OF assms, of data] and v = recv_view_simps [OF recv_fold(3) [OF assms, of data]]
  have "recv_waiting (?c\<lparr>tc_rcv_nxt := r\<rparr>) = recv_waiting ?c" "recv_ok (?c\<lparr>tc_rcv_nxt := r\<rparr>) = recv_ok ?c" for r
    by (simp_all add: recv_waiting_def recv_ok_def)
  moreover have "newest CLKS_NET_TCP_RECV_CAP (recv_waiting c) = recv_waiting c"
    using assms by (simp add: newest_all recv_ok_def)
  ultimately show "recv_waiting (tcp_take_data q data c) =
      (if q = tc_rcv_nxt c then newest CLKS_NET_TCP_RECV_CAP (recv_waiting c @ data) else recv_waiting c)"
    "recv_ok (tcp_take_data q data c)"
    using f assms by (auto simp: tcp_take_data_def)
qed (use recv_view_simps [OF recv_fold(3) [OF assms, of data]] in \<open>simp_all add: tcp_take_data_def\<close>)

lemma no_fin_fields:
  "fl AND CLKS_NET_TCP_FLAG_FIN = 0 \<Longrightarrow> tcp_take_fin fl q c = c"
  "tc_state c = TCP_ESTABLISHED \<or> tc_state c = TCP_CLOSE_WAIT \<Longrightarrow> tcp_our_fin c = c"
  by (auto simp: tcp_take_fin_def tcp_our_fin_def Let_def)

lemma after_send_tcp_eq: "after_send s s' \<Longrightarrow> clks_net_tcp s' = clks_net_tcp s"
  by (auto simp: after_send_def)

lemma recv_mac [simp]: "recv_waiting (c\<lparr>tc_remote_mac := m\<rparr>) = recv_waiting c" "recv_ok (c\<lparr>tc_remote_mac := m\<rparr>) = recv_ok c"
  by (simp_all add: recv_waiting_def recv_ok_def)

text \<open>A segment without the end of the stream for an open connection.\<close>

lemma tcp_input_established:
  assumes c: "c = clks_net_tcp s" "tc_active c" "tc_state c = TCP_ESTABLISHED"
    and fl: "fl AND CLKS_NET_TCP_FLAG_RST = 0" "fl AND CLKS_NET_TCP_FLAG_FIN = 0"
  shows "clks_net_tcp (tcp_input dv (tc_remote_ipv4_be c) m (tc_remote_port c) (tc_local_port c) fl q a data s) =
    tcp_take_data q data (tcp_take_ack fl a (c\<lparr>tc_remote_mac := m\<rparr>))"
proof -
  let ?c = "tcp_take_data q data (tcp_take_ack fl a (c\<lparr>tc_remote_mac := m\<rparr>))"
  have st: "tc_state (tcp_take_data q data c') = tc_state c'" for c'
  proof -
    have "tc_state (fold recv_store data c') = tc_state c'"
      by (induction data arbitrary: c') (simp_all add: recv_store_def Let_def)
    then show ?thesis by (simp add: tcp_take_data_def)
  qed
  have "tc_state ?c = TCP_ESTABLISHED" using c by (simp add: st take_ack_fields)
  then have e: "tcp_our_fin (tcp_take_fin fl q' ?c) = ?c" for q' using fl by (simp add: no_fin_fields)
  have snd: "clks_net_tcp (snd (clks_net_send_tcp_ack dv t)) = clks_net_tcp t" for t
    by (rule after_send_tcp_eq) (rule after_send_ack)
  show ?thesis
    unfolding tcp_input_def Let_def c(1) [symmetric]
    using c(2,3) fl(1) by (simp add: e snd)
qed

text \<open>A segment of a stream \<open>xs\<close>: a slice of it at an offset, with its flags and acknowledgement.\<close>

record stream_segment =
  ss_off :: nat
  ss_len :: nat
  ss_flags :: u16
  ss_ack :: u32

definition segment_input :: "'d net_device \<Rightarrow> u8 list \<Rightarrow> u8 list \<Rightarrow> u32 \<Rightarrow> stream_segment \<Rightarrow> 'd net_state \<Rightarrow> 'd net_state" where
  "segment_input dv m xs start g s =
     tcp_input dv (tc_remote_ipv4_be (clks_net_tcp s)) m (tc_remote_port (clks_net_tcp s)) (tc_local_port (clks_net_tcp s))
       (ss_flags g) (start + of_nat (ss_off g)) (ss_ack g) (take (ss_len g) (drop (ss_off g) xs)) s"

definition plain_segment :: "stream_segment \<Rightarrow> bool" where
  "plain_segment g \<longleftrightarrow> ss_flags g AND CLKS_NET_TCP_FLAG_RST = 0 \<and> ss_flags g AND CLKS_NET_TCP_FLAG_FIN = 0"

definition has_prefix :: "u8 list \<Rightarrow> u8 list \<Rightarrow> u32 \<Rightarrow> nat \<Rightarrow> 'd net_state \<Rightarrow> bool" where
  "has_prefix old xs start k s \<longleftrightarrow> k \<le> length xs \<and> tcp_ok (clks_net_tcp s) \<and> tc_state (clks_net_tcp s) = TCP_ESTABLISHED \<and>
     recv_waiting (clks_net_tcp s) = old @ take k xs \<and> tc_rcv_nxt (clks_net_tcp s) = start + of_nat k"

lemma of_nat_u32_inj: "(of_nat a :: u32) = of_nat b \<Longrightarrow> a < 4294967296 \<Longrightarrow> b < 4294967296 \<Longrightarrow> a = b"
proof -
  assume "(of_nat a :: u32) = of_nat b" and ab: "a < 4294967296" "b < 4294967296"
  then have "unat (of_nat a :: u32) = unat (of_nat b :: u32)" by simp
  with ab show "a = b" by (simp add: unat_of_nat)
qed

lemma segment_step:
  assumes p: "has_prefix old xs start k s" and len: "length old + length xs \<le> 65536" and g: "plain_segment g"
  shows "has_prefix old xs start (if ss_off g = k then min (k + ss_len g) (length xs) else k) (segment_input dv m xs start g s)"
proof -
  let ?c = "clks_net_tcp s" and ?data = "take (ss_len g) (drop (ss_off g) xs)" and ?q = "start + of_nat (ss_off g) :: u32"
  let ?k = "if ss_off g = k then min (k + ss_len g) (length xs) else k"
  have c: "tcp_ok ?c" "tc_state ?c = TCP_ESTABLISHED" "recv_waiting ?c = old @ take k xs" "tc_rcv_nxt ?c = start + of_nat k" "k \<le> length xs"
    using p by (simp_all add: has_prefix_def)
  have act: "tc_active ?c" and ok: "recv_ok ?c" using c by (simp_all add: tcp_ok_def)
  let ?c1 = "tcp_take_ack (ss_flags g) (ss_ack g) (?c\<lparr>tc_remote_mac := m\<rparr>)"
  have new: "clks_net_tcp (segment_input dv m xs start g s) = tcp_take_data ?q ?data ?c1"
    unfolding segment_input_def using g by (intro tcp_input_established refl act c(2)) (simp_all add: plain_segment_def)
  have ok1: "recv_ok ?c1" using ok by (simp add: take_ack_fields)
  note d = take_data_fields [OF ok1, of ?q ?data, unfolded take_ack_fields, simplified]
  have t: "tcp_ok (tcp_take_data ?q ?data ?c1)" using d act c(2) by (simp add: tcp_ok_def)
  have hit: "?data = [] \<or> ss_off g < length xs" by auto
  have eq: "?data \<noteq> [] \<Longrightarrow> ?q = tc_rcv_nxt ?c \<longleftrightarrow> ss_off g = k"
    using hit c(4,5) len of_nat_u32_inj [of "ss_off g" k] by auto
  have s1: "take (min (k + n) (length xs)) xs = take k xs @ take n (drop k xs)" for n
    by (simp add: min_def take_add [symmetric])
  have s2: "of_nat (min (k + n) (length xs)) = (of_nat k + of_nat (length (take n (drop k xs))) :: u32)" for n
  proof -
    have "min (k + n) (length xs) = k + length (take n (drop k xs))" using c(5) by auto
    then show ?thesis by (simp only: of_nat_add)
  qed
  show ?thesis
  proof (cases "?data = []")
    case True
    have "ss_off g = k \<Longrightarrow> min (k + ss_len g) (length xs) = k" using True c(5) by auto
    moreover have "clks_net_tcp (segment_input dv m xs start g s) = ?c1" unfolding new True by (simp add: tcp_take_data_def)
    moreover have "tcp_ok ?c1" using c(1) by (intro tcp_ok_take_ack tcp_ok_simple)
    ultimately show ?thesis using c by (simp add: has_prefix_def take_ack_fields)
  next
    case data: False
    show ?thesis
    proof (cases "ss_off g = k")
      case True
      have "newest CLKS_NET_TCP_RECV_CAP (recv_waiting ?c @ ?data) = recv_waiting ?c @ ?data"
        using c(3,5) len True by (intro newest_all) (auto simp: CLKS_NET_TCP_RECV_CAP_def)
      with d(1,3,4) t c True eq [OF data] show ?thesis
        by (simp add: has_prefix_def new s1 s2 del: length_take length_drop)
    next
      case False
      with d t c eq [OF data] show ?thesis by (simp add: has_prefix_def new)
    qed
  qed
qed

lemma segments_prefix:
  assumes "has_prefix old xs start k s" "length old + length xs \<le> 65536" "list_all plain_segment gs"
  shows "\<exists>j. has_prefix old xs start j (fold (segment_input dv m xs start) gs s) \<and> k \<le> j"
  using assms(1,3)
proof (induction gs arbitrary: k s)
  case Nil
  then show ?case by auto
next
  case (Cons g gs)
  let ?k = "if ss_off g = k then min (k + ss_len g) (length xs) else k"
  from Cons.prems have "has_prefix old xs start ?k (segment_input dv m xs start g s)"
    by (intro segment_step assms(2)) simp_all
  moreover have "k \<le> ?k" using Cons.prems(1) by (simp add: has_prefix_def)
  ultimately show ?case using Cons.IH [of ?k "segment_input dv m xs start g s"] Cons.prems(2) by fastforce
qed

lemma segments_in_order:
  assumes "has_prefix old xs start k s" "length old + length xs \<le> 65536" "list_all plain_segment gs"
    and "map ss_off gs = map (\<lambda>i. k + sum_list (take i (map ss_len gs))) [0..<length gs]" "k + sum_list (map ss_len gs) = length xs"
  shows "has_prefix old xs start (length xs) (fold (segment_input dv m xs start) gs s)"
  using assms(1,3,4,5)
proof (induction gs arbitrary: k s)
  case Nil
  then show ?case by simp
next
  case (Cons g gs)
  have u: "[0..<length (g # gs)] = 0 # map Suc [0..<length gs]" by (simp add: upt_conv_Cons map_Suc_upt del: upt_Suc)
  have off: "ss_off g = k" and offs: "map ss_off gs = map (\<lambda>i. k + ss_len g + sum_list (take i (map ss_len gs))) [0..<length gs]"
    using Cons.prems(3) unfolding u by (simp_all add: o_def add.assoc del: upt_Suc)
  have "min (k + ss_len g) (length xs) = k + ss_len g" using Cons.prems(4) by simp
  then have "has_prefix old xs start (k + ss_len g) (segment_input dv m xs start g s)"
    using segment_step [OF Cons.prems(1) assms(2), of g dv m] Cons.prems(2) off by simp
  from Cons.IH [OF this _ offs] Cons.prems show ?case by simp
qed


definition open_host :: "u8 list list net_state" where
  "open_host = (host 0x0A000202 [2, 0, 0, 0, 0, 2])\<lparr>clks_net_tcp := zero_conn\<lparr>tc_active := True, tc_state := TCP_ESTABLISHED,
     tc_remote_ipv4_be := 0x0A000201, tc_remote_port := 5000, tc_local_port := 80, tc_rcv_nxt := 4294967295\<rparr>\<rparr>"


text \<open>
  A segment that does not fit, as a probe of one byte while the advertised window is zero, is acknowledged
  and stored all the same: the oldest unread byte is lost.
\<close>

lemma full_buffer_loses_oldest:
  assumes "tcp_ok (clks_net_tcp s)" "tc_state (clks_net_tcp s) = TCP_ESTABLISHED"
    and "recv_waiting (clks_net_tcp s) = b # bs" "length (b # bs) = 65536"
    and "fl AND CLKS_NET_TCP_FLAG_RST = 0" "fl AND CLKS_NET_TCP_FLAG_FIN = 0" "c = clks_net_tcp s"
    and "s' = tcp_input dv (tc_remote_ipv4_be c) m (tc_remote_port c) (tc_local_port c) fl (tc_rcv_nxt c) a [x] s"
  shows "recv_waiting (clks_net_tcp s') = bs @ [x]" "tc_rcv_nxt (clks_net_tcp s') = tc_rcv_nxt c + 1"
proof -
  have act: "tc_active c" "recv_ok c" using assms(1,2,7) by (simp_all add: tcp_ok_def)
  let ?c = "tcp_take_ack fl a (c\<lparr>tc_remote_mac := m\<rparr>)"
  have e: "clks_net_tcp s' = tcp_take_data (tc_rcv_nxt c) [x] ?c"
    unfolding assms(8) using assms(2,5,6,7) act by (intro tcp_input_established) simp_all
  have "recv_ok ?c" using act by (simp add: take_ack_fields)
  note d = take_data_fields [OF this, of "tc_rcv_nxt c" "[x]"]
  show "recv_waiting (clks_net_tcp s') = bs @ [x]" "tc_rcv_nxt (clks_net_tcp s') = tc_rcv_nxt c + 1"
    using d(1,3) assms(3,4,7) by (simp_all add: e take_ack_fields newest_def CLKS_NET_TCP_RECV_CAP_def)
qed

section \<open>A segment from host to host\<close>

lemma tcp_header_len_cases: "tcp_header_len fl = 20 \<or> tcp_header_len fl = 24"
  by (simp add: tcp_header_len_def CLKS_NET_TCP_HEADER_MIN_LEN_def CLKS_NET_TCP_SYN_OPTION_LEN_def)

lemma tcp_segment_length [simp]: "length (tcp_segment sp dp q a fl w payload c) = tcp_header_len fl + length payload"
  by (simp add: tcp_segment_def tcp_header_len_def CLKS_NET_TCP_HEADER_MIN_LEN_def CLKS_NET_TCP_SYN_OPTION_LEN_def)

lemma tcp_flag_word:
  "unat (drop_bit 12 (push_bit 12 (of_nat (tcp_header_len fl div 4)) OR (fl AND 0x1FF) :: u16) AND 0xF) * 4 = tcp_header_len fl"
  "(push_bit 12 (of_nat (tcp_header_len fl div 4)) OR (fl AND 0x1FF)) AND 0x1FF = fl AND (0x1FF :: u16)"
proof -
  have h: "drop_bit 12 (fl AND 0x1FF) = 0" by (simp add: drop_bit_and)
  from tcp_header_len_cases [of fl] consider "tcp_header_len fl = 20" | "tcp_header_len fl = 24" by blast
  then show "unat (drop_bit 12 (push_bit 12 (of_nat (tcp_header_len fl div 4)) OR (fl AND 0x1FF) :: u16) AND 0xF) * 4 = tcp_header_len fl"
    by cases (simp_all add: drop_bit_or h)
  from tcp_header_len_cases [of fl] consider "tcp_header_len fl = 20" | "tcp_header_len fl = 24" by blast
  then show "(push_bit 12 (of_nat (tcp_header_len fl div 4)) OR (fl AND 0x1FF)) AND 0x1FF = fl AND (0x1FF :: u16)"
    by cases (simp_all add: bit.conj_disj_distrib2 and.assoc)
qed

lemma tcp_segment_arrives:
  assumes h: "holds l4 (tcp_segment sp dp q a fl w payload c)"
  shows "clks_net_process_tcp dv src m l4 (tcp_header_len fl + length payload) s = tcp_input dv src m sp dp (fl AND 0x1FF) q a payload s"
proof -
  define head where "head = clks_net_write_be16 sp @ clks_net_write_be16 dp @ clks_net_write_be32 q @ clks_net_write_be32 a @
     clks_net_write_be16 (push_bit 12 (of_nat (tcp_header_len fl div 4)) OR (fl AND 0x1FF)) @
     clks_net_write_be16 w @ clks_net_write_be16 c @ clks_net_write_be16 0 @
     (if fl AND CLKS_NET_TCP_FLAG_SYN \<noteq> 0
      then [CLKS_NET_TCP_OPT_MSS, CLKS_NET_TCP_OPT_MSS_LEN] @ clks_net_write_be16 CLKS_NET_TCP_MSS else [])"
  have seg: "tcp_segment sp dp q a fl w payload c = head @ payload" by (simp add: tcp_segment_def head_def)
  have hl: "length head = tcp_header_len fl"
    using tcp_segment_length [of sp dp q a fl w payload c] unfolding seg by simp
  have hh: "holds l4 head" and pay: "holds (advance l4 (tcp_header_len fl)) payload"
    using h unfolding seg holds_append hl by blast+
  from hh [unfolded head_def] have f: "clks_net_read_be16 l4 = sp" "clks_net_read_be16 (advance l4 2) = dp"
    "clks_net_read_be32 (advance l4 4) = q" "clks_net_read_be32 (advance l4 8) = a"
    "clks_net_read_be16 (advance l4 12) = push_bit 12 (of_nat (tcp_header_len fl div 4)) OR (fl AND 0x1FF)"
    by (simp_all add: holds_append holds_be16 holds_be32)
  have data: "map (advance l4 (tcp_header_len fl)) [0..<tcp_header_len fl + length payload - tcp_header_len fl] = payload"
    using holds_map [OF pay] by simp
  have n: "\<not> tcp_header_len fl + length payload < 20" "\<not> (tcp_header_len fl < 20 \<or> tcp_header_len fl > tcp_header_len fl + length payload)"
    using tcp_header_len_cases [of fl] by auto
  show ?thesis
    unfolding clks_net_process_tcp_def Let_def f tcp_flag_word data CLKS_NET_TCP_HEADER_MIN_LEN_def
    by (simp only: n if_False)
qed

section \<open>Two hosts on a link\<close>

text \<open>What the exchange of segments looks at in a host: its addresses, its connection and its card.\<close>

definition host_is :: "'d net_state \<Rightarrow> u32 \<Rightarrow> u8 list \<Rightarrow> clks_net_tcp_conn \<Rightarrow> 'd \<Rightarrow> bool" where
  "host_is s ip m c d \<longleftrightarrow> clks_net_hw_ready s \<and> clks_net_ipv4_be s = ip \<and> clks_net_mac s = m \<and> length m = 6 \<and> clks_net_tcp s = c \<and> net_dev s = d"

definition seg_frame ::
  "u8 list \<Rightarrow> u32 \<Rightarrow> u32 \<Rightarrow> u8 list \<Rightarrow> u8 list \<Rightarrow> u16 \<Rightarrow> u16 \<Rightarrow> u32 \<Rightarrow> u32 \<Rightarrow> u16 \<Rightarrow> u8 list \<Rightarrow> bool" where
  "seg_frame fr src dst dm sm sp dp q a fl payload \<longleftrightarrow> (\<exists>ident w cs. fr =
     ip_frame src dst dm sm CLKS_NET_IPV4_PROTO_TCP ident (tcp_segment sp dp q a fl w payload cs))"

lemma upsert_fields [simp]:
  "clks_net_hw_ready (clks_net_arp_upsert i h s) = clks_net_hw_ready s" "clks_net_ipv4_be (clks_net_arp_upsert i h s) = clks_net_ipv4_be s"
  "clks_net_mac (clks_net_arp_upsert i h s) = clks_net_mac s" "clks_net_tcp (clks_net_arp_upsert i h s) = clks_net_tcp s"
  "net_dev (clks_net_arp_upsert i h s) = net_dev s"
  "clks_net_ready (clks_net_arp_upsert i h s) = clks_net_ready s"
  by (simp_all add: clks_net_arp_upsert_def Let_def split: sum.split prod.split)

lemma host_upsert: "host_is s ip m c d \<Longrightarrow> host_is (clks_net_arp_upsert i h s) ip m c d"
  by (simp add: host_is_def)

lemma host_conn: "host_is s ip m c d \<Longrightarrow> host_is (s\<lparr>clks_net_tcp := c'\<rparr>) ip m c' d"
  by (simp add: host_is_def)

lemma host_send:
  assumes "ready_card dv" "host_is s ip m c d" "sp \<noteq> 0" "dp \<noteq> 0" "length payload \<le> 1400" "length dm = 6"
  obtains i fr s' where "clks_net_send_tcp_segment_raw dv ip dst dm sp dp q a fl payload s = (True, s')"
    "seg_frame fr ip dst dm m sp dp q a fl payload" "host_is s' ip m c (nd_tx dv i fr d)"
proof -
  define free where "free = CLKS_NET_TCP_RECV_CAP - tc_recv_count c"
  define w where "w = (of_nat (if free < CLKS_NET_TCP_DEFAULT_WINDOW then free else CLKS_NET_TCP_DEFAULT_WINDOW) :: u16)"
  define seg where "seg = tcp_segment sp dp q a fl w payload
    (clks_net_tcp_checksum ip dst (tcp_segment sp dp q a fl w payload 0))"
  have h: "clks_net_hw_ready s" "clks_net_mac s = m" "length m = 6" "clks_net_tcp s = c" "net_dev s = d" "clks_net_ipv4_be s = ip"
    using assms(2) by (simp_all add: host_is_def)
  have l: "length seg \<le> 1480" "\<not> length payload > CLKS_NET_MAX_IPV4_PAYLOAD - tcp_header_len fl"
    using assms(5) tcp_header_len_cases [of fl] by (auto simp: seg_def CLKS_NET_MAX_IPV4_PAYLOAD_def)
  have "length (clks_net_mac s) = 6" using h by simp
  from ready_ipv4 [OF assms(1) h(1) l(1) assms(6) this, of ip dst CLKS_NET_IPV4_PROTO_TCP]
  have "clks_net_send_tcp_segment_raw dv ip dst dm sp dp q a fl payload s =
      (True, after_tx dv (ip_frame ip dst dm m CLKS_NET_IPV4_PROTO_TCP (clks_net_ipv4_ident s) seg) s)"
    using assms(3,4) l(2)
    unfolding clks_net_send_tcp_segment_raw_def Let_def h(2,4) free_def [symmetric] w_def [symmetric] seg_def [symmetric]
    by simp
  moreover have "seg_frame (ip_frame ip dst dm m CLKS_NET_IPV4_PROTO_TCP (clks_net_ipv4_ident s) seg) ip dst dm m sp dp q a fl payload"
    unfolding seg_frame_def seg_def by blast
  moreover have "host_is (after_tx dv fr s) ip m c (nd_tx dv (clks_net_tx_index s) fr d)" for fr
    using h by (simp add: host_is_def after_tx_def)
  ultimately show thesis by (rule that)
qed

lemma seg_frame_length:
  assumes "seg_frame fr src dst dm sm sp dp q a fl payload" "length dm = 6" "length sm = 6" "length payload \<le> 1400"
  shows "0 < length fr" "length fr \<le> CLKS_NET_BUF_SIZE"
proof -
  have "length fr = max 60 (34 + (tcp_header_len fl + length payload))"
    using assms(1-3) by (auto simp: seg_frame_def ip_frame_length)
  with assms(4) tcp_header_len_cases [of fl] have "60 \<le> length fr \<and> length fr \<le> CLKS_NET_BUF_SIZE"
    by (auto simp: CLKS_NET_BUF_SIZE_def)
  then have "60 \<le> length fr" "length fr \<le> CLKS_NET_BUF_SIZE" by simp_all
  then show "0 < length fr" "length fr \<le> CLKS_NET_BUF_SIZE" by linarith+
qed

lemma seg_frame_arrives:
  assumes "seg_frame fr src dst dm sm sp dp q a fl payload" "host_is r dst dm c d" "length sm = 6" "src \<noteq> 0" "length payload \<le> 1400"
  shows "clks_net_process_frame dv (\<lambda>k. fr ! k) (length fr) r =
    tcp_input dv src sm sp dp (fl AND 0x1FF) q a payload (clks_net_arp_upsert src sm r)"
proof -
  have h: "dm = clks_net_mac r" "dst = clks_net_ipv4_be r" "length dm = 6" using assms(2) by (auto simp: host_is_def)
  obtain ident w cs where fr: "fr = ip_frame src dst dm sm CLKS_NET_IPV4_PROTO_TCP ident (tcp_segment sp dp q a fl w payload cs)"
    using assms(1) unfolding seg_frame_def by blast
  let ?seg = "tcp_segment sp dp q a fl w payload cs" and ?f = "\<lambda>k. fr ! k"
  have l: "length ?seg \<le> 1480" using assms(5) tcp_header_len_cases [of fl] by auto
  have "holds ?f fr" by (simp add: holds_def)
  from ip_frame_dispatch [OF this [unfolded fr] refl h(3) assms(3) l h(1) disjI1 [OF h(2)] assms(4), of dv]
  have "holds (advance ?f 34) ?seg \<and> clks_net_process_frame dv ?f (length fr) r =
      clks_net_process_tcp dv src sm (advance ?f 34) (length ?seg) (clks_net_arp_upsert src sm r)"
    unfolding fr by (simp add: Let_def net_protocols)
  with tcp_segment_arrives [of "advance ?f 34" sp dp q a fl w payload cs dv src sm "clks_net_arp_upsert src sm r"]
  show ?thesis by simp
qed

text \<open>The link: the card of one host hands its frames to the other host and receives what that one sends.\<close>

definition peer_card :: "u8 list list net_state net_device" where
  "peer_card = \<lparr>nd_tx_done = (\<lambda>i p. (True, p)),
     nd_tx = (\<lambda>i fr p. clks_net_process_frame quiet_card (\<lambda>k. fr ! k) (length fr) p),
     nd_rx = (\<lambda>i p. ((case net_dev p of [] \<Rightarrow> None | fr # frs \<Rightarrow> Some (length fr, \<lambda>k. fr ! k)), p)),
     nd_rx_done = (\<lambda>i p. p\<lparr>net_dev := tl (net_dev p)\<rparr>), nd_hw_init = (\<lambda>p. (None, p)), nd_ticks = (\<lambda>p. 0)\<rparr>"

lemma ready_peer: "ready_card peer_card"
  by (simp add: ready_card_def peer_card_def)

lemma quiet_nd_tx: "nd_tx quiet_card i fr d = d @ [fr]"
  by (simp add: quiet_card_def)

lemma peer_nd_tx: "nd_tx peer_card i fr p = clks_net_process_frame quiet_card (\<lambda>k. fr ! k) (length fr) p"
  by (simp add: peer_card_def)

lemma peer_rx:
  "nd_rx peer_card i p = (case net_dev p of [] \<Rightarrow> None | fr # frs \<Rightarrow> Some (length fr, \<lambda>k. fr ! k), p)"
  "nd_rx_done peer_card i p = p\<lparr>net_dev := tl (net_dev p)\<rparr>"
  by (simp_all add: peer_card_def)

lemma dev_update:
  "net_dev (s\<lparr>net_dev := d, clks_net_rx_index := k\<rparr>) = d"
  "s\<lparr>net_dev := d, clks_net_rx_index := k\<rparr>\<lparr>net_dev := d\<rparr> = s\<lparr>net_dev := d, clks_net_rx_index := k\<rparr>"
  by simp_all

lemma host_rx: "host_is s ip m c d' \<Longrightarrow> host_is (s\<lparr>net_dev := d, clks_net_rx_index := k\<rparr>) ip m c d"
  by (simp add: host_is_def)

lemma dev_on_rx:
  "nd_rx dv i d = (r, d) \<Longrightarrow> on_dev (nd_rx dv i) (s\<lparr>net_dev := d, clks_net_rx_index := k\<rparr>) =
     (r, s\<lparr>net_dev := d, clks_net_rx_index := k\<rparr>)"
  unfolding on_dev_def dev_update(1) by (simp add: dev_update(2))

lemma poll_none:
  assumes "host_is s ip m c p" "net_dev p = []"
  shows "host_is (clks_net_poll_internal peer_card s) ip m c p"
proof -
  have n: "CLKS_NET_DESC_COUNT = Suc 127" by (simp add: CLKS_NET_DESC_COUNT_def)
  have h: "clks_net_hw_ready s" "net_dev s = p" using assms(1) by (simp_all add: host_is_def)
  have s1: "s\<lparr>net_dev := p\<rparr> = s" unfolding h(2) [symmetric] by simp
  have r: "on_dev (nd_rx peer_card i) s = (None, s)" for i
    using h assms(2) s1 by (simp add: on_dev_def peer_rx)
  show ?thesis
    unfolding clks_net_poll_internal_def n rx_loop.simps r using assms(1) by (simp add: host_is_def)
qed

lemma poll_one:
  assumes "host_is s ip m c p" "net_dev p = [fr]" "0 < length fr" "length fr \<le> CLKS_NET_BUF_SIZE"
    and "host_is (clks_net_process_frame peer_card (\<lambda>k. fr ! k) (length fr) s) ip m c' p'" "net_dev p' = [fr']"
  shows "host_is (clks_net_poll_internal peer_card s) ip m c' (p'\<lparr>net_dev := []\<rparr>)"
proof -
  let ?s = "clks_net_process_frame peer_card (\<lambda>k. fr ! k) (length fr) s"
  have n: "CLKS_NET_DESC_COUNT = Suc (Suc 126)" by (simp add: CLKS_NET_DESC_COUNT_def)
  have h: "clks_net_hw_ready s" "net_dev s = p" using assms(1) by (simp_all add: host_is_def)
  have s1: "s\<lparr>net_dev := p\<rparr> = s" unfolding h(2) [symmetric] by simp
  have r: "on_dev (nd_rx peer_card i) s = (Some (length fr, \<lambda>k. fr ! k), s)" for i
    using h assms(2) s1 by (simp add: on_dev_def peer_rx)
  let ?t = "?s\<lparr>net_dev := p'\<lparr>net_dev := []\<rparr>, clks_net_rx_index := (clks_net_rx_index ?s + 1) mod CLKS_NET_DESC_COUNT\<rparr>"
  have d: "nd_rx_done peer_card i (net_dev ?s) = p'\<lparr>net_dev := []\<rparr>" for i
    using assms(5,6) by (simp add: host_is_def peer_rx)
  have "nd_rx peer_card i (p'\<lparr>net_dev := []\<rparr>) = (None, p'\<lparr>net_dev := []\<rparr>)" for i by (simp add: peer_rx)
  then have e: "on_dev (nd_rx peer_card i) ?t = (None, ?t)" for i by (rule dev_on_rx)
  have "clks_net_poll_internal peer_card s = ?t"
    unfolding clks_net_poll_internal_def n rx_loop.simps r
    using h(1) assms(3,4) e n by (simp add: d Let_def)
  then show ?thesis using host_rx [OF assms(5)] by simp
qed

lemma flag_words:
  "CLKS_NET_TCP_FLAG_SYN AND 0x1FF = 2" "CLKS_NET_TCP_FLAG_ACK AND 0x1FF = 0x10"
  "(CLKS_NET_TCP_FLAG_SYN OR CLKS_NET_TCP_FLAG_ACK) AND 0x1FF = 0x12" "(CLKS_NET_TCP_FLAG_ACK OR CLKS_NET_TCP_FLAG_PSH) AND 0x1FF = 0x18"
  by (simp_all add: tcp_flags)

lemma peer_accepts:
  assumes h: "host_is p ip m c frs" and c: "tc_active c" "tc_state c = TCP_LISTEN" "tc_local_port c = dp" and ports: "dp \<noteq> 0" "sp \<noteq> 0"
    and m: "length sm = 6"
  obtains iss fr where "seg_frame fr ip src sm m dp sp iss (q + 1) (CLKS_NET_TCP_FLAG_SYN OR CLKS_NET_TCP_FLAG_ACK) []"
    "host_is (tcp_input quiet_card src sm sp dp 2 q a [] p) ip m
       (c\<lparr>tc_remote_mac := sm, tc_remote_ipv4_be := src, tc_remote_alt_ipv4_be := 0, tc_remote_port := sp, tc_snd_iss := iss,
          tc_snd_una := iss, tc_snd_nxt := iss + 1, tc_rcv_nxt := q + 1, tc_state := TCP_SYN_RECEIVED\<rparr>) (frs @ [fr])"
proof -
  define iss where "iss = clks_net_tcp_make_iss quiet_card src dp sp 0 p"
  let ?c = "c\<lparr>tc_remote_mac := sm, tc_remote_ipv4_be := src, tc_remote_alt_ipv4_be := 0, tc_remote_port := sp, tc_snd_iss := iss,
      tc_snd_una := iss, tc_snd_nxt := iss + 1, tc_rcv_nxt := q + 1, tc_state := TCP_SYN_RECEIVED\<rparr>"
  have f: "clks_net_tcp p = c" "clks_net_ipv4_be p = ip" using h by (simp_all add: host_is_def)
  have "length ([] :: u8 list) \<le> 1400" by simp
  from host_send [OF ready_quiet host_conn [OF h, of ?c] ports this m]
  obtain i fr s' where s: "clks_net_send_tcp_segment_raw quiet_card ip src sm dp sp iss (q + 1) (CLKS_NET_TCP_FLAG_SYN OR CLKS_NET_TCP_FLAG_ACK) []
        (p\<lparr>clks_net_tcp := ?c\<rparr>) = (True, s')"
    "seg_frame fr ip src sm m dp sp iss (q + 1) (CLKS_NET_TCP_FLAG_SYN OR CLKS_NET_TCP_FLAG_ACK) []"
    "host_is s' ip m ?c (nd_tx quiet_card i fr frs)" by blast
  have "tcp_input quiet_card src sm sp dp 2 q a [] p = s'"
    using c s(1) by (simp add: tcp_input_def tcp_accept_syn_def Let_def f tcp_flags iss_def)
  with s(3) have "host_is (tcp_input quiet_card src sm sp dp 2 q a [] p) ip m ?c (frs @ [fr])" by (simp add: quiet_nd_tx)
  with s(2) show thesis by (rule that)
qed

lemma seq_refl: "clks_net_tcp_seq_ge a a" "clks_net_tcp_seq_le a a"
  by (simp_all add: clks_net_tcp_seq_ge_def clks_net_tcp_seq_le_def)

lemma peer_opens:
  assumes h: "host_is p ip m c frs" and c: "tc_active c" "tc_state c = TCP_SYN_RECEIVED"
    "tc_remote_ipv4_be c = src" "tc_remote_port c = sp" "tc_local_port c = dp" "a = tc_snd_nxt c"
  shows "host_is (tcp_input quiet_card src sm sp dp 0x10 q a [] p) ip m
      (c\<lparr>tc_remote_mac := sm, tc_snd_una := a, tc_state := TCP_ESTABLISHED\<rparr>) frs"
proof -
  have f: "clks_net_tcp p = c" using h by (simp add: host_is_def)
  have "tcp_input quiet_card src sm sp dp 0x10 q a [] p =
      p\<lparr>clks_net_tcp := c\<lparr>tc_remote_mac := sm, tc_snd_una := a, tc_state := TCP_ESTABLISHED\<rparr>\<rparr>"
    using c by (simp add: tcp_input_def Let_def f tcp_flags tcp_take_ack_def tcp_take_data_def tcp_take_fin_def tcp_our_fin_def seq_refl)
  with host_conn [OF h] show ?thesis by simp
qed

lemma client_opens:
  assumes r: "ready_card dv" and h: "host_is s ip m c d" and c: "tc_active c" "tc_state c = TCP_SYN_SENT"
    "tc_remote_ipv4_be c = src" "tc_remote_port c = sp" "tc_local_port c = dp" "a = tc_snd_nxt c"
    and ports: "dp \<noteq> 0" "sp \<noteq> 0" and m: "length sm = 6"
  obtains i fr where "seg_frame fr ip src sm m dp sp a (q + 1) CLKS_NET_TCP_FLAG_ACK []"
    "host_is (tcp_input dv src sm sp dp 0x12 q a [] s) ip m
       (c\<lparr>tc_remote_mac := sm, tc_snd_una := a, tc_rcv_nxt := q + 1, tc_state := TCP_ESTABLISHED\<rparr>) (nd_tx dv i fr d)"
proof -
  let ?c = "c\<lparr>tc_remote_mac := sm, tc_snd_una := a, tc_rcv_nxt := q + 1, tc_state := TCP_ESTABLISHED\<rparr>"
  have f: "clks_net_tcp s = c" "clks_net_ipv4_be s = ip" using h by (simp_all add: host_is_def)
  have "length ([] :: u8 list) \<le> 1400" by simp
  from host_send [OF r host_conn [OF h, of ?c] ports this m]
  obtain i fr s' where s: "clks_net_send_tcp_segment_raw dv ip src sm dp sp a (q + 1) CLKS_NET_TCP_FLAG_ACK [] (s\<lparr>clks_net_tcp := ?c\<rparr>) = (True, s')"
    "seg_frame fr ip src sm m dp sp a (q + 1) CLKS_NET_TCP_FLAG_ACK []" "host_is s' ip m ?c (nd_tx dv i fr d)" by blast
  have "tcp_input dv src sm sp dp 0x12 q a [] s = s'"
    using c s(1) by (simp add: tcp_input_def Let_def f tcp_flags clks_net_send_tcp_ack_def)
  with s(3) have "host_is (tcp_input dv src sm sp dp 0x12 q a [] s) ip m ?c (nd_tx dv i fr d)" by simp
  with s(2) show thesis by (rule that)
qed

text \<open>Two hosts whose connections are each other's other end, with nothing on the way.\<close>

definition linked :: "u8 list list net_state net_state \<Rightarrow> bool" where
  "linked s \<longleftrightarrow> (let p = net_dev s; c = clks_net_tcp s; d = clks_net_tcp p in
     clks_net_hw_ready s \<and> clks_net_hw_ready p \<and> length (clks_net_mac s) = 6 \<and> length (clks_net_mac p) = 6 \<and> net_dev p = [] \<and>
     tc_active c \<and> tc_state c = TCP_ESTABLISHED \<and> tc_active d \<and> tc_state d = TCP_ESTABLISHED \<and>
     \<not> tc_reset_seen c \<and> clks_net_ipv4_be s \<noteq> 0 \<and> clks_net_ipv4_be p \<noteq> 0 \<and>
     tc_remote_ipv4_be c = clks_net_ipv4_be p \<and> tc_remote_ipv4_be d = clks_net_ipv4_be s \<and>
     tc_remote_mac c = clks_net_mac p \<and> tc_remote_mac d = clks_net_mac s \<and>
     tc_remote_port c = tc_local_port d \<and> tc_remote_port d = tc_local_port c \<and> tc_local_port c \<noteq> 0 \<and> tc_local_port d \<noteq> 0 \<and>
     tc_snd_una c = tc_snd_nxt c \<and> tc_rcv_nxt d = tc_snd_nxt c \<and> tc_snd_una d = tc_snd_nxt d \<and> tc_rcv_nxt c = tc_snd_nxt d \<and>
     recv_ok d)"

lemma handshake:
  assumes s: "host_is s ip m c p" and p: "host_is p ip' m' d []"
    and c: "tc_active c" "tc_state c = TCP_SYN_SENT" "tc_remote_ipv4_be c = ip'" "tc_remote_mac c = m'" "tc_remote_port c = port"
      "tc_local_port c = sport" "tc_snd_nxt c = iss + 1" "\<not> tc_reset_seen c" "\<not> tc_stale_ack_seen c"
    and d: "tc_active d" "tc_state d = TCP_LISTEN" "tc_local_port d = port" "recv_ok d"
    and nz: "port \<noteq> 0" "sport \<noteq> 0" "ip \<noteq> 0" "ip' \<noteq> 0"
  obtains s' s'' where
    "clks_net_send_tcp_segment_raw peer_card ip ip' m' sport port iss 0 CLKS_NET_TCP_FLAG_SYN [] s = (True, s')"
    "clks_net_poll_internal peer_card s' = s''" "linked s''" "\<not> tc_stale_ack_seen (clks_net_tcp s'')"
    "recv_waiting (clks_net_tcp (net_dev s'')) = recv_waiting d"
proof -
  have macs: "length m = 6" "length m' = 6" using s p by (simp_all add: host_is_def)
  have nil: "length ([] :: u8 list) \<le> 1400" by simp
  from host_send [OF ready_peer s nz(2,1) nil macs(2)] obtain i fr s' where
    s': "clks_net_send_tcp_segment_raw peer_card ip ip' m' sport port iss 0 CLKS_NET_TCP_FLAG_SYN [] s = (True, s')"
    "seg_frame fr ip ip' m' m sport port iss 0 CLKS_NET_TCP_FLAG_SYN []" "host_is s' ip m c (nd_tx peer_card i fr p)" by blast
  define p1 where "p1 = tcp_input quiet_card ip m sport port 2 iss 0 [] (clks_net_arp_upsert ip m p)"
  have "nd_tx peer_card i fr p = p1"
    unfolding peer_nd_tx p1_def seg_frame_arrives [OF s'(2) p macs(1) nz(3) nil] flag_words ..
  with s'(3) have s1: "host_is s' ip m c p1" by simp
  from peer_accepts [OF host_upsert [OF p] d(1,2,3) nz(1,2) macs(1)]
  obtain iss' fr' where fr': "seg_frame fr' ip' ip m m' port sport iss' (iss + 1) (CLKS_NET_TCP_FLAG_SYN OR CLKS_NET_TCP_FLAG_ACK) []"
    and p1: "host_is p1 ip' m' (d\<lparr>tc_remote_mac := m, tc_remote_ipv4_be := ip, tc_remote_alt_ipv4_be := 0, tc_remote_port := sport,
      tc_snd_iss := iss', tc_snd_una := iss', tc_snd_nxt := iss' + 1, tc_rcv_nxt := iss + 1, tc_state := TCP_SYN_RECEIVED\<rparr>) [fr']"
    unfolding p1_def append_Nil by blast
  let ?d = "d\<lparr>tc_remote_mac := m, tc_remote_ipv4_be := ip, tc_remote_alt_ipv4_be := 0, tc_remote_port := sport,
      tc_snd_iss := iss', tc_snd_una := iss', tc_snd_nxt := iss' + 1, tc_rcv_nxt := iss + 1, tc_state := TCP_SYN_RECEIVED\<rparr>"
  let ?c = "c\<lparr>tc_remote_mac := m', tc_snd_una := iss + 1, tc_rcv_nxt := iss' + 1, tc_state := TCP_ESTABLISHED\<rparr>"
  define t where "t = clks_net_process_frame peer_card (\<lambda>k. fr' ! k) (length fr') s'"
  have t: "t = tcp_input peer_card ip' m' port sport 0x12 iss' (iss + 1) [] (clks_net_arp_upsert ip' m' s')"
    unfolding t_def seg_frame_arrives [OF fr' s1 macs(2) nz(4) nil] flag_words ..
  from client_opens [OF ready_peer host_upsert [OF s1] c(1,2,3,5,6) c(7) [symmetric] nz(2,1) macs(2)]
  obtain j ack where ack: "seg_frame ack ip ip' m' m sport port (iss + 1) (iss' + 1) CLKS_NET_TCP_FLAG_ACK []"
    and t1: "host_is t ip m ?c (nd_tx peer_card j ack p1)" unfolding t by blast
  have p2: "host_is (nd_tx peer_card j ack p1) ip' m' (?d\<lparr>tc_remote_mac := m, tc_snd_una := iss' + 1, tc_state := TCP_ESTABLISHED\<rparr>) [fr']"
    unfolding peer_nd_tx seg_frame_arrives [OF ack p1 macs(1) nz(3) nil] flag_words
    by (rule peer_opens [OF host_upsert [OF p1]]) (simp_all add: d)
  have "net_dev p1 = [fr']" "net_dev (nd_tx peer_card j ack p1) = [fr']" using p1 p2 by (simp_all add: host_is_def)
  from poll_one [OF s1 this(1) seg_frame_length [OF fr' macs nil] t1 [unfolded t_def] this(2)]
  have poll: "host_is (clks_net_poll_internal peer_card s') ip m ?c ((nd_tx peer_card j ack p1)\<lparr>net_dev := []\<rparr>)" .
  have l: "linked (clks_net_poll_internal peer_card s') \<and> \<not> tc_stale_ack_seen (clks_net_tcp (clks_net_poll_internal peer_card s')) \<and>
      recv_waiting (clks_net_tcp (net_dev (clks_net_poll_internal peer_card s'))) = recv_waiting d"
    using poll p2 c d nz macs by (simp add: linked_def host_is_def Let_def recv_ok_def recv_waiting_def)
  show thesis by (rule that [OF s'(1) refl]) (use l in simp_all)
qed

lemma connect_first_try:
  assumes s: "host_is s ip m c p" and p: "host_is p ip' m' d []"
    and c: "tc_active c" "tc_state c = TCP_SYN_SENT" "tc_remote_ipv4_be c = ip'" "tc_remote_mac c = m'" "tc_remote_port c = port"
      "tc_local_port c = sport" "\<not> tc_reset_seen c"
    and d: "tc_active d" "tc_state d = TCP_LISTEN" "tc_local_port d = port" "recv_ok d"
    and nz: "port \<noteq> 0" "sport \<noteq> 0" "ip \<noteq> 0" "ip' \<noteq> 0"
  obtains s' where "tcp_connect_tries peer_card ip' sport (Suc n) (0 # ts) s = (Some True, s'\<lparr>clks_net_tcp_last_err := CLKS_NET_TCP_ERR_NONE\<rparr>)"
    "linked s'" "recv_waiting (clks_net_tcp (net_dev s')) = recv_waiting d"
proof -
  have f: "clks_net_tcp s = c" "clks_net_ipv4_be s = ip" using s by (simp_all add: host_is_def)
  define iss where "iss = clks_net_tcp_make_iss peer_card ip' sport port (of_nat 0) s"
  let ?c = "c\<lparr>tc_snd_iss := iss, tc_snd_una := iss, tc_snd_nxt := iss + 1, tc_rcv_nxt := 0, tc_stale_ack_seen := False\<rparr>"
  let ?s = "s\<lparr>clks_net_tcp := ?c\<rparr>"
  have cc: "tc_active ?c" "tc_state ?c = TCP_SYN_SENT" "tc_remote_ipv4_be ?c = ip'" "tc_remote_mac ?c = m'" "tc_remote_port ?c = port"
    "tc_local_port ?c = sport" "tc_snd_nxt ?c = iss + 1" "\<not> tc_reset_seen ?c" "\<not> tc_stale_ack_seen ?c" using c by simp_all
  obtain s' s'' where h: "clks_net_send_tcp_segment_raw peer_card ip ip' m' sport port iss 0 CLKS_NET_TCP_FLAG_SYN [] ?s = (True, s')"
    "clks_net_poll_internal peer_card s' = s''" "linked s''" "\<not> tc_stale_ack_seen (clks_net_tcp s'')"
    "recv_waiting (clks_net_tcp (net_dev s'')) = recv_waiting d"
    by (rule handshake [OF host_conn [OF s] p cc d nz])
  have l: "\<not> tc_reset_seen (clks_net_tcp s'')" "tc_state (clks_net_tcp s'') = TCP_ESTABLISHED"
    using h(3) by (simp_all add: linked_def Let_def)
  have "tcp_connect_tries peer_card ip' sport (Suc n) (0 # ts) s = (Some True, s''\<lparr>clks_net_tcp_last_err := CLKS_NET_TCP_ERR_NONE\<rparr>)"
    using c(3-6) h(1,2,4) l by (simp add: Let_def f iss_def)
  from that [OF this h(3,5)] show thesis .
qed

lemma err_dev: "net_dev (s\<lparr>clks_net_tcp_last_err := e\<rparr>) = net_dev s"
  by simp

lemma linked_err: "linked (s\<lparr>clks_net_tcp_last_err := e\<rparr>) = linked s"
  unfolding linked_def Let_def err_dev by simp

lemma host_start:
  "clks_net_hw_ready s \<Longrightarrow> length (clks_net_mac s) = 6 \<Longrightarrow>
    host_is (s\<lparr>clks_net_tcp_last_err := e, clks_net_tcp := c\<rparr>) (clks_net_ipv4_be s) (clks_net_mac s) c (net_dev s)"
  by (simp add: host_is_def)

lemma listen_host:
  assumes "clks_net_tcp_listen port p = (True, p')" "clks_net_hw_ready p" "length (clks_net_mac p) = 6"
  shows "host_is p' (clks_net_ipv4_be p) (clks_net_mac p)
    (zero_conn\<lparr>tc_active := True, tc_state := TCP_LISTEN, tc_local_port := port\<rparr>) (net_dev p)"
  using assms by (auto simp: clks_net_tcp_listen_def tcp_upd_def clks_net_tcp_reset_def Let_def host_is_def split: if_splits)

text \<open>C34.
  Two hosts that run this stack complete the handshake: a connect to a host on the link that listens on
  the port (the client has its hardware address) succeeds in the first try; both ends are then
  established, each the other's remote end, every sequence number agreed (what one side sends next is what
  the other expects next, nothing unacknowledged), no frame left over, no byte in the listener's buffer,
  and the last error is none.\<close>

theorem tcp_connect_establishes:
  assumes "clks_net_available s" "clks_net_tcp_listen port p = (True, net_dev s)" "net_dev p = []" "clks_net_hw_ready p"
    and "clks_net_arp_lookup (clks_net_ipv4_be p) s = Some (clks_net_mac p)"
    and "clks_net_next_hop_for (clks_net_ipv4_be p) s = clks_net_ipv4_be p"
    and "length (clks_net_mac s) = 6" "length (clks_net_mac p) = 6"
    and "clks_net_ipv4_be s \<noteq> 0" "clks_net_ipv4_be p \<noteq> 0" "clks_net_ipv4_be s \<noteq> clks_net_ipv4_be p" "port \<noteq> 0" "sport \<noteq> 0"
  shows "\<exists>s'. clks_net_tcp_connect peer_card (clks_net_ipv4_be p) port sport budget s = (True, s') \<and> linked s' \<and>
    recv_waiting (clks_net_tcp (net_dev s')) = [] \<and> clks_net_tcp_last_error s' = CLKS_NET_TCP_ERR_NONE"
proof -
  let ?ip = "clks_net_ipv4_be s" and ?ip' = "clks_net_ipv4_be p" and ?m = "clks_net_mac s" and ?m' = "clks_net_mac p"
  let ?d = "zero_conn\<lparr>tc_active := True, tc_state := TCP_LISTEN, tc_local_port := port\<rparr>"
  have p: "host_is (net_dev s) ?ip' ?m' ?d []" using listen_host [OF assms(2,4,8)] assms(3) by simp
  have d: "tc_active ?d" "tc_state ?d = TCP_LISTEN" "tc_local_port ?d = port" "recv_ok ?d"
    by (simp_all add: recv_ok_def zero_conn_def CLKS_NET_TCP_RECV_CAP_def)
  define s0 where "s0 = s\<lparr>clks_net_tcp_last_err := CLKS_NET_TCP_ERR_NONE\<rparr>"
  have hop: "clks_net_next_hop_for ip s0 = clks_net_next_hop_for ip s" "clks_net_arp_lookup ip s0 = clks_net_arp_lookup ip s" for ip
    by (simp_all add: s0_def clks_net_next_hop_for_def clks_net_arp_lookup_def)
  have res: "clks_net_resolve_ipv4 peer_card ?ip' k s0 = (Some ?m', s0)" for k
    using assms(5,6,10,11) by (simp add: clks_net_resolve_ipv4_def Let_def hop) (simp add: s0_def)
  have av0: "clks_net_available s0" using assms(1) by (simp add: clks_net_available_def s0_def)
  let ?c = "zero_conn\<lparr>tc_active := True, tc_state := TCP_SYN_SENT, tc_remote_ipv4_be := ?ip', tc_remote_alt_ipv4_be := 0,
      tc_remote_port := port, tc_local_port := sport, tc_remote_mac := ?m'\<rparr>"
  have h: "host_is (s0\<lparr>clks_net_tcp := ?c\<rparr>) ?ip ?m ?c (net_dev s)"
    unfolding s0_def using assms(1,7) by (intro host_start) (simp_all add: clks_net_available_def)
  have c: "tc_active ?c" "tc_state ?c = TCP_SYN_SENT" "tc_remote_ipv4_be ?c = ?ip'" "tc_remote_mac ?c = ?m'" "tc_remote_port ?c = port"
    "tc_local_port ?c = sport" "\<not> tc_reset_seen ?c" by (simp_all add: zero_conn_def)
  have tries: "\<exists>s'. tcp_connect_tries peer_card ?ip' sport b (0 # ts) (s0\<lparr>clks_net_tcp := ?c\<rparr>) =
      (Some True, s'\<lparr>clks_net_tcp_last_err := CLKS_NET_TCP_ERR_NONE\<rparr>) \<and> linked s' \<and> recv_waiting (clks_net_tcp (net_dev s')) = []"
    if "0 < b" for b ts
  proof -
    from that obtain n where b: "b = Suc n" by (cases b) auto
    obtain s' where "tcp_connect_tries peer_card ?ip' sport (Suc n) (0 # ts) (s0\<lparr>clks_net_tcp := ?c\<rparr>) =
        (Some True, s'\<lparr>clks_net_tcp_last_err := CLKS_NET_TCP_ERR_NONE\<rparr>)" "linked s'" "recv_waiting (clks_net_tcp (net_dev s')) = recv_waiting ?d"
      by (rule connect_first_try [OF h p c d assms(12,13,9,10)])
    moreover have "recv_waiting ?d = []" by (simp add: recv_waiting_def zero_conn_def)
    ultimately show ?thesis unfolding b by auto
  qed
  have four: "[0..<CLKS_NET_TCP_RETRY_COUNT] = 0 # [1..<4]" by (simp add: CLKS_NET_TCP_RETRY_COUNT_def upt_rec)
  have reset: "tcp_upd (\<lambda>c. c\<lparr>tc_local_port := sport, tc_remote_mac := ?m'\<rparr>)
      (tcp_upd (\<lambda>c. c\<lparr>tc_active := True, tc_state := TCP_SYN_SENT, tc_remote_ipv4_be := ?ip', tc_remote_alt_ipv4_be := 0, tc_remote_port := port\<rparr>)
        (clks_net_tcp_reset s0)) = s0\<lparr>clks_net_tcp := ?c\<rparr>"
    by (simp add: tcp_upd_def clks_net_tcp_reset_def)
  define q where "q = (if budget = 0 then CLKS_NET_TCP_DEFAULT_POLL_LOOPS
      else if budget < CLKS_NET_TCP_MIN_POLL_LOOPS then CLKS_NET_TCP_MIN_POLL_LOOPS else budget)"
  define b where "b = (if q div CLKS_NET_TCP_RETRY_COUNT < 20000 then 20000 else q div CLKS_NET_TCP_RETRY_COUNT)"
  have "0 < b" by (simp add: b_def)
  from tries [OF this, of "[1..<4]"] obtain s' where t: "tcp_connect_tries peer_card ?ip' sport b (0 # [1..<4]) (s0\<lparr>clks_net_tcp := ?c\<rparr>) =
      (Some True, s'\<lparr>clks_net_tcp_last_err := CLKS_NET_TCP_ERR_NONE\<rparr>)" "linked s'" "recv_waiting (clks_net_tcp (net_dev s')) = []" by blast
  have "clks_net_tcp_connect peer_card ?ip' port sport budget s = (True, s'\<lparr>clks_net_tcp_last_err := CLKS_NET_TCP_ERR_NONE\<rparr>)"
    using av0 assms(6,10,12,13)
    unfolding clks_net_tcp_connect_def Let_def s0_def [symmetric] q_def [symmetric] b_def [symmetric] res four
    by (simp add: hop reset t(1) del: tcp_connect_tries.simps One_nat_def)
  then show ?thesis
    using t(2,3) by (intro exI [of _ "s'\<lparr>clks_net_tcp_last_err := CLKS_NET_TCP_ERR_NONE\<rparr>"])
      (simp add: linked_err err_dev clks_net_tcp_last_error_def)
qed

text \<open>A segment without RST and FIN at an open connection, with the acknowledgement it causes.\<close>

lemma take_ack_more:
  "tc_remote_mac (tcp_take_ack fl a c) = tc_remote_mac c" "tc_reset_seen (tcp_take_ack fl a c) = tc_reset_seen c"
  by (simp_all add: tcp_take_ack_def)

lemma take_data_more:
  assumes "recv_ok c"
  shows "tc_reset_seen (tcp_take_data q data c) = tc_reset_seen c"
  using recv_view_simps [OF recv_fold(3) [OF assms, of data]] by (simp add: tcp_take_data_def)

lemma established_input:
  assumes h: "host_is s ip m c d" and c: "tc_active c" "tc_state c = TCP_ESTABLISHED" "recv_ok c"
    and fl: "fl AND CLKS_NET_TCP_FLAG_RST = 0" "fl AND CLKS_NET_TCP_FLAG_FIN = 0"
    and c': "c' = tcp_take_data q data (tcp_take_ack fl a (c\<lparr>tc_remote_mac := sm\<rparr>))"
    and p: "src = tc_remote_ipv4_be c" "sp = tc_remote_port c" "dp = tc_local_port c"
  shows "tcp_input dv src sm sp dp fl q a data s =
    (if data = [] then s\<lparr>clks_net_tcp := c'\<rparr> else snd (clks_net_send_tcp_ack dv (s\<lparr>clks_net_tcp := c'\<rparr>)))"
proof -
  have f: "clks_net_tcp s = c" using h by (simp add: host_is_def)
  have ok: "recv_ok (tcp_take_ack fl a (c\<lparr>tc_remote_mac := sm\<rparr>))" using c(3) by (simp add: take_ack_fields)
  have st: "tc_state c' = TCP_ESTABLISHED" "tc_active c'"
    using c unfolding c' by (simp_all add: take_data_fields [OF ok] take_ack_fields)
  then have e: "tcp_our_fin (tcp_take_fin fl q' c') = c'" for q' using fl(2) by (simp add: no_fin_fields)
  show ?thesis
  proof (cases "data = []")
    case True
    then have "tcp_take_data q [] (tcp_take_ack fl a (c\<lparr>tc_remote_mac := sm\<rparr>)) = c'" by (simp add: c')
    with True show ?thesis
      unfolding tcp_input_def Let_def f p using c(1,2) fl by (simp add: e)
  next
    case False
    then show ?thesis
      unfolding tcp_input_def Let_def f p using c(1,2) fl st by (simp add: c' [symmetric] e)
  qed
qed

lemma established_input':
  assumes "host_is s ip m c d" "tc_active c" "tc_state c = TCP_ESTABLISHED"
    "fl AND CLKS_NET_TCP_FLAG_RST = 0" "fl AND CLKS_NET_TCP_FLAG_FIN = 0"
    and c': "c' = tcp_take_data q [] (tcp_take_ack fl a (c\<lparr>tc_remote_mac := sm\<rparr>))"
    and "src = tc_remote_ipv4_be c" "sp = tc_remote_port c" "dp = tc_local_port c"
  shows "tcp_input dv src sm sp dp fl q a [] s = s\<lparr>clks_net_tcp := c'\<rparr>"
proof -
  have f: "clks_net_tcp s = c" using assms(1) by (simp add: host_is_def)
  have e: "c' = tcp_take_ack fl a (c\<lparr>tc_remote_mac := sm\<rparr>)" "tcp_take_data q' [] c' = c'" for q'
    unfolding c' by (simp_all add: tcp_take_data_def)
  have "tc_state c' = TCP_ESTABLISHED" using assms(3) unfolding e(1) by (simp add: take_ack_fields)
  then have "tcp_our_fin (tcp_take_fin fl q' c') = c'" for q' using assms(5) by (simp add: no_fin_fields)
  then show ?thesis
    unfolding tcp_input_def Let_def f using assms(2-5,7-) by (simp add: e(1) [symmetric] e(2))
qed

lemma sint_small: "n < 2147483648 \<Longrightarrow> sint (of_nat n :: u32) = int n"
proof -
  assume n: "n < 2147483648"
  then have "uint (of_nat n :: u32) = int n" by (simp add: uint_nat unat_of_nat)
  then show ?thesis using n by (simp add: sint_uint signed_take_bit_int_eq_self)
qed

lemma ack_of_sent:
  assumes "length data \<le> 1200"
  shows "tcp_take_ack 0x10 (q + of_nat (length data)) (c\<lparr>tc_snd_una := q, tc_snd_nxt := q + of_nat (length data)\<rparr>) =
    c\<lparr>tc_snd_una := q + of_nat (length data), tc_snd_nxt := q + of_nat (length data)\<rparr>"
  using assms sint_small [of "length data"]
  by (simp add: tcp_take_ack_def tcp_flags seq_refl) (simp add: clks_net_tcp_seq_ge_def)

text \<open>A chunk between linked hosts: sent, stored by the peer, acknowledged, and the acknowledgement taken.\<close>

lemma linked_hosts:
  assumes "linked s"
  obtains ip m c p ip' m' d where "host_is s ip m c p" "host_is p ip' m' d []" "c = clks_net_tcp s" "p = net_dev s" "d = clks_net_tcp p"
    "tc_active c" "tc_state c = TCP_ESTABLISHED" "tc_active d" "tc_state d = TCP_ESTABLISHED" "\<not> tc_reset_seen c"
    "ip \<noteq> 0" "ip' \<noteq> 0" "tc_remote_ipv4_be c = ip'" "tc_remote_ipv4_be d = ip" "tc_remote_mac c = m'" "tc_remote_mac d = m"
    "tc_remote_port c = tc_local_port d" "tc_remote_port d = tc_local_port c" "tc_local_port c \<noteq> 0" "tc_local_port d \<noteq> 0"
    "tc_snd_una c = tc_snd_nxt c" "tc_rcv_nxt d = tc_snd_nxt c" "tc_snd_una d = tc_snd_nxt d" "tc_rcv_nxt c = tc_snd_nxt d" "recv_ok d"
    "clks_net_ipv4_be s = ip"
  using assms that [of "clks_net_ipv4_be s" "clks_net_mac s" "clks_net_tcp s" "net_dev s" "clks_net_ipv4_be (net_dev s)"
      "clks_net_mac (net_dev s)" "clks_net_tcp (net_dev s)"]
  unfolding linked_def host_is_def Let_def by blast

lemma linkedI:
  assumes "host_is s ip m c p" "host_is p ip' m' d []"
    "tc_active c" "tc_state c = TCP_ESTABLISHED" "tc_active d" "tc_state d = TCP_ESTABLISHED" "\<not> tc_reset_seen c"
    "ip \<noteq> 0" "ip' \<noteq> 0" "tc_remote_ipv4_be c = ip'" "tc_remote_ipv4_be d = ip" "tc_remote_mac c = m'" "tc_remote_mac d = m"
    "tc_remote_port c = tc_local_port d" "tc_remote_port d = tc_local_port c" "tc_local_port c \<noteq> 0" "tc_local_port d \<noteq> 0"
    "tc_snd_una c = tc_snd_nxt c" "tc_rcv_nxt d = tc_snd_nxt c" "tc_snd_una d = tc_snd_nxt d" "tc_rcv_nxt c = tc_snd_nxt d" "recv_ok d"
  shows "linked s"
  using assms by (simp add: linked_def host_is_def Let_def)

lemma chunk_acknowledged:
  assumes l: "linked s" and n: "length chunk \<le> 1200"
    and room: "tc_recv_count (clks_net_tcp (net_dev s)) + length chunk \<le> 65536"
    and q: "q = tc_snd_nxt (clks_net_tcp s)" and s1: "s1 = tcp_upd (\<lambda>c. c\<lparr>tc_snd_nxt := q + of_nat (length chunk)\<rparr>) s"
  shows "\<exists>s2. tcp_send_tries peer_card (Suc b) (Suc k) q chunk s1 = (Some Ev_Done, s2) \<and> linked s2 \<and>
    recv_waiting (clks_net_tcp (net_dev s2)) = recv_waiting (clks_net_tcp (net_dev s)) @ chunk"
proof -
  obtain ip m c p ip' m' d where h: "host_is s ip m c p" "host_is p ip' m' d []" and e: "c = clks_net_tcp s" "p = net_dev s" "d = clks_net_tcp p"
    and c: "tc_active c" "tc_state c = TCP_ESTABLISHED" and d: "tc_active d" "tc_state d = TCP_ESTABLISHED" and rs: "\<not> tc_reset_seen c"
    and nz: "ip \<noteq> 0" "ip' \<noteq> 0" and r: "tc_remote_ipv4_be c = ip'" "tc_remote_ipv4_be d = ip" "tc_remote_mac c = m'" "tc_remote_mac d = m"
    "tc_remote_port c = tc_local_port d" "tc_remote_port d = tc_local_port c" and ports: "tc_local_port c \<noteq> 0" "tc_local_port d \<noteq> 0"
    and seq: "tc_snd_una c = tc_snd_nxt c" "tc_rcv_nxt d = tc_snd_nxt c" "tc_snd_una d = tc_snd_nxt d" "tc_rcv_nxt c = tc_snd_nxt d"
    and ok: "recv_ok d" and ip: "clks_net_ipv4_be s = ip"
    by (rule linked_hosts [OF l])
  have macs: "length m = 6" "length m' = 6" using h by (simp_all add: host_is_def)
  let ?q = "q + of_nat (length chunk)" and ?sp = "tc_local_port c" and ?dp = "tc_local_port d"
  let ?c = "c\<lparr>tc_snd_nxt := ?q\<rparr>"
  have q': "q = tc_snd_nxt c" using q e by simp
  have h1: "host_is s1 ip m ?c p" unfolding s1 tcp_upd_def e(1) [symmetric] by (rule host_conn [OF h(1)])
  have n14: "length chunk \<le> 1400" using n by simp
  from host_send [OF ready_peer h1 ports(1,2) n14 macs(2)] obtain i fr s' where
    snd: "clks_net_send_tcp_segment_raw peer_card ip ip' m' ?sp ?dp q (tc_rcv_nxt c) (CLKS_NET_TCP_FLAG_ACK OR CLKS_NET_TCP_FLAG_PSH) chunk s1 = (True, s')"
      "seg_frame fr ip ip' m' m ?sp ?dp q (tc_rcv_nxt c) (CLKS_NET_TCP_FLAG_ACK OR CLKS_NET_TCP_FLAG_PSH) chunk"
      "host_is s' ip m ?c (nd_tx peer_card i fr p)" by blast
  define p1 where "p1 = nd_tx peer_card i fr p"
  have p1: "p1 = tcp_input quiet_card ip m ?sp ?dp 0x18 q (tc_rcv_nxt c) chunk (clks_net_arp_upsert ip m p)"
    unfolding p1_def peer_nd_tx seg_frame_arrives [OF snd(2) h(2) macs(1) nz(1) n14] flag_words ..
  define d' where "d' = tcp_take_data q chunk (tcp_take_ack 0x18 (tc_rcv_nxt c) (d\<lparr>tc_remote_mac := m\<rparr>))"
  have a: "tcp_take_ack 0x18 (tc_rcv_nxt c) (d\<lparr>tc_remote_mac := m\<rparr>) = d\<lparr>tc_remote_mac := m\<rparr>"
    using seq by (simp add: tcp_take_ack_def)
  have okm: "recv_ok (d\<lparr>tc_remote_mac := m\<rparr>)" using ok by simp
  note f = take_data_fields [OF okm, of q chunk, folded d'_def [unfolded a]]
  have d': "tc_active d'" "tc_state d' = TCP_ESTABLISHED" "tc_remote_ipv4_be d' = ip" "tc_remote_port d' = ?sp" "tc_local_port d' = ?dp"
    "tc_snd_nxt d' = tc_snd_nxt d" "tc_snd_una d' = tc_snd_nxt d" "tc_rcv_nxt d' = ?q" "tc_remote_mac d' = m" "recv_ok d'"
    using f d r seq q' by simp_all
  have w: "recv_waiting d' = recv_waiting d @ chunk"
    using f(1) seq q' room e by (simp add: newest_all CLKS_NET_TCP_RECV_CAP_def)
  have in1: "tcp_input quiet_card ip m ?sp ?dp 0x18 q (tc_rcv_nxt c) chunk (clks_net_arp_upsert ip m p) =
      (if chunk = [] then (clks_net_arp_upsert ip m p)\<lparr>clks_net_tcp := d'\<rparr>
       else snd (clks_net_send_tcp_ack quiet_card ((clks_net_arp_upsert ip m p)\<lparr>clks_net_tcp := d'\<rparr>)))"
    by (rule established_input [OF host_upsert [OF h(2)] d ok _ _ d'_def]) (simp_all add: tcp_flags r)
  let ?c' = "c\<lparr>tc_snd_una := ?q, tc_snd_nxt := ?q\<rparr>"
  have "\<exists>p2. host_is (clks_net_poll_internal peer_card s') ip m ?c' p2 \<and> host_is p2 ip' m' d' []"
  proof (cases "chunk = []")
    case True
    have p1h: "host_is p1 ip' m' d' []" unfolding p1 in1 using True host_conn [OF host_upsert [OF h(2)]] by simp
    then have "net_dev p1 = []" by (simp add: host_is_def)
    from poll_none [OF snd(3) [folded p1_def] this] have "host_is (clks_net_poll_internal peer_card s') ip m ?c p1" .
    moreover have "?c = ?c'" using True seq q' by simp
    ultimately show ?thesis using p1h by auto
  next
    case False
    let ?p = "(clks_net_arp_upsert ip m p)\<lparr>clks_net_tcp := d'\<rparr>"
    have hp: "host_is ?p ip' m' d' []" by (rule host_conn [OF host_upsert [OF h(2)]])
    have nil: "length ([] :: u8 list) \<le> 1400" by simp
    from host_send [OF ready_quiet hp ports(2,1) nil macs(1)] obtain j ack p' where
      ack: "clks_net_send_tcp_segment_raw quiet_card ip' ip m ?dp ?sp (tc_snd_nxt d) ?q CLKS_NET_TCP_FLAG_ACK [] ?p = (True, p')"
        "seg_frame ack ip' ip m m' ?dp ?sp (tc_snd_nxt d) ?q CLKS_NET_TCP_FLAG_ACK []" "host_is p' ip' m' d' (nd_tx quiet_card j ack [])" by blast
    have "clks_net_tcp ?p = d'" "clks_net_ipv4_be ?p = ip'" using hp by (simp_all add: host_is_def)
    then have "clks_net_send_tcp_ack quiet_card ?p = (True, p')"
      unfolding clks_net_send_tcp_ack_def Let_def using d' ack(1) by simp
    then have p1': "p1 = p'" unfolding p1 in1 using False by simp
    have p1h: "host_is p1 ip' m' d' [ack]" using ack(3) unfolding p1' quiet_nd_tx append_Nil .
    define t where "t = clks_net_process_frame peer_card (\<lambda>k. ack ! k) (length ack) s'"
    have t: "t = tcp_input peer_card ip' m' ?dp ?sp 0x10 (tc_snd_nxt d) ?q [] (clks_net_arp_upsert ip' m' s')"
      unfolding t_def seg_frame_arrives [OF ack(2) snd(3) macs(2) nz(2) nil] flag_words ..
    have cc: "?c' = tcp_take_data (tc_snd_nxt d) [] (tcp_take_ack 0x10 ?q (?c\<lparr>tc_remote_mac := m'\<rparr>))"
    proof -
      have "?c\<lparr>tc_remote_mac := m'\<rparr> = c\<lparr>tc_snd_una := q, tc_snd_nxt := ?q\<rparr>" using r(3) seq(1) q' by simp
      then show ?thesis using ack_of_sent [OF n, of q c] by (simp add: tcp_take_data_def)
    qed
    have ts: "tcp_input peer_card ip' m' ?dp ?sp 0x10 (tc_snd_nxt d) ?q [] (clks_net_arp_upsert ip' m' s') =
        (clks_net_arp_upsert ip' m' s')\<lparr>clks_net_tcp := ?c'\<rparr>"
      by (subst established_input' [OF host_upsert [OF snd(3)] _ _ _ _ cc]) (simp_all add: tcp_flags r c)
    have th: "host_is t ip m ?c' p1" unfolding t ts p1_def by (rule host_conn [OF host_upsert [OF snd(3)]])
    have "net_dev p1 = [ack]" using p1h by (simp add: host_is_def)
    from poll_one [OF snd(3) [folded p1_def] this seg_frame_length [OF ack(2) macs nil] th [unfolded t_def] this]
    have "host_is (clks_net_poll_internal peer_card s') ip m ?c' (p1\<lparr>net_dev := []\<rparr>)" .
    moreover have "host_is (p1\<lparr>net_dev := []\<rparr>) ip' m' d' []" using p1h by (simp add: host_is_def)
    ultimately show ?thesis by blast
  qed
  then obtain p2 where p2: "host_is (clks_net_poll_internal peer_card s') ip m ?c' p2" "host_is p2 ip' m' d' []" by blast
  let ?s2 = "clks_net_poll_internal peer_card s'"
  have lk: "linked ?s2"
    by (rule linkedI [OF p2]) (simp_all add: c d' rs nz r ports seq q')
  have fields: "clks_net_tcp ?s2 = ?c'" "net_dev ?s2 = p2" "clks_net_tcp p2 = d'" using p2 by (simp_all add: host_is_def)
  have s1f: "clks_net_tcp s1 = ?c" "clks_net_ipv4_be s1 = ip" using h1 by (simp_all add: host_is_def)
  have "tcp_send_tries peer_card (Suc b) (Suc k) q chunk s1 = (Some Ev_Done, ?s2)"
    using snd(1) r rs by (simp add: s1f fields seq_refl Let_def)
  moreover have "recv_waiting (clks_net_tcp (net_dev ?s2)) = recv_waiting (clks_net_tcp (net_dev s)) @ chunk"
    unfolding fields w e(2,3) ..
  ultimately show ?thesis using lk by blast
qed

section \<open>Sending a stream\<close>

text \<open>One round of the send loop, with the budget of a try named; it is never zero.\<close>

lemma send_loop_round:
  assumes "done < length payload"
  obtains p where "tcp_send_loop dv payload b done s =
    (let k = min 1200 ((length payload - done) mod 65536); q = tc_snd_nxt (clks_net_tcp s) in
     case tcp_send_tries dv (Suc p) 4 q (take k (drop done payload)) (tcp_upd (\<lambda>c. c\<lparr>tc_snd_nxt := q + of_nat k\<rparr>) s) of
       (None, s2) \<Rightarrow> Some (done, s2)
     | (Some e, s2) \<Rightarrow> if e = Ev_Reset then Some (done, clks_net_tcp_reset s2) else tcp_send_loop dv payload b (done + k) s2)"
proof -
  define t where "t = (if b div CLKS_NET_TCP_RETRY_COUNT < 10000 then 10000 else b div CLKS_NET_TCP_RETRY_COUNT)"
  have "0 < t" by (simp add: t_def)
  then obtain p where p: "t = Suc p" by (cases t) auto
  have k: "(if n > CLKS_NET_TCP_SEND_MAX_SEGMENT then CLKS_NET_TCP_SEND_MAX_SEGMENT else n) = min 1200 n" for n
    by (simp add: CLKS_NET_TCP_SEND_MAX_SEGMENT_def)
  show thesis
  proof (rule that [of p])
    show "tcp_send_loop dv payload b done s =
      (let k = min 1200 ((length payload - done) mod 65536); q = tc_snd_nxt (clks_net_tcp s) in
       case tcp_send_tries dv (Suc p) 4 q (take k (drop done payload)) (tcp_upd (\<lambda>c. c\<lparr>tc_snd_nxt := q + of_nat k\<rparr>) s) of
         (None, s2) \<Rightarrow> Some (done, s2)
       | (Some e, s2) \<Rightarrow> if e = Ev_Reset then Some (done, clks_net_tcp_reset s2) else tcp_send_loop dv payload b (done + k) s2)"
      by (subst tcp_send_loop.simps, unfold t_def [symmetric] p k)
        (use assms in \<open>simp only: Let_def if_True CLKS_NET_TCP_RETRY_COUNT_def\<close>)
  qed
qed

lemma send_loop_end: "length payload \<le> done \<Longrightarrow> tcp_send_loop dv payload b done s = Some (done, s)"
  by (subst tcp_send_loop.simps) simp

lemma send_loop_returns:
  "length payload - done < 65536 \<Longrightarrow> done \<le> length payload \<Longrightarrow>
    \<exists>n s'. tcp_send_loop dv payload b done s = Some (n, s') \<and> n \<le> length payload"
proof (induction "length payload - done" arbitrary: "done" s rule: less_induct)
  case less
  show ?case
  proof (cases "done < length payload")
    case False
    then show ?thesis using less.prems by (simp add: send_loop_end)
  next
    case True
    define k where "k = min 1200 ((length payload - done) mod 65536)"
    have k: "0 < k" "k \<le> length payload - done" using True less.prems by (simp_all add: k_def)
    obtain p where p: "tcp_send_loop dv payload b done s =
      (let q = tc_snd_nxt (clks_net_tcp s) in
       case tcp_send_tries dv (Suc p) 4 q (take k (drop done payload)) (tcp_upd (\<lambda>c. c\<lparr>tc_snd_nxt := q + of_nat k\<rparr>) s) of
         (None, s2) \<Rightarrow> Some (done, s2)
       | (Some e, s2) \<Rightarrow> if e = Ev_Reset then Some (done, clks_net_tcp_reset s2) else tcp_send_loop dv payload b (done + k) s2)"
      using send_loop_round [OF True, of dv b s] unfolding k_def Let_def by blast
    have "\<exists>n s'. tcp_send_loop dv payload b (done + k) s2 = Some (n, s') \<and> n \<le> length payload" for s2
      by (rule less.hyps) (use k True less.prems in auto)
    with less.prems show ?thesis
      unfolding p Let_def by (auto split: prod.split option.split)
  qed
qed

lemma send_loop_linked:
  assumes "linked s" "done \<le> length payload" "length payload - done < 65536"
    and "tc_recv_count (clks_net_tcp (net_dev s)) + (length payload - done) \<le> 65536"
  shows "\<exists>s'. tcp_send_loop peer_card payload b done s = Some (length payload, s') \<and> linked s' \<and>
    recv_waiting (clks_net_tcp (net_dev s')) = recv_waiting (clks_net_tcp (net_dev s)) @ drop done payload"
  using assms
proof (induction "length payload - done" arbitrary: "done" s rule: less_induct)
  case less
  show ?case
  proof (cases "done < length payload")
    case False
    then show ?thesis using less.prems by (simp add: send_loop_end)
  next
    case True
    define k where "k = min 1200 ((length payload - done) mod 65536)"
    define q where "q = tc_snd_nxt (clks_net_tcp s)"
    have k: "0 < k" "k \<le> length payload - done" "k \<le> 1200" using True less.prems by (simp_all add: k_def)
    let ?chunk = "take k (drop done payload)"
    have len: "length ?chunk = k" using k by simp
    obtain p where p: "tcp_send_loop peer_card payload b done s =
       (case tcp_send_tries peer_card (Suc p) 4 q ?chunk (tcp_upd (\<lambda>c. c\<lparr>tc_snd_nxt := q + of_nat k\<rparr>) s) of
         (None, s2) \<Rightarrow> Some (done, s2)
       | (Some e, s2) \<Rightarrow> if e = Ev_Reset then Some (done, clks_net_tcp_reset s2)
                        else tcp_send_loop peer_card payload b (done + k) s2)"
      using send_loop_round [OF True, of peer_card b s] unfolding k_def q_def Let_def by blast
    have "\<exists>s2. tcp_send_tries peer_card (Suc p) (Suc 3) q ?chunk (tcp_upd (\<lambda>c. c\<lparr>tc_snd_nxt := q + of_nat (length ?chunk)\<rparr>) s) =
        (Some Ev_Done, s2) \<and> linked s2 \<and>
        recv_waiting (clks_net_tcp (net_dev s2)) = recv_waiting (clks_net_tcp (net_dev s)) @ ?chunk"
      by (rule chunk_acknowledged [OF less.prems(1) _ _ q_def refl]) (use k less.prems(4) in \<open>unfold len, auto\<close>)
    then obtain s2 where s2: "tcp_send_tries peer_card (Suc p) 4 q ?chunk (tcp_upd (\<lambda>c. c\<lparr>tc_snd_nxt := q + of_nat k\<rparr>) s) = (Some Ev_Done, s2)"
      "linked s2" "recv_waiting (clks_net_tcp (net_dev s2)) = recv_waiting (clks_net_tcp (net_dev s)) @ ?chunk"
      unfolding len by (auto simp: eval_nat_numeral)
    have "tc_recv_count (clks_net_tcp (net_dev s2)) = tc_recv_count (clks_net_tcp (net_dev s)) + k"
      using arg_cong [OF s2(3), of length] len by simp
    then have "\<exists>s'. tcp_send_loop peer_card payload b (done + k) s2 = Some (length payload, s') \<and> linked s' \<and>
        recv_waiting (clks_net_tcp (net_dev s')) = recv_waiting (clks_net_tcp (net_dev s2)) @ drop (done + k) payload"
      by (intro less.hyps) (use k True less.prems s2(2) in auto)
    moreover have "?chunk @ drop (done + k) payload = drop done payload"
      using append_take_drop_id [of k "drop done payload"] by (simp add: add.commute)
    ultimately show ?thesis unfolding p by (auto simp: s2)
  qed
qed

text \<open>A payload of 65536 bytes: the length of the first chunk, a 16-bit number, is zero in every round.\<close>

lemma send_loop_64k:
  fixes dv :: "u8 list list net_state net_device"
  assumes "tcp_send_loop dv payload b done s = Some r"
  shows "dv = peer_card \<longrightarrow> done = 0 \<longrightarrow> length payload = 65536 \<longrightarrow> \<not> linked s"
  using assms
proof (induction dv payload b "done" s r rule: tcp_send_loop.raw_induct [rotated, consumes 1, case_names step])
  case (step f dv payload b "done" s r)
  show ?case
  proof (intro impI notI)
    assume dv: "dv = peer_card" and d: "done = 0" and len: "length payload = 65536" and l: "linked s"
    define m where "m = (length payload - done) mod 65536"
    define k where "k = (if m > CLKS_NET_TCP_SEND_MAX_SEGMENT then CLKS_NET_TCP_SEND_MAX_SEGMENT else m)"
    define q where "q = tc_snd_nxt (clks_net_tcp s)"
    define s1 where "s1 = tcp_upd (\<lambda>c. c\<lparr>tc_snd_nxt := q + of_nat k\<rparr>) s"
    define t where "t = (if b div CLKS_NET_TCP_RETRY_COUNT < 10000 then 10000 else b div CLKS_NET_TCP_RETRY_COUNT)"
    have k: "k = 0" using len d by (simp add: k_def m_def)
    have "0 < t" by (simp add: t_def)
    then obtain p where p: "t = Suc p" by (cases t) auto
    have room: "tc_recv_count (clks_net_tcp (net_dev s)) + length ([] :: u8 list) \<le> 65536"
      using l by (simp add: linked_def Let_def recv_ok_def CLKS_NET_TCP_RECV_CAP_def)
    from chunk_acknowledged [OF l _ room q_def, of s1 p 3] obtain s2 where
      s2: "tcp_send_tries dv t CLKS_NET_TCP_RETRY_COUNT q (take k (drop done payload)) s1 = (Some Ev_Done, s2)" "linked s2"
      by (auto simp: s1_def k dv p CLKS_NET_TCP_RETRY_COUNT_def eval_nat_numeral)
    have "done < length payload" using d len by simp
    then have "f dv payload b (done + k) s2 = Some r"
      using step.hyps
      unfolding Let_def m_def [symmetric] k_def [symmetric] q_def [symmetric] s1_def [symmetric] t_def [symmetric] s2(1) by simp
    from step.IH [OF this] s2(2) dv d k len show False by simp
  qed
qed


text \<open>Two hosts with a connection, for the examples.\<close>

definition host_over :: "'d \<Rightarrow> u32 \<Rightarrow> u8 list \<Rightarrow> clks_net_tcp_conn \<Rightarrow> 'd net_state" where
  "host_over d ip mac c = (net_boot d)\<lparr>clks_net_ready := True, clks_net_hw_ready := True, clks_net_ipv4_be := ip,
     clks_net_netmask_be := 0xFFFFFF00, clks_net_mac := mac, clks_net_tcp := c\<rparr>"

lemma host_over_fields [simp]:
  "clks_net_ready (host_over d ip mac c)" "clks_net_hw_ready (host_over d ip mac c)" "clks_net_ipv4_be (host_over d ip mac c) = ip"
  "clks_net_netmask_be (host_over d ip mac c) = 0xFFFFFF00" "clks_net_mac (host_over d ip mac c) = mac"
  "net_dev (host_over d ip mac c) = d" "clks_net_tcp (host_over d ip mac c) = c"
  "clks_net_arp_table (host_over d ip mac c) = clks_net_arp_table (net_boot d)"
  by (simp_all add: host_over_def net_boot_def)

definition open_end :: "u32 \<Rightarrow> u8 list \<Rightarrow> u16 \<Rightarrow> u16 \<Rightarrow> clks_net_tcp_conn" where
  "open_end ip mac port lport = zero_conn\<lparr>tc_active := True, tc_state := TCP_ESTABLISHED, tc_remote_ipv4_be := ip,
     tc_remote_mac := mac, tc_remote_port := port, tc_local_port := lport\<rparr>"

definition two_hosts :: "u8 list list net_state net_state" where
  "two_hosts = host_over (host_over [] 0x0A000202 [2, 0, 0, 0, 0, 2] (open_end 0x0A000201 [2, 0, 0, 0, 0, 1] 5000 80))
     0x0A000201 [2, 0, 0, 0, 0, 1] (open_end 0x0A000202 [2, 0, 0, 0, 0, 2] 80 5000)"

lemma two_hosts_linked: "linked two_hosts"
  by (simp add: linked_def two_hosts_def Let_def open_end_def zero_conn_def recv_ok_def CLKS_NET_TCP_RECV_CAP_def)

lemma two_hosts_empty: "recv_waiting (clks_net_tcp (net_dev two_hosts)) = []"
  by (simp add: two_hosts_def open_end_def zero_conn_def recv_waiting_def)


text \<open>C36.
  A send of fewer than 65536 bytes returns, whatever the card, the network and the connection do: its
  loop over the chunks ends, with at most the length of the payload as the result.\<close>

theorem tcp_send_returns:
  assumes "length payload < 65536"
  shows "\<exists>n s'. clks_net_tcp_send dv (Some payload) budget s = Some (n, s') \<and> n \<le> length payload"
  using send_loop_returns [of payload 0 dv _ s] assms by (auto simp: clks_net_tcp_send_def Let_def)

theorem tcp_send_returns_witness:
  "\<exists>n s'. clks_net_tcp_send peer_card (Some [1, 2, 3]) 0 two_hosts = Some (n, s') \<and> n \<le> 3"
  using tcp_send_returns [of "[1, 2, 3]" peer_card 0 two_hosts] by (simp add: numeral_3_eq_3)

text \<open>C37.
  A send of exactly 65536 bytes, the largest the system call passes on, never returns while the peer
  acknowledges: the length of the first chunk is computed as a 16-bit number and is zero, an empty segment
  counts as acknowledged at once, and the loop goes round without progress.\<close>

theorem tcp_send_64k_never_returns:
  assumes "linked s" "length payload = 65536"
  shows "clks_net_tcp_send peer_card (Some payload) budget s = None"
proof -
  have "tc_active (clks_net_tcp s)" "tc_state (clks_net_tcp s) = TCP_ESTABLISHED" using assms(1) by (simp_all add: linked_def Let_def)
  moreover have "tcp_send_loop peer_card payload b 0 s = None" for b
    using send_loop_64k [of peer_card payload b 0 s] assms by (cases "tcp_send_loop peer_card payload b 0 s") auto
  ultimately show ?thesis using assms(2) by (auto simp: clks_net_tcp_send_def)
qed

theorem tcp_send_64k_never_returns_witness:
  "clks_net_tcp_send peer_card (Some (replicate 65536 7)) 0 two_hosts = None"
  by (rule tcp_send_64k_never_returns [OF two_hosts_linked]) (simp only: length_replicate)

lemma arp_dev: "net_dev (s\<lparr>clks_net_arp_table := t, clks_net_arp_stamp := k\<rparr>) = net_dev s"
  by simp

definition listening_pair :: "u8 list list net_state net_state" where
  "listening_pair = clks_net_arp_upsert 0x0A000202 [2, 0, 0, 0, 0, 2]
     (host_over (snd (clks_net_tcp_listen 80 (host_over [] 0x0A000202 [2, 0, 0, 0, 0, 2] zero_conn)))
        0x0A000201 [2, 0, 0, 0, 0, 1] zero_conn)"

theorem tcp_connect_establishes_witness:
  "\<exists>s'. clks_net_tcp_connect peer_card 0x0A000202 80 5000 0 listening_pair = (True, s') \<and> linked s'"
proof -
  let ?ma = "[2, 0, 0, 0, 0, 1] :: u8 list" and ?mb = "[2, 0, 0, 0, 0, 2] :: u8 list"
  define p :: "u8 list list net_state" where "p = host_over [] 0x0A000202 ?mb zero_conn"
  define s0 where "s0 = host_over (snd (clks_net_tcp_listen 80 p)) 0x0A000201 ?ma zero_conn"
  have s: "listening_pair = clks_net_arp_upsert 0x0A000202 ?mb s0" by (simp add: listening_pair_def s0_def p_def)
  have six: "[0..<6] = [0, 1, 2, 3, 4, 5]" by (simp add: upt_rec)
  have mac: "\<not> clks_net_mac_invalid ?mb" by (simp add: clks_net_mac_invalid_def six)
  have ar: "arp_ok (clks_net_arp_table s0)" by (simp add: s0_def net_boot_def arp_ok_def zero_arp_entry_def)
  have look: "clks_net_arp_lookup 0x0A000202 listening_pair = Some ?mb" unfolding s by (rule arp_upsert_lookup [OF ar _ mac]) simp
  obtain t k where "clks_net_arp_upsert 0x0A000202 ?mb s0 = s0\<lparr>clks_net_arp_table := t, clks_net_arp_stamp := k\<rparr>"
    by (rule arp_upsert_cases [where s = s0 and ip = "0x0A000202", OF ar _ mac]) (simp, rule that)
  with s have a: "listening_pair = s0\<lparr>clks_net_arp_table := t, clks_net_arp_stamp := k\<rparr>" by simp
  have listen: "clks_net_tcp_listen 80 p = (True, snd (clks_net_tcp_listen 80 p))"
    by (simp add: clks_net_tcp_listen_def Let_def clks_net_available_def p_def)
  have f: "net_dev listening_pair = snd (clks_net_tcp_listen 80 p)" "clks_net_available listening_pair" "clks_net_mac listening_pair = ?ma"
    "clks_net_ipv4_be listening_pair = 0x0A000201" "clks_net_next_hop_for 0x0A000202 listening_pair = 0x0A000202"
    unfolding a s0_def arp_dev by (simp_all add: clks_net_available_def clks_net_next_hop_for_def)
  have pf: "net_dev p = []" "clks_net_hw_ready p" "clks_net_ipv4_be p = 0x0A000202" "clks_net_mac p = ?mb" by (simp_all add: p_def)
  from tcp_connect_establishes [of listening_pair 80 p 5000 0] show ?thesis
    unfolding f(1,3-) pf(1,3-) look using listen f(2) pf(2) by auto
qed
end
