(* ===== verification/Clks_Keyboard.thy ===== *)
theory Clks_Keyboard
  imports Clks_Ring
begin

text \<open>
  The queues of the keyboard, \<open>kernel/input/keyboard.c\<close>: one ring of 256 characters per terminal, the
  modifier keys, and the translation of scan codes. The number of terminals, which the terminal layer
  tells, is an argument. The handler of scan codes, which calls the input method as well, is in
  \<open>Clks_Input\<close>. Log output is left out.
\<close>

section \<open>Constants and tables\<close>

definition CLKS_SC_ESC :: u8 where "CLKS_SC_ESC = 0x01"
definition CLKS_SC_ALT :: u8 where "CLKS_SC_ALT = 0x38"
definition CLKS_SC_LSHIFT :: u8 where "CLKS_SC_LSHIFT = 0x2A"
definition CLKS_SC_RSHIFT :: u8 where "CLKS_SC_RSHIFT = 0x36"
definition CLKS_SC_CTRL :: u8 where "CLKS_SC_CTRL = 0x1D"
definition CLKS_SC_F1 :: u8 where "CLKS_SC_F1 = 0x3B"
definition CLKS_SC_F4 :: u8 where "CLKS_SC_F4 = 0x3E"
definition CLKS_SC_R :: u8 where "CLKS_SC_R = 0x13"
definition CLKS_SC_E :: u8 where "CLKS_SC_E = 0x12"
definition CLKS_SC_U :: u8 where "CLKS_SC_U = 0x16"
definition CLKS_SC_K :: u8 where "CLKS_SC_K = 0x25"
definition CLKS_SC_W :: u8 where "CLKS_SC_W = 0x11"
definition CLKS_SC_L :: u8 where "CLKS_SC_L = 0x26"
definition CLKS_SC_D :: u8 where "CLKS_SC_D = 0x20"
definition CLKS_SC_C :: u8 where "CLKS_SC_C = 0x2E"
definition CLKS_SC_SPACE :: u8 where "CLKS_SC_SPACE = 0x39"
definition CLKS_SC_EXT_PREFIX :: u8 where "CLKS_SC_EXT_PREFIX = 0xE0"
definition CLKS_SC_EXT_HOME :: u8 where "CLKS_SC_EXT_HOME = 0x47"
definition CLKS_SC_EXT_UP :: u8 where "CLKS_SC_EXT_UP = 0x48"
definition CLKS_SC_EXT_LEFT :: u8 where "CLKS_SC_EXT_LEFT = 0x4B"
definition CLKS_SC_EXT_RIGHT :: u8 where "CLKS_SC_EXT_RIGHT = 0x4D"
definition CLKS_SC_EXT_END :: u8 where "CLKS_SC_EXT_END = 0x4F"
definition CLKS_SC_EXT_DOWN :: u8 where "CLKS_SC_EXT_DOWN = 0x50"
definition CLKS_SC_EXT_PAGEUP :: u8 where "CLKS_SC_EXT_PAGEUP = 0x49"
definition CLKS_SC_EXT_PAGEDOWN :: u8 where "CLKS_SC_EXT_PAGEDOWN = 0x51"
definition CLKS_SC_EXT_DELETE :: u8 where "CLKS_SC_EXT_DELETE = 0x53"

lemmas scan_codes = CLKS_SC_ESC_def CLKS_SC_ALT_def CLKS_SC_LSHIFT_def CLKS_SC_RSHIFT_def CLKS_SC_CTRL_def CLKS_SC_F1_def
  CLKS_SC_F4_def CLKS_SC_R_def CLKS_SC_E_def CLKS_SC_U_def CLKS_SC_K_def CLKS_SC_W_def CLKS_SC_L_def CLKS_SC_D_def
  CLKS_SC_C_def CLKS_SC_SPACE_def CLKS_SC_EXT_PREFIX_def

definition CLKS_KBD_INPUT_CAP :: nat where "CLKS_KBD_INPUT_CAP = 256"
definition CLKS_KBD_TTY_MAX :: nat where "CLKS_KBD_TTY_MAX = 8"
definition CLKS_CFG_KBD_TTY_SWITCH_HOTKEY :: bool where "CLKS_CFG_KBD_TTY_SWITCH_HOTKEY = True"
definition CLKS_CFG_KBD_CTRL_SHORTCUTS :: bool where "CLKS_CFG_KBD_CTRL_SHORTCUTS = True"
definition CLKS_CFG_KBD_FORCE_STOP_HOTKEY :: bool where "CLKS_CFG_KBD_FORCE_STOP_HOTKEY = True"

text \<open>The characters of keys that have none (\<open>include/clks/keyboard.h\<close>).\<close>

definition CLKS_KEY_LEFT :: char where "CLKS_KEY_LEFT = CHR 0x01"
definition CLKS_KEY_RIGHT :: char where "CLKS_KEY_RIGHT = CHR 0x02"
definition CLKS_KEY_UP :: char where "CLKS_KEY_UP = CHR 0x03"
definition CLKS_KEY_DOWN :: char where "CLKS_KEY_DOWN = CHR 0x04"
definition CLKS_KEY_HOME :: char where "CLKS_KEY_HOME = CHR 0x05"
definition CLKS_KEY_END :: char where "CLKS_KEY_END = CHR 0x06"
definition CLKS_KEY_DELETE :: char where "CLKS_KEY_DELETE = CHR 0x07"
definition CLKS_KEY_COPY :: char where "CLKS_KEY_COPY = CHR 0x11"
definition CLKS_KEY_PASTE :: char where "CLKS_KEY_PASTE = CHR 0x12"
definition CLKS_KEY_SHIFT_LEFT :: char where "CLKS_KEY_SHIFT_LEFT = CHR 0x13"
definition CLKS_KEY_SHIFT_RIGHT :: char where "CLKS_KEY_SHIFT_RIGHT = CHR 0x14"
definition CLKS_KEY_SHIFT_HOME :: char where "CLKS_KEY_SHIFT_HOME = CHR 0x15"
definition CLKS_KEY_SHIFT_END :: char where "CLKS_KEY_SHIFT_END = CHR 0x16"
definition CLKS_KEY_REVERSE_SEARCH :: char where "CLKS_KEY_REVERSE_SEARCH = CHR 0x17"
definition CLKS_KEY_LINE_START :: char where "CLKS_KEY_LINE_START = CHR 0x18"
definition CLKS_KEY_LINE_END :: char where "CLKS_KEY_LINE_END = CHR 0x19"
definition CLKS_KEY_KILL_BEFORE :: char where "CLKS_KEY_KILL_BEFORE = CHR 0x1A"
definition CLKS_KEY_KILL_AFTER :: char where "CLKS_KEY_KILL_AFTER = CHR 0x1C"
definition CLKS_KEY_KILL_WORD_BEFORE :: char where "CLKS_KEY_KILL_WORD_BEFORE = CHR 0x1D"
definition CLKS_KEY_CLEAR_SCREEN :: char where "CLKS_KEY_CLEAR_SCREEN = CHR 0x1E"
definition CLKS_KEY_EOF_OR_DELETE :: char where "CLKS_KEY_EOF_OR_DELETE = CHR 0x1F"

text \<open>The two tables of 128 characters; \<open>CHR 0x00\<close> where a code has no character.\<close>

definition clks_kbd_map :: string where
  "clks_kbd_map = replicate 2 (CHR 0x00) @ ''1234567890-='' @ [CHR 0x08, CHR 0x09] @ ''qwertyuiop[]'' @ [CHR 0x0A, CHR 0x00] @
     ''asdfghjkl;'' @ [CHR 0x27, CHR 0x60, CHR 0x00, CHR 0x5C] @ ''zxcvbnm,./'' @ replicate 3 (CHR 0x00) @ [CHR 0x20] @
     replicate 70 (CHR 0x00)"

definition clks_kbd_shift_map :: string where
  "clks_kbd_shift_map = replicate 2 (CHR 0x00) @ ''!@#$%^&*()_+'' @ [CHR 0x08, CHR 0x09] @ ''QWERTYUIOP{}'' @ [CHR 0x0A, CHR 0x00] @
     ''ASDFGHJKL:'' @ [CHR 0x22, CHR 0x7E, CHR 0x00, CHR 0x7C] @ ''ZXCVBNM<>?'' @ replicate 3 (CHR 0x00) @ [CHR 0x20] @
     replicate 70 (CHR 0x00)"

section \<open>State\<close>

record kbd_state =
  clks_kbd_input_queue :: "nat \<Rightarrow> nat \<Rightarrow> char"
  clks_kbd_input_head :: "nat \<Rightarrow> nat"
  clks_kbd_input_tail :: "nat \<Rightarrow> nat"
  clks_kbd_input_count :: "nat \<Rightarrow> nat"
  clks_kbd_alt_down :: bool
  clks_kbd_lshift_down :: bool
  clks_kbd_rshift_down :: bool
  clks_kbd_lctrl_down :: bool
  clks_kbd_rctrl_down :: bool
  clks_kbd_e0_prefix :: bool
  clks_kbd_force_stop_latch :: bool
  clks_kbd_input_ready :: bool
  clks_kbd_hotkey_switches :: u64
  clks_kbd_push_count :: u64
  clks_kbd_pop_count :: u64
  clks_kbd_drop_count :: u64

section \<open>Operations\<close>

text \<open>The argument is \<open>clks_tty_count()\<close>.\<close>

definition clks_keyboard_effective_tty_count :: "nat \<Rightarrow> nat" where
  "clks_keyboard_effective_tty_count tty_count =
     (if tty_count = 0 then 1 else if tty_count > CLKS_KBD_TTY_MAX then CLKS_KBD_TTY_MAX else tty_count)"

definition clks_keyboard_clamp_tty_index :: "nat \<Rightarrow> nat \<Rightarrow> nat" where
  "clks_keyboard_clamp_tty_index tty_count tty_index =
     (if tty_index \<ge> clks_keyboard_effective_tty_count tty_count then 0 else tty_index)"

definition clks_keyboard_shift_active :: "kbd_state \<Rightarrow> bool" where
  "clks_keyboard_shift_active k \<longleftrightarrow> clks_kbd_lshift_down k \<or> clks_kbd_rshift_down k"

definition clks_keyboard_translate_ext_scancode :: "u8 \<Rightarrow> kbd_state \<Rightarrow> char" where
  "clks_keyboard_translate_ext_scancode code k =
     (let shift_active = clks_keyboard_shift_active k in
      if code = CLKS_SC_EXT_LEFT then if shift_active then CLKS_KEY_SHIFT_LEFT else CLKS_KEY_LEFT
      else if code = CLKS_SC_EXT_RIGHT then if shift_active then CLKS_KEY_SHIFT_RIGHT else CLKS_KEY_RIGHT
      else if code = CLKS_SC_EXT_UP then CLKS_KEY_UP
      else if code = CLKS_SC_EXT_DOWN then CLKS_KEY_DOWN
      else if code = CLKS_SC_EXT_HOME then if shift_active then CLKS_KEY_SHIFT_HOME else CLKS_KEY_HOME
      else if code = CLKS_SC_EXT_END then if shift_active then CLKS_KEY_SHIFT_END else CLKS_KEY_END
      else if code = CLKS_SC_EXT_DELETE then CLKS_KEY_DELETE
      else CHR 0x00)"

definition clks_keyboard_queue_push_for_tty :: "nat \<Rightarrow> nat \<Rightarrow> char \<Rightarrow> kbd_state \<Rightarrow> bool \<times> kbd_state" where
  "clks_keyboard_queue_push_for_tty tty_count tty_index ch k =
     (let tty = clks_keyboard_clamp_tty_index tty_count tty_index in
      if clks_kbd_input_count k tty \<ge> CLKS_KBD_INPUT_CAP then (False, k\<lparr>clks_kbd_drop_count := clks_kbd_drop_count k + 1\<rparr>)
      else
        (True, k\<lparr>clks_kbd_input_queue := (clks_kbd_input_queue k)
                   (tty := (clks_kbd_input_queue k tty)(clks_kbd_input_head k tty := ch)),
                 clks_kbd_input_head := (clks_kbd_input_head k)
                   (tty := (clks_kbd_input_head k tty + 1) mod CLKS_KBD_INPUT_CAP),
                 clks_kbd_input_count := (clks_kbd_input_count k)(tty := clks_kbd_input_count k tty + 1),
                 clks_kbd_push_count := clks_kbd_push_count k + 1\<rparr>))"

definition clks_keyboard_inject_char_for_tty :: "nat \<Rightarrow> nat \<Rightarrow> char \<Rightarrow> kbd_state \<Rightarrow> bool \<times> kbd_state" where
  "clks_keyboard_inject_char_for_tty = clks_keyboard_queue_push_for_tty"

fun inject_loop :: "nat \<Rightarrow> nat \<Rightarrow> string \<Rightarrow> kbd_state \<Rightarrow> bool \<times> kbd_state" where
  "inject_loop tty_count tty_index [] k = (True, k)"
| "inject_loop tty_count tty_index (c # text) k =
     (case clks_keyboard_queue_push_for_tty tty_count tty_index c k of (ok, k1) \<Rightarrow>
        if ok then inject_loop tty_count tty_index text k1 else (False, k1))"

definition clks_keyboard_inject_text_for_tty :: "nat \<Rightarrow> nat \<Rightarrow> string option \<Rightarrow> kbd_state \<Rightarrow> bool \<times> kbd_state" where
  "clks_keyboard_inject_text_for_tty tty_count tty_index text k =
     (case text of None \<Rightarrow> (False, k) | Some t \<Rightarrow> inject_loop tty_count tty_index t k)"

definition clks_keyboard_translate_scancode :: "u8 \<Rightarrow> kbd_state \<Rightarrow> char" where
  "clks_keyboard_translate_scancode code k =
     (if clks_keyboard_shift_active k then clks_kbd_shift_map ! unat code else clks_kbd_map ! unat code)"

definition clks_keyboard_ctrl_active :: "kbd_state \<Rightarrow> bool" where
  "clks_keyboard_ctrl_active k \<longleftrightarrow> clks_kbd_lctrl_down k \<or> clks_kbd_rctrl_down k"

definition clks_keyboard_reset_modifier_state :: "kbd_state \<Rightarrow> kbd_state" where
  "clks_keyboard_reset_modifier_state k =
     k\<lparr>clks_kbd_alt_down := False, clks_kbd_lshift_down := False, clks_kbd_rshift_down := False,
       clks_kbd_lctrl_down := False, clks_kbd_rctrl_down := False, clks_kbd_e0_prefix := False,
       clks_kbd_force_stop_latch := False\<rparr>"

text \<open>The \<open>switch\<close> over the shortcuts; \<open>None\<close> is its default.\<close>

definition ctrl_shortcut :: "u8 \<Rightarrow> char option" where
  "ctrl_shortcut code =
     (if code = 0x1E then Some CLKS_KEY_LINE_START
      else if code = 0x2E then Some CLKS_KEY_COPY
      else if code = 0x2F then Some CLKS_KEY_PASTE
      else if code = CLKS_SC_R then Some CLKS_KEY_REVERSE_SEARCH
      else if code = CLKS_SC_E then Some CLKS_KEY_LINE_END
      else if code = CLKS_SC_U then Some CLKS_KEY_KILL_BEFORE
      else if code = CLKS_SC_K then Some CLKS_KEY_KILL_AFTER
      else if code = CLKS_SC_W then Some CLKS_KEY_KILL_WORD_BEFORE
      else if code = CLKS_SC_L then Some CLKS_KEY_CLEAR_SCREEN
      else if code = CLKS_SC_D then Some CLKS_KEY_EOF_OR_DELETE
      else None)"

definition clks_keyboard_try_emit_ctrl_shortcut :: "nat \<Rightarrow> u8 \<Rightarrow> nat \<Rightarrow> kbd_state \<Rightarrow> bool \<times> kbd_state" where
  "clks_keyboard_try_emit_ctrl_shortcut tty_count code tty_index k =
     (if \<not> CLKS_CFG_KBD_CTRL_SHORTCUTS then (False, k)
      else if \<not> clks_keyboard_ctrl_active k then (False, k)
      else case ctrl_shortcut code of
        None \<Rightarrow> (False, k)
      | Some shortcut \<Rightarrow> clks_keyboard_queue_push_for_tty tty_count tty_index shortcut k)"

text \<open>The loop over all queues in \<open>clks_keyboard_init\<close> and \<open>clks_keyboard_flush\<close>.\<close>

definition kbd_empty_queues :: "kbd_state \<Rightarrow> kbd_state" where
  "kbd_empty_queues k = fold (\<lambda>tty k. k\<lparr>clks_kbd_input_head := (clks_kbd_input_head k)(tty := 0),
     clks_kbd_input_tail := (clks_kbd_input_tail k)(tty := 0),
     clks_kbd_input_count := (clks_kbd_input_count k)(tty := 0)\<rparr>) [0..<CLKS_KBD_TTY_MAX] k"

definition clks_keyboard_init :: "kbd_state \<Rightarrow> kbd_state" where
  "clks_keyboard_init k =
     (clks_keyboard_reset_modifier_state (kbd_empty_queues k))\<lparr>clks_kbd_input_ready := False, clks_kbd_hotkey_switches := 0,
       clks_kbd_push_count := 0, clks_kbd_pop_count := 0, clks_kbd_drop_count := 0\<rparr>"

definition clks_keyboard_flush :: "kbd_state \<Rightarrow> kbd_state" where
  "clks_keyboard_flush k = clks_keyboard_reset_modifier_state (kbd_empty_queues k)"

definition clks_keyboard_set_input_ready :: "bool \<Rightarrow> kbd_state \<Rightarrow> kbd_state" where
  "clks_keyboard_set_input_ready ready k =
     (if ready then (clks_keyboard_flush k)\<lparr>clks_kbd_input_ready := True\<rparr>
      else clks_keyboard_flush (k\<lparr>clks_kbd_input_ready := False\<rparr>))"

definition clks_keyboard_hotkey_switch_count :: "kbd_state \<Rightarrow> u64" where
  "clks_keyboard_hotkey_switch_count k = clks_kbd_hotkey_switches k"

definition clks_keyboard_pop_char_for_tty :: "nat \<Rightarrow> nat \<Rightarrow> kbd_state \<Rightarrow> char option \<times> kbd_state" where
  "clks_keyboard_pop_char_for_tty tty_count tty_index k =
     (let tty = clks_keyboard_clamp_tty_index tty_count tty_index in
      if clks_kbd_input_count k tty = 0 then (None, k)
      else
        (Some (clks_kbd_input_queue k tty (clks_kbd_input_tail k tty)),
         k\<lparr>clks_kbd_input_tail := (clks_kbd_input_tail k)(tty := (clks_kbd_input_tail k tty + 1) mod CLKS_KBD_INPUT_CAP),
           clks_kbd_input_count := (clks_kbd_input_count k)(tty := clks_kbd_input_count k tty - 1),
           clks_kbd_pop_count := clks_kbd_pop_count k + 1\<rparr>))"

text \<open>\<open>clks_keyboard_pop_char\<close> takes the active terminal, \<open>clks_tty_active()\<close>.\<close>

definition clks_keyboard_pop_char :: "nat \<Rightarrow> nat \<Rightarrow> kbd_state \<Rightarrow> char option \<times> kbd_state" where
  "clks_keyboard_pop_char tty_count tty_active k = clks_keyboard_pop_char_for_tty tty_count tty_active k"

definition clks_keyboard_buffered_count_for_tty :: "nat \<Rightarrow> nat \<Rightarrow> kbd_state \<Rightarrow> nat" where
  "clks_keyboard_buffered_count_for_tty tty_count tty_index k =
     clks_kbd_input_count k (clks_keyboard_clamp_tty_index tty_count tty_index)"

definition clks_keyboard_buffered_count :: "kbd_state \<Rightarrow> nat" where
  "clks_keyboard_buffered_count k = fold (\<lambda>tty total. total + clks_kbd_input_count k tty) [0..<CLKS_KBD_TTY_MAX] 0"

definition clks_keyboard_drop_count :: "kbd_state \<Rightarrow> u64" where
  "clks_keyboard_drop_count k = clks_kbd_drop_count k"

definition clks_keyboard_push_count :: "kbd_state \<Rightarrow> u64" where
  "clks_keyboard_push_count k = clks_kbd_push_count k"

definition clks_keyboard_pop_count :: "kbd_state \<Rightarrow> u64" where
  "clks_keyboard_pop_count k = clks_kbd_pop_count k"

section \<open>The queues\<close>

interpretation kbd_ring: ring CLKS_KBD_INPUT_CAP
  by unfold_locales (simp add: CLKS_KBD_INPUT_CAP_def)

definition kbd_waiting :: "kbd_state \<Rightarrow> nat \<Rightarrow> string" where
  "kbd_waiting k tty = kbd_ring.items (clks_kbd_input_queue k tty) (clks_kbd_input_tail k tty) (clks_kbd_input_count k tty)"

definition kbd_ok :: "kbd_state \<Rightarrow> bool" where
  "kbd_ok k \<longleftrightarrow> (\<forall>tty < 8. clks_kbd_input_tail k tty < CLKS_KBD_INPUT_CAP \<and> clks_kbd_input_count k tty \<le> CLKS_KBD_INPUT_CAP \<and>
     clks_kbd_input_head k tty = (clks_kbd_input_tail k tty + clks_kbd_input_count k tty) mod CLKS_KBD_INPUT_CAP)"

text \<open>Everything but the queues and their counters.\<close>

definition kbd_keys :: "kbd_state \<Rightarrow> bool list \<times> u64" where
  "kbd_keys k = ([clks_kbd_alt_down k, clks_kbd_lshift_down k, clks_kbd_rshift_down k, clks_kbd_lctrl_down k, clks_kbd_rctrl_down k,
     clks_kbd_e0_prefix k, clks_kbd_force_stop_latch k, clks_kbd_input_ready k], clks_kbd_hotkey_switches k)"

lemma kbd_waiting_length [simp]: "length (kbd_waiting k tty) = clks_kbd_input_count k tty"
  by (simp add: kbd_waiting_def)

lemma clamp_less: "clks_keyboard_clamp_tty_index tc i < 8"
  by (simp add: clks_keyboard_clamp_tty_index_def clks_keyboard_effective_tty_count_def CLKS_KBD_TTY_MAX_def)

lemma kbd_okD:
  "kbd_ok k \<Longrightarrow> tty < 8 \<Longrightarrow> clks_kbd_input_tail k tty < CLKS_KBD_INPUT_CAP \<and> clks_kbd_input_count k tty \<le> CLKS_KBD_INPUT_CAP \<and>
     clks_kbd_input_head k tty = (clks_kbd_input_tail k tty + clks_kbd_input_count k tty) mod CLKS_KBD_INPUT_CAP"
  by (simp add: kbd_ok_def)

text \<open>A push is refused when the queue is full, and appends otherwise.\<close>

lemma kbd_push:
  assumes ok: "kbd_ok k" and t: "t = clks_keyboard_clamp_tty_index tc i" and r: "clks_keyboard_queue_push_for_tty tc i c k = (r, k')"
  shows "r \<longleftrightarrow> length (kbd_waiting k t) < 256" "kbd_ok k'" "kbd_keys k' = kbd_keys k"
    "kbd_waiting k' u = (if u = t \<and> r then kbd_waiting k t @ [c] else kbd_waiting k u)"
    "clks_kbd_push_count k' = clks_kbd_push_count k + (if r then 1 else 0)"
    "clks_kbd_drop_count k' = clks_kbd_drop_count k + (if r then 0 else 1)"
    "clks_kbd_pop_count k' = clks_kbd_pop_count k"
proof -
  have t8: "t < 8" by (simp add: t clamp_less)
  note f = kbd_okD [OF ok t8]
  have "CLKS_KBD_INPUT_CAP = 256" by (simp add: CLKS_KBD_INPUT_CAP_def)
  then show "r \<longleftrightarrow> length (kbd_waiting k t) < 256" using r by (auto simp: clks_keyboard_queue_push_for_tty_def t Let_def split: if_splits)
  have m: "((a + b) mod CLKS_KBD_INPUT_CAP + 1) mod CLKS_KBD_INPUT_CAP = (a + (b + 1)) mod CLKS_KBD_INPUT_CAP" for a b
    using mod_add_left_eq [of "a + b" CLKS_KBD_INPUT_CAP 1] by (simp add: add.assoc)
  show "kbd_ok k'"
    using ok r f m [of "clks_kbd_input_tail k t" "clks_kbd_input_count k t"]
    unfolding clks_keyboard_queue_push_for_tty_def t [symmetric] Let_def kbd_ok_def by (auto split: if_splits)
  show "kbd_keys k' = kbd_keys k" "clks_kbd_push_count k' = clks_kbd_push_count k + (if r then 1 else 0)"
    "clks_kbd_drop_count k' = clks_kbd_drop_count k + (if r then 0 else 1)" "clks_kbd_pop_count k' = clks_kbd_pop_count k"
    using r by (auto simp: clks_keyboard_queue_push_for_tty_def Let_def kbd_keys_def split: if_splits)
  show "kbd_waiting k' u = (if u = t \<and> r then kbd_waiting k t @ [c] else kbd_waiting k u)"
  proof (cases "clks_kbd_input_count k t < CLKS_KBD_INPUT_CAP")
    case True
    with f kbd_ring.items_push [OF True, of "clks_kbd_input_queue k t" "clks_kbd_input_tail k t" c] r show ?thesis
      by (auto simp: clks_keyboard_queue_push_for_tty_def Let_def t [symmetric] kbd_waiting_def)
  next
    case False
    with r show ?thesis by (auto simp: clks_keyboard_queue_push_for_tty_def Let_def t [symmetric] kbd_waiting_def)
  qed
qed

lemma kbd_pop:
  assumes ok: "kbd_ok k" and t: "t = clks_keyboard_clamp_tty_index tc i" and r: "clks_keyboard_pop_char_for_tty tc i k = (r, k')"
  shows "r = (case kbd_waiting k t of [] \<Rightarrow> None | c # cs \<Rightarrow> Some c)" "kbd_ok k'" "kbd_keys k' = kbd_keys k"
    "kbd_waiting k' u = (if u = t then tl (kbd_waiting k t) else kbd_waiting k u)"
    "clks_kbd_push_count k' = clks_kbd_push_count k" "clks_kbd_drop_count k' = clks_kbd_drop_count k"
proof -
  have t8: "t < 8" by (simp add: t clamp_less)
  note f = kbd_okD [OF ok t8]
  let ?n = "clks_kbd_input_count k t" and ?r = "clks_kbd_input_tail k t" and ?q = "clks_kbd_input_queue k t"
  have cap: "0 < CLKS_KBD_INPUT_CAP" by (simp add: CLKS_KBD_INPUT_CAP_def)
  have pos: "?n \<noteq> 0 \<Longrightarrow> ((?r + 1) mod CLKS_KBD_INPUT_CAP + (?n - 1)) mod CLKS_KBD_INPUT_CAP = (?r + ?n) mod CLKS_KBD_INPUT_CAP"
    by (rule kbd_ring.take_pos)
  show "kbd_ok k'"
  proof (cases "?n = 0")
    case True
    then show ?thesis using ok r by (simp add: clks_keyboard_pop_char_for_tty_def t [symmetric])
  next
    case False
    moreover have "?n - 1 \<le> CLKS_KBD_INPUT_CAP" using f by linarith
    ultimately show ?thesis using ok r f pos cap unfolding clks_keyboard_pop_char_for_tty_def t [symmetric] Let_def kbd_ok_def by auto
  qed
  show "kbd_keys k' = kbd_keys k" "clks_kbd_push_count k' = clks_kbd_push_count k" "clks_kbd_drop_count k' = clks_kbd_drop_count k"
    using r by (auto simp: clks_keyboard_pop_char_for_tty_def Let_def kbd_keys_def split: if_splits)
  show "kbd_waiting k' u = (if u = t then tl (kbd_waiting k t) else kbd_waiting k u)"
    using r kbd_ring.items_pop [of ?n ?q ?r]
    by (auto simp: clks_keyboard_pop_char_for_tty_def Let_def t [symmetric] kbd_waiting_def split: if_splits)
  show "r = (case kbd_waiting k t of [] \<Rightarrow> None | c # cs \<Rightarrow> Some c)"
  proof (cases ?n)
    case 0
    then show ?thesis using r by (simp add: clks_keyboard_pop_char_for_tty_def Let_def t [symmetric] kbd_waiting_def)
  next
    case (Suc m)
    then show ?thesis using r f by (simp add: clks_keyboard_pop_char_for_tty_def Let_def t [symmetric] kbd_waiting_def kbd_ring.items_Suc)
  qed
qed

lemma kbd_inject:
  assumes "kbd_ok k" and t: "t = clks_keyboard_clamp_tty_index tc i" and "inject_loop tc i xs k = (r, k')"
  shows "(r \<longleftrightarrow> length (kbd_waiting k t) + length xs \<le> 256) \<and> kbd_ok k' \<and> kbd_keys k' = kbd_keys k \<and>
    (\<forall>u. kbd_waiting k' u = (if u = t then kbd_waiting k t @ take (256 - length (kbd_waiting k t)) xs else kbd_waiting k u))"
  using assms(1,3)
proof (induction xs arbitrary: k)
  case Nil
  moreover have "length (kbd_waiting k t) \<le> 256"
    using kbd_okD [OF Nil.prems(1) clamp_less, of tc i] by (simp add: t CLKS_KBD_INPUT_CAP_def)
  ultimately show ?case by simp
next
  case (Cons c xs)
  obtain b k1 where p: "clks_keyboard_queue_push_for_tty tc i c k = (b, k1)" by fastforce
  note P = kbd_push [OF Cons.prems(1) t p]
  show ?case
  proof (cases b)
    case True
    have "inject_loop tc i xs k1 = (r, k')" using Cons.prems(2) True by (simp add: p)
    note I = Cons.IH [OF P(2) this]
    have w: "kbd_waiting k1 u = (if u = t then kbd_waiting k t @ [c] else kbd_waiting k u)" for u using P(4) True by simp
    obtain m where m: "256 - length (kbd_waiting k t) = Suc m" using P(1) True by (cases "256 - length (kbd_waiting k t)") auto
    then have "256 - length (kbd_waiting k1 t) = m" by (simp add: w del: kbd_waiting_length)
    with I m show ?thesis by (auto simp: w P(3) simp del: kbd_waiting_length)
  next
    case False
    with Cons.prems(2) P show ?thesis by (auto simp: p simp del: kbd_waiting_length)
  qed
qed

lemma kbd_empty: "kbd_ok (kbd_empty_queues k)" "kbd_waiting (kbd_empty_queues k) t = (if t < 8 then [] else kbd_waiting k t)"
  "kbd_keys (kbd_empty_queues k) = kbd_keys k"
proof -
  have e: "[0..<CLKS_KBD_TTY_MAX] = [0, 1, 2, 3, 4, 5, 6, 7]" by (simp add: CLKS_KBD_TTY_MAX_def upt_rec)
  have t8: "t < 8 \<longleftrightarrow> t \<in> {0, 1, 2, 3, 4, 5, 6, 7}" for t :: nat by auto
  show "kbd_ok (kbd_empty_queues k)" unfolding kbd_empty_queues_def e kbd_ok_def t8 by (simp add: CLKS_KBD_INPUT_CAP_def)
  show "kbd_waiting (kbd_empty_queues k) t = (if t < 8 then [] else kbd_waiting k t)"
    unfolding kbd_empty_queues_def e kbd_waiting_def t8 by simp
  show "kbd_keys (kbd_empty_queues k) = kbd_keys k" unfolding kbd_empty_queues_def e kbd_keys_def by simp
qed

text \<open>The queue of a terminal is a first-in first-out queue of at most 256 characters. A character is appended,
  and only counted as dropped when the queue is full; a text is appended up to the free space, and its
  result tells whether all of it was; a read takes the oldest character, and none exactly when the queue is
  empty. The queues of the other terminals do not change, an index without a terminal means terminal 0, and
  the ring stays well formed.\<close>

theorem keyboard_is_a_bounded_queue:
  assumes "kbd_ok k" "t = clks_keyboard_clamp_tty_index tty_count i"
    and "clks_keyboard_inject_char_for_tty tty_count i c k = (b, k1)"
    and "clks_keyboard_inject_text_for_tty tty_count i (Some text) k = (b', k2)"
    and "clks_keyboard_pop_char_for_tty tty_count i k = (r, k3)"
  shows "kbd_ok k1 \<and> kbd_ok k2 \<and> kbd_ok k3 \<and>
    (b \<longleftrightarrow> length (kbd_waiting k t) < 256) \<and> clks_keyboard_drop_count k1 = clks_keyboard_drop_count k + (if b then 0 else 1) \<and>
    (b' \<longleftrightarrow> length (kbd_waiting k t) + length text \<le> 256) \<and>
    r = (case kbd_waiting k t of [] \<Rightarrow> None | c # cs \<Rightarrow> Some c) \<and>
    (\<forall>u. kbd_waiting k1 u = (if u = t \<and> b then kbd_waiting k u @ [c] else kbd_waiting k u) \<and>
      kbd_waiting k2 u = (if u = t then kbd_waiting k u @ take (256 - length (kbd_waiting k u)) text else kbd_waiting k u) \<and>
      kbd_waiting k3 u = (if u = t then tl (kbd_waiting k u) else kbd_waiting k u))"
proof -
  have p: "clks_keyboard_queue_push_for_tty tty_count i c k = (b, k1)" using assms(3) by (simp add: clks_keyboard_inject_char_for_tty_def)
  have j: "inject_loop tty_count i text k = (b', k2)" using assms(4) by (simp add: clks_keyboard_inject_text_for_tty_def)
  note P = kbd_push [OF assms(1,2) p] and J = kbd_inject [OF assms(1,2) j] and Q = kbd_pop [OF assms(1,2,5)]
  show ?thesis
    using P(1,2,6) J Q(1,2) by (auto simp: clks_keyboard_drop_count_def P(4) Q(4) simp del: kbd_waiting_length)
qed

definition kbd_boot :: kbd_state where
  "kbd_boot = \<lparr>clks_kbd_input_queue = (\<lambda>t i. CHR 0x00), clks_kbd_input_head = (\<lambda>t. 0), clks_kbd_input_tail = (\<lambda>t. 0),
     clks_kbd_input_count = (\<lambda>t. 0), clks_kbd_alt_down = False, clks_kbd_lshift_down = False, clks_kbd_rshift_down = False,
     clks_kbd_lctrl_down = False, clks_kbd_rctrl_down = False, clks_kbd_e0_prefix = False, clks_kbd_force_stop_latch = False,
     clks_kbd_input_ready = False, clks_kbd_hotkey_switches = 0, clks_kbd_push_count = 0, clks_kbd_pop_count = 0,
     clks_kbd_drop_count = 0\<rparr>"

lemma kbd_boot_ok: "kbd_ok kbd_boot" "kbd_waiting kbd_boot t = []"
  by (simp_all add: kbd_ok_def kbd_boot_def kbd_waiting_def) (simp_all add: CLKS_KBD_INPUT_CAP_def)

theorem keyboard_is_a_bounded_queue_witness:
  "fst (clks_keyboard_inject_text_for_tty 4 9 (Some ''ab'') kbd_boot) \<and>
   kbd_waiting (snd (clks_keyboard_inject_text_for_tty 4 9 (Some ''ab'') kbd_boot)) 0 = ''ab'' \<and>
   fst (clks_keyboard_pop_char_for_tty 4 9 kbd_boot) = None"
  using keyboard_is_a_bounded_queue [OF kbd_boot_ok(1), of 0 4 9 "CHR ''x''" _ _ "''ab''", OF _
      surjective_pairing surjective_pairing surjective_pairing]
  by (simp add: clks_keyboard_clamp_tty_index_def clks_keyboard_effective_tty_count_def CLKS_KBD_TTY_MAX_def kbd_boot_ok
      del: kbd_waiting_length)
end
