(* ===== verification/Clks_Inputm.thy ===== *)
theory Clks_Inputm
  imports Clks_Keyboard Clks_Fs
begin

text \<open>
  The input methods, \<open>kernel/input/inputm.c\<close>: the table of methods, the composition, the candidates that a
  rule table (a text file) gives for it, and the keys that edit and commit it. C strings are HOL strings
  without the character 0, so an array of \<open>n\<close> characters holds at most \<open>n - 1\<close>. The file system is that of
  \<open>Clks_Fs\<close>; the terminal layer (\<open>kernel/interface/tty.c\<close>) and the stop of a process are a record of
  operations on a state of their own. Log output is left out.
\<close>

section \<open>Constants and state\<close>

definition CLKS_INPUTM_MAX :: nat where "CLKS_INPUTM_MAX = 8"
definition CLKS_INPUTM_COMP_MAX :: nat where "CLKS_INPUTM_COMP_MAX = 32"
definition CLKS_INPUTM_CAND_MAX :: nat where "CLKS_INPUTM_CAND_MAX = 64"
definition CLKS_INPUTM_CAND_PAGE_SIZE :: nat where "CLKS_INPUTM_CAND_PAGE_SIZE = 5"
definition CLKS_INPUTM_CAND_BYTES :: nat where "CLKS_INPUTM_CAND_BYTES = 64"
definition CLKS_INPUTM_SPLIT_MAX_PARTS :: nat where "CLKS_INPUTM_SPLIT_MAX_PARTS = 12"
definition CLKS_INPUTM_SPLIT_MAX_SYLLABLE :: nat where "CLKS_INPUTM_SPLIT_MAX_SYLLABLE = 6"
definition CLKS_INPUTM_SPLIT_ALT_MAX :: nat where "CLKS_INPUTM_SPLIT_ALT_MAX = 2"
definition CLKS_INPUTM_DIR :: string where "CLKS_INPUTM_DIR = ''/shell/apps/inputm''"
definition CLKS_INPUTM_STATUS_MAX :: nat where "CLKS_INPUTM_STATUS_MAX = 384"
definition CLKS_INPUTM_NAME_MAX :: nat where "CLKS_INPUTM_NAME_MAX = 32"
definition CLKS_INPUTM_PATH_MAX :: nat where "CLKS_INPUTM_PATH_MAX = 192"
definition CLKS_INPUTM_LABEL_MAX :: nat where "CLKS_INPUTM_LABEL_MAX = 16"
definition CLKS_INPUTM_FLAG_CHINESE_PINYIN :: u64 where "CLKS_INPUTM_FLAG_CHINESE_PINYIN = 0x1"
definition CLKS_INPUTM_FLAG_JAPANESE_ROMAJI :: u64 where "CLKS_INPUTM_FLAG_JAPANESE_ROMAJI = 0x2"
definition CLKS_INPUTM_FLAG_RULE_TABLE :: u64 where "CLKS_INPUTM_FLAG_RULE_TABLE = 0x100"
definition CLKS_INPUTM_FLAG_RULE_LOWERCASE :: u64 where "CLKS_INPUTM_FLAG_RULE_LOWERCASE = 0x200"
definition CLKS_INPUTM_FLAG_RULE_SPLIT :: u64 where "CLKS_INPUTM_FLAG_RULE_SPLIT = 0x400"
definition CLKS_INPUTM_FLAG_RULE_COMMIT_RAW :: u64 where "CLKS_INPUTM_FLAG_RULE_COMMIT_RAW = 0x800"

lemmas inputm_sizes = CLKS_INPUTM_MAX_def CLKS_INPUTM_COMP_MAX_def CLKS_INPUTM_CAND_MAX_def CLKS_INPUTM_CAND_PAGE_SIZE_def
  CLKS_INPUTM_CAND_BYTES_def CLKS_INPUTM_SPLIT_MAX_PARTS_def CLKS_INPUTM_SPLIT_MAX_SYLLABLE_def

record clks_inputm_entry =
  ie_used :: bool
  ie_name :: string
  ie_path :: string
  ie_rule_path :: string
  ie_label :: string
  ie_flags :: u64

record clks_inputm_info =
  ii_name :: string
  ii_path :: string
  ii_rule_path :: string
  ii_label :: string
  ii_flags :: u64
  ii_active :: u64

text \<open>
  The terminals: their number, the active one, switching, the scroll-back keys, whether the scroll-back
  search consumes a key, the redrawing of the status line, and the stop of the process of a terminal.
\<close>

record 't tty_ops =
  tt_count :: "'t \<Rightarrow> nat"
  tt_active :: "'t \<Rightarrow> nat"
  tt_switch :: "nat \<Rightarrow> 't \<Rightarrow> 't"
  tt_page_up :: "'t \<Rightarrow> 't"
  tt_page_down :: "'t \<Rightarrow> 't"
  tt_handle_key :: "char \<Rightarrow> 't \<Rightarrow> bool \<times> 't"
  tt_status_refresh :: "'t \<Rightarrow> 't"
  tt_force_stop :: "nat \<Rightarrow> 't \<Rightarrow> 't"

text \<open>
  The statics. The composition is the string of its first \<open>clks_inputm_comp_len\<close> characters, the
  candidates are the list of the first \<open>clks_inputm_candidate_count\<close> strings.
\<close>

record ('d, 't) input_state =
  in_kbd :: kbd_state
  clks_inputm_entries :: "clks_inputm_entry list"
  clks_inputm_entry_count :: nat
  clks_inputm_current_index :: nat
  clks_inputm_comp :: string
  clks_inputm_candidates :: "string list"
  clks_inputm_candidate_page :: nat
  clks_inputm_status :: string
  in_fs :: "'d fs_state"
  in_tty :: 't

section \<open>Text\<close>

text \<open>What is read of bytes as a C string.\<close>

definition c_text :: "string \<Rightarrow> string" where
  "c_text s = takeWhile (\<lambda>c. c \<noteq> CHR 0x00) s"

definition file_text :: "u8 list \<Rightarrow> string" where
  "file_text d = map (\<lambda>b. char_of (unat b)) d"

definition clks_inputm_is_alpha :: "char \<Rightarrow> bool" where
  "clks_inputm_is_alpha ch \<longleftrightarrow> (let n = (of_char ch :: nat) in 97 \<le> n \<and> n \<le> 122 \<or> 65 \<le> n \<and> n \<le> 90)"

definition clks_inputm_lower :: "char \<Rightarrow> char" where
  "clks_inputm_lower ch = (let n = (of_char ch :: nat) in if 65 \<le> n \<and> n \<le> 90 then char_of (n - 65 + 97) else ch)"

text \<open>\<open>clks_inputm_copy_string(dst, dst_size, src)\<close>: the string at \<open>dst\<close> afterwards.\<close>

definition clks_inputm_copy_string :: "nat \<Rightarrow> string option \<Rightarrow> string" where
  "clks_inputm_copy_string dst_size src = (case src of None \<Rightarrow> [] | Some t \<Rightarrow> take (dst_size - 1) t)"

text \<open>Appending to a line of at most \<open>line_size - 1\<close> characters; the position is the length of the line.\<close>

definition clks_inputm_append_text :: "nat \<Rightarrow> string \<Rightarrow> string \<Rightarrow> string" where
  "clks_inputm_append_text line_size line text = line @ take (line_size - 1 - length line) text"

fun dec_tmp :: "nat \<Rightarrow> nat \<Rightarrow> string" where
  "dec_tmp 0 v = []"
| "dec_tmp (Suc n) v = (if v > 0 then char_of (48 + v mod 10) # dec_tmp n (v div 10) else [])"

definition clks_inputm_append_u32_dec :: "nat \<Rightarrow> string \<Rightarrow> nat \<Rightarrow> string" where
  "clks_inputm_append_u32_dec line_size line v =
     (if v = 0 then clks_inputm_append_text line_size line ''0''
      else fold (\<lambda>c l. clks_inputm_append_text line_size l [c]) (rev (dec_tmp 10 v)) line)"

definition clks_inputm_has_suffix :: "string \<Rightarrow> string \<Rightarrow> bool" where
  "clks_inputm_has_suffix text suffix \<longleftrightarrow>
     length suffix \<le> length text \<and> drop (length text - length suffix) text = suffix"

text \<open>The value behind a prefix of a line, or \<open>None\<close> where \<open>out\<close> is left as it is.\<close>

definition clks_inputm_line_value :: "string \<Rightarrow> string \<Rightarrow> nat \<Rightarrow> string option" where
  "clks_inputm_line_value line pre out_size =
     (if length line < length pre \<or> take (length pre) line \<noteq> pre then None
      else Some (c_text (take (out_size - 1) (drop (length pre) line))))"

section \<open>The rule table\<close>

definition eol :: "char \<Rightarrow> bool" where
  "eol c \<longleftrightarrow> c = CHR 0x0A \<or> c = CHR 0x0D"

text \<open>
  The scan of a file by lines, which four functions do alike: the line up to the next end-of-line
  character, then the run of such characters is skipped.
\<close>

function rule_lines :: "string \<Rightarrow> string list" where
  "rule_lines [] = []"
| "rule_lines (c # cs) = takeWhile (\<lambda>x. \<not> eol x) (c # cs) # rule_lines (dropWhile eol (dropWhile (\<lambda>x. \<not> eol x) (c # cs)))"
  by pat_completeness auto

termination
proof (relation "measure length", simp)
  fix c :: char and cs :: string
  have l: "length (dropWhile P xs) \<le> length xs" for P and xs :: string by (rule length_dropWhile_le)
  show "(dropWhile eol (dropWhile (\<lambda>x. \<not> eol x) (c # cs)), c # cs) \<in> measure length"
    using l [of eol cs] l [of "\<lambda>x. \<not> eol x" cs] l [of eol "dropWhile (\<lambda>x. \<not> eol x) cs"] by (auto simp: less_Suc_eq_le)
qed

text \<open>The header of a rule table: lines before the first one that is no comment.\<close>

fun read_rule_meta_loop :: "string list \<Rightarrow> string \<times> string \<Rightarrow> string \<times> string" where
  "read_rule_meta_loop [] nl = nl"
| "read_rule_meta_loop (line # lines) (name, label) =
     (if line = [] then read_rule_meta_loop lines (name, label)
      else if hd line \<noteq> CHR ''#'' then (name, label)
      else read_rule_meta_loop lines
        (case clks_inputm_line_value line ''# inputm.name='' CLKS_INPUTM_NAME_MAX of None \<Rightarrow> name | Some v \<Rightarrow> v,
         case clks_inputm_line_value line ''# inputm.label='' CLKS_INPUTM_LABEL_MAX of None \<Rightarrow> label | Some v \<Rightarrow> v))"

text \<open>The bytes of a file as the input method reads them: \<open>None\<close> for a null pointer or no bytes.\<close>

definition read_rules :: "'d disk_ops \<Rightarrow> string \<Rightarrow> ('d, 't) input_state \<Rightarrow> string option \<times> ('d, 't) input_state" where
  "read_rules dk path s =
     (case clks_fs_read_all dk (Some path) (in_fs s) of (d, fs) \<Rightarrow>
        (case d of None \<Rightarrow> None | Some bs \<Rightarrow> if bs = [] then None else Some (file_text bs), s\<lparr>in_fs := fs\<rparr>))"

definition clks_inputm_read_rule_meta ::
  "'d disk_ops \<Rightarrow> string \<Rightarrow> string \<Rightarrow> string \<Rightarrow> ('d, 't) input_state \<Rightarrow> (string \<times> string) \<times> ('d, 't) input_state" where
  "clks_inputm_read_rule_meta dk rule_path name label s =
     (case read_rules dk rule_path s of
        (None, s1) \<Rightarrow> ((name, label), s1)
      | (Some data, s1) \<Rightarrow> (read_rule_meta_loop (rule_lines data) (name, label), s1))"

text \<open>The rest of a line behind its key and a tab, as \<open>clks_inputm_lookup_candidate\<close> and \<open>clks_inputm_rebuild_candidates\<close> find it.\<close>

fun key_rest :: "string \<Rightarrow> string \<Rightarrow> string option" where
  "key_rest (x # line) (k # key) = (if x = k then key_rest line key else None)"
| "key_rest [] (k # key) = None"
| "key_rest [] [] = None"
| "key_rest (x # line) [] = (if x = CHR 0x09 then Some line else None)"

text \<open>The candidates of a line, separated by spaces.\<close>

function line_words :: "string \<Rightarrow> string list" where
  "line_words [] = []"
| "line_words (c # cs) =
     (let r = dropWhile (\<lambda>x. x = CHR '' '') (c # cs); w = takeWhile (\<lambda>x. x \<noteq> CHR '' '') r;
          rest = line_words (drop (length w + 1) r) in if w \<noteq> [] then w # rest else rest)"
  by pat_completeness auto

termination
proof (relation "measure length", simp)
  fix c :: char and cs r w :: string
  assume r: "r = dropWhile (\<lambda>x. x = CHR '' '') (c # cs)"
  have "length r \<le> length (c # cs)" unfolding r by (rule length_dropWhile_le)
  then show "(drop (length w + 1) r, c # cs) \<in> measure length" by simp
qed

definition rule_line :: "string \<Rightarrow> bool" where
  "rule_line line \<longleftrightarrow> line \<noteq> [] \<and> hd line \<noteq> CHR ''#''"

text \<open>\<open>out_text\<close> after the copy of a candidate.\<close>

definition cand_copy :: "nat \<Rightarrow> string \<Rightarrow> string" where
  "cand_copy out_size w = c_text (take (out_size - 1) w)"

fun lookup_lines :: "(string \<Rightarrow> string option) \<Rightarrow> string list \<Rightarrow> nat \<Rightarrow> nat \<Rightarrow> string option" where
  "lookup_lines rest [] candidate_index out_size = None"
| "lookup_lines rest (line # lines) candidate_index out_size =
     (if \<not> rule_line line then lookup_lines rest lines candidate_index out_size
      else case rest line of
        None \<Rightarrow> lookup_lines rest lines candidate_index out_size
      | Some r \<Rightarrow> if candidate_index < length (line_words r) then Some (cand_copy out_size (line_words r ! candidate_index))
                  else lookup_lines rest lines candidate_index out_size)"

definition clks_inputm_lookup_candidate ::
  "'d disk_ops \<Rightarrow> string \<Rightarrow> nat \<Rightarrow> nat \<Rightarrow> ('d, 't) input_state \<Rightarrow> string option \<times> ('d, 't) input_state" where
  "clks_inputm_lookup_candidate dk key candidate_index out_size s =
     (if clks_inputm_current_index s \<ge> clks_inputm_entry_count s then (None, s)
      else
        let rule_path = ie_rule_path (clks_inputm_entries s ! clks_inputm_current_index s) in
        case read_rules dk rule_path s of (data, s1) \<Rightarrow>
          if rule_path = [] \<or> data = None then (None, s1)
          else (lookup_lines (\<lambda>line. key_rest line key) (rule_lines (the data)) candidate_index out_size, s1))"

text \<open>The same for a key given by its length.\<close>

definition key_rest_len :: "string \<Rightarrow> string \<Rightarrow> string option" where
  "key_rest_len key line =
     (if length key \<ge> length line \<or> line ! length key \<noteq> CHR 0x09 then None
      else if take (length key) line \<noteq> key then None
      else Some (drop (length key + 1) line))"

definition clks_inputm_lookup_candidate_in_data :: "string \<Rightarrow> string \<Rightarrow> nat \<Rightarrow> nat \<Rightarrow> string option" where
  "clks_inputm_lookup_candidate_in_data data key candidate_index out_size =
     (if key = [] then None else lookup_lines (key_rest_len key) (rule_lines data) candidate_index out_size)"

section \<open>Candidates\<close>

definition clks_inputm_add_candidate :: "string \<Rightarrow> string list \<Rightarrow> string list" where
  "clks_inputm_add_candidate start cs =
     (if start = [] \<or> length cs \<ge> CLKS_INPUTM_CAND_MAX then cs
      else
        let copy = take (CLKS_INPUTM_CAND_BYTES - 1) start in
        if copy \<in> set cs then cs else cs @ [c_text copy])"

definition clks_inputm_append_candidate_bytes :: "nat \<Rightarrow> string \<Rightarrow> string \<Rightarrow> string" where
  "clks_inputm_append_candidate_bytes out_size out text = out @ take (out_size - 1 - length out) text"

text \<open>The loop over the alternatives of one syllable; it stops at the first that the table does not have.\<close>

fun split_alts :: "(nat \<Rightarrow> string option) \<Rightarrow> (string \<Rightarrow> string list \<Rightarrow> string list) \<Rightarrow> nat list \<Rightarrow> string list \<Rightarrow> string list" where
  "split_alts look rec [] cs = cs"
| "split_alts look rec (alt # alts) cs =
     (case look alt of None \<Rightarrow> cs | Some cand \<Rightarrow> split_alts look rec alts (rec cand cs))"

text \<open>
  \<open>clks_inputm_rebuild_split_candidates_rec\<close> with the parts that are left, \<open>12 - depth\<close>, in place of the
  depth and the rest of the composition in place of its start. The phrase is restored after each call.
\<close>

primrec clks_inputm_rebuild_split_candidates_rec ::
  "nat \<Rightarrow> string \<Rightarrow> string \<Rightarrow> string \<Rightarrow> string list \<Rightarrow> string list" where
  "clks_inputm_rebuild_split_candidates_rec 0 = (\<lambda>data word phrase cs. cs)"
| "clks_inputm_rebuild_split_candidates_rec (Suc parts) = (\<lambda>data word phrase cs.
     if length cs \<ge> CLKS_INPUTM_CAND_MAX then cs
     else if word = [] then (if phrase \<noteq> [] then clks_inputm_add_candidate phrase cs else cs)
     else fold (\<lambda>end cs. split_alts
         (\<lambda>alt. clks_inputm_lookup_candidate_in_data data (take end word) alt CLKS_INPUTM_CAND_BYTES)
         (\<lambda>cand cs. clks_inputm_rebuild_split_candidates_rec parts data (drop end word)
            (clks_inputm_append_candidate_bytes CLKS_INPUTM_CAND_BYTES phrase cand) cs)
         [0..<CLKS_INPUTM_SPLIT_ALT_MAX] cs)
       [1..<min (length word) CLKS_INPUTM_SPLIT_MAX_SYLLABLE + 1] cs)"

definition clks_inputm_rebuild_split_candidates :: "string \<Rightarrow> string \<Rightarrow> string list \<Rightarrow> string list" where
  "clks_inputm_rebuild_split_candidates data word cs =
     (if length word < 2 then cs
      else clks_inputm_rebuild_split_candidates_rec CLKS_INPUTM_SPLIT_MAX_PARTS data word [] cs)"

text \<open>The candidates of the lines whose key is the whole composition.\<close>

fun whole_lines :: "string \<Rightarrow> string list \<Rightarrow> string list \<Rightarrow> string list" where
  "whole_lines word [] cs = cs"
| "whole_lines word (line # lines) cs =
     (if length cs \<ge> CLKS_INPUTM_CAND_MAX then cs
      else if \<not> rule_line line then whole_lines word lines cs
      else case key_rest line word of
        None \<Rightarrow> whole_lines word lines cs
      | Some r \<Rightarrow> whole_lines word lines (fold clks_inputm_add_candidate (line_words r) cs))"

definition clks_inputm_clear_candidates :: "('d, 't) input_state \<Rightarrow> ('d, 't) input_state" where
  "clks_inputm_clear_candidates s = s\<lparr>clks_inputm_candidates := [], clks_inputm_candidate_page := 0\<rparr>"

definition clks_inputm_rebuild_candidates :: "'d disk_ops \<Rightarrow> ('d, 't) input_state \<Rightarrow> ('d, 't) input_state" where
  "clks_inputm_rebuild_candidates dk s0 =
     (let s = clks_inputm_clear_candidates s0 in
      if clks_inputm_comp s = [] \<or> clks_inputm_current_index s \<ge> clks_inputm_entry_count s then s
      else
        let e = clks_inputm_entries s ! clks_inputm_current_index s in
        case read_rules dk (ie_rule_path e) s of (data, s1) \<Rightarrow>
          if ie_rule_path e = [] \<or> data = None then s1
          else
            let cs = whole_lines (clks_inputm_comp s1) (rule_lines (the data)) [] in
            s1\<lparr>clks_inputm_candidates :=
                (if length cs < CLKS_INPUTM_CAND_MAX \<and> ie_flags e AND CLKS_INPUTM_FLAG_RULE_SPLIT \<noteq> 0
                 then clks_inputm_rebuild_split_candidates (the data) (clks_inputm_comp s1) cs else cs)\<rparr>)"

section \<open>The status line\<close>

definition clks_inputm_current_name :: "('d, 't) input_state \<Rightarrow> string" where
  "clks_inputm_current_name s =
     (if clks_inputm_current_index s \<ge> clks_inputm_entry_count s then ''SystemENG''
      else ie_name (clks_inputm_entries s ! clks_inputm_current_index s))"

definition page_count :: "('d, 't) input_state \<Rightarrow> nat" where
  "page_count s = (length (clks_inputm_candidates s) + CLKS_INPUTM_CAND_PAGE_SIZE - 1) div CLKS_INPUTM_CAND_PAGE_SIZE"

text \<open>One candidate of the page in the line.\<close>

definition status_candidate :: "string list \<Rightarrow> nat \<Rightarrow> nat \<Rightarrow> string \<Rightarrow> string" where
  "status_candidate cs page_start i line =
     clks_inputm_append_text CLKS_INPUTM_STATUS_MAX
       (clks_inputm_append_text CLKS_INPUTM_STATUS_MAX
         (clks_inputm_append_text CLKS_INPUTM_STATUS_MAX
           (clks_inputm_append_u32_dec CLKS_INPUTM_STATUS_MAX line (i - page_start + 1)) ''.'') (cs ! i)) '' ''"

definition status_page :: "('d, 't) input_state \<Rightarrow> string \<Rightarrow> string" where
  "status_page s line =
     (let n = length (clks_inputm_candidates s);
          page_start = clks_inputm_candidate_page s * CLKS_INPUTM_CAND_PAGE_SIZE;
          page_end = min (page_start + CLKS_INPUTM_CAND_PAGE_SIZE) n in
      if n = 0 then clks_inputm_append_text CLKS_INPUTM_STATUS_MAX line ''no candidates''
      else
        let l1 = fold (status_candidate (clks_inputm_candidates s) page_start) [page_start..<page_end] line;
            l2 = clks_inputm_append_text CLKS_INPUTM_STATUS_MAX l1 '' +/- '';
            l3 = clks_inputm_append_u32_dec CLKS_INPUTM_STATUS_MAX l2 (clks_inputm_candidate_page s + 1);
            l4 = clks_inputm_append_text CLKS_INPUTM_STATUS_MAX l3 ''/''
        in clks_inputm_append_u32_dec CLKS_INPUTM_STATUS_MAX l4 (page_count s))"

definition clks_inputm_refresh_status :: "'t tty_ops \<Rightarrow> ('d, 't) input_state \<Rightarrow> ('d, 't) input_state" where
  "clks_inputm_refresh_status tt s =
     (let label = (if clks_inputm_current_index s < clks_inputm_entry_count s \<and>
                      ie_label (clks_inputm_entries s ! clks_inputm_current_index s) \<noteq> []
                   then ie_label (clks_inputm_entries s ! clks_inputm_current_index s) else ''COMP:'');
          app = clks_inputm_append_text CLKS_INPUTM_STATUS_MAX;
          l1 = app (app [] ''IME:'') (clks_inputm_current_name s);
          s1 = (if clks_inputm_comp s \<noteq> [] \<and>
                   clks_inputm_candidate_page s * CLKS_INPUTM_CAND_PAGE_SIZE \<ge> length (clks_inputm_candidates s)
                then s\<lparr>clks_inputm_candidate_page := 0\<rparr> else s);
          l2 = (if clks_inputm_comp s = [] then l1
                else status_page s1 (app (app (app (app l1 ''  '') label) (clks_inputm_comp s)) ''  ''))
      in s1\<lparr>clks_inputm_status := clks_inputm_copy_string CLKS_INPUTM_STATUS_MAX (Some l2), in_tty := tt_status_refresh tt (in_tty s)\<rparr>)"

section \<open>The table of methods\<close>

definition clks_inputm_default_label :: "nat \<Rightarrow> u64 \<Rightarrow> string" where
  "clks_inputm_default_label out_size flags =
     (if flags AND CLKS_INPUTM_FLAG_CHINESE_PINYIN \<noteq> 0 then clks_inputm_copy_string out_size (Some ''PINYIN:'')
      else if flags AND CLKS_INPUTM_FLAG_JAPANESE_ROMAJI \<noteq> 0 then clks_inputm_copy_string out_size (Some ''ROMAJI:'')
      else clks_inputm_copy_string out_size (Some ''COMP:''))"

text \<open>The result is the index of the method; \<open>None\<close> is \<open>(u64)-1\<close>.\<close>

definition clks_inputm_register_rule_internal ::
  "string option \<Rightarrow> string option \<Rightarrow> string option \<Rightarrow> string option \<Rightarrow> u64 \<Rightarrow> ('d, 't) input_state \<Rightarrow>
   nat option \<times> ('d, 't) input_state" where
  "clks_inputm_register_rule_internal name path rule_path label flags s =
     (if name = None \<or> name = Some [] then (None, s)
      else
        let l = (if label = None \<or> label = Some [] then Some (clks_inputm_default_label CLKS_INPUTM_LABEL_MAX flags) else label);
            filled = (\<lambda>e. e\<lparr>ie_path := clks_inputm_copy_string CLKS_INPUTM_PATH_MAX path,
                            ie_rule_path := clks_inputm_copy_string CLKS_INPUTM_PATH_MAX rule_path,
                            ie_label := clks_inputm_copy_string CLKS_INPUTM_LABEL_MAX l, ie_flags := flags\<rparr>)
        in case find (\<lambda>i. ie_used (clks_inputm_entries s ! i) \<and> ie_name (clks_inputm_entries s ! i) = the name)
                  [0..<clks_inputm_entry_count s] of
             Some i \<Rightarrow> (Some i, s\<lparr>clks_inputm_entries := (clks_inputm_entries s)[i := filled (clks_inputm_entries s ! i)]\<rparr>)
           | None \<Rightarrow>
               if clks_inputm_entry_count s \<ge> CLKS_INPUTM_MAX then (None, s)
               else
                 let n = clks_inputm_entry_count s;
                     e = (clks_inputm_entries s ! n)\<lparr>ie_used := True, ie_name := clks_inputm_copy_string CLKS_INPUTM_NAME_MAX name\<rparr>
                 in (Some n, s\<lparr>clks_inputm_entries := (clks_inputm_entries s)[n := filled e], clks_inputm_entry_count := n + 1\<rparr>))"

definition clks_inputm_register_internal ::
  "string option \<Rightarrow> string option \<Rightarrow> u64 \<Rightarrow> ('d, 't) input_state \<Rightarrow> nat option \<times> ('d, 't) input_state" where
  "clks_inputm_register_internal name path flags s =
     clks_inputm_register_rule_internal name path (Some []) None flags s"

text \<open>One child of the directory of input methods.\<close>

definition detect_child :: "'d disk_ops \<Rightarrow> nat \<Rightarrow> ('d, 't) input_state \<Rightarrow> ('d, 't) input_state" where
  "detect_child dk i s =
     (case clks_fs_get_child_name dk (Some CLKS_INPUTM_DIR) i 96 (in_fs s) of
        None \<Rightarrow> s
      | Some child_name \<Rightarrow>
          if \<not> clks_inputm_has_suffix child_name ''.elf'' then s
          else
            let base = clks_inputm_copy_string CLKS_INPUTM_PATH_MAX (Some (CLKS_INPUTM_DIR @ ''/''));
                path = base @ clks_inputm_copy_string (CLKS_INPUTM_PATH_MAX - length base) (Some child_name);
                n0 = clks_inputm_copy_string CLKS_INPUTM_NAME_MAX (Some child_name);
                name = (if length n0 > 4 \<and> drop (length n0 - 4) n0 = ''.elf'' then take (length n0 - 4) n0 else n0);
                r0 = clks_inputm_copy_string CLKS_INPUTM_PATH_MAX (Some ''/inputm/'');
                r1 = r0 @ clks_inputm_copy_string (CLKS_INPUTM_PATH_MAX - length r0) (Some name);
                rule_path = r1 @ clks_inputm_copy_string (CLKS_INPUTM_PATH_MAX - length r1) (Some ''.db'')
            in case clks_inputm_read_rule_meta dk rule_path name [] s of
                 ((name1, label), s1) \<Rightarrow>
                   snd (clks_inputm_register_rule_internal (Some name1) (Some path) (Some rule_path)
                     (Some (if label = [] then clks_inputm_copy_string CLKS_INPUTM_LABEL_MAX (Some ''COMP:'') else label))
                     (CLKS_INPUTM_FLAG_RULE_TABLE OR CLKS_INPUTM_FLAG_RULE_LOWERCASE OR CLKS_INPUTM_FLAG_RULE_SPLIT OR
                      CLKS_INPUTM_FLAG_RULE_COMMIT_RAW) s1))"

definition clks_inputm_detect_userland_imes :: "'d disk_ops \<Rightarrow> ('d, 't) input_state \<Rightarrow> ('d, 't) input_state" where
  "clks_inputm_detect_userland_imes dk s =
     (let count = clks_fs_count_children dk (Some CLKS_INPUTM_DIR) (in_fs s) in
      if count = USIZE_RANGE - 1 then s else fold (detect_child dk) [0..<count] s)"

section \<open>Keys\<close>

definition in_inject :: "'t tty_ops \<Rightarrow> nat \<Rightarrow> string \<Rightarrow> ('d, 't) input_state \<Rightarrow> ('d, 't) input_state" where
  "in_inject tt tty_index text s =
     s\<lparr>in_kbd := snd (clks_keyboard_inject_text_for_tty (tt_count tt (in_tty s)) tty_index (Some text) (in_kbd s))\<rparr>"

text \<open>The end of a composition, which several functions share.\<close>

definition end_comp :: "'t tty_ops \<Rightarrow> ('d, 't) input_state \<Rightarrow> ('d, 't) input_state" where
  "end_comp tt s = clks_inputm_refresh_status tt (clks_inputm_clear_candidates (s\<lparr>clks_inputm_comp := []\<rparr>))"

definition clks_inputm_commit_comp ::
  "'d disk_ops \<Rightarrow> 't tty_ops \<Rightarrow> nat \<Rightarrow> nat \<Rightarrow> u64 \<Rightarrow> ('d, 't) input_state \<Rightarrow> bool \<times> ('d, 't) input_state" where
  "clks_inputm_commit_comp dk tt tty_index candidate_index flags s =
     (if clks_inputm_comp s = [] then (False, s)
      else
        let absolute_index = clks_inputm_candidate_page s * CLKS_INPUTM_CAND_PAGE_SIZE + candidate_index;
            s1 = (if absolute_index < length (clks_inputm_candidates s)
                  then in_inject tt tty_index (clks_inputm_candidates s ! absolute_index) s
                  else case clks_inputm_lookup_candidate dk (clks_inputm_comp s) absolute_index CLKS_INPUTM_CAND_BYTES s of
                    (Some cand, s2) \<Rightarrow> in_inject tt tty_index cand s2
                  | (None, s2) \<Rightarrow>
                      if flags AND CLKS_INPUTM_FLAG_RULE_COMMIT_RAW \<noteq> 0 then in_inject tt tty_index (clks_inputm_comp s) s2 else s2)
        in (True, end_comp tt s1))"

definition clks_inputm_init :: "'d disk_ops \<Rightarrow> 't tty_ops \<Rightarrow> ('d, 't) input_state \<Rightarrow> ('d, 't) input_state" where
  "clks_inputm_init dk tt s =
     (let s1 = s\<lparr>clks_inputm_entries := map (\<lambda>e. e\<lparr>ie_used := False, ie_name := [], ie_path := [], ie_flags := 0\<rparr>) (clks_inputm_entries s),
                 clks_inputm_entry_count := 0, clks_inputm_current_index := 0, clks_inputm_comp := []\<rparr>;
          s2 = (clks_inputm_clear_candidates s1)\<lparr>clks_inputm_status := []\<rparr>;
          s3 = snd (clks_inputm_register_internal (Some ''SystemENG'') (Some ''builtin'') 0 s2)
      in clks_inputm_refresh_status tt (clks_inputm_detect_userland_imes dk s3))"

definition clks_inputm_count :: "('d, 't) input_state \<Rightarrow> nat" where
  "clks_inputm_count s = clks_inputm_entry_count s"

definition clks_inputm_info_at :: "nat \<Rightarrow> ('d, 't) input_state \<Rightarrow> clks_inputm_info option" where
  "clks_inputm_info_at index s =
     (if index \<ge> clks_inputm_entry_count s \<or> \<not> ie_used (clks_inputm_entries s ! index) then None
      else let e = clks_inputm_entries s ! index in
        Some \<lparr>ii_name = clks_inputm_copy_string CLKS_INPUTM_NAME_MAX (Some (ie_name e)),
              ii_path = clks_inputm_copy_string CLKS_INPUTM_PATH_MAX (Some (ie_path e)),
              ii_rule_path = clks_inputm_copy_string CLKS_INPUTM_PATH_MAX (Some (ie_rule_path e)),
              ii_label = clks_inputm_copy_string CLKS_INPUTM_LABEL_MAX (Some (ie_label e)),
              ii_flags = ie_flags e, ii_active = (if index = clks_inputm_current_index s then 1 else 0)\<rparr>)"

definition clks_inputm_current :: "('d, 't) input_state \<Rightarrow> nat" where
  "clks_inputm_current s = clks_inputm_current_index s"

definition clks_inputm_select :: "'t tty_ops \<Rightarrow> nat \<Rightarrow> ('d, 't) input_state \<Rightarrow> bool \<times> ('d, 't) input_state" where
  "clks_inputm_select tt index s =
     (if index \<ge> clks_inputm_entry_count s \<or> \<not> ie_used (clks_inputm_entries s ! index) then (False, s)
      else (True, end_comp tt (s\<lparr>clks_inputm_current_index := index\<rparr>)))"

definition clks_inputm_register ::
  "'t tty_ops \<Rightarrow> string option \<Rightarrow> string option \<Rightarrow> u64 \<Rightarrow> ('d, 't) input_state \<Rightarrow> nat option \<times> ('d, 't) input_state" where
  "clks_inputm_register tt name path flags s =
     (case clks_inputm_register_internal name path flags s of (r, s1) \<Rightarrow> (r, clks_inputm_refresh_status tt s1))"

definition clks_inputm_register_rule ::
  "'t tty_ops \<Rightarrow> string option \<Rightarrow> string option \<Rightarrow> string option \<Rightarrow> string option \<Rightarrow> u64 \<Rightarrow> ('d, 't) input_state \<Rightarrow>
   nat option \<times> ('d, 't) input_state" where
  "clks_inputm_register_rule tt name path rule_path label flags s =
     (case clks_inputm_register_rule_internal name path rule_path label (flags OR CLKS_INPUTM_FLAG_RULE_TABLE) s of
        (r, s1) \<Rightarrow> (r, clks_inputm_refresh_status tt s1))"

definition clks_inputm_cycle :: "'t tty_ops \<Rightarrow> ('d, 't) input_state \<Rightarrow> ('d, 't) input_state" where
  "clks_inputm_cycle tt s =
     (if clks_inputm_entry_count s = 0 then s
      else snd (clks_inputm_select tt ((clks_inputm_current_index s + 1) mod clks_inputm_entry_count s) s))"

definition clks_inputm_handle_char ::
  "'d disk_ops \<Rightarrow> 't tty_ops \<Rightarrow> nat \<Rightarrow> char \<Rightarrow> ('d, 't) input_state \<Rightarrow> bool \<times> ('d, 't) input_state" where
  "clks_inputm_handle_char dk tt tty_index ch s =
     (if clks_inputm_current_index s \<ge> clks_inputm_entry_count s then (False, s)
      else
        let flags = ie_flags (clks_inputm_entries s ! clks_inputm_current_index s);
            word = clks_inputm_comp s; n = (of_char ch :: nat); pages = page_count s in
        if flags AND CLKS_INPUTM_FLAG_RULE_TABLE = 0 then (False, s)
        else if clks_inputm_is_alpha ch then
          (True, if length word + 1 < CLKS_INPUTM_COMP_MAX
                 then clks_inputm_refresh_status tt (clks_inputm_rebuild_candidates dk
                   (s\<lparr>clks_inputm_comp := word @ [if flags AND CLKS_INPUTM_FLAG_RULE_LOWERCASE \<noteq> 0 then clks_inputm_lower ch else ch]\<rparr>))
                 else s)
        else if 49 \<le> n \<and> n \<le> 53 \<and> word \<noteq> [] then clks_inputm_commit_comp dk tt tty_index (n - 49) flags s
        else if ch = CHR ''+'' \<and> word \<noteq> [] then
          (True, if pages > 0
                 then clks_inputm_refresh_status tt (s\<lparr>clks_inputm_candidate_page := (clks_inputm_candidate_page s + 1) mod pages\<rparr>)
                 else s)
        else if ch = CHR ''-'' \<and> word \<noteq> [] then
          (True, if pages > 0
                 then clks_inputm_refresh_status tt (s\<lparr>clks_inputm_candidate_page :=
                   (if clks_inputm_candidate_page s = 0 then pages - 1 else clks_inputm_candidate_page s - 1)\<rparr>)
                 else s)
        else if ch = CHR '' '' \<and> word \<noteq> [] then clks_inputm_commit_comp dk tt tty_index 0 flags s
        else if ch = CHR 0x08 \<and> word \<noteq> [] then
          (True, clks_inputm_refresh_status tt (clks_inputm_rebuild_candidates dk (s\<lparr>clks_inputm_comp := butlast word\<rparr>)))
        else if ch = CHR 0x1B \<and> word \<noteq> [] then (True, end_comp tt s)
        else (False, if word \<noteq> [] then snd (clks_inputm_commit_comp dk tt tty_index 0 flags s) else s))"

definition clks_inputm_status_text :: "('d, 't) input_state \<Rightarrow> string" where
  "clks_inputm_status_text s = clks_inputm_status s"

definition clks_inputm_status_is_composing :: "('d, 't) input_state \<Rightarrow> bool" where
  "clks_inputm_status_is_composing s \<longleftrightarrow> clks_inputm_comp s \<noteq> []"

definition clks_inputm_status_set :: "'t tty_ops \<Rightarrow> string option \<Rightarrow> ('d, 't) input_state \<Rightarrow> ('d, 't) input_state" where
  "clks_inputm_status_set tt text s =
     s\<lparr>clks_inputm_status := clks_inputm_copy_string CLKS_INPUTM_STATUS_MAX text, in_tty := tt_status_refresh tt (in_tty s)\<rparr>"

definition clks_inputm_status_copy :: "nat \<Rightarrow> ('d, 't) input_state \<Rightarrow> string" where
  "clks_inputm_status_copy out_size s = clks_inputm_copy_string out_size (Some (clks_inputm_status s))"

section \<open>The candidates of a composition\<close>

lemma key_rest_eq: "key_rest line key = key_rest_len key line"
  by (induction line key rule: key_rest.induct) (auto simp: key_rest_len_def)

text \<open>
  The reference, which shares nothing with the scanners of the code: a text is cut at every separator and the
  empty pieces are dropped. The lines of a table are its pieces between line feeds and carriage returns, the
  lines for a key are those that start with the key and a tab and not with a hash, and their words are the
  pieces between blanks of what follows the tab.
\<close>

primrec split_at :: "(char \<Rightarrow> bool) \<Rightarrow> string \<Rightarrow> string list" where
  "split_at sep [] = [[]]"
| "split_at sep (c # cs) = (case split_at sep cs of [] \<Rightarrow> [] | p # ps \<Rightarrow> if sep c then [] # p # ps else (c # p) # ps)"

lemma split_at_ne [simp]: "split_at sep t \<noteq> []"
  by (induction t) (auto split: list.split)

definition text_pieces :: "(char \<Rightarrow> bool) \<Rightarrow> string \<Rightarrow> string list" where
  "text_pieces sep t = filter (\<lambda>p. p \<noteq> []) (split_at sep t)"

definition table_words :: "string \<Rightarrow> string \<Rightarrow> string list list" where
  "table_words data key = map (\<lambda>line. text_pieces (\<lambda>c. c = CHR '' '') (drop (length key + 1) line))
     (filter (\<lambda>line. take 1 line \<noteq> ''#'' \<and> take (length key + 1) line = key @ [CHR 0x09])
       (text_pieces (\<lambda>c. c \<in> {CHR 0x0A, CHR 0x0D}) data))"

text \<open>The scanners of the code find these lines and words.\<close>

lemma split_at_unfold:
  "split_at sep t = takeWhile (\<lambda>c. \<not> sep c) t # (case dropWhile (\<lambda>c. \<not> sep c) t of [] \<Rightarrow> [] | c # r \<Rightarrow> split_at sep r)"
  by (induction t) auto

lemma split_at_sep: "sep c \<Longrightarrow> split_at sep (c # cs) = [] # split_at sep cs"
  by (auto split: list.split)

lemma text_pieces_skip: "text_pieces sep (dropWhile sep t) = text_pieces sep t"
  by (induction t) (auto simp: text_pieces_def split_at_sep simp del: split_at.simps(2))

lemma text_pieces_tl: "text_pieces sep (tl (dropWhile (\<lambda>c. \<not> sep c) t)) = text_pieces sep (dropWhile (\<lambda>c. \<not> sep c) t)"
  by (induction t) (auto simp: text_pieces_def split_at_sep simp del: split_at.simps(2))

lemma text_pieces_unfold:
  "text_pieces sep t = (let w = takeWhile (\<lambda>c. \<not> sep c) t; r = text_pieces sep (dropWhile (\<lambda>c. \<not> sep c) t) in if w \<noteq> [] then w # r else r)"
proof (cases "dropWhile (\<lambda>c. \<not> sep c) t")
  case Nil
  then show ?thesis unfolding text_pieces_def by (subst split_at_unfold) (simp add: Nil Let_def del: dropWhile_eq_Nil_conv)
next
  case (Cons c r)
  then have "sep c" using hd_dropWhile [of "\<lambda>c. \<not> sep c" t] by auto
  with Cons show ?thesis unfolding text_pieces_def by (subst split_at_unfold) (simp add: Let_def split_at_sep del: split_at.simps(2))
qed

lemma rule_lines_pieces: "filter (\<lambda>p. p \<noteq> []) (rule_lines data) = text_pieces (\<lambda>c. c \<in> {CHR 0x0A, CHR 0x0D}) data"
proof (induction data rule: rule_lines.induct)
  case (2 c cs)
  have e: "(\<lambda>c. c \<in> {CHR 0x0A, CHR 0x0D}) = eol" by (auto simp: eol_def)
  show ?case
    using 2 text_pieces_unfold [of eol "c # cs"] unfolding e by (simp only: rule_lines.simps filter.simps Let_def text_pieces_skip)
qed (simp add: text_pieces_def)

lemma line_words_pieces: "line_words line = text_pieces (\<lambda>c. c = CHR '' '') line"
proof (induction line rule: line_words.induct)
  case (2 c cs)
  define r where "r = dropWhile (\<lambda>x. x = CHR '' '') (c # cs)"
  define v where "v = takeWhile (\<lambda>x. x \<noteq> CHR '' '') r"
  have d: "drop (length v + 1) r = tl (dropWhile (\<lambda>x. x \<noteq> CHR '' '') r)"
    by (simp add: v_def dropWhile_eq_drop drop_Suc tl_drop)
  have "text_pieces (\<lambda>c. c = CHR '' '') (c # cs) = text_pieces (\<lambda>c. c = CHR '' '') r"
    unfolding r_def by (rule text_pieces_skip [symmetric])
  also have "\<dots> = (if v \<noteq> [] then v # line_words (drop (length v + 1) r) else line_words (drop (length v + 1) r))"
    using text_pieces_unfold [of "\<lambda>c. c = CHR '' ''" r] text_pieces_tl [of "\<lambda>c. c = CHR '' ''" r] 2 [OF r_def v_def]
    unfolding v_def [symmetric] d Let_def by (simp only: )
  also have "\<dots> = line_words (c # cs)" by (simp only: line_words.simps Let_def r_def v_def)
  finally show ?case ..
qed (simp add: text_pieces_def)

lemma key_rest_len_take:
  "key_rest_len key line = (if take (length key + 1) line = key @ [CHR 0x09] then Some (drop (length key + 1) line) else None)"
proof -
  have "take (length key + 1) line = key @ [c] \<longleftrightarrow> length key < length line \<and> take (length key) line = key \<and> line ! length key = c" for c
    by (cases "length key < length line") (auto simp: take_Suc_conv_app_nth)
  then show ?thesis by (auto simp: key_rest_len_def)
qed

lemma table_words_code:
  "table_words data key = List.map_filter (\<lambda>line. if rule_line line then map_option line_words (key_rest_len key line) else None) (rule_lines data)"
proof -
  have h: "take 1 line \<noteq> ''#'' \<longleftrightarrow> hd line \<noteq> CHR ''#''" if "line \<noteq> []" for line :: string
    using that by (cases line) auto
  have "List.map_filter (\<lambda>line. if rule_line line then map_option line_words (key_rest_len key line) else None) lines =
      map (\<lambda>line. text_pieces (\<lambda>c. c = CHR '' '') (drop (length key + 1) line))
        (filter (\<lambda>line. take 1 line \<noteq> ''#'' \<and> take (length key + 1) line = key @ [CHR 0x09]) (filter (\<lambda>p. p \<noteq> []) lines))" for lines
    by (induction lines) (auto simp: List.map_filter_simps rule_line_def key_rest_len_take line_words_pieces h simp del: One_nat_def)
  then show ?thesis by (simp only: table_words_def rule_lines_pieces)
qed

text \<open>At most two alternatives for a syllable: of the first line that has one, and of the first that has two.\<close>

definition nth_word :: "string \<Rightarrow> string \<Rightarrow> nat \<Rightarrow> string option" where
  "nth_word data key alt = map_option (\<lambda>ws. take 63 (ws ! alt)) (find (\<lambda>ws. alt < length ws) (table_words data key))"

definition alternatives :: "string \<Rightarrow> string \<Rightarrow> string list" where
  "alternatives data key = (case nth_word data key 0 of None \<Rightarrow> []
     | Some a \<Rightarrow> a # (case nth_word data key 1 of None \<Rightarrow> [] | Some b \<Rightarrow> [b]))"

text \<open>All phrases for the rest of a composition, given the phrase so far and the number of parts that are left.\<close>

primrec phrases :: "nat \<Rightarrow> string \<Rightarrow> string \<Rightarrow> string \<Rightarrow> string list" where
  "phrases 0 = (\<lambda>data word phrase. [])"
| "phrases (Suc n) = (\<lambda>data word phrase.
     if word = [] then (if phrase = [] then [] else [phrase])
     else concat (map (\<lambda>end. concat (map (\<lambda>cand. phrases n data (drop end word) (take 63 (phrase @ cand)))
       (alternatives data (take end word)))) [1..<min (length word) 6 + 1]))"

text \<open>A list without repetitions: the first occurrence of each element.\<close>

fun uniq :: "'a list \<Rightarrow> 'a list" where
  "uniq [] = []"
| "uniq (x # xs) = x # filter (\<lambda>y. y \<noteq> x) (uniq xs)"

definition no_nul :: "string \<Rightarrow> bool" where
  "no_nul s \<longleftrightarrow> CHR 0x00 \<notin> set s"

lemma c_text_id: "no_nul s \<Longrightarrow> c_text s = s"
  by (simp add: no_nul_def c_text_def takeWhile_eq_all_conv) metis

lemma no_nul_sub: "no_nul s \<Longrightarrow> set t \<subseteq> set s \<Longrightarrow> no_nul t"
  by (auto simp: no_nul_def)

lemma rule_lines_set: "line \<in> set (rule_lines data) \<Longrightarrow> set line \<subseteq> set data"
proof (induction data rule: rule_lines.induct)
  case (2 c cs)
  have "set (dropWhile eol (dropWhile (\<lambda>x. \<not> eol x) (c # cs))) \<subseteq> set (c # cs)"
    using set_dropWhileD by (metis subsetI)
  moreover have "set (takeWhile (\<lambda>x. \<not> eol x) (c # cs)) \<subseteq> set (c # cs)" by (meson set_takeWhileD subsetI)
  ultimately show ?case using 2 by (simp only: rule_lines.simps list.set) blast
qed simp

lemma line_words_set: "w \<in> set (line_words line) \<Longrightarrow> w \<noteq> [] \<and> set w \<subseteq> set line"
proof (induction line rule: line_words.induct)
  case (2 c cs)
  define r where "r = dropWhile (\<lambda>x. x = CHR '' '') (c # cs)"
  define v where "v = takeWhile (\<lambda>x. x \<noteq> CHR '' '') r"
  have r: "set r \<subseteq> set (c # cs)" unfolding r_def by (meson set_dropWhileD subsetI)
  have v: "set v \<subseteq> set r" unfolding v_def by (meson set_takeWhileD subsetI)
  have IH: "w \<in> set (line_words (drop (length v + 1) r)) \<Longrightarrow> w \<noteq> [] \<and> set w \<subseteq> set (drop (length v + 1) r)"
    using 2(1) [OF r_def v_def] .
  have d: "set (drop (length v + 1) r) \<subseteq> set r" by (rule set_drop_subset)
  have e: "line_words (c # cs) = (if v \<noteq> [] then v # line_words (drop (length v + 1) r) else line_words (drop (length v + 1) r))"
    by (simp only: line_words.simps Let_def r_def v_def)
  from 2(2) have "w = v \<and> v \<noteq> [] \<or> w \<in> set (line_words (drop (length v + 1) r))"
    unfolding e by (auto split: if_splits)
  with IH r v d show ?case by blast
qed simp

lemma table_words_set:
  assumes "ws \<in> set (table_words data key)" "w \<in> set ws"
  shows "w \<noteq> []" "set w \<subseteq> set data"
proof -
  from assms(1) obtain line where l: "line \<in> set (rule_lines data)" "rule_line line" and
    k: "map_option line_words (key_rest_len key line) = Some ws"
    by (auto simp: table_words_code List.map_filter_def split: if_splits)
  then obtain r where r: "key_rest_len key line = Some r" "ws = line_words r" by auto
  have "set r \<subseteq> set line" using r(1) by (auto simp: key_rest_len_def split: if_splits dest: in_set_dropD)
  with rule_lines_set [OF l(1)] line_words_set [of w r] assms(2) r(2) show "w \<noteq> []" "set w \<subseteq> set data" by auto
qed

lemma lookup_lines_table:
  assumes "no_nul data" "set lines \<subseteq> set (rule_lines data)"
  shows "lookup_lines (key_rest_len key) lines alt 64 = map_option (\<lambda>ws. take 63 (ws ! alt))
    (find (\<lambda>ws. alt < length ws) (List.map_filter (\<lambda>line. if rule_line line then map_option line_words (key_rest_len key line) else None) lines))"
  using assms(2)
proof (induction lines)
  case (Cons line lines)
  have "c_text (take 63 (line_words r ! alt)) = take 63 (line_words r ! alt)"
    if "rule_line line" "key_rest_len key line = Some r" "alt < length (line_words r)" for r
  proof (rule c_text_id, rule no_nul_sub [OF assms(1)])
    have "line_words r \<in> set (table_words data key)"
      using that Cons.prems by (force simp: table_words_code List.map_filter_def)
    from table_words_set(2) [OF this nth_mem [OF that(3)]]
    show "set (take 63 (line_words r ! alt)) \<subseteq> set data" by (meson in_set_takeD subset_iff)
  qed
  with Cons show ?case by (auto simp: List.map_filter_simps cand_copy_def split: option.splits)
qed (simp add: List.map_filter_simps)

lemma lookup_nth_word:
  "no_nul data \<Longrightarrow> key \<noteq> [] \<Longrightarrow> clks_inputm_lookup_candidate_in_data data key alt CLKS_INPUTM_CAND_BYTES = nth_word data key alt"
  by (simp add: clks_inputm_lookup_candidate_in_data_def nth_word_def table_words_code lookup_lines_table CLKS_INPUTM_CAND_BYTES_def)

lemma add_full: "length cs \<ge> 64 \<Longrightarrow> clks_inputm_add_candidate w cs = cs"
  by (simp add: clks_inputm_add_candidate_def CLKS_INPUTM_CAND_MAX_def)

lemma fold_add_full: "length cs \<ge> 64 \<Longrightarrow> fold clks_inputm_add_candidate ws cs = cs"
  by (induction ws) (simp_all add: add_full)

lemma alts_fold:
  "split_alts look rec [0..<2] cs =
     fold rec (case look 0 of None \<Rightarrow> [] | Some a \<Rightarrow> a # (case look (Suc 0) of None \<Rightarrow> [] | Some b \<Rightarrow> [b])) cs"
  by (simp add: upt_rec split: option.split)

lemma fold_concat: "fold f (concat xss) s = fold (\<lambda>xs. fold f xs) xss s"
  by (induction xss arbitrary: s) simp_all

lemma nth_word_bound: "nth_word data key alt = Some w \<Longrightarrow> length w \<le> 63"
  by (auto simp: nth_word_def)

lemma split_rec_phrases:
  assumes "no_nul data"
  shows "length phrase \<le> 63 \<Longrightarrow>
    clks_inputm_rebuild_split_candidates_rec n data word phrase cs = fold clks_inputm_add_candidate (phrases n data word phrase) cs"
proof (induction n arbitrary: word phrase cs)
  case (Suc n)
  show ?case
  proof (cases "length cs \<ge> 64")
    case True
    then show ?thesis by (simp add: fold_add_full CLKS_INPUTM_CAND_MAX_def)
  next
    case False
    have app: "clks_inputm_append_candidate_bytes CLKS_INPUTM_CAND_BYTES phrase cand = take 63 (phrase @ cand)" for cand
      using Suc.prems by (simp add: clks_inputm_append_candidate_bytes_def CLKS_INPUTM_CAND_BYTES_def)
    have one: "split_alts (\<lambda>alt. clks_inputm_lookup_candidate_in_data data (take end word) alt CLKS_INPUTM_CAND_BYTES)
         (\<lambda>cand cs. clks_inputm_rebuild_split_candidates_rec n data (drop end word) (take 63 (phrase @ cand)) cs) [0..<2] cs =
       fold clks_inputm_add_candidate (concat (map (\<lambda>cand. phrases n data (drop end word) (take 63 (phrase @ cand))) (alternatives data (take end word)))) cs"
      if "0 < end" "word \<noteq> []" for "end" cs
    proof -
      have k: "take end word \<noteq> []" using that by simp
      have l: "length (take 63 (phrase @ cand)) \<le> 63" for cand by simp
      show ?thesis
        unfolding alts_fold lookup_nth_word [OF assms k] Suc.IH [OF l] alternatives_def
        by (simp split: option.split)
    qed
    have f: "fold (\<lambda>end cs. split_alts (\<lambda>alt. clks_inputm_lookup_candidate_in_data data (take end word) alt CLKS_INPUTM_CAND_BYTES)
         (\<lambda>cand cs. clks_inputm_rebuild_split_candidates_rec n data (drop end word) (take 63 (phrase @ cand)) cs) [0..<2] cs) ends cs =
       fold clks_inputm_add_candidate (concat (map (\<lambda>end. concat (map (\<lambda>cand. phrases n data (drop end word) (take 63 (phrase @ cand)))
         (alternatives data (take end word)))) ends)) cs"
      if "\<forall>end \<in> set ends. 0 < end" "word \<noteq> []" for ends cs
      using that(1) by (induction ends arbitrary: cs) (simp_all add: one that(2) del: take_append)
    have "\<forall>end \<in> set [1..<min (length word) 6 + 1]. 0 < end" by auto
    from f [OF this] False show ?thesis
      by (simp add: app CLKS_INPUTM_CAND_MAX_def CLKS_INPUTM_SPLIT_ALT_MAX_def CLKS_INPUTM_SPLIT_MAX_SYLLABLE_def del: upt_Suc upt.simps take_append)
  qed
qed simp

lemma whole_lines_table:
  "whole_lines word lines cs = fold clks_inputm_add_candidate (concat (List.map_filter
     (\<lambda>line. if rule_line line then map_option line_words (key_rest_len word line) else None) lines)) cs"
proof (induction lines arbitrary: cs)
  case (Cons line lines)
  show ?case
  proof (cases "length cs \<ge> 64")
    case True
    then show ?thesis by (simp add: fold_add_full CLKS_INPUTM_CAND_MAX_def)
  next
    case False
    then show ?thesis
      using Cons by (simp add: CLKS_INPUTM_CAND_MAX_def key_rest_eq List.map_filter_simps split: option.split)
  qed
qed (simp add: List.map_filter_simps)

lemma uniq_add:
  assumes "\<forall>x \<in> set xs. no_nul x \<and> x \<noteq> []" "length cs \<le> 64"
  shows "fold clks_inputm_add_candidate xs cs = take 64 (cs @ filter (\<lambda>y. y \<notin> set cs) (uniq (map (take 63) xs)))"
  using assms
proof (induction xs arbitrary: cs)
  case (Cons x xs)
  let ?y = "take 63 x" and ?u = "uniq (map (take 63) xs)"
  have y: "c_text ?y = ?y" by (intro c_text_id, rule no_nul_sub [OF _ set_take_subset]) (use Cons.prems(1) in simp)
  show ?case
  proof (cases "length cs = 64")
    case True
    then have "fold clks_inputm_add_candidate (x # xs) cs = cs" by (intro fold_add_full) simp
    moreover have "take 64 (cs @ zs) = cs" for zs using True by simp
    ultimately show ?thesis by (simp only:)
  next
    case False
    then have add: "clks_inputm_add_candidate x cs = (if ?y \<in> set cs then cs else cs @ [?y])"
      using Cons.prems y by (simp add: clks_inputm_add_candidate_def CLKS_INPUTM_CAND_MAX_def CLKS_INPUTM_CAND_BYTES_def)
    show ?thesis
    proof (cases "?y \<in> set cs")
      case True
      then have "filter (\<lambda>y. y \<notin> set cs) (filter (\<lambda>y. y \<noteq> ?y) ?u) = filter (\<lambda>y. y \<notin> set cs) ?u"
        unfolding filter_filter by (intro filter_cong) auto
      with True Cons show ?thesis by (simp add: add)
    next
      case new: False
      have l: "length (cs @ [?y]) \<le> 64" using Cons.prems(2) False by simp
      have f: "filter (\<lambda>y. y \<notin> set cs) (filter (\<lambda>y. y \<noteq> ?y) ?u) = filter (\<lambda>y. y \<notin> set (cs @ [?y])) ?u"
        unfolding filter_filter by (rule filter_cong) auto
      have "fold clks_inputm_add_candidate xs (cs @ [?y]) = take 64 ((cs @ [?y]) @ filter (\<lambda>y. y \<notin> set (cs @ [?y])) ?u)"
        by (rule Cons.IH [OF _ l]) (use Cons.prems(1) in simp)
      moreover have "filter (\<lambda>z. z \<notin> set cs) (?y # filter (\<lambda>y. y \<noteq> ?y) ?u) = ?y # filter (\<lambda>y. y \<notin> set (cs @ [?y])) ?u"
        using new f by simp
      ultimately show ?thesis
        by (simp only: fold_simps add new if_False list.map uniq.simps append.assoc append_Cons append_Nil)
    qed
  qed
qed simp

lemma take_join: "take n (take n (p @ c) @ r) = take n (p @ c @ r)"
proof -
  have "take n (take n a @ r) = take n (a @ r)" for a by (simp add: min_def)
  from this [of "p @ c"] show ?thesis by (simp only: append.assoc)
qed

lemma phrases_set:
  "length p \<le> 63 \<Longrightarrow> x \<in> set (phrases n data w p) \<longleftrightarrow>
    (\<exists>parts. length parts < n \<and> concat (map fst parts) = w \<and> x = take 63 (p @ concat (map snd parts)) \<and> x \<noteq> [] \<and>
       (\<forall>(k, c) \<in> set parts. k \<noteq> [] \<and> length k \<le> 6 \<and> c \<in> set (alternatives data k)))"
proof (induction n arbitrary: w p)
  case (Suc n)
  show ?case
  proof (cases "w = []")
    case True
    have e: "concat (map fst parts) = w \<and> (\<forall>(k, c) \<in> set parts. k \<noteq> [] \<and> length k \<le> 6 \<and> c \<in> set (alternatives data k)) \<longleftrightarrow> parts = []"
      for parts :: "(string \<times> string) list" using True by (cases parts) auto
    have "(\<exists>parts. length parts < Suc n \<and> concat (map fst parts) = w \<and> x = take 63 (p @ concat (map snd parts)) \<and> x \<noteq> [] \<and>
       (\<forall>(k, c) \<in> set parts. k \<noteq> [] \<and> length k \<le> 6 \<and> c \<in> set (alternatives data k))) \<longleftrightarrow>
      (\<exists>parts. (concat (map fst parts) = w \<and> (\<forall>(k, c) \<in> set parts. k \<noteq> [] \<and> length k \<le> 6 \<and> c \<in> set (alternatives data k))) \<and>
       length parts < Suc n \<and> x = take 63 (p @ concat (map snd parts)) \<and> x \<noteq> [])"
      by (rule ex_cong1) (simp only: conj_ac)
    also have "\<dots> \<longleftrightarrow> x = p \<and> x \<noteq> []" unfolding e using Suc.prems by simp
    finally show ?thesis using True by auto
  next
    case False
    have IH: "x \<in> set (phrases n data (drop i w) (take 63 (p @ c))) \<longleftrightarrow>
      (\<exists>parts. length parts < n \<and> concat (map fst parts) = drop i w \<and> x = take 63 (p @ c @ concat (map snd parts)) \<and> x \<noteq> [] \<and>
       (\<forall>(k, c) \<in> set parts. k \<noteq> [] \<and> length k \<le> 6 \<and> c \<in> set (alternatives data k)))" for i c
      using Suc.IH [of "take 63 (p @ c)" "drop i w"] unfolding take_join by (simp del: take_append)
    have L: "x \<in> set (phrases (Suc n) data w p) \<longleftrightarrow> (\<exists>i c. 1 \<le> i \<and> i \<le> min (length w) 6 \<and> c \<in> set (alternatives data (take i w)) \<and>
        x \<in> set (phrases n data (drop i w) (take 63 (p @ c))))"
      using False by (simp add: less_Suc_eq_le Bex_def conj_assoc del: take_append upt_Suc)
    show ?thesis unfolding L IH
    proof (intro iffI; elim exE conjE)
      fix i c and parts :: "(string \<times> string) list"
      assume a: "1 \<le> i" "i \<le> min (length w) 6" "c \<in> set (alternatives data (take i w))" "length parts < n"
        "concat (map fst parts) = drop i w" "x = take 63 (p @ c @ concat (map snd parts))" "x \<noteq> []"
        "\<forall>(k, c) \<in> set parts. k \<noteq> [] \<and> length k \<le> 6 \<and> c \<in> set (alternatives data k)"
      have "take i w \<noteq> []" using a(1) False by simp
      then show "\<exists>parts. length parts < Suc n \<and> concat (map fst parts) = w \<and> x = take 63 (p @ concat (map snd parts)) \<and> x \<noteq> [] \<and>
         (\<forall>(k, c) \<in> set parts. k \<noteq> [] \<and> length k \<le> 6 \<and> c \<in> set (alternatives data k))"
        using a by (intro exI [of _ "(take i w, c) # parts"]) auto
    next
      fix parts :: "(string \<times> string) list"
      assume a: "length parts < Suc n" "concat (map fst parts) = w" "x = take 63 (p @ concat (map snd parts))" "x \<noteq> []"
        "\<forall>(k, c) \<in> set parts. k \<noteq> [] \<and> length k \<le> 6 \<and> c \<in> set (alternatives data k)"
      from a(2) False obtain k c ps where parts: "parts = (k, c) # ps" by (cases parts) auto
      have w: "w = k @ concat (map fst ps)" using a(2) parts by simp
      show "\<exists>i c. 1 \<le> i \<and> i \<le> min (length w) 6 \<and> c \<in> set (alternatives data (take i w)) \<and>
        (\<exists>parts. length parts < n \<and> concat (map fst parts) = drop i w \<and> x = take 63 (p @ c @ concat (map snd parts)) \<and> x \<noteq> [] \<and>
          (\<forall>(k, c) \<in> set parts. k \<noteq> [] \<and> length k \<le> 6 \<and> c \<in> set (alternatives data k)))"
        using a parts by (intro exI [of _ "length k"] exI [of _ c] conjI exI [of _ ps]) (auto simp: w Suc_le_eq)
    qed
  qed
qed simp

lemma table_concat_words:
  assumes "no_nul data" "w \<in> set (concat (table_words data key))"
  shows "no_nul w \<and> w \<noteq> []"
proof -
  from assms(2) obtain ws where "ws \<in> set (table_words data key)" "w \<in> set ws" by auto
  with table_words_set [OF this] no_nul_sub [OF assms(1), of w] show ?thesis by blast
qed

lemma alternatives_no_nul:
  assumes "no_nul data" "c \<in> set (alternatives data key)"
  shows "no_nul c"
proof -
  have "no_nul w" if "nth_word data key i = Some w" for i w
  proof -
    from that obtain ws where ws: "find (\<lambda>ws. i < length ws) (table_words data key) = Some ws" "w = take 63 (ws ! i)"
      by (auto simp: nth_word_def)
    then have "ws \<in> set (table_words data key)" "i < length ws" by (auto dest: find_Some_in)
    then have "ws ! i \<in> set (concat (table_words data key))" by (metis UN_I nth_mem set_concat)
    from table_concat_words [OF assms(1) this] have "no_nul (ws ! i)" ..
    then show ?thesis unfolding ws(2) by (rule no_nul_sub) (rule set_take_subset)
  qed
  with assms(2) show ?thesis by (auto simp: alternatives_def split: option.splits)
qed

lemma phrases_no_nul:
  assumes "no_nul data" "x \<in> set (phrases n data w [])"
  shows "no_nul x \<and> x \<noteq> []"
proof -
  from assms(2) obtain parts where p: "x = take 63 (concat (map snd parts))" "x \<noteq> []"
    "\<forall>(k, c) \<in> set parts. k \<noteq> [] \<and> length k \<le> 6 \<and> c \<in> set (alternatives data k)"
    using phrases_set [of "[]" x n data w] by auto
  have "no_nul (concat (map snd parts))"
    using p(3) alternatives_no_nul [OF assms(1)] by (induction parts) (auto simp: no_nul_def)
  then have "no_nul x" unfolding p(1) by (rule no_nul_sub) (rule set_take_subset)
  with p(2) show ?thesis by simp
qed

text \<open>C38.
  The candidates for a composition are exactly what the rule table gives: the words of every line whose key
  is the whole composition, in the order of the file, followed, for a method that splits, by the phrases for
  all ways to cut the composition into at most eleven keys of at most six letters, each replaced by one of
  at most two words of the table; cut to 63 bytes, each once, at its first place, and at most 64 of them.
  The recursion with its early exits, the copies into fixed arrays and the search for repetitions lose and
  add nothing else. The table (\<open>table_words\<close>: lines end at a line feed or a carriage return, a line that starts
  with a hash is a comment, the words behind the key and its tab are separated by blanks) is specified without
  the code's scanners. It is assumed that the file is there and holds no NUL byte: a word with one would be cut
  there when it is read back as a C string.\<close>

theorem candidates_of_composition:
  assumes "clks_inputm_current_index s < clks_inputm_entry_count s"
    and e: "e = clks_inputm_entries s ! clks_inputm_current_index s" "ie_rule_path e \<noteq> []"
    and word: "clks_inputm_comp s = word" "word \<noteq> []"
    and rd: "clks_fs_read_all dk (Some (ie_rule_path e)) (in_fs s) = (Some bs, fs)" "bs \<noteq> []"
    and data: "data = file_text bs" "no_nul data"
  shows "clks_inputm_candidates (clks_inputm_rebuild_candidates dk s) =
      take 64 (uniq (map (take 63) (concat (table_words data word) @
        (if ie_flags e AND CLKS_INPUTM_FLAG_RULE_SPLIT \<noteq> 0 \<and> 2 \<le> length word then phrases 12 data word [] else [])))) \<and>
    clks_inputm_candidate_page (clks_inputm_rebuild_candidates dk s) = 0 \<and>
    (\<forall>x. x \<in> set (phrases 12 data word []) \<longleftrightarrow>
      (\<exists>parts. length parts < 12 \<and> concat (map fst parts) = word \<and> x = take 63 (concat (map snd parts)) \<and> x \<noteq> [] \<and>
         (\<forall>(k, c) \<in> set parts. k \<noteq> [] \<and> length k \<le> 6 \<and> c \<in> set (alternatives data k))))"
proof -
  let ?A = "concat (table_words data word)" and ?B = "phrases 12 data word []"
  let ?split = "ie_flags e AND CLKS_INPUTM_FLAG_RULE_SPLIT \<noteq> 0"
  define cs where "cs = fold clks_inputm_add_candidate ?A []"
  have whole: "whole_lines word (rule_lines data) [] = cs"
    unfolding whole_lines_table cs_def table_words_code ..
  have split: "clks_inputm_rebuild_split_candidates data word cs =
      (if length word < 2 then cs else fold clks_inputm_add_candidate ?B cs)"
    using split_rec_phrases [OF data(2), of "[]" 12 word cs]
    by (simp add: clks_inputm_rebuild_split_candidates_def CLKS_INPUTM_SPLIT_MAX_PARTS_def)
  have rr: "read_rules dk (ie_rule_path e) (clks_inputm_clear_candidates s) =
      (Some data, (clks_inputm_clear_candidates s)\<lparr>in_fs := fs\<rparr>)"
    using rd data(1) by (simp add: read_rules_def clks_inputm_clear_candidates_def)
  have r: "clks_inputm_candidates (clks_inputm_rebuild_candidates dk s) =
      (if length cs < 64 \<and> ?split then clks_inputm_rebuild_split_candidates data word cs else cs) \<and>
    clks_inputm_candidate_page (clks_inputm_rebuild_candidates dk s) = 0"
    using assms(1) e(2) word rr unfolding clks_inputm_rebuild_candidates_def Let_def
    by (simp add: e(1) [symmetric] whole CLKS_INPUTM_CAND_MAX_def clks_inputm_clear_candidates_def)
  have "clks_inputm_candidates (clks_inputm_rebuild_candidates dk s) =
      fold clks_inputm_add_candidate (?A @ (if ?split \<and> 2 \<le> length word then ?B else [])) []"
  proof -
    have "fold clks_inputm_add_candidate (?A @ (if c then ?B else [])) [] = (if c then fold clks_inputm_add_candidate ?B cs else cs)"
      for c by (simp add: cs_def)
    then show ?thesis using r fold_add_full [of cs] by (auto simp: split not_less)
  qed
  also have "\<dots> = take 64 ([] @ filter (\<lambda>y. y \<notin> set []) (uniq (map (take 63) (?A @ (if ?split \<and> 2 \<le> length word then ?B else [])))))"
  proof (rule uniq_add)
    show "\<forall>x \<in> set (?A @ (if ?split \<and> 2 \<le> length word then ?B else [])). no_nul x \<and> x \<noteq> []"
    proof
      fix x assume "x \<in> set (?A @ (if ?split \<and> 2 \<le> length word then ?B else []))"
      then have "x \<in> set ?A \<or> x \<in> set ?B" by (auto split: if_splits)
      with table_concat_words [OF data(2)] phrases_no_nul [OF data(2)] show "no_nul x \<and> x \<noteq> []" by blast
    qed
  qed simp
  finally have c: "clks_inputm_candidates (clks_inputm_rebuild_candidates dk s) =
      take 64 (uniq (map (take 63) (?A @ (if ?split \<and> 2 \<le> length word then ?B else []))))"
    by simp
  have p: "x \<in> set ?B \<longleftrightarrow>
      (\<exists>parts. length parts < 12 \<and> concat (map fst parts) = word \<and> x = take 63 (concat (map snd parts)) \<and> x \<noteq> [] \<and>
         (\<forall>(k, c) \<in> set parts. k \<noteq> [] \<and> length k \<le> 6 \<and> c \<in> set (alternatives data k)))" for x
    using phrases_set [of "[]" x 12 data word] by (simp only: append_Nil list.size le0)
  show ?thesis by (intro conjI allI c conjunct2 [OF r] p)
qed

text \<open>A disk whose files all hold one small table, for the example.\<close>

definition demo_rules :: string where
  "demo_rules = ''# small'' @ [CHR 0x0A] @ ''n'' @ [CHR 0x09] @ ''A B'' @ [CHR 0x0D, CHR 0x0A] @ ''h'' @ [CHR 0x09] @ ''C''"

definition rule_disk :: "unit disk_ops" where
  "rule_disk = no_disk\<lparr>dk_path_in_mount := (\<lambda>_ _. True), dk_read_all := (\<lambda>_ w. (Some (map of_char demo_rules), w))\<rparr>"

definition demo_input :: "(unit, unit) input_state" where
  "demo_input = \<lparr>in_kbd = kbd_boot,
     clks_inputm_entries = replicate 8 \<lparr>ie_used = True, ie_name = ''x'', ie_path = [], ie_rule_path = ''/r'', ie_label = [], ie_flags = 0xF00\<rparr>,
     clks_inputm_entry_count = 1, clks_inputm_current_index = 0, clks_inputm_comp = ''nh'', clks_inputm_candidates = [],
     clks_inputm_candidate_page = 0, clks_inputm_status = [], in_fs = blank_fs\<lparr>clks_fs_ready := True\<rparr>, in_tty = ()\<rparr>"

lemma file_text_of_char [simp]: "file_text (map of_char t) = t"
proof -
  have "char_of (unat (of_char c :: u8)) = c" for c
  proof -
    have "(of_char c :: u8) = of_nat (of_char c)" by (simp add: of_nat_of_char)
    moreover have "(of_char c :: nat) < 256" by (rule nat_of_char_less_256)
    ultimately have "unat (of_char c :: u8) = of_char c" by (simp add: unat_of_nat)
    then show ?thesis by simp
  qed
  then show ?thesis by (induction t) (simp_all add: file_text_def)
qed

theorem candidates_of_composition_witness:
  "clks_inputm_candidates (clks_inputm_rebuild_candidates rule_disk demo_input) = [''AC'', ''BC'']"
proof -
  let ?e = "clks_inputm_entries demo_input ! 0"
  have rd: "clks_fs_read_all rule_disk (Some (ie_rule_path ?e)) (in_fs demo_input) = (Some (map of_char demo_rules), in_fs demo_input)"
    by (simp add: clks_fs_read_all_def demo_input_def rule_disk_def in_mount_def disk_call_def)
  have cur: "clks_inputm_current_index demo_input < clks_inputm_entry_count demo_input" "?e = clks_inputm_entries demo_input ! clks_inputm_current_index demo_input"
    "ie_rule_path ?e \<noteq> []" "clks_inputm_comp demo_input = ''nh''" "''nh'' \<noteq> []" by (simp_all add: demo_input_def)
  have ne: "map of_char demo_rules \<noteq> ([] :: u8 list)" "no_nul demo_rules" by (simp_all add: demo_rules_def no_nul_def)
  have fl: "ie_flags ?e AND CLKS_INPUTM_FLAG_RULE_SPLIT \<noteq> 0" by (simp add: demo_input_def CLKS_INPUTM_FLAG_RULE_SPLIT_def)
  have comp: "take 64 (uniq (map (take 63) (concat (table_words demo_rules ''nh'') @ phrases 12 demo_rules ''nh'' []))) = [''AC'', ''BC'']"
    by code_simp
  from candidates_of_composition [OF cur rd ne(1) file_text_of_char [symmetric] ne(2)] fl comp show ?thesis by simp
qed
end
