(* ===== verification/Clks_Input.thy ===== *)
theory Clks_Input
  imports Clks_Inputm
begin

text \<open>
  The handler of scan codes of \<open>kernel/input/keyboard.c\<close>, on the state of keyboard, input method, file
  system and terminals; the invariant of the input state under every sequence of calls; and the way of a
  typed text from the scan codes into the queue of the active terminal.
\<close>

section \<open>The handler\<close>

definition kbd_upd :: "(kbd_state \<Rightarrow> kbd_state) \<Rightarrow> ('d, 't) input_state \<Rightarrow> ('d, 't) input_state" where
  "kbd_upd f s = s\<lparr>in_kbd := f (in_kbd s)\<rparr>"

definition clks_keyboard_try_force_stop_hotkey ::
  "'t tty_ops \<Rightarrow> u8 \<Rightarrow> ('d, 't) input_state \<Rightarrow> bool \<times> ('d, 't) input_state" where
  "clks_keyboard_try_force_stop_hotkey tt code s =
     (if \<not> CLKS_CFG_KBD_FORCE_STOP_HOTKEY then (False, s)
      else if code \<noteq> CLKS_SC_C then (False, s)
      else if \<not> clks_kbd_alt_down (in_kbd s) \<or> \<not> clks_keyboard_ctrl_active (in_kbd s) then (False, s)
      else if clks_kbd_force_stop_latch (in_kbd s) then (True, s)
      else (True, (kbd_upd (\<lambda>k. k\<lparr>clks_kbd_force_stop_latch := True\<rparr>) s)
                    \<lparr>in_tty := tt_force_stop tt (tt_active tt (in_tty s)) (in_tty s)\<rparr>))"

text \<open>A key with the prefix E0.\<close>

definition handle_ext :: "'t tty_ops \<Rightarrow> u8 \<Rightarrow> ('d, 't) input_state \<Rightarrow> ('d, 't) input_state" where
  "handle_ext tt code s =
     (let active_tty = tt_active tt (in_tty s); s1 = kbd_upd (\<lambda>k. k\<lparr>clks_kbd_e0_prefix := False\<rparr>) s in
      if code = CLKS_SC_EXT_PAGEUP then s1\<lparr>in_tty := tt_page_up tt (in_tty s1)\<rparr>
      else if code = CLKS_SC_EXT_PAGEDOWN then s1\<lparr>in_tty := tt_page_down tt (in_tty s1)\<rparr>
      else
        let ext = clks_keyboard_translate_ext_scancode code (in_kbd s1) in
        if ext \<noteq> CHR 0x00
        then kbd_upd (\<lambda>k. snd (clks_keyboard_queue_push_for_tty (tt_count tt (in_tty s1)) active_tty ext k)) s1
        else s1)"

text \<open>The hot key for another terminal.\<close>

definition handle_switch :: "'t tty_ops \<Rightarrow> u8 \<Rightarrow> ('d, 't) input_state \<Rightarrow> ('d, 't) input_state" where
  "handle_switch tt code s =
     (let before = tt_active tt (in_tty s);
          s1 = s\<lparr>in_tty := tt_switch tt (unat (code - CLKS_SC_F1)) (in_tty s)\<rparr> in
      if tt_active tt (in_tty s1) \<noteq> before
      then kbd_upd (\<lambda>k. k\<lparr>clks_kbd_hotkey_switches := clks_kbd_hotkey_switches k + 1\<rparr>) s1 else s1)"

text \<open>A key that may have a character.\<close>

definition handle_plain :: "'d disk_ops \<Rightarrow> 't tty_ops \<Rightarrow> u8 \<Rightarrow> ('d, 't) input_state \<Rightarrow> ('d, 't) input_state" where
  "handle_plain dk tt code s =
     (let active_tty = tt_active tt (in_tty s) in
      case clks_keyboard_try_force_stop_hotkey tt code s of (stopped, s1) \<Rightarrow>
        if stopped then s1
        else case clks_keyboard_try_emit_ctrl_shortcut (tt_count tt (in_tty s1)) code active_tty (in_kbd s1) of (emitted, k2) \<Rightarrow>
          let s2 = s1\<lparr>in_kbd := k2\<rparr>; translated = clks_keyboard_translate_scancode code k2 in
          if emitted \<or> translated = CHR 0x00 then s2
          else case tt_handle_key tt translated (in_tty s2) of (taken, t3) \<Rightarrow>
            let s3 = s2\<lparr>in_tty := t3\<rparr> in
            if taken then s3
            else case clks_inputm_handle_char dk tt active_tty translated s3 of (taken, s4) \<Rightarrow>
              if taken then s4
              else kbd_upd (\<lambda>k. snd (clks_keyboard_queue_push_for_tty (tt_count tt (in_tty s4)) active_tty translated k)) s4)"

text \<open>A key that is pressed, is no modifier and has no prefix.\<close>

definition handle_press :: "'d disk_ops \<Rightarrow> 't tty_ops \<Rightarrow> u8 \<Rightarrow> ('d, 't) input_state \<Rightarrow> ('d, 't) input_state" where
  "handle_press dk tt code s =
     (if CLKS_CFG_KBD_TTY_SWITCH_HOTKEY \<and> clks_kbd_alt_down (in_kbd s) \<and> code \<ge> CLKS_SC_F1 \<and> code \<le> CLKS_SC_F4
      then handle_switch tt code s
      else if code = CLKS_SC_SPACE \<and> clks_keyboard_ctrl_active (in_kbd s) \<and> clks_keyboard_shift_active (in_kbd s)
      then clks_inputm_cycle tt s
      else if code = CLKS_SC_ESC then
        (case tt_handle_key tt (CHR 0x1B) (in_tty s) of (taken, t1) \<Rightarrow>
           let s1 = s\<lparr>in_tty := t1\<rparr> in
           if taken then s1
           else case clks_inputm_handle_char dk tt (tt_active tt (in_tty s1)) (CHR 0x1B) s1 of (taken, s2) \<Rightarrow>
             if taken then s2 else handle_plain dk tt code s2)
      else handle_plain dk tt code s)"

definition clks_keyboard_handle_scancode :: "'d disk_ops \<Rightarrow> 't tty_ops \<Rightarrow> u8 \<Rightarrow> ('d, 't) input_state \<Rightarrow> ('d, 't) input_state" where
  "clks_keyboard_handle_scancode dk tt scancode s =
     (if \<not> clks_kbd_input_ready (in_kbd s) then kbd_upd clks_keyboard_reset_modifier_state s
      else if scancode = CLKS_SC_EXT_PREFIX then kbd_upd (\<lambda>k. k\<lparr>clks_kbd_e0_prefix := True\<rparr>) s
      else
        let released = (scancode AND 0x80 \<noteq> 0); code = scancode AND 0x7F;
            latch = (\<lambda>k. if released then k\<lparr>clks_kbd_force_stop_latch := False\<rparr> else k) in
        if code = CLKS_SC_CTRL then
          kbd_upd (\<lambda>k. if clks_kbd_e0_prefix k then (latch (k\<lparr>clks_kbd_rctrl_down := \<not> released\<rparr>))\<lparr>clks_kbd_e0_prefix := False\<rparr>
                       else latch (k\<lparr>clks_kbd_lctrl_down := \<not> released\<rparr>)) s
        else if code = CLKS_SC_ALT then
          kbd_upd (\<lambda>k. (latch (k\<lparr>clks_kbd_alt_down := \<not> released\<rparr>))\<lparr>clks_kbd_e0_prefix := False\<rparr>) s
        else if code = CLKS_SC_LSHIFT then kbd_upd (\<lambda>k. k\<lparr>clks_kbd_lshift_down := \<not> released\<rparr>) s
        else if code = CLKS_SC_RSHIFT then kbd_upd (\<lambda>k. k\<lparr>clks_kbd_rshift_down := \<not> released\<rparr>) s
        else if released then
          kbd_upd (\<lambda>k. (if code = CLKS_SC_C then k\<lparr>clks_kbd_force_stop_latch := False\<rparr> else k)\<lparr>clks_kbd_e0_prefix := False\<rparr>) s
        else if clks_kbd_e0_prefix (in_kbd s) then handle_ext tt code s
        else handle_press dk tt code s)"

section \<open>The invariant\<close>

definition input_ok :: "('d, 't) input_state \<Rightarrow> bool" where
  "input_ok s \<longleftrightarrow> kbd_ok (in_kbd s) \<and> length (clks_inputm_entries s) = 8 \<and> clks_inputm_entry_count s \<le> 8 \<and>
     (\<forall>i < clks_inputm_entry_count s. ie_used (clks_inputm_entries s ! i) \<and> length (ie_name (clks_inputm_entries s ! i)) < 32 \<and>
        length (ie_label (clks_inputm_entries s ! i)) < 16) \<and>
     clks_inputm_current_index s < clks_inputm_entry_count s \<and>
     length (clks_inputm_comp s) < 32 \<and> list_all clks_inputm_is_alpha (clks_inputm_comp s) \<and>
     length (clks_inputm_candidates s) \<le> 64 \<and> (\<forall>c \<in> set (clks_inputm_candidates s). length c \<le> 63) \<and>
     (clks_inputm_candidate_page s = 0 \<or> clks_inputm_candidate_page s * 5 < length (clks_inputm_candidates s)) \<and>
     (clks_inputm_comp s = [] \<longrightarrow> clks_inputm_candidates s = []) \<and> length (clks_inputm_status s) < 384"

named_theorems input_oks

lemma input_ok_kbd [input_oks]: "input_ok s \<Longrightarrow> kbd_ok k \<Longrightarrow> input_ok (s\<lparr>in_kbd := k\<rparr>)"
  by (simp add: input_ok_def)

lemma input_ok_world [input_oks]: "input_ok s \<Longrightarrow> input_ok (s\<lparr>in_tty := t\<rparr>)" "input_ok s \<Longrightarrow> input_ok (s\<lparr>in_fs := fs\<rparr>)"
  by (simp_all add: input_ok_def)

lemma input_ok_kbd_ok: "input_ok s \<Longrightarrow> kbd_ok (in_kbd s)"
  by (simp add: input_ok_def)

text \<open>The candidates never exceed their array.\<close>

definition cands_ok :: "string list \<Rightarrow> bool" where
  "cands_ok cs \<longleftrightarrow> length cs \<le> 64 \<and> (\<forall>c \<in> set cs. length c \<le> 63)"

lemma c_text_length: "length (c_text w) \<le> length w"
  by (simp add: c_text_def length_takeWhile_le)

lemma cands_add: "cands_ok cs \<Longrightarrow> cands_ok (clks_inputm_add_candidate w cs)"
  using c_text_length [of "take 63 w"]
  by (auto simp: cands_ok_def clks_inputm_add_candidate_def Let_def CLKS_INPUTM_CAND_MAX_def CLKS_INPUTM_CAND_BYTES_def)

lemma cands_fold: "(\<And>x cs. cands_ok cs \<Longrightarrow> cands_ok (f x cs)) \<Longrightarrow> cands_ok cs \<Longrightarrow> cands_ok (fold f xs cs)"
  by (induction xs arbitrary: cs) simp_all

lemma cands_whole: "cands_ok cs \<Longrightarrow> cands_ok (whole_lines w lines cs)"
  unfolding whole_lines_table by (rule cands_fold) (rule cands_add)

lemma cands_alts: "(\<And>c cs. cands_ok cs \<Longrightarrow> cands_ok (rec c cs)) \<Longrightarrow> cands_ok cs \<Longrightarrow> cands_ok (split_alts look rec alts cs)"
  by (induction alts arbitrary: cs) (simp_all split: option.split)

lemma cands_rec: "cands_ok cs \<Longrightarrow> cands_ok (clks_inputm_rebuild_split_candidates_rec n data w p cs)"
proof (induction n arbitrary: w p cs)
  case (Suc n)
  have "cands_ok (fold (\<lambda>end cs. split_alts (look end) (\<lambda>cand cs. clks_inputm_rebuild_split_candidates_rec n data (drop end w) (ap cand) cs) alts cs) ends cs)"
    for look ap alts ends
    by (rule cands_fold [OF _ Suc.prems]) (rule cands_alts, rule Suc.IH)
  then show ?case using Suc.prems cands_add by (simp del: upt_Suc)
qed simp

lemma cands_split: "cands_ok cs \<Longrightarrow> cands_ok (clks_inputm_rebuild_split_candidates data w cs)"
  by (simp add: clks_inputm_rebuild_split_candidates_def cands_rec)

text \<open>What the steps of an operation leave of the state.\<close>

definition in_rest :: "('d, 't) input_state \<Rightarrow> kbd_state \<times> clks_inputm_entry list \<times> nat \<times> nat \<times> string" where
  "in_rest s = (in_kbd s, clks_inputm_entries s, clks_inputm_entry_count s, clks_inputm_current_index s, clks_inputm_comp s)"

lemma input_okI:
  assumes "input_ok s" "in_rest s' = in_rest s" "cands_ok (clks_inputm_candidates s')" "length (clks_inputm_status s') < 384"
    "clks_inputm_candidate_page s' = 0 \<or> clks_inputm_candidate_page s' * 5 < length (clks_inputm_candidates s')"
    "clks_inputm_comp s' = [] \<longrightarrow> clks_inputm_candidates s' = []"
  shows "input_ok s'"
  using assms by (simp add: input_ok_def in_rest_def cands_ok_def)

lemma read_rules_frame: "read_rules dk p s = (d, s') \<Longrightarrow> \<exists>fs. s' = s\<lparr>in_fs := fs\<rparr>"
  by (auto simp: read_rules_def split: prod.splits)

lemma rebuild_frame:
  "in_rest (clks_inputm_rebuild_candidates dk s) = in_rest s \<and> cands_ok (clks_inputm_candidates (clks_inputm_rebuild_candidates dk s)) \<and>
   clks_inputm_candidate_page (clks_inputm_rebuild_candidates dk s) = 0 \<and>
   clks_inputm_status (clks_inputm_rebuild_candidates dk s) = clks_inputm_status s \<and>
   (clks_inputm_comp s = [] \<longrightarrow> clks_inputm_candidates (clks_inputm_rebuild_candidates dk s) = [])"
proof -
  let ?c = "clks_inputm_clear_candidates s"
  obtain d s1 where r: "read_rules dk (ie_rule_path (clks_inputm_entries ?c ! clks_inputm_current_index ?c)) ?c = (d, s1)" by fastforce
  obtain fs where s1: "s1 = ?c\<lparr>in_fs := fs\<rparr>" using read_rules_frame [OF r] by blast
  have e: "cands_ok []" by (simp add: cands_ok_def)
  show ?thesis
    unfolding clks_inputm_rebuild_candidates_def Let_def r s1
    using cands_split cands_whole [OF e] e by (simp add: in_rest_def clks_inputm_clear_candidates_def)
qed

lemma refresh_frame:
  "in_rest (clks_inputm_refresh_status tt s) = in_rest s \<and>
   clks_inputm_candidates (clks_inputm_refresh_status tt s) = clks_inputm_candidates s \<and>
   length (clks_inputm_status (clks_inputm_refresh_status tt s)) < 384 \<and>
   clks_inputm_candidate_page (clks_inputm_refresh_status tt s) =
     (if clks_inputm_comp s \<noteq> [] \<and> clks_inputm_candidate_page s * 5 \<ge> length (clks_inputm_candidates s) then 0
      else clks_inputm_candidate_page s) \<and>
   in_fs (clks_inputm_refresh_status tt s) = in_fs s"
  by (simp add: clks_inputm_refresh_status_def Let_def in_rest_def clks_inputm_copy_string_def CLKS_INPUTM_STATUS_MAX_def
      CLKS_INPUTM_CAND_PAGE_SIZE_def min_less_iff_disj)

lemma input_ok_refresh:
  assumes "input_ok (s\<lparr>clks_inputm_candidate_page := 0\<rparr>)" "clks_inputm_comp s \<noteq> [] \<or> clks_inputm_candidate_page s = 0"
  shows "input_ok (clks_inputm_refresh_status tt s)"
  using assms refresh_frame [of tt s] by (auto simp: input_ok_def in_rest_def)

lemma page_0: "clks_inputm_candidate_page s = 0 \<Longrightarrow> s\<lparr>clks_inputm_candidate_page := 0\<rparr> = s"
  by simp

lemma input_ok_refresh' [input_oks]: "input_ok s \<Longrightarrow> input_ok (clks_inputm_refresh_status tt s)"
  using refresh_frame [of tt s] by (auto simp: input_ok_def in_rest_def)

lemma input_ok_end [input_oks]: "input_ok s \<Longrightarrow> input_ok (end_comp tt s)"
  unfolding end_comp_def by (rule input_ok_refresh') (simp add: input_ok_def clks_inputm_clear_candidates_def)

lemma input_ok_rebuild:
  assumes "input_ok s" "length w < 32" "list_all clks_inputm_is_alpha w"
  shows "input_ok (clks_inputm_refresh_status tt (clks_inputm_rebuild_candidates dk (s\<lparr>clks_inputm_comp := w\<rparr>)))"
  by (rule input_ok_refresh') (use assms rebuild_frame [of dk "s\<lparr>clks_inputm_comp := w\<rparr>"] in \<open>auto simp: input_ok_def in_rest_def cands_ok_def\<close>)

lemma input_ok_inject [input_oks]: "input_ok s \<Longrightarrow> input_ok (in_inject tt i w s)"
proof -
  assume s: "input_ok s"
  obtain r k where p: "inject_loop (tt_count tt (in_tty s)) i w (in_kbd s) = (r, k)" by fastforce
  from kbd_inject [OF input_ok_kbd_ok [OF s] refl p] have "kbd_ok k" by blast
  with s show ?thesis by (simp add: in_inject_def clks_keyboard_inject_text_for_tty_def p input_oks)
qed

lemma input_ok_read: "read_rules dk p s = (d, s') \<Longrightarrow> input_ok s \<Longrightarrow> input_ok s'"
  by (auto dest!: read_rules_frame intro: input_oks)

lemma input_ok_lookup: "clks_inputm_lookup_candidate dk key i n s = (r, s') \<Longrightarrow> input_ok s \<Longrightarrow> input_ok s'"
  by (auto simp: clks_inputm_lookup_candidate_def Let_def dest: input_ok_read split: if_splits prod.splits)

lemma input_ok_commit [input_oks]: "input_ok s \<Longrightarrow> input_ok (snd (clks_inputm_commit_comp dk tt t i fl s))"
proof -
  assume s: "input_ok s"
  obtain r s' where l: "clks_inputm_lookup_candidate dk (clks_inputm_comp s) (clks_inputm_candidate_page s * CLKS_INPUTM_CAND_PAGE_SIZE + i)
    CLKS_INPUTM_CAND_BYTES s = (r, s')" by fastforce
  have "input_ok s'" by (rule input_ok_lookup [OF l s])
  with s show ?thesis by (cases r) (simp_all add: clks_inputm_commit_comp_def Let_def l input_oks)
qed

lemma input_ok_handle_char [input_oks]: "input_ok s \<Longrightarrow> input_ok (snd (clks_inputm_handle_char dk tt t ch s))"
proof -
  assume s: "input_ok s"
  let ?w = "clks_inputm_comp s"
  have low: "clks_inputm_is_alpha (clks_inputm_lower ch)" if "clks_inputm_is_alpha ch"
    using that by (auto simp: clks_inputm_is_alpha_def clks_inputm_lower_def Let_def)
  have grow: "input_ok (clks_inputm_refresh_status tt (clks_inputm_rebuild_candidates dk
      (s\<lparr>clks_inputm_comp := ?w @ [if b then clks_inputm_lower ch else ch]\<rparr>)))"
    if "clks_inputm_is_alpha ch" "length ?w + 1 < 32" for b
    by (rule input_ok_rebuild [OF s]) (use that low s in \<open>auto simp: input_ok_def\<close>)
  have shrink: "input_ok (clks_inputm_refresh_status tt (clks_inputm_rebuild_candidates dk (s\<lparr>clks_inputm_comp := butlast ?w\<rparr>)))"
    by (rule input_ok_rebuild [OF s]) (use s in \<open>auto simp: input_ok_def list_all_iff dest: in_set_butlastD\<close>)
  have page: "input_ok (clks_inputm_refresh_status tt (s\<lparr>clks_inputm_candidate_page := p\<rparr>))" if "?w \<noteq> []" for p
    by (rule input_ok_refresh) (use s that in \<open>simp_all add: input_ok_def\<close>)
  show ?thesis
    unfolding clks_inputm_handle_char_def Let_def CLKS_INPUTM_COMP_MAX_def
    by (simp add: s grow shrink page input_oks)
qed

text \<open>Registration: nothing, a change of the entry of this name, or a new entry.\<close>

lemma copy_length: "0 < n \<Longrightarrow> length (clks_inputm_copy_string n t) < n"
  by (auto simp: clks_inputm_copy_string_def min_less_iff_disj split: option.split)

lemma register_cases:
  assumes "clks_inputm_register_rule_internal name path rule_path label flags s = (r, s')"
  obtains (same) "s' = s"
  | (update) i e where "i < clks_inputm_entry_count s" "s' = s\<lparr>clks_inputm_entries := (clks_inputm_entries s)[i := e]\<rparr>"
      "ie_used e = ie_used (clks_inputm_entries s ! i)" "ie_name e = ie_name (clks_inputm_entries s ! i)" "length (ie_label e) < 16"
  | (new) e where "clks_inputm_entry_count s < 8" "ie_used e" "length (ie_name e) < 32" "length (ie_label e) < 16"
      "s' = s\<lparr>clks_inputm_entries := (clks_inputm_entries s)[clks_inputm_entry_count s := e], clks_inputm_entry_count := clks_inputm_entry_count s + 1\<rparr>"
proof -
  have l: "length (clks_inputm_copy_string CLKS_INPUTM_LABEL_MAX t) < 16" "length (clks_inputm_copy_string CLKS_INPUTM_NAME_MAX t) < 32" for t
    using copy_length [of CLKS_INPUTM_LABEL_MAX t] copy_length [of CLKS_INPUTM_NAME_MAX t]
    by (simp_all add: CLKS_INPUTM_LABEL_MAX_def CLKS_INPUTM_NAME_MAX_def)
  let ?p = "\<lambda>i. ie_used (clks_inputm_entries s ! i) \<and> ie_name (clks_inputm_entries s ! i) = the name"
  let ?l = "if label = None \<or> label = Some [] then Some (clks_inputm_default_label CLKS_INPUTM_LABEL_MAX flags) else label"
  let ?f = "\<lambda>e. e\<lparr>ie_path := clks_inputm_copy_string CLKS_INPUTM_PATH_MAX path, ie_rule_path := clks_inputm_copy_string CLKS_INPUTM_PATH_MAX rule_path,
      ie_label := clks_inputm_copy_string CLKS_INPUTM_LABEL_MAX ?l, ie_flags := flags\<rparr>"
  note d = assms [unfolded clks_inputm_register_rule_internal_def Let_def]
  show thesis
  proof (cases "name = None \<or> name = Some []")
    case True
    with d same show ?thesis by simp
  next
    case False
    show ?thesis
    proof (cases "find ?p [0..<clks_inputm_entry_count s]")
      case (Some i)
      have "i < clks_inputm_entry_count s" using find_upt_Some [OF Some] by blast
      moreover have "s' = s\<lparr>clks_inputm_entries := (clks_inputm_entries s)[i := ?f (clks_inputm_entries s ! i)]\<rparr>"
        using d by (simp only: False Some if_False option.case prod.inject)
      ultimately show ?thesis by (rule update) (simp_all add: l(1))
    next
      case None
      show ?thesis
      proof (cases "clks_inputm_entry_count s \<ge> CLKS_INPUTM_MAX")
        case True
        with d False None same show ?thesis by simp
      next
        case less: False
        let ?e = "?f ((clks_inputm_entries s ! clks_inputm_entry_count s)\<lparr>ie_used := True, ie_name := clks_inputm_copy_string CLKS_INPUTM_NAME_MAX name\<rparr>)"
        have "s' = s\<lparr>clks_inputm_entries := (clks_inputm_entries s)[clks_inputm_entry_count s := ?e],
            clks_inputm_entry_count := clks_inputm_entry_count s + 1\<rparr>"
          using d by (simp only: False None less if_False option.case prod.inject)
        moreover have "clks_inputm_entry_count s < 8" using less by (simp add: CLKS_INPUTM_MAX_def)
        ultimately show ?thesis by (intro new [of ?e]) (simp_all add: l)
      qed
    qed
  qed
qed

lemma input_ok_register:
  assumes "clks_inputm_register_rule_internal name path rule_path label flags s = (r, s')" "input_ok s"
  shows "input_ok s'"
  using assms(1)
proof (cases rule: register_cases)
  case (update i e)
  with assms(2) show ?thesis by (simp add: input_ok_def nth_list_update)
next
  case (new e)
  have "ie_used (clks_inputm_entries s' ! k) \<and> length (ie_name (clks_inputm_entries s' ! k)) < 32 \<and> length (ie_label (clks_inputm_entries s' ! k)) < 16"
    if "k < clks_inputm_entry_count s + 1" for k
    using new assms(2) that by (cases "k = clks_inputm_entry_count s") (simp_all add: input_ok_def)
  with new assms(2) show ?thesis by (simp add: input_ok_def)
qed (simp add: assms(2))

lemma input_ok_meta: "clks_inputm_read_rule_meta dk p n l s = (r, s') \<Longrightarrow> input_ok s \<Longrightarrow> input_ok s'"
  by (auto simp: clks_inputm_read_rule_meta_def dest: input_ok_read split: prod.splits option.splits)

lemma input_ok_detect_child: "input_ok s \<Longrightarrow> input_ok (detect_child dk i s)"
  unfolding detect_child_def Let_def
  by (auto split: option.split prod.split intro!: input_ok_register [OF surjective_pairing] dest: input_ok_meta)

lemma input_ok_detect: "input_ok s \<Longrightarrow> input_ok (clks_inputm_detect_userland_imes dk s)"
proof -
  have "input_ok (fold (detect_child dk) is s)" if "input_ok s" for "is"
    using that by (induction "is" arbitrary: s) (simp_all add: input_ok_detect_child)
  then show "input_ok s \<Longrightarrow> input_ok (clks_inputm_detect_userland_imes dk s)"
    by (simp add: clks_inputm_detect_userland_imes_def Let_def)
qed

text \<open>After \<open>clks_inputm_init\<close> the built-in method is registered and selected, whatever the state before.\<close>

lemma input_ok_init:
  assumes "length (clks_inputm_entries s) = 8" "kbd_ok (in_kbd s)"
  shows "input_ok (clks_inputm_init dk tt s)"
proof -
  let ?s1 = "s\<lparr>clks_inputm_entries := map (\<lambda>e. e\<lparr>ie_used := False, ie_name := [], ie_path := [], ie_flags := 0\<rparr>) (clks_inputm_entries s),
      clks_inputm_entry_count := 0, clks_inputm_current_index := 0, clks_inputm_comp := []\<rparr>"
  let ?s2 = "(clks_inputm_clear_candidates ?s1)\<lparr>clks_inputm_status := []\<rparr>"
  obtain r s3 where r: "clks_inputm_register_internal (Some ''SystemENG'') (Some ''builtin'') 0 ?s2 = (r, s3)" by fastforce
  have c: "length (clks_inputm_copy_string CLKS_INPUTM_LABEL_MAX t) < 16" "length (clks_inputm_copy_string CLKS_INPUTM_NAME_MAX t) < 32" for t
    using copy_length [of CLKS_INPUTM_LABEL_MAX t] copy_length [of CLKS_INPUTM_NAME_MAX t]
    by (simp_all add: CLKS_INPUTM_LABEL_MAX_def CLKS_INPUTM_NAME_MAX_def)
  have "input_ok s3"
    using r assms c unfolding clks_inputm_register_internal_def clks_inputm_register_rule_internal_def Let_def
    by (auto simp: input_ok_def clks_inputm_clear_candidates_def CLKS_INPUTM_MAX_def)
  then show ?thesis by (simp add: clks_inputm_init_def Let_def r input_ok_detect input_oks)
qed

lemma input_ok_select [input_oks]: "input_ok s \<Longrightarrow> input_ok (snd (clks_inputm_select tt i s))"
proof -
  assume s: "input_ok s"
  have e: "end_comp tt (s\<lparr>clks_inputm_current_index := i\<rparr>) =
      clks_inputm_refresh_status tt (s\<lparr>clks_inputm_current_index := i, clks_inputm_comp := [], clks_inputm_candidates := [], clks_inputm_candidate_page := 0\<rparr>)"
    by (simp add: end_comp_def clks_inputm_clear_candidates_def)
  have "input_ok (end_comp tt (s\<lparr>clks_inputm_current_index := i\<rparr>))" if "i < clks_inputm_entry_count s"
    unfolding e by (rule input_ok_refresh') (use s that in \<open>simp add: input_ok_def\<close>)
  with s show ?thesis by (simp add: clks_inputm_select_def)
qed

lemma input_ok_cycle [input_oks]: "input_ok s \<Longrightarrow> input_ok (clks_inputm_cycle tt s)"
  by (simp add: clks_inputm_cycle_def input_oks)

lemma kbd_ok_cong: "kbd_ok k \<Longrightarrow> clks_kbd_input_tail k' = clks_kbd_input_tail k \<Longrightarrow> clks_kbd_input_head k' = clks_kbd_input_head k \<Longrightarrow>
    clks_kbd_input_count k' = clks_kbd_input_count k \<Longrightarrow> kbd_ok k'"
  by (simp add: kbd_ok_def)

lemma input_ok_upd: "input_ok s \<Longrightarrow> (\<And>k. kbd_ok k \<Longrightarrow> kbd_ok (f k)) \<Longrightarrow> input_ok (kbd_upd f s)"
  by (simp add: kbd_upd_def input_oks input_ok_kbd_ok)

lemma kbd_ok_push: "kbd_ok k \<Longrightarrow> kbd_ok (snd (clks_keyboard_queue_push_for_tty tc i c k))"
  by (rule kbd_push(2) [OF _ refl surjective_pairing])

lemma kbd_ok_ctrl: "kbd_ok k \<Longrightarrow> kbd_ok (snd (clks_keyboard_try_emit_ctrl_shortcut tc code i k))"
  by (auto simp: clks_keyboard_try_emit_ctrl_shortcut_def kbd_ok_push split: option.split)

lemma input_ok_stop: "input_ok s \<Longrightarrow> input_ok (snd (clks_keyboard_try_force_stop_hotkey tt code s))"
  by (auto simp: clks_keyboard_try_force_stop_hotkey_def intro!: input_oks input_ok_upd elim!: kbd_ok_cong)

lemma input_ok_plain: "input_ok s \<Longrightarrow> input_ok (handle_plain dk tt code s)"
proof -
  assume s: "input_ok s"
  obtain b s1 where s1: "clks_keyboard_try_force_stop_hotkey tt code s = (b, s1)" by fastforce
  have o1: "input_ok s1" using input_ok_stop [OF s, of tt code] by (simp add: s1)
  obtain e k2 where k2: "clks_keyboard_try_emit_ctrl_shortcut (tt_count tt (in_tty s1)) code (tt_active tt (in_tty s)) (in_kbd s1) = (e, k2)" by fastforce
  have o2: "input_ok (s1\<lparr>in_kbd := k2\<rparr>)"
    using kbd_ok_ctrl [OF input_ok_kbd_ok [OF o1], of "tt_count tt (in_tty s1)" code "tt_active tt (in_tty s)"] o1 by (simp add: k2 input_oks)
  obtain b3 t3 where t3: "tt_handle_key tt (clks_keyboard_translate_scancode code k2) (in_tty s1) = (b3, t3)" by fastforce
  have o3: "input_ok (s1\<lparr>in_kbd := k2, in_tty := t3\<rparr>)" using input_ok_world(1) [OF o2, of t3] by simp
  obtain b4 s4 where s4: "clks_inputm_handle_char dk tt (tt_active tt (in_tty s)) (clks_keyboard_translate_scancode code k2)
      (s1\<lparr>in_kbd := k2, in_tty := t3\<rparr>) = (b4, s4)" by fastforce
  have o4: "input_ok s4"
    using input_ok_handle_char [OF o3, of dk tt "tt_active tt (in_tty s)" "clks_keyboard_translate_scancode code k2"] by (simp add: s4)
  show ?thesis
    unfolding handle_plain_def Let_def s1 prod.case k2 using o1 o2 o3 o4 by (simp add: t3 s4 input_ok_upd kbd_ok_push)
qed

lemma input_ok_press: "input_ok s \<Longrightarrow> input_ok (handle_press dk tt code s)"
proof -
  assume s: "input_ok s"
  have sw: "input_ok (handle_switch tt code s)"
    using s by (auto simp: handle_switch_def Let_def intro!: input_ok_upd input_oks elim!: kbd_ok_cong)
  obtain b t1 where t1: "tt_handle_key tt (CHR 0x1B) (in_tty s) = (b, t1)" by fastforce
  have o1: "input_ok (s\<lparr>in_tty := t1\<rparr>)" by (rule input_ok_world(1) [OF s])
  obtain b2 s2 where s2: "clks_inputm_handle_char dk tt (tt_active tt t1) (CHR 0x1B) (s\<lparr>in_tty := t1\<rparr>) = (b2, s2)" by fastforce
  have o2: "input_ok s2" using input_ok_handle_char [OF o1, of dk tt "tt_active tt t1" "CHR 0x1B"] by (simp add: s2)
  show ?thesis
    unfolding handle_press_def Let_def using s sw o1 o2 by (simp add: t1 s2 input_oks input_ok_plain)
qed

lemma input_ok_scancode [input_oks]: "input_ok s \<Longrightarrow> input_ok (clks_keyboard_handle_scancode dk tt sc s)"
proof -
  assume s: "input_ok s"
  have ext: "input_ok (handle_ext tt code s)" for code
    using s by (auto simp: handle_ext_def Let_def intro!: input_ok_upd input_oks kbd_ok_push elim!: kbd_ok_cong)
  show ?thesis
    unfolding clks_keyboard_handle_scancode_def Let_def
    using s by (auto intro!: ext input_ok_press input_ok_upd elim!: kbd_ok_cong simp: clks_keyboard_reset_modifier_state_def)
qed

section \<open>Every state of the input\<close>

definition input_boot :: "'d fs_state \<Rightarrow> 't \<Rightarrow> ('d, 't) input_state" where
  "input_boot fs t = \<lparr>in_kbd = kbd_boot,
     clks_inputm_entries = replicate 8 \<lparr>ie_used = False, ie_name = [], ie_path = [], ie_rule_path = [], ie_label = [], ie_flags = 0\<rparr>,
     clks_inputm_entry_count = 0, clks_inputm_current_index = 0, clks_inputm_comp = [], clks_inputm_candidates = [],
     clks_inputm_candidate_page = 0, clks_inputm_status = [], in_fs = fs, in_tty = t\<rparr>"

text \<open>The start of \<open>kmain\<close>, then any calls; the file system and the terminals may change in between.\<close>

inductive input_reachable :: "'d disk_ops \<Rightarrow> 't tty_ops \<Rightarrow> ('d, 't) input_state \<Rightarrow> bool" for dk tt where
  reach_start: "input_reachable dk tt (kbd_upd clks_keyboard_init (clks_inputm_init dk tt (input_boot fs t)))"
| reach_ready: "input_reachable dk tt s \<Longrightarrow> input_reachable dk tt (kbd_upd (clks_keyboard_set_input_ready b) s)"
| reach_scancode: "input_reachable dk tt s \<Longrightarrow> input_reachable dk tt (clks_keyboard_handle_scancode dk tt sc s)"
| reach_pop: "input_reachable dk tt s \<Longrightarrow>
    input_reachable dk tt (kbd_upd (\<lambda>k. snd (clks_keyboard_pop_char_for_tty (tt_count tt (in_tty s)) i k)) s)"
| reach_register: "input_reachable dk tt s \<Longrightarrow> input_reachable dk tt (snd (clks_inputm_register tt name path flags s))"
| reach_rule: "input_reachable dk tt s \<Longrightarrow> input_reachable dk tt (snd (clks_inputm_register_rule tt name path rule_path label flags s))"
| reach_select: "input_reachable dk tt s \<Longrightarrow> input_reachable dk tt (snd (clks_inputm_select tt i s))"
| reach_status: "input_reachable dk tt s \<Longrightarrow> input_reachable dk tt (clks_inputm_status_set tt line s)"
| reach_world: "input_reachable dk tt s \<Longrightarrow> input_reachable dk tt (s\<lparr>in_fs := fs, in_tty := t\<rparr>)"

lemma kbd_ok_mods: "kbd_ok k \<Longrightarrow> kbd_ok (clks_keyboard_reset_modifier_state k)"
  by (erule kbd_ok_cong) (simp_all add: clks_keyboard_reset_modifier_state_def)

lemma input_reachable_ok: "input_reachable dk tt s \<Longrightarrow> input_ok s"
proof (induction rule: input_reachable.induct)
  case (reach_start fs t)
  have "input_ok (clks_inputm_init dk tt (input_boot fs t))"
    by (rule input_ok_init) (simp_all add: input_boot_def kbd_boot_ok)
  then show ?case
    by (rule input_ok_upd) (auto simp: clks_keyboard_init_def intro!: kbd_ok_cong [OF kbd_ok_mods [OF kbd_empty(1)]])
next
  case (reach_ready s b)
  then show ?case
    by (elim input_ok_upd) (auto simp: clks_keyboard_set_input_ready_def clks_keyboard_flush_def
        intro!: kbd_ok_mods kbd_empty(1) kbd_ok_cong [OF kbd_ok_mods [OF kbd_empty(1)]])
next
  case (reach_pop s i)
  then show ?case by (elim input_ok_upd) (rule kbd_pop(2) [OF _ refl surjective_pairing])
next
  case (reach_register s name path flags)
  then show ?case
    by (auto simp: clks_inputm_register_def clks_inputm_register_internal_def split: prod.split intro!: input_oks dest: input_ok_register)
next
  case (reach_rule s name path rule_path label flags)
  then show ?case
    by (auto simp: clks_inputm_register_rule_def split: prod.split intro!: input_oks dest: input_ok_register)
next
  case (reach_status s line)
  then show ?case
    using copy_length [of CLKS_INPUTM_STATUS_MAX line] by (auto simp: clks_inputm_status_set_def input_ok_def CLKS_INPUTM_STATUS_MAX_def)
next
  case (reach_world s fs t)
  then show ?case by (simp add: input_ok_def)
qed (simp_all add: input_oks)

text \<open>C39.
  In every state the input can be in, after the start and any scan codes, reads, registrations and
  selections, with any terminals and any contents of the file system: the ring of each terminal is well
  formed and holds at most 256 characters; the method that is selected is one of the at most eight in use;
  the composition is at most 31 letters; there are at most 64 candidates of at most 63 bytes, none without a
  composition; and the page shown is the first or starts at a candidate.\<close>

theorem input_invariant:
  assumes "input_reachable dk tt s"
  shows "input_ok s \<and> (\<forall>t < 8. length (kbd_waiting (in_kbd s) t) \<le> 256) \<and>
    ie_used (clks_inputm_entries s ! clks_inputm_current s) \<and>
    (clks_inputm_candidate_page s < page_count s \<or> clks_inputm_candidate_page s = 0)"
proof -
  have s: "input_ok s" by (rule input_reachable_ok [OF assms])
  have "clks_inputm_candidate_page s < page_count s \<or> clks_inputm_candidate_page s = 0"
    using s by (auto simp: input_ok_def page_count_def CLKS_INPUTM_CAND_PAGE_SIZE_def)
  moreover have "length (kbd_waiting (in_kbd s) t) \<le> 256" if "t < 8" for t
    using kbd_okD [OF input_ok_kbd_ok [OF s] that] by (simp add: CLKS_KBD_INPUT_CAP_def)
  ultimately show ?thesis using s by (simp add: input_ok_def clks_inputm_current_def)
qed

definition demo_tty :: "unit tty_ops" where
  "demo_tty = \<lparr>tt_count = (\<lambda>_. 4), tt_active = (\<lambda>_. 1), tt_switch = (\<lambda>_ t. t), tt_page_up = (\<lambda>t. t), tt_page_down = (\<lambda>t. t),
     tt_handle_key = (\<lambda>_ t. (False, t)), tt_status_refresh = (\<lambda>t. t), tt_force_stop = (\<lambda>_ t. t)\<rparr>"

theorem input_invariant_witness:
  "input_ok (kbd_upd clks_keyboard_init (clks_inputm_init rule_disk demo_tty (input_boot blank_fs ())))"
  by (rule input_invariant [OF reach_start, THEN conjunct1])

section \<open>From the keys to the queue\<close>

text \<open>The character of a key, and the scan codes of a keystroke, with the left shift key where it is needed.\<close>

definition plain_char :: "bool \<Rightarrow> u8 \<Rightarrow> char" where
  "plain_char sh code = (if sh then clks_kbd_shift_map else clks_kbd_map) ! unat code"

definition keystroke :: "bool \<Rightarrow> u8 \<Rightarrow> u8 list" where
  "keystroke sh code = (if sh then [0x2A, code, code OR 0x80, 0xAA] else [code, code OR 0x80])"

definition keystrokes :: "(bool \<times> u8) list \<Rightarrow> u8 list" where
  "keystrokes keys = concat (map (\<lambda>(sh, code). keystroke sh code) keys)"

definition typeable :: "char \<Rightarrow> bool" where
  "typeable c \<longleftrightarrow> (of_char c :: nat) \<in> {8, 9, 10} \<union> {32..<127}"

lemma key_table:
  "list_all (\<lambda>i. (clks_kbd_map ! i = CHR 0x00 \<and> clks_kbd_shift_map ! i = CHR 0x00) \<or> i \<notin> {0x1D, 0x38, 0x2A, 0x36, 0x01, 0x60} \<and> i < 0x3B) [0..<128]"
  by code_simp

lemma key_exists:
  "list_all (\<lambda>n. char_of n \<in> set clks_kbd_map \<or> char_of n \<in> set clks_kbd_shift_map) (8 # 9 # 10 # [32..<127])"
  by code_simp

lemma code_bits:
  "list_all (\<lambda>n. (word_of_nat n :: u8) AND 0x80 = 0 \<and> (word_of_nat n :: u8) AND 0x7F = word_of_nat n \<and>
     (word_of_nat n OR (0x80 :: u8)) AND 0x80 \<noteq> 0 \<and> (word_of_nat n OR (0x80 :: u8)) AND 0x7F = word_of_nat n) [0..<128]"
  by code_simp

text \<open>The facts about the code of a key that has a character.\<close>

lemma key_code:
  assumes "code < 128" "plain_char sh code \<noteq> CHR 0x00"
  shows "code AND 0x80 = 0" "code AND 0x7F = code" "(code OR 0x80) AND 0x80 \<noteq> 0" "(code OR 0x80) AND 0x7F = code"
    "code \<noteq> CLKS_SC_EXT_PREFIX" "code OR 0x80 \<noteq> CLKS_SC_EXT_PREFIX" "code \<noteq> CLKS_SC_CTRL" "code \<noteq> CLKS_SC_ALT"
    "code \<noteq> CLKS_SC_LSHIFT" "code \<noteq> CLKS_SC_RSHIFT" "code \<noteq> CLKS_SC_ESC"
proof -
  define n where "n = unat code"
  have n: "n < 128" using assms(1) by (simp add: n_def word_less_nat_alt)
  have c: "code = word_of_nat n" by (simp add: n_def)
  show b: "code AND 0x80 = 0" "code AND 0x7F = code" "(code OR 0x80) AND 0x80 \<noteq> 0" "(code OR 0x80) AND 0x7F = code"
    using code_bits n unfolding list_all_iff c by auto
  have k: "n \<notin> {0x1D, 0x38, 0x2A, 0x36, 0x01, 0x60}" "n < 0x3B"
    using key_table n assms(2) unfolding list_all_iff plain_char_def n_def [symmetric] by (auto split: if_splits)
  have "code \<noteq> m" if "unat m \<noteq> n" for m using that by (auto simp: n_def)
  then show "code \<noteq> CLKS_SC_EXT_PREFIX" "code \<noteq> CLKS_SC_CTRL" "code \<noteq> CLKS_SC_ALT"
    "code \<noteq> CLKS_SC_LSHIFT" "code \<noteq> CLKS_SC_RSHIFT" "code \<noteq> CLKS_SC_ESC"
    using k by (simp_all add: scan_codes)
  show "code OR 0x80 \<noteq> CLKS_SC_EXT_PREFIX"
  proof
    assume "code OR 0x80 = CLKS_SC_EXT_PREFIX"
    then have "code = 0xE0 AND 0x7F" using b(4) by (simp add: scan_codes)
    then have "n = 0x60" by (simp add: n_def)
    with k show False by simp
  qed
qed

definition idle :: "bool \<Rightarrow> kbd_state \<Rightarrow> bool" where
  "idle sh k \<longleftrightarrow> clks_kbd_input_ready k \<and> \<not> clks_kbd_alt_down k \<and> clks_kbd_lshift_down k = sh \<and> \<not> clks_kbd_rshift_down k \<and>
     \<not> clks_kbd_lctrl_down k \<and> \<not> clks_kbd_rctrl_down k \<and> \<not> clks_kbd_e0_prefix k"

lemma idle_keys: "idle sh k \<Longrightarrow> kbd_keys k' = kbd_keys k \<Longrightarrow> idle sh k'"
  by (simp add: idle_def kbd_keys_def)

text \<open>The terminals let a key pass, and the method does not compose.\<close>

definition passes :: "'t tty_ops \<Rightarrow> ('d, 't) input_state \<Rightarrow> bool" where
  "passes tt s \<longleftrightarrow> (\<forall>c. tt_handle_key tt c (in_tty s) = (False, in_tty s)) \<and>
     clks_inputm_current_index s < clks_inputm_entry_count s \<and>
     ie_flags (clks_inputm_entries s ! clks_inputm_current_index s) AND CLKS_INPUTM_FLAG_RULE_TABLE = 0"

lemma passes_kbd [simp]: "passes tt (s\<lparr>in_kbd := k\<rparr>) = passes tt s"
  by (simp add: passes_def)

lemma press:
  assumes k: "code < 128" "plain_char sh code \<noteq> CHR 0x00" and i: "idle sh (in_kbd s)" and p: "passes tt s"
  shows "clks_keyboard_handle_scancode dk tt code s = s\<lparr>in_kbd := snd (clks_keyboard_queue_push_for_tty (tt_count tt (in_tty s))
    (tt_active tt (in_tty s)) (plain_char sh code) (in_kbd s))\<rparr>"
proof -
  note c = key_code [OF k]
  have ctrl: "\<not> clks_keyboard_ctrl_active (in_kbd s)" using i by (simp add: idle_def clks_keyboard_ctrl_active_def)
  have tr: "clks_keyboard_translate_scancode code (in_kbd s) = plain_char sh code"
    using i by (simp add: idle_def clks_keyboard_translate_scancode_def clks_keyboard_shift_active_def plain_char_def)
  have hc: "clks_inputm_handle_char dk tt t ch s = (False, s)" for t ch
    using p by (simp add: passes_def clks_inputm_handle_char_def Let_def)
  have fs: "clks_keyboard_try_force_stop_hotkey tt code s = (False, s)"
    using i by (simp add: clks_keyboard_try_force_stop_hotkey_def idle_def)
  have em: "clks_keyboard_try_emit_ctrl_shortcut tc code t (in_kbd s) = (False, in_kbd s)" for tc t
    using ctrl by (simp add: clks_keyboard_try_emit_ctrl_shortcut_def)
  have "handle_plain dk tt code s = s\<lparr>in_kbd := snd (clks_keyboard_queue_push_for_tty (tt_count tt (in_tty s))
      (tt_active tt (in_tty s)) (plain_char sh code) (in_kbd s))\<rparr>"
    using p k(2) hc by (simp add: handle_plain_def Let_def fs em tr passes_def kbd_upd_def)
  then show ?thesis
    unfolding clks_keyboard_handle_scancode_def Let_def c(2) handle_press_def
    using i ctrl c by (simp add: idle_def)
qed

lemma release:
  assumes k: "code < 128" "plain_char sh code \<noteq> CHR 0x00" and i: "idle sh (in_kbd s)"
  shows "\<exists>k. clks_keyboard_handle_scancode dk tt (code OR 0x80) s = s\<lparr>in_kbd := k\<rparr> \<and> idle sh k \<and>
    (kbd_ok (in_kbd s) \<longrightarrow> kbd_ok k) \<and> kbd_waiting k = kbd_waiting (in_kbd s)"
proof -
  note c = key_code [OF k]
  let ?k = "(if code = CLKS_SC_C then (in_kbd s)\<lparr>clks_kbd_force_stop_latch := False\<rparr> else in_kbd s)\<lparr>clks_kbd_e0_prefix := False\<rparr>"
  have "clks_keyboard_handle_scancode dk tt (code OR 0x80) s = s\<lparr>in_kbd := ?k\<rparr>"
    unfolding clks_keyboard_handle_scancode_def Let_def c(4) using i c by (simp add: idle_def kbd_upd_def)
  moreover have "idle sh ?k" "kbd_ok (in_kbd s) \<longrightarrow> kbd_ok ?k" "kbd_waiting ?k = kbd_waiting (in_kbd s)"
    using i by (auto simp: idle_def kbd_ok_def kbd_waiting_def fun_eq_iff)
  ultimately show ?thesis by blast
qed

lemma shift_key:
  assumes "idle b (in_kbd s)"
  shows "clks_keyboard_handle_scancode dk tt 0x2A s = s\<lparr>in_kbd := (in_kbd s)\<lparr>clks_kbd_lshift_down := True\<rparr>\<rparr>"
    "clks_keyboard_handle_scancode dk tt 0xAA s = s\<lparr>in_kbd := (in_kbd s)\<lparr>clks_kbd_lshift_down := False\<rparr>\<rparr>"
  using assms by (simp_all add: clks_keyboard_handle_scancode_def Let_def idle_def kbd_upd_def scan_codes)

lemma shift_frame:
  "idle b k \<Longrightarrow> idle b' (k\<lparr>clks_kbd_lshift_down := b'\<rparr>)" "kbd_ok (k\<lparr>clks_kbd_lshift_down := b'\<rparr>) = kbd_ok k"
  "kbd_waiting (k\<lparr>clks_kbd_lshift_down := b'\<rparr>) = kbd_waiting k"
  by (simp_all add: idle_def kbd_ok_def kbd_waiting_def fun_eq_iff)

text \<open>A keystroke appends its character, if there is room.\<close>

lemma keystroke_one:
  assumes k: "code < 128" "plain_char sh code \<noteq> CHR 0x00" and i: "idle False (in_kbd s)" and p: "passes tt s" and ok: "kbd_ok (in_kbd s)"
    and t: "t = clks_keyboard_clamp_tty_index (tt_count tt (in_tty s)) (tt_active tt (in_tty s))"
  shows "\<exists>k. fold (clks_keyboard_handle_scancode dk tt) (keystroke sh code) s = s\<lparr>in_kbd := k\<rparr> \<and> idle False k \<and> kbd_ok k \<and>
    (\<forall>u. kbd_waiting k u = (if u = t then kbd_waiting (in_kbd s) t @ take (256 - length (kbd_waiting (in_kbd s) t)) [plain_char sh code]
       else kbd_waiting (in_kbd s) u))"
proof -
  let ?k1 = "if sh then (in_kbd s)\<lparr>clks_kbd_lshift_down := True\<rparr> else in_kbd s" and ?c = "plain_char sh code"
  define s1 where "s1 = s\<lparr>in_kbd := ?k1\<rparr>"
  have k1: "idle sh (in_kbd s1)" "kbd_ok (in_kbd s1)" "kbd_waiting (in_kbd s1) = kbd_waiting (in_kbd s)"
    using i ok shift_frame(1) [of False "in_kbd s" True] by (simp_all add: s1_def shift_frame(2,3))
  have p1: "passes tt s1" using p by (simp add: s1_def)
  obtain r k2 where push: "clks_keyboard_queue_push_for_tty (tt_count tt (in_tty s)) (tt_active tt (in_tty s)) ?c (in_kbd s1) = (r, k2)" by fastforce
  note P = kbd_push [OF k1(2) t push]
  have pr: "clks_keyboard_handle_scancode dk tt code s1 = s1\<lparr>in_kbd := k2\<rparr>"
    using press [OF k k1(1) p1, of dk] push by (simp add: s1_def)
  have i2: "idle sh (in_kbd (s1\<lparr>in_kbd := k2\<rparr>))" using idle_keys [OF k1(1) P(3)] by simp
  from release [OF k i2] obtain k3 where k3: "clks_keyboard_handle_scancode dk tt (code OR 0x80) (s1\<lparr>in_kbd := k2\<rparr>) = s1\<lparr>in_kbd := k3\<rparr>"
    "idle sh k3" "kbd_ok k3" "kbd_waiting k3 = kbd_waiting k2" using P(2) by auto
  let ?k4 = "if sh then k3\<lparr>clks_kbd_lshift_down := False\<rparr> else k3"
  have "fold (clks_keyboard_handle_scancode dk tt) (keystroke sh code) s = s\<lparr>in_kbd := ?k4\<rparr>"
  proof (cases sh)
    case True
    have "clks_keyboard_handle_scancode dk tt 0x2A s = s1" using shift_key(1) [OF i, of dk tt] True by (simp add: s1_def)
    moreover have "clks_keyboard_handle_scancode dk tt 0xAA (s1\<lparr>in_kbd := k3\<rparr>) = s\<lparr>in_kbd := ?k4\<rparr>"
      using shift_key(2) [of sh "s1\<lparr>in_kbd := k3\<rparr>" dk tt] k3(2) True by (simp add: s1_def)
    ultimately show ?thesis using True pr k3(1) by (simp add: keystroke_def)
  next
    case False
    then have "s1 = s" by (simp add: s1_def)
    with False pr k3(1) show ?thesis by (simp add: keystroke_def)
  qed
  moreover have "idle False ?k4" "kbd_ok ?k4" "kbd_waiting ?k4 = kbd_waiting k2"
    using k3(2-) shift_frame(1) [of sh k3 False] by (auto simp: shift_frame(2,3))
  moreover have "kbd_waiting k2 u = (if u = t then kbd_waiting (in_kbd s) t @ take (256 - length (kbd_waiting (in_kbd s) t)) [?c]
       else kbd_waiting (in_kbd s) u)" for u
    using P(1,4) by (auto simp: k1(3) simp del: kbd_waiting_length)
  ultimately show ?thesis by (intro exI [of _ ?k4]) (simp del: kbd_waiting_length)
qed

lemma keystrokes_all:
  assumes "\<forall>(sh, code) \<in> set keys. code < 128 \<and> plain_char sh code \<noteq> CHR 0x00"
    and "idle False (in_kbd s)" "passes tt s" "kbd_ok (in_kbd s)"
    and t: "t = clks_keyboard_clamp_tty_index (tt_count tt (in_tty s)) (tt_active tt (in_tty s))"
  shows "\<exists>k. fold (clks_keyboard_handle_scancode dk tt) (keystrokes keys) s = s\<lparr>in_kbd := k\<rparr> \<and> idle False k \<and> kbd_ok k \<and>
    (\<forall>u. kbd_waiting k u = (if u = t
       then kbd_waiting (in_kbd s) t @ take (256 - length (kbd_waiting (in_kbd s) t)) (map (\<lambda>(sh, code). plain_char sh code) keys)
       else kbd_waiting (in_kbd s) u))"
  using assms
proof (induction keys arbitrary: s)
  case Nil
  then show ?case by (intro exI [of _ "in_kbd s"]) (simp add: keystrokes_def)
next
  case (Cons key keys)
  obtain sh code where key: "key = (sh, code)" by fastforce
  with Cons.prems(1) have kc: "code < 128" "plain_char sh code \<noteq> CHR 0x00" by auto
  from keystroke_one [OF kc Cons.prems(2-5), of dk] obtain k where k:
    "fold (clks_keyboard_handle_scancode dk tt) (keystroke sh code) s = s\<lparr>in_kbd := k\<rparr>" "idle False k" "kbd_ok k"
    "\<And>u. kbd_waiting k u = (if u = t then kbd_waiting (in_kbd s) t @ take (256 - length (kbd_waiting (in_kbd s) t)) [plain_char sh code]
       else kbd_waiting (in_kbd s) u)" by blast
  let ?s = "s\<lparr>in_kbd := k\<rparr>"
  from Cons.IH [of ?s] Cons.prems k(2,3) obtain k' where k':
    "fold (clks_keyboard_handle_scancode dk tt) (keystrokes keys) ?s = ?s\<lparr>in_kbd := k'\<rparr>" "idle False k'" "kbd_ok k'"
    "\<And>u. kbd_waiting k' u = (if u = t
       then kbd_waiting k t @ take (256 - length (kbd_waiting k t)) (map (\<lambda>(sh, code). plain_char sh code) keys)
       else kbd_waiting k u)" by (auto simp del: kbd_waiting_length)
  have split: "take n (c # cs) = take n [c] @ take (n - length (take n [c])) cs" for n and c :: char and cs by (cases n) simp_all
  have "kbd_waiting k' u = (if u = t
       then kbd_waiting (in_kbd s) t @ take (256 - length (kbd_waiting (in_kbd s) t)) (map (\<lambda>(sh, code). plain_char sh code) (key # keys))
       else kbd_waiting (in_kbd s) u)" for u
    using split [of "256 - length (kbd_waiting (in_kbd s) t)" "plain_char sh code" "map (\<lambda>(sh, code). plain_char sh code) keys"]
    by (simp add: k'(4) k(4) key del: kbd_waiting_length)
  moreover have "fold (clks_keyboard_handle_scancode dk tt) (keystrokes (key # keys)) s = s\<lparr>in_kbd := k'\<rparr>"
    using k(1) k'(1) by (simp add: keystrokes_def key)
  ultimately show ?case using k'(2,3) by blast
qed

lemma map_key:
  assumes "c \<in> set m" "length m = 128"
  shows "\<exists>code :: u8. code < 128 \<and> m ! unat code = c"
proof -
  from assms(1) obtain i where i: "i < length m" "m ! i = c" by (auto simp: in_set_conv_nth)
  then have "unat (word_of_nat i :: u8) = i" using assms(2) by (simp add: unat_of_nat)
  with i assms(2) show ?thesis by (intro exI [of _ "word_of_nat i"]) (simp add: word_less_nat_alt)
qed

lemma typeable_key:
  assumes "typeable c"
  shows "\<exists>sh code. code < 128 \<and> plain_char sh code = c \<and> c \<noteq> CHR 0x00"
proof -
  have "(of_char c :: nat) \<in> set (8 # 9 # 10 # [32..<127])" using assms unfolding typeable_def set_upt list.set by blast
  then have "char_of (of_char c :: nat) \<in> set clks_kbd_map \<or> char_of (of_char c :: nat) \<in> set clks_kbd_shift_map"
    using key_exists unfolding list_all_iff by blast
  then have "c \<in> set clks_kbd_map \<or> c \<in> set clks_kbd_shift_map" by simp
  moreover have "length clks_kbd_map = 128" "length clks_kbd_shift_map = 128" by (simp_all add: clks_kbd_map_def clks_kbd_shift_map_def)
  moreover have "c \<noteq> CHR 0x00" using assms by (auto simp: typeable_def)
  ultimately show ?thesis using map_key [of c clks_kbd_map] map_key [of c clks_kbd_shift_map] unfolding plain_char_def by metis
qed

lemma typeable_keys:
  "list_all typeable word \<Longrightarrow> \<exists>keys. map (\<lambda>(sh, code). plain_char sh code) keys = word \<and>
     (\<forall>(sh, code) \<in> set keys. code < 128 \<and> plain_char sh code \<noteq> CHR 0x00)"
proof (induction word)
  case (Cons c word)
  from Cons.prems typeable_key [of c] obtain sh code where k: "code < 128" "plain_char sh code = c" "c \<noteq> CHR 0x00" by auto
  from Cons obtain keys where "map (\<lambda>(sh, code). plain_char sh code) keys = word"
    "\<forall>(sh, code) \<in> set keys. code < 128 \<and> plain_char sh code \<noteq> CHR 0x00" by auto
  with k show ?case by (intro exI [of _ "(sh, code) # keys"]) simp
qed simp

text \<open>C40.
  What is typed arrives: every text of printable ASCII characters, line feeds, tabs and backspaces has
  keystrokes (a key pressed and released, between a press and a release of the left shift key where that is
  needed), and any keystrokes for it, handled one scan code after the other, put exactly this text at the end
  of the queue of the active terminal, as far as there is room; the other queues, the input method, the
  terminals and the file system do not change, and no modifier key is left down. (No modifier is held at the
  start, the method that is selected does not compose, and the terminals do not take the keys.)\<close>

theorem keyboard_types_text:
  assumes "list_all typeable word" and "idle False (in_kbd s)" "kbd_ok (in_kbd s)" "passes tt s"
    and "t = clks_keyboard_clamp_tty_index (tt_count tt (in_tty s)) (tt_active tt (in_tty s))"
  shows "(\<exists>keys. map (\<lambda>(sh, code). plain_char sh code) keys = word \<and> (\<forall>(sh, code) \<in> set keys. code < 128 \<and> plain_char sh code \<noteq> CHR 0x00)) \<and>
    (\<forall>keys. map (\<lambda>(sh, code). plain_char sh code) keys = word \<and> (\<forall>(sh, code) \<in> set keys. code < 128 \<and> plain_char sh code \<noteq> CHR 0x00) \<longrightarrow>
      (\<exists>k. fold (clks_keyboard_handle_scancode dk tt) (keystrokes keys) s = s\<lparr>in_kbd := k\<rparr> \<and> idle False k \<and>
        (\<forall>u. kbd_waiting k u = (if u = t then kbd_waiting (in_kbd s) t @ take (256 - length (kbd_waiting (in_kbd s) t)) word
                                else kbd_waiting (in_kbd s) u))))"
  using typeable_keys [OF assms(1)] keystrokes_all [OF _ assms(2,4,3,5), of _ dk] by blast

definition typing_input :: "(unit, unit) input_state" where
  "typing_input = (input_boot blank_fs ())\<lparr>in_kbd := kbd_boot\<lparr>clks_kbd_input_ready := True\<rparr>,
     clks_inputm_entry_count := 1\<rparr>"

theorem keyboard_types_text_witness:
  "\<exists>keys k. map (\<lambda>(sh, code). plain_char sh code) keys = ''Hi!'' \<and>
     fold (clks_keyboard_handle_scancode rule_disk demo_tty) (keystrokes keys) typing_input = typing_input\<lparr>in_kbd := k\<rparr> \<and>
     kbd_waiting k 1 = ''Hi!''"
proof -
  have ty: "list_all typeable ''Hi!''" by (simp add: typeable_def)
  have i: "idle False (in_kbd typing_input)" by (simp add: idle_def typing_input_def kbd_boot_def)
  have w: "kbd_waiting (in_kbd typing_input) u = []" for u
    using kbd_boot_ok(2) [of u] by (simp add: typing_input_def kbd_waiting_def)
  have ok: "kbd_ok (in_kbd typing_input)" using kbd_boot_ok(1) by (simp add: typing_input_def kbd_ok_def)
  have p: "passes demo_tty typing_input" by (simp add: passes_def typing_input_def demo_tty_def input_boot_def)
  have t: "1 = clks_keyboard_clamp_tty_index (tt_count demo_tty (in_tty typing_input)) (tt_active demo_tty (in_tty typing_input))"
    by (simp add: demo_tty_def clks_keyboard_clamp_tty_index_def clks_keyboard_effective_tty_count_def CLKS_KBD_TTY_MAX_def)
  note K = keyboard_types_text [OF ty i ok p t, of rule_disk, unfolded w]
  from K [THEN conjunct1] obtain keys where keys: "map (\<lambda>(sh, code). plain_char sh code) keys = ''Hi!''"
    "\<forall>(sh, code) \<in> set keys. code < 128 \<and> plain_char sh code \<noteq> CHR 0x00" by (elim exE conjE) (rule that)
  from K [THEN conjunct2, THEN spec, THEN mp, OF conjI, OF keys] obtain k where "fold (clks_keyboard_handle_scancode rule_disk demo_tty) (keystrokes keys) typing_input = typing_input\<lparr>in_kbd := k\<rparr>"
    "kbd_waiting k 1 = ''Hi!''" by auto
  with keys(1) show ?thesis by (intro exI conjI)
qed
end
