(* ===== verification/Spec2Isabelle.thy ===== *)
theory Spec2Isabelle
  imports Clks_Pmm Clks_Heap Clks_String Clks_Pty Clks_Scheduler Clks_Ramdisk Clks_Service Clks_Fs Clks_Fat_File Clks_Vm Clks_Elf64 Clks_User Clks_Net_Tcp Clks_Input
begin

text \<open>
  CLKS, the kernel of CLeonOS: a model of its core in C, and what is proved of it.

  The boot loader passes a memory map, a direct map of physical memory and a module with a tar image.
  \<open>kernel/core/kmain.c\<close> brings up, in this order, the page allocator, the heap and the paging
  manager, the file system (which reads the image through the ramdisk reader and resolves paths with
  the Rust normaliser), the scheduler and the service table; programs and terminals run on top. The
  theories follow that layering.

  Theories, in the order of their imports. Definitions carry the names of the C functions; a name of
  our own stands for a loop body or a loop of the function named in the comment above it.

    \<^item> \<open>Clks_Prelude\<close>: type synonyms for the C integer types, 64- and 32-bit arithmetic on \<open>nat\<close> with
      its wrap-around written out, lemmas on \<open>while_option\<close>, lists and maps used in several theories.
    \<^item> \<open>Clks_Pmm\<close> (\<open>kernel/memory/pmm.c\<close>): the stack of free pages. \<open>pmm_state\<close> is the four statics.
      The locale \<open>page_allocator\<close> states what a pool of pages promises (no page handed out twice) and
      derives the ownership discipline; the model is its interpretation \<open>pmm\<close>.
    \<^item> \<open>Clks_Heap\<close> (\<open>kernel/memory/heap.c\<close>): block headers in an arena, addressed by offset. Refinement
      of first-fit allocation with coalescing on a list of blocks; the locale of allocators that the
      scheduler and the file system rely on is interpreted here.
    \<^item> \<open>Clks_String\<close> (\<open>kernel/support/string.c\<close>): the five routines on a byte memory.
    \<^item> \<open>Clks_Ring\<close>, \<open>Clks_Pty\<close> (\<open>kernel/runtime/pty.c\<close>): terminals as bounded queues of bytes.
    \<^item> \<open>Clks_Scheduler\<close> (\<open>kernel/core/scheduler.c\<close>): the task table in a heap block that moves when it
      grows, timer ticks, sleeping and round robin. The entry function of a task is a parameter: it may
      call any operation of the scheduler.
    \<^item> \<open>Clks_Ramdisk\<close> (\<open>kernel/storage/ramdisk.c\<close>): the walk over a tar image with its parsers.
    \<^item> \<open>Clks_Service\<close> (\<open>kernel/core/service.c\<close>): the table of kernel services.
    \<^item> \<open>Clks_Path\<close> (\<open>rust/src/path.rs\<close>): the path normalisers that \<open>fs.c\<close> calls.
    \<^item> \<open>Clks_Fs\<close> (\<open>kernel/storage/fs.c\<close>): the node table, whose file contents are slices of the image
      or blocks of the heap, the device directory and the hand-over to the disk below its mount point.
      The disk is a record of operations on a state of its own (the public operations of
      \<open>kernel/storage/disk.c\<close> are not modelled); nothing is assumed of it.
    \<^item> \<open>Clks_Fat\<close>, \<open>Clks_Fat_Table\<close>, \<open>Clks_Fat_Chain\<close>, \<open>Clks_Fat_File\<close> (\<open>kernel/storage/disk/\<close>: \<open>cache_io.inc\<close>,
      \<open>fat_layout.inc\<close>, \<open>fat_alloc.inc\<close>, \<open>file_chain.inc\<close>): the lower half of the disk file system.
      \<open>Clks_Fat\<close> is the model: \<open>disk_state\<close> is the statics, \<open>ata_ops\<close> the drive as functions on a state of its
      own. The lemmas speak of the bytes on the disk as the kernel sees them (\<open>on_disk\<close>: the cache where a
      sector has been loaded, the drive elsewhere) and assume that the drive does not lie (\<open>drive_ok\<close>); it
      may fail at any call, and where a result needs it that it does not is said (\<open>drive_works\<close>).
    \<^item> \<open>Clks_Vm\<close> (\<open>kernel/memory/vm.c\<close>): page tables as memory behind the direct map; tables come from
      \<open>Clks_Pmm\<close>.

    \<^item> \<open>Clks_Bytes\<close>: integers in bytes, and byte memories, for the theories that read structures.
    \<^item> \<open>Clks_Elf64\<close> (\<open>kernel/runtime/elf64.c\<close>): validation and loading of programs into heap blocks.
    \<^item> \<open>Clks_Sha256\<close> (\<open>kernel/runtime/user.c\<close>): the hash of passwords, with the standard beside it.
    \<^item> \<open>Clks_User\<close> (\<open>kernel/runtime/user.c\<close>): the account database as text in a file, login, administration
      and the policy for paths. The locale \<open>account_store\<close> is what it asks of a file system; \<open>Clks_Fs\<close>
      without a disk is its interpretation.
    \<^item> \<open>Clks_Net\<close>, \<open>Clks_Net_State\<close>, \<open>Clks_Net_Wire\<close>, \<open>Clks_Net_Tcp\<close> (\<open>kernel/runtime/net.c\<close>): the network
      stack, from the calls of programs down to a frame. \<open>Clks_Net\<close> is the model: \<open>net_state\<close> is the statics,
      \<open>net_device\<close> the card (transmit and receive descriptors, tick counter, bring-up) as functions on a
      state of its own, of which nothing is assumed; received frames are buffers with a length. The other
      three hold the tables and the invariant, the formats on the wire, and the connection; in the last
      one the card of one host is another host that runs the same stack.
    \<^item> \<open>Clks_Keyboard\<close> (\<open>kernel/input/keyboard.c\<close>): the queues of typed characters and the state of the modifier
      keys. \<open>Clks_Inputm\<close> (\<open>kernel/input/inputm.c\<close>): the table of input methods, rule files read through the
      file system, composition and candidates. \<open>Clks_Input\<close>: the handler of scan codes, which calls both. The
      terminals are a record of functions on a state of their own, of which nothing is assumed.

  What the lemmas show. Each theory has a well-formedness predicate of its state (\<open>pmm_inv\<close>, the heap's
  block list, \<open>vm_ok\<close>, the tree of the file system, the scheduler's invariant) and one lemma per
  operation that the operation keeps it and has its intended result on every branch. The properties
  state the contracts of the components: exclusivity of pages and of heap allocations over whole runs,
  refinement of the heap and of the terminals to abstract objects, correctness of the file operations
  including their failure paths and the ownership of every heap block, progress of the scheduler,
  translation, isolation and release of address spaces, allocation, release, round trip and extension of
  files on the disk with all other files kept also when the drive fails, and of the network stack that it reads no byte
  beyond a frame, keeps its tables, computes the checksums of RFC 1071, and delivers datagrams and a stream
  from one host to another. For the input they are that typed text arrives in the right queue, and that the
  candidates shown are those the rule table gives. Where the code does not do what it means to do,
  the property states what it does: over-aligned requests of the heap, payload alignment, the order in
  which ready tasks are dispatched, a task entry that makes the task table move, an append to a
  sector that is not in the cache, and a send of 65536 bytes, which does not return.

  Conventions. Data that wraps, flags and addresses are machine words; sizes and indices are \<open>nat\<close> with
  \<open>add64\<close>, \<open>sub64\<close> where the code's arithmetic may wrap. A null pointer is \<open>None\<close> or, where addresses are
  words, 0. A loop that need not end is \<open>while_option\<close> or \<open>partial_function (option)\<close>, so that not
  returning is \<open>None\<close>; the theorems then state \<open>Some\<close>. There is no fuel: a number that counts down in a
  loop over a chain of clusters is the guard that the code has.

  Not modelled, and why: log output, serial port, speaker, framebuffer, fonts, splash, desktop, panic
  screen and QR code are device output; the mouse, interrupts, start-up and the ATA driver talk to
  ports and to assembly code; so do the registers, the PCI search and the DMA set-up of the e1000 card in \<open>net.c\<close>; the directories, the cache of whole files, the formatting and the checking of the disk (\<open>disk/*.inc\<close>), \<open>exec/*.inc\<close> (processes and descriptors), \<open>tty/*.inc\<close>
  and \<open>wm/*.inc\<close> (terminals and windows) and the Rust
  system-call layer are components with logic of their own that this development does not reach yet;
  \<open>third_party\<close> is not the project's code. Concurrency is absent from the modelled code: the kernel runs
  these operations with interrupts masked or from one task at a time.
\<close>

end
